(* ===== verification/Prelude.thy ===== *)
theory Prelude
  imports Main "HOL-Library.Word"
begin

text \<open>
  What every component shares: the machine types of the C code, C strings, the return codes
  of \<^verbatim>\<open>lib/mosquitto.h\<close>, the protocol constants of \<^verbatim>\<open>lib/mqtt3_protocol.h\<close>, and the generic
  lemmas on words, lists and strings that the component proofs use through the simplifier.

  A C string is a \<^typ>\<open>string\<close> without its terminating NUL; a buffer of bytes is a list of
  8-bit words. \<open>char_of_byte\<close> and \<open>byte_of_char\<close> go between the two.
\<close>

unbundle bit_operations_syntax

type_synonym byte = "8 word"
type_synonym u16 = "16 word"
type_synonym u32 = "32 word"
type_synonym u64 = "64 word"
type_synonym rc = int

named_theorems codec_simps \<open>how one value is written into a packet and read back\<close>
named_theorems frame_simps \<open>which fields an operation leaves alone\<close>
named_theorems inv_intros \<open>operations keep the invariants\<close>

subsection \<open>Return codes\<close>

abbreviation (input) MOSQ_ERR_CONN_PENDING :: rc where "MOSQ_ERR_CONN_PENDING \<equiv> - 1"
abbreviation (input) MOSQ_ERR_SUCCESS :: rc where "MOSQ_ERR_SUCCESS \<equiv> 0"
abbreviation (input) MOSQ_ERR_NOMEM :: rc where "MOSQ_ERR_NOMEM \<equiv> 1"
abbreviation (input) MOSQ_ERR_PROTOCOL :: rc where "MOSQ_ERR_PROTOCOL \<equiv> 2"
abbreviation (input) MOSQ_ERR_INVAL :: rc where "MOSQ_ERR_INVAL \<equiv> 3"
abbreviation (input) MOSQ_ERR_NO_CONN :: rc where "MOSQ_ERR_NO_CONN \<equiv> 4"
abbreviation (input) MOSQ_ERR_CONN_LOST :: rc where "MOSQ_ERR_CONN_LOST \<equiv> 7"
abbreviation (input) MOSQ_ERR_TLS :: rc where "MOSQ_ERR_TLS \<equiv> 8"
abbreviation (input) MOSQ_ERR_PAYLOAD_SIZE :: rc where "MOSQ_ERR_PAYLOAD_SIZE \<equiv> 9"
abbreviation (input) MOSQ_ERR_AUTH :: rc where "MOSQ_ERR_AUTH \<equiv> 11"
abbreviation (input) MOSQ_ERR_ACL_DENIED :: rc where "MOSQ_ERR_ACL_DENIED \<equiv> 12"
abbreviation (input) MOSQ_ERR_ERRNO :: rc where "MOSQ_ERR_ERRNO \<equiv> 14"

subsection \<open>Message types and CONNACK codes\<close>

abbreviation (input) CONNECT :: byte where "CONNECT \<equiv> 0x10"
abbreviation (input) CONNACK :: byte where "CONNACK \<equiv> 0x20"
abbreviation (input) PUBLISH :: byte where "PUBLISH \<equiv> 0x30"
abbreviation (input) PUBACK :: byte where "PUBACK \<equiv> 0x40"
abbreviation (input) PUBREC :: byte where "PUBREC \<equiv> 0x50"
abbreviation (input) PUBREL :: byte where "PUBREL \<equiv> 0x60"
abbreviation (input) PUBCOMP :: byte where "PUBCOMP \<equiv> 0x70"
abbreviation (input) SUBSCRIBE :: byte where "SUBSCRIBE \<equiv> 0x80"
abbreviation (input) SUBACK :: byte where "SUBACK \<equiv> 0x90"
abbreviation (input) UNSUBSCRIBE :: byte where "UNSUBSCRIBE \<equiv> 0xA0"
abbreviation (input) UNSUBACK :: byte where "UNSUBACK \<equiv> 0xB0"
abbreviation (input) PINGREQ :: byte where "PINGREQ \<equiv> 0xC0"
abbreviation (input) PINGRESP :: byte where "PINGRESP \<equiv> 0xD0"
abbreviation (input) DISCONNECT :: byte where "DISCONNECT \<equiv> 0xE0"

abbreviation (input) CONNACK_ACCEPTED :: byte where "CONNACK_ACCEPTED \<equiv> 0"
abbreviation (input) CONNACK_REFUSED_PROTOCOL_VERSION :: byte where "CONNACK_REFUSED_PROTOCOL_VERSION \<equiv> 1"
abbreviation (input) CONNACK_REFUSED_IDENTIFIER_REJECTED :: byte where "CONNACK_REFUSED_IDENTIFIER_REJECTED \<equiv> 2"
abbreviation (input) CONNACK_REFUSED_SERVER_UNAVAILABLE :: byte where "CONNACK_REFUSED_SERVER_UNAVAILABLE \<equiv> 3"
abbreviation (input) CONNACK_REFUSED_BAD_USERNAME_PASSWORD :: byte where "CONNACK_REFUSED_BAD_USERNAME_PASSWORD \<equiv> 4"
abbreviation (input) CONNACK_REFUSED_NOT_AUTHORIZED :: byte where "CONNACK_REFUSED_NOT_AUTHORIZED \<equiv> 5"

abbreviation (input) MOSQ_ACL_READ :: nat where "MOSQ_ACL_READ \<equiv> 1"
abbreviation (input) MOSQ_ACL_WRITE :: nat where "MOSQ_ACL_WRITE \<equiv> 2"

abbreviation (input) INVALID_SOCKET :: int where "INVALID_SOCKET \<equiv> - 1"

subsection \<open>Bytes and characters\<close>

definition byte_of_char :: "char \<Rightarrow> byte" where
  "byte_of_char c = word_of_nat (of_char c)"

definition char_of_byte :: "byte \<Rightarrow> char" where
  "char_of_byte b = char_of (unat b)"

lemma of_char_nat_bound: "(of_char c :: nat) < 256"
  by (metis of_char_mod_256 mod_less_divisor zero_less_numeral)

lemma char_of_byte_of_char [simp]: "char_of_byte (byte_of_char c) = c"
proof -
  have "unat (word_of_nat (of_char c) :: byte) = of_char c"
    using of_char_nat_bound [of c] by (simp add: unat_of_nat take_bit_nat_eq_self)
  then show ?thesis
    by (simp add: char_of_byte_def byte_of_char_def)
qed

lemma byte_of_char_of_byte [simp]: "byte_of_char (char_of_byte b) = b"
proof -
  have "unat b < 256"
    using unsigned_less [of b] by simp
  then show ?thesis
    by (simp add: char_of_byte_def byte_of_char_def)
qed

lemma char_of_byte_zero [simp]: "char_of_byte 0 = CHR 0x00"
  by (simp add: char_of_byte_def char_of_def)

text \<open>
  A buffer read as a C string ends at the first NUL byte, whatever was copied after it.
\<close>

definition c_string :: "byte list \<Rightarrow> string" where
  "c_string bs = map char_of_byte (takeWhile (\<lambda>b. b \<noteq> 0) bs)"

definition bytes_of :: "string \<Rightarrow> byte list" where
  "bytes_of s = map byte_of_char s"

lemma length_bytes_of [simp]: "length (bytes_of s) = length s"
  by (simp add: bytes_of_def)

lemma byte_of_char_eq_0 [simp]: "byte_of_char c = 0 \<longleftrightarrow> c = CHR 0x00"
proof
  assume "byte_of_char c = 0"
  then have "char_of_byte (byte_of_char c) = char_of_byte 0" by simp
  then show "c = CHR 0x00" by simp
next
  assume "c = CHR 0x00"
  then show "byte_of_char c = 0" by (simp add: byte_of_char_def)
qed

text \<open>A string without an embedded NUL survives the trip through a buffer.\<close>

definition nul_free :: "string \<Rightarrow> bool" where
  "nul_free s \<longleftrightarrow> CHR 0x00 \<notin> set s"

lemma c_string_bytes_of [simp]: "nul_free s \<Longrightarrow> c_string (bytes_of s) = s"
proof -
  assume "nul_free s"
  then have "\<And>b. b \<in> set (bytes_of s) \<Longrightarrow> b \<noteq> 0"
    by (auto simp: nul_free_def bytes_of_def)
  then have "takeWhile (\<lambda>b. b \<noteq> 0) (bytes_of s) = bytes_of s"
    by (simp add: takeWhile_eq_all_conv)
  then have "c_string (bytes_of s) = map char_of_byte (bytes_of s)"
    by (simp only: c_string_def)
  then show "c_string (bytes_of s) = s"
    by (simp add: bytes_of_def comp_def)
qed

lemma nul_free_c_string [simp]: "nul_free (c_string bs)"
proof -
  have "CHR 0x00 \<noteq> char_of_byte b" if "b \<in> set (takeWhile (\<lambda>b. b \<noteq> 0) bs)" for b
  proof
    assume "CHR 0x00 = char_of_byte b"
    then have "byte_of_char (char_of_byte b) = 0" by (metis byte_of_char_eq_0)
    then have "b = 0" by (simp only: byte_of_char_of_byte)
    with that show False by (auto dest: set_takeWhileD)
  qed
  then show ?thesis by (auto simp: nul_free_def c_string_def)
qed

subsection \<open>Words as numbers\<close>

text \<open>
  The bounds tests of the packet reader, \<^verbatim>\<open>pos + n > limit\<close>, are on 32-bit words. Below
  \<^term>\<open>2 ^ 31\<close> they cannot wrap and are the tests on numbers they are meant to be.
\<close>

lemma word_sum_unat:
  fixes p n :: u32
  assumes "unat p < 2 ^ 31" and "unat n < 2 ^ 31"
  shows "unat (p + n) = unat p + unat n"
  using assms by (simp add: unat_word_ariths)

lemma word_bound_test:
  fixes p n l :: u32
  assumes "unat p < 2 ^ 31" and "unat n < 2 ^ 31"
  shows "l < p + n \<longleftrightarrow> unat l < unat p + unat n"
  using word_sum_unat [OF assms] by (simp add: word_less_nat_alt)

lemma unat_bound16: "unat (w :: u16) < 65536"
  using unsigned_less [of w] by simp

lemma unat_bound32: "unat (w :: u32) < 4294967296"
  using unsigned_less [of w] by simp

lemma unat_ucast_16_32 [simp]: "unat (ucast (w :: u16) :: u32) = unat w"
  using unat_bound16 [of w] by (simp add: unsigned_ucast_eq take_bit_nat_eq_self)

lemma ucast_16_32: "(ucast (w :: u16) :: u32) = word_of_nat (unat w)"
  by (rule word_unat_eq_iff [THEN iffD2])
    (use unat_bound16 [of w] in \<open>simp add: unat_of_nat take_bit_nat_eq_self\<close>)

subsection \<open>Lists\<close>

lemma drop_Cons_iff:
  "drop n xs = y # ys \<longleftrightarrow> n < length xs \<and> xs ! n = y \<and> drop (n + 1) xs = ys"
  by (cases "n < length xs") (auto simp: Cons_nth_drop_Suc [symmetric])

lemma take_append_drop_append [simp]: "take n xs @ drop n xs @ ys = xs @ ys"
  by (simp only: append.assoc [symmetric] append_take_drop_id)

end
