(* ===== verification/Topics.thy ===== *)
theory Topics
  imports Prelude
begin

text \<open>
  Topics and subscriptions as strings: the checks and the matcher of \<^verbatim>\<open>lib/util_mosq.c\<close>
  (\<^verbatim>\<open>mosquitto_pub_topic_check\<close>, \<^verbatim>\<open>mosquitto_sub_topic_check\<close>, \<^verbatim>\<open>mosquitto_topic_matches_sub\<close>).
  The matcher keeps the two indices of the C code. It is then shown to compute a match of
  level lists, which is compared with the matching rule of the MQTT specification.
\<close>

subsection \<open>The code\<close>

text \<open>\<open>pub_topic_scan\<close> is the loop of the publish check: the first wildcard ends it.\<close>

fun pub_topic_scan :: "string \<Rightarrow> nat \<Rightarrow> rc" where
  "pub_topic_scan [] len = (if len > 65535 then MOSQ_ERR_INVAL else MOSQ_ERR_SUCCESS)"
| "pub_topic_scan (c # cs) len =
     (if c = CHR ''+'' \<or> c = CHR ''#'' then MOSQ_ERR_INVAL else pub_topic_scan cs (len + 1))"

definition mosquitto_pub_topic_check :: "string \<Rightarrow> rc" where
  "mosquitto_pub_topic_check str = pub_topic_scan str 0"

text \<open>
  The subscription check remembers the previous character, NUL at the start.
\<close>

fun sub_topic_scan :: "char \<Rightarrow> string \<Rightarrow> nat \<Rightarrow> rc" where
  "sub_topic_scan c [] len = (if len > 65535 then MOSQ_ERR_INVAL else MOSQ_ERR_SUCCESS)"
| "sub_topic_scan c (x # xs) len =
     (if x = CHR ''+'' \<and>
         ((c \<noteq> CHR 0x00 \<and> c \<noteq> CHR ''/'') \<or> (xs \<noteq> [] \<and> hd xs \<noteq> CHR ''/''))
      then MOSQ_ERR_INVAL
      else if x = CHR ''#'' \<and> ((c \<noteq> CHR 0x00 \<and> c \<noteq> CHR ''/'') \<or> xs \<noteq> [])
      then MOSQ_ERR_INVAL
      else sub_topic_scan x xs (len + 1))"

definition mosquitto_sub_topic_check :: "string \<Rightarrow> rc" where
  "mosquitto_sub_topic_check str =
     (if str = ''#'' \<or> str = ''+'' then MOSQ_ERR_INVAL
      else if take 2 str = ''+/'' then MOSQ_ERR_INVAL
      else sub_topic_scan (CHR 0x00) str 0)"

text \<open>The inner loop of the \<^verbatim>\<open>+\<close> wildcard: advance to the next separator or the end.\<close>

function skip_level :: "string \<Rightarrow> nat \<Rightarrow> nat" where
  "skip_level topic tpos =
     (if tpos < length topic \<and> topic ! tpos \<noteq> CHR ''/'' then skip_level topic (tpos + 1) else tpos)"
  by pat_completeness auto
termination
  by (relation "measure (\<lambda>(topic, tpos). length topic - tpos)") auto

declare skip_level.simps [simp del]

text \<open>
  The main loop. \<^const>\<open>None\<close> is the run that leaves \<^verbatim>\<open>*result\<close> as it was: the code writes it on
  every path but the one where both strings are empty.
\<close>

function matches_loop :: "string \<Rightarrow> string \<Rightarrow> nat \<Rightarrow> nat \<Rightarrow> bool option" where
  "matches_loop sub topic spos tpos =
     (if spos < length sub \<and> tpos < length topic then
        if sub ! spos = topic ! tpos then
          if tpos + 1 = length topic \<and> spos + 3 = length sub
             \<and> sub ! (spos + 1) = CHR ''/'' \<and> sub ! (spos + 2) = CHR ''#''
          then Some True
          else if spos + 1 = length sub \<and> tpos + 1 = length topic then Some True
          else if tpos + 1 = length topic \<and> spos + 2 = length sub \<and> sub ! (spos + 1) = CHR ''+''
          then Some True
          else matches_loop sub topic (spos + 1) (tpos + 1)
        else if sub ! spos = CHR ''+'' then
          (let tpos' = skip_level topic tpos in
             if tpos' = length topic \<and> spos + 1 = length sub then Some True
             else matches_loop sub topic (spos + 1) tpos')
        else if sub ! spos = CHR ''#'' then Some (spos + 1 = length sub)
        else Some False
      else if tpos < length topic \<or> spos < length sub then Some False
      else None)"
  by pat_completeness auto
termination
  by (relation "measure (\<lambda>(sub, topic, spos, tpos). length sub - spos)") auto

declare matches_loop.simps [simp del]

definition topic_matches_sub :: "string \<Rightarrow> string \<Rightarrow> bool option" where
  "topic_matches_sub sub topic =
     (if sub \<noteq> [] \<and> topic \<noteq> [] \<and>
         ((hd sub = CHR ''$'' \<and> hd topic \<noteq> CHR ''$'') \<or> (hd topic = CHR ''$'' \<and> hd sub \<noteq> CHR ''$''))
      then Some False
      else matches_loop sub topic 0 0)"

text \<open>
  The function itself: null arguments are refused, otherwise it succeeds. The second
  component is what is stored in \<^verbatim>\<open>*result\<close>.
\<close>

definition mosquitto_topic_matches_sub ::
  "string option \<Rightarrow> string option \<Rightarrow> rc \<times> bool option" where
  "mosquitto_topic_matches_sub sub topic =
     (case (sub, topic) of
        (Some s, Some t) \<Rightarrow> (MOSQ_ERR_SUCCESS, topic_matches_sub s t)
      | _ \<Rightarrow> (MOSQ_ERR_INVAL, None))"

subsection \<open>The checks as predicates\<close>

definition wildcard_free :: "string \<Rightarrow> bool" where
  "wildcard_free s \<longleftrightarrow> CHR ''+'' \<notin> set s \<and> CHR ''#'' \<notin> set s"

text \<open>The placement of wildcards after a given previous character.\<close>

fun wildcards_ok :: "char \<Rightarrow> string \<Rightarrow> bool" where
  "wildcards_ok c [] = True"
| "wildcards_ok c (x # xs) =
     ((x = CHR ''+'' \<longrightarrow> c \<in> {CHR 0x00, CHR ''/''} \<and> (xs = [] \<or> hd xs = CHR ''/'')) \<and>
      (x = CHR ''#'' \<longrightarrow> c \<in> {CHR 0x00, CHR ''/''} \<and> xs = []) \<and>
      wildcards_ok x xs)"

lemma pub_topic_scan_eq:
  "pub_topic_scan s n =
     (if wildcard_free s \<and> n + length s \<le> 65535 then MOSQ_ERR_SUCCESS else MOSQ_ERR_INVAL)"
  by (induction s n rule: pub_topic_scan.induct) (auto simp: wildcard_free_def)

lemma pub_topic_check_iff:
  "mosquitto_pub_topic_check s = MOSQ_ERR_SUCCESS \<longleftrightarrow> wildcard_free s \<and> length s \<le> 65535"
  by (simp add: mosquitto_pub_topic_check_def pub_topic_scan_eq)

lemma sub_topic_scan_eq:
  "sub_topic_scan c s n =
     (if wildcards_ok c s \<and> n + length s \<le> 65535 then MOSQ_ERR_SUCCESS else MOSQ_ERR_INVAL)"
  by (induction c s n rule: sub_topic_scan.induct) auto

lemma sub_topic_check_iff:
  "mosquitto_sub_topic_check s = MOSQ_ERR_SUCCESS \<longleftrightarrow>
     s \<notin> {''#'', ''+''} \<and> take 2 s \<noteq> ''+/'' \<and> wildcards_ok (CHR 0x00) s \<and> length s \<le> 65535"
  by (simp add: mosquitto_sub_topic_check_def sub_topic_scan_eq)

subsection \<open>From indices to suffixes\<close>

text \<open>
  The loop only looks at what is left of the two strings, so it is a recursion on suffixes.
\<close>

function matches_suffix :: "string \<Rightarrow> string \<Rightarrow> bool option" where
  "matches_suffix [] [] = None"
| "matches_suffix [] (y # t) = Some False"
| "matches_suffix (x # s) [] = Some False"
| "matches_suffix (x # s) (y # t) =
     (if x = y then
        if t = [] \<and> s = ''/#'' then Some True
        else if s = [] \<and> t = [] then Some True
        else if t = [] \<and> s = ''+'' then Some True
        else matches_suffix s t
      else if x = CHR ''+'' then
        (let t' = dropWhile (\<lambda>c. c \<noteq> CHR ''/'') (y # t) in
           if t' = [] \<and> s = [] then Some True else matches_suffix s t')
      else if x = CHR ''#'' then Some (s = [])
      else Some False)"
  by pat_completeness auto
termination
  by (relation "measure (\<lambda>(s, t). length s)") auto

lemma skip_level_drop:
  "tpos \<le> length topic \<Longrightarrow>
   skip_level topic tpos \<le> length topic \<and>
   drop (skip_level topic tpos) topic = dropWhile (\<lambda>c. c \<noteq> CHR ''/'') (drop tpos topic)"
proof (induction topic tpos rule: skip_level.induct)
  case (1 topic tpos)
  show ?case
  proof (cases "tpos < length topic \<and> topic ! tpos \<noteq> CHR ''/''")
    case True
    then have d: "drop tpos topic = topic ! tpos # drop (tpos + 1) topic"
      by (simp add: Cons_nth_drop_Suc)
    have "skip_level topic tpos = skip_level topic (tpos + 1)"
      using True by (subst skip_level.simps) simp
    with "1.IH" True d show ?thesis by simp
  next
    case False
    then have "skip_level topic tpos = tpos"
      by (subst skip_level.simps) auto
    moreover have "dropWhile (\<lambda>c. c \<noteq> CHR ''/'') (drop tpos topic) = drop tpos topic"
      using False "1.prems"
      by (cases "tpos < length topic") (auto simp: Cons_nth_drop_Suc [symmetric])
    ultimately show ?thesis using "1.prems" by simp
  qed
qed

lemma drop_Nil_iff: "n \<le> length xs \<Longrightarrow> drop n xs = [] \<longleftrightarrow> n = length xs"
  by auto

lemma matches_loop_suffix:
  "spos \<le> length sub \<Longrightarrow> tpos \<le> length topic \<Longrightarrow>
   matches_loop sub topic spos tpos = matches_suffix (drop spos sub) (drop tpos topic)"
proof (induction sub topic spos tpos rule: matches_loop.induct)
  case (1 sub topic spos tpos)
  show ?case
  proof (cases "spos < length sub \<and> tpos < length topic")
    case False
    note unfold = matches_loop.simps [of sub topic spos tpos]
    show ?thesis
    proof (cases "spos < length sub")
      case s_left: True
      then have "drop tpos topic = []" and "drop spos sub = sub ! spos # drop (spos + 1) sub"
        using False "1.prems" by (simp_all add: Cons_nth_drop_Suc)
      then show ?thesis using False s_left unfolding unfold by simp
    next
      case s_done: False
      show ?thesis
      proof (cases "tpos < length topic")
        case True
        then have "drop tpos topic = topic ! tpos # drop (tpos + 1) topic"
          by (simp add: Cons_nth_drop_Suc)
        then show ?thesis using s_done True unfolding unfold by simp
      next
        case False
        then show ?thesis using s_done unfolding unfold by simp
      qed
    qed
  next
    case True
    define s where "s = drop (spos + 1) sub"
    define t where "t = drop (tpos + 1) topic"
    have ds: "drop spos sub = sub ! spos # s" and dt: "drop tpos topic = topic ! tpos # t"
      using True by (simp_all add: s_def t_def Cons_nth_drop_Suc)
    have t0: "t = [] \<longleftrightarrow> tpos + 1 = length topic" and s0: "s = [] \<longleftrightarrow> spos + 1 = length sub"
      using True by (auto simp: s_def t_def)
    have s1: "s = ''+'' \<longleftrightarrow> spos + 2 = length sub \<and> sub ! (spos + 1) = CHR ''+''"
      using True by (auto simp: s_def drop_Cons_iff)
    have s2: "s = ''/#'' \<longleftrightarrow>
        spos + 3 = length sub \<and> sub ! (spos + 1) = CHR ''/'' \<and> sub ! (spos + 2) = CHR ''#''"
      using True by (auto simp: s_def drop_Cons_iff)
    have sk: "skip_level topic tpos \<le> length topic"
      "drop (skip_level topic tpos) topic = dropWhile (\<lambda>c. c \<noteq> CHR ''/'') (topic ! tpos # t)"
      using skip_level_drop [of tpos topic] "1.prems" dt by simp_all
    then have sk0: "skip_level topic tpos = length topic \<longleftrightarrow>
        dropWhile (\<lambda>c. c \<noteq> CHR ''/'') (topic ! tpos # t) = []"
      by (metis drop_Nil_iff)
    have IH1: "matches_loop sub topic (spos + 1) (tpos + 1) = matches_suffix s t"
      if "sub ! spos = topic ! tpos" and "\<not> (t = [] \<and> s = ''/#'')"
        and "\<not> (s = [] \<and> t = [])" and "\<not> (t = [] \<and> s = ''+'')"
      using "1.IH"(1) [OF True that(1)] that True t0 s0 s1 s2 by (simp add: s_def t_def)
    have IH2: "matches_loop sub topic (spos + 1) (skip_level topic tpos)
        = matches_suffix s (dropWhile (\<lambda>c. c \<noteq> CHR ''/'') (topic ! tpos # t))"
      if "sub ! spos \<noteq> topic ! tpos" and "sub ! spos = CHR ''+''"
        and "\<not> (skip_level topic tpos = length topic \<and> spos + 1 = length sub)"
      using "1.IH"(2) [OF True that(1,2) refl that(3)] True sk by (simp add: s_def)
    have c1: "(tpos + 1 = length topic \<and> spos + 3 = length sub
        \<and> sub ! (spos + 1) = CHR ''/'' \<and> sub ! (spos + 2) = CHR ''#'') = (t = [] \<and> s = ''/#'')"
      by (simp only: t0 s2)
    have c2: "(spos + 1 = length sub \<and> tpos + 1 = length topic) = (s = [] \<and> t = [])"
      by (simp only: t0 s0)
    have c3: "(tpos + 1 = length topic \<and> spos + 2 = length sub \<and> sub ! (spos + 1) = CHR ''+'')
        = (t = [] \<and> s = ''+'')"
      by (simp only: t0 s1)
    note step = matches_loop.simps [of sub topic spos tpos, unfolded c1 c2 c3]
    note step' = matches_suffix.simps(4) [of "sub ! spos" s "topic ! tpos" t]
    show ?thesis
    proof (cases "sub ! spos = topic ! tpos")
      case eq: True
      show ?thesis
        unfolding ds dt step step' using IH1 [OF eq] eq True by auto
    next
      case neq: False
      show ?thesis
      proof (cases "sub ! spos = CHR ''+''")
        case plus: True
        show ?thesis
          unfolding ds dt step step' Let_def using IH2 [OF neq plus] neq plus True
          by (simp only: sk0 s0 if_True if_False simp_thms split: if_split) blast
      next
        case False
        then show ?thesis
          unfolding ds dt step step' using True neq by (simp add: s0)
      qed
    qed
  qed
qed

subsection \<open>Levels\<close>

text \<open>The levels of a topic or a subscription: the parts between the separators.\<close>

fun levels :: "string \<Rightarrow> string list" where
  "levels [] = [[]]"
| "levels (c # cs) =
     (if c = CHR ''/'' then [] # levels cs
      else (case levels cs of [] \<Rightarrow> [[c]] | l # ls \<Rightarrow> (c # l) # ls))"

text \<open>
  The rule of the MQTT specification: \<^verbatim>\<open>#\<close> matches the level it stands at, all levels below it
  and the level above it; \<^verbatim>\<open>+\<close> matches one level.
\<close>

fun mqtt_match :: "string list \<Rightarrow> string list \<Rightarrow> bool" where
  "mqtt_match [] ts = (ts = [])"
| "mqtt_match (s # ss) [] = (s = ''#'' \<and> ss = [])"
| "mqtt_match (s # ss) (t # ts) =
     ((s = ''#'' \<and> ss = []) \<or> ((s = ''+'' \<or> s = t) \<and> mqtt_match ss ts))"

definition mqtt_topic_match :: "string \<Rightarrow> string \<Rightarrow> bool" where
  "mqtt_topic_match sub topic \<longleftrightarrow>
     (take 1 sub = ''$'' \<longleftrightarrow> take 1 topic = ''$'') \<and> mqtt_match (levels sub) (levels topic)"

text \<open>
  What the code computes, on levels. The flag says whether the last level was matched
  literally. It differs from the rule in two places: \<^verbatim>\<open>#\<close> does not match a single empty level,
  and does not match the parent when the level above is matched by \<^verbatim>\<open>+\<close>.
\<close>

fun code_match :: "bool \<Rightarrow> string list \<Rightarrow> string list \<Rightarrow> bool" where
  "code_match lit [] ts = (ts = [])"
| "code_match lit (s # ss) [] = (s = ''#'' \<and> ss = [] \<and> lit)"
| "code_match lit (s # ss) (t # ts) =
     (if s = ''#'' \<and> ss = [] then t # ts \<noteq> [[]]
      else if s = ''+'' then code_match False ss ts
      else s = t \<and> code_match True ss ts)"

lemma levels_not_Nil [simp]: "levels s \<noteq> []"
  by (induction s) (auto split: list.splits)

lemma levels_not_Nil' [simp]: "[] \<noteq> levels s"
  using levels_not_Nil [of s] by metis

lemma levels_Cons_other:
  assumes "c \<noteq> CHR ''/''"
  obtains l ls where "levels cs = l # ls" and "levels (c # cs) = (c # l) # ls"
  using assms by (cases "levels cs") auto

lemma levels_hd_Nil: "levels s = [] # ls \<longleftrightarrow> (s = [] \<and> ls = []) \<or> (\<exists>r. s = CHR ''/'' # r \<and> ls = levels r)"
  by (cases s) (auto split: list.splits)

lemma levels_singleton_Nil: "levels s = [[]] \<longleftrightarrow> s = []"
  by (simp add: levels_hd_Nil)

lemma levels_wildcard_only:
  assumes "w \<noteq> CHR ''/''"
  shows "levels s = [w] # ls \<longleftrightarrow> (s = [w] \<and> ls = []) \<or> (\<exists>r. s = w # CHR ''/'' # r \<and> ls = levels r)"
proof (cases s)
  case (Cons c r)
  show ?thesis
  proof (cases "c = CHR ''/''")
    case False
    then obtain l ls' where l: "levels r = l # ls'" "levels (c # r) = (c # l) # ls'"
      by (rule levels_Cons_other)
    show ?thesis
      using Cons l levels_hd_Nil [of r ls] assms by auto
  qed (use Cons assms in auto)
qed simp

text \<open>A topic starts with one level, up to the first separator.\<close>

lemma levels_dropWhile:
  "dropWhile (\<lambda>c. c \<noteq> CHR ''/'') t = [] \<Longrightarrow> levels t = [t]"
  "dropWhile (\<lambda>c. c \<noteq> CHR ''/'') t = CHR ''/'' # r \<Longrightarrow>
     levels t = takeWhile (\<lambda>c. c \<noteq> CHR ''/'') t # levels r"
  by (induction t) (auto split: if_splits list.splits)

lemma dropWhile_level:
  "dropWhile (\<lambda>c. c \<noteq> CHR ''/'') t = [] \<or> (\<exists>r. dropWhile (\<lambda>c. c \<noteq> CHR ''/'') t = CHR ''/'' # r)"
  by (induction t) auto

lemma wildcards_ok_levels:
  assumes "wildcards_ok c s" and "c \<noteq> CHR ''/''" and "c \<noteq> CHR 0x00"
  shows "s = [] \<or> (hd s \<noteq> CHR ''+'' \<and> hd s \<noteq> CHR ''#'')"
  using assms by (cases s) auto

lemma code_match_flag: "ts \<noteq> [] \<Longrightarrow> code_match a ss ts = code_match b ss ts"
  by (cases ss; cases ts) auto

lemma code_match_parent: "code_match a (levels r) [] \<longleftrightarrow> a \<and> r = ''#''"
proof (cases "levels r")
  case (Cons l ls)
  then show ?thesis
    using levels_wildcard_only [of "CHR ''#''" r ls] by auto
qed simp

lemma code_match_single_empty:
  assumes "wildcards_ok c s"
  shows "code_match a (levels s) [[]] \<longleftrightarrow> s = ''/#'' \<or> s = [] \<or> s = ''+''"
proof (cases s)
  case (Cons x r)
  show ?thesis
  proof (cases "x = CHR ''/''")
    case True
    then show ?thesis using Cons by (simp add: code_match_parent)
  next
    case x: False
    then obtain l ls where l: "levels r = l # ls" "levels (x # r) = (x # l) # ls"
      by (rule levels_Cons_other)
    have "levels r = [] # ls \<longleftrightarrow> (r = [] \<and> ls = []) \<or> (\<exists>q. r = CHR ''/'' # q \<and> ls = levels q)"
      by (rule levels_hd_Nil)
    then show ?thesis
      using Cons l assms x by (auto simp: code_match_parent)
  qed
qed simp

text \<open>The loop on suffixes is the match on levels, from any point of a valid subscription.\<close>

lemma matches_suffix_levels:
  assumes "wildcards_ok c s" and "wildcard_free t" and "nul_free t" and "t \<noteq> []"
  shows "matches_suffix s t = Some (code_match a (levels s) (levels t))"
  using assms
proof (induction s t arbitrary: c a rule: matches_suffix.induct)
  case (2 y t)
  then show ?case
    by (simp add: levels_singleton_Nil split: list.splits)
next
  case (4 x s y t)
  have ok: "wildcards_ok x s" and wf: "wildcard_free t" and nf: "nul_free t" "y \<noteq> CHR 0x00"
    and y: "y \<noteq> CHR ''+''" "y \<noteq> CHR ''#''"
    using "4.prems" by (auto simp: wildcard_free_def nul_free_def)
  consider (slash) "x = y" "x = CHR ''/''" | (lit) "x = y" "x \<noteq> CHR ''/''"
    | (plus) "x \<noteq> y" "x = CHR ''+''" | (hash) "x \<noteq> y" "x = CHR ''#''"
    | (other) "x \<noteq> y" "x \<noteq> CHR ''+''" "x \<noteq> CHR ''#''"
    by blast
  then show ?case
  proof cases
    case slash
    show ?thesis
    proof (cases "t = []")
      case True
      then show ?thesis
        using slash code_match_single_empty [OF ok, of True] by (cases s) auto
    next
      case False
      then show ?thesis
        using slash "4.IH"(1) [of x True] ok wf nf by simp
    qed
  next
    case lit
    obtain l ls where l: "levels s = l # ls" "levels (x # s) = (x # l) # ls"
      using lit(2) by (rule levels_Cons_other)
    obtain m ms where m: "levels t = m # ms" "levels (y # t) = (y # m) # ms"
      using lit by (metis levels_Cons_other)
    have head: "s = [] \<or> (hd s \<noteq> CHR ''+'' \<and> hd s \<noteq> CHR ''#'')"
      using wildcards_ok_levels [OF ok lit(2)] lit(1) nf by simp
    then have l_lit: "l \<noteq> ''+''" "\<not> (l = ''#'' \<and> ls = [])"
      using l(1) levels_wildcard_only [of "CHR ''+''" s ls] levels_wildcard_only [of "CHR ''#''" s ls]
      by auto
    show ?thesis
    proof (cases "t = []")
      case True
      then have "m = []" "ms = []" using m by simp_all
      moreover have "l = [] \<and> code_match True ls [] \<longleftrightarrow> s = [] \<or> s = ''/#''"
        using l(1) levels_hd_Nil [of s ls] by (auto simp: code_match_parent)
      ultimately show ?thesis
        using True lit l m y head by (cases s) auto
    next
      case False
      then have "matches_suffix s t = Some (code_match True (l # ls) (m # ms))"
        using "4.IH"(1) [of x True] lit ok wf nf l m by simp
      then show ?thesis
        using False lit l m y l_lit by auto
    qed
  next
    case plus
    define t' where "t' = dropWhile (\<lambda>c. c \<noteq> CHR ''/'') (y # t)"
    have s: "s = [] \<or> (\<exists>r. s = CHR ''/'' # r)"
      using "4.prems"(1) plus by (cases s) auto
    have t': "t' = [] \<or> (\<exists>r. t' = CHR ''/'' # r)"
      unfolding t'_def by (rule dropWhile_level)
    have sub: "set t' \<subseteq> set (y # t)"
      unfolding t'_def by (meson set_dropWhileD subsetI)
    then have wf': "wildcard_free t'" "nul_free t'"
      using "4.prems" by (auto simp: wildcard_free_def nul_free_def)
    have IH: "matches_suffix s t' = Some (code_match True (levels s) (levels t'))"
      if "t' \<noteq> []"
      using "4.IH"(2) [OF plus t'_def, of x True] that ok wf' by simp
    have unf: "matches_suffix (x # s) (y # t)
        = (if t' = [] \<and> s = [] then Some True else matches_suffix s t')"
      unfolding matches_suffix.simps(4) t'_def Let_def using plus
      by (simp only: if_False if_True simp_thms)
    from t' show ?thesis
    proof
      assume "t' = []"
      then have lt: "levels (y # t) = [y # t]"
        using levels_dropWhile(1) [of "y # t"] by (simp add: t'_def)
      from s show ?thesis
      proof
        assume "s = []"
        then show ?thesis using unf plus \<open>t' = []\<close> by (simp only: lt) simp
      next
        assume "\<exists>r. s = CHR ''/'' # r"
        then obtain r where r: "s = CHR ''/'' # r" ..
        have "levels (x # s) = ''+'' # levels r" using r plus by simp
        then show ?thesis using unf plus \<open>t' = []\<close> r by (simp only: lt) (simp add: code_match_parent)
      qed
    next
      assume "\<exists>r. t' = CHR ''/'' # r"
      then obtain r2 where r2: "t' = CHR ''/'' # r2" ..
      then have lt: "levels (y # t) = takeWhile (\<lambda>c. c \<noteq> CHR ''/'') (y # t) # levels r2"
        using levels_dropWhile(2) [of "y # t"] by (simp add: t'_def)
      from s show ?thesis
      proof
        assume "s = []"
        then show ?thesis using unf r2 plus by (simp only: lt) simp
      next
        assume "\<exists>r. s = CHR ''/'' # r"
        then obtain r where r: "s = CHR ''/'' # r" ..
        have "levels (x # s) = ''+'' # levels r" using r plus by simp
        then show ?thesis
          using unf IH r r2 code_match_flag [of "levels r2" True "levels r" False]
          by (simp only: lt) simp
      qed
    qed
  next
    case hash
    then have "s = []" using "4.prems"(1) by (cases s) auto
    moreover have "levels (y # t) \<noteq> [[]]" by (simp only: levels_singleton_Nil) simp
    ultimately show ?thesis
      using hash by (cases "levels (y # t)") (auto simp del: levels.simps(2), auto)
  next
    case other
    then have "\<not> code_match a (levels (x # s)) (levels (y # t))"
      by (auto split: list.splits)
    then show ?thesis using other by (simp del: levels.simps(2))
  qed
qed simp_all

lemma topic_matches_sub_suffix:
  "topic_matches_sub sub topic =
     (if sub \<noteq> [] \<and> topic \<noteq> [] \<and> (take 1 sub = ''$'') \<noteq> (take 1 topic = ''$'') then Some False
      else matches_suffix sub topic)"
  unfolding topic_matches_sub_def by (cases sub; cases topic) (auto simp: matches_loop_suffix)

lemma code_match_mqtt: "code_match a ss ts \<Longrightarrow> mqtt_match ss ts"
  by (induction a ss ts rule: code_match.induct) (auto split: if_splits)

definition ends_plus_hash :: "string \<Rightarrow> bool" where
  "ends_plus_hash sub \<longleftrightarrow> drop (length (levels sub) - 2) (levels sub) = [''+'', ''#'']"

lemma mqtt_code_match:
  assumes "mqtt_match ss ts" and "ts \<noteq> [] \<longrightarrow> last ts \<noteq> []" and "ts = [] \<longrightarrow> a"
    and "drop (length ss - 2) ss \<noteq> [''+'', ''#'']"
  shows "code_match a ss ts"
  using assms
proof (induction a ss ts rule: code_match.induct)
  case (3 lit s ss t ts)
  show ?case
  proof (cases "s = ''#'' \<and> ss = []")
    case True
    then show ?thesis using "3.prems" by auto
  next
    case False
    have tl: "drop (length ss - 2) ss \<noteq> [''+'', ''#'']"
    proof
      assume d: "drop (length ss - 2) ss = [''+'', ''#'']"
      then have "length (drop (length ss - 2) ss) = 2" by simp
      then have "length ss \<ge> 2" by simp
      then have "drop (length (s # ss) - 2) (s # ss) = drop (length ss - 2) ss"
        by (metis Suc_diff_le drop_Suc_Cons length_Cons)
      with d "3.prems"(4) show False by simp
    qed
    have m: "mqtt_match ss ts" "s = ''+'' \<or> s = t"
      using False "3.prems"(1) by auto
    have lst: "ts \<noteq> [] \<longrightarrow> last ts \<noteq> []" using "3.prems"(2) by auto
    have "code_match False ss ts" if "s = ''+''"
    proof (cases "ts = []")
      case True
      then have "ss = [] \<or> ss = [''#'']" using m(1) by (cases ss) auto
      then show ?thesis using that "3.prems"(4) True by auto
    next
      case ts: False
      then show ?thesis using "3.IH"(1) False that m(1) lst tl by simp
    qed
    moreover have "code_match True ss ts" if "s \<noteq> ''+''"
      using "3.IH"(2) False that m(1) lst tl by simp
    ultimately show ?thesis using False m(2) by auto
  qed
qed auto

lemma last_levels: "s \<noteq> [] \<Longrightarrow> last s \<noteq> CHR ''/'' \<Longrightarrow> last (levels s) \<noteq> []"
proof (induction s)
  case (Cons c cs)
  show ?case
  proof (cases "cs = []")
    case True
    then show ?thesis using Cons.prems by simp
  next
    case False
    then have IH: "last (levels cs) \<noteq> []" using Cons by simp
    show ?thesis
    proof (cases "c = CHR ''/''")
      case True
      then show ?thesis using IH by simp
    next
      case c: False
      then obtain l ls where "levels cs = l # ls" "levels (c # cs) = (c # l) # ls"
        by (rule levels_Cons_other)
      then show ?thesis using IH by (cases ls) auto
    qed
  qed
qed simp

text \<open>Well-placed wildcards, in terms of levels.\<close>

definition levels_ok :: "string list \<Rightarrow> bool" where
  "levels_ok ls \<longleftrightarrow>
     (\<forall>l \<in> set (butlast ls). l = ''+'' \<or> wildcard_free l) \<and>
     (last ls = ''+'' \<or> last ls = ''#'' \<or> wildcard_free (last ls))"

lemma levels_ok_single [simp]: "levels_ok [l] \<longleftrightarrow> l = ''+'' \<or> l = ''#'' \<or> wildcard_free l"
  by (simp add: levels_ok_def)

lemma levels_ok_Cons [simp]:
  "ls \<noteq> [] \<Longrightarrow> levels_ok (l # ls) \<longleftrightarrow> (l = ''+'' \<or> wildcard_free l) \<and> levels_ok ls"
  by (auto simp: levels_ok_def)

lemma wildcard_free_simps [simp]:
  "wildcard_free []"
  "wildcard_free (c # s) \<longleftrightarrow> c \<noteq> CHR ''+'' \<and> c \<noteq> CHR ''#'' \<and> wildcard_free s"
  by (auto simp: wildcard_free_def)

lemma wildcards_ok_levels_ok:
  assumes "nul_free s"
  shows "(c = CHR 0x00 \<or> c = CHR ''/'' \<longrightarrow> wildcards_ok c s = levels_ok (levels s)) \<and>
    (c \<noteq> CHR 0x00 \<and> c \<noteq> CHR ''/'' \<longrightarrow> wildcards_ok c s =
      (wildcard_free (hd (levels s)) \<and> (tl (levels s) = [] \<or> levels_ok (tl (levels s)))))"
  using assms
proof (induction s arbitrary: c)
  case (Cons x xs)
  have x0: "x \<noteq> CHR 0x00" and nf: "nul_free xs" using Cons.prems by (auto simp: nul_free_def)
  note IH = Cons.IH [OF nf, of x]
  show ?case
  proof (cases "x = CHR ''/''")
    case True
    then show ?thesis using IH by auto
  next
    case False
    then obtain l ls where l: "levels xs = l # ls" "levels (x # xs) = (x # l) # ls"
      by (rule levels_Cons_other)
    have l0: "l = [] \<longleftrightarrow> xs = [] \<or> hd xs = CHR ''/''"
      using levels_hd_Nil [of xs ls] l(1) by (cases xs) (auto split: list.splits if_splits)
    have ls0: "xs = [] \<longleftrightarrow> l = [] \<and> ls = []"
      using l(1) levels_singleton_Nil [of xs] by auto
    have IH': "wildcards_ok x xs = (wildcard_free l \<and> (ls = [] \<or> levels_ok ls))"
      using IH False x0 l(1) by simp
    have ok: "levels_ok ((x # l) # ls) \<longleftrightarrow>
        (if ls = [] then x # l = ''+'' \<or> x # l = ''#'' \<or> wildcard_free (x # l)
         else (x # l = ''+'' \<or> wildcard_free (x # l)) \<and> levels_ok ls)"
      by simp
    show ?thesis
      unfolding l(2) wildcards_ok.simps IH' ok using l0 ls0 by auto
  qed
qed simp

subsection \<open>Properties\<close>

text \<open>
  C29. What \<^verbatim>\<open>mosquitto_topic_matches_sub\<close> computes: for a subscription with well-placed
  wildcards and a non-empty topic without wildcards, both non-null, the index loop succeeds,
  always writes the result, and the result is the level-by-level match \<open>code_match\<close> together
  with the agreement of the leading \<^verbatim>\<open>$\<close>.
\<close>

theorem topic_match_levels:
  assumes "wildcards_ok (CHR 0x00) sub" and "sub \<noteq> []"
    and "wildcard_free topic" and "nul_free topic" and "topic \<noteq> []"
  shows "mosquitto_topic_matches_sub (Some sub) (Some topic) =
    (MOSQ_ERR_SUCCESS,
     Some ((take 1 sub = ''$'' \<longleftrightarrow> take 1 topic = ''$'')
           \<and> code_match False (levels sub) (levels topic)))"
  using assms matches_suffix_levels [OF assms(1,3,4,5), of False]
  by (simp add: mosquitto_topic_matches_sub_def topic_matches_sub_suffix)

theorem topic_match_levels_witness:
  "mosquitto_topic_matches_sub (Some ''a/+/c'') (Some ''a/b/c'') = (MOSQ_ERR_SUCCESS, Some True)"
  using topic_match_levels [of "''a/+/c''" "''a/b/c''"]
  by (simp add: wildcard_free_def nul_free_def)

text \<open>
  C30. The matcher never matches more than the MQTT rule allows: a subscription or an access
  rule that matches a topic in the code matches it in the specification.
\<close>

theorem topic_match_sound:
  assumes "wildcards_ok (CHR 0x00) sub" and "sub \<noteq> []"
    and "wildcard_free topic" and "nul_free topic" and "topic \<noteq> []"
    and "topic_matches_sub sub topic = Some True"
  shows "mqtt_topic_match sub topic"
  using assms matches_suffix_levels [OF assms(1,3,4,5), of False] code_match_mqtt
  by (auto simp: topic_matches_sub_suffix mqtt_topic_match_def split: if_splits)

theorem topic_match_sound_witness:
  "mqtt_topic_match ''foo/#'' ''foo/bar/baz''"
proof (rule topic_match_sound)
  show "topic_matches_sub ''foo/#'' ''foo/bar/baz'' = Some True"
    by (simp add: topic_matches_sub_suffix Let_def)
qed (simp_all add: wildcard_free_def nul_free_def)

text \<open>
  C31. The matcher finds every match of the MQTT rule when the topic does not end in a
  separator and the subscription does not end in \<^verbatim>\<open>+/#\<close>.
\<close>

theorem topic_match_complete:
  assumes "wildcards_ok (CHR 0x00) sub" and "sub \<noteq> []"
    and "wildcard_free topic" and "nul_free topic" and "topic \<noteq> []"
    and "last topic \<noteq> CHR ''/''" and "\<not> ends_plus_hash sub"
    and "mqtt_topic_match sub topic"
  shows "topic_matches_sub sub topic = Some True"
proof -
  have "code_match False (levels sub) (levels topic)"
    using assms(5-8) last_levels [of topic]
    by (intro mqtt_code_match) (auto simp: mqtt_topic_match_def ends_plus_hash_def)
  then show ?thesis
    using assms matches_suffix_levels [OF assms(1,3,4,5), of False]
    by (simp add: topic_matches_sub_suffix mqtt_topic_match_def)
qed

theorem topic_match_complete_witness:
  "topic_matches_sub ''foo/+/baz'' ''foo/bar/baz'' = Some True"
  by (rule topic_match_complete)
    (simp_all add: wildcard_free_def nul_free_def ends_plus_hash_def mqtt_topic_match_def)

text \<open>
  The two places where the matcher misses a match of the MQTT rule: \<^verbatim>\<open>#\<close> against a topic
  that ends in a separator, and the parent of a \<^verbatim>\<open>#\<close> below a \<^verbatim>\<open>+\<close>.
\<close>

theorem topic_match_divergence:
  "topic_matches_sub ''foo/#'' ''foo/'' = Some False \<and> mqtt_topic_match ''foo/#'' ''foo/'' \<and>
   topic_matches_sub ''a/+/#'' ''a/b'' = Some False \<and> mqtt_topic_match ''a/+/#'' ''a/b''"
  by (simp add: topic_matches_sub_suffix mqtt_topic_match_def Let_def)

lemma sub_check_levels:
  assumes "nul_free s"
  shows "mosquitto_sub_topic_check s = MOSQ_ERR_SUCCESS \<longleftrightarrow>
    s \<noteq> ''#'' \<and> hd (levels s) \<noteq> ''+'' \<and> length s \<le> 65535 \<and> levels_ok (levels s)"
proof -
  have "levels s = hd (levels s) # tl (levels s)" by simp
  then have "hd (levels s) = ''+'' \<longleftrightarrow> (\<exists>ls. levels s = ''+'' # ls)" by (metis list.sel(1))
  also have "\<dots> \<longleftrightarrow> s = ''+'' \<or> (\<exists>r. s = CHR ''+'' # CHR ''/'' # r)"
    using levels_wildcard_only [of "CHR ''+''" s] by auto
  also have "(\<exists>r. s = CHR ''+'' # CHR ''/'' # r) \<longleftrightarrow> take 2 s = ''+/''"
    by (cases s; cases "tl s") auto
  finally have "hd (levels s) = ''+'' \<longleftrightarrow> s = ''+'' \<or> take 2 s = ''+/''" .
  then show ?thesis
    using wildcards_ok_levels_ok [OF assms, of "CHR 0x00"] by (auto simp: sub_topic_check_iff)
qed

text \<open>
  What the subscription check accepts, in terms of levels: every level is a wildcard of
  its own or contains none, \<^verbatim>\<open>#\<close> only last; at most 65535 characters; and not \<^verbatim>\<open>#\<close> or \<^verbatim>\<open>+\<close> alone
  nor a leading \<^verbatim>\<open>+/\<close>, which this broker refuses.
\<close>

theorem sub_topic_check_levels:
  assumes "nul_free s"
  shows "mosquitto_sub_topic_check s = MOSQ_ERR_SUCCESS \<longleftrightarrow>
    s \<noteq> ''#'' \<and> hd (levels s) \<noteq> ''+'' \<and> length s \<le> 65535 \<and> levels_ok (levels s)"
  by (rule sub_check_levels [OF assms])

theorem sub_topic_check_levels_witness:
  "mosquitto_sub_topic_check ''a/+/#'' = MOSQ_ERR_SUCCESS"
  using sub_topic_check_levels [of "''a/+/#''"] by (simp add: nul_free_def)

text \<open>
  The publish check accepts exactly the topics without wildcards of at most 65535 characters.
\<close>

theorem pub_topic_check_spec:
  "mosquitto_pub_topic_check s =
     (if wildcard_free s \<and> length s \<le> 65535 then MOSQ_ERR_SUCCESS else MOSQ_ERR_INVAL)"
  by (simp add: mosquitto_pub_topic_check_def pub_topic_scan_eq)

end
