(* ===== verification/Types.thy ===== *)
theory Types
  imports Prelude
begin

text \<open>
  The data of the broker: the structs and enums of \<^verbatim>\<open>lib/mosquitto_internal.h\<close> and
  \<^verbatim>\<open>src/mosquitto_broker.h\<close> as records and datatypes, and the heap they live in.

  Contexts and stored messages are shared through pointers, so they live in a heap: a
  context is reached through its address (\<open>ctx_ref\<close>) in \<open>contexts\<close>, a stored message
  through its address (\<open>store_ref\<close>) in \<open>msg_store\<close>, which is the broker's linked list in
  list order. A node of the subscription tree is named by its path below \<^verbatim>\<open>db->subs\<close>, which
  determines it because siblings have different topics.

  The kernel is a parameter: a context carries the answers its socket will give to the next
  \<^verbatim>\<open>write()\<close> and \<^verbatim>\<open>read()\<close> calls, and collects what was written. A socket with no answer left
  would block. \<open>fault\<close> records that the program ran into an \<^verbatim>\<open>assert\<close> that fails or used a
  dangling pointer. Allocation succeeds; logging is left out.
\<close>

subsection \<open>Enumerations\<close>

datatype mosquitto_msg_direction = mosq_md_in | mosq_md_out

datatype mosquitto_msg_state =
    mosq_ms_invalid | mosq_ms_publish_qos0 | mosq_ms_publish_qos1 | mosq_ms_wait_for_puback
  | mosq_ms_publish_qos2 | mosq_ms_wait_for_pubrec | mosq_ms_resend_pubrel
  | mosq_ms_wait_for_pubrel | mosq_ms_resend_pubcomp | mosq_ms_wait_for_pubcomp
  | mosq_ms_send_pubrec | mosq_ms_queued

datatype mosquitto_client_state =
    mosq_cs_new | mosq_cs_connected | mosq_cs_disconnecting | mosq_cs_connect_async
  | mosq_cs_connect_pending | mosq_cs_connect_srv | mosq_cs_disconnect_ws
  | mosq_cs_disconnected | mosq_cs_socks5_new | mosq_cs_socks5_start
  | mosq_cs_socks5_request | mosq_cs_socks5_reply | mosq_cs_socks5_auth_ok
  | mosq_cs_socks5_userpass_reply | mosq_cs_socks5_send_userpass | mosq_cs_expiring

datatype mosquitto_protocol = mosq_p_invalid | mosq_p_mqtt31 | mosq_p_mqtt311 | mosq_p_mqtts

datatype mqtt3_bridge_direction = bd_out | bd_in | bd_both

datatype mosquitto_bridge_start_type = bst_automatic | bst_lazy | bst_manual | bst_once

text \<open>The numbers the C compiler gives the message states, and the order they induce.\<close>

fun msg_state_code :: "mosquitto_msg_state \<Rightarrow> nat" where
  "msg_state_code mosq_ms_invalid = 0"
| "msg_state_code mosq_ms_publish_qos0 = 1"
| "msg_state_code mosq_ms_publish_qos1 = 2"
| "msg_state_code mosq_ms_wait_for_puback = 3"
| "msg_state_code mosq_ms_publish_qos2 = 4"
| "msg_state_code mosq_ms_wait_for_pubrec = 5"
| "msg_state_code mosq_ms_resend_pubrel = 6"
| "msg_state_code mosq_ms_wait_for_pubrel = 7"
| "msg_state_code mosq_ms_resend_pubcomp = 8"
| "msg_state_code mosq_ms_wait_for_pubcomp = 9"
| "msg_state_code mosq_ms_send_pubrec = 10"
| "msg_state_code mosq_ms_queued = 11"

lemma msg_state_code_inj: "msg_state_code a = msg_state_code b \<Longrightarrow> a = b"
  by (cases a; cases b) simp_all

instantiation mosquitto_msg_state :: linorder
begin

definition less_eq_mosquitto_msg_state :: "mosquitto_msg_state \<Rightarrow> mosquitto_msg_state \<Rightarrow> bool" where
  "less_eq_mosquitto_msg_state a b \<longleftrightarrow> msg_state_code a \<le> msg_state_code b"

definition less_mosquitto_msg_state :: "mosquitto_msg_state \<Rightarrow> mosquitto_msg_state \<Rightarrow> bool" where
  "less_mosquitto_msg_state a b \<longleftrightarrow> msg_state_code a < msg_state_code b"

instance
  by standard
    (auto simp: less_eq_mosquitto_msg_state_def less_mosquitto_msg_state_def
      intro: msg_state_code_inj)

end

subsection \<open>Packets and sockets\<close>

record packet =
  command :: byte
  remaining_mult :: u32
  remaining_length :: u32
  packet_length :: u32
  to_process :: u32
  pos :: u32
  pkt_mid :: u16
  remaining_count :: int
  payload :: "byte list"

definition packet_zero :: packet where
  "packet_zero = \<lparr>command = 0, remaining_mult = 0, remaining_length = 0, packet_length = 0,
     to_process = 0, pos = 0, pkt_mid = 0, remaining_count = 0, payload = []\<rparr>"

text \<open>
  What a call of \<^verbatim>\<open>write()\<close> / \<^verbatim>\<open>SSL_write()\<close> or \<^verbatim>\<open>read()\<close> / \<^verbatim>\<open>SSL_read()\<close> can answer. The last three
  are the outcomes \<^verbatim>\<open>SSL_get_error\<close> tells apart.
\<close>

datatype errno = EOK | EAGAIN | ECONNRESET | EPROTO | EOTHER

datatype net_answer =
    NetData "byte list"
  | NetCount nat
  | NetEof
  | NetErr errno
  | SslWantRead
  | SslWantWrite
  | SslError int

text \<open>What OpenSSL says of the peer of a TLS connection: its certificate's common name.\<close>

datatype tls_peer = NoCertificate | NoSubject | NoCommonName | CommonName string

subsection \<open>Messages\<close>

type_synonym ctx_ref = nat
type_synonym store_ref = nat
type_synonym path = "string list"

record msg_store =
  ms_db_id :: u64
  ms_source_id :: string
  ms_dest_ids :: "string list"
  ms_ref_count :: int
  ms_topic :: "string option"
  ms_payload :: "byte list"
  ms_source_mid :: u16
  ms_mid :: u16
  ms_qos :: nat
  ms_retain :: bool

definition msg_store_zero :: msg_store where
  "msg_store_zero = \<lparr>ms_db_id = 0, ms_source_id = [], ms_dest_ids = [], ms_ref_count = 0,
     ms_topic = None, ms_payload = [], ms_source_mid = 0, ms_mid = 0, ms_qos = 0, ms_retain = False\<rparr>"

record client_msg =
  cm_ptr :: nat
  cm_store :: store_ref
  cm_timestamp :: int
  cm_mid :: u16
  cm_qos :: nat
  cm_retain :: bool
  cm_direction :: mosquitto_msg_direction
  cm_state :: mosquitto_msg_state
  cm_dup :: bool

record will_msg =
  w_topic :: string
  w_payload :: "byte list"
  w_qos :: nat
  w_retain :: bool

subsection \<open>Access control, bridges, listeners\<close>

record acl =
  acl_topic :: string
  acl_access :: nat
  acl_ucount :: nat
  acl_ccount :: nat

record acl_user =
  au_username :: "string option"
  au_acl :: "acl list"

text \<open>A user of the password file. The password is the decoded hash when there is one.\<close>

record unpwd_entry =
  up_username :: string
  up_password :: "byte list option"
  up_salt :: "byte list"

record bridge_topic =
  bt_topic :: string
  bt_qos :: nat
  bt_direction :: mqtt3_bridge_direction
  bt_local_prefix :: "string option"
  bt_remote_prefix :: "string option"
  bt_local_topic :: string
  bt_remote_topic :: string

record bridge =
  br_name :: string
  br_addresses :: "(string \<times> int) list"
  br_cur_address :: nat
  br_primary_retry :: int
  br_round_robin :: bool
  br_try_private :: bool
  br_try_private_accepted :: bool
  br_clean_session :: bool
  br_keepalive :: int
  br_topics :: "bridge_topic list"
  br_topic_remapping :: bool
  br_protocol_version :: mosquitto_protocol
  br_restart_t :: int
  br_remote_clientid :: "string option"
  br_remote_username :: "string option"
  br_remote_password :: "string option"
  br_local_clientid :: "string option"
  br_local_username :: "string option"
  br_local_password :: "string option"
  br_notifications :: bool
  br_notification_topic :: "string option"
  br_start_type :: mosquitto_bridge_start_type
  br_idle_timeout :: int
  br_restart_timeout :: int
  br_threshold :: int
  br_lazy_reconnect :: bool
  br_attempt_unsubscribe :: bool
  br_initial_notification_done :: bool

record listener =
  ls_mount_point :: "string option"
  ls_client_count :: int
  ls_use_username_as_clientid :: bool
  ls_ssl_ctx :: bool
  ls_use_identity_as_username :: bool
  ls_psk_hint :: "string option"
  ls_max_connections :: int
  ls_socks :: "int list"

subsection \<open>Contexts\<close>

record ctx =
  sock :: int
  protocol :: mosquitto_protocol
  ctx_id :: "string option"
  username :: "string option"
  password :: "string option"
  keepalive :: u16
  last_mid :: u16
  state :: mosquitto_client_state
  last_msg_in :: int
  last_msg_out :: int
  ping_t :: int
  in_packet :: packet
  current_out_packet :: "packet option"
  out_packet :: "packet list"
  will :: "will_msg option"
  ssl :: "tls_peer option"
  want_write :: bool
  clean_session :: bool
  is_dropping :: bool
  is_bridge :: bool
  bridge :: "bridge option"
  msgs :: "client_msg list"
  last_msg :: "nat option"
  msg_count :: int
  msg_count12 :: int
  ctx_acl_list :: "acl_user option"
  ctx_listener :: "nat option"
  disconnect_t :: int
  pollfd_index :: int
  ctx_subs :: "path option list"
  wr_answers :: "net_answer list"
  rd_answers :: "net_answer list"
  sent :: "byte list"

definition ctx_zero :: ctx where
  "ctx_zero = \<lparr>sock = 0, protocol = mosq_p_invalid, ctx_id = None, username = None, password = None,
     keepalive = 0, last_mid = 0, state = mosq_cs_new, last_msg_in = 0, last_msg_out = 0,
     ping_t = 0, in_packet = packet_zero, current_out_packet = None, out_packet = [],
     will = None, ssl = None, want_write = False, clean_session = False, is_dropping = False,
     is_bridge = False, bridge = None, msgs = [], last_msg = None, msg_count = 0,
     msg_count12 = 0, ctx_acl_list = None, ctx_listener = None, disconnect_t = 0, pollfd_index = 0,
     ctx_subs = [], wr_answers = [], rd_answers = [], sent = []\<rparr>"

subsection \<open>The subscription tree\<close>

record subleaf =
  lf_context :: ctx_ref
  lf_qos :: nat

datatype subhier =
  SubHier (sh_topic: string) (sh_subs: "subleaf list") (sh_retained: "store_ref option")
    (sh_children: "subhier list")

subsection \<open>Globals, configuration, the database\<close>

text \<open>
  The file-level variables of \<^verbatim>\<open>database.c\<close> and the traffic counters of \<^verbatim>\<open>sys_tree.c\<close>, the two
  clocks, and the allocator's next address. The clocks stand still during one operation.
\<close>

record globals =
  now :: int
  wall :: int
  max_inflight :: int
  max_queued :: int
  g_msgs_dropped :: u64
  g_bytes_received :: u64
  g_bytes_sent :: u64
  g_pub_bytes_received :: u64
  g_pub_bytes_sent :: u64
  g_msgs_received :: u64
  g_msgs_sent :: u64
  g_pub_msgs_received :: u64
  g_pub_msgs_sent :: u64
  g_connection_count :: u32
  g_socket_connections :: u32
  g_clients_expired :: int
  next_ptr :: nat
  fault :: bool

record config =
  allow_anonymous :: bool
  allow_duplicate_messages :: bool
  allow_zero_length_clientid :: bool
  auto_id_prefix :: string
  clientid_prefixes :: "string option"
  message_size_limit :: u32
  queue_qos0_messages :: bool
  upgrade_outgoing_qos :: bool
  retry_interval :: int
  persistent_client_expiration :: int
  persistence :: bool
  autosave_interval :: int
  autosave_on_changes :: bool

text \<open>
  A loaded security plugin is code outside the repository: its entry points are functions. So
  is OpenSSL's SHA-512 of a password and a salt, which may fail.
\<close>

record auth_plugin =
  pl_acl_check :: "string \<Rightarrow> string option \<Rightarrow> string \<Rightarrow> nat \<Rightarrow> rc"
  pl_unpwd_check :: "string option \<Rightarrow> string option \<Rightarrow> rc"

record db =
  last_db_id :: u64
  subs :: "subhier list"
  unpwd :: "unpwd_entry list"
  psk_id :: "unpwd_entry list"
  acl_list :: "acl_user list"
  acl_patterns :: "acl list"
  contexts :: "ctx_ref \<Rightarrow> ctx option"
  contexts_by_id :: "(string \<times> ctx_ref) list"
  contexts_by_sock :: "(int \<times> ctx_ref) list"
  bridges :: "ctx_ref option list"
  msg_store :: "(store_ref \<times> msg_store) list"
  msg_store_count :: int
  cfg :: config
  listeners :: "listener list"
  persistence_changes :: int
  auth_plugin :: "auth_plugin option"
  pw_digest :: "string \<Rightarrow> byte list \<Rightarrow> byte list option"
  subscription_count :: int
  retained_count :: int
  ll_for_free :: "ctx_ref list"
  glob :: globals

text \<open>The broker as \<^verbatim>\<open>main\<close> zeroes it, with the compiled-in limits of \<^verbatim>\<open>database.c\<close>.\<close>

definition globals_init :: globals where
  "globals_init = \<lparr>now = 0, wall = 0, max_inflight = 20, max_queued = 100, g_msgs_dropped = 0,
     g_bytes_received = 0, g_bytes_sent = 0, g_pub_bytes_received = 0, g_pub_bytes_sent = 0,
     g_msgs_received = 0, g_msgs_sent = 0, g_pub_msgs_received = 0, g_pub_msgs_sent = 0,
     g_connection_count = 0, g_socket_connections = 0, g_clients_expired = 0, next_ptr = 1, fault = False\<rparr>"

definition db_zero :: "config \<Rightarrow> db" where
  "db_zero conf = \<lparr>last_db_id = 0, subs = [], unpwd = [], psk_id = [], acl_list = [], acl_patterns = [],
     contexts = (\<lambda>r. None), contexts_by_id = [], contexts_by_sock = [], bridges = [], msg_store = [],
     msg_store_count = 0, cfg = conf, listeners = [], persistence_changes = 0, auth_plugin = None, pw_digest = (\<lambda>p s. None),
     subscription_count = 0, retained_count = 0, ll_for_free = [], glob = globals_init\<rparr>"

text \<open>The settings of \<^verbatim>\<open>_config_init_reload\<close> and \<^verbatim>\<open>mqtt3_config_init\<close>.\<close>

definition config_init :: config where
  "config_init = \<lparr>allow_anonymous = True, allow_duplicate_messages = False,
     allow_zero_length_clientid = True, auto_id_prefix = [], clientid_prefixes = None,
     message_size_limit = 0, queue_qos0_messages = False, upgrade_outgoing_qos = False,
     retry_interval = 20, persistent_client_expiration = 0, persistence = False, autosave_interval = 1800,
     autosave_on_changes = False\<rparr>"

subsection \<open>Reaching into the heap\<close>

text \<open>
  Reading through a freed or null pointer gives the zeroed struct here; the liveness
  invariants show where it cannot happen.
\<close>

definition ctx_of :: "db \<Rightarrow> ctx_ref \<Rightarrow> ctx" where
  "ctx_of d c = (case contexts d c of Some x \<Rightarrow> x | None \<Rightarrow> ctx_zero)"

definition put_ctx :: "ctx_ref \<Rightarrow> ctx \<Rightarrow> db \<Rightarrow> db" where
  "put_ctx c x d = d\<lparr>contexts := (contexts d)(c := Some x)\<rparr>"

definition upd_ctx :: "ctx_ref \<Rightarrow> (ctx \<Rightarrow> ctx) \<Rightarrow> db \<Rightarrow> db" where
  "upd_ctx c f d = put_ctx c (f (ctx_of d c)) d"

text \<open>Run an operation that touches the globals and one context only.\<close>

definition with_ctx :: "ctx_ref \<Rightarrow> (globals \<times> ctx \<Rightarrow> 'r \<times> globals \<times> ctx) \<Rightarrow> db \<Rightarrow> 'r \<times> db" where
  "with_ctx c f d = (case f (glob d, ctx_of d c) of (r, g, x) \<Rightarrow> (r, put_ctx c x (d\<lparr>glob := g\<rparr>)))"

definition store_of :: "db \<Rightarrow> store_ref \<Rightarrow> msg_store" where
  "store_of d s = (case map_of (msg_store d) s of Some m \<Rightarrow> m | None \<Rightarrow> msg_store_zero)"

definition upd_store :: "store_ref \<Rightarrow> (msg_store \<Rightarrow> msg_store) \<Rightarrow> db \<Rightarrow> db" where
  "upd_store s f d = d\<lparr>msg_store := map (\<lambda>(p, m). if p = s then (p, f m) else (p, m)) (msg_store d)\<rparr>"

definition set_fault :: "db \<Rightarrow> db" where
  "set_fault d = d\<lparr>glob := (glob d)\<lparr>fault := True\<rparr>\<rparr>"

lemma ctx_of_put_ctx [simp]: "ctx_of (put_ctx c x d) c' = (if c' = c then x else ctx_of d c')"
  by (simp add: ctx_of_def put_ctx_def)

lemma ctx_of_upd_ctx [simp]: "ctx_of (upd_ctx c f d) c' = (if c' = c then f (ctx_of d c) else ctx_of d c')"
  by (simp add: upd_ctx_def)

end
