(* ===== verification/Packet.thy ===== *)
theory Packet
  imports Types
begin

text \<open>
  Packets: \<^verbatim>\<open>_mosquitto_packet_alloc\<close> of \<^verbatim>\<open>lib/util_mosq.c\<close>, and the reading and writing of
  fields of \<^verbatim>\<open>lib/net_mosq.c\<close>.

  A reader returns its error code or value together with the packet, whose \<open>pos\<close> has moved.
  A writer returns \<^const>\<open>None\<close> where the \<^verbatim>\<open>assert\<close> of the C code would abort.
\<close>

subsection \<open>Allocating a packet: the remaining length\<close>

text \<open>The loop that writes the remaining length, seven bits a byte, five bytes at most.\<close>

function remaining_bytes :: "u32 \<Rightarrow> nat \<Rightarrow> byte list" where
  "remaining_bytes n k =
     (let byte = ucast (n mod 128); n' = n div 128;
          byte' = (if n' > 0 then byte OR 0x80 else byte)
      in byte' # (if n' > 0 \<and> k + 1 < 5 then remaining_bytes n' (k + 1) else []))"
  by pat_completeness auto
termination
  by (relation "measure (\<lambda>(n, k). 5 - k)") auto

declare remaining_bytes.simps [simp del]

definition mosquitto_packet_alloc :: "packet \<Rightarrow> rc \<times> packet" where
  "mosquitto_packet_alloc p =
     (let bs = remaining_bytes (remaining_length p) 0;
          p1 = p\<lparr>payload := [], remaining_count := int (length bs)\<rparr>
      in if length bs = 5 then (MOSQ_ERR_PAYLOAD_SIZE, p1)
         else let len = remaining_length p + 1 + word_of_nat (length bs)
              in (MOSQ_ERR_SUCCESS,
                  p1\<lparr>packet_length := len,
                     payload := command p # bs @ replicate (unat len - (1 + length bs)) 0,
                     pos := 1 + word_of_nat (length bs)\<rparr>))"

definition mosquitto_packet_cleanup :: "packet \<Rightarrow> packet" where
  "mosquitto_packet_cleanup p = p\<lparr>command := 0, remaining_count := 0, remaining_mult := 1,
     remaining_length := 0, payload := [], to_process := 0, pos := 0\<rparr>"

subsection \<open>Fields\<close>

type_synonym 'a reader = "packet \<Rightarrow> (rc + 'a) \<times> packet"

definition mosquitto_read_byte :: "byte reader" where
  "mosquitto_read_byte p =
     (if pos p + 1 > remaining_length p then (Inl MOSQ_ERR_PROTOCOL, p)
      else (Inr (payload p ! unat (pos p)), p\<lparr>pos := pos p + 1\<rparr>))"

definition mosquitto_read_bytes :: "u32 \<Rightarrow> byte list reader" where
  "mosquitto_read_bytes count p =
     (if pos p + count > remaining_length p then (Inl MOSQ_ERR_PROTOCOL, p)
      else (Inr (take (unat count) (drop (unat (pos p)) (payload p))), p\<lparr>pos := pos p + count\<rparr>))"

definition mosquitto_read_uint16 :: "u16 reader" where
  "mosquitto_read_uint16 p =
     (if pos p + 2 > remaining_length p then (Inl MOSQ_ERR_PROTOCOL, p)
      else let msb = payload p ! unat (pos p); lsb = payload p ! unat (pos p + 1)
           in (Inr (push_bit 8 (ucast msb) + ucast lsb), p\<lparr>pos := pos p + 1 + 1\<rparr>))"

definition mosquitto_read_string :: "string reader" where
  "mosquitto_read_string p =
     (case mosquitto_read_uint16 p of
        (Inl e, p1) \<Rightarrow> (Inl e, p1)
      | (Inr len, p1) \<Rightarrow>
          (if pos p1 + ucast len > remaining_length p1 then (Inl MOSQ_ERR_PROTOCOL, p1)
           else (Inr (c_string (take (unat len) (drop (unat (pos p1)) (payload p1)))),
                 p1\<lparr>pos := pos p1 + ucast len\<rparr>)))"

definition mosquitto_write_byte :: "byte \<Rightarrow> packet \<Rightarrow> packet option" where
  "mosquitto_write_byte b p =
     (if pos p + 1 \<le> packet_length p
      then Some (p\<lparr>payload := (payload p)[unat (pos p) := b], pos := pos p + 1\<rparr>)
      else None)"

definition mosquitto_write_bytes :: "byte list \<Rightarrow> u32 \<Rightarrow> packet \<Rightarrow> packet option" where
  "mosquitto_write_bytes bs count p =
     (if pos p + count \<le> packet_length p
      then Some (p\<lparr>payload := take (unat (pos p)) (payload p) @ take (unat count) bs
                     @ drop (unat (pos p) + unat count) (payload p),
                   pos := pos p + count\<rparr>)
      else None)"

definition mosq_msb :: "u16 \<Rightarrow> byte" where
  "mosq_msb a = ucast (drop_bit 8 (a AND 0xFF00))"

definition mosq_lsb :: "u16 \<Rightarrow> byte" where
  "mosq_lsb a = ucast (a AND 0x00FF)"

definition mosquitto_write_uint16 :: "u16 \<Rightarrow> packet \<Rightarrow> packet option" where
  "mosquitto_write_uint16 w p =
     Option.bind (mosquitto_write_byte (mosq_msb w) p) (mosquitto_write_byte (mosq_lsb w))"

text \<open>The caller passes \<^verbatim>\<open>strlen\<close>, which the parameter type cuts to 16 bits.\<close>

definition mosquitto_write_string :: "string \<Rightarrow> u16 \<Rightarrow> packet \<Rightarrow> packet option" where
  "mosquitto_write_string str len p =
     Option.bind (mosquitto_write_uint16 len p) (mosquitto_write_bytes (bytes_of str) (ucast len))"

subsection \<open>The remaining length: encoding and decoding\<close>

text \<open>The encoding on numbers, without the limit of five bytes.\<close>

fun length_digits :: "nat \<Rightarrow> byte list" where
  "length_digits n =
     (if n < 128 then [word_of_nat n] else word_of_nat (128 + n mod 128) # length_digits (n div 128))"

declare length_digits.simps [simp del]

lemma length_digits_small: "n < 128 \<Longrightarrow> length_digits n = [word_of_nat n]"
  by (subst length_digits.simps) simp

lemma length_digits_large:
  "\<not> n < 128 \<Longrightarrow> length_digits n = word_of_nat (128 + n mod 128) # length_digits (n div 128)"
  by (subst length_digits.simps) simp

lemma length_digits_not_Nil [simp]: "length_digits n \<noteq> []"
  by (subst length_digits.simps) simp

lemma length_length_digits: "0 < j \<Longrightarrow> length (length_digits n) \<le> j \<longleftrightarrow> n < 128 ^ j"
proof (induction n arbitrary: j rule: length_digits.induct)
  case (1 n)
  obtain i where i: "j = Suc i" using "1.prems" by (cases j) auto
  show ?case
  proof (cases "n < 128")
    case True
    have "(1::nat) \<le> 128 ^ i" by simp
    then have "(128::nat) \<le> 128 ^ j" unfolding i by simp
    then have "n < 128 ^ j" using True by (rule less_le_trans [rotated])
    then show ?thesis using True i by (simp add: length_digits_small)
  next
    case False
    show ?thesis
    proof (cases i)
      case 0
      then show ?thesis using False i by (simp add: length_digits_large Suc_le_eq)
    next
      case (Suc k)
      have "n div 128 < 128 ^ i \<longleftrightarrow> n < 128 ^ j"
        unfolding i by (simp add: div_less_iff_less_mult mult.commute)
      then show ?thesis
        using False "1.IH" [of i] Suc i by (simp add: length_digits_large)
    qed
  qed
qed

lemma byte_bit_7: "m < 128 \<Longrightarrow> bit (word_of_nat (128 + m) :: byte) 7" "m < 128 \<Longrightarrow> \<not> bit (word_of_nat m :: byte) 7"
proof -
  have b: "bit (w :: byte) 7 \<longleftrightarrow> bit (unat w) 7" for w
    by (simp add: bit_unsigned_iff)
  show "m < 128 \<Longrightarrow> bit (word_of_nat (128 + m) :: byte) 7" "m < 128 \<Longrightarrow> \<not> bit (word_of_nat m :: byte) 7"
    unfolding b by (simp_all add: unat_of_nat take_bit_nat_eq_self bit_iff_odd div_add_self1 del: of_nat_add)
qed

lemma byte_and_128: "(b :: byte) AND 128 = 0 \<longleftrightarrow> \<not> bit b 7"
  using and_exp_eq_0_iff_not_bit [of b 7] by simp

lemma byte_top_bit:
  assumes "m < 128"
  shows "(word_of_nat m :: byte) OR 0x80 = word_of_nat (128 + m)"
    and "(word_of_nat (128 + m) :: byte) AND 128 \<noteq> 0"
    and "(word_of_nat m :: byte) AND 128 = 0"
proof -
  show "(word_of_nat (128 + m) :: byte) AND 128 \<noteq> 0" and z: "(word_of_nat m :: byte) AND 128 = 0"
    using byte_bit_7 [OF assms] by (simp_all add: byte_and_128 del: of_nat_add)
  have "(word_of_nat m :: byte) OR 0x80 = word_of_nat m + 0x80"
    using z by (simp add: disjunctive_add_eq_or)
  then show "(word_of_nat m :: byte) OR 0x80 = word_of_nat (128 + m)"
    by simp
qed

lemma byte_low_bits:
  assumes "m < 128"
  shows "(ucast (word_of_nat (128 + m) :: byte) :: u32) AND 127 = word_of_nat m"
    and "(ucast (word_of_nat m :: byte) :: u32) AND 127 = word_of_nat m"
proof -
  have mask: "x AND 127 = take_bit 7 x" for x :: u32
    by (simp add: take_bit_eq_mask mask_eq_exp_minus_1)
  have u: "unat (ucast (word_of_nat (128 + m) :: byte) :: u32) = 128 + m"
    "unat (ucast (word_of_nat m :: byte) :: u32) = m"
    using assms by (simp_all add: unsigned_ucast_eq unat_of_nat take_bit_nat_eq_self del: of_nat_add)
  have t: "take_bit 7 (128 + m) = m" "take_bit 7 m = m"
    using assms by (simp_all add: take_bit_eq_mod)
  show "(ucast (word_of_nat (128 + m) :: byte) :: u32) AND 127 = word_of_nat m"
    unfolding mask by (rule word_unat_eq_iff [THEN iffD2])
      (use u t assms in \<open>simp add: unsigned_take_bit_eq unat_of_nat take_bit_nat_eq_self del: of_nat_add\<close>)
  show "(ucast (word_of_nat m :: byte) :: u32) AND 127 = word_of_nat m"
    unfolding mask by (rule word_unat_eq_iff [THEN iffD2])
      (use u t assms in \<open>simp add: unsigned_take_bit_eq unat_of_nat take_bit_nat_eq_self\<close>)
qed

text \<open>The loop of the code writes the first five of these digits.\<close>

lemma remaining_bytes_digits:
  "k < 5 \<Longrightarrow> remaining_bytes n k = take (5 - k) (length_digits (unat n))"
proof (induction n k rule: remaining_bytes.induct)
  case (1 n k)
  have byte: "(ucast (n mod 128) :: byte) = word_of_nat (unat n mod 128)"
  proof (rule word_unat_eq_iff [THEN iffD2])
    show "unat (ucast (n mod 128) :: byte) = unat (word_of_nat (unat n mod 128) :: byte)"
      by (simp add: unsigned_ucast_eq unat_of_nat unat_mod take_bit_nat_eq_self)
  qed
  have pos: "n div 128 > 0 \<longleftrightarrow> \<not> unat n < 128"
    by (simp add: word_less_nat_alt unat_div not_less div_greater_zero_iff)
  show ?case
  proof (cases "unat n < 128")
    case True
    then show ?thesis
      using "1.prems" pos byte by (subst remaining_bytes.simps) (simp add: length_digits_small Let_def)
  next
    case False
    have head: "(ucast (n mod 128) :: byte) OR 0x80 = word_of_nat (128 + unat n mod 128)"
      unfolding byte by (rule byte_top_bit) simp
    have d: "unat (n div 128) = unat n div 128" by (simp add: unat_div)
    have "remaining_bytes n k = ((ucast (n mod 128) :: byte) OR 0x80) #
        (if k + 1 < 5 then remaining_bytes (n div 128) (k + 1) else [])"
      using False pos by (subst remaining_bytes.simps) (simp add: Let_def)
    also have "\<dots> = take (5 - k) (length_digits (unat n))"
    proof (cases "k + 1 < 5")
      case True
      then have "remaining_bytes (n div 128) (k + 1) = take (4 - k) (length_digits (unat n div 128))"
        using "1.IH" [OF refl refl refl] False pos d by simp
      then show ?thesis
        using True False head Suc_diff_le [of k 4] by (simp add: length_digits_large)
    next
      case last: False
      then have "k = 4" using "1.prems" by simp
      then show ?thesis using False head by (simp add: length_digits_large)
    qed
    finally show ?thesis .
  qed
qed

lemma remaining_bytes_spec:
  "unat n < 2 ^ 28 \<Longrightarrow> remaining_bytes n 0 = length_digits (unat n)"
  "length (remaining_bytes n 0) = 5 \<longleftrightarrow> 2 ^ 28 \<le> unat n"
  using length_length_digits [of 4 "unat n"] length_length_digits [of 5 "unat n"]
    unsigned_less [of n]
  by (auto simp: remaining_bytes_digits min_def not_le)

subsection \<open>Allocated packets\<close>

definition alloc_packet :: "packet \<Rightarrow> byte list \<Rightarrow> packet" where
  "alloc_packet p zeros =
     (let ds = length_digits (unat (remaining_length p))
      in p\<lparr>remaining_count := int (length ds),
           packet_length := remaining_length p + 1 + word_of_nat (length ds),
           payload := command p # ds @ zeros,
           pos := 1 + word_of_nat (length ds)\<rparr>)"

lemma length_digits_bounds:
  "n < 2 ^ 28 \<Longrightarrow> 0 < length (length_digits n) \<and> length (length_digits n) \<le> 4"
  using length_length_digits [of 4 n] by simp

lemma packet_alloc_ok:
  assumes "unat (remaining_length p) < 2 ^ 28"
  shows "mosquitto_packet_alloc p =
    (MOSQ_ERR_SUCCESS, alloc_packet p (replicate (unat (remaining_length p)) 0))"
proof -
  let ?ds = "length_digits (unat (remaining_length p))"
  have l: "length ?ds \<le> 4" using length_digits_bounds [OF assms] by simp
  have "unat (remaining_length p + 1 + word_of_nat (length ?ds)) = unat (remaining_length p) + 1 + length ?ds"
    using assms l by (simp add: unat_word_ariths unat_of_nat take_bit_nat_eq_self)
  then show ?thesis
    using l assms by (simp add: mosquitto_packet_alloc_def alloc_packet_def remaining_bytes_spec(1) Let_def)
qed

lemma packet_alloc_too_long:
  assumes "2 ^ 28 \<le> unat (remaining_length p)"
  shows "fst (mosquitto_packet_alloc p) = MOSQ_ERR_PAYLOAD_SIZE"
  using assms remaining_bytes_spec(2) [of "remaining_length p"]
  by (simp add: mosquitto_packet_alloc_def Let_def)

subsection \<open>Writing: what is written so far\<close>

definition write_wf :: "packet \<Rightarrow> bool" where
  "write_wf p \<longleftrightarrow> length (payload p) = unat (packet_length p) \<and> unat (packet_length p) < 2 ^ 30
     \<and> unat (pos p) \<le> unat (packet_length p)"

definition written :: "packet \<Rightarrow> byte list" where
  "written p = take (unat (pos p)) (payload p)"

definition room :: "packet \<Rightarrow> nat" where
  "room p = unat (packet_length p) - unat (pos p)"

text \<open>A writer's effect: it appends \<open>bs\<close> and leaves the rest of the packet alone.\<close>

definition appends :: "byte list \<Rightarrow> packet \<Rightarrow> packet \<Rightarrow> bool" where
  "appends bs p p' \<longleftrightarrow> write_wf p' \<and> written p' = written p @ bs \<and> room p' = room p - length bs
     \<and> p' = p\<lparr>payload := payload p', pos := pos p'\<rparr>"

lemma appends_trans: "appends a p q \<Longrightarrow> appends b q r \<Longrightarrow> appends (a @ b) p r"
  by (cases p; cases q; cases r) (auto simp: appends_def)

lemma write_bytes_appends:
  assumes wf: "write_wf p" and n: "unat count \<le> room p" and len: "unat count \<le> length bs"
  shows "\<exists>p'. mosquitto_write_bytes bs count p = Some p' \<and> appends (take (unat count) bs) p p'"
proof -
  have le: "unat (pos p) + unat count \<le> unat (packet_length p)" "unat (packet_length p) < 2 ^ 30"
    using wf n by (auto simp: write_wf_def room_def)
  then have u: "unat (pos p + count) = unat (pos p) + unat count"
    by (intro word_sum_unat) auto
  have ok: "pos p + count \<le> packet_length p" using le u by (simp add: word_le_nat_alt)
  show ?thesis
    using wf le u len n unfolding mosquitto_write_bytes_def appends_def write_wf_def written_def room_def
    by (auto simp: ok min_def)
qed

lemma write_byte_appends:
  assumes wf: "write_wf p" and n: "1 \<le> room p"
  shows "\<exists>p'. mosquitto_write_byte b p = Some p' \<and> appends [b] p p'"
proof -
  have le: "unat (pos p) + 1 \<le> unat (packet_length p)" "unat (packet_length p) < 2 ^ 30"
    using wf n by (auto simp: write_wf_def room_def)
  then have u: "unat (pos p + 1) = unat (pos p) + 1"
    using word_sum_unat [of "pos p" 1] by simp
  have ok: "pos p + 1 \<le> packet_length p" using le u by (simp add: word_le_nat_alt)
  show ?thesis
    using wf le u n unfolding mosquitto_write_byte_def appends_def write_wf_def written_def room_def
    by (auto simp: ok take_Suc_conv_app_nth)
qed

lemma appends_room: "appends bs p p' \<Longrightarrow> write_wf p' \<and> room p' = room p - length bs"
  by (simp add: appends_def)

definition uint16_bytes :: "u16 \<Rightarrow> byte list" where
  "uint16_bytes w = [mosq_msb w, mosq_lsb w]"

lemma write_uint16_appends:
  assumes wf: "write_wf p" and n: "2 \<le> room p"
  shows "\<exists>p'. mosquitto_write_uint16 w p = Some p' \<and> appends (uint16_bytes w) p p'"
proof -
  obtain q where q: "mosquitto_write_byte (mosq_msb w) p = Some q" "appends [mosq_msb w] p q"
    using write_byte_appends wf n by (metis le_trans one_le_numeral)
  then obtain r where r: "mosquitto_write_byte (mosq_lsb w) q = Some r" "appends [mosq_lsb w] q r"
    using write_byte_appends [of q] appends_room [OF q(2)] n by fastforce
  show ?thesis
    using q r appends_trans [OF q(2) r(2)]
    by (simp add: mosquitto_write_uint16_def uint16_bytes_def)
qed

lemma write_string_appends:
  assumes wf: "write_wf p" and n: "2 + unat len \<le> room p" and len: "unat len \<le> length str"
  shows "\<exists>p'. mosquitto_write_string str len p = Some p'
    \<and> appends (uint16_bytes len @ take (unat len) (bytes_of str)) p p'"
proof -
  obtain q where q: "mosquitto_write_uint16 len p = Some q" "appends (uint16_bytes len) p q"
    using write_uint16_appends wf n by (metis add_leD1)
  have wq: "write_wf q" "unat (ucast len :: u32) \<le> room q"
    "unat (ucast len :: u32) \<le> length (bytes_of str)"
    using appends_room [OF q(2)] n len by (auto simp: uint16_bytes_def)
  obtain r where r: "mosquitto_write_bytes (bytes_of str) (ucast len) q = Some r"
      "appends (take (unat len) (bytes_of str)) q r"
    using write_bytes_appends [OF wq] by auto
  show ?thesis
    using q r appends_trans [OF q(2) r(2)] by (simp add: mosquitto_write_string_def)
qed

subsection \<open>Reading: what is left to read\<close>

definition read_wf :: "packet \<Rightarrow> bool" where
  "read_wf p \<longleftrightarrow> length (payload p) = unat (remaining_length p) \<and> unat (remaining_length p) < 2 ^ 30
     \<and> unat (pos p) \<le> unat (remaining_length p)"

definition rest :: "packet \<Rightarrow> byte list" where
  "rest p = drop (unat (pos p)) (payload p)"

definition advance :: "nat \<Rightarrow> packet \<Rightarrow> packet" where
  "advance n p = p\<lparr>pos := pos p + word_of_nat n\<rparr>"

lemma advance_wf:
  assumes "read_wf p" and "n \<le> length (rest p)"
  shows "read_wf (advance n p)" "rest (advance n p) = drop n (rest p)"
    "unat (pos (advance n p)) = unat (pos p) + n"
proof -
  have le: "unat (pos p) + n \<le> unat (remaining_length p)" "unat (remaining_length p) < 2 ^ 30"
    using assms by (auto simp: read_wf_def rest_def)
  then have "unat (word_of_nat n :: u32) = n"
    by (simp add: unat_of_nat take_bit_nat_eq_self)
  then have u: "unat (pos p + word_of_nat n) = unat (pos p) + n"
    using word_sum_unat [of "pos p" "word_of_nat n"] le by simp
  show "unat (pos (advance n p)) = unat (pos p) + n" using u by (simp add: advance_def)
  show "read_wf (advance n p)" "rest (advance n p) = drop n (rest p)"
    using assms le u by (auto simp: read_wf_def rest_def advance_def add.commute)
qed

lemma bound_rest:
  assumes "read_wf p" and "unat n < 2 ^ 30"
  shows "pos p + n > remaining_length p \<longleftrightarrow> length (rest p) < unat n"
  using assms word_bound_test [of "pos p" n "remaining_length p"]
  by (auto simp: read_wf_def rest_def)

lemma read_byte_rest [codec_simps]:
  assumes "read_wf p"
  shows "mosquitto_read_byte p =
    (case rest p of [] \<Rightarrow> (Inl MOSQ_ERR_PROTOCOL, p) | b # bs \<Rightarrow> (Inr b, advance 1 p))"
proof (cases "rest p")
  case Nil
  then show ?thesis using bound_rest [OF assms, of 1] by (simp add: mosquitto_read_byte_def)
next
  case (Cons b bs)
  then have "unat (pos p) < length (payload p)" "payload p ! unat (pos p) = b"
    by (auto simp: rest_def drop_Cons_iff)
  then show ?thesis
    using bound_rest [OF assms, of 1] Cons
    by (simp add: mosquitto_read_byte_def advance_def)
qed

lemma read_bytes_rest [codec_simps]:
  assumes "read_wf p" and "unat count < 2 ^ 30"
  shows "mosquitto_read_bytes count p =
    (if length (rest p) < unat count then (Inl MOSQ_ERR_PROTOCOL, p)
     else (Inr (take (unat count) (rest p)), advance (unat count) p))"
  using bound_rest [OF assms] by (simp add: mosquitto_read_bytes_def advance_def rest_def)

definition uint16_of :: "byte \<Rightarrow> byte \<Rightarrow> u16" where
  "uint16_of msb lsb = push_bit 8 (ucast msb) + ucast lsb"

lemma read_uint16_rest [codec_simps]:
  assumes "read_wf p"
  shows "mosquitto_read_uint16 p =
    (case rest p of
       a # b # bs \<Rightarrow> (Inr (uint16_of a b), advance 2 p)
     | _ \<Rightarrow> (Inl MOSQ_ERR_PROTOCOL, p))"
proof (cases "length (rest p) < 2")
  case True
  then show ?thesis
    using bound_rest [OF assms, of 2]
    by (cases "rest p"; cases "tl (rest p)") (simp_all add: mosquitto_read_uint16_def)
next
  case False
  then obtain a b bs where ab: "rest p = a # b # bs"
    by (cases "rest p"; cases "tl (rest p)") auto
  then have nth: "payload p ! unat (pos p) = a" "payload p ! (unat (pos p) + 1) = b"
    by (auto simp: rest_def drop_Cons_iff)
  have "unat (pos p + 1) = unat (pos p) + 1"
    using advance_wf(3) [OF assms, of 1] ab by (simp add: advance_def)
  then show ?thesis
    using bound_rest [OF assms, of 2] False ab nth
    by (simp add: mosquitto_read_uint16_def advance_def uint16_of_def Let_def add.assoc)
qed

lemma mosq_bytes_bits:
  "bit (mosq_msb w) n \<longleftrightarrow> n < 8 \<and> bit w (n + 8)" "bit (mosq_lsb w) n \<longleftrightarrow> n < 8 \<and> bit w n"
proof -
  have m: "(0xFF00 :: u16) = push_bit 8 (mask 8)" "(0x00FF :: u16) = mask 8"
    by (simp_all add: mask_eq_exp_minus_1)
  show "bit (mosq_msb w) n \<longleftrightarrow> n < 8 \<and> bit w (n + 8)" "bit (mosq_lsb w) n \<longleftrightarrow> n < 8 \<and> bit w n"
    unfolding mosq_msb_def mosq_lsb_def m by (auto simp: bit_simps add.commute)
qed

lemma uint16_round [codec_simps]: "uint16_of (mosq_msb w) (mosq_lsb w) = w"
proof -
  have "push_bit 8 (ucast (mosq_msb w) :: u16) AND ucast (mosq_lsb w) = 0"
    by (rule bit_eqI) (auto simp: bit_simps mosq_bytes_bits)
  then have "uint16_of (mosq_msb w) (mosq_lsb w) = push_bit 8 (ucast (mosq_msb w)) OR ucast (mosq_lsb w)"
    by (simp add: uint16_of_def disjunctive_add_eq_or)
  also have "\<dots> = w"
    by (rule bit_eqI) (auto simp: bit_simps mosq_bytes_bits)
  finally show ?thesis .
qed

lemma read_string_unfold:
  "mosquitto_read_uint16 p = (Inr len, q) \<Longrightarrow>
   mosquitto_read_string p =
     (if pos q + ucast len > remaining_length q then (Inl MOSQ_ERR_PROTOCOL, q)
      else (Inr (c_string (take (unat len) (rest q))), q\<lparr>pos := pos q + ucast len\<rparr>))"
  by (simp add: mosquitto_read_string_def rest_def)

lemma read_string_rest [codec_simps]:
  assumes "read_wf p" and "rest p = uint16_bytes len @ bs"
  shows "mosquitto_read_string p =
    (if length bs < unat len then (Inl MOSQ_ERR_PROTOCOL, advance 2 p)
     else (Inr (c_string (take (unat len) bs)), advance (2 + unat len) p))"
proof -
  have u16: "mosquitto_read_uint16 p = (Inr len, advance 2 p)"
    using assms by (simp add: read_uint16_rest uint16_bytes_def uint16_round)
  have wf: "read_wf (advance 2 p)" and r: "rest (advance 2 p) = bs"
    using advance_wf [OF assms(1), of 2] assms(2) by (simp_all add: uint16_bytes_def)
  have test: "pos (advance 2 p) + ucast len > remaining_length (advance 2 p) \<longleftrightarrow> length bs < unat len"
    using bound_rest [OF wf, of "ucast len"] unat_bound16 [of len] r by simp
  have adv: "(advance 2 p)\<lparr>pos := pos (advance 2 p) + ucast len\<rparr> = advance (2 + unat len) p"
    by (simp add: advance_def add.assoc)
  show ?thesis
    unfolding read_string_unfold [OF u16] test adv r ..
qed

subsection \<open>The contract of a field\<close>

text \<open>
  A kind of field: how it is written, how it is read, its bytes, and the values it can carry.
  The writer appends the bytes when there is room; the reader takes exactly these bytes off
  and, whatever it finds, stays inside the packet.
\<close>

locale field_codec =
  fixes wr :: "'a \<Rightarrow> packet \<Rightarrow> packet option"
    and rd :: "'a reader"
    and enc :: "'a \<Rightarrow> byte list"
    and carries :: "'a \<Rightarrow> bool"
  assumes wr_appends: "carries x \<Longrightarrow> write_wf p \<Longrightarrow> length (enc x) \<le> room p \<Longrightarrow>
      \<exists>p'. wr x p = Some p' \<and> appends (enc x) p p'"
    and rd_enc: "carries x \<Longrightarrow> read_wf p \<Longrightarrow> rest p = enc x @ bs \<Longrightarrow>
      rd p = (Inr x, advance (length (enc x)) p)"
    and rd_inside: "read_wf p \<Longrightarrow> rd p = (r, p') \<Longrightarrow> \<exists>n \<le> length (rest p). p' = advance n p"
begin

lemma rd_wf: "read_wf p \<Longrightarrow> rd p = (r, p') \<Longrightarrow> read_wf p' \<and> length (rest p') \<le> length (rest p)"
  using rd_inside advance_wf by (metis length_drop diff_le_self)

lemma round_trip:
  assumes "carries x" and "write_wf p" and "length (enc x) \<le> room p"
  shows "\<exists>p'. wr x p = Some p' \<and> write_wf p' \<and>
    (\<forall>q bs. read_wf q \<and> rest q = drop (length (written p)) (written p') @ bs \<longrightarrow>
       fst (rd q) = Inr x \<and> rest (snd (rd q)) = bs)"
proof -
  obtain p' where p': "wr x p = Some p'" "appends (enc x) p p'"
    using wr_appends [OF assms] by blast
  then have d: "drop (length (written p)) (written p') = enc x" by (simp add: appends_def)
  have "fst (rd q) = Inr x \<and> rest (snd (rd q)) = bs"
    if q: "read_wf q" "rest q = enc x @ bs" for q bs
    using rd_enc [OF assms(1) q] advance_wf(2) [OF q(1), of "length (enc x)"] q(2) by simp
  then show ?thesis using p' d by (auto simp: appends_def)
qed

end

definition enc_string :: "string \<Rightarrow> byte list" where
  "enc_string s = uint16_bytes (word_of_nat (length s)) @ bytes_of s"

definition write_cstring :: "string \<Rightarrow> packet \<Rightarrow> packet option" where
  "write_cstring s = mosquitto_write_string s (word_of_nat (length s))"

definition packable :: "string \<Rightarrow> bool" where
  "packable s \<longleftrightarrow> nul_free s \<and> length s \<le> 65535"

lemma packable_length: "packable s \<Longrightarrow> unat (word_of_nat (length s) :: u16) = length s"
  by (simp add: packable_def unat_of_nat take_bit_nat_eq_self)

lemma advance_0 [simp]: "advance 0 p = p"
  by (simp add: advance_def)

interpretation byte_field: field_codec mosquitto_write_byte mosquitto_read_byte "\<lambda>b. [b]" "\<lambda>_. True"
proof unfold_locales
  fix p r p' assume "read_wf p" and "mosquitto_read_byte p = (r, p')"
  then show "\<exists>n \<le> length (rest p). p' = advance n p"
    by (auto simp: read_byte_rest split: list.splits intro: exI [of _ 0] exI [of _ 1])
qed (auto simp: read_byte_rest dest: write_byte_appends)

interpretation uint16_field: field_codec mosquitto_write_uint16 mosquitto_read_uint16 uint16_bytes "\<lambda>_. True"
proof unfold_locales
  fix p r p' assume "read_wf p" and "mosquitto_read_uint16 p = (r, p')"
  then show "\<exists>n \<le> length (rest p). p' = advance n p"
    by (auto simp: read_uint16_rest split: list.splits intro: exI [of _ 0] exI [of _ 2])
next
  fix x p bs assume "read_wf p" and "rest p = uint16_bytes x @ bs"
  then show "mosquitto_read_uint16 p = (Inr x, advance (length (uint16_bytes x)) p)"
    by (simp add: read_uint16_rest uint16_bytes_def uint16_round numeral_2_eq_2)
qed (auto simp: uint16_bytes_def dest: write_uint16_appends [unfolded uint16_bytes_def])

lemma uint16_of_or: "uint16_of a b = push_bit 8 (ucast a) OR ucast b"
proof -
  have "push_bit 8 (ucast a :: u16) AND ucast b = 0"
    by (rule bit_eqI) (auto simp: bit_simps dest: bit_imp_le_length)
  then show ?thesis by (simp add: uint16_of_def disjunctive_add_eq_or)
qed

lemma uint16_bytes_of [simp]: "uint16_bytes (uint16_of a b) = [a, b]"
proof -
  have "mosq_msb (uint16_of a b) = a"
    by (rule bit_eqI) (auto simp: mosq_bytes_bits uint16_of_or bit_simps dest: bit_imp_le_length)
  moreover have "mosq_lsb (uint16_of a b) = b"
    by (rule bit_eqI) (auto simp: mosq_bytes_bits uint16_of_or bit_simps dest: bit_imp_le_length)
  ultimately show ?thesis by (simp add: uint16_bytes_def)
qed

lemma uint16_bytes_onto: "\<exists>w. uint16_bytes w = [a, b]"
  by (rule exI [of _ "uint16_of a b"]) simp

lemma read_string_inside:
  assumes "read_wf p" and "mosquitto_read_string p = (r, p')"
  shows "\<exists>n \<le> length (rest p). p' = advance n p"
proof (cases "length (rest p) < 2")
  case True
  then have "mosquitto_read_uint16 p = (Inl MOSQ_ERR_PROTOCOL, p)"
    using assms(1) by (auto simp: read_uint16_rest split: list.splits)
  then have "p' = p" using assms(2) by (simp add: mosquitto_read_string_def)
  then show ?thesis by (metis advance_0 zero_le)
next
  case False
  then obtain a b bs where "rest p = a # b # bs" by (cases "rest p"; cases "tl (rest p)") auto
  then obtain w where w: "rest p = uint16_bytes w @ bs"
    using uint16_bytes_onto [of a b] by (metis append_Cons append_Nil)
  show ?thesis
    using assms(2) w read_string_rest [OF assms(1) w]
    by (auto simp: uint16_bytes_def split: if_splits intro: exI [of _ 2] exI [of _ "Suc (Suc (unat w))"])
qed

interpretation string_field: field_codec write_cstring mosquitto_read_string enc_string packable
proof unfold_locales
  fix x p assume x: "packable x" and wf: "write_wf p" and r: "length (enc_string x) \<le> room p"
  have "2 + unat (word_of_nat (length x) :: u16) \<le> room p"
    using r packable_length [OF x] by (simp add: enc_string_def uint16_bytes_def)
  then show "\<exists>p'. write_cstring x p = Some p' \<and> appends (enc_string x) p p'"
    using write_string_appends [OF wf, of "word_of_nat (length x)" x] packable_length [OF x]
    by (simp add: enc_string_def write_cstring_def)
next
  fix x p bs assume x: "packable x" and wf: "read_wf p" and r: "rest p = enc_string x @ bs"
  have "take (unat (word_of_nat (length x) :: u16)) (bytes_of x @ bs) = bytes_of x"
    using packable_length [OF x] by simp
  then show "mosquitto_read_string p = (Inr x, advance (length (enc_string x)) p)"
    using read_string_rest [OF wf, of "word_of_nat (length x)" "bytes_of x @ bs"] r
      packable_length [OF x] x
    by (simp add: enc_string_def uint16_bytes_def packable_def)
qed (rule read_string_inside)

subsection \<open>Properties\<close>

text \<open>
  \<^verbatim>\<open>_mosquitto_packet_alloc\<close> fails exactly for a remaining length of at least
  \<^term>\<open>2 ^ 28\<close>, and otherwise sizes the packet as one command byte, one to four length bytes
  and the body, without wrapping around, ready for the body to be written.
\<close>

theorem packet_alloc_bounds:
  "if unat (remaining_length p) < 2 ^ 28
   then (let q = snd (mosquitto_packet_alloc p); k = length (length_digits (unat (remaining_length p)))
      in fst (mosquitto_packet_alloc p) = MOSQ_ERR_SUCCESS \<and>
         1 \<le> k \<and> k \<le> 4 \<and> write_wf q \<and> room q = unat (remaining_length p) \<and>
         unat (packet_length q) = 1 + k + unat (remaining_length p) \<and>
         written q = command p # length_digits (unat (remaining_length p)))
   else fst (mosquitto_packet_alloc p) = MOSQ_ERR_PAYLOAD_SIZE"
proof (cases "unat (remaining_length p) < 2 ^ 28")
  case True
  let ?k = "length (length_digits (unat (remaining_length p)))"
  have k: "1 \<le> ?k" "?k \<le> 4" using length_digits_bounds [OF True] by (simp_all only: Suc_le_eq One_nat_def)
  have "unat (remaining_length p + 1 + word_of_nat ?k) = 1 + ?k + unat (remaining_length p)"
    "unat (1 + word_of_nat ?k :: u32) = 1 + ?k"
    using True k by (simp_all add: unat_word_ariths unat_of_nat take_bit_nat_eq_self)
  then show ?thesis
    using True k by (simp add: packet_alloc_ok alloc_packet_def Let_def write_wf_def room_def written_def)
qed (simp add: packet_alloc_too_long)

text \<open>
  A string without NUL of at most 65535 characters that fits into a packet is written
  without tripping the assertion, and reading it back gives the string and leaves the bytes
  behind it.
\<close>

theorem string_round_trip:
  assumes "nul_free s" and "length s \<le> 65535" and "write_wf p" and "2 + length s \<le> room p"
  shows "\<exists>p'. mosquitto_write_string s (word_of_nat (length s)) p = Some p' \<and> write_wf p' \<and>
    (\<forall>q bs. read_wf q \<and> rest q = drop (length (written p)) (written p') @ bs \<longrightarrow>
       fst (mosquitto_read_string q) = Inr s \<and> rest (snd (mosquitto_read_string q)) = bs)"
  using string_field.round_trip [of s p] assms
  by (simp add: packable_def write_cstring_def enc_string_def uint16_bytes_def)

text \<open>
  Whatever the packet contains, the field readers stay inside it: the position never moves
  past the remaining length, so no byte outside the buffer is read.
\<close>

theorem readers_stay_inside:
  assumes "read_wf p"
  shows "read_wf (snd (mosquitto_read_byte p)) \<and> read_wf (snd (mosquitto_read_uint16 p)) \<and>
    read_wf (snd (mosquitto_read_string p)) \<and>
    (unat count < 2 ^ 30 \<longrightarrow> read_wf (snd (mosquitto_read_bytes count p)))"
proof (intro conjI impI)
  assume "unat count < 2 ^ 30"
  then show "read_wf (snd (mosquitto_read_bytes count p))"
    using assms advance_wf(1) [OF assms, of "unat count"] by (simp add: read_bytes_rest)
qed (use byte_field.rd_wf uint16_field.rd_wf string_field.rd_wf assms in \<open>metis prod.collapse\<close>)+

theorem readers_stay_inside_witness:
  "read_wf (snd (mosquitto_read_string (packet_zero\<lparr>payload := [0, 1, 65], remaining_length := 3\<rparr>)))"
  using readers_stay_inside [of "packet_zero\<lparr>payload := [0, 1, 65], remaining_length := 3\<rparr>" 0]
  by (simp add: read_wf_def packet_zero_def)

theorem string_round_trip_witness:
  "\<exists>p'. mosquitto_write_string ''ab'' (word_of_nat (length ''ab''))
          (packet_zero\<lparr>payload := [0, 0, 0, 0], packet_length := 4\<rparr>) = Some p'"
  using string_round_trip [of "''ab''" "packet_zero\<lparr>payload := [0, 0, 0, 0], packet_length := 4\<rparr>"]
  by (auto simp: nul_free_def write_wf_def room_def packet_zero_def)

end
