(* ===== verification/OutQueue.thy ===== *)
theory OutQueue
  imports Packet
begin

text \<open>
  The outgoing side of a connection, \<^verbatim>\<open>lib/net_mosq.c\<close> as compiled for the broker:
  \<^verbatim>\<open>_mosquitto_net_write\<close>, the packet queue of a context and \<^verbatim>\<open>_mosquitto_packet_write\<close>, which
  drains it as far as the socket lets it. An operation works on the globals and one context.
\<close>

subsection \<open>Writing to the socket\<close>

text \<open>
  The result of \<^verbatim>\<open>write\<close> / \<^verbatim>\<open>SSL_write\<close> with the value of \<^verbatim>\<open>errno\<close>; the kernel never takes
  more than it is offered, and what it takes is appended to \<open>sent\<close>.
\<close>

definition mosquitto_net_write :: "byte list \<Rightarrow> ctx \<Rightarrow> int \<times> errno \<times> ctx" where
  "mosquitto_net_write buf c =
     (case wr_answers c of
        [] \<Rightarrow> (- 1, EAGAIN, c)
      | a # as \<Rightarrow>
          (let c1 = c\<lparr>wr_answers := as\<rparr> in
           case a of
             NetCount n \<Rightarrow>
               (int (min n (length buf)), EOK, c1\<lparr>sent := sent c1 @ take n buf\<rparr>)
           | NetErr e \<Rightarrow> (- 1, e, c1)
           | SslWantRead \<Rightarrow> (- 1, EAGAIN, c1)
           | SslWantWrite \<Rightarrow> (- 1, EAGAIN, c1\<lparr>want_write := True\<rparr>)
           | SslError r \<Rightarrow> (if r < 0 then (r, EPROTO, c1) else (0, EOK, c1))
           | NetData _ \<Rightarrow> (0, EOK, c1)
           | NetEof \<Rightarrow> (0, EOK, c1)))"

subsection \<open>The outgoing queue\<close>

text \<open>Take the next packet of the queue as the current one.\<close>

definition next_out_packet :: "ctx \<Rightarrow> ctx" where
  "next_out_packet c =
     (case out_packet c of
        [] \<Rightarrow> c\<lparr>current_out_packet := None\<rparr>
      | p # ps \<Rightarrow> c\<lparr>current_out_packet := Some p, out_packet := ps\<rparr>)"

definition is_publish_qos0 :: "packet \<Rightarrow> bool" where
  "is_publish_qos0 p \<longleftrightarrow> command p AND 0xF6 = PUBLISH"

lemma net_write_progress:
  "mosquitto_net_write buf c = (n, e, c') \<Longrightarrow> n > 0 \<Longrightarrow>
     length (wr_answers c') < length (wr_answers c)
     \<and> out_packet c' = out_packet c \<and> current_out_packet c' = current_out_packet c"
  by (auto simp: mosquitto_net_write_def Let_def split: list.splits net_answer.splits if_splits)

text \<open>
  The two nested loops of \<^verbatim>\<open>_mosquitto_packet_write\<close>: write what is left of the current
  packet, then go on to the next.
\<close>

function write_loop :: "globals \<times> ctx \<Rightarrow> rc \<times> globals \<times> ctx" where
  "write_loop (g, c) =
     (case current_out_packet c of
        None \<Rightarrow> (MOSQ_ERR_SUCCESS, g, c)
      | Some p \<Rightarrow>
          if to_process p > 0 then
            (case mosquitto_net_write
                    (take (unat (to_process p)) (drop (unat (pos p)) (payload p))) c of
               (n, e, c1) \<Rightarrow>
                 if n > 0 then
                   write_loop
                     (g\<lparr>g_bytes_sent := g_bytes_sent g + word_of_int n\<rparr>,
                      c1\<lparr>current_out_packet :=
                           Some (p\<lparr>to_process := to_process p - word_of_int n,
                                   pos := pos p + word_of_int n\<rparr>)\<rparr>)
                 else if e = EAGAIN then (MOSQ_ERR_SUCCESS, g, c1)
                 else if e = ECONNRESET then (MOSQ_ERR_CONN_LOST, g, c1)
                 else (MOSQ_ERR_ERRNO, g, c1))
          else
            write_loop
              (g\<lparr>g_msgs_sent := g_msgs_sent g + 1,
                 g_pub_msgs_sent := (if is_publish_qos0 p then g_pub_msgs_sent g + 1
                                     else g_pub_msgs_sent g)\<rparr>,
               (next_out_packet c)\<lparr>last_msg_out := now g\<rparr>))"
  by pat_completeness auto
termination
proof (relation "measure (\<lambda>(g, c). length (wr_answers c) + length (out_packet c)
    + (case current_out_packet c of None \<Rightarrow> 0 | Some _ \<Rightarrow> 1))", goal_cases)
  case (2 g c p n r e c1)
  then show ?case using net_write_progress [of _ c n e c1] by fastforce
next
  case (3 g c p)
  then show ?case
    by (auto simp: next_out_packet_def split: list.splits)
qed simp_all

declare write_loop.simps [simp del]

text \<open>The first lines of \<^verbatim>\<open>_mosquitto_packet_write\<close>: pick a packet when none is under way.\<close>

definition first_out_packet :: "ctx \<Rightarrow> ctx" where
  "first_out_packet c =
     (if out_packet c \<noteq> [] \<and> current_out_packet c = None then next_out_packet c else c)"

definition mosquitto_packet_write :: "globals \<times> ctx \<Rightarrow> rc \<times> globals \<times> ctx" where
  "mosquitto_packet_write s =
     (case s of (g, c) \<Rightarrow>
        if sock c = INVALID_SOCKET then (MOSQ_ERR_NO_CONN, g, c)
        else
          let c1 = first_out_packet c
          in if state c1 = mosq_cs_connect_pending then (MOSQ_ERR_SUCCESS, g, c1)
             else write_loop (g, c1))"

definition mosquitto_packet_queue :: "packet \<Rightarrow> globals \<times> ctx \<Rightarrow> rc \<times> globals \<times> ctx" where
  "mosquitto_packet_queue p s =
     (case s of (g, c) \<Rightarrow>
        mosquitto_packet_write
          (g, c\<lparr>out_packet := out_packet c @ [p\<lparr>pos := 0, to_process := packet_length p\<rparr>]\<rparr>))"

subsection \<open>What is still to be sent\<close>

definition packet_rest :: "packet \<Rightarrow> byte list" where
  "packet_rest p = take (unat (to_process p)) (drop (unat (pos p)) (payload p))"

definition pending :: "ctx \<Rightarrow> byte list" where
  "pending c = (case current_out_packet c of None \<Rightarrow> [] | Some p \<Rightarrow> packet_rest p)
     @ concat (map packet_rest (out_packet c))"

text \<open>A queued packet still has all of its unsent part to process.\<close>

definition out_wf :: "packet \<Rightarrow> bool" where
  "out_wf p \<longleftrightarrow> unat (pos p) + unat (to_process p) = length (payload p) \<and> length (payload p) < 2 ^ 30"

definition queue_wf :: "ctx \<Rightarrow> bool" where
  "queue_wf c \<longleftrightarrow> (\<forall>p \<in> set (out_packet c). out_wf p)
     \<and> (case current_out_packet c of None \<Rightarrow> True | Some p \<Rightarrow> out_wf p)"

text \<open>The fields of a context that sending can change.\<close>

definition same_but_output :: "ctx \<Rightarrow> ctx \<Rightarrow> bool" where
  "same_but_output c c' \<longleftrightarrow>
     c' = c\<lparr>wr_answers := wr_answers c', sent := sent c', want_write := want_write c',
            current_out_packet := current_out_packet c', out_packet := out_packet c',
            last_msg_out := last_msg_out c'\<rparr>"

lemma same_but_output_refl [simp]: "same_but_output c c"
  by (simp add: same_but_output_def)

lemma same_but_output_trans: "same_but_output a b \<Longrightarrow> same_but_output b c \<Longrightarrow> same_but_output a c"
  by (cases a; cases b; cases c) (simp add: same_but_output_def)

text \<open>The globals that sending can change.\<close>

definition same_but_counters :: "globals \<Rightarrow> globals \<Rightarrow> bool" where
  "same_but_counters g g' \<longleftrightarrow>
     g' = g\<lparr>g_bytes_sent := g_bytes_sent g', g_msgs_sent := g_msgs_sent g',
            g_pub_msgs_sent := g_pub_msgs_sent g', g_pub_bytes_sent := g_pub_bytes_sent g'\<rparr>"

lemma same_but_counters_refl [simp]: "same_but_counters g g"
  by (simp add: same_but_counters_def)

lemma same_but_counters_trans:
  "same_but_counters a b \<Longrightarrow> same_but_counters b c \<Longrightarrow> same_but_counters a c"
  by (cases a; cases b; cases c) (simp add: same_but_counters_def)

lemma net_write_spec:
  assumes "mosquitto_net_write buf c = (n, e, c')"
  shows "n \<le> int (length buf)" and "sent c' = sent c @ (if n > 0 then take (nat n) buf else [])"
    and "current_out_packet c' = current_out_packet c" and "out_packet c' = out_packet c"
    and "same_but_output c c'"
  using assms
  by (auto simp: mosquitto_net_write_def same_but_output_def Let_def min_def
      split: list.splits net_answer.splits if_splits)

text \<open>Whatever is queued, sending touches nothing else.\<close>

lemma next_out_packet_frame: "same_but_output c (next_out_packet c)"
  by (simp add: next_out_packet_def same_but_output_def split: list.splits)

lemma write_loop_frame:
  "write_loop (g, c) = (r, g', c') \<Longrightarrow> same_but_output c c' \<and> same_but_counters g g'"
proof (induction "(g, c)" arbitrary: g c rule: write_loop.induct)
  case (1 g c)
  show ?case
  proof (cases "current_out_packet c")
    case None
    then show ?thesis using "1.prems" by (simp add: write_loop.simps [of g c])
  next
    case (Some p)
    show ?thesis
    proof (cases "to_process p > 0")
      case True
      obtain n e c1 where w:
        "mosquitto_net_write (take (unat (to_process p)) (drop (unat (pos p)) (payload p))) c = (n, e, c1)"
        by (cases "mosquitto_net_write (take (unat (to_process p)) (drop (unat (pos p)) (payload p))) c") auto
      have c1: "same_but_output c c1" by (rule net_write_spec [OF w])
      show ?thesis
      proof (cases "n > 0")
        case n: True
        let ?p = "p\<lparr>to_process := to_process p - word_of_int n, pos := pos p + word_of_int n\<rparr>"
        let ?g = "g\<lparr>g_bytes_sent := g_bytes_sent g + word_of_int n\<rparr>"
        let ?c = "c1\<lparr>current_out_packet := Some ?p\<rparr>"
        have run: "write_loop (?g, ?c) = (r, g', c')"
          using "1.prems" Some True n w by (simp add: write_loop.simps [of g c])
        have IH: "same_but_output ?c c' \<and> same_but_counters ?g g'"
          using "1.hyps"(1) [OF Some True w [symmetric] refl n run] .
        have "same_but_output c ?c"
          using c1 by (cases c; cases c1) (simp add: same_but_output_def)
        moreover have "same_but_counters g ?g" by (simp add: same_but_counters_def)
        ultimately show ?thesis
          using IH by (blast intro: same_but_output_trans same_but_counters_trans)
      next
        case False
        then have "c' = c1" "g' = g"
          using "1.prems" Some True w by (simp_all add: write_loop.simps [of g c] split: if_splits)
        then show ?thesis using c1 by simp
      qed
    next
      case False
      let ?g = "g\<lparr>g_msgs_sent := g_msgs_sent g + 1,
        g_pub_msgs_sent := (if is_publish_qos0 p then g_pub_msgs_sent g + 1 else g_pub_msgs_sent g)\<rparr>"
      let ?c = "(next_out_packet c)\<lparr>last_msg_out := now g\<rparr>"
      have run: "write_loop (?g, ?c) = (r, g', c')"
        using "1.prems" Some False by (simp add: write_loop.simps [of g c])
      have IH: "same_but_output ?c c' \<and> same_but_counters ?g g'"
        using "1.hyps"(2) [OF Some False run] .
      have "same_but_output c ?c"
        using next_out_packet_frame [of c] by (cases c; cases "next_out_packet c") (simp add: same_but_output_def)
      moreover have "same_but_counters g ?g" by (simp add: same_but_counters_def)
      ultimately show ?thesis
        using IH by (blast intro: same_but_output_trans same_but_counters_trans)
    qed
  qed
qed

lemma packet_write_frame:
  assumes "mosquitto_packet_write (g, c) = (r, g', c')"
  shows "same_but_output c c' \<and> same_but_counters g g'"
proof -
  have first: "same_but_output c (first_out_packet c)"
    by (simp add: first_out_packet_def next_out_packet_frame)
  consider (no_sock) "c' = c" "g' = g" | (wait) "c' = first_out_packet c" "g' = g"
    | (loop) "write_loop (g, first_out_packet c) = (r, g', c')"
    using assms by (simp add: mosquitto_packet_write_def Let_def split: if_splits)
  then show ?thesis
    by cases (use first write_loop_frame same_but_output_trans in \<open>simp, simp, blast\<close>)
qed

lemma packet_queue_frame:
  assumes "mosquitto_packet_queue p (g, c) = (r, g', c')"
  shows "same_but_output c c' \<and> same_but_counters g g'"
proof -
  let ?c = "c\<lparr>out_packet := out_packet c @ [p\<lparr>pos := 0, to_process := packet_length p\<rparr>]\<rparr>"
  have "mosquitto_packet_write (g, ?c) = (r, g', c')"
    using assms by (simp add: mosquitto_packet_queue_def)
  moreover have "same_but_output c ?c" by (simp add: same_but_output_def)
  ultimately show ?thesis using packet_write_frame same_but_output_trans by blast
qed

lemma packet_rest_step:
  assumes "out_wf p" and "0 < n" and "nat n \<le> unat (to_process p)"
  shows "packet_rest (p\<lparr>to_process := to_process p - word_of_int n, pos := pos p + word_of_int n\<rparr>)
      = drop (nat n) (packet_rest p)"
    and "out_wf (p\<lparr>to_process := to_process p - word_of_int n, pos := pos p + word_of_int n\<rparr>)"
    and "take (nat n) (packet_rest p) = take (nat n) (drop (unat (pos p)) (payload p))"
proof -
  let ?n = "nat n"
  have wn: "(word_of_int n :: u32) = word_of_nat ?n" using assms(2) by simp
  have bounds: "?n \<le> unat (to_process p)" "unat (to_process p) < 2 ^ 30" "unat (pos p) < 2 ^ 30"
    using assms by (auto simp: out_wf_def)
  then have un: "unat (word_of_nat ?n :: u32) = ?n"
    by (simp add: unat_of_nat take_bit_nat_eq_self)
  have add: "unat (pos p + word_of_nat ?n) = unat (pos p) + ?n"
    using word_sum_unat [of "pos p" "word_of_nat ?n"] bounds un by simp
  have sub: "unat (to_process p - word_of_nat ?n) = unat (to_process p) - ?n"
    using bounds un by (simp add: unat_sub word_le_nat_alt)
  show "packet_rest (p\<lparr>to_process := to_process p - word_of_int n, pos := pos p + word_of_int n\<rparr>)
      = drop (nat n) (packet_rest p)"
    unfolding wn packet_rest_def using add sub by (simp add: drop_take add.commute)
  show "out_wf (p\<lparr>to_process := to_process p - word_of_int n, pos := pos p + word_of_int n\<rparr>)"
    unfolding wn out_wf_def using add sub bounds assms(1) by (simp add: out_wf_def)
  show "take (nat n) (packet_rest p) = take (nat n) (drop (unat (pos p)) (payload p))"
    using bounds by (simp add: packet_rest_def min_def)
qed

lemma next_out_packet_pending:
  assumes "queue_wf c"
  shows "pending (next_out_packet c) = concat (map packet_rest (out_packet c))"
    and "queue_wf (next_out_packet c)" and "sent (next_out_packet c) = sent c"
    and "same_but_output c (next_out_packet c)"
    and "wr_answers (next_out_packet c) = wr_answers c"
  using assms
  by (auto simp: next_out_packet_def pending_def queue_wf_def same_but_output_def split: list.splits)

text \<open>Bytes are neither lost, nor repeated, nor reordered, whatever the socket answers.\<close>

lemma write_loop_conserves:
  assumes "queue_wf c" and "write_loop (g, c) = (r, g', c')"
  shows "sent c' @ pending c' = sent c @ pending c \<and> queue_wf c' \<and> same_but_output c c'
    \<and> same_but_counters g g'"
  using assms
proof (induction "(g, c)" arbitrary: g c rule: write_loop.induct)
  case (1 g c)
  show ?case
  proof (cases "current_out_packet c")
    case None
    then show ?thesis using "1.prems" by (simp add: write_loop.simps [of g c])
  next
    case (Some p)
    have wf: "out_wf p" using "1.prems"(1) Some by (simp add: queue_wf_def)
    show ?thesis
    proof (cases "to_process p > 0")
      case True
      obtain n e c1 where w:
        "mosquitto_net_write (take (unat (to_process p)) (drop (unat (pos p)) (payload p))) c = (n, e, c1)"
        by (cases "mosquitto_net_write (take (unat (to_process p)) (drop (unat (pos p)) (payload p))) c") auto
      note spec = net_write_spec [OF w]
      show ?thesis
      proof (cases "n > 0")
        case n: True
        let ?p = "p\<lparr>to_process := to_process p - word_of_int n, pos := pos p + word_of_int n\<rparr>"
        let ?g = "g\<lparr>g_bytes_sent := g_bytes_sent g + word_of_int n\<rparr>"
        let ?c = "c1\<lparr>current_out_packet := Some ?p\<rparr>"
        have "nat n \<le> length (take (unat (to_process p)) (drop (unat (pos p)) (payload p)))"
          using spec(1) by linarith
        then have le: "nat n \<le> unat (to_process p)" by simp
        note step = packet_rest_step [OF wf n le]
        have wf1: "queue_wf ?c"
          using "1.prems"(1) step(2) spec(4) by (auto simp: queue_wf_def)
        have run: "write_loop (?g, ?c) = (r, g', c')"
          using "1.prems"(2) Some True n w by (simp add: write_loop.simps [of g c])
        have IH: "sent c' @ pending c' = sent ?c @ pending ?c \<and> queue_wf c' \<and> same_but_output ?c c'
            \<and> same_but_counters ?g g'"
          using "1.hyps"(1) [OF Some True w [symmetric] refl n wf1 run] .
        have "sent ?c = sent c @ take (nat n) (packet_rest p)"
          using spec(2) n by (simp add: packet_rest_def)
        moreover have "pending ?c = drop (nat n) (packet_rest p) @ concat (map packet_rest (out_packet c))"
          unfolding pending_def using step(1) spec(4) by simp
        moreover have "pending c = packet_rest p @ concat (map packet_rest (out_packet c))"
          using Some by (simp add: pending_def)
        ultimately have bytes: "sent ?c @ pending ?c = sent c @ pending c"
          by simp
        have "same_but_output c ?c"
          using spec(5) by (cases c; cases c1) (simp add: same_but_output_def)
        moreover have "same_but_counters g ?g" by (simp add: same_but_counters_def)
        ultimately show ?thesis
          using IH unfolding bytes by (blast intro: same_but_output_trans same_but_counters_trans)
      next
        case False
        then have "c' = c1" "g' = g"
          using "1.prems"(2) Some True w by (simp_all add: write_loop.simps [of g c] split: if_splits)
        then show ?thesis
          using spec False "1.prems"(1) by (simp add: pending_def queue_wf_def)
      qed
    next
      case False
      let ?g = "g\<lparr>g_msgs_sent := g_msgs_sent g + 1,
        g_pub_msgs_sent := (if is_publish_qos0 p then g_pub_msgs_sent g + 1 else g_pub_msgs_sent g)\<rparr>"
      let ?c = "(next_out_packet c)\<lparr>last_msg_out := now g\<rparr>"
      note nxt = next_out_packet_pending [OF "1.prems"(1)]
      have wf1: "queue_wf ?c" using nxt(2) by (simp add: queue_wf_def)
      have run: "write_loop (?g, ?c) = (r, g', c')"
        using "1.prems"(2) Some False by (simp add: write_loop.simps [of g c])
      have IH: "sent c' @ pending c' = sent ?c @ pending ?c \<and> queue_wf c' \<and> same_but_output ?c c'
          \<and> same_but_counters ?g g'"
        using "1.hyps"(2) [OF Some False wf1 run] .
      have "packet_rest p = []" using False by (simp add: packet_rest_def word_gt_0)
      then have bytes: "sent ?c @ pending ?c = sent c @ pending c"
        using nxt(1,3) Some by (simp add: pending_def)
      have "same_but_output c ?c"
        using nxt(4) by (cases c; cases "next_out_packet c") (simp add: same_but_output_def)
      moreover have "same_but_counters g ?g" by (simp add: same_but_counters_def)
      ultimately show ?thesis
        using IH unfolding bytes by (blast intro: same_but_output_trans same_but_counters_trans)
    qed
  qed
qed

lemma first_out_packet_pending:
  assumes "queue_wf c"
  shows "pending (first_out_packet c) = pending c" and "queue_wf (first_out_packet c)"
    and "sent (first_out_packet c) = sent c" and "same_but_output c (first_out_packet c)"
    and "wr_answers (first_out_packet c) = wr_answers c"
    and "current_out_packet (first_out_packet c) = None \<longrightarrow> out_packet (first_out_packet c) = []"
    and "state (first_out_packet c) = state c"
proof -
  note nxt = next_out_packet_pending [OF assms]
  have "pending (next_out_packet c) = pending c" if "current_out_packet c = None"
    using nxt(1) that by (simp add: pending_def)
  then show "pending (first_out_packet c) = pending c" by (simp add: first_out_packet_def)
  show "queue_wf (first_out_packet c)" "sent (first_out_packet c) = sent c"
    "same_but_output c (first_out_packet c)" "wr_answers (first_out_packet c) = wr_answers c"
    using nxt assms by (simp_all add: first_out_packet_def)
  show "current_out_packet (first_out_packet c) = None \<longrightarrow> out_packet (first_out_packet c) = []"
    and "state (first_out_packet c) = state c"
    by (auto simp: first_out_packet_def next_out_packet_def split: list.splits)
qed

lemma packet_write_conserves:
  assumes "queue_wf c" and "mosquitto_packet_write (g, c) = (r, g', c')"
  shows "sent c' @ pending c' = sent c @ pending c \<and> queue_wf c' \<and> same_but_output c c'
    \<and> same_but_counters g g'"
proof -
  note c1 = first_out_packet_pending [OF assms(1)]
  consider (no_sock) "c' = c" "g' = g" | (wait) "c' = first_out_packet c" "g' = g"
    | (loop) "write_loop (g, first_out_packet c) = (r, g', c')"
    using assms(2) by (simp add: mosquitto_packet_write_def Let_def split: if_splits)
  then show ?thesis
  proof cases
    case no_sock
    then show ?thesis using assms(1) by simp
  next
    case wait
    then show ?thesis using c1 by simp
  next
    case loop
    show ?thesis
      using write_loop_conserves [OF c1(2) loop] c1(1,3,4)
        same_but_output_trans [of c "first_out_packet c"] by simp
  qed
qed

definition queueable :: "packet \<Rightarrow> bool" where
  "queueable p \<longleftrightarrow> length (payload p) = unat (packet_length p) \<and> length (payload p) < 2 ^ 30"

lemma packet_queue_conserves:
  assumes "queue_wf c" and "queueable p" and "mosquitto_packet_queue p (g, c) = (r, g', c')"
  shows "sent c' @ pending c' = sent c @ pending c @ payload p \<and> queue_wf c' \<and> same_but_output c c'
    \<and> same_but_counters g g'"
proof -
  let ?p = "p\<lparr>pos := 0, to_process := packet_length p\<rparr>"
  let ?c = "c\<lparr>out_packet := out_packet c @ [?p]\<rparr>"
  have wf: "queue_wf ?c"
    using assms(1,2) by (auto simp: queue_wf_def out_wf_def queueable_def split: option.splits)
  have "packet_rest ?p = payload p"
    using assms(2) by (simp add: packet_rest_def queueable_def)
  then have bytes: "sent ?c @ pending ?c = sent c @ pending c @ payload p"
    by (simp add: pending_def)
  have same: "same_but_output c ?c" by (simp add: same_but_output_def)
  have run: "mosquitto_packet_write (g, ?c) = (r, g', c')"
    using assms(3) by (simp add: mosquitto_packet_queue_def)
  show ?thesis
    using packet_write_conserves [OF wf run] same_but_output_trans [OF same] unfolding bytes by blast
qed

text \<open>When the socket takes something each time it is asked, everything goes out.\<close>

lemma write_loop_drains:
  assumes "queue_wf c" and "\<forall>a \<in> set (wr_answers c). \<exists>n. a = NetCount n \<and> n > 0"
    and "length (pending c) \<le> length (wr_answers c)" and "write_loop (g, c) = (r, g', c')"
    and "current_out_packet c = None \<longrightarrow> out_packet c = []"
  shows "r = MOSQ_ERR_SUCCESS \<and> current_out_packet c' = None \<and> out_packet c' = []"
  using assms
proof (induction "(g, c)" arbitrary: g c rule: write_loop.induct)
  case (1 g c)
  show ?case
  proof (cases "current_out_packet c")
    case None
    then show ?thesis using "1.prems" by (simp add: write_loop.simps [of g c])
  next
    case (Some p)
    have wf: "out_wf p" using "1.prems"(1) Some by (simp add: queue_wf_def)
    show ?thesis
    proof (cases "to_process p > 0")
      case True
      let ?buf = "take (unat (to_process p)) (drop (unat (pos p)) (payload p))"
      have "0 < unat (to_process p)" using True by (simp add: word_less_nat_alt)
      then have buf: "?buf \<noteq> []" using wf by (auto simp: out_wf_def)
      then have "pending c \<noteq> []" using Some by (simp add: pending_def packet_rest_def)
      then obtain k as where as: "wr_answers c = NetCount k # as" "k > 0"
        using "1.prems"(2,3) by (cases "wr_answers c") auto
      define c1 where "c1 = c\<lparr>wr_answers := as, sent := sent c @ take k ?buf\<rparr>"
      define n where "n = int (min k (length ?buf))"
      have w: "mosquitto_net_write ?buf c = (n, EOK, c1)"
        using as by (simp add: mosquitto_net_write_def c1_def n_def)
      have n: "n > 0" using as(2) buf by (simp add: n_def)
      let ?p = "p\<lparr>to_process := to_process p - word_of_int n, pos := pos p + word_of_int n\<rparr>"
      let ?c = "c1\<lparr>current_out_packet := Some ?p\<rparr>"
      have "nat n \<le> length ?buf" unfolding n_def by (simp only: nat_int min.cobounded2)
      then have le: "nat n \<le> unat (to_process p)" by simp
      note step = packet_rest_step [OF wf n le]
      have wf1: "queue_wf ?c"
        using "1.prems"(1) step(2) by (auto simp: queue_wf_def c1_def)
      have run: "write_loop (g\<lparr>g_bytes_sent := g_bytes_sent g + word_of_int n\<rparr>, ?c) = (r, g', c')"
        using "1.prems"(4) Some True n w by (simp add: write_loop.simps [of g c])
      have "pending ?c = drop (nat n) (packet_rest p) @ concat (map packet_rest (out_packet c))"
        unfolding pending_def using step(1) by (simp add: c1_def)
      moreover have "pending c = packet_rest p @ concat (map packet_rest (out_packet c))"
        using Some by (simp add: pending_def)
      moreover have "0 < nat n" and "nat n \<le> length (packet_rest p)"
        using n \<open>nat n \<le> length ?buf\<close> by (simp_all add: packet_rest_def)
      ultimately have "length (pending ?c) < length (pending c)" by simp
      then have len: "length (pending ?c) \<le> length (wr_answers ?c)"
        using "1.prems"(3) as by (simp add: c1_def)
      have ans: "\<forall>a \<in> set (wr_answers ?c). \<exists>n. a = NetCount n \<and> n > 0"
        using "1.prems"(2) as by (simp add: c1_def)
      show ?thesis
        using "1.hyps"(1) [OF Some True w [symmetric] refl n wf1 ans len run] by simp
    next
      case False
      let ?c = "(next_out_packet c)\<lparr>last_msg_out := now g\<rparr>"
      note nxt = next_out_packet_pending [OF "1.prems"(1)]
      have wf1: "queue_wf ?c" using nxt(2) by (simp add: queue_wf_def)
      have ans: "\<forall>a \<in> set (wr_answers ?c). \<exists>n. a = NetCount n \<and> n > 0"
        using "1.prems"(2) nxt(5) by simp
      have "pending ?c = concat (map packet_rest (out_packet c))" using nxt(1) by (simp add: pending_def)
      then have len: "length (pending ?c) \<le> length (wr_answers ?c)"
        using "1.prems"(3) nxt(5) Some by (simp add: pending_def)
      have cur: "current_out_packet ?c = None \<longrightarrow> out_packet ?c = []"
        by (simp add: next_out_packet_def split: list.splits)
      show ?thesis
        using "1.hyps"(2) [OF Some False wf1 ans len] "1.prems"(4) cur Some False
        by (simp add: write_loop.simps [of g c])
    qed
  qed
qed

subsection \<open>Properties\<close>

text \<open>
  C27. Queueing a packet loses nothing: whatever the socket answers (short writes, would-block,
  resets, TLS retries), the bytes sent so far followed by the bytes still queued are the bytes
  sent and queued before followed by the packet, in order, and no other part of the context
  changes.
\<close>

theorem packet_queue_fifo:
  assumes "queue_wf c" and "length (payload p) = unat (packet_length p)" and "length (payload p) < 2 ^ 30"
    and "mosquitto_packet_queue p (g, c) = (r, g', c')"
  shows "sent c' @ pending c' = sent c @ pending c @ payload p \<and> queue_wf c' \<and>
    same_but_output c c' \<and> same_but_counters g g'"
  using packet_queue_conserves [OF assms(1) _ assms(4)] assms(2,3) by (simp add: queueable_def)

definition sample_packet :: packet where
  "sample_packet = packet_zero\<lparr>payload := [0xC0, 0x00], packet_length := 2\<rparr>"

definition short_write_ctx :: ctx where
  "short_write_ctx = ctx_zero\<lparr>sock := 3, wr_answers := [NetCount 1, NetErr EAGAIN]\<rparr>"

theorem packet_queue_fifo_witness:
  "\<forall>g. case mosquitto_packet_queue sample_packet (g, short_write_ctx) of
     (r, g', c') \<Rightarrow> sent c' @ pending c' = [0xC0, 0x00]"
proof (rule allI)
  fix g
  show "case mosquitto_packet_queue sample_packet (g, short_write_ctx) of
     (r, g', c') \<Rightarrow> sent c' @ pending c' = [0xC0, 0x00]"
    using packet_queue_fifo [of short_write_ctx sample_packet g]
    by (cases "mosquitto_packet_queue sample_packet (g, short_write_ctx)")
      (simp add: queue_wf_def short_write_ctx_def ctx_zero_def sample_packet_def packet_zero_def pending_def)
qed

text \<open>
  When the socket takes at least a byte each time, as many times as there are bytes, the
  whole queue is sent and the call succeeds.
\<close>

theorem packet_write_drains:
  assumes "queue_wf c" and "sock c \<noteq> INVALID_SOCKET" and "state c \<noteq> mosq_cs_connect_pending"
    and "\<forall>a \<in> set (wr_answers c). \<exists>n. a = NetCount n \<and> n > 0"
    and "length (pending c) \<le> length (wr_answers c)"
    and "mosquitto_packet_write (g, c) = (r, g', c')"
  shows "r = MOSQ_ERR_SUCCESS \<and> sent c' = sent c @ pending c \<and> out_packet c' = [] \<and>
    current_out_packet c' = None"
proof -
  note c1 = first_out_packet_pending [OF assms(1)]
  have run: "write_loop (g, first_out_packet c) = (r, g', c')"
    using assms(2,3,6) c1(7) by (simp add: mosquitto_packet_write_def Let_def)
  have "r = MOSQ_ERR_SUCCESS \<and> current_out_packet c' = None \<and> out_packet c' = []"
    by (rule write_loop_drains [OF c1(2) _ _ run c1(6)]) (use assms(4,5) c1 in simp_all)
  then show ?thesis
    using packet_write_conserves [OF assms(1,6)] by (simp add: pending_def)
qed

definition two_writes_ctx :: ctx where
  "two_writes_ctx = ctx_zero\<lparr>sock := 3, wr_answers := [NetCount 1, NetCount 7],
     out_packet := [sample_packet\<lparr>to_process := 2\<rparr>]\<rparr>"

theorem packet_write_drains_witness:
  "\<forall>g. case mosquitto_packet_write (g, two_writes_ctx) of
     (r, g', c') \<Rightarrow> r = MOSQ_ERR_SUCCESS \<and> sent c' = [0xC0, 0x00]"
proof (rule allI)
  fix g
  show "case mosquitto_packet_write (g, two_writes_ctx) of
     (r, g', c') \<Rightarrow> r = MOSQ_ERR_SUCCESS \<and> sent c' = [0xC0, 0x00]"
    using packet_write_drains [of two_writes_ctx g]
    by (cases "mosquitto_packet_write (g, two_writes_ctx)")
      (simp add: queue_wf_def out_wf_def two_writes_ctx_def ctx_zero_def sample_packet_def packet_zero_def
        pending_def packet_rest_def)
qed

end
