(* ===== verification/Reader.thy ===== *)
theory Reader
  imports Packet
begin

text \<open>
  The incoming side of a connection, \<^verbatim>\<open>_mosquitto_net_read\<close> and \<^verbatim>\<open>_mosquitto_packet_read\<close> of
  \<^verbatim>\<open>lib/net_mosq.c\<close> as compiled for the broker, up to the call of the packet's handler: an
  incremental reader whose progress is kept in \<open>in_packet\<close> when the socket would block.
\<close>

subsection \<open>Reading from the socket\<close>

text \<open>
  The result of \<^verbatim>\<open>read\<close> / \<^verbatim>\<open>SSL_read\<close>: the bytes, the return value and \<^verbatim>\<open>errno\<close>. Data that was not
  asked for stays in the socket.
\<close>

definition mosquitto_net_read :: "nat \<Rightarrow> ctx \<Rightarrow> byte list \<times> int \<times> errno \<times> ctx" where
  "mosquitto_net_read count c =
     (case rd_answers c of
        [] \<Rightarrow> ([], - 1, EAGAIN, c)
      | a # as \<Rightarrow>
          (case a of
             NetData bs \<Rightarrow>
               (take count bs, int (min count (length bs)), EOK,
                c\<lparr>rd_answers := (if length bs \<le> count then as else NetData (drop count bs) # as)\<rparr>)
           | NetErr e \<Rightarrow> ([], - 1, e, c\<lparr>rd_answers := as\<rparr>)
           | SslWantRead \<Rightarrow> ([], - 1, EAGAIN, c\<lparr>rd_answers := as\<rparr>)
           | SslWantWrite \<Rightarrow> ([], - 1, EAGAIN, c\<lparr>rd_answers := as, want_write := True\<rparr>)
           | SslError r \<Rightarrow> ([], min r 0, EPROTO, c\<lparr>rd_answers := as\<rparr>)
           | NetCount _ \<Rightarrow> ([], 0, EOK, c\<lparr>rd_answers := as\<rparr>)
           | NetEof \<Rightarrow> ([], 0, EOK, c\<lparr>rd_answers := as\<rparr>)))"

subsection \<open>The incremental reader\<close>

text \<open>How a read that brought nothing ends \<^verbatim>\<open>_mosquitto_packet_read\<close>.\<close>

definition read_failure :: "int \<Rightarrow> errno \<Rightarrow> rc" where
  "read_failure n e =
     (if n = 0 then MOSQ_ERR_CONN_LOST
      else if e = EAGAIN then MOSQ_ERR_SUCCESS
      else if e = ECONNRESET then MOSQ_ERR_CONN_LOST
      else MOSQ_ERR_ERRNO)"

text \<open>
  Each phase returns \<^const>\<open>None\<close> to go on to the next one, or the code the function returns.
  First the command byte.
\<close>

definition read_command :: "globals \<times> ctx \<Rightarrow> rc option \<times> globals \<times> ctx" where
  "read_command s =
     (case s of (g, c) \<Rightarrow>
        if command (in_packet c) = 0 then
          (case mosquitto_net_read 1 c of
             (bs, n, e, c1) \<Rightarrow>
               if n = 1 then
                 (let b = hd bs;
                      c2 = c1\<lparr>in_packet := (in_packet c1)\<lparr>command := b\<rparr>\<rparr>;
                      g2 = g\<lparr>g_bytes_received := g_bytes_received g + 1\<rparr>
                  in if bridge c2 = None \<and> state c2 = mosq_cs_new \<and> b AND 0xF0 \<noteq> CONNECT
                     then (Some MOSQ_ERR_PROTOCOL, g2, c2)
                     else (None, g2, c2))
               else (Some (read_failure n e), g, c1))
        else (None, g, c))"

text \<open>
  Then the remaining length, a byte at a time. \<open>remaining_count\<close> counts down from 0.
\<close>

definition read_length_step :: "byte \<Rightarrow> packet \<Rightarrow> packet" where
  "read_length_step b p =
     p\<lparr>remaining_length := remaining_length p + (ucast b AND 127) * remaining_mult p,
       remaining_mult := remaining_mult p * 128\<rparr>"

fun answers_size :: "net_answer list \<Rightarrow> nat" where
  "answers_size [] = 0"
| "answers_size (NetData bs # as) = length bs + 1 + answers_size as"
| "answers_size (_ # as) = 1 + answers_size as"

lemma net_read_progress:
  "mosquitto_net_read count c = (bs, n, e, c') \<Longrightarrow> n > 0 \<Longrightarrow>
     answers_size (rd_answers c') < answers_size (rd_answers c)"
  by (auto simp: mosquitto_net_read_def split: list.splits net_answer.splits if_splits)

function read_length_loop :: "globals \<times> ctx \<Rightarrow> rc option \<times> globals \<times> ctx" where
  "read_length_loop (g, c) =
     (case mosquitto_net_read 1 c of
        (bs, n, e, c1) \<Rightarrow>
          if n = 1 then
            (let b = hd bs;
                 p1 = (in_packet c1)\<lparr>remaining_count := remaining_count (in_packet c1) - 1\<rparr>
             in if remaining_count p1 < - 4 then
                  (Some MOSQ_ERR_PROTOCOL, g, c1\<lparr>in_packet := p1\<rparr>)
                else
                  let g2 = g\<lparr>g_bytes_received := g_bytes_received g + 1\<rparr>;
                      c2 = c1\<lparr>in_packet := read_length_step b p1\<rparr>
                  in if b AND 128 \<noteq> 0 then read_length_loop (g2, c2) else (None, g2, c2))
          else (Some (read_failure n e), g, c1))"
  by pat_completeness auto
termination
proof (relation "measure (\<lambda>(g, c). answers_size (rd_answers c))", goal_cases)
  case (2 g c bs r n r' e c1 b p1 g2 c2)
  then show ?case using net_read_progress [of 1 c bs n e c1] by simp
qed simp

declare read_length_loop.simps [simp del]

definition read_remaining_length :: "globals \<times> ctx \<Rightarrow> rc option \<times> globals \<times> ctx" where
  "read_remaining_length s =
     (case s of (g, c) \<Rightarrow>
        if remaining_count (in_packet c) \<le> 0 then
          (case read_length_loop (g, c) of
             (Some r, g1, c1) \<Rightarrow> (Some r, g1, c1)
           | (None, g1, c1) \<Rightarrow>
               (let p = (in_packet c1)\<lparr>remaining_count := - remaining_count (in_packet c1)\<rparr>
                in (None, g1,
                    c1\<lparr>in_packet :=
                         (if remaining_length p > 0
                          then p\<lparr>payload := replicate (unat (remaining_length p)) 0,
                                 to_process := remaining_length p\<rparr>
                          else p)\<rparr>)))
        else (None, g, c))"

text \<open>Then the body, in whatever pieces the socket delivers it.\<close>

definition store_bytes :: "byte list \<Rightarrow> packet \<Rightarrow> packet" where
  "store_bytes bs p =
     p\<lparr>payload := take (unat (pos p)) (payload p) @ bs @ drop (unat (pos p) + length bs) (payload p),
       to_process := to_process p - word_of_nat (length bs),
       pos := pos p + word_of_nat (length bs)\<rparr>"

function read_body_loop :: "globals \<times> ctx \<Rightarrow> rc option \<times> globals \<times> ctx" where
  "read_body_loop (g, c) =
     (if to_process (in_packet c) > 0 then
        (case mosquitto_net_read (unat (to_process (in_packet c))) c of
           (bs, n, e, c1) \<Rightarrow>
             if n > 0 then
               read_body_loop
                 (g\<lparr>g_bytes_received := g_bytes_received g + word_of_int n\<rparr>,
                  c1\<lparr>in_packet := store_bytes bs (in_packet c1)\<rparr>)
             else if e = EAGAIN then
               (Some MOSQ_ERR_SUCCESS, g,
                if to_process (in_packet c1) > 1000 then c1\<lparr>last_msg_in := now g\<rparr> else c1)
             else if e = ECONNRESET then (Some MOSQ_ERR_CONN_LOST, g, c1)
             else (Some MOSQ_ERR_ERRNO, g, c1))
      else (None, g, c))"
  by pat_completeness auto
termination
proof (relation "measure (\<lambda>(g, c). answers_size (rd_answers c))", goal_cases)
  case (2 g c bs r n r' e c1)
  then show ?case using net_read_progress [of "unat (to_process (in_packet c))" c bs n e c1] by simp
qed simp

declare read_body_loop.simps [simp del]

text \<open>
  The whole reader up to the point where the packet is handed to its handler, which
  \<^const>\<open>None\<close> stands for.
\<close>

definition packet_read_phases :: "globals \<times> ctx \<Rightarrow> rc option \<times> globals \<times> ctx" where
  "packet_read_phases s =
     (case s of (g, c) \<Rightarrow>
        if sock c = INVALID_SOCKET then (Some MOSQ_ERR_NO_CONN, g, c)
        else if state c = mosq_cs_connect_pending then (Some MOSQ_ERR_SUCCESS, g, c)
        else
          case read_command (g, c) of
            (Some r, s1) \<Rightarrow> (Some r, s1)
          | (None, s1) \<Rightarrow>
              case read_remaining_length s1 of
                (Some r, s2) \<Rightarrow> (Some r, s2)
              | (None, s2) \<Rightarrow>
                  case read_body_loop s2 of
                    (Some r, s3) \<Rightarrow> (Some r, s3)
                  | (None, g3, c3) \<Rightarrow>
                      (None,
                       g3\<lparr>g_msgs_received := g_msgs_received g3 + 1,
                          g_pub_msgs_received :=
                            (if command (in_packet c3) AND 0xF5 = PUBLISH
                             then g_pub_msgs_received g3 + 1 else g_pub_msgs_received g3)\<rparr>,
                       c3\<lparr>in_packet := (in_packet c3)\<lparr>pos := 0\<rparr>\<rparr>))"


text \<open>
  The event loop calls the reader again while the socket has something to deliver.
\<close>

fun poll_reads :: "nat \<Rightarrow> globals \<times> ctx \<Rightarrow> rc option \<times> globals \<times> ctx" where
  "poll_reads 0 s = (Some MOSQ_ERR_SUCCESS, s)"
| "poll_reads (Suc n) s =
     (case packet_read_phases s of
        (Some r, g1, c1) \<Rightarrow>
          if r = MOSQ_ERR_SUCCESS \<and> rd_answers c1 \<noteq> [] then poll_reads n (g1, c1)
          else (Some r, g1, c1)
      | (None, s1) \<Rightarrow> (None, s1))"

subsection \<open>Reading on where the last call stopped\<close>

text \<open>A socket that delivers data piece by piece, with would-block answers in between.\<close>

fun piece :: "net_answer \<Rightarrow> bool" where
  "piece (NetData bs) = (bs \<noteq> [])"
| "piece (NetErr e) = (e = EAGAIN)"
| "piece a = (a = SslWantRead)"

fun answers_data :: "net_answer list \<Rightarrow> byte list" where
  "answers_data [] = []"
| "answers_data (NetData bs # as) = bs @ answers_data as"
| "answers_data (_ # as) = answers_data as"

definition pieces :: "net_answer list \<Rightarrow> bool" where
  "pieces as \<longleftrightarrow> list_all piece as"

text \<open>One read from such a socket: it delivers something, or it would block.\<close>

definition delivers :: "nat \<Rightarrow> net_answer list \<Rightarrow> byte list \<Rightarrow> net_answer list \<Rightarrow> bool" where
  "delivers count as bs as' \<longleftrightarrow> pieces as' \<and> 0 < length bs \<and> length bs \<le> count \<and>
     answers_data as = bs @ answers_data as' \<and> answers_size as' < answers_size as"

definition blocks :: "net_answer list \<Rightarrow> net_answer list \<Rightarrow> bool" where
  "blocks as as' \<longleftrightarrow> pieces as' \<and> answers_data as' = answers_data as \<and>
     (as' = [] \<or> answers_size as' < answers_size as)"

lemma net_read_pieces:
  assumes "pieces (rd_answers c)" and "0 < count"
  obtains (got) bs as where "mosquitto_net_read count c = (bs, int (length bs), EOK, c\<lparr>rd_answers := as\<rparr>)"
      "delivers count (rd_answers c) bs as"
    | (blocked) as where "mosquitto_net_read count c = ([], - 1, EAGAIN, c\<lparr>rd_answers := as\<rparr>)"
      "blocks (rd_answers c) as"
proof (cases "rd_answers c")
  case Nil
  then have "mosquitto_net_read count c = ([], - 1, EAGAIN, c\<lparr>rd_answers := []\<rparr>)"
    by (simp add: mosquitto_net_read_def)
  then show thesis by (rule blocked) (simp add: Nil blocks_def pieces_def)
next
  case (Cons a as)
  then have "piece a" "pieces as" using assms(1) by (simp_all add: pieces_def)
  consider (data) bs where "a = NetData bs" "bs \<noteq> []" | (none) "a = NetErr EAGAIN \<or> a = SslWantRead"
    using \<open>piece a\<close> by (cases a) auto
  then show thesis
  proof cases
    case data
    have "mosquitto_net_read count c = (take count bs, int (length (take count bs)), EOK,
        c\<lparr>rd_answers := (if length bs \<le> count then as else NetData (drop count bs) # as)\<rparr>)"
      using Cons data by (simp add: mosquitto_net_read_def min.commute)
    then show thesis
      by (rule got) (use Cons data assms(2) \<open>pieces as\<close> in \<open>auto simp: delivers_def pieces_def\<close>)
  next
    case none
    then have "mosquitto_net_read count c = ([], - 1, EAGAIN, c\<lparr>rd_answers := as\<rparr>)"
      using Cons by (auto simp: mosquitto_net_read_def)
    then show thesis
      by (rule blocked) (use Cons none \<open>pieces as\<close> in \<open>auto simp: blocks_def\<close>)
  qed
qed

text \<open>The packet when some bytes of its length have been read.\<close>

definition frame_start :: "byte \<Rightarrow> packet \<Rightarrow> packet" where
  "frame_start b q = (mosquitto_packet_cleanup q)\<lparr>command := b\<rparr>"

definition length_read :: "packet \<Rightarrow> byte list \<Rightarrow> packet" where
  "length_read q ds = (fold read_length_step ds q)\<lparr>remaining_count := - int (length ds)\<rparr>"

lemma length_read_snoc:
  "read_length_step b ((length_read q ds)\<lparr>remaining_count := - int (length ds) - 1\<rparr>) = length_read q (ds @ [b])"
  by (simp add: length_read_def read_length_step_def)

lemma fold_length_step_fields [simp]:
  "command (fold read_length_step ds q) = command q" "pos (fold read_length_step ds q) = pos q"
  "to_process (fold read_length_step ds q) = to_process q"
  "payload (fold read_length_step ds q) = payload q"
  by (induction ds arbitrary: q) (simp_all add: read_length_step_def)

lemma length_read_fields [simp]:
  "command (length_read q ds) = command q" "pos (length_read q ds) = pos q"
  "to_process (length_read q ds) = to_process q" "payload (length_read q ds) = payload q"
  "remaining_count (length_read q ds) = - int (length ds)"
  by (simp_all add: length_read_def)

text \<open>Decoding undoes the encoding.\<close>

lemma length_decoded:
  "remaining_length (fold read_length_step (length_digits n) q)
     = remaining_length q + word_of_nat n * remaining_mult q"
proof (induction n arbitrary: q rule: length_digits.induct)
  case (1 n)
  show ?case
  proof (cases "n < 128")
    case True
    then show ?thesis by (simp add: length_digits_small read_length_step_def byte_low_bits)
  next
    case False
    have "(word_of_nat n :: u32) = word_of_nat (n mod 128 + 128 * (n div 128))"
      by (simp only: mod_mult_div_eq)
    then have "(word_of_nat n :: u32) = word_of_nat (n mod 128) + 128 * word_of_nat (n div 128)"
      by (simp only: of_nat_add of_nat_mult of_nat_numeral)
    then show ?thesis
      using False "1.IH" [OF False]
      by (simp add: length_digits_large read_length_step_def byte_low_bits algebra_simps del: of_nat_add)
  qed
qed

lemma length_digit_ends:
  "length_digits n = ds1 @ b # ds2 \<Longrightarrow> b AND 128 \<noteq> 0 \<longleftrightarrow> ds2 \<noteq> []"
proof (induction n arbitrary: ds1 rule: length_digits.induct)
  case (1 n)
  show ?case
  proof (cases "n < 128")
    case True
    then have "ds1 = []" "b = word_of_nat n" "ds2 = []"
      using "1.prems" by (simp_all add: length_digits_small Cons_eq_append_conv)
    then show ?thesis using True byte_top_bit(3) [of n] by simp
  next
    case False
    note digits = "1.prems" [unfolded length_digits_large [OF False]]
    show ?thesis
    proof (cases ds1)
      case Nil
      then have "b = word_of_nat (128 + n mod 128)" "ds2 = length_digits (n div 128)"
        using digits by simp_all
      then show ?thesis using byte_top_bit(2) [of "n mod 128"] by simp
    next
      case (Cons d ds)
      then have "length_digits (n div 128) = ds @ b # ds2" using digits by simp
      then show ?thesis by (rule "1.IH" [OF False])
    qed
  qed
qed

text \<open>
  Where a call of the reader can stop: before the command byte, between two bytes of the
  length, or inside the body. The relation names the bytes of the frame still to come.
\<close>

inductive reading :: "byte \<Rightarrow> byte list \<Rightarrow> byte list \<Rightarrow> packet \<Rightarrow> bool" for cmd body where
  reading_start: "reading cmd body (cmd # length_digits (length body) @ body) (mosquitto_packet_cleanup q)"
| reading_length: "length_digits (length body) = ds1 @ ds2 \<Longrightarrow> ds2 \<noteq> [] \<Longrightarrow>
    reading cmd body (ds2 @ body) (length_read (frame_start cmd q) ds1)"
| reading_body: "command p = cmd \<Longrightarrow> 0 < remaining_count p \<Longrightarrow> body = done @ later \<Longrightarrow>
    unat (remaining_length p) = length body \<Longrightarrow> unat (to_process p) = length later \<Longrightarrow>
    unat (pos p) = length done \<Longrightarrow> length (payload p) = length body \<Longrightarrow>
    take (length done) (payload p) = done \<Longrightarrow> reading cmd body later p"

definition same_but_input :: "ctx \<Rightarrow> ctx \<Rightarrow> bool" where
  "same_but_input c c' \<longleftrightarrow> c' = c\<lparr>in_packet := in_packet c', rd_answers := rd_answers c',
     last_msg_in := last_msg_in c'\<rparr>"

lemma same_but_input_refl [simp]: "same_but_input c c"
  by (simp add: same_but_input_def)

lemma same_but_input_trans: "same_but_input a b \<Longrightarrow> same_but_input b c \<Longrightarrow> same_but_input a c"
  by (cases a; cases b; cases c) (simp add: same_but_input_def)

lemma same_but_input_fields:
  "same_but_input c c' \<Longrightarrow> sock c' = sock c \<and> state c' = state c \<and> bridge c' = bridge c"
  by (cases c; cases c') (simp add: same_but_input_def)

text \<open>A stopped or finished call: what it consumed is what the packet gained.\<close>

definition stopped :: "byte \<Rightarrow> byte list \<Rightarrow> byte list \<Rightarrow> ctx \<Rightarrow> ctx \<Rightarrow> bool" where
  "stopped cmd body later c c' \<longleftrightarrow>
     (\<exists>more. more \<noteq> [] \<and> reading cmd body more (in_packet c') \<and> answers_data (rd_answers c') = more @ later)
     \<and> pieces (rd_answers c') \<and> same_but_input c c'
     \<and> (rd_answers c' = [] \<or> answers_size (rd_answers c') < answers_size (rd_answers c))"

text \<open>A phase that went through has consumed its part and left the packet ready for the next.\<close>

definition consumed :: "packet \<Rightarrow> byte list \<Rightarrow> ctx \<Rightarrow> ctx \<Rightarrow> bool" where
  "consumed p later c c' \<longleftrightarrow> in_packet c' = p \<and> answers_data (rd_answers c') = later
     \<and> pieces (rd_answers c') \<and> same_but_input c c'
     \<and> answers_size (rd_answers c') \<le> answers_size (rd_answers c)"

lemma stopped_trans:
  assumes "same_but_input c c1" and "answers_size (rd_answers c1) \<le> answers_size (rd_answers c)"
    and "stopped cmd body later c1 c'"
  shows "stopped cmd body later c c'"
proof -
  have "same_but_input c c'"
    by (rule same_but_input_trans [OF assms(1)]) (use assms(3) in \<open>simp add: stopped_def\<close>)
  then show ?thesis using assms(2,3) by (auto simp: stopped_def)
qed

lemma consumed_trans:
  assumes "same_but_input c c1" and "answers_size (rd_answers c1) \<le> answers_size (rd_answers c)"
    and "consumed p later c1 c'"
  shows "consumed p later c c'"
proof -
  have "same_but_input c c'"
    by (rule same_but_input_trans [OF assms(1)]) (use assms(3) in \<open>simp add: consumed_def\<close>)
  then show ?thesis using assms(2,3) by (auto simp: consumed_def)
qed

lemma length_loop_reads:
  assumes "pieces (rd_answers c)" and "in_packet c = length_read (frame_start cmd q) ds1"
    and "length_digits (length body) = ds1 @ ds2" and "ds2 \<noteq> []" and "length body < 2 ^ 28"
    and "answers_data (rd_answers c) = ds2 @ body @ later"
    and "read_length_loop (g, c) = (r, g', c')"
  shows "r = Some MOSQ_ERR_SUCCESS \<and> stopped cmd body later c c' \<or>
    r = None \<and> consumed (length_read (frame_start cmd q) (length_digits (length body))) (body @ later) c c'"
  using assms
proof (induction "length ds2" arbitrary: g c ds1 ds2)
  case 0
  then show ?case by simp
next
  case (Suc k)
  show ?case
    using Suc.prems(1) zero_less_one
  proof (cases rule: net_read_pieces)
    case (blocked as)
    then have run: "r = Some MOSQ_ERR_SUCCESS" "c' = c\<lparr>rd_answers := as\<rparr>"
      using Suc.prems(7) by (simp_all add: read_length_loop.simps [of g c] read_failure_def)
    have "reading cmd body (ds2 @ body) (in_packet c)"
      using reading_length [OF Suc.prems(3,4)] Suc.prems(2) by simp
    then show ?thesis
      using run blocked(2) Suc.prems(4,6) by (auto simp: stopped_def same_but_input_def blocks_def)
  next
    case (got bs as)
    then obtain b where bs: "bs = [b]" by (cases bs) (auto simp: delivers_def)
    obtain ds where ds2: "ds2 = b # ds" "answers_data as = ds @ body @ later"
      using Suc.prems(4,6) got(2) bs by (cases ds2) (auto simp: delivers_def)
    have four: "length ds1 + 1 + length ds \<le> 4"
      using length_digits_bounds [OF Suc.prems(5)] Suc.prems(3) ds2 by simp
    have more: "b AND 128 \<noteq> 0 \<longleftrightarrow> ds \<noteq> []"
      using length_digit_ends [of "length body" ds1 b ds] Suc.prems(3) ds2 by simp
    define c2 where "c2 = c\<lparr>rd_answers := as, in_packet := length_read (frame_start cmd q) (ds1 @ [b])\<rparr>"
    define g2 where "g2 = g\<lparr>g_bytes_received := g_bytes_received g + 1\<rparr>"
    have run: "read_length_loop (g, c)
        = (if b AND 128 \<noteq> 0 then read_length_loop (g2, c2) else (None, g2, c2))"
      using got(1) bs Suc.prems(2) four length_read_snoc [of b ds1 "frame_start cmd q"]
      by (simp add: read_length_loop.simps [of g c] c2_def g2_def Let_def)
    have c2: "same_but_input c c2" "pieces (rd_answers c2)"
      "answers_size (rd_answers c2) < answers_size (rd_answers c)"
      "answers_data (rd_answers c2) = ds @ body @ later"
      "in_packet c2 = length_read (frame_start cmd q) (ds1 @ [b])"
      using got(2) ds2 by (simp_all add: c2_def same_but_input_def delivers_def)
    show ?thesis
    proof (cases "ds = []")
      case True
      then have "r = None" "c' = c2" using run more Suc.prems(7) by simp_all
      then show ?thesis using c2 True Suc.prems(3) ds2 by (simp add: consumed_def)
    next
      case False
      then have rec: "read_length_loop (g2, c2) = (r, g', c')" using run more Suc.prems(7) by simp
      have "length_digits (length body) = (ds1 @ [b]) @ ds" using Suc.prems(3) ds2 by simp
      then show ?thesis
        using Suc.hyps(1) [OF _ c2(2,5) _ False Suc.prems(5) c2(4) rec] Suc.hyps(2) ds2
          stopped_trans [OF c2(1)] consumed_trans [OF c2(1)] c2(3) by fastforce
    qed
  qed
qed

lemma store_bytes_spec:
  assumes "unat (pos p) = length done" and "unat (to_process p) = length bs + length later"
    and "length (payload p) = length done + length bs + length later"
    and "take (length done) (payload p) = done"
    and "length done + length bs + length later < 2 ^ 30"
  shows "unat (pos (store_bytes bs p)) = length (done @ bs)"
    and "unat (to_process (store_bytes bs p)) = length later"
    and "length (payload (store_bytes bs p)) = length (payload p)"
    and "take (length (done @ bs)) (payload (store_bytes bs p)) = done @ bs"
    and "command (store_bytes bs p) = command p" "remaining_count (store_bytes bs p) = remaining_count p"
    and "remaining_length (store_bytes bs p) = remaining_length p"
proof -
  have b: "unat (word_of_nat (length bs) :: u32) = length bs"
    using assms(5) by (simp add: unat_of_nat take_bit_nat_eq_self)
  show "unat (pos (store_bytes bs p)) = length (done @ bs)"
    using word_sum_unat [of "pos p" "word_of_nat (length bs)"] b assms by (simp add: store_bytes_def)
  show "unat (to_process (store_bytes bs p)) = length later"
    using b assms(2) by (simp add: store_bytes_def unat_sub word_le_nat_alt)
  show "length (payload (store_bytes bs p)) = length (payload p)"
    using assms by (simp add: store_bytes_def)
  show "take (length (done @ bs)) (payload (store_bytes bs p)) = done @ bs"
    using assms by (simp add: store_bytes_def)
qed (simp_all add: store_bytes_def)

text \<open>The frame is in: what the handler is given, before \<open>pos\<close> goes back to 0.\<close>

definition frame_read :: "byte \<Rightarrow> byte list \<Rightarrow> packet \<Rightarrow> bool" where
  "frame_read cmd body p \<longleftrightarrow> command p = cmd \<and> payload p = body \<and> to_process p = 0
     \<and> unat (remaining_length p) = length body"

lemma body_loop_reads:
  assumes "pieces (rd_answers c)" and "command (in_packet c) = cmd" and "0 < remaining_count (in_packet c)"
    and "body = done @ todo" and "unat (remaining_length (in_packet c)) = length body"
    and "unat (to_process (in_packet c)) = length todo" and "unat (pos (in_packet c)) = length done"
    and "length (payload (in_packet c)) = length body"
    and "take (length done) (payload (in_packet c)) = done" and "length body < 2 ^ 28"
    and "answers_data (rd_answers c) = todo @ later" and "read_body_loop (g, c) = (r, g', c')"
  shows "r = Some MOSQ_ERR_SUCCESS \<and> stopped cmd body later c c' \<or>
    r = None \<and> frame_read cmd body (in_packet c') \<and> consumed (in_packet c') later c c'"
  using assms
proof (induction "length todo" arbitrary: g c "done" todo rule: less_induct)
  case less
  show ?case
  proof (cases "todo = []")
    case True
    then have "to_process (in_packet c) = 0" using less.prems(6) by (simp add: unat_eq_0)
    then show ?thesis
      using less.prems True by (simp add: read_body_loop.simps [of g c] frame_read_def consumed_def)
  next
    case False
    then have pos: "0 < unat (to_process (in_packet c))" using less.prems(6) by simp
    then have tp: "to_process (in_packet c) > 0" by (simp add: word_less_nat_alt)
    from less.prems(1) pos show ?thesis
    proof (cases rule: net_read_pieces)
      case (blocked as)
      have run: "r = Some MOSQ_ERR_SUCCESS" "in_packet c' = in_packet c" "rd_answers c' = as"
        "same_but_input c c'"
        using less.prems(12) tp blocked(1)
        by (auto simp: read_body_loop.simps [of g c] same_but_input_def split: if_splits)
      have "reading cmd body todo (in_packet c)"
        by (rule reading_body) (use less.prems in simp_all)
      then show ?thesis
        using run blocked(2) less.prems(11) False by (auto simp: stopped_def blocks_def)
    next
      case (got bs as)
      then have "bs @ answers_data as = todo @ later" "length bs \<le> length todo"
        using less.prems(6,11) by (simp_all add: delivers_def)
      then obtain todo' where todo: "todo = bs @ todo'" "answers_data as = todo' @ later"
        by (auto simp: append_eq_append_conv2)
      let ?c = "c\<lparr>rd_answers := as, in_packet := store_bytes bs (in_packet c)\<rparr>"
      let ?g = "g\<lparr>g_bytes_received := g_bytes_received g + word_of_int (int (length bs))\<rparr>"
      have rec: "read_body_loop (?g, ?c) = (r, g', c')"
        using less.prems(12) tp got by (simp add: read_body_loop.simps [of g c] delivers_def)
      have st: "unat (pos (in_packet c)) = length done"
        "unat (to_process (in_packet c)) = length bs + length todo'"
        "length (payload (in_packet c)) = length done + length bs + length todo'"
        "take (length done) (payload (in_packet c)) = done"
        "length done + length bs + length todo' < 2 ^ 30"
        using less.prems todo by simp_all
      note st = store_bytes_spec [OF st]
      have "r = Some MOSQ_ERR_SUCCESS \<and> stopped cmd body later ?c c' \<or>
          r = None \<and> frame_read cmd body (in_packet c') \<and> consumed (in_packet c') later ?c c'"
        by (rule less.hyps [of todo' ?c "done @ bs" ?g])
          (use less.prems st got(2) todo rec in \<open>simp_all add: delivers_def\<close>)
      moreover have "same_but_input c ?c" "answers_size (rd_answers ?c) \<le> answers_size (rd_answers c)"
        using got(2) by (simp_all add: same_but_input_def delivers_def)
      ultimately show ?thesis using stopped_trans consumed_trans by blast
    qed
  qed
qed

lemma length_phase_reads:
  assumes "pieces (rd_answers c)" and "in_packet c = length_read (frame_start cmd q) ds1"
    and "length_digits (length body) = ds1 @ ds2" and "ds2 \<noteq> []" and "length body < 2 ^ 28"
    and "answers_data (rd_answers c) = ds2 @ body @ later"
    and "read_remaining_length (g, c) = (r, g', c')"
  shows "r = Some MOSQ_ERR_SUCCESS \<and> stopped cmd body later c c' \<or>
    r = None \<and> consumed (in_packet c') (body @ later) c c' \<and> command (in_packet c') = cmd
      \<and> 0 < remaining_count (in_packet c') \<and> unat (remaining_length (in_packet c')) = length body
      \<and> unat (to_process (in_packet c')) = length body \<and> pos (in_packet c') = 0
      \<and> length (payload (in_packet c')) = length body"
proof -
  have le: "remaining_count (in_packet c) \<le> 0" using assms(2) by simp
  obtain r1 g1 c1 where loop: "read_length_loop (g, c) = (r1, g1, c1)" by (cases "read_length_loop (g, c)") auto
  from length_loop_reads [OF assms(1-6) loop] show ?thesis
  proof (elim disjE conjE)
    assume "r1 = Some MOSQ_ERR_SUCCESS" "stopped cmd body later c c1"
    then show ?thesis using assms(7) le loop by (simp add: read_remaining_length_def)
  next
    let ?p = "length_read (frame_start cmd q) (length_digits (length body))"
    assume r1: "r1 = None" and con: "consumed ?p (body @ later) c c1"
    then have ip: "in_packet c1 = ?p" and same: "same_but_input c c1" by (simp_all add: consumed_def)
    let ?q = "?p\<lparr>remaining_count := - remaining_count ?p\<rparr>"
    have c': "r = None" "c' = c1\<lparr>in_packet := (if remaining_length ?q > 0
        then ?q\<lparr>payload := replicate (unat (remaining_length ?q)) 0, to_process := remaining_length ?q\<rparr> else ?q)\<rparr>"
      using assms(7) le loop r1 ip by (auto simp: read_remaining_length_def Let_def)
    have rl: "unat (remaining_length ?p) = length body"
      using assms(5) length_decoded [of "length body" "frame_start cmd q"]
      by (simp add: length_read_def frame_start_def mosquitto_packet_cleanup_def unat_of_nat take_bit_nat_eq_self)
    have same1: "same_but_input c1 c'" unfolding c'(2) by (simp add: same_but_input_def)
    have same2: "same_but_input c c'" using same_but_input_trans [OF same same1] .
    have "rd_answers c' = rd_answers c1" unfolding c'(2) by simp
    then have con2: "consumed (in_packet c') (body @ later) c c'"
      using con same2 by (simp add: consumed_def)
    have z: "remaining_length ?p > 0 \<longleftrightarrow> body \<noteq> []" using rl by (simp add: word_less_nat_alt)
    have f: "command (frame_start cmd q) = cmd" "pos (frame_start cmd q) = 0"
      "to_process (frame_start cmd q) = 0" "payload (frame_start cmd q) = []"
      by (simp_all add: frame_start_def mosquitto_packet_cleanup_def)
    show ?thesis
      using con2 rl z c' f by (cases "body = []") simp_all
  qed
qed

definition admissible :: "byte \<Rightarrow> ctx \<Rightarrow> bool" where
  "admissible cmd c \<longleftrightarrow> cmd \<noteq> 0 \<and> sock c \<noteq> INVALID_SOCKET \<and> state c \<noteq> mosq_cs_connect_pending
     \<and> \<not> (bridge c = None \<and> state c = mosq_cs_new \<and> cmd AND 0xF0 \<noteq> CONNECT)"

text \<open>The three phases from wherever the last call stopped.\<close>

definition read_three :: "globals \<times> ctx \<Rightarrow> rc option \<times> globals \<times> ctx" where
  "read_three s =
     (case read_command s of
        (Some r, s1) \<Rightarrow> (Some r, s1)
      | (None, s1) \<Rightarrow>
          case read_remaining_length s1 of
            (Some r, s2) \<Rightarrow> (Some r, s2)
          | (None, s2) \<Rightarrow> read_body_loop s2)"

lemma body_phase_reads:
  assumes "pieces (rd_answers c)" and "length body < 2 ^ 28" and "reading cmd body todo p"
    and "in_packet c = p" and "0 < remaining_count p" and "answers_data (rd_answers c) = todo @ later"
    and "read_body_loop (g, c) = (r, g', c')"
  shows "r = Some MOSQ_ERR_SUCCESS \<and> stopped cmd body later c c' \<or>
    r = None \<and> frame_read cmd body (in_packet c') \<and> consumed (in_packet c') later c c'"
  using assms(3)
proof cases
  case (reading_start q)
  then show ?thesis using assms(5) by (simp add: mosquitto_packet_cleanup_def)
next
  case (reading_length ds1 ds2 q)
  then show ?thesis using assms(5) by simp
next
  case (reading_body pre)
  show ?thesis
    by (rule body_loop_reads [OF assms(1) _ _ reading_body(3) _ _ _ _ _ assms(2) assms(6) assms(7)])
      (use reading_body assms(4) in simp_all)
qed

lemma length_body_reads:
  assumes "pieces (rd_answers c)" and "in_packet c = length_read (frame_start cmd q) ds1"
    and "length_digits (length body) = ds1 @ ds2" and "ds2 \<noteq> []" and "length body < 2 ^ 28"
    and "answers_data (rd_answers c) = ds2 @ body @ later" and "cmd \<noteq> 0"
    and "read_three (g, c) = (r, g', c')"
  shows "r = Some MOSQ_ERR_SUCCESS \<and> stopped cmd body later c c' \<or>
    r = None \<and> frame_read cmd body (in_packet c') \<and> consumed (in_packet c') later c c'"
proof -
  have cmd: "read_command (g, c) = (None, g, c)"
    using assms(2,7) by (simp add: read_command_def frame_start_def)
  obtain r1 g1 c1 where len: "read_remaining_length (g, c) = (r1, g1, c1)"
    by (cases "read_remaining_length (g, c)") auto
  from length_phase_reads [OF assms(1-6) len] show ?thesis
  proof (elim disjE conjE)
    assume "r1 = Some MOSQ_ERR_SUCCESS" "stopped cmd body later c c1"
    then show ?thesis using assms(8) cmd len by (simp add: read_three_def)
  next
    assume r1: "r1 = None" and con: "consumed (in_packet c1) (body @ later) c c1"
      and p: "command (in_packet c1) = cmd" "0 < remaining_count (in_packet c1)"
        "unat (remaining_length (in_packet c1)) = length body"
        "unat (to_process (in_packet c1)) = length body" "pos (in_packet c1) = 0"
        "length (payload (in_packet c1)) = length body"
    have rd: "reading cmd body body (in_packet c1)"
      by (rule reading_body [of _ _ _ "[]"]) (use p in simp_all)
    have run: "read_body_loop (g1, c1) = (r, g', c')" using assms(8) cmd len r1 by (simp add: read_three_def)
    have con': "pieces (rd_answers c1)" "answers_data (rd_answers c1) = body @ later" "same_but_input c c1"
      "answers_size (rd_answers c1) \<le> answers_size (rd_answers c)"
      using con by (simp_all add: consumed_def)
    show ?thesis
      using body_phase_reads [OF con'(1) assms(5) rd refl p(2) con'(2) run]
        stopped_trans [OF con'(3,4)] consumed_trans [OF con'(3,4)] by blast
  qed
qed

lemma reads_on:
  assumes "pieces (rd_answers c)" and "admissible cmd c" and "length body < 2 ^ 28"
    and "reading cmd body todo (in_packet c)" and "answers_data (rd_answers c) = todo @ later"
    and "read_three (g, c) = (r, g', c')"
  shows "r = Some MOSQ_ERR_SUCCESS \<and> stopped cmd body later c c' \<or>
    r = None \<and> frame_read cmd body (in_packet c') \<and> consumed (in_packet c') later c c'"
  using assms(4)
proof cases
  case (reading_start q)
  then have zero: "command (in_packet c) = 0" by (simp add: mosquitto_packet_cleanup_def)
  from assms(1) zero_less_one show ?thesis
  proof (cases rule: net_read_pieces)
    case (blocked as)
    then have "read_command (g, c) = (Some MOSQ_ERR_SUCCESS, g, c\<lparr>rd_answers := as\<rparr>)"
      using zero by (simp add: read_command_def read_failure_def)
    then have "r = Some MOSQ_ERR_SUCCESS" "in_packet c' = in_packet c" "rd_answers c' = as" "same_but_input c c'"
      using assms(6) by (auto simp: read_three_def same_but_input_def)
    moreover have "todo \<noteq> []" using reading_start(1) by simp
    ultimately show ?thesis using assms(4,5) blocked(2) by (auto simp: stopped_def blocks_def)
  next
    case (got bs as)
    then have bs: "bs = [cmd]" "answers_data as = length_digits (length body) @ body @ later"
      using assms(5) reading_start(1) by (cases bs; auto simp: delivers_def)+
    let ?c = "c\<lparr>rd_answers := as, in_packet := length_read (frame_start cmd q) []\<rparr>"
    let ?g = "g\<lparr>g_bytes_received := g_bytes_received g + 1\<rparr>"
    have "(in_packet c)\<lparr>command := cmd\<rparr> = length_read (frame_start cmd q) []"
      using reading_start(2) by (simp add: length_read_def frame_start_def mosquitto_packet_cleanup_def)
    then have "read_command (g, c) = (None, ?g, ?c)"
      using zero got(1) bs(1) assms(2) by (simp add: read_command_def admissible_def Let_def)
    moreover have "read_command (?g, ?c) = (None, ?g, ?c)"
      using assms(2) by (simp add: read_command_def admissible_def frame_start_def)
    ultimately have run: "read_three (?g, ?c) = (r, g', c')" using assms(6) by (simp add: read_three_def)
    have "r = Some MOSQ_ERR_SUCCESS \<and> stopped cmd body later ?c c' \<or>
        r = None \<and> frame_read cmd body (in_packet c') \<and> consumed (in_packet c') later ?c c'"
      by (rule length_body_reads [of ?c cmd q "[]" body "length_digits (length body)", OF _ _ _ _ assms(3) _ _ run])
        (use got(2) bs(2) assms(2) in \<open>auto simp: delivers_def admissible_def\<close>)
    moreover have "same_but_input c ?c" "answers_size (rd_answers ?c) \<le> answers_size (rd_answers c)"
      using got(2) by (simp_all add: same_but_input_def delivers_def)
    ultimately show ?thesis using stopped_trans consumed_trans by blast
  qed
next
  case (reading_length ds1 ds2 q)
  show ?thesis
    by (rule length_body_reads [OF assms(1) reading_length(2) reading_length(3,4) assms(3) _ _ assms(6)])
      (use reading_length assms(2,5) in \<open>simp_all add: admissible_def\<close>)
next
  case (reading_body pre)
  then have "read_command (g, c) = (None, g, c)" "read_remaining_length (g, c) = (None, g, c)"
    using assms(2) by (simp_all add: read_command_def read_remaining_length_def admissible_def)
  then have "read_body_loop (g, c) = (r, g', c')" using assms(6) by (simp add: read_three_def)
  then show ?thesis
    by (rule body_phase_reads [OF assms(1,3,4) refl reading_body(2) assms(5)])
qed

text \<open>One call, and the loop of calls.\<close>

definition frame_ready :: "byte \<Rightarrow> byte list \<Rightarrow> packet \<Rightarrow> bool" where
  "frame_ready cmd body p \<longleftrightarrow> command p = cmd \<and> payload p = body \<and> pos p = 0 \<and> read_wf p"

lemma phases_read_on:
  assumes "pieces (rd_answers c)" and "admissible cmd c" and "length body < 2 ^ 28"
    and "reading cmd body todo (in_packet c)" and "answers_data (rd_answers c) = todo @ later"
    and "packet_read_phases (g, c) = (r, g', c')"
  shows "r = Some MOSQ_ERR_SUCCESS \<and> stopped cmd body later c c' \<or>
    r = None \<and> frame_ready cmd body (in_packet c') \<and> answers_data (rd_answers c') = later"
proof -
  obtain r1 g1 c1 where three: "read_three (g, c) = (r1, g1, c1)" by (cases "read_three (g, c)") auto
  have run: "packet_read_phases (g, c) = (case read_three (g, c) of
      (Some r, s3) \<Rightarrow> (Some r, s3)
    | (None, g3, c3) \<Rightarrow> (None,
         g3\<lparr>g_msgs_received := g_msgs_received g3 + 1,
            g_pub_msgs_received := (if command (in_packet c3) AND 0xF5 = PUBLISH
              then g_pub_msgs_received g3 + 1 else g_pub_msgs_received g3)\<rparr>,
         c3\<lparr>in_packet := (in_packet c3)\<lparr>pos := 0\<rparr>\<rparr>))"
    using assms(2) by (simp add: packet_read_phases_def read_three_def admissible_def split: prod.splits option.splits)
  from reads_on [OF assms(1-5) three] show ?thesis
  proof (elim disjE conjE)
    assume "r1 = Some MOSQ_ERR_SUCCESS" "stopped cmd body later c c1"
    then show ?thesis using run three assms(6) by simp
  next
    assume "r1 = None" "frame_read cmd body (in_packet c1)" "consumed (in_packet c1) later c c1"
    then show ?thesis using run three assms(3,6)
      by (auto simp: frame_ready_def frame_read_def consumed_def read_wf_def)
  qed
qed

lemma poll_reads_on:
  assumes "pieces (rd_answers c)" and "admissible cmd c" and "length body < 2 ^ 28"
    and "reading cmd body todo (in_packet c)" and "answers_data (rd_answers c) = todo @ later"
    and "answers_size (rd_answers c) < n"
  shows "\<exists>g' c'. poll_reads n (g, c) = (None, g', c') \<and> frame_ready cmd body (in_packet c')
    \<and> answers_data (rd_answers c') = later"
  using assms
proof (induction n arbitrary: g c todo)
  case 0
  then show ?case by simp
next
  case (Suc n)
  obtain r g1 c1 where run: "packet_read_phases (g, c) = (r, g1, c1)"
    by (cases "packet_read_phases (g, c)") auto
  from phases_read_on [OF Suc.prems(1-5) run] show ?case
  proof (elim disjE conjE)
    assume r: "r = Some MOSQ_ERR_SUCCESS" and st: "stopped cmd body later c c1"
    obtain more where more: "more \<noteq> []" "reading cmd body more (in_packet c1)"
      "answers_data (rd_answers c1) = more @ later" using st by (auto simp: stopped_def)
    have left: "rd_answers c1 \<noteq> []" using more(1,3) by (cases "rd_answers c1") auto
    have c1: "pieces (rd_answers c1)" "answers_size (rd_answers c1) < n" "same_but_input c c1"
      using st left Suc.prems(6) by (auto simp: stopped_def)
    have "admissible cmd c1"
      using same_but_input_fields [OF c1(3)] Suc.prems(2) by (simp add: admissible_def)
    then show ?thesis
      using Suc.IH [OF c1(1) _ Suc.prems(3) more(2,3) c1(2)] run r left by simp
  next
    assume "r = None" "frame_ready cmd body (in_packet c1)" "answers_data (rd_answers c1) = later"
    then show ?thesis using run by simp
  qed
qed

subsection \<open>Properties\<close>

text \<open>
  C9. The reader reassembles every frame. However the bytes of a packet (command byte,
  remaining length, body) are cut into pieces by the network, with would-block answers and TLS
  retries in between, calling the reader while there is input ends with the packet handed over
  complete: its command, its body and the decoded length, positioned at the start; and the
  bytes behind the frame stay in the socket for the next packet.
\<close>

theorem packet_read_reassembles:
  assumes "cmd \<noteq> 0" and "length body < 2 ^ 28" and "sock c \<noteq> INVALID_SOCKET"
    and "state c \<noteq> mosq_cs_connect_pending"
    and "bridge c = None \<and> state c = mosq_cs_new \<longrightarrow> cmd AND 0xF0 = CONNECT"
    and "in_packet c = mosquitto_packet_cleanup q" and "pieces (rd_answers c)"
    and "answers_data (rd_answers c) = cmd # length_digits (length body) @ body @ later"
    and "answers_size (rd_answers c) < n"
  shows "\<exists>g' c'. poll_reads n (g, c) = (None, g', c') \<and> command (in_packet c') = cmd \<and>
    payload (in_packet c') = body \<and> unat (remaining_length (in_packet c')) = length body \<and>
    pos (in_packet c') = 0 \<and> answers_data (rd_answers c') = later"
proof -
  have adm: "admissible cmd c" using assms(1,3,4,5) by (auto simp: admissible_def)
  have rd: "reading cmd body (cmd # length_digits (length body) @ body) (in_packet c)"
    unfolding assms(6) by (rule reading_start)
  show ?thesis
    using poll_reads_on [OF assms(7) adm assms(2) rd _ assms(9), of later g] assms(8)
    by (auto simp: frame_ready_def read_wf_def)
qed

definition split_ping :: ctx where
  "split_ping = ctx_zero\<lparr>sock := 5, state := mosq_cs_connected, in_packet := mosquitto_packet_cleanup packet_zero,
     rd_answers := [NetData [0xC0], NetErr EAGAIN, NetData [0x00, 0xE0]]\<rparr>"

theorem packet_read_reassembles_witness:
  "\<forall>g. \<exists>g' c'. poll_reads 9 (g, split_ping) = (None, g', c') \<and> command (in_packet c') = PINGREQ \<and>
     payload (in_packet c') = [] \<and> answers_data (rd_answers c') = [0xE0]"
proof
  fix g
  show "\<exists>g' c'. poll_reads 9 (g, split_ping) = (None, g', c') \<and> command (in_packet c') = PINGREQ \<and>
     payload (in_packet c') = [] \<and> answers_data (rd_answers c') = [0xE0]"
    using packet_read_reassembles [of PINGREQ "[]" split_ping packet_zero "[0xE0]" 9 g]
    by (auto simp: split_ping_def ctx_zero_def length_digits_small pieces_def)
qed

end
