(* ===== verification/Send.thy ===== *)
theory Send
  imports OutQueue Topics
begin

text \<open>
  The packets the broker sends: \<^verbatim>\<open>lib/send_mosq.c\<close> and \<^verbatim>\<open>src/send_server.c\<close>. Each function
  allocates a packet, fills it and queues it. A writer that would trip its assertion sets the
  \<open>fault\<close> flag. The mount point of the context's listener is an argument of
  \<open>mosquitto_send_publish\<close>, since the listeners belong to the database.
\<close>

definition abort :: "globals \<times> ctx \<Rightarrow> rc \<times> globals \<times> ctx" where
  "abort s = (case s of (g, c) \<Rightarrow> (MOSQ_ERR_SUCCESS, g\<lparr>fault := True\<rparr>, c))"

text \<open>Store two bytes at the position, as the functions below do without the writers.\<close>

definition poke2 :: "byte \<Rightarrow> byte \<Rightarrow> packet \<Rightarrow> packet" where
  "poke2 a b p = p\<lparr>payload := (payload p)[unat (pos p) := a, unat (pos p) + 1 := b]\<rparr>"

definition mosquitto_send_command_with_mid ::
    "byte \<Rightarrow> u16 \<Rightarrow> bool \<Rightarrow> globals \<times> ctx \<Rightarrow> rc \<times> globals \<times> ctx" where
  "mosquitto_send_command_with_mid cmd mid dup s =
     (case mosquitto_packet_alloc
             (packet_zero\<lparr>command := (if dup then cmd OR 8 else cmd), remaining_length := 2\<rparr>) of
        (r, p) \<Rightarrow>
          if r \<noteq> MOSQ_ERR_SUCCESS then (r, s)
          else mosquitto_packet_queue (poke2 (mosq_msb mid) (mosq_lsb mid) p) s)"

definition mosquitto_send_simple_command :: "byte \<Rightarrow> globals \<times> ctx \<Rightarrow> rc \<times> globals \<times> ctx" where
  "mosquitto_send_simple_command cmd s =
     (case mosquitto_packet_alloc (packet_zero\<lparr>command := cmd, remaining_length := 0\<rparr>) of
        (r, p) \<Rightarrow> if r \<noteq> MOSQ_ERR_SUCCESS then (r, s) else mosquitto_packet_queue p s)"

definition publish_command :: "nat \<Rightarrow> bool \<Rightarrow> bool \<Rightarrow> byte" where
  "publish_command qos retain dup =
     PUBLISH OR (if dup then 8 else 0) OR word_of_nat (2 * qos) OR (if retain then 1 else 0)"

definition fill_publish :: "u16 \<Rightarrow> string \<Rightarrow> byte list \<Rightarrow> nat \<Rightarrow> packet \<Rightarrow> packet option" where
  "fill_publish mid topic pl qos p =
     Option.bind (mosquitto_write_string topic (word_of_nat (length topic)) p) (\<lambda>p1.
       Option.bind (if qos > 0 then mosquitto_write_uint16 mid p1 else Some p1) (\<lambda>p2.
         if pl \<noteq> [] then mosquitto_write_bytes pl (word_of_nat (length pl)) p2 else Some p2))"

definition publish_packet :: "u16 \<Rightarrow> string \<Rightarrow> byte list \<Rightarrow> nat \<Rightarrow> bool \<Rightarrow> bool \<Rightarrow> packet" where
  "publish_packet mid topic pl qos retain dup =
     packet_zero\<lparr>pkt_mid := mid, command := publish_command qos retain dup,
       remaining_length := word_of_nat (2 + length topic + length pl + (if qos > 0 then 2 else 0))\<rparr>"

definition mosquitto_send_real_publish ::
    "u16 \<Rightarrow> string \<Rightarrow> byte list \<Rightarrow> nat \<Rightarrow> bool \<Rightarrow> bool \<Rightarrow> globals \<times> ctx \<Rightarrow> rc \<times> globals \<times> ctx" where
  "mosquitto_send_real_publish mid topic pl qos retain dup s =
     (case mosquitto_packet_alloc (publish_packet mid topic pl qos retain dup) of
        (r, p) \<Rightarrow>
          if r \<noteq> MOSQ_ERR_SUCCESS then (r, s)
          else (case fill_publish mid topic pl qos p of None \<Rightarrow> abort s | Some p' \<Rightarrow> mosquitto_packet_queue p' s))"

text \<open>The bridge topic that a message leaves through, and the topic it leaves under.\<close>

definition remap_out :: "bridge_topic \<Rightarrow> string \<Rightarrow> string" where
  "remap_out bt topic =
     (let t1 = (case bt_local_prefix bt of
                  Some lp \<Rightarrow> if take (length lp) topic = lp then drop (length lp) topic else topic
                | None \<Rightarrow> topic)
      in case bt_remote_prefix bt of Some rp \<Rightarrow> rp @ t1 | None \<Rightarrow> t1)"

fun find_out_topic :: "bridge_topic list \<Rightarrow> string \<Rightarrow> rc + string option" where
  "find_out_topic [] topic = Inr None"
| "find_out_topic (bt # bts) topic =
     (if (bt_direction bt = bd_both \<or> bt_direction bt = bd_out)
         \<and> (bt_remote_prefix bt \<noteq> None \<or> bt_local_prefix bt \<noteq> None) then
        (case mosquitto_topic_matches_sub (Some (bt_local_topic bt)) (Some topic) of
           (r, m) \<Rightarrow>
             if r \<noteq> MOSQ_ERR_SUCCESS then Inl r
             else if m = Some True then Inr (Some (remap_out bt topic))
             else find_out_topic bts topic)
      else find_out_topic bts topic)"

definition mosquitto_send_publish ::
    "string option \<Rightarrow> u16 \<Rightarrow> string option \<Rightarrow> byte list \<Rightarrow> nat \<Rightarrow> bool \<Rightarrow> bool \<Rightarrow>
      globals \<times> ctx \<Rightarrow> rc \<times> globals \<times> ctx" where
  "mosquitto_send_publish mount mid topic pl qos retain dup s =
     (case s of (g, c) \<Rightarrow>
        case topic of
          None \<Rightarrow> abort s
        | Some t \<Rightarrow>
            if sock c = INVALID_SOCKET then (MOSQ_ERR_NO_CONN, s)
            else
              case (case mount of
                      Some m \<Rightarrow> if length m < length t then Some (drop (length m) t) else None
                    | None \<Rightarrow> Some t) of
                None \<Rightarrow> (MOSQ_ERR_SUCCESS, s)
              | Some t1 \<Rightarrow>
                  let g1 = g\<lparr>g_pub_bytes_sent := g_pub_bytes_sent g + word_of_nat (length pl)\<rparr>
                  in case (case bridge c of
                             Some b \<Rightarrow> if br_topic_remapping b then find_out_topic (br_topics b) t1
                                       else Inr None
                           | None \<Rightarrow> Inr None) of
                       Inl r \<Rightarrow> (r, s)
                     | Inr None \<Rightarrow> mosquitto_send_real_publish mid t1 pl qos retain dup (g1, c)
                     | Inr (Some mapped) \<Rightarrow>
                         mosquitto_send_real_publish mid mapped pl qos retain dup (g1, c))"

definition mosquitto_send_pingreq :: "globals \<times> ctx \<Rightarrow> rc \<times> globals \<times> ctx" where
  "mosquitto_send_pingreq s =
     (case mosquitto_send_simple_command PINGREQ s of
        (r, g, c) \<Rightarrow> (r, g, if r = MOSQ_ERR_SUCCESS then c\<lparr>ping_t := now g\<rparr> else c))"

definition mosquitto_send_pingresp :: "globals \<times> ctx \<Rightarrow> rc \<times> globals \<times> ctx" where
  "mosquitto_send_pingresp = mosquitto_send_simple_command PINGRESP"

definition mosquitto_send_puback :: "u16 \<Rightarrow> globals \<times> ctx \<Rightarrow> rc \<times> globals \<times> ctx" where
  "mosquitto_send_puback mid = mosquitto_send_command_with_mid PUBACK mid False"

definition mosquitto_send_pubcomp :: "u16 \<Rightarrow> globals \<times> ctx \<Rightarrow> rc \<times> globals \<times> ctx" where
  "mosquitto_send_pubcomp mid = mosquitto_send_command_with_mid PUBCOMP mid False"

definition mosquitto_send_pubrec :: "u16 \<Rightarrow> globals \<times> ctx \<Rightarrow> rc \<times> globals \<times> ctx" where
  "mosquitto_send_pubrec mid = mosquitto_send_command_with_mid PUBREC mid False"

definition mosquitto_send_pubrel :: "u16 \<Rightarrow> globals \<times> ctx \<Rightarrow> rc \<times> globals \<times> ctx" where
  "mosquitto_send_pubrel mid = mosquitto_send_command_with_mid (PUBREL OR 2) mid False"

definition mosquitto_send_connack :: "byte \<Rightarrow> byte \<Rightarrow> globals \<times> ctx \<Rightarrow> rc \<times> globals \<times> ctx" where
  "mosquitto_send_connack ack result s =
     (case mosquitto_packet_alloc (packet_zero\<lparr>command := CONNACK, remaining_length := 2\<rparr>) of
        (r, p) \<Rightarrow>
          if r \<noteq> MOSQ_ERR_SUCCESS then (r, s) else mosquitto_packet_queue (poke2 ack result p) s)"

definition mosquitto_send_suback :: "u16 \<Rightarrow> byte list \<Rightarrow> globals \<times> ctx \<Rightarrow> rc \<times> globals \<times> ctx" where
  "mosquitto_send_suback mid pl s =
     (case mosquitto_packet_alloc
             (packet_zero\<lparr>command := SUBACK, remaining_length := 2 + word_of_nat (length pl)\<rparr>) of
        (r, p) \<Rightarrow>
          if r \<noteq> MOSQ_ERR_SUCCESS then (r, s)
          else
            case Option.bind (mosquitto_write_uint16 mid p) (\<lambda>p1.
                   if pl \<noteq> [] then mosquitto_write_bytes pl (word_of_nat (length pl)) p1 else Some p1) of
              None \<Rightarrow> abort s
            | Some p' \<Rightarrow> mosquitto_packet_queue p' s)"

subsection \<open>What goes onto the wire\<close>

definition frame :: "byte \<Rightarrow> byte list \<Rightarrow> byte list" where
  "frame cmd body = cmd # length_digits (length body) @ body"

definition emits :: "byte list \<Rightarrow> globals \<times> ctx \<Rightarrow> rc \<times> globals \<times> ctx \<Rightarrow> bool" where
  "emits bs s t \<longleftrightarrow> (case (s, t) of ((g, c), (r, g', c')) \<Rightarrow>
     sent c' @ pending c' = sent c @ pending c @ bs \<and> queue_wf c' \<and>
     same_but_output c c' \<and> same_but_counters g g')"

lemma filled_packet:
  assumes "mosquitto_packet_alloc p = (MOSQ_ERR_SUCCESS, q)" and "unat (remaining_length p) < 2 ^ 28"
  shows "write_wf q" and "room q = unat (remaining_length p)"
    and "written q = command p # length_digits (unat (remaining_length p))"
proof -
  let ?k = "length (length_digits (unat (remaining_length p)))"
  have k: "1 \<le> ?k" "?k \<le> 4" using length_digits_bounds [OF assms(2)] by (simp_all only: Suc_le_eq One_nat_def)
  have "unat (remaining_length p + 1 + word_of_nat ?k) = 1 + ?k + unat (remaining_length p)"
    "unat (1 + word_of_nat ?k :: u32) = 1 + ?k"
    using assms(2) k by (simp_all add: unat_word_ariths unat_of_nat take_bit_nat_eq_self)
  then show "write_wf q" and "room q = unat (remaining_length p)"
    and "written q = command p # length_digits (unat (remaining_length p))"
    using assms k packet_alloc_ok [OF assms(2)]
    by (auto simp: alloc_packet_def Let_def write_wf_def room_def written_def)
qed

lemma queue_emits:
  assumes "queue_wf c" and "write_wf p" and "length (payload p) < 2 ^ 30"
  shows "emits (payload p) (g, c) (mosquitto_packet_queue p (g, c))"
proof (cases "mosquitto_packet_queue p (g, c)")
  case (fields r g' c')
  have "queueable p" using assms(2,3) by (simp add: queueable_def write_wf_def)
  then show ?thesis using packet_queue_conserves [OF assms(1) _ fields] by (simp add: emits_def fields)
qed

text \<open>A packet filled up to its length is queued as a frame.\<close>

lemma filled_emits:
  assumes "queue_wf c" and "mosquitto_packet_alloc p = (MOSQ_ERR_SUCCESS, q)"
    and "unat (remaining_length p) = length body" and "length body < 2 ^ 28" and "appends body q q'"
  shows "emits (frame (command p) body) (g, c) (mosquitto_packet_queue q' (g, c))"
proof -
  have q: "unat (remaining_length p) < 2 ^ 28" using assms(3,4) by simp
  note f = filled_packet [OF assms(2) q]
  have q': "write_wf q'" "room q' = 0" "written q' = frame (command p) body"
    using assms(3,5) f by (simp_all add: appends_def frame_def)
  then have "payload q' = frame (command p) body"
    by (simp add: write_wf_def room_def written_def)
  moreover have "length (payload q') < 2 ^ 30" using q'(1) by (simp add: write_wf_def)
  ultimately show ?thesis using queue_emits [OF assms(1) q'(1)] by metis
qed

lemma alloc_succeeds:
  "unat (remaining_length p) < 2 ^ 28 \<Longrightarrow> \<exists>q. mosquitto_packet_alloc p = (MOSQ_ERR_SUCCESS, q)"
  by (simp add: packet_alloc_ok)

lemma poke2_emits:
  assumes "queue_wf c" and "remaining_length p = 2" and "mosquitto_packet_alloc p = (MOSQ_ERR_SUCCESS, q)"
  shows "emits (frame (command p) [a, b]) (g, c) (mosquitto_packet_queue (poke2 a b q) (g, c))"
proof -
  have two: "unat (remaining_length p) < 2 ^ 28" using assms(2) by simp
  note f = filled_packet [OF assms(3) two]
  have len: "length (payload q) = unat (pos q) + 2"
    using f(1,2) assms(2) by (simp add: write_wf_def room_def)
  have split: "payload q = written q @ drop (unat (pos q)) (payload q)"
    by (simp only: written_def append_take_drop_id)
  have "length (drop (unat (pos q)) (payload q)) = Suc (Suc 0)" using len by simp
  then obtain x y where "drop (unat (pos q)) (payload q) = [x, y]"
    by (auto simp only: length_Suc_conv length_0_conv)
  with split have "payload q = written q @ [x, y]" by (simp only:)
  moreover have "length (written q) = unat (pos q)" using len by (simp add: written_def)
  ultimately have "payload (poke2 a b q) = written q @ [a, b]"
    by (simp add: poke2_def list_update_append)
  moreover have "unat (remaining_length p) = length [a, b]" using assms(2) by simp
  ultimately have "payload (poke2 a b q) = frame (command p) [a, b]"
    by (simp only: f(3) frame_def append_Cons)
  moreover have "write_wf (poke2 a b q)" using f(1) by (simp add: write_wf_def poke2_def)
  moreover have "length (payload (poke2 a b q)) < 2 ^ 30" using f(1) by (simp add: write_wf_def poke2_def)
  ultimately show ?thesis using queue_emits [OF assms(1)] by metis
qed

lemma command_with_mid_emits:
  assumes "queue_wf c"
  shows "emits (frame (if dup then cmd OR 8 else cmd) (uint16_bytes mid)) (g, c)
    (mosquitto_send_command_with_mid cmd mid dup (g, c))"
proof -
  let ?p = "packet_zero\<lparr>command := (if dup then cmd OR 8 else cmd), remaining_length := 2\<rparr>"
  obtain q where q: "mosquitto_packet_alloc ?p = (MOSQ_ERR_SUCCESS, q)"
    using alloc_succeeds [of ?p] by auto
  show ?thesis
    using poke2_emits [OF assms _ q] q by (simp add: mosquitto_send_command_with_mid_def uint16_bytes_def)
qed

lemma simple_command_emits:
  assumes "queue_wf c"
  shows "emits (frame cmd []) (g, c) (mosquitto_send_simple_command cmd (g, c))"
proof -
  let ?p = "packet_zero\<lparr>command := cmd, remaining_length := 0\<rparr>"
  obtain q where q: "mosquitto_packet_alloc ?p = (MOSQ_ERR_SUCCESS, q)"
    using alloc_succeeds [of ?p] by auto
  then have "write_wf q" using filled_packet(1) [OF q] by simp
  then have "appends [] q q" by (simp add: appends_def)
  then show ?thesis
    using filled_emits [OF assms q, of "[]" q] q by (simp add: mosquitto_send_simple_command_def)
qed

lemma connack_emits:
  assumes "queue_wf c"
  shows "emits (frame CONNACK [ack, result]) (g, c) (mosquitto_send_connack ack result (g, c))"
proof -
  let ?p = "packet_zero\<lparr>command := CONNACK, remaining_length := 2\<rparr>"
  obtain q where q: "mosquitto_packet_alloc ?p = (MOSQ_ERR_SUCCESS, q)"
    using alloc_succeeds [of ?p] by auto
  show ?thesis
    using poke2_emits [OF assms _ q] q by (simp add: mosquitto_send_connack_def)
qed

definition publish_body :: "u16 \<Rightarrow> string \<Rightarrow> byte list \<Rightarrow> nat \<Rightarrow> byte list" where
  "publish_body mid topic pl qos =
     enc_string topic @ (if qos > 0 then uint16_bytes mid else []) @ pl"

lemma remaining_length_update: "remaining_length (p\<lparr>remaining_length := n\<rparr>) = n"
  by simp

lemma publish_fills:
  fixes retain dup :: bool
  assumes "length topic \<le> 65535" and "length (publish_body mid topic pl qos) < 2 ^ 28"
  defines "p \<equiv> publish_packet mid topic pl qos retain dup"
  obtains q q' where "mosquitto_packet_alloc p = (MOSQ_ERR_SUCCESS, q)" and "fill_publish mid topic pl qos q = Some q'"
    and "appends (publish_body mid topic pl qos) q q'" and "unat (remaining_length p) = length (publish_body mid topic pl qos)"
proof -
  let ?body = "publish_body mid topic pl qos"
  let ?len = "2 + length topic + length pl + (if qos > 0 then 2 else 0) :: nat"
  have len: "length ?body = ?len" by (simp add: publish_body_def enc_string_def uint16_bytes_def)
  then have small: "?len < 2 ^ 28" using assms(2) by (simp only:)
  then have "?len < 2 ^ 32" by (rule less_trans) simp
  then have "unat (word_of_nat ?len :: u32) = ?len"
    by (simp only: unat_of_nat take_bit_nat_eq_self_iff len_bit0 len_num1 mult_1_right) simp
  moreover have "remaining_length p = word_of_nat ?len"
    unfolding p_def publish_packet_def by (rule remaining_length_update)
  ultimately have rl: "unat (remaining_length p) = ?len" "?len < 2 ^ 28" using small by (simp_all only:)
  then obtain q where q: "mosquitto_packet_alloc p = (MOSQ_ERR_SUCCESS, q)"
    using alloc_succeeds [of p] by auto
  have wq: "write_wf q" "room q = ?len" using filled_packet [OF q] rl by auto
  have t16: "unat (word_of_nat (length topic) :: u16) = length topic"
    using assms(1) by (simp add: unat_of_nat take_bit_nat_eq_self)
  obtain p1 where p1: "mosquitto_write_string topic (word_of_nat (length topic)) q = Some p1"
      "appends (enc_string topic) q p1"
    using write_string_appends [OF wq(1), of "word_of_nat (length topic)" topic] wq(2) t16
    by (auto simp: enc_string_def)
  have w1: "write_wf p1" "room p1 = length pl + (if qos > 0 then 2 else 0)"
    using appends_room [OF p1(2)] wq(2) by (auto simp: enc_string_def uint16_bytes_def)
  have "\<exists>p2. (if qos > 0 then mosquitto_write_uint16 mid p1 else Some p1) = Some p2
      \<and> appends (if qos > 0 then uint16_bytes mid else []) p1 p2"
    using write_uint16_appends [OF w1(1), of mid] w1 by (auto simp: appends_def)
  then obtain p2 where p2: "(if qos > 0 then mosquitto_write_uint16 mid p1 else Some p1) = Some p2"
      "appends (if qos > 0 then uint16_bytes mid else []) p1 p2" by auto
  have w2: "write_wf p2" "room p2 = length pl"
    using appends_room [OF p2(2)] w1(2) by (auto simp: uint16_bytes_def)
  have pl32: "unat (word_of_nat (length pl) :: u32) = length pl"
    using rl(2) by (simp add: unat_of_nat take_bit_nat_eq_self)
  have "\<exists>p3. (if pl \<noteq> [] then mosquitto_write_bytes pl (word_of_nat (length pl)) p2 else Some p2) = Some p3
      \<and> appends pl p2 p3"
    using write_bytes_appends [OF w2(1), of "word_of_nat (length pl)" pl] w2 pl32 by (auto simp: appends_def)
  then obtain p3 where p3: "(if pl \<noteq> [] then mosquitto_write_bytes pl (word_of_nat (length pl)) p2 else Some p2) = Some p3"
      "appends pl p2 p3" by auto
  have "appends ?body q p3"
    unfolding publish_body_def by (rule appends_trans [OF p1(2) appends_trans [OF p2(2) p3(2)]])
  moreover have "fill_publish mid topic pl qos q = Some p3"
    unfolding fill_publish_def p1(1) Option.bind.bind_lunit p2(1) p3(1) by simp
  ultimately show ?thesis using that q rl(1) len by simp
qed

lemma real_publish_emits:
  assumes "queue_wf c" and "length topic \<le> 65535"
    and "length (publish_body mid topic pl qos) < 2 ^ 28"
  shows "emits (frame (publish_command qos retain dup) (publish_body mid topic pl qos)) (g, c)
    (mosquitto_send_real_publish mid topic pl qos retain dup (g, c))"
proof -
  obtain q q' where q: "mosquitto_packet_alloc (publish_packet mid topic pl qos retain dup) = (MOSQ_ERR_SUCCESS, q)"
    and f: "fill_publish mid topic pl qos q = Some q'" "appends (publish_body mid topic pl qos) q q'"
    and rl: "unat (remaining_length (publish_packet mid topic pl qos retain dup)) = length (publish_body mid topic pl qos)"
    using publish_fills [OF assms(2,3)] by blast
  have "command (publish_packet mid topic pl qos retain dup) = publish_command qos retain dup"
    by (simp add: publish_packet_def)
  then show ?thesis
    using filled_emits [OF assms(1) q rl assms(3) f(2), of g] by (simp add: mosquitto_send_real_publish_def q f(1))
qed

lemma suback_emits:
  assumes "queue_wf c" and "2 + length pl < 2 ^ 28"
  shows "emits (frame SUBACK (uint16_bytes mid @ pl)) (g, c) (mosquitto_send_suback mid pl (g, c))"
proof -
  let ?p = "packet_zero\<lparr>command := SUBACK, remaining_length := 2 + word_of_nat (length pl)\<rparr>"
  have pl32: "unat (word_of_nat (length pl) :: u32) = length pl"
    using assms(2) by (simp add: unat_of_nat take_bit_nat_eq_self)
  then have rl: "unat (remaining_length ?p) = 2 + length pl"
    using word_sum_unat [of 2 "word_of_nat (length pl)"] assms(2) by simp
  then obtain q where q: "mosquitto_packet_alloc ?p = (MOSQ_ERR_SUCCESS, q)"
    using alloc_succeeds [of ?p] assms(2) by auto
  have wq: "write_wf q" "room q = 2 + length pl" using filled_packet [OF q] rl assms(2) by auto
  obtain p1 where p1: "mosquitto_write_uint16 mid q = Some p1" "appends (uint16_bytes mid) q p1"
    using write_uint16_appends [OF wq(1), of mid] wq(2) by auto
  have w1: "write_wf p1" "room p1 = length pl"
    using appends_room [OF p1(2)] wq(2) by (auto simp: uint16_bytes_def)
  have "\<exists>p2. (if pl \<noteq> [] then mosquitto_write_bytes pl (word_of_nat (length pl)) p1 else Some p1) = Some p2
      \<and> appends pl p1 p2"
    using write_bytes_appends [OF w1(1), of "word_of_nat (length pl)" pl] w1 pl32 by (auto simp: appends_def)
  then obtain p2 where p2: "(if pl \<noteq> [] then mosquitto_write_bytes pl (word_of_nat (length pl)) p1 else Some p1) = Some p2"
      "appends pl p1 p2" by auto
  have "emits (frame (command ?p) (uint16_bytes mid @ pl)) (g, c) (mosquitto_packet_queue p2 (g, c))"
    by (rule filled_emits [OF assms(1) q _ _ appends_trans [OF p1(2) p2(2)]])
      (use rl assms(2) in \<open>simp_all add: uint16_bytes_def\<close>)
  moreover have "mosquitto_send_suback mid pl (g, c) = mosquitto_packet_queue p2 (g, c)"
    unfolding mosquitto_send_suback_def q prod.case p1(1) Option.bind.bind_lunit p2(1) by simp
  ultimately show ?thesis by simp
qed

subsection \<open>What sending leaves alone\<close>

text \<open>Traffic counters and the fault flag are the only globals that a send function can change.\<close>

definition same_but_traffic :: "globals \<Rightarrow> globals \<Rightarrow> bool" where
  "same_but_traffic g g' \<longleftrightarrow>
     g' = g\<lparr>g_bytes_sent := g_bytes_sent g', g_msgs_sent := g_msgs_sent g',
            g_pub_msgs_sent := g_pub_msgs_sent g', g_pub_bytes_sent := g_pub_bytes_sent g',
            fault := fault g'\<rparr>"

definition sends :: "globals \<times> ctx \<Rightarrow> rc \<times> globals \<times> ctx \<Rightarrow> bool" where
  "sends s t \<longleftrightarrow> (case (s, t) of ((g, c), (r, g', c')) \<Rightarrow> same_but_output c c' \<and> same_but_traffic g g')"

lemma same_but_traffic_refl [simp]: "same_but_traffic g g"
  by (simp add: same_but_traffic_def)

lemma same_but_countersD: "same_but_counters g g' \<Longrightarrow> same_but_traffic g g'"
  by (cases g; cases g') (simp add: same_but_counters_def same_but_traffic_def)

lemma same_but_traffic_trans: "same_but_traffic a b \<Longrightarrow> same_but_traffic b c \<Longrightarrow> same_but_traffic a c"
  by (cases a; cases b; cases c) (simp add: same_but_traffic_def)

lemma sends_stay [simp]: "sends (g, c) (r, g, c)"
  by (simp add: sends_def)

lemma queue_sends [simp]: "sends s (mosquitto_packet_queue p s)"
  using packet_queue_frame same_but_countersD
  by (cases s; cases "mosquitto_packet_queue p s") (auto simp: sends_def)

lemma abort_sends [simp]: "sends s (abort s)"
  by (cases s) (simp add: sends_def abort_def same_but_traffic_def)

lemma sends_refl [simp]: "sends s (r, s)"
  by (cases s) simp

lemma command_with_mid_sends [simp]: "sends s (mosquitto_send_command_with_mid cmd mid dup s)"
  by (simp add: mosquitto_send_command_with_mid_def split: prod.splits)

lemma simple_command_sends [simp]: "sends s (mosquitto_send_simple_command cmd s)"
  by (simp add: mosquitto_send_simple_command_def split: prod.splits)

lemma connack_sends [simp]: "sends s (mosquitto_send_connack ack result s)"
  by (simp add: mosquitto_send_connack_def split: prod.splits)

lemma suback_sends [simp]: "sends s (mosquitto_send_suback mid pl s)"
  by (simp add: mosquitto_send_suback_def split: prod.splits option.splits)

lemma real_publish_sends [simp]: "sends s (mosquitto_send_real_publish mid topic pl qos retain dup s)"
  unfolding mosquitto_send_real_publish_def Let_def by (simp only: sends_refl abort_sends queue_sends split: prod.splits option.splits if_splits) simp

lemma sends_after_counters:
  "sends (g1, c) t \<Longrightarrow> same_but_traffic g g1 \<Longrightarrow> sends (g, c) t"
  by (cases t) (auto simp: sends_def intro: same_but_traffic_trans)

lemma publish_sends [simp]: "sends s (mosquitto_send_publish mount mid topic pl qos retain dup s)"
proof (cases s)
  case (Pair g c)
  let ?g = "g\<lparr>g_pub_bytes_sent := g_pub_bytes_sent g + word_of_nat (length pl)\<rparr>"
  have "same_but_traffic g ?g" by (simp add: same_but_traffic_def)
  then have "sends (g, c) (mosquitto_send_real_publish mid t pl qos retain dup (?g, c))" for t
    by (rule sends_after_counters [rotated]) (rule real_publish_sends)
  then show ?thesis
    unfolding Pair mosquitto_send_publish_def Let_def
    by (simp split: option.splits sum.splits)
qed

lemma pub_commands_send [simp]:
  "sends s (mosquitto_send_puback mid s)" "sends s (mosquitto_send_pubrec mid s)"
  "sends s (mosquitto_send_pubrel mid s)" "sends s (mosquitto_send_pubcomp mid s)"
  "sends s (mosquitto_send_pingresp s)"
  by (simp_all add: mosquitto_send_puback_def mosquitto_send_pubrec_def mosquitto_send_pubrel_def
      mosquitto_send_pubcomp_def mosquitto_send_pingresp_def)

subsection \<open>Properties\<close>

text \<open>The first byte of a PUBLISH as MQTT has it: the type 3, then one bit for dup, two for the QoS, one for retain.\<close>

definition publish_first_byte :: "nat \<Rightarrow> bool \<Rightarrow> bool \<Rightarrow> nat" where
  "publish_first_byte qos retain dup = 3 * 16 + (if dup then 8 else 0) + 2 * qos + (if retain then 1 else 0)"

lemma publish_command_byte: "qos \<le> 2 \<Longrightarrow> publish_command qos retain dup = word_of_nat (publish_first_byte qos retain dup)"
  by (cases retain; cases dup; cases "qos = 0"; cases "qos = 1")
    (auto simp: publish_command_def publish_first_byte_def numeral_2_eq_2 [symmetric] dest!: le_antisym [rotated])

text \<open>
  C32. What \<^verbatim>\<open>_mosquitto_send_publish\<close> puts on the wire for a client, with a mount point or without: after
  everything sent or queued before, exactly one frame, whose first byte has the type, dup, QoS and retain at the
  places of MQTT, with the topic without the listener's mount point, the message id when the QoS is
  positive, and the payload; no other field of the context changes. A topic not longer than the mount point is
  swallowed.
\<close>

theorem publish_on_wire:
  fixes mount :: "string option"
  assumes "queue_wf c" and "sock c \<noteq> INVALID_SOCKET" and "bridge c = None" and "length t \<le> 65535"
    and "4 + length t + length pl < 2 ^ 28" and "qos \<le> 2"
  defines "n \<equiv> (case mount of None \<Rightarrow> 0 | Some m \<Rightarrow> length m)"
  shows "case mosquitto_send_publish mount mid (Some t) pl qos retain dup (g, c) of
     (r, g', c') \<Rightarrow> sent c' @ pending c' = sent c @ pending c @
        (if mount = None \<or> n < length t
         then frame (word_of_nat (publish_first_byte qos retain dup)) (publish_body mid (drop n t) pl qos)
         else []) \<and> same_but_output c c'"
proof (cases "mount = None \<or> n < length t")
  case True
  let ?g = "g\<lparr>g_pub_bytes_sent := g_pub_bytes_sent g + word_of_nat (length pl)\<rparr>"
  have len: "length (drop n t) \<le> 65535" "length (publish_body mid (drop n t) pl qos) < 2 ^ 28"
    using assms(4,5) by (auto simp: publish_body_def enc_string_def uint16_bytes_def)
  have "mosquitto_send_publish mount mid (Some t) pl qos retain dup (g, c)
      = mosquitto_send_real_publish mid (drop n t) pl qos retain dup (?g, c)"
    using assms(2,3) True by (simp add: mosquitto_send_publish_def n_def split: option.splits)
  then show ?thesis
    using real_publish_emits [OF assms(1) len, of retain dup ?g] True
    by (auto simp: emits_def publish_command_byte [OF assms(6)] split: prod.splits)
next
  case False
  then show ?thesis using assms(2) by (auto simp: mosquitto_send_publish_def n_def)
qed

text \<open>A first sending at QoS 1 from a listener with a mount point, and a repeated retained one at QoS 2 without.\<close>

theorem publish_on_wire_witness:
  "(case mosquitto_send_publish (Some ''m/'') 7 (Some ''m/a'') [0x21] 1 False False (globals_init, short_write_ctx) of
     (r, g', c') \<Rightarrow> sent c' @ pending c' = [0x32, 6, 0, 1, 0x61, 0, 7, 0x21]) \<and>
   (case mosquitto_send_publish None 7 (Some ''a'') [0x21] 2 False True (globals_init, short_write_ctx) of
     (r, g', c') \<Rightarrow> sent c' @ pending c' = [0x3C, 6, 0, 1, 0x61, 0, 7, 0x21])"
proof -
  have ctx: "queue_wf short_write_ctx" "sock short_write_ctx \<noteq> INVALID_SOCKET" "bridge short_write_ctx = None"
    "sent short_write_ctx = []" "pending short_write_ctx = []"
    by (simp_all add: short_write_ctx_def ctx_zero_def queue_wf_def pending_def)
  have bytes: "frame x (publish_body 7 ''a'' [0x21] q) = [x, 6, 0, 1, 0x61, 0, 7, 0x21]" if "0 < q" for x q
    using that by (simp add: frame_def publish_body_def enc_string_def uint16_bytes_def
        bytes_of_def mosq_msb_def mosq_lsb_def length_digits_small byte_of_char_def of_char_def)
  show ?thesis
    using publish_on_wire [OF ctx(1-3), where t = "''m/a''" and pl = "[0x21]" and mount = "Some ''m/''" and mid = 7
        and qos = 1 and retain = False and dup = False and g = globals_init]
      publish_on_wire [OF ctx(1-3), where t = "''a''" and pl = "[0x21]" and mount = None and mid = 7
        and qos = 2 and retain = False and dup = True and g = globals_init] ctx(4,5) bytes
    by (auto simp: publish_first_byte_def split: prod.splits)
qed

end
