(* ===== verification/Messages.thy ===== *)
theory Messages
  imports Send
begin

text \<open>
  The stored messages and the message queues of the clients, \<^verbatim>\<open>src/database.c\<close>.

  A stored message is shared by the clients it is queued for and by the retained messages; it
  is freed when its count of references drops to 0. A client's queue is a singly linked list
  with a pointer to its last element; here it is a list of messages with their addresses and
  the address \<open>last_msg\<close>, so that a stale \<open>last_msg\<close> can be told from a good one. A position in
  the list stands for the pair \<^verbatim>\<open>tail\<close>, \<^verbatim>\<open>last\<close> of the C loops.
\<close>

subsection \<open>The store\<close>

definition store_live :: "db \<Rightarrow> store_ref \<Rightarrow> bool" where
  "store_live d s \<longleftrightarrow> s \<in> fst ` set (msg_store d)"

definition msg_store_add :: "store_ref \<Rightarrow> msg_store \<Rightarrow> db \<Rightarrow> db" where
  "msg_store_add s m d = d\<lparr>msg_store := (s, m) # msg_store d\<rparr>"

definition msg_store_remove :: "store_ref \<Rightarrow> db \<Rightarrow> db" where
  "msg_store_remove s d =
     d\<lparr>msg_store := filter (\<lambda>(p, m). p \<noteq> s) (msg_store d), msg_store_count := msg_store_count d - 1\<rparr>"

definition msg_store_clean :: "db \<Rightarrow> db" where
  "msg_store_clean d = fold msg_store_remove (map fst (msg_store d)) d"

text \<open>The pointer comes back as \<^const>\<open>None\<close> when the message was freed.\<close>

definition msg_store_deref :: "store_ref \<Rightarrow> db \<Rightarrow> store_ref option \<times> db" where
  "msg_store_deref s d =
     (if \<not> store_live d s then (Some s, set_fault d)
      else
        let d1 = upd_store s (\<lambda>m. m\<lparr>ms_ref_count := ms_ref_count m - 1\<rparr>) d
        in if ms_ref_count (store_of d1 s) = 0 then (None, msg_store_remove s d1) else (Some s, d1))"

definition fresh_ptr :: "db \<Rightarrow> nat \<times> db" where
  "fresh_ptr d = (next_ptr (glob d), d\<lparr>glob := (glob d)\<lparr>next_ptr := next_ptr (glob d) + 1\<rparr>\<rparr>)"

definition mqtt3_db_message_store ::
    "string option \<Rightarrow> u16 \<Rightarrow> string option \<Rightarrow> nat \<Rightarrow> byte list \<Rightarrow> bool \<Rightarrow> u64 \<Rightarrow> db \<Rightarrow> store_ref \<times> db" where
  "mqtt3_db_message_store source source_mid topic qos pl retain store_id d =
     (case fresh_ptr d of
        (s, d1) \<Rightarrow>
          let d2 = d1\<lparr>msg_store_count := msg_store_count d1 + 1,
                      last_db_id := (if store_id = 0 then last_db_id d1 + 1 else last_db_id d1)\<rparr>;
              m = \<lparr>ms_db_id = (if store_id = 0 then last_db_id d2 else store_id),
                   ms_source_id = (case source of Some i \<Rightarrow> i | None \<Rightarrow> []),
                   ms_dest_ids = [], ms_ref_count = 0, ms_topic = topic, ms_payload = pl,
                   ms_source_mid = source_mid, ms_mid = 0, ms_qos = qos, ms_retain = retain\<rparr>
          in (s, msg_store_add s m d2))"

subsection \<open>Removing a message from a queue\<close>

text \<open>The state a queued message goes to when it may be sent.\<close>

definition publish_state :: "nat \<Rightarrow> mosquitto_msg_state \<Rightarrow> mosquitto_msg_state" where
  "publish_state qos old =
     (if qos = 0 then mosq_ms_publish_qos0
      else if qos = 1 then mosq_ms_publish_qos1
      else if qos = 2 then mosq_ms_publish_qos2 else old)"

definition activate :: "mosquitto_msg_state \<Rightarrow> client_msg \<Rightarrow> client_msg" where
  "activate incoming m =
     m\<lparr>cm_state := (if cm_direction m = mosq_md_out then publish_state (cm_qos m) (cm_state m)
                    else if cm_qos m = 2 then incoming else cm_state m)\<rparr>"

text \<open>
  The loop at the end of \<^verbatim>\<open>_message_remove\<close>. Its counter \<^verbatim>\<open>i\<close> is never incremented, so the test
  \<^verbatim>\<open>i < max_inflight\<close> stays \<^verbatim>\<open>0 < max_inflight\<close>.
\<close>

fun activate_heads :: "int \<Rightarrow> client_msg list \<Rightarrow> client_msg list" where
  "activate_heads inflight [] = []"
| "activate_heads inflight (m # ms) =
     (if cm_state m = mosq_ms_queued \<and> 0 < inflight
      then activate mosq_ms_send_pubrec m # activate_heads inflight ms
      else m # ms)"

definition unlink_msg :: "int \<Rightarrow> nat \<Rightarrow> ctx \<Rightarrow> ctx" where
  "unlink_msg inflight i c =
     (let ms = take i (msgs c) @ drop (Suc i) (msgs c)
      in c\<lparr>last_msg := (if 0 < i
             then (if Suc i = length (msgs c) then Some (cm_ptr (msgs c ! (i - 1))) else last_msg c)
             else (if ms = [] then None else last_msg c)),
           msg_count := msg_count c - 1,
           msg_count12 := (if cm_qos (msgs c ! i) > 0 then msg_count12 c - 1 else msg_count12 c),
           msgs := activate_heads inflight ms\<rparr>)"

definition message_remove :: "ctx_ref \<Rightarrow> nat \<Rightarrow> db \<Rightarrow> db" where
  "message_remove r i d =
     (if length (msgs (ctx_of d r)) \<le> i then d
      else
        let d1 = snd (msg_store_deref (cm_store (msgs (ctx_of d r) ! i)) d)
        in upd_ctx r (unlink_msg (max_inflight (glob d1)) i) d1)"

definition set_msg :: "ctx_ref \<Rightarrow> nat \<Rightarrow> (client_msg \<Rightarrow> client_msg) \<Rightarrow> db \<Rightarrow> db" where
  "set_msg r i f d = upd_ctx r (\<lambda>c. c\<lparr>msgs := (msgs c)[i := f (msgs c ! i)]\<rparr>) d"

lemma glob_put_ctx [simp]: "glob (put_ctx r c d) = glob d"
  by (simp add: put_ctx_def)

lemma glob_upd_ctx [simp]: "glob (upd_ctx r f d) = glob d"
  by (simp add: upd_ctx_def)

lemma ctx_of_deref [simp]: "ctx_of (snd (msg_store_deref s d)) r = ctx_of d r"
  by (simp add: msg_store_deref_def ctx_of_def Let_def set_fault_def upd_store_def msg_store_remove_def)

lemma max_inflight_deref [simp]: "max_inflight (glob (snd (msg_store_deref s d))) = max_inflight (glob d)"
  by (simp add: msg_store_deref_def Let_def set_fault_def upd_store_def msg_store_remove_def)

lemma length_activate_heads [simp]: "length (activate_heads n ms) = length ms"
  by (induction ms) simp_all

lemma length_unlink: "i < length (msgs c) \<Longrightarrow> length (msgs (unlink_msg n i c)) = length (msgs c) - 1"
  by (simp add: unlink_msg_def Let_def)

lemma msgs_message_remove:
  "i < length (msgs (ctx_of d r)) \<Longrightarrow>
     ctx_of (message_remove r i d) r = unlink_msg (max_inflight (glob d)) i (ctx_of d r)"
  by (simp add: message_remove_def Let_def)

lemma length_message_remove:
  "i < length (msgs (ctx_of d r)) \<Longrightarrow>
     length (msgs (ctx_of (message_remove r i d) r)) = length (msgs (ctx_of d r)) - 1"
  by (simp add: msgs_message_remove length_unlink)

lemma length_set_msg [simp]: "length (msgs (ctx_of (set_msg r i f d) r)) = length (msgs (ctx_of d r))"
  by (simp add: set_msg_def)

subsection \<open>Deleting, inserting and updating\<close>

text \<open>The step that the loops of delete and release take at every message.\<close>

definition delete_activate :: "ctx_ref \<Rightarrow> nat \<Rightarrow> int \<Rightarrow> db \<Rightarrow> db" where
  "delete_activate r i idx d =
     (if cm_state (msgs (ctx_of d r) ! i) = mosq_ms_queued \<and> idx \<le> max_inflight (glob d)
      then set_msg r i (\<lambda>m. activate mosq_ms_wait_for_pubrel (m\<lparr>cm_timestamp := now (glob d)\<rparr>)) d
      else d)"

lemma length_delete_activate [simp]:
  "length (msgs (ctx_of (delete_activate r i idx d) r)) = length (msgs (ctx_of d r))"
  by (simp add: delete_activate_def)

definition msg_is :: "u16 \<Rightarrow> mosquitto_msg_direction \<Rightarrow> client_msg \<Rightarrow> bool" where
  "msg_is mid dir m \<longleftrightarrow> cm_mid m = mid \<and> cm_direction m = dir"

function delete_loop ::
    "ctx_ref \<Rightarrow> u16 \<Rightarrow> mosquitto_msg_direction \<Rightarrow> nat \<Rightarrow> int \<Rightarrow> bool \<Rightarrow> db \<Rightarrow> db" where
  "delete_loop r mid dir i idx deleted d =
     (if length (msgs (ctx_of d r)) \<le> i then d
      else
        let d1 = delete_activate r i (idx + 1) d
        in if msg_is mid dir (msgs (ctx_of d1 r) ! i) then
             (let d2 = message_remove r i d1
              in if idx > max_inflight (glob d2) then d2 else delete_loop r mid dir i idx True d2)
           else if idx + 1 > max_inflight (glob d1) \<and> deleted then d1
           else delete_loop r mid dir (Suc i) (idx + 1) deleted d1)"
  by pat_completeness auto
termination
  by (relation "measure (\<lambda>(r, mid, dir, i, idx, deleted, d). length (msgs (ctx_of d r)) - i)")
    (auto simp: length_message_remove)

declare delete_loop.simps [simp del]

definition mqtt3_db_message_delete :: "ctx_ref \<Rightarrow> u16 \<Rightarrow> mosquitto_msg_direction \<Rightarrow> db \<Rightarrow> rc \<times> db" where
  "mqtt3_db_message_delete r mid dir d = (MOSQ_ERR_SUCCESS, delete_loop r mid dir 0 0 False d)"

text \<open>
  Whether a message may go into a queue, and in which state. The left alternative is an early
  return, with whether the message counts as dropped.
\<close>

definition insert_connected :: "globals \<Rightarrow> ctx \<Rightarrow> mosquitto_msg_direction \<Rightarrow> nat \<Rightarrow>
    (rc \<times> bool) + (mosquitto_msg_state \<times> rc)" where
  "insert_connected g c dir qos =
     (if qos = 0 \<or> max_inflight g = 0 \<or> msg_count12 c < max_inflight g then
        (if dir = mosq_md_out then Inr (publish_state qos mosq_ms_invalid, 0)
         else if qos = 2 then Inr (mosq_ms_wait_for_pubrel, 0)
         else Inl (1, False))
      else if max_queued g = 0 \<or> msg_count12 c - max_inflight g < max_queued g then
        Inr (mosq_ms_queued, 2)
      else Inl (2, True))"

definition insert_state :: "db \<Rightarrow> ctx \<Rightarrow> mosquitto_msg_direction \<Rightarrow> nat \<Rightarrow>
    (rc \<times> bool) + (mosquitto_msg_state \<times> rc)" where
  "insert_state d c dir qos =
     (if sock c = INVALID_SOCKET \<and> qos = 0 \<and> \<not> queue_qos0_messages (cfg d)
         \<and> (case bridge c of None \<Rightarrow> True | Some b \<Rightarrow> br_start_type b \<noteq> bst_lazy)
      then Inl (2, False)
      else if sock c \<noteq> INVALID_SOCKET then insert_connected (glob d) c dir qos
      else if max_queued (glob d) > 0 \<and> msg_count12 c \<ge> max_queued (glob d) then Inl (2, True)
      else Inr (mosq_ms_queued, 0))"

text \<open>
  Append to the list through \<^verbatim>\<open>last_msg\<close>. A stale pointer writes into freed memory; one into the
  middle of the list cuts off what follows.
\<close>

definition append_msg :: "client_msg \<Rightarrow> ctx \<Rightarrow> bool \<times> ctx" where
  "append_msg m c =
     (case last_msg c of
        None \<Rightarrow> (False, c\<lparr>msgs := [m], last_msg := Some (cm_ptr m)\<rparr>)
      | Some p \<Rightarrow>
          if p \<in> cm_ptr ` set (msgs c)
          then (False, c\<lparr>msgs := takeWhile (\<lambda>x. cm_ptr x \<noteq> p) (msgs c)
                            @ take 1 (dropWhile (\<lambda>x. cm_ptr x \<noteq> p) (msgs c)) @ [m],
                         last_msg := Some (cm_ptr m)\<rparr>)
          else (True, c\<lparr>last_msg := Some (cm_ptr m)\<rparr>))"

definition mark_dropping :: "ctx_ref \<Rightarrow> db \<Rightarrow> db" where
  "mark_dropping r d =
     upd_ctx r (\<lambda>c. c\<lparr>is_dropping := True\<rparr>)
       (d\<lparr>glob := (glob d)\<lparr>g_msgs_dropped := g_msgs_dropped (glob d) + 1\<rparr>\<rparr>)"

text \<open>A lazy bridge reconnects once enough messages are waiting.\<close>

definition check_lazy_bridge :: "ctx \<Rightarrow> ctx" where
  "check_lazy_bridge c =
     (case bridge c of
        Some b \<Rightarrow>
          if br_start_type b = bst_lazy \<and> sock c = INVALID_SOCKET \<and> msg_count c \<ge> br_threshold b
          then c\<lparr>bridge := Some (b\<lparr>br_lazy_reconnect := True\<rparr>)\<rparr>
          else c
      | None \<Rightarrow> c)"

text \<open>The new message, in a state, at an address.\<close>

definition new_msg :: "u16 \<Rightarrow> mosquitto_msg_direction \<Rightarrow> nat \<Rightarrow> bool \<Rightarrow> store_ref \<Rightarrow>
    mosquitto_msg_state \<Rightarrow> int \<Rightarrow> nat \<Rightarrow> client_msg" where
  "new_msg mid dir qos retain s st t p =
     \<lparr>cm_ptr = p, cm_store = s, cm_timestamp = t, cm_mid = mid, cm_qos = qos, cm_retain = retain,
      cm_direction = dir, cm_state = st, cm_dup = False\<rparr>"

text \<open>Allocate a message, take a reference to what is stored, and append it to the queue.\<close>

definition link_msg :: "ctx_ref \<Rightarrow> store_ref \<Rightarrow> (nat \<Rightarrow> client_msg) \<Rightarrow> db \<Rightarrow> db" where
  "link_msg r s mk d =
     (case fresh_ptr d of
        (p, d1) \<Rightarrow>
          let d2 = (if store_live d1 s
                    then upd_store s (\<lambda>m. m\<lparr>ms_ref_count := ms_ref_count m + 1\<rparr>) d1 else set_fault d1)
          in case append_msg (mk p) (ctx_of d2 r) of
               (stale, c) \<Rightarrow>
                 put_ctx r
                   (check_lazy_bridge
                      (c\<lparr>msg_count := msg_count c + 1,
                         msg_count12 := (if cm_qos (mk p) > 0 then msg_count12 c + 1 else msg_count12 c)\<rparr>))
                   (if stale then set_fault d2 else d2))"

text \<open>A queued message is a change worth saving; a message sent to a client is noted as such.\<close>

definition count_change :: "mosquitto_msg_state \<Rightarrow> db \<Rightarrow> db" where
  "count_change st d =
     (if st = mosq_ms_queued then d\<lparr>persistence_changes := persistence_changes d + 1\<rparr> else d)"

definition no_duplicates :: "db \<Rightarrow> mosquitto_msg_direction \<Rightarrow> bool \<Rightarrow> bool" where
  "no_duplicates d dir retain \<longleftrightarrow> \<not> allow_duplicate_messages (cfg d) \<and> dir = mosq_md_out \<and> \<not> retain"

definition add_dest :: "bool \<Rightarrow> string \<Rightarrow> store_ref \<Rightarrow> db \<Rightarrow> db" where
  "add_dest b cid s d = (if b then upd_store s (\<lambda>m. m\<lparr>ms_dest_ids := ms_dest_ids m @ [cid]\<rparr>) d else d)"

definition mqtt3_db_message_insert ::
    "ctx_ref \<Rightarrow> u16 \<Rightarrow> mosquitto_msg_direction \<Rightarrow> nat \<Rightarrow> bool \<Rightarrow> store_ref \<Rightarrow> db \<Rightarrow> rc \<times> db" where
  "mqtt3_db_message_insert r mid dir qos retain s d =
     (case ctx_id (ctx_of d r) of
        None \<Rightarrow> (MOSQ_ERR_SUCCESS, d)
      | Some cid \<Rightarrow>
          if no_duplicates d dir retain \<and> cid \<in> set (ms_dest_ids (store_of d s))
          then (MOSQ_ERR_SUCCESS, d)
          else
            case insert_state d (ctx_of d r) dir qos of
              Inl (rc, dropped) \<Rightarrow> (rc, if dropped then mark_dropping r d else d)
            | Inr (st, rc) \<Rightarrow>
                (rc,
                 if st = mosq_ms_invalid then set_fault d
                 else add_dest (no_duplicates d dir retain) cid s
                        (link_msg r s (new_msg mid dir qos retain s st (now (glob d))) (count_change st d))))"

fun update_first :: "('a \<Rightarrow> bool) \<Rightarrow> ('a \<Rightarrow> 'a) \<Rightarrow> 'a list \<Rightarrow> 'a list option" where
  "update_first P f [] = None"
| "update_first P f (x # xs) = (if P x then Some (f x # xs) else map_option ((#) x) (update_first P f xs))"

definition mqtt3_db_message_update ::
    "u16 \<Rightarrow> mosquitto_msg_direction \<Rightarrow> mosquitto_msg_state \<Rightarrow> globals \<times> ctx \<Rightarrow> rc \<times> globals \<times> ctx" where
  "mqtt3_db_message_update mid dir st x =
     (case x of (g, c) \<Rightarrow>
        case update_first (msg_is mid dir) (\<lambda>m. m\<lparr>cm_state := st, cm_timestamp := now g\<rparr>) (msgs c) of
          Some ms \<Rightarrow> (MOSQ_ERR_SUCCESS, g, c\<lparr>msgs := ms\<rparr>)
        | None \<Rightarrow> (1, g, c))"

definition mqtt3_db_messages_delete :: "ctx_ref \<Rightarrow> db \<Rightarrow> rc \<times> db" where
  "mqtt3_db_messages_delete r d =
     (MOSQ_ERR_SUCCESS,
      upd_ctx r (\<lambda>c. c\<lparr>msgs := [], last_msg := None, msg_count := 0, msg_count12 := 0\<rparr>)
        (fold (\<lambda>m d. snd (msg_store_deref (cm_store m) d)) (msgs (ctx_of d r)) d))"

definition mqtt3_db_message_store_find :: "ctx_ref \<Rightarrow> u16 \<Rightarrow> db \<Rightarrow> rc \<times> store_ref option" where
  "mqtt3_db_message_store_find r mid d =
     (case find (\<lambda>m. ms_source_mid (store_of d (cm_store m)) = mid \<and> cm_direction m = mosq_md_in)
             (msgs (ctx_of d r)) of
        Some m \<Rightarrow> (MOSQ_ERR_SUCCESS, Some (cm_store m))
      | None \<Rightarrow> (1, None))"

subsection \<open>Reconnecting and retrying\<close>

definition reset_state :: "client_msg \<Rightarrow> mosquitto_msg_state" where
  "reset_state m =
     (if cm_state m = mosq_ms_queued then cm_state m
      else if cm_qos m = 2 \<and> cm_state m = mosq_ms_wait_for_pubcomp then mosq_ms_resend_pubrel
      else publish_state (cm_qos m) (cm_state m))"

definition reset_count :: "ctx_ref \<Rightarrow> nat \<Rightarrow> db \<Rightarrow> db" where
  "reset_count r i d =
     upd_ctx r (\<lambda>c. c\<lparr>last_msg := Some (cm_ptr (msgs c ! i)), msg_count := msg_count c + 1,
       msg_count12 := (if cm_qos (msgs c ! i) > 0 then msg_count12 c + 1 else msg_count12 c)\<rparr>) d"

lemma msgs_reset_count [simp]: "msgs (ctx_of (reset_count r i d) r) = msgs (ctx_of d r)"
  by (simp add: reset_count_def)

text \<open>
  When a message is removed, the loop moves on from the one that took its place, which is
  therefore skipped.
\<close>

function reset_loop :: "ctx_ref \<Rightarrow> nat \<Rightarrow> db \<Rightarrow> db" where
  "reset_loop r i d =
     (if length (msgs (ctx_of d r)) \<le> i then d
      else
        let d1 = reset_count r i d; m = msgs (ctx_of d1 r) ! i
        in if cm_direction m = mosq_md_out then
             reset_loop r (Suc i) (set_msg r i (\<lambda>m. m\<lparr>cm_state := reset_state m\<rparr>) d1)
           else if cm_qos m \<noteq> 2 then reset_loop r (Suc i) (message_remove r i d1)
           else reset_loop r (Suc i) d1)"
  by pat_completeness auto
termination
  by (relation "measure (\<lambda>(r, i, d). length (msgs (ctx_of d r)) - i)")
    (auto simp: length_message_remove)

declare reset_loop.simps [simp del]

text \<open>The second loop does not look at the direction of a queued message.\<close>

definition unqueue :: "client_msg \<Rightarrow> client_msg" where
  "unqueue m =
     (if cm_state m = mosq_ms_queued then m\<lparr>cm_state := publish_state (cm_qos m) (cm_state m)\<rparr> else m)"

definition unqueue_prefix :: "int \<Rightarrow> client_msg list \<Rightarrow> client_msg list" where
  "unqueue_prefix inflight ms =
     (let n = (if inflight = 0 then length ms else nat inflight)
      in map unqueue (take n ms) @ drop n ms)"

definition mqtt3_db_message_reconnect_reset :: "ctx_ref \<Rightarrow> db \<Rightarrow> rc \<times> db" where
  "mqtt3_db_message_reconnect_reset r d =
     (let d1 = reset_loop r 0 (upd_ctx r (\<lambda>c. c\<lparr>msg_count := 0, msg_count12 := 0\<rparr>) d)
      in (MOSQ_ERR_SUCCESS,
          upd_ctx r (\<lambda>c. c\<lparr>msgs := unqueue_prefix (max_inflight (glob d1)) (msgs c)\<rparr>) d1))"

definition timeout_state :: "mosquitto_msg_state \<Rightarrow> mosquitto_msg_state" where
  "timeout_state st =
     (if st = mosq_ms_wait_for_puback then mosq_ms_publish_qos1
      else if st = mosq_ms_wait_for_pubrec then mosq_ms_publish_qos2
      else if st = mosq_ms_wait_for_pubrel then mosq_ms_send_pubrec
      else if st = mosq_ms_wait_for_pubcomp then mosq_ms_resend_pubrel
      else mosq_ms_invalid)"

definition timeout_msg :: "int \<Rightarrow> int \<Rightarrow> client_msg \<Rightarrow> client_msg" where
  "timeout_msg tnow threshold m =
     (if cm_timestamp m < threshold \<and> cm_state m \<noteq> mosq_ms_queued
         \<and> timeout_state (cm_state m) \<noteq> mosq_ms_invalid
      then m\<lparr>cm_timestamp := tnow, cm_state := timeout_state (cm_state m), cm_dup := True\<rparr>
      else m)"

definition mqtt3_db_message_timeout_check :: "int \<Rightarrow> db \<Rightarrow> rc \<times> db" where
  "mqtt3_db_message_timeout_check timeout d =
     (MOSQ_ERR_SUCCESS,
      fold (\<lambda>(k, r). upd_ctx r (\<lambda>c.
          c\<lparr>msgs := map (timeout_msg (now (glob d)) (now (glob d) - timeout)) (msgs c)\<rparr>))
        (contexts_by_sock d) d)"

subsection \<open>Sending what is in the queue\<close>

definition mount_point_of :: "db \<Rightarrow> ctx \<Rightarrow> string option" where
  "mount_point_of d c =
     (case ctx_listener c of
        Some l \<Rightarrow> if l < length (listeners d) then ls_mount_point (listeners d ! l) else None
      | None \<Rightarrow> None)"

text \<open>What is sent for a message in a given state, and the state it goes to.\<close>

definition send_for_state :: "ctx_ref \<Rightarrow> client_msg \<Rightarrow> db \<Rightarrow> (rc \<times> db) option" where
  "send_for_state r m d =
     (let st = store_of d (cm_store m); publish = with_ctx r (mosquitto_send_publish
            (mount_point_of d (ctx_of d r)) (cm_mid m) (ms_topic st) (ms_payload st) (cm_qos m) (cm_retain m) (cm_dup m))
      in if cm_state m = mosq_ms_publish_qos0 then Some (publish d)
         else if cm_state m = mosq_ms_publish_qos1 then Some (publish d)
         else if cm_state m = mosq_ms_publish_qos2 then Some (publish d)
         else if cm_state m = mosq_ms_send_pubrec then Some (with_ctx r (mosquitto_send_pubrec (cm_mid m)) d)
         else if cm_state m = mosq_ms_resend_pubrel then Some (with_ctx r (mosquitto_send_pubrel (cm_mid m)) d)
         else if cm_state m = mosq_ms_resend_pubcomp then Some (with_ctx r (mosquitto_send_pubcomp (cm_mid m)) d)
         else None)"

definition after_send :: "int \<Rightarrow> client_msg \<Rightarrow> client_msg" where
  "after_send tnow m =
     (if cm_state m = mosq_ms_publish_qos1
      then m\<lparr>cm_timestamp := tnow, cm_dup := True, cm_state := mosq_ms_wait_for_puback\<rparr>
      else if cm_state m = mosq_ms_publish_qos2
      then m\<lparr>cm_timestamp := tnow, cm_dup := True, cm_state := mosq_ms_wait_for_pubrec\<rparr>
      else if cm_state m = mosq_ms_send_pubrec then m\<lparr>cm_state := mosq_ms_wait_for_pubrel\<rparr>
      else if cm_state m = mosq_ms_resend_pubrel then m\<lparr>cm_state := mosq_ms_wait_for_pubcomp\<rparr>
      else if cm_state m = mosq_ms_resend_pubcomp then m\<lparr>cm_state := mosq_ms_wait_for_pubrel\<rparr>
      else m)"

text \<open>
  The loop of \<^verbatim>\<open>mqtt3_db_message_write\<close>. A queued incoming message that is not QoS 2 is looked
  at again and again when there is no inflight limit, so the loop may not end: that is
  \<^const>\<open>None\<close>.
\<close>

partial_function (option) message_write_loop :: "ctx_ref \<Rightarrow> nat \<Rightarrow> int \<Rightarrow> db \<Rightarrow> (rc \<times> db) option" where
  "message_write_loop r i count d =
     (if length (msgs (ctx_of d r)) \<le> i then Some (MOSQ_ERR_SUCCESS, d)
      else
        let m = msgs (ctx_of d r) ! i;
            count1 = (if cm_direction m = mosq_md_in then count + 1 else count)
        in if cm_state m \<noteq> mosq_ms_queued then
             (case send_for_state r m d of
                None \<Rightarrow> message_write_loop r (Suc i) count1 d
              | Some (rc, d1) \<Rightarrow>
                  if rc \<noteq> MOSQ_ERR_SUCCESS then Some (rc, d1)
                  else if cm_state m = mosq_ms_publish_qos0
                  then message_write_loop r i count1 (message_remove r i d1)
                  else message_write_loop r (Suc i) count1 (set_msg r i (after_send (now (glob d))) d1))
           else if cm_direction m = mosq_md_in
                   \<and> (max_inflight (glob d) = 0 \<or> count1 < max_inflight (glob d)) then
             message_write_loop r i count1
               (if cm_qos m = 2 then set_msg r i (\<lambda>m. m\<lparr>cm_state := mosq_ms_send_pubrec\<rparr>) d else d)
           else message_write_loop r (Suc i) count1 d)"

definition mqtt3_db_message_write :: "ctx_ref \<Rightarrow> db \<Rightarrow> (rc \<times> db) option" where
  "mqtt3_db_message_write r d =
     (let c = ctx_of d r
      in if sock c = INVALID_SOCKET \<or> (state c = mosq_cs_connected \<and> ctx_id c = None)
         then Some (MOSQ_ERR_INVAL, d)
         else if state c \<noteq> mosq_cs_connected then Some (MOSQ_ERR_SUCCESS, d)
         else message_write_loop r 0 0 d)"

definition mqtt3_db_limits_set :: "int \<Rightarrow> int \<Rightarrow> db \<Rightarrow> db" where
  "mqtt3_db_limits_set inflight queued d =
     d\<lparr>glob := (glob d)\<lparr>max_inflight := inflight, max_queued := queued\<rparr>\<rparr>"

subsection \<open>Reference counting\<close>

text \<open>
  The store when message \<open>s\<close> should have \<open>f s\<close> references: the counts are these, and every
  message with a reference is there.
\<close>

definition counts_ok :: "(store_ref \<Rightarrow> int) \<Rightarrow> db \<Rightarrow> bool" where
  "counts_ok f d \<longleftrightarrow> distinct (map fst (msg_store d)) \<and> (\<forall>s. 0 \<le> f s) \<and>
     (\<forall>(s, m) \<in> set (msg_store d). ms_ref_count m = f s \<and> s < next_ptr (glob d)) \<and>
     (\<forall>s. 0 < f s \<longrightarrow> store_live d s)"

text \<open>Everything but the store.\<close>

definition not_store :: "db \<Rightarrow> db" where
  "not_store d = d\<lparr>msg_store := [], msg_store_count := 0\<rparr>"

lemma map_fst_upd [simp]: "map fst (msg_store (upd_store s f d)) = map fst (msg_store d)"
  by (simp add: upd_store_def comp_def case_prod_beta if_distrib cong: if_cong)

lemma store_live_upd_store [simp]: "store_live (upd_store s f d) t = store_live d t"
  by (simp add: store_live_def flip: set_map)

lemma upd_store_simps [simp]: "glob (upd_store s f d) = glob d" "contexts (upd_store s f d) = contexts d"
  "subs (upd_store s f d) = subs d" "cfg (upd_store s f d) = cfg d" "ctx_of (upd_store s f d) r = ctx_of d r"
  by (simp_all add: upd_store_def ctx_of_def)

lemma set_upd_store:
  "set (msg_store (upd_store s f d)) = (\<lambda>(p, m). if p = s then (p, f m) else (p, m)) ` set (msg_store d)"
  by (simp add: upd_store_def)

lemma store_of_member:
  "distinct (map fst (msg_store d)) \<Longrightarrow> (s, m) \<in> set (msg_store d) \<Longrightarrow> store_of d s = m"
  by (simp add: store_of_def)

lemma map_of_update_key:
  "map_of (map (\<lambda>(p, m). if p = s then (p, f m) else (p, m)) xs) t
     = map_option (if t = s then f else id) (map_of xs t)"
  by (induction xs) (auto simp: option.map_id)

lemma store_of_upd_store:
  "store_of (upd_store s f d) t = (if t = s \<and> store_live d s then f (store_of d s) else store_of d t)"
proof -
  have "store_live d s \<longleftrightarrow> map_of (msg_store d) s \<noteq> None"
    by (simp add: store_live_def map_of_eq_None_iff)
  then show ?thesis
    by (auto simp: store_of_def upd_store_def map_of_update_key option.map_id split: option.splits)
qed

lemma counts_ok_upd:
  assumes "counts_ok f d" and "store_live d s" and "\<And>m. ms_ref_count (h m) = ms_ref_count m + n" and "0 \<le> f s + n"
  shows "counts_ok (f(s := f s + n)) (upd_store s h d)"
  using assms unfolding counts_ok_def map_fst_upd set_upd_store store_live_upd_store upd_store_simps
  by (auto split: if_splits)

lemma store_live_remove [simp]: "store_live (msg_store_remove s d) t \<longleftrightarrow> store_live d t \<and> t \<noteq> s"
  by (force simp: store_live_def msg_store_remove_def)

lemma counts_ok_remove:
  assumes "counts_ok f d" and "f s = 0"
  shows "counts_ok f (msg_store_remove s d)"
proof -
  have "\<forall>t. 0 < f t \<longrightarrow> store_live (msg_store_remove s d) t"
    using assms by (auto simp: counts_ok_def)
  then show ?thesis
    using assms by (simp add: counts_ok_def msg_store_remove_def distinct_map_filter)
qed

lemma counts_ok_deref:
  assumes "counts_ok f d" and "0 < f s"
  shows "counts_ok (f(s := f s - 1)) (snd (msg_store_deref s d))"
proof -
  have live: "store_live d s" using assms by (auto simp: counts_ok_def)
  let ?d = "upd_store s (\<lambda>m. m\<lparr>ms_ref_count := ms_ref_count m - 1\<rparr>) d"
  have ok: "counts_ok (f(s := f s - 1)) ?d"
    using counts_ok_upd [OF assms(1) live, of _ "- 1"] assms(2) by simp
  have "s \<in> fst ` set (msg_store ?d)"
    using live by (simp only: store_live_def [symmetric] store_live_upd_store)
  then obtain m where m: "(s, m) \<in> set (msg_store ?d)" by force
  then have cnt: "ms_ref_count (store_of ?d s) = f s - 1"
    using ok store_of_member [of ?d s m] by (auto simp: counts_ok_def)
  show ?thesis
  proof (cases "f s - 1 = 0")
    case True
    then have "snd (msg_store_deref s d) = msg_store_remove s ?d"
      using live cnt by (simp add: msg_store_deref_def Let_def)
    then show ?thesis using counts_ok_remove [OF ok, of s] True by simp
  next
    case False
    then have "snd (msg_store_deref s d) = ?d" using live cnt by (simp add: msg_store_deref_def Let_def)
    then show ?thesis using ok by simp
  qed
qed

text \<open>
  A store whose references are given back one at a time, as the clean-up loops do. \<open>ok f\<close> says
  that the counts are \<open>f\<close>; \<open>view\<close> is what giving back a reference leaves alone.
\<close>

locale ref_counted =
  fixes deref :: "'s \<Rightarrow> 'd \<Rightarrow> 'd" and ok :: "('s \<Rightarrow> int) \<Rightarrow> 'd \<Rightarrow> bool" and view :: "'d \<Rightarrow> 'v"
  assumes deref_ok: "ok f d \<Longrightarrow> 0 < f s \<Longrightarrow> ok (f(s := f s - 1)) (deref s d)"
    and deref_view: "ok f d \<Longrightarrow> 0 < f s \<Longrightarrow> view (deref s d) = view d"
begin

lemma deref_all:
  assumes "ok f d" and "\<And>s. int (count_list ss s) \<le> f s"
  shows "ok (\<lambda>s. f s - int (count_list ss s)) (fold deref ss d) \<and> view (fold deref ss d) = view d"
  using assms
proof (induction ss arbitrary: f d)
  case Nil
  then show ?case by simp
next
  case (Cons s ss)
  let ?f = "f(s := f s - 1)"
  have pos: "0 < f s" using Cons.prems(2) [of s] by simp
  have ok: "ok ?f (deref s d)" by (rule deref_ok [OF Cons.prems(1) pos])
  have "int (count_list ss t) \<le> ?f t" for t using Cons.prems(2) [of t] by (simp split: if_splits)
  from Cons.IH [OF ok this]
  have "ok (\<lambda>t. ?f t - int (count_list ss t)) (fold deref ss (deref s d))
      \<and> view (fold deref ss (deref s d)) = view d"
    using deref_view [OF Cons.prems(1) pos] by simp
  moreover have "(\<lambda>t. ?f t - int (count_list ss t)) = (\<lambda>t. f t - int (count_list (s # ss) t))"
    by (rule ext) simp
  ultimately show ?case by simp
qed

end

lemma not_store_deref: "store_live d s \<Longrightarrow> not_store (snd (msg_store_deref s d)) = not_store d"
  by (simp add: msg_store_deref_def not_store_def Let_def upd_store_def msg_store_remove_def)

interpretation store: ref_counted "\<lambda>s d. snd (msg_store_deref s d)" counts_ok not_store
proof unfold_locales
  show "counts_ok f d \<Longrightarrow> 0 < f s \<Longrightarrow> counts_ok (f(s := f s - 1)) (snd (msg_store_deref s d))" for f d s
    by (rule counts_ok_deref)
  show "counts_ok f d \<Longrightarrow> 0 < f s \<Longrightarrow> not_store (snd (msg_store_deref s d)) = not_store d" for f d s
    by (rule not_store_deref) (simp add: counts_ok_def)
qed

text \<open>Who refers to a stored message: the client queues and the retained messages.\<close>

fun tree_refs :: "store_ref \<Rightarrow> subhier list \<Rightarrow> nat" where
  "tree_refs s [] = 0"
| "tree_refs s (SubHier t ls ret ch # ns) =
     (if ret = Some s then 1 else 0) + tree_refs s ch + tree_refs s ns"

definition queue_refs :: "store_ref \<Rightarrow> ctx \<Rightarrow> nat" where
  "queue_refs s c = count_list (map cm_store (msgs c)) s"

definition total_refs :: "db \<Rightarrow> store_ref \<Rightarrow> nat" where
  "total_refs d s = (\<Sum>r \<in> dom (contexts d). queue_refs s (ctx_of d r)) + tree_refs s (subs d)"

text \<open>
  The invariant of the store. \<open>pins\<close> are the references a running operation holds on its own.
\<close>

definition store_inv :: "(store_ref \<Rightarrow> int) \<Rightarrow> db \<Rightarrow> bool" where
  "store_inv pins d \<longleftrightarrow> finite (dom (contexts d)) \<and> (\<forall>s. 0 \<le> pins s) \<and>
     counts_ok (\<lambda>s. int (total_refs d s) + pins s) d"

subsection \<open>The queue of a client\<close>

text \<open>What the loops never change in a message.\<close>

definition msg_key :: "client_msg \<Rightarrow> nat \<times> store_ref \<times> nat \<times> mosquitto_msg_direction \<times> u16" where
  "msg_key m = (cm_ptr m, cm_store m, cm_qos m, cm_direction m, cm_mid m)"

definition keys :: "ctx \<Rightarrow> (nat \<times> store_ref \<times> nat \<times> mosquitto_msg_direction \<times> u16) list" where
  "keys c = map msg_key (msgs c)"

lemma msg_key_activate [simp]: "msg_key (activate st m) = msg_key m"
  by (simp add: msg_key_def activate_def)

lemma msg_key_activate_heads [simp]: "map msg_key (activate_heads n ms) = map msg_key ms"
  by (induction ms) simp_all

text \<open>
  The counters of a queue count it, \<^verbatim>\<open>last_msg\<close> points to its last message, the addresses are
  distinct and in use, and incoming messages are QoS 2.
\<close>

definition keys_ok :: "nat \<Rightarrow> (nat \<times> store_ref \<times> nat \<times> mosquitto_msg_direction \<times> u16) list \<Rightarrow> bool" where
  "keys_ok n ks \<longleftrightarrow> distinct (map fst ks) \<and>
     (\<forall>(p, s, q, dir, mid) \<in> set ks. p < n \<and> (dir = mosq_md_in \<longrightarrow> q = 2))"

definition pos_qos :: "(nat \<times> store_ref \<times> nat \<times> mosquitto_msg_direction \<times> u16) list \<Rightarrow> nat" where
  "pos_qos ks = length (filter (\<lambda>(p, s, q, dir, mid). q > 0) ks)"

definition queue_ok :: "nat \<Rightarrow> ctx \<Rightarrow> bool" where
  "queue_ok n c \<longleftrightarrow> keys_ok n (keys c) \<and> msg_count c = int (length (keys c)) \<and>
     msg_count12 c = int (pos_qos (keys c)) \<and>
     last_msg c = (if keys c = [] then None else Some (fst (last (keys c))))"

lemma keys_Nil [simp]: "keys c = [] \<longleftrightarrow> msgs c = []"
  by (simp add: keys_def)

lemma length_keys [simp]: "length (keys c) = length (msgs c)"
  by (simp add: keys_def)

lemma keys_unlink:
  "i < length (msgs c) \<Longrightarrow> keys (unlink_msg n i c) = take i (keys c) @ drop (Suc i) (keys c)"
  by (simp add: keys_def unlink_msg_def Let_def take_map drop_map)

lemma pos_qos_append [simp]: "pos_qos (xs @ ys) = pos_qos xs + pos_qos ys"
  by (simp add: pos_qos_def)

lemma pos_qos_Cons: "pos_qos (msg_key m # ks) = (if cm_qos m > 0 then 1 else 0) + pos_qos ks"
  by (simp add: pos_qos_def msg_key_def)

lemma keys_split:
  assumes "i < length (msgs c)"
  shows "keys c = take i (keys c) @ msg_key (msgs c ! i) # drop (Suc i) (keys c)"
proof -
  have "keys c ! i = msg_key (msgs c ! i)" using assms by (simp add: keys_def)
  moreover have "keys c = take i (keys c) @ keys c ! i # drop (Suc i) (keys c)"
    by (rule id_take_nth_drop) (simp add: assms)
  ultimately show ?thesis by (simp only:)
qed

lemma queue_ok_unlink:
  assumes "queue_ok n c" and "i < length (msgs c)"
  shows "queue_ok n (unlink_msg k i c)"
proof -
  let ?a = "take i (keys c)" and ?b = "drop (Suc i) (keys c)" and ?m = "msg_key (msgs c ! i)"
  note split = keys_split [OF assms(2)] and new = keys_unlink [OF assms(2), of k]
  have "keys_ok n (?a @ ?m # ?b)" using assms(1) split by (simp add: queue_ok_def)
  then have ks: "keys_ok n (?a @ ?b)" by (auto simp: keys_ok_def)
  have "pos_qos (keys c) = pos_qos ?a + (if cm_qos (msgs c ! i) > 0 then 1 else 0) + pos_qos ?b"
    by (subst split) (simp add: pos_qos_Cons)
  then have c12: "msg_count12 (unlink_msg k i c) = int (pos_qos (?a @ ?b))"
    using assms(1) by (simp add: queue_ok_def unlink_msg_def Let_def)
  have cnt: "msg_count (unlink_msg k i c) = int (length (?a @ ?b))"
    using assms by (simp add: queue_ok_def unlink_msg_def Let_def)
  have "last_msg (unlink_msg k i c) = (if ?a @ ?b = [] then None else Some (fst (last (?a @ ?b))))"
  proof (cases "Suc i = length (msgs c)")
    case True
    then have b: "?b = []" by simp
    show ?thesis
    proof (cases "i = 0")
      case True
      then show ?thesis using b \<open>Suc i = length (msgs c)\<close> by (simp add: unlink_msg_def Let_def)
    next
      case False
      then have "?a \<noteq> []" using assms(2) by auto
      then have "last ?a = msg_key (msgs c ! (i - 1))"
        using False assms(2) last_conv_nth [of ?a] by (simp add: keys_def min_def)
      then show ?thesis using b False True assms(2) by (auto simp: unlink_msg_def Let_def msg_key_def)
    qed
  next
    case False
    then have b: "?b \<noteq> []" using assms(2) by simp
    then have "last (keys c) = last ?b" by simp
    then show ?thesis
      using assms False b by (auto simp: unlink_msg_def Let_def queue_ok_def)
  qed
  then show ?thesis
    using ks c12 cnt new by (simp add: queue_ok_def)
qed

lemma append_msg_ok:
  assumes "queue_ok n c" and "n \<le> cm_ptr m"
  shows "append_msg m c = (False, c\<lparr>msgs := msgs c @ [m], last_msg := Some (cm_ptr m)\<rparr>)"
proof (cases "msgs c = []")
  case True
  then show ?thesis using assms(1) by (simp add: queue_ok_def append_msg_def)
next
  case False
  then obtain xs x where ms: "msgs c = xs @ [x]" by (cases "msgs c" rule: rev_cases) auto
  have lm: "last_msg c = Some (cm_ptr x)" using assms(1) ms by (simp add: queue_ok_def keys_def msg_key_def)
  have "distinct (map cm_ptr (msgs c))"
    using assms(1) by (simp add: queue_ok_def keys_ok_def keys_def comp_def msg_key_def)
  then have "cm_ptr x \<notin> cm_ptr ` set xs" using ms by simp
  then have "\<forall>y \<in> set xs. cm_ptr y \<noteq> cm_ptr x" by (auto simp: image_iff)
  then have "takeWhile (\<lambda>y. cm_ptr y \<noteq> cm_ptr x) (msgs c) = xs"
    and "dropWhile (\<lambda>y. cm_ptr y \<noteq> cm_ptr x) (msgs c) = [x]"
    using ms by (simp_all add: takeWhile_append dropWhile_append)
  then show ?thesis using lm ms by (simp add: append_msg_def)
qed

subsection \<open>The invariant of the message store and the queues\<close>

text \<open>
  A disconnected context that has lost its id to a newer connection has lost its queue as well;
  its counters and \<^verbatim>\<open>last_msg\<close> are stale until it is freed.
\<close>

definition abandoned :: "ctx \<Rightarrow> bool" where
  "abandoned c \<longleftrightarrow> ctx_id c = None \<and> state c = mosq_cs_disconnected \<and> msgs c = []"

definition msgs_inv :: "(store_ref \<Rightarrow> int) \<Rightarrow> db \<Rightarrow> bool" where
  "msgs_inv pins d \<longleftrightarrow> store_inv pins d \<and>
     (\<forall>r c. contexts d r = Some c \<longrightarrow> abandoned c \<or> queue_ok (next_ptr (glob d)) c)"

definition ctx_live :: "db \<Rightarrow> ctx_ref \<Rightarrow> bool" where
  "ctx_live d r \<longleftrightarrow> contexts d r \<noteq> None"

lemma msgs_inv_cases: "msgs_inv pins d \<Longrightarrow> ctx_live d r \<Longrightarrow> abandoned (ctx_of d r) \<or> queue_ok (next_ptr (glob d)) (ctx_of d r)"
  unfolding msgs_inv_def ctx_live_def ctx_of_def by (metis option.case(2) not_None_eq)

lemma msgs_inv_queue:
  "msgs_inv pins d \<Longrightarrow> ctx_live d r \<Longrightarrow> ctx_id (ctx_of d r) \<noteq> None \<or> msgs (ctx_of d r) \<noteq> [] \<Longrightarrow>
     queue_ok (next_ptr (glob d)) (ctx_of d r)"
  using msgs_inv_cases [of pins d r] by (auto simp: abandoned_def)

lemma msgs_inv_active:
  "msgs_inv pins d \<Longrightarrow> ctx_live d r \<Longrightarrow> state (ctx_of d r) \<noteq> mosq_cs_disconnected \<Longrightarrow>
     queue_ok (next_ptr (glob d)) (ctx_of d r)"
  using msgs_inv_cases [of pins d r] by (auto simp: abandoned_def)

definition key_refs :: "store_ref \<Rightarrow> (nat \<times> store_ref \<times> nat \<times> mosquitto_msg_direction \<times> u16) list \<Rightarrow> nat" where
  "key_refs s ks = count_list (map (\<lambda>(p, t, rest). t) ks) s"

lemma queue_refs_keys: "queue_refs s c = key_refs s (keys c)"
  by (simp add: queue_refs_def key_refs_def keys_def comp_def msg_key_def)

lemma key_refs_append [simp]: "key_refs s (xs @ ys) = key_refs s xs + key_refs s ys"
  by (simp add: key_refs_def)

lemma key_refs_Nil [simp]: "key_refs s [] = 0"
  by (simp add: key_refs_def)

lemma key_refs_Cons: "key_refs s (msg_key m # ks) = (if cm_store m = s then 1 else 0) + key_refs s ks"
  by (simp add: key_refs_def msg_key_def)

lemma dom_put_ctx: "ctx_live d r \<Longrightarrow> dom (contexts (put_ctx r c d)) = dom (contexts d)"
  by (auto simp: ctx_live_def put_ctx_def)

lemma msgs_put [simp]: "msg_store (put_ctx r c d) = msg_store d" "subs (put_ctx r c d) = subs d"
  "cfg (put_ctx r c d) = cfg d"
  by (simp_all add: put_ctx_def)

lemma total_refs_put:
  assumes "finite (dom (contexts d))" and "ctx_live d r"
  shows "total_refs (put_ctx r c d) s + queue_refs s (ctx_of d r) = total_refs d s + queue_refs s c"
proof -
  have r: "r \<in> dom (contexts d)" using assms(2) by (auto simp: ctx_live_def)
  have rest: "(\<Sum>x \<in> dom (contexts d) - {r}. queue_refs s (ctx_of (put_ctx r c d) x))
      = (\<Sum>x \<in> dom (contexts d) - {r}. queue_refs s (ctx_of d x))"
    by (rule sum.cong) auto
  show ?thesis
    unfolding total_refs_def dom_put_ctx [OF assms(2)]
      sum.remove [OF assms(1) r, of "\<lambda>x. queue_refs s (ctx_of (put_ctx r c d) x)"]
      sum.remove [OF assms(1) r, of "\<lambda>x. queue_refs s (ctx_of d x)"] rest
    by simp
qed

lemma counts_ok_cong:
  "msg_store d' = msg_store d \<Longrightarrow> next_ptr (glob d') = next_ptr (glob d) \<Longrightarrow> counts_ok f d' = counts_ok f d"
  by (simp add: counts_ok_def store_live_def)

lemma queue_ok_mono: "queue_ok n c \<Longrightarrow> n \<le> n' \<Longrightarrow> queue_ok n' c"
  by (fastforce simp: queue_ok_def keys_ok_def)

text \<open>Replacing a context by one with another queue, once the store has followed.\<close>

lemma msgs_inv_put:
  assumes "msgs_inv pins d" and "ctx_live d r" and "abandoned c \<or> queue_ok (next_ptr (glob d')) c"
    and "contexts d' = contexts d" and "subs d' = subs d" and "next_ptr (glob d) \<le> next_ptr (glob d')"
    and "counts_ok (\<lambda>s. int (total_refs d s) + pins s + int (queue_refs s c) - int (queue_refs s (ctx_of d r))) d'"
  shows "msgs_inv pins (put_ctx r c d')"
proof -
  have fin: "finite (dom (contexts d'))" "ctx_live d' r" "ctx_of d' r = ctx_of d r"
    using assms by (simp_all add: msgs_inv_def store_inv_def ctx_live_def ctx_of_def)
  have "total_refs d' s = total_refs d s" for s
    using assms(4,5) by (simp add: total_refs_def ctx_of_def)
  then have new: "int (total_refs (put_ctx r c d') s) + pins s
      = int (total_refs d s) + pins s + int (queue_refs s c) - int (queue_refs s (ctx_of d r))" for s
    using total_refs_put [OF fin(1,2), of c s] fin(3) by simp
  have "counts_ok f (put_ctx r c d') = counts_ok f d'" for f
    by (rule counts_ok_cong) (simp_all add: put_ctx_def)
  then have counts: "counts_ok (\<lambda>s. int (total_refs (put_ctx r c d') s) + pins s) (put_ctx r c d')"
    unfolding new using assms(7) by blast
  have "abandoned x \<or> queue_ok (next_ptr (glob d')) x" if "contexts (put_ctx r c d') q = Some x" for q x
    using that assms(1,3,4) queue_ok_mono [OF _ assms(6)] by (auto simp: put_ctx_def msgs_inv_def split: if_splits)
  then show ?thesis
    using counts fin assms(1) dom_put_ctx [OF fin(2)] by (simp add: msgs_inv_def store_inv_def)
qed

text \<open>The common case: the keys of the queue and the store stay as they are.\<close>

lemma queue_ok_same:
  "queue_ok n c \<Longrightarrow> keys c' = keys c \<Longrightarrow> msg_count c' = msg_count c \<Longrightarrow> msg_count12 c' = msg_count12 c \<Longrightarrow>
     last_msg c' = last_msg c \<Longrightarrow> queue_ok n c'"
  by (simp add: queue_ok_def flip: keys_Nil)

definition same_queue :: "ctx \<Rightarrow> ctx \<Rightarrow> bool" where
  "same_queue c c' \<longleftrightarrow> keys c' = keys c \<and> msg_count c' = msg_count c \<and> msg_count12 c' = msg_count12 c \<and>
     last_msg c' = last_msg c \<and> (ctx_id c = None \<and> state c = mosq_cs_disconnected \<longrightarrow> ctx_id c' = None \<and> state c' = mosq_cs_disconnected)"

lemma msgs_inv_same [inv_intros]:
  assumes "msgs_inv pins d" and "ctx_live d r" and "same_queue (ctx_of d r) c"
  shows "msgs_inv pins (put_ctx r c d)"
proof (rule msgs_inv_put [OF assms(1,2)])
  show "abandoned c \<or> queue_ok (next_ptr (glob d)) c"
    using queue_ok_same [of _ "ctx_of d r" c] msgs_inv_cases [OF assms(1,2)] assms(3) keys_Nil [of c] keys_Nil [of "ctx_of d r"]
    by (auto simp: same_queue_def abandoned_def)
  show "counts_ok (\<lambda>s. int (total_refs d s) + pins s + int (queue_refs s c) - int (queue_refs s (ctx_of d r))) d"
    using assms(1,3) by (simp add: msgs_inv_def store_inv_def same_queue_def queue_refs_keys)
qed simp_all

lemma msgs_inv_abandoned:
  assumes "msgs_inv pins d" and "ctx_live d r" and "msgs (ctx_of d r) = []" and "abandoned c"
  shows "msgs_inv pins (put_ctx r c d)"
proof (rule msgs_inv_put [OF assms(1,2)])
  show "counts_ok (\<lambda>s. int (total_refs d s) + pins s + int (queue_refs s c) - int (queue_refs s (ctx_of d r))) d"
    using assms by (simp add: abandoned_def msgs_inv_def store_inv_def queue_refs_def)
qed (use assms in simp_all)

lemma ctx_live_put [simp]: "ctx_live (put_ctx q c d) r \<longleftrightarrow> ctx_live d r \<or> r = q"
  by (auto simp: ctx_live_def put_ctx_def)

lemma msgs_inv_upd [inv_intros]:
  "msgs_inv pins d \<Longrightarrow> ctx_live d r \<Longrightarrow> same_queue (ctx_of d r) (f (ctx_of d r)) \<Longrightarrow> msgs_inv pins (upd_ctx r f d)"
  by (simp add: upd_ctx_def msgs_inv_same)

lemma msgs_inv_glob:
  "msgs_inv pins d \<Longrightarrow> next_ptr g = next_ptr (glob d) \<Longrightarrow> msgs_inv pins (d\<lparr>glob := g\<rparr>)"
  by (simp add: msgs_inv_def store_inv_def total_refs_def ctx_of_def counts_ok_def store_live_def)

text \<open>Whatever is sent, the invariant stays.\<close>

lemma same_but_output_queue: "same_but_output c c' \<Longrightarrow> same_queue c c'"
  by (cases c; cases c') (simp add: same_but_output_def same_queue_def keys_def)

lemma same_but_traffic_limits: "same_but_traffic g g' \<Longrightarrow>
  next_ptr g' = next_ptr g \<and> max_inflight g' = max_inflight g \<and> max_queued g' = max_queued g \<and> now g' = now g"
  by (cases g; cases g') (simp add: same_but_traffic_def)

lemma with_ctx_cases:
  assumes "with_ctx r f d = (rc, d')"
  obtains g c where "f (glob d, ctx_of d r) = (rc, g, c)" "d' = put_ctx r c (d\<lparr>glob := g\<rparr>)"
  using assms by (auto simp: with_ctx_def split: prod.splits)

lemma msgs_inv_sends [inv_intros]:
  assumes "msgs_inv pins d" and "ctx_live d r" and "sends (glob d, ctx_of d r) (f (glob d, ctx_of d r))"
    and "with_ctx r f d = (rc, d')"
  shows "msgs_inv pins d' \<and> ctx_live d' r \<and> same_queue (ctx_of d r) (ctx_of d' r)
    \<and> msgs (ctx_of d' r) = msgs (ctx_of d r) \<and> max_inflight (glob d') = max_inflight (glob d)"
proof -
  obtain g c where f: "f (glob d, ctx_of d r) = (rc, g, c)" "d' = put_ctx r c (d\<lparr>glob := g\<rparr>)"
    by (rule with_ctx_cases [OF assms(4)])
  have out: "same_but_output (ctx_of d r) c" and tr: "same_but_traffic (glob d) g"
    using assms(3) f(1) by (simp_all add: sends_def)
  note lim = same_but_traffic_limits [OF tr] and same = same_but_output_queue [OF out]
  have "msgs_inv pins (d\<lparr>glob := g\<rparr>)" "ctx_of (d\<lparr>glob := g\<rparr>) r = ctx_of d r" "ctx_live (d\<lparr>glob := g\<rparr>) r"
    using msgs_inv_glob [OF assms(1)] lim assms(2) by (simp_all add: ctx_of_def ctx_live_def)
  then have "msgs_inv pins d'" unfolding f(2) using same by (simp add: msgs_inv_same)
  moreover have "msgs c = msgs (ctx_of d r)"
    using out by (cases "ctx_of d r"; cases c) (simp add: same_but_output_def)
  ultimately show ?thesis using same lim assms(2) f(2) by (simp add: ctx_live_def put_ctx_def ctx_of_def)
qed

text \<open>Removing a message gives its reference back.\<close>

lemma total_refs_pos:
  assumes "finite (dom (contexts d))" and "ctx_live d r" and "m \<in> set (msgs (ctx_of d r))"
  shows "0 < total_refs d (cm_store m)"
proof -
  have "0 < queue_refs (cm_store m) (ctx_of d r)"
    using assms(3) by (auto simp: queue_refs_def count_list_0_iff intro!: Nat.gr0I)
  also have "\<dots> \<le> (\<Sum>r \<in> dom (contexts d). queue_refs (cm_store m) (ctx_of d r))"
    by (rule member_le_sum) (use assms in \<open>auto simp: ctx_live_def\<close>)
  finally show ?thesis by (simp add: total_refs_def)
qed

lemma not_store_simps:
  "not_store d' = not_store d \<Longrightarrow> contexts d' = contexts d \<and> subs d' = subs d \<and> glob d' = glob d \<and> cfg d' = cfg d"
  by (cases d; cases d') (simp add: not_store_def)

lemma message_remove_inv [inv_intros]:
  assumes "msgs_inv pins d" and "ctx_live d r" and "i < length (msgs (ctx_of d r))"
  shows "msgs_inv pins (message_remove r i d)"
proof -
  let ?c = "ctx_of d r" and ?m = "msgs (ctx_of d r) ! i" and ?F = "\<lambda>s. int (total_refs d s) + pins s"
  let ?d = "snd (msg_store_deref (cm_store ?m) d)"
  have inv: "finite (dom (contexts d))" "counts_ok ?F d" "\<And>s. 0 \<le> pins s"
    using assms(1) by (simp_all add: msgs_inv_def store_inv_def)
  have pos: "0 < ?F (cm_store ?m)"
    using total_refs_pos [OF inv(1) assms(2), of ?m] assms(3) inv(3) [of "cm_store ?m"] by simp
  have frame: "contexts ?d = contexts d" "subs ?d = subs d" "glob ?d = glob d"
    using not_store_simps [OF store.deref_view [OF inv(2) pos]] by simp_all
  have keys: "int (queue_refs s (unlink_msg k i ?c)) - int (queue_refs s ?c) = (if s = cm_store ?m then - 1 else 0)" for s k
    unfolding queue_refs_keys keys_unlink [OF assms(3)]
    by (subst (2) keys_split [OF assms(3)]) (simp add: key_refs_Cons)
  have eq: "(\<lambda>s. int (total_refs d s) + pins s + int (queue_refs s (unlink_msg k i ?c)) - int (queue_refs s ?c))
      = ?F(cm_store ?m := ?F (cm_store ?m) - 1)" for k
    by (rule ext) (use keys in \<open>simp add: algebra_simps\<close>)
  have nonempty: "msgs ?c \<noteq> []" using assms(3) by auto
  have "msgs_inv pins (put_ctx r (unlink_msg (max_inflight (glob ?d)) i ?c) ?d)"
    by (rule msgs_inv_put [OF assms(1,2)])
      (use frame queue_ok_unlink [OF msgs_inv_queue [OF assms(1,2) disjI2 [OF nonempty]] assms(3)]
        counts_ok_deref [OF inv(2) pos] in \<open>simp_all add: eq\<close>)
  then show ?thesis
    using assms(3) by (simp add: message_remove_def Let_def upd_ctx_def)
qed

lemma ctx_live_deref [simp]: "ctx_live (snd (msg_store_deref s d)) r = ctx_live d r"
  by (simp add: msg_store_deref_def ctx_live_def Let_def set_fault_def msg_store_remove_def)

lemma ctx_live_message_remove [simp]: "ctx_live d r \<Longrightarrow> ctx_live (message_remove q i d) r"
  by (simp add: message_remove_def Let_def upd_ctx_def)

lemma keys_list_update:
  "msg_key (f (ms ! i)) = msg_key (ms ! i) \<Longrightarrow> map msg_key (ms[i := f (ms ! i)]) = map msg_key ms"
  using list_update_id [of "map msg_key ms" i]
  by (cases "i < length ms") (simp_all add: map_update list_update_beyond)

lemma same_queue_set:
  "msg_key (f (msgs c ! i)) = msg_key (msgs c ! i) \<Longrightarrow> same_queue c (c\<lparr>msgs := (msgs c)[i := f (msgs c ! i)]\<rparr>)"
  using keys_list_update [of f "msgs c" i] by (simp add: same_queue_def keys_def)

lemma set_msg_inv [inv_intros]:
  "msgs_inv pins d \<Longrightarrow> ctx_live d r \<Longrightarrow> (\<And>m. msg_key (f m) = msg_key m) \<Longrightarrow> msgs_inv pins (set_msg r i f d)"
  unfolding set_msg_def by (rule msgs_inv_upd) (simp_all add: same_queue_set)

lemma ctx_live_upd [simp]: "ctx_live (upd_ctx q f d) r \<longleftrightarrow> ctx_live d r \<or> r = q"
  by (simp add: upd_ctx_def)

lemma ctx_live_set_msg [simp]: "ctx_live (set_msg q i f d) r \<longleftrightarrow> ctx_live d r \<or> r = q"
  by (simp add: set_msg_def)

lemma delete_activate_inv [inv_intros]:
  "msgs_inv pins d \<Longrightarrow> ctx_live d r \<Longrightarrow> msgs_inv pins (delete_activate r i idx d) \<and> ctx_live (delete_activate r i idx d) r"
  by (auto simp: delete_activate_def msg_key_def activate_def intro!: set_msg_inv)

lemma delete_loop_inv:
  "msgs_inv pins d \<Longrightarrow> ctx_live d r \<Longrightarrow> msgs_inv pins (delete_loop r mid dir i idx deleted d)"
proof (induction r mid dir i idx deleted d rule: delete_loop.induct)
  case (1 r mid dir i idx deleted d)
  show ?case
  proof (cases "length (msgs (ctx_of d r)) \<le> i")
    case True
    then show ?thesis using "1.prems" by (simp add: delete_loop.simps [of r])
  next
    case False
    let ?d1 = "delete_activate r i (idx + 1) d"
    note d1 = delete_activate_inv [OF "1.prems", of i "idx + 1"]
    let ?d2 = "message_remove r i ?d1"
    have d2: "msgs_inv pins ?d2" "ctx_live ?d2 r"
      using message_remove_inv [of pins ?d1 r i] d1 False by simp_all
    show ?thesis
      using "1.IH"(1) [OF False refl _ refl] "1.IH"(2) [OF False refl] d1 d2 False
      by (subst delete_loop.simps) (simp add: Let_def del: delete_loop.simps)
  qed
qed

lemma message_delete_inv [inv_intros]:
  "msgs_inv pins d \<Longrightarrow> ctx_live d r \<Longrightarrow> msgs_inv pins (snd (mqtt3_db_message_delete r mid dir d))"
  by (simp add: mqtt3_db_message_delete_def delete_loop_inv)

subsection \<open>Inserting keeps the invariant\<close>

lemma keys_append: "keys (c\<lparr>msgs := msgs c @ [m], last_msg := p\<rparr>) = keys c @ [msg_key m]"
  by (simp add: keys_def)

lemma queue_ok_snoc:
  assumes "queue_ok n c" and "cm_ptr m = n" and "cm_direction m = mosq_md_in \<longrightarrow> cm_qos m = 2"
    and "keys c' = keys c @ [msg_key m]" and "msg_count c' = msg_count c + 1"
    and "msg_count12 c' = (if cm_qos m > 0 then msg_count12 c + 1 else msg_count12 c)"
    and "last_msg c' = Some (cm_ptr m)"
  shows "queue_ok (Suc n) c'"
proof -
  have "n \<notin> fst ` set (keys c)"
    using assms(1) by (fastforce simp: queue_ok_def keys_ok_def)
  moreover have "keys_ok (Suc n) (keys c)"
    using assms(1) by (fastforce simp: queue_ok_def keys_ok_def)
  ultimately have "keys_ok (Suc n) (keys c @ [msg_key m])"
    using assms(2,3) by (auto simp: keys_ok_def msg_key_def)
  then show ?thesis
    using assms length_keys [of c] length_keys [of c'] pos_qos_Cons [of m "[]"]
    by (auto simp: queue_ok_def msg_key_def pos_qos_def simp flip: keys_Nil)
qed

lemma check_lazy_bridge_queue [simp]:
  "keys (check_lazy_bridge c) = keys c" "msg_count (check_lazy_bridge c) = msg_count c"
  "msg_count12 (check_lazy_bridge c) = msg_count12 c" "last_msg (check_lazy_bridge c) = last_msg c"
  by (auto simp: check_lazy_bridge_def keys_def split: option.splits)

lemma total_refs_cong:
  "contexts d' = contexts d \<Longrightarrow> subs d' = subs d \<Longrightarrow> total_refs d' = total_refs d"
  by (rule ext) (simp add: total_refs_def ctx_of_def)

lemma msgs_inv_cong:
  "msgs_inv pins d \<Longrightarrow> contexts d' = contexts d \<Longrightarrow> subs d' = subs d \<Longrightarrow>
     next_ptr (glob d') = next_ptr (glob d) \<Longrightarrow> msg_store d' = msg_store d \<Longrightarrow> msgs_inv pins d'"
  using total_refs_cong [of d' d] by (simp add: msgs_inv_def store_inv_def counts_ok_def store_live_def)

lemma msgs_inv_upd_store:
  assumes "msgs_inv pins d" and "\<And>m. ms_ref_count (h m) = ms_ref_count m"
  shows "msgs_inv pins (upd_store s h d)"
proof -
  have "counts_ok f d \<Longrightarrow> counts_ok f (upd_store s h d)" for f
    unfolding counts_ok_def map_fst_upd set_upd_store store_live_upd_store upd_store_simps
    using assms(2) by (auto split: if_splits)
  then show ?thesis
    using assms(1) total_refs_cong [of "upd_store s h d" d] by (simp add: msgs_inv_def store_inv_def)
qed

lemma msgs_inv_fault: "msgs_inv pins d \<Longrightarrow> msgs_inv pins (set_fault d)"
  by (simp add: set_fault_def msgs_inv_glob)

lemma msgs_inv_mark_dropping [inv_intros]:
  "msgs_inv pins d \<Longrightarrow> ctx_live d r \<Longrightarrow> msgs_inv pins (mark_dropping r d)"
  unfolding mark_dropping_def
  by (rule msgs_inv_upd) (simp_all add: msgs_inv_glob same_queue_def ctx_live_def keys_def)

lemma ctx_live_mark_dropping [simp]: "ctx_live d r \<Longrightarrow> ctx_live (mark_dropping q d) r"
  by (simp add: mark_dropping_def ctx_live_def upd_ctx_def put_ctx_def)

text \<open>The database and the context just after a message was appended to a queue.\<close>

definition inserted :: "ctx_ref \<Rightarrow> client_msg \<Rightarrow> db \<Rightarrow> db" where
  "inserted r m d =
     (let d1 = upd_store (cm_store m) (\<lambda>x. x\<lparr>ms_ref_count := ms_ref_count x + 1\<rparr>) (snd (fresh_ptr d));
          c = ctx_of d r
      in put_ctx r (check_lazy_bridge (c\<lparr>msgs := msgs c @ [m], last_msg := Some (cm_ptr m),
           msg_count := msg_count c + 1,
           msg_count12 := (if cm_qos m > 0 then msg_count12 c + 1 else msg_count12 c)\<rparr>)) d1)"

lemma link_msg_inserted:
  assumes "msgs_inv pins d" and "ctx_live d r" and "store_live d s"
    and "\<And>p. cm_ptr (mk p) = p" and "\<And>p. cm_store (mk p) = s" and "ctx_id (ctx_of d r) \<noteq> None"
  shows "link_msg r s mk d = inserted r (mk (next_ptr (glob d))) d"
proof -
  let ?p = "next_ptr (glob d)"
  obtain d1 where "fresh_ptr d = (?p, d1)" "store_live d1 s" "ctx_of d1 r = ctx_of d r"
    using assms(3) by (simp add: fresh_ptr_def store_live_def ctx_of_def)
  then show ?thesis
    using append_msg_ok [OF msgs_inv_queue [OF assms(1,2) disjI1 [OF assms(6)]], of "mk ?p"] assms(4,5)
    by (simp add: link_msg_def inserted_def Let_def)
qed

lemma inserted_inv:
  assumes "msgs_inv pins d" and "ctx_live d r" and "store_live d (cm_store m)"
    and "cm_ptr m = next_ptr (glob d)" and "cm_direction m = mosq_md_in \<longrightarrow> cm_qos m = 2"
    and "ctx_id (ctx_of d r) \<noteq> None"
  shows "msgs_inv pins (inserted r m d)"
proof -
  let ?F = "\<lambda>s. int (total_refs d s) + pins s" and ?s = "cm_store m" and ?c = "ctx_of d r"
  let ?d = "upd_store ?s (\<lambda>x. x\<lparr>ms_ref_count := ms_ref_count x + 1\<rparr>) (snd (fresh_ptr d))"
  let ?c1 = "check_lazy_bridge (?c\<lparr>msgs := msgs ?c @ [m], last_msg := Some (cm_ptr m),
           msg_count := msg_count ?c + 1,
           msg_count12 := (if cm_qos m > 0 then msg_count12 ?c + 1 else msg_count12 ?c)\<rparr>)"
  have F: "counts_ok ?F d" "0 \<le> ?F ?s" using assms(1) by (simp_all add: msgs_inv_def store_inv_def)
  have live: "store_live (snd (fresh_ptr d)) ?s" using assms(3) by (simp add: store_live_def fresh_ptr_def)
  have "counts_ok ?F (snd (fresh_ptr d))"
    using F(1) by (fastforce simp: counts_ok_def fresh_ptr_def store_live_def)
  from counts_ok_upd [OF this live, of "\<lambda>x. x\<lparr>ms_ref_count := ms_ref_count x + 1\<rparr>" 1]
  have counts: "counts_ok (?F(?s := ?F ?s + 1)) ?d" using F(2) by simp
  have keys: "keys ?c1 = keys ?c @ [msg_key m]" by (simp add: keys_def check_lazy_bridge_def split: option.splits)
  have "int (queue_refs s ?c1) - int (queue_refs s ?c) = (if s = ?s then 1 else 0)" for s
    unfolding queue_refs_keys keys key_refs_append key_refs_Cons by simp
  then have eq: "(\<lambda>s. int (total_refs d s) + pins s + int (queue_refs s ?c1) - int (queue_refs s ?c)) = ?F(?s := ?F ?s + 1)"
    by (intro ext) (simp add: algebra_simps)
  have "queue_ok (Suc (next_ptr (glob d))) ?c1"
    by (rule queue_ok_snoc [OF msgs_inv_queue [OF assms(1,2) disjI1 [OF assms(6)]] assms(4,5) keys]) simp_all
  then have "msgs_inv pins (put_ctx r ?c1 ?d)"
    by (intro msgs_inv_put [OF assms(1,2)])
      (use counts in \<open>simp_all add: eq fresh_ptr_def\<close>)
  then show ?thesis by (simp add: inserted_def Let_def)
qed

lemma store_live_simps [simp]:
  "store_live (put_ctx r c d) s = store_live d s" "store_live (snd (fresh_ptr d)) s = store_live d s"
  by (simp_all add: store_live_def fresh_ptr_def)

lemma count_change_simps [simp]:
  "glob (count_change st d) = glob d" "ctx_of (count_change st d) r = ctx_of d r"
  "store_live (count_change st d) s = store_live d s" "ctx_live (count_change st d) r = ctx_live d r"
  by (simp_all add: count_change_def ctx_of_def store_live_def ctx_live_def)

lemma count_change_inv: "msgs_inv pins d \<Longrightarrow> msgs_inv pins (count_change st d)"
  unfolding count_change_def by (auto elim: msgs_inv_cong)

lemma add_dest_inv: "msgs_inv pins d \<Longrightarrow> msgs_inv pins (add_dest b cid s d)"
  by (simp add: add_dest_def msgs_inv_upd_store)

lemma insert_outcomes:
  assumes "msgs_inv pins d" and "ctx_live d r" and "store_live d s"
  obtains (nothing) rc where "mqtt3_db_message_insert r mid dir qos retain s d = (rc, d)"
    | (dropped) rc where "mqtt3_db_message_insert r mid dir qos retain s d = (rc, mark_dropping r d)"
    | (failed) rc where "mqtt3_db_message_insert r mid dir qos retain s d = (rc, set_fault d)"
        "insert_state d (ctx_of d r) dir qos = Inr (mosq_ms_invalid, rc)"
    | (linked) rc st cid where "mqtt3_db_message_insert r mid dir qos retain s d =
          (rc, add_dest (no_duplicates d dir retain) cid s
             (inserted r (new_msg mid dir qos retain s st (now (glob d)) (next_ptr (glob d))) (count_change st d)))"
        "insert_state d (ctx_of d r) dir qos = Inr (st, rc)" "st \<noteq> mosq_ms_invalid"
        "ctx_id (ctx_of d r) = Some cid"
proof (cases "ctx_id (ctx_of d r)")
  case None
  show thesis by (rule nothing) (simp add: None mqtt3_db_message_insert_def)
next
  case (Some cid)
  show thesis
  proof (cases "no_duplicates d dir retain \<and> cid \<in> set (ms_dest_ids (store_of d s))")
    case True
    show thesis by (rule nothing) (simp add: Some True mqtt3_db_message_insert_def)
  next
    case False
    show thesis
    proof (cases "insert_state d (ctx_of d r) dir qos")
      case (Inl e)
      then have "mqtt3_db_message_insert r mid dir qos retain s d = (fst e, if snd e then mark_dropping r d else d)"
        using Some False by (cases e) (auto simp: mqtt3_db_message_insert_def)
      then show thesis by (cases "snd e") (rule dropped, simp, rule nothing, simp)
    next
      case (Inr p)
      obtain st rc where p: "p = (st, rc)" by (cases p) auto
      have link: "link_msg r s (new_msg mid dir qos retain s st (now (glob d))) (count_change st d)
          = inserted r (new_msg mid dir qos retain s st (now (glob d)) (next_ptr (glob d))) (count_change st d)"
        using link_msg_inserted [OF count_change_inv [OF assms(1)], of st r s "new_msg mid dir qos retain s st (now (glob d))"]
          assms(2,3) Some by (simp add: new_msg_def)
      show thesis
      proof (cases "st = mosq_ms_invalid")
        case True
        show thesis by (rule failed) (use Some False Inr p True in \<open>auto simp: mqtt3_db_message_insert_def\<close>)
      next
        case valid: False
        then have "mqtt3_db_message_insert r mid dir qos retain s d = (rc, add_dest (no_duplicates d dir retain) cid s
             (inserted r (new_msg mid dir qos retain s st (now (glob d)) (next_ptr (glob d))) (count_change st d)))"
          using Some False Inr p link by (auto simp: mqtt3_db_message_insert_def)
        then show thesis using linked Some Inr p valid by blast
      qed
    qed
  qed
qed

lemma message_insert_inv [inv_intros]:
  assumes "msgs_inv pins d" and "ctx_live d r" and "store_live d s" and "dir = mosq_md_in \<longrightarrow> qos = 2"
  shows "msgs_inv pins (snd (mqtt3_db_message_insert r mid dir qos retain s d))"
  using assms(1-3)
proof (cases rule: insert_outcomes [where mid = mid and dir = dir and qos = qos and retain = retain])
  case (linked rc st cid)
  have named: "ctx_id (ctx_of (count_change st d) r) \<noteq> None"
    using linked(4) by simp
  have "msgs_inv pins (inserted r (new_msg mid dir qos retain s st (now (glob d)) (next_ptr (glob d))) (count_change st d))"
    by (rule inserted_inv [OF count_change_inv [OF assms(1)]]) (use assms named in \<open>simp_all add: new_msg_def\<close>)
  then show ?thesis using linked(1) by (simp add: add_dest_inv)
qed (use assms in \<open>simp_all add: msgs_inv_mark_dropping msgs_inv_fault\<close>)

subsection \<open>The other operations\<close>

lemma update_first_map:
  "update_first P f xs = Some ys \<Longrightarrow> (\<And>x. h (f x) = h x) \<Longrightarrow> map h ys = map h xs"
  by (induction xs arbitrary: ys) (auto split: if_splits)

lemma message_update_queue:
  "mqtt3_db_message_update mid dir st (g, c) = (rc, g', c') \<Longrightarrow> g' = g \<and> same_queue c c'"
  by (auto simp: mqtt3_db_message_update_def same_queue_def keys_def msg_key_def
      dest!: update_first_map [where h = msg_key] split: option.splits)

lemma message_update_inv [inv_intros]:
  assumes "msgs_inv pins d" and "ctx_live d r"
  shows "msgs_inv pins (snd (with_ctx r (mqtt3_db_message_update mid dir st) d))"
proof (cases "mqtt3_db_message_update mid dir st (glob d, ctx_of d r)")
  case (fields rc g c)
  then have "g = glob d" "same_queue (ctx_of d r) c"
    using message_update_queue by blast+
  then show ?thesis using fields assms by (simp add: with_ctx_def msgs_inv_same)
qed

lemma fold_deref_stores:
  "fold (\<lambda>m d. snd (msg_store_deref (cm_store m) d)) ms d = fold (\<lambda>s d. snd (msg_store_deref s d)) (map cm_store ms) d"
  by (induction ms arbitrary: d) simp_all

lemma queue_refs_le_total:
  "finite (dom (contexts d)) \<Longrightarrow> ctx_live d r \<Longrightarrow> queue_refs s (ctx_of d r) \<le> total_refs d s"
  unfolding total_refs_def
  by (rule trans_le_add1) (rule member_le_sum, auto simp: ctx_live_def)

lemma messages_delete_inv [inv_intros]:
  assumes "msgs_inv pins d" and "ctx_live d r"
  shows "msgs_inv pins (snd (mqtt3_db_messages_delete r d))"
proof -
  let ?c = "ctx_of d r" and ?F = "\<lambda>s. int (total_refs d s) + pins s"
  let ?d = "fold (\<lambda>s d. snd (msg_store_deref s d)) (map cm_store (msgs ?c)) d"
  let ?c1 = "?c\<lparr>msgs := [], last_msg := None, msg_count := 0, msg_count12 := 0\<rparr>"
  have inv: "finite (dom (contexts d))" "counts_ok ?F d" "\<And>s. 0 \<le> pins s"
    using assms(1) by (simp_all add: msgs_inv_def store_inv_def)
  have le: "int (count_list (map cm_store (msgs ?c)) s) \<le> ?F s" for s
    using queue_refs_le_total [OF inv(1) assms(2), of s] inv(3) [of s] by (simp add: queue_refs_def)
  note all = store.deref_all [OF inv(2), of "map cm_store (msgs ?c)", OF le]
  then have frame: "contexts ?d = contexts d" "subs ?d = subs d" "glob ?d = glob d"
    using not_store_simps [of ?d d] by simp_all
  then have cx: "ctx_of ?d r = ?c" by (simp add: ctx_of_def)
  have "msgs_inv pins (put_ctx r ?c1 ?d)"
    by (rule msgs_inv_put [OF assms])
      (use all frame in \<open>simp_all add: queue_ok_def keys_def keys_ok_def pos_qos_def queue_refs_def\<close>)
  then show ?thesis
    by (simp add: mqtt3_db_messages_delete_def fold_deref_stores upd_ctx_def cx)
qed

lemma timeout_msg_key [simp]: "msg_key (timeout_msg t th m) = msg_key m"
  by (simp add: timeout_msg_def msg_key_def)

lemma timeout_check_inv [inv_intros]:
  assumes "msgs_inv pins d" and "\<forall>(k, r) \<in> set (contexts_by_sock d). ctx_live d r"
  shows "msgs_inv pins (snd (mqtt3_db_message_timeout_check timeout d))"
proof -
  let ?h = "\<lambda>c. c\<lparr>msgs := map (timeout_msg (now (glob d)) (now (glob d) - timeout)) (msgs c)\<rparr>"
  have "msgs_inv pins (fold (\<lambda>(k, r). upd_ctx r ?h) krs e)"
    if "msgs_inv pins e" "\<forall>(k, r) \<in> set krs. ctx_live e r" for krs e
    using that
  proof (induction krs arbitrary: e)
    case (Cons kr krs)
    obtain k r where kr: "kr = (k, r)" by (cases kr)
    have "msgs_inv pins (upd_ctx r ?h e)"
      by (rule msgs_inv_upd) (use Cons.prems kr in \<open>simp_all add: same_queue_def keys_def comp_def\<close>)
    then show ?case using Cons.IH [of "upd_ctx r ?h e"] Cons.prems(2) kr by auto
  qed simp
  then show ?thesis using assms by (simp add: mqtt3_db_message_timeout_check_def)
qed

subsection \<open>Writing ends\<close>

definition write_measure :: "ctx \<Rightarrow> nat \<Rightarrow> nat" where
  "write_measure c i = 2 * (length (msgs c) - i) +
     (if i < length (msgs c) \<and> cm_state (msgs c ! i) = mosq_ms_queued then 1 else 0)"

lemma send_for_state_with:
  "send_for_state r m d = Some x \<Longrightarrow> \<exists>f. (\<forall>s. sends s (f s)) \<and> with_ctx r f d = x"
  unfolding send_for_state_def Let_def
  by (simp split: if_splits; erule subst; rule exI; rule conjI [rotated], rule refl, simp)

lemma send_for_state_sends:
  assumes "msgs_inv pins d" and "ctx_live d r" and "send_for_state r m d = Some (rc, d')"
  shows "msgs_inv pins d' \<and> ctx_live d' r \<and> msgs (ctx_of d' r) = msgs (ctx_of d r)
    \<and> max_inflight (glob d') = max_inflight (glob d)"
proof -
  obtain f where f: "\<forall>s. sends s (f s)" "with_ctx r f d = (rc, d')"
    using send_for_state_with [OF assms(3)] by auto
  then show ?thesis using msgs_inv_sends [OF assms(1,2) _ f(2)] by simp
qed

lemma incoming_qos2:
  assumes "msgs_inv pins d" and "ctx_live d r" and "m \<in> set (msgs (ctx_of d r))" and "cm_direction m = mosq_md_in"
  shows "cm_qos m = 2"
proof -
  have "msg_key m \<in> set (keys (ctx_of d r))" using assms(3) by (simp add: keys_def)
  then show ?thesis
    using msgs_inv_queue [OF assms(1,2)] assms(3,4) by (force simp: queue_ok_def keys_ok_def msg_key_def)
qed

lemma write_measure_next:
  "length (msgs c) = length (msgs c') \<Longrightarrow> i < length (msgs c') \<Longrightarrow> write_measure c (Suc i) < write_measure c' i"
  by (auto simp: write_measure_def)

lemma message_write_ends:
  assumes "msgs_inv pins d" and "ctx_live d r"
  shows "\<exists>rc d'. message_write_loop r i count d = Some (rc, d') \<and> msgs_inv pins d' \<and> ctx_live d' r"
  using assms
proof (induction "write_measure (ctx_of d r) i" arbitrary: i count d rule: less_induct)
  case less
  let ?c = "ctx_of d r"
  show ?case
  proof (cases "length (msgs ?c) \<le> i")
    case True
    then show ?thesis using less.prems by (simp add: message_write_loop.simps [of r i])
  next
    case False
    let ?m = "msgs ?c ! i" and ?n = "if cm_direction (msgs ?c ! i) = mosq_md_in then count + 1 else count"
    show ?thesis
    proof (cases "cm_state ?m = mosq_ms_queued")
      case queued: True
      show ?thesis
      proof (cases "cm_direction ?m = mosq_md_in \<and> (max_inflight (glob d) = 0 \<or> ?n < max_inflight (glob d))")
        case True
        let ?d = "set_msg r i (\<lambda>m. m\<lparr>cm_state := mosq_ms_send_pubrec\<rparr>) d"
        have "cm_qos ?m = 2" using incoming_qos2 [OF less.prems, of ?m] True False by simp
        then have run: "message_write_loop r i count d = message_write_loop r i ?n ?d"
          using False queued True by (subst message_write_loop.simps) (auto simp: Let_def)
        have "write_measure (ctx_of ?d r) i < write_measure ?c i"
          using False queued by (simp add: write_measure_def set_msg_def)
        moreover have "msgs_inv pins ?d" by (rule set_msg_inv [OF less.prems]) (simp add: msg_key_def)
        ultimately show ?thesis using less.hyps [of ?d i ?n] less.prems run by simp
      next
        case skip: False
        have "message_write_loop r i count d = message_write_loop r (Suc i) ?n d"
          using False queued skip by (subst message_write_loop.simps) (auto simp: Let_def)
        moreover have "write_measure ?c (Suc i) < write_measure ?c i"
          using False by (simp add: write_measure_next)
        ultimately show ?thesis using less.hyps [of d "Suc i" ?n] less.prems by simp
      qed
    next
      case active: False
      show ?thesis
      proof (cases "send_for_state r ?m d")
        case None
        then have "message_write_loop r i count d = message_write_loop r (Suc i) ?n d"
          using False active by (subst message_write_loop.simps) (simp add: Let_def)
        then show ?thesis using less.hyps [of d "Suc i" ?n] write_measure_next [of ?c ?c] less.prems False by simp
      next
        case (Some p)
        obtain rc d1 where p: "p = (rc, d1)" by (cases p)
        note d1 = send_for_state_sends [OF less.prems Some [unfolded p]]
        show ?thesis
        proof (cases "rc = MOSQ_ERR_SUCCESS")
          case fail: False
          then have "message_write_loop r i count d = Some (rc, d1)"
            using False active Some p by (subst message_write_loop.simps) (simp add: Let_def)
          then show ?thesis using d1 by blast
        next
          case ok: True
          have i1: "i < length (msgs (ctx_of d1 r))" using d1 False by simp
          show ?thesis
          proof (cases "cm_state ?m = mosq_ms_publish_qos0")
            case True
            let ?d = "message_remove r i d1"
            have run: "message_write_loop r i count d = message_write_loop r i ?n ?d"
              using False active Some p ok True by (subst message_write_loop.simps) (simp add: Let_def)
            have d2: "msgs_inv pins ?d" "ctx_live ?d r"
              using d1 i1 by (simp_all add: message_remove_inv)
            have "length (msgs (ctx_of ?d r)) = length (msgs ?c) - 1"
              using length_message_remove [OF i1] d1 by simp
            then have "write_measure (ctx_of ?d r) i < write_measure ?c i"
              using False active by (auto simp: write_measure_def)
            then show ?thesis using less.hyps [of ?d i ?n] d2 run by simp
          next
            case other: False
            let ?d = "set_msg r i (after_send (now (glob d))) d1"
            have run: "message_write_loop r i count d = message_write_loop r (Suc i) ?n ?d"
              using False active Some p ok other by (subst message_write_loop.simps) (simp add: Let_def)
            have "msgs_inv pins ?d"
              by (rule set_msg_inv) (use d1 in \<open>simp_all add: after_send_def msg_key_def\<close>)
            moreover have "length (msgs (ctx_of ?d r)) = length (msgs ?c)" using d1 by simp
            ultimately show ?thesis
              using less.hyps [of ?d "Suc i" ?n] write_measure_next [of "ctx_of ?d r" ?c] d1 False run by simp
          qed
        qed
      qed
    qed
  qed
qed

subsection \<open>What a reconnect does to the queue\<close>

definition reset_msg :: "client_msg \<Rightarrow> client_msg" where
  "reset_msg m = (if cm_direction m = mosq_md_out then m\<lparr>cm_state := reset_state m\<rparr> else m)"

lemma reset_msg_key [simp]: "msg_key (reset_msg m) = msg_key m"
  by (simp add: reset_msg_def msg_key_def)

lemma unqueue_key [simp]: "msg_key (unqueue m) = msg_key m"
  by (simp add: unqueue_def msg_key_def)

definition qos_count :: "client_msg list \<Rightarrow> nat" where
  "qos_count ms = length (filter (\<lambda>m. cm_qos m > 0) ms)"

lemma pos_qos_msgs: "pos_qos (map msg_key ms) = qos_count ms"
  by (induction ms) (simp_all add: pos_qos_def qos_count_def msg_key_def)

text \<open>The context after the loop has gone over the messages from position \<open>i\<close> on.\<close>

definition reset_from :: "nat \<Rightarrow> ctx \<Rightarrow> ctx" where
  "reset_from i c =
     c\<lparr>msgs := take i (msgs c) @ map reset_msg (drop i (msgs c)),
       msg_count := msg_count c + int (length (msgs c) - i),
       msg_count12 := msg_count12 c + int (qos_count (drop i (msgs c))),
       last_msg := (if i < length (msgs c) then Some (cm_ptr (last (msgs c))) else last_msg c)\<rparr>"

lemma put_ctx_same: "ctx_live d r \<Longrightarrow> put_ctx r (ctx_of d r) d = d"
  by (auto simp: put_ctx_def ctx_of_def ctx_live_def fun_upd_idem)

lemma put_ctx_twice [simp]: "put_ctx r c (put_ctx r c' d) = put_ctx r c d"
  by (simp add: put_ctx_def)

lemma reset_loop_spec:
  assumes "ctx_live d r" and "\<forall>m \<in> set (msgs (ctx_of d r)). cm_direction m = mosq_md_in \<longrightarrow> cm_qos m = 2"
  shows "reset_loop r i d = put_ctx r (reset_from i (ctx_of d r)) d"
  using assms
proof (induction "length (msgs (ctx_of d r)) - i" arbitrary: i d)
  case 0
  then have "reset_from i (ctx_of d r) = ctx_of d r"
    by (simp add: reset_from_def qos_count_def)
  then show ?case using 0 by (simp add: reset_loop.simps [of r] put_ctx_same)
next
  case (Suc k)
  let ?c = "ctx_of d r"
  let ?m = "msgs ?c ! i"
  have i: "i < length (msgs ?c)" using Suc.hyps(2) by simp
  then have mem: "?m \<in> set (msgs ?c)" by simp
  let ?c1 = "?c\<lparr>last_msg := Some (cm_ptr ?m), msg_count := msg_count ?c + 1,
    msg_count12 := (if cm_qos ?m > 0 then msg_count12 ?c + 1 else msg_count12 ?c),
    msgs := (msgs ?c)[i := reset_msg ?m]\<rparr>"
  have same: "(msgs ?c)[i := ?m] = msgs ?c" by simp
  have step: "reset_loop r i d = reset_loop r (Suc i) (put_ctx r ?c1 d)"
  proof (cases "cm_direction ?m = mosq_md_out")
    case True
    then show ?thesis
      using i by (subst reset_loop.simps) (simp add: Let_def reset_count_def upd_ctx_def set_msg_def reset_msg_def)
  next
    case False
    then have "cm_direction ?m = mosq_md_in" by (cases "cm_direction ?m") simp_all
    then have "cm_qos ?m = 2" using Suc.prems(2) mem by simp
    then show ?thesis
      using i False same
      by (subst reset_loop.simps) (simp add: Let_def reset_count_def upd_ctx_def reset_msg_def)
  qed
  have all: "\<forall>m \<in> set (msgs ?c1). cm_direction m = mosq_md_in \<longrightarrow> cm_qos m = 2"
  proof
    fix m assume "m \<in> set (msgs ?c1)"
    then have "m \<in> insert (reset_msg ?m) (set (msgs ?c))"
      using set_update_subset_insert [of "msgs ?c" i "reset_msg ?m"] by (simp add: subset_iff)
    moreover have "cm_direction (reset_msg ?m) = cm_direction ?m" "cm_qos (reset_msg ?m) = cm_qos ?m"
      by (simp_all add: reset_msg_def)
    ultimately show "cm_direction m = mosq_md_in \<longrightarrow> cm_qos m = 2"
      using Suc.prems(2) mem by (metis insertE)
  qed
  obtain c1 where c1: "c1 = ?c1" by blast
  have len: "length (msgs c1) = length (msgs ?c)" unfolding c1 by simp
  have "reset_loop r (Suc i) (put_ctx r c1 d)
      = put_ctx r (reset_from (Suc i) (ctx_of (put_ctx r c1 d) r)) (put_ctx r c1 d)"
    by (rule Suc.hyps(1)) (use len Suc.hyps(2) all c1 in simp_all)
  then have IH: "reset_loop r (Suc i) (put_ctx r c1 d) = put_ctx r (reset_from (Suc i) c1) d"
    by simp
  have d1: "drop i (msgs ?c) = ?m # drop (Suc i) (msgs ?c)" using Cons_nth_drop_Suc [OF i] by (rule sym)
  have ms: "take (Suc i) (msgs c1) @ map reset_msg (drop (Suc i) (msgs c1))
      = take i (msgs ?c) @ map reset_msg (drop i (msgs ?c))"
    using i unfolding d1 c1 by (simp add: take_Suc_conv_app_nth)
  have last: "(if Suc i < length (msgs c1) then Some (cm_ptr (last (msgs c1))) else last_msg c1)
      = Some (cm_ptr (last (msgs ?c)))"
  proof (cases "Suc i < length (msgs ?c)")
    case True
    then have "msgs ?c \<noteq> []" "i \<noteq> length (msgs ?c) - 1" by auto
    then show ?thesis using True unfolding c1 by (simp add: last_list_update)
  next
    case False
    then have "last (msgs ?c) = ?m" using i by (metis Suc_lessI diff_Suc_1 last_conv_nth list.size(3) not_less_zero)
    then show ?thesis using False unfolding c1 by simp
  qed
  have "reset_from (Suc i) c1 = reset_from i ?c"
  proof (rule ctx.equality)
    show "msgs (reset_from (Suc i) c1) = msgs (reset_from i ?c)" using ms by (simp add: reset_from_def)
    show "last_msg (reset_from (Suc i) c1) = last_msg (reset_from i ?c)" using last i by (simp add: reset_from_def)
    show "msg_count (reset_from (Suc i) c1) = msg_count (reset_from i ?c)"
      using len i by (simp add: reset_from_def c1)
    show "msg_count12 (reset_from (Suc i) c1) = msg_count12 (reset_from i ?c)"
      using len i by (simp add: reset_from_def c1 d1 qos_count_def)
  qed (simp_all add: reset_from_def c1)
  then show ?case using step IH c1 by simp
qed

lemma reset_from_0:
  assumes "queue_ok n c"
  shows "reset_from 0 (c\<lparr>msg_count := 0, msg_count12 := 0\<rparr>) = c\<lparr>msgs := map reset_msg (msgs c)\<rparr>"
proof (rule ctx.equality)
  show "last_msg (reset_from 0 (c\<lparr>msg_count := 0, msg_count12 := 0\<rparr>)) = last_msg (c\<lparr>msgs := map reset_msg (msgs c)\<rparr>)"
    using assms by (simp add: reset_from_def queue_ok_def keys_def last_map msg_key_def)
qed (use assms in \<open>simp_all add: reset_from_def queue_ok_def pos_qos_msgs keys_def\<close>)

definition reset_queue :: "int \<Rightarrow> ctx \<Rightarrow> ctx" where
  "reset_queue inflight c = c\<lparr>msgs := unqueue_prefix inflight (map reset_msg (msgs c))\<rparr>"

lemma keys_unqueue_prefix [simp]: "map msg_key (unqueue_prefix n ms) = map msg_key ms"
proof -
  have "map msg_key (map unqueue xs @ ys) = map msg_key (xs @ ys)" for xs ys
    by (simp add: comp_def)
  then show ?thesis by (simp only: unqueue_prefix_def Let_def append_take_drop_id)
qed

lemma reset_queue_same: "same_queue c (reset_queue n c)"
  by (simp add: same_queue_def reset_queue_def keys_def comp_def)

lemma reconnect_reset_queue:
  assumes "msgs_inv pins d" and "ctx_live d r" and "\<not> abandoned (ctx_of d r)"
  shows "mqtt3_db_message_reconnect_reset r d =
    (MOSQ_ERR_SUCCESS, put_ctx r (reset_queue (max_inflight (glob d)) (ctx_of d r)) d)"
proof -
  let ?d = "upd_ctx r (\<lambda>c. c\<lparr>msg_count := 0, msg_count12 := 0\<rparr>) d"
  have live: "ctx_live ?d r" using assms(2) by simp
  have q2: "\<forall>m \<in> set (msgs (ctx_of ?d r)). cm_direction m = mosq_md_in \<longrightarrow> cm_qos m = 2"
    using incoming_qos2 [OF assms(1,2)] by simp
  have "reset_loop r 0 ?d = put_ctx r ((ctx_of d r)\<lparr>msgs := map reset_msg (msgs (ctx_of d r))\<rparr>) d"
    using reset_loop_spec [OF live q2, of 0] reset_from_0 msgs_inv_cases [OF assms(1,2)] assms(3)
    by (simp add: upd_ctx_def)
  then show ?thesis
    by (simp add: mqtt3_db_message_reconnect_reset_def Let_def upd_ctx_def reset_queue_def)
qed

text \<open>Whatever the counters are before the reset, afterwards they are those of the queue.\<close>

lemma reset_any_queue:
  assumes "ctx_live d r" and "\<forall>m \<in> set (msgs (ctx_of d r)). cm_direction m = mosq_md_in \<longrightarrow> cm_qos m = 2"
  shows "mqtt3_db_message_reconnect_reset r d =
    (MOSQ_ERR_SUCCESS, put_ctx r (reset_queue (max_inflight (glob d)) ((ctx_of d r)\<lparr>
       msg_count := int (length (msgs (ctx_of d r))), msg_count12 := int (qos_count (msgs (ctx_of d r))),
       last_msg := (if msgs (ctx_of d r) = [] then last_msg (ctx_of d r) else Some (cm_ptr (last (msgs (ctx_of d r)))))\<rparr>)) d)"
proof -
  let ?d = "upd_ctx r (\<lambda>c. c\<lparr>msg_count := 0, msg_count12 := 0\<rparr>) d"
  have "reset_loop r 0 ?d = put_ctx r (reset_from 0 (ctx_of ?d r)) ?d"
    by (rule reset_loop_spec) (use assms in simp_all)
  then show ?thesis
    by (simp add: mqtt3_db_message_reconnect_reset_def Let_def upd_ctx_def reset_queue_def reset_from_def)
qed

lemma reconnect_reset_inv [inv_intros]:
  assumes "msgs_inv pins d" and "ctx_live d r"
  shows "msgs_inv pins (snd (mqtt3_db_message_reconnect_reset r d))"
proof (cases "abandoned (ctx_of d r)")
  case True
  then show ?thesis
    using reset_any_queue [OF assms(2)] assms
    by (simp add: msgs_inv_abandoned abandoned_def reset_queue_def unqueue_prefix_def)
next
  case False
  then show ?thesis using assms by (simp add: reconnect_reset_queue msgs_inv_same reset_queue_same)
qed

subsection \<open>Storing\<close>

lemma message_store_inv [inv_intros]:
  assumes "msgs_inv pins d"
    and "mqtt3_db_message_store source smid topic qos pl retain sid d = (s, d')"
  shows "msgs_inv pins d' \<and> store_live d' s \<and> s = next_ptr (glob d) \<and> contexts d' = contexts d
    \<and> ms_topic (store_of d' s) = topic \<and> ms_payload (store_of d' s) = pl \<and> ms_qos (store_of d' s) = qos"
proof -
  have inv: "counts_ok (\<lambda>t. int (total_refs d t) + pins t) d" "finite (dom (contexts d))" "\<And>t. 0 \<le> pins t"
    using assms(1) by (simp_all add: msgs_inv_def store_inv_def)
  have fresh: "s = next_ptr (glob d)" using assms(2) by (auto simp: mqtt3_db_message_store_def fresh_ptr_def Let_def)
  have gone: "\<not> store_live d s" using inv(1) fresh by (fastforce simp: counts_ok_def store_live_def)
  then have zero: "int (total_refs d s) + pins s = 0"
    using inv(1) inv(3) [of s] by (metis counts_ok_def less_le)
  have eqs: "contexts d' = contexts d" "subs d' = subs d" "next_ptr (glob d') = Suc (next_ptr (glob d))"
    and "\<exists>m. msg_store d' = (s, m) # msg_store d \<and> ms_ref_count m = 0 \<and> ms_topic m = topic \<and> ms_payload m = pl \<and> ms_qos m = qos"
    using assms(2) by (auto simp: mqtt3_db_message_store_def fresh_ptr_def Let_def msg_store_add_def)
  then obtain m where m: "msg_store d' = (s, m) # msg_store d" "ms_ref_count m = 0" "ms_topic m = topic"
    "ms_payload m = pl" "ms_qos m = qos" by blast
  have "counts_ok (\<lambda>t. int (total_refs d t) + pins t) d'"
    using inv(1) gone zero m(1,2) eqs(3) fresh by (auto simp: counts_ok_def store_live_def)
  moreover have "abandoned x \<or> queue_ok (next_ptr (glob d')) x" if "contexts d' q = Some x" for q x
    using assms(1) that queue_ok_mono [of "next_ptr (glob d)" x "next_ptr (glob d')"] by (auto simp: msgs_inv_def eqs)
  ultimately have "msgs_inv pins d'"
    using assms(1) eqs(1) total_refs_cong [OF eqs(1,2)] by (simp add: msgs_inv_def store_inv_def)
  then show ?thesis using m fresh eqs by (simp add: store_live_def store_of_def)
qed

subsection \<open>Deleting the acknowledged message\<close>

definition key_is :: "u16 \<Rightarrow> mosquitto_msg_direction \<Rightarrow> nat \<times> store_ref \<times> nat \<times> mosquitto_msg_direction \<times> u16 \<Rightarrow> bool" where
  "key_is mid dir k \<longleftrightarrow> snd (snd (snd k)) = (dir, mid)"

lemma key_is_msg [simp]: "key_is mid dir (msg_key m) \<longleftrightarrow> msg_is mid dir m"
  by (auto simp: key_is_def msg_key_def msg_is_def)

lemma keys_set_msg:
  "(\<And>m. msg_key (f m) = msg_key m) \<Longrightarrow> keys (ctx_of (set_msg r i f d) r) = keys (ctx_of d r)"
  using same_queue_set [of f "ctx_of d r" i] by (simp add: set_msg_def same_queue_def)

lemma keys_delete_activate [simp]: "keys (ctx_of (delete_activate r i idx d) r) = keys (ctx_of d r)"
proof -
  have "msg_key (activate mosq_ms_wait_for_pubrel (m\<lparr>cm_timestamp := t\<rparr>)) = msg_key m" for m t
    by (simp add: msg_key_def activate_def)
  then show ?thesis by (simp add: delete_activate_def keys_set_msg)
qed

lemma keys_message_remove:
  "i < length (msgs (ctx_of d r)) \<Longrightarrow>
     keys (ctx_of (message_remove r i d) r) = take i (keys (ctx_of d r)) @ drop (Suc i) (keys (ctx_of d r))"
  by (simp add: msgs_message_remove keys_unlink)

text \<open>With at most one match, the loop removes it, however early it stops.\<close>

lemma delete_loop_keys:
  assumes "length (filter (key_is mid dir) (drop i (keys (ctx_of d r)))) \<le> (if deleted then 0 else 1)"
  shows "keys (ctx_of (delete_loop r mid dir i idx deleted d) r)
    = take i (keys (ctx_of d r)) @ filter (\<lambda>k. \<not> key_is mid dir k) (drop i (keys (ctx_of d r)))"
  using assms
proof (induction r mid dir i idx deleted d rule: delete_loop.induct)
  case (1 r mid dir i idx deleted d)
  let ?ks = "keys (ctx_of d r)" and ?P = "\<lambda>k. \<not> key_is mid dir k"
  have none: "filter ?P ks = ks" if "filter (key_is mid dir) ks = []" for ks
    using that by (induction ks) (auto split: if_splits)
  show ?case
  proof (cases "length (msgs (ctx_of d r)) \<le> i")
    case True
    then show ?thesis by (simp add: delete_loop.simps [of r])
  next
    case False
    let ?d1 = "delete_activate r i (idx + 1) d"
    let ?m = "msgs (ctx_of ?d1 r) ! i"
    have i: "i < length ?ks" using False by simp
    have "keys (ctx_of ?d1 r) ! i = msg_key ?m" using False by (simp add: keys_def)
    then have hd: "drop i ?ks = msg_key ?m # drop (Suc i) ?ks"
      using Cons_nth_drop_Suc [OF i] by simp
    show ?thesis
    proof (cases "msg_is mid dir ?m")
      case True
      let ?d2 = "message_remove r i ?d1"
      have rest: "filter (key_is mid dir) (drop (Suc i) ?ks) = []" and nd: "\<not> deleted"
        using "1.prems" True hd by (auto split: if_splits)
      have k2: "keys (ctx_of ?d2 r) = take i ?ks @ drop (Suc i) ?ks"
        using keys_message_remove [of i ?d1 r] False by simp
      then have dr: "drop i (keys (ctx_of ?d2 r)) = drop (Suc i) ?ks" "take i (keys (ctx_of ?d2 r)) = take i ?ks"
        using i by simp_all
      have stop: "keys (ctx_of ?d2 r) = take i ?ks @ filter ?P (drop i ?ks)"
        using k2 none [OF rest] hd True by simp
      show ?thesis
      proof (cases "idx > max_inflight (glob ?d2)")
        case True
        then show ?thesis
          using stop False \<open>msg_is mid dir ?m\<close> by (subst delete_loop.simps) (simp add: Let_def)
      next
        case go: False
        have "keys (ctx_of (delete_loop r mid dir i idx True ?d2) r)
            = take i (keys (ctx_of ?d2 r)) @ filter ?P (drop i (keys (ctx_of ?d2 r)))"
          by (rule "1.IH"(1) [OF False refl True refl go]) (simp add: dr rest)
        then show ?thesis
          using stop dr none [OF rest] k2 False True go by (subst delete_loop.simps) (simp add: Let_def)
      qed
    next
      case no: False
      have cnt: "length (filter (key_is mid dir) (drop (Suc i) (keys (ctx_of ?d1 r)))) \<le> (if deleted then 0 else 1)"
        using "1.prems" hd no by simp
      have tk: "take (Suc i) ?ks = take i ?ks @ [msg_key ?m]"
        using i \<open>keys (ctx_of ?d1 r) ! i = msg_key ?m\<close> by (simp add: take_Suc_conv_app_nth)
      show ?thesis
      proof (cases "idx + 1 > max_inflight (glob ?d1) \<and> deleted")
        case True
        then have "filter (key_is mid dir) (drop i ?ks) = []" using "1.prems" by simp
        then show ?thesis
          using none True False no by (subst delete_loop.simps) (simp add: Let_def)
      next
        case go: False
        have "keys (ctx_of (delete_loop r mid dir (Suc i) (idx + 1) deleted ?d1) r)
            = take (Suc i) ?ks @ filter ?P (drop (Suc i) ?ks)"
          using "1.IH"(2) [OF False refl no go cnt] by simp
        then show ?thesis
          using False no go tk hd by (subst delete_loop.simps) (auto simp: Let_def)
      qed
    qed
  qed
qed

subsection \<open>Properties\<close>

text \<open>
  C11. The reference counts and the queues stay in step. For a broker in which every stored
  message has as many references as there are client messages and retained messages pointing
  to it (plus the pins of a running operation), the counters and \<^verbatim>\<open>last_msg\<close> of every queue
  describe its list, and incoming messages are QoS 2: inserting a live message, deleting,
  updating, emptying a queue and the reset at reconnect all keep it so. In particular no
  operation leaves a client message pointing to a freed message.
\<close>

theorem queue_operations_keep_invariant:
  assumes "msgs_inv pins d" and "ctx_live d r" and "store_live d s" and "dir = mosq_md_in \<longrightarrow> qos = 2"
  shows "msgs_inv pins (snd (mqtt3_db_message_insert r mid dir qos retain s d)) \<and>
    msgs_inv pins (snd (mqtt3_db_message_delete r mid dir d)) \<and>
    msgs_inv pins (snd (with_ctx r (mqtt3_db_message_update mid dir st) d)) \<and>
    msgs_inv pins (snd (mqtt3_db_messages_delete r d)) \<and>
    msgs_inv pins (snd (mqtt3_db_message_reconnect_reset r d))"
  using assms by (simp add: message_insert_inv message_delete_inv message_update_inv messages_delete_inv
      reconnect_reset_inv)

text \<open>
  C33. \<^verbatim>\<open>mqtt3_db_message_write\<close> ends and keeps the invariant: in a broker whose queues are in order,
  the loop over the client's messages returns, whatever the socket answers. (The C loop goes
  over a queued incoming message again until it is activated, so this rests on incoming
  messages being QoS 2.)
\<close>

theorem message_write_returns:
  assumes "msgs_inv pins d" and "ctx_live d r"
  shows "\<exists>rc d'. mqtt3_db_message_write r d = Some (rc, d') \<and> msgs_inv pins d'"
  using message_write_ends [OF assms, of 0 0] assms(1)
  by (auto simp: mqtt3_db_message_write_def Let_def)

text \<open>
  An acknowledgement removes its message and nothing else: when at most one message of the
  queue has that id and direction, deleting leaves the others in order, with their ids,
  directions, QoS and stored messages.
\<close>

theorem message_delete_removes_one:
  assumes "length (filter (msg_is mid dir) (msgs (ctx_of d r))) \<le> 1"
  shows "map msg_key (msgs (ctx_of (snd (mqtt3_db_message_delete r mid dir d)) r))
    = map msg_key (filter (\<lambda>m. \<not> msg_is mid dir m) (msgs (ctx_of d r)))"
proof -
  have f: "filter P (map msg_key ms) = map msg_key (filter (P \<circ> msg_key) ms)" for P ms
    by (simp add: filter_map)
  show ?thesis
    using delete_loop_keys [of mid dir 0 d r False 0] assms
    by (simp add: mqtt3_db_message_delete_def keys_def f comp_def)
qed

text \<open>
  Insert bounds the queue. With both limits set, a QoS 1 or 2 message is only added to a
  queue with fewer than \<open>max_inflight + max_queued\<close> such messages, so their number never
  exceeds the sum of the limits.
\<close>

theorem insert_bounds_queue:
  assumes "msgs_inv pins d" and "ctx_live d r" and "store_live d s" and "0 < qos"
    and "0 < max_inflight (glob d)" and "0 < max_queued (glob d)"
    and "msg_count12 (ctx_of d r) \<le> max_inflight (glob d) + max_queued (glob d)"
  shows "msg_count12 (ctx_of (snd (mqtt3_db_message_insert r mid dir qos retain s d)) r)
    \<le> max_inflight (glob d) + max_queued (glob d)"
  using assms(1-3)
proof (cases rule: insert_outcomes [where mid = mid and dir = dir and qos = qos and retain = retain])
  case (linked rc st cid)
  then have "msg_count12 (ctx_of d r) < max_inflight (glob d) + max_queued (glob d)"
    using assms(4-6) by (auto simp: insert_state_def insert_connected_def split: if_splits)
  then show ?thesis
    using linked(1) assms(4) by (simp add: add_dest_def inserted_def new_msg_def Let_def)
qed (use assms(7) in \<open>simp_all add: mark_dropping_def set_fault_def ctx_of_def upd_ctx_def put_ctx_def\<close>)

text \<open>
  Without \<^verbatim>\<open>allow_duplicate_messages\<close> a client gets a live publication once: after an insert
  that queued the message for the client, inserting the same stored message again, as
  overlapping subscriptions do, changes nothing.
\<close>

theorem insert_at_most_once:
  assumes "msgs_inv pins d" and "ctx_live d r" and "store_live d s"
    and "\<not> allow_duplicate_messages (cfg d)"
    and "d' = snd (mqtt3_db_message_insert r mid mosq_md_out qos False s d)"
    and "msgs (ctx_of d' r) \<noteq> msgs (ctx_of d r)"
  shows "mqtt3_db_message_insert r mid' mosq_md_out qos' False s d' = (MOSQ_ERR_SUCCESS, d')"
  using assms(1-3)
proof (cases rule: insert_outcomes [where mid = mid and dir = mosq_md_out and qos = qos and retain = False])
  case (linked rc st cid)
  have nd: "no_duplicates d mosq_md_out False" using assms(4) by (simp add: no_duplicates_def)
  have d': "d' = add_dest True cid s (inserted r (new_msg mid mosq_md_out qos False s st (now (glob d)) (next_ptr (glob d)))
      (count_change st d))"
    using linked(1) assms(5) nd by simp
  have "cfg d' = cfg d" unfolding d' by (simp add: add_dest_def inserted_def Let_def fresh_ptr_def count_change_def)
  moreover have "ctx_id (ctx_of d' r) = Some cid"
    unfolding d' using linked(4)
    by (simp add: add_dest_def inserted_def Let_def check_lazy_bridge_def split: option.splits)
  moreover have "cid \<in> set (ms_dest_ids (store_of d' s))"
  proof -
    have "store_live (inserted r (new_msg mid mosq_md_out qos False s st (now (glob d)) (next_ptr (glob d))) (count_change st d)) s"
      using assms(3) by (simp add: inserted_def Let_def)
    then show ?thesis unfolding d' by (simp add: add_dest_def store_of_upd_store)
  qed
  ultimately show ?thesis
    using assms(4) by (simp add: mqtt3_db_message_insert_def no_duplicates_def)
qed (use assms(5,6) in \<open>simp_all add: mark_dropping_def set_fault_def ctx_of_def upd_ctx_def put_ctx_def\<close>)

text \<open>
  When a client reconnects (its context has an id, so its queue is not one that was taken
  over) the queue is made ready to be sent again: in order and with nothing
  lost, every outgoing message that was not queued goes back to the state in which it is
  (re)sent, the first \<^verbatim>\<open>max_inflight\<close> queued ones are activated, and the counters still count
  the queue.
\<close>

theorem reconnect_reset_spec:
  assumes "msgs_inv pins d" and "ctx_live d r" and "ctx_id (ctx_of d r) \<noteq> None"
  shows "mqtt3_db_message_reconnect_reset r d =
    (MOSQ_ERR_SUCCESS, put_ctx r ((ctx_of d r)\<lparr>msgs :=
       unqueue_prefix (max_inflight (glob d)) (map reset_msg (msgs (ctx_of d r)))\<rparr>) d)"
  using reconnect_reset_queue [OF assms(1,2)] assms(3) by (simp add: reset_queue_def abandoned_def)

text \<open>A sample broker: one client with a message in flight and a queued one.\<close>

definition sample_msg :: "nat \<Rightarrow> u16 \<Rightarrow> nat \<Rightarrow> mosquitto_msg_direction \<Rightarrow> mosquitto_msg_state \<Rightarrow> client_msg" where
  "sample_msg p mid qos dir st = \<lparr>cm_ptr = p, cm_store = 2, cm_timestamp = 0, cm_mid = mid, cm_qos = qos,
     cm_retain = False, cm_direction = dir, cm_state = st, cm_dup = False\<rparr>"

definition sample_ctx :: ctx where
  "sample_ctx = ctx_zero\<lparr>sock := 4, ctx_id := Some ''c1'', state := mosq_cs_connected,
     msgs := [sample_msg 10 5 1 mosq_md_out mosq_ms_publish_qos1, sample_msg 11 6 2 mosq_md_in mosq_ms_queued],
     last_msg := Some 11, msg_count := 2, msg_count12 := 2\<rparr>"

definition sample_store :: msg_store where
  "sample_store = msg_store_zero\<lparr>ms_ref_count := 2, ms_topic := Some ''a'', ms_qos := 2\<rparr>"

definition sample_db :: db where
  "sample_db = (db_zero config_init)\<lparr>contexts := (\<lambda>r. None)(7 := Some sample_ctx), msg_store := [(2, sample_store)],
     msg_store_count := 1, glob := globals_init\<lparr>next_ptr := 12\<rparr>\<rparr>"

lemma sample_db_facts:
  "ctx_live sample_db 7" "ctx_of sample_db 7 = sample_ctx" "store_live sample_db 2" "glob sample_db = globals_init\<lparr>next_ptr := 12\<rparr>"
  "cfg sample_db = config_init"
  by (simp_all add: ctx_live_def sample_db_def ctx_of_def store_live_def db_zero_def)

lemma sample_db_inv: "msgs_inv (\<lambda>s. 0) sample_db"
proof -
  have st: "msg_store sample_db = [(2, sample_store)]" by (simp add: sample_db_def)
  have dom: "dom (contexts sample_db) = {7}" by (auto simp: sample_db_def split: if_splits)
  have total: "total_refs sample_db s = (if s = 2 then 2 else 0)" for s
    unfolding total_refs_def dom
    by (simp add: sample_db_facts queue_refs_def sample_ctx_def sample_msg_def)
      (simp add: sample_db_def db_zero_def)
  have "counts_ok (\<lambda>s. int (total_refs sample_db s) + 0) sample_db"
    using st by (simp add: counts_ok_def total store_live_def sample_db_facts sample_store_def msg_store_zero_def)
  moreover have "queue_ok 12 sample_ctx"
    by (simp add: queue_ok_def keys_def keys_ok_def pos_qos_def sample_ctx_def sample_msg_def msg_key_def)
  ultimately show ?thesis
    using dom by (auto simp: msgs_inv_def store_inv_def sample_db_def split: if_splits)
qed

theorem queue_operations_keep_invariant_witness:
  "msgs_inv (\<lambda>s. 0) (snd (mqtt3_db_message_insert 7 9 mosq_md_out 2 False 2 sample_db)) \<and>
   msgs_inv (\<lambda>s. 0) (snd (mqtt3_db_message_delete 7 5 mosq_md_out sample_db))"
  using queue_operations_keep_invariant [OF sample_db_inv sample_db_facts(1,3), where dir = mosq_md_out] by blast

theorem message_write_returns_witness:
  "\<exists>rc d'. mqtt3_db_message_write 7 sample_db = Some (rc, d') \<and> msgs_inv (\<lambda>s. 0) d'"
  by (rule message_write_returns [OF sample_db_inv sample_db_facts(1)])

theorem message_delete_removes_one_witness:
  "map msg_key (msgs (ctx_of (snd (mqtt3_db_message_delete 7 5 mosq_md_out sample_db)) 7))
    = [(11, 2, 2, mosq_md_in, 6)]"
  using message_delete_removes_one [of 5 mosq_md_out sample_db 7]
  by (simp add: sample_db_facts sample_ctx_def sample_msg_def msg_is_def msg_key_def)

theorem insert_bounds_queue_witness:
  "msg_count12 (ctx_of (snd (mqtt3_db_message_insert 7 9 mosq_md_out 2 False 2 sample_db)) 7) \<le> 20 + 100"
  using insert_bounds_queue [OF sample_db_inv sample_db_facts(1,3), of 2]
  by (simp add: sample_db_facts globals_init_def sample_ctx_def)

theorem insert_at_most_once_witness:
  "let d' = snd (mqtt3_db_message_insert 7 9 mosq_md_out 2 False 2 sample_db)
   in mqtt3_db_message_insert 7 10 mosq_md_out 2 False 2 d' = (MOSQ_ERR_SUCCESS, d')"
proof -
  have "length (msgs (ctx_of (snd (mqtt3_db_message_insert 7 9 mosq_md_out 2 False 2 sample_db)) 7)) = 3"
    by (simp add: mqtt3_db_message_insert_def sample_db_facts no_duplicates_def config_init_def insert_state_def
        insert_connected_def link_msg_def fresh_ptr_def count_change_def add_dest_def new_msg_def append_msg_def
        sample_ctx_def sample_msg_def check_lazy_bridge_def publish_state_def globals_init_def
        ctx_zero_def store_of_def sample_db_def sample_store_def msg_store_zero_def store_live_def Let_def ctx_of_def db_zero_def
        upd_store_def put_ctx_def)
  moreover have "length (msgs (ctx_of sample_db 7)) = 2"
    by (simp add: sample_db_facts sample_ctx_def)
  ultimately have "msgs (ctx_of (snd (mqtt3_db_message_insert 7 9 mosq_md_out 2 False 2 sample_db)) 7)
      \<noteq> msgs (ctx_of sample_db 7)" by auto
  then show ?thesis
    using insert_at_most_once [OF sample_db_inv sample_db_facts(1,3) _ refl]
    by (simp add: Let_def sample_db_facts config_init_def)
qed

theorem reconnect_reset_spec_witness:
  "map cm_state (msgs (ctx_of (snd (mqtt3_db_message_reconnect_reset 7 sample_db)) 7))
    = [mosq_ms_publish_qos1, mosq_ms_publish_qos2]"
  by (simp add: reconnect_reset_spec [OF sample_db_inv sample_db_facts(1)] sample_db_facts sample_ctx_def sample_msg_def
      globals_init_def unqueue_prefix_def unqueue_def reset_msg_def reset_state_def publish_state_def Let_def)

text \<open>
  The inflight limit is not applied when a message leaves the queue: the counter of the
  activation loop of \<^verbatim>\<open>_message_remove\<close> is never incremented, so with any positive limit
  removing the first message activates every queued message behind it.
\<close>

theorem remove_activates_whole_queue:
  assumes "msgs (ctx_of d r) = m # ms" and "0 < max_inflight (glob d)"
    and "list_all (\<lambda>x. cm_state x = mosq_ms_queued) ms"
  shows "msgs (ctx_of (message_remove r 0 d) r) = map (activate mosq_ms_send_pubrec) ms"
proof -
  have "activate_heads n ms = map (activate mosq_ms_send_pubrec) ms" if "0 < n" for n
    using assms(3) that by (induction ms) simp_all
  then show ?thesis
    using assms(1,2) by (simp add: msgs_message_remove unlink_msg_def Let_def)
qed

definition backlog_db :: db where
  "backlog_db = put_ctx 7 (sample_ctx\<lparr>msgs := [sample_msg 10 1 2 mosq_md_out mosq_ms_wait_for_pubcomp,
       sample_msg 11 2 2 mosq_md_out mosq_ms_queued, sample_msg 12 3 2 mosq_md_out mosq_ms_queued]\<rparr>)
     (mqtt3_db_limits_set 1 100 sample_db)"

theorem remove_activates_whole_queue_witness:
  "max_inflight (glob backlog_db) = 1 \<and>
   map cm_state (msgs (ctx_of (message_remove 7 0 backlog_db) 7)) = [mosq_ms_publish_qos2, mosq_ms_publish_qos2]"
proof -
  have facts: "max_inflight (glob backlog_db) = 1"
    "msgs (ctx_of backlog_db 7) = sample_msg 10 1 2 mosq_md_out mosq_ms_wait_for_pubcomp #
       [sample_msg 11 2 2 mosq_md_out mosq_ms_queued, sample_msg 12 3 2 mosq_md_out mosq_ms_queued]"
    by (simp_all add: backlog_db_def mqtt3_db_limits_set_def)
  then show ?thesis
    using remove_activates_whole_queue [OF facts(2)]
    by (simp add: sample_msg_def activate_def publish_state_def)
qed

text \<open>
  A reconnect turns a queued incoming QoS 2 message into an outgoing one: the second loop of
  \<^verbatim>\<open>mqtt3_db_message_reconnect_reset\<close> does not look at the direction, so a message the client
  itself published goes to the state in which it is sent to that client.
\<close>

theorem reconnect_publishes_incoming:
  assumes "msgs_inv pins d" and "ctx_live d r" and "i < length (msgs (ctx_of d r))"
    and "max_inflight (glob d) = 0 \<or> int i < max_inflight (glob d)"
    and "cm_direction (msgs (ctx_of d r) ! i) = mosq_md_in"
    and "cm_state (msgs (ctx_of d r) ! i) = mosq_ms_queued"
  shows "let m = msgs (ctx_of (snd (mqtt3_db_message_reconnect_reset r d)) r) ! i
    in cm_direction m = mosq_md_in \<and> cm_state m = mosq_ms_publish_qos2"
proof -
  let ?m = "msgs (ctx_of d r) ! i"
  have nonempty: "\<not> abandoned (ctx_of d r)" using assms(3) by (auto simp: abandoned_def)
  have q2: "cm_qos ?m = 2" using incoming_qos2 [OF assms(1,2)] assms(3,5) by simp
  have "unqueue_prefix (max_inflight (glob d)) (map reset_msg (msgs (ctx_of d r))) ! i = unqueue (reset_msg ?m)"
    using assms(3,4) by (auto simp: unqueue_prefix_def Let_def nth_append)
  then show ?thesis
    using assms(5,6) q2
    by (simp add: reconnect_reset_queue [OF assms(1,2) nonempty] reset_queue_def reset_msg_def unqueue_def publish_state_def)
qed

theorem reconnect_publishes_incoming_witness:
  "let m = msgs (ctx_of (snd (mqtt3_db_message_reconnect_reset 7 sample_db)) 7) ! 1
   in cm_direction m = mosq_md_in \<and> cm_state m = mosq_ms_publish_qos2"
  by (rule reconnect_publishes_incoming [OF sample_db_inv sample_db_facts(1)])
    (simp_all add: sample_db_facts sample_ctx_def sample_msg_def globals_init_def)

end
