(* ===== verification/Security.thy ===== *)
theory Security
  imports Types Topics
begin

text \<open>
  Access control and passwords: \<^verbatim>\<open>src/security_default.c\<close> and the dispatch to a plugin of
  \<^verbatim>\<open>src/security.c\<close>. A file is its contents; \<^const>\<open>None\<close> is a file that cannot be opened.
\<close>

subsection \<open>The access control lists\<close>

definition mk_acl :: "string \<Rightarrow> nat \<Rightarrow> nat \<Rightarrow> nat \<Rightarrow> acl" where
  "mk_acl topic access u c = \<lparr>acl_topic = topic, acl_access = access, acl_ucount = u, acl_ccount = c\<rparr>"

text \<open>Append to the first user of that name, or append a new user.\<close>

fun add_to_user :: "string option \<Rightarrow> acl \<Rightarrow> acl_user list \<Rightarrow> acl_user list" where
  "add_to_user user a [] = [\<lparr>au_username = user, au_acl = [a]\<rparr>]"
| "add_to_user user a (u # us) =
     (if au_username u = user then u\<lparr>au_acl := au_acl u @ [a]\<rparr> # us else u # add_to_user user a us)"

definition add_acl :: "string option \<Rightarrow> string \<Rightarrow> nat \<Rightarrow> db \<Rightarrow> rc \<times> db" where
  "add_acl user topic access d =
     (MOSQ_ERR_SUCCESS, d\<lparr>acl_list := add_to_user user (mk_acl topic access 0 0) (acl_list d)\<rparr>)"

text \<open>How often \<^verbatim>\<open>%c\<close> or \<^verbatim>\<open>%u\<close> occurs, as the \<^verbatim>\<open>strstr\<close> loops count.\<close>

fun count_subst :: "char \<Rightarrow> string \<Rightarrow> nat" where
  "count_subst x (a # b # s) =
     (if a = CHR ''%'' \<and> b = x then Suc (count_subst x s) else count_subst x (b # s))"
| "count_subst x s = 0"

definition add_acl_pattern :: "string \<Rightarrow> nat \<Rightarrow> db \<Rightarrow> rc \<times> db" where
  "add_acl_pattern topic access d =
     (MOSQ_ERR_SUCCESS,
      d\<lparr>acl_patterns := acl_patterns d
          @ [mk_acl topic access (count_subst (CHR ''u'') topic) (count_subst (CHR ''c'') topic)]\<rparr>)"

subsection \<open>Checking access\<close>

text \<open>
  The variable \<^verbatim>\<open>result\<close> of the loops keeps its value when the matcher does not write it; it
  starts out as \<^const>\<open>False\<close> here, which is what an uninitialised variable may hold.
\<close>

definition matches_into :: "string \<Rightarrow> string \<Rightarrow> bool \<Rightarrow> bool" where
  "matches_into sub topic result =
     (case snd (mosquitto_topic_matches_sub (Some sub) (Some topic)) of
        Some b \<Rightarrow> b
      | None \<Rightarrow> result)"

fun acl_loop :: "acl list \<Rightarrow> string \<Rightarrow> nat \<Rightarrow> bool \<Rightarrow> bool \<times> bool" where
  "acl_loop [] topic access result = (False, result)"
| "acl_loop (a # as) topic access result =
     (if take 1 topic = ''$'' \<and> take 1 (acl_topic a) \<noteq> ''$'' then acl_loop as topic access result
      else
        let result' = matches_into (acl_topic a) topic result
        in if result' \<and> access AND acl_access a \<noteq> 0 then (True, result')
           else acl_loop as topic access result')"

text \<open>Put the client id and the user name into a pattern.\<close>

fun expand_pattern :: "string \<Rightarrow> string option \<Rightarrow> string \<Rightarrow> string" where
  "expand_pattern cid user (a # b # s) =
     (if a = CHR ''%'' \<and> b = CHR ''c'' then cid @ expand_pattern cid user s
      else if a = CHR ''%'' \<and> b = CHR ''u'' \<and> user \<noteq> None
      then the user @ expand_pattern cid user s
      else a # expand_pattern cid user (b # s))"
| "expand_pattern cid user s = s"

text \<open>The length for which \<^verbatim>\<open>local_acl\<close> is allocated.\<close>

definition pattern_length :: "string \<Rightarrow> string option \<Rightarrow> acl \<Rightarrow> int" where
  "pattern_length cid user a =
     (let clen = int (length cid); tlen = int (length (acl_topic a))
      in case user of
           Some u \<Rightarrow> tlen + int (acl_ccount a) * (clen - 2) + int (acl_ucount a) * (int (length u) - 2)
         | None \<Rightarrow> tlen + int (acl_ccount a) * (clen - 2))"

fun pattern_loop :: "acl list \<Rightarrow> string \<Rightarrow> string option \<Rightarrow> string \<Rightarrow> nat \<Rightarrow> bool \<Rightarrow> bool" where
  "pattern_loop [] cid user topic access result = False"
| "pattern_loop (a # as) cid user topic access result =
     (if acl_ucount a > 0 \<and> user = None then pattern_loop as cid user topic access result
      else
        let result' = matches_into (expand_pattern cid user (acl_topic a)) topic result
        in if result' \<and> access AND acl_access a \<noteq> 0 then True
           else pattern_loop as cid user topic access result')"

definition mosquitto_acl_check_default :: "db \<Rightarrow> ctx \<Rightarrow> string \<Rightarrow> nat \<Rightarrow> rc" where
  "mosquitto_acl_check_default d c topic access =
     (if acl_list d = [] \<and> acl_patterns d = [] then MOSQ_ERR_SUCCESS
      else if bridge c \<noteq> None then MOSQ_ERR_SUCCESS
      else if ctx_acl_list c = None \<and> acl_patterns d = [] then MOSQ_ERR_ACL_DENIED
      else
        case acl_loop (case ctx_acl_list c of Some u \<Rightarrow> au_acl u | None \<Rightarrow> []) topic access False of
          (allowed, result) \<Rightarrow>
            if allowed then MOSQ_ERR_SUCCESS
            else if pattern_loop (acl_patterns d) (case ctx_id c of Some i \<Rightarrow> i | None \<Rightarrow> [])
                      (username c) topic access result
            then MOSQ_ERR_SUCCESS
            else MOSQ_ERR_ACL_DENIED)"

definition mosquitto_acl_check :: "db \<Rightarrow> ctx \<Rightarrow> string \<Rightarrow> nat \<Rightarrow> rc" where
  "mosquitto_acl_check d c topic access =
     (case ctx_id c of
        None \<Rightarrow> MOSQ_ERR_ACL_DENIED
      | Some cid \<Rightarrow>
          case auth_plugin d of
            None \<Rightarrow> mosquitto_acl_check_default d c topic access
          | Some pl \<Rightarrow>
              pl_acl_check pl cid
                (case bridge c of Some b \<Rightarrow> br_local_username b | None \<Rightarrow> username c) topic access)"

subsection \<open>Passwords\<close>

definition check_password :: "db \<Rightarrow> unpwd_entry \<Rightarrow> string option \<Rightarrow> rc" where
  "check_password d u pw =
     (case up_password u of
        None \<Rightarrow> MOSQ_ERR_SUCCESS
      | Some stored \<Rightarrow>
          case pw of
            None \<Rightarrow> MOSQ_ERR_AUTH
          | Some p \<Rightarrow>
              case pw_digest d p (up_salt u) of
                None \<Rightarrow> 1
              | Some hash \<Rightarrow> if hash = stored then MOSQ_ERR_SUCCESS else MOSQ_ERR_AUTH)"

definition mosquitto_unpwd_check_default :: "db \<Rightarrow> string option \<Rightarrow> string option \<Rightarrow> rc" where
  "mosquitto_unpwd_check_default d user pw =
     (if unpwd d = [] then MOSQ_ERR_SUCCESS
      else
        case user of
          None \<Rightarrow> MOSQ_ERR_INVAL
        | Some name \<Rightarrow>
            case find (\<lambda>u. up_username u = name) (unpwd d) of
              None \<Rightarrow> MOSQ_ERR_AUTH
            | Some u \<Rightarrow> check_password d u pw)"

definition mosquitto_unpwd_check :: "db \<Rightarrow> string option \<Rightarrow> string option \<Rightarrow> rc" where
  "mosquitto_unpwd_check d user pw =
     (case auth_plugin d of
        None \<Rightarrow> mosquitto_unpwd_check_default d user pw
      | Some pl \<Rightarrow> pl_unpwd_check pl user pw)"

subsection \<open>The access control file\<close>

text \<open>\<^verbatim>\<open>strtok_r\<close>: the next token and what is left for the next call.\<close>

definition strtok :: "(char \<Rightarrow> bool) \<Rightarrow> string \<Rightarrow> (string \<times> string) option" where
  "strtok delim s =
     (let s1 = dropWhile delim s
      in if s1 = [] then None
         else Some (takeWhile (\<lambda>c. \<not> delim c) s1, drop 1 (dropWhile (\<lambda>c. \<not> delim c) s1)))"

text \<open>\<^verbatim>\<open>strtok_r\<close> with no delimiters: all that is left, if anything.\<close>

definition strtok_rest :: "string \<Rightarrow> string option" where
  "strtok_rest s = (if s = [] then None else Some s)"

text \<open>\<^verbatim>\<open>fgets\<close> with a buffer of \<open>n + 1\<close> characters: up to \<open>n\<close> characters, the newline included.\<close>

definition fgets_len :: "nat \<Rightarrow> string \<Rightarrow> nat" where
  "fgets_len n s = min n (length (takeWhile (\<lambda>c. c \<noteq> CHR 0x0A) s) + 1)"

function fgets_all :: "nat \<Rightarrow> string \<Rightarrow> string list" where
  "fgets_all n s =
     (if s = [] \<or> n = 0 then []
      else take (fgets_len n s) s # fgets_all n (drop (fgets_len n s) s))"
  by pat_completeness auto
termination
  by (relation "measure (\<lambda>(n, s). length s)") (auto simp: fgets_len_def)

declare fgets_all.simps [simp del]

definition is_newline :: "char \<Rightarrow> bool" where
  "is_newline c \<longleftrightarrow> c = CHR 0x0A \<or> c = CHR 0x0D"

definition strip_newlines :: "string \<Rightarrow> string" where
  "strip_newlines s = rev (dropWhile is_newline (rev s))"

definition is_space :: "char \<Rightarrow> bool" where
  "is_space c \<longleftrightarrow> c = CHR '' ''"

fun parse_access :: "string option \<Rightarrow> nat option" where
  "parse_access None = Some 3"
| "parse_access (Some s) =
     (if s = ''read'' then Some MOSQ_ACL_READ
      else if s = ''write'' then Some MOSQ_ACL_WRITE
      else if s = ''readwrite'' then Some 3
      else None)"

text \<open>A line after \<^verbatim>\<open>topic\<close> or \<^verbatim>\<open>pattern\<close>: the access and the topic.\<close>

definition acl_rule :: "string \<Rightarrow> (rc + (nat \<times> string))" where
  "acl_rule s =
     (case strtok is_space s of
        None \<Rightarrow> Inl MOSQ_ERR_INVAL
      | Some (access_s, left) \<Rightarrow>
          (case strtok_rest left of
             Some token \<Rightarrow>
               (case parse_access (Some access_s) of
                  Some a \<Rightarrow> Inr (a, dropWhile is_space token)
                | None \<Rightarrow> Inl MOSQ_ERR_INVAL)
           | None \<Rightarrow> Inr (3, access_s)))"

definition acl_line :: "string \<Rightarrow> string option \<times> db \<Rightarrow> rc \<times> string option \<times> db" where
  "acl_line line s =
     (case s of (user, d) \<Rightarrow>
        let buf = strip_newlines line
        in if take 1 buf = ''#'' then (MOSQ_ERR_SUCCESS, user, d)
           else
             case strtok is_space buf of
               None \<Rightarrow> (MOSQ_ERR_SUCCESS, user, d)
             | Some (token, left) \<Rightarrow>
                 if token = ''topic'' \<or> token = ''pattern'' then
                   (case acl_rule left of
                      Inl e \<Rightarrow> (e, user, d)
                    | Inr (access, topic) \<Rightarrow>
                        (case (if token = ''topic'' then add_acl user topic access d
                               else add_acl_pattern topic access d) of
                           (r, d') \<Rightarrow> (r, user, d')))
                 else if token = ''user'' then
                   (case strtok_rest left of
                      Some t \<Rightarrow> (MOSQ_ERR_SUCCESS, Some (dropWhile is_space t), d)
                    | None \<Rightarrow> (1, user, d))
                 else (MOSQ_ERR_SUCCESS, user, d))"

fun acl_lines :: "string list \<Rightarrow> string option \<times> db \<Rightarrow> rc \<times> db" where
  "acl_lines [] (user, d) = (MOSQ_ERR_SUCCESS, d)"
| "acl_lines (l # ls) (user, d) =
     (case acl_line l (user, d) of
        (r, user', d') \<Rightarrow> if r \<noteq> MOSQ_ERR_SUCCESS then (r, d') else acl_lines ls (user', d'))"

text \<open>The outer option is whether an \<^verbatim>\<open>acl_file\<close> is configured, the inner one whether it opens.\<close>

definition aclfile_parse :: "string option option \<Rightarrow> db \<Rightarrow> rc \<times> db" where
  "aclfile_parse file d =
     (case file of
        None \<Rightarrow> (MOSQ_ERR_SUCCESS, d)
      | Some None \<Rightarrow> (1, d)
      | Some (Some text) \<Rightarrow> acl_lines (fgets_all 1023 text) (None, d))"

definition acl_cleanup :: "db \<Rightarrow> rc \<times> db" where
  "acl_cleanup d =
     (if acl_list d = [] then (MOSQ_ERR_SUCCESS, d)
      else (MOSQ_ERR_SUCCESS,
            (fold (\<lambda>(i, r). upd_ctx r (\<lambda>c. c\<lparr>ctx_acl_list := None\<rparr>)) (contexts_by_id d) d)
              \<lparr>acl_list := [], acl_patterns := []\<rparr>))"

subsection \<open>Password and key files\<close>

definition is_colon :: "char \<Rightarrow> bool" where
  "is_colon c \<longleftrightarrow> c = CHR '':''"

definition is_dollar :: "char \<Rightarrow> bool" where
  "is_dollar c \<longleftrightarrow> c = CHR ''$''"

text \<open>
  A line of the file. The loop that strips newlines off the user name has no test for the
  start of the string: a name made of newlines only reads before it, which is a fault.
\<close>

definition pw_line :: "string \<Rightarrow> (string \<times> string option) option" where
  "pw_line buf =
     (case strtok is_colon buf of
        None \<Rightarrow> None
      | Some (user, left) \<Rightarrow>
          Some (strip_newlines user, map_option (strip_newlines \<circ> fst) (strtok is_colon left)))"

definition pwfile_parse :: "string option \<Rightarrow> rc \<times> (string \<times> string option) list" where
  "pwfile_parse file =
     (case file of
        None \<Rightarrow> (1, [])
      | Some text \<Rightarrow> (MOSQ_ERR_SUCCESS, List.map_filter pw_line (fgets_all 255 text)))"

text \<open>
  A hashed password \<^verbatim>\<open>$6$salt$hash\<close>; base64 is OpenSSL's, a parameter. The result is the
  error, if any, the salt as far as it was decoded, and the hash. A password that is not decoded
  has \<^verbatim>\<open>password_len\<close> 0, so its bytes do not count: it is the empty list here.
\<close>

definition decode_password ::
    "(string \<Rightarrow> byte list option) \<Rightarrow> string \<Rightarrow> rc \<times> byte list \<times> byte list" where
  "decode_password b64 pw =
     (case strtok is_dollar pw of
        Some (t1, s1) \<Rightarrow>
          if t1 = ''6'' then
            (case strtok is_dollar s1 of
               Some (t2, s2) \<Rightarrow>
                 (case b64 t2 of
                    None \<Rightarrow> (MOSQ_ERR_INVAL, [], [])
                  | Some salt \<Rightarrow>
                      (case strtok is_dollar s2 of
                         Some (t3, s3) \<Rightarrow>
                           (case b64 t3 of
                              None \<Rightarrow> (MOSQ_ERR_INVAL, salt, [])
                            | Some hash \<Rightarrow> (MOSQ_ERR_SUCCESS, salt, hash))
                       | None \<Rightarrow> (MOSQ_ERR_INVAL, salt, [])))
             | None \<Rightarrow> (MOSQ_ERR_INVAL, [], []))
          else (MOSQ_ERR_INVAL, [], [])
      | None \<Rightarrow> (MOSQ_ERR_INVAL, [], []))"

definition raw_user :: "string \<times> string option \<Rightarrow> unpwd_entry" where
  "raw_user u = \<lparr>up_username = fst u, up_password = map_option (\<lambda>p. []) (snd u), up_salt = []\<rparr>"

fun decode_users :: "(string \<Rightarrow> byte list option) \<Rightarrow> (string \<times> string option) list \<Rightarrow> rc \<times> unpwd_entry list" where
  "decode_users b64 [] = (MOSQ_ERR_SUCCESS, [])"
| "decode_users b64 ((name, pw) # us) =
     (case pw of
        None \<Rightarrow> (case decode_users b64 us of (r, es) \<Rightarrow> (r, raw_user (name, pw) # es))
      | Some p \<Rightarrow>
          (case decode_password b64 p of
             (r, salt, hash) \<Rightarrow>
               let e = \<lparr>up_username = name, up_password = Some hash, up_salt = salt\<rparr>
               in if r \<noteq> MOSQ_ERR_SUCCESS then (r, e # map raw_user us)
                  else case decode_users b64 us of (r', es) \<Rightarrow> (r', e # es)))"

text \<open>The table was emptied by the clean-up before the file is read.\<close>

definition unpwd_file_parse :: "(string \<Rightarrow> byte list option) \<Rightarrow> string option option \<Rightarrow> db \<Rightarrow> rc \<times> db" where
  "unpwd_file_parse b64 file d =
     (case file of
        None \<Rightarrow> (MOSQ_ERR_SUCCESS, d)
      | Some f \<Rightarrow>
          (case pwfile_parse f of
             (r, us) \<Rightarrow>
               if r \<noteq> MOSQ_ERR_SUCCESS then (r, d)
               else case decode_users b64 us of (r', es) \<Rightarrow> (r', d\<lparr>unpwd := es\<rparr>)))"

definition unpwd_cleanup :: "db \<Rightarrow> rc \<times> db" where
  "unpwd_cleanup d = (MOSQ_ERR_SUCCESS, d\<lparr>unpwd := []\<rparr>)"

definition hex_only :: "string \<Rightarrow> bool" where
  "hex_only s \<longleftrightarrow> list_all (\<lambda>c. c \<in> set ''0123456789abcdefABCDEF'') s"

fun check_keys :: "(string \<times> string option) list \<Rightarrow> rc" where
  "check_keys [] = MOSQ_ERR_SUCCESS"
| "check_keys ((name, key) # ks) =
     (case key of
        None \<Rightarrow> MOSQ_ERR_INVAL
      | Some k \<Rightarrow> if hex_only k then check_keys ks else MOSQ_ERR_INVAL)"

definition psk_entry :: "string \<times> string option \<Rightarrow> unpwd_entry" where
  "psk_entry u = \<lparr>up_username = fst u, up_password = map_option bytes_of (snd u), up_salt = []\<rparr>"

definition psk_file_parse :: "string option option \<Rightarrow> db \<Rightarrow> rc \<times> db" where
  "psk_file_parse file d =
     (case file of
        None \<Rightarrow> (MOSQ_ERR_SUCCESS, d)
      | Some f \<Rightarrow>
          (case pwfile_parse f of
             (r, us) \<Rightarrow>
               if r \<noteq> MOSQ_ERR_SUCCESS then (r, d)
               else (check_keys us, d\<lparr>psk_id := map psk_entry us\<rparr>)))"

text \<open>The key for an identity; a null key is read through by the \<^verbatim>\<open>strncpy\<close>.\<close>

definition psk_key_get_default :: "db \<Rightarrow> string \<Rightarrow> nat \<Rightarrow> rc \<times> byte list" where
  "psk_key_get_default d identity max_key_len =
     (if psk_id d = [] then (MOSQ_ERR_AUTH, [])
      else case find (\<lambda>u. up_username u = identity) (psk_id d) of
             None \<Rightarrow> (MOSQ_ERR_AUTH, [])
           | Some u \<Rightarrow> (MOSQ_ERR_SUCCESS,
               take max_key_len (case up_password u of Some k \<Rightarrow> k | None \<Rightarrow> [])))"

text \<open>\<^verbatim>\<open>mosquitto_security_init_default\<close> and its inverse.\<close>

definition security_init_default ::
    "(string \<Rightarrow> byte list option) \<Rightarrow> string option option \<Rightarrow> string option option \<Rightarrow> string option option \<Rightarrow>
      db \<Rightarrow> rc \<times> db" where
  "security_init_default b64 pwfile aclfile pskfile d =
     (case unpwd_file_parse b64 pwfile d of
        (r1, d1) \<Rightarrow>
          if r1 \<noteq> MOSQ_ERR_SUCCESS then (r1, d1)
          else case aclfile_parse aclfile d1 of
                 (r2, d2) \<Rightarrow>
                   if r2 \<noteq> MOSQ_ERR_SUCCESS then (r2, d2) else psk_file_parse pskfile d2)"

definition security_cleanup_default :: "db \<Rightarrow> rc \<times> db" where
  "security_cleanup_default d =
     (case acl_cleanup d of
        (r1, d1) \<Rightarrow>
          if r1 \<noteq> MOSQ_ERR_SUCCESS then (r1, d1)
          else case unpwd_cleanup d1 of
                 (r2, d2) \<Rightarrow>
                   if r2 \<noteq> MOSQ_ERR_SUCCESS then (r2, d2)
                   else (MOSQ_ERR_SUCCESS, d2\<lparr>psk_id := []\<rparr>))"

subsection \<open>What a check computes\<close>

definition topic_ok :: "string \<Rightarrow> bool" where
  "topic_ok t \<longleftrightarrow> wildcard_free t \<and> nul_free t \<and> t \<noteq> []"

definition filter_ok :: "string \<Rightarrow> bool" where
  "filter_ok s \<longleftrightarrow> wildcards_ok (CHR 0x00) s \<and> s \<noteq> []"

definition filter_matches :: "string \<Rightarrow> string \<Rightarrow> bool" where
  "filter_matches s t \<longleftrightarrow> (take 1 s = ''$'' \<longleftrightarrow> take 1 t = ''$'') \<and> code_match False (levels s) (levels t)"

lemma matches_into_filter:
  assumes "filter_ok s" and "topic_ok t"
  shows "matches_into s t r = filter_matches s t"
proof -
  have "wildcards_ok (CHR 0x00) s" "wildcard_free t" "nul_free t" "t \<noteq> []"
    using assms by (simp_all add: filter_ok_def topic_ok_def)
  from matches_suffix_levels [OF this, of False] show ?thesis using assms
    by (simp add: matches_into_def mosquitto_topic_matches_sub_def filter_ok_def topic_ok_def filter_matches_def
      topic_matches_sub_suffix)
qed

definition rule_grants :: "nat \<Rightarrow> string \<Rightarrow> acl \<Rightarrow> bool" where
  "rule_grants access t a \<longleftrightarrow> access AND acl_access a \<noteq> 0 \<and> filter_matches (acl_topic a) t"

lemma acl_loop_grants:
  assumes "topic_ok t" and "\<forall>a \<in> set as. filter_ok (acl_topic a)"
  shows "fst (acl_loop as t access r) \<longleftrightarrow> (\<exists>a \<in> set as. rule_grants access t a)"
  using assms(2)
proof (induction as arbitrary: r)
  case (Cons a as)
  have m: "matches_into (acl_topic a) t r = filter_matches (acl_topic a) t"
    using Cons.prems assms(1) by (simp add: matches_into_filter)
  then show ?case
    using Cons.IH Cons.prems by (auto simp: Let_def rule_grants_def filter_matches_def)
qed simp

definition usable :: "string option \<Rightarrow> acl \<Rightarrow> bool" where
  "usable user a \<longleftrightarrow> acl_ucount a = 0 \<or> user \<noteq> None"

definition pattern_grants :: "string \<Rightarrow> string option \<Rightarrow> nat \<Rightarrow> string \<Rightarrow> acl \<Rightarrow> bool" where
  "pattern_grants cid user access t a \<longleftrightarrow>
     usable user a \<and> access AND acl_access a \<noteq> 0 \<and> filter_matches (expand_pattern cid user (acl_topic a)) t"

lemma pattern_loop_grants:
  assumes "topic_ok t" and "\<forall>a \<in> set as. usable user a \<longrightarrow> filter_ok (expand_pattern cid user (acl_topic a))"
  shows "pattern_loop as cid user t access r \<longleftrightarrow> (\<exists>a \<in> set as. pattern_grants cid user access t a)"
  using assms(2)
proof (induction as arbitrary: r)
  case (Cons a as)
  show ?case
  proof (cases "usable user a")
    case True
    then have "matches_into (expand_pattern cid user (acl_topic a)) t r
        = filter_matches (expand_pattern cid user (acl_topic a)) t"
      using Cons.prems assms(1) by (simp add: matches_into_filter)
    then show ?thesis
      using True Cons.IH Cons.prems by (auto simp: Let_def pattern_grants_def usable_def)
  next
    case False
    then show ?thesis
      using Cons.IH Cons.prems by (auto simp: pattern_grants_def usable_def)
  qed
qed simp

text \<open>The expansion fits the buffer.\<close>

lemma expand_length:
  assumes "user = None \<longrightarrow> count_subst (CHR ''u'') s = 0"
  shows "int (length (expand_pattern cid user s)) = int (length s)
    + int (count_subst (CHR ''c'') s) * (int (length cid) - 2)
    + int (count_subst (CHR ''u'') s) * (int (length (case user of Some u \<Rightarrow> u | None \<Rightarrow> [])) - 2)"
  using assms
proof (induction cid user s rule: expand_pattern.induct)
  case (1 cid user a b s)
  consider (c) "a = CHR ''%'' \<and> b = CHR ''c''" | (u) "a = CHR ''%'' \<and> b = CHR ''u''"
    | (other) "\<not> (a = CHR ''%'' \<and> (b = CHR ''c'' \<or> b = CHR ''u''))" by auto
  then show ?case
  proof cases
    case c
    then have "count_subst (CHR ''c'') (a # b # s) = Suc (count_subst (CHR ''c'') s)"
      "count_subst (CHR ''u'') (a # b # s) = count_subst (CHR ''u'') s"
      by (cases s; simp)+
    then show ?thesis using c "1.IH"(1) "1.prems" by (simp add: algebra_simps)
  next
    case u
    then have cnt: "count_subst (CHR ''u'') (a # b # s) = Suc (count_subst (CHR ''u'') s)"
      "count_subst (CHR ''c'') (a # b # s) = count_subst (CHR ''c'') s"
      by (cases s; simp)+
    then obtain v where v: "user = Some v" using "1.prems" by (cases user) auto
    then show ?thesis using u cnt "1.IH"(2) by (simp add: algebra_simps)
  next
    case other
    have cnt: "count_subst (CHR ''c'') (a # b # s) = count_subst (CHR ''c'') (b # s)"
      "count_subst (CHR ''u'') (a # b # s) = count_subst (CHR ''u'') (b # s)"
      using other by auto
    have len: "length (expand_pattern cid user (a # b # s)) = Suc (length (expand_pattern cid user (b # s)))"
      using other by auto
    have "user = None \<longrightarrow> count_subst (CHR ''u'') (b # s) = 0"
      "\<not> (a = CHR ''%'' \<and> b = CHR ''c'')" "\<not> (a = CHR ''%'' \<and> b = CHR ''u'' \<and> user \<noteq> None)"
      using other cnt "1.prems" by auto
    from "1.IH"(3) [OF this(2,3,1)] show ?thesis
      unfolding cnt len by simp
  qed
qed simp_all

subsection \<open>Properties\<close>

text \<open>
  C34. Who may do what. Once there is any rule, a client that is not a bridge gets access
  exactly when a rule of its own list, or a pattern with the client id and user name put in,
  allows the kind of access and matches the topic; patterns with \<^verbatim>\<open>%u\<close> do not apply to clients
  without a user name; everything else is denied.
\<close>

theorem acl_check_grants:
  assumes "topic_ok t" and "acl_list d \<noteq> [] \<or> acl_patterns d \<noteq> []" and "bridge c = None"
    and "ctx_id c = Some cid"
    and "rules = (case ctx_acl_list c of Some u \<Rightarrow> au_acl u | None \<Rightarrow> [])"
    and "\<forall>a \<in> set rules. filter_ok (acl_topic a)"
    and "\<forall>a \<in> set (acl_patterns d). usable (username c) a \<longrightarrow>
           filter_ok (expand_pattern cid (username c) (acl_topic a))"
  shows "mosquitto_acl_check_default d c t access =
    (if (\<exists>a \<in> set rules. rule_grants access t a) \<or>
        (\<exists>a \<in> set (acl_patterns d). pattern_grants cid (username c) access t a)
     then MOSQ_ERR_SUCCESS else MOSQ_ERR_ACL_DENIED)"
proof (cases "ctx_acl_list c = None \<and> acl_patterns d = []")
  case True
  then show ?thesis using assms(2,3,5) by (simp add: mosquitto_acl_check_default_def)
next
  case False
  have "mosquitto_acl_check_default d c t access =
      (case acl_loop rules t access False of (allowed, result) \<Rightarrow>
         if allowed then MOSQ_ERR_SUCCESS
         else if pattern_loop (acl_patterns d) cid (username c) t access result then MOSQ_ERR_SUCCESS
         else MOSQ_ERR_ACL_DENIED)"
    using False assms(2-5) by (auto simp: mosquitto_acl_check_default_def split: prod.splits)
  then show ?thesis
    using acl_loop_grants [OF assms(1,6), of access False]
      pattern_loop_grants [OF assms(1,7), of access]
    by (cases "acl_loop rules t access False") auto
qed

definition sample_acl_db :: db where
  "sample_acl_db = (db_zero config_init)\<lparr>
     acl_list := [\<lparr>au_username = None, au_acl = [mk_acl ''a/#'' MOSQ_ACL_READ 0 0]\<rparr>],
     acl_patterns := [mk_acl ''u/%u'' MOSQ_ACL_WRITE 1 0]\<rparr>"

definition sample_acl_ctx :: ctx where
  "sample_acl_ctx = ctx_zero\<lparr>ctx_id := Some ''c1'', username := Some ''joe'',
     ctx_acl_list := Some \<lparr>au_username = None, au_acl = [mk_acl ''a/#'' MOSQ_ACL_READ 0 0]\<rparr>\<rparr>"

theorem acl_check_grants_witness:
  "mosquitto_acl_check_default sample_acl_db sample_acl_ctx ''u/joe'' MOSQ_ACL_WRITE = MOSQ_ERR_SUCCESS"
  by (subst acl_check_grants [where cid = "''c1''" and rules = "[mk_acl ''a/#'' MOSQ_ACL_READ 0 0]"])
    (simp_all add: sample_acl_db_def sample_acl_ctx_def ctx_zero_def topic_ok_def wildcard_free_def nul_free_def
      filter_ok_def mk_acl_def pattern_grants_def usable_def filter_matches_def)

text \<open>
  The buffer for an expanded pattern is exactly as long as the expansion: for a pattern made
  by \<^verbatim>\<open>_add_acl_pattern\<close> and used as \<^verbatim>\<open>mosquitto_acl_check_default\<close> uses it, no byte is written
  past the end and none is left unset.
\<close>

theorem pattern_buffer_fits:
  assumes "a \<in> set (acl_patterns (snd (add_acl_pattern topic access d)))" and "a \<notin> set (acl_patterns d)"
    and "\<not> (acl_ucount a > 0 \<and> user = None)"
  shows "pattern_length cid user a = int (length (expand_pattern cid user (acl_topic a)))"
proof -
  have a: "a = mk_acl topic access (count_subst (CHR ''u'') topic) (count_subst (CHR ''c'') topic)"
    using assms(1,2) by (auto simp: add_acl_pattern_def)
  then have "user = None \<longrightarrow> count_subst (CHR ''u'') topic = 0" using assms(3) by (auto simp: mk_acl_def)
  from expand_length [OF this, of cid] show ?thesis
    using assms(3) unfolding a by (auto simp: pattern_length_def mk_acl_def Let_def split: option.splits)
qed

theorem pattern_buffer_fits_witness:
  "pattern_length ''id'' (Some ''joe'') (mk_acl ''%c/%u/%%u'' 3 2 1)
    = int (length (expand_pattern ''id'' (Some ''joe'') ''%c/%u/%%u''))"
  using pattern_buffer_fits [of "mk_acl ''%c/%u/%%u'' 3 2 1" "''%c/%u/%%u''" 3 "db_zero config_init" "Some ''joe''" "''id''"]
  by (simp add: add_acl_pattern_def db_zero_def mk_acl_def)

text \<open>
  A user name or client id is put into a pattern without any check, so wildcards in it
  widen the pattern: with the rule \<^verbatim>\<open>pattern read u/%u\<close> the user \<^verbatim>\<open>#\<close> may read every topic below
  \<^verbatim>\<open>u\<close>, and the user \<^verbatim>\<open>joe\<close> may not.
\<close>

theorem pattern_wildcard_injection:
  "let d = snd (add_acl_pattern ''u/%u'' MOSQ_ACL_READ (db_zero config_init));
       c = ctx_zero\<lparr>ctx_id := Some ''x''\<rparr>
   in mosquitto_acl_check d (c\<lparr>username := Some ''#''\<rparr>) ''u/ann/secret'' MOSQ_ACL_READ = MOSQ_ERR_SUCCESS \<and>
      mosquitto_acl_check d (c\<lparr>username := Some ''joe''\<rparr>) ''u/ann/secret'' MOSQ_ACL_READ = MOSQ_ERR_ACL_DENIED"
  by (simp add: Let_def mosquitto_acl_check_def mosquitto_acl_check_default_def add_acl_pattern_def mk_acl_def
      db_zero_def ctx_zero_def matches_into_def mosquitto_topic_matches_sub_def topic_matches_sub_suffix)

text \<open>
  Cleaning up the access lists forgets the patterns only when there is a user list: with
  patterns alone nothing is freed, so a reload adds every pattern a second time.
\<close>

theorem acl_cleanup_keeps_patterns:
  assumes "acl_list d = []"
  shows "acl_cleanup d = (MOSQ_ERR_SUCCESS, d) \<and>
    acl_patterns (snd (add_acl_pattern t access (snd (acl_cleanup (snd (add_acl_pattern t access d))))))
      = acl_patterns d @ replicate 2 (mk_acl t access (count_subst (CHR ''u'') t) (count_subst (CHR ''c'') t))"
  using assms by (simp add: acl_cleanup_def add_acl_pattern_def numeral_2_eq_2)

theorem acl_cleanup_keeps_patterns_witness:
  "acl_cleanup (db_zero config_init) = (MOSQ_ERR_SUCCESS, db_zero config_init)"
  using acl_cleanup_keeps_patterns [of "db_zero config_init"] by (simp add: db_zero_def)

end
