(* ===== verification/SubTree.thy ===== *)
theory SubTree
  imports Messages Security
begin

text \<open>
  The subscription tree, \<^verbatim>\<open>src/subs.c\<close>: subscriptions, the delivery of messages to them, and
  retained messages; and the parts of \<^verbatim>\<open>src/database.c\<close> that use the tree.

  A node is named by its path from the root. The root's children are \<open>subs\<close>. Below the root,
  the first token names the child, and all tokens, the first one included, the way from there:
  the subscription \<^verbatim>\<open>a/b\<close> has the tokens \<open>[''''; ''a''; ''b'']\<close> and its leaves are at the path
  \<open>[''''; ''''; ''a''; ''b'']\<close>. While a message is delivered the shape of the tree and its leaves
  do not change, so the search walks over the tree as it was and names nodes by their paths.
\<close>

subsection \<open>Tokens\<close>

text \<open>The loop of \<^verbatim>\<open>_sub_topic_tokenise\<close> over the indices \<open>i\<close> up to the terminating NUL.\<close>

function token_loop :: "string \<Rightarrow> nat \<Rightarrow> nat \<Rightarrow> string list" where
  "token_loop s start i =
     (if length s < i then []
      else if i = length s \<or> s ! i = CHR ''/'' then
        take (i - start) (drop start s) # token_loop s (i + 1) (i + 1)
      else token_loop s start (i + 1))"
  by pat_completeness auto
termination
  by (relation "measure (\<lambda>(s, start, i). Suc (length s) - i)") auto

declare token_loop.simps [simp del]

definition sub_topic_tokenise :: "string \<Rightarrow> string list" where
  "sub_topic_tokenise s =
     (if take 1 s \<noteq> ''$'' then [''''] else []) @
     (if take 1 s = ''/'' then '''' # token_loop s 1 1 else token_loop s 0 0)"

subsection \<open>Nodes\<close>

definition set_subs :: "subleaf list \<Rightarrow> subhier \<Rightarrow> subhier" where
  "set_subs ls h = SubHier (sh_topic h) ls (sh_retained h) (sh_children h)"

definition set_retained :: "store_ref option \<Rightarrow> subhier \<Rightarrow> subhier" where
  "set_retained r h = SubHier (sh_topic h) (sh_subs h) r (sh_children h)"

definition set_children :: "subhier list \<Rightarrow> subhier \<Rightarrow> subhier" where
  "set_children ch h = SubHier (sh_topic h) (sh_subs h) (sh_retained h) ch"

definition unused :: "subhier \<Rightarrow> bool" where
  "unused h \<longleftrightarrow> sh_subs h = [] \<and> sh_children h = [] \<and> sh_retained h = None"

lemma set_simps [simp]:
  "sh_topic (set_subs ls h) = sh_topic h" "sh_subs (set_subs ls h) = ls"
  "sh_retained (set_subs ls h) = sh_retained h" "sh_children (set_subs ls h) = sh_children h"
  "sh_topic (set_retained r h) = sh_topic h" "sh_subs (set_retained r h) = sh_subs h"
  "sh_retained (set_retained r h) = r" "sh_children (set_retained r h) = sh_children h"
  "sh_topic (set_children ch h) = sh_topic h" "sh_subs (set_children ch h) = sh_subs h"
  "sh_retained (set_children ch h) = sh_retained h" "sh_children (set_children ch h) = ch"
  by (simp_all add: set_subs_def set_retained_def set_children_def)

fun node_at :: "path \<Rightarrow> subhier list \<Rightarrow> subhier option" where
  "node_at [] hs = None"
| "node_at (t # ts) [] = None"
| "node_at (t # ts) (h # hs) =
     (if sh_topic h = t then (if ts = [] then Some h else node_at ts (sh_children h))
      else node_at (t # ts) hs)"

fun update_at :: "path \<Rightarrow> (subhier \<Rightarrow> subhier) \<Rightarrow> subhier list \<Rightarrow> subhier list" where
  "update_at [] f hs = hs"
| "update_at (t # ts) f [] = []"
| "update_at (t # ts) f (h # hs) =
     (if sh_topic h = t
      then (if ts = [] then f h else set_children (update_at ts f (sh_children h)) h) # hs
      else h # update_at (t # ts) f hs)"

fun remove_at :: "path \<Rightarrow> subhier list \<Rightarrow> subhier list" where
  "remove_at [] hs = hs"
| "remove_at (t # ts) [] = []"
| "remove_at (t # ts) (h # hs) =
     (if sh_topic h = t
      then (if ts = [] then hs else set_children (remove_at ts (sh_children h)) h # hs)
      else h # remove_at (t # ts) hs)"

definition leaves_at :: "path \<Rightarrow> db \<Rightarrow> subleaf list" where
  "leaves_at p d = (case node_at p (subs d) of Some h \<Rightarrow> sh_subs h | None \<Rightarrow> [])"

definition upd_node :: "path \<Rightarrow> (subhier \<Rightarrow> subhier) \<Rightarrow> db \<Rightarrow> db" where
  "upd_node p f d = d\<lparr>subs := update_at p f (subs d)\<rparr>"

subsection \<open>Adding and removing subscriptions\<close>

text \<open>The way down of \<^verbatim>\<open>_sub_add\<close>: a branch that is missing is put at the end of its list.\<close>

fun ensure_path :: "path \<Rightarrow> subhier list \<Rightarrow> subhier list" where
  "ensure_path [] hs = hs"
| "ensure_path (t # ts) [] = [SubHier t [] None (ensure_path ts [])]"
| "ensure_path (t # ts) (h # hs) =
     (if sh_topic h = t then set_children (ensure_path ts (sh_children h)) h # hs
      else h # ensure_path (t # ts) hs)"

text \<open>A free slot of the client's list of subscriptions, or a new one.\<close>

fun add_slot :: "path \<Rightarrow> path option list \<Rightarrow> path option list" where
  "add_slot p [] = [Some p]"
| "add_slot p (None # ss) = Some p # ss"
| "add_slot p (Some q # ss) = Some q # add_slot p ss"

fun clear_slot :: "path \<Rightarrow> path option list \<Rightarrow> path option list" where
  "clear_slot p [] = []"
| "clear_slot p (s # ss) = (if s = Some p then None # ss else s # clear_slot p ss)"

fun set_leaf_qos :: "(ctx_ref \<Rightarrow> bool) \<Rightarrow> nat \<Rightarrow> subleaf list \<Rightarrow> subleaf list option" where
  "set_leaf_qos P qos [] = None"
| "set_leaf_qos P qos (l # ls) =
     (if P (lf_context l) then Some (l\<lparr>lf_qos := qos\<rparr> # ls) else map_option ((#) l) (set_leaf_qos P qos ls))"

text \<open>The end of \<^verbatim>\<open>_sub_add\<close>, at the node itself.\<close>

definition sub_add_leaf :: "ctx_ref option \<Rightarrow> nat \<Rightarrow> path \<Rightarrow> db \<Rightarrow> rc \<times> db" where
  "sub_add_leaf ro qos p d =
     (case ro of
        None \<Rightarrow> (MOSQ_ERR_SUCCESS, d)
      | Some r \<Rightarrow>
          case ctx_id (ctx_of d r) of
            None \<Rightarrow> (MOSQ_ERR_SUCCESS, d)
          | Some cid \<Rightarrow>
              case set_leaf_qos (\<lambda>c. ctx_id (ctx_of d c) = Some cid) qos (leaves_at p d) of
                Some ls \<Rightarrow>
                  (if protocol (ctx_of d r) = mosq_p_mqtt31 then - 1 else 0, upd_node p (set_subs ls) d)
              | None \<Rightarrow>
                  (MOSQ_ERR_SUCCESS,
                   (upd_ctx r (\<lambda>c. c\<lparr>ctx_subs := add_slot p (ctx_subs c)\<rparr>)
                     (upd_node p (\<lambda>h. set_subs (sh_subs h @ [\<lparr>lf_context = r, lf_qos = qos\<rparr>]) h) d))
                   \<lparr>subscription_count := subscription_count d + 1\<rparr>))"

definition sub_add :: "ctx_ref option \<Rightarrow> nat \<Rightarrow> path \<Rightarrow> db \<Rightarrow> rc \<times> db" where
  "sub_add ro qos p d = sub_add_leaf ro qos p (d\<lparr>subs := ensure_path p (subs d)\<rparr>)"

definition has_child :: "string \<Rightarrow> subhier list \<Rightarrow> bool" where
  "has_child t hs \<longleftrightarrow> list_ex (\<lambda>h. sh_topic h = t) hs"

definition mqtt3_sub_add :: "ctx_ref \<Rightarrow> string \<Rightarrow> nat \<Rightarrow> db \<Rightarrow> rc \<times> db" where
  "mqtt3_sub_add r sub qos d =
     (let tokens = sub_topic_tokenise sub;
          d1 = (if has_child (hd tokens) (subs d) then d
                else d\<lparr>subs := SubHier (hd tokens) [] None [] # subs d\<rparr>)
      in case sub_add (Some r) qos (hd tokens # tokens) d1 of
           (rc, d2) \<Rightarrow> (if rc = - 1 then MOSQ_ERR_SUCCESS else rc, d2))"

text \<open>The end of \<^verbatim>\<open>_sub_remove\<close>, at the node itself.\<close>

definition is_leaf_of :: "ctx_ref \<Rightarrow> subleaf \<Rightarrow> bool" where
  "is_leaf_of r l \<longleftrightarrow> lf_context l = r"

fun remove_first :: "('a \<Rightarrow> bool) \<Rightarrow> 'a list \<Rightarrow> 'a list" where
  "remove_first P [] = []"
| "remove_first P (x # xs) = (if P x then xs else x # remove_first P xs)"

definition sub_remove_leaf :: "ctx_ref \<Rightarrow> path \<Rightarrow> db \<Rightarrow> db" where
  "sub_remove_leaf r p d =
     (if list_ex (is_leaf_of r) (leaves_at p d)
      then upd_ctx r (\<lambda>c. c\<lparr>ctx_subs := clear_slot p (ctx_subs c)\<rparr>)
             ((upd_node p (\<lambda>h. set_subs (remove_first (is_leaf_of r) (sh_subs h)) h) d)
               \<lparr>subscription_count := subscription_count d - 1\<rparr>)
      else d)"

text \<open>The way back up of \<^verbatim>\<open>_sub_remove\<close>: branches that are no longer used are removed.\<close>

fun prune_path :: "path \<Rightarrow> subhier list \<Rightarrow> subhier list" where
  "prune_path [] hs = hs"
| "prune_path (t # ts) [] = []"
| "prune_path (t # ts) (h # hs) =
     (if sh_topic h = t then
        (let h' = set_children (prune_path ts (sh_children h)) h
         in if unused h' then hs else h' # hs)
      else h # prune_path (t # ts) hs)"

definition mqtt3_sub_remove :: "ctx_ref \<Rightarrow> string \<Rightarrow> db \<Rightarrow> rc \<times> db" where
  "mqtt3_sub_remove r sub d =
     (let tokens = sub_topic_tokenise sub
      in if has_child (hd tokens) (subs d) then
           let d1 = sub_remove_leaf r (hd tokens # tokens) d
           in (MOSQ_ERR_SUCCESS,
               upd_node [hd tokens] (\<lambda>h. set_children (prune_path tokens (sh_children h)) h) d1)
         else (MOSQ_ERR_SUCCESS, d))"

subsection \<open>Delivering a message\<close>

definition mosquitto_mid_generate :: "ctx \<Rightarrow> u16 \<times> ctx" where
  "mosquitto_mid_generate c =
     (let m = last_mid c + 1; m' = (if m = 0 then m + 1 else m) in (m', c\<lparr>last_mid := m'\<rparr>))"

definition mid_generate :: "ctx_ref \<Rightarrow> db \<Rightarrow> u16 \<times> db" where
  "mid_generate r d = (case mosquitto_mid_generate (ctx_of d r) of (m, c) \<Rightarrow> (m, put_ctx r c d))"

text \<open>A message id for a message that is acknowledged, 0 for QoS 0.\<close>

definition mid_for :: "ctx_ref \<Rightarrow> nat \<Rightarrow> db \<Rightarrow> u16 \<times> db" where
  "mid_for r qos d = (if qos \<noteq> 0 then mid_generate r d else (0, d))"

text \<open>The first part of \<^verbatim>\<open>_subs_process\<close>: the retained message of the node.\<close>

definition release_retained :: "path \<Rightarrow> db \<Rightarrow> db" where
  "release_retained p d =
     (case node_at p (subs d) of
        Some h \<Rightarrow>
          (case sh_retained h of
             Some old \<Rightarrow>
               (case msg_store_deref old d of
                  (r, d1) \<Rightarrow> (upd_node p (set_retained r) d1)\<lparr>retained_count := retained_count d1 - 1\<rparr>)
           | None \<Rightarrow> d)
      | None \<Rightarrow> d)"

definition take_retained :: "path \<Rightarrow> store_ref \<Rightarrow> db \<Rightarrow> db" where
  "take_retained p s d =
     (if ms_payload (store_of d s) \<noteq> []
      then (upd_store s (\<lambda>m. m\<lparr>ms_ref_count := ms_ref_count m + 1\<rparr>)
             (upd_node p (set_retained (Some s)) d))\<lparr>retained_count := retained_count d + 1\<rparr>
      else upd_node p (set_retained None) d)"

definition retain_at :: "path \<Rightarrow> string \<Rightarrow> store_ref \<Rightarrow> db \<Rightarrow> db" where
  "retain_at p topic s d =
     take_retained p s (release_retained p
       (if take 4 topic \<noteq> ''$SYS''
        then d\<lparr>persistence_changes := persistence_changes d + 1\<rparr> else d))"

definition out_qos :: "config \<Rightarrow> nat \<Rightarrow> nat \<Rightarrow> nat" where
  "out_qos cf msg_qos client_qos =
     (if upgrade_outgoing_qos cf then client_qos
      else if msg_qos > client_qos then client_qos else msg_qos)"

text \<open>One subscriber that may read the topic.\<close>

definition deliver_to :: "subleaf \<Rightarrow> nat \<Rightarrow> bool \<Rightarrow> store_ref \<Rightarrow> db \<Rightarrow> rc \<times> db" where
  "deliver_to l qos retain s d =
     (let r = lf_context l; q = out_qos (cfg d) qos (lf_qos l)
      in case mid_for r q d of
           (mid, d1) \<Rightarrow>
             mqtt3_db_message_insert r mid mosq_md_out q (is_bridge (ctx_of d1 r) \<and> retain) s d1)"

fun leaf_loop ::
    "subleaf list \<Rightarrow> string \<Rightarrow> string \<Rightarrow> nat \<Rightarrow> bool \<Rightarrow> store_ref \<Rightarrow> rc \<Rightarrow> db \<Rightarrow> rc \<times> db" where
  "leaf_loop [] source_id topic qos retain s rc d = (rc, d)"
| "leaf_loop (l # ls) source_id topic qos retain s rc d =
     (let c = ctx_of d (lf_context l)
      in if ctx_id c = None \<or> is_bridge c \<and> ctx_id c = Some source_id
         then leaf_loop ls source_id topic qos retain s rc d
         else
           let rc2 = mosquitto_acl_check d c topic MOSQ_ACL_READ
           in if rc2 = MOSQ_ERR_ACL_DENIED then leaf_loop ls source_id topic qos retain s rc d
              else if rc2 = MOSQ_ERR_SUCCESS then
                (case deliver_to l qos retain s d of
                   (r, d1) \<Rightarrow> leaf_loop ls source_id topic qos retain s (if r = 1 then 1 else rc) d1)
              else (1, d))"

definition subs_process ::
    "path \<Rightarrow> subleaf list \<Rightarrow> string \<Rightarrow> string \<Rightarrow> nat \<Rightarrow> bool \<Rightarrow> store_ref \<Rightarrow> bool \<Rightarrow> db \<Rightarrow> rc \<times> db" where
  "subs_process p ls source_id topic qos retain s set_retain d =
     leaf_loop ls source_id topic qos retain s 0
       (if retain \<and> set_retain then retain_at p topic s d else d)"

text \<open>
  The search: \<open>hs\<close> are the branches still to look at, below the node with path \<open>p\<close>. The
  function \<open>proc\<close> is what is done at a matching node, \<^verbatim>\<open>_subs_process\<close> with the arguments that
  stay the same.
\<close>

fun search_tree ::
    "(path \<Rightarrow> subleaf list \<Rightarrow> bool \<Rightarrow> 'd \<Rightarrow> 'd) \<Rightarrow> path \<Rightarrow> string list \<Rightarrow> bool \<Rightarrow> subhier list \<Rightarrow> 'd \<Rightarrow> 'd" where
  "search_tree proc p tokens set_retain [] d = d"
| "search_tree proc p tokens set_retain (SubHier t ls ret ch # hs) d =
     search_tree proc p tokens set_retain hs
       (if tokens \<noteq> [] \<and> (t = hd tokens \<or> t = ''+'') then
          (let sr = (if t = ''+'' then False else set_retain);
               d1 = search_tree proc (p @ [t]) (tl tokens) sr ch d
           in if tl tokens = [] then proc (p @ [t]) ls sr d1 else d1)
        else if t = ''#'' \<and> ch = [] then proc (p @ [t]) ls False d
        else d)"

definition sub_search ::
    "path \<Rightarrow> string list \<Rightarrow> string \<Rightarrow> string \<Rightarrow> nat \<Rightarrow> bool \<Rightarrow> store_ref \<Rightarrow> bool \<Rightarrow> db \<Rightarrow> db" where
  "sub_search p tokens source_id topic qos retain s set_retain d =
     search_tree (\<lambda>q ls sr e. snd (subs_process q ls source_id topic qos retain s sr e)) p tokens set_retain
       (case node_at p (subs d) of Some h \<Rightarrow> sh_children h | None \<Rightarrow> []) d"

text \<open>The loop over the root's children: those with the first token as their topic.\<close>

fun queue_loop ::
    "string list \<Rightarrow> string list \<Rightarrow> string \<Rightarrow> string \<Rightarrow> nat \<Rightarrow> bool \<Rightarrow> store_ref \<Rightarrow> db \<Rightarrow> db" where
  "queue_loop [] tokens source_id topic qos retain s d = d"
| "queue_loop (t # ts) tokens source_id topic qos retain s d =
     queue_loop ts tokens source_id topic qos retain s
       (if t = hd tokens then
          sub_search [t] tokens source_id topic qos retain s True
            (if retain then snd (sub_add None 0 (t # tokens) d) else d)
        else d)"

text \<open>The reference the queueing keeps while it runs.\<close>

definition hold_stored :: "store_ref \<Rightarrow> db \<Rightarrow> db" where
  "hold_stored s d =
     (if store_live d s then upd_store s (\<lambda>m. m\<lparr>ms_ref_count := ms_ref_count m + 1\<rparr>) d
      else set_fault d)"

definition mqtt3_db_messages_queue ::
    "string \<Rightarrow> string \<Rightarrow> nat \<Rightarrow> bool \<Rightarrow> store_ref \<Rightarrow> db \<Rightarrow> rc \<times> store_ref option \<times> db" where
  "mqtt3_db_messages_queue source_id topic qos retain s d =
     (let tokens = sub_topic_tokenise topic;
          d1 = hold_stored s d;
          d2 = queue_loop (map sh_topic (subs d1)) tokens source_id topic qos retain s d1
      in (0, msg_store_deref s d2))"

subsection \<open>Retained messages for a new subscription\<close>

definition retain_process :: "store_ref \<Rightarrow> ctx_ref \<Rightarrow> nat \<Rightarrow> db \<Rightarrow> rc \<times> db" where
  "retain_process s r sub_qos d =
     (let rc = (case ms_topic (store_of d s) of
                  Some t \<Rightarrow> mosquitto_acl_check d (ctx_of d r) t MOSQ_ACL_READ
                | None \<Rightarrow> MOSQ_ERR_INVAL)
      in if rc = MOSQ_ERR_ACL_DENIED then (MOSQ_ERR_SUCCESS, d)
         else if rc \<noteq> MOSQ_ERR_SUCCESS then (rc, d)
         else
           let qos = (if ms_qos (store_of d s) > sub_qos then sub_qos else ms_qos (store_of d s))
           in case mid_for r qos d of
                (mid, d1) \<Rightarrow> mqtt3_db_message_insert r mid mosq_md_out qos True s d1)"

definition process_if :: "(store_ref \<Rightarrow> 'd \<Rightarrow> 'd) \<Rightarrow> store_ref option \<Rightarrow> 'd \<Rightarrow> 'd" where
  "process_if proc ret d = (case ret of Some s \<Rightarrow> proc s d | None \<Rightarrow> d)"

text \<open>The result says whether the tokens were a single \<^verbatim>\<open>#\<close> and there was a branch.\<close>

fun retain_search ::
    "(store_ref \<Rightarrow> 'd \<Rightarrow> 'd) \<Rightarrow> string list \<Rightarrow> nat \<Rightarrow> subhier list \<Rightarrow> bool \<times> 'd \<Rightarrow> bool \<times> 'd" where
  "retain_search proc tokens level [] (flag, d) = (flag, d)"
| "retain_search proc tokens level (SubHier t ls ret ch # hs) (flag, d) =
     retain_search proc tokens level hs
       (if hd tokens = ''#'' \<and> tl tokens = [] then
          (True, (let d1 = process_if proc ret d
                  in if ch \<noteq> [] then snd (retain_search proc tokens (level + 1) ch (False, d1)) else d1))
        else if t \<noteq> ''+'' \<and> (t = hd tokens \<or> hd tokens = ''+'') then
          (flag,
           if tl tokens \<noteq> [] then
             (case retain_search proc (tl tokens) (level + 1) ch (False, d) of
                (found, d1) \<Rightarrow>
                  if found \<or> hs = [] \<and> hd (tl tokens) = ''#'' \<and> level > 0
                  then process_if proc ret d1 else d1)
           else process_if proc ret d)
        else (flag, d))"

definition mqtt3_retain_queue :: "ctx_ref \<Rightarrow> string \<Rightarrow> nat \<Rightarrow> db \<Rightarrow> rc \<times> db" where
  "mqtt3_retain_queue r sub sub_qos d =
     (let tokens = sub_topic_tokenise sub
      in (MOSQ_ERR_SUCCESS,
          case node_at [hd tokens] (subs d) of
            Some h \<Rightarrow> snd (retain_search (\<lambda>s e. snd (retain_process s r sub_qos e)) tokens 0 (sh_children h) (False, d))
          | None \<Rightarrow> d))"

subsection \<open>Removing the subscriptions of a client\<close>

text \<open>The two children of the root that \<^verbatim>\<open>mqtt3_db_open\<close> makes have a null \<^verbatim>\<open>parent\<close>.\<close>

definition has_parent :: "path \<Rightarrow> bool" where
  "has_parent p \<longleftrightarrow> p \<noteq> [] \<and> p \<noteq> [''''] \<and> p \<noteq> [''$SYS'']"

function tmp_remove_subs :: "path \<Rightarrow> subhier list \<Rightarrow> subhier list" where
  "tmp_remove_subs p hs =
     (if \<not> has_parent p then hs
      else
        case node_at p hs of
          None \<Rightarrow> hs
        | Some h \<Rightarrow>
            if sh_children h \<noteq> [] \<or> sh_subs h \<noteq> [] then hs
            else
              let hs' = remove_at p hs
              in case node_at (butlast p) hs' of
                   None \<Rightarrow> hs'
                 | Some q \<Rightarrow> if unused q \<and> has_parent (butlast p) then tmp_remove_subs (butlast p) hs' else hs')"
  by pat_completeness auto
termination
  by (relation "measure (\<lambda>(p, hs). length p)") (auto simp: has_parent_def)

declare tmp_remove_subs.simps [simp del]

definition clean_sub :: "ctx_ref \<Rightarrow> path option \<Rightarrow> db \<Rightarrow> db" where
  "clean_sub r slot d =
     (case slot of
        None \<Rightarrow> d
      | Some p \<Rightarrow>
          let d1 = (if list_ex (is_leaf_of r) (leaves_at p d)
                    then (upd_node p (\<lambda>h. set_subs (remove_first (is_leaf_of r) (sh_subs h)) h) d)
                           \<lparr>subscription_count := subscription_count d - 1\<rparr>
                    else d)
          in case node_at p (subs d1) of
               None \<Rightarrow> set_fault d1
             | Some h \<Rightarrow>
                 if unused h \<and> has_parent p then d1\<lparr>subs := tmp_remove_subs p (subs d1)\<rparr> else d1)"

definition mqtt3_subs_clean_session :: "ctx_ref \<Rightarrow> db \<Rightarrow> rc \<times> db" where
  "mqtt3_subs_clean_session r d =
     (MOSQ_ERR_SUCCESS,
      upd_ctx r (\<lambda>c. c\<lparr>ctx_subs := []\<rparr>) (fold (clean_sub r) (ctx_subs (ctx_of d r)) d))"

subsection \<open>The parts of \<^verbatim>\<open>database.c\<close> that use the tree\<close>

definition mqtt3_db_open :: "db \<Rightarrow> rc \<times> db" where
  "mqtt3_db_open d =
     (MOSQ_ERR_SUCCESS,
      d\<lparr>last_db_id := 0, contexts_by_id := [], contexts_by_sock := [], ll_for_free := [], bridges := [],
        subs := [SubHier '''' [] None [], SubHier ''$SYS'' [] None []], unpwd := []\<rparr>)"

fun subhier_clean :: "subhier list \<Rightarrow> db \<Rightarrow> db" where
  "subhier_clean [] d = d"
| "subhier_clean (SubHier t ls ret ch # hs) d =
     subhier_clean hs (subhier_clean ch
       (case ret of Some s \<Rightarrow> snd (msg_store_deref s d) | None \<Rightarrow> d))"

definition mqtt3_db_close :: "db \<Rightarrow> rc \<times> db" where
  "mqtt3_db_close d = (MOSQ_ERR_SUCCESS, msg_store_clean ((subhier_clean (subs d) d)\<lparr>subs := []\<rparr>))"

definition mqtt3_db_messages_easy_queue ::
    "ctx_ref option \<Rightarrow> string \<Rightarrow> nat \<Rightarrow> byte list \<Rightarrow> bool \<Rightarrow> db \<Rightarrow> rc \<times> db" where
  "mqtt3_db_messages_easy_queue ro topic qos pl retain d =
     (let source_id = (case ro of
            Some r \<Rightarrow> (case ctx_id (ctx_of d r) of Some i \<Rightarrow> i | None \<Rightarrow> [])
          | None \<Rightarrow> [])
      in case mqtt3_db_message_store (Some source_id) 0 (Some topic) qos pl retain 0 d of
           (s, d1) \<Rightarrow>
             case mqtt3_db_messages_queue source_id topic qos retain s d1 of (rc, ptr, d2) \<Rightarrow> (rc, d2))"

subsection \<open>Releasing a QoS 2 message\<close>

text \<open>
  The loop of \<^verbatim>\<open>mqtt3_db_message_release\<close>. Publishing the released message may append to the
  very queue the loop runs over, so that it ends is a property; not ending is \<^const>\<open>None\<close>.
\<close>

definition release_activate :: "ctx_ref \<Rightarrow> nat \<Rightarrow> int \<Rightarrow> db \<Rightarrow> db" where
  "release_activate r i idx d =
     (let m = msgs (ctx_of d r) ! i
      in if cm_state m = mosq_ms_queued \<and> idx \<le> max_inflight (glob d) then
           set_msg r i (\<lambda>m. activate mosq_ms_wait_for_pubrel (m\<lparr>cm_timestamp := now (glob d)\<rparr>))
             (if cm_direction m = mosq_md_in \<and> cm_qos m = 2
              then snd (with_ctx r (mosquitto_send_pubrec (cm_mid m)) d) else d)
         else d)"

definition publish_stored :: "client_msg \<Rightarrow> db \<Rightarrow> rc \<times> db" where
  "publish_stored m d =
     (let st = store_of d (cm_store m)
      in case ms_topic st of
           None \<Rightarrow> (MOSQ_ERR_SUCCESS, d)
         | Some t \<Rightarrow>
             case mqtt3_db_messages_queue (ms_source_id st) t (ms_qos st) (cm_retain m) (cm_store m) d of
               (rc, ptr, d1) \<Rightarrow> (rc, d1))"

partial_function (option) release_loop ::
    "ctx_ref \<Rightarrow> u16 \<Rightarrow> mosquitto_msg_direction \<Rightarrow> nat \<Rightarrow> int \<Rightarrow> bool \<Rightarrow> db \<Rightarrow> (rc \<times> db) option" where
  "release_loop r mid dir i idx deleted d =
     (if length (msgs (ctx_of d r)) \<le> i
      then Some (if deleted then MOSQ_ERR_SUCCESS else 1, d)
      else
        let d1 = release_activate r i (idx + 1) d; m = msgs (ctx_of d1 r) ! i
        in if msg_is mid dir m then
             (case publish_stored m d1 of
                (rc, d2) \<Rightarrow>
                  if rc \<noteq> MOSQ_ERR_SUCCESS then Some (1, d2)
                  else
                    let d3 = message_remove r i d2
                    in if idx + 1 > max_inflight (glob d3) then Some (MOSQ_ERR_SUCCESS, d3)
                       else release_loop r mid dir i (idx + 1) True d3)
           else if idx + 1 > max_inflight (glob d1) \<and> deleted then Some (MOSQ_ERR_SUCCESS, d1)
           else release_loop r mid dir (Suc i) (idx + 1) deleted d1)"

definition mqtt3_db_message_release ::
    "ctx_ref \<Rightarrow> u16 \<Rightarrow> mosquitto_msg_direction \<Rightarrow> db \<Rightarrow> (rc \<times> db) option" where
  "mqtt3_db_message_release r mid dir d = release_loop r mid dir 0 0 False d"

subsection \<open>Tokens are levels\<close>

lemma levels_append_char:
  "levels (xs @ c # ys) = (if c = CHR ''/'' then levels xs @ levels ys else levels (xs @ c # ys))"
  by (induction xs) (auto split: list.splits)

lemma levels_no_sep: "CHR ''/'' \<notin> set xs \<Longrightarrow> levels xs = [xs]"
  by (induction xs) auto

lemma levels_split: "CHR ''/'' \<notin> set xs \<Longrightarrow> levels (xs @ CHR ''/'' # ys) = xs # levels ys"
  using levels_append_char [of xs "CHR ''/''" ys] levels_no_sep [of xs] by simp

lemma token_loop_levels:
  assumes "start \<le> i" and "i \<le> length s" and "CHR ''/'' \<notin> set (take (i - start) (drop start s))"
  shows "token_loop s start i = levels (drop start s)"
  using assms
proof (induction s start i rule: token_loop.induct)
  case (1 s start i)
  let ?t = "take (i - start) (drop start s)"
  have split: "drop start s = ?t @ drop i s"
    using "1.prems"(1) by (metis append_take_drop_id drop_drop le_add_diff_inverse2)
  consider (last) "i = length s" | (sep) "i < length s" "s ! i = CHR ''/''" | (other) "i < length s" "s ! i \<noteq> CHR ''/''"
    using "1.prems"(2) by linarith
  then show ?case
  proof cases
    case last
    then have "drop start s = ?t" using split by simp
    then have "levels (drop start s) = [?t]" using levels_no_sep [OF "1.prems"(3)] by simp
    moreover have "token_loop s start i = [?t]"
      using last token_loop.simps [of s "Suc (length s)" "Suc (length s)"]
      by (simp add: token_loop.simps [of s start])
    ultimately show ?thesis by simp
  next
    case sep
    then have "drop i s = CHR ''/'' # drop (Suc i) s" by (simp add: Cons_nth_drop_Suc [symmetric])
    then have "levels (drop start s) = ?t # levels (drop (Suc i) s)"
      using split levels_split [OF "1.prems"(3), of "drop (Suc i) s"] by simp
    moreover have "token_loop s (i + 1) (i + 1) = levels (drop (Suc i) s)"
      using "1.IH"(1) sep by simp
    ultimately show ?thesis using sep by (simp add: token_loop.simps [of s start])
  next
    case other
    have "take (Suc i - start) (drop start s) = ?t @ [s ! i]"
      using other "1.prems"(1) by (simp add: Suc_diff_le take_Suc_conv_app_nth)
    then have "token_loop s start (Suc i) = levels (drop start s)"
      using "1.IH"(2) other "1.prems" by simp
    then show ?thesis using other by (simp add: token_loop.simps [of s start])
  qed
qed

lemma tokenise_levels:
  "sub_topic_tokenise s = (if take 1 s \<noteq> ''$'' then [''''] else []) @ levels s"
proof -
  have "token_loop s 0 0 = levels s" using token_loop_levels [of 0 0 s] by simp
  moreover have "'''' # token_loop s 1 1 = levels s" if "take 1 s = ''/''"
  proof -
    obtain xs where s: "s = CHR ''/'' # xs" using \<open>take 1 s = ''/''\<close> by (cases s) auto
    then show ?thesis using token_loop_levels [of 1 1 s] by simp
  qed
  ultimately show ?thesis by (simp add: sub_topic_tokenise_def)
qed

lemma tokenise_not_Nil [simp]: "sub_topic_tokenise s \<noteq> []"
  by (simp add: tokenise_levels)

subsection \<open>What is at a path\<close>

text \<open>The leaves and the retained message of a node, for the nodes that exist.\<close>

definition info_at :: "path \<Rightarrow> subhier list \<Rightarrow> (subleaf list \<times> store_ref option) option" where
  "info_at p hs = map_option (\<lambda>h. (sh_subs h, sh_retained h)) (node_at p hs)"

fun leaves_of :: "(subleaf list \<times> store_ref option) option \<Rightarrow> subleaf list" where
  "leaves_of None = []"
| "leaves_of (Some x) = fst x"

lemma leaves_at_info: "leaves_at p d = leaves_of (info_at p (subs d))"
  by (simp add: leaves_at_def info_at_def split: option.splits)

text \<open>Siblings have different topics, and nothing is below a \<^verbatim>\<open>#\<close>.\<close>

fun wf_tree :: "subhier list \<Rightarrow> bool" where
  "wf_tree [] = True"
| "wf_tree (SubHier t ls ret ch # hs) =
     (t \<notin> sh_topic ` set hs \<and> wf_tree ch \<and> (t = ''#'' \<longrightarrow> ch = []) \<and> wf_tree hs)"

lemma wf_tree_Cons:
  "wf_tree (h # hs) \<longleftrightarrow> sh_topic h \<notin> sh_topic ` set hs \<and> wf_tree (sh_children h) \<and>
     (sh_topic h = ''#'' \<longrightarrow> sh_children h = []) \<and> wf_tree hs"
  by (cases h) simp

lemma info_at_Nil [simp]: "info_at p [] = None"
  by (cases p) (simp_all add: info_at_def)

lemma info_at_root [simp]: "info_at [] hs = None"
  by (simp add: info_at_def)

lemma info_at_Cons:
  "info_at (t # ts) (h # hs) =
     (if sh_topic h = t then (if ts = [] then Some (sh_subs h, sh_retained h) else info_at ts (sh_children h))
      else info_at (t # ts) hs)"
  by (simp add: info_at_def)

lemma info_at_absent: "t \<notin> sh_topic ` set hs \<Longrightarrow> info_at (t # ts) hs = None"
  by (induction hs) (auto simp: info_at_Cons)

lemma node_at_absent: "info_at p hs = None \<longleftrightarrow> node_at p hs = None"
  by (simp add: info_at_def)

text \<open>Changing a node in place.\<close>

lemma topics_update_at:
  "(\<And>h. sh_topic (f h) = sh_topic h) \<Longrightarrow> map sh_topic (update_at p f hs) = map sh_topic hs"
  by (induction p f hs rule: update_at.induct) simp_all

lemma info_at_update_at:
  assumes "\<And>h. sh_topic (f h) = sh_topic h" and "\<And>h. sh_children (f h) = sh_children h"
  shows "info_at q (update_at p f hs) =
    (if q = p then map_option (\<lambda>h. (sh_subs (f h), sh_retained (f h))) (node_at p hs) else info_at q hs)"
  using assms
proof (induction p f hs arbitrary: q rule: update_at.induct)
  case (3 t ts f h hs)
  then show ?case
  proof (cases q)
    case (Cons u us)
    then show ?thesis using 3 by (auto simp: info_at_Cons)
  qed simp
qed simp_all

lemma update_at_absent: "node_at p hs = None \<Longrightarrow> update_at p f hs = hs"
proof (induction p f hs rule: update_at.induct)
  case (3 t ts f h hs)
  then show ?case by (cases h) (auto simp: set_children_def split: if_splits)
qed simp_all

lemma wf_update_at:
  assumes "\<And>h. sh_topic (f h) = sh_topic h" and "\<And>h. sh_children (f h) = sh_children h"
  shows "wf_tree hs \<Longrightarrow> wf_tree (update_at p f hs)"
  using assms
proof (induction p f hs rule: update_at.induct)
  case (3 t ts f h hs)
  have "sh_topic ` set (update_at (t # ts) f hs) = sh_topic ` set hs"
    using topics_update_at [of f "t # ts" hs] 3(4) by (metis set_map)
  moreover have "update_at p f ch = [] \<longleftrightarrow> ch = []" for p f ch
    by (cases ch; cases p) simp_all
  ultimately show ?case using 3 by (auto simp: wf_tree_Cons)
qed simp_all

lemma tree_refs_Cons:
  "tree_refs s (h # hs) = (if sh_retained h = Some s then 1 else 0) + tree_refs s (sh_children h) + tree_refs s hs"
  by (cases h) simp

lemma tree_refs_update_at:
  assumes "\<And>h. sh_children (f h) = sh_children h" and "node_at p hs = Some h"
  shows "tree_refs s (update_at p f hs) + (if sh_retained h = Some s then 1 else 0)
    = tree_refs s hs + (if sh_retained (f h) = Some s then 1 else 0)"
  using assms
proof (induction p f hs rule: update_at.induct)
  case (3 t ts f g hs)
  then show ?case by (auto simp: tree_refs_Cons split: if_splits)
qed simp_all

lemma tree_refs_same:
  assumes "\<And>h. sh_children (f h) = sh_children h" and "\<And>h. sh_retained (f h) = sh_retained h"
  shows "tree_refs s (update_at p f hs) = tree_refs s hs"
proof (cases "node_at p hs")
  case (Some h)
  show ?thesis using tree_refs_update_at [of f p hs h s, OF assms(1) Some] assms(2) [of h] by simp
qed (simp add: update_at_absent)

text \<open>Making the nodes of a path.\<close>

lemma topics_ensure: "sh_topic ` set (ensure_path (t # ts) hs) = insert t (sh_topic ` set hs)"
  by (induction "t # ts" hs rule: ensure_path.induct) auto

lemma tree_refs_ensure [simp]: "tree_refs s (ensure_path p hs) = tree_refs s hs"
  by (induction p hs rule: ensure_path.induct) (simp_all add: tree_refs_Cons)

lemma info_at_ensure_new:
  "info_at q (ensure_path p []) = (if q \<noteq> [] \<and> take (length q) p = q then Some ([], None) else None)"
proof (induction p arbitrary: q)
  case (Cons t ts)
  then show ?case by (cases q) (auto simp: info_at_Cons)
qed auto

lemma info_at_ensure:
  "info_at q (ensure_path p hs) =
    (case info_at q hs of
       Some x \<Rightarrow> Some x
     | None \<Rightarrow> if q \<noteq> [] \<and> take (length q) p = q then Some ([], None) else None)"
proof (induction p hs arbitrary: q rule: ensure_path.induct)
  case (2 t ts)
  show ?case using info_at_ensure_new [of q "t # ts"] by simp
next
  case (3 t ts h hs)
  then show ?case by (cases q) (auto simp: info_at_Cons split: option.splits)
qed (auto split: option.splits)

lemma leaves_ensure [simp]: "leaves_of (info_at q (ensure_path p hs)) = leaves_of (info_at q hs)"
  by (simp add: info_at_ensure split: option.splits)

lemma ensure_present: "p \<noteq> [] \<Longrightarrow> node_at p (ensure_path p hs) \<noteq> None"
  using node_at_absent [of p "ensure_path p hs"] by (auto simp: info_at_ensure split: option.splits)

text \<open>A path of a valid subscription has \<^verbatim>\<open>#\<close> only at its end.\<close>

fun hash_last :: "path \<Rightarrow> bool" where
  "hash_last [] = True"
| "hash_last (t # ts) = ((t = ''#'' \<longrightarrow> ts = []) \<and> hash_last ts)"

lemma hash_last_levels: "levels_ok ls \<Longrightarrow> hash_last ls"
proof (induction ls)
  case (Cons l ls)
  show ?case
  proof (cases "ls = []")
    case False
    then have "(l = ''+'' \<or> wildcard_free l) \<and> levels_ok ls" using Cons.prems by simp
    then show ?thesis using Cons.IH by (auto simp: wildcard_free_def)
  qed simp
qed simp

lemma wf_ensure:
  "wf_tree hs \<Longrightarrow> hash_last p \<Longrightarrow> wf_tree (ensure_path p hs)"
proof (induction p hs rule: ensure_path.induct)
  case (3 t ts h hs)
  then show ?case
    using topics_ensure [of t ts hs] by (auto simp: wf_tree_Cons)
qed simp_all

text \<open>Removing the nodes that are no longer used.\<close>

lemma topics_prune: "sh_topic ` set (prune_path p hs) \<subseteq> sh_topic ` set hs"
  by (induction p hs rule: prune_path.induct) (auto simp: Let_def)

lemma wf_prune: "wf_tree hs \<Longrightarrow> wf_tree (prune_path p hs)"
proof (induction p hs rule: prune_path.induct)
  case (3 t ts h hs)
  have "prune_path ts [] = []" by (cases ts) simp_all
  then show ?case
    using 3 topics_prune [of "t # ts" hs] by (auto simp: wf_tree_Cons Let_def)
qed simp_all

lemma tree_refs_prune [simp]: "tree_refs s (prune_path p hs) = tree_refs s hs"
proof (induction p hs rule: prune_path.induct)
  case (3 t ts h hs)
  then show ?case by (auto simp: tree_refs_Cons Let_def unused_def)
qed simp_all

lemma leaves_prune:
  "wf_tree hs \<Longrightarrow> leaves_of (info_at q (prune_path p hs)) = leaves_of (info_at q hs)"
proof (induction p hs arbitrary: q rule: prune_path.induct)
  case (3 t ts h hs)
  show ?case
  proof (cases q)
    case (Cons u us)
    let ?h = "set_children (prune_path ts (sh_children h)) h"
    have ch: "leaves_of (info_at us (prune_path ts (sh_children h))) = leaves_of (info_at us (sh_children h))"
      if "sh_topic h = t" using 3 that by (simp add: wf_tree_Cons)
    show ?thesis
    proof (cases "sh_topic h = t \<and> unused ?h")
      case True
      then have none: "prune_path ts (sh_children h) = []" "sh_subs h = []" by (simp_all add: unused_def)
      have "info_at (t # us) hs = None" using 3(3) True by (intro info_at_absent) (simp add: wf_tree_Cons)
      then show ?thesis using True none Cons ch by (auto simp: info_at_Cons)
    next
      case False
      then show ?thesis using Cons ch 3 by (auto simp: info_at_Cons Let_def wf_tree_Cons)
    qed
  qed simp
qed simp_all

end
