(* ===== verification/Delivery.thy ===== *)
theory Delivery
  imports SubTree
begin

text \<open>
  Delivery of a message through the subscription tree: the nodes a search visits, and that they
  are the ones the MQTT rule names.
\<close>

subsection \<open>Which nodes a message visits\<close>

text \<open>
  The nodes the search processes, in order, with their leaves and the flag that says whether the
  retained message is set there. The search is a fold over this list.
\<close>

fun visits :: "path \<Rightarrow> string list \<Rightarrow> bool \<Rightarrow> subhier list \<Rightarrow> (path \<times> subleaf list \<times> bool) list" where
  "visits p tokens sr [] = []"
| "visits p tokens sr (SubHier t ls ret ch # hs) =
     (if tokens \<noteq> [] \<and> (t = hd tokens \<or> t = ''+'') then
        visits (p @ [t]) (tl tokens) (t \<noteq> ''+'' \<and> sr) ch @
        (if tl tokens = [] then [(p @ [t], ls, t \<noteq> ''+'' \<and> sr)] else [])
      else if t = ''#'' \<and> ch = [] then [(p @ [t], ls, False)]
      else []) @ visits p tokens sr hs"

lemma search_tree_fold:
  "search_tree proc p tokens sr hs d = fold (\<lambda>(q, ls, b). proc q ls b) (visits p tokens sr hs) d"
proof (induction p tokens sr hs arbitrary: d rule: visits.induct)
  case (2 p tokens sr t ls ret ch hs)
  have "(if t = ''+'' then False else sr) = (t \<noteq> ''+'' \<and> sr)" by simp
  then show ?case using 2 by (cases "tl tokens = []") (simp_all add: Let_def)
qed simp

lemma visits_iff:
  assumes "wf_tree hs" and "''#'' \<notin> set ts" and "''+'' \<notin> set ts"
  shows "(q, ls, b) \<in> set (visits p ts sr hs) \<longleftrightarrow>
    (\<exists>r ret. q = p @ r \<and> info_at r hs = Some (ls, ret) \<and> mqtt_match r ts \<and> b = (sr \<and> r = ts))"
  using assms
proof (induction p ts sr hs arbitrary: q ls b rule: visits.induct)
  case (2 p ts sr t lf rt ch hs)
  let ?h = "SubHier t lf rt ch"
  have wf: "t \<notin> sh_topic ` set hs" "wf_tree ch" "t = ''#'' \<Longrightarrow> ch = []" "wf_tree hs" using "2.prems"(1) by auto
  have absent: "info_at (t # us) hs = None" for us by (rule info_at_absent) (rule wf(1))
  have rest: "(q, ls, b) \<in> set (visits p ts sr hs) \<longleftrightarrow>
      (\<exists>r ret. r \<noteq> [] \<and> hd r \<noteq> t \<and> q = p @ r \<and> info_at r (?h # hs) = Some (ls, ret) \<and> mqtt_match r ts \<and> b = (sr \<and> r = ts))"
    (is "_ \<longleftrightarrow> ?R")
  proof -
    have "info_at r hs = Some x \<longleftrightarrow> r \<noteq> [] \<and> hd r \<noteq> t \<and> info_at r (?h # hs) = Some x" for r x
      using absent by (cases r) (auto simp: info_at_Cons)
    then show ?thesis by (simp only: "2.IH"(2) [OF wf(4) "2.prems"(2,3)] conj_ac)
  qed
  define here where "here \<longleftrightarrow> (\<exists>us ret. q = p @ t # us \<and> info_at (t # us) (?h # hs) = Some (ls, ret) \<and> mqtt_match (t # us) ts \<and> b = (sr \<and> t # us = ts))"
  have all: "(\<exists>r ret. q = p @ r \<and> info_at r (?h # hs) = Some (ls, ret) \<and> mqtt_match r ts \<and> b = (sr \<and> r = ts)) \<longleftrightarrow>
      here \<or> ?R" unfolding here_def
    apply (rule iffI)
    subgoal apply (elim exE) subgoal for r ret by (cases r) auto done
    subgoal by blast
    done
  have "here \<longleftrightarrow> (q, ls, b) \<in> set (if ts \<noteq> [] \<and> (t = hd ts \<or> t = ''+'') then
        visits (p @ [t]) (tl ts) (t \<noteq> ''+'' \<and> sr) ch @
        (if tl ts = [] then [(p @ [t], lf, t \<noteq> ''+'' \<and> sr)] else [])
      else if t = ''#'' \<and> ch = [] then [(p @ [t], lf, False)]
      else [])"
  proof (cases "ts \<noteq> [] \<and> (t = hd ts \<or> t = ''+'')")
    case True
    then obtain u us where ts: "ts = u # us" by (cases ts) auto
    have nohash: "t \<noteq> ''#''" using True "2.prems"(2) ts by auto
    have ih: "(q, ls, b) \<in> set (visits (p @ [t]) (tl ts) (t \<noteq> ''+'' \<and> sr) ch) \<longleftrightarrow>
      (\<exists>r ret. q = (p @ [t]) @ r \<and> info_at r ch = Some (ls, ret) \<and> mqtt_match r (tl ts) \<and> b = ((t \<noteq> ''+'' \<and> sr) \<and> r = tl ts))"
      using "2.IH"(1) [OF True wf(2)] "2.prems"(2,3) ts by auto
    have tu: "t = u \<longleftrightarrow> t \<noteq> ''+''" using True "2.prems"(3) ts by auto
    have i: "info_at (t # vs) (?h # hs) = (if vs = [] then Some (lf, rt) else info_at vs ch)" for vs
      by (simp add: info_at_Cons)
    have m: "mqtt_match (t # vs) ts = mqtt_match vs us" for vs
      using True nohash tu by (auto simp: ts)
    have e: "(t # vs = ts) = (t \<noteq> ''+'' \<and> vs = us)" for vs using tu by (auto simp: ts)
    have "here \<longleftrightarrow> (\<exists>vs ret. q = (p @ [t]) @ vs \<and> info_at vs ch = Some (ls, ret) \<and> mqtt_match vs us \<and>
        b = ((t \<noteq> ''+'' \<and> sr) \<and> vs = us)) \<or> (q = p @ [t] \<and> ls = lf \<and> us = [] \<and> b = (t \<noteq> ''+'' \<and> sr))"
      unfolding here_def i m e
    proof (rule iffI, goal_cases)
      case 1
      then obtain vs ret where vs: "q = p @ t # vs" "(if vs = [] then Some (lf, rt) else info_at vs ch) = Some (ls, ret)"
        "mqtt_match vs us" "b = (sr \<and> t \<noteq> ''+'' \<and> vs = us)" by blast
      show ?case
      proof (cases "vs = []")
        case False
        then have "q = (p @ [t]) @ vs \<and> info_at vs ch = Some (ls, ret) \<and> mqtt_match vs us \<and>
          b = ((t \<noteq> ''+'' \<and> sr) \<and> vs = us)" using vs by simp blast
        then show ?thesis by blast
      qed (use vs in auto)
    next
      case 2
      then show ?case
      proof (elim disjE exE)
        fix vs ret
        assume vs: "q = (p @ [t]) @ vs \<and> info_at vs ch = Some (ls, ret) \<and> mqtt_match vs us \<and> b = ((t \<noteq> ''+'' \<and> sr) \<and> vs = us)"
        then have "q = p @ t # vs \<and> (if vs = [] then Some (lf, rt) else info_at vs ch) = Some (ls, ret) \<and>
          mqtt_match vs us \<and> b = (sr \<and> t \<noteq> ''+'' \<and> vs = us)" by (cases vs) auto
        then show ?thesis by blast
      next
        assume "q = p @ [t] \<and> ls = lf \<and> us = [] \<and> b = (t \<noteq> ''+'' \<and> sr)"
        then have "q = p @ t # [] \<and> (if [] = [] then Some (lf, rt) else info_at [] ch) = Some (ls, rt) \<and>
          mqtt_match [] us \<and> b = (sr \<and> t \<noteq> ''+'' \<and> [] = us)" by auto
        then show ?thesis by blast
      qed
    qed
    moreover have "(q, ls, b) \<in> set (if tl ts = [] then [(p @ [t], lf, t \<noteq> ''+'' \<and> sr)] else []) \<longleftrightarrow>
        q = p @ [t] \<and> ls = lf \<and> us = [] \<and> b = (t \<noteq> ''+'' \<and> sr)" by (auto simp: ts)
    ultimately show ?thesis unfolding if_P [OF True] set_append Un_iff ih by (simp add: ts)
  next
    case False
    then show ?thesis unfolding here_def
      using wf(3) by (cases ts) (auto simp: info_at_Cons)
  qed
  then show ?case unfolding all using rest by auto
qed simp

lemma visits_below:
  "(q, ls, b) \<in> set (visits p ts sr hs) \<Longrightarrow> \<exists>h r. h \<in> set hs \<and> q = p @ sh_topic h # r"
proof (induction p ts sr hs rule: visits.induct)
  case (2 p ts sr t lf rt ch hs)
  show ?case
  proof (cases "(q, ls, b) \<in> set (visits p ts sr hs)")
    case True
    then show ?thesis using 2 by auto
  next
    case False
    then have "(q, ls, b) \<in> set (visits (p @ [t]) (tl ts) (t \<noteq> ''+'' \<and> sr) ch) \<and> ts \<noteq> [] \<and> (t = hd ts \<or> t = ''+'') \<or> q = p @ [t]"
      using 2(3) by (auto split: if_splits)
    then have "\<exists>r. q = p @ t # r" using 2(1) by auto
    then show ?thesis by auto
  qed
qed simp

lemma visits_distinct: "wf_tree hs \<Longrightarrow> distinct (map fst (visits p ts sr hs))"
proof (induction p ts sr hs rule: visits.induct)
  case (2 p ts sr t lf rt ch hs)
  let ?v = "if ts \<noteq> [] \<and> (t = hd ts \<or> t = ''+'') then
        visits (p @ [t]) (tl ts) (t \<noteq> ''+'' \<and> sr) ch @
        (if tl ts = [] then [(p @ [t], lf, t \<noteq> ''+'' \<and> sr)] else [])
      else if t = ''#'' \<and> ch = [] then [(p @ [t], lf, False)] else []"
  have below: "q \<noteq> p @ [t] \<and> (\<exists>r. q = p @ t # r)" if "q \<in> fst ` set (visits (p @ [t]) ts' b ch)" for q ts' b
    using that visits_below [of _ _ _ "p @ [t]" ts' b ch] by fastforce
  have v: "distinct (map fst ?v)" using 2 below by auto
  have "\<exists>r. q = p @ t # r" if "q \<in> fst ` set ?v" for q
    using that visits_below [of _ _ _ "p @ [t]" _ _ ch] by (fastforce split: if_splits)
  moreover have "\<not> (\<exists>r. q = p @ t # r)" if "q \<in> fst ` set (visits p ts sr hs)" for q
    using that visits_below [of _ _ _ p ts sr hs] 2(3) by fastforce
  ultimately have "fst ` set ?v \<inter> fst ` set (visits p ts sr hs) = {}" by blast
  moreover have "distinct (map fst (visits p ts sr hs))" using 2 by simp
  moreover have "visits p ts sr (SubHier t lf rt ch # hs) = ?v @ visits p ts sr hs" by simp
  ultimately show ?case using v by (simp only: map_append distinct_append set_map)
qed simp

text \<open>The path of a subscription, and the paths a topic matches.\<close>

definition sub_path :: "string \<Rightarrow> path" where
  "sub_path sub = hd (sub_topic_tokenise sub) # sub_topic_tokenise sub"

definition matching :: "string \<Rightarrow> path \<Rightarrow> bool" where
  "matching topic p \<longleftrightarrow>
     p \<noteq> [] \<and> hd p = hd (sub_topic_tokenise topic) \<and> mqtt_match (tl p) (sub_topic_tokenise topic)"

lemma hd_levels_dollar: "take 1 s = ''$'' \<Longrightarrow> \<exists>l. hd (levels s) = CHR ''$'' # l"
  by (cases s) (auto split: list.splits)

lemma hd_levels_no_dollar: "take 1 s \<noteq> ''$'' \<Longrightarrow> \<nexists>l. hd (levels s) = CHR ''$'' # l"
  by (cases s) (auto split: list.splits)

lemma matching_sub_path: "matching topic (sub_path sub) \<longleftrightarrow> mqtt_topic_match sub topic"
proof -
  have nonempty: "levels s \<noteq> []" for s by simp
  consider "take 1 sub = ''$''" "take 1 topic = ''$''" | "take 1 sub = ''$'' \<longleftrightarrow> take 1 topic \<noteq> ''$''"
    | "take 1 sub \<noteq> ''$''" "take 1 topic \<noteq> ''$''" by blast
  then show ?thesis
  proof cases
    case 1
    obtain l l' where "hd (levels sub) = CHR ''$'' # l" "hd (levels topic) = CHR ''$'' # l'"
      using hd_levels_dollar 1 by meson
    moreover have "hd (levels sub) = hd (levels topic)"
      if "mqtt_match (levels sub) (levels topic)" "hd (levels sub) = CHR ''$'' # l"
      using that nonempty [of sub] nonempty [of topic] by (cases "levels sub"; cases "levels topic") auto
    ultimately show ?thesis using 1
      by (auto simp: matching_def sub_path_def tokenise_levels mqtt_topic_match_def)
  next
    case 2
    then have "hd (sub_path sub) \<noteq> hd (sub_topic_tokenise topic)"
      using hd_levels_dollar [of sub] hd_levels_dollar [of topic]
      by (auto simp: sub_path_def tokenise_levels)
    then show ?thesis using 2 by (auto simp: matching_def mqtt_topic_match_def)
  next
    case 3
    then show ?thesis
      by (simp add: matching_def sub_path_def tokenise_levels mqtt_topic_match_def)
  qed
qed

lemma wildcard_free_tokens:
  "wildcard_free s \<Longrightarrow> ''#'' \<notin> set (sub_topic_tokenise s) \<and> ''+'' \<notin> set (sub_topic_tokenise s)"
proof -
  have "set s = (\<Union>l \<in> set (levels s). set l) \<union> (if CHR ''/'' \<in> set s then {CHR ''/''} else {})" for s
    by (induction s) (auto split: list.splits if_splits)
  then have "l \<in> set (levels s) \<Longrightarrow> set l \<subseteq> set s" for l by blast
  then show "wildcard_free s \<Longrightarrow> ?thesis" by (fastforce simp: tokenise_levels wildcard_free_def)
qed

lemma queue_loop_once:
  "distinct ts \<Longrightarrow> queue_loop ts tokens src topic qos retain s d =
    (if hd tokens \<in> set ts then
       sub_search [hd tokens] tokens src topic qos retain s True
            (if retain then snd (sub_add None 0 (hd tokens # tokens) d) else d)
     else d)"
proof (induction ts arbitrary: d)
  case (Cons t ts)
  then show ?case by (cases "t = hd tokens") auto
qed simp

lemma info_at_child:
  "node_at [t] hs = Some h \<Longrightarrow> r \<noteq> [] \<Longrightarrow> info_at (t # r) hs = info_at r (sh_children h)"
  by (induction hs) (auto simp: info_at_Cons split: if_splits)

lemma has_child_iff: "has_child t hs \<longleftrightarrow> t \<in> sh_topic ` set hs"
  by (auto simp: has_child_def list_ex_iff)

lemma node_at_child: "has_child t hs \<longleftrightarrow> node_at [t] hs \<noteq> None"
  by (induction hs) (auto simp: has_child_def)

lemma wf_node_at: "wf_tree hs \<Longrightarrow> node_at [t] hs = Some h \<Longrightarrow> wf_tree (sh_children h)"
  by (induction hs) (auto simp: wf_tree_Cons split: if_splits)

lemma wf_tree_distinct: "wf_tree hs \<Longrightarrow> distinct (map sh_topic hs)"
  by (induction hs) (auto simp: wf_tree_Cons)

lemma sub_add_None: "sub_add None qos p d = (MOSQ_ERR_SUCCESS, d\<lparr>subs := ensure_path p (subs d)\<rparr>)"
  by (simp add: sub_add_def sub_add_leaf_def)

lemma hash_last_no_hash: "''#'' \<notin> set p \<Longrightarrow> hash_last p"
  by (induction p) auto

lemma hold_stored_simps [simp]:
  "subs (hold_stored s d) = subs d" "ctx_of (hold_stored s d) = ctx_of d" "contexts (hold_stored s d) = contexts d"
  by (auto simp: hold_stored_def upd_store_def set_fault_def ctx_of_def split: option.splits)

text \<open>The state the search starts from.\<close>

definition queue_start :: "string \<Rightarrow> bool \<Rightarrow> store_ref \<Rightarrow> db \<Rightarrow> db" where
  "queue_start topic retain s d =
     (if retain then (hold_stored s d)\<lparr>subs := ensure_path (sub_path topic) (subs d)\<rparr> else hold_stored s d)"

lemma queue_fold:
  assumes "wf_tree (subs d)" and "has_child (hd (sub_topic_tokenise topic)) (subs d)" and "wildcard_free topic"
  obtains vs where
    "mqtt3_db_messages_queue src topic qos retain s d =
       (0, msg_store_deref s (fold (\<lambda>(p, ls, b) e. snd (subs_process p ls src topic qos retain s b e)) vs
             (queue_start topic retain s d)))"
    and "distinct (map fst vs)"
    and "\<And>p ls b. (p, ls, b) \<in> set vs \<longleftrightarrow>
       (\<exists>ret. info_at p (subs (queue_start topic retain s d)) = Some (ls, ret) \<and> matching topic p \<and> b = (p = sub_path topic))"
proof -
  let ?tt = "sub_topic_tokenise topic" and ?d = "queue_start topic retain s d"
  obtain t ts where tt: "?tt = t # ts" using tokenise_not_Nil by (cases ?tt) auto
  have free: "''#'' \<notin> set ?tt" "''+'' \<notin> set ?tt" using wildcard_free_tokens assms(3) by auto
  then have wf: "wf_tree (subs ?d)"
    using assms(1) by (auto simp: queue_start_def sub_path_def tt intro!: wf_ensure hash_last_no_hash)
  have "node_at [t] (subs ?d) \<noteq> None"
  proof -
    have "has_child t (subs ?d)" using assms(2)
    proof -
      have "sh_topic ` set (subs d) \<subseteq> sh_topic ` set (subs ?d)"
        using topics_ensure [of t "t # ts" "subs d"] by (auto simp: queue_start_def sub_path_def tt)
      then show ?thesis using assms(2) by (simp add: has_child_iff tt) blast
    qed
    then show ?thesis by (simp add: node_at_child)
  qed
  then obtain h where h: "node_at [t] (subs ?d) = Some h" by auto
  let ?vs = "visits [t] ?tt True (sh_children h)"
  have q: "queue_loop (map sh_topic (subs (hold_stored s d))) ?tt src topic qos retain s (hold_stored s d)
      = fold (\<lambda>(p, ls, b) e. snd (subs_process p ls src topic qos retain s b e)) ?vs ?d"
  proof -
    have e: "(if retain then snd (sub_add None 0 (hd ?tt # ?tt) (hold_stored s d)) else hold_stored s d) = ?d"
      by (simp add: sub_add_None queue_start_def sub_path_def)
    have m: "hd ?tt \<in> set (map sh_topic (subs (hold_stored s d)))"
      using assms(2) by (simp add: has_child_iff)
    have dist: "distinct (map sh_topic (subs (hold_stored s d)))" using wf_tree_distinct assms(1) by simp
    show ?thesis unfolding queue_loop_once [OF dist] e if_P [OF m]
      using h by (simp add: sub_search_def search_tree_fold tt)
  qed
  show ?thesis
  proof (rule that [of ?vs])
    show "mqtt3_db_messages_queue src topic qos retain s d =
       (0, msg_store_deref s (fold (\<lambda>(p, ls, b) e. snd (subs_process p ls src topic qos retain s b e)) ?vs ?d))"
      by (simp only: mqtt3_db_messages_queue_def Let_def q)
    show "distinct (map fst ?vs)" by (rule visits_distinct) (rule wf_node_at [OF wf h])
    fix p ls b
    have "(p, ls, b) \<in> set ?vs \<longleftrightarrow>
      (\<exists>r ret. p = [t] @ r \<and> info_at r (sh_children h) = Some (ls, ret) \<and> mqtt_match r ?tt \<and> b = (True \<and> r = ?tt))"
      by (rule visits_iff [OF wf_node_at [OF wf h] free])
    also have "\<dots> \<longleftrightarrow> (\<exists>r ret. p = [t] @ r \<and> info_at (t # r) (subs ?d) = Some (ls, ret) \<and> mqtt_match r ?tt \<and> b = (True \<and> r = ?tt))"
      using info_at_child [OF h] by (metis info_at_root mqtt_match.simps(1) option.distinct(1) tokenise_not_Nil)
    also have "\<dots> \<longleftrightarrow> (\<exists>ret. info_at p (subs ?d) = Some (ls, ret) \<and> matching topic p \<and> b = (p = sub_path topic))"
      by (cases p) (auto simp: matching_def sub_path_def tt)
    finally show "(p, ls, b) \<in> set ?vs \<longleftrightarrow>
       (\<exists>ret. info_at p (subs ?d) = Some (ls, ret) \<and> matching topic p \<and> b = (p = sub_path topic))" .
  qed
qed

lemma hash_last_sub_path:
  assumes "nul_free sub" and "mosquitto_sub_topic_check sub = MOSQ_ERR_SUCCESS"
  shows "hash_last (sub_path sub)"
proof -
  have ok: "hash_last (levels sub)"
    using sub_check_levels [OF assms(1)] assms(2) hash_last_levels by simp
  show ?thesis
  proof (cases "take 1 sub = ''$''")
    case True
    obtain l where "hd (levels sub) = CHR ''$'' # l" using hd_levels_dollar [OF True] by blast
    then show ?thesis using ok True by (simp add: sub_path_def tokenise_levels)
  next
    case False
    then show ?thesis using ok by (simp add: sub_path_def tokenise_levels)
  qed
qed

subsection \<open>Delivery follows the MQTT rule\<close>

text \<open>
  C3. Delivery goes to the subscriptions that match, each once: publishing to a topic without
  wildcards is the processing of a list of nodes with their leaves, no node twice; the node of a
  subscription is among them exactly when it exists and the MQTT rule matches the subscription
  with the topic; and the retained message is set at the topic's own node alone.
\<close>

theorem delivery_matches_spec:
  assumes "wf_tree (subs d)" and "has_child (hd (sub_topic_tokenise topic)) (subs d)" and "wildcard_free topic"
  shows "\<exists>vs. mqtt3_db_messages_queue src topic qos retain s d =
       (0, msg_store_deref s (fold (\<lambda>(p, ls, b) e. snd (subs_process p ls src topic qos retain s b e)) vs
             (queue_start topic retain s d))) \<and>
     distinct (map fst vs) \<and>
     (\<forall>sub. sub_path sub \<in> fst ` set vs \<longleftrightarrow>
        node_at (sub_path sub) (subs (queue_start topic retain s d)) \<noteq> None \<and> mqtt_topic_match sub topic) \<and>
     (\<forall>(p, ls, b) \<in> set vs. ls = leaves_at p (queue_start topic retain s d) \<and> b = (p = sub_path topic))"
proof -
  obtain vs where vs: "mqtt3_db_messages_queue src topic qos retain s d =
       (0, msg_store_deref s (fold (\<lambda>(p, ls, b) e. snd (subs_process p ls src topic qos retain s b e)) vs
             (queue_start topic retain s d)))" "distinct (map fst vs)"
    and mem: "\<And>p ls b. (p, ls, b) \<in> set vs \<longleftrightarrow>
       (\<exists>ret. info_at p (subs (queue_start topic retain s d)) = Some (ls, ret) \<and> matching topic p \<and> b = (p = sub_path topic))"
    by (rule queue_fold [OF assms, where src = src and qos = qos and retain = retain and s = s]) blast
  have "p \<in> fst ` set vs \<longleftrightarrow> info_at p (subs (queue_start topic retain s d)) \<noteq> None \<and> matching topic p" for p
  proof -
    have "p \<in> fst ` set vs \<longleftrightarrow> (\<exists>ls b. (p, ls, b) \<in> set vs)" by force
    then show ?thesis unfolding mem by (cases "info_at p (subs (queue_start topic retain s d))") auto
  qed
  then have "sub_path sub \<in> fst ` set vs \<longleftrightarrow>
      node_at (sub_path sub) (subs (queue_start topic retain s d)) \<noteq> None \<and> mqtt_topic_match sub topic" for sub
    by (simp add: matching_sub_path node_at_absent)
  moreover have "\<forall>(p, ls, b) \<in> set vs. ls = leaves_at p (queue_start topic retain s d) \<and> b = (p = sub_path topic)"
    using mem by (auto simp: leaves_at_info)
  ultimately show ?thesis using vs by blast
qed

text \<open>A broker that has just been opened, with the client of the other samples.\<close>

definition tree_db :: db where
  "tree_db = snd (mqtt3_db_open sample_db)"

lemma tree_db_facts:
  "subs tree_db = [SubHier '''' [] None [], SubHier ''$SYS'' [] None []]" "ctx_of tree_db 7 = sample_ctx"
  "wf_tree (subs tree_db)" "leaves_at p tree_db = []"
proof -
  show s: "subs tree_db = [SubHier '''' [] None [], SubHier ''$SYS'' [] None []]"
    by (simp add: tree_db_def mqtt3_db_open_def)
  show "ctx_of tree_db 7 = sample_ctx"
    using sample_db_facts(2) by (simp add: tree_db_def mqtt3_db_open_def ctx_of_def)
  show "wf_tree (subs tree_db)" by (simp add: s)
  show "leaves_at p tree_db = []" by (cases p) (auto simp: leaves_at_info s info_at_Cons)
qed

theorem delivery_matches_spec_witness:
  "\<exists>vs. mqtt3_db_messages_queue ''c1'' ''a/b'' 1 True 2 tree_db =
       (0, msg_store_deref 2 (fold (\<lambda>(p, ls, b) e. snd (subs_process p ls ''c1'' ''a/b'' 1 True 2 b e)) vs
             (queue_start ''a/b'' True 2 tree_db))) \<and> sub_path ''a/b'' \<in> fst ` set vs"
proof -
  have "has_child (hd (sub_topic_tokenise ''a/b'')) (subs tree_db)"
    by (simp add: tokenise_levels tree_db_facts has_child_def)
  moreover have "node_at (sub_path ''a/b'') (subs (queue_start ''a/b'' True 2 tree_db)) \<noteq> None"
    using ensure_present [of "sub_path ''a/b''" "subs tree_db"] by (simp add: queue_start_def sub_path_def)
  moreover have "mqtt_topic_match ''a/b'' ''a/b''" by (simp add: mqtt_topic_match_def)
  ultimately show ?thesis
    using delivery_matches_spec [of tree_db "''a/b''" "''c1''" 1 True 2] tree_db_facts(3)
    by (auto simp: wildcard_free_def)
qed

end
