(* ===== verification/Subscriptions.thy ===== *)
theory Subscriptions
  imports Delivery
begin

text \<open>
  The subscription tree as a table from paths to the leaves there: what subscribing,
  unsubscribing and the removal of a client do to it.
\<close>

subsection \<open>The tree as a table of subscriptions\<close>

text \<open>What adding and removing do to the leaves of one node.\<close>

definition add_leaf :: "(ctx_ref \<Rightarrow> bool) \<Rightarrow> ctx_ref \<Rightarrow> nat \<Rightarrow> subleaf list \<Rightarrow> subleaf list" where
  "add_leaf same r qos ls =
     (case set_leaf_qos same qos ls of Some ls' \<Rightarrow> ls' | None \<Rightarrow> ls @ [\<lparr>lf_context = r, lf_qos = qos\<rparr>])"

text \<open>Contexts with the same client id.\<close>

definition same_id :: "db \<Rightarrow> ctx_ref \<Rightarrow> ctx_ref \<Rightarrow> bool" where
  "same_id d r c \<longleftrightarrow> ctx_id (ctx_of d c) = ctx_id (ctx_of d r)"

lemma info_at_set_subs:
  "info_at q (update_at p (\<lambda>h. set_subs (g (sh_subs h)) h) hs) =
     (if q = p then map_option (\<lambda>(ls, ret). (g ls, ret)) (info_at p hs) else info_at q hs)"
  by (subst info_at_update_at) (auto simp: info_at_def option.map_comp comp_def)

lemma leaves_set_subs:
  "node_at p hs \<noteq> None \<or> g [] = [] \<Longrightarrow>
   leaves_of (info_at q (update_at p (\<lambda>h. set_subs (g (sh_subs h)) h) hs)) =
     (if q = p then g (leaves_of (info_at p hs)) else leaves_of (info_at q hs))"
  by (cases "info_at p hs") (auto simp: info_at_set_subs node_at_absent [symmetric])

lemma wf_set_subs [simp]: "wf_tree hs \<Longrightarrow> wf_tree (update_at p (\<lambda>h. set_subs (g h) h) hs)"
  by (rule wf_update_at) simp_all

lemma refs_set_subs [simp]: "tree_refs s (update_at p (\<lambda>h. set_subs (g h) h) hs) = tree_refs s hs"
  by (rule tree_refs_same) simp_all

lemma update_at_cong:
  "(\<And>h. node_at p hs = Some h \<Longrightarrow> f h = f' h) \<Longrightarrow> update_at p f hs = update_at p f' hs"
  by (induction p f hs rule: update_at.induct) (auto split: if_splits)

lemma upd_node_const:
  "ls = g (leaves_at p d) \<Longrightarrow>
     update_at p (set_subs ls) (subs d) = update_at p (\<lambda>h. set_subs (g (sh_subs h)) h) (subs d)"
  by (rule update_at_cong) (simp add: leaves_at_def)

lemma upd_node_simps [simp]:
  "ctx_of (upd_node p f d) = ctx_of d" "contexts (upd_node p f d) = contexts d" "subs (upd_node p f d) = update_at p f (subs d)"
  "glob (upd_node p f d) = glob d" "msg_store (upd_node p f d) = msg_store d"
  by (simp_all add: upd_node_def ctx_of_def fun_eq_iff)

lemma ctx_of_subs [simp]: "ctx_of (d\<lparr>subs := x\<rparr>) = ctx_of d" "ctx_of (d\<lparr>subscription_count := n\<rparr>) = ctx_of d"
  "ctx_of (d\<lparr>retained_count := k\<rparr>) = ctx_of d" "ctx_of (d\<lparr>persistence_changes := i\<rparr>) = ctx_of d"
  by (simp_all add: ctx_of_def fun_eq_iff)

text \<open>The context and the counter after a subscription.\<close>

lemma sub_add_leaf_outcome:
  assumes "ctx_id (ctx_of d r) = Some cid"
  shows "case sub_add_leaf (Some r) qos p d of (rc, d') \<Rightarrow>
    (rc = 0 \<or> rc = - 1) \<and>
    subs d' = update_at p (\<lambda>h. set_subs (add_leaf (same_id d r) r qos (sh_subs h)) h) (subs d) \<and>
    (if set_leaf_qos (same_id d r) qos (leaves_at p d) = None
     then d' = (upd_ctx r (\<lambda>c. c\<lparr>ctx_subs := add_slot p (ctx_subs c)\<rparr>) (d\<lparr>subs := subs d'\<rparr>))
                 \<lparr>subscription_count := subscription_count d + 1\<rparr>
     else d' = d\<lparr>subs := subs d'\<rparr>)"
proof -
  have same: "(\<lambda>c. ctx_id (ctx_of d c) = Some cid) = same_id d r"
    using assms(1) by (auto simp: same_id_def)
  show ?thesis
  proof (cases "set_leaf_qos (same_id d r) qos (leaves_at p d)")
    case None
    have "update_at p (\<lambda>h. set_subs (sh_subs h @ [\<lparr>lf_context = r, lf_qos = qos\<rparr>]) h) (subs d)
      = update_at p (set_subs (leaves_at p d @ [\<lparr>lf_context = r, lf_qos = qos\<rparr>])) (subs d)"
      by (rule upd_node_const [symmetric]) simp
    also have "\<dots> = update_at p (\<lambda>h. set_subs (add_leaf (same_id d r) r qos (sh_subs h)) h) (subs d)"
      by (rule upd_node_const) (simp add: add_leaf_def None)
    finally show ?thesis
      by (simp add: sub_add_leaf_def assms(1) same None upd_ctx_def put_ctx_def) (simp add: upd_node_def)
  next
    case (Some ls)
    have "update_at p (set_subs ls) (subs d)
      = update_at p (\<lambda>h. set_subs (add_leaf (same_id d r) r qos (sh_subs h)) h) (subs d)"
      by (rule upd_node_const) (simp add: add_leaf_def Some)
    then show ?thesis
      by (simp add: sub_add_leaf_def assms(1) same Some upd_node_def)
  qed
qed

text \<open>The root child of the first token, made at the head of the list when it is missing.\<close>

definition with_root :: "string \<Rightarrow> subhier list \<Rightarrow> subhier list" where
  "with_root t hs = (if has_child t hs then hs else SubHier t [] None [] # hs)"

lemma leaves_with_root [simp]: "leaves_of (info_at q (with_root t hs)) = leaves_of (info_at q hs)"
  using info_at_absent [of t hs] by (cases q) (auto simp: with_root_def has_child_iff info_at_Cons)

lemma wf_with_root [simp]: "wf_tree (with_root t hs) \<longleftrightarrow> wf_tree hs"
  by (auto simp: with_root_def has_child_iff)

lemma refs_with_root [simp]: "tree_refs s (with_root t hs) = tree_refs s hs"
  by (simp add: with_root_def)

text \<open>The tree a subscription works on.\<close>

definition prepared :: "string \<Rightarrow> db \<Rightarrow> db" where
  "prepared sub d = d\<lparr>subs := ensure_path (sub_path sub) (with_root (hd (sub_path sub)) (subs d))\<rparr>"

lemma prepared_simps [simp]:
  "ctx_of (prepared sub d) = ctx_of d" "contexts (prepared sub d) = contexts d" "glob (prepared sub d) = glob d"
  "leaves_at p (prepared sub d) = leaves_at p d" "msg_store (prepared sub d) = msg_store d"
  "tree_refs s (subs (prepared sub d)) = tree_refs s (subs d)"
  "subscription_count (prepared sub d) = subscription_count d"
  by (simp_all add: prepared_def leaves_at_info)

lemma prepared_node: "node_at (sub_path sub) (subs (prepared sub d)) \<noteq> None"
  by (simp add: prepared_def ensure_present sub_path_def)

lemma wf_prepared: "wf_tree (subs d) \<Longrightarrow> hash_last (sub_path sub) \<Longrightarrow> wf_tree (subs (prepared sub d))"
  by (simp add: prepared_def wf_ensure)

lemma sub_add_prepared:
  "mqtt3_sub_add r sub qos d =
     (case sub_add_leaf (Some r) qos (sub_path sub) (prepared sub d) of
        (rc, d') \<Rightarrow> (if rc = - 1 then MOSQ_ERR_SUCCESS else rc, d'))"
  by (simp add: mqtt3_sub_add_def sub_add_def prepared_def with_root_def sub_path_def Let_def)

text \<open>A subscription, spelled out: the tree, the context's list and the counter.\<close>

definition is_new :: "ctx_ref \<Rightarrow> string \<Rightarrow> db \<Rightarrow> bool" where
  "is_new r sub d \<longleftrightarrow> (\<forall>l \<in> set (leaves_at (sub_path sub) d). \<not> same_id d r (lf_context l))"

lemma set_leaf_qos_None: "set_leaf_qos P q ls = None \<longleftrightarrow> (\<forall>l \<in> set ls. \<not> P (lf_context l))"
  by (induction ls) auto

lemma sub_add_outcome:
  assumes "ctx_id (ctx_of d r) = Some cid"
  obtains d' where "mqtt3_sub_add r sub qos d = (MOSQ_ERR_SUCCESS, d')"
    and "subs d' = update_at (sub_path sub) (\<lambda>h. set_subs (add_leaf (same_id d r) r qos (sh_subs h)) h) (subs (prepared sub d))"
    and "d' = (if is_new r sub d
       then (upd_ctx r (\<lambda>c. c\<lparr>ctx_subs := add_slot (sub_path sub) (ctx_subs c)\<rparr>) (d\<lparr>subs := subs d'\<rparr>))
              \<lparr>subscription_count := subscription_count d + 1\<rparr>
       else d\<lparr>subs := subs d'\<rparr>)"
proof -
  have same: "same_id (prepared sub d) r = same_id d r" by (simp add: same_id_def fun_eq_iff)
  obtain rc d' where o: "sub_add_leaf (Some r) qos (sub_path sub) (prepared sub d) = (rc, d')" by fastforce
  have cid: "ctx_id (ctx_of (prepared sub d) r) = Some cid" using assms by simp
  note out = sub_add_leaf_outcome [OF cid, of "sub_path sub" qos, unfolded o prod.case same]
  have p: "(prepared sub d)\<lparr>subs := x\<rparr> = d\<lparr>subs := x\<rparr>" for x by (simp add: prepared_def)
  show ?thesis
  proof (rule that)
    show "mqtt3_sub_add r sub qos d = (MOSQ_ERR_SUCCESS, d')" using out by (auto simp: sub_add_prepared o)
    show "subs d' = update_at (sub_path sub) (\<lambda>h. set_subs (add_leaf (same_id d r) r qos (sh_subs h)) h) (subs (prepared sub d))"
      using out by blast
    have new: "set_leaf_qos (same_id d r) qos (leaves_at (sub_path sub) d) = None \<longleftrightarrow> is_new r sub d"
      by (simp add: set_leaf_qos_None is_new_def)
    note o3 = out [unfolded p prepared_simps, unfolded new, THEN conjunct2, THEN conjunct2]
    show "d' = (if is_new r sub d
       then (upd_ctx r (\<lambda>c. c\<lparr>ctx_subs := add_slot (sub_path sub) (ctx_subs c)\<rparr>) (d\<lparr>subs := subs d'\<rparr>))
              \<lparr>subscription_count := subscription_count d + 1\<rparr>
       else d\<lparr>subs := subs d'\<rparr>)"
      by (cases "is_new r sub d") (use o3 in \<open>simp_all only: if_True if_False\<close>)
  qed
qed

lemma sub_add_wf:
  assumes "ctx_id (ctx_of d r) = Some cid" and "wf_tree (subs d)" and "hash_last (sub_path sub)"
  shows "wf_tree (subs (snd (mqtt3_sub_add r sub qos d)))"
proof -
  obtain d' where "mqtt3_sub_add r sub qos d = (MOSQ_ERR_SUCCESS, d')"
    "subs d' = update_at (sub_path sub) (\<lambda>h. set_subs (add_leaf (same_id d r) r qos (sh_subs h)) h) (subs (prepared sub d))"
    by (rule sub_add_outcome [OF assms(1), of sub qos])
  then show ?thesis using wf_prepared [OF assms(2,3)] by simp
qed

lemma sub_add_leaves:
  assumes "ctx_id (ctx_of d r) = Some cid"
  shows "leaves_at p (snd (mqtt3_sub_add r sub qos d)) =
    (if p = sub_path sub then add_leaf (same_id d r) r qos (leaves_at p d) else leaves_at p d)"
proof -
  obtain d' where "mqtt3_sub_add r sub qos d = (MOSQ_ERR_SUCCESS, d')"
    "subs d' = update_at (sub_path sub) (\<lambda>h. set_subs (add_leaf (same_id d r) r qos (sh_subs h)) h) (subs (prepared sub d))"
    by (rule sub_add_outcome [OF assms(1), of sub qos])
  then show ?thesis
    using leaves_set_subs [of "sub_path sub" "subs (prepared sub d)" "add_leaf (same_id d r) r qos" p] prepared_node
      prepared_simps(4) [of p sub d] prepared_simps(4) [of "sub_path sub" sub d] by (simp add: leaves_at_info)
qed

text \<open>Removing a subscription.\<close>

lemma sub_remove_leaf_subs:
  "subs (sub_remove_leaf r p d) = update_at p (\<lambda>h. set_subs (remove_first (is_leaf_of r) (sh_subs h)) h) (subs d)"
proof (cases "list_ex (is_leaf_of r) (leaves_at p d)")
  case False
  have keep: "\<not> list_ex P xs \<Longrightarrow> remove_first P xs = xs" for P and xs :: "subleaf list" by (induction xs) auto
  have "update_at p (\<lambda>h. set_subs (remove_first (is_leaf_of r) (sh_subs h)) h) (subs d) = update_at p (\<lambda>h. h) (subs d)"
    by (rule update_at_cong) (use False keep in \<open>simp add: leaves_at_def set_subs_def\<close>)
  also have "\<dots> = subs d"
  proof -
    have "update_at p (\<lambda>h. h) hs = hs" for hs
    proof (induction p "\<lambda>h::subhier. h" hs rule: update_at.induct)
      case (3 t ts h hs)
      then show ?case by (cases h) (auto simp: set_children_def)
    qed simp_all
    then show ?thesis .
  qed
  finally show ?thesis using False by (simp add: sub_remove_leaf_def)
qed (simp add: sub_remove_leaf_def upd_ctx_def)

lemma prune_below_root:
  assumes "wf_tree hs"
  shows "wf_tree (update_at [t] (\<lambda>h. set_children (prune_path p (sh_children h)) h) hs)"
    and "tree_refs s (update_at [t] (\<lambda>h. set_children (prune_path p (sh_children h)) h) hs) = tree_refs s hs"
    and "leaves_of (info_at q (update_at [t] (\<lambda>h. set_children (prune_path p (sh_children h)) h) hs)) = leaves_of (info_at q hs)"
  using assms
proof (induction hs)
  case (Cons h hs)
  let ?f = "\<lambda>h. set_children (prune_path p (sh_children h)) h"
  have "map sh_topic (update_at [t] ?f hs) = map sh_topic hs" by (rule topics_update_at) simp
  then have tops: "sh_topic ` set (update_at [t] ?f hs) = sh_topic ` set hs" by (metis set_map)
  have nil: "prune_path p [] = []" by (cases p) simp_all
  {
    case 1
    then show ?case using Cons.IH(1) tops nil wf_prune [of "sh_children h" p] by (auto simp: wf_tree_Cons)
  next
    case 2
    then show ?case using Cons.IH(2) by (auto simp: tree_refs_Cons wf_tree_Cons)
  next
    case 3
    then show ?case using Cons.IH(3) leaves_prune [of "sh_children h"]
      by (cases q) (auto simp: info_at_Cons wf_tree_Cons)
  }
qed simp_all

lemma no_child_no_node: "\<not> has_child t hs \<Longrightarrow> info_at (t # ts) hs = None"
  by (rule info_at_absent) (simp add: has_child_iff)

text \<open>An unsubscription, spelled out the same way.\<close>

definition has_leaf :: "ctx_ref \<Rightarrow> string \<Rightarrow> db \<Rightarrow> bool" where
  "has_leaf r sub d \<longleftrightarrow> (\<exists>l \<in> set (leaves_at (sub_path sub) d). is_leaf_of r l)"

lemma sub_remove_outcome:
  assumes "wf_tree (subs d)"
  obtains d' where "mqtt3_sub_remove r sub d = (MOSQ_ERR_SUCCESS, d')"
    and "wf_tree (subs d')" and "\<And>s. tree_refs s (subs d') = tree_refs s (subs d)"
    and "\<And>p. leaves_at p d' = (if p = sub_path sub then remove_first (is_leaf_of r) (leaves_at p d) else leaves_at p d)"
    and "d' = (if has_leaf r sub d
       then upd_ctx r (\<lambda>c. c\<lparr>ctx_subs := clear_slot (sub_path sub) (ctx_subs c)\<rparr>) (d\<lparr>subs := subs d', subscription_count := subscription_count d - 1\<rparr>)
       else d\<lparr>subs := subs d'\<rparr>)"
proof (cases "has_child (hd (sub_topic_tokenise sub)) (subs d)")
  case False
  then have none: "leaves_at (sub_path sub) d = []"
    using no_child_no_node [OF False] by (simp add: leaves_at_info sub_path_def)
  show ?thesis
    by (rule that [of d]) (use False none assms in \<open>simp_all add: mqtt3_sub_remove_def Let_def has_leaf_def\<close>)
next
  case True
  let ?p = "sub_path sub" and ?t = "hd (sub_topic_tokenise sub)"
  let ?f = "\<lambda>h. set_children (prune_path (sub_topic_tokenise sub) (sh_children h)) h"
  define d1 where "d1 = sub_remove_leaf r ?p d"
  have subs1: "subs d1 = update_at ?p (\<lambda>h. set_subs (remove_first (is_leaf_of r) (sh_subs h)) h) (subs d)"
    unfolding d1_def by (rule sub_remove_leaf_subs)
  have wf1: "wf_tree (subs d1)" using assms by (simp add: subs1)
  show ?thesis
  proof (rule that [of "upd_node [?t] ?f d1"])
    show "mqtt3_sub_remove r sub d = (MOSQ_ERR_SUCCESS, upd_node [?t] ?f d1)"
      using True by (simp add: mqtt3_sub_remove_def Let_def d1_def sub_path_def)
    show "wf_tree (subs (upd_node [?t] ?f d1))" "tree_refs s (subs (upd_node [?t] ?f d1)) = tree_refs s (subs d)" for s
      using prune_below_root [OF wf1] by (simp_all add: subs1)
    show "leaves_at p (upd_node [?t] ?f d1) = (if p = ?p then remove_first (is_leaf_of r) (leaves_at p d) else leaves_at p d)" for p
      using prune_below_root(3) [OF wf1] leaves_set_subs [of ?p "subs d" "remove_first (is_leaf_of r)" p]
      by (simp add: leaves_at_info subs1)
    have "list_ex (is_leaf_of r) (leaves_at ?p d) \<longleftrightarrow> has_leaf r sub d" by (simp add: has_leaf_def list_ex_iff)
    then show "upd_node [?t] ?f d1 = (if has_leaf r sub d
       then upd_ctx r (\<lambda>c. c\<lparr>ctx_subs := clear_slot ?p (ctx_subs c)\<rparr>) (d\<lparr>subs := subs (upd_node [?t] ?f d1), subscription_count := subscription_count d - 1\<rparr>)
       else d\<lparr>subs := subs (upd_node [?t] ?f d1)\<rparr>)"
      by (simp add: d1_def sub_remove_leaf_def upd_ctx_def put_ctx_def) (simp add: upd_node_def)
  qed
qed

text \<open>
  What a client of the tree relies on: a table from paths to leaves. \<open>valid\<close> is the invariant,
  \<open>named\<close> says that a context has a client id.
\<close>

locale subscription_table =
  fixes valid :: "'d \<Rightarrow> bool" and named :: "'d \<Rightarrow> ctx_ref \<Rightarrow> bool" and same :: "'d \<Rightarrow> ctx_ref \<Rightarrow> ctx_ref \<Rightarrow> bool"
    and look :: "path \<Rightarrow> 'd \<Rightarrow> subleaf list"
    and add :: "ctx_ref \<Rightarrow> string \<Rightarrow> nat \<Rightarrow> 'd \<Rightarrow> 'd" and rem :: "ctx_ref \<Rightarrow> string \<Rightarrow> 'd \<Rightarrow> 'd"
  assumes add_valid: "valid d \<Longrightarrow> named d r \<Longrightarrow> hash_last (sub_path sub) \<Longrightarrow> valid (add r sub qos d)"
    and rem_valid: "valid d \<Longrightarrow> valid (rem r sub d)"
    and look_add: "valid d \<Longrightarrow> named d r \<Longrightarrow> look p (add r sub qos d) =
      (if p = sub_path sub then add_leaf (same d r) r qos (look p d) else look p d)"
    and look_rem: "valid d \<Longrightarrow> look p (rem r sub d) =
      (if p = sub_path sub then remove_first (is_leaf_of r) (look p d) else look p d)"
    and named_add: "valid d \<Longrightarrow> named d r \<Longrightarrow> named (add r sub qos d) q = named d q"
    and same_add: "valid d \<Longrightarrow> named d r \<Longrightarrow> same (add r sub qos d) = same d"
    and same_refl: "same d r r"
begin

text \<open>A second subscription only replaces the QoS of the first.\<close>

lemma add_leaf_twice:
  "P r \<Longrightarrow> add_leaf P r q2 (add_leaf P r q1 ls) = add_leaf P r q2 ls"
  by (induction ls) (auto simp: add_leaf_def split: option.splits)

lemma resubscribe:
  "valid d \<Longrightarrow> named d r \<Longrightarrow> hash_last (sub_path sub) \<Longrightarrow>
     look p (add r sub q2 (add r sub q1 d)) = look p (add r sub q2 d)"
  by (simp add: look_add add_valid named_add same_add add_leaf_twice same_refl)

text \<open>Unsubscribing takes back a subscription that was new.\<close>

lemma remove_added:
  "\<forall>l \<in> set ls. \<not> P (lf_context l) \<Longrightarrow> P r \<Longrightarrow> remove_first (is_leaf_of r) (add_leaf P r q ls) = ls"
proof (induction ls)
  case (Cons l ls)
  then have "set_leaf_qos P q (l # ls) = None" "set_leaf_qos P q ls = None" by (auto simp: set_leaf_qos_None)
  moreover have "\<not> is_leaf_of r l" using Cons.prems by (auto simp: is_leaf_of_def)
  ultimately show ?case using Cons by (simp add: add_leaf_def)
qed (simp add: add_leaf_def is_leaf_of_def)

lemma subscribe_taken_back:
  "valid d \<Longrightarrow> named d r \<Longrightarrow> hash_last (sub_path sub) \<Longrightarrow>
     \<forall>l \<in> set (look (sub_path sub) d). \<not> same d r (lf_context l) \<Longrightarrow>
     look p (rem r sub (add r sub q d)) = look p d"
  by (simp add: look_rem look_add add_valid remove_added same_refl)

end

lemma sub_add_frame:
  assumes "ctx_id (ctx_of d r) = Some cid"
  shows "ctx_id (ctx_of (snd (mqtt3_sub_add r sub qos d)) q) = ctx_id (ctx_of d q)"
proof -
  obtain d' where o: "mqtt3_sub_add r sub qos d = (MOSQ_ERR_SUCCESS, d')"
    "d' = (if is_new r sub d
       then (upd_ctx r (\<lambda>c. c\<lparr>ctx_subs := add_slot (sub_path sub) (ctx_subs c)\<rparr>) (d\<lparr>subs := subs d'\<rparr>))
              \<lparr>subscription_count := subscription_count d + 1\<rparr>
       else d\<lparr>subs := subs d'\<rparr>)"
    by (rule sub_add_outcome [OF assms, of sub qos])
  define x where "x = subs d'"
  have "ctx_id (ctx_of d' q) = ctx_id (ctx_of d q)" by (subst o(2), fold x_def) simp
  then show ?thesis by (simp add: o(1))
qed

lemma same_id_refl: "same_id d r r"
  by (simp add: same_id_def)

lemma sub_add_named:
  "ctx_id (ctx_of d r) = Some cid \<Longrightarrow> same_id (snd (mqtt3_sub_add r sub qos d)) = same_id d"
  by (simp add: same_id_def sub_add_frame fun_eq_iff)

interpretation table: subscription_table "\<lambda>d. wf_tree (subs d)" "\<lambda>d r. ctx_id (ctx_of d r) \<noteq> None" same_id leaves_at
  "\<lambda>r sub qos d. snd (mqtt3_sub_add r sub qos d)" "\<lambda>r sub d. snd (mqtt3_sub_remove r sub d)"
proof unfold_locales
  fix d and r q :: ctx_ref and sub qos p
  show "wf_tree (subs d) \<Longrightarrow> wf_tree (subs (snd (mqtt3_sub_remove r sub d)))"
    by (rule sub_remove_outcome [of d r sub]) simp_all
  show "wf_tree (subs d) \<Longrightarrow> leaves_at p (snd (mqtt3_sub_remove r sub d)) =
      (if p = sub_path sub then remove_first (is_leaf_of r) (leaves_at p d) else leaves_at p d)"
    by (rule sub_remove_outcome [of d r sub]) simp_all
qed (auto simp: same_id_refl sub_add_leaves sub_add_wf sub_add_frame sub_add_named)

subsection \<open>Removing nodes from below\<close>

lemma info_at_append:
  "node_at p hs = Some h \<Longrightarrow> r \<noteq> [] \<Longrightarrow> info_at (p @ r) hs = info_at r (sh_children h)"
proof (induction p hs rule: node_at.induct)
  case (3 t ts g hs)
  then show ?case by (cases ts) (auto simp: info_at_Cons split: if_splits)
qed simp_all

lemma topics_remove: "sh_topic ` set (remove_at p hs) \<subseteq> sh_topic ` set hs"
  by (induction p hs rule: remove_at.induct) auto

lemma info_at_remove:
  "wf_tree hs \<Longrightarrow> info_at q (remove_at p hs) = (if p \<noteq> [] \<and> take (length p) q = p then None else info_at q hs)"
proof (induction p hs arbitrary: q rule: remove_at.induct)
  case (3 t ts h hs)
  have absent: "sh_topic h = t \<Longrightarrow> info_at (t # us) hs = None" for us
    using 3(3) by (intro info_at_absent) (simp add: wf_tree_Cons)
  show ?case
  proof (cases q)
    case (Cons u us)
    then show ?thesis using 3 absent by (cases ts) (auto simp: info_at_Cons wf_tree_Cons)
  qed simp
qed simp_all

lemma wf_remove: "wf_tree hs \<Longrightarrow> wf_tree (remove_at p hs)"
proof (induction p hs rule: remove_at.induct)
  case (3 t ts h hs)
  have "remove_at ts [] = []" by (cases ts) simp_all
  then show ?case using 3 topics_remove [of "t # ts" hs] by (auto simp: wf_tree_Cons)
qed simp_all

lemma tree_refs_remove:
  "node_at p hs = Some h \<Longrightarrow> sh_children h = [] \<Longrightarrow> sh_retained h = None \<Longrightarrow>
     tree_refs s (remove_at p hs) = tree_refs s hs"
  by (induction p hs rule: remove_at.induct) (auto simp: tree_refs_Cons split: if_splits)

lemma leaves_remove:
  assumes "wf_tree hs" and "node_at p hs = Some h" and "sh_children h = []" and "sh_subs h = []"
  shows "leaves_of (info_at q (remove_at p hs)) = leaves_of (info_at q hs)"
proof (cases "p \<noteq> [] \<and> take (length p) q = p")
  case True
  then obtain r where r: "q = p @ r" by (metis append_take_drop_id)
  then have "leaves_of (info_at q hs) = []"
  proof (cases "r = []")
    case True
    then show ?thesis using r assms(2,4) by (simp add: info_at_def)
  next
    case False
    then show ?thesis using info_at_append [OF assms(2), of r] r assms(3) by simp
  qed
  then show ?thesis using True by (simp add: info_at_remove [OF assms(1)])
qed (auto simp: info_at_remove [OF assms(1)])

lemma tmp_remove_subs_keeps:
  assumes "wf_tree hs" and "\<And>h. node_at p hs = Some h \<Longrightarrow> sh_retained h = None"
  shows "wf_tree (tmp_remove_subs p hs) \<and> tree_refs s (tmp_remove_subs p hs) = tree_refs s hs \<and>
    leaves_of (info_at q (tmp_remove_subs p hs)) = leaves_of (info_at q hs)"
  using assms
proof (induction p hs rule: tmp_remove_subs.induct)
  case (1 p hs)
  show ?case
  proof (cases "\<not> has_parent p \<or> (case node_at p hs of None \<Rightarrow> True | Some h \<Rightarrow> sh_children h \<noteq> [] \<or> sh_subs h \<noteq> [])")
    case True
    then have "tmp_remove_subs p hs = hs" by (subst tmp_remove_subs.simps) (auto split: option.splits)
    then show ?thesis using "1.prems" by simp
  next
    case False
    then obtain h where h: "has_parent p" "node_at p hs = Some h" "sh_children h = []" "sh_subs h = []"
      by (auto split: option.splits)
    let ?hs = "remove_at p hs"
    have base: "wf_tree ?hs" "tree_refs s ?hs = tree_refs s hs" "leaves_of (info_at q ?hs) = leaves_of (info_at q hs)"
      using wf_remove tree_refs_remove [OF h(2,3)] leaves_remove [OF _ h(2,3,4)] "1.prems" h(2) by auto
    show ?thesis
    proof (cases "node_at (butlast p) ?hs")
      case None
      then have "tmp_remove_subs p hs = ?hs" using h by (subst tmp_remove_subs.simps) simp
      then show ?thesis using base by simp
    next
      case (Some g)
      show ?thesis
      proof (cases "unused g \<and> has_parent (butlast p)")
        case False
        then have "tmp_remove_subs p hs = ?hs" using h Some by (subst tmp_remove_subs.simps) (auto simp: Let_def)
        then show ?thesis using base by simp
      next
        case True
        then have eq: "tmp_remove_subs p hs = tmp_remove_subs (butlast p) ?hs"
          using h Some by (subst tmp_remove_subs.simps) (simp add: Let_def)
        have no: "\<not> \<not> has_parent p" "\<not> (sh_children h \<noteq> [] \<or> sh_subs h \<noteq> [])" using h by simp_all
        have "wf_tree (tmp_remove_subs (butlast p) ?hs) \<and> tree_refs s (tmp_remove_subs (butlast p) ?hs) = tree_refs s ?hs \<and>
            leaves_of (info_at q (tmp_remove_subs (butlast p) ?hs)) = leaves_of (info_at q ?hs)"
          by (rule "1.IH" [OF no(1) h(2) no(2) refl Some True base(1)]) (use Some True in \<open>simp add: unused_def\<close>)
        then show ?thesis using base eq by simp
      qed
    qed
  qed
qed

text \<open>One step of the removal of a client.\<close>

lemma clean_sub_step:
  assumes "wf_tree (subs d)" and "\<exists>l \<in> set (leaves_at p d). is_leaf_of r l"
  obtains d' where "clean_sub r (Some p) d = d'" and "wf_tree (subs d')"
    and "\<And>s. tree_refs s (subs d') = tree_refs s (subs d)"
    and "\<And>q. leaves_at q d' = (if q = p then remove_first (is_leaf_of r) (leaves_at q d) else leaves_at q d)"
    and "d' = d\<lparr>subs := subs d', subscription_count := subscription_count d - 1\<rparr>"
proof -
  let ?f = "\<lambda>h. set_subs (remove_first (is_leaf_of r) (sh_subs h)) h"
  define d1 where "d1 = (upd_node p ?f d)\<lparr>subscription_count := subscription_count d - 1\<rparr>"
  have ex: "list_ex (is_leaf_of r) (leaves_at p d)" using assms(2) by (simp add: list_ex_iff)
  have s1: "subs d1 = update_at p ?f (subs d)" by (simp add: d1_def)
  have node: "node_at p (subs d) \<noteq> None" using assms(2) by (cases "node_at p (subs d)") (simp_all add: leaves_at_def)
  have wf1: "wf_tree (subs d1)" using assms(1) by (simp add: s1)
  have l1: "leaves_at q d1 = (if q = p then remove_first (is_leaf_of r) (leaves_at q d) else leaves_at q d)" for q
    using leaves_set_subs [of p "subs d" "remove_first (is_leaf_of r)" q] by (simp add: leaves_at_info s1)
  have "info_at p (subs d1) \<noteq> None"
    using node by (simp add: s1 info_at_set_subs node_at_absent)
  then obtain h where h: "node_at p (subs d1) = Some h" by (auto simp: node_at_absent)
  define d2 where "d2 = (if unused h \<and> has_parent p then d1\<lparr>subs := tmp_remove_subs p (subs d1)\<rparr> else d1)"
  have c: "clean_sub r (Some p) d = d2"
    using ex h by (simp add: clean_sub_def Let_def d1_def d2_def)
  have keep: "wf_tree (subs d2) \<and> tree_refs s (subs d2) = tree_refs s (subs d1) \<and>
      leaves_of (info_at q (subs d2)) = leaves_of (info_at q (subs d1))" for s q
    using tmp_remove_subs_keeps [OF wf1, of p s q] h wf1 by (auto simp: d2_def unused_def)
  show thesis
  proof (rule that [OF c])
    show "wf_tree (subs d2)" using keep by blast
    show "tree_refs s (subs d2) = tree_refs s (subs d)" for s using keep [of s] by (simp add: s1)
    show "leaves_at q d2 = (if q = p then remove_first (is_leaf_of r) (leaves_at q d) else leaves_at q d)" for q
      using keep [of _ q] l1 [of q] by (simp add: leaves_at_info)
    show "d2 = d\<lparr>subs := subs d2, subscription_count := subscription_count d - 1\<rparr>"
      by (simp add: d2_def d1_def upd_node_def)
  qed
qed

subsection \<open>Contexts and leaves point at each other\<close>

text \<open>
  The list of subscriptions of a context holds exactly the nodes with a leaf of that context, a
  context has at most one leaf at a node, and no node is listed twice. So no leaf belongs to a
  context that is gone, and no entry of a list is a dangling pointer.
\<close>

definition linked :: "db \<Rightarrow> bool" where
  "linked d \<longleftrightarrow> wf_tree (subs d) \<and>
     (\<forall>r p. Some p \<in> set (ctx_subs (ctx_of d r)) \<longleftrightarrow> r \<in> lf_context ` set (leaves_at p d)) \<and>
     (\<forall>p. distinct (map lf_context (leaves_at p d))) \<and>
     (\<forall>r. distinct (filter (\<lambda>s. s \<noteq> None) (ctx_subs (ctx_of d r))))"

lemma set_add_slot: "Some q \<in> set (add_slot p ss) \<longleftrightarrow> q = p \<or> Some q \<in> set ss"
  by (induction p ss rule: add_slot.induct) auto

lemma distinct_add_slot:
  "Some p \<notin> set ss \<Longrightarrow> distinct (filter (\<lambda>s. s \<noteq> None) ss) \<Longrightarrow> distinct (filter (\<lambda>s. s \<noteq> None) (add_slot p ss))"
proof (induction p ss rule: add_slot.induct)
  case (3 p q ss)
  then show ?case using set_add_slot [of q p ss] by auto
qed auto

lemma set_clear_slot:
  "distinct (filter (\<lambda>s. s \<noteq> None) ss) \<Longrightarrow> Some q \<in> set (clear_slot p ss) \<longleftrightarrow> Some q \<in> set ss \<and> q \<noteq> p"
  by (induction ss) (auto split: if_splits)

lemma distinct_clear_slot:
  "distinct (filter (\<lambda>s. s \<noteq> None) ss) \<Longrightarrow> distinct (filter (\<lambda>s. s \<noteq> None) (clear_slot p ss))"
proof (induction ss)
  case (Cons s ss)
  have "Some q \<in> set (clear_slot p ss) \<Longrightarrow> Some q \<in> set ss" for q by (induction ss) (auto split: if_splits)
  then show ?case using Cons by (cases s) auto
qed simp

lemma contexts_set_leaf_qos: "set_leaf_qos P q ls = Some ls' \<Longrightarrow> map lf_context ls' = map lf_context ls"
  by (induction ls arbitrary: ls') (auto split: if_splits)

lemma contexts_add_leaf:
  "map lf_context (add_leaf P r q ls) = map lf_context ls @ (if \<exists>l \<in> set ls. P (lf_context l) then [] else [r])"
proof (cases "set_leaf_qos P q ls")
  case None
  moreover have "\<not> (\<exists>l \<in> set ls. P (lf_context l))" using None by (simp add: set_leaf_qos_None)
  ultimately show ?thesis by (simp add: add_leaf_def)
next
  case (Some ls')
  then have "\<exists>l \<in> set ls. P (lf_context l)" using set_leaf_qos_None [of P q ls] by auto
  then show ?thesis using contexts_set_leaf_qos [OF Some] by (simp add: add_leaf_def Some)
qed

lemma remove_leaf_filter:
  "distinct (map lf_context ls) \<Longrightarrow> remove_first (is_leaf_of r) ls = filter (\<lambda>l. lf_context l \<noteq> r) ls"
proof (induction ls)
  case (Cons l ls)
  have "r \<notin> lf_context ` set ls \<Longrightarrow> filter (\<lambda>l. lf_context l \<noteq> r) ls = ls" by (induction ls) auto
  then show ?case using Cons by (auto simp: is_leaf_of_def)
qed simp

lemma linked_update:
  assumes "linked d" and "wf_tree (subs d')"
    and "\<And>q. q \<noteq> p \<Longrightarrow> leaves_at q d' = leaves_at q d"
    and "distinct (map lf_context (leaves_at p d'))"
    and "\<And>c. c \<noteq> r \<Longrightarrow> ctx_subs (ctx_of d' c) = ctx_subs (ctx_of d c)"
    and "\<And>c. c \<noteq> r \<Longrightarrow> c \<in> lf_context ` set (leaves_at p d') \<longleftrightarrow> c \<in> lf_context ` set (leaves_at p d)"
    and "distinct (filter (\<lambda>s. s \<noteq> None) (ctx_subs (ctx_of d' r)))"
    and "\<And>q. q \<noteq> p \<Longrightarrow> Some q \<in> set (ctx_subs (ctx_of d' r)) \<longleftrightarrow> Some q \<in> set (ctx_subs (ctx_of d r))"
    and "Some p \<in> set (ctx_subs (ctx_of d' r)) \<longleftrightarrow> r \<in> lf_context ` set (leaves_at p d')"
  shows "linked d'"
proof -
  have a: "Some q \<in> set (ctx_subs (ctx_of d c)) \<longleftrightarrow> c \<in> lf_context ` set (leaves_at q d)" for c q
    using assms(1) unfolding linked_def by blast
  have b: "distinct (map lf_context (leaves_at q d))" "distinct (filter (\<lambda>s. s \<noteq> None) (ctx_subs (ctx_of d c)))" for q c
    using assms(1) unfolding linked_def by blast+
  have 1: "Some q \<in> set (ctx_subs (ctx_of d' c)) \<longleftrightarrow> c \<in> lf_context ` set (leaves_at q d')" for c q
    using a [of q c] assms(3,5,6,8,9) by (cases "c = r"; cases "q = p") simp_all
  have 2: "distinct (map lf_context (leaves_at q d'))" for q using b(1) [of q] assms(3,4) by (cases "q = p") simp_all
  have 3: "distinct (filter (\<lambda>s. s \<noteq> None) (ctx_subs (ctx_of d' c)))" for c
    using b(2) [of c] assms(5,7) by (cases "c = r") simp_all
  show ?thesis unfolding linked_def using assms(2) 1 2 3 by blast
qed

lemma linkedD:
  assumes "linked d"
  shows "wf_tree (subs d)" and "Some p \<in> set (ctx_subs (ctx_of d r)) \<longleftrightarrow> r \<in> lf_context ` set (leaves_at p d)"
    and "distinct (map lf_context (leaves_at p d))" and "distinct (filter (\<lambda>s. s \<noteq> None) (ctx_subs (ctx_of d r)))"
  using assms unfolding linked_def by blast+

lemma sub_add_linked:
  assumes "linked d" and "ctx_id (ctx_of d r) = Some cid" and "hash_last (sub_path sub)"
  shows "linked (snd (mqtt3_sub_add r sub qos d))"
proof -
  let ?p = "sub_path sub" and ?d = "snd (mqtt3_sub_add r sub qos d)"
  note link = linkedD [OF assms(1)]
  obtain d' where o: "mqtt3_sub_add r sub qos d = (MOSQ_ERR_SUCCESS, d')"
    "d' = (if is_new r sub d
       then (upd_ctx r (\<lambda>c. c\<lparr>ctx_subs := add_slot ?p (ctx_subs c)\<rparr>) (d\<lparr>subs := subs d'\<rparr>))
              \<lparr>subscription_count := subscription_count d + 1\<rparr>
       else d\<lparr>subs := subs d'\<rparr>)"
    by (rule sub_add_outcome [OF assms(2), of sub qos])
  define x where "x = subs d'"
  have subs_of: "ctx_subs (ctx_of d' c) =
      (if c = r \<and> is_new r sub d then add_slot ?p (ctx_subs (ctx_of d r)) else ctx_subs (ctx_of d c))" for c
    by (subst o(2), fold x_def) simp
  have new: "is_new r sub d \<longleftrightarrow> \<not> (\<exists>l \<in> set (leaves_at ?p d). same_id d r (lf_context l))"
    by (simp add: is_new_def)
  have leaves: "map lf_context (leaves_at ?p d') = map lf_context (leaves_at ?p d) @ (if is_new r sub d then [r] else [])"
    using sub_add_leaves [OF assms(2), of ?p sub qos] contexts_add_leaf [of "same_id d r" r qos "leaves_at ?p d"]
    by (simp add: o(1) new)
  then have leaf_set: "lf_context ` set (leaves_at ?p d') = lf_context ` set (leaves_at ?p d) \<union> (if is_new r sub d then {r} else {})"
  proof -
    have "set (map lf_context (leaves_at ?p d')) = set (map lf_context (leaves_at ?p d)) \<union> set (if is_new r sub d then [r] else [])"
      unfolding leaves by (rule set_append)
    then show ?thesis by (simp split: if_splits)
  qed
  have fresh: "is_new r sub d \<Longrightarrow> r \<notin> lf_context ` set (leaves_at ?p d)"
    by (auto simp: is_new_def same_id_refl)
  have "linked d'"
  proof (rule linked_update [OF assms(1), where p = ?p and r = r])
    show "wf_tree (subs d')" using sub_add_wf [OF assms(2) link(1) assms(3), of qos] o(1) by simp
    show "leaves_at q d' = leaves_at q d" if "q \<noteq> ?p" for q
      using sub_add_leaves [OF assms(2), of q sub qos] that by (simp add: o(1))
    show "distinct (map lf_context (leaves_at ?p d'))" unfolding leaves using link(3) [of ?p] fresh by auto
    show "ctx_subs (ctx_of d' c) = ctx_subs (ctx_of d c)" if "c \<noteq> r" for c using subs_of that by simp
    show "c \<in> lf_context ` set (leaves_at ?p d') \<longleftrightarrow> c \<in> lf_context ` set (leaves_at ?p d)" if "c \<noteq> r" for c
      unfolding leaf_set using that by auto
    show "distinct (filter (\<lambda>s. s \<noteq> None) (ctx_subs (ctx_of d' r)))"
      using distinct_add_slot [OF _ link(4) [of r]] fresh link(2) [of ?p r] link(4) [of r] by (simp add: subs_of)
    show "Some q \<in> set (ctx_subs (ctx_of d' r)) \<longleftrightarrow> Some q \<in> set (ctx_subs (ctx_of d r))" if "q \<noteq> ?p" for q
      using that by (simp add: subs_of set_add_slot)
    show "Some ?p \<in> set (ctx_subs (ctx_of d' r)) \<longleftrightarrow> r \<in> lf_context ` set (leaves_at ?p d')"
      unfolding leaf_set using link(2) [of ?p r] by (simp add: subs_of set_add_slot)
  qed
  then show ?thesis by (simp add: o(1))
qed

lemma sub_remove_linked:
  assumes "linked d"
  shows "linked (snd (mqtt3_sub_remove r sub d))"
proof -
  let ?p = "sub_path sub"
  note link = linkedD [OF assms]
  obtain d' where o: "mqtt3_sub_remove r sub d = (MOSQ_ERR_SUCCESS, d')" and wf: "wf_tree (subs d')"
    and lv: "\<And>p. leaves_at p d' = (if p = ?p then remove_first (is_leaf_of r) (leaves_at p d) else leaves_at p d)"
    and d': "d' = (if has_leaf r sub d
       then upd_ctx r (\<lambda>c. c\<lparr>ctx_subs := clear_slot ?p (ctx_subs c)\<rparr>) (d\<lparr>subs := subs d', subscription_count := subscription_count d - 1\<rparr>)
       else d\<lparr>subs := subs d'\<rparr>)"
    by (rule sub_remove_outcome [OF link(1), of r sub]) blast
  define x where "x = subs d'"
  have cc: "ctx_of (d\<lparr>subs := x, subscription_count := n\<rparr>) = ctx_of d" for n by (simp add: ctx_of_def fun_eq_iff)
  have subs_of: "ctx_subs (ctx_of d' c) =
      (if c = r \<and> has_leaf r sub d then clear_slot ?p (ctx_subs (ctx_of d r)) else ctx_subs (ctx_of d c))" for c
    by (subst d', fold x_def) (simp add: cc)
  have has: "has_leaf r sub d \<longleftrightarrow> r \<in> lf_context ` set (leaves_at ?p d)"
    by (auto simp: has_leaf_def is_leaf_of_def)
  have leaves: "leaves_at ?p d' = filter (\<lambda>l. lf_context l \<noteq> r) (leaves_at ?p d)"
    by (simp add: lv remove_leaf_filter [OF link(3)])
  have "linked d'"
  proof (rule linked_update [OF assms wf, where p = ?p and r = r])
    show "distinct (map lf_context (leaves_at ?p d'))" unfolding leaves using link(3) [of ?p] by (simp add: distinct_map_filter)
    show "c \<in> lf_context ` set (leaves_at ?p d') \<longleftrightarrow> c \<in> lf_context ` set (leaves_at ?p d)" if "c \<noteq> r" for c
      unfolding leaves using that by auto
    show "distinct (filter (\<lambda>s. s \<noteq> None) (ctx_subs (ctx_of d' r)))"
      using distinct_clear_slot link(4) [of r] by (simp add: subs_of)
    show "Some q \<in> set (ctx_subs (ctx_of d' r)) \<longleftrightarrow> Some q \<in> set (ctx_subs (ctx_of d r))" if "q \<noteq> ?p" for q
      using that set_clear_slot [OF link(4) [of r]] by (simp add: subs_of)
    show "Some ?p \<in> set (ctx_subs (ctx_of d' r)) \<longleftrightarrow> r \<in> lf_context ` set (leaves_at ?p d')"
      unfolding leaves using link(2) [of ?p r] set_clear_slot [OF link(4) [of r]] has by (auto simp: subs_of)
  qed (simp_all add: lv subs_of)
  then show ?thesis by (simp add: o)
qed

text \<open>The removal of a client, slot by slot.\<close>

lemma clean_fold:
  assumes "wf_tree (subs d)" and "\<And>p. distinct (map lf_context (leaves_at p d))"
    and "distinct (filter (\<lambda>s. s \<noteq> None) ss)"
    and "\<And>p. Some p \<in> set ss \<Longrightarrow> r \<in> lf_context ` set (leaves_at p d)"
  shows "\<exists>d' n. fold (clean_sub r) ss d = d' \<and> wf_tree (subs d') \<and> (\<forall>s. tree_refs s (subs d') = tree_refs s (subs d)) \<and>
    (\<forall>q. leaves_at q d' = (if Some q \<in> set ss then filter (\<lambda>l. lf_context l \<noteq> r) (leaves_at q d) else leaves_at q d)) \<and>
    d' = d\<lparr>subs := subs d', subscription_count := n\<rparr>"
  using assms
proof (induction ss arbitrary: d)
  case Nil
  then show ?case by (intro exI [of _ d] exI [of _ "subscription_count d"]) simp
next
  case (Cons slot ss)
  show ?case
  proof (cases slot)
    case None
    then have "clean_sub r slot d = d" by (simp add: clean_sub_def)
    then show ?thesis using Cons None by simp
  next
    case (Some p)
    have ex: "\<exists>l \<in> set (leaves_at p d). is_leaf_of r l" using Cons.prems(4) [of p] Some by (auto simp: is_leaf_of_def)
    obtain d1 where d1: "clean_sub r (Some p) d = d1" "wf_tree (subs d1)" "\<And>s. tree_refs s (subs d1) = tree_refs s (subs d)"
      and lv: "\<And>q. leaves_at q d1 = (if q = p then remove_first (is_leaf_of r) (leaves_at q d) else leaves_at q d)"
      and eq: "d1 = d\<lparr>subs := subs d1, subscription_count := subscription_count d - 1\<rparr>"
      by (rule clean_sub_step [OF Cons.prems(1) ex]) blast
    have lv': "leaves_at q d1 = (if q = p then filter (\<lambda>l. lf_context l \<noteq> r) (leaves_at q d) else leaves_at q d)" for q
      using lv remove_leaf_filter [OF Cons.prems(2)] by simp
    have p: "Some p \<notin> set ss" using Cons.prems(3) Some by simp
    have "\<exists>d' n. fold (clean_sub r) ss d1 = d' \<and> wf_tree (subs d') \<and> (\<forall>s. tree_refs s (subs d') = tree_refs s (subs d1)) \<and>
      (\<forall>q. leaves_at q d' = (if Some q \<in> set ss then filter (\<lambda>l. lf_context l \<noteq> r) (leaves_at q d1) else leaves_at q d1)) \<and>
      d' = d1\<lparr>subs := subs d', subscription_count := n\<rparr>"
    proof (rule Cons.IH [OF d1(2)])
      show "distinct (map lf_context (leaves_at q d1))" for q
        using Cons.prems(2) [of q] by (cases "q = p") (simp_all add: lv' distinct_map_filter)
      show "distinct (filter (\<lambda>s. s \<noteq> None) ss)" using Cons.prems(3) by (simp split: if_splits)
      show "r \<in> lf_context ` set (leaves_at q d1)" if "Some q \<in> set ss" for q
        using that p Cons.prems(4) [of q] lv' [of q] by (cases "q = p") simp_all
    qed
    then obtain d' n where d': "fold (clean_sub r) ss d1 = d'" "wf_tree (subs d')" "\<forall>s. tree_refs s (subs d') = tree_refs s (subs d1)"
      "\<forall>q. leaves_at q d' = (if Some q \<in> set ss then filter (\<lambda>l. lf_context l \<noteq> r) (leaves_at q d1) else leaves_at q d1)"
      "d' = d1\<lparr>subs := subs d', subscription_count := n\<rparr>" by blast
    have "d' = d\<lparr>subs := subs d', subscription_count := n\<rparr>"
    proof -
      define y z where "y = subs d'" and "z = subs d1"
      have "d' = d1\<lparr>subs := y, subscription_count := n\<rparr>" using d'(5) y_def by simp
      also have "\<dots> = d\<lparr>subs := y, subscription_count := n\<rparr>" by (subst eq, fold z_def) simp
      finally show ?thesis by (simp add: y_def)
    qed
    then show ?thesis using d' d1(1,3) Some p lv'
      by (intro exI [of _ d'] exI [of _ n]) auto
  qed
qed

lemma clean_session_outcome:
  assumes "linked d"
  obtains d' n where "mqtt3_subs_clean_session r d = (MOSQ_ERR_SUCCESS, d')" and "wf_tree (subs d')"
    and "\<And>s. tree_refs s (subs d') = tree_refs s (subs d)"
    and "\<And>p. leaves_at p d' = filter (\<lambda>l. lf_context l \<noteq> r) (leaves_at p d)"
    and "d' = upd_ctx r (\<lambda>c. c\<lparr>ctx_subs := []\<rparr>) (d\<lparr>subs := subs d', subscription_count := n\<rparr>)"
proof -
  note link = linkedD [OF assms]
  have "\<exists>d1 n. fold (clean_sub r) (ctx_subs (ctx_of d r)) d = d1 \<and> wf_tree (subs d1) \<and> (\<forall>s. tree_refs s (subs d1) = tree_refs s (subs d)) \<and>
    (\<forall>q. leaves_at q d1 = (if Some q \<in> set (ctx_subs (ctx_of d r)) then filter (\<lambda>l. lf_context l \<noteq> r) (leaves_at q d) else leaves_at q d)) \<and>
    d1 = d\<lparr>subs := subs d1, subscription_count := n\<rparr>"
    by (rule clean_fold [OF link(1,3) link(4)]) (simp only: link(2))
  then obtain d1 n where d1: "fold (clean_sub r) (ctx_subs (ctx_of d r)) d = d1" "wf_tree (subs d1)" "\<forall>s. tree_refs s (subs d1) = tree_refs s (subs d)"
    and lv: "\<forall>q. leaves_at q d1 = (if Some q \<in> set (ctx_subs (ctx_of d r)) then filter (\<lambda>l. lf_context l \<noteq> r) (leaves_at q d) else leaves_at q d)"
    and eq: "d1 = d\<lparr>subs := subs d1, subscription_count := n\<rparr>" by blast
  have none: "r \<notin> lf_context ` set ls \<Longrightarrow> filter (\<lambda>l. lf_context l \<noteq> r) ls = ls" for ls :: "subleaf list"
    by (induction ls) auto
  let ?d = "upd_ctx r (\<lambda>c. c\<lparr>ctx_subs := []\<rparr>) d1"
  have s: "subs ?d = subs d1" by (simp add: upd_ctx_def put_ctx_def)
  show thesis
  proof (rule that [of ?d n])
    show "mqtt3_subs_clean_session r d = (MOSQ_ERR_SUCCESS, ?d)" by (simp add: mqtt3_subs_clean_session_def d1(1))
    show "wf_tree (subs ?d)" "tree_refs s (subs ?d) = tree_refs s (subs d)" for s using d1 s by simp_all
    show "leaves_at p ?d = filter (\<lambda>l. lf_context l \<noteq> r) (leaves_at p d)" for p
    proof -
      have "leaves_at p ?d = leaves_at p d1" by (simp add: leaves_at_info s)
      also have "\<dots> = filter (\<lambda>l. lf_context l \<noteq> r) (leaves_at p d)"
        using lv [rule_format, of p] link(2) [of p r] none [of "leaves_at p d"] by (cases "Some p \<in> set (ctx_subs (ctx_of d r))") simp_all
      finally show ?thesis .
    qed
    show "?d = upd_ctx r (\<lambda>c. c\<lparr>ctx_subs := []\<rparr>) (d\<lparr>subs := subs ?d, subscription_count := n\<rparr>)"
      unfolding s by (rule arg_cong [OF eq])
  qed
qed

subsection \<open>Properties\<close>

lemma linked_clean:
  assumes "linked d"
  shows "linked (snd (mqtt3_subs_clean_session r d))"
proof -
  note link = linkedD [OF assms]
  obtain d' n where o: "mqtt3_subs_clean_session r d = (MOSQ_ERR_SUCCESS, d')" and wf: "wf_tree (subs d')"
    and lv: "\<And>p. leaves_at p d' = filter (\<lambda>l. lf_context l \<noteq> r) (leaves_at p d)"
    and eq: "d' = upd_ctx r (\<lambda>c. c\<lparr>ctx_subs := []\<rparr>) (d\<lparr>subs := subs d', subscription_count := n\<rparr>)"
    by (rule clean_session_outcome [OF assms, of r]) blast
  define x where "x = subs d'"
  have cc: "ctx_of (d\<lparr>subs := x, subscription_count := n\<rparr>) = ctx_of d" by (simp add: ctx_of_def fun_eq_iff)
  have subs_of: "ctx_subs (ctx_of d' c) = (if c = r then [] else ctx_subs (ctx_of d c))" for c
    by (subst eq, fold x_def) (simp add: cc)
  have "Some p \<in> set (ctx_subs (ctx_of d' c)) \<longleftrightarrow> c \<in> lf_context ` set (leaves_at p d')" for c p
    unfolding lv subs_of using link(2) [of p c] by auto
  moreover have "distinct (map lf_context (leaves_at p d'))" for p
    unfolding lv using link(3) [of p] by (simp add: distinct_map_filter)
  moreover have "distinct (filter (\<lambda>s. s \<noteq> None) (ctx_subs (ctx_of d' c)))" for c
    unfolding subs_of using link(4) [of c] by simp
  ultimately have "linked d'" unfolding linked_def using wf by blast
  then show ?thesis by (simp add: o)
qed

text \<open>
  C13. Contexts and the tree stay linked. Subscribing with a filter that passes the check,
  unsubscribing and removing a client keep it true that the subscription list of a context names
  exactly the nodes where the context has a leaf, each once, and that siblings in the tree have
  different topics: no leaf is left behind for a context and no entry of a list dangles.
\<close>

theorem subscriptions_linked:
  assumes "linked d" and "ctx_id (ctx_of d r) = Some cid"
    and "nul_free sub" and "mosquitto_sub_topic_check sub = MOSQ_ERR_SUCCESS"
  shows "linked (snd (mqtt3_sub_add r sub qos d)) \<and> linked (snd (mqtt3_sub_remove r sub d)) \<and>
    linked (snd (mqtt3_subs_clean_session r d))"
  using sub_add_linked [OF assms(1,2) hash_last_sub_path [OF assms(3,4)]] sub_remove_linked [OF assms(1)]
    linked_clean [OF assms(1)] by blast

lemma tree_db_linked: "linked tree_db"
proof -
  have "ctx_subs (ctx_of tree_db r) = []" for r
    by (simp add: tree_db_def mqtt3_db_open_def ctx_of_def sample_db_def db_zero_def sample_ctx_def ctx_zero_def)
  then show ?thesis using tree_db_facts by (simp add: linked_def)
qed

lemma sample_sub_ok: "mosquitto_sub_topic_check ''a/+/#'' = MOSQ_ERR_SUCCESS" "nul_free ''a/+/#''"
  using sub_check_levels [of "''a/+/#''"] by (simp_all add: nul_free_def)

lemma tree_db_named: "ctx_id (ctx_of tree_db 7) = Some ''c1''"
  by (simp add: tree_db_facts sample_ctx_def)

theorem subscriptions_linked_witness:
  "linked (snd (mqtt3_sub_add 7 ''a/+/#'' 1 tree_db))"
  using subscriptions_linked [OF tree_db_linked tree_db_named sample_sub_ok(2,1)] by blast

text \<open>
  C35. The tree is a table of subscriptions: subscribing puts the client's leaf at the path of
  the filter (or changes the QoS of the one that is there) and nowhere else; subscribing twice
  is subscribing once with the second QoS; and unsubscribing takes back a new subscription,
  for every path of the tree.
\<close>

theorem subscribe_unsubscribe:
  assumes "wf_tree (subs d)" and "ctx_id (ctx_of d r) = Some cid"
    and "nul_free sub" and "mosquitto_sub_topic_check sub = MOSQ_ERR_SUCCESS"
    and "\<forall>l \<in> set (leaves_at (sub_path sub) d). ctx_id (ctx_of d (lf_context l)) \<noteq> Some cid"
  shows "leaves_at p (snd (mqtt3_sub_add r sub q1 d)) =
      (if p = sub_path sub then leaves_at p d @ [\<lparr>lf_context = r, lf_qos = q1\<rparr>] else leaves_at p d) \<and>
    leaves_at p (snd (mqtt3_sub_add r sub q2 (snd (mqtt3_sub_add r sub q1 d)))) = leaves_at p (snd (mqtt3_sub_add r sub q2 d)) \<and>
    leaves_at p (snd (mqtt3_sub_remove r sub (snd (mqtt3_sub_add r sub q1 d)))) = leaves_at p d"
proof -
  note ok = hash_last_sub_path [OF assms(3,4)]
  have named: "ctx_id (ctx_of d r) \<noteq> None" using assms(2) by simp
  have new: "\<forall>l \<in> set (leaves_at (sub_path sub) d). \<not> same_id d r (lf_context l)"
    using assms(2,5) by (simp add: same_id_def)
  then have "add_leaf (same_id d r) r q1 (leaves_at (sub_path sub) d) = leaves_at (sub_path sub) d @ [\<lparr>lf_context = r, lf_qos = q1\<rparr>]"
    by (simp add: add_leaf_def set_leaf_qos_None [THEN iffD2])
  then show ?thesis
    using table.look_add [OF assms(1) named, of p sub q1] table.resubscribe [OF assms(1) named ok]
      table.subscribe_taken_back [OF assms(1) named ok new] by auto
qed

theorem subscribe_unsubscribe_witness:
  "leaves_at (sub_path ''a/+/#'') (snd (mqtt3_sub_remove 7 ''a/+/#'' (snd (mqtt3_sub_add 7 ''a/+/#'' 1 tree_db)))) = []"
  using subscribe_unsubscribe [OF tree_db_facts(3) tree_db_named sample_sub_ok(2,1), of "sub_path ''a/+/#''" 1 0]
  by (simp add: tree_db_facts)

text \<open>
  Removing a client removes all of its subscriptions and nothing else: in a linked broker
  the leaves of every node afterwards are those of other clients, the retained messages are
  still referred to as before, no dangling pointer is followed, and apart from the tree, the
  counter and the client's own list nothing has changed.
\<close>

theorem clean_session_removes_client:
  assumes "linked d"
  shows "\<exists>x n. mqtt3_subs_clean_session r d =
      (MOSQ_ERR_SUCCESS, upd_ctx r (\<lambda>c. c\<lparr>ctx_subs := []\<rparr>) (d\<lparr>subs := x, subscription_count := n\<rparr>)) \<and>
    wf_tree x \<and> (\<forall>s. tree_refs s x = tree_refs s (subs d)) \<and>
    (\<forall>p. leaves_of (info_at p x) = filter (\<lambda>l. lf_context l \<noteq> r) (leaves_at p d))"
proof -
  obtain d' n where o: "mqtt3_subs_clean_session r d = (MOSQ_ERR_SUCCESS, d')" "wf_tree (subs d')"
    "\<And>s. tree_refs s (subs d') = tree_refs s (subs d)"
    "\<And>p. leaves_at p d' = filter (\<lambda>l. lf_context l \<noteq> r) (leaves_at p d)"
    "d' = upd_ctx r (\<lambda>c. c\<lparr>ctx_subs := []\<rparr>) (d\<lparr>subs := subs d', subscription_count := n\<rparr>)"
    by (rule clean_session_outcome [OF assms, of r]) blast
  have "mqtt3_subs_clean_session r d =
      (MOSQ_ERR_SUCCESS, upd_ctx r (\<lambda>c. c\<lparr>ctx_subs := []\<rparr>) (d\<lparr>subs := subs d', subscription_count := n\<rparr>))"
    by (simp only: o(1) o(5) [symmetric])
  then show ?thesis using o(2-4) by (intro exI [of _ "subs d'"] exI [of _ n]) (simp add: leaves_at_info)
qed

theorem clean_session_removes_client_witness:
  "\<exists>x n. mqtt3_subs_clean_session 7 (snd (mqtt3_sub_add 7 ''a/+/#'' 1 tree_db)) =
     (MOSQ_ERR_SUCCESS, upd_ctx 7 (\<lambda>c. c\<lparr>ctx_subs := []\<rparr>)
        ((snd (mqtt3_sub_add 7 ''a/+/#'' 1 tree_db))\<lparr>subs := x, subscription_count := n\<rparr>)) \<and> wf_tree x"
proof -
  have "linked (snd (mqtt3_sub_add 7 ''a/+/#'' 1 tree_db))"
    by (rule sub_add_linked [OF tree_db_linked tree_db_named hash_last_sub_path [OF sample_sub_ok(2,1)]])
  then show ?thesis using clean_session_removes_client [of "snd (mqtt3_sub_add 7 ''a/+/#'' 1 tree_db)" 7] by blast
qed

end
