(* ===== verification/TreeInv.thy ===== *)
theory TreeInv
  imports Subscriptions
begin

text \<open>
  Delivery keeps the broker consistent: reference counts, queues and the shape of the tree
  through the search for subscribers, the setting of retained messages and the release of
  QoS 2 messages; and what delivery leaves alone.
\<close>

subsection \<open>What an insert leaves alone\<close>

definition view :: "db \<Rightarrow> subhier list \<times> config \<times> acl_user list \<times> acl list \<times> auth_plugin option \<times> listener list" where
  "view d = (subs d, cfg d, acl_list d, acl_patterns d, auth_plugin d, listeners d)"

lemma view_simps [frame_simps, simp]:
  "view (put_ctx r c d) = view d" "view (upd_ctx r f d) = view d" "view (upd_store s g d) = view d"
  "view (set_fault d) = view d" "view (snd (fresh_ptr d)) = view d" "view (mark_dropping r d) = view d"
  "view (count_change st d) = view d" "view (add_dest b cid s d) = view d" "view (d\<lparr>glob := gl\<rparr>) = view d"
  "view (d\<lparr>persistence_changes := i\<rparr>) = view d" "view (d\<lparr>retained_count := k\<rparr>) = view d"
  "view (msg_store_remove s d) = view d"
  by (simp_all add: view_def put_ctx_def upd_ctx_def upd_store_def set_fault_def fresh_ptr_def mark_dropping_def
      count_change_def add_dest_def msg_store_remove_def)

lemma view_deref [frame_simps, simp]: "view (snd (msg_store_deref s d)) = view d"
  by (simp add: msg_store_deref_def Let_def)

lemma link_msg_frame:
  "view (link_msg r s mk d) = view d"
  "q \<noteq> r \<Longrightarrow> contexts (link_msg r s mk d) q = contexts d q"
  "\<exists>c. contexts (link_msg r s mk d) r = Some c"
proof -
  obtain p d1 where f: "fresh_ptr d = (p, d1)" "d1 = snd (fresh_ptr d)" by (cases "fresh_ptr d") auto
  have c: "contexts d1 = contexts d" by (simp add: f(2) fresh_ptr_def)
  show "view (link_msg r s mk d) = view d"
    by (simp add: link_msg_def f(1) Let_def split: prod.splits) (simp add: f(2))
  show "q \<noteq> r \<Longrightarrow> contexts (link_msg r s mk d) q = contexts d q"
    by (simp add: link_msg_def f(1) Let_def put_ctx_def set_fault_def c split: prod.splits)
  show "\<exists>c. contexts (link_msg r s mk d) r = Some c"
    by (simp add: link_msg_def f(1) Let_def put_ctx_def split: prod.splits)
qed

lemma insert_frame [frame_simps]:
  "view (snd (mqtt3_db_message_insert r mid dir qos retain s d)) = view d"
  "q \<noteq> r \<Longrightarrow> contexts (snd (mqtt3_db_message_insert r mid dir qos retain s d)) q = contexts d q"
proof -
  have c: "contexts (count_change st d) = contexts d" "contexts (add_dest b cid s d') = contexts d'"
    "q \<noteq> r \<Longrightarrow> contexts (mark_dropping r d) q = contexts d q" "contexts (set_fault d) = contexts d" for st b cid d'
    by (simp_all add: count_change_def add_dest_def mark_dropping_def upd_ctx_def put_ctx_def set_fault_def)
  show "view (snd (mqtt3_db_message_insert r mid dir qos retain s d)) = view d"
    by (auto simp: mqtt3_db_message_insert_def link_msg_frame split: option.splits sum.splits prod.splits)
  show "q \<noteq> r \<Longrightarrow> contexts (snd (mqtt3_db_message_insert r mid dir qos retain s d)) q = contexts d q"
    by (auto simp: mqtt3_db_message_insert_def link_msg_frame c split: option.splits sum.splits prod.splits)
qed

lemma mid_generate_frame [frame_simps]:
  "view (snd (mid_generate r d)) = view d" "q \<noteq> r \<Longrightarrow> contexts (snd (mid_generate r d)) q = contexts d q"
  "view (snd (mid_for r n d)) = view d" "q \<noteq> r \<Longrightarrow> contexts (snd (mid_for r n d)) q = contexts d q"
  by (simp_all add: mid_for_def mid_generate_def put_ctx_def view_def split: prod.splits)

lemma deliver_frame [frame_simps]:
  "view (snd (deliver_to l qos retain s d)) = view d"
  "q \<noteq> lf_context l \<Longrightarrow> contexts (snd (deliver_to l qos retain s d)) q = contexts d q"
proof -
  obtain mid d1 where m: "mid_for (lf_context l) (out_qos (cfg d) qos (lf_qos l)) d = (mid, d1)" by fastforce
  have d1: "view d1 = view d" "q \<noteq> lf_context l \<Longrightarrow> contexts d1 q = contexts d q"
    using mid_generate_frame(3,4) [where r = "lf_context l" and n = "out_qos (cfg d) qos (lf_qos l)" and d = d] m by auto
  show "view (snd (deliver_to l qos retain s d)) = view d"
    by (simp add: deliver_to_def m Let_def insert_frame d1(1))
  show "q \<noteq> lf_context l \<Longrightarrow> contexts (snd (deliver_to l qos retain s d)) q = contexts d q"
    by (simp add: deliver_to_def m Let_def insert_frame d1(2))
qed

lemma leaf_loop_frame [frame_simps]:
  "view (snd (leaf_loop ls src topic qos retain s rc d)) = view d"
  "q \<notin> lf_context ` set ls \<Longrightarrow> contexts (snd (leaf_loop ls src topic qos retain s rc d)) q = contexts d q"
proof (induction ls src topic qos retain s rc d rule: leaf_loop.induct)
  case (2 l ls src topic qos retain s rc d)
  obtain r d1 where dl: "deliver_to l qos retain s d = (r, d1)" by fastforce
  have d1: "view d1 = view d" "q \<noteq> lf_context l \<Longrightarrow> contexts d1 q = contexts d q"
    using deliver_frame [where l = l and qos = qos and retain = retain and s = s and d = d] dl by auto
  {
    case 1
    then show ?case using 2 d1 dl by (auto simp: Let_def)
  next
    case 2
    then show ?case using "2.IH" d1 dl by (auto simp: Let_def)
  }
qed simp_all

text \<open>A context without what belongs to its queue of messages.\<close>

definition strip :: "ctx \<Rightarrow> ctx" where
  "strip c = c\<lparr>msgs := [], last_msg := None, msg_count := 0, msg_count12 := 0, last_mid := 0,
     is_dropping := False, bridge := map_option (\<lambda>b. b\<lparr>br_lazy_reconnect := False\<rparr>) (bridge c)\<rparr>"

lemma strip_eqD:
  assumes "strip c' = strip c"
  shows "ctx_subs c' = ctx_subs c" "ctx_id c' = ctx_id c" "sock c' = sock c" "state c' = state c" "is_bridge c' = is_bridge c"
    "out_packet c' = out_packet c" "current_out_packet c' = current_out_packet c" "sent c' = sent c" "ctx_listener c' = ctx_listener c" "username c' = username c"
    "ctx_acl_list c' = ctx_acl_list c" "in_packet c' = in_packet c" "will c' = will c"
    "bridge c' = None \<longleftrightarrow> bridge c = None"
proof -
  have f: "f c' = f c" if "\<And>c. f (strip c) = f c" for f :: "ctx \<Rightarrow> 'a"
    using arg_cong [OF assms, of f] that by simp
  show "ctx_subs c' = ctx_subs c" by (rule f) (simp add: strip_def)
  show "ctx_id c' = ctx_id c" by (rule f) (simp add: strip_def)
  show "sock c' = sock c" by (rule f) (simp add: strip_def)
  show "state c' = state c" by (rule f) (simp add: strip_def)
  show "is_bridge c' = is_bridge c" by (rule f) (simp add: strip_def)
  show "out_packet c' = out_packet c" by (rule f) (simp add: strip_def)
  show "current_out_packet c' = current_out_packet c" by (rule f) (simp add: strip_def)
  show "sent c' = sent c" by (rule f) (simp add: strip_def)
  show "ctx_listener c' = ctx_listener c" by (rule f) (simp add: strip_def)
  show "username c' = username c" by (rule f) (simp add: strip_def)
  show "ctx_acl_list c' = ctx_acl_list c" by (rule f) (simp add: strip_def)
  show "in_packet c' = in_packet c" by (rule f) (simp add: strip_def)
  show "will c' = will c" by (rule f) (simp add: strip_def)
  show "bridge c' = None \<longleftrightarrow> bridge c = None"
    using arg_cong [OF assms, of "\<lambda>c. bridge c = None"] by (simp add: strip_def)
qed

lemma strip_check_lazy [simp]: "strip (check_lazy_bridge c) = strip c"
  by (simp add: strip_def check_lazy_bridge_def split: option.splits)

lemma strip_append: "append_msg m c = (b, c') \<Longrightarrow> strip c' = strip c"
  by (auto simp: append_msg_def strip_def split: option.splits if_splits)

lemma strip_link_msg: "strip (ctx_of (link_msg r s mk d) q) = strip (ctx_of d q)"
proof -
  obtain p d1 where f: "fresh_ptr d = (p, d1)" "ctx_of d1 = ctx_of d"
    by (simp add: fresh_ptr_def ctx_of_def fun_eq_iff)
  define d2 where "d2 = (if store_live d1 s then upd_store s (\<lambda>m. m\<lparr>ms_ref_count := ms_ref_count m + 1\<rparr>) d1 else set_fault d1)"
  have d2: "ctx_of d2 = ctx_of d" using f(2) by (simp add: d2_def ctx_of_def fun_eq_iff set_fault_def upd_store_def)
  obtain b c where a: "append_msg (mk p) (ctx_of d2 r) = (b, c)" by fastforce
  have "strip (c\<lparr>msg_count := n, msg_count12 := k\<rparr>) = strip (ctx_of d r)" for n k
    using strip_append [OF a] d2 by (cases c) (simp add: strip_def)
  moreover have "ctx_of (set_fault d2) = ctx_of d" using d2 by (simp add: set_fault_def ctx_of_def fun_eq_iff)
  moreover have "link_msg r s mk d = put_ctx r (check_lazy_bridge (c\<lparr>msg_count := msg_count c + 1,
      msg_count12 := (if cm_qos (mk p) > 0 then msg_count12 c + 1 else msg_count12 c)\<rparr>)) (if b then set_fault d2 else d2)"
    using a by (simp only: link_msg_def f(1) prod.case Let_def d2_def)
  ultimately show ?thesis using d2 by (simp split: if_split)
qed

lemma strip_insert [frame_simps]:
  "strip (ctx_of (snd (mqtt3_db_message_insert r mid dir qos retain s d)) q) = strip (ctx_of d q)"
proof -
  have c: "ctx_of (count_change st d) = ctx_of d" "ctx_of (add_dest b cid s d') = ctx_of d'" "ctx_of (set_fault d) = ctx_of d" for st b cid d'
    by (simp_all add: count_change_def add_dest_def ctx_of_def set_fault_def fun_eq_iff)
  have m: "strip (ctx_of (mark_dropping r d) q) = strip (ctx_of d q)"
    by (simp add: mark_dropping_def ctx_of_def upd_ctx_def put_ctx_def strip_def)
  show ?thesis
    by (auto simp: mqtt3_db_message_insert_def c m strip_link_msg split: option.splits sum.splits prod.splits)
qed

lemma strip_mid_for [frame_simps]: "strip (ctx_of (snd (mid_for r n d)) q) = strip (ctx_of d q)"
  by (simp add: mid_for_def mid_generate_def mosquitto_mid_generate_def Let_def strip_def)

lemma strip_deliver [frame_simps]: "strip (ctx_of (snd (deliver_to l qos retain s d)) q) = strip (ctx_of d q)"
proof -
  obtain mid d1 where m: "mid_for (lf_context l) (out_qos (cfg d) qos (lf_qos l)) d = (mid, d1)" by fastforce
  then have "strip (ctx_of d1 q) = strip (ctx_of d q)"
    using strip_mid_for [of "lf_context l" "out_qos (cfg d) qos (lf_qos l)" d q] by simp
  then show ?thesis by (simp add: deliver_to_def m Let_def strip_insert)
qed

lemma strip_leaf_loop [frame_simps]: "strip (ctx_of (snd (leaf_loop ls src topic qos retain s rc d)) q) = strip (ctx_of d q)"
proof (induction ls src topic qos retain s rc d rule: leaf_loop.induct)
  case (2 l ls src topic qos retain s rc d)
  obtain r d1 where dl: "deliver_to l qos retain s d = (r, d1)" by fastforce
  then have "strip (ctx_of d1 q) = strip (ctx_of d q)" using strip_deliver [of l qos retain s d q] by simp
  then show ?case using 2 dl by (auto simp: Let_def)
qed simp

subsection \<open>Queues only grow\<close>

text \<open>Delivery appends outgoing messages to queues and gives no stored message another topic or payload.\<close>

definition store_topics :: "db \<Rightarrow> (store_ref \<times> string option \<times> byte list) set" where
  "store_topics d = (\<lambda>(s, m). (s, ms_topic m, ms_payload m)) ` set (msg_store d)"

definition grown :: "db \<Rightarrow> db \<Rightarrow> bool" where
  "grown d e \<longleftrightarrow> (\<forall>q. \<exists>ns. msgs (ctx_of e q) = msgs (ctx_of d q) @ ns \<and> (\<forall>m \<in> set ns. cm_direction m = mosq_md_out)) \<and>
     store_topics e \<subseteq> store_topics d"

lemma grown_same: "(\<And>q. msgs (ctx_of e q) = msgs (ctx_of d q)) \<Longrightarrow> store_topics e \<subseteq> store_topics d \<Longrightarrow> grown d e"
  by (simp add: grown_def)

lemma grown_refl [simp]: "grown d d"
  by (rule grown_same) simp_all

lemma grown_trans:
  assumes "grown d e" and "grown e f"
  shows "grown d f"
  unfolding grown_def
proof (intro conjI allI)
  fix q
  obtain n1 where 1: "msgs (ctx_of e q) = msgs (ctx_of d q) @ n1" "\<forall>m \<in> set n1. cm_direction m = mosq_md_out"
    using assms(1) unfolding grown_def by blast
  obtain n2 where 2: "msgs (ctx_of f q) = msgs (ctx_of e q) @ n2" "\<forall>m \<in> set n2. cm_direction m = mosq_md_out"
    using assms(2) unfolding grown_def by blast
  show "\<exists>ns. msgs (ctx_of f q) = msgs (ctx_of d q) @ ns \<and> (\<forall>m \<in> set ns. cm_direction m = mosq_md_out)"
    by (rule exI [of _ "n1 @ n2"]) (use 1 2 in auto)
qed (use assms in \<open>auto simp: grown_def\<close>)

lemma store_topics_same: "msg_store e = msg_store d \<Longrightarrow> store_topics e = store_topics d"
  by (simp add: store_topics_def)

lemma store_topics_upd: "(\<And>m. (ms_topic (h m), ms_payload (h m)) = (ms_topic m, ms_payload m)) \<Longrightarrow> store_topics (upd_store s h d) = store_topics d"
proof -
  assume h: "\<And>m. (ms_topic (h m), ms_payload (h m)) = (ms_topic m, ms_payload m)"
  have "(\<lambda>(s, m). (s, ms_topic m, ms_payload m)) ` (\<lambda>(p, m). if p = s then (p, h m) else (p, m)) ` xs = (\<lambda>(s, m). (s, ms_topic m, ms_payload m)) ` xs" for xs
    by (rule image_image [THEN trans], rule image_cong [OF refl]) (auto simp: h)
  then show ?thesis by (simp add: store_topics_def set_upd_store)
qed

lemma store_topics_deref: "store_topics (snd (msg_store_deref s d)) \<subseteq> store_topics d"
proof -
  let ?u = "upd_store s (\<lambda>m. m\<lparr>ms_ref_count := ms_ref_count m - 1\<rparr>) d"
  have "store_topics ?u = store_topics d" by (rule store_topics_upd) simp
  moreover have "store_topics (msg_store_remove s e) \<subseteq> store_topics e" for e
    by (auto simp: store_topics_def msg_store_remove_def)
  moreover have "store_topics (set_fault d) = store_topics d" by (rule store_topics_same) (simp add: set_fault_def)
  ultimately show ?thesis by (auto simp: msg_store_deref_def Let_def)
qed

lemma insert_grown:
  assumes "msgs_inv pins d" and "ctx_live d r" and "store_live d s"
  shows "grown d (snd (mqtt3_db_message_insert r mid mosq_md_out qos retain s d))"
  using assms
proof (cases rule: insert_outcomes [where mid = mid and dir = mosq_md_out and qos = qos and retain = retain])
  case (dropped rc)
  have "ctx_of (d\<lparr>glob := g\<rparr>) = ctx_of d" for g by (simp add: ctx_of_def fun_eq_iff)
  then have "grown d (mark_dropping r d)"
    by (intro grown_same) (simp_all add: mark_dropping_def store_topics_def upd_ctx_def)
  then show ?thesis by (simp add: dropped)
next
  case (failed rc)
  have "grown d (set_fault d)"
    by (rule grown_same) (simp_all add: set_fault_def store_topics_def ctx_of_def)
  then show ?thesis by (simp add: failed)
next
  case (linked rc st cid)
  let ?m = "new_msg mid mosq_md_out qos retain s st (now (glob d)) (next_ptr (glob d))"
  let ?e = "inserted r ?m (count_change st d)"
  have f: "ctx_of (snd (fresh_ptr e)) = ctx_of e" "store_topics (snd (fresh_ptr e)) = store_topics e" for e
    by (simp_all add: fresh_ptr_def ctx_of_def fun_eq_iff store_topics_def)
  have cc: "store_topics (count_change st d) = store_topics d" by (simp add: count_change_def store_topics_def)
  have lazy: "msgs (check_lazy_bridge c) = msgs c" for c by (simp add: check_lazy_bridge_def split: option.splits)
  have dir: "cm_direction ?m = mosq_md_out" by (simp add: new_msg_def)
  have "store_topics ?e = store_topics (upd_store (cm_store ?m) (\<lambda>x. x\<lparr>ms_ref_count := ms_ref_count x + 1\<rparr>) (snd (fresh_ptr (count_change st d))))"
    by (rule store_topics_same) (simp add: inserted_def Let_def)
  also have "\<dots> = store_topics d" using f(2) cc by (subst store_topics_upd) simp_all
  finally have tp: "store_topics ?e = store_topics d" .
  have ms: "msgs (ctx_of ?e q) = msgs (ctx_of d q) @ (if q = r then [?m] else [])" for q
    by (simp add: inserted_def Let_def lazy f)
  have "ctx_of (add_dest b cid s ?e) = ctx_of ?e" "store_topics (add_dest b cid s ?e) = store_topics ?e" for b
    by (simp_all add: add_dest_def fun_eq_iff store_topics_upd)
  then show ?thesis using ms tp dir by (auto simp: linked(1) grown_def)
qed simp

lemma mid_for_grown: "grown d (snd (mid_for r n d))"
  by (rule grown_same)
    (auto simp: mid_for_def mid_generate_def mosquitto_mid_generate_def Let_def store_topics_def)

subsection \<open>Delivery keeps the invariant\<close>

lemma pinned_live: "msgs_inv pins d \<Longrightarrow> 0 < pins s \<Longrightarrow> store_live d s"
  by (fastforce simp: msgs_inv_def store_inv_def counts_ok_def)

lemma pins_nonneg: "msgs_inv pins d \<Longrightarrow> 0 \<le> pins s"
  by (simp add: msgs_inv_def store_inv_def)

lemma mid_generate_inv [inv_intros]:
  "msgs_inv pins d \<Longrightarrow> ctx_live d r \<Longrightarrow> msgs_inv pins (snd (mid_for r n d)) \<and> ctx_live (snd (mid_for r n d)) r"
  by (auto simp: mid_for_def mid_generate_def mosquitto_mid_generate_def Let_def same_queue_def keys_def
      intro!: msgs_inv_same)

lemma deliver_inv [inv_intros]:
  assumes "msgs_inv pins d" and "ctx_live d (lf_context l)" and "0 < pins s"
  shows "msgs_inv pins (snd (deliver_to l qos retain s d))"
proof -
  obtain mid d1 where m: "mid_for (lf_context l) (out_qos (cfg d) qos (lf_qos l)) d = (mid, d1)" by fastforce
  have "msgs_inv pins d1" "ctx_live d1 (lf_context l)"
    using mid_generate_inv [OF assms(1,2), of "out_qos (cfg d) qos (lf_qos l)"] m by auto
  then show ?thesis
    using message_insert_inv pinned_live assms(3) by (simp add: deliver_to_def m Let_def)
qed

lemma deliver_live [simp]: "ctx_live d (lf_context l) \<Longrightarrow> ctx_live (snd (deliver_to l qos retain s d)) q = ctx_live d q"
proof (cases "q = lf_context l")
  case True
  assume live: "ctx_live d (lf_context l)"
  obtain mid d1 where m: "mid_for (lf_context l) (out_qos (cfg d) qos (lf_qos l)) d = (mid, d1)" by fastforce
  have "ctx_live d1 (lf_context l)"
    using live m by (auto simp: mid_for_def mid_generate_def split: prod.splits if_splits)
  then have "ctx_live (snd (mqtt3_db_message_insert (lf_context l) k dir n b s d1)) (lf_context l)" for k dir n b
    by (auto simp: mqtt3_db_message_insert_def ctx_live_def link_msg_frame add_dest_def mark_dropping_def upd_ctx_def
        put_ctx_def set_fault_def split: option.splits sum.splits prod.splits)
  then show ?thesis using True live by (simp add: deliver_to_def m Let_def)
qed (simp add: ctx_live_def deliver_frame)

lemma deliver_grown:
  assumes "msgs_inv pins d" and "ctx_live d (lf_context l)" and "0 < pins s"
  shows "grown d (snd (deliver_to l qos retain s d))"
proof -
  obtain mid d1 where m: "mid_for (lf_context l) (out_qos (cfg d) qos (lf_qos l)) d = (mid, d1)" by fastforce
  have d1: "msgs_inv pins d1" "ctx_live d1 (lf_context l)" "grown d d1"
    using mid_generate_inv [OF assms(1,2), of "out_qos (cfg d) qos (lf_qos l)"]
      mid_for_grown [of d "lf_context l" "out_qos (cfg d) qos (lf_qos l)"] m by auto
  show ?thesis
    using grown_trans [OF d1(3) insert_grown [OF d1(1,2) pinned_live [OF d1(1) assms(3)]]] by (simp add: deliver_to_def m Let_def)
qed

lemma leaf_loop_inv [inv_intros]:
  assumes "msgs_inv pins d" and "\<forall>l \<in> set ls. ctx_live d (lf_context l)" and "0 < pins s"
  shows "msgs_inv pins (snd (leaf_loop ls src topic qos retain s rc d))
    \<and> (\<forall>q. ctx_live (snd (leaf_loop ls src topic qos retain s rc d)) q = ctx_live d q)
    \<and> grown d (snd (leaf_loop ls src topic qos retain s rc d))"
  using assms
proof (induction ls src topic qos retain s rc d rule: leaf_loop.induct)
  case (2 l ls src topic qos retain s rc d)
  obtain r d1 where dl: "deliver_to l qos retain s d = (r, d1)" by fastforce
  have "msgs_inv pins d1" "ctx_live d1 q = ctx_live d q" "grown d d1" for q
    using deliver_inv [of pins d l s qos retain] deliver_live [of d l qos retain s q] deliver_grown [of pins d l s qos retain]
      2 dl by auto
  then show ?case using 2 dl grown_trans by (auto simp: Let_def)
qed simp_all

text \<open>A change of the tree and of the store together.\<close>

lemma msgs_inv_tree:
  assumes "msgs_inv pins d" and "contexts d' = contexts d" and "next_ptr (glob d') = next_ptr (glob d)"
    and "\<And>t. 0 \<le> pins' t"
    and "counts_ok (\<lambda>t. int (total_refs d t) - int (tree_refs t (subs d)) + int (tree_refs t (subs d')) + pins' t) d'"
  shows "msgs_inv pins' d'"
proof -
  have "int (total_refs d' t) = int (total_refs d t) - int (tree_refs t (subs d)) + int (tree_refs t (subs d'))" for t
    using assms(2) by (simp add: total_refs_def ctx_of_def)
  then show ?thesis using assms by (simp add: msgs_inv_def store_inv_def)
qed

lemma update_at_twice:
  "(\<And>h. sh_topic (g h) = sh_topic h) \<Longrightarrow> update_at p f (update_at p g hs) = update_at p (\<lambda>h. f (g h)) hs"
  by (induction p g hs rule: update_at.induct) (auto simp: set_children_def)

lemma node_at_update:
  "(\<And>h. sh_topic (g h) = sh_topic h) \<Longrightarrow> node_at p (update_at p g hs) = map_option g (node_at p hs)"
  by (induction p g hs rule: update_at.induct) auto

lemma set_retained_twice [simp]: "set_retained a (set_retained b h) = set_retained a h"
  by (simp add: set_retained_def)

lemma tree_refs_retained:
  assumes "node_at p hs = Some h"
  shows "int (tree_refs t (update_at p (set_retained x) hs))
    = int (tree_refs t hs) - (if sh_retained h = Some t then 1 else 0) + (if x = Some t then 1 else 0)"
  using tree_refs_update_at [of "set_retained x" p hs h t, OF _ assms] by auto

definition new_retained :: "db \<Rightarrow> store_ref \<Rightarrow> store_ref option" where
  "new_retained d s = (if ms_payload (store_of d s) \<noteq> [] then Some s else None)"

lemma payload_deref:
  assumes "counts_ok f d" and "0 < f old" and "1 < f old \<or> s \<noteq> old"
  shows "ms_payload (store_of (snd (msg_store_deref old d)) s) = ms_payload (store_of d s)"
proof -
  have live: "store_live d old" using assms by (auto simp: counts_ok_def)
  then obtain m where m: "(old, m) \<in> set (msg_store d)" by (auto simp: store_live_def)
  then have "ms_ref_count (store_of d old) = f old"
    using assms(1) store_of_member by (fastforce simp: counts_ok_def)
  moreover have "map_of (filter (\<lambda>(p, m). p \<noteq> old) xs) s = (if s = old then None else map_of xs s)" for xs :: "(store_ref \<times> msg_store) list"
    by (induction xs) auto
  ultimately show ?thesis
    using assms live by (auto simp: msg_store_deref_def Let_def store_of_upd_store msg_store_remove_def store_of_def
        upd_store_def map_of_update_key split: option.splits)
qed

lemma release_retained_some:
  assumes "node_at p (subs d) = Some h" and "sh_retained h = Some old"
  shows "release_retained p d = (let d1 = snd (msg_store_deref old d); r = fst (msg_store_deref old d)
    in (upd_node p (set_retained r) d1)\<lparr>retained_count := retained_count d1 - 1\<rparr>)"
  using assms by (simp add: release_retained_def Let_def split: prod.splits)

lemma store_of_cong: "msg_store d' = msg_store d \<Longrightarrow> store_of d' s = store_of d s"
  by (simp add: store_of_def)

lemma store_live_cong: "msg_store d' = msg_store d \<Longrightarrow> store_live d' s = store_live d s"
  by (simp add: store_live_def)

lemma take_retained_msgs:
  "subs (take_retained p s d) = update_at p (set_retained (new_retained d s)) (subs d)"
  "contexts (take_retained p s d) = contexts d" "glob (take_retained p s d) = glob d"
  by (simp_all add: take_retained_def new_retained_def upd_node_def)

lemma take_retained_counts:
  assumes "counts_ok f d" and "store_live d s"
  shows "counts_ok (\<lambda>t. f t + (if new_retained d s = Some t then 1 else 0)) (take_retained p s d)"
proof (cases "ms_payload (store_of d s) = []")
  case True
  then show ?thesis using assms(1)
    by (simp add: take_retained_def new_retained_def counts_ok_def store_live_def upd_node_def)
next
  case False
  let ?d = "upd_node p (set_retained (Some s)) d"
  have "counts_ok f ?d" "store_live ?d s"
    using assms by (simp_all add: counts_ok_def store_live_def upd_node_def)
  from counts_ok_upd [OF this, of "\<lambda>m. m\<lparr>ms_ref_count := ms_ref_count m + 1\<rparr>" 1]
  have "counts_ok (f(s := f s + 1)) (upd_store s (\<lambda>m. m\<lparr>ms_ref_count := ms_ref_count m + 1\<rparr>) ?d)"
    using assms(1) by (simp add: counts_ok_def)
  moreover have "f(s := f s + 1) = (\<lambda>t. f t + (if new_retained d s = Some t then 1 else 0))"
    using False by (auto simp: new_retained_def)
  ultimately show ?thesis using False
    by (simp add: take_retained_def counts_ok_def store_live_def)
qed

lemma tree_refs_pos:
  "node_at p hs = Some h \<Longrightarrow> sh_retained h = Some t \<Longrightarrow> 0 < tree_refs t hs"
  using tree_refs_retained [of p hs h t None] by auto

lemma retain_step:
  assumes inv: "msgs_inv pins d" and pin: "0 < pins s" and h: "node_at p (subs d) = Some h"
  shows "let d' = take_retained p s (release_retained p d)
    in msgs_inv pins d' \<and> contexts d' = contexts d \<and>
       subs d' = update_at p (set_retained (new_retained d s)) (subs d)"
proof (cases "sh_retained h")
  case None
  have rel: "release_retained p d = d" using h None by (simp add: release_retained_def)
  have F: "counts_ok (\<lambda>t. int (total_refs d t) + pins t) d" using inv by (simp add: msgs_inv_def store_inv_def)
  have "msgs_inv pins (take_retained p s d)"
  proof (rule msgs_inv_tree [OF inv])
    have "(\<lambda>t. int (total_refs d t) - int (tree_refs t (subs d)) + int (tree_refs t (subs (take_retained p s d))) + pins t)
        = (\<lambda>t. int (total_refs d t) + pins t + (if new_retained d s = Some t then 1 else 0))"
      unfolding take_retained_msgs tree_refs_retained [OF h] by (rule ext) (simp add: None)
    then show "counts_ok (\<lambda>t. int (total_refs d t) - int (tree_refs t (subs d)) + int (tree_refs t (subs (take_retained p s d))) + pins t)
        (take_retained p s d)"
      using take_retained_counts [OF F pinned_live [OF inv pin]] by simp
  qed (use pins_nonneg [OF inv] in \<open>simp_all add: take_retained_msgs\<close>)
  then show ?thesis by (simp add: rel take_retained_msgs)
next
  case (Some old)
  let ?F = "\<lambda>t. int (total_refs d t) + pins t"
  have F: "counts_ok ?F d" using inv by (simp add: msgs_inv_def store_inv_def)
  have refs: "0 < tree_refs old (subs d)" using tree_refs_pos [OF h Some] .
  have le: "tree_refs old (subs d) \<le> total_refs d old" by (simp add: total_refs_def)
  have pos: "0 < ?F old" using refs le pins_nonneg [OF inv, of old] by linarith
  define d1 where "d1 = snd (msg_store_deref old d)"
  define r where "r = fst (msg_store_deref old d)"
  define d2 where "d2 = (upd_node p (set_retained r) d1)\<lparr>retained_count := retained_count d1 - 1\<rparr>"
  have rel: "release_retained p d = d2"
    using release_retained_some [OF h Some] by (simp add: Let_def d2_def d1_def r_def)
  have F1: "counts_ok (?F(old := ?F old - 1)) d1" unfolding d1_def by (rule counts_ok_deref [OF F pos])
  have frame: "contexts d1 = contexts d" "subs d1 = subs d" "glob d1 = glob d"
    using not_store_simps [OF store.deref_view [OF F pos]] by (simp_all add: d1_def)
  have d2: "contexts d2 = contexts d" "glob d2 = glob d" "msg_store d2 = msg_store d1"
    "subs d2 = update_at p (set_retained r) (subs d)"
    by (simp_all add: d2_def frame)
  have F2: "counts_ok (?F(old := ?F old - 1)) d2"
    using F1 counts_ok_cong [of d2 d1] d2 frame by simp
  have live: "0 < (?F(old := ?F old - 1)) s"
    using pin refs le by (cases "s = old") simp_all
  then have live2: "store_live d2 s" using F2 unfolding counts_ok_def by blast
  have "1 < ?F old \<or> s \<noteq> old" using pin refs le by (cases "s = old") simp_all
  then have "ms_payload (store_of d1 s) = ms_payload (store_of d s)"
    unfolding d1_def by (rule payload_deref [OF F pos])
  then have new: "new_retained d2 s = new_retained d s"
    using store_of_cong [OF d2(3), of s] by (simp add: new_retained_def)
  let ?d = "take_retained p s d2"
  have subs: "subs ?d = update_at p (set_retained (new_retained d s)) (subs d)"
    by (simp add: take_retained_msgs d2(4) new update_at_twice)
  have "msgs_inv pins ?d"
  proof (rule msgs_inv_tree [OF inv])
    have "(\<lambda>t. int (total_refs d t) - int (tree_refs t (subs d)) + int (tree_refs t (subs ?d)) + pins t)
        = (\<lambda>t. (?F(old := ?F old - 1)) t + (if new_retained d2 s = Some t then 1 else 0))"
      unfolding subs tree_refs_retained [OF h] new by (rule ext) (simp add: Some)
    then show "counts_ok (\<lambda>t. int (total_refs d t) - int (tree_refs t (subs d)) + int (tree_refs t (subs ?d)) + pins t) ?d"
      using take_retained_counts [OF F2 live2] by simp
  qed (use pins_nonneg [OF inv] d2 in \<open>simp_all add: take_retained_msgs\<close>)
  then show ?thesis using subs d2 by (simp add: rel take_retained_msgs)
qed

lemma retain_at_step:
  assumes inv: "msgs_inv pins d" and "0 < pins s" and "node_at p (subs d) = Some h"
  shows "msgs_inv pins (retain_at p topic s d)" "contexts (retain_at p topic s d) = contexts d"
    "subs (retain_at p topic s d) = update_at p (set_retained (new_retained d s)) (subs d)"
proof -
  define e where "e = (if take 4 topic \<noteq> ''$SYS'' then d\<lparr>persistence_changes := persistence_changes d + 1\<rparr> else d)"
  have e: "contexts e = contexts d" "subs e = subs d" "glob e = glob d" "msg_store e = msg_store d"
    by (simp_all add: e_def)
  have "msgs_inv pins e" using msgs_inv_cong [OF inv] e by simp
  moreover have "node_at p (subs e) = Some h" using assms(3) e by simp
  ultimately have "let d' = take_retained p s (release_retained p e)
    in msgs_inv pins d' \<and> contexts d' = contexts e \<and> subs d' = update_at p (set_retained (new_retained e s)) (subs e)"
    using retain_step assms(2) by blast
  moreover have "new_retained e s = new_retained d s" using store_of_cong [OF e(4)] by (simp add: new_retained_def)
  ultimately show "msgs_inv pins (retain_at p topic s d)" "contexts (retain_at p topic s d) = contexts d"
    "subs (retain_at p topic s d) = update_at p (set_retained (new_retained d s)) (subs d)"
    by (simp_all add: retain_at_def e_def [symmetric] Let_def e)
qed

lemma retain_at_topics: "store_topics (retain_at p topic s d) \<subseteq> store_topics d"
proof -
  have rel: "store_topics (release_retained p e) \<subseteq> store_topics e" for e
  proof (cases "\<exists>h old. node_at p (subs e) = Some h \<and> sh_retained h = Some old")
    case True
    then obtain h old where h: "node_at p (subs e) = Some h" "sh_retained h = Some old" by blast
    show ?thesis using store_topics_deref [of old e]
      by (simp add: release_retained_some [OF h] Let_def) (simp add: store_topics_def)
  qed (auto simp: release_retained_def split: option.splits)
  have "store_topics (take_retained p s e) = store_topics e" for e
  proof -
    have n: "store_topics (upd_node p f e) = store_topics e" for f by (simp add: store_topics_def)
    show ?thesis
      using n store_topics_upd [of "\<lambda>m. m\<lparr>ms_ref_count := ms_ref_count m + 1\<rparr>" s "upd_node p (set_retained (Some s)) e"]
      by (simp add: take_retained_def) (simp add: store_topics_def)
  qed
  then show ?thesis using rel [of "if take 4 topic \<noteq> ''$SYS'' then d\<lparr>persistence_changes := persistence_changes d + 1\<rparr> else d"]
    by (simp add: retain_at_def) (simp add: store_topics_def split: if_splits)
qed

text \<open>The tree with its leaves, without the retained messages.\<close>

definition same_shape :: "subhier list \<Rightarrow> subhier list \<Rightarrow> bool" where
  "same_shape hs hs' \<longleftrightarrow> (\<forall>p. map_option fst (info_at p hs') = map_option fst (info_at p hs))"

lemma same_shape_refl [simp]: "same_shape hs hs"
  by (simp add: same_shape_def)

lemma same_shape_trans: "same_shape a b \<Longrightarrow> same_shape b c \<Longrightarrow> same_shape a c"
  by (simp add: same_shape_def)

lemma same_shape_retained: "same_shape hs (update_at p (set_retained x) hs)"
  unfolding same_shape_def
proof
  fix q
  show "map_option fst (info_at q (update_at p (set_retained x) hs)) = map_option fst (info_at q hs)"
    by (subst info_at_update_at) (auto simp: info_at_def option.map_comp comp_def)
qed

lemma same_shape_leaves: "same_shape hs hs' \<Longrightarrow> leaves_of (info_at p hs') = leaves_of (info_at p hs)"
proof -
  assume "same_shape hs hs'"
  then have "map_option fst (info_at p hs') = map_option fst (info_at p hs)" by (simp add: same_shape_def)
  then show ?thesis by (cases "info_at p hs"; cases "info_at p hs'") auto
qed

definition leaves_live :: "db \<Rightarrow> bool" where
  "leaves_live d \<longleftrightarrow> (\<forall>p. \<forall>l \<in> set (leaves_at p d). ctx_live d (lf_context l))"

text \<open>What holds all through a search that started in \<open>d\<close>.\<close>

definition steady :: "(store_ref \<Rightarrow> int) \<Rightarrow> db \<Rightarrow> db \<Rightarrow> bool" where
  "steady pins d e \<longleftrightarrow> msgs_inv pins e \<and> (\<forall>q. ctx_live e q = ctx_live d q) \<and>
     same_shape (subs d) (subs e) \<and> wf_tree (subs e) \<and> grown d e \<and> (\<forall>q. strip (ctx_of e q) = strip (ctx_of d q))"

lemma subs_process_steady:
  assumes st: "steady pins d e" and pin: "0 < pins s" and "info_at p (subs d) = Some (ls, ret)" and "leaves_live d"
  shows "steady pins d (snd (subs_process p ls src topic qos retain s b e))"
proof -
  have "map_option fst (info_at p (subs e)) = Some ls"
    using st assms(3) by (simp add: steady_def same_shape_def)
  then obtain h where h: "node_at p (subs e) = Some h" by (auto simp: info_at_def)
  have live: "\<forall>l \<in> set ls. ctx_live d (lf_context l)"
  proof -
    have "leaves_at p d = ls" using assms(3) by (simp add: leaves_at_info)
    then show ?thesis using assms(4) unfolding leaves_live_def by blast
  qed
  let ?e = "if retain \<and> b then retain_at p topic s e else e"
  have "grown e (retain_at p topic s e)"
    using retain_at_step(2) [of pins e s p h topic] st pin h retain_at_topics [of p topic s e]
    by (intro grown_same) (simp_all add: steady_def ctx_of_def)
  then have gr: "grown d (retain_at p topic s e)" using grown_trans [of d e] st by (simp add: steady_def)
  have e: "steady pins d ?e"
    using st retain_at_step [of pins e s p h topic] pin h same_shape_retained [of "subs e" p "new_retained e s"]
      gr by (auto simp: steady_def ctx_live_def ctx_of_def intro: same_shape_trans wf_update_at)
  have inv: "msgs_inv pins ?e" "\<forall>l \<in> set ls. ctx_live ?e (lf_context l)"
    using e live by (simp_all add: steady_def)
  have "view (snd (leaf_loop ls src topic qos retain s 0 ?e)) = view ?e" by (rule leaf_loop_frame)
  then show ?thesis
    using leaf_loop_inv [OF inv pin, of src topic qos retain 0] e
      grown_trans [of d ?e "snd (leaf_loop ls src topic qos retain s 0 ?e)"]
    by (simp add: subs_process_def steady_def view_def strip_leaf_loop)
qed

lemma fold_steady:
  assumes "\<And>x e. x \<in> set xs \<Longrightarrow> steady pins d e \<Longrightarrow> steady pins d (f x e)"
  shows "steady pins d e \<Longrightarrow> steady pins d (fold f xs e)"
  using assms by (induction xs arbitrary: e) auto

text \<open>The reference held while the message is queued, and its release.\<close>

definition held :: "(store_ref \<Rightarrow> int) \<Rightarrow> store_ref \<Rightarrow> store_ref \<Rightarrow> int" where
  "held pins s = pins(s := pins s + 1)"

lemma held_apply [simp]: "held pins s t = (if t = s then pins s + 1 else pins t)"
  by (simp add: held_def)

lemma hold_inv:
  assumes "msgs_inv pins d" and "store_live d s"
  shows "msgs_inv (held pins s) (hold_stored s d)"
proof -
  have F: "counts_ok (\<lambda>t. int (total_refs d t) + pins t) d" using assms(1) by (simp add: msgs_inv_def store_inv_def)
  have "0 \<le> int (total_refs d s) + pins s + 1" using pins_nonneg [OF assms(1), of s] by simp
  from counts_ok_upd [OF F assms(2), of "\<lambda>m. m\<lparr>ms_ref_count := ms_ref_count m + 1\<rparr>" 1, OF _ this]
  have "counts_ok ((\<lambda>t. int (total_refs d t) + pins t)(s := int (total_refs d s) + pins s + 1)) (hold_stored s d)"
    using assms(2) by (simp add: hold_stored_def)
  moreover have "(\<lambda>t. int (total_refs d t) + pins t)(s := int (total_refs d s) + pins s + 1)
      = (\<lambda>t. int (total_refs d t) - int (tree_refs t (subs d)) + int (tree_refs t (subs (hold_stored s d))) + held pins s t)"
    by auto
  ultimately show ?thesis
    using pins_nonneg [OF assms(1)] assms(2)
    by (intro msgs_inv_tree [OF assms(1)]) (simp_all add: hold_stored_def add_nonneg_nonneg)
qed

lemma unhold_inv:
  assumes "msgs_inv (held pins s) d" and "0 \<le> pins s"
  shows "msgs_inv pins (snd (msg_store_deref s d))"
proof -
  let ?F = "\<lambda>t. int (total_refs d t) + held pins s t"
  have F: "counts_ok ?F d" using assms(1) by (simp add: msgs_inv_def store_inv_def)
  have pos: "0 < ?F s" using assms(2) by simp
  have frame: "contexts (snd (msg_store_deref s d)) = contexts d" "subs (snd (msg_store_deref s d)) = subs d"
      "glob (snd (msg_store_deref s d)) = glob d"
    using not_store_simps [OF store.deref_view [OF F pos]] by simp_all
  have "?F(s := ?F s - 1) = (\<lambda>t. int (total_refs d t) - int (tree_refs t (subs d)) + int (tree_refs t (subs (snd (msg_store_deref s d)))) + pins t)"
    by (auto simp: frame)
  then have "counts_ok (\<lambda>t. int (total_refs d t) - int (tree_refs t (subs d)) + int (tree_refs t (subs (snd (msg_store_deref s d)))) + pins t) (snd (msg_store_deref s d))"
    using counts_ok_deref [OF F pos] by simp
  moreover have "0 \<le> pins t" for t using pins_nonneg [OF assms(1), of t] assms(2) by (auto split: if_splits)
  ultimately show ?thesis using frame by (intro msgs_inv_tree [OF assms(1)]) simp_all
qed

lemma queue_without_root:
  assumes "wf_tree (subs d)" and "\<not> has_child (hd (sub_topic_tokenise topic)) (subs d)"
  shows "mqtt3_db_messages_queue src topic qos retain s d = (0, msg_store_deref s (hold_stored s d))"
proof -
  have dist: "distinct (map sh_topic (subs d))" using wf_tree_distinct [OF assms(1)] .
  have "hd (sub_topic_tokenise topic) \<notin> set (map sh_topic (subs d))"
    using assms(2) by (simp add: has_child_iff)
  then show ?thesis by (simp add: mqtt3_db_messages_queue_def Let_def queue_loop_once [OF dist])
qed

lemma hold_stored_topics: "store_topics (hold_stored s d) = store_topics d"
  by (simp add: hold_stored_def store_topics_upd) (simp add: store_topics_def set_fault_def)

lemma queue_start_steady:
  assumes "msgs_inv pins d" and "wf_tree (subs d)" and "store_live d s" and "wildcard_free topic"
  shows "steady (held pins s) (queue_start topic retain s d) (queue_start topic retain s d)"
    and "leaves_at p (queue_start topic retain s d) = leaves_at p d"
    and "ctx_live (queue_start topic retain s d) q = ctx_live d q"
    and "ctx_of (queue_start topic retain s d) = ctx_of d" and "store_topics (queue_start topic retain s d) = store_topics d"
proof -
  have h: "msgs_inv (held pins s) (hold_stored s d)" by (rule hold_inv [OF assms(1,3)])
  let ?q = "queue_start topic retain s d"
  have "msgs_inv (held pins s) ?q"
  proof (cases retain)
    case True
    have F: "counts_ok (\<lambda>t. int (total_refs (hold_stored s d) t) + held pins s t) (hold_stored s d)"
      using h by (simp add: msgs_inv_def store_inv_def)
    have n: "msg_store ?q = msg_store (hold_stored s d)" "glob ?q = glob (hold_stored s d)"
      "contexts ?q = contexts (hold_stored s d)"
      using True by (simp_all add: queue_start_def)
    have t: "int (tree_refs t (subs ?q)) = int (tree_refs t (subs (hold_stored s d)))" for t
      using True by (simp add: queue_start_def)
    show ?thesis
    proof (rule msgs_inv_tree [OF h n(3)])
      have "counts_ok (\<lambda>t. int (total_refs (hold_stored s d) t) + held pins s t) ?q"
        using F counts_ok_cong [of ?q "hold_stored s d"] n by simp
      then show "counts_ok (\<lambda>t. int (total_refs (hold_stored s d) t) - int (tree_refs t (subs (hold_stored s d)))
          + int (tree_refs t (subs ?q)) + held pins s t) ?q"
        by (simp only: t diff_add_cancel)
    qed (use pins_nonneg [OF h] n in simp_all)
  qed (use h in \<open>simp add: queue_start_def\<close>)
  moreover have "wf_tree (subs ?q)"
    using assms(2) wildcard_free_tokens [OF assms(4)] tokenise_not_Nil [of topic]
    by (auto simp: queue_start_def sub_path_def intro!: wf_ensure hash_last_no_hash dest: hd_in_set)
  ultimately show "steady (held pins s) ?q ?q" by (simp add: steady_def)
  show "leaves_at p ?q = leaves_at p d" by (simp add: queue_start_def leaves_at_info)
  show "ctx_live ?q q = ctx_live d q" by (simp add: queue_start_def ctx_live_def)
  show "ctx_of ?q = ctx_of d" by (simp add: queue_start_def ctx_of_def fun_eq_iff)
  have "store_topics (hold_stored s d) = store_topics d" by (simp add: hold_stored_topics)
  then show "store_topics ?q = store_topics d" by (simp add: queue_start_def) (simp add: store_topics_def)
qed

lemma messages_queue_steady:
  assumes "msgs_inv pins d" and "wf_tree (subs d)" and "leaves_live d" and "store_live d s" and "wildcard_free topic"
  obtains ptr d' where "mqtt3_db_messages_queue src topic qos retain s d = (0, ptr, d')"
    and "msgs_inv pins d'" and "wf_tree (subs d')" and "\<And>p. leaves_at p d' = leaves_at p d"
    and "\<And>q. ctx_live d' q = ctx_live d q" and "leaves_live d'" and "\<And>q. strip (ctx_of d' q) = strip (ctx_of d q)"
    and "grown d d'"
proof -
  let ?q = "queue_start topic retain s d"
  note start = queue_start_steady [OF assms(1,2,4,5), where retain = retain]
  have pin: "0 < held pins s s" using pins_nonneg [OF assms(1), of s] by simp
  have live: "leaves_live ?q" using assms(3) by (simp add: leaves_live_def start)
  have "\<exists>e. mqtt3_db_messages_queue src topic qos retain s d = (0, msg_store_deref s e) \<and>
      msgs_inv (held pins s) e \<and> wf_tree (subs e) \<and> (\<forall>p. leaves_at p e = leaves_at p d) \<and> (\<forall>q. ctx_live e q = ctx_live d q) \<and>
      (\<forall>q. strip (ctx_of e q) = strip (ctx_of d q)) \<and> grown d e"
  proof (cases "has_child (hd (sub_topic_tokenise topic)) (subs d)")
    case False
    have "msgs_inv (held pins s) (hold_stored s d)" by (rule hold_inv [OF assms(1,4)])
    then show ?thesis using queue_without_root [OF assms(2) False] assms(2)
      by (intro exI [of _ "hold_stored s d"])
        (simp add: leaves_at_info ctx_live_def grown_same hold_stored_topics)
  next
    case True
    obtain vs where vs: "mqtt3_db_messages_queue src topic qos retain s d =
       (0, msg_store_deref s (fold (\<lambda>(p, ls, b) e. snd (subs_process p ls src topic qos retain s b e)) vs ?q))"
      and in_vs: "\<And>p ls b. (p, ls, b) \<in> set vs \<longleftrightarrow>
       (\<exists>ret. info_at p (subs ?q) = Some (ls, ret) \<and> matching topic p \<and> b = (p = sub_path topic))"
      by (rule queue_fold [OF assms(2) True assms(5), where src = src and qos = qos and retain = retain and s = s]) blast
    let ?e = "fold (\<lambda>(p, ls, b) e. snd (subs_process p ls src topic qos retain s b e)) vs ?q"
    have "steady (held pins s) ?q ?e"
    proof (rule fold_steady [OF _ start(1)])
      fix x e assume x: "x \<in> set vs" and st: "steady (held pins s) ?q e"
      obtain p ls b where xx: "x = (p, ls, b)" by (cases x) auto
      then obtain ret where r: "info_at p (subs ?q) = Some (ls, ret)" using in_vs x by blast
      show "steady (held pins s) ?q ((\<lambda>(p, ls, b) e. snd (subs_process p ls src topic qos retain s b e)) x e)"
        unfolding xx prod.case by (rule subs_process_steady [OF st pin r live])
    qed
    moreover have "grown d ?q" by (rule grown_same) (simp_all add: start)
    ultimately show ?thesis using vs start(2,3,4) same_shape_leaves [of "subs ?q" "subs ?e"] grown_trans [of d ?q ?e]
      by (intro exI [of _ ?e]) (simp add: steady_def leaves_at_info)
  qed
  then obtain e where e: "mqtt3_db_messages_queue src topic qos retain s d = (0, msg_store_deref s e)"
    "msgs_inv (held pins s) e" "wf_tree (subs e)" "\<forall>p. leaves_at p e = leaves_at p d" "\<forall>q. ctx_live e q = ctx_live d q"
    "\<forall>q. strip (ctx_of e q) = strip (ctx_of d q)" "grown d e"
    by blast
  obtain ptr d' where pd: "msg_store_deref s e = (ptr, d')" by fastforce
  then have d': "d' = snd (msg_store_deref s e)" by simp
  have inv: "msgs_inv pins d'" unfolding d' by (rule unhold_inv [OF e(2) pins_nonneg [OF assms(1)]])
  have sub: "subs d' = subs e" using view_deref [of s e] by (simp add: view_def d')
  have l: "leaves_at p d' = leaves_at p d" "ctx_live d' q = ctx_live d q" "strip (ctx_of d' q) = strip (ctx_of d q)" for p q
    using e(4,5,6) sub by (simp_all add: leaves_at_info d')
  have "grown e d'" by (rule grown_same) (simp_all add: d' store_topics_deref)
  then have gr: "grown d d'" by (rule grown_trans [OF e(7)])
  show thesis
    by (rule that [of ptr d']) (use e(1,3) pd inv sub l assms(3) gr in \<open>simp_all add: leaves_live_def\<close>)
qed

subsection \<open>Subscriptions and the removal of clients keep the invariant\<close>

lemma msgs_inv_subs:
  assumes "msgs_inv pins d" and "\<And>t. tree_refs t (subs d') = tree_refs t (subs d)" and "contexts d' = contexts d"
    and "glob d' = glob d" and "msg_store d' = msg_store d"
  shows "msgs_inv pins d'"
proof (rule msgs_inv_tree [OF assms(1,3)])
  have "counts_ok (\<lambda>t. int (total_refs d t) + pins t) d" using assms(1) by (simp add: msgs_inv_def store_inv_def)
  then show "counts_ok (\<lambda>t. int (total_refs d t) - int (tree_refs t (subs d)) + int (tree_refs t (subs d')) + pins t) d'"
    using counts_ok_cong [of d' d] assms(2,4,5) by simp
qed (use assms pins_nonneg [OF assms(1)] in simp_all)

lemma same_queue_subs [simp]: "same_queue c (c\<lparr>ctx_subs := x\<rparr>)"
  by (simp add: same_queue_def keys_def)

lemma sub_add_inv [inv_intros]:
  assumes "msgs_inv pins d" and "ctx_live d r" and "ctx_id (ctx_of d r) = Some cid"
  shows "msgs_inv pins (snd (mqtt3_sub_add r sub qos d))"
    and "ctx_live (snd (mqtt3_sub_add r sub qos d)) q = ctx_live d q"
proof -
  obtain d' where o: "mqtt3_sub_add r sub qos d = (MOSQ_ERR_SUCCESS, d')"
    "subs d' = update_at (sub_path sub) (\<lambda>h. set_subs (add_leaf (same_id d r) r qos (sh_subs h)) h) (subs (prepared sub d))"
    "d' = (if is_new r sub d
       then (upd_ctx r (\<lambda>c. c\<lparr>ctx_subs := add_slot (sub_path sub) (ctx_subs c)\<rparr>) (d\<lparr>subs := subs d'\<rparr>))
              \<lparr>subscription_count := subscription_count d + 1\<rparr>
       else d\<lparr>subs := subs d'\<rparr>)"
    by (rule sub_add_outcome [OF assms(3), of sub qos])
  define x where "x = subs d'"
  have refs: "tree_refs t x = tree_refs t (subs d)" for t by (simp add: x_def o(2))
  have 1: "msgs_inv pins (d\<lparr>subs := x\<rparr>)" by (rule msgs_inv_subs [OF assms(1)]) (simp_all add: refs)
  have live: "ctx_live (d\<lparr>subs := x\<rparr>) r" using assms(2) by (simp add: ctx_live_def)
  have 2: "msgs_inv pins (upd_ctx r (\<lambda>c. c\<lparr>ctx_subs := add_slot (sub_path sub) (ctx_subs c)\<rparr>) (d\<lparr>subs := x\<rparr>))"
    by (rule msgs_inv_upd [OF 1 live]) simp
  have 3: "msgs_inv pins ((upd_ctx r (\<lambda>c. c\<lparr>ctx_subs := add_slot (sub_path sub) (ctx_subs c)\<rparr>) (d\<lparr>subs := x\<rparr>))
      \<lparr>subscription_count := subscription_count d + 1\<rparr>)"
    by (rule msgs_inv_cong [OF 2]) simp_all
  have eq: "d' = (if is_new r sub d
       then (upd_ctx r (\<lambda>c. c\<lparr>ctx_subs := add_slot (sub_path sub) (ctx_subs c)\<rparr>) (d\<lparr>subs := x\<rparr>))
              \<lparr>subscription_count := subscription_count d + 1\<rparr>
       else d\<lparr>subs := x\<rparr>)"
    using o(3) by (simp only: x_def)
  have "msgs_inv pins d'" unfolding eq using 1 3 by simp
  then show "msgs_inv pins (snd (mqtt3_sub_add r sub qos d))" by (simp add: o(1))
  have "ctx_live d' q = ctx_live d q"
    unfolding eq using assms(2) by (auto simp: ctx_live_def upd_ctx_def put_ctx_def)
  then show "ctx_live (snd (mqtt3_sub_add r sub qos d)) q = ctx_live d q" by (simp add: o(1))
qed

lemma sub_remove_inv [inv_intros]:
  assumes "msgs_inv pins d" and "ctx_live d r" and "wf_tree (subs d)"
  shows "msgs_inv pins (snd (mqtt3_sub_remove r sub d))"
    and "ctx_live (snd (mqtt3_sub_remove r sub d)) q = ctx_live d q"
proof -
  obtain d' where o: "mqtt3_sub_remove r sub d = (MOSQ_ERR_SUCCESS, d')" and refs: "\<And>s. tree_refs s (subs d') = tree_refs s (subs d)"
    and eq: "d' = (if has_leaf r sub d
       then upd_ctx r (\<lambda>c. c\<lparr>ctx_subs := clear_slot (sub_path sub) (ctx_subs c)\<rparr>) (d\<lparr>subs := subs d', subscription_count := subscription_count d - 1\<rparr>)
       else d\<lparr>subs := subs d'\<rparr>)"
    by (rule sub_remove_outcome [OF assms(3), of r sub]) blast
  define x where "x = subs d'"
  have refs: "tree_refs t x = tree_refs t (subs d)" for t by (simp add: x_def refs)
  have 1: "msgs_inv pins (d\<lparr>subs := x\<rparr>)" by (rule msgs_inv_subs [OF assms(1)]) (simp_all add: refs)
  have 2: "msgs_inv pins (d\<lparr>subs := x, subscription_count := subscription_count d - 1\<rparr>)"
    by (rule msgs_inv_subs [OF assms(1)]) (simp_all add: refs)
  have live: "ctx_live (d\<lparr>subs := x, subscription_count := subscription_count d - 1\<rparr>) r" using assms(2) by (simp add: ctx_live_def)
  have 3: "msgs_inv pins (upd_ctx r (\<lambda>c. c\<lparr>ctx_subs := clear_slot (sub_path sub) (ctx_subs c)\<rparr>)
      (d\<lparr>subs := x, subscription_count := subscription_count d - 1\<rparr>))"
    by (rule msgs_inv_upd [OF 2 live]) simp
  have eq: "d' = (if has_leaf r sub d
       then upd_ctx r (\<lambda>c. c\<lparr>ctx_subs := clear_slot (sub_path sub) (ctx_subs c)\<rparr>) (d\<lparr>subs := x, subscription_count := subscription_count d - 1\<rparr>)
       else d\<lparr>subs := x\<rparr>)"
    using eq by (simp only: x_def)
  have "msgs_inv pins d'" unfolding eq using 1 3 by simp
  then show "msgs_inv pins (snd (mqtt3_sub_remove r sub d))" by (simp add: o)
  have "ctx_live d' q = ctx_live d q"
    unfolding eq using assms(2) by (auto simp: ctx_live_def upd_ctx_def put_ctx_def)
  then show "ctx_live (snd (mqtt3_sub_remove r sub d)) q = ctx_live d q" by (simp add: o)
qed

lemma clean_session_inv [inv_intros]:
  assumes "msgs_inv pins d" and "ctx_live d r" and "linked d"
  shows "msgs_inv pins (snd (mqtt3_subs_clean_session r d))"
    and "ctx_live (snd (mqtt3_subs_clean_session r d)) q = ctx_live d q"
proof -
  obtain d' n where o: "mqtt3_subs_clean_session r d = (MOSQ_ERR_SUCCESS, d')" and refs: "\<And>s. tree_refs s (subs d') = tree_refs s (subs d)"
    and eq: "d' = upd_ctx r (\<lambda>c. c\<lparr>ctx_subs := []\<rparr>) (d\<lparr>subs := subs d', subscription_count := n\<rparr>)"
    by (rule clean_session_outcome [OF assms(3), of r]) blast
  define x where "x = subs d'"
  have refs: "tree_refs t x = tree_refs t (subs d)" for t by (simp add: x_def refs)
  have 2: "msgs_inv pins (d\<lparr>subs := x, subscription_count := n\<rparr>)"
    by (rule msgs_inv_subs [OF assms(1)]) (simp_all add: refs)
  have live: "ctx_live (d\<lparr>subs := x, subscription_count := n\<rparr>) r" using assms(2) by (simp add: ctx_live_def)
  have eq: "d' = upd_ctx r (\<lambda>c. c\<lparr>ctx_subs := []\<rparr>) (d\<lparr>subs := x, subscription_count := n\<rparr>)"
    using eq by (simp only: x_def)
  have "msgs_inv pins d'" unfolding eq by (rule msgs_inv_upd [OF 2 live]) simp
  then show "msgs_inv pins (snd (mqtt3_subs_clean_session r d))" by (simp add: o)
  have "ctx_live d' q = ctx_live d q"
    unfolding eq using assms(2) by (auto simp: ctx_live_def upd_ctx_def put_ctx_def)
  then show "ctx_live (snd (mqtt3_subs_clean_session r d)) q = ctx_live d q" by (simp add: o)
qed

subsection \<open>Retained messages for a new subscription keep the invariant\<close>

text \<open>What every step on a stored message of the tree keeps, the search keeps.\<close>

lemma retain_search_keeps:
  assumes "\<And>s d. P d \<Longrightarrow> 0 < tree_refs s all \<Longrightarrow> P (proc s d)"
    and "\<And>s. tree_refs s hs \<le> tree_refs s all" and "P (snd fd)"
  shows "P (snd (retain_search proc tokens level hs fd))"
  using assms
proof (induction proc tokens level hs fd rule: retain_search.induct)
  case (1 proc tokens level flag d)
  then show ?case by simp
next
  case (2 proc tokens level t ls ret ch hs flag d)
  have hs: "tree_refs s hs \<le> tree_refs s all" "tree_refs s ch \<le> tree_refs s all" for s
    using "2.prems"(2) [of s] by simp_all
  have ret: "P e \<Longrightarrow> P (process_if proc ret e)" for e
  proof (cases ret)
    case (Some s)
    then have "0 < tree_refs s all" using "2.prems"(2) [of s] by simp
    then show "P e \<Longrightarrow> P (process_if proc ret e)" using "2.prems"(1) Some by (simp add: process_if_def)
  qed (simp add: process_if_def)
  note P = "2.prems"(1) and d = "2.prems"(3) [unfolded snd_conv]
  let ?fd = "if hd tokens = ''#'' \<and> tl tokens = [] then
          (True, (let d1 = process_if proc ret d
                  in if ch \<noteq> [] then snd (retain_search proc tokens (level + 1) ch (False, d1)) else d1))
        else if t \<noteq> ''+'' \<and> (t = hd tokens \<or> hd tokens = ''+'') then
          (flag,
           if tl tokens \<noteq> [] then
             (case retain_search proc (tl tokens) (level + 1) ch (False, d) of
                (found, d1) \<Rightarrow>
                  if found \<or> hs = [] \<and> hd (tl tokens) = ''#'' \<and> level > 0
                  then process_if proc ret d1 else d1)
           else process_if proc ret d)
        else (flag, d)"
  have "P (snd ?fd)"
  proof (cases "hd tokens = ''#'' \<and> tl tokens = []")
    case True
    have "ch \<noteq> [] \<Longrightarrow> P (snd (retain_search proc tokens (level + 1) ch (False, process_if proc ret d)))"
      using "2.IH"(1) [OF True refl _ P hs(2)] ret [OF d] by simp
    then show ?thesis using True ret [OF d] by (simp add: Let_def)
  next
    case False
    show ?thesis
    proof (cases "t \<noteq> ''+'' \<and> (t = hd tokens \<or> hd tokens = ''+'')")
      case True
      show ?thesis
      proof (cases "tl tokens = []")
        case nil: True
        have "snd ?fd = process_if proc ret d" unfolding if_not_P [OF False] if_P [OF True] snd_conv by (simp only: nil simp_thms if_False)
        then show ?thesis using ret [OF d] by simp
      next
        case more: False
        have "P (snd (retain_search proc (tl tokens) (level + 1) ch (False, d)))"
          using "2.IH"(2) [OF False True more P hs(2)] d by simp
        moreover obtain found d1 where r: "retain_search proc (tl tokens) (level + 1) ch (False, d) = (found, d1)" by fastforce
        moreover have "snd ?fd = (if found \<or> hs = [] \<and> hd (tl tokens) = ''#'' \<and> level > 0
                  then process_if proc ret d1 else d1)"
          by (simp only: if_not_P [OF False] if_P [OF True] snd_conv if_P [OF more] r prod.case)
        ultimately show ?thesis using ret by simp
      qed
    next
      case skip: False
      have "snd ?fd = d" by (simp only: if_not_P [OF False] if_not_P [OF skip] snd_conv)
      then show ?thesis using d by simp
    qed
  qed
  then have "P (snd (retain_search proc tokens level hs ?fd))"
    by (rule "2.IH"(3) [rotated 2]) (rule P, assumption+, rule hs(1))
  then show ?case by (simp only: retain_search.simps)
qed

lemma insert_live_iff:
  "ctx_live d r \<Longrightarrow> ctx_live (snd (mqtt3_db_message_insert r mid dir qos retain s d)) q = ctx_live d q"
proof (cases "q = r")
  case True
  assume "ctx_live d r"
  then have "ctx_live (snd (mqtt3_db_message_insert r mid dir qos retain s d)) r"
    by (auto simp: mqtt3_db_message_insert_def ctx_live_def link_msg_frame add_dest_def mark_dropping_def upd_ctx_def
        put_ctx_def set_fault_def split: option.splits sum.splits prod.splits)
  then show ?thesis using True \<open>ctx_live d r\<close> by simp
qed (simp add: ctx_live_def insert_frame)

lemma mid_for_live: "ctx_live d r \<Longrightarrow> ctx_live (snd (mid_for r n d)) q = ctx_live d q"
  by (auto simp: mid_for_def mid_generate_def split: prod.splits)

lemma retain_process_inv:
  assumes "msgs_inv pins d" and "ctx_live d r" and "store_live d s"
  shows "msgs_inv pins (snd (retain_process s r sub_qos d))" and "view (snd (retain_process s r sub_qos d)) = view d"
    and "ctx_live (snd (retain_process s r sub_qos d)) q = ctx_live d q"
proof -
  define n where "n = (if ms_qos (store_of d s) > sub_qos then sub_qos else ms_qos (store_of d s))"
  obtain mid d1 where m: "mid_for r n d = (mid, d1)" by fastforce
  have st: "msg_store d1 = msg_store d"
    using m by (auto simp: mid_for_def mid_generate_def split: prod.splits if_splits)
  have d1: "msgs_inv pins d1" "ctx_live d1 r" "view d1 = view d" "ctx_live d1 q = ctx_live d q"
    using mid_generate_inv [OF assms(1,2), of n] mid_generate_frame(3) [of r n d] mid_for_live [OF assms(2), of n q] m by auto
  have live: "store_live d1 s" using assms(3) store_live_cong [OF st] by simp
  have ins: "msgs_inv pins (snd (mqtt3_db_message_insert r mid mosq_md_out n True s d1))"
    by (rule message_insert_inv [OF d1(1,2) live]) simp
  have cases: "snd (retain_process s r sub_qos d) = d \<or>
      snd (retain_process s r sub_qos d) = snd (mqtt3_db_message_insert r mid mosq_md_out n True s d1)"
    using m by (auto simp: retain_process_def Let_def n_def split: prod.splits)
  then show "msgs_inv pins (snd (retain_process s r sub_qos d))" using ins assms(1) by auto
  show "view (snd (retain_process s r sub_qos d)) = view d" using cases insert_frame(1) d1(3) by metis
  show "ctx_live (snd (retain_process s r sub_qos d)) q = ctx_live d q"
    using cases insert_live_iff [OF d1(2), of mid mosq_md_out n True s q] d1(4) by metis
qed

lemma tree_refs_child: "node_at [t] hs = Some h \<Longrightarrow> tree_refs s (sh_children h) \<le> tree_refs s hs"
  by (induction hs) (auto simp: tree_refs_Cons split: if_splits)

lemma refs_live:
  assumes "msgs_inv pins d" and "0 < tree_refs s (subs d)"
  shows "store_live d s"
proof -
  have "tree_refs s (subs d) \<le> total_refs d s" by (simp add: total_refs_def)
  then have "0 < int (total_refs d s) + pins s" using assms(2) pins_nonneg [OF assms(1), of s] by linarith
  then show ?thesis using assms(1) unfolding msgs_inv_def store_inv_def counts_ok_def by blast
qed

lemma retain_queue_inv [inv_intros]:
  assumes "msgs_inv pins d" and "ctx_live d r"
  shows "msgs_inv pins (snd (mqtt3_retain_queue r sub sub_qos d))
    \<and> view (snd (mqtt3_retain_queue r sub sub_qos d)) = view d
    \<and> (\<forall>q. ctx_live (snd (mqtt3_retain_queue r sub sub_qos d)) q = ctx_live d q)"
proof (cases "node_at [hd (sub_topic_tokenise sub)] (subs d)")
  case None
  then show ?thesis using assms by (simp add: mqtt3_retain_queue_def Let_def)
next
  case (Some h)
  let ?P = "\<lambda>e. msgs_inv pins e \<and> view e = view d \<and> (\<forall>q. ctx_live e q = ctx_live d q)"
  have "?P (snd (retain_search (\<lambda>s e. snd (retain_process s r sub_qos e)) (sub_topic_tokenise sub) 0 (sh_children h) (False, d)))"
  proof (rule retain_search_keeps [where P = ?P and all = "subs d"])
    fix s e
    assume e: "?P e" and refs: "0 < tree_refs s (subs d)"
    have subs: "subs e = subs d" using e by (simp add: view_def)
    have live: "ctx_live e r" "store_live e s" using e assms(2) refs_live [of pins e s] refs subs by simp_all
    have "msgs_inv pins e" using e by simp
    from retain_process_inv [OF this live, of sub_qos] show "?P (snd (retain_process s r sub_qos e))" using e by simp
  next
    show "tree_refs s (sh_children h) \<le> tree_refs s (subs d)" for s by (rule tree_refs_child [OF Some])
  qed (use assms in simp)
  then show ?thesis using Some by (simp add: mqtt3_retain_queue_def Let_def)
qed

end
