(* ===== verification/Publish.thy ===== *)
theory Publish
  imports TreeInv
begin

text \<open>
  What publishing a message means for the clients: subscribers that match get it, other clients
  are not touched, and the retained message of the topic is replaced.
\<close>

subsection \<open>Clients that are not touched\<close>

lemma contexts_deref [simp]: "contexts (snd (msg_store_deref s d)) = contexts d"
  by (simp add: msg_store_deref_def Let_def set_fault_def msg_store_remove_def)

lemma contexts_retain_at [simp]: "contexts (retain_at p topic s d) = contexts d"
proof -
  have "contexts (release_retained p e) = contexts e" for e
  proof (cases "\<exists>h old. node_at p (subs e) = Some h \<and> sh_retained h = Some old")
    case True
    then obtain h old where "node_at p (subs e) = Some h" "sh_retained h = Some old" by blast
    then show ?thesis by (simp add: release_retained_some Let_def)
  qed (auto simp: release_retained_def split: option.splits)
  then show ?thesis by (simp add: retain_at_def take_retained_msgs)
qed

lemma subs_process_frame:
  "q \<notin> lf_context ` set ls \<Longrightarrow> contexts (snd (subs_process p ls src topic qos retain s b d)) q = contexts d q"
  by (simp add: subs_process_def leaf_loop_frame)

lemma fold_untouched:
  "(\<And>x e. x \<in> set xs \<Longrightarrow> contexts (f x e) r = contexts e r) \<Longrightarrow> contexts (fold f xs d) r = contexts d r"
  by (induction xs arbitrary: d) auto

lemma linked_live: "linked d \<Longrightarrow> leaves_live d"
proof -
  assume link: "linked d"
  have "ctx_live d (lf_context l)" if "l \<in> set (leaves_at p d)" for p l
  proof (rule ccontr)
    assume "\<not> ctx_live d (lf_context l)"
    then have "ctx_subs (ctx_of d (lf_context l)) = []" by (simp add: ctx_live_def ctx_of_def ctx_zero_def)
    then show False using linkedD(2) [OF link, of p "lf_context l"] that by force
  qed
  then show ?thesis by (simp add: leaves_live_def)
qed

lemma start_contexts [simp]: "contexts (queue_start topic retain s d) = contexts d"
  by (simp add: queue_start_def)

lemma start_ctx_of [simp]: "ctx_of (queue_start topic retain s d) = ctx_of d"
  by (simp add: fun_eq_iff ctx_of_def)

lemma start_leaves [simp]: "leaves_at p (queue_start topic retain s d) = leaves_at p d"
  by (simp add: queue_start_def leaves_at_info)

lemma queue_untouched:
  assumes "linked d" and "wildcard_free topic"
    and "\<forall>p. Some p \<in> set (ctx_subs (ctx_of d r)) \<longrightarrow> \<not> matching topic p"
  shows "contexts (snd (snd (mqtt3_db_messages_queue src topic qos retain s d))) r = contexts d r"
proof (cases "has_child (hd (sub_topic_tokenise topic)) (subs d)")
  case False
  then show ?thesis using queue_without_root [OF linkedD(1) [OF assms(1)] False] by simp
next
  case True
  let ?q = "queue_start topic retain s d"
  obtain vs where vs: "mqtt3_db_messages_queue src topic qos retain s d =
       (0, msg_store_deref s (fold (\<lambda>(p, ls, b) e. snd (subs_process p ls src topic qos retain s b e)) vs ?q))"
    and mem: "\<And>p ls b. (p, ls, b) \<in> set vs \<longleftrightarrow>
       (\<exists>ret. info_at p (subs ?q) = Some (ls, ret) \<and> matching topic p \<and> b = (p = sub_path topic))"
    by (rule queue_fold [OF linkedD(1) [OF assms(1)] True assms(2), where src = src and qos = qos and retain = retain and s = s]) blast
  have "contexts (fold (\<lambda>(p, ls, b) e. snd (subs_process p ls src topic qos retain s b e)) vs ?q) r = contexts ?q r"
  proof (rule fold_untouched)
    fix x e assume x: "x \<in> set vs"
    obtain p ls b where xx: "x = (p, ls, b)" by (cases x) auto
    then obtain ret where i: "info_at p (subs ?q) = Some (ls, ret)" "matching topic p" using mem x by blast
    have "ls = leaves_at p d" using i(1) start_leaves [of p topic retain s d] by (simp add: leaves_at_info)
    then have "r \<notin> lf_context ` set ls" using linkedD(2) [OF assms(1), of p r] assms(3) i(2) by blast
    then show "contexts ((\<lambda>(p, ls, b) e. snd (subs_process p ls src topic qos retain s b e)) x e) r = contexts e r"
      unfolding xx prod.case by (rule subs_process_frame)
  qed
  then show ?thesis by (simp add: vs)
qed

text \<open>
  Publishing does not touch clients whose subscriptions do not match: the whole context, its
  queue included, is what it was.
\<close>

theorem publish_leaves_others_alone:
  assumes "linked d" and "wildcard_free topic"
    and "\<forall>p. Some p \<in> set (ctx_subs (ctx_of d r)) \<longrightarrow> \<not> matching topic p"
  shows "contexts (snd (snd (mqtt3_db_messages_queue src topic qos retain s d))) r = contexts d r"
  by (rule queue_untouched [OF assms])

subsection \<open>Clients that are reached\<close>

text \<open>What delivery does not change in a context: all that access checks and the insert look at.\<close>

definition ctx_fix :: "ctx \<Rightarrow> ctx \<Rightarrow> bool" where
  "ctx_fix c c' \<longleftrightarrow> ctx_id c' = ctx_id c \<and> sock c' = sock c \<and> is_bridge c' = is_bridge c \<and>
     (bridge c = None \<longrightarrow> bridge c' = None) \<and> username c' = username c \<and> ctx_acl_list c' = ctx_acl_list c"

lemma ctx_fix_refl [simp]: "ctx_fix c c"
  by (simp add: ctx_fix_def)

lemma ctx_fix_trans: "ctx_fix a b \<Longrightarrow> ctx_fix b c \<Longrightarrow> ctx_fix a c"
  by (simp add: ctx_fix_def)

definition got :: "ctx_ref \<Rightarrow> store_ref \<Rightarrow> db \<Rightarrow> bool" where
  "got r s e \<longleftrightarrow> (\<exists>m \<in> set (msgs (ctx_of e r)). cm_store m = s \<and> cm_direction m = mosq_md_out)"

definition dests :: "store_ref \<Rightarrow> db \<Rightarrow> string set" where
  "dests s e = set (ms_dest_ids (store_of e s))"

text \<open>One step of a delivery for context \<open>r\<close>.\<close>

definition delivered :: "ctx_ref \<Rightarrow> store_ref \<Rightarrow> db \<Rightarrow> db \<Rightarrow> bool" where
  "delivered r s d e \<longleftrightarrow> (\<forall>q. ctx_fix (ctx_of d q) (ctx_of e q)) \<and>
     (\<forall>q m. m \<in> set (msgs (ctx_of d q)) \<longrightarrow> m \<in> set (msgs (ctx_of e q))) \<and>
     max_inflight (glob e) = max_inflight (glob d) \<and> max_queued (glob e) = max_queued (glob d) \<and> cfg e = cfg d \<and>
     (\<forall>q. msg_count12 (ctx_of e q) = msg_count12 (ctx_of d q) \<or> q = r \<and> got r s e) \<and>
     (\<forall>cid \<in> dests s e. cid \<in> dests s d \<or> ctx_id (ctx_of d r) = Some cid \<and> got r s e)"

lemma delivered_keeps: "delivered r s d e \<Longrightarrow> got q s d \<Longrightarrow> got q s e"
  unfolding delivered_def got_def by blast

lemma delivered_same:
  "ctx_of e = ctx_of d \<Longrightarrow> glob e = glob d \<Longrightarrow> msg_store e = msg_store d \<Longrightarrow> cfg e = cfg d \<Longrightarrow> delivered r s d e"
  by (simp add: delivered_def dests_def store_of_def)

lemma delivered_trans:
  assumes "delivered r s d e" and "delivered r s e f"
  shows "delivered r s d f"
  unfolding delivered_def
proof (intro conjI allI ballI impI)
  show "ctx_fix (ctx_of d q) (ctx_of f q)" for q
    using assms ctx_fix_trans unfolding delivered_def by blast
  show "m \<in> set (msgs (ctx_of f q))" if "m \<in> set (msgs (ctx_of d q))" for q m
    using assms that unfolding delivered_def by blast
  show "max_inflight (glob f) = max_inflight (glob d)" "max_queued (glob f) = max_queued (glob d)" "cfg f = cfg d"
    using assms unfolding delivered_def by simp_all
  note keep = delivered_keeps [OF assms(2), of r]
  show "msg_count12 (ctx_of f q) = msg_count12 (ctx_of d q) \<or> q = r \<and> got r s f" for q
    using assms keep unfolding delivered_def by metis
  fix cid assume "cid \<in> dests s f"
  then have "cid \<in> dests s e \<or> ctx_id (ctx_of e r) = Some cid \<and> got r s f" using assms(2) unfolding delivered_def by blast
  moreover have "ctx_id (ctx_of e r) = ctx_id (ctx_of d r)" using assms(1) by (simp add: delivered_def ctx_fix_def)
  ultimately show "cid \<in> dests s d \<or> ctx_id (ctx_of d r) = Some cid \<and> got r s f" using assms(1) keep by (auto simp: delivered_def)
qed

lemma mid_for_delivered: "delivered r s d (snd (mid_for r n d))"
  by (auto simp: mid_for_def mid_generate_def mosquitto_mid_generate_def Let_def delivered_def ctx_fix_def dests_def store_of_def)

lemma inserted_delivered:
  assumes "cm_store m = s" and "cm_direction m = mosq_md_out"
  shows "delivered r s d (inserted r m d)" "m \<in> set (msgs (ctx_of (inserted r m d) r))" "dests s (inserted r m d) = dests s d"
proof -
  have st: "ms_dest_ids (store_of (inserted r m d) s) = ms_dest_ids (store_of d s)"
  proof -
    have "store_of (inserted r m d) s = store_of (upd_store s (\<lambda>x. x\<lparr>ms_ref_count := ms_ref_count x + 1\<rparr>) (snd (fresh_ptr d))) s"
      by (rule store_of_cong) (simp add: inserted_def Let_def assms(1))
    also have "ms_dest_ids \<dots> = ms_dest_ids (store_of (snd (fresh_ptr d)) s)" by (simp add: store_of_upd_store)
    also have "store_of (snd (fresh_ptr d)) s = store_of d s" by (rule store_of_cong) (simp add: fresh_ptr_def)
    finally show ?thesis .
  qed
  then show "dests s (inserted r m d) = dests s d" by (simp add: dests_def)
  have lazy: "msgs (check_lazy_bridge c) = msgs c" "ctx_fix c (check_lazy_bridge c)"
    "msg_count12 (check_lazy_bridge c) = msg_count12 c" for c
    by (auto simp: check_lazy_bridge_def ctx_fix_def split: option.splits)
  have fresh: "ctx_of (snd (fresh_ptr d)) = ctx_of d" by (simp add: fresh_ptr_def ctx_of_def fun_eq_iff)
  show m: "m \<in> set (msgs (ctx_of (inserted r m d) r))" by (simp add: inserted_def Let_def lazy)
  then have "got r s (inserted r m d)" using assms unfolding got_def by blast
  moreover have "cfg (inserted r m d) = cfg d" by (simp add: inserted_def Let_def fresh_ptr_def upd_store_def put_ctx_def)
  moreover have "msg_count12 (ctx_of (inserted r m d) q) = msg_count12 (ctx_of d q)" if "q \<noteq> r" for q
    using that by (simp add: inserted_def Let_def fresh)
  moreover have "ctx_fix (ctx_of d q) (ctx_of (inserted r m d) q)" for q
    using lazy(2) by (simp add: inserted_def Let_def fresh) (simp add: ctx_fix_def)
  moreover have "x \<in> set (msgs (ctx_of (inserted r m d) q))" if "x \<in> set (msgs (ctx_of d q))" for q x
    using that by (auto simp: inserted_def Let_def lazy(1) fresh)
  moreover have "max_inflight (glob (inserted r m d)) = max_inflight (glob d)" "max_queued (glob (inserted r m d)) = max_queued (glob d)"
    by (simp_all add: inserted_def Let_def fresh_ptr_def)
  ultimately show "delivered r s d (inserted r m d)" using st by (auto simp: delivered_def dests_def)
qed

lemma other_delivered:
  "delivered r s d (mark_dropping r d)" "delivered r s d (set_fault d)" "delivered r s d (count_change st d)"
proof -
  have "ctx_of (d\<lparr>glob := g\<rparr>) = ctx_of d" for g by (simp add: ctx_of_def fun_eq_iff)
  then show "delivered r s d (mark_dropping r d)"
    by (simp add: delivered_def mark_dropping_def dests_def store_of_def upd_ctx_def) (simp add: ctx_fix_def put_ctx_def)
  show "delivered r s d (set_fault d)"
    by (simp add: delivered_def set_fault_def dests_def store_of_def ctx_of_def)
  show "delivered r s d (count_change st d)"
    by (rule delivered_same) (simp_all add: count_change_def ctx_of_def fun_eq_iff)
qed

lemma add_dest_delivered:
  assumes "ctx_id (ctx_of d r) = Some cid" and "got r s d"
  shows "delivered r s d (add_dest b cid s d)" "got q s (add_dest b cid s d) = got q s d"
  using assms by (auto simp: delivered_def add_dest_def dests_def store_of_upd_store got_def)

lemma insert_delivered:
  assumes "msgs_inv pins d" and "ctx_live d r" and "store_live d s"
  shows "delivered r s d (snd (mqtt3_db_message_insert r mid mosq_md_out qos retain s d))"
  using assms
proof (cases rule: insert_outcomes [where mid = mid and dir = mosq_md_out and qos = qos and retain = retain])
  case (linked rc st cid)
  let ?m = "new_msg mid mosq_md_out qos retain s st (now (glob d)) (next_ptr (glob d))"
  have "delivered r s d (count_change st d)" by (rule other_delivered)
  moreover have "delivered r s (count_change st d) (inserted r ?m (count_change st d))"
    by (rule inserted_delivered) (simp_all add: new_msg_def)
  moreover have "got r s (inserted r ?m (count_change st d))"
    unfolding got_def using inserted_delivered(2) [of ?m s r "count_change st d"] by (force simp: new_msg_def)
  ultimately have 1: "delivered r s d (inserted r ?m (count_change st d))" and g: "got r s (inserted r ?m (count_change st d))"
    using delivered_trans by blast+
  from 1 have "ctx_id (ctx_of (inserted r ?m (count_change st d)) r) = Some cid"
    using linked(4) by (simp add: delivered_def ctx_fix_def)
  from add_dest_delivered(1) [OF this g] show ?thesis using delivered_trans [OF 1] by (simp add: linked(1))
qed (simp_all add: other_delivered delivered_same)

text \<open>
  The queue of a client takes another message of this QoS. A client that is connected has the
  messages under way besides those that wait; for one that is not, QoS 0 counts only if it is queued.
\<close>

definition room_for :: "config \<Rightarrow> globals \<Rightarrow> ctx \<Rightarrow> nat \<Rightarrow> bool" where
  "room_for cf g c qos \<longleftrightarrow>
     (if sock c \<noteq> INVALID_SOCKET
      then qos = 0 \<or> max_inflight g = 0 \<or> msg_count12 c < max_inflight g \<or>
        max_queued g = 0 \<or> msg_count12 c < max_inflight g + max_queued g
      else (0 < qos \<or> queue_qos0_messages cf) \<and> (max_queued g \<le> 0 \<or> msg_count12 c < max_queued g))"

lemma insert_gets:
  assumes "msgs_inv pins d" and "ctx_live d r" and "store_live d s"
    and "ctx_id (ctx_of d r) = Some cid" and "cid \<notin> dests s d"
    and "qos \<le> 2" and "room_for (cfg d) (glob d) (ctx_of d r) qos"
  shows "got r s (snd (mqtt3_db_message_insert r mid mosq_md_out qos retain s d))"
proof -
  obtain st rc where st: "insert_state d (ctx_of d r) mosq_md_out qos = Inr (st, rc)" "st \<noteq> mosq_ms_invalid"
    using assms(6,7) by (fastforce simp: insert_state_def insert_connected_def publish_state_def room_for_def split: if_splits)
  have "snd (mqtt3_db_message_insert r mid mosq_md_out qos retain s d) =
      add_dest (no_duplicates d mosq_md_out retain) cid s
        (link_msg r s (new_msg mid mosq_md_out qos retain s st (now (glob d))) (count_change st d))"
    using assms(4,5) st by (simp add: mqtt3_db_message_insert_def dests_def)
  also have "link_msg r s (new_msg mid mosq_md_out qos retain s st (now (glob d))) (count_change st d)
      = inserted r (new_msg mid mosq_md_out qos retain s st (now (glob d)) (next_ptr (glob d))) (count_change st d)"
    using link_msg_inserted [OF count_change_inv [OF assms(1)], of st r s "new_msg mid mosq_md_out qos retain s st (now (glob d))"]
      assms(2,3,4) by (simp add: new_msg_def)
  finally have eq: "snd (mqtt3_db_message_insert r mid mosq_md_out qos retain s d) =
      add_dest (no_duplicates d mosq_md_out retain) cid s
        (inserted r (new_msg mid mosq_md_out qos retain s st (now (glob d)) (next_ptr (glob d))) (count_change st d))" .
  let ?m = "new_msg mid mosq_md_out qos retain s st (now (glob d)) (next_ptr (glob d))"
  have "cm_store ?m = s" "cm_direction ?m = mosq_md_out" by (simp_all add: new_msg_def)
  moreover from this have "?m \<in> set (msgs (ctx_of (inserted r ?m (count_change st d)) r))"
    using inserted_delivered(2) by blast
  ultimately have "got r s (inserted r ?m (count_change st d))" unfolding got_def by blast
  then show ?thesis by (simp add: eq add_dest_def got_def)
qed

lemma deliver_to_delivered:
  assumes "msgs_inv pins d" and "ctx_live d (lf_context l)" and "0 < pins s"
  shows "delivered (lf_context l) s d (snd (deliver_to l qos retain s d))"
    and "ctx_id (ctx_of d (lf_context l)) = Some cid \<Longrightarrow> cid \<notin> dests s d \<Longrightarrow> qos \<le> 2 \<Longrightarrow> lf_qos l \<le> 2 \<Longrightarrow>
      room_for (cfg d) (glob d) (ctx_of d (lf_context l)) (out_qos (cfg d) qos (lf_qos l)) \<Longrightarrow>
      got (lf_context l) s (snd (deliver_to l qos retain s d))"
proof -
  let ?r = "lf_context l" and ?n = "out_qos (cfg d) qos (lf_qos l)"
  obtain mid d1 where m: "mid_for ?r ?n d = (mid, d1)" by fastforce
  have d1: "msgs_inv pins d1" "ctx_live d1 ?r" "delivered ?r s d d1"
    using mid_generate_inv [OF assms(1,2), of ?n] mid_for_delivered [of ?r s d ?n] m by auto
  note live = pinned_live [OF d1(1) assms(3)]
  have eq: "snd (deliver_to l qos retain s d) =
      snd (mqtt3_db_message_insert ?r mid mosq_md_out ?n (is_bridge (ctx_of d1 ?r) \<and> retain) s d1)"
    by (simp add: deliver_to_def m Let_def)
  show "delivered ?r s d (snd (deliver_to l qos retain s d))"
    unfolding eq by (rule delivered_trans [OF d1(3) insert_delivered [OF d1(1,2) live]])
  assume a: "ctx_id (ctx_of d ?r) = Some cid" "cid \<notin> dests s d" "qos \<le> 2" "lf_qos l \<le> 2" "room_for (cfg d) (glob d) (ctx_of d ?r) ?n"
  have "dests s d1 = dests s d"
    using m by (auto simp: mid_for_def mid_generate_def dests_def store_of_def split: prod.splits if_splits)
  moreover have "room_for (cfg d1) (glob d1) (ctx_of d1 ?r) ?n"
    using a(5) m by (auto simp: mid_for_def mid_generate_def mosquitto_mid_generate_def Let_def room_for_def split: prod.splits if_splits)
  ultimately show "got ?r s (snd (deliver_to l qos retain s d))"
    unfolding eq using a d1(3)
    by (intro insert_gets [OF d1(1,2) live, of cid]) (auto simp: delivered_def ctx_fix_def out_qos_def)
qed

lemma acl_check_result:
  "auth_plugin d = None \<Longrightarrow> mosquitto_acl_check d c topic a = MOSQ_ERR_SUCCESS \<or> mosquitto_acl_check d c topic a = MOSQ_ERR_ACL_DENIED"
  by (auto simp: mosquitto_acl_check_def mosquitto_acl_check_default_def split: option.splits prod.splits)

lemma acl_check_fix:
  assumes "auth_plugin d = None" and "auth_plugin e = auth_plugin d" and "acl_list e = acl_list d"
    and "acl_patterns e = acl_patterns d" and "ctx_fix c c'" and "bridge c = None"
  shows "mosquitto_acl_check e c' topic a = mosquitto_acl_check d c topic a"
proof -
  have "ctx_id c' = ctx_id c" "bridge c' = None" "username c' = username c" "ctx_acl_list c' = ctx_acl_list c"
    using assms(5,6) by (simp_all add: ctx_fix_def)
  then show ?thesis
    by (cases "ctx_id c"; cases "acl_loop (case ctx_acl_list c of Some u \<Rightarrow> au_acl u | None \<Rightarrow> []) topic a False")
      (simp_all add: mosquitto_acl_check_def mosquitto_acl_check_default_def assms)
qed

text \<open>The client the property is about, and what stays true while others are served.\<close>

definition target :: "db \<Rightarrow> ctx_ref \<Rightarrow> string \<Rightarrow> store_ref \<Rightarrow> string \<Rightarrow> bool" where
  "target d r cid s topic \<longleftrightarrow>
     ctx_id (ctx_of d r) = Some cid \<and> bridge (ctx_of d r) = None \<and> \<not> is_bridge (ctx_of d r) \<and>
     mosquitto_acl_check d (ctx_of d r) topic MOSQ_ACL_READ = MOSQ_ERR_SUCCESS \<and> auth_plugin d = None \<and>
     (\<forall>q. q \<noteq> r \<longrightarrow> ctx_id (ctx_of d q) \<noteq> Some cid) \<and> cid \<notin> dests s d"

text \<open>A subscription through which the client gets a publication with this QoS.\<close>

definition serves :: "db \<Rightarrow> ctx_ref \<Rightarrow> nat \<Rightarrow> subleaf \<Rightarrow> bool" where
  "serves d r qos l \<longleftrightarrow> lf_context l = r \<and> room_for (cfg d) (glob d) (ctx_of d r) (out_qos (cfg d) qos (lf_qos l))"

definition serving :: "(store_ref \<Rightarrow> int) \<Rightarrow> db \<Rightarrow> ctx_ref \<Rightarrow> string \<Rightarrow> store_ref \<Rightarrow> db \<Rightarrow> bool" where
  "serving pins d r cid s e \<longleftrightarrow> msgs_inv pins e \<and> (\<forall>q. ctx_live e q = ctx_live d q) \<and>
     (\<forall>q. ctx_fix (ctx_of d q) (ctx_of e q)) \<and>
     acl_list e = acl_list d \<and> acl_patterns e = acl_patterns d \<and> auth_plugin e = auth_plugin d \<and>
     max_inflight (glob e) = max_inflight (glob d) \<and> max_queued (glob e) = max_queued (glob d) \<and> cfg e = cfg d \<and>
     (got r s e \<or> cid \<notin> dests s e \<and> msg_count12 (ctx_of e r) = msg_count12 (ctx_of d r))"

lemma serving_room:
  assumes "serving pins d r cid s e" and "\<not> got r s e"
  shows "room_for (cfg e) (glob e) (ctx_of e r) n = room_for (cfg d) (glob d) (ctx_of d r) n"
  using assms by (auto simp: serving_def ctx_fix_def room_for_def)

lemma serving_delivered:
  assumes "serving pins d r cid s e" and "target d r cid s topic" and "delivered q s e f" and "msgs_inv pins f"
    and "\<And>x. ctx_live f x = ctx_live e x" and "view f = view e"
  shows "serving pins d r cid s f"
proof -
  have "got r s f \<or> cid \<notin> dests s f \<and> msg_count12 (ctx_of f r) = msg_count12 (ctx_of d r)"
  proof (cases "got r s f")
    case False
    then have "\<not> got r s e" using delivered_keeps [OF assms(3)] by blast
    then have old: "cid \<notin> dests s e" "msg_count12 (ctx_of e r) = msg_count12 (ctx_of d r)" using assms(1) by (simp_all add: serving_def)
    have "q = r" if "ctx_id (ctx_of e q) = Some cid" using that assms(1,2) by (auto simp: serving_def target_def ctx_fix_def)
    then have "cid \<notin> dests s f" using assms(3) old(1) False unfolding delivered_def by blast
    moreover have "msg_count12 (ctx_of f r) = msg_count12 (ctx_of e r)" using assms(3) False unfolding delivered_def by blast
    ultimately show ?thesis using old(2) by simp
  qed simp
  moreover have "ctx_fix (ctx_of d x) (ctx_of f x)" for x
    using assms(1,3) ctx_fix_trans unfolding serving_def delivered_def by blast
  ultimately show ?thesis using assms(1,3,4,5,6) by (simp add: serving_def delivered_def view_def)
qed

lemma leaf_loop_reach:
  assumes "target d r cid s topic" and "serving pins d r cid s e" and "\<forall>l \<in> set ls. ctx_live d (lf_context l) \<and> lf_qos l \<le> 2"
    and "0 < pins s" and "qos \<le> 2"
  shows "serving pins d r cid s (snd (leaf_loop ls src topic qos retain s rc e)) \<and>
    ((\<exists>l \<in> set ls. serves d r qos l) \<or> got r s e \<longrightarrow> got r s (snd (leaf_loop ls src topic qos retain s rc e)))"
  using assms
proof (induction ls src topic qos retain s rc e rule: leaf_loop.induct)
  case (2 l ls src topic qos retain s rc e)
  let ?r = "lf_context l"
  obtain rc1 e1 where dl: "deliver_to l qos retain s e = (rc1, e1)" by fastforce
  have sv: "msgs_inv pins e" "ctx_live e ?r" "auth_plugin e = None" using "2.prems" by (simp_all add: serving_def target_def)
  note step = deliver_to_delivered [OF sv(1,2) "2.prems"(4), where qos = qos and retain = retain, unfolded dl snd_conv]
  have keep: "got r s e \<Longrightarrow> got r s e1" by (rule delivered_keeps [OF step(1)])
  have gets: "got r s e1" if "serves d r qos l"
  proof (cases "got r s e")
    case False
    then have "cid \<notin> dests s e" "cfg e = cfg d" "ctx_id (ctx_of e r) = Some cid"
      using "2.prems"(1,2) by (auto simp: serving_def target_def ctx_fix_def)
    then show ?thesis using step(2) [of cid] serving_room [OF "2.prems"(2) False] that "2.prems"(3,5) by (simp add: serves_def)
  qed (rule keep)
  have e1: "serving pins d r cid s e1"
  proof (rule serving_delivered [OF "2.prems"(2,1) step(1)])
    show "msgs_inv pins e1" using deliver_inv [OF sv(1,2) "2.prems"(4), of qos retain] by (simp add: dl)
    show "ctx_live e1 x = ctx_live e x" for x using deliver_live [OF sv(2), of qos retain s x] by (simp add: dl)
    show "view e1 = view e" using deliver_frame(1) [where l = l and qos = qos and retain = retain and s = s and d = e] by (simp add: dl)
  qed
  have ls: "\<forall>l \<in> set ls. ctx_live d (lf_context l) \<and> lf_qos l \<le> 2" using "2.prems"(3) by simp
  note ih = "2.IH"
  show ?case
  proof (cases "ctx_id (ctx_of e ?r) = None \<or> is_bridge (ctx_of e ?r) \<and> ctx_id (ctx_of e ?r) = Some src")
    case True
    then have "?r \<noteq> r" using "2.prems"(1,2) by (auto simp: target_def serving_def ctx_fix_def)
    then show ?thesis using ih(1) [OF refl True "2.prems"(1,2) ls "2.prems"(4,5)] True by (auto simp: serves_def)
  next
    case False
    consider (ok) "mosquitto_acl_check e (ctx_of e ?r) topic MOSQ_ACL_READ = MOSQ_ERR_SUCCESS"
      | (denied) "mosquitto_acl_check e (ctx_of e ?r) topic MOSQ_ACL_READ = MOSQ_ERR_ACL_DENIED"
      using acl_check_result [OF sv(3)] by blast
    then show ?thesis
    proof cases
      case ok
      have "serving pins d r cid s (snd (leaf_loop ls src topic qos retain s (if rc1 = 1 then 1 else rc) e1)) \<and>
        ((\<exists>l \<in> set ls. serves d r qos l) \<or> got r s e1 \<longrightarrow> got r s (snd (leaf_loop ls src topic qos retain s (if rc1 = 1 then 1 else rc) e1)))"
        by (rule ih(3) [OF refl False refl _ _ dl [symmetric] "2.prems"(1) e1 ls "2.prems"(4,5)]) (use ok in simp_all)
      then show ?thesis using gets keep False ok dl by auto
    next
      case denied
      have "?r \<noteq> r"
      proof
        assume "?r = r"
        then have "mosquitto_acl_check e (ctx_of e ?r) topic MOSQ_ACL_READ = MOSQ_ERR_SUCCESS"
          using acl_check_fix [of d e "ctx_of d r" "ctx_of e r" topic MOSQ_ACL_READ] "2.prems"(1,2)
          by (simp add: target_def serving_def)
        then show False using denied by simp
      qed
      moreover have "serving pins d r cid s (snd (leaf_loop ls src topic qos retain s rc e)) \<and>
        ((\<exists>l \<in> set ls. serves d r qos l) \<or> got r s e \<longrightarrow> got r s (snd (leaf_loop ls src topic qos retain s rc e)))"
        by (rule ih(2) [OF refl False refl denied "2.prems"(1,2) ls "2.prems"(4,5)])
      ultimately show ?thesis using False denied by (auto simp: serves_def)
    qed
  qed
qed simp

text \<open>Setting the retained message does not concern the clients.\<close>

definition quiet :: "store_ref \<Rightarrow> db \<Rightarrow> db \<Rightarrow> bool" where
  "quiet s d e \<longleftrightarrow> contexts e = contexts d \<and> acl_list e = acl_list d \<and> acl_patterns e = acl_patterns d \<and>
     auth_plugin e = auth_plugin d \<and> max_inflight (glob e) = max_inflight (glob d) \<and>
     max_queued (glob e) = max_queued (glob d) \<and> cfg e = cfg d \<and> dests s e \<subseteq> dests s d"

lemma quiet_trans: "quiet s d e \<Longrightarrow> quiet s e f \<Longrightarrow> quiet s d f"
  unfolding quiet_def by simp blast

lemma quiet_node: "quiet s d (upd_node p f d)" "quiet s d (d\<lparr>retained_count := k\<rparr>)" "quiet s d (d\<lparr>persistence_changes := i\<rparr>)"
  by (simp_all add: quiet_def upd_node_def dests_def store_of_def)

lemma quiet_deref: "quiet s d (snd (msg_store_deref old d))"
proof -
  have "map_of (filter (\<lambda>(p, m). p \<noteq> old) xs) s = (if s = old then None else map_of xs s)" for xs :: "(store_ref \<times> msg_store) list"
    by (induction xs) auto
  then have rem: "dests s (msg_store_remove old e) \<subseteq> dests s e" for e
    by (auto simp: dests_def store_of_def msg_store_remove_def msg_store_zero_def split: option.splits if_splits)
  have "dests s (upd_store old (\<lambda>m. m\<lparr>ms_ref_count := ms_ref_count m - 1\<rparr>) d) = dests s d"
    by (simp add: dests_def store_of_upd_store)
  moreover have "dests s (set_fault d) = dests s d" by (simp add: dests_def set_fault_def store_of_def)
  ultimately have "dests s (snd (msg_store_deref old d)) \<subseteq> dests s d"
    using rem [of "upd_store old (\<lambda>m. m\<lparr>ms_ref_count := ms_ref_count m - 1\<rparr>) d"]
    by (simp add: msg_store_deref_def Let_def)
  moreover have "max_queued (glob (snd (msg_store_deref old d))) = max_queued (glob d)" "cfg (snd (msg_store_deref old d)) = cfg d"
    by (simp_all add: msg_store_deref_def Let_def set_fault_def upd_store_def msg_store_remove_def)
  ultimately show ?thesis using view_deref [of old d] by (simp add: quiet_def view_def)
qed

lemma quiet_retain_at: "quiet s d (retain_at p topic s' d)"
proof -
  have rel: "quiet s e (release_retained p e)" for e
  proof (cases "\<exists>h old. node_at p (subs e) = Some h \<and> sh_retained h = Some old")
    case True
    then obtain h old where h: "node_at p (subs e) = Some h" "sh_retained h = Some old" by blast
    show ?thesis unfolding release_retained_some [OF h] Let_def
      by (rule quiet_trans [OF quiet_deref quiet_trans [OF quiet_node(1) quiet_node(2)]])
  qed (auto simp: release_retained_def quiet_def split: option.splits)
  have "quiet s e (upd_store s' (\<lambda>m. m\<lparr>ms_ref_count := ms_ref_count m + 1\<rparr>) e)" for e
    by (auto simp: quiet_def dests_def store_of_upd_store) (simp_all add: upd_store_def)
  then have take: "quiet s e (take_retained p s' e)" for e
    using quiet_trans quiet_node unfolding take_retained_def by (simp split: if_splits) meson
  show ?thesis unfolding retain_at_def
    using quiet_trans [OF _ quiet_trans [OF rel take]] quiet_node(3) [of s d]
    by (auto simp: quiet_def)
qed

lemma quiet_serving:
  assumes "serving pins d r cid s e" and "quiet s e f" and "msgs_inv pins f"
  shows "serving pins d r cid s f"
proof -
  have "ctx_of f = ctx_of e" using assms(2) by (simp add: quiet_def ctx_of_def fun_eq_iff)
  then show ?thesis using assms by (auto simp: serving_def quiet_def ctx_live_def got_def)
qed

lemma got_contexts: "contexts e = contexts d \<Longrightarrow> got r s e = got r s d"
  by (simp add: got_def ctx_of_def)

lemma fold_reach:
  assumes "\<And>x e. x \<in> set xs \<Longrightarrow> P e \<Longrightarrow> P (f x e) \<and> (g e \<or> x = y \<longrightarrow> g (f x e))"
  shows "P e \<Longrightarrow> P (fold f xs e) \<and> (g e \<or> y \<in> set xs \<longrightarrow> g (fold f xs e))"
  using assms
proof (induction xs arbitrary: e)
  case (Cons x xs)
  have step: "P (f x e) \<and> (g e \<or> x = y \<longrightarrow> g (f x e))" by (rule Cons.prems(2)) (use Cons.prems(1) in simp_all)
  have "P (fold f xs (f x e)) \<and> (g (f x e) \<or> y \<in> set xs \<longrightarrow> g (fold f xs (f x e)))"
    by (rule Cons.IH) (use step Cons.prems(2) in auto)
  then show ?case using step by auto
qed simp

lemma subs_process_reach:
  assumes st: "steady (held pins s) q e" and sv: "serving (held pins s) d r cid s e"
    and it: "info_at p (subs q) = Some (ls, rt)" and pin: "0 < held pins s s" and live: "leaves_live q"
    and lv: "\<forall>l \<in> set ls. ctx_live d (lf_context l) \<and> lf_qos l \<le> 2" and "target d r cid s topic" and "qos \<le> 2"
  defines "f \<equiv> \<lambda>src retain b. snd (subs_process p ls src topic qos retain s b e)"
  shows "steady (held pins s) q (f src retain b) \<and> serving (held pins s) d r cid s (f src retain b) \<and>
    (got r s e \<or> (\<exists>l \<in> set ls. serves d r qos l) \<longrightarrow> got r s (f src retain b))"
proof -
  let ?e = "if retain \<and> b then retain_at p topic s e else e"
  have "map_option fst (info_at p (subs e)) = Some ls" using st it by (simp add: steady_def same_shape_def)
  then obtain h where h: "node_at p (subs e) = Some h" by (auto simp: info_at_def)
  have inv: "msgs_inv (held pins s) e" using st by (simp add: steady_def)
  then have "msgs_inv (held pins s) ?e" using retain_at_step(1) [where pins = "held pins s", OF inv pin h] by simp
  then have sv': "serving (held pins s) d r cid s ?e" using sv quiet_retain_at by (auto intro: quiet_serving)
  have g: "got r s ?e = got r s e" by (rule got_contexts) simp
  have fx: "f src retain b = snd (leaf_loop ls src topic qos retain s 0 ?e)" by (simp only: f_def subs_process_def)
  have "steady (held pins s) q (f src retain b)" unfolding f_def by (rule subs_process_steady [OF st pin it live])
  then show ?thesis
    using leaf_loop_reach [where pins = "held pins s", OF assms(7) sv' lv pin assms(8), of src retain 0] unfolding fx g by blast
qed

lemma start_serving:
  assumes "msgs_inv pins d" and "target d r cid s topic"
    and st: "steady (held pins s) (queue_start topic retain s d) (queue_start topic retain s d)"
  shows "serving (held pins s) d r cid s (queue_start topic retain s d)"
proof -
  have "quiet s d (queue_start topic retain s d)"
    by (auto simp: quiet_def queue_start_def hold_stored_def set_fault_def dests_def store_of_upd_store store_of_def)
      (auto simp: upd_store_def map_of_update_key split: option.splits if_splits)
  moreover have "serving pins d r cid s d" using assms(1,2) by (simp add: serving_def target_def)
  ultimately show ?thesis using st by (auto simp: serving_def quiet_def steady_def ctx_live_def got_def)
qed

lemma subscribed_root:
  assumes "matching topic (sub_path sub)" and "leaves_at (sub_path sub) d \<noteq> []"
  shows "has_child (hd (sub_topic_tokenise topic)) (subs d)"
proof (rule ccontr)
  have "hd (sub_topic_tokenise topic) = hd (sub_topic_tokenise sub)" using assms(1) by (simp add: matching_def sub_path_def)
  moreover assume "\<not> has_child (hd (sub_topic_tokenise topic)) (subs d)"
  ultimately have "leaves_at (sub_path sub) d = []" using no_child_no_node by (simp add: leaves_at_info sub_path_def)
  then show False using assms(2) by simp
qed

text \<open>
  C25. A publication reaches the subscribers, connected or not. In a consistent broker without a security
  plugin, let a client that is not a bridge hold a subscription that the MQTT rule matches with the topic, be
  allowed to read the topic, have an identifier of its own, and not have this very message yet; let its queue
  have room, under any limits, for a message of the QoS the subscription gives. Then after
  \<^verbatim>\<open>mqtt3_db_messages_queue\<close> the client's queue holds the message, whoever else subscribes and in whatever order
  the tree is searched, and whatever other subscriptions the client has.
\<close>

theorem publish_reaches_subscriber:
  assumes "linked d" and "msgs_inv pins d" and "store_live d s" and "wildcard_free topic" and "qos \<le> 2"
    and "\<forall>p. \<forall>l \<in> set (leaves_at p d). lf_qos l \<le> 2"
    and "target d r cid s topic" and "\<lparr>lf_context = r, lf_qos = n\<rparr> \<in> set (leaves_at (sub_path sub) d)"
    and "mqtt_topic_match sub topic" and "room_for (cfg d) (glob d) (ctx_of d r) (out_qos (cfg d) qos n)"
  shows "\<exists>m \<in> set (msgs (ctx_of (snd (snd (mqtt3_db_messages_queue src topic qos retain s d))) r)).
    cm_store m = s \<and> cm_direction m = mosq_md_out"
proof -
  let ?q = "queue_start topic retain s d" and ?p = "sub_path sub"
  note link = linkedD [OF assms(1)]
  have leaf: "\<exists>l \<in> set (leaves_at ?p d). serves d r qos l" using assms(8,10) by (force simp: serves_def)
  have match: "matching topic ?p" using assms(9) by (simp add: matching_sub_path)
  have root: "has_child (hd (sub_topic_tokenise topic)) (subs d)" by (rule subscribed_root [OF match]) (use leaf in auto)
  obtain vs where vs: "mqtt3_db_messages_queue src topic qos retain s d =
       (0, msg_store_deref s (fold (\<lambda>(p, ls, b) e. snd (subs_process p ls src topic qos retain s b e)) vs ?q))"
    and mem: "\<And>p ls b. (p, ls, b) \<in> set vs \<longleftrightarrow>
       (\<exists>ret. info_at p (subs ?q) = Some (ls, ret) \<and> matching topic p \<and> b = (p = sub_path topic))"
    by (rule queue_fold [OF link(1) root assms(4), where src = src and qos = qos and retain = retain and s = s]) blast
  note start = queue_start_steady [OF assms(2) link(1) assms(3,4), where retain = retain]
  have pin: "0 < held pins s s" using pins_nonneg [OF assms(2), of s] by simp
  have live: "leaves_live ?q" using linked_live [OF assms(1)] start by (simp add: leaves_live_def)
  have eq: "leaves_at ?p ?q = leaves_at ?p d" by (rule start_leaves)
  obtain ret where i: "info_at ?p (subs ?q) = Some (leaves_at ?p ?q, ret)"
    using leaf eq by (cases "info_at ?p (subs ?q)") (auto simp: leaves_at_info)
  let ?y = "(?p, leaves_at ?p d, ?p = sub_path topic)"
  have y: "?y \<in> set vs" using mem i match eq by simp
  define P where "P e \<longleftrightarrow> steady (held pins s) ?q e \<and> serving (held pins s) d r cid s e" for e
  have ready: "P ?q" using start(1) start_serving [OF assms(2,7) start(1)] by (simp add: P_def)
  let ?f = "\<lambda>x e. (\<lambda>(p, ls, b) e. snd (subs_process p ls src topic qos retain s b e)) x e"
  have step: "P (?f x e) \<and> (got r s e \<or> x = ?y \<longrightarrow> got r s (?f x e))" if x: "x \<in> set vs" and e: "P e" for x e
  proof -
    obtain p ls b where xx: "x = (p, ls, b)" by (cases x) auto
    then obtain rt where it: "info_at p (subs ?q) = Some (ls, rt)" using mem x by blast
    have ls: "ls = leaves_at p d" using it start_leaves [of p topic retain s d] by (simp add: leaves_at_info)
    have lv: "\<forall>l \<in> set ls. ctx_live d (lf_context l) \<and> lf_qos l \<le> 2"
      using assms(6) linked_live [OF assms(1)] unfolding ls leaves_live_def by blast
    have "x = ?y \<Longrightarrow> \<exists>l \<in> set ls. serves d r qos l" using leaf by (simp add: xx)
    then show ?thesis
      using subs_process_reach [OF _ _ it pin live lv assms(7,5)] e unfolding P_def xx prod.case by blast
  qed
  have "P (fold ?f vs ?q) \<and> (got r s ?q \<or> ?y \<in> set vs \<longrightarrow> got r s (fold ?f vs ?q))"
    by (rule fold_reach [OF step ready])
  then have "got r s (fold ?f vs ?q)" using y by blast
  then have "got r s (snd (snd (mqtt3_db_messages_queue src topic qos retain s d)))"
    by (simp add: vs got_def)
  then show ?thesis unfolding got_def .
qed


subsection \<open>The retained message\<close>

definition retained_at :: "path \<Rightarrow> db \<Rightarrow> store_ref option" where
  "retained_at p d = Option.bind (info_at p (subs d)) snd"

lemma grown_payload:
  assumes "grown d e" and "distinct (map fst (msg_store d))" and "store_live e s"
  shows "ms_payload (store_of e s) = ms_payload (store_of d s)" and "ms_topic (store_of e s) = ms_topic (store_of d s)"
proof -
  obtain m where m: "map_of (msg_store e) s = Some m"
    using assms(3) by (cases "map_of (msg_store e) s") (auto simp: store_live_def map_of_eq_None_iff)
  then have "(s, ms_topic m, ms_payload m) \<in> store_topics e" using map_of_SomeD by (force simp: store_topics_def)
  then obtain x where x: "(s, x) \<in> set (msg_store d)" "ms_topic x = ms_topic m" "ms_payload x = ms_payload m"
    using assms(1) by (auto simp: grown_def store_topics_def)
  then have "map_of (msg_store d) s = Some x" using assms(2) by simp
  then show "ms_payload (store_of e s) = ms_payload (store_of d s)" "ms_topic (store_of e s) = ms_topic (store_of d s)"
    using m x by (simp_all add: store_of_def)
qed

lemma subs_process_retained:
  assumes st: "steady pins q e" and pin: "0 < pins s" and i: "info_at p (subs q) = Some (ls, ret)"
    and dist: "distinct (map fst (msg_store q))"
  shows "retained_at x (snd (subs_process p ls src topic qos retain s b e)) =
    (if retain \<and> b \<and> x = p then new_retained q s else retained_at x e)"
proof -
  have inv: "msgs_inv pins e" and gr: "grown q e" using st by (simp_all add: steady_def)
  have "map_option fst (info_at p (subs e)) = Some ls" using st i by (simp add: steady_def same_shape_def)
  then obtain h where h: "node_at p (subs e) = Some h" by (auto simp: info_at_def)
  have n: "new_retained e s = new_retained q s"
    using grown_payload(1) [OF gr dist pinned_live [OF inv pin]] by (simp add: new_retained_def)
  let ?e = "if retain \<and> b then retain_at p topic s e else e"
  have "view (snd (leaf_loop ls src topic qos retain s 0 ?e)) = view ?e" by (rule leaf_loop_frame)
  then have "subs (snd (subs_process p ls src topic qos retain s b e)) =
      (if retain \<and> b then update_at p (set_retained (new_retained q s)) (subs e) else subs e)"
    using retain_at_step(3) [OF inv pin h, of topic] n by (simp add: subs_process_def view_def)
  moreover have "info_at x (update_at p (set_retained k) (subs e)) =
      (if x = p then map_option (\<lambda>(l, r). (l, k)) (info_at p (subs e)) else info_at x (subs e))" for k
    by (subst info_at_update_at) (auto simp: info_at_def option.map_comp comp_def)
  moreover have "info_at p (subs e) \<noteq> None" using h by (simp add: info_at_def)
  ultimately show ?thesis by (auto simp: retained_at_def)
qed

lemma fold_trace:
  assumes "\<And>x e. x \<in> set xs \<Longrightarrow> P e \<Longrightarrow> P (f x e) \<and> g (f x e) = (if c x then v else g e)" and "P e"
  shows "P (fold f xs e) \<and> g (fold f xs e) = (if \<exists>x \<in> set xs. c x then v else g e)"
  using assms
proof (induction xs arbitrary: e)
  case (Cons x xs)
  have step: "P (f x e) \<and> g (f x e) = (if c x then v else g e)" by (rule Cons.prems(1)) (use Cons.prems(2) in simp_all)
  have "P (fold f xs (f x e)) \<and> g (fold f xs (f x e)) = (if \<exists>x \<in> set xs. c x then v else g (f x e))"
    by (rule Cons.IH) (use step Cons.prems(1) in auto)
  then show ?case using step by auto
qed simp

lemma mqtt_match_refl [simp]: "mqtt_match ts ts"
  by (induction ts) auto

lemma retained_start: "retained_at p (queue_start topic retain s d) = retained_at p d"
  by (simp add: queue_start_def retained_at_def info_at_ensure split: option.splits)

lemma new_retained_start:
  assumes "msgs_inv pins d" and "linked d" and "store_live d s" and "wildcard_free topic"
  shows "new_retained (queue_start topic retain s d) s = (if ms_payload (store_of d s) = [] then None else Some s)"
proof -
  let ?q = "queue_start topic retain s d"
  note start = queue_start_steady [OF assms(1) linkedD(1) [OF assms(2)] assms(3,4), where retain = retain]
  have pin: "0 < held pins s s" using pins_nonneg [OF assms(1), of s] by simp
  have "distinct (map fst (msg_store d))" using assms(1) by (simp add: msgs_inv_def store_inv_def counts_ok_def)
  then have "ms_payload (store_of ?q s) = ms_payload (store_of d s)"
  proof (rule grown_payload(1) [rotated])
    show "grown d ?q" by (rule grown_same) (simp_all add: start)
    show "store_live ?q s" using start(1) pin by (auto simp: steady_def intro: pinned_live)
  qed
  then show ?thesis by (simp add: new_retained_def)
qed

text \<open>
  C36. Publishing with the retain flag replaces the retained message of the topic: afterwards the
  node at the path of the topic holds this message, or none when the payload is empty, and the
  retained messages of all other nodes are what they were; a publication without the flag
  changes no retained message.
\<close>

theorem publish_replaces_retained:
  assumes "linked d" and "msgs_inv pins d" and "store_live d s" and "wildcard_free topic"
    and "has_child (hd (sub_topic_tokenise topic)) (subs d)"
  shows "retained_at p (snd (snd (mqtt3_db_messages_queue src topic qos retain s d))) =
    (if retain \<and> p = sub_path topic then (if ms_payload (store_of d s) = [] then None else Some s)
     else retained_at p d)"
proof -
  let ?q = "queue_start topic retain s d"
  note link = linkedD [OF assms(1)]
  obtain vs where vs: "mqtt3_db_messages_queue src topic qos retain s d =
       (0, msg_store_deref s (fold (\<lambda>(p, ls, b) e. snd (subs_process p ls src topic qos retain s b e)) vs ?q))"
    and mem: "\<And>p ls b. (p, ls, b) \<in> set vs \<longleftrightarrow>
       (\<exists>ret. info_at p (subs ?q) = Some (ls, ret) \<and> matching topic p \<and> b = (p = sub_path topic))"
    by (rule queue_fold [OF link(1) assms(5,4), where src = src and qos = qos and retain = retain and s = s]) blast
  note start = queue_start_steady [OF assms(2) link(1) assms(3,4), where retain = retain]
  have pin: "0 < held pins s s" using pins_nonneg [OF assms(2), of s] by simp
  have live: "leaves_live ?q" using linked_live [OF assms(1)] start by (simp add: leaves_live_def)
  have dist: "distinct (map fst (msg_store ?q))"
    using start(1) by (simp add: steady_def msgs_inv_def store_inv_def counts_ok_def)
  let ?f = "\<lambda>x e. (\<lambda>(p, ls, b) e. snd (subs_process p ls src topic qos retain s b e)) x e"
  let ?c = "\<lambda>(p', ls, b). retain \<and> b \<and> p = p'"
  have step: "steady (held pins s) ?q (?f x e) \<and> retained_at p (?f x e) = (if ?c x then new_retained ?q s else retained_at p e)"
    if x: "x \<in> set vs" and st: "steady (held pins s) ?q e" for x e
  proof -
    obtain p' ls b where xx: "x = (p', ls, b)" by (cases x) auto
    then obtain ret where i: "info_at p' (subs ?q) = Some (ls, ret)" using mem x by blast
    show ?thesis unfolding xx prod.case
      using subs_process_steady [OF st pin i live] subs_process_retained [OF st pin i dist, of p] by blast
  qed
  have "retained_at p (fold ?f vs ?q) = (if \<exists>x \<in> set vs. ?c x then new_retained ?q s else retained_at p ?q)"
    by (rule fold_trace [where P = "steady (held pins s) ?q", THEN conjunct2, OF step start(1)])
  moreover have "(\<exists>x \<in> set vs. ?c x) \<longleftrightarrow> retain \<and> p = sub_path topic"
  proof
    assume r: "retain \<and> p = sub_path topic"
    have "info_at p (subs ?q) \<noteq> None"
      using r ensure_present [of "sub_path topic" "subs d"] by (simp add: queue_start_def info_at_def sub_path_def)
    then obtain ls ret where "info_at p (subs ?q) = Some (ls, ret)" by auto
    moreover have "matching topic p" using r matching_sub_path [of topic topic] by (simp add: mqtt_topic_match_def)
    ultimately have "(p, ls, True) \<in> set vs" using mem r by simp
    then show "\<exists>x \<in> set vs. ?c x" using r by force
  qed (use mem in fastforce)
  moreover have "new_retained ?q s = (if ms_payload (store_of d s) = [] then None else Some s)"
    by (rule new_retained_start [OF assms(2,1,3,4)])
  moreover have "retained_at p (snd (msg_store_deref s e)) = retained_at p e" for e
    using view_deref [of s e] by (simp add: retained_at_def view_def)
  ultimately show ?thesis by (simp only: vs retained_start snd_conv)
qed

subsection \<open>A sample broker with a subscriber\<close>

definition sub_db :: db where
  "sub_db = snd (mqtt3_sub_add 7 ''a/+/#'' 1 (mqtt3_db_limits_set 0 0 tree_db))"

lemma same_clients:
  assumes "\<And>r. ctx_of e r = ctx_of d r" and "subs e = subs d" and "linked d"
  shows "linked e"
  using assms(3) by (simp add: linked_def assms(1,2) leaves_at_info)

lemma limits_db_facts:
  "linked (mqtt3_db_limits_set 0 0 tree_db)" "msgs_inv (\<lambda>s. 0) (mqtt3_db_limits_set 0 0 tree_db)"
  "ctx_of (mqtt3_db_limits_set 0 0 tree_db) = ctx_of tree_db" "ctx_live (mqtt3_db_limits_set 0 0 tree_db) 7"
  "store_live (mqtt3_db_limits_set 0 0 tree_db) 2" "\<And>p. leaves_at p (mqtt3_db_limits_set 0 0 tree_db) = []"
proof -
  let ?d = "mqtt3_db_limits_set 0 0 tree_db"
  have eqs: "contexts ?d = contexts sample_db" "msg_store ?d = msg_store sample_db"
    "next_ptr (glob ?d) = next_ptr (glob sample_db)" "subs ?d = subs tree_db"
    by (simp_all add: mqtt3_db_limits_set_def tree_db_def mqtt3_db_open_def)
  show c: "ctx_of ?d = ctx_of tree_db" by (simp add: mqtt3_db_limits_set_def ctx_of_def fun_eq_iff)
  show "linked ?d" by (rule same_clients [OF _ _ tree_db_linked]) (simp_all add: c eqs)
  have refs: "tree_refs s (subs ?d) = tree_refs s (subs sample_db)" for s
    by (simp add: eqs tree_db_facts) (simp add: sample_db_def db_zero_def)
  have ctx: "ctx_of ?d = ctx_of sample_db" by (simp add: ctx_of_def eqs fun_eq_iff)
  show "msgs_inv (\<lambda>s. 0) ?d"
    using sample_db_inv
    by (simp add: msgs_inv_def store_inv_def counts_ok_def total_refs_def store_live_def eqs(1-3) refs ctx)
  show "ctx_live ?d 7" "store_live ?d 2" using sample_db_facts(1,3) by (simp_all add: ctx_live_def store_live_def eqs)
  show "leaves_at p ?d = []" for p using tree_db_facts(4) [of p] by (simp add: leaves_at_info eqs)
qed

lemma sub_db_facts:
  "linked sub_db" "msgs_inv (\<lambda>s. 0) sub_db" "ctx_live sub_db 7" "store_live sub_db 2"
  "leaves_at p sub_db = (if p = sub_path ''a/+/#'' then [\<lparr>lf_context = 7, lf_qos = 1\<rparr>] else [])"
  "(ctx_of sub_db 7)\<lparr>ctx_subs := []\<rparr> = sample_ctx" "r \<noteq> 7 \<Longrightarrow> ctx_of sub_db r = ctx_zero"
  "glob sub_db = globals_init\<lparr>next_ptr := 12, max_inflight := 0, max_queued := 0\<rparr>" "msg_store sub_db = [(2, sample_store)]"
  "acl_list sub_db = []" "acl_patterns sub_db = []" "auth_plugin sub_db = None"
proof -
  let ?d = "mqtt3_db_limits_set 0 0 tree_db"
  have named: "ctx_id (ctx_of ?d 7) = Some ''c1''" by (simp add: limits_db_facts tree_db_named)
  show "linked sub_db" unfolding sub_db_def
    by (rule sub_add_linked [OF limits_db_facts(1) named hash_last_sub_path [OF sample_sub_ok(2,1)]])
  show "msgs_inv (\<lambda>s. 0) sub_db" "ctx_live sub_db 7" unfolding sub_db_def
    using sub_add_inv [OF limits_db_facts(2,4) named, of "''a/+/#''" 1] limits_db_facts(4) by simp_all
  show "leaves_at p sub_db = (if p = sub_path ''a/+/#'' then [\<lparr>lf_context = 7, lf_qos = 1\<rparr>] else [])"
    unfolding sub_db_def using sub_add_leaves [OF named, of p "''a/+/#''" 1] by (simp add: limits_db_facts add_leaf_def)
  obtain d' where o: "mqtt3_sub_add 7 ''a/+/#'' 1 ?d = (MOSQ_ERR_SUCCESS, d')"
    "d' = (if is_new 7 ''a/+/#'' ?d
       then (upd_ctx 7 (\<lambda>c. c\<lparr>ctx_subs := add_slot (sub_path ''a/+/#'') (ctx_subs c)\<rparr>) (?d\<lparr>subs := subs d'\<rparr>))
              \<lparr>subscription_count := subscription_count ?d + 1\<rparr>
       else ?d\<lparr>subs := subs d'\<rparr>)"
    by (rule sub_add_outcome [OF named, of "''a/+/#''" 1]) blast
  define x where "x = subs d'"
  have d': "sub_db = (if is_new 7 ''a/+/#'' ?d
       then (upd_ctx 7 (\<lambda>c. c\<lparr>ctx_subs := add_slot (sub_path ''a/+/#'') (ctx_subs c)\<rparr>) (?d\<lparr>subs := x\<rparr>))
              \<lparr>subscription_count := subscription_count ?d + 1\<rparr>
       else ?d\<lparr>subs := x\<rparr>)"
    using o(2) unfolding sub_db_def o(1) x_def by simp
  have s: "msg_store ?d = [(2, sample_store)]" "glob ?d = globals_init\<lparr>next_ptr := 12, max_inflight := 0, max_queued := 0\<rparr>"
    "acl_list ?d = []" "acl_patterns ?d = []" "auth_plugin ?d = None"
    by (simp_all add: mqtt3_db_limits_set_def tree_db_def mqtt3_db_open_def sample_db_def db_zero_def)
  show "glob sub_db = globals_init\<lparr>next_ptr := 12, max_inflight := 0, max_queued := 0\<rparr>" "msg_store sub_db = [(2, sample_store)]"
    "acl_list sub_db = []" "acl_patterns sub_db = []" "auth_plugin sub_db = None"
    unfolding d' using s by (simp_all add: upd_ctx_def put_ctx_def)
  show "store_live sub_db 2" unfolding d' store_live_def using s(1) by (simp add: upd_ctx_def put_ctx_def)
  have z: "contexts ?d = (\<lambda>r. None)(7 := Some sample_ctx)"
    by (simp add: mqtt3_db_limits_set_def tree_db_def mqtt3_db_open_def sample_db_def)
  show "(ctx_of sub_db 7)\<lparr>ctx_subs := []\<rparr> = sample_ctx" "r \<noteq> 7 \<Longrightarrow> ctx_of sub_db r = ctx_zero"
    unfolding d' using z by (auto simp: upd_ctx_def put_ctx_def ctx_of_def sample_ctx_def ctx_zero_def)
qed

lemma sub_db_subs: "Some p \<in> set (ctx_subs (ctx_of sub_db r)) \<longleftrightarrow> r = 7 \<and> p = sub_path ''a/+/#''"
  using linkedD(2) [OF sub_db_facts(1), of p r] sub_db_facts(5) [of p] by (auto split: if_splits)

lemma sub_db_client:
  "ctx_id (ctx_of sub_db 7) = Some ''c1''" "sock (ctx_of sub_db 7) = 4" "bridge (ctx_of sub_db 7) = None"
  "is_bridge (ctx_of sub_db 7) = False" "state (ctx_of sub_db 7) = mosq_cs_connected"
  using arg_cong [OF sub_db_facts(6), of ctx_id] arg_cong [OF sub_db_facts(6), of sock]
    arg_cong [OF sub_db_facts(6), of bridge] arg_cong [OF sub_db_facts(6), of is_bridge]
    arg_cong [OF sub_db_facts(6), of state]
  by (simp_all add: sample_ctx_def ctx_zero_def)

theorem publish_leaves_others_alone_witness:
  "contexts (snd (snd (mqtt3_db_messages_queue ''c2'' ''b/a'' 1 True 2 sub_db))) 7 = contexts sub_db 7"
proof (rule publish_leaves_others_alone)
  have "\<not> matching ''b/a'' (sub_path ''a/+/#'')" by (simp add: matching_sub_path mqtt_topic_match_def)
  then show "\<forall>p. Some p \<in> set (ctx_subs (ctx_of sub_db 7)) \<longrightarrow> \<not> matching ''b/a'' p" by (simp add: sub_db_subs)
qed (simp_all add: sub_db_facts wildcard_free_def)

text \<open>With the limits a broker starts with.\<close>

definition limited_db :: db where
  "limited_db = mqtt3_db_limits_set 20 100 sub_db"

lemma limited_db_facts:
  "linked limited_db" "msgs_inv (\<lambda>s. 0) limited_db" "store_live limited_db 2" "target limited_db 7 ''c1'' 2 topic"
  "leaves_at p limited_db = leaves_at p sub_db" "ctx_of limited_db = ctx_of sub_db" "max_inflight (glob limited_db) = 20"
  "max_queued (glob limited_db) = 100"
proof -
  show c: "ctx_of limited_db = ctx_of sub_db" by (simp add: limited_db_def mqtt3_db_limits_set_def ctx_of_def fun_eq_iff)
  have same: "contexts limited_db = contexts sub_db" "subs limited_db = subs sub_db" "msg_store limited_db = msg_store sub_db"
    "acl_list limited_db = acl_list sub_db" "acl_patterns limited_db = acl_patterns sub_db" "auth_plugin limited_db = auth_plugin sub_db"
    by (simp_all add: limited_db_def mqtt3_db_limits_set_def)
  show leaves: "leaves_at p limited_db = leaves_at p sub_db" for p by (simp add: leaves_at_info same)
  show "linked limited_db" using sub_db_facts(1) by (simp add: linked_def leaves c same ctx_live_def)
  show "msgs_inv (\<lambda>s. 0) limited_db" 
    unfolding limited_db_def mqtt3_db_limits_set_def by (rule msgs_inv_glob [OF sub_db_facts(2)]) simp
  show "store_live limited_db 2" using sub_db_facts(4) by (simp add: store_live_def same)
  show "target limited_db 7 ''c1'' 2 topic"
    by (auto simp: target_def same c sub_db_facts sub_db_client mosquitto_acl_check_def ctx_zero_def
        mosquitto_acl_check_default_def dests_def store_of_def sample_store_def msg_store_zero_def)
qed (simp_all add: limited_db_def mqtt3_db_limits_set_def)

theorem publish_reaches_subscriber_witness:
  "\<exists>m \<in> set (msgs (ctx_of (snd (snd (mqtt3_db_messages_queue ''c2'' ''a/b'' 2 True 2 limited_db))) 7)).
    cm_store m = 2 \<and> cm_direction m = mosq_md_out"
proof (rule publish_reaches_subscriber [OF limited_db_facts(1-3) _ _ _ limited_db_facts(4), where sub = "''a/+/#''" and n = 1])
  have "msg_count12 (ctx_of sub_db 7) = msg_count12 sample_ctx" using arg_cong [OF sub_db_facts(6), of msg_count12] by simp
  then show "room_for (cfg limited_db) (glob limited_db) (ctx_of limited_db 7) (out_qos (cfg limited_db) 2 1)"
    by (simp add: room_for_def limited_db_facts sub_db_client) (simp add: sample_ctx_def)
qed (simp_all add: limited_db_facts(5) sub_db_facts wildcard_free_def mqtt_topic_match_def)

theorem publish_replaces_retained_witness:
  "retained_at (sub_path ''a/b'') (snd (snd (mqtt3_db_messages_queue ''c2'' ''a/b'' 2 True 2 sub_db))) = None"
proof -
  have "has_child (hd (sub_topic_tokenise ''a/b'')) (subs sub_db)"
  proof (rule ccontr)
    assume "\<not> has_child (hd (sub_topic_tokenise ''a/b'')) (subs sub_db)"
    then have "leaves_at (sub_path ''a/+/#'') sub_db = []"
      using no_child_no_node by (simp add: leaves_at_info sub_path_def tokenise_levels)
    then show False using sub_db_facts(5) [of "sub_path ''a/+/#''"] by simp
  qed
  moreover have "ms_payload (store_of sub_db 2) = []"
    by (simp add: store_of_def sub_db_facts sample_store_def msg_store_zero_def)
  ultimately show ?thesis
    using publish_replaces_retained [OF sub_db_facts(1,2,4), of "''a/b''" "sub_path ''a/b''" "''c2''" 2 True]
    by (simp add: wildcard_free_def)
qed

end
