(* ===== verification/Broker.thy ===== *)
theory Broker
  imports Publish
begin

text \<open>
  The invariant of the whole broker: the reference counts and the queues of \<^verbatim>\<open>Messages\<close>, the
  links between clients and the tree of \<^verbatim>\<open>Subscriptions\<close>, and that a stored message has a topic
  without wildcards. Every operation that packet handlers use keeps it, and with it the identity of
  every client and the tables of clients (\<open>calm\<close>); the release of a QoS 2 message returns.
\<close>

subsection \<open>The invariant, and what stays in place\<close>

definition topics_ok :: "db \<Rightarrow> bool" where
  "topics_ok d \<longleftrightarrow> (\<forall>(s, m) \<in> set (msg_store d). \<forall>t. ms_topic m = Some t \<longrightarrow> wildcard_free t)"

definition broker_inv :: "(store_ref \<Rightarrow> int) \<Rightarrow> db \<Rightarrow> bool" where
  "broker_inv pins d \<longleftrightarrow> msgs_inv pins d \<and> linked d \<and> topics_ok d"

text \<open>What identifies a client, with the packet it is sending and its place in the poll array, and the tables and settings of the broker.\<close>

definition identity :: "ctx \<Rightarrow> int \<times> mosquitto_protocol \<times> string option \<times> string option \<times> mosquitto_client_state \<times> bool
    \<times> nat option \<times> bool \<times> will_msg option \<times> packet \<times> int" where
  "identity c = (sock c, protocol c, ctx_id c, username c, state c, clean_session c, ctx_listener c, is_bridge c, will c, in_packet c, pollfd_index c)"

definition tables :: "db \<Rightarrow> (string \<times> ctx_ref) list \<times> (int \<times> ctx_ref) list \<times> ctx_ref list \<times> ctx_ref option list \<times> config
    \<times> listener list \<times> acl_user list \<times> acl list \<times> auth_plugin option" where
  "tables d = (contexts_by_id d, contexts_by_sock d, ll_for_free d, bridges d, cfg d, listeners d, acl_list d,
     acl_patterns d, auth_plugin d)"

text \<open>A context that has not connected has nothing queued and no subscriptions, and so it stays.\<close>

definition unborn :: "ctx \<Rightarrow> bool" where
  "unborn c \<longleftrightarrow> ctx_id c = None \<and> msgs c = [] \<and> ctx_subs c = []"

definition later :: "ctx \<Rightarrow> ctx \<Rightarrow> bool" where
  "later c c' \<longleftrightarrow> identity c' = identity c \<and> (unborn c \<longrightarrow> unborn c') \<and> (bridge c' = None \<longleftrightarrow> bridge c = None)"

lemma later_refl [simp]: "later c c"
  by (simp add: later_def)

lemma later_trans: "later c c' \<Longrightarrow> later c' c'' \<Longrightarrow> later c c''"
  by (simp add: later_def)

lemma later_identity: "later c c' \<Longrightarrow> identity c' = identity c"
  by (simp add: later_def)

definition calm :: "db \<Rightarrow> db \<Rightarrow> bool" where
  "calm d e \<longleftrightarrow> tables e = tables d \<and> (\<forall>q. ctx_live e q = ctx_live d q) \<and> (\<forall>q. later (ctx_of d q) (ctx_of e q))"

lemma calm_refl [simp]: "calm d d"
  by (simp add: calm_def)

lemma calm_trans: "calm d e \<Longrightarrow> calm e f \<Longrightarrow> calm d f"
  unfolding calm_def using later_trans by metis

lemma calm_live: "calm d e \<Longrightarrow> ctx_live e q = ctx_live d q"
  by (simp add: calm_def)

text \<open>The same when a packet may have been read further.\<close>

definition reads_on :: "ctx \<Rightarrow> ctx \<Rightarrow> bool" where
  "reads_on c c' \<longleftrightarrow> later c (c'\<lparr>in_packet := in_packet c\<rparr>)"

lemma later_reads_on: "later c c' \<Longrightarrow> reads_on c c'"
  by (simp add: reads_on_def later_def identity_def unborn_def)

lemma reads_on_trans: "reads_on c c' \<Longrightarrow> reads_on c' c'' \<Longrightarrow> reads_on c c''"
  by (simp add: reads_on_def later_def identity_def unborn_def)

definition calm_but :: "ctx_ref \<Rightarrow> db \<Rightarrow> db \<Rightarrow> bool" where
  "calm_but r d e \<longleftrightarrow> tables e = tables d \<and> (\<forall>q. ctx_live e q = ctx_live d q) \<and>
     (\<forall>q. q \<noteq> r \<longrightarrow> later (ctx_of d q) (ctx_of e q)) \<and> reads_on (ctx_of d r) (ctx_of e r)"

lemma calm_but: "calm d e \<Longrightarrow> calm_but r d e"
  by (simp add: calm_def calm_but_def later_reads_on)

lemma calm_but_refl [simp]: "calm_but r d d"
  by (simp add: calm_but)

lemma calm_but_trans: "calm_but r d e \<Longrightarrow> calm_but r e f \<Longrightarrow> calm_but r d f"
  by (auto simp: calm_but_def intro: later_trans reads_on_trans)

lemma calm_but_reads: "calm_but r d e \<Longrightarrow> reads_on (ctx_of d q) (ctx_of e q)"
  by (cases "q = r") (auto simp: calm_but_def later_reads_on)

lemma calm_id: "calm d e \<Longrightarrow> ctx_id (ctx_of e q) = ctx_id (ctx_of d q)"
  by (simp add: calm_def later_def identity_def)

lemma tables_simps [simp]:
  "tables (put_ctx r c d) = tables d" "tables (upd_ctx r f d) = tables d" "tables (upd_store s g d) = tables d"
  "tables (set_fault d) = tables d" "tables (snd (fresh_ptr d)) = tables d" "tables (mark_dropping r d) = tables d"
  "tables (count_change st d) = tables d" "tables (add_dest b cid s d) = tables d" "tables (d\<lparr>glob := gl\<rparr>) = tables d"
  "tables (d\<lparr>persistence_changes := i\<rparr>) = tables d" "tables (d\<lparr>retained_count := k\<rparr>) = tables d"
  "tables (d\<lparr>subs := x\<rparr>) = tables d" "tables (d\<lparr>subscription_count := n\<rparr>) = tables d"
  "tables (msg_store_remove s d) = tables d"
  by (simp_all add: tables_def put_ctx_def upd_ctx_def upd_store_def set_fault_def fresh_ptr_def mark_dropping_def
      count_change_def add_dest_def msg_store_remove_def)

lemma tables_deref [simp]: "tables (snd (msg_store_deref s d)) = tables d"
  by (simp add: msg_store_deref_def Let_def)

text \<open>An operation on one client only.\<close>

definition touches :: "ctx_ref \<Rightarrow> db \<Rightarrow> db \<Rightarrow> bool" where
  "touches r d e \<longleftrightarrow> subs e = subs d \<and> store_topics e \<subseteq> store_topics d \<and> tables e = tables d \<and>
     (\<forall>q. q \<noteq> r \<longrightarrow> contexts e q = contexts d q) \<and> ctx_live e r \<and>
     ctx_subs (ctx_of e r) = ctx_subs (ctx_of d r) \<and> later (ctx_of d r) (ctx_of e r)"

lemma touches_refl: "ctx_live d r \<Longrightarrow> touches r d d"
  by (simp add: touches_def)

lemma touches_trans: "touches r d e \<Longrightarrow> touches r e f \<Longrightarrow> touches r d f"
  by (auto simp: touches_def intro: later_trans)

lemma topics_ok_subset: "topics_ok d \<Longrightarrow> store_topics e \<subseteq> store_topics d \<Longrightarrow> topics_ok e"
proof -
  assume ok: "topics_ok d" and sub: "store_topics e \<subseteq> store_topics d"
  have "wildcard_free t" if m: "(s, m) \<in> set (msg_store e)" "ms_topic m = Some t" for s m t
  proof -
    have "(s, Some t, ms_payload m) \<in> store_topics d" using m sub by (force simp: store_topics_def)
    then show ?thesis using ok by (auto simp: store_topics_def topics_ok_def)
  qed
  then show ?thesis by (auto simp: topics_ok_def)
qed

lemma touches_calm:
  assumes "touches r d e" and "ctx_live d r"
  shows "calm d e"
proof -
  have "ctx_live e q = ctx_live d q" for q using assms by (cases "q = r") (auto simp: touches_def ctx_live_def)
  moreover have "later (ctx_of d q) (ctx_of e q)" for q
    using assms(1) by (cases "q = r") (auto simp: touches_def ctx_of_def)
  ultimately show ?thesis using assms(1) by (simp add: calm_def touches_def)
qed

lemma linked_frame:
  assumes "linked d" and "subs e = subs d" and "\<And>q. ctx_subs (ctx_of e q) = ctx_subs (ctx_of d q)"
  shows "linked e"
  using assms(1) by (simp add: linked_def assms(2,3) leaves_at_info)

lemma touches_inv:
  assumes "broker_inv pins d" and "touches r d e" and "msgs_inv pins e"
  shows "broker_inv pins e"
proof -
  have "ctx_subs (ctx_of e q) = ctx_subs (ctx_of d q)" for q
    using assms(2) by (cases "q = r") (auto simp: touches_def ctx_of_def)
  then have "linked e" using assms linked_frame [of d e] by (auto simp: broker_inv_def touches_def)
  then show ?thesis using assms topics_ok_subset [of d e] by (auto simp: broker_inv_def touches_def)
qed

subsection \<open>Operations on one client\<close>

lemma touches_upd:
  "ctx_live d r \<Longrightarrow> later (ctx_of d r) (f (ctx_of d r)) \<Longrightarrow> ctx_subs (f (ctx_of d r)) = ctx_subs (ctx_of d r) \<Longrightarrow>
     touches r d (upd_ctx r f d)"
  by (simp add: touches_def store_topics_def) (simp add: upd_ctx_def put_ctx_def)

lemma touches_put:
  "ctx_live d r \<Longrightarrow> later (ctx_of d r) c \<Longrightarrow> ctx_subs c = ctx_subs (ctx_of d r) \<Longrightarrow>
     touches r d (put_ctx r c (d\<lparr>glob := g\<rparr>))"
  by (simp add: touches_def store_topics_def) (simp add: put_ctx_def)

lemma touches_set_msg: "ctx_live d r \<Longrightarrow> touches r d (set_msg r i f d)"
  unfolding set_msg_def by (rule touches_upd) (simp_all add: later_def unborn_def identity_def)

lemma same_but_outputD:
  "same_but_output c c' \<Longrightarrow> later c c' \<and> ctx_subs c' = ctx_subs c"
  by (cases c; cases c') (simp add: same_but_output_def later_def unborn_def identity_def)

lemma touches_sends:
  assumes "ctx_live d r" and "sends (glob d, ctx_of d r) (f (glob d, ctx_of d r))"
  shows "touches r d (snd (with_ctx r f d))"
proof -
  obtain rc g c where f: "f (glob d, ctx_of d r) = (rc, g, c)" by (cases "f (glob d, ctx_of d r)")
  then have "same_but_output (ctx_of d r) c" using assms(2) by (simp add: sends_def)
  then show ?thesis using f same_but_outputD [of "ctx_of d r" c] assms(1)
    by (simp add: with_ctx_def touches_put)
qed

lemma touches_deref: "ctx_live d r \<Longrightarrow> touches r d (snd (msg_store_deref s d))"
  using view_deref [of s d] by (simp add: touches_def store_topics_deref view_def)

lemma touches_message_remove:
  assumes "ctx_live d r"
  shows "touches r d (message_remove r i d)"
proof (cases "length (msgs (ctx_of d r)) \<le> i")
  case False
  let ?d = "snd (msg_store_deref (cm_store (msgs (ctx_of d r) ! i)) d)"
  have "touches r d ?d" by (rule touches_deref [OF assms])
  moreover have "touches r ?d (upd_ctx r (unlink_msg (max_inflight (glob ?d)) i) ?d)"
    by (rule touches_upd) (simp_all add: assms unlink_msg_def Let_def later_def unborn_def identity_def)
  ultimately show ?thesis using False touches_trans by (simp add: message_remove_def Let_def)
qed (use assms in \<open>simp add: message_remove_def touches_refl\<close>)

lemma touches_delete_activate: "ctx_live d r \<Longrightarrow> touches r d (delete_activate r i idx d)"
  by (simp add: delete_activate_def touches_set_msg touches_refl)

lemma touches_live: "touches r d e \<Longrightarrow> ctx_live e r"
  by (simp add: touches_def)

lemma touches_delete_loop: "ctx_live d r \<Longrightarrow> touches r d (delete_loop r mid dir i idx deleted d)"
proof (induction r mid dir i idx deleted d rule: delete_loop.induct)
  case (1 r mid dir i idx deleted d)
  show ?case
  proof (cases "length (msgs (ctx_of d r)) \<le> i")
    case True
    then show ?thesis using "1.prems" by (simp add: delete_loop.simps [of r] touches_refl)
  next
    case False
    let ?d1 = "delete_activate r i (idx + 1) d"
    have d1: "touches r d ?d1" by (rule touches_delete_activate [OF "1.prems"])
    let ?d2 = "message_remove r i ?d1"
    have d2: "touches r d ?d2" by (rule touches_trans [OF d1 touches_message_remove [OF touches_live [OF d1]]])
    show ?thesis
      using "1.IH"(1) [OF False refl _ refl] "1.IH"(2) [OF False refl] touches_trans [OF d1] touches_trans [OF d2]
        touches_live [OF d1] touches_live [OF d2] d1 d2 False
      by (subst delete_loop.simps) (simp add: Let_def del: delete_loop.simps)
  qed
qed

lemma message_delete_ok:
  assumes "broker_inv pins d" and "ctx_live d r"
  shows "broker_inv pins (snd (mqtt3_db_message_delete r mid dir d)) \<and> touches r d (snd (mqtt3_db_message_delete r mid dir d))"
proof -
  have t: "touches r d (snd (mqtt3_db_message_delete r mid dir d))"
    by (simp add: mqtt3_db_message_delete_def touches_delete_loop assms(2))
  then show ?thesis using touches_inv [OF assms(1) t] message_delete_inv assms by (simp add: broker_inv_def)
qed

lemma message_update_ok:
  assumes "broker_inv pins d" and "ctx_live d r"
  shows "broker_inv pins (snd (with_ctx r (mqtt3_db_message_update mid dir st) d))
    \<and> touches r d (snd (with_ctx r (mqtt3_db_message_update mid dir st) d))"
proof -
  obtain rc g c where f: "mqtt3_db_message_update mid dir st (glob d, ctx_of d r) = (rc, g, c)"
    by (cases "mqtt3_db_message_update mid dir st (glob d, ctx_of d r)")
  then have "later (ctx_of d r) c \<and> ctx_subs c = ctx_subs (ctx_of d r)"
    by (auto simp: mqtt3_db_message_update_def later_def unborn_def identity_def split: option.splits)
  then have t: "touches r d (snd (with_ctx r (mqtt3_db_message_update mid dir st) d))"
    using f assms(2) by (simp add: with_ctx_def touches_put)
  then show ?thesis using touches_inv [OF assms(1) t] message_update_inv assms by (simp add: broker_inv_def)
qed

lemma sends_ok:
  assumes "broker_inv pins d" and "ctx_live d r" and "sends (glob d, ctx_of d r) (f (glob d, ctx_of d r))"
  shows "broker_inv pins (snd (with_ctx r f d)) \<and> touches r d (snd (with_ctx r f d))"
proof -
  have "msgs_inv pins (snd (with_ctx r f d))"
    using msgs_inv_sends [of pins d r f "fst (with_ctx r f d)" "snd (with_ctx r f d)"] assms by (simp add: broker_inv_def)
  then show ?thesis using touches_inv [OF assms(1)] touches_sends [where f = f, OF assms(2,3)] by blast
qed

lemma messages_delete_ok:
  assumes "broker_inv pins d" and "ctx_live d r"
  shows "broker_inv pins (snd (mqtt3_db_messages_delete r d)) \<and> touches r d (snd (mqtt3_db_messages_delete r d))"
proof -
  have f: "touches r d (fold (\<lambda>m d. snd (msg_store_deref (cm_store m) d)) ms d)" if "ctx_live d r" for ms d
    using that
  proof (induction ms arbitrary: d)
    case (Cons m ms)
    have a: "touches r d (snd (msg_store_deref (cm_store m) d))" by (rule touches_deref [OF Cons.prems])
    show ?case using touches_trans [OF a Cons.IH [OF touches_live [OF a]]] by simp
  qed (simp add: touches_refl)
  let ?e = "fold (\<lambda>m d. snd (msg_store_deref (cm_store m) d)) (msgs (ctx_of d r)) d"
  have e: "touches r d ?e" by (rule f [OF assms(2)])
  have "touches r ?e (upd_ctx r (\<lambda>c. c\<lparr>msgs := [], last_msg := None, msg_count := 0, msg_count12 := 0\<rparr>) ?e)"
    by (rule touches_upd) (simp_all add: touches_live [OF e] later_def unborn_def identity_def)
  then have t: "touches r d (snd (mqtt3_db_messages_delete r d))"
    using touches_trans [OF e] by (simp add: mqtt3_db_messages_delete_def)
  then show ?thesis using touches_inv [OF assms(1) t] messages_delete_inv assms by (simp add: broker_inv_def)
qed

subsection \<open>Publishing\<close>

lemma tables_link_msg [simp]: "tables (link_msg r s mk d) = tables d"
proof -
  obtain p d1 where f: "fresh_ptr d = (p, d1)" "d1 = snd (fresh_ptr d)" by (cases "fresh_ptr d") auto
  show ?thesis by (simp add: link_msg_def f(1) Let_def split: prod.splits) (simp add: f(2))
qed

lemma tables_insert [simp]: "tables (snd (mqtt3_db_message_insert r mid dir qos retain s d)) = tables d"
  by (auto simp: mqtt3_db_message_insert_def split: option.splits sum.splits prod.splits)

lemma tables_mid_for [simp]: "tables (snd (mid_for r n d)) = tables d"
  by (simp add: mid_for_def mid_generate_def split: prod.splits)

lemma tables_deliver [simp]: "tables (snd (deliver_to l qos retain s d)) = tables d"
proof -
  obtain mid d1 where m: "mid_for (lf_context l) (out_qos (cfg d) qos (lf_qos l)) d = (mid, d1)" by fastforce
  then have "tables d1 = tables d" using tables_mid_for [of "lf_context l" "out_qos (cfg d) qos (lf_qos l)" d] by simp
  then show ?thesis by (simp add: deliver_to_def m Let_def)
qed

lemma tables_leaf_loop [simp]: "tables (snd (leaf_loop ls src topic qos retain s rc d)) = tables d"
proof (induction ls src topic qos retain s rc d rule: leaf_loop.induct)
  case (2 l ls src topic qos retain s rc d)
  obtain r d1 where dl: "deliver_to l qos retain s d = (r, d1)" by fastforce
  then have "tables d1 = tables d" using tables_deliver [of l qos retain s d] by simp
  then show ?case using 2 dl by (auto simp: Let_def)
qed simp

lemma tables_retain_at [simp]: "tables (retain_at p topic s d) = tables d"
proof -
  have n: "tables (upd_node p f e) = tables e" for f e by (simp add: upd_node_def)
  have rel: "tables (release_retained p e) = tables e" for e
  proof (cases "\<exists>h old. node_at p (subs e) = Some h \<and> sh_retained h = Some old")
    case True
    then obtain h old where h: "node_at p (subs e) = Some h" "sh_retained h = Some old" by blast
    show ?thesis by (simp add: release_retained_some [OF h] Let_def n)
  qed (auto simp: release_retained_def split: option.splits)
  show ?thesis by (simp add: retain_at_def take_retained_def rel n)
qed

lemma tables_subs_process [simp]: "tables (snd (subs_process p ls src topic qos retain s b d)) = tables d"
  by (simp add: subs_process_def)

lemma identity_strip: "strip c' = strip c \<Longrightarrow> identity c' = identity c"
proof -
  have "identity (strip c) = identity c" for c by (simp add: identity_def strip_def)
  then show "strip c' = strip c \<Longrightarrow> identity c' = identity c" by metis
qed

lemma later_strip: "strip c' = strip c \<Longrightarrow> (unborn c \<Longrightarrow> msgs c' = []) \<Longrightarrow> later c c'"
  using identity_strip [of c' c] strip_eqD [of c' c] by (auto simp: later_def unborn_def)

lemma fold_same: "(\<And>x e. x \<in> set xs \<Longrightarrow> v (f x e) = v e) \<Longrightarrow> v (fold f xs e) = v e"
  by (induction xs arbitrary: e) auto

lemma tables_messages_queue:
  assumes "wf_tree (subs d)" and "wildcard_free topic"
  shows "tables (snd (snd (mqtt3_db_messages_queue src topic qos retain s d))) = tables d"
proof -
  have h: "tables (hold_stored s d) = tables d" by (simp add: hold_stored_def)
  show ?thesis
  proof (cases "has_child (hd (sub_topic_tokenise topic)) (subs d)")
    case False
    then show ?thesis using queue_without_root [OF assms(1) False] h by simp
  next
    case True
    obtain vs where vs: "mqtt3_db_messages_queue src topic qos retain s d =
       (0, msg_store_deref s (fold (\<lambda>(p, ls, b) e. snd (subs_process p ls src topic qos retain s b e)) vs (queue_start topic retain s d)))"
      by (rule queue_fold [OF assms(1) True assms(2), where src = src and qos = qos and retain = retain and s = s]) blast
    have "tables (fold (\<lambda>(p, ls, b) e. snd (subs_process p ls src topic qos retain s b e)) vs (queue_start topic retain s d))
        = tables (queue_start topic retain s d)"
      by (rule fold_same) (auto split: prod.splits)
    also have "\<dots> = tables d" using h by (simp add: queue_start_def)
    finally show ?thesis by (simp add: vs)
  qed
qed

lemma messages_queue_ok:
  assumes "broker_inv pins d" and "store_live d s" and "wildcard_free topic"
  obtains ptr d' where "mqtt3_db_messages_queue src topic qos retain s d = (0, ptr, d')"
    and "broker_inv pins d'" and "calm d d'" and "grown d d'"
proof -
  have inv: "msgs_inv pins d" "linked d" "topics_ok d" using assms(1) by (simp_all add: broker_inv_def)
  obtain ptr d' where q: "mqtt3_db_messages_queue src topic qos retain s d = (0, ptr, d')"
    "msgs_inv pins d'" "wf_tree (subs d')" "\<And>p. leaves_at p d' = leaves_at p d"
    "\<And>q. ctx_live d' q = ctx_live d q" "\<And>q. strip (ctx_of d' q) = strip (ctx_of d q)" "grown d d'"
    by (rule messages_queue_steady [OF inv(1) linkedD(1) [OF inv(2)] linked_live [OF inv(2)] assms(2,3),
          where src = src and qos = qos and retain = retain]) blast
  have "tables d' = tables d" using tables_messages_queue [OF linkedD(1) [OF inv(2)] assms(3), of src qos retain s] q(1) by simp
  moreover have "later (ctx_of d p) (ctx_of d' p)" for p
  proof (rule later_strip [OF q(6)])
    assume "unborn (ctx_of d p)"
    then have none: "msgs (ctx_of d p) = []" "\<forall>x. Some x \<notin> set (ctx_subs (ctx_of d p))" by (simp_all add: unborn_def)
    have "contexts d' p = contexts d p" using queue_untouched [OF inv(2) assms(3), of p src qos retain s] none(2) q(1) by simp
    then show "msgs (ctx_of d' p) = []" using none(1) by (simp add: ctx_of_def)
  qed
  ultimately have "calm d d'" unfolding calm_def using q(5) by blast
  moreover have "linked d'"
    using inv(2) q(3) strip_eqD(1) [OF q(6)] by (simp add: linked_def q(4))
  moreover have "topics_ok d'" using topics_ok_subset [OF inv(3)] q(7) by (simp add: grown_def)
  ultimately show thesis by (intro that [OF q(1) _ _ q(7)]) (simp_all add: broker_inv_def q(2))
qed

subsection \<open>Releasing a QoS 2 message returns\<close>

lemma release_activate_ok:
  assumes "broker_inv pins d" and "ctx_live d r"
  shows "broker_inv pins (release_activate r i idx d) \<and> touches r d (release_activate r i idx d) \<and>
    keys (ctx_of (release_activate r i idx d) r) = keys (ctx_of d r)"
proof (cases "cm_state (msgs (ctx_of d r) ! i) = mosq_ms_queued \<and> idx \<le> max_inflight (glob d)")
  case True
  let ?m = "msgs (ctx_of d r) ! i"
  let ?f = "\<lambda>m. activate mosq_ms_wait_for_pubrel (m\<lparr>cm_timestamp := now (glob d)\<rparr>)"
  let ?e = "if cm_direction ?m = mosq_md_in \<and> cm_qos ?m = 2 then snd (with_ctx r (mosquitto_send_pubrec (cm_mid ?m)) d) else d"
  have key: "msg_key (?f m) = msg_key m" for m by (simp add: msg_key_def activate_def)
  have send: "sends x (mosquitto_send_pubrec n x)" for x n by simp
  have e: "broker_inv pins ?e" "touches r d ?e" "keys (ctx_of ?e r) = keys (ctx_of d r)"
    using sends_ok [where f = "mosquitto_send_pubrec (cm_mid ?m)", OF assms send] assms touches_refl
      msgs_inv_sends [where f = "mosquitto_send_pubrec (cm_mid ?m)", OF _ assms(2) send prod.collapse [symmetric], of pins]
    by (auto simp: broker_inv_def same_queue_def)
  have live: "ctx_live ?e r" by (rule touches_live [OF e(2)])
  have t: "touches r ?e (set_msg r i ?f ?e)" by (rule touches_set_msg [OF live])
  have "msgs_inv pins (set_msg r i ?f ?e)"
    by (rule set_msg_inv [OF _ live]) (use e(1) key in \<open>simp_all add: broker_inv_def\<close>)
  then have "broker_inv pins (set_msg r i ?f ?e)" by (rule touches_inv [OF e(1) t])
  moreover have "keys (ctx_of (set_msg r i ?f ?e) r) = keys (ctx_of d r)" using keys_set_msg [of ?f, OF key] e(3) by simp
  ultimately show ?thesis using True touches_trans [OF e(2) t] by (simp add: release_activate_def Let_def)
qed (use assms touches_refl in \<open>auto simp: release_activate_def Let_def\<close>)

lemma queued_live:
  assumes "msgs_inv pins d" and "ctx_live d r" and "m \<in> set (msgs (ctx_of d r))"
  shows "store_live d (cm_store m)"
proof -
  have "0 < total_refs d (cm_store m)"
    by (rule total_refs_pos [OF _ assms(2,3)]) (use assms(1) in \<open>simp add: msgs_inv_def store_inv_def\<close>)
  then have "0 < int (total_refs d (cm_store m)) + pins (cm_store m)" using pins_nonneg [OF assms(1), of "cm_store m"] by linarith
  then show ?thesis using assms(1) unfolding msgs_inv_def store_inv_def counts_ok_def by blast
qed

lemma stored_topic:
  assumes "topics_ok d" and "store_live d s" and "ms_topic (store_of d s) = Some t"
  shows "wildcard_free t"
proof -
  obtain m where "map_of (msg_store d) s = Some m"
    using assms(2) by (cases "map_of (msg_store d) s") (auto simp: store_live_def map_of_eq_None_iff)
  moreover then have "(s, m) \<in> set (msg_store d)" by (rule map_of_SomeD)
  ultimately show ?thesis using assms(1,3) by (auto simp: topics_ok_def store_of_def)
qed

lemma publish_stored_ok:
  assumes "broker_inv pins d" and "ctx_live d r" and "m \<in> set (msgs (ctx_of d r))"
  obtains d' where "publish_stored m d = (MOSQ_ERR_SUCCESS, d')" and "broker_inv pins d'" and "calm d d'" and "grown d d'"
proof (cases "ms_topic (store_of d (cm_store m))")
  case None
  then show thesis using that assms(1) by (simp add: publish_stored_def)
next
  case (Some t)
  have live: "store_live d (cm_store m)" using queued_live assms by (auto simp: broker_inv_def)
  have "wildcard_free t" using stored_topic [OF _ live Some] assms(1) by (simp add: broker_inv_def)
  then obtain ptr d' where q: "mqtt3_db_messages_queue (ms_source_id (store_of d (cm_store m))) t (ms_qos (store_of d (cm_store m)))
      (cm_retain m) (cm_store m) d = (0, ptr, d')" "broker_inv pins d'" "calm d d'" "grown d d'"
    by (rule messages_queue_ok [OF assms(1) live])
  show thesis by (rule that [OF _ q(2-4)]) (simp add: publish_stored_def Some q(1) Let_def)
qed

lemma message_remove_ok:
  assumes "broker_inv pins d" and "ctx_live d r" and "i < length (msgs (ctx_of d r))"
  shows "broker_inv pins (message_remove r i d)" and "touches r d (message_remove r i d)"
proof -
  show t: "touches r d (message_remove r i d)" by (rule touches_message_remove [OF assms(2)])
  show "broker_inv pins (message_remove r i d)"
    by (rule touches_inv [OF assms(1) t]) (use message_remove_inv assms in \<open>simp add: broker_inv_def\<close>)
qed

definition to_release :: "u16 \<Rightarrow> nat \<Rightarrow> ctx \<Rightarrow> nat" where
  "to_release mid i c = length (filter (key_is mid mosq_md_in) (drop i (keys c)))"

lemma to_release_more:
  assumes "keys c' = keys c @ ns" and "\<forall>k \<in> set ns. \<not> key_is mid mosq_md_in k" and "i \<le> length (keys c)"
  shows "to_release mid i c' = to_release mid i c"
proof -
  have "filter (key_is mid mosq_md_in) ns = []" using assms(2) by (simp add: filter_empty_conv)
  then show ?thesis using assms(1,3) by (simp add: to_release_def)
qed

lemma grown_keys:
  assumes "grown d e"
  obtains ns where "keys (ctx_of e r) = keys (ctx_of d r) @ ns" and "\<forall>k \<in> set ns. \<not> key_is mid mosq_md_in k"
proof -
  obtain ns where "msgs (ctx_of e r) = msgs (ctx_of d r) @ ns" "\<forall>m \<in> set ns. cm_direction m = mosq_md_out"
    using assms unfolding grown_def by blast
  then show thesis by (intro that [of "map msg_key ns"]) (auto simp: keys_def key_is_def msg_key_def)
qed

text \<open>The result of the loop: whether something was released, and that one match less is left.\<close>

definition released :: "u16 \<Rightarrow> nat \<Rightarrow> bool \<Rightarrow> ctx \<Rightarrow> rc \<Rightarrow> ctx \<Rightarrow> bool" where
  "released mid i deleted c rc c' \<longleftrightarrow>
     rc = (if deleted \<or> 0 < to_release mid i c then MOSQ_ERR_SUCCESS else 1) \<and>
     to_release mid 0 c' + (if \<not> deleted \<and> 0 < to_release mid i c then 1 else 0) \<le> to_release mid 0 c"

lemma release_ends:
  assumes "broker_inv pins d" and "ctx_live d r"
  shows "\<exists>rc d'. release_loop r mid mosq_md_in i idx deleted d = Some (rc, d') \<and> broker_inv pins d' \<and> calm d d'
    \<and> released mid i deleted (ctx_of d r) rc (ctx_of d' r)"
  using assms
proof (induction "(to_release mid i (ctx_of d r), length (msgs (ctx_of d r)) - i)" arbitrary: i idx deleted d
    rule: wf_induct_rule [OF wf_lex_prod [OF wf_less_than wf_less_than]])
  case (1 i d idx deleted)
  let ?c = "ctx_of d r"
  have IH: "\<exists>rc d'. release_loop r mid mosq_md_in j k b e = Some (rc, d') \<and> broker_inv pins d' \<and> calm d d'
      \<and> released mid j b (ctx_of e r) rc (ctx_of d' r)"
    if "to_release mid j (ctx_of e r) < to_release mid i ?c \<or>
        to_release mid j (ctx_of e r) = to_release mid i ?c \<and> length (msgs (ctx_of e r)) - j < length (msgs ?c) - i"
      and "broker_inv pins e" and "calm d e" for j k b e
  proof -
    have "\<exists>rc d'. release_loop r mid mosq_md_in j k b e = Some (rc, d') \<and> broker_inv pins d' \<and> calm e d'
        \<and> released mid j b (ctx_of e r) rc (ctx_of d' r)"
      using "1.hyps" [of j e k b] that "1.prems"(2) by (auto simp: calm_live)
    then show ?thesis using calm_trans [OF that(3)] by blast
  qed
  show ?case
  proof (cases "length (msgs ?c) \<le> i")
    case True
    then show ?thesis using "1.prems" by (simp add: release_loop.simps [of r] released_def to_release_def)
  next
    case False
    define d1 where "d1 = release_activate r i (idx + 1) d"
    let ?m = "msgs (ctx_of d1 r) ! i"
    have d1: "broker_inv pins d1" "touches r d d1" "keys (ctx_of d1 r) = keys ?c" "calm d d1" "ctx_live d1 r"
      using release_activate_ok [OF "1.prems", of i "idx + 1"] touches_calm [OF _ "1.prems"(2)] touches_live [of r d]
      by (simp_all add: d1_def)
    have len1: "length (msgs (ctx_of d1 r)) = length (msgs ?c)" using arg_cong [OF d1(3), of length] by simp
    have "keys ?c ! i = msg_key ?m" unfolding d1(3) [symmetric] using False len1 by (simp add: keys_def)
    then have hd: "drop i (keys ?c) = msg_key ?m # drop (Suc i) (keys ?c)"
      using Cons_nth_drop_Suc [of i "keys ?c"] False by simp
    show ?thesis
    proof (cases "msg_is mid mosq_md_in ?m")
      case True
      have mem: "?m \<in> set (msgs (ctx_of d1 r))" using False len1 by simp
      obtain d2 where d2: "publish_stored ?m d1 = (MOSQ_ERR_SUCCESS, d2)" "broker_inv pins d2" "calm d1 d2" "grown d1 d2"
        by (rule publish_stored_ok [OF d1(1,5) mem])
      obtain ns where ns: "keys (ctx_of d2 r) = keys ?c @ ns" "\<forall>k \<in> set ns. \<not> key_is mid mosq_md_in k"
        using grown_keys [OF d2(4), of r mid] d1(3) by metis
      have i2: "i < length (msgs (ctx_of d2 r))" using False arg_cong [OF ns(1), of length] by simp
      define d3 where "d3 = message_remove r i d2"
      have live2: "ctx_live d2 r" using d1(5) d2(3) by (simp add: calm_live)
      have d3: "broker_inv pins d3" "calm d d3"
        using message_remove_ok [OF d2(2) live2 i2] touches_calm [OF _ live2] calm_trans [OF calm_trans [OF d1(4) d2(3)]]
        by (simp_all add: d3_def)
      have ks3: "keys (ctx_of d3 r) = take i (keys (ctx_of d2 r)) @ drop (Suc i) (keys (ctx_of d2 r))"
        unfolding d3_def by (rule keys_message_remove [OF i2])
      have "drop i (keys (ctx_of d3 r)) = drop (Suc i) (keys ?c) @ ns" using ks3 ns(1) False by simp
      then have one: "to_release mid i ?c = Suc (to_release mid i (ctx_of d3 r))"
        using hd True ns(2) by (simp add: to_release_def filter_empty_conv)
      have k3: "keys (ctx_of d3 r) = take i (keys ?c) @ drop (Suc i) (keys ?c) @ ns" using ks3 ns(1) False by simp
      have "filter (key_is mid mosq_md_in) (keys ?c) =
          filter (key_is mid mosq_md_in) (take i (keys ?c)) @ filter (key_is mid mosq_md_in) (drop i (keys ?c))"
        by (simp flip: filter_append)
      then have all: "to_release mid 0 ?c = Suc (to_release mid 0 (ctx_of d3 r))"
        using hd True ns(2) by (simp add: to_release_def k3 filter_empty_conv)
      have more: "\<exists>rc d'. release_loop r mid mosq_md_in i (idx + 1) True d3 = Some (rc, d') \<and> broker_inv pins d' \<and> calm d d'
          \<and> released mid i True (ctx_of d3 r) rc (ctx_of d' r)"
        by (intro IH [OF _ d3]) (simp add: one)
      have "release_loop r mid mosq_md_in i idx deleted d =
          (if idx + 1 > max_inflight (glob d3) then Some (MOSQ_ERR_SUCCESS, d3) else release_loop r mid mosq_md_in i (idx + 1) True d3)"
        using False True d2(1) by (subst release_loop.simps) (simp add: Let_def flip: d1_def d3_def)
      moreover have "released mid i deleted ?c MOSQ_ERR_SUCCESS (ctx_of d3 r)" by (simp add: released_def one all)
      moreover have "released mid i True (ctx_of d3 r) rc c \<Longrightarrow> released mid i deleted ?c rc c" for rc c
        by (simp add: released_def one all)
      ultimately show ?thesis using more d3 by auto
    next
      case skip: False
      have same: "to_release mid (Suc i) (ctx_of d1 r) = to_release mid i ?c" "to_release mid 0 (ctx_of d1 r) = to_release mid 0 ?c"
        using hd skip d1(3) by (simp_all add: to_release_def)
      then have more: "\<exists>rc d'. release_loop r mid mosq_md_in (Suc i) (idx + 1) deleted d1 = Some (rc, d') \<and> broker_inv pins d' \<and> calm d d'
          \<and> released mid (Suc i) deleted (ctx_of d1 r) rc (ctx_of d' r)"
        by (intro IH [OF _ d1(1,4)]) (use False len1 in simp)
      have "release_loop r mid mosq_md_in i idx deleted d =
          (if idx + 1 > max_inflight (glob d1) \<and> deleted then Some (MOSQ_ERR_SUCCESS, d1)
           else release_loop r mid mosq_md_in (Suc i) (idx + 1) deleted d1)"
        using False skip by (subst release_loop.simps) (simp add: Let_def flip: d1_def)
      moreover have "released mid (Suc i) deleted (ctx_of d1 r) rc c = released mid i deleted ?c rc c" for rc c
        by (simp add: released_def same)
      moreover have "deleted \<Longrightarrow> released mid i deleted ?c MOSQ_ERR_SUCCESS (ctx_of d1 r)"
        by (simp add: released_def same)
      ultimately show ?thesis using more d1 by auto
    qed
  qed
qed

lemma to_release_msgs: "to_release mid 0 c = length (filter (msg_is mid mosq_md_in) (msgs c))"
proof -
  have "filter (key_is mid mosq_md_in) (map msg_key ms) = map msg_key (filter (msg_is mid mosq_md_in) ms)" for ms
    by (induction ms) simp_all
  then show ?thesis by (simp add: to_release_def keys_def)
qed

text \<open>
  C37. Releasing a QoS 2 message returns, and releases once. For a consistent broker the loop of
  \<^verbatim>\<open>mqtt3_db_message_release\<close> ends although publishing the message may append to the queue it
  runs over; the broker stays consistent; it reports success exactly when an incoming message
  with the id was waiting, and afterwards there is one less of them, so that a repeated PUBREL
  does not publish the message again.
\<close>

theorem message_release_returns:
  assumes "broker_inv pins d" and "ctx_live d r"
  shows "\<exists>rc d'. mqtt3_db_message_release r mid mosq_md_in d = Some (rc, d') \<and> broker_inv pins d' \<and>
    (rc = MOSQ_ERR_SUCCESS \<longleftrightarrow> (\<exists>m \<in> set (msgs (ctx_of d r)). msg_is mid mosq_md_in m)) \<and>
    length (filter (msg_is mid mosq_md_in) (msgs (ctx_of d' r))) \<le> length (filter (msg_is mid mosq_md_in) (msgs (ctx_of d r))) - 1"
proof -
  obtain rc d' where e: "release_loop r mid mosq_md_in 0 0 False d = Some (rc, d')" "broker_inv pins d'"
    "released mid 0 False (ctx_of d r) rc (ctx_of d' r)"
    using release_ends [OF assms] by blast
  have "0 < to_release mid 0 (ctx_of d r) \<longleftrightarrow> (\<exists>m \<in> set (msgs (ctx_of d r)). msg_is mid mosq_md_in m)"
    by (auto simp: to_release_msgs filter_empty_conv)
  moreover have "to_release mid 0 (ctx_of d' r) \<le> to_release mid 0 (ctx_of d r) - 1"
    "rc = MOSQ_ERR_SUCCESS \<longleftrightarrow> 0 < to_release mid 0 (ctx_of d r)"
    using e(3) by (auto simp: released_def split: if_splits)
  ultimately show ?thesis using e(1,2) unfolding to_release_msgs mqtt3_db_message_release_def by blast
qed

subsection \<open>Inserting, storing, subscribing\<close>

lemma store_topics_simps [simp]:
  "store_topics (put_ctx r c d) = store_topics d" "store_topics (upd_ctx r f d) = store_topics d"
  "store_topics (set_fault d) = store_topics d" "store_topics (snd (fresh_ptr d)) = store_topics d"
  "store_topics (mark_dropping r d) = store_topics d" "store_topics (count_change st d) = store_topics d"
  "store_topics (d\<lparr>glob := gl\<rparr>) = store_topics d" "store_topics (d\<lparr>persistence_changes := i\<rparr>) = store_topics d"
  "store_topics (d\<lparr>subs := x\<rparr>) = store_topics d" "store_topics (d\<lparr>subscription_count := n\<rparr>) = store_topics d"
  by (simp_all add: store_topics_def put_ctx_def upd_ctx_def set_fault_def fresh_ptr_def mark_dropping_def count_change_def)

lemma store_topics_insert [simp]: "store_topics (snd (mqtt3_db_message_insert r mid dir qos retain s d)) = store_topics d"
proof -
  have link: "store_topics (link_msg r s mk d) = store_topics d" for mk d
  proof -
    obtain p d1 where f: "fresh_ptr d = (p, d1)" "d1 = snd (fresh_ptr d)" by (cases "fresh_ptr d") auto
    show ?thesis by (simp add: link_msg_def f(1) Let_def store_topics_upd split: prod.splits) (simp add: f(2))
  qed
  have "store_topics (add_dest b cid s d) = store_topics d" for b cid d
    by (simp add: add_dest_def store_topics_upd)
  then show ?thesis by (auto simp: mqtt3_db_message_insert_def link split: option.splits sum.splits prod.splits)
qed

lemma insert_without_id: "ctx_id (ctx_of d r) = None \<Longrightarrow> mqtt3_db_message_insert r mid dir qos retain s d = (MOSQ_ERR_SUCCESS, d)"
  by (simp add: mqtt3_db_message_insert_def)

lemma message_insert_ok:
  assumes "broker_inv pins d" and "ctx_live d r" and "store_live d s" and "dir = mosq_md_in \<longrightarrow> qos = 2"
  shows "broker_inv pins (snd (mqtt3_db_message_insert r mid dir qos retain s d)) \<and>
    touches r d (snd (mqtt3_db_message_insert r mid dir qos retain s d))"
proof -
  let ?e = "snd (mqtt3_db_message_insert r mid dir qos retain s d)"
  have st: "strip (ctx_of ?e r) = strip (ctx_of d r)" by (rule strip_insert)
  have "touches r d ?e"
    using insert_frame [where r = r and mid = mid and dir = dir and qos = qos and retain = retain and s = s and d = d]
      insert_live_iff [OF assms(2), of mid dir qos retain s r] assms(2) strip_eqD(1) [OF st]
      later_strip [OF st] insert_without_id [of d r mid dir qos retain s]
    by (auto simp: touches_def view_def unborn_def)
  moreover have "msgs_inv pins ?e" using message_insert_inv assms by (simp add: broker_inv_def)
  ultimately show ?thesis using touches_inv [OF assms(1)] by blast
qed

lemma message_store_ok:
  assumes "broker_inv pins d" and "\<And>t. topic = Some t \<Longrightarrow> wildcard_free t"
    and "mqtt3_db_message_store source smid topic qos pl retain sid d = (s, d')"
  shows "broker_inv pins d'" and "store_live d' s" and "calm d d'"
proof -
  have inv: "msgs_inv pins d" using assms(1) by (simp add: broker_inv_def)
  note st = message_store_inv [OF inv assms(3)]
  have eq: "subs d' = subs d" "tables d' = tables d"
    "\<exists>m. msg_store d' = (s, m) # msg_store d \<and> ms_topic m = topic"
    using assms(3) by (auto simp: mqtt3_db_message_store_def fresh_ptr_def Let_def msg_store_add_def tables_def)
  have cs: "ctx_of d' = ctx_of d" using st by (simp add: ctx_of_def fun_eq_iff)
  have "linked d'" using assms(1) linked_frame [of d d'] eq(1) cs by (simp add: broker_inv_def)
  moreover have "topics_ok d'"
    unfolding topics_ok_def
  proof clarsimp
    fix k m t assume m: "(k, m) \<in> set (msg_store d')" "ms_topic m = Some t"
    then consider "ms_topic m = topic" | "(k, m) \<in> set (msg_store d)" using eq(3) by auto
    then show "wildcard_free t" using m(2) assms(1,2) by cases (auto simp: broker_inv_def topics_ok_def)
  qed
  ultimately show "broker_inv pins d'" using st by (simp add: broker_inv_def)
  show "store_live d' s" using st by blast
  show "calm d d'" using st eq(2) cs by (simp add: calm_def ctx_live_def)
qed

lemma easy_queue_ok:
  assumes "broker_inv pins d" and "wildcard_free topic"
  shows "broker_inv pins (snd (mqtt3_db_messages_easy_queue ro topic qos pl retain d)) \<and>
    calm d (snd (mqtt3_db_messages_easy_queue ro topic qos pl retain d))"
proof -
  define src where "src = (case ro of Some r \<Rightarrow> (case ctx_id (ctx_of d r) of Some i \<Rightarrow> i | None \<Rightarrow> []) | None \<Rightarrow> [])"
  obtain s d1 where st: "mqtt3_db_message_store (Some src) 0 (Some topic) qos pl retain 0 d = (s, d1)" by fastforce
  note ok = message_store_ok [OF assms(1) _ st]
  have d1: "broker_inv pins d1" "store_live d1 s" "calm d d1" using ok assms(2) by simp_all
  obtain ptr d2 where q: "mqtt3_db_messages_queue src topic qos retain s d1 = (0, ptr, d2)"
    "broker_inv pins d2" "calm d1 d2" by (rule messages_queue_ok [OF d1(1,2) assms(2)])
  show ?thesis using q calm_trans [OF d1(3) q(3)] st
    by (simp add: mqtt3_db_messages_easy_queue_def Let_def flip: src_def)
qed

lemma sub_add_ok:
  assumes "broker_inv pins d" and "ctx_live d r" and "ctx_id (ctx_of d r) = Some cid" and "hash_last (sub_path sub)"
  shows "broker_inv pins (snd (mqtt3_sub_add r sub qos d)) \<and> calm d (snd (mqtt3_sub_add r sub qos d))"
proof -
  let ?e = "snd (mqtt3_sub_add r sub qos d)"
  have inv: "msgs_inv pins d" "linked d" "topics_ok d" using assms(1) by (simp_all add: broker_inv_def)
  obtain d' where o: "mqtt3_sub_add r sub qos d = (MOSQ_ERR_SUCCESS, d')"
    "d' = (if is_new r sub d
       then (upd_ctx r (\<lambda>c. c\<lparr>ctx_subs := add_slot (sub_path sub) (ctx_subs c)\<rparr>) (d\<lparr>subs := subs d'\<rparr>))
              \<lparr>subscription_count := subscription_count d + 1\<rparr>
       else d\<lparr>subs := subs d'\<rparr>)"
    by (rule sub_add_outcome [OF assms(3), of sub qos])
  define x where "x = subs d'"
  have e: "?e = (if is_new r sub d
       then (upd_ctx r (\<lambda>c. c\<lparr>ctx_subs := add_slot (sub_path sub) (ctx_subs c)\<rparr>) (d\<lparr>subs := x\<rparr>))
              \<lparr>subscription_count := subscription_count d + 1\<rparr>
       else d\<lparr>subs := x\<rparr>)"
    unfolding o(1) snd_conv x_def by (rule o(2))
  have t: "tables ?e = tables d" "store_topics ?e = store_topics d" unfolding e by simp_all
  have "later (ctx_of d q) (ctx_of ?e q)" for q
    unfolding e using assms(3) by (simp add: later_def unborn_def identity_def)
  then have "calm d ?e" using sub_add_inv(2) [OF inv(1) assms(2,3)] t(1) by (simp add: calm_def)
  moreover have "topics_ok ?e" by (rule topics_ok_subset [OF inv(3)]) (simp add: t(2))
  ultimately show ?thesis
    using sub_add_inv(1) [OF inv(1) assms(2,3)] sub_add_linked [OF inv(2) assms(3,4)] by (simp add: broker_inv_def)
qed

lemma ctx_of_count: "ctx_of (d\<lparr>subs := x, subscription_count := n\<rparr>) = ctx_of d"
  by (simp add: ctx_of_def fun_eq_iff)

lemma sub_remove_ok:
  assumes "broker_inv pins d" and "ctx_live d r"
  shows "broker_inv pins (snd (mqtt3_sub_remove r sub d)) \<and> calm d (snd (mqtt3_sub_remove r sub d))"
proof -
  let ?e = "snd (mqtt3_sub_remove r sub d)"
  have inv: "msgs_inv pins d" "linked d" "topics_ok d" using assms(1) by (simp_all add: broker_inv_def)
  obtain d' where o: "mqtt3_sub_remove r sub d = (MOSQ_ERR_SUCCESS, d')"
    "d' = (if has_leaf r sub d
       then upd_ctx r (\<lambda>c. c\<lparr>ctx_subs := clear_slot (sub_path sub) (ctx_subs c)\<rparr>) (d\<lparr>subs := subs d', subscription_count := subscription_count d - 1\<rparr>)
       else d\<lparr>subs := subs d'\<rparr>)"
    by (rule sub_remove_outcome [OF linkedD(1) [OF inv(2)], of r sub]) blast
  define x where "x = subs d'"
  have e: "?e = (if has_leaf r sub d
       then upd_ctx r (\<lambda>c. c\<lparr>ctx_subs := clear_slot (sub_path sub) (ctx_subs c)\<rparr>) (d\<lparr>subs := x, subscription_count := subscription_count d - 1\<rparr>)
       else d\<lparr>subs := x\<rparr>)"
    unfolding o(1) snd_conv x_def by (rule o(2))
  have t: "tables ?e = tables d" "store_topics ?e = store_topics d" unfolding e by (simp_all add: tables_def store_topics_def upd_ctx_def put_ctx_def)
  have "later (ctx_of d q) (ctx_of ?e q)" for q
    unfolding e by (simp add: later_def unborn_def identity_def ctx_of_count)
  then have "calm d ?e" using sub_remove_inv(2) [OF inv(1) assms(2) linkedD(1) [OF inv(2)]] t(1) by (simp add: calm_def)
  moreover have "topics_ok ?e" by (rule topics_ok_subset [OF inv(3)]) (simp add: t(2))
  ultimately show ?thesis
    using sub_remove_inv(1) [OF inv(1) assms(2) linkedD(1) [OF inv(2)]] sub_remove_linked [OF inv(2)] by (simp add: broker_inv_def)
qed

lemma clean_session_ok:
  assumes "broker_inv pins d" and "ctx_live d r"
  shows "broker_inv pins (snd (mqtt3_subs_clean_session r d)) \<and> calm d (snd (mqtt3_subs_clean_session r d)) \<and>
    ctx_subs (ctx_of (snd (mqtt3_subs_clean_session r d)) r) = []"
proof -
  let ?e = "snd (mqtt3_subs_clean_session r d)"
  have inv: "msgs_inv pins d" "linked d" "topics_ok d" using assms(1) by (simp_all add: broker_inv_def)
  obtain d' n where o: "mqtt3_subs_clean_session r d = (MOSQ_ERR_SUCCESS, d')"
    "d' = upd_ctx r (\<lambda>c. c\<lparr>ctx_subs := []\<rparr>) (d\<lparr>subs := subs d', subscription_count := n\<rparr>)"
    by (rule clean_session_outcome [OF inv(2), of r]) blast
  define x where "x = subs d'"
  have e: "?e = upd_ctx r (\<lambda>c. c\<lparr>ctx_subs := []\<rparr>) (d\<lparr>subs := x, subscription_count := n\<rparr>)"
    unfolding o(1) snd_conv x_def by (rule o(2))
  have t: "tables ?e = tables d" "store_topics ?e = store_topics d"
    unfolding e by (simp_all add: tables_def store_topics_def upd_ctx_def put_ctx_def)
  have "ctx_of (d\<lparr>subs := x, subscription_count := n\<rparr>) = ctx_of d" for n by (simp add: ctx_of_def fun_eq_iff)
  then have "later (ctx_of d q) (ctx_of ?e q)" and cs: "ctx_subs (ctx_of ?e r) = []" for q
    unfolding e by (simp_all add: later_def unborn_def identity_def)
  then have "calm d ?e" using clean_session_inv(2) [OF inv(1) assms(2) inv(2)] t(1) by (simp add: calm_def)
  moreover have "topics_ok ?e" by (rule topics_ok_subset [OF inv(3)]) (simp add: t(2))
  ultimately show ?thesis
    using clean_session_inv(1) [OF inv(1) assms(2) inv(2)] linked_clean [OF inv(2)] cs by (simp add: broker_inv_def)
qed

lemma strip_retain_process: "strip (ctx_of (snd (retain_process s r n d)) q) = strip (ctx_of d q)"
proof -
  define k where "k = (if ms_qos (store_of d s) > n then n else ms_qos (store_of d s))"
  obtain mid d1 where m: "mid_for r k d = (mid, d1)" by fastforce
  then have d1: "strip (ctx_of d1 q) = strip (ctx_of d q)" using strip_mid_for [of r k d q] by simp
  then have "strip (ctx_of (snd (mqtt3_db_message_insert r mid mosq_md_out k True s d1)) q) = strip (ctx_of d q)"
    by (simp add: strip_insert)
  then show ?thesis using d1 m by (simp add: retain_process_def Let_def k_def split: prod.splits)
qed

lemma retain_process_topics: "store_topics (snd (retain_process s r n d)) = store_topics d" "tables (snd (retain_process s r n d)) = tables d"
proof -
  define k where "k = (if ms_qos (store_of d s) > n then n else ms_qos (store_of d s))"
  obtain mid d1 where m: "mid_for r k d = (mid, d1)" by fastforce
  then have d1: "store_topics d1 = store_topics d" "tables d1 = tables d"
    using tables_mid_for [of r k d] by (auto simp: mid_for_def mid_generate_def split: prod.splits if_splits)
  then show "store_topics (snd (retain_process s r n d)) = store_topics d" "tables (snd (retain_process s r n d)) = tables d"
    using m by (simp_all add: retain_process_def Let_def k_def split: prod.splits)
qed

lemma retain_process_msgs:
  assumes "ctx_id (ctx_of d q) = None"
  shows "msgs (ctx_of (snd (retain_process s r n d)) q) = msgs (ctx_of d q)"
proof -
  define k where "k = (if ms_qos (store_of d s) > n then n else ms_qos (store_of d s))"
  obtain mid d1 where m: "mid_for r k d = (mid, d1)" by fastforce
  have d1: "msgs (ctx_of d1 q) = msgs (ctx_of d q)" "ctx_id (ctx_of d1 q) = None"
    using m assms by (auto simp: mid_for_def mid_generate_def mosquitto_mid_generate_def Let_def split: if_splits)
  have "msgs (ctx_of (snd (mqtt3_db_message_insert r mid mosq_md_out k True s d1)) q) = msgs (ctx_of d q)"
  proof (cases "q = r")
    case True
    then show ?thesis using insert_without_id [of d1 r] d1 by simp
  next
    case False
    then show ?thesis using insert_frame(2) [of q r mid mosq_md_out k True s d1] d1 by (simp add: ctx_of_def)
  qed
  then show ?thesis using d1 m by (simp add: retain_process_def Let_def k_def split: prod.splits)
qed

lemma retain_queue_frame:
  defines "P d e \<equiv> (\<forall>q. strip (ctx_of e q) = strip (ctx_of d q)) \<and> store_topics e = store_topics d \<and> tables e = tables d \<and>
    (\<forall>q. ctx_id (ctx_of d q) = None \<longrightarrow> msgs (ctx_of e q) = msgs (ctx_of d q))"
  shows "P d (snd (mqtt3_retain_queue r sub n d))"
proof (cases "node_at [hd (sub_topic_tokenise sub)] (subs d)")
  case None
  then show ?thesis by (simp add: mqtt3_retain_queue_def Let_def P_def)
next
  case (Some h)
  have step: "P d (snd (retain_process s r n e))" if e: "P d e" for s e
  proof -
    have "ctx_id (ctx_of e q) = ctx_id (ctx_of d q)" for q using e strip_eqD(2) [of "ctx_of e q" "ctx_of d q"] by (simp add: P_def)
    then show ?thesis using e retain_process_msgs by (simp add: P_def strip_retain_process retain_process_topics)
  qed
  have "P d (snd (retain_search (\<lambda>s e. snd (retain_process s r n e)) (sub_topic_tokenise sub) 0 (sh_children h) (False, d)))"
    by (rule retain_search_keeps [where P = "P d" and all = "subs d"])
      (simp_all add: step tree_refs_child [OF Some], simp add: P_def)
  then show ?thesis using Some by (simp add: mqtt3_retain_queue_def Let_def)
qed

lemma retain_queue_ok:
  assumes "broker_inv pins d" and "ctx_live d r"
  shows "broker_inv pins (snd (mqtt3_retain_queue r sub n d)) \<and> calm d (snd (mqtt3_retain_queue r sub n d))"
proof -
  let ?e = "snd (mqtt3_retain_queue r sub n d)"
  have inv: "msgs_inv pins d" "linked d" "topics_ok d" using assms(1) by (simp_all add: broker_inv_def)
  note rq = retain_queue_inv [OF inv(1) assms(2), of sub n]
  have e: "strip (ctx_of ?e q) = strip (ctx_of d q)" "store_topics ?e = store_topics d" "tables ?e = tables d"
    "ctx_id (ctx_of d q) = None \<Longrightarrow> msgs (ctx_of ?e q) = msgs (ctx_of d q)" for q
    using retain_queue_frame by blast+
  have "later (ctx_of d q) (ctx_of ?e q)" for q
    by (rule later_strip [OF e(1)]) (use e(4) in \<open>simp add: unborn_def\<close>)
  then have "calm d ?e" unfolding calm_def using e(3) rq by blast
  moreover have "linked ?e"
    by (rule linked_frame [OF inv(2)]) (use rq strip_eqD(1) [OF e(1)] in \<open>simp_all add: view_def\<close>)
  moreover have "topics_ok ?e" by (rule topics_ok_subset [OF inv(3)]) (simp add: e(2))
  ultimately show ?thesis using rq by (simp add: broker_inv_def)
qed

text \<open>Subscribing leaves the packet that is being read alone.\<close>

lemma sub_add_packet: "in_packet (ctx_of (snd (mqtt3_sub_add r sub qos d)) q) = in_packet (ctx_of d q)"
proof (cases "ctx_id (ctx_of d r)")
  case None
  then show ?thesis by (simp add: sub_add_prepared sub_add_leaf_def)
next
  case (Some cid)
  obtain d' where o: "mqtt3_sub_add r sub qos d = (MOSQ_ERR_SUCCESS, d')"
    "d' = (if is_new r sub d
       then (upd_ctx r (\<lambda>c. c\<lparr>ctx_subs := add_slot (sub_path sub) (ctx_subs c)\<rparr>) (d\<lparr>subs := subs d'\<rparr>))
              \<lparr>subscription_count := subscription_count d + 1\<rparr>
       else d\<lparr>subs := subs d'\<rparr>)"
    by (rule sub_add_outcome [OF Some, of sub qos])
  define x where "x = subs d'"
  show ?thesis unfolding o(1) snd_conv by (subst o(2), fold x_def) simp
qed

lemma sub_remove_packet:
  assumes "linked d"
  shows "in_packet (ctx_of (snd (mqtt3_sub_remove r sub d)) q) = in_packet (ctx_of d q)"
proof -
  obtain d' where o: "mqtt3_sub_remove r sub d = (MOSQ_ERR_SUCCESS, d')"
    "d' = (if has_leaf r sub d
       then upd_ctx r (\<lambda>c. c\<lparr>ctx_subs := clear_slot (sub_path sub) (ctx_subs c)\<rparr>) (d\<lparr>subs := subs d', subscription_count := subscription_count d - 1\<rparr>)
       else d\<lparr>subs := subs d'\<rparr>)"
    by (rule sub_remove_outcome [OF linkedD(1) [OF assms], of r sub]) blast
  define x where "x = subs d'"
  show ?thesis unfolding o(1) snd_conv by (subst o(2), fold x_def) (simp add: ctx_of_count)
qed

lemma retain_queue_packet: "in_packet (ctx_of (snd (mqtt3_retain_queue r sub n d)) q) = in_packet (ctx_of d q)"
  using retain_queue_frame strip_eqD(12) by blast

subsection \<open>A sample\<close>

lemma sub_db_inv: "broker_inv (\<lambda>s. 0) sub_db"
  using sub_db_facts(1,2) by (simp add: broker_inv_def topics_ok_def sub_db_facts(9) sample_store_def msg_store_zero_def wildcard_free_def)

theorem message_release_returns_witness:
  "\<exists>d'. mqtt3_db_message_release 7 6 mosq_md_in sub_db = Some (MOSQ_ERR_SUCCESS, d') \<and>
     filter (msg_is 6 mosq_md_in) (msgs (ctx_of d' 7)) = []"
proof -
  have "msgs (ctx_of sub_db 7) = msgs sample_ctx" using arg_cong [OF sub_db_facts(6), of msgs] by simp
  then have q: "msgs (ctx_of sub_db 7) = [sample_msg 10 5 1 mosq_md_out mosq_ms_publish_qos1, sample_msg 11 6 2 mosq_md_in mosq_ms_queued]"
    by (simp add: sample_ctx_def)
  have "\<exists>m \<in> set (msgs (ctx_of sub_db 7)). msg_is 6 mosq_md_in m"
    unfolding q by (simp add: sample_msg_def msg_is_def)
  moreover have "length (filter (msg_is 6 mosq_md_in) (msgs (ctx_of sub_db 7))) = 1"
    unfolding q by (simp add: sample_msg_def msg_is_def)
  ultimately show ?thesis
    using message_release_returns [OF sub_db_inv sub_db_facts(3), of 6] by auto
qed

end
