(* ===== verification/Context.thy ===== *)
theory Context
  imports Broker
begin

text \<open>
  Clients coming and going: \<^verbatim>\<open>src/context.c\<close>, \<^verbatim>\<open>_mosquitto_socket_close\<close> of \<^verbatim>\<open>lib/net_mosq.c\<close>,
  \<^verbatim>\<open>_mosquitto_check_keepalive\<close> of \<^verbatim>\<open>lib/util_mosq.c\<close>, \<^verbatim>\<open>do_disconnect\<close> of \<^verbatim>\<open>src/loop.c\<close> and
  \<^verbatim>\<open>mosquitto_security_apply_default\<close> of \<^verbatim>\<open>src/security_default.c\<close>. The hash tables of contexts
  are association lists, the newest entry first. Deleting from a table an element that is not in
  it, putting a context twice on the list of contexts to free, using a freed context and a failing
  \<^verbatim>\<open>assert\<close> all set the flag \<^const>\<open>fault\<close>.
\<close>

subsection \<open>The tables of contexts\<close>

definition hash_delete_id :: "ctx_ref \<Rightarrow> db \<Rightarrow> db" where
  "hash_delete_id r d =
     (if r \<in> snd ` set (contexts_by_id d)
      then d\<lparr>contexts_by_id := filter (\<lambda>(i, q). q \<noteq> r) (contexts_by_id d)\<rparr>
      else set_fault d)"

definition hash_delete_sock :: "ctx_ref \<Rightarrow> db \<Rightarrow> db" where
  "hash_delete_sock r d =
     (if r \<in> snd ` set (contexts_by_sock d)
      then d\<lparr>contexts_by_sock := filter (\<lambda>(k, q). q \<noteq> r) (contexts_by_sock d)\<rparr>
      else set_fault d)"

text \<open>A client leaves its listener.\<close>

definition leave_listener :: "ctx_ref \<Rightarrow> db \<Rightarrow> db" where
  "leave_listener r d =
     (case ctx_listener (ctx_of d r) of
        None \<Rightarrow> d
      | Some l \<Rightarrow>
          let d1 = (if l < length (listeners d)
                    then (let ls = (listeners d ! l)\<lparr>ls_client_count := ls_client_count (listeners d ! l) - 1\<rparr>;
                              d0 = d\<lparr>listeners := (listeners d)[l := ls]\<rparr>
                          in if 0 \<le> ls_client_count ls then d0 else set_fault d0)
                    else set_fault d)
          in upd_ctx r (\<lambda>c. c\<lparr>ctx_listener := None\<rparr>) d1)"

definition mosquitto_socket_close :: "ctx_ref \<Rightarrow> db \<Rightarrow> db" where
  "mosquitto_socket_close r d =
     (let d1 = upd_ctx r (\<lambda>c. c\<lparr>ssl := None\<rparr>) d;
          d2 = (if 0 \<le> sock (ctx_of d1 r)
                then upd_ctx r (\<lambda>c. c\<lparr>sock := INVALID_SOCKET\<rparr>) (hash_delete_sock r d1) else d1)
      in leave_listener r d2)"

subsection \<open>Making, ending and freeing a context\<close>

text \<open>
  \<open>r\<close> is the address \<^verbatim>\<open>calloc\<close> gives, one that is not in use; \<open>peer\<close> says whether the address of
  the socket's peer is found.
\<close>

definition mqtt3_context_init :: "ctx_ref \<Rightarrow> bool \<Rightarrow> int \<Rightarrow> db \<Rightarrow> ctx_ref option \<times> db" where
  "mqtt3_context_init r peer s d =
     (if 0 \<le> s \<and> \<not> peer then (None, d)
      else
        let c = ctx_zero\<lparr>state := mosq_cs_new, sock := s, last_msg_in := now (glob d), last_msg_out := now (glob d),
                  keepalive := 60, clean_session := True, in_packet := mosquitto_packet_cleanup packet_zero\<rparr>;
            d1 = put_ctx r c d
        in (Some r, if 0 \<le> s then d1\<lparr>contexts_by_sock := (s, r) # contexts_by_sock d1\<rparr> else d1))"

definition drop_bridge :: "ctx_ref \<Rightarrow> db \<Rightarrow> db" where
  "drop_bridge r d =
     (case bridge (ctx_of d r) of
        None \<Rightarrow> d
      | Some b \<Rightarrow>
          upd_ctx r (\<lambda>c. c\<lparr>bridge := Some (b\<lparr>br_remote_username := None, br_remote_password := None, br_local_clientid := None,
              br_local_username := None, br_local_password := None\<rparr>)\<rparr>)
            (d\<lparr>bridges := map (\<lambda>x. if x = Some r then None else x) (bridges d)\<rparr>))"

definition free_msgs :: "ctx_ref \<Rightarrow> db \<Rightarrow> db" where
  "free_msgs r d =
     upd_ctx r (\<lambda>c. c\<lparr>msgs := [], last_msg := None\<rparr>)
       (fold (\<lambda>m e. snd (msg_store_deref (cm_store m) e)) (msgs (ctx_of d r)) d)"

definition forget_id :: "ctx_ref \<Rightarrow> db \<Rightarrow> db" where
  "forget_id r d =
     (if ctx_id (ctx_of d r) = None then d else upd_ctx r (\<lambda>c. c\<lparr>ctx_id := None\<rparr>) (hash_delete_id r d))"

definition mqtt3_context_cleanup :: "ctx_ref \<Rightarrow> bool \<Rightarrow> db \<Rightarrow> db" where
  "mqtt3_context_cleanup r do_free d =
     (if \<not> ctx_live d r then set_fault d
      else
        let d1 = upd_ctx r (\<lambda>c. c\<lparr>username := None, password := None\<rparr>) d;
            d2 = mosquitto_socket_close r (drop_bridge r d1);
            clean = (do_free \<or> clean_session (ctx_of d2 r));
            d3 = (if clean then snd (mqtt3_db_messages_delete r (snd (mqtt3_subs_clean_session r d2))) else d2);
            d4 = forget_id r d3;
            d5 = upd_ctx r (\<lambda>c. c\<lparr>in_packet := mosquitto_packet_cleanup (in_packet c), current_out_packet := None,
                                 out_packet := [], will := None\<rparr>) d4;
            d6 = (if clean then free_msgs r d5 else d5)
        in if do_free then d6\<lparr>contexts := (contexts d6)(r := None)\<rparr> else d6)"

definition mqtt3_context_disconnect :: "ctx_ref \<Rightarrow> db \<Rightarrow> db" where
  "mqtt3_context_disconnect r d =
     (let c = ctx_of d r;
          d1 = (case will c of
                  Some w \<Rightarrow>
                    if state c \<noteq> mosq_cs_disconnecting \<and>
                       mosquitto_acl_check d c (w_topic w) MOSQ_ACL_WRITE = MOSQ_ERR_SUCCESS
                    then snd (mqtt3_db_messages_easy_queue (Some r) (w_topic w) (w_qos w) (w_payload w) (w_retain w) d)
                    else d
                | None \<Rightarrow> d)
      in mosquitto_socket_close r (upd_ctx r (\<lambda>c. c\<lparr>will := None, disconnect_t := wall (glob d)\<rparr>) d1))"

text \<open>A context that is on the list already would make it circular.\<close>

definition add_context_to_disused :: "ctx_ref \<Rightarrow> db \<Rightarrow> db" where
  "add_context_to_disused r d =
     (if r \<in> set (ll_for_free d) then set_fault d else d\<lparr>ll_for_free := r # ll_for_free d\<rparr>)"

definition free_disused_contexts :: "db \<Rightarrow> db" where
  "free_disused_contexts d = (fold (\<lambda>r. mqtt3_context_cleanup r True) (ll_for_free d) d)\<lparr>ll_for_free := []\<rparr>"

definition do_disconnect :: "ctx_ref \<Rightarrow> db \<Rightarrow> db" where
  "do_disconnect r d =
     (if state (ctx_of d r) = mosq_cs_disconnected then d
      else
        let d1 = mqtt3_context_disconnect r d;
            d2 = (if clean_session (ctx_of d1 r) \<and> bridge (ctx_of d1 r) = None
                  then forget_id r (add_context_to_disused r d1) else d1)
        in upd_ctx r (\<lambda>c. c\<lparr>state := mosq_cs_disconnected\<rparr>) d2)"

subsection \<open>Keepalive\<close>

definition mosquitto_check_keepalive :: "ctx_ref \<Rightarrow> db \<Rightarrow> db" where
  "mosquitto_check_keepalive r d =
     (let c = ctx_of d r; t = now (glob d); k = uint (keepalive c)
      in if (case bridge c of
               Some b \<Rightarrow> br_start_type b = bst_lazy \<and> sock c \<noteq> INVALID_SOCKET \<and> br_idle_timeout b \<le> t - last_msg_out c
             | None \<Rightarrow> False)
         then mosquitto_socket_close r d
         else if k \<noteq> 0 \<and> sock c \<noteq> INVALID_SOCKET \<and> (k \<le> t - last_msg_out c \<or> k \<le> t - last_msg_in c) then
           (if state c = mosq_cs_connected \<and> ping_t c = 0
            then upd_ctx r (\<lambda>c. c\<lparr>last_msg_in := t, last_msg_out := t\<rparr>) (snd (with_ctx r mosquitto_send_pingreq d))
            else mosquitto_socket_close r (leave_listener r d))
         else d)"

subsection \<open>New access rules for the clients that are there\<close>

text \<open>The entry of a user in the list of users of the access control file.\<close>

definition find_acl_user :: "db \<Rightarrow> string option \<Rightarrow> acl_user option" where
  "find_acl_user d user = find (\<lambda>u. au_username u = user) (acl_list d)"

definition apply_one :: "ctx_ref \<Rightarrow> db \<Rightarrow> db" where
  "apply_one r d =
     (let c = ctx_of d r
      in if (\<not> allow_anonymous (cfg d) \<and> username c = None) \<or>
            mosquitto_unpwd_check_default d (username c) (password c) \<noteq> MOSQ_ERR_SUCCESS
         then do_disconnect r (upd_ctx r (\<lambda>c. c\<lparr>state := mosq_cs_disconnecting\<rparr>) d)
         else case find_acl_user d (username c) of
                Some u \<Rightarrow> upd_ctx r (\<lambda>c. c\<lparr>ctx_acl_list := Some u\<rparr>) d
              | None \<Rightarrow> d)"

text \<open>\<^verbatim>\<open>HASH_ITER\<close> goes from the oldest entry to the newest and may delete the current one.\<close>

definition mosquitto_security_apply_default :: "db \<Rightarrow> rc \<times> db" where
  "mosquitto_security_apply_default d = (MOSQ_ERR_SUCCESS, fold (\<lambda>(i, r). apply_one r) (rev (contexts_by_id d)) d)"

subsection \<open>The tables are right\<close>

text \<open>
  The two tables hold exactly the contexts with an id and with an open socket, each once; the
  contexts waiting to be freed are in no table; the listeners count their clients.
\<close>

definition on_listener :: "db \<Rightarrow> nat \<Rightarrow> ctx_ref set" where
  "on_listener d l = {r. ctx_live d r \<and> ctx_listener (ctx_of d r) = Some l}"

definition ids_ok :: "db \<Rightarrow> bool" where
  "ids_ok d \<longleftrightarrow> distinct (map snd (contexts_by_id d)) \<and>
     (\<forall>i r. (i, r) \<in> set (contexts_by_id d) \<longleftrightarrow> ctx_live d r \<and> ctx_id (ctx_of d r) = Some i)"

definition socks_ok :: "db \<Rightarrow> bool" where
  "socks_ok d \<longleftrightarrow> distinct (map snd (contexts_by_sock d)) \<and>
     (\<forall>k r. (k, r) \<in> set (contexts_by_sock d) \<longleftrightarrow> ctx_live d r \<and> sock (ctx_of d r) = k \<and> 0 \<le> k)"

definition disused_ok :: "db \<Rightarrow> bool" where
  "disused_ok d \<longleftrightarrow> distinct (ll_for_free d) \<and>
     (\<forall>r \<in> set (ll_for_free d). ctx_live d r \<and> ctx_id (ctx_of d r) = None \<and> sock (ctx_of d r) < 0 \<and>
        ctx_listener (ctx_of d r) = None \<and> state (ctx_of d r) = mosq_cs_disconnected)"

text \<open>\<^verbatim>\<open>conf.c\<close> lets only topics without wildcards be mount points.\<close>

definition mounts_ok :: "listener list \<Rightarrow> bool" where
  "mounts_ok ls \<longleftrightarrow> (\<forall>l \<in> set ls. \<forall>m. ls_mount_point l = Some m \<longrightarrow> wildcard_free m \<and> nul_free m)"

definition listeners_ok :: "db \<Rightarrow> bool" where
  "listeners_ok d \<longleftrightarrow> mounts_ok (listeners d) \<and>
     (\<forall>r l. ctx_live d r \<and> ctx_listener (ctx_of d r) = Some l \<longrightarrow> l < length (listeners d)) \<and>
     (\<forall>l < length (listeners d). ls_client_count (listeners d ! l) = int (card (on_listener d l)))"

definition wills_ok :: "db \<Rightarrow> bool" where
  "wills_ok d \<longleftrightarrow> (\<forall>r w. will (ctx_of d r) = Some w \<longrightarrow> wildcard_free (w_topic w))"

definition clients_ok :: "db \<Rightarrow> bool" where
  "clients_ok d \<longleftrightarrow> ids_ok d \<and> socks_ok d \<and> disused_ok d \<and> listeners_ok d \<and> wills_ok d"

lemma clients_calm_but:
  assumes "clients_ok d" and "calm_but x d e"
  shows "clients_ok e"
proof -
  have t: "contexts_by_id e = contexts_by_id d" "contexts_by_sock e = contexts_by_sock d" "ll_for_free e = ll_for_free d"
    "listeners e = listeners d"
    using assms(2) by (simp_all add: calm_but_def tables_def)
  have c: "ctx_live e r = ctx_live d r" "ctx_id (ctx_of e r) = ctx_id (ctx_of d r)" "sock (ctx_of e r) = sock (ctx_of d r)"
    "state (ctx_of e r) = state (ctx_of d r)" "ctx_listener (ctx_of e r) = ctx_listener (ctx_of d r)"
    "will (ctx_of e r) = will (ctx_of d r)" for r
    using assms(2) calm_but_reads [OF assms(2), of r] by (simp_all add: calm_but_def reads_on_def later_def identity_def)
  show ?thesis using assms(1)
    by (simp add: clients_ok_def ids_ok_def socks_ok_def disused_ok_def listeners_ok_def wills_ok_def on_listener_def t c)
qed

lemmas clients_calm = clients_calm_but [OF _ calm_but]

text \<open>What the operations never change: the access rules, the settings, the bridges and the listening sockets.\<close>

definition settings :: "db \<Rightarrow> acl_user list \<times> acl list \<times> auth_plugin option \<times> config \<times> ctx_ref option list \<times> int list list" where
  "settings d = (acl_list d, acl_patterns d, auth_plugin d, cfg d, bridges d, map ls_socks (listeners d))"

lemma settings_upd [simp]: "settings (upd_ctx r f d) = settings d" "settings (put_ctx r c d) = settings d"
  by (simp_all add: settings_def upd_ctx_def put_ctx_def)

lemma settings_tables: "tables e = tables d \<Longrightarrow> settings e = settings d"
  by (simp add: settings_def tables_def)

subsection \<open>Closing a socket\<close>

lemma broker_inv_tables:
  assumes "broker_inv pins d" and "contexts e = contexts d" and "subs e = subs d" and "msg_store e = msg_store d"
    and "next_ptr (glob e) = next_ptr (glob d)"
  shows "broker_inv pins e"
proof -
  have "linked e" by (rule linked_frame) (use assms in \<open>simp_all add: broker_inv_def ctx_of_def\<close>)
  then show ?thesis using assms msgs_inv_cong [of pins d e] by (simp add: broker_inv_def topics_ok_def)
qed

lemma broker_inv_upd:
  assumes "broker_inv pins d" and "ctx_live d r" and "same_queue (ctx_of d r) (f (ctx_of d r))"
    and "ctx_subs (f (ctx_of d r)) = ctx_subs (ctx_of d r)"
  shows "broker_inv pins (upd_ctx r f d)"
proof -
  have "linked (upd_ctx r f d)"
    by (rule linked_frame [of d]) (use assms in \<open>simp_all add: broker_inv_def upd_ctx_def\<close>)
  moreover have "topics_ok (upd_ctx r f d)" using assms(1) by (simp add: broker_inv_def topics_ok_def upd_ctx_def)
  ultimately show ?thesis using assms msgs_inv_upd [of pins d r f] by (simp add: broker_inv_def)
qed

definition left :: "nat option \<Rightarrow> listener list \<Rightarrow> listener list" where
  "left lo ls = (case lo of None \<Rightarrow> ls | Some l \<Rightarrow> ls[l := (ls ! l)\<lparr>ls_client_count := ls_client_count (ls ! l) - 1\<rparr>])"

lemma left_socks [simp]: "map ls_socks (left lo ls) = map ls_socks ls"
proof (cases lo)
  case (Some l)
  have "(map ls_socks ls)[l := ls_socks (ls ! l)] = map ls_socks ls"
  proof (cases "l < length ls")
    case True
    then show ?thesis by (simp add: list_update_same_conv)
  next
    case False
    then show ?thesis by (simp add: list_update_beyond)
  qed
  then show ?thesis using Some by (simp add: left_def map_update)
qed (simp add: left_def)

definition closed :: "ctx \<Rightarrow> ctx" where
  "closed c = c\<lparr>ssl := None, sock := (if 0 \<le> sock c then INVALID_SOCKET else sock c), ctx_listener := None\<rparr>"

lemma listener_used:
  assumes "clients_ok d" and "finite (dom (contexts d))" and "ctx_live d r" and "ctx_listener (ctx_of d r) = Some l"
  shows "l < length (listeners d)" and "0 < ls_client_count (listeners d ! l)"
    and "ls_client_count (listeners d ! l) = int (card (on_listener d l))"
proof -
  show l: "l < length (listeners d)" using assms(1,3,4) by (auto simp: clients_ok_def listeners_ok_def)
  then show c: "ls_client_count (listeners d ! l) = int (card (on_listener d l))"
    using assms(1) by (simp add: clients_ok_def listeners_ok_def)
  have "finite (on_listener d l)"
    by (rule finite_subset [OF _ assms(2)]) (auto simp: on_listener_def ctx_live_def)
  then have "0 < card (on_listener d l)" using assms(3,4) by (auto simp: card_gt_0_iff on_listener_def)
  then show "0 < ls_client_count (listeners d ! l)" using c by simp
qed

lemma filter_absent: "r \<notin> snd ` set xs \<Longrightarrow> filter (\<lambda>(i, q). q \<noteq> r) xs = xs"
  by (induction xs) auto

lemma put_upd: "upd_ctx r f (put_ctx r c d) = put_ctx r (f c) d"
  by (simp add: upd_ctx_def)

lemma put_tables:
  "hash_delete_sock r (put_ctx q c d) = put_ctx q c (hash_delete_sock r d)"
  "put_ctx q c (d\<lparr>listeners := ls\<rparr>) = (put_ctx q c d)\<lparr>listeners := ls\<rparr>"
  "put_ctx q c (d\<lparr>contexts_by_sock := ks\<rparr>) = (put_ctx q c d)\<lparr>contexts_by_sock := ks\<rparr>"
  "listeners (put_ctx q c d) = listeners d" "contexts_by_sock (put_ctx q c d) = contexts_by_sock d"
  by (simp_all add: hash_delete_sock_def put_ctx_def set_fault_def)

lemma socket_close_form:
  assumes "clients_ok d" and "finite (dom (contexts d))" and "ctx_live d r"
  shows "mosquitto_socket_close r d =
    (put_ctx r (closed (ctx_of d r)) d)\<lparr>contexts_by_sock := filter (\<lambda>(k, q). q \<noteq> r) (contexts_by_sock d),
       listeners := left (ctx_listener (ctx_of d r)) (listeners d)\<rparr>"
proof -
  let ?c = "ctx_of d r"
  let ?d1 = "put_ctx r (?c\<lparr>ssl := None\<rparr>) d"
  have mem: "r \<in> snd ` set (contexts_by_sock d) \<longleftrightarrow> 0 \<le> sock ?c"
    using assms(1,3) by (force simp: clients_ok_def socks_ok_def image_iff)
  define d2 where "d2 = (if 0 \<le> sock ?c then upd_ctx r (\<lambda>c. c\<lparr>sock := INVALID_SOCKET\<rparr>) (hash_delete_sock r ?d1) else ?d1)"
  have d2: "d2 = (put_ctx r (?c\<lparr>ssl := None, sock := (if 0 \<le> sock ?c then INVALID_SOCKET else sock ?c)\<rparr>) d)
      \<lparr>contexts_by_sock := filter (\<lambda>(k, q). q \<noteq> r) (contexts_by_sock d)\<rparr>"
  proof (cases "0 \<le> sock ?c")
    case True
    then have "hash_delete_sock r ?d1 = put_ctx r (?c\<lparr>ssl := None\<rparr>) (d\<lparr>contexts_by_sock := filter (\<lambda>(k, q). q \<noteq> r) (contexts_by_sock d)\<rparr>)"
      using mem by (simp add: put_tables) (simp add: hash_delete_sock_def put_tables)
    then show ?thesis using True by (simp add: d2_def) (simp add: upd_ctx_def put_ctx_def ctx_of_def)
  next
    case False
    then show ?thesis using mem by (simp add: d2_def filter_absent put_ctx_def)
  qed
  have run: "mosquitto_socket_close r d = leave_listener r d2"
    by (simp add: mosquitto_socket_close_def d2_def upd_ctx_def [of r "\<lambda>c. c\<lparr>ssl := None\<rparr>"])
  have l2: "listeners d2 = listeners d" "ctx_of d2 r = ?c\<lparr>ssl := None, sock := (if 0 \<le> sock ?c then INVALID_SOCKET else sock ?c)\<rparr>"
    by (simp_all add: d2 put_ctx_def ctx_of_def)
  show ?thesis
  proof (cases "ctx_listener ?c")
    case None
    then have "leave_listener r d2 = d2" by (simp add: leave_listener_def l2)
    moreover have "closed ?c = ?c\<lparr>ssl := None, sock := (if 0 \<le> sock ?c then INVALID_SOCKET else sock ?c)\<rparr>"
      using None by (cases ?c) (simp add: closed_def)
    ultimately show ?thesis unfolding run using None by (simp add: d2 left_def put_ctx_def)
  next
    case (Some l)
    note used = listener_used [OF assms Some]
    have "leave_listener r d2 = upd_ctx r (\<lambda>c. c\<lparr>ctx_listener := None\<rparr>)
        (d2\<lparr>listeners := (listeners d)[l := (listeners d ! l)\<lparr>ls_client_count := ls_client_count (listeners d ! l) - 1\<rparr>]\<rparr>)"
      using used Some by (simp add: leave_listener_def l2 Let_def)
    then show ?thesis unfolding run using Some
      by (simp add: d2 left_def closed_def upd_ctx_def put_ctx_def ctx_of_def)
  qed
qed

lemma listeners_leave:
  assumes ok: "listeners_ok d" and fin: "finite (dom (contexts d))" and live: "ctx_live d r"
    and "\<And>q. ctx_live e q = ctx_live d q" and "\<And>q. q \<noteq> r \<Longrightarrow> ctx_listener (ctx_of e q) = ctx_listener (ctx_of d q)"
    and "ctx_listener (ctx_of e r) = None" and e: "listeners e = left (ctx_listener (ctx_of d r)) (listeners d)"
  shows "listeners_ok e"
proof -
  let ?lo = "ctx_listener (ctx_of d r)"
  have on: "on_listener e l = on_listener d l - {r}" for l
    using assms(4-6) by (auto simp: on_listener_def) (metis option.distinct(1))+
  have fin_on: "finite (on_listener d l)" for l
    by (rule finite_subset [OF _ fin]) (auto simp: on_listener_def ctx_live_def)
  have len: "length (listeners e) = length (listeners d)" by (simp add: e left_def split: option.splits)
  have old: "\<And>l. l < length (listeners d) \<Longrightarrow> ls_client_count (listeners d ! l) = int (card (on_listener d l))"
    "\<And>q l. ctx_live d q \<Longrightarrow> ctx_listener (ctx_of d q) = Some l \<Longrightarrow> l < length (listeners d)"
    using ok by (auto simp: listeners_ok_def)
  have count: "ls_client_count (listeners e ! l) = int (card (on_listener e l))" if l: "l < length (listeners d)" for l
  proof (cases "?lo = Some l")
    case True
    then have "r \<in> on_listener d l" using live by (simp add: on_listener_def)
    then have "card (on_listener d l) = Suc (card (on_listener d l - {r}))" by (rule card.remove [OF fin_on])
    then show ?thesis using old(1) [OF l] True l by (simp add: e left_def on)
  next
    case False
    then have "r \<notin> on_listener d l" by (simp add: on_listener_def)
    moreover have "listeners e ! l = listeners d ! l" using False by (auto simp: e left_def split: option.splits)
    ultimately show ?thesis using old(1) [OF l] by (simp add: on)
  qed
  have "l < length (listeners d)" if "ctx_live e q" "ctx_listener (ctx_of e q) = Some l" for q l
    using that assms(4-6) old(2) [of q l] by (cases "q = r") auto
  moreover have "mounts_ok (listeners e)"
  proof -
    have m: "mounts_ok (listeners d)" using ok by (simp add: listeners_ok_def)
    have "mounts_ok (ls[l := (ls ! l)\<lparr>ls_client_count := n\<rparr>])" if "mounts_ok ls" for ls l n
    proof (cases "l < length ls")
      case True
      then have "ls ! l \<in> set ls" by simp
      then show ?thesis using that set_update_subset_insert [of ls l "(ls ! l)\<lparr>ls_client_count := n\<rparr>"]
        by (auto simp: mounts_ok_def)
    qed (use that in \<open>simp add: list_update_beyond\<close>)
    then show ?thesis using m by (simp add: e left_def split: option.splits)
  qed
  ultimately show ?thesis using count len by (auto simp: listeners_ok_def)
qed

lemma socket_close_ok:
  assumes ok: "clients_ok d" and inv: "broker_inv pins d" and live: "ctx_live d r"
  defines "e \<equiv> mosquitto_socket_close r d"
  shows "clients_ok e" and "broker_inv pins e" and "ctx_of e q = (if q = r then closed (ctx_of d r) else ctx_of d q)"
    and "ctx_live e q = ctx_live d q" and "glob e = glob d" and "ll_for_free e = ll_for_free d"
    and "contexts_by_id e = contexts_by_id d" and "contexts_by_sock e = filter (\<lambda>(k, q). q \<noteq> r) (contexts_by_sock d)"
    and "subs e = subs d" and "cfg e = cfg d" and "settings e = settings d"
proof -
  have fin: "finite (dom (contexts d))" using inv by (simp add: broker_inv_def msgs_inv_def store_inv_def)
  note form = socket_close_form [OF ok fin live]
  have c: "ctx_of e q = (if q = r then closed (ctx_of d r) else ctx_of d q)" "ctx_live e q = ctx_live d q" for q
    unfolding e_def form using live by (simp_all add: ctx_of_def put_ctx_def ctx_live_def)
  have t: "contexts_by_id e = contexts_by_id d" "contexts_by_sock e = filter (\<lambda>(k, q). q \<noteq> r) (contexts_by_sock d)"
    "ll_for_free e = ll_for_free d" "listeners e = left (ctx_listener (ctx_of d r)) (listeners d)" "glob e = glob d"
    "subs e = subs d" "cfg e = cfg d" "settings e = settings d"
    unfolding e_def form by (simp_all add: put_ctx_def settings_def)
  have cl: "ctx_id (closed c) = ctx_id c" "state (closed c) = state c" "will (closed c) = will c"
    "ctx_listener (closed c) = None" "sock (closed c) < 0 \<longleftrightarrow> True" for c
    by (simp_all add: closed_def)
  have "ids_ok e" using ok by (simp add: clients_ok_def ids_ok_def t c cl)
  moreover have "socks_ok e"
  proof -
    have "distinct (map snd (filter (\<lambda>(k, q). q \<noteq> r) xs))" if "distinct (map snd xs)" for xs :: "(int \<times> ctx_ref) list"
      using that by (induction xs) auto
    then show ?thesis using ok cl(5) [of "ctx_of d r"] by (auto simp: clients_ok_def socks_ok_def t c)
  qed
  moreover have "disused_ok e" using ok by (auto simp: clients_ok_def disused_ok_def t c cl)
  moreover have "listeners_ok e"
    by (rule listeners_leave [OF _ fin live]) (use ok in \<open>simp_all add: clients_ok_def c cl t\<close>)
  moreover have "wills_ok e" using ok by (simp add: clients_ok_def wills_ok_def c cl)
  ultimately show "clients_ok e" by (simp add: clients_ok_def)
  have "broker_inv pins (upd_ctx r closed d)"
    by (rule broker_inv_upd [OF inv live]) (simp_all add: closed_def same_queue_def keys_def)
  then show "broker_inv pins e"
    unfolding e_def form by (rule broker_inv_tables) (simp_all add: upd_ctx_def)
  show "ctx_of e q = (if q = r then closed (ctx_of d r) else ctx_of d q)" "ctx_live e q = ctx_live d q"
    "glob e = glob d" "ll_for_free e = ll_for_free d" "contexts_by_id e = contexts_by_id d"
    "contexts_by_sock e = filter (\<lambda>(k, q). q \<noteq> r) (contexts_by_sock d)" "subs e = subs d" "cfg e = cfg d"
    "settings e = settings d"
    by (rule c t)+
qed

subsection \<open>Disconnecting\<close>

lemma clients_upd:
  assumes ok: "clients_ok d" and live: "ctx_live d r" and keep: "ctx_id (f (ctx_of d r)) = ctx_id (ctx_of d r)"
    "sock (f (ctx_of d r)) = sock (ctx_of d r)" "ctx_listener (f (ctx_of d r)) = ctx_listener (ctx_of d r)"
    and st: "r \<in> set (ll_for_free d) \<Longrightarrow> state (f (ctx_of d r)) = mosq_cs_disconnected"
    and w: "\<And>w. will (f (ctx_of d r)) = Some w \<Longrightarrow> wildcard_free (w_topic w)"
  shows "clients_ok (upd_ctx r f d)"
proof -
  define e where "e = upd_ctx r f d"
  have t: "contexts_by_id e = contexts_by_id d" "contexts_by_sock e = contexts_by_sock d"
    "ll_for_free e = ll_for_free d" "listeners e = listeners d"
    by (simp_all add: e_def upd_ctx_def put_ctx_def)
  have c: "ctx_live e q = ctx_live d q" "ctx_id (ctx_of e q) = ctx_id (ctx_of d q)"
    "sock (ctx_of e q) = sock (ctx_of d q)" "ctx_listener (ctx_of e q) = ctx_listener (ctx_of d q)" for q
    using live keep by (auto simp: e_def)
  have s: "q \<in> set (ll_for_free d) \<Longrightarrow> state (ctx_of e q) = mosq_cs_disconnected" for q
    using ok st by (cases "q = r") (auto simp: e_def clients_ok_def disused_ok_def)
  have w: "will (ctx_of e q) = Some w \<Longrightarrow> wildcard_free (w_topic w)" for q w
    using ok assms(7) [of w] by (cases "q = r") (auto simp: e_def clients_ok_def wills_ok_def)
  have "disused_ok e" using ok s by (simp add: clients_ok_def disused_ok_def t c)
  moreover have "wills_ok e" using w by (simp add: wills_ok_def)
  ultimately show ?thesis using ok unfolding e_def [symmetric]
    by (simp add: clients_ok_def ids_ok_def socks_ok_def listeners_ok_def on_listener_def t c)
qed

text \<open>What an operation on the connection of \<open>r\<close> leaves alone.\<close>

definition others_calm :: "ctx_ref \<Rightarrow> db \<Rightarrow> db \<Rightarrow> bool" where
  "others_calm r d e \<longleftrightarrow> (\<forall>q. ctx_live e q = ctx_live d q) \<and> (\<forall>q. q \<noteq> r \<longrightarrow> later (ctx_of d q) (ctx_of e q))"

lemma others_calm_trans: "others_calm r d e \<Longrightarrow> others_calm r e f \<Longrightarrow> others_calm r d f"
  by (auto simp: others_calm_def intro: later_trans)

lemma calm_others: "calm d e \<Longrightarrow> others_calm r d e"
  by (simp add: calm_def others_calm_def)

lemma context_disconnect_ok:
  assumes ok: "clients_ok d" and inv: "broker_inv pins d" and live: "ctx_live d r"
  defines "e \<equiv> mqtt3_context_disconnect r d"
  shows "clients_ok e" and "broker_inv pins e" and "others_calm r d e"
    and "sock (ctx_of e r) < 0" and "will (ctx_of e r) = None" and "ctx_listener (ctx_of e r) = None"
    and "ctx_id (ctx_of e r) = ctx_id (ctx_of d r)" and "state (ctx_of e r) = state (ctx_of d r)"
    and "clean_session (ctx_of e r) = clean_session (ctx_of d r)"
    and "ll_for_free e = ll_for_free d" and "contexts_by_id e = contexts_by_id d" and "cfg e = cfg d"
    and "settings e = settings d" and "bridge (ctx_of e r) = None \<longleftrightarrow> bridge (ctx_of d r) = None"
    and "- 1 \<le> sock (ctx_of d r) \<Longrightarrow> sock (ctx_of e r) = INVALID_SOCKET"
proof -
  define d1 where "d1 = (case will (ctx_of d r) of
                  Some w \<Rightarrow>
                    if state (ctx_of d r) \<noteq> mosq_cs_disconnecting \<and>
                       mosquitto_acl_check d (ctx_of d r) (w_topic w) MOSQ_ACL_WRITE = MOSQ_ERR_SUCCESS
                    then snd (mqtt3_db_messages_easy_queue (Some r) (w_topic w) (w_qos w) (w_payload w) (w_retain w) d)
                    else d
                | None \<Rightarrow> d)"
  have d1: "broker_inv pins d1 \<and> calm d d1"
  proof (cases "will (ctx_of d r)")
    case (Some w)
    then have "wildcard_free (w_topic w)" using ok by (auto simp: clients_ok_def wills_ok_def)
    then show ?thesis using Some inv easy_queue_ok [OF inv, of "w_topic w"] by (simp add: d1_def)
  qed (simp add: d1_def inv)
  define d2 where "d2 = upd_ctx r (\<lambda>c. c\<lparr>will := None, disconnect_t := wall (glob d)\<rparr>) d1"
  have live1: "ctx_live d1 r" using d1 live calm_live [of d d1 r] by simp
  have i2: "broker_inv pins d2"
    unfolding d2_def by (rule broker_inv_upd [OF _ live1]) (use d1 in \<open>simp_all add: same_queue_def keys_def\<close>)
  have c1: "clients_ok d1" using clients_calm [OF ok] d1 by blast
  have st: "r \<in> set (ll_for_free d1) \<Longrightarrow> state (ctx_of d1 r) = mosq_cs_disconnected"
    using c1 by (simp add: clients_ok_def disused_ok_def)
  have c2: "clients_ok d2" unfolding d2_def by (rule clients_upd [OF c1 live1]) (use st in simp_all)
  have live2: "ctx_live d2 r" by (simp add: d2_def)
  have e: "e = mosquitto_socket_close r d2"
    by (simp add: e_def mqtt3_context_disconnect_def Let_def d1_def d2_def)
  note cl = socket_close_ok [OF c2 i2 live2, folded e]
  show "clients_ok e" "broker_inv pins e" by (rule cl)+
  have o2: "others_calm r d1 d2" using live1 by (auto simp: others_calm_def d2_def)
  have "others_calm r d2 e" using cl(3,4) by (simp add: others_calm_def)
  then show "others_calm r d e" using others_calm_trans [OF calm_others o2] others_calm_trans d1 by blast
  have id1: "ctx_id (ctx_of d1 r) = ctx_id (ctx_of d r)" "state (ctx_of d1 r) = state (ctx_of d r)"
    "clean_session (ctx_of d1 r) = clean_session (ctx_of d r)" "ll_for_free d1 = ll_for_free d"
    "contexts_by_id d1 = contexts_by_id d" "cfg d1 = cfg d"
    using d1 by (simp_all add: calm_def later_def identity_def tables_def)
  have ct: "ctx_of e r = closed (ctx_of d2 r)" using cl(3) [of r] by simp
  show "sock (ctx_of e r) < 0" "will (ctx_of e r) = None" "ctx_listener (ctx_of e r) = None"
    "ctx_id (ctx_of e r) = ctx_id (ctx_of d r)" "state (ctx_of e r) = state (ctx_of d r)"
    "clean_session (ctx_of e r) = clean_session (ctx_of d r)"
    unfolding ct by (simp_all add: closed_def d2_def id1)
  show "ll_for_free e = ll_for_free d" "contexts_by_id e = contexts_by_id d" "cfg e = cfg d"
    using cl(6,7,10) id1 by (simp_all add: d2_def upd_ctx_def put_ctx_def)
  show "settings e = settings d" using cl(11) settings_tables [of d1 d] d1 by (simp add: d2_def calm_def)
  show "bridge (ctx_of e r) = None \<longleftrightarrow> bridge (ctx_of d r) = None"
    using d1 unfolding ct by (simp add: closed_def d2_def calm_def later_def)
  show "- 1 \<le> sock (ctx_of d r) \<Longrightarrow> sock (ctx_of e r) = INVALID_SOCKET"
    using d1 unfolding ct by (simp add: closed_def d2_def calm_def later_def identity_def)
qed

lemma forget_id_form:
  assumes "ids_ok d" and "ctx_live d r"
  shows "forget_id r d = (upd_ctx r (\<lambda>c. c\<lparr>ctx_id := None\<rparr>) d)\<lparr>contexts_by_id := filter (\<lambda>(i, q). q \<noteq> r) (contexts_by_id d)\<rparr>"
proof (cases "ctx_id (ctx_of d r)")
  case None
  have "r \<notin> snd ` set (contexts_by_id d)" using assms None by (auto simp: ids_ok_def)
  then have "filter (\<lambda>(i, q). q \<noteq> r) (contexts_by_id d) = contexts_by_id d" by (rule filter_absent)
  moreover have "upd_ctx r (\<lambda>c. c\<lparr>ctx_id := None\<rparr>) d = d"
  proof -
    have "(ctx_of d r)\<lparr>ctx_id := None\<rparr> = ctx_of d r" using None by (cases "ctx_of d r") simp
    then show ?thesis using put_ctx_same [OF assms(2)] by (simp add: upd_ctx_def)
  qed
  ultimately show ?thesis using None by (simp add: forget_id_def)
next
  case (Some i)
  then have "(i, r) \<in> set (contexts_by_id d)" using assms by (simp add: ids_ok_def)
  then have "r \<in> snd ` set (contexts_by_id d)" by force
  then show ?thesis using Some by (simp add: forget_id_def hash_delete_id_def upd_ctx_def put_ctx_def ctx_of_def)
qed

lemma distinct_filter_snd: "distinct (map snd xs) \<Longrightarrow> distinct (map snd (filter P xs))"
  by (induction xs) auto

text \<open>Marking a closed context as disconnected, and perhaps putting it on the list to free.\<close>

definition retired :: "ctx_ref \<Rightarrow> bool \<Rightarrow> db \<Rightarrow> db" where
  "retired r go d =
     (let e = upd_ctx r (\<lambda>c. c\<lparr>ctx_id := (if go then None else ctx_id c), state := mosq_cs_disconnected\<rparr>) d
      in if go then e\<lparr>ll_for_free := r # ll_for_free d, contexts_by_id := filter (\<lambda>(i, q). q \<noteq> r) (contexts_by_id d)\<rparr> else e)"

lemma retired_ok:
  fixes go :: bool
  assumes ok: "clients_ok d" and inv: "broker_inv pins d" and live: "ctx_live d r" and new: "r \<notin> set (ll_for_free d)"
    and sock: "sock (ctx_of d r) < 0" "ctx_listener (ctx_of d r) = None"
  defines "e \<equiv> retired r go d"
  shows "clients_ok e" and "broker_inv pins e"
proof -
  have c: "ctx_of e q = (if q = r then (ctx_of d r)\<lparr>ctx_id := (if go then None else ctx_id (ctx_of d r)), state := mosq_cs_disconnected\<rparr>
      else ctx_of d q)" "ctx_live e q = ctx_live d q" for q
    using live by (auto simp: e_def retired_def Let_def ctx_of_def upd_ctx_def put_ctx_def ctx_live_def)
  have t: "contexts_by_id e = (if go then filter (\<lambda>(i, q). q \<noteq> r) (contexts_by_id d) else contexts_by_id d)"
    "contexts_by_sock e = contexts_by_sock d" "ll_for_free e = (if go then r # ll_for_free d else ll_for_free d)"
    "listeners e = listeners d"
    by (simp_all add: e_def retired_def Let_def upd_ctx_def put_ctx_def)
  have f: "ctx_listener (ctx_of e q) = ctx_listener (ctx_of d q)" "sock (ctx_of e q) = sock (ctx_of d q)"
    "will (ctx_of e q) = will (ctx_of d q)" for q
    by (simp_all add: c(1))
  have "ids_ok e"
  proof -
    have "distinct (map snd (contexts_by_id e))"
      using ok distinct_filter_snd [of "contexts_by_id d"] by (simp add: t clients_ok_def ids_ok_def)
    moreover have "(i, q) \<in> set (contexts_by_id e) \<longleftrightarrow> ctx_live e q \<and> ctx_id (ctx_of e q) = Some i" for i q
      using ok by (cases "q = r") (simp_all add: t c clients_ok_def ids_ok_def)
    ultimately show ?thesis by (simp add: ids_ok_def)
  qed
  moreover have "socks_ok e" using ok by (simp add: clients_ok_def socks_ok_def t c(2) f)
  moreover have "disused_ok e"
    using ok new live sock by (auto simp: clients_ok_def disused_ok_def t c)
  moreover have "listeners_ok e" using ok by (simp add: clients_ok_def listeners_ok_def on_listener_def t c(2) f)
  moreover have "wills_ok e" using ok by (simp add: clients_ok_def wills_ok_def f)
  ultimately show "clients_ok e" by (simp add: clients_ok_def)
  have "broker_inv pins (upd_ctx r (\<lambda>c. c\<lparr>ctx_id := (if go then None else ctx_id c), state := mosq_cs_disconnected\<rparr>) d)"
    by (rule broker_inv_upd [OF inv live]) (simp_all add: same_queue_def keys_def)
  then show "broker_inv pins e" by (rule broker_inv_tables) (simp_all add: e_def retired_def Let_def)
qed

lemma do_disconnect_form:
  assumes ok: "clients_ok d" and inv: "broker_inv pins d" and live: "ctx_live d r"
    and was: "state (ctx_of d r) \<noteq> mosq_cs_disconnected"
  defines "e \<equiv> mqtt3_context_disconnect r d"
  shows "do_disconnect r d = retired r (clean_session (ctx_of e r) \<and> bridge (ctx_of e r) = None) e"
    and "r \<notin> set (ll_for_free e)"
proof -
  note cd = context_disconnect_ok [OF ok inv live, folded e_def]
  have live1: "ctx_live e r" using cd(3) live by (simp add: others_calm_def)
  show new: "r \<notin> set (ll_for_free e)" using cd(10) ok was by (auto simp: clients_ok_def disused_ok_def)
  define d2 where "d2 = e\<lparr>ll_for_free := r # ll_for_free e\<rparr>"
  have d2: "ctx_live d2 r" "contexts_by_id d2 = contexts_by_id e" "ids_ok d2" "upd_ctx r f d2 = (upd_ctx r f e)\<lparr>ll_for_free := r # ll_for_free e\<rparr>" for f
    using cd(1) live1 by (simp_all add: d2_def ctx_live_def clients_ok_def ids_ok_def ctx_of_def upd_ctx_def put_ctx_def)
  have run: "do_disconnect r d = upd_ctx r (\<lambda>c. c\<lparr>state := mosq_cs_disconnected\<rparr>)
      (if clean_session (ctx_of e r) \<and> bridge (ctx_of e r) = None then forget_id r d2 else e)"
    using was new by (simp add: do_disconnect_def e_def [symmetric] Let_def add_context_to_disused_def d2_def)
  show "do_disconnect r d = retired r (clean_session (ctx_of e r) \<and> bridge (ctx_of e r) = None) e"
  proof (cases "clean_session (ctx_of e r) \<and> bridge (ctx_of e r) = None")
    case True
    then show ?thesis unfolding run forget_id_form [OF d2(3,1)] retired_def Let_def d2(2,4)
      by (simp add: upd_ctx_def put_ctx_def ctx_of_def)
  qed (auto simp: run retired_def upd_ctx_def)
qed

lemma do_disconnect_ok:
  assumes ok: "clients_ok d" and inv: "broker_inv pins d" and live: "ctx_live d r"
    and was: "state (ctx_of d r) \<noteq> mosq_cs_disconnected"
  defines "e \<equiv> do_disconnect r d"
  shows "clients_ok e" and "broker_inv pins e" and "others_calm r d e"
    and "sock (ctx_of e r) < 0" and "state (ctx_of e r) = mosq_cs_disconnected" and "will (ctx_of e r) = None"
    and "(r \<in> set (ll_for_free e) \<and> ctx_id (ctx_of e r) = None) \<or>
         (ll_for_free e = ll_for_free d \<and> ctx_id (ctx_of e r) = ctx_id (ctx_of d r))"
    and "settings e = settings d" and "bridge (ctx_of e r) = None \<longleftrightarrow> bridge (ctx_of d r) = None"
    and "contexts_by_id e = contexts_by_id d \<or> contexts_by_id e = filter (\<lambda>(i, q). q \<noteq> r) (contexts_by_id d)"
    and "- 1 \<le> sock (ctx_of d r) \<Longrightarrow> sock (ctx_of e r) = INVALID_SOCKET"
proof -
  define d1 where "d1 = mqtt3_context_disconnect r d"
  note cd = context_disconnect_ok [OF ok inv live, folded d1_def]
  note form = do_disconnect_form [OF ok inv live was, folded d1_def e_def]
  have live1: "ctx_live d1 r" using cd(3) live by (simp add: others_calm_def)
  show "clients_ok e" "broker_inv pins e"
    unfolding form(1) by (rule retired_ok [OF cd(1,2) live1 form(2) cd(4,6)])+
  have c: "ctx_of e q = (if q = r then (ctx_of d1 r)\<lparr>ctx_id := (if clean_session (ctx_of d1 r) \<and> bridge (ctx_of d1 r) = None
        then None else ctx_id (ctx_of d1 r)), state := mosq_cs_disconnected\<rparr> else ctx_of d1 q)" "ctx_live e q = ctx_live d1 q" for q
    unfolding form(1) retired_def Let_def using live1 by (auto simp: ctx_of_def upd_ctx_def put_ctx_def ctx_live_def)
  show "others_calm r d e" using cd(3) by (simp add: others_calm_def c)
  show "sock (ctx_of e r) < 0" "state (ctx_of e r) = mosq_cs_disconnected" "will (ctx_of e r) = None"
    by (simp_all add: c cd)
  show "(r \<in> set (ll_for_free e) \<and> ctx_id (ctx_of e r) = None) \<or>
         (ll_for_free e = ll_for_free d \<and> ctx_id (ctx_of e r) = ctx_id (ctx_of d r))"
    by (simp add: form(1) retired_def Let_def cd) (simp add: upd_ctx_def put_ctx_def ctx_of_def cd)
  have st: "settings (retired r go x) = settings x" for go x
    by (simp add: retired_def Let_def) (simp add: settings_def upd_ctx_def put_ctx_def)
  show "settings e = settings d" using cd(13) by (simp add: form(1) st)
  show "bridge (ctx_of e r) = None \<longleftrightarrow> bridge (ctx_of d r) = None" using cd(14) by (simp add: c)
  show "contexts_by_id e = contexts_by_id d \<or> contexts_by_id e = filter (\<lambda>(i, q). q \<noteq> r) (contexts_by_id d)"
    by (simp add: form(1) retired_def Let_def cd) (simp add: upd_ctx_def put_ctx_def cd)
  show "- 1 \<le> sock (ctx_of d r) \<Longrightarrow> sock (ctx_of e r) = INVALID_SOCKET" using cd(15) by (simp add: c)
qed

text \<open>A disconnect that publishes no will changes no other client.\<close>

lemma context_disconnect_silent:
  assumes "clients_ok d" and "broker_inv pins d" and "ctx_live d r"
    and "will (ctx_of d r) = None \<or> state (ctx_of d r) = mosq_cs_disconnecting"
  defines "e \<equiv> mqtt3_context_disconnect r d"
  shows "q \<noteq> r \<Longrightarrow> ctx_of e q = ctx_of d q" and "bridge (ctx_of e r) = bridge (ctx_of d r)" and "glob e = glob d"
    and "msgs (ctx_of e r) = msgs (ctx_of d r)" and "ctx_subs (ctx_of e r) = ctx_subs (ctx_of d r)" and "subs e = subs d"
    and "contexts_by_sock e = filter (\<lambda>(k, q). q \<noteq> r) (contexts_by_sock d)"
proof -
  define d1 where "d1 = upd_ctx r (\<lambda>c. c\<lparr>will := None, disconnect_t := wall (glob d)\<rparr>) d"
  have run: "e = mosquitto_socket_close r d1"
    using assms(4) by (auto simp: e_def mqtt3_context_disconnect_def d1_def Let_def split: option.splits)
  have i1: "broker_inv pins d1" unfolding d1_def
    by (rule broker_inv_upd [OF assms(2,3)]) (simp_all add: same_queue_def keys_def)
  have "r \<in> set (ll_for_free d) \<Longrightarrow> state (ctx_of d r) = mosq_cs_disconnected"
    using assms(1) by (simp add: clients_ok_def disused_ok_def)
  then have c1: "clients_ok d1" unfolding d1_def by (intro clients_upd [OF assms(1,3)]) simp_all
  have live1: "ctx_live d1 r" by (simp add: d1_def)
  note sc = socket_close_ok [OF c1 i1 live1, folded run]
  show "q \<noteq> r \<Longrightarrow> ctx_of e q = ctx_of d q" using sc(3) by (simp add: d1_def)
  show "bridge (ctx_of e r) = bridge (ctx_of d r)" "msgs (ctx_of e r) = msgs (ctx_of d r)"
    "ctx_subs (ctx_of e r) = ctx_subs (ctx_of d r)"
    using sc(3) [of r] by (simp_all add: d1_def closed_def)
  show "glob e = glob d" "subs e = subs d" using sc(5,9) by (simp_all add: d1_def upd_ctx_def)
  show "contexts_by_sock e = filter (\<lambda>(k, q). q \<noteq> r) (contexts_by_sock d)"
    using sc(8) by (simp add: d1_def upd_ctx_def put_ctx_def)
qed

lemma do_disconnect_silent:
  assumes ok: "clients_ok d" and inv: "broker_inv pins d" and live: "ctx_live d r"
    and was: "state (ctx_of d r) \<noteq> mosq_cs_disconnected"
    and silent: "will (ctx_of d r) = None \<or> state (ctx_of d r) = mosq_cs_disconnecting"
  defines "go \<equiv> clean_session (ctx_of d r) \<and> bridge (ctx_of d r) = None" and "e \<equiv> do_disconnect r d"
  shows "ll_for_free e = (if go then r # ll_for_free d else ll_for_free d)"
    and "contexts_by_id e = (if go then filter (\<lambda>(i, q). q \<noteq> r) (contexts_by_id d) else contexts_by_id d)"
    and "ctx_id (ctx_of e r) = (if go then None else ctx_id (ctx_of d r))"
    and "q \<noteq> r \<Longrightarrow> ctx_of e q = ctx_of d q" and "glob e = glob d" and "ctx_live e q = ctx_live d q"
    and "msgs (ctx_of e r) = msgs (ctx_of d r)" and "ctx_subs (ctx_of e r) = ctx_subs (ctx_of d r)" and "subs e = subs d"
    and "contexts_by_sock e = filter (\<lambda>(k, q). q \<noteq> r) (contexts_by_sock d)"
proof -
  define d1 where "d1 = mqtt3_context_disconnect r d"
  note cd = context_disconnect_ok [OF ok inv live, folded d1_def]
  note si = context_disconnect_silent [OF ok inv live silent, folded d1_def]
  have go: "(clean_session (ctx_of d1 r) \<and> bridge (ctx_of d1 r) = None) = go" by (simp add: go_def cd(9) si(2))
  have e: "e = retired r go d1" using do_disconnect_form(1) [OF ok inv live was, folded d1_def e_def] by (simp only: go)
  show "ll_for_free e = (if go then r # ll_for_free d else ll_for_free d)"
    "contexts_by_id e = (if go then filter (\<lambda>(i, q). q \<noteq> r) (contexts_by_id d) else contexts_by_id d)"
    "glob e = glob d" "subs e = subs d" "contexts_by_sock e = filter (\<lambda>(k, q). q \<noteq> r) (contexts_by_sock d)"
    unfolding e retired_def Let_def by (simp_all add: cd si upd_ctx_def put_ctx_def)
  have c: "ctx_of e q = (if q = r then (ctx_of d1 r)\<lparr>ctx_id := (if go then None else ctx_id (ctx_of d1 r)), state := mosq_cs_disconnected\<rparr>
      else ctx_of d1 q)" for q
    unfolding e retired_def Let_def by (auto simp: ctx_of_def upd_ctx_def put_ctx_def)
  show "ctx_id (ctx_of e r) = (if go then None else ctx_id (ctx_of d r))" "q \<noteq> r \<Longrightarrow> ctx_of e q = ctx_of d q"
    "msgs (ctx_of e r) = msgs (ctx_of d r)" "ctx_subs (ctx_of e r) = ctx_subs (ctx_of d r)"
    by (simp_all add: c cd si)
  show "ctx_live e q = ctx_live d q"
    using do_disconnect_ok(3) [OF ok inv live was] by (simp add: e_def others_calm_def)
qed

subsection \<open>Freeing the contexts that are no longer used\<close>

lemma messages_delete_glob:
  assumes "msgs_inv pins d" and "ctx_live d r"
  shows "glob (snd (mqtt3_db_messages_delete r d)) = glob d"
proof -
  let ?c = "ctx_of d r" and ?F = "\<lambda>s. int (total_refs d s) + pins s"
  have inv: "finite (dom (contexts d))" "counts_ok ?F d" "\<And>s. 0 \<le> pins s"
    using assms(1) by (simp_all add: msgs_inv_def store_inv_def)
  have le: "int (count_list (map cm_store (msgs ?c)) s) \<le> ?F s" for s
    using queue_refs_le_total [OF inv(1) assms(2), of s] inv(3) [of s] by (simp add: queue_refs_def)
  show ?thesis
    using store.deref_all [OF inv(2), of "map cm_store (msgs ?c)", OF le]
      not_store_simps [of "fold (\<lambda>s d. snd (msg_store_deref s d)) (map cm_store (msgs ?c)) d" d]
    by (simp add: mqtt3_db_messages_delete_def fold_deref_stores)
qed

lemma clean_session_glob:
  assumes "linked d"
  shows "glob (snd (mqtt3_subs_clean_session r d)) = glob d"
proof -
  obtain d' n where o: "mqtt3_subs_clean_session r d = (MOSQ_ERR_SUCCESS, d')"
    "d' = upd_ctx r (\<lambda>c. c\<lparr>ctx_subs := []\<rparr>) (d\<lparr>subs := subs d', subscription_count := n\<rparr>)"
    by (rule clean_session_outcome [OF assms, of r]) blast
  have "glob d' = glob d" by (subst o(2)) simp
  then show ?thesis by (simp add: o(1))
qed

lemma free_ctx_ok:
  assumes "broker_inv pins d" and "msgs (ctx_of d r) = []" and "ctx_subs (ctx_of d r) = []"
  shows "broker_inv pins (d\<lparr>contexts := (contexts d)(r := None)\<rparr>)"
proof -
  let ?e = "d\<lparr>contexts := (contexts d)(r := None)\<rparr>"
  have c: "ctx_of ?e q = (if q = r then ctx_zero else ctx_of d q)" for q by (simp add: ctx_of_def)
  have inv: "msgs_inv pins d" "linked d" "topics_ok d" using assms(1) by (simp_all add: broker_inv_def)
  have fin: "finite (dom (contexts d))" using inv(1) by (simp add: msgs_inv_def store_inv_def)
  have "total_refs ?e s = total_refs d s" for s
  proof -
    have q0: "queue_refs s (ctx_of d r) = 0" using assms(2) by (simp add: queue_refs_def)
    have "(\<Sum>x \<in> dom (contexts d). queue_refs s (ctx_of d x)) = (\<Sum>x \<in> dom (contexts d) - {r}. queue_refs s (ctx_of d x))"
      using fin q0 by (cases "r \<in> dom (contexts d)") (simp_all add: sum.remove)
    also have "\<dots> = (\<Sum>x \<in> dom (contexts ?e). queue_refs s (ctx_of ?e x))"
      by (rule sum.cong) (auto simp: c split: if_splits)
    finally show ?thesis by (simp add: total_refs_def)
  qed
  then have "msgs_inv pins ?e" using inv(1) fin
    by (auto simp: msgs_inv_def store_inv_def counts_ok_def store_live_def split: if_splits)
  moreover have "linked ?e"
    by (rule linked_frame [OF inv(2)]) (simp_all add: c assms(3) ctx_zero_def)
  moreover have "topics_ok ?e" using inv(3) by (simp add: topics_ok_def)
  ultimately show ?thesis by (simp add: broker_inv_def)
qed

lemma cleanup_disused:
  assumes inv: "broker_inv pins d" and live: "ctx_live d r" and idle: "ctx_id (ctx_of d r) = None" "sock (ctx_of d r) < 0"
    "ctx_listener (ctx_of d r) = None"
  defines "e \<equiv> mqtt3_context_cleanup r True d"
  shows "broker_inv pins e" and "\<not> ctx_live e r" and "q \<noteq> r \<Longrightarrow> ctx_live e q = ctx_live d q"
    and "q \<noteq> r \<Longrightarrow> later (ctx_of d q) (ctx_of e q)"
    and "contexts_by_id e = contexts_by_id d" and "contexts_by_sock e = contexts_by_sock d" and "listeners e = listeners d"
    and "glob e = glob d" and "bridge (ctx_of d r) = None \<Longrightarrow> settings e = settings d" and "ll_for_free e = ll_for_free d"
proof -
  define d1 where "d1 = mosquitto_socket_close r (drop_bridge r (upd_ctx r (\<lambda>c. c\<lparr>username := None, password := None\<rparr>) d))"
  define b where "b = map_option (\<lambda>b. b\<lparr>br_remote_username := None, br_remote_password := None, br_local_clientid := None,
              br_local_username := None, br_local_password := None\<rparr>) (bridge (ctx_of d r))"
  define bs where "bs = (if bridge (ctx_of d r) = None then bridges d else map (\<lambda>x. if x = Some r then None else x) (bridges d))"
  let ?f = "\<lambda>c. c\<lparr>username := None, password := None, bridge := b, ssl := None\<rparr>"
  have d1: "d1 = (upd_ctx r ?f d)\<lparr>bridges := bs\<rparr>"
  proof (cases "bridge (ctx_of d r)")
    case None
    then have "(ctx_of d r)\<lparr>username := None, password := None, ssl := None\<rparr> = ?f (ctx_of d r)"
      by (cases "ctx_of d r") (simp add: b_def)
    then show ?thesis using idle None
      by (simp add: d1_def drop_bridge_def mosquitto_socket_close_def leave_listener_def Let_def bs_def) (simp add: upd_ctx_def put_ctx_def ctx_of_def)
  next
    case (Some x)
    then show ?thesis using idle
      by (simp add: d1_def drop_bridge_def mosquitto_socket_close_def leave_listener_def Let_def bs_def b_def ctx_of_def
          upd_ctx_def put_ctx_def)
  qed
  have "broker_inv pins (upd_ctx r ?f d)"
    by (rule broker_inv_upd [OF inv live]) (simp_all add: same_queue_def keys_def)
  then have i1: "broker_inv pins d1" by (rule broker_inv_tables) (simp_all add: d1)
  have live1: "ctx_live d1 r" by (simp add: d1 ctx_live_def upd_ctx_def put_ctx_def)
  define d2 where "d2 = snd (mqtt3_subs_clean_session r d1)"
  have d2: "broker_inv pins d2" "calm d1 d2" "ctx_subs (ctx_of d2 r) = []" "glob d2 = glob d1"
    using clean_session_ok [OF i1 live1] clean_session_glob i1 by (simp_all add: d2_def broker_inv_def)
  have live2: "ctx_live d2 r" using d2(2) live1 calm_live by blast
  define d3 where "d3 = snd (mqtt3_db_messages_delete r d2)"
  have d3: "broker_inv pins d3" "touches r d2 d3" "glob d3 = glob d2" "msgs (ctx_of d3 r) = []" "last_msg (ctx_of d3 r) = None"
    using messages_delete_ok [OF d2(1) live2] messages_delete_glob [of pins d2 r] d2(1) live2
    by (simp_all add: d3_def broker_inv_def) (simp_all add: mqtt3_db_messages_delete_def)
  have live3: "ctx_live d3 r" and subs3: "ctx_subs (ctx_of d3 r) = []" using d3(2) d2(3) by (simp_all add: touches_def)
  have calm3: "calm d1 d3" using calm_trans [OF d2(2) touches_calm [OF d3(2) live2]] .
  then have id3: "ctx_id (ctx_of d3 r) = None"
    using idle(1) calm_id [of d1 d3 r] by (simp add: d1 ctx_of_def upd_ctx_def put_ctx_def)
  let ?g = "\<lambda>c. c\<lparr>in_packet := mosquitto_packet_cleanup (in_packet c), current_out_packet := None, out_packet := [],
    will := None, msgs := [], last_msg := None\<rparr>"
  define d4 where "d4 = upd_ctx r ?g d3"
  have run: "e = d4\<lparr>contexts := (contexts d4)(r := None)\<rparr>"
    using live d3(4) id3 unfolding e_def mqtt3_context_cleanup_def
    by (simp add: Let_def free_msgs_def forget_id_def d4_def flip: d1_def d2_def d3_def) (simp add: upd_ctx_def)
  have "broker_inv pins d4" unfolding d4_def
    by (rule broker_inv_upd [OF d3(1) live3]) (simp_all add: same_queue_def keys_def d3(4,5))
  then show "broker_inv pins e" unfolding run by (rule free_ctx_ok) (simp_all add: d4_def subs3)
  show "\<not> ctx_live e r" by (simp add: run ctx_live_def)
  have t: "tables d3 = tables d1" using calm3 by (simp add: calm_def)
  show "contexts_by_id e = contexts_by_id d" "contexts_by_sock e = contexts_by_sock d" "listeners e = listeners d"
    "ll_for_free e = ll_for_free d"
    using t by (simp_all add: run d4_def tables_def) (simp_all add: d1 upd_ctx_def put_ctx_def)
  show "glob e = glob d" by (simp add: run d4_def d3 d2) (simp add: d1)
  have s4: "settings e = settings d4" by (simp add: run settings_def)
  show "settings e = settings d" if "bridge (ctx_of d r) = None"
    using that settings_tables [OF t] unfolding s4 by (simp add: d4_def) (simp add: d1 bs_def settings_def upd_ctx_def put_ctx_def)
  assume q: "q \<noteq> r"
  have c: "contexts e q = contexts d3 q" using q by (simp add: run d4_def upd_ctx_def put_ctx_def)
  have live_q: "ctx_live d1 q = ctx_live d q" "ctx_of d1 q = ctx_of d q"
    using q by (simp_all add: d1 ctx_live_def ctx_of_def upd_ctx_def put_ctx_def)
  have "ctx_live d3 q = ctx_live d1 q" using calm3 by (rule calm_live)
  then show "ctx_live e q = ctx_live d q" using c live_q by (simp add: ctx_live_def)
  show "later (ctx_of d q) (ctx_of e q)" 
  proof -
    have "ctx_of e q = ctx_of d3 q" using c by (simp add: ctx_of_def)
    moreover have "later (ctx_of d1 q) (ctx_of d3 q)" using calm3 by (simp add: calm_def)
    ultimately show ?thesis using live_q(2) by simp
  qed
qed

definition members_ok :: "db \<Rightarrow> bool" where
  "members_ok d \<longleftrightarrow> ids_ok d \<and> socks_ok d \<and> listeners_ok d \<and> wills_ok d"

lemma identity_fields:
  "identity c' = identity c \<Longrightarrow> ctx_id c' = ctx_id c \<and> sock c' = sock c \<and> state c' = state c \<and>
     ctx_listener c' = ctx_listener c \<and> will c' = will c \<and> clean_session c' = clean_session c"
  by (simp add: identity_def)

lemma cleanup_members:
  assumes ok: "members_ok d" and inv: "broker_inv pins d" and live: "ctx_live d r"
    and idle: "ctx_id (ctx_of d r) = None" "sock (ctx_of d r) < 0" "ctx_listener (ctx_of d r) = None"
  shows "members_ok (mqtt3_context_cleanup r True d)"
proof -
  let ?e = "mqtt3_context_cleanup r True d"
  note cl = cleanup_disused [OF inv live idle]
  have zero: "ctx_of ?e r = ctx_zero" using cl(2) by (simp add: ctx_live_def ctx_of_def)
  have f: "ctx_id (ctx_of ?e q) = ctx_id (ctx_of d q)" "sock (ctx_of ?e q) = sock (ctx_of d q)"
    "ctx_listener (ctx_of ?e q) = ctx_listener (ctx_of d q)" "will (ctx_of ?e q) = will (ctx_of d q)" if "q \<noteq> r" for q
    using identity_fields [OF later_identity [OF cl(4) [OF that]]] by simp_all
  have "ids_ok ?e"
    using ok idle(1) cl(2,3) f(1) by (auto simp: members_ok_def ids_ok_def cl(5)) (metis option.distinct(1))+
  moreover have "socks_ok ?e"
    using ok idle(2) cl(2,3) f(2) by (auto simp: members_ok_def socks_ok_def cl(6)) (metis not_less)+
  moreover have "on_listener ?e l = on_listener d l" for l
    using cl(2,3) f(3) idle(3) by (auto simp: on_listener_def) (metis option.distinct(1))+
  then have "listeners_ok ?e" using ok cl(2,3) f(3)
    by (auto simp: members_ok_def listeners_ok_def cl(7)) metis
  moreover have "will (ctx_of ?e q) = Some w \<Longrightarrow> wildcard_free (w_topic w)" for q w
    using ok f(4) [of q] zero by (cases "q = r") (auto simp: members_ok_def wills_ok_def ctx_zero_def)
  ultimately show ?thesis by (simp add: members_ok_def wills_ok_def)
qed

lemma cleanup_fold:
  assumes "members_ok d" and "broker_inv pins d" and "distinct rs"
    and "\<forall>r \<in> set rs. ctx_live d r \<and> ctx_id (ctx_of d r) = None \<and> sock (ctx_of d r) < 0 \<and> ctx_listener (ctx_of d r) = None"
  shows "members_ok (fold (\<lambda>r. mqtt3_context_cleanup r True) rs d) \<and> broker_inv pins (fold (\<lambda>r. mqtt3_context_cleanup r True) rs d) \<and>
    glob (fold (\<lambda>r. mqtt3_context_cleanup r True) rs d) = glob d \<and>
    (\<forall>q. ctx_live (fold (\<lambda>r. mqtt3_context_cleanup r True) rs d) q \<longleftrightarrow> ctx_live d q \<and> q \<notin> set rs) \<and>
    (\<forall>q. q \<notin> set rs \<longrightarrow> later (ctx_of d q) (ctx_of (fold (\<lambda>r. mqtt3_context_cleanup r True) rs d) q)) \<and>
    contexts_by_id (fold (\<lambda>r. mqtt3_context_cleanup r True) rs d) = contexts_by_id d \<and>
    ((\<forall>r \<in> set rs. bridge (ctx_of d r) = None) \<longrightarrow> settings (fold (\<lambda>r. mqtt3_context_cleanup r True) rs d) = settings d)"
  using assms
proof (induction rs arbitrary: d)
  case (Cons r rs)
  have r: "ctx_live d r" "ctx_id (ctx_of d r) = None" "sock (ctx_of d r) < 0" "ctx_listener (ctx_of d r) = None"
    using Cons.prems(4) by simp_all
  let ?e = "mqtt3_context_cleanup r True d"
  note cl = cleanup_disused [OF Cons.prems(2) r]
  have others: "\<forall>q \<in> set rs. ctx_live ?e q \<and> ctx_id (ctx_of ?e q) = None \<and> sock (ctx_of ?e q) < 0 \<and> ctx_listener (ctx_of ?e q) = None"
  proof
    fix q assume q: "q \<in> set rs"
    then have "q \<noteq> r" using Cons.prems(3) by auto
    then show "ctx_live ?e q \<and> ctx_id (ctx_of ?e q) = None \<and> sock (ctx_of ?e q) < 0 \<and> ctx_listener (ctx_of ?e q) = None"
      using Cons.prems(4) q cl(3) identity_fields [OF later_identity [OF cl(4)], of q] by simp
  qed
  have "distinct rs" using Cons.prems(3) by simp
  note IH = Cons.IH [OF cleanup_members [OF Cons.prems(1,2) r] cl(1) this others]
  have live: "ctx_live ?e q \<longleftrightarrow> ctx_live d q \<and> q \<noteq> r" for q using cl(2,3) by (cases "q = r") auto
  have ident: "q \<noteq> r \<Longrightarrow> later (ctx_of d q) (ctx_of ?e q)" for q by (rule cl(4))
  have br: "\<forall>q \<in> set rs. bridge (ctx_of ?e q) = None" if "\<forall>q \<in> set (r # rs). bridge (ctx_of d q) = None"
  proof
    fix q assume q: "q \<in> set rs"
    then have "q \<noteq> r" using Cons.prems(3) by auto
    then show "bridge (ctx_of ?e q) = None" using that q ident [of q] by (simp add: later_def)
  qed
  have set: "settings ?e = settings d" if "bridge (ctx_of d r) = None" by (rule cl(9) [OF that])
  show ?case
  proof (intro conjI allI impI)
    show "later (ctx_of d q) (ctx_of (fold (\<lambda>r. mqtt3_context_cleanup r True) (r # rs) d) q)" if "q \<notin> set (r # rs)" for q
      using IH ident [of q] later_trans that by auto
    show "settings (fold (\<lambda>r. mqtt3_context_cleanup r True) (r # rs) d) = settings d" if "\<forall>q \<in> set (r # rs). bridge (ctx_of d q) = None"
      using IH br set that by simp
  qed (use IH live cl(5,8) in auto)
qed simp

lemma free_disused_ok:
  assumes "clients_ok d" and "broker_inv pins d"
  shows "clients_ok (free_disused_contexts d)" and "broker_inv pins (free_disused_contexts d)"
    and "glob (free_disused_contexts d) = glob d"
    and "ctx_live (free_disused_contexts d) q \<longleftrightarrow> ctx_live d q \<and> q \<notin> set (ll_for_free d)"
    and "q \<notin> set (ll_for_free d) \<Longrightarrow> later (ctx_of d q) (ctx_of (free_disused_contexts d) q)"
    and "contexts_by_id (free_disused_contexts d) = contexts_by_id d"
    and "(\<forall>r \<in> set (ll_for_free d). bridge (ctx_of d r) = None) \<Longrightarrow> settings (free_disused_contexts d) = settings d"
proof -
  let ?e = "fold (\<lambda>r. mqtt3_context_cleanup r True) (ll_for_free d) d"
  have free: "free_disused_contexts d = ?e\<lparr>ll_for_free := []\<rparr>" by (simp add: free_disused_contexts_def)
  have m: "members_ok d" "distinct (ll_for_free d)"
    "\<forall>r \<in> set (ll_for_free d). ctx_live d r \<and> ctx_id (ctx_of d r) = None \<and> sock (ctx_of d r) < 0 \<and> ctx_listener (ctx_of d r) = None"
    using assms(1) by (simp_all add: clients_ok_def members_ok_def disused_ok_def)
  note f = cleanup_fold [OF m(1) assms(2) m(2,3)]
  have c: "ctx_live (x\<lparr>ll_for_free := []\<rparr>) q = ctx_live x q" "ctx_of (x\<lparr>ll_for_free := []\<rparr>) q = ctx_of x q" for x q
    by (simp_all add: ctx_live_def ctx_of_def)
  have "members_ok ?e \<Longrightarrow> clients_ok (?e\<lparr>ll_for_free := []\<rparr>)"
    by (simp add: members_ok_def clients_ok_def ids_ok_def socks_ok_def disused_ok_def listeners_ok_def wills_ok_def
        on_listener_def c)
  moreover have "broker_inv pins ?e" using f by blast
  then have "broker_inv pins (?e\<lparr>ll_for_free := []\<rparr>)" by (rule broker_inv_tables) simp_all
  ultimately show "clients_ok (free_disused_contexts d)" "broker_inv pins (free_disused_contexts d)" using f by (simp_all add: free)
  have "settings (x\<lparr>ll_for_free := []\<rparr>) = settings x" for x by (simp add: settings_def)
  then show "glob (free_disused_contexts d) = glob d"
    "ctx_live (free_disused_contexts d) q \<longleftrightarrow> ctx_live d q \<and> q \<notin> set (ll_for_free d)"
    "q \<notin> set (ll_for_free d) \<Longrightarrow> later (ctx_of d q) (ctx_of (free_disused_contexts d) q)"
    "contexts_by_id (free_disused_contexts d) = contexts_by_id d"
    "(\<forall>r \<in> set (ll_for_free d). bridge (ctx_of d r) = None) \<Longrightarrow> settings (free_disused_contexts d) = settings d"
    using f by (simp_all add: free c)
qed

text \<open>
  C28. Freeing the disused contexts frees each of them once and follows no dangling pointer: in a
  consistent broker exactly the contexts on the list are gone afterwards, the broker is
  consistent without them, no global, the fault flag included, has changed, and the clients that
  stay are who they were.
\<close>

theorem free_disused_frees_once:
  assumes "clients_ok d" and "broker_inv pins d"
  shows "clients_ok (free_disused_contexts d) \<and> broker_inv pins (free_disused_contexts d) \<and>
    glob (free_disused_contexts d) = glob d \<and>
    (\<forall>q. ctx_live (free_disused_contexts d) q \<longleftrightarrow> ctx_live d q \<and> q \<notin> set (ll_for_free d)) \<and>
    (\<forall>q. q \<notin> set (ll_for_free d) \<longrightarrow> identity (ctx_of (free_disused_contexts d) q) = identity (ctx_of d q))"
  using free_disused_ok [OF assms] later_identity by blast

subsection \<open>New contexts\<close>

lemma new_ctx_ok:
  assumes inv: "broker_inv pins d" and new: "\<not> ctx_live d r" and c: "msgs c = []" "msg_count c = 0" "msg_count12 c = 0"
    "last_msg c = None" "ctx_subs c = []"
  shows "broker_inv pins (put_ctx r c d)"
proof -
  let ?e = "put_ctx r c d"
  have inv': "msgs_inv pins d" "linked d" "topics_ok d" using inv by (simp_all add: broker_inv_def)
  have fin: "finite (dom (contexts d))" using inv'(1) by (simp add: msgs_inv_def store_inv_def)
  have r: "r \<notin> dom (contexts d)" using new by (simp add: ctx_live_def dom_def)
  have dom: "dom (contexts ?e) = insert r (dom (contexts d))" by (simp add: put_ctx_def)
  have refs: "total_refs ?e s = total_refs d s" for s
  proof -
    have "(\<Sum>x \<in> dom (contexts d). queue_refs s (ctx_of ?e x)) = (\<Sum>x \<in> dom (contexts d). queue_refs s (ctx_of d x))"
      by (rule sum.cong) (use r in auto)
    then show ?thesis unfolding total_refs_def dom using fin r c(1) by (simp add: queue_refs_def)
  qed
  have "queue_ok n c" for n using c by (simp add: queue_ok_def keys_def keys_ok_def pos_qos_def)
  moreover have "contexts ?e q = (if q = r then Some c else contexts d q)" for q by (simp add: put_ctx_def)
  moreover have "counts_ok f ?e = counts_ok f d" for f by (rule counts_ok_cong) simp_all
  ultimately have "msgs_inv pins ?e" using inv'(1) fin
    by (simp add: msgs_inv_def store_inv_def refs dom)
  moreover have "linked ?e"
    by (rule linked_frame [OF inv'(2)]) (use new c(5) in \<open>auto simp: ctx_live_def ctx_of_def ctx_zero_def put_ctx_def\<close>)
  moreover have "topics_ok ?e" using inv'(3) by (simp add: topics_ok_def)
  ultimately show ?thesis by (simp add: broker_inv_def)
qed

lemma context_init_ok:
  assumes ok: "clients_ok d" and inv: "broker_inv pins d" and new: "\<not> ctx_live d r" and init: "mqtt3_context_init r peer s d = (ro, e)"
  shows "clients_ok e" and "broker_inv pins e" and "ro = Some r \<Longrightarrow> ctx_live e r"
proof -
  define c where "c = ctx_zero\<lparr>state := mosq_cs_new, sock := s, last_msg_in := now (glob d), last_msg_out := now (glob d),
                  keepalive := 60, clean_session := True, in_packet := mosquitto_packet_cleanup packet_zero\<rparr>"
  have cases: "(ro, e) = (None, d) \<or>
      (ro, e) = (Some r, (put_ctx r c d)\<lparr>contexts_by_sock := (if 0 \<le> s then [(s, r)] else []) @ contexts_by_sock d\<rparr>)"
    using init by (auto simp: mqtt3_context_init_def Let_def c_def put_ctx_def split: if_splits)
  have i: "broker_inv pins (put_ctx r c d)"
    by (rule new_ctx_ok [OF inv new]) (simp_all add: c_def ctx_zero_def)
  have ix: "broker_inv pins ((put_ctx r c d)\<lparr>contexts_by_sock := x\<rparr>)" for x
    using i by (rule broker_inv_tables) simp_all
  show "broker_inv pins e" using cases inv ix by auto
  show "ro = Some r \<Longrightarrow> ctx_live e r" using cases by (auto simp: ctx_live_def put_ctx_def)
  let ?e = "(put_ctx r c d)\<lparr>contexts_by_sock := (if 0 \<le> s then [(s, r)] else []) @ contexts_by_sock d\<rparr>"
  have f: "ctx_live ?e q \<longleftrightarrow> ctx_live d q \<or> q = r" "ctx_of ?e q = (if q = r then c else ctx_of d q)"
    "contexts_by_id ?e = contexts_by_id d" "ll_for_free ?e = ll_for_free d" "listeners ?e = listeners d"
    "contexts_by_sock ?e = (if 0 \<le> s then [(s, r)] else []) @ contexts_by_sock d" for q
    by (auto simp: ctx_live_def put_ctx_def ctx_of_def)
  have z: "ctx_id c = None" "sock c = s" "ctx_listener c = None" "will c = None" by (simp_all add: c_def ctx_zero_def)
  have "ids_ok ?e" using ok new by (auto simp: clients_ok_def ids_ok_def f z)
  moreover have "socks_ok ?e" using ok new by (auto simp: clients_ok_def socks_ok_def f z image_iff)
  moreover have "disused_ok ?e" using ok new by (auto simp: clients_ok_def disused_ok_def f z)
  moreover have "on_listener ?e l = on_listener d l" for l using new by (auto simp: on_listener_def f z)
  then have "listeners_ok ?e" using ok new by (auto simp: clients_ok_def listeners_ok_def f z)
  moreover have "wills_ok ?e" using ok by (auto simp: clients_ok_def wills_ok_def f z)
  ultimately have "clients_ok ?e" by (simp add: clients_ok_def)
  then show "clients_ok e" using cases ok by auto
qed

subsection \<open>A sample with two clients\<close>

definition client_db :: db where
  "client_db = sub_db\<lparr>contexts_by_id := [(''c1'', 7)], contexts_by_sock := [(4, 7)]\<rparr>"

lemma client_db_facts:
  "broker_inv (\<lambda>s. 0) client_db" "clients_ok client_db" "ctx_live client_db q \<longleftrightarrow> q = 7"
  "ctx_of client_db = ctx_of sub_db" "msg_store client_db = msg_store sub_db"
proof -
  show "broker_inv (\<lambda>s. 0) client_db"
    by (rule broker_inv_tables [OF sub_db_inv]) (simp_all add: client_db_def)
  have t: "ll_for_free sub_db = []" "listeners sub_db = []" "contexts sub_db q \<noteq> None \<longleftrightarrow> q = 7" for q
  proof -
    have named: "ctx_id (ctx_of (mqtt3_db_limits_set 0 0 tree_db) 7) = Some ''c1''" by (simp add: limits_db_facts tree_db_named)
    have "calm (mqtt3_db_limits_set 0 0 tree_db) sub_db" unfolding sub_db_def
      by (rule sub_add_ok [where pins = "\<lambda>s. 0", THEN conjunct2, OF _ limits_db_facts(4) named hash_last_sub_path [OF sample_sub_ok(2,1)]])
        (use limits_db_facts(1,2) in \<open>simp_all add: broker_inv_def topics_ok_def mqtt3_db_limits_set_def tree_db_def
          mqtt3_db_open_def sample_db_def sample_store_def msg_store_zero_def wildcard_free_def\<close>)
    then have "tables sub_db = tables (mqtt3_db_limits_set 0 0 tree_db)"
      "ctx_live sub_db q = ctx_live (mqtt3_db_limits_set 0 0 tree_db) q" by (simp_all add: calm_def)
    then show "ll_for_free sub_db = []" "listeners sub_db = []" "contexts sub_db q \<noteq> None \<longleftrightarrow> q = 7"
      by (auto simp: tables_def ctx_live_def mqtt3_db_limits_set_def tree_db_def mqtt3_db_open_def sample_db_def db_zero_def)
  qed
  show live: "ctx_live client_db q \<longleftrightarrow> q = 7" for q using t(3) by (simp add: ctx_live_def client_db_def)
  show c: "ctx_of client_db = ctx_of sub_db" by (simp add: client_db_def ctx_of_def fun_eq_iff)
  show "msg_store client_db = msg_store sub_db" by (simp add: client_db_def)
  have w: "will (ctx_of sub_db q) = None" "ctx_listener (ctx_of sub_db q) = None" for q
    using arg_cong [OF sub_db_facts(6), of will] arg_cong [OF sub_db_facts(6), of ctx_listener] sub_db_facts(7) [of q]
    by (cases "q = 7"; simp add: sample_ctx_def ctx_zero_def)+
  show "clients_ok client_db"
    unfolding clients_ok_def ids_ok_def socks_ok_def disused_ok_def listeners_ok_def wills_ok_def on_listener_def live c w
    using t by (auto simp: client_db_def sub_db_client mounts_ok_def)
qed

text \<open>A second client connects a socket and is disconnected.\<close>

definition left_db :: db where
  "left_db = do_disconnect 8 (snd (mqtt3_context_init 8 True 5 client_db))"

lemma left_db_facts:
  "clients_ok left_db" "broker_inv (\<lambda>s. 0) left_db" "ll_for_free left_db = [8]" "ctx_live left_db 8"
proof -
  let ?d = "snd (mqtt3_context_init 8 True 5 client_db)"
  have init: "mqtt3_context_init 8 True 5 client_db = (Some 8, ?d)"
    by (simp add: mqtt3_context_init_def Let_def)
  have new: "\<not> ctx_live client_db 8" using client_db_facts(3) [of 8] by simp
  note ok = context_init_ok [OF client_db_facts(2,1) new init]
  have c: "ctx_of ?d 8 = ctx_zero\<lparr>state := mosq_cs_new, sock := 5, last_msg_in := now (glob client_db), last_msg_out := now (glob client_db),
                  keepalive := 60, clean_session := True, in_packet := mosquitto_packet_cleanup packet_zero\<rparr>"
    by (simp add: mqtt3_context_init_def Let_def ctx_of_def put_ctx_def)
  have live: "ctx_live ?d 8" using ok(3) by simp
  have st: "state (ctx_of ?d 8) \<noteq> mosq_cs_disconnected" by (simp add: c)
  show "clients_ok left_db" "broker_inv (\<lambda>s. 0) left_db"
    unfolding left_db_def by (rule do_disconnect_ok [OF ok(1,2) live st])+
  show "ctx_live left_db 8"
    using do_disconnect_ok(3) [OF ok(1,2) live st] live by (simp add: left_db_def others_calm_def)
  have "ll_for_free ?d = ll_for_free client_db" by (simp add: mqtt3_context_init_def Let_def put_ctx_def)
  moreover have "ll_for_free client_db = []"
    using client_db_facts(2,3) sub_db_client(1) client_db_facts(4)
    by (cases "ll_for_free client_db") (auto simp: clients_ok_def disused_ok_def)
  ultimately show "ll_for_free left_db = [8]"
    using do_disconnect_silent(1) [OF ok(1,2) live st] unfolding left_db_def c by (simp add: ctx_zero_def)
qed

theorem free_disused_frees_once_witness:
  "\<not> ctx_live (free_disused_contexts left_db) 8 \<and> ctx_live left_db 8 \<and> clients_ok (free_disused_contexts left_db)"
  using free_disused_frees_once [OF left_db_facts(1,2)] left_db_facts(3,4) by simp

end
