(* ===== verification/Handlers.thy ===== *)
theory Handlers
  imports Context
begin

text \<open>
  The packet handlers for a client that is there: publish (\<^verbatim>\<open>src/read_handle.c\<close>), subscribe,
  unsubscribe and disconnect (\<^verbatim>\<open>src/read_handle_server.c\<close>), and the acknowledgements and pings of
  \<^verbatim>\<open>lib/read_handle_shared.c\<close>, with theorems on what each keeps and does. A handler is a step: it
  ends early with a return code (\<^const>\<open>Inl\<close>) or goes on with a value.
\<close>

subsection \<open>Steps\<close>

type_synonym 'a step = "db \<Rightarrow> (rc + 'a) \<times> db"

definition go_on :: "'a \<Rightarrow> 'a step" where
  "go_on x d = (Inr x, d)"

definition stop :: "rc \<Rightarrow> 'a step" where
  "stop e d = (Inl e, d)"

definition next_step :: "'a step \<Rightarrow> ('a \<Rightarrow> 'b step) \<Rightarrow> 'b step" where
  "next_step m k d = (case m d of (Inl e, d1) \<Rightarrow> (Inl e, d1) | (Inr x, d1) \<Rightarrow> k x d1)"

definition on_error :: "rc \<Rightarrow> 'a step \<Rightarrow> 'a step" where
  "on_error e m d = (case m d of (Inl e', d1) \<Rightarrow> (Inl e, d1) | (Inr x, d1) \<Rightarrow> (Inr x, d1))"

text \<open>Stop with the code when it is not success.\<close>

definition check_rc :: "rc \<Rightarrow> unit step" where
  "check_rc e d = (if e = MOSQ_ERR_SUCCESS then (Inr (), d) else (Inl e, d))"

definition require :: "rc \<Rightarrow> bool \<Rightarrow> unit step" where
  "require e b d = (if b then (Inr (), d) else (Inl e, d))"

definition modify_ctx :: "ctx_ref \<Rightarrow> (ctx \<Rightarrow> ctx) \<Rightarrow> unit step" where
  "modify_ctx r f d = (Inr (), upd_ctx r f d)"

text \<open>The return code of a step whose last value is the return code.\<close>

definition finish :: "rc step \<Rightarrow> db \<Rightarrow> rc \<times> db" where
  "finish m d = (case m d of (Inl e, d1) \<Rightarrow> (e, d1) | (Inr e, d1) \<Rightarrow> (e, d1))"

text \<open>Read a field of the incoming packet.\<close>

definition read_field :: "ctx_ref \<Rightarrow> 'a reader \<Rightarrow> 'a step" where
  "read_field r f d = (case f (in_packet (ctx_of d r)) of (x, p) \<Rightarrow> (x, upd_ctx r (\<lambda>c. c\<lparr>in_packet := p\<rparr>) d))"

subsection \<open>Acknowledgements and pings\<close>

definition mosquitto_handle_pingreq :: "ctx_ref \<Rightarrow> db \<Rightarrow> rc \<times> db" where
  "mosquitto_handle_pingreq r = with_ctx r mosquitto_send_pingresp"

definition mosquitto_handle_pingresp :: "ctx_ref \<Rightarrow> db \<Rightarrow> rc \<times> db" where
  "mosquitto_handle_pingresp r d = (MOSQ_ERR_SUCCESS, upd_ctx r (\<lambda>c. c\<lparr>ping_t := 0\<rparr>) d)"

definition mosquitto_handle_pubackcomp :: "ctx_ref \<Rightarrow> db \<Rightarrow> rc \<times> db" where
  "mosquitto_handle_pubackcomp r =
     finish (next_step (read_field r mosquitto_read_uint16) (\<lambda>mid d.
       if mid \<noteq> 0 then (case mqtt3_db_message_delete r mid mosq_md_out d of (rc, d1) \<Rightarrow> (Inr rc, d1))
       else (Inr MOSQ_ERR_SUCCESS, d)))"

definition mosquitto_handle_pubrec :: "ctx_ref \<Rightarrow> db \<Rightarrow> rc \<times> db" where
  "mosquitto_handle_pubrec r =
     finish (next_step (read_field r mosquitto_read_uint16) (\<lambda>mid d.
       case with_ctx r (mqtt3_db_message_update mid mosq_md_out mosq_ms_wait_for_pubcomp) d of
         (rc, d1) \<Rightarrow>
           if rc \<noteq> MOSQ_ERR_SUCCESS then (Inr rc, d1)
           else (case with_ctx r (mosquitto_send_pubrel mid) d1 of (rc', d2) \<Rightarrow> (Inr rc', d2))))"

definition mosquitto_handle_pubrel :: "ctx_ref \<Rightarrow> db \<Rightarrow> (rc \<times> db) option" where
  "mosquitto_handle_pubrel r d =
     (if protocol (ctx_of d r) = mosq_p_mqtt311 \<and> command (in_packet (ctx_of d r)) AND 0x0F \<noteq> 2
      then Some (MOSQ_ERR_PROTOCOL, d)
      else
        case read_field r mosquitto_read_uint16 d of
          (Inl e, d1) \<Rightarrow> Some (e, d1)
        | (Inr mid, d1) \<Rightarrow>
            map_option (\<lambda>(rc, d2). with_ctx r (mosquitto_send_pubcomp mid) d2)
              (mqtt3_db_message_release r mid mosq_md_in d1))"

text \<open>For a bridge: the granted QoS values are read and dropped.\<close>

partial_function (option) suback_loop :: "packet \<Rightarrow> ((rc + unit) \<times> packet) option" where
  "suback_loop p =
     (if pos p < remaining_length p
      then (case mosquitto_read_byte p of
              (Inl e, p1) \<Rightarrow> Some (Inl e, p1)
            | (Inr b, p1) \<Rightarrow> suback_loop p1)
      else Some (Inr (), p))"

definition mosquitto_handle_suback :: "ctx_ref \<Rightarrow> db \<Rightarrow> (rc \<times> db) option" where
  "mosquitto_handle_suback r d =
     (case read_field r mosquitto_read_uint16 d of
        (Inl e, d1) \<Rightarrow> Some (e, d1)
      | (Inr mid, d1) \<Rightarrow>
          map_option (\<lambda>(x, p). (case x of Inl e \<Rightarrow> e | Inr u \<Rightarrow> MOSQ_ERR_SUCCESS, upd_ctx r (\<lambda>c. c\<lparr>in_packet := p\<rparr>) d1))
            (suback_loop (in_packet (ctx_of d1 r))))"

definition mosquitto_handle_unsuback :: "ctx_ref \<Rightarrow> db \<Rightarrow> rc \<times> db" where
  "mosquitto_handle_unsuback r =
     finish (next_step (read_field r mosquitto_read_uint16) (\<lambda>mid. go_on MOSQ_ERR_SUCCESS))"

subsection \<open>Publish\<close>

text \<open>The topics of a bridge, for a message that comes in over it.\<close>

fun remap_in :: "bridge_topic list \<Rightarrow> string \<Rightarrow> rc + string" where
  "remap_in [] topic = Inr topic"
| "remap_in (t # ts) topic =
     (if (bt_direction t = bd_both \<or> bt_direction t = bd_in) \<and> (bt_remote_prefix t \<noteq> None \<or> bt_local_prefix t \<noteq> None) then
        (case mosquitto_topic_matches_sub (Some (bt_remote_topic t)) (Some topic) of
           (rc, match) \<Rightarrow>
             if rc \<noteq> MOSQ_ERR_SUCCESS then Inl rc
             else if match = Some True then
               (let stripped = (case bt_remote_prefix t of
                      Some p \<Rightarrow> if take (length p) topic = p then drop (length p) topic else topic
                    | None \<Rightarrow> topic)
                in Inr (case bt_local_prefix t of Some p \<Rightarrow> p @ stripped | None \<Rightarrow> stripped))
             else remap_in ts topic)
      else remap_in ts topic)"

definition remapped :: "ctx \<Rightarrow> string \<Rightarrow> rc + string" where
  "remapped c topic =
     (case bridge c of
        Some b \<Rightarrow> if br_topics b \<noteq> [] \<and> br_topic_remapping b then remap_in (br_topics b) topic else Inr topic
      | None \<Rightarrow> Inr topic)"

definition mounted :: "db \<Rightarrow> ctx \<Rightarrow> string \<Rightarrow> string" where
  "mounted d c topic = (case mount_point_of d c of Some m \<Rightarrow> m @ topic | None \<Rightarrow> topic)"

record publication =
  p_qos :: nat
  p_retain :: bool
  p_mid :: u16
  p_topic :: string
  p_payload :: "byte list"

definition header_qos :: "byte \<Rightarrow> nat" where
  "header_qos h = unat (drop_bit 1 (h AND 0x06))"

text \<open>The label \<^verbatim>\<open>process_bad_message\<close>: an id is acknowledged, nothing is published.\<close>

definition process_bad_message :: "ctx_ref \<Rightarrow> nat \<Rightarrow> u16 \<Rightarrow> db \<Rightarrow> rc \<times> db" where
  "process_bad_message r qos mid d =
     (if qos = 0 then (MOSQ_ERR_SUCCESS, d)
      else if qos = 1 then with_ctx r (mosquitto_send_puback mid) d
      else if qos = 2 then
        (case mqtt3_db_message_store_find r mid d of
           (rc, Some s) \<Rightarrow> with_ctx r (mosquitto_send_pubrec mid) d
         | (rc, None) \<Rightarrow>
             case mqtt3_db_message_store (ctx_id (ctx_of d r)) mid None qos [] False 0 d of
               (s, d1) \<Rightarrow>
                 case mqtt3_db_message_insert r mid mosq_md_in qos False s d1 of
                   (res, d2) \<Rightarrow> if res = 0 then with_ctx r (mosquitto_send_pubrec mid) d2 else (res, d2))
      else (1, d))"

text \<open>What is done with a publication that may be published; \<open>mid\<close> is 0 without QoS.\<close>

definition accept_publication :: "ctx_ref \<Rightarrow> publication \<Rightarrow> db \<Rightarrow> rc \<times> db" where
  "accept_publication r p d =
     (let found = (if 0 < p_qos p then snd (mqtt3_db_message_store_find r (p_mid p) d) else None);
          src = (case ctx_id (ctx_of d r) of Some i \<Rightarrow> i | None \<Rightarrow> [])
      in case (case found of
                 Some s \<Rightarrow> (s, d)
               | None \<Rightarrow> mqtt3_db_message_store (ctx_id (ctx_of d r)) (p_mid p) (Some (p_topic p)) (p_qos p)
                            (p_payload p) (p_retain p) 0 d) of
           (s, d1) \<Rightarrow>
             if p_qos p = 0 then
               (case mqtt3_db_messages_queue src (p_topic p) 0 (p_retain p) s d1 of
                  (q, ptr, d2) \<Rightarrow> (if q \<noteq> 0 then 1 else 0, d2))
             else if p_qos p = 1 then
               (case mqtt3_db_messages_queue src (p_topic p) 1 (p_retain p) s d1 of
                  (q, ptr, d2) \<Rightarrow>
                    case with_ctx r (mosquitto_send_puback (p_mid p)) d2 of
                      (a, d3) \<Rightarrow> (if q \<noteq> 0 \<or> a \<noteq> 0 then 1 else 0, d3))
             else
               (case (if found = None then mqtt3_db_message_insert r (p_mid p) mosq_md_in (p_qos p) (p_retain p) s d1
                      else (0, d1)) of
                  (res, d2) \<Rightarrow>
                    if res = 0 then
                      (case with_ctx r (mosquitto_send_pubrec (p_mid p)) d2 of (a, d3) \<Rightarrow> (if a \<noteq> 0 then 1 else 0, d3))
                    else (if res = 1 then 1 else 0, d2)))"

definition publish_header :: "ctx_ref \<Rightarrow> (nat \<times> u16 \<times> string) step" where
  "publish_header r d =
     (let qos = header_qos (command (in_packet (ctx_of d r)))
      in next_step (require 1 (qos \<noteq> 3)) (\<lambda>_.
         next_step (on_error 1 (read_field r mosquitto_read_string)) (\<lambda>topic.
         next_step (require 1 (topic \<noteq> [])) (\<lambda>_ d1.
           case remapped (ctx_of d1 r) topic of
             Inl e \<Rightarrow> (Inl e, d1)
           | Inr t \<Rightarrow>
               next_step (require 1 (mosquitto_pub_topic_check t = MOSQ_ERR_SUCCESS)) (\<lambda>_.
               next_step (if 0 < qos then on_error 1 (read_field r mosquitto_read_uint16) else go_on 0) (\<lambda>mid.
                 go_on (qos, mid, t))) d1)))
      d)"

definition count_pub_bytes :: "u32 \<Rightarrow> db \<Rightarrow> db" where
  "count_pub_bytes n d = d\<lparr>glob := (glob d)\<lparr>g_pub_bytes_received := g_pub_bytes_received (glob d) + ucast n\<rparr>\<rparr>"

definition publish_rest :: "ctx_ref \<Rightarrow> nat \<times> u16 \<times> string \<Rightarrow> rc step" where
  "publish_rest r h d =
     (case h of (qos, mid, t) \<Rightarrow>
        let p = in_packet (ctx_of d r);
            len = remaining_length p - pos p;
            retain = bit (command p) 0;
            d1 = count_pub_bytes len d;
            topic = mounted d1 (ctx_of d1 r) t
        in if len \<noteq> 0 \<and> message_size_limit (cfg d1) \<noteq> 0 \<and> len > message_size_limit (cfg d1)
           then (case process_bad_message r qos mid d1 of (rc, d2) \<Rightarrow> (Inr rc, d2))
           else
             next_step (if len \<noteq> 0 then on_error 1 (read_field r (mosquitto_read_bytes len)) else go_on []) (\<lambda>pl d2.
               let rc = mosquitto_acl_check d2 (ctx_of d2 r) topic MOSQ_ACL_WRITE
               in case (if rc = MOSQ_ERR_ACL_DENIED then process_bad_message r qos mid d2
                        else if rc \<noteq> MOSQ_ERR_SUCCESS then (rc, d2)
                        else accept_publication r
                               \<lparr>p_qos = qos, p_retain = retain, p_mid = mid, p_topic = topic, p_payload = pl\<rparr> d2) of
                    (res, d3) \<Rightarrow> (Inr res, d3)) d1)"

definition mqtt3_handle_publish :: "ctx_ref \<Rightarrow> db \<Rightarrow> rc \<times> db" where
  "mqtt3_handle_publish r = finish (next_step (publish_header r) (publish_rest r))"

subsection \<open>Subscribe, unsubscribe, disconnect\<close>

text \<open>One topic filter of a SUBSCRIBE: the new return code, and the QoS granted.\<close>

definition subscribe_one :: "ctx_ref \<Rightarrow> rc \<Rightarrow> (rc \<times> byte) step" where
  "subscribe_one r rc =
     next_step (on_error 1 (read_field r mosquitto_read_string)) (\<lambda>sub.
     next_step (require 1 (sub \<noteq> [] \<and> mosquitto_sub_topic_check sub = MOSQ_ERR_SUCCESS)) (\<lambda>_.
     next_step (on_error 1 (read_field r mosquitto_read_byte)) (\<lambda>qos.
     next_step (require 1 (qos \<le> 2)) (\<lambda>_ d.
       let filter = mounted d (ctx_of d r) sub
       in case mqtt3_sub_add r filter (unat qos) d of
            (rc2, d1) \<Rightarrow>
              if rc2 = MOSQ_ERR_SUCCESS then
                (case mqtt3_retain_queue r filter (unat qos) d1 of
                   (rc3, d2) \<Rightarrow> (Inr (if rc3 \<noteq> 0 then 1 else rc, qos), d2))
              else (Inr (if rc2 \<noteq> - 1 then rc2 else rc, qos), d1)))))"

partial_function (option) subscribe_loop ::
    "ctx_ref \<Rightarrow> rc \<Rightarrow> byte list \<Rightarrow> db \<Rightarrow> ((rc + rc \<times> byte list) \<times> db) option" where
  "subscribe_loop r rc granted d =
     (if pos (in_packet (ctx_of d r)) < remaining_length (in_packet (ctx_of d r))
      then (case subscribe_one r rc d of
              (Inl e, d1) \<Rightarrow> Some (Inl e, d1)
            | (Inr (rc1, qos), d1) \<Rightarrow> subscribe_loop r rc1 (granted @ [qos]) d1)
      else Some (Inr (rc, granted), d))"

definition suback_for :: "ctx_ref \<Rightarrow> u16 \<Rightarrow> rc \<Rightarrow> byte list \<Rightarrow> db \<Rightarrow> rc \<times> db" where
  "suback_for r mid rc granted d =
     (if protocol (ctx_of d r) = mosq_p_mqtt311 \<and> granted = [] then (MOSQ_ERR_PROTOCOL, d)
      else
        case with_ctx r (mosquitto_send_suback mid granted) d of
          (rc2, d1) \<Rightarrow> (if rc2 \<noteq> 0 then 1 else rc, d1\<lparr>persistence_changes := persistence_changes d1 + 1\<rparr>))"

definition bad_flags :: "ctx \<Rightarrow> bool" where
  "bad_flags c \<longleftrightarrow> protocol c = mosq_p_mqtt311 \<and> command (in_packet c) AND 0x0F \<noteq> 2"

definition mqtt3_handle_subscribe :: "ctx_ref \<Rightarrow> db \<Rightarrow> (rc \<times> db) option" where
  "mqtt3_handle_subscribe r d =
     (if bad_flags (ctx_of d r) then Some (MOSQ_ERR_PROTOCOL, d)
      else
        case on_error 1 (read_field r mosquitto_read_uint16) d of
          (Inl e, d1) \<Rightarrow> Some (e, d1)
        | (Inr mid, d1) \<Rightarrow>
            map_option (\<lambda>(x, d2). case x of Inl e \<Rightarrow> (e, d2) | Inr (rc, granted) \<Rightarrow> suback_for r mid rc granted d2)
              (subscribe_loop r 0 [] d1))"

text \<open>The filters of an UNSUBSCRIBE are not prefixed with the mount point.\<close>

definition unsubscribe_one :: "ctx_ref \<Rightarrow> unit step" where
  "unsubscribe_one r =
     next_step (on_error 1 (read_field r mosquitto_read_string)) (\<lambda>sub.
     next_step (require 1 (sub \<noteq> [] \<and> mosquitto_sub_topic_check sub = MOSQ_ERR_SUCCESS)) (\<lambda>_ d.
       case mqtt3_sub_remove r sub d of (rc, d1) \<Rightarrow> (Inr (), d1)))"

partial_function (option) unsubscribe_loop :: "ctx_ref \<Rightarrow> db \<Rightarrow> ((rc + unit) \<times> db) option" where
  "unsubscribe_loop r d =
     (if pos (in_packet (ctx_of d r)) < remaining_length (in_packet (ctx_of d r))
      then (case unsubscribe_one r d of
              (Inl e, d1) \<Rightarrow> Some (Inl e, d1)
            | (Inr u, d1) \<Rightarrow> unsubscribe_loop r d1)
      else Some (Inr (), d))"

definition mqtt3_handle_unsubscribe :: "ctx_ref \<Rightarrow> db \<Rightarrow> (rc \<times> db) option" where
  "mqtt3_handle_unsubscribe r d =
     (if bad_flags (ctx_of d r) then Some (MOSQ_ERR_PROTOCOL, d)
      else
        case on_error 1 (read_field r mosquitto_read_uint16) d of
          (Inl e, d1) \<Rightarrow> Some (e, d1)
        | (Inr mid, d1) \<Rightarrow>
            map_option (\<lambda>(x, d2). case x of
                Inl e \<Rightarrow> (e, d2)
              | Inr u \<Rightarrow> with_ctx r (mosquitto_send_command_with_mid UNSUBACK mid False)
                           (d2\<lparr>persistence_changes := persistence_changes d2 + 1\<rparr>))
              (unsubscribe_loop r d1))"

definition mqtt3_handle_disconnect :: "ctx_ref \<Rightarrow> db \<Rightarrow> rc \<times> db" where
  "mqtt3_handle_disconnect r d =
     (let c = ctx_of d r
      in if remaining_length (in_packet c) \<noteq> 0 then (MOSQ_ERR_PROTOCOL, d)
         else if protocol c = mosq_p_mqtt311 \<and> command (in_packet c) AND 0x0F \<noteq> 0
         then (MOSQ_ERR_PROTOCOL, do_disconnect r d)
         else (MOSQ_ERR_SUCCESS, do_disconnect r (upd_ctx r (\<lambda>c. c\<lparr>state := mosq_cs_disconnecting\<rparr>) d)))"

subsection \<open>Every handler keeps the broker consistent\<close>

text \<open>The whole invariant, with nothing pinned, and the client whose packet is handled.\<close>

definition consistent :: "db \<Rightarrow> bool" where
  "consistent d \<longleftrightarrow> broker_inv (\<lambda>s. 0) d \<and> clients_ok d"

definition keeps :: "ctx_ref \<Rightarrow> db \<Rightarrow> db \<Rightarrow> bool" where
  "keeps r d e \<longleftrightarrow> consistent e \<and> calm_but r d e"

lemma keeps_refl: "consistent d \<Longrightarrow> keeps r d d"
  by (simp add: keeps_def)

lemma keeps_trans: "keeps r d e \<Longrightarrow> keeps r e f \<Longrightarrow> keeps r d f"
  by (auto simp: keeps_def intro: calm_but_trans)

lemma keeps_but: "broker_inv (\<lambda>s. 0) e \<Longrightarrow> calm_but r d e \<Longrightarrow> consistent d \<Longrightarrow> keeps r d e"
  using clients_calm_but by (auto simp: keeps_def consistent_def)

lemmas keeps_inv = keeps_but [OF _ calm_but]

lemma keeps_touches: "broker_inv (\<lambda>s. 0) e \<Longrightarrow> touches r d e \<Longrightarrow> ctx_live d r \<Longrightarrow> consistent d \<Longrightarrow> keeps r d e"
  using touches_calm keeps_inv by blast

lemma keeps_consistent: "keeps r d e \<Longrightarrow> consistent e"
  by (simp add: keeps_def)

lemma keeps_live: "keeps r d e \<Longrightarrow> ctx_live e q = ctx_live d q"
  by (simp add: keeps_def calm_but_def)

lemma keeps_upd:
  assumes "consistent d" and "ctx_live d r" and "same_queue (ctx_of d r) (f (ctx_of d r))"
    and "ctx_subs (f (ctx_of d r)) = ctx_subs (ctx_of d r)" and "reads_on (ctx_of d r) (f (ctx_of d r))"
  shows "keeps r d (upd_ctx r f d)"
  by (rule keeps_but) (use assms broker_inv_upd in \<open>auto simp: consistent_def calm_but_def\<close>)

text \<open>A step that keeps the broker consistent, and so do steps put together.\<close>

definition good_step :: "ctx_ref \<Rightarrow> 'a step \<Rightarrow> bool" where
  "good_step r m \<longleftrightarrow> (\<forall>d. consistent d \<and> ctx_live d r \<longrightarrow> keeps r d (snd (m d)))"

lemma good_stepD: "good_step r m \<Longrightarrow> consistent d \<Longrightarrow> ctx_live d r \<Longrightarrow> keeps r d (snd (m d))"
  by (simp add: good_step_def)

named_theorems good

lemma good_next [good]:
  assumes "good_step r m" and "\<And>x. good_step r (k x)"
  shows "good_step r (next_step m k)"
  unfolding good_step_def
proof (intro allI impI)
  fix d assume d: "consistent d \<and> ctx_live d r"
  obtain y e where m: "m d = (y, e)" by fastforce
  then have e: "keeps r d e" using good_stepD [OF assms(1), of d] d by simp
  show "keeps r d (snd (next_step m k d))"
  proof (cases y)
    case (Inr x)
    have "keeps r e (snd (k x e))"
      by (rule good_stepD [OF assms(2)]) (use keeps_consistent [OF e] keeps_live [OF e] d in simp_all)
    then show ?thesis using keeps_trans [OF e] m Inr by (simp add: next_step_def)
  qed (use m e in \<open>simp add: next_step_def\<close>)
qed

lemma good_on_error [good]: "good_step r m \<Longrightarrow> good_step r (on_error e m)"
  by (auto simp: good_step_def on_error_def split: prod.splits sum.splits)

lemma good_pure [good]: "good_step r (go_on x)" "good_step r (stop e)" "good_step r (check_rc e)" "good_step r (require e b)"
  by (simp_all add: good_step_def go_on_def stop_def check_rc_def require_def keeps_refl)

lemma good_if [good]: "good_step r m \<Longrightarrow> good_step r n \<Longrightarrow> good_step r (if b then m else n)"
  by simp

lemma good_reading [good]: "good_step r (read_field r f)"
  unfolding good_step_def read_field_def
  by (auto split: prod.splits intro!: keeps_upd simp: same_queue_def keys_def reads_on_def later_def unborn_def identity_def)

lemma consistent_parts:
  assumes "consistent d"
  shows "broker_inv (\<lambda>s. 0) d" and "clients_ok d" and "msgs_inv (\<lambda>s. 0) d" and "linked d" and "topics_ok d" and "mounts_ok (listeners d)"
  using assms by (simp_all add: consistent_def broker_inv_def clients_ok_def listeners_ok_def)

lemma keeps_ops:
  assumes "consistent d" and "ctx_live d r"
  shows "keeps r d (snd (mqtt3_db_message_delete r mid dir d))"
    and "keeps r d (snd (with_ctx r (mqtt3_db_message_update mid dir st) d))"
    and "\<And>f. sends (glob d, ctx_of d r) (f (glob d, ctx_of d r)) \<Longrightarrow> keeps r d (snd (with_ctx r f d))"
    and "keeps r d (snd (mqtt3_sub_remove r sub d))"
    and "keeps r d (snd (mqtt3_retain_queue r sub qos d))"
proof -
  note inv = consistent_parts(1) [OF assms(1)]
  show "keeps r d (snd (mqtt3_db_message_delete r mid dir d))"
    using message_delete_ok [OF inv assms(2)] keeps_touches assms by blast
  show "keeps r d (snd (with_ctx r (mqtt3_db_message_update mid dir st) d))"
    using message_update_ok [OF inv assms(2)] keeps_touches assms by blast
  show "keeps r d (snd (with_ctx r f d))" if "sends (glob d, ctx_of d r) (f (glob d, ctx_of d r))" for f
    using sends_ok [OF inv assms(2), of f] that keeps_touches assms by blast
  show "keeps r d (snd (mqtt3_sub_remove r sub d))" using sub_remove_ok [OF inv assms(2)] keeps_inv assms by blast
  show "keeps r d (snd (mqtt3_retain_queue r sub qos d))" using retain_queue_ok [OF inv assms(2)] keeps_inv assms by blast
qed

lemma good_sends [good]: "(\<And>s. sends s (f s)) \<Longrightarrow> good_step r (\<lambda>d. case with_ctx r f d of (rc, e) \<Rightarrow> (Inr rc, e))"
  using keeps_ops(3) by (auto simp: good_step_def split: prod.splits) (metis snd_conv)

lemma good_finish: "good_step r m \<Longrightarrow> consistent d \<Longrightarrow> ctx_live d r \<Longrightarrow> keeps r d (snd (finish m d))"
  using good_stepD [of r m d] by (auto simp: finish_def split: prod.splits sum.splits)

lemma pingreq_keeps: "consistent d \<Longrightarrow> ctx_live d r \<Longrightarrow> keeps r d (snd (mosquitto_handle_pingreq r d))"
  unfolding mosquitto_handle_pingreq_def by (rule keeps_ops(3)) simp_all

lemma pingresp_keeps: "consistent d \<Longrightarrow> ctx_live d r \<Longrightarrow> keeps r d (snd (mosquitto_handle_pingresp r d))"
  unfolding mosquitto_handle_pingresp_def snd_conv
  by (rule keeps_upd) (simp_all add: same_queue_def keys_def reads_on_def later_def unborn_def identity_def)

lemma pubackcomp_keeps: "consistent d \<Longrightarrow> ctx_live d r \<Longrightarrow> keeps r d (snd (mosquitto_handle_pubackcomp r d))"
  unfolding mosquitto_handle_pubackcomp_def
proof (rule good_finish)
  have "good_step r (\<lambda>d. if mid \<noteq> 0 then case mqtt3_db_message_delete r mid mosq_md_out d of (rc, d1) \<Rightarrow> (Inr rc, d1)
      else (Inr MOSQ_ERR_SUCCESS, d))" for mid
    using keeps_ops(1) [of _ r mid mosq_md_out] by (auto simp: good_step_def keeps_refl split: prod.splits) (metis snd_conv)
  then show "good_step r (next_step (read_field r mosquitto_read_uint16) (\<lambda>mid d. if mid \<noteq> 0
      then case mqtt3_db_message_delete r mid mosq_md_out d of (rc, d1) \<Rightarrow> (Inr rc, d1) else (Inr MOSQ_ERR_SUCCESS, d)))"
    by (intro good)
qed

lemma pubrec_keeps: "consistent d \<Longrightarrow> ctx_live d r \<Longrightarrow> keeps r d (snd (mosquitto_handle_pubrec r d))"
  unfolding mosquitto_handle_pubrec_def
proof (rule good_finish)
  have "good_step r (\<lambda>d. case with_ctx r (mqtt3_db_message_update mid mosq_md_out mosq_ms_wait_for_pubcomp) d of
         (rc, d1) \<Rightarrow>
           if rc \<noteq> MOSQ_ERR_SUCCESS then (Inr rc, d1)
           else (case with_ctx r (mosquitto_send_pubrel mid) d1 of (rc', d2) \<Rightarrow> (Inr rc', d2)))" for mid
    unfolding good_step_def
  proof (intro allI impI)
    fix d assume d: "consistent d \<and> ctx_live d r"
    obtain rc d1 where u: "with_ctx r (mqtt3_db_message_update mid mosq_md_out mosq_ms_wait_for_pubcomp) d = (rc, d1)" by fastforce
    have k1: "keeps r d d1" using keeps_ops(2) [of d r mid mosq_md_out mosq_ms_wait_for_pubcomp] d u by simp
    obtain rc' d2 where s: "with_ctx r (mosquitto_send_pubrel mid) d1 = (rc', d2)" by fastforce
    have "keeps r d1 (snd (with_ctx r (mosquitto_send_pubrel mid) d1))"
      by (rule keeps_ops(3)) (use keeps_consistent [OF k1] keeps_live [OF k1] d in simp_all)
    then have "keeps r d d2" using keeps_trans [OF k1] s by simp
    then show "keeps r d (snd (case with_ctx r (mqtt3_db_message_update mid mosq_md_out mosq_ms_wait_for_pubcomp) d of
         (rc, d1) \<Rightarrow>
           if rc \<noteq> MOSQ_ERR_SUCCESS then (Inr rc :: rc + rc, d1)
           else (case with_ctx r (mosquitto_send_pubrel mid) d1 of (rc', d2) \<Rightarrow> (Inr rc', d2))))"
      using u s k1 by simp
  qed
  then show "good_step r (next_step (read_field r mosquitto_read_uint16) (\<lambda>mid d. case with_ctx r (mqtt3_db_message_update mid mosq_md_out mosq_ms_wait_for_pubcomp) d of
         (rc, d1) \<Rightarrow>
           if rc \<noteq> MOSQ_ERR_SUCCESS then (Inr rc, d1)
           else (case with_ctx r (mosquitto_send_pubrel mid) d1 of (rc', d2) \<Rightarrow> (Inr rc', d2))))"
    by (intro good)
qed

subsection \<open>Publishing and subscribing keep it too\<close>

lemma hash_last_path: "hash_last (levels s) \<Longrightarrow> hash_last (sub_path s)"
proof (cases "take 1 s = ''$''")
  case True
  assume "hash_last (levels s)"
  moreover obtain l where "hd (levels s) = CHR ''$'' # l" using hd_levels_dollar [OF True] by blast
  ultimately show ?thesis using True by (simp add: sub_path_def tokenise_levels)
qed (simp add: sub_path_def tokenise_levels)

lemma hash_last_mounted: "wildcard_free m \<Longrightarrow> hash_last (levels s) \<Longrightarrow> hash_last (levels (m @ s))"
proof (induction m)
  case (Cons c m)
  then have "hash_last (levels (m @ s))" "c \<noteq> CHR ''#''" by simp_all
  then show ?case by (cases "levels (m @ s)") auto
qed simp

lemma mount_ok:
  assumes "mounts_ok (listeners d)" and "mount_point_of d c = Some m"
  shows "wildcard_free m" and "nul_free m"
  using assms nth_mem [of _ "listeners d"] by (auto simp: mount_point_of_def mounts_ok_def split: option.splits if_splits)

lemma mounted_topic: "mounts_ok (listeners d) \<Longrightarrow> wildcard_free t \<Longrightarrow> wildcard_free (mounted d c t)"
  using mount_ok [of d c] by (auto simp: mounted_def wildcard_free_def split: option.splits)

lemma mounted_filter: "mounts_ok (listeners d) \<Longrightarrow> hash_last (levels s) \<Longrightarrow> hash_last (sub_path (mounted d c s))"
  using mount_ok [of d c] by (auto simp: mounted_def intro!: hash_last_path hash_last_mounted split: option.splits)

lemma read_string_nul_free: "mosquitto_read_string p = (Inr s, p') \<Longrightarrow> nul_free s"
  by (auto simp: mosquitto_read_string_def nul_free_c_string split: prod.splits sum.splits if_splits)

lemma reading_string: "read_field r mosquitto_read_string d = (Inr s, e) \<Longrightarrow> nul_free s"
  by (auto simp: read_field_def dest: read_string_nul_free split: prod.splits)

text \<open>Without an id \<^verbatim>\<open>_sub_add\<close> only makes the nodes of the path.\<close>

lemma sub_add_anonymous:
  assumes "ctx_id (ctx_of d r) = None"
  shows "mqtt3_sub_add r sub qos d = (MOSQ_ERR_SUCCESS, prepared sub d)"
  using assms by (simp add: sub_add_prepared sub_add_leaf_def)

lemma sub_add_any:
  assumes "broker_inv pins d" and "ctx_live d r" and "hash_last (sub_path sub)"
  shows "broker_inv pins (snd (mqtt3_sub_add r sub qos d)) \<and> calm d (snd (mqtt3_sub_add r sub qos d))"
    and "fst (mqtt3_sub_add r sub qos d) = MOSQ_ERR_SUCCESS"
proof -
  have 1: "broker_inv pins (snd (mqtt3_sub_add r sub qos d)) \<and> calm d (snd (mqtt3_sub_add r sub qos d)) \<and>
    fst (mqtt3_sub_add r sub qos d) = MOSQ_ERR_SUCCESS"
  proof (cases "ctx_id (ctx_of d r)")
    case None
    let ?e = "prepared sub d"
    have inv: "msgs_inv pins d" "linked d" "topics_ok d" using assms(1) by (simp_all add: broker_inv_def)
    have "msgs_inv pins ?e" by (rule msgs_inv_subs [OF inv(1)]) simp_all
    moreover have "linked ?e"
      using inv(2) wf_prepared [OF linkedD(1) [OF inv(2)] assms(3)] by (simp add: linked_def)
    moreover have "topics_ok ?e" using inv(3) by (simp add: topics_ok_def)
    moreover have "calm d ?e" by (simp add: calm_def ctx_live_def) (simp add: prepared_def)
    ultimately show ?thesis by (simp add: sub_add_anonymous [OF None] broker_inv_def)
  next
    case (Some cid)
    then show ?thesis using sub_add_ok [OF assms(1,2) Some assms(3), of qos] sub_add_outcome [OF Some, of sub qos] by (metis fst_conv)
  qed
  then show "broker_inv pins (snd (mqtt3_sub_add r sub qos d)) \<and> calm d (snd (mqtt3_sub_add r sub qos d))"
    "fst (mqtt3_sub_add r sub qos d) = MOSQ_ERR_SUCCESS" by simp_all
qed

lemma pubrel_keeps:
  assumes "consistent d" and "ctx_live d r"
  obtains rc e where "mosquitto_handle_pubrel r d = Some (rc, e)" and "keeps r d e"
proof (cases "protocol (ctx_of d r) = mosq_p_mqtt311 \<and> command (in_packet (ctx_of d r)) AND 0x0F \<noteq> 2")
  case True
  then show ?thesis using that keeps_refl [OF assms(1)] by (simp add: mosquitto_handle_pubrel_def)
next
  case False
  obtain y d1 where rd: "read_field r mosquitto_read_uint16 d = (y, d1)" by fastforce
  then have k1: "keeps r d d1" using good_stepD [OF good_reading assms, of mosquitto_read_uint16] by simp
  show ?thesis
  proof (cases y)
    case (Inl e)
    show ?thesis
      by (rule that [of e d1]) (use Inl False rd k1 in \<open>auto simp: mosquitto_handle_pubrel_def\<close>)
  next
    case (Inr mid)
    have l1: "ctx_live d1 r" using keeps_live [OF k1] assms(2) by simp
    obtain rc d2 where re: "mqtt3_db_message_release r mid mosq_md_in d1 = Some (rc, d2)" "broker_inv (\<lambda>s. 0) d2" "calm d1 d2"
      using release_ends [OF consistent_parts(1) [OF keeps_consistent [OF k1]] l1, of mid 0 0 False]
      unfolding mqtt3_db_message_release_def by blast
    have k2: "keeps r d1 d2" by (rule keeps_inv [OF re(2,3) keeps_consistent [OF k1]])
    obtain rc' d3 where s: "with_ctx r (mosquitto_send_pubcomp mid) d2 = (rc', d3)" by fastforce
    have "keeps r d2 (snd (with_ctx r (mosquitto_send_pubcomp mid) d2))"
      by (rule keeps_ops(3)) (use keeps_consistent [OF k2] keeps_live [OF k2] l1 in simp_all)
    then have "keeps r d d3" using keeps_trans [OF keeps_trans [OF k1 k2]] s by simp
    then show ?thesis using that [of rc' d3] False rd Inr re(1) s by (auto simp: mosquitto_handle_pubrel_def)
  qed
qed

lemma store_find_live:
  assumes "consistent d" and "ctx_live d r" and "snd (mqtt3_db_message_store_find r mid d) = Some s"
  shows "store_live d s"
  using assms(3) queued_live [OF consistent_parts(3) [OF assms(1)] assms(2)]
  by (auto simp: mqtt3_db_message_store_find_def find_Some_iff split: option.splits)

lemma keeps_insert:
  assumes "consistent d" and "ctx_live d r" and "store_live d s"
  shows "keeps r d (snd (mqtt3_db_message_insert r mid mosq_md_in 2 retain s d))"
  using message_insert_ok [OF consistent_parts(1) [OF assms(1)] assms(2,3), of mosq_md_in 2] keeps_touches assms(1,2) by blast

lemma process_bad_keeps:
  assumes "consistent d" and "ctx_live d r"
  shows "keeps r d (snd (process_bad_message r qos mid d))"
proof -
  note send = keeps_ops(3) [OF assms]
  have pubrec: "keeps r e (snd (with_ctx r (mosquitto_send_pubrec mid) e))" if "consistent e" "ctx_live e r" for e
    by (rule keeps_ops(3) [OF that]) simp
  show ?thesis
  proof (cases "qos = 2 \<and> snd (mqtt3_db_message_store_find r mid d) = None")
    case True
    obtain s d1 where st: "mqtt3_db_message_store (ctx_id (ctx_of d r)) mid None qos [] False 0 d = (s, d1)" by fastforce
    note ok = message_store_ok [OF consistent_parts(1) [OF assms(1)] _ st]
    have k1: "keeps r d d1" by (rule keeps_inv) (use ok assms(1) in simp_all)
    have l1: "ctx_live d1 r" using keeps_live [OF k1] assms(2) by simp
    obtain res d2 where i: "mqtt3_db_message_insert r mid mosq_md_in 2 False s d1 = (res, d2)" by fastforce
    then have k2: "keeps r d1 d2" using keeps_insert [OF keeps_consistent [OF k1] l1, of s mid False] ok(2) by simp
    have k3: "keeps r d2 (snd (with_ctx r (mosquitto_send_pubrec mid) d2))"
      by (rule pubrec) (use keeps_consistent [OF k2] keeps_live [OF k2] l1 in simp_all)
    obtain rc where f: "mqtt3_db_message_store_find r mid d = (rc, None)"
      using True by (cases "mqtt3_db_message_store_find r mid d") simp
    show ?thesis
      using keeps_trans [OF k1 k2] keeps_trans [OF keeps_trans [OF k1 k2] k3] True
      by (simp add: process_bad_message_def f i st [unfolded True [THEN conjunct1]] del: One_nat_def)
  next
    case False
    then show ?thesis using pubrec [OF assms] send [of "mosquitto_send_puback mid"] keeps_refl [OF assms(1)]
      by (auto simp: process_bad_message_def split: prod.splits option.splits)
  qed
qed

lemma accept_keeps:
  assumes "consistent d" and "ctx_live d r" and "wildcard_free (p_topic p)" and "p_qos p \<le> 2"
  shows "keeps r d (snd (accept_publication r p d))"
proof -
  define found where "found = (if 0 < p_qos p then snd (mqtt3_db_message_store_find r (p_mid p) d) else None)"
  define src where "src = (case ctx_id (ctx_of d r) of Some i \<Rightarrow> i | None \<Rightarrow> [])"
  obtain s d1 where st: "(case found of Some s \<Rightarrow> (s, d)
      | None \<Rightarrow> mqtt3_db_message_store (ctx_id (ctx_of d r)) (p_mid p) (Some (p_topic p)) (p_qos p) (p_payload p) (p_retain p) 0 d) = (s, d1)"
    by fastforce
  have "keeps r d d1 \<and> store_live d1 s"
  proof (cases found)
    case None
    with st have st': "mqtt3_db_message_store (ctx_id (ctx_of d r)) (p_mid p) (Some (p_topic p)) (p_qos p) (p_payload p) (p_retain p) 0 d = (s, d1)"
      by simp
    note ok = message_store_ok [OF consistent_parts(1) [OF assms(1)] _ st']
    show ?thesis using ok assms(3) keeps_inv [OF _ _ assms(1)] by simp
  next
    case (Some s')
    then show ?thesis using st store_find_live [OF assms(1,2), of "p_mid p" s] keeps_refl [OF assms(1)]
      by (auto simp: found_def split: if_splits)
  qed
  then have k1: "keeps r d d1" and sl: "store_live d1 s" by simp_all
  have c1: "consistent d1" and l1: "ctx_live d1 r" using keeps_consistent [OF k1] keeps_live [OF k1] assms(2) by simp_all
  have next1: "keeps r d e" if "keeps r d1 e" for e using keeps_trans [OF k1 that] .
  have send: "keeps r d (snd (with_ctx r f e))" if "keeps r d1 e" "\<And>x. sends x (f x)" for f e
  proof -
    have "keeps r e (snd (with_ctx r f e))"
      by (rule keeps_ops(3)) (use keeps_consistent [OF that(1)] keeps_live [OF that(1)] l1 that(2) in simp_all)
    then show ?thesis using keeps_trans [OF next1 [OF that(1)]] by simp
  qed
  obtain ptr d2 where q: "mqtt3_db_messages_queue src (p_topic p) (p_qos p) (p_retain p) s d1 = (0, ptr, d2)"
    "broker_inv (\<lambda>s. 0) d2" "calm d1 d2"
    by (rule messages_queue_ok [OF consistent_parts(1) [OF c1] sl assms(3)])
  have k2: "keeps r d1 d2" by (rule keeps_inv [OF q(2,3) c1])
  note def = accept_publication_def Let_def found_def [symmetric] src_def [symmetric] st
  consider "p_qos p = 0" | "p_qos p = 1" | "p_qos p = 2" using assms(4) by linarith
  then show ?thesis
  proof cases
    case 1
    have "snd (accept_publication r p d) = d2" using q(1) 1 unfolding def by simp
    then show ?thesis using next1 [OF k2] by simp
  next
    case 2
    have "snd (accept_publication r p d) = snd (with_ctx r (mosquitto_send_puback (p_mid p)) d2)"
      using q(1) 2 unfolding def by (simp split: prod.splits)
    then show ?thesis using send [OF k2, of "mosquitto_send_puback (p_mid p)"] by simp
  next
    case 3
    obtain res d3 where i: "(if found = None then mqtt3_db_message_insert r (p_mid p) mosq_md_in (p_qos p) (p_retain p) s d1 else (0, d1)) = (res, d3)"
      by fastforce
    have k3: "keeps r d1 d3"
      using i keeps_insert [OF c1 l1 sl, of "p_mid p" "p_retain p"] keeps_refl [OF c1] 3 by (simp split: if_splits)
    have "snd (accept_publication r p d) = (if res = 0 then snd (with_ctx r (mosquitto_send_pubrec (p_mid p)) d3) else d3)"
      using 3 i unfolding def by (cases "found = None") (auto split: prod.splits)
    then show ?thesis using send [OF k3, of "mosquitto_send_pubrec (p_mid p)"] next1 [OF k3] by simp
  qed
qed

lemma good_body: "good_step r (publish_rest r (qos, mid, t))" if "wildcard_free t" and "qos \<le> 2"
  unfolding good_step_def
proof (intro allI impI)
  fix d assume d: "consistent d \<and> ctx_live d r"
  define p where "p = in_packet (ctx_of d r)"
  define len where "len = remaining_length p - pos p"
  define d1 where "d1 = count_pub_bytes len d"
  define topic where "topic = mounted d1 (ctx_of d1 r) t"
  have k1: "keeps r d d1"
  proof (rule keeps_inv)
    have inv: "msgs_inv (\<lambda>s. 0) d" "linked d" "topics_ok d" using consistent_parts d by blast+
    have "msgs_inv (\<lambda>s. 0) d1" by (rule msgs_inv_cong [OF inv(1)]) (simp_all add: d1_def count_pub_bytes_def)
    moreover have "linked d1" by (rule linked_frame [OF inv(2)]) (simp_all add: d1_def count_pub_bytes_def ctx_of_def)
    moreover have "topics_ok d1" using inv(3) by (simp add: topics_ok_def d1_def count_pub_bytes_def)
    ultimately show "broker_inv (\<lambda>s. 0) d1" by (simp add: broker_inv_def)
  qed (use d in \<open>simp_all add: d1_def count_pub_bytes_def calm_def ctx_live_def tables_def ctx_of_def\<close>)
  have c1: "consistent d1" and l1: "ctx_live d1 r" using keeps_consistent [OF k1] keeps_live [OF k1] d by simp_all
  have top: "wildcard_free topic"
    using mounted_topic [OF consistent_parts(6) [OF c1] that(1)] by (simp add: topic_def)
  define rest where "rest = (\<lambda>pl d2.
     let rc = mosquitto_acl_check d2 (ctx_of d2 r) topic MOSQ_ACL_WRITE
     in case (if rc = MOSQ_ERR_ACL_DENIED then process_bad_message r qos mid d2
              else if rc \<noteq> MOSQ_ERR_SUCCESS then (rc, d2)
              else accept_publication r \<lparr>p_qos = qos, p_retain = bit (command p) 0, p_mid = mid, p_topic = topic, p_payload = pl\<rparr> d2) of
          (res, d3) \<Rightarrow> (Inr res :: rc + rc, d3))"
  have rest: "good_step r (rest pl)" for pl
    unfolding good_step_def rest_def
    using accept_keeps [of _ r "\<lparr>p_qos = qos, p_retain = bit (command p) 0, p_mid = mid, p_topic = topic, p_payload = pl\<rparr>"]
      process_bad_keeps [of _ r qos mid] top that(2)
    by (auto simp: Let_def keeps_refl split: prod.splits) (metis snd_conv)+
  have "good_step r (next_step (if len \<noteq> 0 then on_error 1 (read_field r (mosquitto_read_bytes len)) else go_on []) rest)"
    using rest by (intro good)
  then have good: "keeps r d1 (snd (next_step (if len \<noteq> 0 then on_error 1 (read_field r (mosquitto_read_bytes len)) else go_on []) rest d1))"
    using good_stepD c1 l1 by blast
  have eq: "publish_rest r (qos, mid, t) d =
     (if len \<noteq> 0 \<and> message_size_limit (cfg d1) \<noteq> 0 \<and> len > message_size_limit (cfg d1)
      then (case process_bad_message r qos mid d1 of (rc, d2) \<Rightarrow> (Inr rc, d2))
      else next_step (if len \<noteq> 0 then on_error 1 (read_field r (mosquitto_read_bytes len)) else go_on []) rest d1)"
    unfolding publish_rest_def rest_def Let_def prod.case p_def [symmetric] len_def [symmetric] d1_def [symmetric] topic_def [symmetric] ..
  show "keeps r d (snd (publish_rest r (qos, mid, t) d))"
    using keeps_trans [OF k1 good] keeps_trans [OF k1 process_bad_keeps [OF c1 l1, of qos mid]]
    unfolding eq by (auto split: prod.splits)
qed

lemma good_cases [good]:
  assumes "\<And>t. good_step r (m t)"
  shows "good_step r (\<lambda>d. case f d of Inl e \<Rightarrow> (Inl e, d) | Inr t \<Rightarrow> m t d)"
  using assms by (auto simp: good_step_def keeps_refl split: sum.splits)

lemma good_let_ctx: "(\<And>x. good_step r (m x)) \<Longrightarrow> good_step r (\<lambda>d. m (f d) d)"
  by (auto simp: good_step_def)

lemma good_header: "good_step r (publish_header r)"
proof -
  have "good_step r (\<lambda>d. (\<lambda>qos. next_step (require 1 (qos \<noteq> 3)) (\<lambda>_.
         next_step (on_error 1 (read_field r mosquitto_read_string)) (\<lambda>topic.
         next_step (require 1 (topic \<noteq> [])) (\<lambda>_ d1.
           case remapped (ctx_of d1 r) topic of
             Inl e \<Rightarrow> (Inl e, d1)
           | Inr t \<Rightarrow>
               next_step (require 1 (mosquitto_pub_topic_check t = MOSQ_ERR_SUCCESS)) (\<lambda>_.
               next_step (if 0 < qos then on_error 1 (read_field r mosquitto_read_uint16) else go_on 0) (\<lambda>mid.
                 go_on (qos, mid, t))) d1)))) (header_qos (command (in_packet (ctx_of d r)))) d)"
    by (rule good_let_ctx) (intro good)
  then show ?thesis by (simp add: good_step_def publish_header_def Let_def)
qed

text \<open>A step that goes on.\<close>

lemma next_step_Inr: "next_step m k d = (Inr y, e) \<longleftrightarrow> (\<exists>x d1. m d = (Inr x, d1) \<and> k x d1 = (Inr y, e))"
  by (auto simp: next_step_def split: prod.splits sum.splits)

lemma case_Inr: "(case x of Inl e \<Rightarrow> (Inl e, d) | Inr t \<Rightarrow> m t) = (Inr y, e) \<longleftrightarrow> (\<exists>t. x = Inr t \<and> m t = (Inr y, e))"
  by (cases x) auto

lemma require_Inr: "require e b d = (Inr u, d1) \<longleftrightarrow> b \<and> d1 = d"
  by (auto simp: require_def)

lemma header_qos_le: "header_qos h \<le> 3"
proof -
  have "drop_bit 1 (h AND 0x06) = drop_bit 1 h AND (3 :: byte)" by (simp add: drop_bit_and)
  also have "\<dots> \<le> 3" by (rule word_and_le1)
  finally show ?thesis by (simp add: header_qos_def word_le_nat_alt)
qed

lemma publish_header_result:
  assumes "publish_header r d = (Inr (qos, mid, t), e)"
  shows "wildcard_free t" and "qos \<le> 2" and "qos = header_qos (command (in_packet (ctx_of d r)))"
proof -
  from assms have *: "wildcard_free t \<and> qos \<noteq> 3 \<and> qos = header_qos (command (in_packet (ctx_of d r)))"
    by (auto simp: publish_header_def Let_def next_step_Inr require_Inr go_on_def pub_topic_check_iff case_Inr)
  then show "wildcard_free t" "qos = header_qos (command (in_packet (ctx_of d r)))" by simp_all
  show "qos \<le> 2" using * header_qos_le [of "command (in_packet (ctx_of d r))"] by linarith
qed

lemma publish_keeps:
  assumes "consistent d" and "ctx_live d r"
  shows "keeps r d (snd (mqtt3_handle_publish r d))"
proof -
  obtain y e where h: "publish_header r d = (y, e)" by fastforce
  then have k: "keeps r d e" using good_stepD [OF good_header assms] by simp
  show ?thesis
  proof (cases y)
    case (Inl rc)
    then show ?thesis using h k by (simp add: mqtt3_handle_publish_def finish_def next_step_def)
  next
    case (Inr x)
    obtain qos mid t where x: "x = (qos, mid, t)" by (cases x)
    note res = publish_header_result(1,2) [OF h [unfolded Inr x]]
    have "keeps r e (snd (publish_rest r x e))"
      using good_stepD [OF good_body [OF res], of e] keeps_consistent [OF k] keeps_live [OF k] assms(2) x by simp
    then show ?thesis using keeps_trans [OF k] h Inr
      by (auto simp: mqtt3_handle_publish_def finish_def next_step_def split: prod.splits sum.splits)
  qed
qed

subsection \<open>The loops over topic filters end\<close>

text \<open>
  A packet whose length is below \<^verbatim>\<open>0x80000000\<close> (what the reader accepts is below
  \<^verbatim>\<open>0x10000000\<close>) and what is left of it. A read that succeeds takes something from it.
\<close>

definition has_room :: "packet \<Rightarrow> bool" where
  "has_room p \<longleftrightarrow> remaining_length p < 0x80000000 \<and> pos p \<le> remaining_length p"

definition left_in :: "packet \<Rightarrow> nat" where
  "left_in p = unat (remaining_length p) - unat (pos p)"

definition eats :: "'a reader \<Rightarrow> bool" where
  "eats f \<longleftrightarrow> (\<forall>p x p'. has_room p \<and> f p = (x, p') \<longrightarrow> has_room p' \<and> left_in p' \<le> left_in p \<and> (\<not> isl x \<longrightarrow> left_in p' < left_in p))"

lemma room_step:
  assumes "has_room p" and "unat n < 2 ^ 30" and "0 < n" and "\<not> pos p + n > remaining_length p"
  shows "has_room (p\<lparr>pos := pos p + n\<rparr>)" and "left_in (p\<lparr>pos := pos p + n\<rparr>) < left_in p"
proof -
  have r: "unat (remaining_length p) < 2 ^ 31" "unat (pos p) \<le> unat (remaining_length p)"
    using assms(1) by (simp_all add: has_room_def word_less_nat_alt word_le_nat_alt)
  have n: "unat (pos p + n) = unat (pos p) + unat n"
    by (rule unat_add_lem [THEN iffD1]) (use r assms(2) in simp)
  have "0 < unat n" using assms(3) by (simp add: word_less_nat_alt)
  moreover have "unat (pos p) + unat n \<le> unat (remaining_length p)"
    using assms(4) n by (simp add: word_less_nat_alt not_less)
  ultimately show "has_room (p\<lparr>pos := pos p + n\<rparr>)" "left_in (p\<lparr>pos := pos p + n\<rparr>) < left_in p"
    using assms(1) by (simp_all add: has_room_def left_in_def word_le_nat_alt n)
qed

lemma eats_byte: "eats mosquitto_read_byte"
  using room_step [of _ 1] by (auto simp: eats_def mosquitto_read_byte_def split: if_splits dest: less_imp_le)

lemma eats_uint16: "eats mosquitto_read_uint16"
  using room_step [of _ 2] by (auto simp: eats_def mosquitto_read_uint16_def Let_def add.assoc split: if_splits dest: less_imp_le)

lemma room_more:
  assumes "has_room p" and "\<not> pos p + ucast (len :: u16) > remaining_length p"
  shows "has_room (p\<lparr>pos := pos p + ucast len\<rparr>)" and "left_in (p\<lparr>pos := pos p + ucast len\<rparr>) \<le> left_in p"
proof -
  have len: "unat (ucast len :: u32) < 2 ^ 30"
    using unsigned_less [of len, where ?'a = nat] take_bit_nat_less_eq_self [of 32 "unat len"] by (simp add: unsigned_ucast_eq)
  have "has_room (p\<lparr>pos := pos p + ucast len\<rparr>) \<and> left_in (p\<lparr>pos := pos p + ucast len\<rparr>) \<le> left_in p"
  proof (cases "ucast len = (0 :: u32)")
    case True
    then show ?thesis using assms(1) by (simp add: has_room_def left_in_def)
  next
    case False
    then have "0 < (ucast len :: u32)" by (simp add: word_gt_0)
    then show ?thesis using room_step [OF assms(1) len _ assms(2)] by simp
  qed
  then show "has_room (p\<lparr>pos := pos p + ucast len\<rparr>)" "left_in (p\<lparr>pos := pos p + ucast len\<rparr>) \<le> left_in p" by simp_all
qed

lemma eats_string: "eats mosquitto_read_string"
  unfolding eats_def
proof (intro allI impI)
  fix p x p' assume a: "has_room p \<and> mosquitto_read_string p = (x, p')"
  obtain y p1 where r: "mosquitto_read_uint16 p = (y, p1)" by fastforce
  then have e: "has_room p1" "left_in p1 \<le> left_in p" "\<not> isl y \<longrightarrow> left_in p1 < left_in p"
    using eats_uint16 a by (auto simp: eats_def)
  show "has_room p' \<and> left_in p' \<le> left_in p \<and> (\<not> isl x \<longrightarrow> left_in p' < left_in p)"
  proof (cases y)
    case (Inl rc)
    then show ?thesis using a r e by (auto simp: mosquitto_read_string_def)
  next
    case (Inr len)
    then show ?thesis using a r e room_more [OF e(1), of len]
      by (auto simp: mosquitto_read_string_def split: if_splits)
  qed
qed

text \<open>
  Steps that keep the broker consistent and do not give back what was read; with \<open>b\<close>, they take
  something when they go on.
\<close>

definition takes :: "ctx_ref \<Rightarrow> bool \<Rightarrow> 'a step \<Rightarrow> bool" where
  "takes r b m \<longleftrightarrow> (\<forall>d x e. consistent d \<and> ctx_live d r \<and> has_room (in_packet (ctx_of d r)) \<and> m d = (x, e) \<longrightarrow>
     keeps r d e \<and> has_room (in_packet (ctx_of e r)) \<and> left_in (in_packet (ctx_of e r)) \<le> left_in (in_packet (ctx_of d r)) \<and>
     (b \<and> \<not> isl x \<longrightarrow> left_in (in_packet (ctx_of e r)) < left_in (in_packet (ctx_of d r))))"

lemma takesD:
  assumes "takes r b m" and "consistent d" and "ctx_live d r" and "has_room (in_packet (ctx_of d r))" and "m d = (x, e)"
  shows "keeps r d e" and "has_room (in_packet (ctx_of e r))"
    and "left_in (in_packet (ctx_of e r)) \<le> left_in (in_packet (ctx_of d r))"
    and "b \<Longrightarrow> \<not> isl x \<Longrightarrow> left_in (in_packet (ctx_of e r)) < left_in (in_packet (ctx_of d r))"
    and "consistent e" and "ctx_live e r"
proof -
  show k: "keeps r d e" "has_room (in_packet (ctx_of e r))" "left_in (in_packet (ctx_of e r)) \<le> left_in (in_packet (ctx_of d r))"
    "b \<Longrightarrow> \<not> isl x \<Longrightarrow> left_in (in_packet (ctx_of e r)) < left_in (in_packet (ctx_of d r))"
    using assms unfolding takes_def by blast+
  show "consistent e" "ctx_live e r" using keeps_consistent [OF k(1)] keeps_live [OF k(1)] assms(3) by simp_all
qed

lemma takes_next:
  assumes "takes r b m" and "\<And>x. \<lbrakk>\<exists>d e. m d = (Inr x, e)\<rbrakk> \<Longrightarrow> takes r False (k x)"
  shows "takes r b (next_step m k)"
  unfolding takes_def
proof (intro allI impI)
  fix d y f
  assume d: "consistent d \<and> ctx_live d r \<and> has_room (in_packet (ctx_of d r)) \<and> next_step m k d = (y, f)"
  obtain x e where m: "m d = (x, e)" by fastforce
  note e = takesD [OF assms(1) _ _ _ m]
  show "keeps r d f \<and> has_room (in_packet (ctx_of f r)) \<and> left_in (in_packet (ctx_of f r)) \<le> left_in (in_packet (ctx_of d r)) \<and>
     (b \<and> \<not> isl y \<longrightarrow> left_in (in_packet (ctx_of f r)) < left_in (in_packet (ctx_of d r)))"
  proof (cases x)
    case (Inl c)
    then show ?thesis using e d m by (auto simp: next_step_def)
  next
    case (Inr v)
    then have t: "takes r False (k v)" and f: "k v e = (y, f)" using assms(2) m d by (auto simp: next_step_def)
    note f = takesD [OF t _ _ _ f]
    show ?thesis using f e keeps_trans [of r d e f] d Inr by force
  qed
qed

lemma takes_reading: "eats f \<Longrightarrow> takes r b (on_error c (read_field r f))"
  unfolding takes_def
proof (intro allI impI)
  fix d x e
  assume f: "eats f" and d: "consistent d \<and> ctx_live d r \<and> has_room (in_packet (ctx_of d r)) \<and> on_error c (read_field r f) d = (x, e)"
  obtain y p where y: "f (in_packet (ctx_of d r)) = (y, p)" by fastforce
  have e: "e = upd_ctx r (\<lambda>c. c\<lparr>in_packet := p\<rparr>) d" "isl x = isl y"
    using d y by (auto simp: on_error_def read_field_def split: sum.splits)
  have "keeps r d e" unfolding e(1)
    by (rule keeps_upd) (use d in \<open>simp_all add: same_queue_def keys_def reads_on_def later_def unborn_def identity_def\<close>)
  moreover have "has_room p \<and> left_in p \<le> left_in (in_packet (ctx_of d r)) \<and> (\<not> isl y \<longrightarrow> left_in p < left_in (in_packet (ctx_of d r)))"
    using f d y unfolding eats_def by blast
  ultimately show "keeps r d e \<and> has_room (in_packet (ctx_of e r)) \<and> left_in (in_packet (ctx_of e r)) \<le> left_in (in_packet (ctx_of d r)) \<and>
     (b \<and> \<not> isl x \<longrightarrow> left_in (in_packet (ctx_of e r)) < left_in (in_packet (ctx_of d r)))" using e by simp
qed

lemma takes_quiet:
  assumes "\<And>d. consistent d \<Longrightarrow> ctx_live d r \<Longrightarrow> keeps r d (snd (m d)) \<and> in_packet (ctx_of (snd (m d)) r) = in_packet (ctx_of d r)"
  shows "takes r False m"
  unfolding takes_def
proof (intro allI impI)
  fix d x e assume d: "consistent d \<and> ctx_live d r \<and> has_room (in_packet (ctx_of d r)) \<and> m d = (x, e)"
  then show "keeps r d e \<and> has_room (in_packet (ctx_of e r)) \<and> left_in (in_packet (ctx_of e r)) \<le> left_in (in_packet (ctx_of d r)) \<and>
     (False \<and> \<not> isl x \<longrightarrow> left_in (in_packet (ctx_of e r)) < left_in (in_packet (ctx_of d r)))"
    using assms [of d] by simp
qed

lemma takes_require: "takes r False (require e b)"
  by (rule takes_quiet) (simp add: require_def keeps_refl)

lemma on_error_Inr: "on_error c m d = (Inr x, e) \<longleftrightarrow> m d = (Inr x, e)"
  by (auto simp: on_error_def split: prod.splits sum.splits)

text \<open>The body of a loop over filters, once a good filter was read.\<close>

lemma takes_filter:
  assumes "\<And>sub. nul_free sub \<Longrightarrow> mosquitto_sub_topic_check sub = MOSQ_ERR_SUCCESS \<Longrightarrow> takes r False (k sub)"
  shows "takes r True (next_step (on_error 1 (read_field r mosquitto_read_string)) (\<lambda>sub.
     next_step (require 1 (sub \<noteq> [] \<and> mosquitto_sub_topic_check sub = MOSQ_ERR_SUCCESS)) (\<lambda>_. k sub)))"
proof (rule takes_next [OF takes_reading [OF eats_string]])
  fix sub assume "\<exists>d e. on_error 1 (read_field r mosquitto_read_string) d = (Inr sub, e)"
  then have nf: "nul_free sub" using reading_string by (auto simp: on_error_Inr)
  show "takes r False (next_step (require 1 (sub \<noteq> [] \<and> mosquitto_sub_topic_check sub = MOSQ_ERR_SUCCESS)) (\<lambda>_. k sub))"
    by (rule takes_next [OF takes_require]) (use assms nf in \<open>auto simp: require_Inr\<close>)
qed

lemma unsubscribe_takes: "takes r True (unsubscribe_one r)"
  unfolding unsubscribe_one_def
proof (rule takes_filter, rule takes_quiet)
  fix sub d assume "consistent d" "ctx_live d r"
  then show "keeps r d (snd (case mqtt3_sub_remove r sub d of (rc, d1) \<Rightarrow> (Inr () :: rc + unit, d1))) \<and>
    in_packet (ctx_of (snd (case mqtt3_sub_remove r sub d of (rc, d1) \<Rightarrow> (Inr () :: rc + unit, d1))) r) = in_packet (ctx_of d r)"
    using keeps_ops(4) [of d r sub] sub_remove_packet [OF consistent_parts(4), of d r sub r] by (auto split: prod.splits)
qed

lemma subscribe_takes: "takes r True (subscribe_one r rc)"
  unfolding subscribe_one_def
proof (rule takes_filter)
  fix sub assume sub: "nul_free sub" "mosquitto_sub_topic_check sub = MOSQ_ERR_SUCCESS"
  have hl: "hash_last (levels sub)" using sub_check_levels [OF sub(1)] sub(2) hash_last_levels by simp
  let ?go = "\<lambda>qos d. let filter = mounted d (ctx_of d r) sub
       in case mqtt3_sub_add r filter (unat qos) d of
            (rc2, d1) \<Rightarrow>
              if rc2 = MOSQ_ERR_SUCCESS then
                (case mqtt3_retain_queue r filter (unat qos) d1 of
                   (rc3, d2) \<Rightarrow> (Inr (if rc3 \<noteq> 0 then 1 else rc, qos :: byte) :: rc + rc \<times> byte, d2))
              else (Inr (if rc2 \<noteq> - 1 then rc2 else rc, qos), d1)"
  have "takes r False (?go qos)" for qos
  proof (rule takes_quiet)
    fix d assume d: "consistent d" "ctx_live d r"
    define filter where "filter = mounted d (ctx_of d r) sub"
    define d1 where "d1 = snd (mqtt3_sub_add r filter (unat qos) d)"
    have fl: "hash_last (sub_path filter)"
      unfolding filter_def by (rule mounted_filter [OF consistent_parts(6) [OF d(1)] hl])
    note add = sub_add_any [OF consistent_parts(1) [OF d(1)] d(2) fl, of "unat qos"]
    have k1: "keeps r d d1" using keeps_inv add(1) d(1) by (simp add: d1_def)
    have k2: "keeps r d1 (snd (mqtt3_retain_queue r filter (unat qos) d1))"
      by (rule keeps_ops(5)) (use keeps_consistent [OF k1] keeps_live [OF k1] d in simp_all)
    have "snd (?go qos d) = snd (mqtt3_retain_queue r filter (unat qos) d1)"
      using add(2) by (cases "mqtt3_sub_add r filter (unat qos) d") (simp add: filter_def [symmetric] d1_def Let_def split: prod.splits)
    then show "keeps r d (snd (?go qos d)) \<and> in_packet (ctx_of (snd (?go qos d)) r) = in_packet (ctx_of d r)"
      using keeps_trans [OF k1 k2] retain_queue_packet [of r filter "unat qos" d1 r] sub_add_packet [of r filter "unat qos" d r]
      by (simp add: d1_def)
  qed
  then show "takes r False (next_step (on_error 1 (read_field r mosquitto_read_byte)) (\<lambda>qos.
     next_step (require 1 (qos \<le> 2)) (\<lambda>_. ?go qos)))"
    by (intro takes_next [OF takes_reading [OF eats_byte]] takes_next [OF takes_require])
qed

lemma filters_end:
  assumes "\<And>a. takes r True (one a)"
    and "\<And>a d. loop a d = (if pos (in_packet (ctx_of d r)) < remaining_length (in_packet (ctx_of d r))
      then (case one a d of (Inl e, d1) \<Rightarrow> Some (Inl e, d1) | (Inr x, d1) \<Rightarrow> loop (adv a x) d1)
      else Some (Inr (out a), d))"
    and "consistent d" and "ctx_live d r" and "has_room (in_packet (ctx_of d r))"
  shows "\<exists>y e. loop a d = Some (y, e) \<and> keeps r d e"
  using assms(3-5)
proof (induction "left_in (in_packet (ctx_of d r))" arbitrary: a d rule: less_induct)
  case less
  obtain x d1 where o: "one a d = (x, d1)" by fastforce
  note t = takesD [OF assms(1) less.prems o]
  show ?case
  proof (cases "pos (in_packet (ctx_of d r)) < remaining_length (in_packet (ctx_of d r))")
    case True
    show ?thesis
    proof (cases x)
      case (Inl e)
      have "loop a d = Some (Inl e, d1)" by (subst assms(2)) (simp add: True o Inl)
      then show ?thesis using t(1) by blast
    next
      case (Inr v)
      have l: "loop a d = loop (adv a v) d1" by (subst assms(2)) (simp add: True o Inr)
      obtain y e where "loop (adv a v) d1 = Some (y, e)" "keeps r d1 e"
        using less.hyps [of d1 "adv a v"] t Inr by auto
      then show ?thesis using l keeps_trans [OF t(1)] by auto
    qed
  next
    case False
    have "loop a d = Some (Inr (out a), d)" by (subst assms(2)) (simp add: False)
    then show ?thesis using keeps_refl [OF less.prems(1)] by auto
  qed
qed

lemma subscribe_loop_ends:
  assumes "consistent d" and "ctx_live d r" and "has_room (in_packet (ctx_of d r))"
  obtains y e where "subscribe_loop r rc granted d = Some (y, e)" and "keeps r d e"
proof -
  have "\<exists>y e. (\<lambda>a. subscribe_loop r (fst a) (snd a)) (rc, granted) d = Some (y, e) \<and> keeps r d e"
  proof (rule filters_end [where one = "\<lambda>a. subscribe_one r (fst a)" and adv = "\<lambda>a x. (fst x, snd a @ [snd x])" and out = "\<lambda>a. a",
      OF subscribe_takes _ assms])
    show "subscribe_loop r (fst a) (snd a) d =
      (if pos (in_packet (ctx_of d r)) < remaining_length (in_packet (ctx_of d r))
       then (case subscribe_one r (fst a) d of
               (Inl e, d1) \<Rightarrow> Some (Inl e, d1)
             | (Inr x, d1) \<Rightarrow> subscribe_loop r (fst (fst x, snd a @ [snd x])) (snd (fst x, snd a @ [snd x])) d1)
       else Some (Inr a, d))" for a d
      by (subst subscribe_loop.simps) (simp add: case_prod_beta split: sum.split)
  qed
  then show ?thesis using that by auto
qed

lemma unsubscribe_loop_ends:
  assumes "consistent d" and "ctx_live d r" and "has_room (in_packet (ctx_of d r))"
  obtains y e where "unsubscribe_loop r d = Some (y, e)" and "keeps r d e"
proof -
  have "\<exists>y e. (\<lambda>u :: unit. unsubscribe_loop r) () d = Some (y, e) \<and> keeps r d e"
  proof (rule filters_end [where one = "\<lambda>u. unsubscribe_one r" and adv = "\<lambda>u v. ()" and out = "\<lambda>u. ()", OF unsubscribe_takes _ assms])
    show "unsubscribe_loop r d = (if pos (in_packet (ctx_of d r)) < remaining_length (in_packet (ctx_of d r))
       then (case unsubscribe_one r d of (Inl e, d1) \<Rightarrow> Some (Inl e, d1) | (Inr x, d1) \<Rightarrow> unsubscribe_loop r d1)
       else Some (Inr (), d))" for d
      by (subst unsubscribe_loop.simps) simp
  qed
  then show ?thesis using that by auto
qed

lemma keeps_persist: "consistent d \<Longrightarrow> keeps r d (d\<lparr>persistence_changes := n\<rparr>)"
proof (rule keeps_inv)
  let ?e = "d\<lparr>persistence_changes := n\<rparr>"
  assume d: "consistent d"
  have inv: "msgs_inv (\<lambda>s. 0) d" "linked d" "topics_ok d" using consistent_parts d by blast+
  have "msgs_inv (\<lambda>s. 0) ?e" by (rule msgs_inv_cong [OF inv(1)]) simp_all
  moreover have "linked ?e" by (rule linked_frame [OF inv(2)]) (simp_all add: ctx_of_def)
  moreover have "topics_ok ?e" using inv(3) by (simp add: topics_ok_def)
  ultimately show "broker_inv (\<lambda>s. 0) ?e" by (simp add: broker_inv_def)
qed (simp_all add: calm_def ctx_live_def ctx_of_def)

lemma suback_keeps:
  assumes "consistent d" and "ctx_live d r"
  shows "keeps r d (snd (suback_for r mid rc granted d))"
proof -
  obtain rc2 d1 where s: "with_ctx r (mosquitto_send_suback mid granted) d = (rc2, d1)" by fastforce
  have k: "keeps r d (snd (with_ctx r (mosquitto_send_suback mid granted) d))"
    by (rule keeps_ops(3) [OF assms]) simp
  have "keeps r d (d1\<lparr>persistence_changes := persistence_changes d1 + 1\<rparr>)"
    by (rule keeps_trans [OF k [unfolded s snd_conv] keeps_persist]) (use keeps_consistent [OF k] s in simp)
  then show ?thesis using s keeps_refl [OF assms(1)] by (simp add: suback_for_def)
qed

lemma reading_mid:
  assumes "consistent d" and "ctx_live d r" and "has_room (in_packet (ctx_of d r))"
    and "on_error 1 (read_field r mosquitto_read_uint16) d = (x, d1)"
  shows "keeps r d d1" and "consistent d1" and "ctx_live d1 r" and "has_room (in_packet (ctx_of d1 r))"
  using takesD [OF takes_reading [OF eats_uint16] assms] by blast+

lemma subscribe_keeps:
  assumes "consistent d" and "ctx_live d r" and "has_room (in_packet (ctx_of d r))"
  obtains rc e where "mqtt3_handle_subscribe r d = Some (rc, e)" and "keeps r d e"
proof (cases "bad_flags (ctx_of d r)")
  case True
  then show ?thesis using that keeps_refl [OF assms(1)] by (simp add: mqtt3_handle_subscribe_def)
next
  case False
  obtain x d1 where m: "on_error 1 (read_field r mosquitto_read_uint16) d = (x, d1)" by fastforce
  note d1 = reading_mid [OF assms m]
  show ?thesis
  proof (cases x)
    case (Inl e)
    show ?thesis by (rule that [OF _ d1(1), of e]) (simp add: mqtt3_handle_subscribe_def False m Inl)
  next
    case (Inr mid)
    obtain y d2 where l: "subscribe_loop r 0 [] d1 = Some (y, d2)" and k: "keeps r d1 d2"
      by (rule subscribe_loop_ends [OF d1(2-4)])
    have h: "mqtt3_handle_subscribe r d = Some (case y of Inl e \<Rightarrow> (e, d2) | Inr (rc, granted) \<Rightarrow> suback_for r mid rc granted d2)"
      by (simp add: mqtt3_handle_subscribe_def False m Inr l)
    have "keeps r d2 (snd (suback_for r mid rc granted d2))" for rc granted
      by (rule suback_keeps) (use keeps_consistent [OF k] keeps_live [OF k] d1(3) in simp_all)
    then have "keeps r d (snd (case y of Inl e \<Rightarrow> (e, d2) | Inr (rc, granted) \<Rightarrow> suback_for r mid rc granted d2))"
      using keeps_trans [OF keeps_trans [OF d1(1) k]] keeps_trans [OF d1(1) k] by (auto split: sum.split)
    then show ?thesis using that h by (metis prod.collapse)
  qed
qed

lemma unsubscribe_keeps:
  assumes "consistent d" and "ctx_live d r" and "has_room (in_packet (ctx_of d r))"
  obtains rc e where "mqtt3_handle_unsubscribe r d = Some (rc, e)" and "keeps r d e"
proof (cases "bad_flags (ctx_of d r)")
  case True
  then show ?thesis using that keeps_refl [OF assms(1)] by (simp add: mqtt3_handle_unsubscribe_def)
next
  case False
  obtain x d1 where m: "on_error 1 (read_field r mosquitto_read_uint16) d = (x, d1)" by fastforce
  note d1 = reading_mid [OF assms m]
  show ?thesis
  proof (cases x)
    case (Inl e)
    show ?thesis by (rule that [OF _ d1(1), of e]) (simp add: mqtt3_handle_unsubscribe_def False m Inl)
  next
    case (Inr mid)
    obtain y d2 where l: "unsubscribe_loop r d1 = Some (y, d2)" and k: "keeps r d1 d2"
      by (rule unsubscribe_loop_ends [OF d1(2-4)])
    define d3 where "d3 = d2\<lparr>persistence_changes := persistence_changes d2 + 1\<rparr>"
    have k2: "keeps r d d2" by (rule keeps_trans [OF d1(1) k])
    have k3: "keeps r d d3" unfolding d3_def by (rule keeps_trans [OF k2 keeps_persist [OF keeps_consistent [OF k]]])
    let ?send = "with_ctx r (mosquitto_send_command_with_mid UNSUBACK mid False) d3"
    have h: "mqtt3_handle_unsubscribe r d = Some (case y of Inl e \<Rightarrow> (e, d2) | Inr u \<Rightarrow> ?send)"
      by (simp add: mqtt3_handle_unsubscribe_def False m Inr l d3_def split: sum.split)
    have "keeps r d3 (snd ?send)"
      by (rule keeps_ops(3)) (use keeps_consistent [OF k3] keeps_live [OF k3] assms(2) in simp_all)
    then have "keeps r d (snd (case y of Inl e \<Rightarrow> (e, d2) | Inr u \<Rightarrow> ?send))"
      using keeps_trans [OF k3] k2 by (auto split: sum.split)
    then show ?thesis using that h by (metis prod.collapse)
  qed
qed

subsection \<open>What is refused, and what a refusal leaves alone\<close>

text \<open>What makes the head of a PUBLISH wrong.\<close>

definition malformed_publish :: "packet \<Rightarrow> bool" where
  "malformed_publish p \<longleftrightarrow> header_qos (command p) = 3 \<or>
     (case mosquitto_read_string p of
        (Inl e, p1) \<Rightarrow> True
      | (Inr t, p1) \<Rightarrow> t = [] \<or> \<not> wildcard_free t \<or> (0 < header_qos (command p) \<and> isl (fst (mosquitto_read_uint16 p1))))"

lemma read_string_length:
  assumes "mosquitto_read_string p = (Inr t, p')"
  shows "length t \<le> 65535"
proof -
  have c: "length (c_string bs) \<le> length bs" for bs by (simp add: c_string_def length_takeWhile_le)
  obtain len :: u16 and bs where t: "t = c_string (take (unat len) bs)"
    using assms by (auto simp: mosquitto_read_string_def split: prod.splits sum.splits if_splits)
  have "length t \<le> unat len" using c [of "take (unat len) bs"] by (simp add: t)
  then show ?thesis using unsigned_less [of len, where ?'a = nat] by simp
qed

lemma remapped_none: "bridge c = None \<Longrightarrow> remapped c t = Inr t"
  by (simp add: remapped_def)

text \<open>
  A malformed PUBLISH is refused without effect. When the QoS bits are 3, when the topic is
  missing, empty or has a wildcard, or when the message id of a publication with QoS is missing,
  \<^verbatim>\<open>mqtt3_handle_publish\<close> returns 1 and nothing but the read position of the packet of a client
  that is no bridge has changed: nothing is stored, queued, retained, acknowledged or counted.
\<close>

theorem malformed_publish_refused:
  assumes "bridge (ctx_of d r) = None" and "malformed_publish (in_packet (ctx_of d r))"
  shows "\<exists>e. mqtt3_handle_publish r d = (1, e) \<and> (e = d \<or> (\<exists>p. e = upd_ctx r (\<lambda>c. c\<lparr>in_packet := p\<rparr>) d))"
proof (cases "header_qos (command (in_packet (ctx_of d r))) = 3")
  case True
  then show ?thesis
    by (simp add: mqtt3_handle_publish_def publish_header_def finish_def next_step_def require_def Let_def)
next
  case False
  note defs = mqtt3_handle_publish_def publish_header_def finish_def next_step_def require_def on_error_def read_field_def Let_def
  obtain x p1 where s: "mosquitto_read_string (in_packet (ctx_of d r)) = (x, p1)" by fastforce
  show ?thesis
  proof (cases x)
    case (Inl e)
    then show ?thesis using False s by (auto simp: defs)
  next
    case (Inr t)
    define d1 where "d1 = upd_ctx r (\<lambda>c. c\<lparr>in_packet := p1\<rparr>) d"
    have d1: "in_packet (ctx_of d1 r) = p1" "bridge (ctx_of d1 r) = None" using assms(1) by (simp_all add: d1_def)
    have len: "length t \<le> 65535" using read_string_length s Inr by simp
    show ?thesis
    proof (cases "t = [] \<or> \<not> wildcard_free t")
      case True
      have "mqtt3_handle_publish r d = (1, d1)"
        using True False s Inr remapped_none [OF d1(2), of t] len
        by (auto simp: defs pub_topic_check_iff simp flip: d1_def)
      then show ?thesis by (auto simp: d1_def)
    next
      case ok: False
      obtain y p2 where m: "mosquitto_read_uint16 p1 = (y, p2)" by fastforce
      have q: "0 < header_qos (command (in_packet (ctx_of d r)))" "isl y"
        using assms(2) False s Inr ok m by (simp_all add: malformed_publish_def)
      obtain e' where "y = Inl e'" using q(2) by (cases y) simp_all
      then have "mqtt3_handle_publish r d = (1, upd_ctx r (\<lambda>c. c\<lparr>in_packet := p2\<rparr>) d1)"
        using ok False s Inr remapped_none [OF d1(2), of t] len m q(1) d1(1)
        by (auto simp: defs pub_topic_check_iff simp flip: d1_def)
      moreover have "upd_ctx r (\<lambda>c. c\<lparr>in_packet := p2\<rparr>) d1 = upd_ctx r (\<lambda>c. c\<lparr>in_packet := p2\<rparr>) d"
        by (simp add: d1_def put_ctx_def upd_ctx_def ctx_of_def)
      ultimately show ?thesis by auto
    qed
  qed
qed

text \<open>Only one client is concerned: the tree and every other client stay as they are.\<close>

definition alone :: "ctx_ref \<Rightarrow> db \<Rightarrow> db \<Rightarrow> bool" where
  "alone r d e \<longleftrightarrow> subs e = subs d \<and> retained_count e = retained_count d \<and> (\<forall>q. q \<noteq> r \<longrightarrow> contexts e q = contexts d q)"

lemma alone_refl [simp]: "alone r d d"
  by (simp add: alone_def)

lemma alone_trans: "alone r d e \<Longrightarrow> alone r e f \<Longrightarrow> alone r d f"
  by (simp add: alone_def)

lemma alone_upd [simp]: "alone r d (upd_ctx r f d)" "alone r d (count_pub_bytes n d)"
  by (simp_all add: alone_def upd_ctx_def put_ctx_def count_pub_bytes_def)

lemma alone_with: "alone r d (snd (with_ctx r f d))" "msg_store (snd (with_ctx r f d)) = msg_store d"
  by (simp_all add: alone_def with_ctx_def put_ctx_def split: prod.splits)

lemma alone_store:
  assumes "mqtt3_db_message_store source smid topic qos pl retain sid d = (s, e)"
  shows "alone r d e" and "contexts e = contexts d"
  using assms by (auto simp: alone_def mqtt3_db_message_store_def fresh_ptr_def Let_def msg_store_add_def)

lemma retained_count_link: "retained_count (link_msg r s mk d) = retained_count d"
proof -
  obtain p d1 where f: "fresh_ptr d = (p, d1)" by fastforce
  then have "retained_count d1 = retained_count d" by (auto simp: fresh_ptr_def)
  then show ?thesis
    by (simp add: link_msg_def f Let_def put_ctx_def upd_store_def set_fault_def split: prod.splits)
qed

lemma alone_insert: "alone r d (snd (mqtt3_db_message_insert r mid dir qos retain s d))"
proof -
  have "retained_count (snd (mqtt3_db_message_insert r mid dir qos retain s d)) = retained_count d"
    by (auto simp: mqtt3_db_message_insert_def retained_count_link mark_dropping_def set_fault_def upd_ctx_def put_ctx_def
        count_change_def add_dest_def upd_store_def split: option.splits sum.splits prod.splits)
  then show ?thesis
    using insert_frame(1) [of r mid dir qos retain s d] insert_frame(2) [of _ r mid dir qos retain s d]
    by (simp add: alone_def view_def)
qed

lemma sends_msgs:
  assumes "sends (glob d, ctx_of d r) (f (glob d, ctx_of d r))"
  shows "msgs (ctx_of (snd (with_ctx r f d)) r) = msgs (ctx_of d r)"
proof -
  obtain rc g c where f: "f (glob d, ctx_of d r) = (rc, g, c)" by (cases "f (glob d, ctx_of d r)")
  then have "same_but_output (ctx_of d r) c" using assms by (simp add: sends_def)
  then show ?thesis using f by (cases c; cases "ctx_of d r") (simp add: with_ctx_def same_but_output_def)
qed

lemma process_bad_alone:
  shows "alone r d (snd (process_bad_message r qos mid d))"
    and "qos \<le> 1 \<Longrightarrow> msg_store (snd (process_bad_message r qos mid d)) = msg_store d"
    and "qos \<le> 1 \<Longrightarrow> msgs (ctx_of (snd (process_bad_message r qos mid d)) r) = msgs (ctx_of d r)"
proof -
  show "alone r d (snd (process_bad_message r qos mid d))"
  proof (cases "qos = 2 \<and> snd (mqtt3_db_message_store_find r mid d) = None")
    case True
    obtain rc where f: "mqtt3_db_message_store_find r mid d = (rc, None)"
      using True by (cases "mqtt3_db_message_store_find r mid d") simp
    obtain s d1 where st: "mqtt3_db_message_store (ctx_id (ctx_of d r)) mid None 2 [] False 0 d = (s, d1)" by fastforce
    obtain res d2 where i: "mqtt3_db_message_insert r mid mosq_md_in 2 False s d1 = (res, d2)" by fastforce
    have "alone r d d2" using alone_trans [OF alone_store(1) [OF st]] alone_insert [of r d1 mid mosq_md_in 2 False s] i by simp
    then show ?thesis using True f st i by (auto simp: process_bad_message_def intro: alone_trans [OF _ alone_with(1)])
  next
    case False
    then show ?thesis using alone_with(1) by (auto simp: process_bad_message_def split: prod.splits option.splits)
  qed
  show "qos \<le> 1 \<Longrightarrow> msg_store (snd (process_bad_message r qos mid d)) = msg_store d"
    using alone_with(2) by (auto simp: process_bad_message_def le_Suc_eq)
  show "qos \<le> 1 \<Longrightarrow> msgs (ctx_of (snd (process_bad_message r qos mid d)) r) = msgs (ctx_of d r)"
    using sends_msgs [of d r "mosquitto_send_puback mid"] by (auto simp: process_bad_message_def le_Suc_eq)
qed

lemma acl_check_frame:
  assumes "acl_list e = acl_list d" and "acl_patterns e = acl_patterns d" and "auth_plugin e = auth_plugin d"
  shows "mosquitto_acl_check e (c\<lparr>in_packet := p\<rparr>) t a = mosquitto_acl_check d c t a"
  by (simp add: mosquitto_acl_check_def mosquitto_acl_check_default_def assms split: option.split prod.split)

lemma publish_header_alone: "alone r d (snd (publish_header r d))"
proof -
  have rd: "alone r d0 (snd (read_field r h d0))" "alone r d0 (snd (on_error c (read_field r h) d0))" for d0 h c
    by (auto simp: read_field_def on_error_def split: prod.splits sum.splits)
  have n: "alone r d0 (snd (next_step m k d0))"
    if "alone r d0 (snd (m d0))" "\<And>x d1. alone r d1 (snd (k x d1))" for m :: "'a step" and k :: "'a \<Rightarrow> 'b step" and d0
    using that alone_trans by (auto simp: next_step_def split: prod.splits sum.splits)
  show ?thesis
    unfolding publish_header_def Let_def
    by (intro n rd) (auto simp: require_def intro!: n rd split: sum.splits simp: go_on_def)
qed

text \<open>The access check looks at neither the traffic counters nor the packet that is being read.\<close>

lemma denied_while_reading:
  assumes "mosquitto_acl_check e (ctx_of e r) topic MOSQ_ACL_WRITE = MOSQ_ERR_ACL_DENIED \<or> ctx_id (ctx_of e r) = None"
    and "d = count_pub_bytes len e \<or> (\<exists>p. d = upd_ctx r (\<lambda>c. c\<lparr>in_packet := p\<rparr>) (count_pub_bytes len e))"
  shows "mosquitto_acl_check d (ctx_of d r) topic MOSQ_ACL_WRITE = MOSQ_ERR_ACL_DENIED"
proof -
  have c: "mosquitto_acl_check e (ctx_of e r) topic MOSQ_ACL_WRITE = MOSQ_ERR_ACL_DENIED"
    using assms(1) by (auto simp: mosquitto_acl_check_def)
  have same: "ctx_of (count_pub_bytes len e) = ctx_of e" by (auto simp: count_pub_bytes_def ctx_of_def fun_eq_iff)
  have "\<exists>p. ctx_of d r = (ctx_of e r)\<lparr>in_packet := p\<rparr>"
    using assms(2)
  proof
    assume "d = count_pub_bytes len e"
    then show ?thesis by (intro exI [of _ "in_packet (ctx_of e r)"]) (simp add: same)
  qed (auto simp: same)
  then obtain p where p: "ctx_of d r = (ctx_of e r)\<lparr>in_packet := p\<rparr>" by blast
  have "acl_list d = acl_list e" "acl_patterns d = acl_patterns e" "auth_plugin d = auth_plugin e"
    using assms(2) by (auto simp: count_pub_bytes_def upd_ctx_def put_ctx_def)
  then show ?thesis using c unfolding p by (subst acl_check_frame)
qed

lemma denied_publish_dropped:
  fixes qos mid
  assumes "mosquitto_acl_check e (ctx_of e r) (mounted e (ctx_of e r) t) MOSQ_ACL_WRITE = MOSQ_ERR_ACL_DENIED \<or>
    ctx_id (ctx_of e r) = None"
  defines "g \<equiv> snd (publish_rest r (qos, mid, t) e)"
  shows "alone r e g \<and> (qos \<le> 1 \<longrightarrow> msg_store g = msg_store e \<and> msgs (ctx_of g r) = msgs (ctx_of e r))"
proof -
  define len where "len = remaining_length (in_packet (ctx_of e r)) - pos (in_packet (ctx_of e r))"
  define d1 where "d1 = count_pub_bytes len e"
  define topic where "topic = mounted e (ctx_of e r) t"
  have l: "listeners d1 = listeners e" by (simp add: d1_def count_pub_bytes_def)
  have d1: "ctx_of d1 = ctx_of e" "msg_store d1 = msg_store e" "mounted d1 = mounted e" "alone r e d1"
    unfolding fun_eq_iff mounted_def mount_point_of_def l by (simp_all add: d1_def count_pub_bytes_def ctx_of_def alone_def)
  have st: "msg_store (upd_ctx r h d1) = msg_store d1" for h by (simp add: upd_ctx_def put_ctx_def)
  let ?Q = "\<lambda>g. alone r e g \<and> (qos \<le> 1 \<longrightarrow> msg_store g = msg_store e \<and> msgs (ctx_of g r) = msgs (ctx_of e r))"
  have bad: "?Q (snd (process_bad_message r qos mid d0))" if "?Q d0" for d0
    using that process_bad_alone [where r = r and d = d0 and qos = qos and mid = mid] alone_trans by (simp add: alone_def)
  note denied = denied_while_reading [OF assms(1) [folded topic_def], where len = len, folded d1_def]
  obtain y d2 where y: "(if len \<noteq> 0 then on_error 1 (read_field r (mosquitto_read_bytes len)) else go_on []) d1 = (y, d2)" by fastforce
  have d2: "d2 = d1 \<or> (\<exists>p. d2 = upd_ctx r (\<lambda>c. c\<lparr>in_packet := p\<rparr>) d1)"
    using y by (auto simp: go_on_def on_error_def read_field_def split: if_splits prod.splits sum.splits)
  have Q1: "?Q d1" by (simp add: d1)
  have Q2: "?Q d2" using d2 Q1 alone_trans [OF d1(4) alone_upd(1)] by (auto simp: st)
  have g: "g = (if len \<noteq> 0 \<and> message_size_limit (cfg d1) \<noteq> 0 \<and> len > message_size_limit (cfg d1)
      then snd (process_bad_message r qos mid d1)
      else case y of Inl c \<Rightarrow> d2 | Inr pl \<Rightarrow> snd (process_bad_message r qos mid d2))"
    unfolding g_def publish_rest_def Let_def prod.case len_def [symmetric] d1_def [symmetric] d1(1,3) topic_def [symmetric]
    using y denied [OF d2] by (auto simp: next_step_def split: prod.splits sum.splits)
  show ?thesis unfolding g using bad [OF Q1] bad [OF Q2] Q2 by (auto split: sum.splits)
qed

text \<open>
  C21. A publication that access control denies reaches nobody. If the head of the PUBLISH is in
  order and \<^verbatim>\<open>mosquitto_acl_check\<close> denies writing to the (mounted) topic, the handler changes
  neither the subscription tree with its retained messages nor any other client; with QoS 0 or 1
  the store of messages and the client's own queue stay as they are as well. A client without an
  id, one that has not connected, is always denied.
\<close>

theorem denied_publish_reaches_nobody:
  assumes "publish_header r d = (Inr (qos, mid, t), e)"
    and "mosquitto_acl_check e (ctx_of e r) (mounted e (ctx_of e r) t) MOSQ_ACL_WRITE = MOSQ_ERR_ACL_DENIED \<or>
         ctx_id (ctx_of e r) = None"
  defines "f \<equiv> snd (mqtt3_handle_publish r d)"
  shows "subs f = subs d \<and> retained_count f = retained_count d \<and> (\<forall>q. q \<noteq> r \<longrightarrow> contexts f q = contexts d q) \<and>
    (qos \<le> 1 \<longrightarrow> msg_store f = msg_store e \<and> msgs (ctx_of f r) = msgs (ctx_of e r))"
proof -
  define g where "g = snd (publish_rest r (qos, mid, t) e)"
  have f: "f = g"
    using assms(1) by (simp add: f_def g_def mqtt3_handle_publish_def finish_def next_step_def split: prod.splits sum.splits)
  have "alone r d (snd (publish_header r d))" by (rule publish_header_alone)
  then have de: "alone r d e" using assms(1) by simp
  have "alone r e g \<and> (qos \<le> 1 \<longrightarrow> msg_store g = msg_store e \<and> msgs (ctx_of g r) = msgs (ctx_of e r))"
    unfolding g_def by (rule denied_publish_dropped [OF assms(2)])
  then show ?thesis using alone_trans [OF de, of g] by (simp add: alone_def f)
qed

subsection \<open>A QoS 2 publication is stored once and held back\<close>

lemma store_find_some:
  "snd (mqtt3_db_message_store_find r mid d) = None \<longleftrightarrow>
     \<not> (\<exists>m \<in> set (msgs (ctx_of d r)). ms_source_mid (store_of d (cm_store m)) = mid \<and> cm_direction m = mosq_md_in)"
proof -
  have "snd (mqtt3_db_message_store_find r mid d) = None \<longleftrightarrow>
      find (\<lambda>m. ms_source_mid (store_of d (cm_store m)) = mid \<and> cm_direction m = mosq_md_in) (msgs (ctx_of d r)) = None"
    by (simp add: mqtt3_db_message_store_find_def split: option.split)
  then show ?thesis by (auto simp: find_None_iff)
qed

lemma ctx_of_glob: "ctx_of (d\<lparr>glob := g\<rparr>) r = ctx_of d r"
  by (simp add: ctx_of_def)

lemma accept_again:
  assumes "p_qos p = 2" and "snd (mqtt3_db_message_store_find r (p_mid p) d) \<noteq> None"
  shows "snd (accept_publication r p d) = snd (with_ctx r (mosquitto_send_pubrec (p_mid p)) d)"
  using assms by (auto simp: accept_publication_def Let_def split: prod.splits)

text \<open>The message in the queue that a QoS 2 publication leaves there until it is released.\<close>

definition awaits_release :: "globals \<Rightarrow> ctx \<Rightarrow> publication \<Rightarrow> client_msg \<Rightarrow> db \<Rightarrow> bool" where
  "awaits_release g c p m e \<longleftrightarrow> cm_direction m = mosq_md_in \<and> cm_mid m = p_mid p \<and> cm_qos m = 2 \<and> cm_retain m = p_retain p \<and>
     cm_state m = (if sock c \<noteq> INVALID_SOCKET \<and> (max_inflight g = 0 \<or> msg_count12 c < max_inflight g)
                   then mosq_ms_wait_for_pubrel else mosq_ms_queued) \<and>
     ms_topic (store_of e (cm_store m)) = Some (p_topic p) \<and> ms_payload (store_of e (cm_store m)) = p_payload p \<and>
     ms_source_mid (store_of e (cm_store m)) = p_mid p"

lemma awaits_found:
  "m \<in> set (msgs (ctx_of e r)) \<Longrightarrow> awaits_release g c p m e \<Longrightarrow> snd (mqtt3_db_message_store_find r (p_mid p) e) \<noteq> None"
  by (auto simp: mqtt3_db_message_store_find_def awaits_release_def find_None_iff split: option.split)

lemma insert_incoming:
  fixes p :: publication
  assumes "msgs_inv pins d" and "ctx_live d r" and "store_live d s" and "ctx_id (ctx_of d r) \<noteq> None"
  defines "e \<equiv> snd (mqtt3_db_message_insert r (p_mid p) mosq_md_in 2 (p_retain p) s d)"
  assumes "ms_topic (store_of d s) = Some (p_topic p)" and "ms_payload (store_of d s) = p_payload p" and "ms_source_mid (store_of d s) = p_mid p"
  shows "if room_for (cfg d) (glob d) (ctx_of d r) 2
     then \<exists>m. msgs (ctx_of e r) = msgs (ctx_of d r) @ [m] \<and> awaits_release (glob d) (ctx_of d r) p m e
     else msgs (ctx_of e r) = msgs (ctx_of d r)"
proof -
  let ?c = "ctx_of d r" and ?dup = "no_duplicates d mosq_md_in (p_retain p)"
  obtain cid where cid: "ctx_id ?c = Some cid" using assms(4) by blast
  have dup: "\<not> ?dup" by (simp add: no_duplicates_def)
  show ?thesis
  proof (cases "room_for (cfg d) (glob d) ?c 2")
    case True
    define st where "st = (if sock ?c \<noteq> INVALID_SOCKET \<and> (max_inflight (glob d) = 0 \<or> msg_count12 ?c < max_inflight (glob d))
      then mosq_ms_wait_for_pubrel else mosq_ms_queued)"
    obtain rc where i: "insert_state d ?c mosq_md_in 2 = Inr (st, rc)"
      using True by (fastforce simp: insert_state_def insert_connected_def room_for_def st_def split: if_splits)
    let ?m = "new_msg (p_mid p) mosq_md_in 2 (p_retain p) s st (now (glob d)) (next_ptr (glob d))" and ?d = "count_change st d"
    have "e = link_msg r s (new_msg (p_mid p) mosq_md_in 2 (p_retain p) s st (now (glob d))) ?d"
      using cid dup i by (simp add: e_def mqtt3_db_message_insert_def add_dest_def st_def)
    also have "\<dots> = inserted r ?m ?d"
      using link_msg_inserted [OF count_change_inv [OF assms(1)], of st r s "new_msg (p_mid p) mosq_md_in 2 (p_retain p) s st (now (glob d))"]
        assms(2-4) by (simp add: new_msg_def)
    finally have e: "e = inserted r ?m ?d" .
    have same: "store_of ?d s = store_of d s" by (rule store_of_cong) (simp add: count_change_def)
    have "store_of e s = store_of (upd_store s (\<lambda>x. x\<lparr>ms_ref_count := ms_ref_count x + 1\<rparr>) (snd (fresh_ptr ?d))) s"
      unfolding e by (rule store_of_cong) (simp add: inserted_def Let_def new_msg_def)
    moreover have "store_of (snd (fresh_ptr ?d)) s = store_of ?d s" by (rule store_of_cong) (simp add: fresh_ptr_def)
    ultimately have "awaits_release (glob d) ?c p ?m e" using assms(6-8) same
      by (simp add: awaits_release_def st_def new_msg_def store_of_upd_store)
    moreover have "msgs (ctx_of e r) = msgs ?c @ [?m]"
      by (simp add: e inserted_def Let_def check_lazy_bridge_def count_change_def ctx_of_glob split: option.split)
    ultimately show ?thesis using True by auto
  next
    case False
    then have "\<exists>x. insert_state d ?c mosq_md_in 2 = Inl x"
      by (cases "sock ?c = INVALID_SOCKET") (auto simp: insert_state_def insert_connected_def room_for_def)
    then have "e = d \<or> e = mark_dropping r d" using cid dup by (auto simp: e_def mqtt3_db_message_insert_def split: prod.splits)
    then show ?thesis using False by (auto simp: mark_dropping_def ctx_of_glob)
  qed
qed

lemma accept_repeated:
  fixes n :: nat
  assumes "p_qos p = 2" and "snd (mqtt3_db_message_store_find r (p_mid p) e) \<noteq> None"
  defines "f \<equiv> ((\<lambda>d. snd (accept_publication r p d)) ^^ n) e"
  shows "alone r e f \<and> msg_store f = msg_store e \<and> msgs (ctx_of f r) = msgs (ctx_of e r)"
  unfolding f_def
proof (induction n)
  case (Suc n)
  let ?f = "((\<lambda>d. snd (accept_publication r p d)) ^^ n) e"
  have "store_of ?f s = store_of e s" for s by (rule store_of_cong) (simp add: Suc)
  then have found: "snd (mqtt3_db_message_store_find r (p_mid p) ?f) \<noteq> None"
    using assms(2) Suc by (auto simp: mqtt3_db_message_store_find_def split: option.splits)
  show ?case using accept_again [OF assms(1) found] Suc alone_with [where r = r and d = ?f and f = "mosquitto_send_pubrec (p_mid p)"]
      sends_msgs [of ?f r "mosquitto_send_pubrec (p_mid p)"] alone_trans by (simp, blast)
qed simp

text \<open>
  C12. A QoS 2 publication is queued once and reaches nobody before it is released. Accepting one whose id is not in
  use changes neither the tree nor another client. If the client's queue has room, one message is appended to
  it, with the topic and the payload of the publication, that waits for its PUBREL or, with the window full,
  for its turn; then, however often the same publication is accepted again, nothing is stored, queued or
  changed for anybody. If there is no room, the queue stays as it was.
\<close>

theorem qos2_stored_once:
  assumes "consistent d" and "ctx_live d r" and "p_qos p = 2" and "ctx_id (ctx_of d r) \<noteq> None"
    and "snd (mqtt3_db_message_store_find r (p_mid p) d) = None"
  defines "e \<equiv> snd (accept_publication r p d)"
  defines "again \<equiv> \<lambda>n. ((\<lambda>d. snd (accept_publication r p d)) ^^ n) e"
  shows "subs e = subs d \<and> (\<forall>q. q \<noteq> r \<longrightarrow> contexts e q = contexts d q) \<and>
    (if room_for (cfg d) (glob d) (ctx_of d r) 2
     then (\<exists>m. msgs (ctx_of e r) = msgs (ctx_of d r) @ [m] \<and> awaits_release (glob d) (ctx_of d r) p m e) \<and>
       (\<forall>n. subs (again n) = subs d \<and> (\<forall>q. q \<noteq> r \<longrightarrow> contexts (again n) q = contexts d q) \<and>
            msg_store (again n) = msg_store e \<and> msgs (ctx_of (again n) r) = msgs (ctx_of e r))
     else msgs (ctx_of e r) = msgs (ctx_of d r))"
proof -
  obtain s d1 where st: "mqtt3_db_message_store (ctx_id (ctx_of d r)) (p_mid p) (Some (p_topic p)) 2 (p_payload p) (p_retain p) 0 d = (s, d1)"
    by fastforce
  note c1 = alone_store [OF st]
  have inv: "msgs_inv (\<lambda>s. 0) d1" "store_live d1 s" "ms_topic (store_of d1 s) = Some (p_topic p)" "ms_payload (store_of d1 s) = p_payload p"
    using message_store_inv [OF consistent_parts(3) [OF assms(1)] st] by blast+
  have ctx: "ctx_of d1 r = ctx_of d r" and live: "ctx_live d1 r" using assms(2) c1(2) by (simp_all add: ctx_live_def ctx_of_def)
  have mid: "ms_source_mid (store_of d1 s) = p_mid p" and g: "cfg d1 = cfg d" "max_inflight (glob d1) = max_inflight (glob d)"
      "max_queued (glob d1) = max_queued (glob d)"
    using st by (auto simp: mqtt3_db_message_store_def fresh_ptr_def Let_def msg_store_add_def store_of_def)
  obtain res d2 where i: "mqtt3_db_message_insert r (p_mid p) mosq_md_in 2 (p_retain p) s d1 = (res, d2)" by fastforce
  have d2: "alone r d d2" using alone_trans [OF c1(1)] alone_insert [of r d1 "p_mid p" mosq_md_in 2 "p_retain p" s] i by simp
  have e: "e = (if res = 0 then snd (with_ctx r (mosquitto_send_pubrec (p_mid p)) d2) else d2)"
    using assms(3,5) st i by (auto simp: e_def accept_publication_def Let_def split: prod.splits)
  have de: "alone r d e" using d2 e by (auto intro: alone_trans [OF _ alone_with(1)])
  have m: "msgs (ctx_of e r) = msgs (ctx_of d2 r)" unfolding e using sends_msgs [of d2 r "mosquitto_send_pubrec (p_mid p)"] by simp
  have "store_of e x = store_of d2 x" for x unfolding e by (rule store_of_cong) (simp add: alone_with(2))
  then have aw: "awaits_release (glob d1) (ctx_of d r) p x d2 = awaits_release (glob d) (ctx_of d r) p x e" for x
    by (simp add: awaits_release_def g)
  have room: "room_for (cfg d1) (glob d1) (ctx_of d r) 2 = room_for (cfg d) (glob d) (ctx_of d r) 2" by (simp add: room_for_def g)
  note ins = insert_incoming [OF inv(1) live inv(2) _ inv(3,4) mid, unfolded i snd_conv ctx aw room, OF assms(4)]
  have "alone r d (again n) \<and> msg_store (again n) = msg_store e \<and> msgs (ctx_of (again n) r) = msgs (ctx_of e r)"
    if "room_for (cfg d) (glob d) (ctx_of d r) 2" for n
  proof -
    have "\<exists>x. msgs (ctx_of e r) = msgs (ctx_of d r) @ [x] \<and> awaits_release (glob d) (ctx_of d r) p x e"
      using ins that by (simp add: m)
    then obtain x where "msgs (ctx_of e r) = msgs (ctx_of d r) @ [x]" "awaits_release (glob d) (ctx_of d r) p x e" by blast
    then have "x \<in> set (msgs (ctx_of e r))" "awaits_release (glob d) (ctx_of d r) p x e" by simp_all
    then show ?thesis using accept_repeated [OF assms(3) awaits_found, of x e r _ _ n] alone_trans [OF de] by (auto simp: again_def)
  qed
  then show ?thesis using ins de m by (simp add: alone_def)
qed

subsection \<open>Disconnecting\<close>

lemma not_disused:
  assumes "consistent d" and "state (ctx_of d r) \<noteq> mosq_cs_disconnected"
  shows "r \<notin> set (ll_for_free d)"
  using assms by (auto simp: consistent_def clients_ok_def disused_ok_def)

lemma consistent_state:
  assumes "consistent d" and "ctx_live d r" and "state (ctx_of d r) \<noteq> mosq_cs_disconnected"
  shows "consistent (upd_ctx r (\<lambda>c. c\<lparr>state := st\<rparr>) d)"
proof -
  have "broker_inv (\<lambda>s. 0) (upd_ctx r (\<lambda>c. c\<lparr>state := st\<rparr>) d)"
    by (rule broker_inv_upd [OF consistent_parts(1) [OF assms(1)] assms(2)]) (use assms(3) in \<open>simp_all add: same_queue_def keys_def\<close>)
  moreover have "clients_ok (upd_ctx r (\<lambda>c. c\<lparr>state := st\<rparr>) d)"
    by (rule clients_upd [OF consistent_parts(2) [OF assms(1)] assms(2)])
      (use assms not_disused [OF assms(1,3)] consistent_parts(2) [OF assms(1)] in \<open>auto simp: clients_ok_def wills_ok_def\<close>)
  ultimately show ?thesis by (simp add: consistent_def)
qed

text \<open>The packet of a clean DISCONNECT.\<close>

definition clean_disconnect :: "ctx \<Rightarrow> bool" where
  "clean_disconnect c \<longleftrightarrow> remaining_length (in_packet c) = 0 \<and>
     (protocol c = mosq_p_mqtt311 \<longrightarrow> command (in_packet c) AND 0x0F = 0)"

text \<open>
  C38. A clean DISCONNECT ends the session without the will. For a client that is not yet
  disconnected, \<^verbatim>\<open>mqtt3_handle_disconnect\<close> succeeds, keeps the broker consistent, publishes
  nothing (the tree with its retained messages and every other client stay as they are), forgets
  the will, closes the socket and removes it from the table of sockets; the client goes to the
  list of contexts to be freed, and loses its id, exactly when its session is clean and it is no
  bridge. The queue and the subscriptions of a client with a lasting session are kept.
\<close>

theorem disconnect_without_will:
  assumes "consistent d" and "ctx_live d r" and "clean_disconnect (ctx_of d r)"
    and "state (ctx_of d r) \<noteq> mosq_cs_disconnected"
  defines "e \<equiv> snd (mqtt3_handle_disconnect r d)" and "c \<equiv> ctx_of d r"
  shows "fst (mqtt3_handle_disconnect r d) = MOSQ_ERR_SUCCESS \<and> consistent e \<and> subs e = subs d \<and>
    (\<forall>q. q \<noteq> r \<longrightarrow> ctx_of e q = ctx_of d q) \<and> will (ctx_of e r) = None \<and> sock (ctx_of e r) < 0 \<and>
    contexts_by_sock e = filter (\<lambda>(k, q). q \<noteq> r) (contexts_by_sock d) \<and>
    (r \<in> set (ll_for_free e) \<longleftrightarrow> clean_session c \<and> bridge c = None) \<and>
    ctx_id (ctx_of e r) = (if clean_session c \<and> bridge c = None then None else ctx_id c) \<and>
    msgs (ctx_of e r) = msgs c \<and> ctx_subs (ctx_of e r) = ctx_subs c"
proof -
  define d1 where "d1 = upd_ctx r (\<lambda>c. c\<lparr>state := mosq_cs_disconnecting\<rparr>) d"
  have e: "mqtt3_handle_disconnect r d = (MOSQ_ERR_SUCCESS, do_disconnect r d1)"
    using assms(3) by (auto simp: mqtt3_handle_disconnect_def Let_def clean_disconnect_def d1_def)
  note free = not_disused [OF assms(1,4)]
  have c1: "consistent d1" unfolding d1_def by (rule consistent_state [OF assms(1,2,4)])
  have ctx: "ctx_of d1 r = c\<lparr>state := mosq_cs_disconnecting\<rparr>" "\<And>q. q \<noteq> r \<Longrightarrow> ctx_of d1 q = ctx_of d q"
    by (simp_all add: d1_def c_def)
  have same: "subs d1 = subs d" "ll_for_free d1 = ll_for_free d" "contexts_by_sock d1 = contexts_by_sock d"
    by (simp_all add: d1_def upd_ctx_def put_ctx_def)
  have live: "ctx_live d1 r" using assms(2) by (simp add: d1_def)
  have st: "state (ctx_of d1 r) \<noteq> mosq_cs_disconnected" "state (ctx_of d1 r) = mosq_cs_disconnecting" by (simp_all add: ctx)
  note silent = do_disconnect_silent [OF consistent_parts(2,1) [OF c1] live st(1) disjI2 [OF st(2)]]
  note ok = do_disconnect_ok [OF consistent_parts(2,1) [OF c1] live st(1)]
  have "e = do_disconnect r d1" by (simp add: e_def e)
  then show ?thesis
    using silent ok(1,2,4,6) free by (auto simp: e consistent_def ctx same)
qed

subsection \<open>Every handler returns\<close>

text \<open>
  The handlers with loops return. For a consistent broker and a packet shorter than
  \<^verbatim>\<open>0x80000000\<close>, which all packets the reader hands over are, the loops of
  \<^verbatim>\<open>mqtt3_handle_subscribe\<close> and \<^verbatim>\<open>mqtt3_handle_unsubscribe\<close> over the filters and of
  \<^verbatim>\<open>mosquitto_handle_pubrel\<close> over the queue end whatever the packet holds, and leave a consistent
  broker in which no client has been added or removed and every client has its identity.
\<close>

theorem filter_handlers_return:
  assumes "consistent d" and "ctx_live d r" and "has_room (in_packet (ctx_of d r))"
  shows "\<exists>rc1 e1 rc2 e2 rc3 e3. mqtt3_handle_subscribe r d = Some (rc1, e1) \<and> keeps r d e1 \<and>
    mqtt3_handle_unsubscribe r d = Some (rc2, e2) \<and> keeps r d e2 \<and>
    mosquitto_handle_pubrel r d = Some (rc3, e3) \<and> keeps r d e3"
  using subscribe_keeps [OF assms] unsubscribe_keeps [OF assms] pubrel_keeps [OF assms(1,2)] by metis

subsection \<open>Samples\<close>

definition packet_db :: "packet \<Rightarrow> db" where
  "packet_db p = upd_ctx 7 (\<lambda>c. c\<lparr>in_packet := p\<rparr>) client_db"

lemma packet_db_facts:
  "consistent (packet_db p)" "ctx_live (packet_db p) 7" "in_packet (ctx_of (packet_db p) 7) = p"
  "ctx_id (ctx_of (packet_db p) 7) = Some ''c1''" "bridge (ctx_of (packet_db p) 7) = None"
  "state (ctx_of (packet_db p) 7) = mosq_cs_connected" "protocol (ctx_of (packet_db p) 7) = mosq_p_invalid"
  "msgs (ctx_of (packet_db p) 7) = msgs sample_ctx" "msg_store (packet_db p) = [(2, sample_store)]"
proof -
  have c: "consistent client_db" using client_db_facts(1,2) by (simp add: consistent_def)
  have l: "ctx_live client_db 7" by (simp add: client_db_facts(3))
  have "keeps 7 client_db (packet_db p)"
    unfolding packet_db_def by (rule keeps_upd [OF c l]) (simp_all add: same_queue_def keys_def reads_on_def later_def unborn_def identity_def)
  then show "consistent (packet_db p)" "ctx_live (packet_db p) 7" using keeps_consistent keeps_live l by auto
  show "in_packet (ctx_of (packet_db p) 7) = p" "ctx_id (ctx_of (packet_db p) 7) = Some ''c1''"
    "bridge (ctx_of (packet_db p) 7) = None" "state (ctx_of (packet_db p) 7) = mosq_cs_connected"
    by (simp_all add: packet_db_def client_db_facts(4) sub_db_client)
  show "protocol (ctx_of (packet_db p) 7) = mosq_p_invalid" "msgs (ctx_of (packet_db p) 7) = msgs sample_ctx"
    using arg_cong [OF sub_db_facts(6), of protocol] arg_cong [OF sub_db_facts(6), of msgs]
    by (simp_all add: packet_db_def client_db_facts(4) sample_ctx_def ctx_zero_def)
  show "msg_store (packet_db p) = [(2, sample_store)]"
    by (simp add: packet_db_def upd_ctx_def put_ctx_def client_db_facts(5) sub_db_facts(9))
qed

theorem filter_handlers_return_witness:
  "\<exists>rc e. mqtt3_handle_subscribe 7 (packet_db (packet_zero\<lparr>command := 0x82, remaining_length := 4, payload := [0, 9, 0, 1]\<rparr>)) = Some (rc, e)
     \<and> consistent e"
  using filter_handlers_return [OF packet_db_facts(1,2), of "packet_zero\<lparr>command := 0x82, remaining_length := 4, payload := [0, 9, 0, 1]\<rparr>"]
  by (auto simp: packet_db_facts(3) has_room_def packet_zero_def keeps_def)

text \<open>A publication to the topic \<^verbatim>\<open>a#\<close>, with QoS 0.\<close>

theorem malformed_publish_refused_witness:
  "\<exists>e. mqtt3_handle_publish 7 (packet_db (packet_zero\<lparr>command := 0x30, remaining_length := 4, payload := [0, 2, 97, 35]\<rparr>)) = (1, e) \<and>
     subs e = subs client_db"
proof -
  let ?p = "packet_zero\<lparr>command := 0x30, remaining_length := 4, payload := [0, 2, 97, 35]\<rparr>"
  have s: "mosquitto_read_string ?p = (Inr ''a#'', ?p\<lparr>pos := 4\<rparr>)"
    by code_simp
  have "malformed_publish ?p" by (simp add: malformed_publish_def s wildcard_free_def)
  then obtain e where e: "mqtt3_handle_publish 7 (packet_db ?p) = (1, e)"
    "e = packet_db ?p \<or> (\<exists>p. e = upd_ctx 7 (\<lambda>c. c\<lparr>in_packet := p\<rparr>) (packet_db ?p))"
    using malformed_publish_refused [of "packet_db ?p" 7] packet_db_facts(3,5) [of ?p] by auto
  have "subs e = subs client_db" using e(2) by (auto simp: packet_db_def upd_ctx_def put_ctx_def)
  then show ?thesis using e(1) by blast
qed

text \<open>The publication with the id 9 sent three times.\<close>

theorem qos2_stored_once_witness:
  "let p = \<lparr>p_qos = 2, p_retain = False, p_mid = 9, p_topic = ''a/b'', p_payload = [7]\<rparr>; d = packet_db packet_zero;
       e = ((\<lambda>d. snd (accept_publication 7 p d)) ^^ 3) d
   in (\<exists>m. msgs (ctx_of e 7) = msgs (ctx_of d 7) @ [m] \<and> cm_direction m = mosq_md_in \<and> cm_mid m = 9) \<and> subs e = subs d"
proof -
  let ?p = "\<lparr>p_qos = 2, p_retain = False, p_mid = 9, p_topic = ''a/b'', p_payload = [7]\<rparr>" and ?d = "packet_db packet_zero"
  have "snd (mqtt3_db_message_store_find 7 9 ?d) = None"
    by (simp add: store_find_some packet_db_facts sample_ctx_def sample_msg_def store_of_def sample_store_def msg_store_zero_def)
  moreover have "glob ?d = glob sub_db" by (simp add: packet_db_def upd_ctx_def put_ctx_def client_db_def)
  then have "room_for (cfg ?d) (glob ?d) (ctx_of ?d 7) 2" by (simp add: room_for_def packet_db_def client_db_facts sub_db_facts sub_db_client)
  ultimately show ?thesis
    using qos2_stored_once [OF packet_db_facts(1,2), of ?p packet_zero]
    by (auto simp: packet_db_facts awaits_release_def numeral_3_eq_3 numeral_2_eq_2 funpow_swap1 Let_def dest: spec [of _ 2])
qed

theorem disconnect_without_will_witness:
  "sock (ctx_of (snd (mqtt3_handle_disconnect 7 (packet_db packet_zero))) 7) < 0 \<and>
   consistent (snd (mqtt3_handle_disconnect 7 (packet_db packet_zero)))"
  using disconnect_without_will [OF packet_db_facts(1,2), of packet_zero]
  by (simp add: clean_disconnect_def packet_db_facts packet_zero_def)

text \<open>A connection that sends a PUBLISH without a CONNECT before it.\<close>

definition stranger_db :: db where
  "stranger_db = upd_ctx 8 (\<lambda>c. c\<lparr>in_packet := packet_zero\<lparr>command := 0x30, remaining_length := 3, payload := [0, 1, 97]\<rparr>\<rparr>)
     (snd (mqtt3_context_init 8 True 5 client_db))"

theorem denied_publish_reaches_nobody_witness:
  "subs (snd (mqtt3_handle_publish 8 stranger_db)) = subs stranger_db \<and> msg_store (snd (mqtt3_handle_publish 8 stranger_db)) = msg_store stranger_db"
proof -
  define p where "p = packet_zero\<lparr>command := 0x30, remaining_length := 3, payload := [0, 1, 97]\<rparr>"
  have c: "ctx_id (ctx_of stranger_db 8) = None" "bridge (ctx_of stranger_db 8) = None" "in_packet (ctx_of stranger_db 8) = p"
    by (simp_all add: stranger_db_def p_def mqtt3_context_init_def Let_def ctx_of_def upd_ctx_def put_ctx_def ctx_zero_def)
  have s: "mosquitto_read_string p = (Inr ''a'', p\<lparr>pos := 3\<rparr>)" unfolding p_def by code_simp
  have q: "header_qos (command p) = 0" unfolding p_def by code_simp
  let ?e = "upd_ctx 8 (\<lambda>c. c\<lparr>in_packet := p\<lparr>pos := 3\<rparr>\<rparr>) stranger_db"
  have "publish_header 8 stranger_db = (Inr (0, 0, ''a''), ?e)"
    by (simp add: publish_header_def next_step_def require_def on_error_def read_field_def c s q remapped_none pub_topic_check_iff
        wildcard_free_def go_on_def Let_def)
  moreover have "ctx_id (ctx_of ?e 8) = None" by (simp add: c(1))
  moreover have "msg_store ?e = msg_store stranger_db" by (simp add: upd_ctx_def put_ctx_def)
  ultimately show ?thesis using denied_publish_reaches_nobody [of 8 stranger_db 0 0 "''a''" ?e] by simp
qed

end
