(* ===== verification/Connect.thy ===== *)
theory Connect
  imports Handlers
begin

text \<open>
  The handler of CONNECT, \<^verbatim>\<open>mqtt3_handle_connect\<close> of \<^verbatim>\<open>src/read_handle_server.c\<close>: the header, the
  identifier, the will, the credentials, the take-over of a session and the final registration,
  each a step in the order of the code; then what a refusal leaves alone and what an accepted
  CONNECT does. The random identifier comes from the library uuid and is a parameter.
\<close>

subsection \<open>The protocol, the flags and the identifier\<close>

text \<open>Answer with a CONNACK and stop.\<close>

definition refuse :: "ctx_ref \<Rightarrow> byte \<Rightarrow> rc \<Rightarrow> 'a step" where
  "refuse r code e d = (case with_ctx r (mosquitto_send_connack 0 code) d of (rc, d1) \<Rightarrow> (Inl e, d1))"

definition client_id_gen :: "string \<Rightarrow> db \<Rightarrow> string" where
  "client_id_gen uuid d = auto_id_prefix (cfg d) @ uuid"

text \<open>The protocol name and version; goes on with the version byte.\<close>

definition read_protocol :: "ctx_ref \<Rightarrow> byte step" where
  "read_protocol r =
     next_step (on_error 1 (read_field r mosquitto_read_string)) (\<lambda>name.
     next_step (on_error 1 (read_field r mosquitto_read_byte)) (\<lambda>version.
       if name = ''MQIsdp'' then
         (if version AND 0x7F \<noteq> 3 then refuse r CONNACK_REFUSED_PROTOCOL_VERSION MOSQ_ERR_PROTOCOL
          else next_step (modify_ctx r (\<lambda>c. c\<lparr>protocol := mosq_p_mqtt31\<rparr>)) (\<lambda>_. go_on version))
       else if name = ''MQTT'' then
         (if version AND 0x7F \<noteq> 4 then refuse r CONNACK_REFUSED_PROTOCOL_VERSION MOSQ_ERR_PROTOCOL
          else (\<lambda>d. if command (in_packet (ctx_of d r)) AND 0x0F \<noteq> 0 then stop MOSQ_ERR_PROTOCOL d
                    else next_step (modify_ctx r (\<lambda>c. c\<lparr>protocol := mosq_p_mqtt311\<rparr>)) (\<lambda>_. go_on version) d))
       else stop MOSQ_ERR_PROTOCOL))"

record connect_flags =
  cf_clean_session :: bool
  cf_will :: bool
  cf_will_qos :: nat
  cf_will_retain :: bool
  cf_password :: bool
  cf_username :: bool

definition flags_of :: "byte \<Rightarrow> connect_flags" where
  "flags_of b = \<lparr>cf_clean_session = bit b 1, cf_will = bit b 2, cf_will_qos = unat (drop_bit 3 (b AND 0x18)),
     cf_will_retain = bit b 5, cf_password = bit b 6, cf_username = bit b 7\<rparr>"

text \<open>The flags; the keepalive goes into the context.\<close>

definition read_flags :: "ctx_ref \<Rightarrow> connect_flags step" where
  "read_flags r =
     next_step (on_error 1 (read_field r mosquitto_read_byte)) (\<lambda>b.
     next_step (require MOSQ_ERR_PROTOCOL (cf_will_qos (flags_of b) \<noteq> 3)) (\<lambda>_.
     next_step (on_error 1 (read_field r mosquitto_read_uint16)) (\<lambda>k.
     next_step (modify_ctx r (\<lambda>c. c\<lparr>keepalive := k\<rparr>)) (\<lambda>_. go_on (flags_of b)))))"

definition read_client_id :: "string \<Rightarrow> ctx_ref \<Rightarrow> connect_flags \<Rightarrow> string step" where
  "read_client_id uuid r f =
     next_step
       (next_step (on_error 1 (read_field r mosquitto_read_string)) (\<lambda>s d.
          if s \<noteq> [] then go_on s d
          else if protocol (ctx_of d r) = mosq_p_mqtt31
                  \<or> \<not> cf_clean_session f \<or> \<not> allow_zero_length_clientid (cfg d)
          then refuse r CONNACK_REFUSED_IDENTIFIER_REJECTED MOSQ_ERR_PROTOCOL d
          else go_on (client_id_gen uuid d) d))
       (\<lambda>cid d. case clientid_prefixes (cfg d) of
            Some p \<Rightarrow> if take (length p) cid = p then go_on cid d else refuse r CONNACK_REFUSED_NOT_AUTHORIZED 1 d
          | None \<Rightarrow> go_on cid d)"

subsection \<open>The will and the credentials\<close>

definition read_will :: "ctx_ref \<Rightarrow> connect_flags \<Rightarrow> will_msg option step" where
  "read_will r f =
     (if cf_will f then
        next_step (on_error 1 (read_field r mosquitto_read_string)) (\<lambda>topic.
        next_step (require 1 (topic \<noteq> [] \<and> mosquitto_pub_topic_check topic = MOSQ_ERR_SUCCESS)) (\<lambda>_.
        next_step (on_error 1 (read_field r mosquitto_read_uint16)) (\<lambda>len.
        next_step (if len > 0 then on_error 1 (read_field r (mosquitto_read_bytes (ucast len))) else go_on []) (\<lambda>pl.
          go_on (Some \<lparr>w_topic = topic, w_payload = pl, w_qos = cf_will_qos f, w_retain = cf_will_retain f\<rparr>)))))
      else (\<lambda>d. if protocol (ctx_of d r) = mosq_p_mqtt311 \<and> (cf_will_qos f \<noteq> 0 \<or> cf_will_retain f)
                then stop MOSQ_ERR_PROTOCOL d else go_on None d))"

text \<open>A field that version 3.1 lets be missing.\<close>

definition read_optional :: "ctx_ref \<Rightarrow> string option step" where
  "read_optional r d =
     (case read_field r mosquitto_read_string d of
        (Inr s, d1) \<Rightarrow> (Inr (Some s), d1)
      | (Inl e, d1) \<Rightarrow>
          if protocol (ctx_of d1 r) = mosq_p_mqtt311 then (Inl MOSQ_ERR_PROTOCOL, d1) else (Inr None, d1))"

text \<open>The user name and the password; without a user name no password is read.\<close>

definition read_credentials :: "ctx_ref \<Rightarrow> connect_flags \<Rightarrow> (string option \<times> string option) step" where
  "read_credentials r f =
     (if cf_username f then
        next_step (read_optional r) (\<lambda>u.
          if u \<noteq> None \<and> cf_password f then next_step (read_optional r) (\<lambda>p. go_on (u, p)) else go_on (u, None))
      else (\<lambda>d. if protocol (ctx_of d r) = mosq_p_mqtt311 \<and> cf_password f
                then stop MOSQ_ERR_PROTOCOL d else go_on (None, None) d))"

definition listener_of :: "db \<Rightarrow> ctx \<Rightarrow> listener option" where
  "listener_of d c = (case ctx_listener c of Some l \<Rightarrow> if l < length (listeners d) then Some (listeners d ! l) else None | None \<Rightarrow> None)"

text \<open>With certificates: the common name of the peer, or the identity of the pre-shared key, is the user.\<close>

definition tls_identity :: "ctx_ref \<Rightarrow> listener \<Rightarrow> unit step" where
  "tls_identity r ls d =
     (let no = refuse r CONNACK_REFUSED_BAD_USERNAME_PASSWORD 1
      in case ssl (ctx_of d r) of
           None \<Rightarrow> no d
         | Some peer \<Rightarrow>
             if ls_psk_hint ls \<noteq> None then (if username (ctx_of d r) = None then no d else go_on () d)
             else (case peer of CommonName n \<Rightarrow> modify_ctx r (\<lambda>c. c\<lparr>username := Some n\<rparr>) d | _ \<Rightarrow> no d))"

definition check_password_of :: "ctx_ref \<Rightarrow> string option \<times> string option \<Rightarrow> unit step" where
  "check_password_of r cr d =
     (case cr of
        (Some u, p) \<Rightarrow>
          (let rc = mosquitto_unpwd_check d (Some u) p
           in if rc = MOSQ_ERR_SUCCESS then modify_ctx r (\<lambda>c. c\<lparr>username := Some u, password := p\<rparr>) d
              else if rc = MOSQ_ERR_AUTH then
                (case with_ctx r (mosquitto_send_connack 0 CONNACK_REFUSED_NOT_AUTHORIZED) d of
                   (_, d1) \<Rightarrow> (Inl 1, mqtt3_context_disconnect r d1))
              else (Inl 1, mqtt3_context_disconnect r d))
      | (None, p) \<Rightarrow>
          if allow_anonymous (cfg d) then go_on () d else refuse r CONNACK_REFUSED_NOT_AUTHORIZED 1 d)"

text \<open>Authentication; goes on with the identifier, which may be replaced by the user name.\<close>

definition authenticate :: "ctx_ref \<Rightarrow> string option \<times> string option \<Rightarrow> string \<Rightarrow> string step" where
  "authenticate r cr cid =
     next_step
       (\<lambda>d. case listener_of d (ctx_of d r) of
          Some ls \<Rightarrow> if ls_ssl_ctx ls \<and> ls_use_identity_as_username ls then tls_identity r ls d else check_password_of r cr d
        | None \<Rightarrow> check_password_of r cr d)
       (\<lambda>_ d. case listener_of d (ctx_of d r) of
          Some ls \<Rightarrow>
            if ls_use_username_as_clientid ls then
              (case username (ctx_of d r) of
                 Some u \<Rightarrow> go_on u d
               | None \<Rightarrow> refuse r CONNACK_REFUSED_NOT_AUTHORIZED 1 d)
            else go_on cid d
        | None \<Rightarrow> go_on cid d)"

subsection \<open>Taking over a session\<close>

text \<open>\<^verbatim>\<open>HASH_FIND\<close> in the table of identifiers.\<close>

definition find_context :: "string \<Rightarrow> db \<Rightarrow> ctx_ref option" where
  "find_context cid d = map_of (contexts_by_id d) cid"

definition move_leaves :: "ctx_ref \<Rightarrow> ctx_ref \<Rightarrow> path option list \<Rightarrow> db \<Rightarrow> db" where
  "move_leaves r old =
     fold (\<lambda>s d. case s of
         None \<Rightarrow> d
       | Some p \<Rightarrow> upd_node p (\<lambda>h. set_subs (map (\<lambda>l. if lf_context l = old then l\<lparr>lf_context := r\<rparr> else l) (sh_subs h)) h) d)"

text \<open>The messages and the subscriptions of a lasting session.\<close>

definition inherit :: "ctx_ref \<Rightarrow> ctx_ref \<Rightarrow> db \<Rightarrow> db" where
  "inherit r old d =
     (let d1 = (if msgs (ctx_of d old) \<noteq> []
                then snd (mqtt3_db_message_reconnect_reset r
                       (upd_ctx old (\<lambda>c. c\<lparr>msgs := []\<rparr>) (upd_ctx r (\<lambda>c. c\<lparr>msgs := msgs (ctx_of d old)\<rparr>) d)))
                else d);
          ss = ctx_subs (ctx_of d1 old)
      in move_leaves r old ss (upd_ctx old (\<lambda>c. c\<lparr>ctx_subs := []\<rparr>) (upd_ctx r (\<lambda>c. c\<lparr>ctx_subs := ss\<rparr>) d1)))"

text \<open>Goes on with the first byte of the CONNACK: whether there was a session.\<close>

definition take_over :: "ctx_ref \<Rightarrow> string \<Rightarrow> bool \<Rightarrow> byte step" where
  "take_over r cid clean d =
     (case find_context cid d of
        None \<Rightarrow> (Inr 0, d)
      | Some old \<Rightarrow>
          let ack = (if protocol (ctx_of d r) = mosq_p_mqtt311 \<and> \<not> clean then 1 else 0);
              d1 = upd_ctx r (\<lambda>c. c\<lparr>clean_session := clean\<rparr>) d;
              d2 = (if \<not> clean \<and> \<not> clean_session (ctx_of d1 old) then inherit r old d1 else d1)
          in (Inr ack, do_disconnect old (upd_ctx old (\<lambda>c. c\<lparr>clean_session := True, state := mosq_cs_disconnecting\<rparr>) d2)))"

subsection \<open>Registration\<close>

text \<open>
  The queue without the messages the user may not read; the counters and \<^verbatim>\<open>last_msg\<close> are not
  brought up to date. A message without a topic is checked as one with an empty topic.
\<close>

definition unreadable :: "ctx_ref \<Rightarrow> client_msg \<Rightarrow> db \<Rightarrow> bool" where
  "unreadable r m d \<longleftrightarrow> cm_direction m = mosq_md_out \<and>
     mosquitto_acl_check d (ctx_of d r) (case ms_topic (store_of d (cm_store m)) of Some t \<Rightarrow> t | None \<Rightarrow> []) MOSQ_ACL_READ
       \<noteq> MOSQ_ERR_SUCCESS"

fun readable_msgs :: "ctx_ref \<Rightarrow> client_msg list \<Rightarrow> db \<Rightarrow> client_msg list \<times> db" where
  "readable_msgs r [] d = ([], d)"
| "readable_msgs r (m # ms) d =
     (if unreadable r m d then readable_msgs r ms (snd (msg_store_deref (cm_store m) d))
      else (case readable_msgs r ms d of (ms', d') \<Rightarrow> (m # ms', d')))"

definition drop_unreadable :: "ctx_ref \<Rightarrow> db \<Rightarrow> db" where
  "drop_unreadable r d =
     (case readable_msgs r (msgs (ctx_of d r)) d of (ms, d1) \<Rightarrow> upd_ctx r (\<lambda>c. c\<lparr>msgs := ms\<rparr>) d1)"

definition associate_acl :: "ctx_ref \<Rightarrow> db \<Rightarrow> db" where
  "associate_acl r d =
     (if acl_list d = [] then upd_ctx r (\<lambda>c. c\<lparr>ctx_acl_list := None\<rparr>) d
      else case find_acl_user d (username (ctx_of d r)) of
             Some u \<Rightarrow> upd_ctx r (\<lambda>c. c\<lparr>ctx_acl_list := Some u\<rparr>) d
           | None \<Rightarrow> d)"

definition register :: "ctx_ref \<Rightarrow> string \<Rightarrow> bool \<Rightarrow> byte \<Rightarrow> will_msg option \<Rightarrow> db \<Rightarrow> db" where
  "register r cid clean version w d =
     (let d1 = upd_ctx r (\<lambda>c. case w of Some x \<Rightarrow> c\<lparr>will := Some x\<rparr> | None \<Rightarrow> c) (associate_acl r d);
          d2 = upd_ctx r (\<lambda>c. c\<lparr>ctx_id := Some cid, clean_session := clean, ping_t := 0, is_dropping := False,
                               is_bridge := is_bridge c \<or> version AND 0x80 = 0x80\<rparr>) d1;
          d3 = drop_unreadable r d2;
          d4 = d3\<lparr>contexts_by_id := (cid, r) # contexts_by_id d3\<rparr>;
          d5 = (if clean then d4 else d4\<lparr>persistence_changes := persistence_changes d4 + 1\<rparr>)
      in upd_ctx r (\<lambda>c. c\<lparr>state := mosq_cs_connected\<rparr>) d5)"

text \<open>Everything that is read and checked before another client is looked at.\<close>

record connect_request =
  cr_version :: byte
  cr_clean :: bool
  cr_will :: "will_msg option"
  cr_id :: string

definition check_connect :: "string \<Rightarrow> ctx_ref \<Rightarrow> connect_request step" where
  "check_connect uuid r =
     next_step (\<lambda>d. require MOSQ_ERR_PROTOCOL (state (ctx_of d r) = mosq_cs_new) d) (\<lambda>_.
     next_step (read_protocol r) (\<lambda>version.
     next_step (read_flags r) (\<lambda>f.
     next_step (read_client_id uuid r f) (\<lambda>cid0.
     next_step (read_will r f) (\<lambda>w.
     next_step (read_credentials r f) (\<lambda>cr.
     next_step (authenticate r cr cid0) (\<lambda>cid.
       go_on \<lparr>cr_version = version, cr_clean = cf_clean_session f, cr_will = w, cr_id = cid\<rparr>)))))))"

definition accept_connect :: "ctx_ref \<Rightarrow> connect_request \<Rightarrow> rc step" where
  "accept_connect r q =
     next_step (take_over r (cr_id q) (cr_clean q)) (\<lambda>ack d.
       case with_ctx r (mosquitto_send_connack ack 0) (register r (cr_id q) (cr_clean q) (cr_version q) (cr_will q) d) of
         (rc, d1) \<Rightarrow> (Inr rc, d1))"

definition mqtt3_handle_connect :: "string \<Rightarrow> ctx_ref \<Rightarrow> db \<Rightarrow> rc \<times> db" where
  "mqtt3_handle_connect uuid r d =
     finish (next_step (check_connect uuid r) (accept_connect r))
       (d\<lparr>glob := (glob d)\<lparr>g_connection_count := g_connection_count (glob d) + 1\<rparr>\<rparr>)"

subsection \<open>What reading and checking a CONNECT leaves alone\<close>

text \<open>A client that is about to connect, and the parts of the broker it has no hold on yet.\<close>

definition ready :: "ctx_ref \<Rightarrow> db \<Rightarrow> bool" where
  "ready r d \<longleftrightarrow> consistent d \<and> ctx_live d r \<and> unborn (ctx_of d r) \<and> state (ctx_of d r) = mosq_cs_new \<and>
     will (ctx_of d r) = None \<and> bridge (ctx_of d r) = None"

definition hub :: "db \<Rightarrow> subhier list \<times> (store_ref \<times> msg_store) list \<times> (string \<times> ctx_ref) list \<times> ctx_ref list \<times> ctx_ref option list
    \<times> config \<times> acl_user list \<times> acl list \<times> auth_plugin option \<times> unpwd_entry list
    \<times> (string \<Rightarrow> byte list \<Rightarrow> byte list option) \<times> int \<times> int list list" where
  "hub d = (subs d, msg_store d, contexts_by_id d, ll_for_free d, bridges d, cfg d, acl_list d, acl_patterns d, auth_plugin d,
     unpwd d, pw_digest d, retained_count d, map ls_socks (listeners d))"

definition connects :: "ctx_ref \<Rightarrow> db \<Rightarrow> db \<Rightarrow> bool" where
  "connects r d e \<longleftrightarrow> hub e = hub d \<and> (\<forall>q. q \<noteq> r \<longrightarrow> ctx_of e q = ctx_of d q \<and> ctx_live e q = ctx_live d q) \<and> ready r e \<and>
     (- 1 \<le> sock (ctx_of d r) \<longrightarrow> - 1 \<le> sock (ctx_of e r))"

lemma connects_refl: "ready r d \<Longrightarrow> connects r d d"
  by (simp add: connects_def)

lemma connects_trans: "connects r d e \<Longrightarrow> connects r e f \<Longrightarrow> connects r d f"
  by (simp add: connects_def)

lemma connects_ready: "connects r d e \<Longrightarrow> ready r e"
  by (simp add: connects_def)

text \<open>An update of the client's own fields.\<close>

definition dresses :: "(ctx \<Rightarrow> ctx) \<Rightarrow> bool" where
  "dresses f \<longleftrightarrow> (\<forall>c. msgs (f c) = msgs c \<and> last_msg (f c) = last_msg c \<and> msg_count (f c) = msg_count c \<and>
     msg_count12 (f c) = msg_count12 c \<and> ctx_subs (f c) = ctx_subs c \<and> ctx_id (f c) = ctx_id c \<and> sock (f c) = sock c \<and>
     ctx_listener (f c) = ctx_listener c \<and> state (f c) = state c \<and> will (f c) = will c \<and> bridge (f c) = bridge c)"

lemma hub_upd: "hub (upd_ctx r f d) = hub d"
  by (simp add: hub_def upd_ctx_def put_ctx_def)

lemma connects_upd:
  assumes "ready r d" and "dresses f"
  shows "connects r d (upd_ctx r f d)"
proof -
  have c: "consistent d" "ctx_live d r" using assms(1) by (simp_all add: ready_def)
  note f = assms(2) [unfolded dresses_def, rule_format, of "ctx_of d r"]
  have "broker_inv (\<lambda>s. 0) (upd_ctx r f d)"
    by (rule broker_inv_upd [OF consistent_parts(1) [OF c(1)] c(2)]) (use f in \<open>simp_all add: same_queue_def keys_def\<close>)
  moreover have "clients_ok (upd_ctx r f d)"
    by (rule clients_upd [OF consistent_parts(2) [OF c(1)] c(2)])
      (use f assms(1) in \<open>auto simp: ready_def consistent_def clients_ok_def disused_ok_def\<close>)
  ultimately have "consistent (upd_ctx r f d)" by (simp add: consistent_def)
  then show ?thesis using assms(1) f by (simp add: connects_def ready_def hub_upd unborn_def)
qed

definition polite :: "ctx_ref \<Rightarrow> 'a step \<Rightarrow> bool" where
  "polite r m \<longleftrightarrow> (\<forall>d. ready r d \<longrightarrow> connects r d (snd (m d)))"

lemma politeD: "polite r m \<Longrightarrow> ready r d \<Longrightarrow> m d = (x, e) \<Longrightarrow> connects r d e"
  unfolding polite_def by (metis snd_conv)

named_theorems manners

lemma polite_next [manners]:
  assumes "polite r m" and "\<And>x. polite r (k x)"
  shows "polite r (next_step m k)"
  unfolding polite_def
proof (intro allI impI)
  fix d assume d: "ready r d"
  obtain y e where m: "m d = (y, e)" by fastforce
  then have e: "connects r d e" using assms(1) d by (auto simp: polite_def dest: spec [of _ d])
  show "connects r d (snd (next_step m k d))"
  proof (cases y)
    case (Inr x)
    have "connects r e (snd (k x e))" using assms(2) connects_ready [OF e] by (simp add: polite_def)
    then show ?thesis using connects_trans [OF e] m Inr by (simp add: next_step_def)
  qed (use m e in \<open>simp add: next_step_def\<close>)
qed

lemma polite_pure [manners]: "polite r (go_on x)" "polite r (stop e)" "polite r (require e b)"
  by (simp_all add: polite_def go_on_def stop_def require_def connects_refl)

lemma polite_on_error [manners]: "polite r m \<Longrightarrow> polite r (on_error e m)"
  by (auto simp: polite_def on_error_def split: prod.splits sum.splits)

lemma polite_if [manners]: "polite r m \<Longrightarrow> polite r n \<Longrightarrow> polite r (if b then m else n)"
  by simp

lemma polite_let: "(\<And>x. polite r (m x)) \<Longrightarrow> polite r (\<lambda>d. m (f d) d)"
  by (simp add: polite_def)

lemma polite_modify [manners]: "dresses f \<Longrightarrow> polite r (modify_ctx r f)"
  by (simp add: polite_def modify_ctx_def connects_upd)

lemma polite_reading [manners]: "polite r (read_field r f)"
  unfolding polite_def read_field_def
  by (auto split: prod.splits intro!: connects_upd simp: dresses_def)

lemma connects_sends:
  assumes "ready r d" and "\<And>s. sends s (f s)"
  shows "connects r d (snd (with_ctx r f d))"
proof -
  have c: "consistent d" "ctx_live d r" using assms(1) by (simp_all add: ready_def)
  obtain rc g x where f: "f (glob d, ctx_of d r) = (rc, g, x)" by (cases "f (glob d, ctx_of d r)")
  let ?e = "snd (with_ctx r f d)"
  have e: "?e = put_ctx r x (d\<lparr>glob := g\<rparr>)" by (simp add: with_ctx_def f)
  have out: "same_but_output (ctx_of d r) x" using assms(2) [of "(glob d, ctx_of d r)"] f by (simp add: sends_def)
  have k: "keeps r d ?e" by (rule keeps_ops(3) [OF c]) (rule assms(2))
  have x: "msgs x = msgs (ctx_of d r) \<and> bridge x = bridge (ctx_of d r) \<and> sock x = sock (ctx_of d r)"
    using out by (cases x; cases "ctx_of d r") (simp add: same_but_output_def)
  note x
  moreover have "later (ctx_of d r) x" using same_but_outputD [OF out] by simp
  ultimately have "ready r ?e"
    using assms(1) keeps_consistent [OF k] keeps_live [OF k, of r]
    by (auto simp: ready_def e later_def identity_def)
  moreover have "ctx_of ?e q = ctx_of d q \<and> ctx_live ?e q = ctx_live d q" if "q \<noteq> r" for q
    using that keeps_live [OF k, of q] unfolding e by (simp add: ctx_of_glob)
  moreover have "hub ?e = hub d" by (simp add: e hub_def put_ctx_def)
  moreover have "sock (ctx_of ?e r) = sock (ctx_of d r)" using x by (simp add: e)
  ultimately show ?thesis by (simp add: connects_def)
qed

lemma polite_refuse [manners]: "polite r (refuse r code e)"
  unfolding polite_def refuse_def
proof (intro allI impI)
  fix d assume "ready r d"
  then have "connects r d (snd (with_ctx r (mosquitto_send_connack 0 code) d))" by (rule connects_sends) simp
  then show "connects r d (snd (case with_ctx r (mosquitto_send_connack 0 code) d of (rc, d1) \<Rightarrow> (Inl e :: rc + 'a, d1)))"
    by (auto split: prod.splits)
qed

lemma connects_disconnect:
  assumes "ready r d"
  shows "connects r d (mqtt3_context_disconnect r d)"
proof -
  have c: "consistent d" "ctx_live d r" and w: "will (ctx_of d r) = None" using assms by (simp_all add: ready_def)
  let ?e = "mqtt3_context_disconnect r d"
  define d1 where "d1 = upd_ctx r (\<lambda>c. c\<lparr>will := None, disconnect_t := wall (glob d)\<rparr>) d"
  have run: "?e = mosquitto_socket_close r d1"
    using w by (simp add: mqtt3_context_disconnect_def d1_def Let_def)
  have fr: "hub d1 = hub d" unfolding d1_def by (rule hub_upd)
  have i1: "broker_inv (\<lambda>s. 0) d1" unfolding d1_def
    by (rule broker_inv_upd [OF consistent_parts(1) [OF c(1)] c(2)]) (simp_all add: same_queue_def keys_def)
  have c1: "clients_ok d1" unfolding d1_def
    by (rule clients_upd [OF consistent_parts(2) [OF c(1)] c(2)])
      (use c(1) in \<open>auto simp: consistent_def clients_ok_def disused_ok_def\<close>)
  have live1: "ctx_live d1 r" by (simp add: d1_def)
  have fin: "finite (dom (contexts d1))" using i1 by (simp add: broker_inv_def msgs_inv_def store_inv_def)
  have "hub ?e = hub d1" unfolding run socket_close_form [OF c1 fin live1] by (simp add: hub_def put_ctx_def)
  moreover note sc = socket_close_ok [OF c1 i1 live1, folded run]
  have "ctx_of ?e r = closed (ctx_of d1 r)" using sc(3) [of r] by simp
  then have "ready r ?e"
    using assms sc(1,2) sc(4) [of r] live1 by (simp add: ready_def consistent_def d1_def closed_def unborn_def)
  moreover have "ctx_of ?e q = ctx_of d q \<and> ctx_live ?e q = ctx_live d q" if "q \<noteq> r" for q
    using that sc(3,4) [of q] by (simp add: d1_def)
  moreover have "- 1 \<le> sock (ctx_of d r) \<longrightarrow> - 1 \<le> sock (ctx_of ?e r)" using sc(3) [of r] by (simp add: closed_def d1_def)
  ultimately show ?thesis using fr by (simp add: connects_def)
qed

lemma polite_password [manners]: "polite r (check_password_of r cr)"
  unfolding polite_def
proof (intro allI impI)
  fix d assume d: "ready r d"
  have s: "connects r d (snd (with_ctx r (mosquitto_send_connack 0 CONNACK_REFUSED_NOT_AUTHORIZED) d))"
    by (rule connects_sends [OF d]) simp
  have m: "polite r (modify_ctx r (\<lambda>c. c\<lparr>username := Some u, password := p\<rparr>))" for u p
    by (intro manners) (simp add: dresses_def)
  have n: "polite r (refuse r CONNACK_REFUSED_NOT_AUTHORIZED 1 :: unit step)" by (intro manners)
  show "connects r d (snd (check_password_of r cr d))"
    using s m n d connects_disconnect [OF d] connects_disconnect [OF connects_ready [OF s]]
      connects_trans [OF s connects_disconnect [OF connects_ready [OF s]]]
    by (auto simp: check_password_of_def Let_def polite_def go_on_def connects_refl split: option.split prod.split)
qed

lemma polite_tls [manners]: "polite r (tls_identity r ls)"
proof -
  have "polite r (refuse r CONNACK_REFUSED_BAD_USERNAME_PASSWORD 1 :: unit step)" by (intro manners)
  moreover have "polite r (modify_ctx r (\<lambda>c. c\<lparr>username := Some n\<rparr>))" for n by (intro manners) (simp add: dresses_def)
  ultimately show ?thesis
    by (auto simp: polite_def tls_identity_def Let_def go_on_def connects_refl split: option.split tls_peer.split)
qed

lemma polite_options [manners]:
  "polite r m \<Longrightarrow> (\<And>x. polite r (k x)) \<Longrightarrow> polite r (\<lambda>d. case f d of None \<Rightarrow> m d | Some x \<Rightarrow> k x d)"
  "polite r m \<Longrightarrow> polite r n \<Longrightarrow> polite r (\<lambda>d. if P d then m d else n d)"
  by (auto simp: polite_def split: option.split)

lemma polite_optional [manners]: "polite r (read_optional r)"
  unfolding polite_def read_optional_def
proof (intro allI impI)
  fix d assume "ready r d"
  then have "connects r d (snd (read_field r mosquitto_read_string d))" using polite_reading unfolding polite_def by blast
  then show "connects r d (snd (case read_field r mosquitto_read_string d of (Inr s, d1) \<Rightarrow> (Inr (Some s), d1)
      | (Inl e, d1) \<Rightarrow> if protocol (ctx_of d1 r) = mosq_p_mqtt311 then (Inl MOSQ_ERR_PROTOCOL, d1) else (Inr None, d1)))"
    by (auto split: prod.splits sum.splits)
qed

lemma dresses_simps [manners]:
  "dresses (\<lambda>c. c\<lparr>protocol := x\<rparr>)" "dresses (\<lambda>c. c\<lparr>keepalive := k\<rparr>)" "dresses (\<lambda>c. c\<lparr>username := u, password := p\<rparr>)"
  "dresses (\<lambda>c. c\<lparr>username := u\<rparr>)"
  by (simp_all add: dresses_def)

lemma polite_protocol [manners]: "polite r (read_protocol r)"
  unfolding read_protocol_def by (intro manners)

lemma polite_flags [manners]: "polite r (read_flags r)"
  unfolding read_flags_def by (intro manners)

lemma polite_gen [manners]: "polite r (\<lambda>d. go_on (f d) d)" "polite r (\<lambda>d. require e (P d) d)"
  by (simp_all add: polite_def go_on_def require_def connects_refl)

lemma polite_client_id [manners]: "polite r (read_client_id uuid r f)"
  unfolding read_client_id_def by (intro manners)

lemma polite_will [manners]: "polite r (read_will r f)"
  unfolding read_will_def by (intro manners)

lemma polite_credentials [manners]: "polite r (read_credentials r f)"
  unfolding read_credentials_def by (intro manners)

lemma polite_authenticate [manners]: "polite r (authenticate r cr cid)"
  unfolding authenticate_def by (intro manners)

lemma polite_check: "polite r (check_connect uuid r)"
  unfolding check_connect_def by (intro manners)

text \<open>Every refusal has a code.\<close>

definition fails :: "'a step \<Rightarrow> bool" where
  "fails m \<longleftrightarrow> (\<forall>d e d'. m d = (Inl e, d') \<longrightarrow> e \<noteq> MOSQ_ERR_SUCCESS)"

named_theorems failing

lemma fails_next [failing]: "fails m \<Longrightarrow> (\<And>x. fails (k x)) \<Longrightarrow> fails (next_step m k)"
  unfolding fails_def next_step_def by (auto split: prod.splits sum.splits)

lemma fails_basic [failing]:
  "fails (go_on x)" "e \<noteq> 0 \<Longrightarrow> fails (stop e)" "e \<noteq> 0 \<Longrightarrow> fails (require e b)" "e \<noteq> 0 \<Longrightarrow> fails (on_error e m)"
  "fails (modify_ctx r f)" "e \<noteq> 0 \<Longrightarrow> fails (refuse r code e)" "fails (read_optional r)"
  by (auto simp: fails_def go_on_def stop_def require_def on_error_def modify_ctx_def refuse_def read_optional_def
      split: prod.splits sum.splits if_splits)

lemma fails_cases [failing]:
  "fails m \<Longrightarrow> fails n \<Longrightarrow> fails (if b then m else n)"
  "fails m \<Longrightarrow> (\<And>x. fails (k x)) \<Longrightarrow> fails (\<lambda>d. case f d of None \<Rightarrow> m d | Some x \<Rightarrow> k x d)"
  "fails m \<Longrightarrow> fails n \<Longrightarrow> fails (\<lambda>d. if P d then m d else n d)"
  "fails (\<lambda>d. go_on (g d) d)" "e \<noteq> 0 \<Longrightarrow> fails (\<lambda>d. require e (P d) d)"
  by (auto simp: fails_def go_on_def require_def split: option.splits if_splits)

lemma fails_auth [failing]: "fails (check_password_of r cr)" "fails (tls_identity r ls)"
  by (auto simp: fails_def check_password_of_def tls_identity_def refuse_def modify_ctx_def go_on_def Let_def
      split: prod.splits option.splits if_splits tls_peer.splits)

lemma fails_check: "fails (check_connect uuid r)"
  unfolding check_connect_def read_protocol_def read_flags_def read_client_id_def read_will_def read_credentials_def authenticate_def
  by (intro failing) simp_all

definition counted :: "db \<Rightarrow> db" where
  "counted d = d\<lparr>glob := (glob d)\<lparr>g_connection_count := g_connection_count (glob d) + 1\<rparr>\<rparr>"

lemma counted_simps [simp]:
  "ctx_of (counted d) = ctx_of d" "hub (counted d) = hub d" "ctx_live (counted d) q = ctx_live d q" "cfg (counted d) = cfg d"
  "listeners (counted d) = listeners d" "tables (counted d) = tables d" "contexts (counted d) = contexts d"
  "subs (counted d) = subs d" "msg_store (counted d) = msg_store d" "contexts_by_id (counted d) = contexts_by_id d"
  "contexts_by_sock (counted d) = contexts_by_sock d" "ll_for_free (counted d) = ll_for_free d"
  "retained_count (counted d) = retained_count d" "auth_plugin (counted d) = auth_plugin d"
  "acl_list (counted d) = acl_list d" "acl_patterns (counted d) = acl_patterns d" "bridges (counted d) = bridges d"
  by (simp_all add: counted_def ctx_of_def fun_eq_iff hub_def ctx_live_def)

lemma consistent_counted:
  assumes "consistent d"
  shows "consistent (counted d)"
proof -
  have "broker_inv (\<lambda>s. 0) (counted d)"
    by (rule broker_inv_tables [OF consistent_parts(1) [OF assms]]) (simp_all add: counted_def)
  moreover have "calm d (counted d)" by (simp add: calm_def)
  ultimately show ?thesis using keeps_inv [of "counted d" d] assms by (simp add: keeps_def)
qed

lemma ready_counted: "ready r d \<Longrightarrow> ready r (counted d)"
  by (simp add: ready_def consistent_counted)

text \<open>
  C22. A refused CONNECT has no effect on anyone else. When one of the checks of
  \<^verbatim>\<open>mqtt3_handle_connect\<close> fails, for a client that is new, the handler returns a code that is not
  success (so that the caller drops the connection) and the broker is consistent; the client still
  has no id and is not connected, and no other client, no subscription, no stored or retained
  message, no table entry of an id and no list of contexts to free has changed. In particular an
  existing session with the same id is not taken over before all checks have passed.
\<close>

theorem refused_connect_is_harmless:
  assumes "ready r d" and "check_connect uuid r (counted d) = (Inl e, d')"
  shows "mqtt3_handle_connect uuid r d = (e, d') \<and> e \<noteq> MOSQ_ERR_SUCCESS \<and> consistent d' \<and>
    state (ctx_of d' r) = mosq_cs_new \<and> ctx_id (ctx_of d' r) = None \<and>
    (\<forall>q. q \<noteq> r \<longrightarrow> ctx_of d' q = ctx_of d q \<and> ctx_live d' q = ctx_live d q) \<and>
    subs d' = subs d \<and> msg_store d' = msg_store d \<and> retained_count d' = retained_count d \<and>
    contexts_by_id d' = contexts_by_id d \<and> ll_for_free d' = ll_for_free d"
proof -
  have "connects r (counted d) d'"
    by (rule politeD [OF polite_check ready_counted [OF assms(1)] assms(2)])
  moreover have "e \<noteq> MOSQ_ERR_SUCCESS" using fails_check assms(2) unfolding fails_def by blast
  ultimately show ?thesis
    using assms(2) by (simp add: mqtt3_handle_connect_def finish_def next_step_def connects_def ready_def unborn_def hub_def
        flip: counted_def)
qed

subsection \<open>Nobody connects without being authenticated\<close>

lemma listener_of_cong: "listeners e = listeners d \<Longrightarrow> ctx_listener c' = ctx_listener c \<Longrightarrow> listener_of e c' = listener_of d c"
  by (simp only: listener_of_def)

lemma authenticate_Inr:
  assumes "authenticate r cr cid d = (Inr i, e)"
  shows "ctx_listener (ctx_of e r) = ctx_listener (ctx_of d r) \<and> listeners e = listeners d \<and>
    (case listener_of d (ctx_of d r) of
       Some ls \<Rightarrow> (ls_use_username_as_clientid ls \<longrightarrow> username (ctx_of e r) = Some i) \<and>
         (if ls_ssl_ctx ls \<and> ls_use_identity_as_username ls then tls_identity r ls d = (Inr (), e)
          else check_password_of r cr d = (Inr (), e))
     | None \<Rightarrow> check_password_of r cr d = (Inr (), e))"
proof -
  have l: "listeners (upd_ctx r f d) = listeners d" for f d by (simp add: upd_ctx_def put_ctx_def)
  define check where "check = (case listener_of d (ctx_of d r) of
      Some ls \<Rightarrow> if ls_ssl_ctx ls \<and> ls_use_identity_as_username ls then tls_identity r ls d else check_password_of r cr d
    | None \<Rightarrow> check_password_of r cr d)"
  obtain d1 where a: "check = (Inr (), d1)"
    and b: "(case listener_of d1 (ctx_of d1 r) of
          Some ls \<Rightarrow>
            if ls_use_username_as_clientid ls then
              (case username (ctx_of d1 r) of
                 Some u \<Rightarrow> go_on u d1
               | None \<Rightarrow> refuse r CONNACK_REFUSED_NOT_AUTHORIZED 1 d1)
            else go_on cid d1
        | None \<Rightarrow> go_on cid d1) = (Inr i, e)"
    using assms unfolding authenticate_def next_step_Inr check_def by auto
  have pw: "ctx_listener (ctx_of d1 r) = ctx_listener (ctx_of d r) \<and> listeners d1 = listeners d"
    if "check_password_of r cr d = (Inr (), d1)"
    using that by (auto simp: check_password_of_def Let_def modify_ctx_def go_on_def refuse_def l
        split: prod.splits option.splits if_splits)
  have tls: "ctx_listener (ctx_of d1 r) = ctx_listener (ctx_of d r) \<and> listeners d1 = listeners d"
    if "tls_identity r ls d = (Inr (), d1)" for ls
    using that by (auto simp: tls_identity_def Let_def modify_ctx_def go_on_def refuse_def l
        split: prod.splits option.splits if_splits tls_peer.splits)
  have same: "ctx_listener (ctx_of d1 r) = ctx_listener (ctx_of d r)" "listeners d1 = listeners d"
    using a pw tls by (auto simp: check_def split: option.splits if_splits)
  then have lo: "listener_of d1 (ctx_of d1 r) = listener_of d (ctx_of d r)" by (rule listener_of_cong [rotated])
  have e: "e = d1" "\<And>ls. listener_of d (ctx_of d r) = Some ls \<Longrightarrow> ls_use_username_as_clientid ls \<Longrightarrow> username (ctx_of d1 r) = Some i"
    using b by (auto simp: lo go_on_def refuse_def split: option.splits if_splits prod.splits)
  show ?thesis using a same e by (auto simp: check_def split: option.splits)
qed

lemma connects_unpwd: "connects r d e \<Longrightarrow> mosquitto_unpwd_check e u p = mosquitto_unpwd_check d u p"
  by (simp add: connects_def hub_def mosquitto_unpwd_check_def mosquitto_unpwd_check_default_def check_password_def
      split: option.split)

text \<open>Who a client is allowed to be.\<close>

definition vouched :: "db \<Rightarrow> ctx \<Rightarrow> bool" where
  "vouched d c \<longleftrightarrow> allow_anonymous (cfg d) \<or>
     (\<exists>u. username c = Some u \<and> mosquitto_unpwd_check d (Some u) (password c) = MOSQ_ERR_SUCCESS)"

text \<open>
  C23. Nobody gets past the checks without being authenticated. When all checks of a CONNECT pass,
  then anonymous clients are allowed, or the client's user name and password have passed
  \<^verbatim>\<open>mosquitto_unpwd_check\<close> (the password file or the plugin), or its listener takes the user name
  from the TLS connection and there is one; and on a listener with
  \<^verbatim>\<open>use_username_as_clientid\<close> the identifier is that user name.
\<close>

theorem connect_authenticated:
  assumes "ready r d" and "check_connect uuid r d = (Inr q, e)"
  shows "case listener_of e (ctx_of e r) of
      Some ls \<Rightarrow>
        (if ls_ssl_ctx ls \<and> ls_use_identity_as_username ls then username (ctx_of e r) \<noteq> None else vouched d (ctx_of e r)) \<and>
        (ls_use_username_as_clientid ls \<longrightarrow> username (ctx_of e r) = Some (cr_id q))
    | None \<Rightarrow> vouched d (ctx_of e r)"
proof -
  define head where "head =
     next_step (\<lambda>d. require MOSQ_ERR_PROTOCOL (state (ctx_of d r) = mosq_cs_new) d) (\<lambda>_.
     next_step (read_protocol r) (\<lambda>version.
     next_step (read_flags r) (\<lambda>f.
     next_step (read_client_id uuid r f) (\<lambda>cid0.
     next_step (read_will r f) (\<lambda>w.
     next_step (read_credentials r f) (\<lambda>cr. go_on (version, f, cid0, w, cr)))))))"
  have ph: "polite r head" unfolding head_def by (intro manners)
  obtain version f cid0 w cr d1 where h: "head d = (Inr (version, f, cid0, w, cr), d1)"
    and a: "authenticate r cr cid0 d1 = (Inr (cr_id q), e)"
    using assms(2) unfolding check_connect_def head_def next_step_Inr by (auto simp: go_on_def)
  have c: "connects r d d1" by (rule politeD [OF ph assms(1) h])
  note au = authenticate_Inr [OF a]
  have cfg: "allow_anonymous (cfg d1) = allow_anonymous (cfg d)" using c by (simp add: connects_def hub_def)
  have pw: "vouched d (ctx_of e r)" if "check_password_of r cr d1 = (Inr (), e)"
    using that cfg connects_unpwd [OF c]
    by (auto simp: vouched_def check_password_of_def Let_def modify_ctx_def go_on_def refuse_def split: option.splits if_splits prod.splits)
  have tls: "username (ctx_of e r) \<noteq> None" if "tls_identity r ls d1 = (Inr (), e)" for ls
    using that by (auto simp: tls_identity_def Let_def modify_ctx_def go_on_def refuse_def split: option.splits if_splits prod.splits tls_peer.splits)
  have lo: "listener_of e (ctx_of e r) = listener_of d1 (ctx_of d1 r)" 
    by (rule listener_of_cong [OF au [THEN conjunct2, THEN conjunct1] au [THEN conjunct1]])
  show ?thesis using au [THEN conjunct2, THEN conjunct2] pw tls unfolding lo by (auto split: option.splits if_splits)
qed

end
