(* ===== verification/Takeover.thy ===== *)
theory Takeover
  imports Connect
begin

text \<open>
  What an accepted CONNECT does: a session with the same identifier is taken over, with its queue
  and its subscriptions when both sides want a lasting session, the old context is closed without
  its will and left to be freed, and the new one is entered into the table of identifiers. The
  invariants of the broker hold again afterwards.
\<close>

subsection \<open>Moving a queue\<close>

text \<open>A queue that is taken out of a context stays referenced by whoever holds it.\<close>

lemma msgs_inv_repin:
  assumes "msgs_inv pins d" and "ctx_live d r" and "abandoned c \<or> queue_ok (next_ptr (glob d)) c"
    and "\<And>s. pins' s = pins s + int (queue_refs s (ctx_of d r)) - int (queue_refs s c)" and "\<And>s. 0 \<le> pins' s"
  shows "msgs_inv pins' (put_ctx r c d)"
proof -
  have fin: "finite (dom (contexts d))" using assms(1) by (simp add: msgs_inv_def store_inv_def)
  have "int (total_refs (put_ctx r c d) s) + pins' s = int (total_refs d s) + pins s" for s
    using total_refs_put [OF fin assms(2), of c s] assms(4) [of s] by simp
  moreover have "counts_ok f (put_ctx r c d) = counts_ok f d" for f
    by (rule counts_ok_cong) (simp_all add: put_ctx_def)
  ultimately have "store_inv pins' (put_ctx r c d)"
    using assms(1,5) fin dom_put_ctx [OF assms(2)] by (simp add: msgs_inv_def store_inv_def)
  moreover have "abandoned x \<or> queue_ok (next_ptr (glob d)) x" if "contexts (put_ctx r c d) q = Some x" for q x
    using that assms(1,3) by (auto simp: put_ctx_def msgs_inv_def split: if_splits)
  ultimately show ?thesis by (simp add: msgs_inv_def)
qed

subsection \<open>Moving the subscriptions\<close>

definition heir :: "ctx_ref \<Rightarrow> ctx_ref \<Rightarrow> subleaf \<Rightarrow> subleaf" where
  "heir r old l = (if lf_context l = old then l\<lparr>lf_context := r\<rparr> else l)"

lemma heir_simps [simp]: "heir r old (heir r old l) = heir r old l"
  "lf_context (heir r old l) = (if lf_context l = old then r else lf_context l)" "lf_qos (heir r old l) = lf_qos l"
  by (simp_all add: heir_def)

lemma move_leaves_cases:
  "move_leaves r old ss d = d\<lparr>subs := subs (move_leaves r old ss d)\<rparr>"
  "wf_tree (subs d) \<Longrightarrow> wf_tree (subs (move_leaves r old ss d))"
  "tree_refs s (subs (move_leaves r old ss d)) = tree_refs s (subs d)"
  "leaves_at p (move_leaves r old ss d) = (if Some p \<in> set ss then map (heir r old) (leaves_at p d) else leaves_at p d)"
proof (induction ss arbitrary: d)
  case (Cons x ss)
  have h: "heir r old = (\<lambda>l. if lf_context l = old then l\<lparr>lf_context := r\<rparr> else l)"
    by (simp add: fun_eq_iff heir_def)
  have step: "move_leaves r old (x # ss) d = move_leaves r old ss (case x of None \<Rightarrow> d
      | Some q \<Rightarrow> upd_node q (\<lambda>h. set_subs (map (heir r old) (sh_subs h)) h) d)" for d
    unfolding h by (simp add: move_leaves_def)
  have leaves: "leaves_at p (upd_node q (\<lambda>h. set_subs (map (heir r old) (sh_subs h)) h) d)
      = (if p = q then map (heir r old) (leaves_at p d) else leaves_at p d)" for p q d
    by (simp add: leaves_at_info leaves_set_subs)
  have subs: "upd_node q f d = d\<lparr>subs := update_at q f (subs d)\<rparr>" for q f d by (simp add: upd_node_def)
  { case 1 show ?case unfolding step by (subst Cons(1)) (cases x; simp add: subs) }
  { case 2 then show ?case using Cons(2) unfolding step by (auto split: option.split) }
  { case 3 show ?case using Cons(3) unfolding step by (auto split: option.split) }
  { case 4 show ?case using Cons(4) unfolding step by (auto simp: leaves comp_def split: option.split) }
qed (simp_all add: move_leaves_def)

lemma move_leaves_simps [simp]:
  "contexts (move_leaves r old ss d) = contexts d" "glob (move_leaves r old ss d) = glob d"
  "msg_store (move_leaves r old ss d) = msg_store d" "tables (move_leaves r old ss d) = tables d"
  "ctx_of (move_leaves r old ss d) q = ctx_of d q" "ctx_live (move_leaves r old ss d) q = ctx_live d q"
  "tree_refs s (subs (move_leaves r old ss d)) = tree_refs s (subs d)"
proof -
  obtain x where "move_leaves r old ss d = d\<lparr>subs := x\<rparr>" using move_leaves_cases(1) by blast
  then show "contexts (move_leaves r old ss d) = contexts d" "glob (move_leaves r old ss d) = glob d"
    "msg_store (move_leaves r old ss d) = msg_store d" "tables (move_leaves r old ss d) = tables d"
    "ctx_of (move_leaves r old ss d) q = ctx_of d q" "ctx_live (move_leaves r old ss d) q = ctx_live d q"
    by (simp_all add: ctx_live_def)
qed (rule move_leaves_cases(3))

lemma move_leaves_cong:
  assumes "subs d = subs e"
  shows "subs (move_leaves r old ss d) = subs (move_leaves r old ss e)"
proof -
  have "subs (move_leaves r old ss x) = fold (\<lambda>s t. case s of None \<Rightarrow> t
      | Some p \<Rightarrow> update_at p (\<lambda>h. set_subs (map (\<lambda>l. if lf_context l = old then l\<lparr>lf_context := r\<rparr> else l) (sh_subs h)) h) t)
      ss (subs x)" for x
    unfolding move_leaves_def by (induction ss arbitrary: x) (simp_all split: option.split)
  then show ?thesis using assms by simp
qed

lemma move_leaves_linked:
  assumes "linked d" and "r \<noteq> old" and "ctx_subs (ctx_of d r) = []"
    and e: "subs e = subs (move_leaves r old (ctx_subs (ctx_of d old)) d)"
      "\<And>q. ctx_subs (ctx_of e q) = (if q = r then ctx_subs (ctx_of d old) else if q = old then [] else ctx_subs (ctx_of d q))"
  shows "linked e"
proof -
  note l = linkedD [OF assms(1)]
  let ?m = "move_leaves r old (ctx_subs (ctx_of d old)) d"
  have none: "r \<notin> lf_context ` set (leaves_at p d)" for p using l(2) [of p r] assms(3) by simp
  have leaves: "leaves_at p e = map (heir r old) (leaves_at p d)" for p
  proof -
    have same: "leaves_at p e = leaves_at p ?m" by (simp add: leaves_at_info e)
    have "map (heir r old) (leaves_at p d) = leaves_at p d" if "Some p \<notin> set (ctx_subs (ctx_of d old))"
      using that l(2) [of p old] by (intro map_idI) (auto simp: heir_def)
    then show ?thesis unfolding same move_leaves_cases(4) by auto
  qed
  have names: "map lf_context (leaves_at p e) = map (\<lambda>c. if c = old then r else c) (map lf_context (leaves_at p d))" for p
    unfolding leaves by (simp add: comp_def)
  have inj: "inj_on (\<lambda>c. if c = old then r else c) (set (map lf_context (leaves_at p d)))" for p
    using none [of p] by (auto simp: inj_on_def)
  have "distinct (map lf_context (leaves_at p e))" for p
    unfolding names using inj [of p] l(3) [of p] by (simp only: distinct_map)
  moreover have "wf_tree (subs e)" unfolding e(1) by (rule move_leaves_cases(2) [OF l(1)])
  moreover have "Some p \<in> set (ctx_subs (ctx_of e q)) \<longleftrightarrow> q \<in> lf_context ` set (leaves_at p e)" for p q
    using l(2) [of p] none [of p] assms(2) unfolding e(2) leaves by (auto simp: image_image image_iff)
  moreover have "distinct (filter (\<lambda>s. s \<noteq> None) (ctx_subs (ctx_of e q)))" for q using l(4) by (simp add: e(2))
  ultimately show ?thesis by (simp add: linked_def)
qed

subsection \<open>Handing a session over\<close>

text \<open>The new context \<open>c\<close> of \<open>r\<close> has the queue and the subscriptions of \<open>old\<close>.\<close>

definition handed_over :: "ctx_ref \<Rightarrow> ctx_ref \<Rightarrow> ctx \<Rightarrow> db \<Rightarrow> db" where
  "handed_over r old c d =
     move_leaves r old (ctx_subs (ctx_of d old)) (put_ctx r c (upd_ctx old (\<lambda>c. c\<lparr>msgs := [], ctx_subs := []\<rparr>) d))"

lemma handed_over_simps:
  assumes "r \<noteq> old"
  shows "ctx_of (handed_over r old c d) q = (if q = r then c else if q = old then (ctx_of d old)\<lparr>msgs := [], ctx_subs := []\<rparr> else ctx_of d q)"
    and "glob (handed_over r old c d) = glob d" and "msg_store (handed_over r old c d) = msg_store d"
    and "subs (handed_over r old c d) = subs (move_leaves r old (ctx_subs (ctx_of d old)) (put_ctx r c (upd_ctx old (\<lambda>c. c\<lparr>msgs := [], ctx_subs := []\<rparr>) d)))"
    and "tables (handed_over r old c d) = tables d"
    and "ctx_live d r \<Longrightarrow> ctx_live d old \<Longrightarrow> ctx_live (handed_over r old c d) q = ctx_live d q"
  using assms by (auto simp: handed_over_def upd_ctx_def)

text \<open>What the new context takes from the old one, and what it keeps of its own.\<close>

definition inherits :: "nat \<Rightarrow> ctx \<Rightarrow> ctx \<Rightarrow> ctx \<Rightarrow> bool" where
  "inherits n c0 old c \<longleftrightarrow> queue_ok n c \<and> keys c = keys old \<and> ctx_subs c = ctx_subs old \<and>
     identity c = identity c0 \<and> bridge c = bridge c0"

lemma handed_over_clients:
  assumes "clients_ok d" and "r \<noteq> old" and live: "ctx_live d r" "ctx_live d old" and c: "identity c = identity (ctx_of d r)"
  shows "clients_ok (handed_over r old c d)"
proof -
  define d1 where "d1 = upd_ctx old (\<lambda>c. c\<lparr>msgs := [], ctx_subs := []\<rparr>) d"
  define d2 where "d2 = upd_ctx r (\<lambda>_. c) d1"
  have "clients_ok d1" unfolding d1_def
    by (rule clients_upd [OF assms(1) live(2)]) (use assms(1) live(2) in \<open>auto simp: clients_ok_def disused_ok_def wills_ok_def\<close>)
  moreover have "ctx_of d1 r = ctx_of d r" "ctx_live d1 r" "ll_for_free d1 = ll_for_free d"
    using assms(2) live by (simp_all add: d1_def) (simp add: upd_ctx_def put_ctx_def)
  ultimately have c2: "clients_ok d2" unfolding d2_def
    using assms(1) identity_fields [of c "ctx_of d r"] c
    by (intro clients_upd) (auto simp: clients_ok_def disused_ok_def wills_ok_def)
  have e: "handed_over r old c d = move_leaves r old (ctx_subs (ctx_of d old)) d2"
    by (simp add: handed_over_def d2_def d1_def) (simp add: upd_ctx_def)
  have "calm d2 (handed_over r old c d)" unfolding e by (simp add: calm_def)
  then show ?thesis by (rule clients_calm [OF c2])
qed

lemma handed_over_ok:
  assumes "consistent d" and "r \<noteq> old" and live: "ctx_live d r" "ctx_live d old" and "unborn (ctx_of d r)"
    and old: "ctx_id (ctx_of d old) = None" "state (ctx_of d old) = mosq_cs_disconnected"
    and c: "inherits (next_ptr (glob d)) (ctx_of d r) (ctx_of d old) c"
  shows "consistent (handed_over r old c d)"
proof -
  note inv = consistent_parts [OF assms(1)]
  let ?old = "(ctx_of d old)\<lparr>msgs := [], ctx_subs := []\<rparr>" and ?pins = "\<lambda>s. int (queue_refs s (ctx_of d old))"
  define d1 where "d1 = put_ctx old ?old d"
  define d2 where "d2 = put_ctx r c d1"
  let ?e = "handed_over r old c d" and ?m = "move_leaves r old (ctx_subs (ctx_of d old)) d2"
  have e: "?e = move_leaves r old (ctx_subs (ctx_of d old)) d2" by (simp add: handed_over_def d2_def d1_def upd_ctx_def)
  have q: "queue_refs s c = queue_refs s (ctx_of d old)" "queue_refs s (ctx_of d r) = 0" "queue_refs s ?old = 0" for s
    using c assms(5) by (simp_all add: inherits_def queue_refs_keys unborn_def keys_def key_refs_def)
  have m0: "msgs_inv (\<lambda>s. 0) d" "linked d" "topics_ok d" using inv(1) by (simp_all add: broker_inv_def)
  have "msgs_inv ?pins d1" unfolding d1_def
    by (rule msgs_inv_repin [OF m0(1) live(2)]) (use old q in \<open>simp_all add: abandoned_def\<close>)
  then have "msgs_inv (\<lambda>s. 0) d2" unfolding d2_def
    by (rule msgs_inv_repin) (use c live q assms(2) in \<open>simp_all add: d1_def inherits_def\<close>)
  then have m: "msgs_inv (\<lambda>s. 0) ?e"
    unfolding e by (rule msgs_inv_subs) simp_all
  have "linked ?e"
  proof (rule move_leaves_linked [OF m0(2) assms(2)])
    show "ctx_subs (ctx_of d r) = []" using assms(5) by (simp add: unborn_def)
    show "subs ?e = subs (move_leaves r old (ctx_subs (ctx_of d old)) d)"
      unfolding e by (rule move_leaves_cong) (simp add: d2_def d1_def)
    show "ctx_subs (ctx_of ?e q) = (if q = r then ctx_subs (ctx_of d old) else if q = old then [] else ctx_subs (ctx_of d q))" for q
      using c by (simp add: handed_over_simps(1) [OF assms(2)] inherits_def)
  qed
  moreover have "topics_ok ?e" using m0(3) by (simp add: topics_ok_def handed_over_simps(3) [OF assms(2)])
  ultimately have b: "broker_inv (\<lambda>s. 0) ?e" using m by (simp add: broker_inv_def)
  have "clients_ok ?e" by (rule handed_over_clients [OF inv(2) assms(2) live]) (use c in \<open>simp add: inherits_def\<close>)
  then show ?thesis using b by (simp add: consistent_def)
qed

text \<open>The context that takes the queue of \<open>old\<close> over.\<close>

definition inherited :: "int \<Rightarrow> ctx \<Rightarrow> ctx \<Rightarrow> ctx" where
  "inherited n c old =
     (if msgs old = [] then c
      else reset_queue n (c\<lparr>msgs := msgs old, msg_count := msg_count old, msg_count12 := msg_count12 old,
                            last_msg := last_msg old\<rparr>))\<lparr>ctx_subs := ctx_subs old\<rparr>"

lemma put_twice: "put_ctx r x (put_ctx r y d) = put_ctx r x d"
  "r \<noteq> q \<Longrightarrow> put_ctx r x (put_ctx q y d) = put_ctx q y (put_ctx r x d)"
  by (simp_all add: put_ctx_def fun_upd_twist)

lemma inherit_form:
  assumes "msgs_inv pins d" and live: "ctx_live d r" "ctx_live d old" and "r \<noteq> old" and "ctx_id (ctx_of d old) \<noteq> None"
  shows "inherit r old d = handed_over r old (inherited (max_inflight (glob d)) (ctx_of d r) (ctx_of d old)) d"
proof -
  have q: "queue_ok (next_ptr (glob d)) (ctx_of d old)" using msgs_inv_queue [OF assms(1) live(2)] assms(5) by simp
  let ?c = "(ctx_of d r)\<lparr>msgs := msgs (ctx_of d old)\<rparr>" and ?o = "(ctx_of d old)\<lparr>msgs := []\<rparr>"
  define x where "x = put_ctx old ?o (put_ctx r ?c d)"
  have cx: "ctx_of x r = ?c" "ctx_of x old = ?o" "glob x = glob d" using assms(4) by (simp_all add: x_def)
  have lx: "ctx_live x r" using live by (simp add: x_def)
  have q2: "\<forall>m \<in> set (msgs (ctx_of x r)). cm_direction m = mosq_md_in \<longrightarrow> cm_qos m = 2"
    using incoming_qos2 [OF assms(1) live(2)] by (simp add: cx)
  have move: "snd (mqtt3_db_message_reconnect_reset r x) =
      put_ctx r ((inherited (max_inflight (glob d)) (ctx_of d r) (ctx_of d old))\<lparr>ctx_subs := ctx_subs (ctx_of d r)\<rparr>) x"
    if "msgs (ctx_of d old) \<noteq> []"
    using that q unfolding reset_any_queue [OF lx q2] cx snd_conv
    by (simp add: inherited_def queue_ok_def keys_def last_map pos_qos_msgs reset_queue_def msg_key_def)
  define d1 where "d1 = (if msgs (ctx_of d old) \<noteq> [] then snd (mqtt3_db_message_reconnect_reset r x) else d)"
  have run: "inherit r old d = move_leaves r old (ctx_subs (ctx_of d1 old))
      (upd_ctx old (\<lambda>c. c\<lparr>ctx_subs := []\<rparr>) (upd_ctx r (\<lambda>c. c\<lparr>ctx_subs := ctx_subs (ctx_of d1 old)\<rparr>) d1))"
    using assms(4) by (simp add: inherit_def Let_def d1_def x_def upd_ctx_def)
  have s1: "ctx_subs (ctx_of d1 old) = ctx_subs (ctx_of d old)"
    using assms(4) by (auto simp: d1_def move cx)
  have f1: "upd_ctx old (\<lambda>c. c\<lparr>ctx_subs := []\<rparr>) (upd_ctx r (\<lambda>c. c\<lparr>ctx_subs := ctx_subs (ctx_of d old)\<rparr>) d1)
      = put_ctx r (inherited (max_inflight (glob d)) (ctx_of d r) (ctx_of d old)) (upd_ctx old (\<lambda>c. c\<lparr>msgs := [], ctx_subs := []\<rparr>) d)"
  proof (cases "msgs (ctx_of d old) = []")
    case True
    then have same: "(ctx_of d old)\<lparr>ctx_subs := []\<rparr> = (ctx_of d old)\<lparr>msgs := [], ctx_subs := []\<rparr>" by (cases "ctx_of d old") simp
    show ?thesis using True assms(4) by (simp add: d1_def upd_ctx_def inherited_def put_twice same)
  next
    case False
    then show ?thesis using assms(4)
      by (simp add: d1_def move upd_ctx_def cx) (simp add: inherited_def x_def put_twice)
  qed
  show ?thesis unfolding run s1 f1 handed_over_def ..
qed

lemma inherited_ok:
  assumes "queue_ok n old" and "queue_ok n c" and "msgs c = []"
  shows "inherits n c old (inherited k c old)"
proof (cases "msgs old = []")
  case True
  then show ?thesis using assms by (simp add: inherits_def inherited_def queue_ok_def keys_def identity_def)
next
  case False
  let ?c = "c\<lparr>msgs := msgs old, msg_count := msg_count old, msg_count12 := msg_count12 old, last_msg := last_msg old\<rparr>"
  have i: "inherited k c old = (reset_queue k ?c)\<lparr>ctx_subs := ctx_subs old\<rparr>" using False by (simp add: inherited_def)
  have k: "keys ?c = keys old" by (simp add: keys_def)
  have "same_queue ?c (inherited k c old)"
    using reset_queue_same [of ?c k] unfolding i by (simp add: same_queue_def keys_def)
  then have "keys (inherited k c old) = keys old" "queue_ok n (inherited k c old)"
    using k queue_ok_same [OF assms(1), of "inherited k c old"] by (simp_all add: same_queue_def)
  then show ?thesis unfolding inherits_def i by (simp add: reset_queue_def identity_def)
qed

subsection \<open>Closing the old context\<close>

text \<open>The effect of \<^verbatim>\<open>do_disconnect\<close> on a context that is disconnecting with a clean session.\<close>

definition evicted :: "int \<Rightarrow> ctx \<Rightarrow> ctx" where
  "evicted t c = (closed (c\<lparr>will := None, disconnect_t := t\<rparr>))\<lparr>ctx_id := None, state := mosq_cs_disconnected\<rparr>"

definition evict :: "ctx_ref \<Rightarrow> db \<Rightarrow> db" where
  "evict r d = (put_ctx r (evicted (wall (glob d)) (ctx_of d r)) d)
     \<lparr>contexts_by_sock := filter (\<lambda>(k, q). q \<noteq> r) (contexts_by_sock d), listeners := left (ctx_listener (ctx_of d r)) (listeners d),
      ll_for_free := r # ll_for_free d, contexts_by_id := filter (\<lambda>(i, q). q \<noteq> r) (contexts_by_id d)\<rparr>"

lemma do_disconnect_evict:
  assumes ok: "clients_ok d" and fin: "finite (dom (contexts d))" and live: "ctx_live d r"
    and st: "state (ctx_of d r) = mosq_cs_disconnecting" and c: "clean_session (ctx_of d r)" "bridge (ctx_of d r) = None"
  shows "do_disconnect r d = evict r d"
proof -
  define d1 where "d1 = upd_ctx r (\<lambda>c. c\<lparr>will := None, disconnect_t := wall (glob d)\<rparr>) d"
  have free: "r \<notin> set (ll_for_free d)" using ok st by (auto simp: clients_ok_def disused_ok_def)
  have c1: "clients_ok d1" unfolding d1_def
    by (rule clients_upd [OF ok live]) (use free in simp_all)
  have live1: "ctx_live d1 r" by (simp add: d1_def)
  have fin1: "finite (dom (contexts d1))" using fin by (simp add: d1_def upd_ctx_def put_ctx_def)
  define e where "e = mqtt3_context_disconnect r d"
  have e: "e = (put_ctx r (closed (ctx_of d1 r)) d1)\<lparr>contexts_by_sock := filter (\<lambda>(k, q). q \<noteq> r) (contexts_by_sock d),
       listeners := left (ctx_listener (ctx_of d r)) (listeners d)\<rparr>"
  proof -
    have "ctx_listener (ctx_of d1 r) = ctx_listener (ctx_of d r)" "listeners d1 = listeners d" "contexts_by_sock d1 = contexts_by_sock d"
      by (simp_all add: d1_def upd_ctx_def put_tables)
    then show ?thesis
      using socket_close_form [OF c1 fin1 live1] st
      by (simp add: e_def mqtt3_context_disconnect_def Let_def flip: d1_def split: option.split)
  qed
  define e2 where "e2 = e\<lparr>ll_for_free := r # ll_for_free d\<rparr>"
  have tables: "contexts_by_id e = contexts_by_id d" "ll_for_free e = ll_for_free d"
    by (simp_all add: e d1_def upd_ctx_def put_ctx_def)
  have ctx: "ctx_of e r = closed ((ctx_of d r)\<lparr>will := None, disconnect_t := wall (glob d)\<rparr>)"
    by (simp add: e d1_def ctx_of_def upd_ctx_def put_ctx_def)
  have run: "do_disconnect r d = upd_ctx r (\<lambda>c. c\<lparr>state := mosq_cs_disconnected\<rparr>) (forget_id r e2)"
    using st c free by (simp add: do_disconnect_def Let_def add_context_to_disused_def e2_def ctx tables closed_def flip: e_def)
  have ids: "ids_ok e2" and live2: "ctx_live e2 r"
    using c1 live1 by (auto simp: clients_ok_def ids_ok_def e2_def e ctx_of_def ctx_live_def put_ctx_def closed_def)
  show ?thesis unfolding run forget_id_form [OF ids live2]
    by (simp add: e2_def e d1_def evict_def evicted_def upd_ctx_def put_ctx_def ctx_of_def)
qed

lemma evict_handed_over:
  assumes "r \<noteq> old" and g: "g = (\<lambda>c. c\<lparr>clean_session := True, state := mosq_cs_disconnecting\<rparr>)"
  shows "evict old (upd_ctx old g (handed_over r old c d)) = handed_over r old c (evict old (upd_ctx old g d))"
proof -
  let ?x = "evict old (upd_ctx old g d)" and ?f = "\<lambda>c :: ctx. c\<lparr>msgs := [], ctx_subs := []\<rparr>"
  define t where "t = subs (move_leaves r old (ctx_subs (ctx_of d old)) d)"
  have form: "handed_over r old c x = (put_ctx r c (upd_ctx old ?f x))\<lparr>subs := t\<rparr>"
    if "subs x = subs d" "ctx_subs (ctx_of x old) = ctx_subs (ctx_of d old)" for x
  proof -
    let ?m = "move_leaves r old (ctx_subs (ctx_of d old)) (put_ctx r c (upd_ctx old ?f x))"
    have "subs ?m = t" unfolding t_def by (rule move_leaves_cong) (simp add: that upd_ctx_def)
    then show ?thesis using move_leaves_cases(1) [of r old "ctx_subs (ctx_of d old)" "put_ctx r c (upd_ctx old ?f x)"] that(2)
      by (simp add: handed_over_def)
  qed
  have x: "subs ?x = subs d" "ctx_subs (ctx_of ?x old) = ctx_subs (ctx_of d old)"
    by (simp_all add: evict_def evicted_def closed_def g upd_ctx_def put_ctx_def ctx_of_def)
  have comm: "evicted n (g (?f c)) = ?f (evicted n (g c))" "ctx_listener (g (?f c)) = ctx_listener (g c)" for n c
    by (rule ctx.equality; simp add: g evicted_def closed_def) (simp add: g)
  show ?thesis unfolding form [OF x] form [OF refl refl]
    by (rule db.equality; use assms(1) in \<open>simp add: evict_def put_ctx_def upd_ctx_def ctx_of_def fun_upd_twist comm\<close>)
qed

subsection \<open>The take-over\<close>

definition displaced :: "ctx \<Rightarrow> ctx" where
  "displaced c = c\<lparr>clean_session := True, state := mosq_cs_disconnecting\<rparr>"

lemma displaced_ok:
  assumes "consistent d" and "ctx_live d old" and "ctx_id (ctx_of d old) \<noteq> None" and "bridge (ctx_of d old) = None"
  shows "do_disconnect old (upd_ctx old displaced d) = evict old (upd_ctx old displaced d)"
    and "consistent (evict old (upd_ctx old displaced d))"
proof -
  let ?d = "upd_ctx old displaced d"
  note inv = consistent_parts [OF assms(1)]
  have free: "old \<notin> set (ll_for_free d)" using inv(2) assms(3) by (auto simp: clients_ok_def disused_ok_def)
  have b: "broker_inv (\<lambda>s. 0) ?d"
    by (rule broker_inv_upd [OF inv(1) assms(2)]) (use assms(3) in \<open>simp_all add: same_queue_def displaced_def keys_def\<close>)
  have c: "clients_ok ?d"
    by (rule clients_upd [OF inv(2) assms(2)]) (use free inv(2) in \<open>auto simp: displaced_def clients_ok_def wills_ok_def\<close>)
  have fin: "finite (dom (contexts ?d))" using b by (simp add: broker_inv_def msgs_inv_def store_inv_def)
  show eq: "do_disconnect old ?d = evict old ?d"
    by (rule do_disconnect_evict [OF c fin]) (use assms(2,4) in \<open>simp_all add: displaced_def\<close>)
  show "consistent (evict old ?d)"
    using do_disconnect_ok(1,2) [OF c b, of old] assms(2) unfolding eq by (simp add: consistent_def displaced_def)
qed

lemma evict_simps:
  "ctx_of (evict r d) q = (if q = r then evicted (wall (glob d)) (ctx_of d r) else ctx_of d q)"
  "glob (evict r d) = glob d" "subs (evict r d) = subs d" "msg_store (evict r d) = msg_store d"
  "ctx_live d r \<Longrightarrow> ctx_live (evict r d) q = ctx_live d q"
  "contexts_by_id (evict r d) = filter (\<lambda>(i, q). q \<noteq> r) (contexts_by_id d)" "ll_for_free (evict r d) = r # ll_for_free d"
  "settings (evict r d) = settings d"
  by (auto simp: evict_def ctx_of_def put_ctx_def ctx_live_def settings_def)

text \<open>Whether the session of \<open>old\<close> lasts, and the two contexts afterwards.\<close>

definition lasting :: "bool \<Rightarrow> ctx \<Rightarrow> bool" where
  "lasting clean old \<longleftrightarrow> \<not> clean \<and> \<not> clean_session old"

definition successor :: "int \<Rightarrow> bool \<Rightarrow> ctx \<Rightarrow> ctx \<Rightarrow> ctx" where
  "successor n clean c old =
     (if lasting clean old then inherited n (c\<lparr>clean_session := clean\<rparr>) old else c\<lparr>clean_session := clean\<rparr>)"

definition predecessor :: "int \<Rightarrow> bool \<Rightarrow> ctx \<Rightarrow> ctx" where
  "predecessor t clean old =
     (if lasting clean old then (evicted t (displaced old))\<lparr>msgs := [], ctx_subs := []\<rparr> else evicted t (displaced old))"

lemma take_over_spec:
  assumes "ready r d" and "find_context cid d = Some old" and "bridge (ctx_of d old) = None"
    and e: "e = snd (take_over r cid clean d)"
  shows "consistent e" and "\<And>q. ctx_live e q = ctx_live d q" and "r \<noteq> old"
    and "\<And>q. ctx_of e q = (if q = r then successor (max_inflight (glob d)) clean (ctx_of d r) (ctx_of d old)
        else if q = old then predecessor (wall (glob d)) clean (ctx_of d old) else ctx_of d q)"
    and "glob e = glob d" and "msg_store e = msg_store d"
    and "subs e = (if lasting clean (ctx_of d old) then subs (move_leaves r old (ctx_subs (ctx_of d old)) d) else subs d)"
    and "contexts_by_id e = filter (\<lambda>(i, q). q \<noteq> old) (contexts_by_id d)" and "ll_for_free e = old # ll_for_free d"
    and "settings e = settings d"
proof -
  have c: "consistent d" "ctx_live d r" "unborn (ctx_of d r)" "state (ctx_of d r) = mosq_cs_new"
    using assms(1) by (simp_all add: ready_def)
  have "(cid, old) \<in> set (contexts_by_id d)" using assms(2) by (auto simp: find_context_def dest: map_of_SomeD)
  then have old: "ctx_live d old" "ctx_id (ctx_of d old) = Some cid"
    using c(1) by (auto simp: consistent_def clients_ok_def ids_ok_def)
  then show ne: "r \<noteq> old" using c(3) by (auto simp: unborn_def)
  define d1 where "d1 = upd_ctx r (\<lambda>c. c\<lparr>clean_session := clean\<rparr>) d"
  have "connects r d d1" unfolding d1_def by (rule connects_upd [OF assms(1)]) (simp add: dresses_def)
  then have r1: "ready r d1" by (rule connects_ready)
  have c1: "consistent d1" "unborn (ctx_of d1 r)" using r1 by (simp_all add: ready_def)
  have f1: "ctx_of d1 old = ctx_of d old" "ctx_of d1 r = (ctx_of d r)\<lparr>clean_session := clean\<rparr>" "glob d1 = glob d" "subs d1 = subs d"
    "ctx_live d1 q \<longleftrightarrow> ctx_live d q" "q \<noteq> r \<Longrightarrow> ctx_of d1 q = ctx_of d q" "msg_store d1 = msg_store d"
    "contexts_by_id d1 = contexts_by_id d" "ll_for_free d1 = ll_for_free d"
    "settings d1 = settings d" for q
    using ne c(2) by (auto simp: d1_def) (simp_all add: upd_ctx_def put_ctx_def)
  let ?v = "evict old (upd_ctx old displaced d1)"
  have dis: "do_disconnect old (upd_ctx old displaced d1) = ?v" "consistent ?v"
    by (rule displaced_ok [OF c1(1)]; use old assms(3) f1 in simp)+
  have v: "ctx_of ?v q = (if q = old then evicted (wall (glob d)) (displaced (ctx_of d old)) else ctx_of d1 q)"
    "ctx_live ?v q = ctx_live d q" "glob ?v = glob d" "subs ?v = subs d" "msg_store ?v = msg_store d" "contexts_by_id ?v = filter (\<lambda>(i, q). q \<noteq> old) (contexts_by_id d)"
    "ll_for_free ?v = old # ll_for_free d"
    "settings ?v = settings d" for q
    using f1 old(1) by (auto simp: evict_simps) (simp_all add: upd_ctx_def put_ctx_def)
  have run: "e = do_disconnect old (upd_ctx old displaced (if lasting clean (ctx_of d old) then inherit r old d1 else d1))"
    using assms(2) f1(1) by (simp add: e take_over_def Let_def lasting_def displaced_def [abs_def] flip: d1_def)
  define k where "k = inherited (max_inflight (glob d)) (ctx_of d1 r) (ctx_of d old)"
  have m1: "msgs_inv (\<lambda>s. 0) d1" using c1(1) by (simp add: consistent_def broker_inv_def)
  have lo: "ctx_live d1 r" "ctx_live d1 old" using c(2) old(1) f1(5) by simp_all
  have qo: "queue_ok (next_ptr (glob d)) (ctx_of d old)" "queue_ok (next_ptr (glob d)) (ctx_of d1 r)"
    using msgs_inv_queue [OF m1 lo(2)] msgs_inv_active [OF m1 lo(1)] old(2) c(4) f1 by simp_all
  have ih: "inherits (next_ptr (glob d)) (ctx_of d1 r) (ctx_of d old) k"
    unfolding k_def by (rule inherited_ok [OF qo]) (use c1(2) in \<open>simp add: unborn_def\<close>)
  have last: "e = handed_over r old k ?v \<and> consistent e" if "lasting clean (ctx_of d old)"
  proof -
    have "inherit r old d1 = handed_over r old k d1"
      using inherit_form [OF m1 lo ne] old(2) f1 by (simp add: k_def)
    moreover have "do_disconnect old (upd_ctx old displaced (handed_over r old k d1)) = evict old (upd_ctx old displaced (handed_over r old k d1))"
    proof (rule do_disconnect_evict)
      have "identity k = identity (ctx_of d1 r)" using ih by (simp add: inherits_def)
      then have cl: "clients_ok (handed_over r old k d1)"
        by (rule handed_over_clients [OF consistent_parts(2) [OF c1(1)] ne lo])
      have co: "ctx_of (handed_over r old k d1) old = (ctx_of d old)\<lparr>msgs := [], ctx_subs := []\<rparr>"
        using ne f1(1) by (simp add: handed_over_simps(1) [OF ne])
      have lv: "ctx_live (handed_over r old k d1) old" using lo by (simp add: handed_over_simps(6) [OF ne])
      have "old \<notin> set (ll_for_free (handed_over r old k d1))"
        using cl old(2) co by (auto simp: clients_ok_def disused_ok_def)
      then show "clients_ok (upd_ctx old displaced (handed_over r old k d1))"
        using cl by (intro clients_upd [OF cl lv]) (auto simp: displaced_def clients_ok_def wills_ok_def)
      have "contexts (handed_over r old k d1) = (contexts d1)(old := Some ((ctx_of d old)\<lparr>msgs := [], ctx_subs := []\<rparr>), r := Some k)"
        by (simp add: handed_over_def put_ctx_def upd_ctx_def f1)
      then show "finite (dom (contexts (upd_ctx old displaced (handed_over r old k d1))))"
        using m1 by (simp add: upd_ctx_def put_ctx_def msgs_inv_def store_inv_def)
    qed (use ne f1 assms(3) in \<open>simp_all add: displaced_def handed_over_simps(1) [OF ne]\<close>)
    ultimately have e: "e = handed_over r old k ?v"
      using that evict_handed_over [OF ne, of displaced k d1] by (simp add: run displaced_def fun_eq_iff)
    have "consistent (handed_over r old k ?v)"
      by (rule handed_over_ok [OF dis(2) ne])
        (use v f1 old(1) c(2) c1(2) ne ih in \<open>auto simp: evicted_def closed_def inherits_def displaced_def keys_def\<close>)
    then show ?thesis using e by simp
  qed
  have keep: "e = ?v" if "\<not> lasting clean (ctx_of d old)" using that dis(1) by (simp add: run)
  show "consistent e" using last keep dis(2) by (cases "lasting clean (ctx_of d old)") blast+
  note h = handed_over_simps [OF ne, where c = k and d = ?v]
  show "ctx_live e q = ctx_live d q" for q
    using last keep h(6) v(2) c(2) old(1) by (cases "lasting clean (ctx_of d old)") simp_all
  show "ctx_of e q = (if q = r then successor (max_inflight (glob d)) clean (ctx_of d r) (ctx_of d old)
        else if q = old then predecessor (wall (glob d)) clean (ctx_of d old) else ctx_of d q)" for q
    using last keep h(1) v(1) f1 ne
    by (cases "lasting clean (ctx_of d old)") (simp_all add: successor_def predecessor_def k_def)
  show "glob e = glob d" "msg_store e = msg_store d"
    using last keep h(2,3) v(3,5) by (cases "lasting clean (ctx_of d old)"; simp)+
  have "subs (handed_over r old k ?v) = subs (move_leaves r old (ctx_subs (ctx_of d old)) d)"
    unfolding handed_over_def v(1) by (simp add: evicted_def closed_def displaced_def) (rule move_leaves_cong, simp add: upd_ctx_def evict_simps f1)
  then show "subs e = (if lasting clean (ctx_of d old) then subs (move_leaves r old (ctx_subs (ctx_of d old)) d) else subs d)"
    using last keep v(4) by (cases "lasting clean (ctx_of d old)") simp_all
  have "tables e = tables ?v" using last keep h(5) by (cases "lasting clean (ctx_of d old)") simp_all
  then show "contexts_by_id e = filter (\<lambda>(i, q). q \<noteq> old) (contexts_by_id d)" "ll_for_free e = old # ll_for_free d"
    "settings e = settings d"
    using v(6-8) by (simp_all add: tables_def settings_def)
qed

subsection \<open>Entering the table of identifiers\<close>

definition no_rules :: "db \<Rightarrow> bool" where
  "no_rules d \<longleftrightarrow> acl_list d = [] \<and> acl_patterns d = [] \<and> auth_plugin d = None"

lemma readable_all: "no_rules d \<Longrightarrow> ctx_id (ctx_of d r) \<noteq> None \<Longrightarrow> readable_msgs r ms d = (ms, d)"
  by (induction ms) (auto simp: unreadable_def mosquitto_acl_check_def mosquitto_acl_check_default_def no_rules_def)

definition registered :: "string \<Rightarrow> bool \<Rightarrow> byte \<Rightarrow> will_msg option \<Rightarrow> ctx \<Rightarrow> ctx" where
  "registered cid clean version w c = c\<lparr>ctx_acl_list := None, will := (case w of Some x \<Rightarrow> Some x | None \<Rightarrow> will c),
     ctx_id := Some cid, clean_session := clean, ping_t := 0, is_dropping := False,
     is_bridge := is_bridge c \<or> version AND 0x80 = 0x80, state := mosq_cs_connected\<rparr>"

lemma register_form:
  assumes "no_rules d"
  obtains n where "register r cid clean version w d =
    (upd_ctx r (registered cid clean version w) d)\<lparr>contexts_by_id := (cid, r) # contexts_by_id d, persistence_changes := n\<rparr>"
proof -
  define d2 where "d2 = upd_ctx r (\<lambda>c. c\<lparr>ctx_id := Some cid, clean_session := clean, ping_t := 0, is_dropping := False,
      is_bridge := is_bridge c \<or> version AND 0x80 = 0x80\<rparr>)
    (upd_ctx r (\<lambda>c. case w of Some x \<Rightarrow> c\<lparr>will := Some x\<rparr> | None \<Rightarrow> c) (associate_acl r d))"
  have acl: "associate_acl r d = upd_ctx r (\<lambda>c. c\<lparr>ctx_acl_list := None\<rparr>) d" using assms by (simp add: associate_acl_def no_rules_def)
  have "no_rules d2" "ctx_id (ctx_of d2 r) \<noteq> None"
    using assms by (simp_all add: d2_def acl no_rules_def) (simp_all add: upd_ctx_def put_ctx_def)
  then have "drop_unreadable r d2 = upd_ctx r (\<lambda>c. c\<lparr>msgs := msgs (ctx_of d2 r)\<rparr>) d2" by (simp add: drop_unreadable_def readable_all)
  moreover have "(ctx_of d2 r)\<lparr>msgs := msgs (ctx_of d2 r)\<rparr> = ctx_of d2 r" by simp
  moreover have "put_ctx r (ctx_of d2 r) d2 = d2" by (rule put_ctx_same) (simp add: d2_def)
  ultimately have d3: "drop_unreadable r d2 = d2" by (simp add: upd_ctx_def)
  have d2: "d2 = upd_ctx r (\<lambda>c. (registered cid clean version w c)\<lparr>state := state c\<rparr>) d"
    by (cases w) (simp_all add: d2_def acl registered_def upd_ctx_def put_twice)
  define n where "n = (if clean then persistence_changes d else persistence_changes d + 1)"
  have "register r cid clean version w d = upd_ctx r (\<lambda>c. c\<lparr>state := mosq_cs_connected\<rparr>)
      (d2\<lparr>contexts_by_id := (cid, r) # contexts_by_id d2, persistence_changes := n\<rparr>)"
  proof -
    have "persistence_changes d2 = persistence_changes d" by (simp add: d2 upd_ctx_def put_ctx_def)
    then have "(if clean then d2\<lparr>contexts_by_id := (cid, r) # contexts_by_id d2\<rparr>
        else d2\<lparr>contexts_by_id := (cid, r) # contexts_by_id d2, persistence_changes := persistence_changes (d2\<lparr>contexts_by_id := (cid, r) # contexts_by_id d2\<rparr>) + 1\<rparr>)
      = d2\<lparr>contexts_by_id := (cid, r) # contexts_by_id d2, persistence_changes := n\<rparr>"
      by (cases d2) (simp add: n_def)
    then show ?thesis unfolding register_def Let_def d2_def [symmetric] d3 by (rule arg_cong)
  qed
  also have "\<dots> = (upd_ctx r (registered cid clean version w) d)\<lparr>contexts_by_id := (cid, r) # contexts_by_id d, persistence_changes := n\<rparr>"
    unfolding d2 by (cases w; rule db.equality; simp add: upd_ctx_def put_ctx_def ctx_of_def registered_def)
  finally show thesis by (rule that)
qed

lemma register_ok:
  assumes "consistent d" and live: "ctx_live d r" and "no_rules d" and c: "ctx_id (ctx_of d r) = None" "state (ctx_of d r) = mosq_cs_new"
    and "\<forall>x. w = Some x \<longrightarrow> wildcard_free (w_topic x)" and e: "e = register r cid clean version w d"
  shows "consistent e" and "\<And>q. ctx_live e q = ctx_live d q"
    and "\<And>q. ctx_of e q = (if q = r then registered cid clean version w (ctx_of d r) else ctx_of d q)"
    and "contexts_by_id e = (cid, r) # contexts_by_id d" and "subs e = subs d" and "msg_store e = msg_store d"
    and "ll_for_free e = ll_for_free d" and "glob e = glob d" and "settings e = settings d"
proof -
  note inv = consistent_parts [OF assms(1)]
  obtain n where n: "e = (upd_ctx r (registered cid clean version w) d)\<lparr>contexts_by_id := (cid, r) # contexts_by_id d, persistence_changes := n\<rparr>"
    using register_form [OF assms(3)] unfolding e by blast
  show lv: "ctx_live e q = ctx_live d q" for q using live by (auto simp: n ctx_live_def upd_ctx_def put_ctx_def)
  show ct: "ctx_of e q = (if q = r then registered cid clean version w (ctx_of d r) else ctx_of d q)" for q
    by (simp add: n ctx_of_def upd_ctx_def put_ctx_def)
  show t: "contexts_by_id e = (cid, r) # contexts_by_id d" "subs e = subs d" "msg_store e = msg_store d" "ll_for_free e = ll_for_free d"
    "glob e = glob d" "settings e = settings d"
    by (simp_all add: n upd_ctx_def put_ctx_def settings_def)
  have ts: "contexts_by_sock e = contexts_by_sock d" "listeners e = listeners d" by (simp_all add: n upd_ctx_def put_ctx_def)
  have f: "ctx_id (ctx_of e q) = (if q = r then Some cid else ctx_id (ctx_of d q))" "sock (ctx_of e q) = sock (ctx_of d q)"
    "ctx_listener (ctx_of e q) = ctx_listener (ctx_of d q)" "q \<noteq> r \<Longrightarrow> state (ctx_of e q) = state (ctx_of d q)" for q
    by (simp_all add: ct registered_def)
  have "broker_inv (\<lambda>s. 0) (upd_ctx r (registered cid clean version w) d)"
    by (rule broker_inv_upd [OF inv(1) live]) (use c in \<open>simp_all add: same_queue_def registered_def keys_def\<close>)
  then have "broker_inv (\<lambda>s. 0) e" by (rule broker_inv_tables) (simp_all add: n)
  moreover have free: "r \<notin> set (ll_for_free d)" using not_disused [OF assms(1), of r] c(2) by simp
  have "clients_ok e"
  proof -
    have new: "r \<notin> snd ` set (contexts_by_id d)" using inv(2) c(1) by (auto simp: clients_ok_def ids_ok_def)
    have "(i, q) \<in> set (contexts_by_id d) \<longleftrightarrow> ctx_live d q \<and> ctx_id (ctx_of d q) = Some i" for i q
      using inv(2) by (simp add: clients_ok_def ids_ok_def)
    then have "(i, q) \<in> set (contexts_by_id e) \<longleftrightarrow> ctx_live e q \<and> ctx_id (ctx_of e q) = Some i" for i q
      using c(1) live by (auto simp: t(1) lv f)
    then have "ids_ok e" using inv(2) new by (simp add: ids_ok_def clients_ok_def t(1))
    moreover have "socks_ok e" using inv(2) by (simp add: clients_ok_def socks_ok_def ts lv f)
    moreover have "disused_ok e" using inv(2) free f by (auto simp: clients_ok_def disused_ok_def t(4) lv)
    moreover have "listeners_ok e" using inv(2) by (simp add: clients_ok_def listeners_ok_def on_listener_def ts lv f)
    moreover have "wills_ok e" using inv(2) assms(6) by (auto simp: clients_ok_def wills_ok_def ct registered_def split: option.splits if_splits)
    ultimately show ?thesis by (simp add: clients_ok_def)
  qed
  ultimately show "consistent e" by (simp add: consistent_def)
qed

subsection \<open>An accepted CONNECT\<close>

text \<open>The contexts that matter: the new one and the one it replaces, if there is one.\<close>

definition replaced :: "ctx_ref option \<Rightarrow> bool \<Rightarrow> db \<Rightarrow> ctx \<Rightarrow> ctx" where
  "replaced old clean d c =
     (case old of None \<Rightarrow> c | Some o' \<Rightarrow> successor (max_inflight (glob d)) clean c (ctx_of d o'))"

definition unbridged :: "db \<Rightarrow> bool" where
  "unbridged d \<longleftrightarrow> (\<forall>(i, q) \<in> set (contexts_by_id d). bridge (ctx_of d q) = None)"

lemma find_context_Some: "find_context cid d = Some old \<Longrightarrow> (cid, old) \<in> set (contexts_by_id d)"
  by (auto simp: find_context_def dest: map_of_SomeD)

lemma accept_spec:
  assumes "ready r d" and "no_rules d" and "unbridged d" and "\<forall>x. cr_will q = Some x \<longrightarrow> wildcard_free (w_topic x)"
    and run: "accept_connect r q d = (x, e)"
  defines "old \<equiv> find_context (cr_id q) d" and "clean \<equiv> cr_clean q"
  shows "consistent e" and "\<And>p. ctx_live e p = ctx_live d p"
    and "same_but_output (registered (cr_id q) clean (cr_version q) (cr_will q) (replaced old clean d (ctx_of d r))) (ctx_of e r)"
    and "\<And>p. p \<noteq> r \<Longrightarrow> ctx_of e p = (if old = Some p then predecessor (wall (glob d)) clean (ctx_of d p) else ctx_of d p)"
    and "contexts_by_id e = (cr_id q, r) # (case old of None \<Rightarrow> contexts_by_id d | Some p \<Rightarrow> filter (\<lambda>(i, y). y \<noteq> p) (contexts_by_id d))"
    and "ll_for_free e = (case old of None \<Rightarrow> ll_for_free d | Some p \<Rightarrow> p # ll_for_free d)"
    and "msg_store e = msg_store d"
    and "subs e = (case old of None \<Rightarrow> subs d
      | Some p \<Rightarrow> if lasting clean (ctx_of d p) then subs (move_leaves r p (ctx_subs (ctx_of d p)) d) else subs d)"
    and "settings e = settings d"
proof -
  have c: "consistent d" "ctx_live d r" "ctx_id (ctx_of d r) = None" "state (ctx_of d r) = mosq_cs_new"
    using assms(1) by (simp_all add: ready_def unborn_def)
  obtain ack t where t: "take_over r (cr_id q) clean d = (Inr ack, t)"
    by (cases "find_context (cr_id q) d") (auto simp: take_over_def Let_def)
  have T: "consistent t \<and> (\<forall>p. ctx_live t p = ctx_live d p) \<and> ctx_of t r = replaced old clean d (ctx_of d r) \<and>
      (\<forall>p. p \<noteq> r \<longrightarrow> ctx_of t p = (if old = Some p then predecessor (wall (glob d)) clean (ctx_of d p) else ctx_of d p)) \<and>
      contexts_by_id t = (case old of None \<Rightarrow> contexts_by_id d | Some p \<Rightarrow> filter (\<lambda>(i, y). y \<noteq> p) (contexts_by_id d)) \<and>
      ll_for_free t = (case old of None \<Rightarrow> ll_for_free d | Some p \<Rightarrow> p # ll_for_free d) \<and> msg_store t = msg_store d \<and>
      subs t = (case old of None \<Rightarrow> subs d
        | Some p \<Rightarrow> if lasting clean (ctx_of d p) then subs (move_leaves r p (ctx_subs (ctx_of d p)) d) else subs d) \<and>
      settings t = settings d"
  proof (cases old)
    case None
    then have "t = d" using t by (simp add: take_over_def old_def)
    then show ?thesis using None c(1) assms(2) by (simp add: replaced_def)
  next
    case (Some p)
    have b: "bridge (ctx_of d p) = None"
      using assms(3) find_context_Some [of "cr_id q" d p] Some by (auto simp: unbridged_def old_def)
    have e: "t = snd (take_over r (cr_id q) clean d)" by (simp add: t)
    note s = take_over_spec [OF assms(1) Some [unfolded old_def] b e]
    show ?thesis using s(1-10) assms(2) by (auto simp: Some replaced_def)
  qed
  have succ: "ctx_id (replaced old clean d (ctx_of d r)) = None" "state (replaced old clean d (ctx_of d r)) = mosq_cs_new"
    using c(3,4) by (simp_all add: replaced_def successor_def inherited_def reset_queue_def split: option.split)
  define g where "g = register r (cr_id q) clean (cr_version q) (cr_will q) t"
  have tr: "consistent t" "ctx_live t r" "no_rules t" "ctx_id (ctx_of t r) = None" "state (ctx_of t r) = mosq_cs_new"
    using T c(2) succ assms(2) by (simp_all add: settings_def no_rules_def)
  note s = register_ok [OF tr assms(4) g_def]
  have run': "e = snd (with_ctx r (mosquitto_send_connack ack 0) g)"
    using run t by (auto simp: accept_connect_def next_step_def g_def clean_def split: prod.splits)
  have "keeps r g e" unfolding run' by (rule keeps_ops(3) [OF s(1)]) (use s(2) tr(2) in simp_all)
  then have k: "consistent e" "ctx_live e p = ctx_live g p" "tables e = tables g" for p
    by (auto simp: keeps_def calm_but_def)
  obtain rc n y where y: "mosquitto_send_connack ack 0 (glob g, ctx_of g r) = (rc, n, y)" by (cases "mosquitto_send_connack ack 0 (glob g, ctx_of g r)")
  have e: "e = put_ctx r y (g\<lparr>glob := n\<rparr>)" using y by (simp add: run' with_ctx_def)
  have "sends (glob g, ctx_of g r) (mosquitto_send_connack ack 0 (glob g, ctx_of g r))" by simp
  then have "same_but_output (ctx_of g r) y" using y by (simp add: sends_def)
  then show "same_but_output (registered (cr_id q) clean (cr_version q) (cr_will q) (replaced old clean d (ctx_of d r))) (ctx_of e r)"
    using s(3) T by (simp add: e)
  have other: "p \<noteq> r \<Longrightarrow> ctx_of e p = ctx_of t p" for p using s(3) [of p] by (simp add: e ctx_of_glob)
  show "p \<noteq> r \<Longrightarrow> ctx_of e p = (if old = Some p then predecessor (wall (glob d)) clean (ctx_of d p) else ctx_of d p)" for p
    using other T by simp
  show "consistent e" "ctx_live e p = ctx_live d p" for p using k s(2) T by simp_all
  show "contexts_by_id e = (cr_id q, r) # (case old of None \<Rightarrow> contexts_by_id d | Some p \<Rightarrow> filter (\<lambda>(i, y). y \<noteq> p) (contexts_by_id d))"
    "ll_for_free e = (case old of None \<Rightarrow> ll_for_free d | Some p \<Rightarrow> p # ll_for_free d)"
    using k(3) s(4,7) T by (simp_all add: tables_def)
  show "msg_store e = msg_store d"
    "subs e = (case old of None \<Rightarrow> subs d
      | Some p \<Rightarrow> if lasting clean (ctx_of d p) then subs (move_leaves r p (ctx_subs (ctx_of d p)) d) else subs d)"
    using s(5,6) T by (simp_all add: e put_ctx_def)
  show "settings e = settings d" using s(9) T settings_tables [OF k(3)] by simp
qed

lemma will_checked: "check_connect uuid r d = (Inr q, e) \<Longrightarrow> cr_will q = Some x \<Longrightarrow> wildcard_free (w_topic x)"
  by (auto simp: check_connect_def next_step_Inr read_will_def require_Inr pub_topic_check_iff go_on_def stop_def split: if_splits)

text \<open>The second half of an accepted CONNECT begins in a state like the first.\<close>

definition settled :: "ctx_ref \<Rightarrow> db \<Rightarrow> bool" where
  "settled r d \<longleftrightarrow> ready r d \<and> no_rules d \<and> unbridged d \<and> distinct (map fst (contexts_by_id d))"

lemma accepted_run:
  assumes "settled r d" and "check_connect uuid r (counted d) = (Inr q, d1)"
  obtains x where "settled r d1" and "\<forall>y. cr_will q = Some y \<longrightarrow> wildcard_free (w_topic y)"
    and "accept_connect r q d1 = (x, snd (mqtt3_handle_connect uuid r d))" and "connects r d d1"
proof -
  have r: "ready r d" using assms(1) by (simp add: settled_def)
  have "connects r (counted d) d1" by (rule politeD [OF polite_check ready_counted [OF r] assms(2)])
  then have c: "connects r d d1" by (simp add: connects_def)
  then have h: "hub d1 = hub d" "ready r d1" by (simp_all add: connects_def)
  have new: "(i, p) \<in> set (contexts_by_id d) \<Longrightarrow> p \<noteq> r" for i p
    using r by (auto simp: ready_def unborn_def consistent_def clients_ok_def ids_ok_def)
  have "bridge (ctx_of d1 p) = None" if "(i, p) \<in> set (contexts_by_id d)" for i p
    using that assms(1) new [OF that] c by (auto simp: settled_def unbridged_def connects_def)
  then have "settled r d1" using assms(1) h by (auto simp: settled_def unbridged_def no_rules_def hub_def)
  moreover obtain x e where "accept_connect r q d1 = (x, e)" by fastforce
  moreover from this have "snd (mqtt3_handle_connect uuid r d) = e"
    using assms(2) by (simp add: mqtt3_handle_connect_def finish_def next_step_def flip: counted_def split: sum.split)
  ultimately show thesis using that c will_checked [OF assms(2)] by blast
qed

lemma names_after:
  "distinct (map fst xs) \<Longrightarrow> distinct (map snd xs) \<Longrightarrow>
     distinct (map fst ((cid, r) # (case map_of xs cid of None \<Rightarrow> xs | Some p \<Rightarrow> filter (\<lambda>(i, y). y \<noteq> p) xs)))"
proof -
  assume d: "distinct (map fst xs)" "distinct (map snd xs)"
  have "cid \<notin> fst ` set (filter (\<lambda>(i, y). y \<noteq> p) xs)" if "map_of xs cid = Some p" for p
    using that d(1) by (auto dest: map_of_SomeD eq_key_imp_eq_value)
  moreover have "distinct (map fst (filter P xs))" for P using d(1) by (induction xs) auto
  ultimately show ?thesis using d(1) by (auto simp: map_of_eq_None_iff split: option.split)
qed

text \<open>
  C24. An accepted CONNECT makes the client known, under one name only. In a broker without access
  rules where no two clients have the same id, when the checks of \<^verbatim>\<open>mqtt3_handle_connect\<close> pass
  for a new client, the broker is consistent afterwards, the identifier finds the new context and
  nobody else's name is used twice, the client is connected with the requested clean-session flag
  and will, and no other context is gone.
\<close>

theorem accepted_connect_registers:
  assumes "settled r d" and "check_connect uuid r (counted d) = (Inr q, d1)"
  defines "e \<equiv> snd (mqtt3_handle_connect uuid r d)"
  shows "consistent e \<and> find_context (cr_id q) e = Some r \<and> distinct (map fst (contexts_by_id e)) \<and>
    ctx_id (ctx_of e r) = Some (cr_id q) \<and> state (ctx_of e r) = mosq_cs_connected \<and>
    clean_session (ctx_of e r) = cr_clean q \<and> will (ctx_of e r) = cr_will q \<and> (\<forall>p. ctx_live e p = ctx_live d p)"
proof -
  obtain x where s: "settled r d1" and w: "\<forall>y. cr_will q = Some y \<longrightarrow> wildcard_free (w_topic y)"
    and run: "accept_connect r q d1 = (x, e)" and c: "connects r d d1"
    using accepted_run [OF assms(1,2)] unfolding e_def by blast
  have r1: "ready r d1" "no_rules d1" "unbridged d1" using s by (simp_all add: settled_def)
  note a = accept_spec [OF r1 w run]
  have "distinct (map fst (contexts_by_id e))"
    unfolding a(5) find_context_def
    by (rule names_after) (use s in \<open>simp_all add: settled_def ready_def consistent_def clients_ok_def ids_ok_def\<close>)
  moreover have "will (ctx_of d1 r) = None" using r1(1) by (simp add: ready_def)
  then have "ctx_id (ctx_of e r) = Some (cr_id q) \<and> state (ctx_of e r) = mosq_cs_connected \<and>
      clean_session (ctx_of e r) = cr_clean q \<and> will (ctx_of e r) = cr_will q"
    using identity_fields [OF later_identity [OF same_but_outputD [OF a(3), THEN conjunct1]]]
    by (auto simp: registered_def replaced_def successor_def inherited_def reset_queue_def split: option.splits)
  moreover have "ctx_live d1 p = ctx_live d p" for p
    using c assms(1) by (cases "p = r") (auto simp: connects_def settled_def ready_def)
  ultimately show ?thesis using a(1,2) by (simp add: a(5) find_context_def)
qed

lemma output_keeps_queue: "same_but_output c c' \<Longrightarrow> msgs c' = msgs c \<and> ctx_subs c' = ctx_subs c"
  by (cases c; cases c') (simp add: same_but_output_def)

lemma leaves_moved:
  assumes "linked d"
  shows "leaves_at p (move_leaves r old (ctx_subs (ctx_of d old)) d) = map (heir r old) (leaves_at p d)"
proof -
  have "map (heir r old) (leaves_at p d) = leaves_at p d" if "Some p \<notin> set (ctx_subs (ctx_of d old))"
    using that linkedD(2) [OF assms, of p old] by (intro map_idI) (auto simp: heir_def)
  then show ?thesis unfolding move_leaves_cases(4) by auto
qed

text \<open>
  C5. A session is taken over whole, or ended. In a broker in order (\<open>settled\<close>), without access lists, plugin
  and bridges, when the identifier of an accepted CONNECT belongs
  to another context, that context is closed and left to be freed without its will being
  published; nobody but the two contexts is changed and no stored message is added or lost. If
  neither side asks for a clean session, the new context gets the queue of the old one, made ready
  to be sent again from the first message on, and exactly its subscriptions, each with its QoS;
  otherwise it starts with an empty queue and no subscription.
\<close>

theorem session_taken_over:
  assumes "settled r d" and "check_connect uuid r (counted d) = (Inr q, d1)" and "find_context (cr_id q) d = Some old"
  defines "e \<equiv> snd (mqtt3_handle_connect uuid r d)"
  shows "(\<forall>p. p \<noteq> r \<and> p \<noteq> old \<longrightarrow> ctx_of e p = ctx_of d p) \<and> msg_store e = msg_store d \<and>
    ll_for_free e = old # ll_for_free d \<and> ctx_id (ctx_of e old) = None \<and> sock (ctx_of e old) < 0 \<and> will (ctx_of e old) = None \<and>
    (if \<not> cr_clean q \<and> \<not> clean_session (ctx_of d old)
     then msgs (ctx_of e r) = unqueue_prefix (max_inflight (glob d1)) (map reset_msg (msgs (ctx_of d old))) \<and>
          msgs (ctx_of e old) = [] \<and> (\<forall>p. leaves_at p e = map (heir r old) (leaves_at p d))
     else msgs (ctx_of e r) = [] \<and> ctx_subs (ctx_of e r) = [] \<and> subs e = subs d)"
proof -
  obtain x where s: "settled r d1" and w: "\<forall>y. cr_will q = Some y \<longrightarrow> wildcard_free (w_topic y)"
    and run: "accept_connect r q d1 = (x, e)" and c: "connects r d d1"
    using accepted_run [OF assms(1,2)] unfolding e_def by blast
  have r1: "ready r d1" "no_rules d1" "unbridged d1" using s by (simp_all add: settled_def)
  have h: "contexts_by_id d1 = contexts_by_id d" "ll_for_free d1 = ll_for_free d" "msg_store d1 = msg_store d" "subs d1 = subs d"
    "\<And>p. p \<noteq> r \<Longrightarrow> ctx_of d1 p = ctx_of d p"
    using c by (simp_all add: connects_def hub_def)
  have f: "find_context (cr_id q) d1 = Some old" using assms(3) by (simp add: find_context_def h)
  note a = accept_spec [OF r1 w run, unfolded f option.case]
  have "(cr_id q, old) \<in> set (contexts_by_id d)" by (rule find_context_Some [OF assms(3)])
  then have ne: "old \<noteq> r" using assms(1) by (auto simp: settled_def ready_def unborn_def consistent_def clients_ok_def ids_ok_def)
  have new: "msgs (ctx_of e r) = msgs (replaced (Some old) (cr_clean q) d1 (ctx_of d1 r))"
    "ctx_subs (ctx_of e r) = ctx_subs (replaced (Some old) (cr_clean q) d1 (ctx_of d1 r))"
    using output_keeps_queue [OF a(3)] by (simp_all add: registered_def)
  have unborn: "unborn (ctx_of d1 r)" and link: "linked d1" using r1(1) by (simp_all add: ready_def consistent_def broker_inv_def)
  have others: "\<forall>p. p \<noteq> r \<and> p \<noteq> old \<longrightarrow> ctx_of e p = ctx_of d p" using a(4) h(5) by simp
  have away: "ctx_of e old = predecessor (wall (glob d1)) (cr_clean q) (ctx_of d old)" using a(4) [of old] ne h(5) by simp
  then have gone: "ctx_id (ctx_of e old) = None" "sock (ctx_of e old) < 0" "will (ctx_of e old) = None"
    by (simp_all add: predecessor_def evicted_def closed_def displaced_def)
  have old1: "ctx_of d1 old = ctx_of d old" using h(5) ne by simp
  show ?thesis
  proof (cases "lasting (cr_clean q) (ctx_of d old)")
    case True
    have "unqueue_prefix n [] = []" for n by (simp add: unqueue_prefix_def)
    then have "msgs (ctx_of e r) = unqueue_prefix (max_inflight (glob d1)) (map reset_msg (msgs (ctx_of d old)))"
      using True unborn by (simp add: new replaced_def successor_def inherited_def reset_queue_def old1 unborn_def)
    moreover have "msgs (ctx_of e old) = []" using True by (simp add: away predecessor_def)
    moreover have "leaves_at p e = map (heir r old) (leaves_at p d)" for p
      using leaves_moved [OF link, of p r old] True a(8) by (simp add: leaves_at_info h old1)
    ultimately show ?thesis using True others gone a(6,7) h by (simp add: lasting_def)
  next
    case False
    have "msgs (ctx_of e r) = []" "ctx_subs (ctx_of e r) = []"
      using False unborn by (simp_all add: new replaced_def successor_def old1 unborn_def)
    moreover have "subs e = subs d" using False a(8) by (simp add: h old1)
    ultimately show ?thesis using False others gone a(6,7) h unfolding lasting_def by auto
  qed
qed

subsection \<open>The filter on a queue that was taken over\<close>

lemma readable_length: "length (fst (readable_msgs r ms d)) \<le> length ms"
proof (induction ms arbitrary: d)
  case (Cons m ms)
  show ?case using Cons [of d] Cons [of "snd (msg_store_deref (cm_store m) d)"] by (auto split: prod.split)
qed simp

lemma readable_shorter: "m \<in> set ms \<Longrightarrow> unreadable r m d \<Longrightarrow> length (fst (readable_msgs r ms d)) < length ms"
proof (induction ms)
  case (Cons x ms)
  show ?case using Cons readable_length [of r ms "snd (msg_store_deref (cm_store x) d)"] by (auto split: prod.split)
qed simp

lemma readable_contexts: "contexts (snd (readable_msgs r ms d)) = contexts d"
proof (induction ms arbitrary: d)
  case (Cons m ms)
  have "contexts (snd (msg_store_deref s e)) = contexts e" for s e
    by (simp add: msg_store_deref_def Let_def set_fault_def msg_store_remove_def)
  then show ?case using Cons [of d] Cons [of "snd (msg_store_deref (cm_store m) d)"] by (auto split: prod.split)
qed simp

text \<open>
  The filter of \<^verbatim>\<open>mqtt3_handle_connect\<close> on the queue of a client leaves the counters behind.
  If some queued message may not be read by the client, the messages are unlinked without
  \<^verbatim>\<open>msg_count\<close>, \<^verbatim>\<open>msg_count12\<close> and \<^verbatim>\<open>last_msg\<close> being brought up to date, so that afterwards the counter
  is larger than the queue is long and the queue no longer satisfies its invariant.
\<close>

theorem acl_filter_leaves_counters:
  assumes "queue_ok n (ctx_of d r)" and "m \<in> set (msgs (ctx_of d r))" and "unreadable r m d"
  defines "c \<equiv> ctx_of (drop_unreadable r d) r"
  shows "int (length (msgs c)) < msg_count c \<and> last_msg c = last_msg (ctx_of d r) \<and> \<not> queue_ok k c"
proof -
  obtain ms e where r: "readable_msgs r (msgs (ctx_of d r)) d = (ms, e)" by fastforce
  have "ctx_of e r = ctx_of d r" using readable_contexts [of r "msgs (ctx_of d r)" d] r by (simp add: ctx_of_def)
  then have c: "c = (ctx_of d r)\<lparr>msgs := ms\<rparr>" by (simp add: c_def drop_unreadable_def r)
  have "length ms < length (msgs (ctx_of d r))" using readable_shorter [OF assms(2,3)] r by simp
  moreover have "msg_count c = int (length (msgs (ctx_of d r)))" using assms(1) by (simp add: c queue_ok_def)
  ultimately show ?thesis by (auto simp: queue_ok_def c)
qed

subsection \<open>A sample\<close>

text \<open>
  A second connection to the broker of the sample, with a packet to handle: the one of the sample
  client connecting again, and one with an unknown version.
\<close>

definition connecting_db :: "packet \<Rightarrow> db" where
  "connecting_db p = (upd_ctx 8 (\<lambda>c. c\<lparr>in_packet := p\<rparr>) (snd (mqtt3_context_init 8 True 5 client_db)))\<lparr>cfg := config_init\<rparr>"

definition reconnect_packet :: packet where
  "reconnect_packet = packet_zero\<lparr>command := 0x10, remaining_length := 14,
     payload := [0, 4, 77, 81, 84, 84, 4, 0, 0, 60, 0, 2, 99, 49]\<rparr>"

definition future_packet :: packet where
  "future_packet = packet_zero\<lparr>command := 0x10, remaining_length := 7, payload := [0, 4, 77, 81, 84, 84, 9]\<rparr>"

lemma consistent_cfg:
  assumes "consistent d"
  shows "consistent (d\<lparr>cfg := k\<rparr>)"
proof -
  have same: "ctx_of (d\<lparr>cfg := k\<rparr>) q = ctx_of d q" "ctx_live (d\<lparr>cfg := k\<rparr>) q = ctx_live d q" for q
    by (simp_all add: ctx_of_def ctx_live_def)
  have "broker_inv (\<lambda>s. 0) (d\<lparr>cfg := k\<rparr>)"
    by (rule broker_inv_tables [of _ d]) (use assms in \<open>simp_all add: consistent_def\<close>)
  moreover have "clients_ok (d\<lparr>cfg := k\<rparr>)" using assms
    by (simp add: consistent_def clients_ok_def ids_ok_def socks_ok_def disused_ok_def listeners_ok_def wills_ok_def on_listener_def same)
  ultimately show ?thesis by (simp add: consistent_def)
qed

lemma connecting_db_facts:
  "settled 8 (connecting_db p)" "in_packet (ctx_of (connecting_db p) 8) = p" "find_context ''c1'' (connecting_db p) = Some 7"
  "ctx_of (connecting_db p) 7 = ctx_of sub_db 7" "protocol (ctx_of (connecting_db p) 8) = mosq_p_invalid"
  "ctx_listener (ctx_of (connecting_db p) 8) = None" "cfg (connecting_db p) = config_init"
proof -
  let ?d = "snd (mqtt3_context_init 8 True 5 client_db)" and ?e = "upd_ctx 8 (\<lambda>c. c\<lparr>in_packet := p\<rparr>) (snd (mqtt3_context_init 8 True 5 client_db))"
  have init: "mqtt3_context_init 8 True 5 client_db = (Some 8, ?d)"
    by (simp add: mqtt3_context_init_def Let_def)
  have new: "\<not> ctx_live client_db 8" using client_db_facts(3) [of 8] by simp
  note ok = context_init_ok [OF client_db_facts(2,1) new init]
  have c: "ctx_of ?d 8 = ctx_zero\<lparr>state := mosq_cs_new, sock := 5, last_msg_in := now (glob client_db), last_msg_out := now (glob client_db),
                  keepalive := 60, clean_session := True, in_packet := mosquitto_packet_cleanup packet_zero\<rparr>"
    by (simp add: mqtt3_context_init_def Let_def ctx_of_def put_ctx_def)
  have o: "ctx_of ?d 7 = ctx_of sub_db 7" "contexts_by_id ?d = [(''c1'', 7)]" "acl_list ?d = []" "acl_patterns ?d = []" "auth_plugin ?d = None"
    using client_db_facts(4) sub_db_facts(10-12)
    by (simp_all add: mqtt3_context_init_def Let_def put_ctx_def ctx_of_def client_db_def fun_eq_iff)
  have k: "consistent ?d" using ok(1,2) by (simp add: consistent_def)
  have "ready 8 ?d" using k ok(3) by (simp add: ready_def c unborn_def ctx_zero_def)
  then have "connects 8 ?d ?e" by (rule connects_upd) (simp add: dresses_def)
  then have re: "ready 8 ?e" by (rule connects_ready)
  have same: "ctx_of (connecting_db p) q = ctx_of ?e q" "ctx_live (connecting_db p) q = ctx_live ?e q" for q
    by (simp_all add: connecting_db_def ctx_of_def ctx_live_def)
  have "consistent (connecting_db p)" unfolding connecting_db_def by (rule consistent_cfg) (use re in \<open>simp add: ready_def\<close>)
  then have "ready 8 (connecting_db p)" using re by (simp add: ready_def same)
  moreover have ids: "contexts_by_id (connecting_db p) = [(''c1'', 7)]" using o(2) by (simp add: connecting_db_def upd_ctx_def put_ctx_def)
  moreover show c7: "ctx_of (connecting_db p) 7 = ctx_of sub_db 7" by (simp add: same o)
  ultimately show "settled 8 (connecting_db p)"
    using o sub_db_client(3) by (simp add: settled_def unbridged_def no_rules_def) (simp add: connecting_db_def upd_ctx_def put_ctx_def)
  show "find_context ''c1'' (connecting_db p) = Some 7" by (simp add: find_context_def ids)
  show "in_packet (ctx_of (connecting_db p) 8) = p" "protocol (ctx_of (connecting_db p) 8) = mosq_p_invalid"
    "ctx_listener (ctx_of (connecting_db p) 8) = None"
    by (simp_all add: same c ctx_zero_def)
qed (simp add: connecting_db_def)

lemma packet_reads:
  "mosquitto_read_string reconnect_packet = (Inr ''MQTT'', reconnect_packet\<lparr>pos := 6\<rparr>)"
  "mosquitto_read_byte (reconnect_packet\<lparr>pos := 6\<rparr>) = (Inr 4, reconnect_packet\<lparr>pos := 7\<rparr>)"
  "mosquitto_read_byte (reconnect_packet\<lparr>pos := 7\<rparr>) = (Inr 0, reconnect_packet\<lparr>pos := 8\<rparr>)"
  "mosquitto_read_uint16 (reconnect_packet\<lparr>pos := 8\<rparr>) = (Inr 60, reconnect_packet\<lparr>pos := 10\<rparr>)"
  "mosquitto_read_string (reconnect_packet\<lparr>pos := 10\<rparr>) = (Inr ''c1'', reconnect_packet\<lparr>pos := 14\<rparr>)"
  "mosquitto_read_string future_packet = (Inr ''MQTT'', future_packet\<lparr>pos := 6\<rparr>)"
  "mosquitto_read_byte (future_packet\<lparr>pos := 6\<rparr>) = (Inr 9, future_packet\<lparr>pos := 7\<rparr>)"
  "flags_of 0 = \<lparr>cf_clean_session = False, cf_will = False, cf_will_qos = 0, cf_will_retain = False, cf_password = False, cf_username = False\<rparr>"
  by code_simp+

lemmas step_defs = next_step_def read_field_def modify_ctx_def go_on_def require_def on_error_def stop_def

lemma connecting_start:
  "in_packet (ctx_of (counted (connecting_db p)) 8) = p" "protocol (ctx_of (counted (connecting_db p)) 8) = mosq_p_invalid"
  "ctx_listener (ctx_of (counted (connecting_db p)) 8) = None" "cfg (counted (connecting_db p)) = config_init"
  "state (ctx_of (counted (connecting_db p)) 8) = mosq_cs_new"
  using connecting_db_facts [of p] by (simp_all add: settled_def ready_def)

lemma cfg_upd [simp]: "cfg (upd_ctx r f d) = cfg d"
  by (simp add: upd_ctx_def put_ctx_def)

lemma reconnect_checked:
  obtains d1 where "check_connect uuid 8 (counted (connecting_db reconnect_packet)) =
    (Inr \<lparr>cr_version = 4, cr_clean = False, cr_will = None, cr_id = ''c1''\<rparr>, d1)"
proof -
  define d where "d = counted (connecting_db reconnect_packet)"
  note start = connecting_start [of reconnect_packet, folded d_def]
  have v: "(4 :: byte) AND 127 = 4" "command reconnect_packet AND 15 = 0" by code_simp+
  obtain d1 where p: "read_protocol 8 d = (Inr 4, d1)" "in_packet (ctx_of d1 8) = reconnect_packet\<lparr>pos := 7\<rparr>"
    "protocol (ctx_of d1 8) = mosq_p_mqtt311" "ctx_listener (ctx_of d1 8) = None" "cfg d1 = config_init"
    by (simp add: read_protocol_def step_defs start packet_reads v)
  let ?f = "\<lparr>cf_clean_session = False, cf_will = False, cf_will_qos = 0, cf_will_retain = False, cf_password = False, cf_username = False\<rparr>"
  obtain d2 where f: "read_flags 8 d1 = (Inr ?f, d2)" "in_packet (ctx_of d2 8) = reconnect_packet\<lparr>pos := 10\<rparr>"
    "protocol (ctx_of d2 8) = mosq_p_mqtt311" "ctx_listener (ctx_of d2 8) = None" "cfg d2 = config_init"
    by (simp add: read_flags_def step_defs p packet_reads)
  obtain d3 where i: "read_client_id uuid 8 ?f d2 = (Inr ''c1'', d3)"
    "protocol (ctx_of d3 8) = mosq_p_mqtt311" "ctx_listener (ctx_of d3 8) = None" "cfg d3 = config_init"
    by (simp add: read_client_id_def step_defs f packet_reads config_init_def)
  have "read_will 8 ?f d3 = (Inr None, d3)" "read_credentials 8 ?f d3 = (Inr (None, None), d3)"
    "authenticate 8 (None, None) ''c1'' d3 = (Inr ''c1'', d3)"
    by (simp_all add: read_will_def read_credentials_def authenticate_def check_password_of_def listener_of_def step_defs i config_init_def)
  then have "check_connect uuid 8 d = (Inr \<lparr>cr_version = 4, cr_clean = False, cr_will = None, cr_id = ''c1''\<rparr>, d3)"
    using start(5) p(1) f(1) i(1) by (simp add: check_connect_def step_defs)
  then show thesis using that by (simp add: d_def)
qed

theorem accepted_connect_registers_witness:
  "find_context ''c1'' (snd (mqtt3_handle_connect [] 8 (connecting_db reconnect_packet))) = Some 8"
proof -
  obtain d1 where "check_connect [] 8 (counted (connecting_db reconnect_packet)) =
    (Inr \<lparr>cr_version = 4, cr_clean = False, cr_will = None, cr_id = ''c1''\<rparr>, d1)" by (rule reconnect_checked)
  from accepted_connect_registers [OF connecting_db_facts(1) this] show ?thesis by simp
qed

theorem session_taken_over_witness:
  "leaves_at (sub_path ''a/+/#'') (snd (mqtt3_handle_connect [] 8 (connecting_db reconnect_packet))) = [\<lparr>lf_context = 8, lf_qos = 1\<rparr>]"
proof -
  obtain d1 where k: "check_connect [] 8 (counted (connecting_db reconnect_packet)) =
    (Inr \<lparr>cr_version = 4, cr_clean = False, cr_will = None, cr_id = ''c1''\<rparr>, d1)" by (rule reconnect_checked)
  have "clean_session (ctx_of (connecting_db reconnect_packet) 7) = False"
    using arg_cong [OF sub_db_facts(6), of clean_session] by (simp add: connecting_db_facts(4) sample_ctx_def ctx_zero_def)
  moreover have "leaves_at p (connecting_db reconnect_packet) = leaves_at p sub_db" for p
    by (simp add: connecting_db_def leaves_at_info upd_ctx_def put_ctx_def mqtt3_context_init_def Let_def client_db_def)
  ultimately show ?thesis
    using session_taken_over [OF connecting_db_facts(1) k] connecting_db_facts(3) by (simp add: sub_db_facts(5) heir_def)
qed

theorem connect_authenticated_witness:
  "\<exists>q d1. check_connect [] 8 (counted (connecting_db reconnect_packet)) = (Inr q, d1) \<and> cr_id q = ''c1'' \<and>
     vouched (counted (connecting_db reconnect_packet)) (ctx_of d1 8)"
proof -
  obtain d1 where k: "check_connect [] 8 (counted (connecting_db reconnect_packet)) =
    (Inr \<lparr>cr_version = 4, cr_clean = False, cr_will = None, cr_id = ''c1''\<rparr>, d1)" by (rule reconnect_checked)
  have "ready 8 (counted (connecting_db reconnect_packet))" using connecting_db_facts(1) ready_counted by (simp add: settled_def)
  from connect_authenticated [OF this k] have "vouched (counted (connecting_db reconnect_packet)) (ctx_of d1 8)"
    by (auto simp: vouched_def connecting_db_facts(7) config_init_def split: option.splits if_splits)
  then show ?thesis using k by auto
qed

theorem refused_connect_is_harmless_witness:
  "ctx_of (snd (mqtt3_handle_connect [] 8 (connecting_db future_packet))) 7 = ctx_of sub_db 7 \<and>
   fst (mqtt3_handle_connect [] 8 (connecting_db future_packet)) \<noteq> MOSQ_ERR_SUCCESS"
proof -
  define d where "d = counted (connecting_db future_packet)"
  note start = connecting_start [of future_packet, folded d_def]
  have v: "(9 :: byte) AND 127 = 9" by code_simp
  obtain e where "read_protocol 8 d = (Inl MOSQ_ERR_PROTOCOL, e)"
    by (simp add: read_protocol_def step_defs start packet_reads v refuse_def case_prod_beta)
  then have "check_connect [] 8 d = (Inl MOSQ_ERR_PROTOCOL, e)"
    using start(5) by (simp add: check_connect_def step_defs)
  moreover have "ready 8 (connecting_db future_packet)" using connecting_db_facts(1) by (simp add: settled_def)
  ultimately show ?thesis using refused_connect_is_harmless [of 8 "connecting_db future_packet" "[]"] connecting_db_facts(4)
    by (simp add: d_def)
qed

theorem acl_filter_leaves_counters_witness:
  "int (length (msgs (ctx_of (drop_unreadable 7 (sample_db\<lparr>acl_list := [\<lparr>au_username = Some ''u'', au_acl = []\<rparr>]\<rparr>)) 7)))
     < msg_count (ctx_of (drop_unreadable 7 (sample_db\<lparr>acl_list := [\<lparr>au_username = Some ''u'', au_acl = []\<rparr>]\<rparr>)) 7)"
proof -
  let ?d = "sample_db\<lparr>acl_list := [\<lparr>au_username = Some ''u'', au_acl = []\<rparr>]\<rparr>" and ?m = "sample_msg 10 5 1 mosq_md_out mosq_ms_publish_qos1"
  have c: "ctx_of ?d 7 = sample_ctx" using sample_db_facts(2) by (simp add: ctx_of_def)
  have q: "queue_ok 12 (ctx_of ?d 7)" unfolding c by code_simp
  have "auth_plugin ?d = None" "acl_patterns ?d = []" by (simp_all add: sample_db_def db_zero_def)
  then have "unreadable 7 ?m ?d" unfolding unreadable_def c
    by (simp add: mosquitto_acl_check_def mosquitto_acl_check_default_def sample_ctx_def ctx_zero_def sample_msg_def)
  moreover have "?m \<in> set (msgs (ctx_of ?d 7))" by (simp add: c sample_ctx_def)
  ultimately show ?thesis using acl_filter_leaves_counters [OF q] by blast
qed

end
