(* ===== verification/SendClient.thy ===== *)
theory SendClient
  imports Takeover
begin

text \<open>
  The packets a bridge sends as a client, \<^verbatim>\<open>lib/send_client_mosq.c\<close>, and its will,
  \<^verbatim>\<open>lib/will_mosq.c\<close>, as compiled for the broker. A CONNECT that is sent is read back by the
  readers of the CONNECT handler with the same fields.
\<close>

subsection \<open>CONNECT\<close>

text \<open>Writers one after the other; the first assertion that fails ends the process.\<close>

fun write_all :: "(packet \<Rightarrow> packet option) list \<Rightarrow> packet \<Rightarrow> packet option" where
  "write_all [] p = Some p"
| "write_all (w # ws) p = Option.bind (w p) (write_all ws)"

text \<open>The identifier, the user name and the password that are sent.\<close>

definition connect_names :: "ctx \<Rightarrow> string option \<times> string option \<times> string option" where
  "connect_names c =
     (case bridge c of
        Some b \<Rightarrow> (br_remote_clientid b, br_remote_username b, br_remote_password b)
      | None \<Rightarrow> (ctx_id c, username c, password c))"

definition connect_version :: "ctx \<Rightarrow> byte" where
  "connect_version c =
     (if protocol c = mosq_p_mqtt31 then 3 else 4) OR
     (case bridge c of Some b \<Rightarrow> if br_try_private b \<and> br_try_private_accepted b then 0x80 else 0 | None \<Rightarrow> 0)"

text \<open>The password bit is taken from the context, whatever password is sent.\<close>

definition connect_flag_byte :: "ctx \<Rightarrow> bool \<Rightarrow> string option \<Rightarrow> byte" where
  "connect_flag_byte c clean user =
     (if clean then 2 else 0) OR
     (case will c of
        Some w \<Rightarrow> (if w_retain w then 0x20 else 0) OR push_bit 3 (word_of_nat (w_qos w) AND 3) OR 4
      | None \<Rightarrow> 0) OR
     (if user \<noteq> None then 0x80 OR (if password c \<noteq> None then 0x40 else 0) else 0)"

text \<open>A will's payload is written as a string, its length cut to 16 bits.\<close>

definition write_data :: "byte list \<Rightarrow> packet \<Rightarrow> packet option" where
  "write_data bs p =
     Option.bind (mosquitto_write_uint16 (word_of_nat (length bs)) p)
       (mosquitto_write_bytes bs (ucast (word_of_nat (length bs) :: u16)))"

definition connect_length :: "ctx \<Rightarrow> string \<Rightarrow> string option \<Rightarrow> string option \<Rightarrow> nat" where
  "connect_length c cid user pw =
     (if protocol c = mosq_p_mqtt31 then 12 else 10) + 2 + length cid +
     (case will c of Some w \<Rightarrow> 2 + length (w_topic w) + 2 + length (w_payload w) | None \<Rightarrow> 0) +
     (case user of Some u \<Rightarrow> 2 + length u + (case pw of Some p \<Rightarrow> 2 + length p | None \<Rightarrow> 0) | None \<Rightarrow> 0)"

definition connect_writers :: "u16 \<Rightarrow> bool \<Rightarrow> ctx \<Rightarrow> string \<Rightarrow> string option \<Rightarrow> string option \<Rightarrow>
    (packet \<Rightarrow> packet option) list" where
  "connect_writers k clean c cid user pw =
     [write_cstring (if protocol c = mosq_p_mqtt31 then ''MQIsdp'' else ''MQTT''),
      mosquitto_write_byte (connect_version c),
      mosquitto_write_byte (connect_flag_byte c clean user),
      mosquitto_write_uint16 k,
      write_cstring cid] @
     (case will c of Some w \<Rightarrow> [write_cstring (w_topic w), write_data (w_payload w)] | None \<Rightarrow> []) @
     (case user of
        Some u \<Rightarrow> write_cstring u # (case pw of Some p \<Rightarrow> [write_cstring p] | None \<Rightarrow> [])
      | None \<Rightarrow> [])"

definition mosquitto_send_connect :: "u16 \<Rightarrow> bool \<Rightarrow> globals \<times> ctx \<Rightarrow> rc \<times> globals \<times> ctx" where
  "mosquitto_send_connect k clean s =
     (case s of (g, c) \<Rightarrow>
        case connect_names c of
          (None, _) \<Rightarrow> abort s
        | (Some cid, user, pw) \<Rightarrow>
            if ctx_id c = None then abort s
            else if protocol c \<noteq> mosq_p_mqtt31 \<and> protocol c \<noteq> mosq_p_mqtt311 then (MOSQ_ERR_INVAL, s)
            else case mosquitto_packet_alloc (packet_zero\<lparr>command := CONNECT,
                        remaining_length := word_of_nat (connect_length c cid user pw)\<rparr>) of
                (r, p) \<Rightarrow>
                  if r \<noteq> MOSQ_ERR_SUCCESS then (r, s)
                  else case write_all (connect_writers k clean c cid user pw) p of
                      None \<Rightarrow> abort s
                    | Some p' \<Rightarrow> mosquitto_packet_queue p' (g, c\<lparr>keepalive := k\<rparr>))"

subsection \<open>SUBSCRIBE, UNSUBSCRIBE and DISCONNECT\<close>

definition mosquitto_send_disconnect :: "globals \<times> ctx \<Rightarrow> rc \<times> globals \<times> ctx" where
  "mosquitto_send_disconnect = mosquitto_send_simple_command DISCONNECT"

definition mosquitto_send_subscribe :: "string \<Rightarrow> byte \<Rightarrow> globals \<times> ctx \<Rightarrow> rc \<times> globals \<times> ctx" where
  "mosquitto_send_subscribe topic qos s =
     (case s of (g, c) \<Rightarrow>
        case mosquitto_packet_alloc
               (packet_zero\<lparr>command := SUBSCRIBE OR 2, remaining_length := word_of_nat (2 + 2 + length topic + 1)\<rparr>) of
          (r, p) \<Rightarrow>
            if r \<noteq> MOSQ_ERR_SUCCESS then (r, s)
            else case mosquitto_mid_generate c of
                (mid, c1) \<Rightarrow>
                  (case write_all [mosquitto_write_uint16 mid, write_cstring topic, mosquitto_write_byte qos] p of
                     None \<Rightarrow> abort (g, c1)
                   | Some p' \<Rightarrow> mosquitto_packet_queue p' (g, c1)))"

definition mosquitto_send_unsubscribe :: "string \<Rightarrow> globals \<times> ctx \<Rightarrow> rc \<times> globals \<times> ctx" where
  "mosquitto_send_unsubscribe topic s =
     (case s of (g, c) \<Rightarrow>
        case mosquitto_packet_alloc
               (packet_zero\<lparr>command := UNSUBSCRIBE OR 2, remaining_length := word_of_nat (2 + 2 + length topic)\<rparr>) of
          (r, p) \<Rightarrow>
            if r \<noteq> MOSQ_ERR_SUCCESS then (r, s)
            else case mosquitto_mid_generate c of
                (mid, c1) \<Rightarrow>
                  (case write_all [mosquitto_write_uint16 mid, write_cstring topic] p of
                     None \<Rightarrow> abort (g, c1)
                   | Some p' \<Rightarrow> mosquitto_packet_queue p' (g, c1)))"

subsection \<open>The will\<close>

abbreviation (input) MQTT_MAX_PAYLOAD :: int where "MQTT_MAX_PAYLOAD \<equiv> 268435455"

definition mosquitto_will_set :: "string \<Rightarrow> byte list \<Rightarrow> nat \<Rightarrow> bool \<Rightarrow> ctx \<Rightarrow> rc \<times> ctx" where
  "mosquitto_will_set topic pl qos retain c =
     (if int (length pl) > MQTT_MAX_PAYLOAD then (MOSQ_ERR_PAYLOAD_SIZE, c)
      else if mosquitto_pub_topic_check topic \<noteq> MOSQ_ERR_SUCCESS then (MOSQ_ERR_INVAL, c)
      else (MOSQ_ERR_SUCCESS, c\<lparr>will := Some \<lparr>w_topic = topic, w_payload = pl, w_qos = qos, w_retain = retain\<rparr>\<rparr>))"

definition mosquitto_will_clear :: "ctx \<Rightarrow> rc \<times> ctx" where
  "mosquitto_will_clear c = (MOSQ_ERR_SUCCESS, c\<lparr>will := None\<rparr>)"

subsection \<open>What is written\<close>

definition appender :: "(packet \<Rightarrow> packet option) \<Rightarrow> byte list \<Rightarrow> bool" where
  "appender w bs \<longleftrightarrow> (\<forall>p. write_wf p \<and> length bs \<le> room p \<longrightarrow> (\<exists>p'. w p = Some p' \<and> appends bs p p'))"

lemma write_all_appends:
  "list_all2 appender ws bss \<Longrightarrow> write_wf p \<Longrightarrow> length (concat bss) \<le> room p \<Longrightarrow>
     \<exists>p'. write_all ws p = Some p' \<and> appends (concat bss) p p'"
proof (induction ws bss arbitrary: p rule: list_all2_induct)
  case Nil
  then show ?case by (simp add: appends_def)
next
  case (Cons w ws bs bss)
  obtain q where q: "w p = Some q" "appends bs p q" using Cons.hyps(1) Cons.prems by (auto simp: appender_def)
  have "write_wf q" "length (concat bss) \<le> room q" using appends_room [OF q(2)] Cons.prems(2) by auto
  then obtain p' where "write_all ws q = Some p'" "appends (concat bss) q p'" using Cons.IH by blast
  then show ?case using q appends_trans [OF q(2)] by auto
qed

lemma appender_fields:
  "appender (mosquitto_write_byte b) [b]" "appender (mosquitto_write_uint16 w) (uint16_bytes w)"
  "packable s \<Longrightarrow> appender (write_cstring s) (enc_string s)"
proof -
  show "appender (mosquitto_write_byte b) [b]" using write_byte_appends by (auto simp: appender_def)
  show "appender (mosquitto_write_uint16 w) (uint16_bytes w)" using write_uint16_appends by (auto simp: appender_def uint16_bytes_def)
  assume s: "packable s"
  show "appender (write_cstring s) (enc_string s)"
    using write_string_appends [where str = s and len = "word_of_nat (length s)"] packable_length [OF s]
    by (auto simp: appender_def write_cstring_def enc_string_def uint16_bytes_def)
qed

definition enc_data :: "byte list \<Rightarrow> byte list" where
  "enc_data bs = uint16_bytes (word_of_nat (length bs)) @ bs"

lemma appender_data:
  assumes "length bs \<le> 65535"
  shows "appender (write_data bs) (enc_data bs)"
  unfolding appender_def
proof (intro allI impI)
  fix p assume p: "write_wf p \<and> length (enc_data bs) \<le> room p"
  have n: "unat (word_of_nat (length bs) :: u16) = length bs" using assms by (simp add: unat_of_nat take_bit_nat_eq_self)
  obtain q where q: "mosquitto_write_uint16 (word_of_nat (length bs)) p = Some q" "appends (uint16_bytes (word_of_nat (length bs))) p q"
    using write_uint16_appends [of p "word_of_nat (length bs)"] p by (auto simp: enc_data_def uint16_bytes_def)
  have "write_wf q" "length bs \<le> room q" using appends_room [OF q(2)] p by (auto simp: enc_data_def)
  then obtain p' where "mosquitto_write_bytes bs (ucast (word_of_nat (length bs) :: u16)) q = Some p'" "appends bs q p'"
    using write_bytes_appends [of q "ucast (word_of_nat (length bs) :: u16)" bs] n by auto
  then show "\<exists>p'. write_data bs p = Some p' \<and> appends (enc_data bs) p p'"
    using q appends_trans [OF q(2)] by (auto simp: write_data_def enc_data_def)
qed

text \<open>The body of a CONNECT, field by field, and when its fields fit.\<close>

definition connect_parts :: "u16 \<Rightarrow> bool \<Rightarrow> ctx \<Rightarrow> string \<Rightarrow> string option \<Rightarrow> string option \<Rightarrow> byte list list" where
  "connect_parts k clean c cid user pw =
     [enc_string (if protocol c = mosq_p_mqtt31 then ''MQIsdp'' else ''MQTT''), [connect_version c],
      [connect_flag_byte c clean user], uint16_bytes k, enc_string cid] @
     (case will c of Some w \<Rightarrow> [enc_string (w_topic w), enc_data (w_payload w)] | None \<Rightarrow> []) @
     (case user of Some u \<Rightarrow> enc_string u # (case pw of Some p \<Rightarrow> [enc_string p] | None \<Rightarrow> []) | None \<Rightarrow> [])"

definition connectable :: "ctx \<Rightarrow> string \<Rightarrow> string option \<Rightarrow> string option \<Rightarrow> bool" where
  "connectable c cid user pw \<longleftrightarrow> (protocol c = mosq_p_mqtt31 \<or> protocol c = mosq_p_mqtt311) \<and>
     connect_names c = (Some cid, user, pw) \<and> ctx_id c \<noteq> None \<and> cid \<noteq> [] \<and> packable cid \<and>
     (\<forall>w. will c = Some w \<longrightarrow> w_topic w \<noteq> [] \<and> packable (w_topic w) \<and> wildcard_free (w_topic w) \<and>
        length (w_payload w) \<le> 65535 \<and> w_qos w \<le> 2) \<and>
     (\<forall>u. user = Some u \<longrightarrow> packable u) \<and> (\<forall>p. pw = Some p \<longrightarrow> packable p) \<and>
     (user \<noteq> None \<longrightarrow> (pw = None \<longleftrightarrow> password c = None)) \<and> (user = None \<longrightarrow> pw = None)"

lemma connect_writers_append:
  assumes "connectable c cid user pw"
  shows "list_all2 appender (connect_writers k clean c cid user pw) (connect_parts k clean c cid user pw)"
    and "length (concat (connect_parts k clean c cid user pw)) = connect_length c cid user pw"
    and "connect_length c cid user pw < 2 ^ 28"
proof -
  have names: "packable ''MQTT''" "packable ''MQIsdp''" by (simp_all add: packable_def nul_free_def)
  show "list_all2 appender (connect_writers k clean c cid user pw) (connect_parts k clean c cid user pw)"
    using assms names
    by (auto simp: connect_writers_def connect_parts_def connectable_def appender_fields appender_data split: option.split)
  show "length (concat (connect_parts k clean c cid user pw)) = connect_length c cid user pw"
    by (simp add: connect_parts_def connect_length_def enc_string_def enc_data_def uint16_bytes_def split: option.split)
  show "connect_length c cid user pw < 2 ^ 28"
    using assms by (auto simp: connect_length_def connectable_def packable_def split: option.split)
qed

subsection \<open>What is read back\<close>

definition unread :: "ctx_ref \<Rightarrow> byte list \<Rightarrow> db \<Rightarrow> bool" where
  "unread r bs d \<longleftrightarrow> read_wf (in_packet (ctx_of d r)) \<and> rest (in_packet (ctx_of d r)) = bs"

text \<open>Going on to \<open>e\<close> with \<open>bs\<close> left; \<open>f\<close> is what happened to the context besides reading.\<close>

definition onward :: "ctx_ref \<Rightarrow> byte list \<Rightarrow> db \<Rightarrow> db \<Rightarrow> bool" where
  "onward r bs d e \<longleftrightarrow> unread r bs e \<and> cfg e = cfg d \<and>
     command (in_packet (ctx_of e r)) = command (in_packet (ctx_of d r)) \<and>
     protocol (ctx_of e r) = protocol (ctx_of d r) \<and> keepalive (ctx_of e r) = keepalive (ctx_of d r)"

lemma field_onward:
  assumes "rd (in_packet (ctx_of d r)) = (Inr x, advance (length fs) (in_packet (ctx_of d r)))" and "unread r (fs @ bs) d"
  obtains e where "read_field r rd d = (Inr x, e)" and "onward r bs d e"
proof -
  let ?p = "in_packet (ctx_of d r)"
  have "read_wf (advance (length fs) ?p)" "rest (advance (length fs) ?p) = bs"
    using advance_wf [of ?p "length fs"] assms(2) by (simp_all add: unread_def)
  moreover have "command (advance n ?p) = command ?p" for n by (simp add: advance_def)
  ultimately show thesis
    using that [of "upd_ctx r (\<lambda>c. c\<lparr>in_packet := advance (length fs) ?p\<rparr>) d"] assms(1)
    by (simp add: read_field_def onward_def unread_def)
qed

lemma reads_byte:
  assumes "unread r (b # bs) d"
  obtains e where "read_field r mosquitto_read_byte d = (Inr b, e)" and "onward r bs d e"
  using assms by (auto intro: field_onward [of mosquitto_read_byte d r b "[b]" bs] simp: unread_def read_byte_rest)

lemma reads_uint16:
  assumes "unread r (uint16_bytes w @ bs) d"
  obtains e where "read_field r mosquitto_read_uint16 d = (Inr w, e)" and "onward r bs d e"
  using assms uint16_field.rd_enc [where x = w and p = "in_packet (ctx_of d r)" and bs = bs]
  by (auto intro: field_onward [of mosquitto_read_uint16 d r w "uint16_bytes w" bs] simp: unread_def)

lemma reads_string:
  assumes "unread r (enc_string s @ bs) d" and "packable s"
  obtains e where "read_field r mosquitto_read_string d = (Inr s, e)" and "onward r bs d e"
  using assms string_field.rd_enc [where x = s and p = "in_packet (ctx_of d r)" and bs = bs]
  by (auto intro: field_onward [of mosquitto_read_string d r s "enc_string s" bs] simp: unread_def)

lemma reads_bytes:
  assumes "unread r (bs @ cs) d" and "unat n = length bs" and "length bs \<le> 65535"
  obtains e where "read_field r (mosquitto_read_bytes n) d = (Inr bs, e)" and "onward r cs d e"
  using assms by (auto intro: field_onward [of "mosquitto_read_bytes n" d r bs bs cs] simp: unread_def read_bytes_rest)

lemma onward_unread: "onward r bs d e \<Longrightarrow> unread r bs e"
  by (simp add: onward_def)

lemma onward_trans: "onward r bs d e \<Longrightarrow> onward r cs e f \<Longrightarrow> onward r cs d f"
  by (simp add: onward_def)

lemma version_bits:
  "connect_version c AND 0x7F = (if protocol c = mosq_p_mqtt31 then 3 else 4)"
proof -
  have "(3 :: byte) OR 0 = 3" "(4 :: byte) OR 0 = 4" "((3 :: byte) OR 0x80) AND 0x7F = 3" "((4 :: byte) OR 0x80) AND 0x7F = 4"
    "(3 :: byte) AND 0x7F = 3" "(4 :: byte) AND 0x7F = 4"
    by code_simp+
  then show ?thesis by (simp add: connect_version_def split: option.split)
qed

lemma protocol_back:
  assumes "unread r (enc_string (if protocol c = mosq_p_mqtt31 then ''MQIsdp'' else ''MQTT'') @ [connect_version c] @ bs) d"
    and "protocol c = mosq_p_mqtt31 \<or> protocol c = mosq_p_mqtt311" and "command (in_packet (ctx_of d r)) AND 0x0F = 0"
  obtains e where "read_protocol r d = (Inr (connect_version c), e)" and "unread r bs e" and "cfg e = cfg d"
    and "protocol (ctx_of e r) = protocol c"
proof -
  let ?n = "if protocol c = mosq_p_mqtt31 then ''MQIsdp'' else ''MQTT''"
  have n: "packable ?n" by (simp add: packable_def nul_free_def)
  obtain d1 where d1: "read_field r mosquitto_read_string d = (Inr ?n, d1)" "onward r ([connect_version c] @ bs) d d1"
    using reads_string [OF assms(1) n] by blast
  have "unread r (connect_version c # bs) d1" using d1(2) by (simp add: onward_def)
  then obtain d2 where d2: "read_field r mosquitto_read_byte d1 = (Inr (connect_version c), d2)" "onward r bs d1 d2"
    by (rule reads_byte)
  have cmd: "command (in_packet (ctx_of d2 r)) AND 0x0F = 0" and cfg: "cfg d2 = cfg d"
    using d1(2) d2(2) assms(3) by (simp_all add: onward_def)
  let ?e = "upd_ctx r (\<lambda>c'. c'\<lparr>protocol := protocol c\<rparr>) d2"
  have "read_protocol r d = (Inr (connect_version c), ?e)"
    using assms(2) d1(1) d2(1) version_bits [of c] cmd
    by (auto simp: read_protocol_def step_defs)
  then show thesis using that [of ?e] d2(2) cfg by (simp add: unread_def onward_def)
qed

lemma flag_bits:
  assumes "\<forall>w. will c = Some w \<longrightarrow> w_qos w \<le> 2"
  shows "flags_of (connect_flag_byte c clean user) = \<lparr>cf_clean_session = clean, cf_will = (will c \<noteq> None),
     cf_will_qos = (case will c of Some w \<Rightarrow> w_qos w | None \<Rightarrow> 0), cf_will_retain = (case will c of Some w \<Rightarrow> w_retain w | None \<Rightarrow> False),
     cf_password = (user \<noteq> None \<and> password c \<noteq> None), cf_username = (user \<noteq> None)\<rparr>"
proof -
  have all: "flags_of ((if a then 2 else 0) OR (if w then (if b then 0x20 else 0) OR push_bit 3 (word_of_nat n AND 3) OR 4 else 0) OR
      (if u then 0x80 OR (if p then 0x40 else 0) else 0)) =
    \<lparr>cf_clean_session = a, cf_will = w, cf_will_qos = (if w then n else 0), cf_will_retain = w \<and> b, cf_password = u \<and> p, cf_username = u\<rparr>"
    if "n \<in> {0, 1, 2}" for a w b u p n
    using that by (cases a; cases w; cases b; cases u; cases p) (auto, code_simp+)
  show ?thesis
  proof (cases "will c")
    case None
    then show ?thesis using all [of 0 clean False False "user \<noteq> None" "password c \<noteq> None"] by (simp add: connect_flag_byte_def)
  next
    case (Some w)
    then have "w_qos w \<in> {0, 1, 2}" using assms by fastforce
    then show ?thesis using Some all [of "w_qos w" clean True "w_retain w" "user \<noteq> None" "password c \<noteq> None"] by (simp add: connect_flag_byte_def)
  qed
qed

lemmas flow_defs = next_step_def modify_ctx_def go_on_def require_def on_error_def stop_def

definition sent_flags :: "bool \<Rightarrow> ctx \<Rightarrow> string option \<Rightarrow> connect_flags" where
  "sent_flags clean c user = \<lparr>cf_clean_session = clean, cf_will = (will c \<noteq> None),
     cf_will_qos = (case will c of Some w \<Rightarrow> w_qos w | None \<Rightarrow> 0), cf_will_retain = (case will c of Some w \<Rightarrow> w_retain w | None \<Rightarrow> False),
     cf_password = (user \<noteq> None \<and> password c \<noteq> None), cf_username = (user \<noteq> None)\<rparr>"

lemma flags_back:
  assumes "unread r ([connect_flag_byte c clean user] @ uint16_bytes k @ bs) d" and "\<forall>w. will c = Some w \<longrightarrow> w_qos w \<le> 2"
  obtains e where "read_flags r d = (Inr (sent_flags clean c user), e)" and "unread r bs e" and "cfg e = cfg d"
    and "protocol (ctx_of e r) = protocol (ctx_of d r)" and "keepalive (ctx_of e r) = k"
proof -
  have "unread r (connect_flag_byte c clean user # uint16_bytes k @ bs) d" using assms(1) by simp
  then obtain d1 where d1: "read_field r mosquitto_read_byte d = (Inr (connect_flag_byte c clean user), d1)"
    "onward r (uint16_bytes k @ bs) d d1"
    by (rule reads_byte)
  obtain d2 where d2: "read_field r mosquitto_read_uint16 d1 = (Inr k, d2)" "onward r bs d1 d2"
    by (rule reads_uint16 [OF onward_unread [OF d1(2)]])
  have f: "flags_of (connect_flag_byte c clean user) = sent_flags clean c user"
    unfolding sent_flags_def by (rule flag_bits [OF assms(2)])
  have "cf_will_qos (sent_flags clean c user) \<noteq> 3" using assms(2) by (auto simp: sent_flags_def split: option.splits)
  then have "read_flags r d = (Inr (sent_flags clean c user), upd_ctx r (\<lambda>c. c\<lparr>keepalive := k\<rparr>) d2)"
    by (simp add: read_flags_def flow_defs d1(1) d2(1) f)
  then show thesis using that d1(2) d2(2) by (simp add: unread_def onward_def)
qed

lemma client_id_back:
  assumes "unread r (enc_string cid @ bs) d" and "packable cid" and "cid \<noteq> []" and "clientid_prefixes (cfg d) = None"
  obtains e where "read_client_id uuid r f d = (Inr cid, e)" and "onward r bs d e"
proof -
  obtain e where e: "read_field r mosquitto_read_string d = (Inr cid, e)" "onward r bs d e"
    by (rule reads_string [OF assms(1,2)])
  then have "read_client_id uuid r f d = (Inr cid, e)" using assms(3,4) by (simp add: read_client_id_def flow_defs onward_def)
  then show thesis using that e(2) by blast
qed

lemma will_back:
  assumes "unread r (concat (case will c of Some w \<Rightarrow> [enc_string (w_topic w), enc_data (w_payload w)] | None \<Rightarrow> []) @ bs) d"
    and "\<forall>w. will c = Some w \<longrightarrow> w_topic w \<noteq> [] \<and> packable (w_topic w) \<and> wildcard_free (w_topic w) \<and> length (w_payload w) \<le> 65535"
  obtains e where "read_will r (sent_flags clean c user) d = (Inr (will c), e)" and "onward r bs d e"
proof (cases "will c")
  case None
  then show thesis using that [of d] assms(1) by (simp add: read_will_def sent_flags_def flow_defs onward_def)
next
  case (Some w)
  have w: "w_topic w \<noteq> []" "packable (w_topic w)" "wildcard_free (w_topic w)" "length (w_payload w) \<le> 65535" using assms(2) Some by auto
  let ?n = "word_of_nat (length (w_payload w)) :: u16"
  have "unread r (enc_string (w_topic w) @ uint16_bytes ?n @ w_payload w @ bs) d" using assms(1) Some by (simp add: enc_data_def)
  then obtain d1 where d1: "read_field r mosquitto_read_string d = (Inr (w_topic w), d1)" "onward r (uint16_bytes ?n @ w_payload w @ bs) d d1"
    using w(2) by (rule reads_string)
  obtain d2 where d2: "read_field r mosquitto_read_uint16 d1 = (Inr ?n, d2)" "onward r (w_payload w @ bs) d1 d2"
    by (rule reads_uint16 [OF onward_unread [OF d1(2)]])
  have n1: "unat ?n = length (w_payload w)" using w(4) by (simp add: unat_of_nat take_bit_nat_eq_self)
  have "0 < ?n \<longleftrightarrow> 0 < unat ?n" by (simp only: word_less_nat_alt unsigned_0)
  then have n: "unat ?n = length (w_payload w)" "0 < ?n \<longleftrightarrow> w_payload w \<noteq> []" unfolding n1 by simp_all
  have "mosquitto_pub_topic_check (w_topic w) = MOSQ_ERR_SUCCESS" using w by (simp add: pub_topic_check_iff packable_def)
  then have head: "read_will r (sent_flags clean c user) d =
      next_step (if 0 < ?n then on_error 1 (read_field r (mosquitto_read_bytes (ucast ?n))) else go_on []) (\<lambda>pl. go_on
        (Some \<lparr>w_topic = w_topic w, w_payload = pl, w_qos = w_qos w, w_retain = w_retain w\<rparr>)) d2"
    using Some w(1) d1(1) d2(1) by (simp add: read_will_def sent_flags_def flow_defs)
  show thesis
  proof (cases "w_payload w = []")
    case True
    then have "read_will r (sent_flags clean c user) d = (Inr (will c), d2)" using Some n(2) by (simp add: head flow_defs)
    then show thesis using that [of d2] onward_trans [OF d1(2) d2(2)] True by simp
  next
    case False
    have "unat (ucast ?n :: u32) = length (w_payload w)" using n(1) by simp
    then obtain d3 where d3: "read_field r (mosquitto_read_bytes (ucast ?n)) d2 = (Inr (w_payload w), d3)" "onward r bs d2 d3"
      using reads_bytes [OF onward_unread [OF d2(2)] _ w(4)] by blast
    then have "read_will r (sent_flags clean c user) d = (Inr (will c), d3)" using Some n(2) False by (simp add: head flow_defs)
    then show thesis using that [of d3] onward_trans [OF onward_trans [OF d1(2) d2(2)] d3(2)] by simp
  qed
qed

lemma credentials_back:
  assumes "unread r (concat (case user of Some u \<Rightarrow> enc_string u # (case pw of Some p \<Rightarrow> [enc_string p] | None \<Rightarrow> []) | None \<Rightarrow> []) @ bs) d"
    and "\<forall>u. user = Some u \<longrightarrow> packable u" and "\<forall>p. pw = Some p \<longrightarrow> packable p"
    and "user \<noteq> None \<longrightarrow> (pw = None \<longleftrightarrow> password c = None)" and "user = None \<longrightarrow> pw = None"
  obtains e where "read_credentials r (sent_flags clean c user) d = (Inr (user, pw), e)" and "onward r bs d e"
proof (cases user)
  case None
  then show thesis using that [of d] assms(1,5) by (simp add: read_credentials_def sent_flags_def flow_defs onward_def)
next
  case (Some u)
  let ?ps = "case pw of Some p \<Rightarrow> enc_string p | None \<Rightarrow> []"
  have u: "packable u" "unread r (enc_string u @ ?ps @ bs) d" using assms(1,2) Some by (auto split: option.splits)
  obtain d1 where d1: "read_field r mosquitto_read_string d = (Inr u, d1)" "onward r (?ps @ bs) d d1"
    by (rule reads_string [OF u(2,1)])
  show thesis
  proof (cases pw)
    case None
    then show thesis using that [of d1] d1 assms(4) Some by (simp add: read_credentials_def sent_flags_def flow_defs read_optional_def)
  next
    case p: (Some p)
    then have "unread r (enc_string p @ bs) d1" using d1(2) by (simp add: onward_def)
    then obtain d2 where d2: "read_field r mosquitto_read_string d1 = (Inr p, d2)" "onward r bs d1 d2"
      by (rule reads_string) (use assms(3) p in simp)
    then have "read_credentials r (sent_flags clean c user) d = (Inr (user, pw), d2)"
      using d1(1) assms(4) Some p by (simp add: read_credentials_def sent_flags_def flow_defs read_optional_def)
    then show thesis using that [of d2] onward_trans [OF d1(2) d2(2)] by blast
  qed
qed

text \<open>The fields of a CONNECT in the order in which \<^verbatim>\<open>mqtt3_handle_connect\<close> reads them.\<close>

definition read_connect :: "string \<Rightarrow> ctx_ref \<Rightarrow>
    (byte \<times> connect_flags \<times> string \<times> will_msg option \<times> string option \<times> string option) step" where
  "read_connect uuid r =
     next_step (read_protocol r) (\<lambda>version.
     next_step (read_flags r) (\<lambda>f.
     next_step (read_client_id uuid r f) (\<lambda>cid.
     next_step (read_will r f) (\<lambda>w.
     next_step (read_credentials r f) (\<lambda>(u, p). go_on (version, f, cid, w, u, p))))))"

definition received :: "byte \<Rightarrow> byte list \<Rightarrow> packet" where
  "received cmd body = packet_zero\<lparr>command := cmd, remaining_length := word_of_nat (length body), payload := body\<rparr>"

lemma received_unread:
  assumes "in_packet (ctx_of d r) = received cmd body" and "length body < 2 ^ 28"
  shows "unread r body d"
proof -
  have "unat (word_of_nat (length body) :: u32) = length body" using assms(2) by (simp add: unat_of_nat take_bit_nat_eq_self)
  then show ?thesis using assms by (simp add: unread_def received_def read_wf_def rest_def packet_zero_def)
qed

lemma connect_back:
  assumes ok: "connectable c cid user pw" and p: "in_packet (ctx_of d r) = received CONNECT (concat (connect_parts k clean c cid user pw))"
    and free: "clientid_prefixes (cfg d) = None"
  obtains e where "read_connect uuid r d = (Inr (connect_version c, sent_flags clean c user, cid, will c, user, pw), e)"
    and "keepalive (ctx_of e r) = k" and "protocol (ctx_of e r) = protocol c"
proof -
  let ?wb = "concat (case will c of Some w \<Rightarrow> [enc_string (w_topic w), enc_data (w_payload w)] | None \<Rightarrow> [])"
  let ?cb = "concat (case user of Some u \<Rightarrow> enc_string u # (case pw of Some p \<Rightarrow> [enc_string p] | None \<Rightarrow> []) | None \<Rightarrow> [])"
  let ?n = "if protocol c = mosq_p_mqtt31 then ''MQIsdp'' else ''MQTT''"
  have body: "concat (connect_parts k clean c cid user pw) = enc_string ?n @ [connect_version c] @ [connect_flag_byte c clean user] @
      uint16_bytes k @ enc_string cid @ ?wb @ ?cb @ []"
    by (simp add: connect_parts_def)
  have len: "length (concat (connect_parts k clean c cid user pw)) < 2 ^ 28"
    using connect_writers_append(2,3) [OF ok] by simp
  have u: "unread r (enc_string ?n @ [connect_version c] @ [connect_flag_byte c clean user] @ uint16_bytes k @ enc_string cid @ ?wb @ ?cb @ []) d"
    using received_unread [OF p len] by (simp only: body)
  have cmd: "command (in_packet (ctx_of d r)) AND 0x0F = 0" by (simp add: p received_def)
  have w2: "\<forall>w. will c = Some w \<longrightarrow> w_qos w \<le> 2" using ok by (simp add: connectable_def)
  have pr: "protocol c = mosq_p_mqtt31 \<or> protocol c = mosq_p_mqtt311" using ok by (simp add: connectable_def)
  obtain d1 where d1: "read_protocol r d = (Inr (connect_version c), d1)"
    "unread r ([connect_flag_byte c clean user] @ uint16_bytes k @ enc_string cid @ ?wb @ ?cb @ []) d1" "cfg d1 = cfg d"
    "protocol (ctx_of d1 r) = protocol c"
    by (rule protocol_back [OF u pr cmd])
  obtain d2 where d2: "read_flags r d1 = (Inr (sent_flags clean c user), d2)" "unread r (enc_string cid @ ?wb @ ?cb @ []) d2"
    "cfg d2 = cfg d1" "protocol (ctx_of d2 r) = protocol (ctx_of d1 r)" "keepalive (ctx_of d2 r) = k"
    by (rule flags_back [OF d1(2) w2])
  obtain d3 where d3: "read_client_id uuid r (sent_flags clean c user) d2 = (Inr cid, d3)" "onward r (?wb @ ?cb @ []) d2 d3"
    by (rule client_id_back [OF d2(2)]) (use ok d1(3) d2(3) free in \<open>simp_all add: connectable_def\<close>)
  obtain d4 where d4: "read_will r (sent_flags clean c user) d3 = (Inr (will c), d4)" "onward r (?cb @ []) d3 d4"
    by (rule will_back [OF onward_unread [OF d3(2)]]) (use ok in \<open>auto simp: connectable_def\<close>)
  obtain d5 where d5: "read_credentials r (sent_flags clean c user) d4 = (Inr (user, pw), d5)" "onward r [] d4 d5"
    by (rule credentials_back [OF onward_unread [OF d4(2)]]) (use ok in \<open>auto simp: connectable_def\<close>)
  have "read_connect uuid r d = (Inr (connect_version c, sent_flags clean c user, cid, will c, user, pw), d5)"
    using d1(1) d2(1) d3(1) d4(1) d5(1) by (simp add: read_connect_def next_step_def go_on_def)
  moreover have "keepalive (ctx_of d5 r) = k" "protocol (ctx_of d5 r) = protocol c"
    using d1(4) d2(4,5) d3(2) d4(2) d5(2) by (simp_all add: onward_def)
  ultimately show thesis by (rule that)
qed

text \<open>
  C26. A CONNECT that the broker sends as a bridge is one frame, and the CONNECT handler reads from
  it exactly what was sent. For a context whose fields fit (strings of at most 65535 characters
  without a NUL, a will topic without wildcards, a will payload of at most 65535 bytes, a
  password exactly when the password bit is set), \<^verbatim>\<open>_mosquitto_send_connect\<close> queues one CONNECT
  packet, and the readers of \<^verbatim>\<open>mqtt3_handle_connect\<close>, given that packet and no configured
  identifier prefix, get the same version, flags, identifier, will, user name, password and
  keepalive, and the protocol of the sender.
\<close>

theorem connect_round_trip:
  assumes "connectable c cid user pw" and "queue_wf c"
  shows "\<exists>body. emits (frame CONNECT body) (g, c\<lparr>keepalive := k\<rparr>) (mosquitto_send_connect k clean (g, c)) \<and>
    (\<forall>r d. in_packet (ctx_of d r) = received CONNECT body \<and> clientid_prefixes (cfg d) = None \<longrightarrow>
       (\<exists>e. read_connect uuid r d = (Inr (connect_version c, sent_flags clean c user, cid, will c, user, pw), e) \<and>
          keepalive (ctx_of e r) = k \<and> protocol (ctx_of e r) = protocol c))"
proof -
  let ?body = "concat (connect_parts k clean c cid user pw)"
  let ?p = "packet_zero\<lparr>command := CONNECT, remaining_length := word_of_nat (connect_length c cid user pw)\<rparr>"
  note w = connect_writers_append(1,2) [OF assms(1), where k = k and clean = clean] connect_writers_append(3) [OF assms(1)]
  have rl: "unat (remaining_length ?p) = length ?body" using w(2,3) by (simp add: unat_of_nat take_bit_nat_eq_self)
  then have small: "unat (remaining_length ?p) < 2 ^ 28" using w(2,3) by simp
  then obtain q where q: "mosquitto_packet_alloc ?p = (MOSQ_ERR_SUCCESS, q)" using alloc_succeeds by blast
  note f = filled_packet [OF q small]
  obtain p' where p': "write_all (connect_writers k clean c cid user pw) q = Some p'" "appends ?body q p'"
    using write_all_appends [OF w(1) f(1)] f(2) rl by auto
  have "queue_wf (c\<lparr>keepalive := k\<rparr>)" using assms(2) by (simp add: queue_wf_def)
  then have "emits (frame CONNECT ?body) (g, c\<lparr>keepalive := k\<rparr>) (mosquitto_packet_queue p' (g, c\<lparr>keepalive := k\<rparr>))"
    using filled_emits [OF _ q rl _ p'(2)] w(2,3) by simp
  moreover have "mosquitto_send_connect k clean (g, c) = mosquitto_packet_queue p' (g, c\<lparr>keepalive := k\<rparr>)"
    using assms(1) q p'(1) by (auto simp: mosquitto_send_connect_def connectable_def)
  ultimately show ?thesis using connect_back [OF assms(1)] by (intro exI [of _ ?body]) metis
qed

text \<open>A client that connects to another broker with a will and a password.\<close>

definition caller_ctx :: ctx where
  "caller_ctx = ctx_zero\<lparr>protocol := mosq_p_mqtt311, ctx_id := Some ''me'', username := Some ''u'', password := Some ''p'',
     will := Some \<lparr>w_topic = ''gone'', w_payload = [1, 2], w_qos = 1, w_retain = True\<rparr>\<rparr>"

theorem connect_round_trip_witness:
  "\<exists>body. emits (frame CONNECT body) (globals_init, caller_ctx\<lparr>keepalive := 60\<rparr>) (mosquitto_send_connect 60 False (globals_init, caller_ctx))"
proof -
  have "connectable caller_ctx ''me'' (Some ''u'') (Some ''p'')"
    by (simp add: connectable_def caller_ctx_def ctx_zero_def connect_names_def packable_def nul_free_def wildcard_free_def)
  moreover have "queue_wf caller_ctx" by (simp add: queue_wf_def caller_ctx_def ctx_zero_def)
  ultimately show ?thesis using connect_round_trip [of caller_ctx "''me''" "Some ''u''" "Some ''p''" globals_init 60 False "[]"] by blast
qed

end
