(* ===== verification/Bridge.thy ===== *)
theory Bridge
  imports SendClient
begin

text \<open>
  Bridges: \<^verbatim>\<open>src/bridge.c\<close> and \<^verbatim>\<open>src/read_handle_client.c\<close>. What the network answers to a
  connection attempt (\<^verbatim>\<open>_mosquitto_socket_connect\<close>: the result, the socket and the TLS state)
  and the host name are parameters, and so is whether \<^verbatim>\<open>errno\<close> is \<^verbatim>\<open>ENOTCONN\<close> after a write.
\<close>

subsection \<open>Connecting\<close>

definition mqtt3_bridge_packet_cleanup :: "ctx \<Rightarrow> ctx" where
  "mqtt3_bridge_packet_cleanup c =
     c\<lparr>current_out_packet := None, out_packet := [], in_packet := mosquitto_packet_cleanup (in_packet c)\<rparr>"

definition local_topics :: "bridge \<Rightarrow> bridge_topic list" where
  "local_topics b = filter (\<lambda>t. bt_direction t = bd_out \<or> bt_direction t = bd_both) (br_topics b)"

fun subscribe_locally :: "ctx_ref \<Rightarrow> bridge_topic list \<Rightarrow> db \<Rightarrow> rc \<times> db" where
  "subscribe_locally r [] d = (MOSQ_ERR_SUCCESS, d)"
| "subscribe_locally r (t # ts) d =
     (case mqtt3_sub_add r (bt_local_topic t) (bt_qos t) d of
        (rc, d1) \<Rightarrow> if rc \<noteq> MOSQ_ERR_SUCCESS then (1, d1) else subscribe_locally r ts d1)"

text \<open>The topic of the notifications; without a remote id the code would format a null pointer.\<close>

definition notification_topic_of :: "bridge \<Rightarrow> string" where
  "notification_topic_of b =
     (case br_notification_topic b of
        Some t \<Rightarrow> t
      | None \<Rightarrow> ''$SYS/broker/connection/'' @ (case br_remote_clientid b of Some i \<Rightarrow> i | None \<Rightarrow> []) @ ''/state'')"

text \<open>The message that the bridge is down, once, and the same as its will.\<close>

definition announce :: "ctx_ref \<Rightarrow> bridge \<Rightarrow> db \<Rightarrow> rc \<times> db" where
  "announce r b d =
     (if \<not> br_notifications b then (MOSQ_ERR_SUCCESS, d)
      else
        let t = notification_topic_of b;
            d1 = (if br_initial_notification_done b then d
                  else upd_ctx r (\<lambda>c. c\<lparr>bridge := map_option (\<lambda>b. b\<lparr>br_initial_notification_done := True\<rparr>) (bridge c)\<rparr>)
                         (snd (mqtt3_db_messages_easy_queue (Some r) t 1 [0x30] True d)))
        in case mosquitto_will_set t [0x30] 1 True (ctx_of d1 r) of (rc, c) \<Rightarrow> (rc, put_ctx r c d1))"

text \<open>
  The answer to a connection attempt: its result, and the socket and the TLS state that the context is left
  with. A handshake that fails leaves both, and closing the socket then takes a context out of the
  table of sockets that is not in it, which is a fault.
\<close>

record net_connect =
  nc_rc :: rc
  nc_sock :: int
  nc_ssl :: "tls_peer option"

definition begin_connect :: "ctx_ref \<Rightarrow> bridge \<Rightarrow> db \<Rightarrow> db" where
  "begin_connect r b d =
     upd_ctx r (\<lambda>c. mqtt3_bridge_packet_cleanup (c\<lparr>state := mosq_cs_new, sock := INVALID_SOCKET,
         last_msg_in := now (glob d), last_msg_out := now (glob d), keepalive := word_of_int (br_keepalive b),
         clean_session := br_clean_session b, in_packet := (in_packet c)\<lparr>payload := []\<rparr>, ping_t := 0,
         bridge := Some (b\<lparr>br_lazy_reconnect := False\<rparr>)\<rparr>)) d"

text \<open>The queue is made ready, or dropped, and the subscriptions are made anew.\<close>

definition renew_session :: "ctx_ref \<Rightarrow> bridge \<Rightarrow> db \<Rightarrow> rc \<times> db" where
  "renew_session r b d =
     (let d1 = snd (mqtt3_db_message_reconnect_reset r d);
          d2 = (if br_clean_session b then snd (mqtt3_db_messages_delete r d1) else d1);
          d3 = snd (mqtt3_subs_clean_session r d2)
      in subscribe_locally r (local_topics b) d3)"

definition finish_connect :: "net_connect \<Rightarrow> bool \<Rightarrow> ctx_ref \<Rightarrow> db \<Rightarrow> rc \<times> db" where
  "finish_connect net notconn r d =
     (if nc_rc net > 0 then
        let d1 = upd_ctx r (\<lambda>c. c\<lparr>sock := nc_sock net, ssl := nc_ssl net\<rparr>) d
        in (nc_rc net,
            if nc_rc net = MOSQ_ERR_TLS then mosquitto_socket_close r d1 else d1)
      else
        let d1 = upd_ctx r (\<lambda>c. c\<lparr>sock := nc_sock net, ssl := nc_ssl net\<rparr>) d;
            d2 = d1\<lparr>contexts_by_sock := (nc_sock net, r) # contexts_by_sock d1\<rparr>;
            d3 = (if nc_rc net = MOSQ_ERR_CONN_PENDING then upd_ctx r (\<lambda>c. c\<lparr>state := mosq_cs_connect_pending\<rparr>) d2 else d2)
        in case with_ctx r (mosquitto_send_connect (keepalive (ctx_of d3 r)) (clean_session (ctx_of d3 r))) d3 of
             (rc, d4) \<Rightarrow>
               if rc = MOSQ_ERR_SUCCESS \<or> (rc = MOSQ_ERR_ERRNO \<and> notconn) then (MOSQ_ERR_SUCCESS, d4)
               else if rc = MOSQ_ERR_TLS then (rc, d4)
               else (rc, mosquitto_socket_close r d4))"

definition mqtt3_bridge_connect :: "(string \<times> int \<Rightarrow> net_connect) \<Rightarrow> bool \<Rightarrow> ctx_ref \<Rightarrow> db \<Rightarrow> rc \<times> db" where
  "mqtt3_bridge_connect net notconn r d =
     (case bridge (ctx_of d r) of
        None \<Rightarrow> (MOSQ_ERR_INVAL, d)
      | Some b \<Rightarrow>
          case renew_session r b (begin_connect r b d) of
            (rc, d1) \<Rightarrow>
              if rc \<noteq> MOSQ_ERR_SUCCESS then (rc, d1)
              else case announce r b d1 of
                  (rc', d2) \<Rightarrow>
                    if rc' \<noteq> MOSQ_ERR_SUCCESS then (rc', d2)
                    else if br_cur_address b < length (br_addresses b)
                    then finish_connect (net (br_addresses b ! br_cur_address b)) notconn r d2
                    else (MOSQ_ERR_SUCCESS, set_fault d2))"

text \<open>
  A new bridge. \<open>host\<close> is the answer of \<^verbatim>\<open>gethostname\<close>, \<open>fresh\<close> the address of a new context.
\<close>

definition bridge_ids :: "string option \<Rightarrow> bridge \<Rightarrow> (string \<times> bridge) option" where
  "bridge_ids host b =
     (case (case br_remote_clientid b of
              Some i \<Rightarrow> Some b
            | None \<Rightarrow> map_option (\<lambda>h. b\<lparr>br_remote_clientid := Some (h @ ''.'' @ br_name b)\<rparr>) host) of
        None \<Rightarrow> None
      | Some b1 \<Rightarrow>
          case br_local_clientid b1 of
            Some l \<Rightarrow> Some (l, b1)
          | None \<Rightarrow>
              let l = ''local.'' @ (case br_remote_clientid b1 of Some i \<Rightarrow> i | None \<Rightarrow> [])
              in Some (l, b1\<lparr>br_local_clientid := Some l\<rparr>))"

definition bridge_context :: "ctx_ref \<Rightarrow> string \<Rightarrow> db \<Rightarrow> ctx_ref \<times> db" where
  "bridge_context fresh local d =
     (case find_context local d of
        Some r \<Rightarrow> (r, d)
      | None \<Rightarrow>
          let d1 = upd_ctx fresh (\<lambda>c. c\<lparr>ctx_id := Some local\<rparr>) (snd (mqtt3_context_init fresh True INVALID_SOCKET d))
          in (fresh, d1\<lparr>contexts_by_id := (local, fresh) # contexts_by_id d1\<rparr>))"

definition mqtt3_bridge_new :: "(string \<times> int \<Rightarrow> net_connect) \<Rightarrow> bool \<Rightarrow> string option \<Rightarrow> ctx_ref \<Rightarrow> bridge \<Rightarrow> db \<Rightarrow> rc \<times> db" where
  "mqtt3_bridge_new net notconn host fresh b d =
     (case bridge_ids host b of
        None \<Rightarrow> (1, d)
      | Some (local, b1) \<Rightarrow>
          case bridge_context fresh local d of
            (r, d1) \<Rightarrow>
              let d2 = upd_ctx r (\<lambda>c. c\<lparr>bridge := Some (b1\<lparr>br_try_private_accepted := True\<rparr>), is_bridge := True,
                          username := br_remote_username b1, password := br_remote_password b1,
                          protocol := br_protocol_version b1\<rparr>) d1;
                  d3 = d2\<lparr>bridges := bridges d2 @ [Some r]\<rparr>
              in mqtt3_bridge_connect net notconn r d3)"

subsection \<open>The answer of the other broker\<close>

fun resubscribe_remote :: "ctx_ref \<Rightarrow> bridge \<Rightarrow> bridge_topic list \<Rightarrow> db \<Rightarrow> rc \<times> db" where
  "resubscribe_remote r b [] d = (MOSQ_ERR_SUCCESS, d)"
| "resubscribe_remote r b (t # ts) d =
     (case (if bt_direction t = bd_in \<or> bt_direction t = bd_both
            then with_ctx r (mosquitto_send_subscribe (bt_remote_topic t) (word_of_nat (bt_qos t))) d
            else if br_attempt_unsubscribe b then with_ctx r (mosquitto_send_unsubscribe (bt_remote_topic t)) d
            else (MOSQ_ERR_SUCCESS, d)) of
        (rc, d1) \<Rightarrow> if rc \<noteq> MOSQ_ERR_SUCCESS then (1, d1) else resubscribe_remote r b ts d1)"

definition notify_up :: "ctx_ref \<Rightarrow> bridge \<Rightarrow> db \<Rightarrow> rc \<times> db" where
  "notify_up r b d =
     (if \<not> br_notifications b then (MOSQ_ERR_SUCCESS, d)
      else
        case mid_generate r d of
          (mid, d1) \<Rightarrow>
            case with_ctx r (mosquitto_send_real_publish mid (notification_topic_of b) [0x31] 1 True False) d1 of
              (rc, d2) \<Rightarrow>
                if rc \<noteq> MOSQ_ERR_SUCCESS then (1, d2)
                else (MOSQ_ERR_SUCCESS, snd (mqtt3_db_messages_easy_queue (Some r) (notification_topic_of b) 1 [0x31] True d2)))"

definition bridge_accepted :: "ctx_ref \<Rightarrow> db \<Rightarrow> rc \<times> db" where
  "bridge_accepted r d =
     (case bridge (ctx_of d r) of
        None \<Rightarrow> (MOSQ_ERR_SUCCESS, d)
      | Some b \<Rightarrow>
          case notify_up r b d of
            (rc, d1) \<Rightarrow> if rc \<noteq> MOSQ_ERR_SUCCESS then (rc, d1) else resubscribe_remote r b (br_topics b) d1)"

definition mqtt3_handle_connack :: "ctx_ref \<Rightarrow> db \<Rightarrow> rc \<times> db" where
  "mqtt3_handle_connack r =
     finish
       (next_step (on_error 1 (read_field r mosquitto_read_byte)) (\<lambda>_.
        next_step (on_error 1 (read_field r mosquitto_read_byte)) (\<lambda>code d.
          if code = CONNACK_ACCEPTED then
            (case bridge_accepted r d of
               (rc, d1) \<Rightarrow>
                 if rc \<noteq> MOSQ_ERR_SUCCESS then (Inr rc, d1)
                 else (Inr MOSQ_ERR_SUCCESS, upd_ctx r (\<lambda>c. c\<lparr>state := mosq_cs_connected\<rparr>) d1))
          else if code = CONNACK_REFUSED_PROTOCOL_VERSION then
            (Inr 1, case bridge (ctx_of d r) of
                      Some b \<Rightarrow> upd_ctx r (\<lambda>c. c\<lparr>bridge := Some (b\<lparr>br_try_private_accepted := False\<rparr>)\<rparr>) d
                    | None \<Rightarrow> d)
          else (Inr 1, d))))"

end
