(* ===== verification/Wire.thy ===== *)
theory Wire
  imports Reader
begin

text \<open>
  The state of the incoming reader between two calls, whatever bytes a client sends:
  \<^verbatim>\<open>_mosquitto_packet_read\<close> never writes outside the buffer it allocated, and a packet that is handed
  to its handler is complete and has its declared length.
\<close>

subsection \<open>A packet on its way in\<close>

text \<open>While the length is read, the bytes so far are weighted by powers of 128; then the buffer is there.\<close>

definition length_ok :: "packet \<Rightarrow> bool" where
  "length_ok p \<longleftrightarrow> remaining_count p \<le> 0 \<and> - 4 \<le> remaining_count p \<and> payload p = [] \<and> to_process p = 0 \<and> pos p = 0 \<and>
     unat (remaining_mult p) = 128 ^ nat (- remaining_count p) \<and> unat (remaining_length p) < 128 ^ nat (- remaining_count p)"

definition body_ok :: "packet \<Rightarrow> bool" where
  "body_ok p \<longleftrightarrow> unat (remaining_length p) < 2 ^ 28 \<and> length (payload p) = unat (remaining_length p) \<and>
     unat (pos p) + unat (to_process p) = unat (remaining_length p)"

definition wire_ok :: "packet \<Rightarrow> bool" where
  "wire_ok p \<longleftrightarrow> length_ok p \<or> (0 < remaining_count p \<and> body_ok p)"

lemma wire_ok_command [simp]: "length_ok (p\<lparr>command := b\<rparr>) = length_ok p" "body_ok (p\<lparr>command := b\<rparr>) = body_ok p"
  "wire_ok (p\<lparr>command := b\<rparr>) = wire_ok p"
  by (simp_all add: wire_ok_def length_ok_def body_ok_def)

lemma wire_ok_cleanup [simp]: "wire_ok (mosquitto_packet_cleanup p)"
  by (simp add: wire_ok_def length_ok_def mosquitto_packet_cleanup_def)

subsection \<open>Reading the length\<close>

lemma low_bits_le: "unat (ucast (b :: byte) AND (127 :: u32)) \<le> 127"
proof -
  have "ucast b AND (127 :: u32) \<le> 127" by (rule word_and_le1)
  then show ?thesis by (simp add: word_le_nat_alt)
qed

lemma length_step_ok:
  assumes "length_ok p" and "- 4 \<le> remaining_count p - 1"
  shows "length_ok (read_length_step b (p\<lparr>remaining_count := remaining_count p - 1\<rparr>))"
proof -
  define k where "k = nat (- remaining_count p)"
  have p: "remaining_count p = - int k" "k \<le> 3" "payload p = []" "to_process p = 0" "pos p = 0"
    "unat (remaining_mult p) = 128 ^ k" "unat (remaining_length p) < 128 ^ k"
    using assms by (simp_all add: length_ok_def k_def)
  have pow: "(128 :: nat) ^ k \<le> 128 ^ 3" using p(2) by (intro power_increasing) simp_all
  let ?b = "ucast b AND (127 :: u32)"
  have prod: "unat ?b * unat (remaining_mult p) \<le> 127 * 128 ^ k" using low_bits_le [of b] p(6) by simp
  have m1: "unat (?b * remaining_mult p) = unat ?b * unat (remaining_mult p)"
    by (rule unat_mult_lem [THEN iffD1]) (use prod pow in simp)
  have m2: "unat (remaining_length p + ?b * remaining_mult p) = unat (remaining_length p) + unat ?b * unat (remaining_mult p)"
    unfolding m1 [symmetric] by (rule unat_add_lem [THEN iffD1]) (use prod p(7) pow m1 in simp)
  have m3: "unat (remaining_mult p * 128) = 128 ^ Suc k"
  proof -
    have "unat (remaining_mult p * 128) = unat (remaining_mult p) * unat (128 :: u32)"
      by (rule unat_mult_lem [THEN iffD1]) (use p(6) pow in simp)
    then show ?thesis using p(6) by simp
  qed
  have "nat (1 + int k) = Suc k" by simp
  moreover have "unat (remaining_length p) + unat ?b * 128 ^ k < 128 * 128 ^ k"
    using prod p(7) unfolding p(6) by linarith
  ultimately show ?thesis using p m2 m3 by (simp add: length_ok_def read_length_step_def)
qed

lemma net_read_packet: "mosquitto_net_read n c = (bs, k, e, c1) \<Longrightarrow> in_packet c1 = in_packet c"
  by (auto simp: mosquitto_net_read_def split: list.splits net_answer.splits if_splits)

lemma net_read_length: "mosquitto_net_read n c = (bs, k, e, c1) \<Longrightarrow> 0 < k \<Longrightarrow> int (length bs) = k \<and> length bs \<le> n"
  by (auto simp: mosquitto_net_read_def split: list.splits net_answer.splits if_splits)

lemma length_loop_ok:
  assumes "length_ok (in_packet c)" and "read_length_loop (g, c) = (r, g', c')"
  shows "(r = None \<longrightarrow> length_ok (in_packet c') \<and> remaining_count (in_packet c') < 0) \<and>
    (r = Some MOSQ_ERR_SUCCESS \<longrightarrow> length_ok (in_packet c'))"
  using assms
proof (induction "answers_size (rd_answers c)" arbitrary: g c rule: less_induct)
  case less
  obtain bs n e c1 where rd: "mosquitto_net_read 1 c = (bs, n, e, c1)" by (cases "mosquitto_net_read 1 c")
  have p: "in_packet c1 = in_packet c" by (rule net_read_packet [OF rd])
  show ?case
  proof (cases "n = 1")
    case False
    then show ?thesis using less.prems rd p by (auto simp: read_length_loop.simps [of g c])
  next
    case True
    let ?p1 = "(in_packet c)\<lparr>remaining_count := remaining_count (in_packet c) - 1\<rparr>"
    let ?c2 = "c1\<lparr>in_packet := read_length_step (hd bs) ?p1\<rparr>" and ?g2 = "g\<lparr>g_bytes_received := g_bytes_received g + 1\<rparr>"
    show ?thesis
    proof (cases "remaining_count ?p1 < - 4")
      case big: True
      then have "r = Some MOSQ_ERR_PROTOCOL"
        using less.prems(2) rd p True by (simp add: read_length_loop.simps [of g c] Let_def)
      then show ?thesis by simp
    next
      case small: False
      have ok: "length_ok (in_packet ?c2)" using length_step_ok [OF less.prems(1)] small by simp
      have neg: "remaining_count (in_packet ?c2) < 0" using less.prems(1) by (simp add: read_length_step_def length_ok_def)
      have run: "read_length_loop (g, c) = (if hd bs AND 128 \<noteq> 0 then read_length_loop (?g2, ?c2) else (None, ?g2, ?c2))"
        using rd p True small by (simp add: read_length_loop.simps [of g c] Let_def)
      show ?thesis
      proof (cases "hd bs AND 128 = 0")
        case True
        then show ?thesis using run less.prems(2) ok neg by auto
      next
        case False
        have "answers_size (rd_answers ?c2) < answers_size (rd_answers c)"
          using net_read_progress [OF rd] True by simp
        then show ?thesis using less.hyps [OF _ ok] run less.prems(2) False by auto
      qed
    qed
  qed
qed

lemma length_phase_ok:
  assumes "wire_ok (in_packet c)" and "read_remaining_length (g, c) = (r, g', c')"
  shows "(r = None \<longrightarrow> 0 < remaining_count (in_packet c') \<and> body_ok (in_packet c')) \<and>
    (r = Some MOSQ_ERR_SUCCESS \<longrightarrow> wire_ok (in_packet c'))"
proof (cases "remaining_count (in_packet c) \<le> 0")
  case False
  then show ?thesis using assms by (auto simp: read_remaining_length_def wire_ok_def length_ok_def)
next
  case True
  then have ok: "length_ok (in_packet c)" using assms(1) by (simp add: wire_ok_def)
  obtain r1 g1 c1 where loop: "read_length_loop (g, c) = (r1, g1, c1)" by (cases "read_length_loop (g, c)")
  note l = length_loop_ok [OF ok loop]
  show ?thesis
  proof (cases r1)
    case (Some e)
    then show ?thesis using assms(2) True loop l by (auto simp: read_remaining_length_def wire_ok_def)
  next
    case None
    then have p: "length_ok (in_packet c1)" "remaining_count (in_packet c1) < 0" using l by simp_all
    define k where "k = nat (- remaining_count (in_packet c1))"
    have "unat (remaining_length (in_packet c1)) < 128 ^ k" "k \<le> 4" using p unfolding length_ok_def k_def by linarith+
    moreover from this have "(128 :: nat) ^ k \<le> 128 ^ 4" by (intro power_increasing) simp_all
    ultimately have small: "unat (remaining_length (in_packet c1)) < 2 ^ 28" by simp
    have z: "unat x = 0" if "\<not> 0 < x" for x :: u32 using that by (simp add: word_gt_0)
    show ?thesis using assms(2) True loop None p small z
      by (auto simp: read_remaining_length_def Let_def body_ok_def length_ok_def)
  qed
qed

subsection \<open>Reading the body\<close>

lemma store_bytes_ok:
  assumes "body_ok p" and "length bs \<le> unat (to_process p)"
  shows "body_ok (store_bytes bs p)"
proof -
  have p: "unat (remaining_length p) < 2 ^ 28" "length (payload p) = unat (remaining_length p)"
    "unat (pos p) + unat (to_process p) = unat (remaining_length p)"
    using assms(1) by (simp_all add: body_ok_def)
  have b: "unat (word_of_nat (length bs) :: u32) = length bs"
    using assms(2) p by (simp add: unat_of_nat take_bit_nat_eq_self)
  have "unat (pos p + word_of_nat (length bs)) = unat (pos p) + unat (word_of_nat (length bs) :: u32)"
    by (rule unat_add_lem [THEN iffD1]) (use b p assms(2) in simp)
  then have "unat (pos p + word_of_nat (length bs)) = unat (pos p) + length bs" unfolding b .
  moreover have "unat (to_process p - word_of_nat (length bs)) = unat (to_process p) - length bs"
    using b assms(2) by (simp add: unat_sub word_le_nat_alt)
  ultimately show ?thesis using p assms(2) by (simp add: body_ok_def store_bytes_def)
qed

lemma body_loop_ok:
  assumes "0 < remaining_count (in_packet c)" and "body_ok (in_packet c)" and "read_body_loop (g, c) = (r, g', c')"
  shows "0 < remaining_count (in_packet c') \<and> body_ok (in_packet c') \<and> (r = None \<longrightarrow> to_process (in_packet c') = 0)"
  using assms
proof (induction "answers_size (rd_answers c)" arbitrary: g c rule: less_induct)
  case less
  show ?case
  proof (cases "to_process (in_packet c) > 0")
    case False
    then show ?thesis using less.prems by (auto simp: read_body_loop.simps [of g c] word_gt_0)
  next
    case True
    obtain bs n e c1 where rd: "mosquitto_net_read (unat (to_process (in_packet c))) c = (bs, n, e, c1)"
      by (cases "mosquitto_net_read (unat (to_process (in_packet c))) c")
    have p: "in_packet c1 = in_packet c" by (rule net_read_packet [OF rd])
    show ?thesis
    proof (cases "n > 0")
      case False
      then show ?thesis using less.prems True rd p by (auto simp: read_body_loop.simps [of g c] split: if_splits)
    next
      case n: True
      let ?c2 = "c1\<lparr>in_packet := store_bytes bs (in_packet c)\<rparr>"
      have "length bs \<le> unat (to_process (in_packet c))" using net_read_length [OF rd n] by simp
      then have ok: "body_ok (in_packet ?c2)" using store_bytes_ok less.prems(2) by simp
      have rc: "0 < remaining_count (in_packet ?c2)" using less.prems(1) by (simp add: store_bytes_def)
      have "answers_size (rd_answers ?c2) < answers_size (rd_answers c)" using net_read_progress [OF rd n] by simp
      moreover have "read_body_loop (g\<lparr>g_bytes_received := g_bytes_received g + word_of_int n\<rparr>, ?c2) = (r, g', c')"
        using less.prems(3) True rd p n by (simp add: read_body_loop.simps [of g c])
      ultimately show ?thesis using less.hyps [OF _ rc ok] by blast
    qed
  qed
qed

text \<open>A packet as its handler gets it.\<close>

definition complete :: "packet \<Rightarrow> bool" where
  "complete p \<longleftrightarrow> pos p = 0 \<and> length (payload p) = unat (remaining_length p) \<and> unat (remaining_length p) < 2 ^ 28"

lemma reader_keeps_buffer:
  assumes "wire_ok (in_packet c)" and "packet_read_phases (g, c) = (r, g', c')"
  shows "(r = Some MOSQ_ERR_SUCCESS \<longrightarrow> wire_ok (in_packet c')) \<and> (r = None \<longrightarrow> complete (in_packet c'))"
proof -
  obtain r1 g1 c1 where cm: "read_command (g, c) = (r1, g1, c1)" by (cases "read_command (g, c)")
  obtain r2 g2 c2 where ln: "read_remaining_length (g1, c1) = (r2, g2, c2)" by (cases "read_remaining_length (g1, c1)")
  obtain r3 g3 c3 where bd: "read_body_loop (g2, c2) = (r3, g3, c3)" by (cases "read_body_loop (g2, c2)")
  have w1: "wire_ok (in_packet c1)" using cm assms(1) net_read_packet [of 1 c]
    by (auto simp: read_command_def Let_def split: if_splits prod.splits)
  note l = length_phase_ok [OF w1 ln]
  show ?thesis
  proof (cases "sock c = INVALID_SOCKET \<or> state c = mosq_cs_connect_pending \<or> r1 \<noteq> None \<or> r2 \<noteq> None")
    case True
    then show ?thesis using assms cm ln l w1
      by (cases r1; cases r2) (auto simp: packet_read_phases_def split: if_splits)
  next
    case False
    then have b: "0 < remaining_count (in_packet c3)" "body_ok (in_packet c3)" "r3 = None \<Longrightarrow> to_process (in_packet c3) = 0"
      using body_loop_ok [OF _ _ bd] l by auto
    show ?thesis using assms(2) cm ln bd False b
      by (cases r3) (auto simp: packet_read_phases_def wire_ok_def complete_def body_ok_def)
  qed
qed

text \<open>
  C10. Whatever a client sends, in whatever pieces, the reader stays inside the buffer of the packet:
  the length it has decoded is below \<open>2 ^ 28\<close>, the buffer has exactly that many bytes, and the bytes
  read and the bytes still wanted add up to it. That is so whenever a call returns because the
  socket would block, if it was so before, and a packet that reaches its handler is complete.
\<close>

theorem reader_stays_in_buffer:
  assumes "wire_ok (in_packet c)" and "packet_read_phases (g, c) = (r, g', c')"
  shows "(r = Some MOSQ_ERR_SUCCESS \<longrightarrow> wire_ok (in_packet c')) \<and> (r = None \<longrightarrow> complete (in_packet c'))"
  by (rule reader_keeps_buffer [OF assms])

text \<open>A length of four bytes announces 3 bytes of which two have come.\<close>

definition long_length :: ctx where
  "long_length = ctx_zero\<lparr>sock := 4, state := mosq_cs_connected, in_packet := mosquitto_packet_cleanup packet_zero,
     rd_answers := [NetData [0xC0, 0x83, 0x80], NetData [0x80, 0x00, 7, 8]]\<rparr>"

theorem reader_stays_in_buffer_witness:
  "\<exists>g' c'. packet_read_phases (globals_init, long_length) = (Some MOSQ_ERR_SUCCESS, g', c') \<and> wire_ok (in_packet c') \<and>
     payload (in_packet c') = [7, 8, 0] \<and> to_process (in_packet c') = 1"
proof -
  have run: "fst (packet_read_phases (globals_init, long_length)) = Some MOSQ_ERR_SUCCESS"
    "payload (in_packet (snd (snd (packet_read_phases (globals_init, long_length))))) = [7, 8, 0]"
    "to_process (in_packet (snd (snd (packet_read_phases (globals_init, long_length))))) = 1"
    by code_simp+
  obtain r g' c' where p: "packet_read_phases (globals_init, long_length) = (r, g', c')"
    by (cases "packet_read_phases (globals_init, long_length)")
  have "wire_ok (in_packet long_length)" by (simp add: long_length_def)
  from reader_stays_in_buffer [OF this p] run show ?thesis by (simp add: p)
qed

end
