(* ===== verification/Dispatch.thy ===== *)
theory Dispatch
  imports Takeover Bridge Wire
begin

text \<open>
  From the socket to the handlers: \<^verbatim>\<open>mqtt3_packet_handle\<close> of \<^verbatim>\<open>src/read_handle.c\<close> and the whole of
  \<^verbatim>\<open>_mosquitto_packet_read\<close>. The state of every client between two packets is an invariant: a client
  that has not connected has nothing, and nothing but a CONNECT of it is handled.
\<close>

subsection \<open>The dispatcher\<close>

text \<open>\<open>uuid\<close> is the random part of an identifier the broker makes up; the handlers with loops may not return.\<close>

definition mqtt3_packet_handle :: "string \<Rightarrow> ctx_ref \<Rightarrow> db \<Rightarrow> (rc \<times> db) option" where
  "mqtt3_packet_handle uuid r d =
     (let cmd = command (in_packet (ctx_of d r)) AND 0xF0
      in if cmd = PINGREQ then Some (mosquitto_handle_pingreq r d)
         else if cmd = PINGRESP then Some (mosquitto_handle_pingresp r d)
         else if cmd = PUBACK then Some (mosquitto_handle_pubackcomp r d)
         else if cmd = PUBCOMP then Some (mosquitto_handle_pubackcomp r d)
         else if cmd = PUBLISH then Some (mqtt3_handle_publish r d)
         else if cmd = PUBREC then Some (mosquitto_handle_pubrec r d)
         else if cmd = PUBREL then mosquitto_handle_pubrel r d
         else if cmd = CONNECT then Some (mqtt3_handle_connect uuid r d)
         else if cmd = DISCONNECT then Some (mqtt3_handle_disconnect r d)
         else if cmd = SUBSCRIBE then mqtt3_handle_subscribe r d
         else if cmd = UNSUBSCRIBE then mqtt3_handle_unsubscribe r d
         else if cmd = CONNACK then Some (mqtt3_handle_connack r d)
         else if cmd = SUBACK then mosquitto_handle_suback r d
         else if cmd = UNSUBACK then Some (mosquitto_handle_unsuback r d)
         else Some (MOSQ_ERR_PROTOCOL, d))"

definition mosquitto_packet_read :: "string \<Rightarrow> ctx_ref \<Rightarrow> db \<Rightarrow> (rc \<times> db) option" where
  "mosquitto_packet_read uuid r d =
     (case with_ctx r packet_read_phases d of
        (Some rc, d1) \<Rightarrow> Some (rc, d1)
      | (None, d1) \<Rightarrow>
          map_option (\<lambda>(rc, d2).
              (rc, upd_ctx r (\<lambda>c. c\<lparr>in_packet := mosquitto_packet_cleanup (in_packet c), last_msg_in := now (glob d2)\<rparr>) d2))
            (mqtt3_packet_handle uuid r d1))"

subsection \<open>The state of a client between two packets\<close>

text \<open>The life of a client that is not a bridge: its connection is new or it is connected.\<close>

definition awake :: "ctx \<Rightarrow> bool" where
  "awake c \<longleftrightarrow> (state c = mosq_cs_new \<and> unborn c \<and> will c = None) \<or> (state c = mosq_cs_connected \<and> ctx_id c \<noteq> None)"

definition first_packet :: "ctx \<Rightarrow> bool" where
  "first_packet c \<longleftrightarrow> (state c = mosq_cs_new \<longrightarrow> command (in_packet c) = 0 \<or> command (in_packet c) AND 0xF0 = CONNECT)"

definition client_ok :: "ctx \<Rightarrow> bool" where
  "client_ok c \<longleftrightarrow> bridge c = None \<and> - 1 \<le> sock c \<and>
     (0 \<le> sock c \<longrightarrow> awake c \<and> wire_ok (in_packet c) \<and> first_packet c)"

text \<open>The same while a packet of it is handled.\<close>

definition client_busy :: "ctx \<Rightarrow> bool" where
  "client_busy c \<longleftrightarrow> bridge c = None \<and> - 1 \<le> sock c \<and> (0 \<le> sock c \<longrightarrow> awake c)"

text \<open>No socket is opened for two listeners.\<close>

definition ports_ok :: "int list list \<Rightarrow> bool" where
  "ports_ok ps \<longleftrightarrow> (\<forall>i < length ps. \<forall>j < length ps. \<forall>s. s \<in> set (ps ! i) \<and> s \<in> set (ps ! j) \<longrightarrow> i = j)"

definition ports :: "db \<Rightarrow> int list list" where
  "ports d = map ls_socks (listeners d)"

definition orderly :: "db \<Rightarrow> bool" where
  "orderly d \<longleftrightarrow> consistent d \<and> no_rules d \<and> bridges d = [] \<and> ports_ok (ports d) \<and>
     distinct (map fst (contexts_by_id d))"

definition sound :: "db \<Rightarrow> bool" where
  "sound d \<longleftrightarrow> orderly d \<and> (\<forall>q. ctx_live d q \<longrightarrow> client_ok (ctx_of d q))"

definition sound_but :: "ctx_ref \<Rightarrow> db \<Rightarrow> bool" where
  "sound_but r d \<longleftrightarrow> orderly d \<and> ctx_live d r \<and> client_busy (ctx_of d r) \<and>
     (\<forall>q. ctx_live d q \<and> q \<noteq> r \<longrightarrow> client_ok (ctx_of d q))"

lemma client_busy: "client_ok c \<Longrightarrow> client_busy c"
  by (simp add: client_ok_def client_busy_def)

lemma sound_but: "sound d \<Longrightarrow> ctx_live d r \<Longrightarrow> sound_but r d"
  by (simp add: sound_def sound_but_def client_busy)

lemma soundI: "sound_but r d \<Longrightarrow> client_ok (ctx_of d r) \<Longrightarrow> sound d"
  by (auto simp: sound_def sound_but_def)

lemma orderly_parts:
  assumes "orderly d"
  shows "consistent d" and "broker_inv (\<lambda>s. 0) d" and "clients_ok d"
  using assms consistent_parts by (simp_all add: orderly_def)

lemma orderly_keeps:
  assumes "orderly d" and "consistent e" and "settings e = settings d"
    and "contexts_by_id e = contexts_by_id d \<or> contexts_by_id e = filter P (contexts_by_id d)"
  shows "orderly e"
  using assms distinct_map_filter [of fst "contexts_by_id d" P] by (auto simp: orderly_def settings_def no_rules_def ports_def)

lemma later_client_ok: "later c c' \<Longrightarrow> client_ok c \<Longrightarrow> client_ok c'"
  by (auto simp: later_def identity_def client_ok_def awake_def first_packet_def)

lemma reads_on_client_busy: "reads_on c c' \<Longrightarrow> client_busy c \<Longrightarrow> client_busy c'"
  by (auto simp: reads_on_def later_def identity_def client_busy_def awake_def unborn_def)

subsection \<open>The register of names\<close>

text \<open>
  What the table of identifiers is for: at any time each name belongs to one client. A client may take
  a name, from whoever has it, when it has none, and it may give up its own.
\<close>

definition names :: "db \<Rightarrow> string \<rightharpoonup> ctx_ref" where
  "names d = map_of (contexts_by_id d)"

definition without :: "ctx_ref \<Rightarrow> (string \<rightharpoonup> ctx_ref) \<Rightarrow> string \<rightharpoonup> ctx_ref" where
  "without r m = (\<lambda>i. if m i = Some r then None else m i)"

inductive register_step :: "ctx_ref \<Rightarrow> (string \<rightharpoonup> ctx_ref) \<Rightarrow> (string \<rightharpoonup> ctx_ref) \<Rightarrow> bool" for r where
  register_stay: "register_step r m m"
| register_join: "r \<notin> ran m \<Longrightarrow> register_step r m (m(i \<mapsto> r))"
| register_leave: "register_step r m (without r m)"

inductive_cases register_stepE: "register_step r m m'"

lemma names_filter:
  assumes "distinct (map fst xs)"
  shows "map_of (filter (\<lambda>(i, q). q \<noteq> r) xs) = without r (map_of xs)"
proof
  fix i show "map_of (filter (\<lambda>(i, q). q \<noteq> r) xs) i = without r (map_of xs) i"
    using assms
  proof (induction xs)
    case (Cons x xs)
    have "map_of xs (fst x) = None" using Cons.prems by (simp add: map_of_eq_None_iff)
    then show ?case using Cons by (cases x) (auto simp: without_def)
  qed (simp add: without_def)
qed

lemma names_tables: "tables e = tables d \<Longrightarrow> names e = names d"
  by (simp add: names_def tables_def)

lemma names_leave:
  assumes "orderly d" and "contexts_by_id e = contexts_by_id d \<or> contexts_by_id e = filter (\<lambda>(i, q). q \<noteq> r) (contexts_by_id d)"
  shows "register_step r (names d) (names e)"
  using assms names_filter [of "contexts_by_id d" r]
  by (auto simp: names_def orderly_def intro: register_stay register_leave)

subsection \<open>What the broker calls keeps all this\<close>

lemma keeps_sound_but:
  assumes "sound_but r d" and "keeps r d e"
  shows "sound_but r e"
proof -
  have k: "consistent e" "tables e = tables d" "\<And>q. ctx_live e q = ctx_live d q"
    "\<And>q. q \<noteq> r \<Longrightarrow> later (ctx_of d q) (ctx_of e q)" "reads_on (ctx_of d r) (ctx_of e r)"
    using assms(2) by (simp_all add: keeps_def calm_but_def)
  have "orderly e"
    by (rule orderly_keeps [of d _ "\<lambda>x. True"])
      (use assms(1) k(1,2) settings_tables [OF k(2)] in \<open>simp_all add: sound_but_def tables_def\<close>)
  moreover have "client_busy (ctx_of e r)"
    by (rule reads_on_client_busy [OF k(5)]) (use assms(1) in \<open>simp add: sound_but_def\<close>)
  moreover have "client_ok (ctx_of e q)" if "ctx_live e q" "q \<noteq> r" for q
    by (rule later_client_ok [OF k(4) [OF that(2)]]) (use assms(1) that k(3) in \<open>simp add: sound_but_def\<close>)
  ultimately show ?thesis using assms(1) k(3) by (simp add: sound_but_def)
qed

lemma keeps_names: "keeps r d e \<Longrightarrow> names e = names d"
  by (simp add: keeps_def calm_but_def names_def tables_def)

lemma calm_sound:
  assumes "sound d" and "broker_inv (\<lambda>s. 0) e" and "calm d e"
  shows "sound e"
proof -
  have c: "consistent e" using assms clients_calm by (auto simp: consistent_def sound_def orderly_def)
  have t: "tables e = tables d" "\<And>q. later (ctx_of d q) (ctx_of e q)" "\<And>q. ctx_live e q = ctx_live d q"
    using assms(3) by (simp_all add: calm_def)
  have "orderly e"
    by (rule orderly_keeps [of d _ "\<lambda>x. True"])
      (use assms(1) c t(1) settings_tables [OF t(1)] in \<open>simp_all add: sound_def tables_def\<close>)
  moreover have "client_ok (ctx_of e q)" if "ctx_live e q" for q
    by (rule later_client_ok [OF t(2)]) (use assms(1) that t(3) in \<open>simp add: sound_def\<close>)
  ultimately show ?thesis by (simp add: sound_def)
qed
subsection \<open>Disconnecting keeps it\<close>

lemma disconnect_sound:
  assumes s: "orderly d" "ctx_live d r" and c: "bridge (ctx_of d r) = None" "- 1 \<le> sock (ctx_of d r)"
    and others: "\<And>q. ctx_live d q \<Longrightarrow> q \<noteq> r \<Longrightarrow> client_ok (ctx_of d q)" and st: "state (ctx_of d r) \<noteq> mosq_cs_disconnected"
  shows "sound (do_disconnect r d)"
proof -
  let ?e = "do_disconnect r d"
  note ok = do_disconnect_ok [OF orderly_parts(3,2) [OF s(1)] s(2) st]
  have o: "\<And>q. ctx_live ?e q = ctx_live d q" "\<And>q. q \<noteq> r \<Longrightarrow> later (ctx_of d q) (ctx_of ?e q)"
    using ok(3) by (simp_all add: others_calm_def)
  have "orderly ?e"
    by (rule orderly_keeps [OF s(1)]) (use ok in \<open>simp_all add: consistent_def\<close>)
  moreover have "client_ok (ctx_of ?e q)" if "ctx_live ?e q" for q
  proof (cases "q = r")
    case True
    then show ?thesis using c ok(9,11) by (simp add: client_ok_def)
  next
    case False
    show ?thesis
      by (rule later_client_ok [OF o(2) [OF False]]) (use others that o(1) False in simp)
  qed
  ultimately show ?thesis by (simp add: sound_def)
qed

text \<open>Dropping a client, also one that is gone already.\<close>

lemma dismiss_sound:
  assumes "sound_but r d"
  shows "sound (do_disconnect r d)"
proof (cases "state (ctx_of d r) = mosq_cs_disconnected")
  case True
  have "client_busy (ctx_of d r)" using assms by (simp add: sound_but_def)
  then have "client_ok (ctx_of d r)" using True by (auto simp: client_busy_def client_ok_def awake_def)
  then show ?thesis using True soundI [OF assms] by (simp add: do_disconnect_def)
qed (use assms in \<open>auto intro!: disconnect_sound simp: sound_but_def client_busy_def\<close>)

subsection \<open>The handlers keep it\<close>

lemma counted_keeps: "consistent d \<Longrightarrow> keeps r d (counted d)"
  using consistent_counted by (simp add: keeps_def calm_but calm_def)

lemma unbridged_sound:
  assumes "sound_but r d"
  shows "unbridged d"
proof -
  have "bridge (ctx_of d q) = None" if "(i, q) \<in> set (contexts_by_id d)" for i q
  proof -
    have "ctx_live d q" using that assms by (auto simp: sound_but_def orderly_def consistent_def clients_ok_def ids_ok_def)
    then show ?thesis using assms by (cases "q = r") (auto simp: sound_but_def client_ok_def client_busy_def)
  qed
  then show ?thesis by (auto simp: unbridged_def)
qed

lemma connects_sound:
  assumes "sound_but r d" and "connects r d e"
  shows "sound_but r e"
proof -
  have h: "hub e = hub d" "\<And>q. q \<noteq> r \<Longrightarrow> ctx_of e q = ctx_of d q \<and> ctx_live e q = ctx_live d q" "ready r e"
    "- 1 \<le> sock (ctx_of d r) \<longrightarrow> - 1 \<le> sock (ctx_of e r)"
    using assms(2) by (simp_all add: connects_def)
  have "orderly e"
    by (rule orderly_keeps [of d _ "\<lambda>x. True"]) (use assms(1) h(1,3) in \<open>simp_all add: sound_but_def ready_def hub_def settings_def\<close>)
  moreover have "client_ok (ctx_of e q)" if "ctx_live e q" "q \<noteq> r" for q
    using assms(1) h(2) [OF that(2)] that by (simp add: sound_but_def)
  ultimately show ?thesis using assms(1) h(3,4) by (simp add: sound_but_def client_busy_def awake_def ready_def)
qed

lemma accepted_sound:
  assumes "sound_but r d" and "ready r d" and "\<forall>y. cr_will q = Some y \<longrightarrow> wildcard_free (w_topic y)"
    and run: "accept_connect r q d = (x, e)"
  shows "sound_but r e" and "register_step r (names d) (names e)"
proof -
  have o: "orderly d" "no_rules d" using assms(1) by (simp_all add: sound_but_def orderly_def)
  note a = accept_spec [OF assms(2) o(2) unbridged_sound [OF assms(1)] assms(3) run]
  have "distinct (map fst (contexts_by_id e))"
    unfolding a(5) find_context_def
    by (rule names_after) (use o(1) in \<open>simp_all add: orderly_def consistent_def clients_ok_def ids_ok_def\<close>)
  then have "orderly e" using a(1,9) o(1) by (simp add: orderly_def settings_def no_rules_def ports_def)
  moreover have "client_busy (ctx_of e r)"
  proof -
    have l: "later (registered (cr_id q) (cr_clean q) (cr_version q) (cr_will q) (replaced (find_context (cr_id q) d) (cr_clean q) d (ctx_of d r)))
        (ctx_of e r)" using same_but_outputD [OF a(3)] by simp
    have b: "bridge (ctx_of d r) = None" "- 1 \<le> sock (ctx_of d r)" using assms(1) by (simp_all add: sound_but_def client_busy_def)
    show ?thesis using l b
      by (auto simp: later_def identity_def client_busy_def awake_def registered_def replaced_def successor_def inherited_def
          reset_queue_def split: option.splits)
  qed
  moreover have "client_ok (ctx_of e p)" if "ctx_live e p" "p \<noteq> r" for p
  proof -
    have "client_ok (ctx_of d p)" using assms(1) that a(2) by (simp add: sound_but_def)
    then show ?thesis unfolding a(4) [OF that(2)]
      by (auto simp: client_ok_def predecessor_def evicted_def closed_def displaced_def)
  qed
  ultimately show "sound_but r e" using assms(1) a(2) by (simp add: sound_but_def)
  have "names e = (names d)(cr_id q \<mapsto> r)"
  proof (cases "find_context (cr_id q) d")
    case (Some p)
    have one: "i = cr_id q" if "names d i = Some p" for i
    proof -
      have "(i, p) \<in> set (contexts_by_id d)" "(cr_id q, p) \<in> set (contexts_by_id d)"
        using that Some by (auto simp: names_def find_context_def dest: map_of_SomeD)
      then show ?thesis using o(1) by (auto simp: orderly_def consistent_def clients_ok_def ids_ok_def)
    qed
    have "map_of (filter (\<lambda>(i, q). q \<noteq> p) (contexts_by_id d)) = without p (names d)"
      using names_filter [of "contexts_by_id d" p] o(1) by (simp add: names_def orderly_def)
    then have "names e = (without p (names d))(cr_id q \<mapsto> r)" by (simp add: names_def [of e] a(5) Some)
    moreover have "(without p (names d))(cr_id q \<mapsto> r) = (names d)(cr_id q \<mapsto> r)"
    proof
      fix i show "((without p (names d))(cr_id q \<mapsto> r)) i = ((names d)(cr_id q \<mapsto> r)) i"
        using one [of i] by (cases "names d i = Some p") (simp_all add: without_def)
    qed
    ultimately show ?thesis by simp
  qed (simp add: names_def a(5))
  moreover have "r \<notin> ran (names d)"
  proof
    assume "r \<in> ran (names d)"
    then obtain i where "(i, r) \<in> set (contexts_by_id d)" by (auto simp: names_def ran_def dest: map_of_SomeD)
    then show False using assms(2) by (auto simp: ready_def unborn_def consistent_def clients_ok_def ids_ok_def)
  qed
  ultimately show "register_step r (names d) (names e)" using register_join by simp
qed

lemma connect_sound:
  assumes "sound_but r d" and "0 \<le> sock (ctx_of d r)"
  shows "sound_but r (snd (mqtt3_handle_connect uuid r d)) \<and> register_step r (names d) (names (snd (mqtt3_handle_connect uuid r d)))"
proof -
  have c: "consistent d" "ctx_live d r" "awake (ctx_of d r)" "bridge (ctx_of d r) = None"
    using assms by (simp_all add: sound_but_def orderly_def client_busy_def)
  have s1: "sound_but r (counted d)" by (rule keeps_sound_but [OF assms(1) counted_keeps [OF c(1)]])
  have run: "mqtt3_handle_connect uuid r d = finish (next_step (check_connect uuid r) (accept_connect r)) (counted d)"
    by (simp add: mqtt3_handle_connect_def counted_def)
  have n1: "names (counted d) = names d" by (rule names_tables) simp
  show ?thesis
  proof (cases "state (ctx_of d r) = mosq_cs_new")
    case False
    then have "check_connect uuid r (counted d) = (Inl MOSQ_ERR_PROTOCOL, counted d)"
      by (simp add: check_connect_def next_step_def require_def)
    then show ?thesis using s1 n1 register_stay by (simp add: run finish_def next_step_def)
  next
    case True
    then have "ready r d" using c by (auto simp: ready_def awake_def)
    then have r1: "ready r (counted d)" by (rule ready_counted)
    obtain y d1 where k: "check_connect uuid r (counted d) = (y, d1)" by fastforce
    have con: "connects r (counted d) d1" by (rule politeD [OF polite_check r1 k])
    then have s2: "sound_but r d1" by (rule connects_sound [OF s1])
    have n2: "names d1 = names d" using con n1 by (simp add: names_def connects_def hub_def)
    show ?thesis
    proof (cases y)
      case (Inl e)
      then show ?thesis using s2 n2 k register_stay by (simp add: run finish_def next_step_def)
    next
      case (Inr q)
      obtain x e where a: "accept_connect r q d1 = (x, e)" by fastforce
      have w: "\<forall>y. cr_will q = Some y \<longrightarrow> wildcard_free (w_topic y)" using will_checked k Inr by blast
      note acc = accepted_sound [OF s2 connects_ready [OF con] w a]
      then show ?thesis using k a Inr n2 by (auto simp: run finish_def next_step_def split: sum.split)
    qed
  qed
qed
lemma suback_loop_ends:
  assumes "has_room p"
  shows "\<exists>y p'. suback_loop p = Some (y, p')"
  using assms
proof (induction "left_in p" arbitrary: p rule: less_induct)
  case less
  obtain x p1 where b: "mosquitto_read_byte p = (x, p1)" by fastforce
  then have e: "has_room p1" "\<not> isl x \<longrightarrow> left_in p1 < left_in p" using eats_byte less.prems by (auto simp: eats_def)
  show ?case
  proof (cases "pos p < remaining_length p")
    case True
    then show ?thesis using b e less.hyps [of p1] by (cases x) (simp_all add: suback_loop.simps [of p])
  qed (simp add: suback_loop.simps [of p])
qed

lemma suback_keeps_all:
  assumes "consistent d" and "ctx_live d r" and "has_room (in_packet (ctx_of d r))"
  obtains rc e where "mosquitto_handle_suback r d = Some (rc, e)" and "keeps r d e"
proof -
  obtain x d1 where m: "read_field r mosquitto_read_uint16 d = (x, d1)" by fastforce
  obtain x' where m': "on_error 1 (read_field r mosquitto_read_uint16) d = (x', d1)"
    using m by (cases x) (auto simp: on_error_def)
  note d1 = reading_mid [OF assms m']
  show thesis
  proof (cases x)
    case (Inl e)
    then show thesis using that m d1(1) by (simp add: mosquitto_handle_suback_def)
  next
    case (Inr mid)
    obtain y p where l: "suback_loop (in_packet (ctx_of d1 r)) = Some (y, p)" using suback_loop_ends [OF d1(4)] by blast
    have "keeps r d1 (upd_ctx r (\<lambda>c. c\<lparr>in_packet := p\<rparr>) d1)"
      by (rule keeps_upd [OF d1(2,3)]) (simp_all add: same_queue_def keys_def reads_on_def later_def unborn_def identity_def)
    then show thesis using that m l Inr keeps_trans [OF d1(1)] by (simp add: mosquitto_handle_suback_def)
  qed
qed

lemma unsuback_keeps: "consistent d \<Longrightarrow> ctx_live d r \<Longrightarrow> keeps r d (snd (mosquitto_handle_unsuback r d))"
  unfolding mosquitto_handle_unsuback_def by (rule good_finish) (intro good)

text \<open>A CONNACK changes nothing for a client that is connected and is no bridge.\<close>

lemma connack_keeps:
  assumes "consistent d" and "ctx_live d r" and "bridge (ctx_of d r) = None" and "state (ctx_of d r) = mosq_cs_connected"
  shows "keeps r d (snd (mqtt3_handle_connack r d))"
proof -
  have rd: "keeps r e (snd (on_error 1 (read_field r mosquitto_read_byte) e))" if "consistent e" "ctx_live e r" for e
    using good_stepD [OF good_on_error [OF good_reading] that] .
  obtain x d1 where m1: "on_error 1 (read_field r mosquitto_read_byte) d = (x, d1)" by fastforce
  then have k1: "keeps r d d1" using rd [OF assms(1,2)] by simp
  show ?thesis
  proof (cases x)
    case (Inl e)
    then show ?thesis using m1 k1 by (simp add: mqtt3_handle_connack_def next_step_def finish_def)
  next
    case (Inr b1)
    obtain y d2 where m2: "on_error 1 (read_field r mosquitto_read_byte) d1 = (y, d2)" by fastforce
    then have "keeps r d1 d2" using rd [OF keeps_consistent [OF k1]] keeps_live [OF k1] assms(2) by (metis snd_conv)
    then have k2: "keeps r d d2" by (rule keeps_trans [OF k1])
    have c2: "bridge (ctx_of d2 r) = None" "state (ctx_of d2 r) = mosq_cs_connected"
      using k2 assms(3,4) by (simp_all add: keeps_def calm_but_def reads_on_def later_def identity_def)
    have "keeps r d2 (upd_ctx r (\<lambda>c. c\<lparr>state := mosq_cs_connected\<rparr>) d2)"
      by (rule keeps_upd) (use k2 c2(2) keeps_consistent keeps_live [OF k2] assms(2) in
          \<open>simp_all add: same_queue_def keys_def reads_on_def later_def unborn_def identity_def\<close>)
    then have "keeps r d (upd_ctx r (\<lambda>c. c\<lparr>state := mosq_cs_connected\<rparr>) d2)" by (rule keeps_trans [OF k2])
    then show ?thesis using m1 m2 k2 c2(1) Inr
      by (cases y) (simp_all add: mqtt3_handle_connack_def next_step_def finish_def bridge_accepted_def)
  qed
qed

text \<open>DISCONNECT, and every way a client is dropped with its state set first.\<close>

lemma disconnecting_orderly:
  assumes "sound_but r d" and "state (ctx_of d r) \<noteq> mosq_cs_disconnected"
  shows "orderly (upd_ctx r (\<lambda>c. c\<lparr>state := mosq_cs_disconnecting\<rparr>) d)"
proof -
  have s: "orderly d" "ctx_live d r" using assms(1) by (simp_all add: sound_but_def)
  show ?thesis
    by (rule orderly_keeps [where P = "\<lambda>x. True", OF s(1) consistent_state [OF orderly_parts(1) [OF s(1)] s(2) assms(2)]])
      (simp_all add: upd_ctx_def put_ctx_def settings_def)
qed

lemma disconnecting_sound:
  assumes "sound_but r d" and "state (ctx_of d r) \<noteq> mosq_cs_disconnected"
  shows "sound (do_disconnect r (upd_ctx r (\<lambda>c. c\<lparr>state := mosq_cs_disconnecting\<rparr>) d))"
  using disconnecting_orderly [OF assms] assms(1)
  by (intro disconnect_sound) (auto simp: sound_but_def client_busy_def)
subsection \<open>Every packet is handled\<close>

lemma complete_room: "complete p \<Longrightarrow> has_room p"
  by (simp add: complete_def has_room_def word_less_nat_alt)

lemma disconnect_handler_sound:
  assumes "sound_but r d" and "state (ctx_of d r) \<noteq> mosq_cs_disconnected"
  shows "sound_but r (snd (mqtt3_handle_disconnect r d)) \<and> register_step r (names d) (names (snd (mqtt3_handle_disconnect r d)))"
proof -
  have live: "ctx_live (do_disconnect r e) r" if "sound_but r e" "state (ctx_of e r) \<noteq> mosq_cs_disconnected" for e
    using do_disconnect_ok(3) [OF orderly_parts(3,2) _ that(2)] that(1) by (simp add: sound_but_def others_calm_def)
  let ?d = "upd_ctx r (\<lambda>c. c\<lparr>state := mosq_cs_disconnecting\<rparr>) d"
  have c: "consistent d" "ctx_live d r" using assms(1) by (simp_all add: sound_but_def orderly_def)
  note c1 = consistent_parts [OF consistent_state [OF c assms(2)]]
  have l1: "ctx_live (do_disconnect r ?d) r"
    using do_disconnect_ok(3) [where r = r, OF c1(2,1)] c(2) by (simp add: others_calm_def)
  have o: "orderly d" "orderly ?d" "names ?d = names d" using assms(1) disconnecting_orderly [OF assms]
      names_tables [of ?d d] by (simp_all add: sound_but_def)
  have "register_step r (names d) (names (do_disconnect r d))"
    by (rule names_leave [OF o(1) do_disconnect_ok(10) [OF orderly_parts(3,2) [OF o(1)] c(2) assms(2)]])
  moreover have "register_step r (names d) (names (do_disconnect r ?d))"
    using names_leave [where r = r, OF o(2) do_disconnect_ok(10) [OF orderly_parts(3,2) [OF o(2)]]] c(2) o(3) by simp
  ultimately show ?thesis
    using assms(1) sound_but [OF dismiss_sound [OF assms(1)] live [OF assms]] sound_but [OF disconnecting_sound [OF assms] l1] register_stay
    by (simp add: mqtt3_handle_disconnect_def Let_def)
qed

lemma handle_sound:
  assumes "sound_but r d" and "0 \<le> sock (ctx_of d r)" and "first_packet (ctx_of d r)"
    and "complete (in_packet (ctx_of d r))"
  obtains rc e where "mqtt3_packet_handle uuid r d = Some (rc, e)" and "sound_but r e" and "register_step r (names d) (names e)"
proof -
  define cmd where "cmd = command (in_packet (ctx_of d r)) AND 0xF0"
  have c: "consistent d" "ctx_live d r" "has_room (in_packet (ctx_of d r))" "bridge (ctx_of d r) = None" "awake (ctx_of d r)"
    using assms(1,2) complete_room [OF assms(4)] by (simp_all add: sound_but_def orderly_def client_busy_def)
  note goal = that
  have kept: thesis if "mqtt3_packet_handle uuid r d = Some x" "keeps r d (snd x)" for x
    using that keeps_sound_but [OF assms(1)] keeps_names [of r d] goal register_stay by (cases x) auto
  have run: "mqtt3_packet_handle uuid r d = (if cmd = PINGREQ then Some (mosquitto_handle_pingreq r d)
         else if cmd = PINGRESP then Some (mosquitto_handle_pingresp r d)
         else if cmd = PUBACK then Some (mosquitto_handle_pubackcomp r d)
         else if cmd = PUBCOMP then Some (mosquitto_handle_pubackcomp r d)
         else if cmd = PUBLISH then Some (mqtt3_handle_publish r d)
         else if cmd = PUBREC then Some (mosquitto_handle_pubrec r d)
         else if cmd = PUBREL then mosquitto_handle_pubrel r d
         else if cmd = CONNECT then Some (mqtt3_handle_connect uuid r d)
         else if cmd = DISCONNECT then Some (mqtt3_handle_disconnect r d)
         else if cmd = SUBSCRIBE then mqtt3_handle_subscribe r d
         else if cmd = UNSUBSCRIBE then mqtt3_handle_unsubscribe r d
         else if cmd = CONNACK then Some (mqtt3_handle_connack r d)
         else if cmd = SUBACK then mosquitto_handle_suback r d
         else if cmd = UNSUBACK then Some (mosquitto_handle_unsuback r d)
         else Some (MOSQ_ERR_PROTOCOL, d))"
    by (simp add: mqtt3_packet_handle_def Let_def cmd_def)
  obtain a where a: "mosquitto_handle_pubrel r d = Some a" "keeps r d (snd a)" using pubrel_keeps [OF c(1,2)] by (metis snd_conv)
  obtain b where b: "mqtt3_handle_subscribe r d = Some b" "keeps r d (snd b)" using subscribe_keeps [OF c(1-3)] by (metis snd_conv)
  obtain u where u: "mqtt3_handle_unsubscribe r d = Some u" "keeps r d (snd u)" using unsubscribe_keeps [OF c(1-3)] by (metis snd_conv)
  obtain s where s: "mosquitto_handle_suback r d = Some s" "keeps r d (snd s)" using suback_keeps_all [OF c(1-3)] by (metis snd_conv)
  consider "cmd = CONNECT" | "cmd = DISCONNECT" | "cmd = CONNACK" "cmd \<noteq> CONNECT" | "cmd \<noteq> CONNECT" "cmd \<noteq> DISCONNECT" "cmd \<noteq> CONNACK" by blast
  then show thesis
  proof cases
    case 1
    then show thesis using goal run connect_sound [OF assms(1,2), of uuid] by (cases "mqtt3_handle_connect uuid r d") simp
  next
    case 2
    have "state (ctx_of d r) \<noteq> mosq_cs_disconnected" using c(5) by (auto simp: awake_def)
    then show thesis using 2 goal run disconnect_handler_sound [OF assms(1)] by (cases "mqtt3_handle_disconnect r d") simp
  next
    case 3
    have "state (ctx_of d r) = mosq_cs_connected" using c(5) assms(3) 3 by (auto simp: awake_def first_packet_def cmd_def)
    note k = connack_keeps [OF c(1,2,4) this]
    show thesis by (rule kept [OF _ k]) (use 3 run in simp)
  next
    case 4
    note k = pingreq_keeps [OF c(1,2)] pingresp_keeps [OF c(1,2)] pubackcomp_keeps [OF c(1,2)] publish_keeps [OF c(1,2)]
      pubrec_keeps [OF c(1,2)] unsuback_keeps [OF c(1,2)]
    define x where "x = (if cmd = PINGREQ then mosquitto_handle_pingreq r d
         else if cmd = PINGRESP then mosquitto_handle_pingresp r d
         else if cmd = PUBACK \<or> cmd = PUBCOMP then mosquitto_handle_pubackcomp r d
         else if cmd = PUBLISH then mqtt3_handle_publish r d
         else if cmd = PUBREC then mosquitto_handle_pubrec r d
         else if cmd = PUBREL then a else if cmd = SUBSCRIBE then b else if cmd = UNSUBSCRIBE then u else if cmd = SUBACK then s
         else if cmd = UNSUBACK then mosquitto_handle_unsuback r d else (MOSQ_ERR_PROTOCOL, d))"
    have "mqtt3_packet_handle uuid r d = Some x" using 4 a b u s by (simp add: run x_def)
    moreover have "keeps r d (snd x)" using k a b u s keeps_refl [OF c(1)] by (simp add: x_def)
    ultimately show thesis by (rule kept)
  qed
qed
subsection \<open>Reading a packet\<close>

text \<open>What the reader changes of a client and of the globals.\<close>

definition same_but_reading :: "ctx \<Rightarrow> ctx \<Rightarrow> bool" where
  "same_but_reading c c' \<longleftrightarrow> c' = c\<lparr>in_packet := in_packet c', rd_answers := rd_answers c', last_msg_in := last_msg_in c',
     want_write := want_write c'\<rparr>"

lemma same_but_reading_trans: "same_but_reading a b \<Longrightarrow> same_but_reading b c \<Longrightarrow> same_but_reading a c"
  by (cases a; cases b; cases c) (simp add: same_but_reading_def)

lemma same_but_reading_upd [simp]:
  "same_but_reading c c" "same_but_reading c (x\<lparr>in_packet := p\<rparr>) = same_but_reading c x"
  "same_but_reading c (x\<lparr>last_msg_in := t\<rparr>) = same_but_reading c x"
  by (cases c; cases x; simp add: same_but_reading_def)+

lemma net_read_same: "mosquitto_net_read n c = (bs, k, e, c1) \<Longrightarrow> same_but_reading c c1"
  by (cases c) (auto simp: mosquitto_net_read_def same_but_reading_def split: list.splits net_answer.splits if_splits)

lemma read_command_same:
  "read_command (g, c) = (r, g', c') \<Longrightarrow> same_but_reading c c' \<and> next_ptr g' = next_ptr g"
  using net_read_same [of 1 c] by (auto simp: read_command_def Let_def split: if_splits prod.splits)

lemma length_loop_same:
  "read_length_loop (g, c) = (r, g', c') \<Longrightarrow> same_but_reading c c' \<and> next_ptr g' = next_ptr g"
proof (induction "answers_size (rd_answers c)" arbitrary: g c rule: less_induct)
  case less
  obtain bs n e c1 where rd: "mosquitto_net_read 1 c = (bs, n, e, c1)" by (cases "mosquitto_net_read 1 c")
  note s = net_read_same [OF rd]
  let ?p1 = "(in_packet c1)\<lparr>remaining_count := remaining_count (in_packet c1) - 1\<rparr>"
  let ?c2 = "c1\<lparr>in_packet := read_length_step (hd bs) ?p1\<rparr>" and ?g2 = "g\<lparr>g_bytes_received := g_bytes_received g + 1\<rparr>"
  have run: "read_length_loop (g, c) = (if n = 1 then if remaining_count ?p1 < - 4 then (Some MOSQ_ERR_PROTOCOL, g, c1\<lparr>in_packet := ?p1\<rparr>)
      else if hd bs AND 128 \<noteq> 0 then read_length_loop (?g2, ?c2) else (None, ?g2, ?c2) else (Some (read_failure n e), g, c1))"
    using rd by (simp add: read_length_loop.simps [of g c] Let_def)
  show ?case
  proof (cases "n = 1 \<and> \<not> remaining_count ?p1 < - 4 \<and> hd bs AND 128 \<noteq> 0")
    case True
    have "answers_size (rd_answers ?c2) < answers_size (rd_answers c)" using net_read_progress [OF rd] True by simp
    then have "same_but_reading ?c2 c' \<and> next_ptr g' = next_ptr ?g2"
      by (rule less.hyps) (use True run less.prems in simp)
    then show ?thesis using same_but_reading_trans [of c ?c2 c'] s by simp
  qed (use run less.prems s in \<open>auto split: if_splits\<close>)
qed

lemma body_loop_same:
  "read_body_loop (g, c) = (r, g', c') \<Longrightarrow> same_but_reading c c' \<and> next_ptr g' = next_ptr g"
proof (induction "answers_size (rd_answers c)" arbitrary: g c rule: less_induct)
  case less
  show ?case
  proof (cases "to_process (in_packet c) > 0")
    case True
    obtain bs n e c1 where rd: "mosquitto_net_read (unat (to_process (in_packet c))) c = (bs, n, e, c1)"
      by (cases "mosquitto_net_read (unat (to_process (in_packet c))) c")
    note s = net_read_same [OF rd]
    show ?thesis
    proof (cases "n > 0")
      case n: True
      let ?c2 = "c1\<lparr>in_packet := store_bytes bs (in_packet c1)\<rparr>" and ?g2 = "g\<lparr>g_bytes_received := g_bytes_received g + word_of_int n\<rparr>"
      have "answers_size (rd_answers ?c2) < answers_size (rd_answers c)" using net_read_progress [OF rd n] by simp
      then have "same_but_reading ?c2 c' \<and> next_ptr g' = next_ptr ?g2"
        by (rule less.hyps) (use less.prems True rd n in \<open>simp add: read_body_loop.simps [of g c]\<close>)
      then show ?thesis using same_but_reading_trans [of c ?c2 c'] s by simp
    qed (use less.prems True rd s in \<open>auto simp: read_body_loop.simps [of g c] split: if_splits\<close>)
  qed (use less.prems in \<open>simp add: read_body_loop.simps [of g c]\<close>)
qed

lemma phases_same:
  assumes "packet_read_phases (g, c) = (r, g', c')"
  shows "same_but_reading c c' \<and> next_ptr g' = next_ptr g"
proof -
  obtain r1 g1 c1 where cm: "read_command (g, c) = (r1, g1, c1)" by (cases "read_command (g, c)")
  obtain r2 g2 c2 where ln: "read_remaining_length (g1, c1) = (r2, g2, c2)" by (cases "read_remaining_length (g1, c1)")
  obtain r3 g3 c3 where bd: "read_body_loop (g2, c2) = (r3, g3, c3)" by (cases "read_body_loop (g2, c2)")
  obtain q h k where lp: "read_length_loop (g1, c1) = (q, h, k)" by (cases "read_length_loop (g1, c1)")
  have s1: "same_but_reading c c1 \<and> next_ptr g1 = next_ptr g" by (rule read_command_same [OF cm])
  have "same_but_reading c1 c2 \<and> next_ptr g2 = next_ptr g1"
    using length_loop_same [OF lp] ln lp
    by (cases q) (auto simp: read_remaining_length_def Let_def split: if_splits)
  then have s2: "same_but_reading c c2 \<and> next_ptr g2 = next_ptr g" using s1 same_but_reading_trans by auto
  then have s3: "same_but_reading c c3 \<and> next_ptr g3 = next_ptr g" using body_loop_same [OF bd] same_but_reading_trans by auto
  show ?thesis using assms cm ln bd s1 s2 s3
    by (cases r1; cases r2; cases r3) (auto simp: packet_read_phases_def split: if_splits)
qed
lemma same_but_reading_fields:
  "same_but_reading c c' \<Longrightarrow> reads_on c c' \<and> bridge c' = bridge c \<and> sock c' = sock c \<and> state c' = state c \<and> ssl c' = ssl c \<and>
     ctx_subs c' = ctx_subs c \<and> same_queue c c' \<and> rd_answers c' = rd_answers c'"
  by (cases c; cases c') (simp add: same_but_reading_def reads_on_def later_def identity_def unborn_def same_queue_def keys_def)

lemma reading_keeps:
  assumes "consistent d" and "ctx_live d r"
  shows "keeps r d (snd (with_ctx r packet_read_phases d))"
proof -
  obtain rc g c where f: "packet_read_phases (glob d, ctx_of d r) = (rc, g, c)" by (cases "packet_read_phases (glob d, ctx_of d r)")
  note s = phases_same [OF f]
  note c = same_but_reading_fields [OF conjunct1 [OF s]]
  have e: "snd (with_ctx r packet_read_phases d) = (upd_ctx r (\<lambda>x. c) d)\<lparr>glob := g\<rparr>" (is "_ = ?e")
    by (simp add: with_ctx_def f upd_ctx_def put_ctx_def)
  have "broker_inv (\<lambda>s. 0) (upd_ctx r (\<lambda>x. c) d)"
    by (rule broker_inv_upd [OF consistent_parts(1) [OF assms(1)] assms(2)]) (use c in simp_all)
  then have "broker_inv (\<lambda>s. 0) ?e" by (rule broker_inv_tables) (use s in \<open>simp_all add: upd_ctx_def put_ctx_def\<close>)
  moreover have "calm_but r d ?e"
    using assms(2) c by (auto simp: calm_but_def ctx_of_glob) (auto simp: ctx_live_def upd_ctx_def put_ctx_def split: if_splits)
  ultimately show ?thesis unfolding e by (rule keeps_but [OF _ _ assms(1)])
qed

text \<open>Of a client that has not connected, only a CONNECT goes past its first byte.\<close>

lemma length_loop_command:
  "read_length_loop (g, c) = (r, g', c') \<Longrightarrow> command (in_packet c') = command (in_packet c)"
proof (induction "answers_size (rd_answers c)" arbitrary: g c rule: less_induct)
  case less
  obtain bs n e c1 where rd: "mosquitto_net_read 1 c = (bs, n, e, c1)" by (cases "mosquitto_net_read 1 c")
  note p = net_read_packet [OF rd]
  let ?p1 = "(in_packet c1)\<lparr>remaining_count := remaining_count (in_packet c1) - 1\<rparr>"
  let ?c2 = "c1\<lparr>in_packet := read_length_step (hd bs) ?p1\<rparr>" and ?g2 = "g\<lparr>g_bytes_received := g_bytes_received g + 1\<rparr>"
  have run: "read_length_loop (g, c) = (if n = 1 then if remaining_count ?p1 < - 4 then (Some MOSQ_ERR_PROTOCOL, g, c1\<lparr>in_packet := ?p1\<rparr>)
      else if hd bs AND 128 \<noteq> 0 then read_length_loop (?g2, ?c2) else (None, ?g2, ?c2) else (Some (read_failure n e), g, c1))"
    using rd by (simp add: read_length_loop.simps [of g c] Let_def)
  show ?case
  proof (cases "n = 1 \<and> \<not> remaining_count ?p1 < - 4 \<and> hd bs AND 128 \<noteq> 0")
    case True
    have "answers_size (rd_answers ?c2) < answers_size (rd_answers c)" using net_read_progress [OF rd] True by simp
    then have "command (in_packet c') = command (in_packet ?c2)"
      by (rule less.hyps) (use True run less.prems in simp)
    then show ?thesis using p by (simp add: read_length_step_def)
  qed (use run less.prems p in \<open>auto simp: read_length_step_def split: if_splits\<close>)
qed

lemma body_loop_command:
  "read_body_loop (g, c) = (r, g', c') \<Longrightarrow> command (in_packet c') = command (in_packet c)"
proof (induction "answers_size (rd_answers c)" arbitrary: g c rule: less_induct)
  case less
  show ?case
  proof (cases "to_process (in_packet c) > 0")
    case True
    obtain bs n e c1 where rd: "mosquitto_net_read (unat (to_process (in_packet c))) c = (bs, n, e, c1)"
      by (cases "mosquitto_net_read (unat (to_process (in_packet c))) c")
    note p = net_read_packet [OF rd]
    show ?thesis
    proof (cases "n > 0")
      case n: True
      let ?c2 = "c1\<lparr>in_packet := store_bytes bs (in_packet c1)\<rparr>"
      have "answers_size (rd_answers ?c2) < answers_size (rd_answers c)" using net_read_progress [OF rd n] by simp
      then have "command (in_packet c') = command (in_packet ?c2)"
        by (rule less.hyps) (use less.prems True rd n in \<open>simp add: read_body_loop.simps [of g c]\<close>)
      then show ?thesis using p by (simp add: store_bytes_def)
    qed (use less.prems True rd p in \<open>auto simp: read_body_loop.simps [of g c] split: if_splits\<close>)
  qed (use less.prems in \<open>simp add: read_body_loop.simps [of g c]\<close>)
qed

lemma read_command_first:
  assumes "read_command (g, c) = (r, g', c')" and "first_packet c" and "bridge c = None"
  shows "(r = None \<or> r = Some MOSQ_ERR_SUCCESS) \<longrightarrow> first_packet c'"
proof -
  obtain bs n e c1 where rd: "mosquitto_net_read 1 c = (bs, n, e, c1)" by (cases "mosquitto_net_read 1 c")
  have s: "in_packet c1 = in_packet c" "state c1 = state c" "bridge c1 = bridge c"
    using net_read_packet [OF rd] same_but_reading_fields [OF net_read_same [OF rd]] by simp_all
  show ?thesis using assms rd s
    by (cases "command (in_packet c) = 0"; cases "n = 1") (auto simp: read_command_def Let_def first_packet_def split: if_splits)
qed

lemma phases_first:
  assumes "packet_read_phases (g, c) = (r, g', c')" and "first_packet c" and "bridge c = None"
    and "r = None \<or> r = Some MOSQ_ERR_SUCCESS"
  shows "first_packet c'"
proof -
  obtain r1 g1 c1 where cm: "read_command (g, c) = (r1, g1, c1)" by (cases "read_command (g, c)")
  obtain r2 g2 c2 where ln: "read_remaining_length (g1, c1) = (r2, g2, c2)" by (cases "read_remaining_length (g1, c1)")
  obtain r3 g3 c3 where bd: "read_body_loop (g2, c2) = (r3, g3, c3)" by (cases "read_body_loop (g2, c2)")
  obtain q h k where lp: "read_length_loop (g1, c1) = (q, h, k)" by (cases "read_length_loop (g1, c1)")
  have st: "state c' = state c" "state c1 = state c" using phases_same [OF assms(1)] read_command_same [OF cm] same_but_reading_fields by blast+
  have f1: "r1 = None \<or> r1 = Some MOSQ_ERR_SUCCESS \<Longrightarrow> first_packet c1" using read_command_first [OF cm assms(2,3)] by simp
  have "command (in_packet c2) = command (in_packet c1)"
    using length_loop_command [OF lp] ln lp by (cases q) (auto simp: read_remaining_length_def Let_def split: if_splits)
  then have p: "command (in_packet c2) = command (in_packet c1)" "command (in_packet c3) = command (in_packet c1)"
    using body_loop_command [OF bd] by simp_all
  have k: "command (in_packet c') = command (in_packet c) \<or>
      ((r1 = None \<or> r1 = Some MOSQ_ERR_SUCCESS) \<and> command (in_packet c') = command (in_packet c1))"
    using assms(1,4) cm ln bd p by (cases r1; cases r2; cases r3) (auto simp: packet_read_phases_def split: if_splits)
  show ?thesis using k f1 assms(2) st by (auto simp: first_packet_def)
qed
lemma packet_read_sound:
  assumes "sound d" and "ctx_live d r"
  obtains rc e where "mosquitto_packet_read uuid r d = Some (rc, e)" and "sound_but r e" and "rc = MOSQ_ERR_SUCCESS \<Longrightarrow> sound e"
    and "register_step r (names d) (names e)"
proof -
  note goal = that
  have c: "consistent d" using assms(1) by (simp add: sound_def orderly_def)
  have ok: "client_ok (ctx_of d r)" using assms by (simp add: sound_def)
  obtain x d1 where p: "with_ctx r packet_read_phases d = (x, d1)" by fastforce
  obtain rc1 g1 c1 where ph: "packet_read_phases (glob d, ctx_of d r) = (rc1, g1, c1)"
    by (cases "packet_read_phases (glob d, ctx_of d r)")
  have d1: "x = rc1" "ctx_of d1 r = c1" using p ph by (auto simp: with_ctx_def)
  have k1: "keeps r d d1" using reading_keeps [OF c assms(2)] p by simp
  have s1: "sound_but r d1" by (rule keeps_sound_but [OF sound_but [OF assms] k1])
  note n1 = keeps_names [OF k1]
  have f: "sock c1 = sock (ctx_of d r)" using phases_same [OF ph] same_but_reading_fields by blast
  show thesis
  proof (cases rc1)
    case (Some rc)
    have "sound d1" if "rc = MOSQ_ERR_SUCCESS"
    proof (rule soundI [OF s1])
      have "awake c1 \<and> wire_ok (in_packet c1) \<and> first_packet c1" if "0 \<le> sock c1"
      proof -
        have o: "wire_ok (in_packet (ctx_of d r))" "first_packet (ctx_of d r)" "bridge (ctx_of d r) = None"
          using ok that f by (simp_all add: client_ok_def)
        have "first_packet c1" by (rule phases_first [OF ph o(2,3)]) (use Some \<open>rc = MOSQ_ERR_SUCCESS\<close> in simp)
        moreover have "wire_ok (in_packet c1)"
          using reader_keeps_buffer [OF o(1) ph] Some \<open>rc = MOSQ_ERR_SUCCESS\<close> by simp
        ultimately show ?thesis using s1 that d1 by (simp add: sound_but_def client_busy_def)
      qed
      then show "client_ok (ctx_of d1 r)" using s1 d1 by (simp add: sound_but_def client_busy_def client_ok_def)
    qed
    then show thesis using goal [of rc d1] s1 p d1 Some n1 register_stay by (simp add: mosquitto_packet_read_def)
  next
    case None
    have open_sock: "0 \<le> sock c1"
    proof -
      have "sock (ctx_of d r) \<noteq> INVALID_SOCKET" using ph None by (auto simp: packet_read_phases_def)
      then show ?thesis using ok f by (simp add: client_ok_def)
    qed
    then have o: "wire_ok (in_packet (ctx_of d r))" "first_packet (ctx_of d r)" "bridge (ctx_of d r) = None"
      using ok f by (simp_all add: client_ok_def)
    have fp: "first_packet c1" by (rule phases_first [OF ph o(2,3)]) (use None in simp)
    have cp: "complete (in_packet c1)" using reader_keeps_buffer [OF o(1) ph] None by simp
    obtain rc e where h: "mqtt3_packet_handle uuid r d1 = Some (rc, e)" "sound_but r e" "register_step r (names d1) (names e)"
      by (rule handle_sound [OF s1, of uuid]) (use open_sock fp cp d1 in simp_all)
    define f :: "ctx \<Rightarrow> ctx" where "f = (\<lambda>c. c\<lparr>in_packet := mosquitto_packet_cleanup (in_packet c), last_msg_in := now (glob e)\<rparr>)"
    have live: "ctx_live e r" using h(2) by (simp add: sound_but_def)
    have k2: "keeps r e (upd_ctx r f e)"
      by (rule keeps_upd) (use h(2) live in \<open>simp_all add: f_def sound_but_def orderly_def same_queue_def keys_def reads_on_def
        later_def unborn_def identity_def\<close>)
    have s2: "sound_but r (upd_ctx r f e)" by (rule keeps_sound_but [OF h(2) k2])
    have "client_ok (ctx_of (upd_ctx r f e) r)"
      using s2 by (auto simp: sound_but_def client_busy_def client_ok_def f_def first_packet_def)
        (simp_all add: mosquitto_packet_cleanup_def)
    then have "sound (upd_ctx r f e)" by (rule soundI [OF s2])
    then show thesis using goal [of rc "upd_ctx r f e"] s2 p h(1,3) d1 None n1 keeps_names [OF k2] by (simp add: mosquitto_packet_read_def f_def)
  qed
qed
subsection \<open>A broker that starts\<close>

definition started :: "config \<Rightarrow> listener list \<Rightarrow> db" where
  "started conf ls = (snd (mqtt3_db_open (db_zero conf)))\<lparr>listeners := ls\<rparr>"

lemma started_sound:
  assumes "mounts_ok ls" and "\<forall>l \<in> set ls. ls_client_count l = 0" and "ports_ok (map ls_socks ls)"
  shows "sound (started conf ls)"
proof -
  let ?d = "started conf ls"
  have c: "contexts ?d = (\<lambda>r. None)" "msg_store ?d = []" "contexts_by_id ?d = []" "contexts_by_sock ?d = []"
    "ll_for_free ?d = []" "listeners ?d = ls" "subs ?d = [SubHier '''' [] None [], SubHier ''$SYS'' [] None []]" "bridges ?d = []"
    "msg_store_count ?d = 0" "acl_list ?d = []" "acl_patterns ?d = []" "auth_plugin ?d = None"
    by (simp_all add: started_def mqtt3_db_open_def db_zero_def)
  have z: "ctx_of ?d q = ctx_zero" "\<not> ctx_live ?d q" for q by (simp_all add: ctx_of_def ctx_live_def c)
  have leaves: "leaves_at p ?d = []" for p by (cases p) (auto simp: leaves_at_info c info_at_Cons)
  have "tree_refs s (subs ?d) = 0" for s by (simp add: c)
  then have "msgs_inv (\<lambda>s. 0) ?d"
    by (simp add: msgs_inv_def store_inv_def counts_ok_def total_refs_def c store_live_def)
  moreover have "linked ?d" by (simp add: linked_def z leaves) (simp add: c ctx_zero_def)
  ultimately have "broker_inv (\<lambda>s. 0) ?d" by (simp add: broker_inv_def topics_ok_def c)
  moreover have "on_listener ?d l = {}" for l by (simp add: on_listener_def z)
  then have "clients_ok ?d" using assms
    by (simp add: clients_ok_def ids_ok_def socks_ok_def disused_ok_def listeners_ok_def wills_ok_def z c)
      (simp add: ctx_zero_def)
  ultimately show ?thesis using assms(3) by (simp add: sound_def orderly_def consistent_def no_rules_def ports_def c z)
qed

text \<open>A context for a connection that was accepted.\<close>

lemma init_sound:
  assumes "sound d" and "\<not> ctx_live d r" and "mqtt3_context_init r peer s d = (ro, e)" and "- 1 \<le> s"
  shows "sound e" and "ctx_live e q \<Longrightarrow> ctx_live d q \<or> q = r" and "ro = Some r \<Longrightarrow> ctx_live e r"
    and "ro = None \<Longrightarrow> e = d"
proof -
  have o: "orderly d" using assms(1) by (simp add: sound_def)
  note i = context_init_ok [OF orderly_parts(3,2) [OF o] assms(2,3)]
  have cases: "(ro = None \<and> e = d) \<or> (ctx_of e r = ctx_zero\<lparr>state := mosq_cs_new, sock := s, last_msg_in := now (glob d),
      last_msg_out := now (glob d), keepalive := 60, clean_session := True, in_packet := mosquitto_packet_cleanup packet_zero\<rparr> \<and>
      (\<forall>q. q \<noteq> r \<longrightarrow> contexts e q = contexts d q) \<and> ro = Some r)"
    using assms(3) by (auto simp: mqtt3_context_init_def Let_def put_ctx_def ctx_of_def split: if_splits)
  have t: "settings e = settings d" "contexts_by_id e = contexts_by_id d"
    using assms(3) by (auto simp: mqtt3_context_init_def Let_def put_ctx_def settings_def split: if_splits)
  have "orderly e" by (rule orderly_keeps [where P = "\<lambda>x. True", OF o]) (use i t in \<open>simp_all add: consistent_def\<close>)
  moreover have ok: "client_ok (ctx_of e q)" if "ctx_live e q" for q
  proof (cases "ro = None \<or> q \<noteq> r")
    case True
    then have "contexts e q = contexts d q" using cases by auto
    then show ?thesis using that assms(1) by (simp add: sound_def ctx_live_def ctx_of_def)
  next
    case False
    have "command (mosquitto_packet_cleanup packet_zero) = 0" by (simp add: mosquitto_packet_cleanup_def)
    then show ?thesis using False cases assms(4)
      by (auto simp: client_ok_def awake_def unborn_def ctx_zero_def first_packet_def)
  qed
  ultimately show "sound e" by (simp add: sound_def)
  show "ctx_live e q \<Longrightarrow> ctx_live d q \<or> q = r" using cases by (auto simp: ctx_live_def)
  show "ro = Some r \<Longrightarrow> ctx_live e r" by (rule i(3))
  show "ro = None \<Longrightarrow> e = d" using cases by auto
qed

subsection \<open>What reading promises\<close>

lemma with_ctx_only: "with_ctx r f d = (x, e) \<Longrightarrow> tables e = tables d \<and> subs e = subs d \<and> msg_store e = msg_store d \<and>
    (\<forall>q. q \<noteq> r \<longrightarrow> contexts e q = contexts d q)"
  by (auto simp: with_ctx_def put_ctx_def tables_def split: prod.splits)

lemma upd_ctx_only: "tables (upd_ctx r f d) = tables d \<and> subs (upd_ctx r f d) = subs d \<and> msg_store (upd_ctx r f d) = msg_store d \<and>
    (\<forall>q. q \<noteq> r \<longrightarrow> contexts (upd_ctx r f d) q = contexts d q)"
  by (simp add: upd_ctx_def put_ctx_def tables_def)

text \<open>
  C8. Reading from a client always returns: whatever bytes it sends, \<open>_mosquitto_packet_read\<close> reaches an end,
  and the broker's invariant (the table of identifiers, the reference counts, the queues, the state of every
  client) holds afterwards, at once when it reports success, and otherwise once the caller has dropped the client.\<close>

theorem packet_read_returns:
  assumes "sound d" and "ctx_live d r"
  shows "\<exists>rc e. mosquitto_packet_read uuid r d = Some (rc, e) \<and> (rc = MOSQ_ERR_SUCCESS \<longrightarrow> sound e) \<and> sound (do_disconnect r e)"
  by (rule packet_read_sound [OF assms, of uuid]) (use dismiss_sound in blast)

text \<open>
  C4. The table of identifiers refines a register of names: one call of the reader, with whatever
  handler it runs, does to the map from names to clients one step of the register, so it never touches a name of
  another client except by taking it over for a client that had none.\<close>

theorem register_refined:
  assumes "sound d" and "ctx_live d r" and "mosquitto_packet_read uuid r d = Some (rc, e)"
  shows "register_step r (names d) (names e)"
  by (rule packet_read_sound [OF assms(1,2), of uuid]) (use assms(3) in simp)

text \<open>
  C7. A client that has not connected can do nothing but connect: of a client in the state
  \<open>mosq_cs_new\<close> the reader hands a packet to \<open>mqtt3_handle_connect\<close>, or it leaves the subscriptions, the
  message store, the tables and every other client as they were.\<close>

theorem only_connect_comes_first:
  assumes "sound d" and "ctx_live d r" and "state (ctx_of d r) = mosq_cs_new" and "0 \<le> sock (ctx_of d r)"
    and "mosquitto_packet_read uuid r d = Some (rc, e)"
  shows "(\<exists>d1. with_ctx r packet_read_phases d = (None, d1) \<and> command (in_packet (ctx_of d1 r)) AND 0xF0 = CONNECT \<and>
            mqtt3_packet_handle uuid r d1 = Some (mqtt3_handle_connect uuid r d1)) \<or>
         (tables e = tables d \<and> subs e = subs d \<and> msg_store e = msg_store d \<and> (\<forall>q. q \<noteq> r \<longrightarrow> contexts e q = contexts d q))"
proof -
  have ok: "client_ok (ctx_of d r)" using assms by (simp add: sound_def)
  obtain x d1 where p: "with_ctx r packet_read_phases d = (x, d1)" by fastforce
  obtain rc1 g1 c1 where ph: "packet_read_phases (glob d, ctx_of d r) = (rc1, g1, c1)"
    by (cases "packet_read_phases (glob d, ctx_of d r)")
  have d1: "x = rc1" "ctx_of d1 r = c1" using p ph by (auto simp: with_ctx_def)
  note o1 = with_ctx_only [OF p]
  show ?thesis
  proof (cases rc1)
    case (Some a)
    then show ?thesis using assms(5) p d1 o1 by (simp add: mosquitto_packet_read_def)
  next
    case None
    have "first_packet c1" by (rule phases_first [OF ph]) (use ok assms(4) None in \<open>simp_all add: client_ok_def\<close>)
    moreover have "state c1 = mosq_cs_new" using phases_same [OF ph] same_but_reading_fields assms(3) by metis
    ultimately have "command (in_packet c1) = 0 \<or> command (in_packet c1) AND 0xF0 = CONNECT" by (simp add: first_packet_def)
    then show ?thesis using assms(5) p d1 o1 None
      by (auto simp: mosquitto_packet_read_def mqtt3_packet_handle_def upd_ctx_only Let_def)
  qed
qed

text \<open>A broker that has accepted a connection, on which the first bytes of a CONNECT arrive.\<close>

definition arriving :: "ctx_ref \<Rightarrow> net_answer list \<Rightarrow> db \<Rightarrow> db" where
  "arriving r bs d = upd_ctx r (\<lambda>c. c\<lparr>rd_answers := rd_answers c @ bs\<rparr>) d"

definition greeted :: db where
  "greeted = arriving 7 [NetData [0x10, 0x0C, 0, 4]] (snd (mqtt3_context_init 7 True 4 (started config_init [])))"

lemma arriving_sound:
  assumes "sound d" and "ctx_live d r"
  shows "sound (arriving r bs d)"
proof -
  have "keeps r d (arriving r bs d)" unfolding arriving_def
    by (rule keeps_upd) (use assms in \<open>simp_all add: sound_def orderly_def same_queue_def keys_def reads_on_def later_def
        unborn_def identity_def\<close>)
  then have "sound_but r (arriving r bs d)" by (rule keeps_sound_but [OF sound_but [OF assms]])
  moreover have "client_ok (ctx_of (arriving r bs d) r)"
    using assms by (simp add: sound_def client_ok_def arriving_def awake_def unborn_def first_packet_def)
  ultimately show ?thesis by (rule soundI)
qed

lemma greeted_sound: "sound greeted" "ctx_live greeted 7" "state (ctx_of greeted 7) = mosq_cs_new" "0 \<le> sock (ctx_of greeted 7)"
proof -
  let ?d = "started config_init []"
  have s: "sound ?d" by (rule started_sound) (simp_all add: mounts_ok_def ports_ok_def)
  have z: "\<not> ctx_live ?d 7" by (simp add: ctx_live_def started_def mqtt3_db_open_def db_zero_def)
  obtain ro e where i: "mqtt3_context_init 7 True 4 ?d = (ro, e)" by fastforce
  have e: "ro = Some 7" "state (ctx_of e 7) = mosq_cs_new" "sock (ctx_of e 7) = 4"
    using i by (auto simp: mqtt3_context_init_def Let_def put_ctx_def ctx_of_def ctx_zero_def)
  note k = init_sound [OF s z i]
  have g: "greeted = arriving 7 [NetData [0x10, 0x0C, 0, 4]] e" using i by (simp add: greeted_def)
  have "ctx_live e 7" using k(3) e(1) by simp
  then show "sound greeted" "ctx_live greeted 7" unfolding g using k(1) arriving_sound by (simp_all add: arriving_def)
  show "state (ctx_of greeted 7) = mosq_cs_new" "0 \<le> sock (ctx_of greeted 7)" unfolding g using e by (simp_all add: arriving_def)
qed

theorem packet_read_returns_witness:
  "\<exists>rc e. mosquitto_packet_read ''x'' 7 greeted = Some (rc, e) \<and> sound (do_disconnect 7 e)"
  using packet_read_returns [OF greeted_sound(1,2), of "''x''"] by blast

lemma reads_greeted: "\<exists>rc e. mosquitto_packet_read ''x'' 7 greeted = Some (rc, e)"
  by (rule packet_read_sound [OF greeted_sound(1,2), of "''x''"]) blast

theorem register_refined_witness:
  "\<exists>rc e. mosquitto_packet_read ''x'' 7 greeted = Some (rc, e) \<and> register_step 7 (names greeted) (names e)"
  using reads_greeted register_refined [OF greeted_sound(1,2), of "''x''"] by blast

theorem only_connect_comes_first_witness:
  "\<exists>rc e. mosquitto_packet_read ''x'' 7 greeted = Some (rc, e) \<and>
     ((\<exists>d1. mqtt3_packet_handle ''x'' 7 d1 = Some (mqtt3_handle_connect ''x'' 7 d1)) \<or> msg_store e = msg_store greeted)"
  using reads_greeted only_connect_comes_first [OF greeted_sound, of "''x''"] by blast

end
