(* ===== verification/Loop.thy ===== *)
theory Loop
  imports Dispatch
begin

text \<open>
  One turn of the main loop of the broker: \<^verbatim>\<open>mosquitto_main_loop\<close>, \<^verbatim>\<open>loop_handle_errors\<close> and
  \<^verbatim>\<open>loop_handle_reads_writes\<close> of \<^verbatim>\<open>src/loop.c\<close>, and \<^verbatim>\<open>mqtt3_socket_accept\<close> of \<^verbatim>\<open>src/net.c\<close>. What
  the kernel, OpenSSL and the allocator answer during the turn is a record; the clocks stand still
  during a turn. Between two turns bytes arrive and time passes.
\<close>

subsection \<open>The kernel's answers\<close>

abbreviation (input) POLLIN :: u16 where "POLLIN \<equiv> 1"
abbreviation (input) POLLPRI :: u16 where "POLLPRI \<equiv> 2"
abbreviation (input) POLLOUT :: u16 where "POLLOUT \<equiv> 4"
abbreviation (input) POLLERR :: u16 where "POLLERR \<equiv> 8"
abbreviation (input) POLLNVAL :: u16 where "POLLNVAL \<equiv> 32"

record pollfd =
  pf_fd :: int
  pf_events :: u16
  pf_revents :: u16

text \<open>The outcomes of \<^verbatim>\<open>SSL_accept\<close> the code tells apart, and a connection that \<^verbatim>\<open>accept\<close> returns.\<close>

datatype tls_accept = TlsDone | TlsWantRead | TlsWantWrite | TlsFailed

record arrival =
  a_sock :: int
  a_nonblock :: bool
  a_peer :: bool
  a_ssl :: "tls_peer option"
  a_accept :: tls_accept

text \<open>
  The answers: \<^verbatim>\<open>_mosquitto_socket_connect\<close> and \<^verbatim>\<open>_mosquitto_try_connect\<close> by address, the result of
  \<^verbatim>\<open>poll\<close> and the events it reports by index, \<^verbatim>\<open>getsockopt(SO_ERROR)\<close>, how often \<^verbatim>\<open>SSL_pending\<close>
  finds more data of a client, the connections waiting at a listening socket, and the address of a
  new context.
\<close>

record kernel =
  k_connect :: "string \<times> int \<Rightarrow> net_connect"
  k_notconn :: bool
  k_try :: "string \<times> int \<Rightarrow> rc"
  k_poll :: int
  k_revents :: "nat \<Rightarrow> u16"
  k_so_error :: "int \<Rightarrow> int option"
  k_pending :: "ctx_ref \<Rightarrow> nat"
  k_uuid :: "ctx_ref \<Rightarrow> string"
  k_arrivals :: "int \<Rightarrow> arrival list"
  k_alloc :: "db \<Rightarrow> ctx_ref"

text \<open>The variables of the loop.\<close>

record main_loop =
  pollfd_count :: nat
  expiration_check_time :: int
  last_timeout_check :: int
  last_backup :: int

subsection \<open>Passes over the clients\<close>

text \<open>
  \<^verbatim>\<open>HASH_ITER\<close> goes from the oldest entry to the newest and keeps a pointer to the next one. A client
  that another one's packet removed in the meantime is skipped; the code may still come to it through
  that pointer, and then does nothing with it (\<open>gone_is_quiet\<close> below).
\<close>

fun each :: "('a \<Rightarrow> 's \<Rightarrow> 's option) \<Rightarrow> 'a list \<Rightarrow> 's \<Rightarrow> 's option" where
  "each f [] s = Some s"
| "each f (x # xs) s = Option.bind (f x s) (each f xs)"

definition by_sock :: "db \<Rightarrow> ctx_ref list" where
  "by_sock d = map snd (rev (contexts_by_sock d))"

definition each_client :: "(ctx_ref \<Rightarrow> db \<Rightarrow> db option) \<Rightarrow> db \<Rightarrow> db option" where
  "each_client f d = each (\<lambda>r d. if r \<in> set (by_sock d) then f r d else Some d) (by_sock d) d"

subsection \<open>Whom to poll\<close>

definition pollfd_unused :: pollfd where
  "pollfd_unused = \<lparr>pf_fd = - 1, pf_events = - 1, pf_revents = - 1\<rparr>"

definition listening :: "int list \<Rightarrow> pollfd list" where
  "listening socks = map (\<lambda>s. \<lparr>pf_fd = s, pf_events = POLLIN, pf_revents = 0\<rparr>) socks"

definition watch :: "bool \<Rightarrow> ctx \<Rightarrow> pollfd" where
  "watch out c = \<lparr>pf_fd = sock c, pf_events = (if out then POLLIN OR POLLOUT else POLLIN), pf_revents = 0\<rparr>"

text \<open>A bridge that uses a spare address tries the first one from time to time.\<close>

definition upd_bridge :: "ctx_ref \<Rightarrow> (bridge \<Rightarrow> bridge) \<Rightarrow> db \<Rightarrow> db" where
  "upd_bridge r f = upd_ctx r (\<lambda>c. c\<lparr>bridge := map_option f (bridge c)\<rparr>)"

definition mind_bridge :: "kernel \<Rightarrow> ctx_ref \<Rightarrow> db \<Rightarrow> db" where
  "mind_bridge k r d =
     (case bridge (ctx_of d r) of
        None \<Rightarrow> d
      | Some b \<Rightarrow>
          let d1 = mosquitto_check_keepalive r d
          in if \<not> br_round_robin b \<and> br_cur_address b \<noteq> 0 \<and> br_primary_retry b < now (glob d) then
               (if br_addresses b = [] then set_fault d1
                else if k_try k (br_addresses b ! 0) \<le> 0
                then upd_bridge r (\<lambda>b. b\<lparr>br_cur_address := length (br_addresses b) - 1\<rparr>) (mosquitto_socket_close r d1)
                else d1)
             else d1)"

definition in_time :: "int \<Rightarrow> ctx \<Rightarrow> bool" where
  "in_time t c \<longleftrightarrow> keepalive c = 0 \<or> bridge c \<noteq> None \<or> t - last_msg_in c < uint (keepalive c) * 3 div 2"

definition poll_client :: "kernel \<Rightarrow> ctx_ref \<Rightarrow> pollfd list \<times> db \<Rightarrow> (pollfd list \<times> db) option" where
  "poll_client k r s =
     (case s of (fds, d) \<Rightarrow>
        let d1 = upd_ctx r (\<lambda>c. c\<lparr>pollfd_index := - 1\<rparr>) d
        in if sock (ctx_of d1 r) = INVALID_SOCKET then Some (fds, d1)
           else
             let d2 = mind_bridge k r d1
             in if in_time (now (glob d2)) (ctx_of d2 r) then
                  map_option (\<lambda>(rc, d3).
                      if rc = MOSQ_ERR_SUCCESS then
                        let c = ctx_of d3 r
                        in (fds @ [watch (current_out_packet c \<noteq> None \<or> state c = mosq_cs_connect_pending) c],
                            upd_ctx r (\<lambda>c. c\<lparr>pollfd_index := int (length fds)\<rparr>) d3)
                      else (fds, do_disconnect r d3))
                    (mqtt3_db_message_write r d2)
                else Some (fds, do_disconnect r d2))"

subsection \<open>Bridges to start again\<close>

definition next_address :: "bridge \<Rightarrow> bridge" where
  "next_address b =
     b\<lparr>br_cur_address := (if br_cur_address b + 1 = length (br_addresses b) then 0 else br_cur_address b + 1)\<rparr>"

definition schedule_restart :: "int \<Rightarrow> bridge \<Rightarrow> bridge" where
  "schedule_restart t b =
     (let b1 = next_address (b\<lparr>br_restart_t := t + br_restart_timeout b\<rparr>)
      in if \<not> br_round_robin b1 \<and> br_cur_address b1 \<noteq> 0 then b1\<lparr>br_primary_retry := t + 5\<rparr> else b1)"

definition restart_bridge :: "kernel \<Rightarrow> ctx_ref option \<Rightarrow> pollfd list \<times> db \<Rightarrow> pollfd list \<times> db" where
  "restart_bridge k x s =
     (case s of (fds, d) \<Rightarrow>
        case x of
          None \<Rightarrow> (fds, d)
        | Some r \<Rightarrow>
            if sock (ctx_of d r) \<noteq> INVALID_SOCKET then (fds, d)
            else case bridge (ctx_of d r) of
                None \<Rightarrow> (fds, set_fault d)
              | Some b \<Rightarrow>
                  let t = now (glob d)
                  in if br_restart_t b = 0 then (fds, upd_bridge r (schedule_restart t) d)
                     else if br_start_type b = bst_lazy \<and> br_lazy_reconnect b then
                       (case mqtt3_bridge_connect (k_connect k) (k_notconn k) r d of
                          (rc, d1) \<Rightarrow> (fds, if rc \<noteq> MOSQ_ERR_SUCCESS then upd_bridge r next_address d1 else d1))
                     else if br_start_type b = bst_automatic \<and> br_restart_t b < t then
                       (case mqtt3_bridge_connect (k_connect k) (k_notconn k) r (upd_bridge r (\<lambda>b. b\<lparr>br_restart_t := 0\<rparr>) d) of
                          (rc, d1) \<Rightarrow>
                            if rc = MOSQ_ERR_SUCCESS
                            then (fds @ [watch (current_out_packet (ctx_of d1 r) \<noteq> None) (ctx_of d1 r)],
                                  upd_ctx r (\<lambda>c. c\<lparr>pollfd_index := int (length fds)\<rparr>) d1)
                            else (fds, upd_bridge r (\<lambda>b. next_address (b\<lparr>br_restart_t := t + br_restart_timeout b\<rparr>)) d1))
                     else (fds, d))"
subsection \<open>Lasting sessions that end\<close>

definition expire_client :: "ctx_ref \<Rightarrow> db \<Rightarrow> db" where
  "expire_client r d =
     (let c = ctx_of d r
      in if sock c = INVALID_SOCKET \<and> \<not> clean_session c \<and>
            disconnect_t c + persistent_client_expiration (cfg d) < wall (glob d)
         then do_disconnect r (upd_ctx r (\<lambda>c. c\<lparr>clean_session := True, state := mosq_cs_expiring\<rparr>)
                (d\<lparr>glob := (glob d)\<lparr>g_clients_expired := g_clients_expired (glob d) + 1\<rparr>\<rparr>))
         else d)"

definition expire_clients :: "main_loop \<times> db \<Rightarrow> main_loop \<times> db" where
  "expire_clients s =
     (case s of (m, d) \<Rightarrow>
        if 0 < persistent_client_expiration (cfg d) \<and> expiration_check_time m < wall (glob d)
        then (m\<lparr>expiration_check_time := wall (glob d) + 3600\<rparr>, fold (\<lambda>(i, r). expire_client r) (rev (contexts_by_id d)) d)
        else (m, d))"

definition check_timeouts :: "main_loop \<times> db \<Rightarrow> main_loop \<times> db" where
  "check_timeouts s =
     (case s of (m, d) \<Rightarrow>
        if last_timeout_check m < now (glob d)
        then (m\<lparr>last_timeout_check := now (glob d)\<rparr>, snd (mqtt3_db_message_timeout_check (retry_interval (cfg d)) d))
        else (m, d))"

subsection \<open>What the kernel reports\<close>

text \<open>The array that \<^verbatim>\<open>poll\<close> fills in; it never shrinks, and what is not used is all ones.\<close>

definition polled :: "kernel \<Rightarrow> nat \<Rightarrow> pollfd list \<Rightarrow> pollfd list" where
  "polled k n fds =
     map (\<lambda>i. (fds ! i)\<lparr>pf_revents := k_revents k i\<rparr>) [0..<length fds] @ replicate (n - length fds) pollfd_unused"

definition happened :: "pollfd list \<Rightarrow> ctx \<Rightarrow> u16 \<Rightarrow> bool" where
  "happened fds c ev \<longleftrightarrow> pf_revents (fds ! nat (pollfd_index c)) AND ev \<noteq> 0"

text \<open>A client outside the array, and an \<^verbatim>\<open>assert\<close> that fails, set the flag \<^const>\<open>fault\<close>.\<close>

definition handle_error :: "pollfd list \<Rightarrow> ctx_ref \<Rightarrow> db \<Rightarrow> db option" where
  "handle_error fds r d =
     (let c = ctx_of d r
      in Some (if pollfd_index c < 0 then d
               else if length fds \<le> nat (pollfd_index c) then set_fault d
               else if happened fds c (POLLERR OR POLLNVAL) then do_disconnect r d
               else d))"

definition loop_handle_errors :: "pollfd list \<Rightarrow> db \<Rightarrow> db option" where
  "loop_handle_errors fds d = each_client (handle_error fds) d"

text \<open>The state of a connection under way becomes new when the socket has no error.\<close>

definition finish_pending :: "kernel \<Rightarrow> ctx_ref \<Rightarrow> db \<Rightarrow> db option" where
  "finish_pending k r d =
     (if state (ctx_of d r) = mosq_cs_connect_pending
      then map_option (\<lambda>err. if err = 0 then upd_ctx r (\<lambda>c. c\<lparr>state := mosq_cs_new\<rparr>) d else d) (k_so_error k (sock (ctx_of d r)))
      else Some d)"

definition handle_write :: "kernel \<Rightarrow> pollfd list \<Rightarrow> ctx_ref \<Rightarrow> db \<Rightarrow> db option" where
  "handle_write k fds r d =
     (let c = ctx_of d r
      in Some (if pollfd_index c < 0 then d
               else if length fds \<le> nat (pollfd_index c) \<or> pf_fd (fds ! nat (pollfd_index c)) \<noteq> sock c then set_fault d
               else if happened fds c POLLOUT \<or> want_write c \<or> (ssl c \<noteq> None \<and> state c = mosq_cs_new) then
                 (case finish_pending k r d of
                    None \<Rightarrow> do_disconnect r d
                  | Some d1 \<Rightarrow>
                      (case with_ctx r mosquitto_packet_write d1 of
                         (rc, d2) \<Rightarrow> if rc \<noteq> MOSQ_ERR_SUCCESS then do_disconnect r d2 else d2))
               else d))"

definition read_once :: "string \<Rightarrow> ctx_ref \<Rightarrow> db \<Rightarrow> db option" where
  "read_once uuid r d =
     map_option (\<lambda>(rc, e). if rc \<noteq> MOSQ_ERR_SUCCESS then do_disconnect r e else e) (mosquitto_packet_read uuid r d)"

fun read_all :: "string \<Rightarrow> ctx_ref \<Rightarrow> nat \<Rightarrow> db \<Rightarrow> db option" where
  "read_all uuid r 0 d = read_once uuid r d"
| "read_all uuid r (Suc n) d =
     Option.bind (read_once uuid r d) (\<lambda>e. if ssl (ctx_of e r) \<noteq> None then read_all uuid r n e else Some e)"

definition handle_read :: "kernel \<Rightarrow> pollfd list \<Rightarrow> ctx_ref \<Rightarrow> db \<Rightarrow> db option" where
  "handle_read k fds r d =
     (let c = ctx_of d r
      in if pollfd_index c < 0 then Some d
         else if length fds \<le> nat (pollfd_index c) then Some (set_fault d)
         else if happened fds c POLLIN \<or> (ssl c \<noteq> None \<and> state c = mosq_cs_new)
         then read_all (k_uuid k r) r (k_pending k r) d
         else Some d)"

definition loop_handle_reads_writes :: "kernel \<Rightarrow> pollfd list \<Rightarrow> db \<Rightarrow> db option" where
  "loop_handle_reads_writes k fds d = Option.bind (each_client (handle_write k fds) d) (each_client (handle_read k fds))"

subsection \<open>New connections\<close>

text \<open>Every listener that has the socket counts the client; the last of them is its listener.\<close>

definition join_listener :: "ctx_ref \<Rightarrow> int \<Rightarrow> nat \<Rightarrow> db \<Rightarrow> db" where
  "join_listener r s i d =
     (if s \<in> set (ls_socks (listeners d ! i))
      then upd_ctx r (\<lambda>c. c\<lparr>ctx_listener := Some i\<rparr>)
             (d\<lparr>listeners := (listeners d)[i := (listeners d ! i)\<lparr>ls_client_count := ls_client_count (listeners d ! i) + 1\<rparr>]\<rparr>)
      else d)"

definition join_listeners :: "ctx_ref \<Rightarrow> int \<Rightarrow> db \<Rightarrow> db" where
  "join_listeners r s d = fold (join_listener r s) [0..<length (listeners d)] d"

text \<open>The beginning of the TLS handshake, for every listener that has the socket and a TLS context.\<close>

definition start_tls :: "ctx_ref \<Rightarrow> int \<Rightarrow> arrival \<Rightarrow> db \<Rightarrow> db option" where
  "start_tls r s a d =
     (if \<exists>l \<in> set (listeners d). s \<in> set (ls_socks l) \<and> ls_ssl_ctx l then
        (case a_ssl a of
           None \<Rightarrow> None
         | Some peer \<Rightarrow>
             if a_accept a = TlsFailed then None
             else Some (upd_ctx r (\<lambda>c. c\<lparr>ssl := Some peer, want_write := True\<rparr>) d))
      else Some d)"

definition mqtt3_socket_accept :: "kernel \<Rightarrow> int \<Rightarrow> arrival \<Rightarrow> db \<Rightarrow> int \<times> db" where
  "mqtt3_socket_accept k s a d =
     (let d1 = d\<lparr>glob := (glob d)\<lparr>g_socket_connections := g_socket_connections (glob d) + 1\<rparr>\<rparr>
      in if \<not> a_nonblock a then (INVALID_SOCKET, d1)
         else case mqtt3_context_init (k_alloc k d1) (a_peer a) (a_sock a) d1 of
             (None, d2) \<Rightarrow> (- 1, d2)
           | (Some r, d2) \<Rightarrow>
               let d3 = join_listeners r s d2
               in case ctx_listener (ctx_of d3 r) of
                   None \<Rightarrow> (- 1, mqtt3_context_cleanup r True d3)
                 | Some i \<Rightarrow>
                     if 0 < ls_max_connections (listeners d3 ! i) \<and>
                        ls_max_connections (listeners d3 ! i) < ls_client_count (listeners d3 ! i)
                     then (- 1, mqtt3_context_cleanup r True d3)
                     else case start_tls r s a d3 of
                         None \<Rightarrow> (- 1, mqtt3_context_cleanup r True d3)
                       | Some d4 \<Rightarrow> (a_sock a, d4))"

text \<open>Accepting goes on until the kernel has no more, or one connection is refused.\<close>

fun accept_all :: "kernel \<Rightarrow> int \<Rightarrow> arrival list \<Rightarrow> db \<Rightarrow> db" where
  "accept_all k s [] d = d"
| "accept_all k s (a # as) d =
     (case mqtt3_socket_accept k s a d of (fd, e) \<Rightarrow> if fd \<noteq> - 1 then accept_all k s as e else e)"

definition accept_clients :: "kernel \<Rightarrow> int list \<Rightarrow> pollfd list \<Rightarrow> db \<Rightarrow> db" where
  "accept_clients k socks fds d =
     fold (\<lambda>i e. if pf_revents (fds ! i) AND (POLLIN OR POLLPRI) \<noteq> 0
                 then accept_all k (socks ! i) (k_arrivals k (socks ! i)) e else e)
       [0..<length socks] d"
subsection \<open>The turn\<close>

definition autosave :: "main_loop \<times> db \<Rightarrow> main_loop \<times> db" where
  "autosave s =
     (case s of (m, d) \<Rightarrow>
        if persistence (cfg d) \<and> autosave_interval (cfg d) \<noteq> 0 then
          (if autosave_on_changes (cfg d)
           then (m, if autosave_interval (cfg d) \<le> persistence_changes d then d\<lparr>persistence_changes := 0\<rparr> else d)
           else (if last_backup m + autosave_interval (cfg d) < now (glob d) then m\<lparr>last_backup := now (glob d)\<rparr> else m, d))
        else (m, d))"

definition loop_start :: "db \<Rightarrow> main_loop" where
  "loop_start d =
     \<lparr>pollfd_count = 0,
      expiration_check_time = (if 0 < persistent_client_expiration (cfg d) then wall (glob d) + 3600 else 0),
      last_timeout_check = 0, last_backup = now (glob d)\<rparr>"

definition watch_clients :: "kernel \<Rightarrow> int list \<Rightarrow> db \<Rightarrow> (pollfd list \<times> db) option" where
  "watch_clients k socks d = each (poll_client k) (by_sock d) (listening socks, d)"

definition serve :: "kernel \<Rightarrow> int list \<Rightarrow> pollfd list \<Rightarrow> db \<Rightarrow> db option" where
  "serve k socks fds d =
     (if k_poll k = - 1 then loop_handle_errors fds d
      else map_option (accept_clients k socks fds) (loop_handle_reads_writes k fds d))"

definition main_turn :: "kernel \<Rightarrow> int list \<Rightarrow> main_loop \<times> db \<Rightarrow> (main_loop \<times> db) option" where
  "main_turn k socks s =
     (case s of (m, d) \<Rightarrow>
        let d1 = free_disused_contexts d;
            n = max (pollfd_count m) (length socks + length (contexts_by_sock d1) + length (bridges d1))
        in Option.bind (watch_clients k socks d1) (\<lambda>(fds, d2).
             case fold (restart_bridge k) (bridges d2) (fds, d2) of
               (fds', d3) \<Rightarrow>
                 case check_timeouts (expire_clients (m\<lparr>pollfd_count := n\<rparr>, d3)) of
                   (m4, d4) \<Rightarrow> map_option (\<lambda>d5. autosave (m4, d5)) (serve k socks (polled k n fds') d4)))"

subsection \<open>Operations of the loop on a sound broker\<close>

lemma each_ends:
  assumes "\<And>x s. P s \<Longrightarrow> x \<in> set xs \<Longrightarrow> \<exists>s'. f x s = Some s' \<and> P s'" and "P s"
  shows "\<exists>s'. each f xs s = Some s' \<and> P s'"
  using assms
proof (induction xs arbitrary: s)
  case (Cons x xs)
  obtain s1 where s1: "f x s = Some s1" "P s1" using Cons.prems by (meson list.set_intros(1))
  have "\<exists>s'. each f xs s1 = Some s' \<and> P s'" by (rule Cons.IH) (use Cons.prems(1) s1(2) in auto)
  then show ?case using s1 by simp
qed simp

lemma by_sock_live:
  assumes "sound d"
  shows "r \<in> set (by_sock d) \<longleftrightarrow> ctx_live d r \<and> 0 \<le> sock (ctx_of d r)" and "distinct (by_sock d)"
proof -
  have s: "socks_ok d" using assms by (simp add: sound_def orderly_def consistent_def clients_ok_def)
  show "r \<in> set (by_sock d) \<longleftrightarrow> ctx_live d r \<and> 0 \<le> sock (ctx_of d r)"
    using s by (force simp: by_sock_def socks_ok_def image_iff)
  have "map snd (rev xs) = rev (map snd xs)" for xs :: "(int \<times> ctx_ref) list" by (simp add: rev_map)
  then show "distinct (by_sock d)" using s by (simp add: by_sock_def socks_ok_def)
qed

lemma each_client_ends:
  assumes "\<And>r d. sound d \<Longrightarrow> ctx_live d r \<Longrightarrow> \<exists>e. f r d = Some e \<and> sound e" and "sound d"
  shows "\<exists>e. each_client f d = Some e \<and> sound e"
  unfolding each_client_def
  by (rule each_ends [where P = sound]) (use assms by_sock_live(1) in auto)

lemma touches_sound: "sound d \<Longrightarrow> ctx_live d r \<Longrightarrow> touches r d e \<Longrightarrow> broker_inv (\<lambda>s. 0) e \<Longrightarrow> sound e"
  using calm_sound touches_calm by blast

lemma poll_index_sound:
  assumes "sound d" and "ctx_live d r"
  shows "sound (upd_ctx r (\<lambda>c. c\<lparr>pollfd_index := i\<rparr>) d)"
proof -
  let ?e = "upd_ctx r (\<lambda>c. c\<lparr>pollfd_index := i\<rparr>) d"
  have o: "orderly d" using assms(1) by (simp add: sound_def)
  note p = orderly_parts [OF o]
  have b: "broker_inv (\<lambda>s. 0) ?e" by (rule broker_inv_upd [OF p(2) assms(2)]) (simp_all add: same_queue_def keys_def)
  have c: "clients_ok ?e"
    by (rule clients_upd [OF p(3) assms(2)]) (use p(3) in \<open>auto simp: clients_ok_def disused_ok_def wills_ok_def\<close>)
  have "orderly ?e"
    by (rule orderly_keeps [where P = "\<lambda>x. True", OF o]) (use b c in \<open>simp_all add: consistent_def upd_ctx_def put_ctx_def settings_def\<close>)
  moreover have "client_ok (ctx_of ?e q)" if "ctx_live ?e q" for q
    using assms that by (auto simp: sound_def client_ok_def awake_def unborn_def first_packet_def split: if_splits)
  ultimately show ?thesis by (simp add: sound_def)
qed

lemma drop_sound: "sound d \<Longrightarrow> ctx_live d r \<Longrightarrow> sound (do_disconnect r d)"
  by (rule dismiss_sound [OF sound_but])

text \<open>The loop that writes a client's queue touches nothing but that client.\<close>

lemma send_for_state_touches: "ctx_live d r \<Longrightarrow> send_for_state r m d = Some (rc, e) \<Longrightarrow> touches r d e"
  using send_for_state_with [of r m d "(rc, e)"] touches_sends by (metis snd_conv)

lemma write_loop_touches:
  assumes "message_write_loop r i count d = Some x"
  shows "ctx_live d r \<longrightarrow> touches r d (snd x)"
proof (rule message_write_loop.raw_induct [where P = "\<lambda>r i count d x. ctx_live d r \<longrightarrow> touches r d (snd x)", rotated, OF assms], goal_cases)
  case (1 loop r i count d x)
  show ?case
  proof
    assume live: "ctx_live d r"
    have step: "touches r d (snd x)" if "loop r j n e = Some x" "touches r d e" for j n e
      using touches_trans [OF that(2)] 1(1) [OF that(1)] touches_live [OF that(2)] by blast
    have send: "touches r d e" if "send_for_state r m d = Some (rc, e)" for m rc e
      by (rule send_for_state_touches [OF live that])
    note set = touches_set_msg touches_message_remove touches_trans touches_live
    show "touches r d (snd x)"
    proof (cases "length (msgs (ctx_of d r)) \<le> i")
      case True
      then show ?thesis using 1(2) live touches_refl by auto
    next
      case False
      let ?m = "msgs (ctx_of d r) ! i"
      show ?thesis
      proof (cases "cm_state ?m = mosq_ms_queued")
        case True
        then show ?thesis using 1(2) False live step touches_refl [OF live] touches_set_msg [OF live]
          by (auto simp: Let_def split: if_splits)
      next
        case active: False
        show ?thesis
        proof (cases "send_for_state r ?m d")
          case None
          then show ?thesis using 1(2) False active step touches_refl [OF live] by (simp add: Let_def)
        next
          case (Some p)
          obtain rc e where p: "p = (rc, e)" by (cases p)
          have t: "touches r d e" by (rule send [OF Some [unfolded p]])
          have rm: "touches r d (message_remove r i e)" "touches r d (set_msg r i f e)" for f
            using touches_trans [OF t] touches_message_remove touches_set_msg touches_live [OF t] by blast+
          show ?thesis using 1(2) False active Some p step rm t by (auto simp: Let_def split: if_splits)
        qed
      qed
    qed
  qed
qed

lemma message_write_ok:
  assumes "broker_inv (\<lambda>s. 0) d" and "ctx_live d r"
  shows "\<exists>rc e. mqtt3_db_message_write r d = Some (rc, e) \<and> broker_inv (\<lambda>s. 0) e \<and> touches r d e"
proof -
  obtain rc e where w: "message_write_loop r 0 0 d = Some (rc, e)" "msgs_inv (\<lambda>s. 0) e"
    using message_write_ends [of "\<lambda>s. 0" d r 0 0] assms by (auto simp: broker_inv_def)
  then have t: "touches r d e" using write_loop_touches [OF w(1)] assms(2) by simp
  then have "broker_inv (\<lambda>s. 0) e" using touches_inv [OF assms(1)] w(2) by blast
  then show ?thesis using w t assms touches_refl by (simp add: mqtt3_db_message_write_def Let_def)
qed
lemma packet_write_sends [simp]: "sends s (mosquitto_packet_write s)"
  using packet_write_frame same_but_countersD
  by (cases s; cases "mosquitto_packet_write s") (auto simp: sends_def)

lemma client_unbridged: "sound d \<Longrightarrow> ctx_live d r \<Longrightarrow> bridge (ctx_of d r) = None"
  by (simp add: sound_def client_ok_def)

text \<open>Dropping a client closes its socket and leaves the others as they are.\<close>

lemma drop_others:
  assumes "sound d" and "ctx_live d r"
  shows "others_calm r d (do_disconnect r d)" and "sock (ctx_of (do_disconnect r d) r) < 0"
    and "state (ctx_of (do_disconnect r d) r) = mosq_cs_disconnected"
proof -
  note o = orderly_parts(3,2) [of d]
  have ok: "orderly d" "client_ok (ctx_of d r)" using assms by (simp_all add: sound_def)
  have "others_calm r d (do_disconnect r d) \<and> sock (ctx_of (do_disconnect r d) r) < 0 \<and>
      state (ctx_of (do_disconnect r d) r) = mosq_cs_disconnected"
  proof (cases "state (ctx_of d r) = mosq_cs_disconnected")
    case True
    then have "sock (ctx_of d r) < 0" using ok(2) by (auto simp: client_ok_def awake_def)
    then show ?thesis using True by (simp add: do_disconnect_def others_calm_def)
  next
    case False
    then show ?thesis using do_disconnect_ok(3-5) [OF o(1,2) assms(2)] ok(1) by simp
  qed
  then show "others_calm r d (do_disconnect r d)" "sock (ctx_of (do_disconnect r d) r) < 0"
    "state (ctx_of (do_disconnect r d) r) = mosq_cs_disconnected" by simp_all
qed

lemma touches_others: "touches r d e \<Longrightarrow> ctx_live d r \<Longrightarrow> others_calm r d e"
  by (rule calm_others) (rule touches_calm)

subsection \<open>Every client is in the array that is polled\<close>

definition watched :: "pollfd list \<Rightarrow> ctx \<Rightarrow> bool" where
  "watched fds c \<longleftrightarrow> (0 \<le> sock c \<longrightarrow>
     0 \<le> pollfd_index c \<and> nat (pollfd_index c) < length fds \<and> pf_fd (fds ! nat (pollfd_index c)) = sock c)"

lemma watched_later: "later c c' \<Longrightarrow> watched fds c \<Longrightarrow> watched fds c'"
  by (simp add: watched_def later_def identity_def)

lemma watched_more: "watched fds c \<Longrightarrow> watched (fds @ ys) c"
  by (auto simp: watched_def nth_append)

lemma poll_client_ok:
  assumes "sound d" and "ctx_live d r"
  shows "\<exists>ys e. poll_client k r (fds, d) = Some (fds @ ys, e) \<and> length ys \<le> 1 \<and> sound e \<and> others_calm r d e \<and>
    watched (fds @ ys) (ctx_of e r)"
proof -
  let ?d = "upd_ctx r (\<lambda>c. c\<lparr>pollfd_index := - 1\<rparr>) d"
  have s: "sound ?d" "ctx_live ?d r" using poll_index_sound [OF assms] by simp_all
  have o: "others_calm r d ?d" using assms(2) by (auto simp: others_calm_def)
  have gone: ?thesis if "poll_client k r (fds, d) = Some (fds, do_disconnect r e)" "sound e" "ctx_live e r" "others_calm r d e" for e
    using that drop_sound [OF that(2,3)] drop_others [OF that(2,3)] others_calm_trans [of r d e]
    by (intro exI [where x = "[]"]) (auto simp: watched_def)
  show ?thesis
  proof (cases "sock (ctx_of d r) = INVALID_SOCKET")
    case True
    then show ?thesis using s o by (intro exI [where x = "[]"]) (simp add: poll_client_def watched_def)
  next
    case False
    have m: "mind_bridge k r ?d = ?d" using client_unbridged [OF s] by (simp add: mind_bridge_def)
    obtain rc e where w: "mqtt3_db_message_write r ?d = Some (rc, e)" "broker_inv (\<lambda>s. 0) e" "touches r ?d e"
      using message_write_ok [of ?d r] s orderly_parts(2) by (auto simp: sound_def)
    have e: "sound e" "ctx_live e r" "others_calm r d e"
      using touches_sound [OF s w(3,2)] touches_live [OF w(3)] others_calm_trans [OF o touches_others [OF w(3) s(2)]] by simp_all
    have drop: ?thesis if "\<not> in_time (now (glob ?d)) (ctx_of ?d r)"
      by (rule gone [OF _ s o]) (use that False m in \<open>simp add: poll_client_def Let_def\<close>)
    have fail: ?thesis if "in_time (now (glob ?d)) (ctx_of ?d r)" "rc \<noteq> MOSQ_ERR_SUCCESS"
      by (rule gone [OF _ e]) (use that False m w(1) in \<open>simp add: poll_client_def Let_def\<close>)
    let ?e = "upd_ctx r (\<lambda>c. c\<lparr>pollfd_index := int (length fds)\<rparr>) e"
    have put: "sound ?e" "others_calm r d ?e"
      using poll_index_sound [OF e(1,2)] e(2,3) by (auto simp: others_calm_def)
    have ok: ?thesis if "in_time (now (glob ?d)) (ctx_of ?d r)" "rc = MOSQ_ERR_SUCCESS"
      using that False m w(1) put
      by (intro exI [where x = "[watch (current_out_packet (ctx_of e r) \<noteq> None \<or> state (ctx_of e r) = mosq_cs_connect_pending) (ctx_of e r)]"])
        (simp add: poll_client_def Let_def watched_def watch_def)
    show ?thesis using drop fail ok by blast
  qed
qed

lemma poll_clients_ok:
  assumes "sound d" and "\<forall>r \<in> set rs. ctx_live d r"
  shows "\<exists>ys e. each (poll_client k) rs (fds, d) = Some (fds @ ys, e) \<and> length ys \<le> length rs \<and> sound e \<and>
    (\<forall>q. ctx_live e q = ctx_live d q) \<and> (\<forall>q. q \<notin> set rs \<longrightarrow> later (ctx_of d q) (ctx_of e q)) \<and>
    (\<forall>q \<in> set rs. watched (fds @ ys) (ctx_of e q))"
  using assms
proof (induction rs arbitrary: fds d)
  case (Cons r rs)
  obtain ys e where p: "poll_client k r (fds, d) = Some (fds @ ys, e)" "length ys \<le> 1" "sound e" "others_calm r d e"
    "watched (fds @ ys) (ctx_of e r)"
    using poll_client_ok [of d r k fds] Cons.prems by auto
  have o: "\<And>q. ctx_live e q = ctx_live d q" "\<And>q. q \<noteq> r \<Longrightarrow> later (ctx_of d q) (ctx_of e q)"
    using p(4) by (simp_all add: others_calm_def)
  obtain zs f where q: "each (poll_client k) rs (fds @ ys, e) = Some ((fds @ ys) @ zs, f)" "length zs \<le> length rs" "sound f"
    "\<And>q. ctx_live f q = ctx_live e q" "\<And>q. q \<notin> set rs \<Longrightarrow> later (ctx_of e q) (ctx_of f q)"
    "\<And>q. q \<in> set rs \<Longrightarrow> watched ((fds @ ys) @ zs) (ctx_of f q)"
    using Cons.IH [OF p(3), of "fds @ ys"] Cons.prems o(1) by auto
  have "watched ((fds @ ys) @ zs) (ctx_of f x)" if "x \<in> set (r # rs)" for x
    using that q(6) watched_later [OF q(5) watched_more [OF p(5)]] by (cases "x \<in> set rs") auto
  moreover have "later (ctx_of d x) (ctx_of f x)" if "x \<notin> set (r # rs)" for x
    using that later_trans [OF o(2) q(5)] by simp
  ultimately show ?case using p q o(1) by (intro exI [where x = "ys @ zs"] exI [where x = f]) auto
qed simp

lemma watch_clients_ok:
  assumes "sound d"
  obtains fds e where "watch_clients k socks d = Some (fds, e)" and "sound e" and "\<And>q. ctx_live e q \<Longrightarrow> watched fds (ctx_of e q)"
    and "length fds \<le> length socks + length (contexts_by_sock d)" and "\<And>q. ctx_live e q = ctx_live d q"
    and "\<And>i. i < length socks \<Longrightarrow> fds ! i = listening socks ! i"
proof -
  obtain ys e where p: "each (poll_client k) (by_sock d) (listening socks, d) = Some (listening socks @ ys, e)"
    "length ys \<le> length (by_sock d)" "sound e" "\<And>q. ctx_live e q = ctx_live d q"
    "\<And>q. q \<notin> set (by_sock d) \<Longrightarrow> later (ctx_of d q) (ctx_of e q)"
    "\<And>q. q \<in> set (by_sock d) \<Longrightarrow> watched (listening socks @ ys) (ctx_of e q)"
    using poll_clients_ok [OF assms, of "by_sock d" k "listening socks"] by_sock_live(1) [OF assms] by auto
  have w: "watched (listening socks @ ys) (ctx_of e q)" if "ctx_live e q" for q
  proof (cases "q \<in> set (by_sock d)")
    case False
    then have "sock (ctx_of e q) < 0"
      using p(4) [of q] that by_sock_live(1) [OF assms, of q] p(5) [OF False] by (auto simp: later_def identity_def)
    then show ?thesis by (simp add: watched_def)
  qed (rule p(6))
  show thesis
    by (rule that [of "listening socks @ ys" e])
      (use p w in \<open>simp_all add: watch_clients_def by_sock_def listening_def nth_append\<close>)
qed
subsection \<open>Housekeeping on a sound broker\<close>

lemma free_sound:
  assumes "sound d"
  shows "sound (free_disused_contexts d)" and "ctx_live (free_disused_contexts d) q \<Longrightarrow> ctx_live d q"
proof -
  let ?e = "free_disused_contexts d"
  have o: "orderly d" using assms by (simp add: sound_def)
  note f = free_disused_ok [OF orderly_parts(3,2) [OF o]]
  have "bridge (ctx_of d r) = None" if "r \<in> set (ll_for_free d)" for r
    using client_unbridged [OF assms] that orderly_parts(3) [OF o] by (simp add: clients_ok_def disused_ok_def)
  then have "settings ?e = settings d" using f(7) by blast
  then have "orderly ?e"
    by (intro orderly_keeps [where P = "\<lambda>x. True", OF o]) (use f in \<open>simp_all add: consistent_def\<close>)
  moreover have "client_ok (ctx_of ?e q)" if "ctx_live ?e q" for q
    using later_client_ok [OF f(5)] f(4) that assms by (simp add: sound_def)
  ultimately show "sound ?e" by (simp add: sound_def)
  show "ctx_live ?e q \<Longrightarrow> ctx_live d q" using f(4) by simp
qed

lemma glob_sound: "sound d \<Longrightarrow> next_ptr g = next_ptr (glob d) \<Longrightarrow> sound (d\<lparr>glob := g\<rparr>)"
  by (rule calm_sound [of d])
    (auto simp: sound_def calm_def ctx_live_def ctx_of_def dest!: orderly_parts(2) intro!: broker_inv_tables [of "\<lambda>s. 0" d])

lemma expire_sound:
  assumes "sound d" and id: "ctx_live d r" "ctx_id (ctx_of d r) \<noteq> None"
  shows "sound (expire_client r d)" and "others_calm r d (expire_client r d)"
    and "expire_client r d = d \<or> sock (ctx_of (expire_client r d) r) < 0"
proof -
  let ?d = "d\<lparr>glob := (glob d)\<lparr>g_clients_expired := g_clients_expired (glob d) + 1\<rparr>\<rparr>"
  let ?f = "\<lambda>c. c\<lparr>clean_session := True, state := mosq_cs_expiring\<rparr>"
  have o: "orderly d" using assms(1) by (simp add: sound_def)
  have s: "sound ?d" by (rule glob_sound [OF assms(1)]) simp
  have c: "ctx_of ?d q = ctx_of d q" "ctx_live ?d q = ctx_live d q" for q by (simp_all add: ctx_of_def ctx_live_def)
  have o1: "orderly ?d" using s by (simp add: sound_def)
  have free: "r \<notin> set (ll_for_free ?d)" using orderly_parts(3) [OF o] id(2) by (auto simp: clients_ok_def disused_ok_def)
  have b: "broker_inv (\<lambda>s. 0) (upd_ctx r ?f ?d)"
    by (rule broker_inv_upd [OF orderly_parts(2) [OF o1]]) (use id c in \<open>simp_all add: same_queue_def keys_def\<close>)
  have cl: "clients_ok (upd_ctx r ?f ?d)"
    by (rule clients_upd [OF orderly_parts(3) [OF o1]])
      (use id c free orderly_parts(3) [OF o] in \<open>auto simp: clients_ok_def wills_ok_def\<close>)
  have o2: "orderly (upd_ctx r ?f ?d)"
    by (rule orderly_keeps [where P = "\<lambda>x. True", OF o1]) (use b cl in \<open>simp_all add: consistent_def upd_ctx_def put_ctx_def settings_def\<close>)
  have live: "ctx_live (upd_ctx r ?f ?d) r" using id c by simp
  have br: "bridge (ctx_of d r) = None" "- 1 \<le> sock (ctx_of d r)"
    using assms(1) id(1) by (simp_all add: sound_def client_ok_def)
  have dis: "sound (do_disconnect r (upd_ctx r ?f ?d))"
    by (rule disconnect_sound [OF o2 live]) (use br assms(1) c in \<open>auto simp: sound_def\<close>)
  show "sound (expire_client r d)" using dis assms(1) by (simp add: expire_client_def Let_def c)
  have "others_calm r (upd_ctx r ?f ?d) (do_disconnect r (upd_ctx r ?f ?d))"
    by (rule do_disconnect_ok(3) [OF cl b live]) simp
  moreover have "others_calm r d (upd_ctx r ?f ?d)" using c id(1) by (auto simp: others_calm_def)
  ultimately have "others_calm r d (do_disconnect r (upd_ctx r ?f ?d))" using others_calm_trans by blast
  then show "others_calm r d (expire_client r d)" by (simp add: expire_client_def Let_def c others_calm_def)
  have "sock (ctx_of (do_disconnect r (upd_ctx r ?f ?d)) r) < 0" by (rule do_disconnect_ok(4) [OF cl b live]) simp
  then show "expire_client r d = d \<or> sock (ctx_of (expire_client r d) r) < 0" by (simp add: expire_client_def Let_def)
qed

text \<open>Nobody in the array is forgotten by it.\<close>

definition all_watched :: "pollfd list \<Rightarrow> db \<Rightarrow> bool" where
  "all_watched fds d \<longleftrightarrow> (\<forall>q. ctx_live d q \<longrightarrow> watched fds (ctx_of d q))"

lemma all_watched_others:
  assumes "all_watched fds d" and "others_calm r d e" and "e = d \<or> sock (ctx_of e r) < 0"
  shows "all_watched fds e"
proof -
  have o: "\<And>q. ctx_live e q = ctx_live d q" "\<And>q. q \<noteq> r \<Longrightarrow> later (ctx_of d q) (ctx_of e q)"
    using assms(2) by (simp_all add: others_calm_def)
  have "watched fds (ctx_of e q)" if "ctx_live e q" for q
  proof (cases "q = r")
    case True
    then show ?thesis using assms(1,3) that by (auto simp: all_watched_def watched_def)
  next
    case False
    then show ?thesis using watched_later [OF o(2)] assms(1) that o(1) by (simp add: all_watched_def)
  qed
  then show ?thesis by (simp add: all_watched_def)
qed

lemma all_watched_calm: "all_watched fds d \<Longrightarrow> calm d e \<Longrightarrow> all_watched fds e"
  using watched_later unfolding all_watched_def calm_def by blast

lemma expire_fold:
  assumes "sound d" and "distinct (map snd xs)" and "\<forall>(i, r) \<in> set xs. ctx_live d r \<and> ctx_id (ctx_of d r) \<noteq> None"
    and "all_watched fds d"
  shows "sound (fold (\<lambda>(i, r). expire_client r) xs d) \<and> all_watched fds (fold (\<lambda>(i, r). expire_client r) xs d)"
  using assms
proof (induction xs arbitrary: d)
  case (Cons x xs)
  obtain i r where x: "x = (i, r)" by (cases x)
  have r: "ctx_live d r" "ctx_id (ctx_of d r) \<noteq> None" using Cons.prems(3) x by auto
  note e = expire_sound [OF Cons.prems(1) r]
  have "ctx_live (expire_client r d) q \<and> ctx_id (ctx_of (expire_client r d) q) \<noteq> None" if q: "(j, q) \<in> set xs" for j q
  proof -
    have "q \<noteq> r" using Cons.prems(2) x q by (auto simp: image_iff)
    then have "later (ctx_of d q) (ctx_of (expire_client r d) q)" "ctx_live (expire_client r d) q = ctx_live d q"
      using e(2) by (simp_all add: others_calm_def)
    moreover have "ctx_live d q" "ctx_id (ctx_of d q) \<noteq> None" using Cons.prems(3) q by auto
    ultimately show ?thesis using identity_fields [OF later_identity] by metis
  qed
  then have "\<forall>(j, q) \<in> set xs. ctx_live (expire_client r d) q \<and> ctx_id (ctx_of (expire_client r d) q) \<noteq> None" by blast
  moreover have "all_watched fds (expire_client r d)" by (rule all_watched_others [OF Cons.prems(4) e(2,3)])
  ultimately show ?case using Cons.IH [OF e(1)] Cons.prems(2) x by simp
qed simp

lemma expire_clients_sound:
  assumes s: "sound d" and w: "all_watched fds d"
  shows "sound (snd (expire_clients (m, d))) \<and> all_watched fds (snd (expire_clients (m, d)))"
proof -
  have ids: "ids_ok d" using s by (simp add: sound_def orderly_def consistent_def clients_ok_def)
  have "distinct (map snd (rev (contexts_by_id d)))" using ids by (simp add: ids_ok_def flip: rev_map)
  moreover have "\<forall>(i, r) \<in> set (rev (contexts_by_id d)). ctx_live d r \<and> ctx_id (ctx_of d r) \<noteq> None"
    using ids by (auto simp: ids_ok_def)
  ultimately have "sound (fold (\<lambda>(i, r). expire_client r) (rev (contexts_by_id d)) d) \<and>
      all_watched fds (fold (\<lambda>(i, r). expire_client r) (rev (contexts_by_id d)) d)"
    by (rule expire_fold [OF s _ _ w])
  then show ?thesis using s w by (simp add: expire_clients_def)
qed

lemma check_timeouts_sound:
  assumes s: "sound d" and w: "all_watched fds d"
  shows "sound (snd (check_timeouts (m, d))) \<and> all_watched fds (snd (check_timeouts (m, d)))"
proof -
  define h where "h = (\<lambda>c :: ctx. c\<lparr>msgs := map (timeout_msg (now (glob d)) (now (glob d) - retry_interval (cfg d))) (msgs c)\<rparr>)"
  have t: "sound (fold (\<lambda>(k, r). upd_ctx r h) xs e) \<and> calm e (fold (\<lambda>(k, r). upd_ctx r h) xs e)"
    if "sound e" "\<forall>(k, r) \<in> set xs. ctx_live e r" for xs e
    using that
  proof (induction xs arbitrary: e)
    case (Cons x xs)
    obtain k r where x: "x = (k, r)" by (cases x)
    have live: "ctx_live e r" and b: "broker_inv (\<lambda>s. 0) e" using Cons.prems x orderly_parts(2) by (auto simp: sound_def)
    have t: "touches r e (upd_ctx r h e)"
      by (rule touches_upd [OF live]) (simp_all add: h_def later_def identity_def unborn_def)
    have "broker_inv (\<lambda>s. 0) (upd_ctx r h e)"
      by (rule broker_inv_upd [OF b live]) (simp_all add: h_def same_queue_def keys_def comp_def)
    then have "sound (upd_ctx r h e)" by (rule touches_sound [OF Cons.prems(1) live t])
    moreover have "\<forall>(k, q) \<in> set xs. ctx_live (upd_ctx r h e) q" using Cons.prems(2) by auto
    ultimately show ?case using Cons.IH [of "upd_ctx r h e"] x calm_trans [OF touches_calm [OF t live]] by simp
  qed simp
  have "\<forall>(k, r) \<in> set (contexts_by_sock d). ctx_live d r"
    using s by (auto simp: sound_def orderly_def consistent_def clients_ok_def socks_ok_def)
  note t [OF s this]
  then have "sound (fold (\<lambda>(k, r). upd_ctx r h) (contexts_by_sock d) d)"
    "all_watched fds (fold (\<lambda>(k, r). upd_ctx r h) (contexts_by_sock d) d)"
    using all_watched_calm [OF w] by simp_all
  then show ?thesis using s w by (simp add: check_timeouts_def mqtt3_db_message_timeout_check_def h_def)
qed

subsection \<open>Reading and writing keep it sound\<close>

lemma handle_error_sound:
  "sound d \<Longrightarrow> ctx_live d r \<Longrightarrow> \<exists>e. handle_error fds r d = Some e \<and> sound e"
  using drop_sound glob_sound [of d "(glob d)\<lparr>fault := True\<rparr>"] by (simp add: handle_error_def Let_def set_fault_def)

lemma read_once_sound:
  assumes "sound d" and "ctx_live d r"
  shows "\<exists>e. read_once uuid r d = Some e \<and> sound e \<and> ctx_live e r"
proof -
  obtain rc e where p: "mosquitto_packet_read uuid r d = Some (rc, e)" "sound_but r e" "rc = MOSQ_ERR_SUCCESS \<longrightarrow> sound e"
    by (rule packet_read_sound [OF assms, of uuid]) blast
  have live: "ctx_live e r" using p(2) by (simp add: sound_but_def)
  show ?thesis
  proof (cases "rc = MOSQ_ERR_SUCCESS")
    case True
    then show ?thesis using p live by (simp add: read_once_def)
  next
    case False
    have "ctx_live (do_disconnect r e) r"
    proof (cases "state (ctx_of e r) = mosq_cs_disconnected")
      case st: False
      have o: "orderly e" using p(2) by (simp add: sound_but_def)
      show ?thesis using do_disconnect_ok(3) [OF orderly_parts(3,2) [OF o] live st] live by (simp add: others_calm_def)
    qed (use live in \<open>simp add: do_disconnect_def\<close>)
    then show ?thesis using False p dismiss_sound [OF p(2)] by (simp add: read_once_def)
  qed
qed

lemma read_all_sound: "sound d \<Longrightarrow> ctx_live d r \<Longrightarrow> \<exists>e. read_all uuid r n d = Some e \<and> sound e"
proof (induction n arbitrary: d)
  case 0
  then show ?case using read_once_sound by fastforce
next
  case (Suc n)
  then show ?case using read_once_sound [OF Suc.prems, of uuid] Suc.IH by fastforce
qed

lemma handle_read_sound: "sound d \<Longrightarrow> ctx_live d r \<Longrightarrow> \<exists>e. handle_read k fds r d = Some e \<and> sound e"
  using read_all_sound glob_sound [of d "(glob d)\<lparr>fault := True\<rparr>"] by (simp add: handle_read_def Let_def set_fault_def)

text \<open>While sockets are written to, everybody stays in the array, so the \<^verbatim>\<open>assert\<close> holds.\<close>

lemma finish_pending_none: "sound d \<Longrightarrow> ctx_live d r \<Longrightarrow> 0 \<le> sock (ctx_of d r) \<Longrightarrow> finish_pending k r d = Some d"
  by (auto simp: sound_def client_ok_def awake_def finish_pending_def)

lemma handle_write_sound:
  assumes "sound d" and "ctx_live d r" and "watched fds (ctx_of d r)" and "0 \<le> sock (ctx_of d r)"
  shows "\<exists>e. handle_write k fds r d = Some e \<and> sound e \<and> others_calm r d e \<and> watched fds (ctx_of e r)"
proof -
  let ?e = "snd (with_ctx r mosquitto_packet_write d)"
  have w: "broker_inv (\<lambda>s. 0) ?e" "touches r d ?e"
    using sends_ok [where f = mosquitto_packet_write] assms(1,2) orderly_parts(2) by (auto simp: sound_def)
  have e: "sound ?e" "ctx_live ?e r" "others_calm r d ?e" "later (ctx_of d r) (ctx_of ?e r)"
    using touches_sound [OF assms(1,2) w(2,1)] touches_live [OF w(2)] touches_others [OF w(2) assms(2)] w(2) by (simp_all add: touches_def)
  have drop: "sound (do_disconnect r x) \<and> others_calm r d (do_disconnect r x) \<and> watched fds (ctx_of (do_disconnect r x) r)"
    if "sound x" "ctx_live x r" "others_calm r d x" for x
    using drop_sound [OF that(1,2)] drop_others [OF that(1,2)] others_calm_trans [OF that(3)] by (auto simp: watched_def)
  have stay: "sound d \<and> others_calm r d d \<and> watched fds (ctx_of d r)" using assms by (simp add: others_calm_def)
  have sent: "sound ?e \<and> others_calm r d ?e \<and> watched fds (ctx_of ?e r)" using e watched_later [OF e(4) assms(3)] by simp
  show ?thesis using assms(3,4) drop [OF e(1-3)] stay sent finish_pending_none [OF assms(1,2,4), of k]
    by (cases "with_ctx r mosquitto_packet_write d") (auto simp: handle_write_def Let_def watched_def)
qed

lemma each_write:
  assumes "sound d" and "\<And>q. ctx_live d q \<Longrightarrow> watched fds (ctx_of d q)" and "\<forall>r \<in> set rs. ctx_live d r"
  shows "\<exists>e. each (\<lambda>r d. if r \<in> set (by_sock d) then handle_write k fds r d else Some d) rs d = Some e \<and> sound e \<and>
    (\<forall>q. ctx_live e q = ctx_live d q)"
  using assms
proof (induction rs arbitrary: d)
  case (Cons r rs)
  let ?h = "\<lambda>r d. if r \<in> set (by_sock d) then handle_write k fds r d else Some d"
  have live: "ctx_live d r" using Cons.prems(3) by simp
  obtain e where e: "?h r d = Some e" "sound e" "others_calm r d e" "watched fds (ctx_of e r)"
  proof (cases "r \<in> set (by_sock d)")
    case True
    then have "0 \<le> sock (ctx_of d r)" using by_sock_live(1) [OF Cons.prems(1)] by simp
    then show thesis using that True handle_write_sound [OF Cons.prems(1) live Cons.prems(2) [OF live]] by auto
  qed (use that Cons.prems(1,2) live in \<open>simp add: others_calm_def\<close>)
  have o: "\<And>q. ctx_live e q = ctx_live d q" "\<And>q. q \<noteq> r \<Longrightarrow> later (ctx_of d q) (ctx_of e q)"
    using e(3) by (simp_all add: others_calm_def)
  have "watched fds (ctx_of e q)" if "ctx_live e q" for q
  proof (cases "q = r")
    case False
    then show ?thesis using watched_later [OF o(2) Cons.prems(2)] that o(1) by simp
  qed (use e(4) in simp)
  then show ?case using Cons.IH [OF e(2)] Cons.prems(3) e(1) o(1) by auto
qed simp

lemma reads_writes_sound:
  assumes "sound d" and "\<And>q. ctx_live d q \<Longrightarrow> watched fds (ctx_of d q)"
  shows "\<exists>e. loop_handle_reads_writes k fds d = Some e \<and> sound e"
proof -
  have "\<forall>r \<in> set (by_sock d). ctx_live d r" using by_sock_live(1) [OF assms(1)] by simp
  note each_write [OF assms this, of k]
  then obtain e where e: "each_client (handle_write k fds) d = Some e" "sound e" by (auto simp: each_client_def)
  obtain x where x: "each_client (handle_read k fds) e = Some x" "sound x"
    using each_client_ends [where f = "handle_read k fds", OF handle_read_sound e(2)] by blast
  then show ?thesis using e by (simp add: loop_handle_reads_writes_def)
qed

subsection \<open>A connection is accepted\<close>

lemma ports_nth: "i < length (listeners d) \<Longrightarrow> ports d ! i = ls_socks (listeners d ! i)"
  by (simp add: ports_def)

definition joined :: "ctx_ref \<Rightarrow> nat \<Rightarrow> db \<Rightarrow> db" where
  "joined r i d =
     upd_ctx r (\<lambda>c. c\<lparr>ctx_listener := Some i\<rparr>)
       (d\<lparr>listeners := (listeners d)[i := (listeners d ! i)\<lparr>ls_client_count := ls_client_count (listeners d ! i) + 1\<rparr>]\<rparr>)"

lemma joined_simps:
  "listeners (joined r i d) = (listeners d)[i := (listeners d ! i)\<lparr>ls_client_count := ls_client_count (listeners d ! i) + 1\<rparr>]"
  "ctx_of (joined r i d) q = (if q = r then (ctx_of d r)\<lparr>ctx_listener := Some i\<rparr> else ctx_of d q)"
  "ctx_live (joined r i d) q \<longleftrightarrow> ctx_live d q \<or> q = r" "glob (joined r i d) = glob d"
  by (auto simp: joined_def upd_ctx_def put_ctx_def ctx_of_def ctx_live_def)

lemma joined_ports: "ports (joined r i d) = ports d"
  by (cases "i < length (listeners d)") (simp_all add: ports_def joined_simps map_update list_update_same_conv list_update_beyond)

lemma join_none: "\<forall>i \<in> set is. s \<notin> set (ls_socks (listeners d ! i)) \<Longrightarrow> fold (join_listener r s) is d = d"
  by (induction "is") (simp_all add: join_listener_def)

lemma join_listeners_cases:
  assumes "ports_ok (ports d)"
  obtains "join_listeners r s d = d" | i where "i < length (listeners d)" and "join_listeners r s d = joined r i d"
proof (cases "\<exists>i < length (listeners d). s \<in> set (ls_socks (listeners d ! i))")
  case False
  then have "join_listeners r s d = d" by (simp add: join_listeners_def join_none)
  then show thesis by (rule that(1))
next
  case True
  then obtain i where i: "i < length (listeners d)" "s \<in> set (ls_socks (listeners d ! i))" by blast
  have only: "s \<notin> set (ports d ! j)" if "j < length (listeners d)" "j \<noteq> i" for j
    using assms i that ports_nth [OF i(1)] by (auto simp: ports_ok_def) (metis length_map ports_def)
  have split: "[0..<length (listeners d)] = [0..<i] @ i # [Suc i..<length (listeners d)]"
    using upt_add_eq_append [of 0 i "length (listeners d) - i"] upt_conv_Cons [OF i(1)] i(1) by simp
  have before: "fold (join_listener r s) [0..<i] d = d"
    by (rule join_none) (use only i(1) ports_nth in auto)
  have here: "join_listener r s i d = joined r i d" using i(2) by (simp add: join_listener_def joined_def)
  have "s \<notin> set (ls_socks (listeners (joined r i d) ! j))" if "j \<in> set [Suc i..<length (listeners d)]" for j
  proof -
    have j: "j < length (listeners d)" "j \<noteq> i" using that by auto
    then have "ports (joined r i d) ! j = ls_socks (listeners (joined r i d) ! j)" by (intro ports_nth) (simp add: joined_simps)
    then show ?thesis using only [OF j] by (simp add: joined_ports)
  qed
  then have after: "fold (join_listener r s) [Suc i..<length (listeners d)] (joined r i d) = joined r i d" by (intro join_none) blast
  have "join_listeners r s d = joined r i d" by (simp add: join_listeners_def split before here after)
  then show thesis by (rule that(2) [OF i(1)])
qed

lemma mounts_map: "map ls_mount_point ls = map ls_mount_point ms \<Longrightarrow> mounts_ok ls = mounts_ok ms"
proof -
  have "mounts_ok ls \<longleftrightarrow> (\<forall>x \<in> set (map ls_mount_point ls). \<forall>m. x = Some m \<longrightarrow> wildcard_free m \<and> nul_free m)" for ls
    by (simp add: mounts_ok_def)
  then show "map ls_mount_point ls = map ls_mount_point ms \<Longrightarrow> mounts_ok ls = mounts_ok ms" by presburger
qed

lemma joined_sound:
  assumes "sound d" and "ctx_live d r" and "ctx_listener (ctx_of d r) = None" and "r \<notin> set (ll_for_free d)"
    and i: "i < length (listeners d)"
  shows "sound (joined r i d)"
proof -
  let ?e = "joined r i d"
  have o: "orderly d" using assms(1) by (simp add: sound_def)
  note p = orderly_parts [OF o]
  have c: "ctx_live ?e q = ctx_live d q" "ctx_id (ctx_of ?e q) = ctx_id (ctx_of d q)" "sock (ctx_of ?e q) = sock (ctx_of d q)"
    "will (ctx_of ?e q) = will (ctx_of d q)" "state (ctx_of ?e q) = state (ctx_of d q)" for q
    using assms(2) by (auto simp: joined_simps)
  have t: "contexts_by_id ?e = contexts_by_id d" "contexts_by_sock ?e = contexts_by_sock d" "ll_for_free ?e = ll_for_free d"
    by (simp_all add: joined_def upd_ctx_def put_ctx_def)
  have fin: "finite (on_listener d j)" for j
    by (rule finite_subset [of _ "dom (contexts d)"]) (use p(2) in \<open>auto simp: on_listener_def ctx_live_def broker_inv_def msgs_inv_def store_inv_def\<close>)
  have on: "on_listener ?e j = (if j = i then insert r (on_listener d j) else on_listener d j)" for j
    using assms(2,3) by (auto simp: on_listener_def joined_simps)
  have r: "r \<notin> on_listener d i" using assms(3) by (simp add: on_listener_def)
  have "map ls_mount_point (listeners ?e) = map ls_mount_point (listeners d)"
    using i by (simp add: joined_simps map_update list_update_same_conv)
  note mounts_map [OF this]
  then have m: "mounts_ok (listeners ?e)" using p(3) by (simp add: clients_ok_def listeners_ok_def)
  have lo: "\<And>q l. ctx_live d q \<Longrightarrow> ctx_listener (ctx_of d q) = Some l \<Longrightarrow> l < length (listeners d)"
    "\<And>l. l < length (listeners d) \<Longrightarrow> ls_client_count (listeners d ! l) = int (card (on_listener d l))"
    using p(3) by (simp_all add: clients_ok_def listeners_ok_def)
  have "ls_client_count (listeners ?e ! j) = int (card (on_listener ?e j))" if "j < length (listeners ?e)" for j
    using that lo(2) [of j] fin r unfolding on by (cases "j = i") (simp_all add: joined_simps)
  moreover have "l < length (listeners ?e)" if "ctx_live ?e q" "ctx_listener (ctx_of ?e q) = Some l" for q l
    using that lo(1) [of q l] i c(1) by (cases "q = r") (simp_all add: joined_simps)
  ultimately have "listeners_ok ?e" unfolding listeners_ok_def using m by blast
  moreover have "disused_ok ?e" using p(3) assms(4) by (auto simp: clients_ok_def disused_ok_def t c joined_simps)
  ultimately have cl: "clients_ok ?e" using p(3) by (simp add: clients_ok_def ids_ok_def socks_ok_def wills_ok_def t c)
  have "broker_inv (\<lambda>s. 0) (upd_ctx r (\<lambda>c. c\<lparr>ctx_listener := Some i\<rparr>) d)"
    by (rule broker_inv_upd [OF p(2) assms(2)]) (simp_all add: same_queue_def keys_def)
  then have b: "broker_inv (\<lambda>s. 0) ?e"
    by (rule broker_inv_tables) (simp_all add: joined_def upd_ctx_def put_ctx_def ctx_of_def)
  have "settings ?e = settings d" using joined_ports [of r i d] by (simp add: settings_def ports_def joined_def upd_ctx_def put_ctx_def)
  then have "orderly ?e" by (intro orderly_keeps [where P = "\<lambda>x. True", OF o]) (use b cl t in \<open>simp_all add: consistent_def\<close>)
  moreover have "client_ok (ctx_of ?e q)" if "ctx_live ?e q" for q
    using assms(1,2) that by (auto simp: sound_def joined_simps client_ok_def awake_def unborn_def first_packet_def)
  ultimately show ?thesis by (simp add: sound_def)
qed

lemma close_again:
  assumes "sound d" and "ctx_live d r"
  shows "mqtt3_context_cleanup r True (mosquitto_socket_close r d) = mqtt3_context_cleanup r True d"
proof -
  let ?f = "\<lambda>c :: ctx. c\<lparr>username := None, password := None\<rparr>"
  have o: "orderly d" using assms(1) by (simp add: sound_def)
  note p = orderly_parts [OF o]
  have fin: "finite (dom (contexts d))" using p(2) by (simp add: broker_inv_def msgs_inv_def store_inv_def)
  have c: "clients_ok (upd_ctx r ?f d)"
    by (rule clients_upd [OF p(3) assms(2)]) (use p(3) in \<open>auto simp: clients_ok_def disused_ok_def wills_ok_def\<close>)
  have b: "bridge (ctx_of d r) = None" by (rule client_unbridged [OF assms])
  define e where "e = mosquitto_socket_close r d"
  note form = socket_close_form [OF p(3) fin assms(2), folded e_def]
  have e: "ctx_live e r" "ctx_of e r = closed (ctx_of d r)" "contexts_by_sock e = filter (\<lambda>(k, q). q \<noteq> r) (contexts_by_sock d)"
    by (simp_all add: form ctx_live_def put_ctx_def ctx_of_def)
  have bf: "bridge (ctx_of (upd_ctx r ?f d) r) = None" "bridge (ctx_of (upd_ctx r ?f e) r) = None"
    using b e(2) by (simp_all add: closed_def)
  have "mosquitto_socket_close r (drop_bridge r (upd_ctx r ?f e)) = upd_ctx r ?f e"
  proof -
    have "(?f (ctx_of e r))\<lparr>ssl := None\<rparr> = ?f (ctx_of e r)" unfolding e(2) by (cases "ctx_of d r") (simp add: closed_def)
    then have k: "upd_ctx r (\<lambda>c. c\<lparr>ssl := None\<rparr>) (upd_ctx r ?f e) = upd_ctx r ?f e"
      by (simp add: upd_ctx_def [of r "\<lambda>c. c\<lparr>ssl := None\<rparr>"]) (simp add: upd_ctx_def put_ctx_def)
    have "ctx_listener (ctx_of (upd_ctx r ?f e) r) = None" "\<not> 0 \<le> sock (ctx_of (upd_ctx r ?f e) r)"
      unfolding ctx_of_upd_ctx e(2) by (simp_all add: closed_def)
    then show ?thesis using bf(2) unfolding drop_bridge_def mosquitto_socket_close_def Let_def by (simp add: k leave_listener_def)
  qed
  moreover have "mosquitto_socket_close r (drop_bridge r (upd_ctx r ?f d)) = upd_ctx r ?f e"
  proof -
    have "finite (dom (contexts (upd_ctx r ?f d)))" using fin by (simp add: upd_ctx_def put_ctx_def)
    note second = socket_close_form [OF c this, of r]
    have k: "closed (?f (ctx_of d r)) = ?f (closed (ctx_of d r))" by (cases "ctx_of d r") (simp add: closed_def)
    have u: "upd_ctx r ?f e = put_ctx r (?f (closed (ctx_of d r))) e" "upd_ctx r ?f d = put_ctx r (?f (ctx_of d r)) d"
      by (simp_all add: upd_ctx_def e(2))
    have live: "ctx_live (upd_ctx r ?f d) r" by simp
    have me: "ctx_of (upd_ctx r ?f d) r = ?f (ctx_of d r)" "listeners (upd_ctx r ?f d) = listeners d"
      "contexts_by_sock (upd_ctx r ?f d) = contexts_by_sock d"
      by (simp, simp_all add: upd_ctx_def put_ctx_def)
    have "mosquitto_socket_close r (upd_ctx r ?f d) = upd_ctx r ?f e"
      unfolding second [OF live] unfolding me k unfolding u unfolding form by (intro db.equality) (simp_all add: put_ctx_def)
    then show ?thesis using bf(1) by (simp add: drop_bridge_def)
  qed
  ultimately show ?thesis using assms(2) e(1) unfolding mqtt3_context_cleanup_def e_def [symmetric] by (simp add: Let_def)
qed

text \<open>A connection that is refused leaves no trace.\<close>

lemma cleanup_sound:
  assumes "sound d" and "ctx_live d r" and "ctx_id (ctx_of d r) = None" and "r \<notin> set (ll_for_free d)"
  shows "sound (mqtt3_context_cleanup r True d)"
    and "listeners (mqtt3_context_cleanup r True d) = left (ctx_listener (ctx_of d r)) (listeners d)"
    and "contexts_by_sock (mqtt3_context_cleanup r True d) = filter (\<lambda>(k, q). q \<noteq> r) (contexts_by_sock d)"
    and "contexts_by_id (mqtt3_context_cleanup r True d) = contexts_by_id d"
    and "ctx_live (mqtt3_context_cleanup r True d) q \<longleftrightarrow> ctx_live d q \<and> q \<noteq> r"
proof -
  let ?c = "mosquitto_socket_close r d" and ?e = "mqtt3_context_cleanup r True d"
  have o: "orderly d" using assms(1) by (simp add: sound_def)
  note p = orderly_parts [OF o]
  note sc = socket_close_ok [OF p(3,2) assms(2)]
  have idle: "ctx_id (ctx_of ?c r) = None" "sock (ctx_of ?c r) < 0" "ctx_listener (ctx_of ?c r) = None" "ctx_live ?c r"
    "bridge (ctx_of ?c r) = None"
    using assms(2,3) client_unbridged [OF assms(1,2)] by (simp_all add: sc(3,4) closed_def)
  note cl = cleanup_disused [OF sc(2) idle(4,1,2,3), unfolded close_again [OF assms(1,2)]]
  have m: "members_ok ?c" using sc(1) by (simp add: members_ok_def clients_ok_def)
  have m: "members_ok ?e" using cleanup_members [OF m sc(2) idle(4,1,2,3)] by (simp add: close_again [OF assms(1,2)])
  have other: "ctx_live ?e q = ctx_live d q" "later (ctx_of d q) (ctx_of ?e q)" if "q \<noteq> r" for q
    using cl(3,4) [OF that] that by (simp_all add: sc(3,4))
  have "disused_ok ?e"
  proof -
    have "ctx_live ?e q \<and> ctx_id (ctx_of ?e q) = None \<and> sock (ctx_of ?e q) < 0 \<and> ctx_listener (ctx_of ?e q) = None \<and>
        state (ctx_of ?e q) = mosq_cs_disconnected" if q: "q \<in> set (ll_for_free d)" for q
    proof -
      have "q \<noteq> r" using q assms(4) by auto
      then show ?thesis using other identity_fields [OF later_identity [OF other(2)]] p(3) q by (simp add: clients_ok_def disused_ok_def)
    qed
    then show ?thesis using p(3) by (simp add: disused_ok_def clients_ok_def cl(10) sc(6))
  qed
  then have "clients_ok ?e" using m by (simp add: members_ok_def clients_ok_def)
  moreover have set: "settings ?e = settings d" using cl(9) [OF idle(5)] sc(11) by simp
  ultimately have "orderly ?e"
    by (intro orderly_keeps [where P = "\<lambda>x. True", OF o]) (use cl(1,5) sc(7) in \<open>simp_all add: consistent_def\<close>)
  moreover have "client_ok (ctx_of ?e q)" if "ctx_live ?e q" for q
  proof -
    have "q \<noteq> r" using that cl(2) by auto
    then show ?thesis using that other later_client_ok [OF other(2)] assms(1) by (simp add: sound_def)
  qed
  ultimately show "sound ?e" by (simp add: sound_def)
  have fin: "finite (dom (contexts d))" using p(2) by (simp add: broker_inv_def msgs_inv_def store_inv_def)
  have "listeners ?c = left (ctx_listener (ctx_of d r)) (listeners d)"
    unfolding socket_close_form [OF p(3) fin assms(2)] by simp
  then show "listeners ?e = left (ctx_listener (ctx_of d r)) (listeners d)" using cl(7) by simp
  show "contexts_by_sock ?e = filter (\<lambda>(k, q). q \<noteq> r) (contexts_by_sock d)" "contexts_by_id ?e = contexts_by_id d"
    using cl(5,6) sc(7,8) by simp_all
  show "ctx_live ?e q \<longleftrightarrow> ctx_live d q \<and> q \<noteq> r" using cl(2) other(1) by (cases "q = r") simp_all
qed

text \<open>What is relied on: \<^verbatim>\<open>calloc\<close> gives memory that is not in use, and \<^verbatim>\<open>accept\<close> a descriptor.\<close>

definition kernel_ok :: "kernel \<Rightarrow> bool" where
  "kernel_ok k \<longleftrightarrow> (\<forall>d. finite (dom (contexts d)) \<longrightarrow> \<not> ctx_live d (k_alloc k d)) \<and>
     (\<forall>s. \<forall>a \<in> set (k_arrivals k s). 0 \<le> a_sock a)"

lemma start_tls_sound:
  assumes "sound d" and "ctx_live d r" and "start_tls r s a d = Some e"
  shows "sound e"
proof -
  let ?f = "\<lambda>c p. c\<lparr>ssl := Some p, want_write := True\<rparr>"
  have b: "broker_inv (\<lambda>s. 0) d" using assms(1) orderly_parts(2) by (simp add: sound_def)
  have "sound (upd_ctx r (\<lambda>c. ?f c p) d)" for p
    by (rule touches_sound [OF assms(1,2) touches_upd broker_inv_upd [OF b assms(2)]])
      (use assms(2) in \<open>simp_all add: later_def identity_def unborn_def same_queue_def keys_def\<close>)
  then show ?thesis using assms(1,3) by (auto simp: start_tls_def split: if_splits option.splits)
qed

lemma left_joined: "i < length ls \<Longrightarrow> left (Some i) (ls[i := (ls ! i)\<lparr>ls_client_count := ls_client_count (ls ! i) + 1\<rparr>]) = ls"
  by (simp add: left_def list_update_same_conv)

lemma start_tls_only:
  "start_tls r s a d = Some e \<Longrightarrow> listeners e = listeners d \<and> ctx_live e r \<and>
     ctx_listener (ctx_of e r) = ctx_listener (ctx_of d r) \<and> sock (ctx_of e r) = sock (ctx_of d r) \<or> e = d"
  by (auto simp: start_tls_def upd_ctx_def put_ctx_def ctx_of_def ctx_live_def split: if_splits option.splits)

text \<open>A connection is refused, and it is as if it had not been, or it is within the limit of its listener.\<close>

definition untouched :: "db \<Rightarrow> db \<Rightarrow> bool" where
  "untouched d e \<longleftrightarrow> listeners e = listeners d \<and> contexts_by_sock e = contexts_by_sock d \<and>
     contexts_by_id e = contexts_by_id d \<and> (\<forall>q. ctx_live e q = ctx_live d q)"

definition admitted :: "ctx_ref \<Rightarrow> int \<Rightarrow> db \<Rightarrow> db \<Rightarrow> bool" where
  "admitted r s d e \<longleftrightarrow> \<not> ctx_live d r \<and> ctx_live e r \<and> sock (ctx_of e r) = s \<and>
     (\<exists>l. ctx_listener (ctx_of e r) = Some l \<and>
        (0 < ls_max_connections (listeners e ! l) \<longrightarrow> ls_client_count (listeners e ! l) \<le> ls_max_connections (listeners e ! l)))"

lemma accept_outcome:
  assumes "sound d" and "kernel_ok k" and "0 \<le> a_sock a" and run: "mqtt3_socket_accept k s a d = (fd, e)"
  shows "sound e" and "(fd = - 1 \<and> untouched d e) \<or> (fd = a_sock a \<and> (\<exists>r. admitted r fd d e))"
proof -
  define d1 where "d1 = d\<lparr>glob := (glob d)\<lparr>g_socket_connections := g_socket_connections (glob d) + 1\<rparr>\<rparr>"
  have s1: "sound d1" unfolding d1_def by (rule glob_sound [OF assms(1)]) simp
  then have "finite (dom (contexts d1))" using orderly_parts(2) [of d1] by (simp add: sound_def broker_inv_def msgs_inv_def store_inv_def)
  then have new: "\<not> ctx_live d1 (k_alloc k d1)" using assms(2) by (simp add: kernel_ok_def)
  have u1: "untouched d d1" "ctx_live d1 q = ctx_live d q" for q by (simp_all add: untouched_def d1_def ctx_live_def)
  obtain ro d2 where i: "mqtt3_context_init (k_alloc k d1) (a_peer a) (a_sock a) d1 = (ro, d2)" by fastforce
  note init = init_sound [OF s1 new i]
  have s2: "sound d2" using init(1) assms(3) by simp
  have "sound e \<and> ((fd = - 1 \<and> untouched d e) \<or> (fd = a_sock a \<and> (\<exists>r. admitted r fd d e)))"
  proof (cases "a_nonblock a \<and> ro \<noteq> None")
    case False
    then have "fd = - 1 \<and> e = d1" using run i init(4) assms(3)
      by (cases "a_nonblock a") (simp_all add: mqtt3_socket_accept_def Let_def d1_def [symmetric])
    then show ?thesis using s1 u1(1) by simp
  next
    case True
    define r where "r = k_alloc k d1"
    have ro: "ro = Some r" using True i by (auto simp: mqtt3_context_init_def r_def Let_def split: if_splits)
    have live: "ctx_live d2 r" using init(3) ro assms(3) by (simp add: r_def)
    have c: "ctx_id (ctx_of d2 r) = None" "ctx_listener (ctx_of d2 r) = None" "state (ctx_of d2 r) = mosq_cs_new"
      "sock (ctx_of d2 r) = a_sock a" "listeners d2 = listeners d" "contexts_by_id d2 = contexts_by_id d"
      "contexts_by_sock d2 = (a_sock a, r) # contexts_by_sock d" "\<And>q. ctx_live d2 q \<longleftrightarrow> ctx_live d q \<or> q = r"
      using i ro assms(3)
      by (auto simp: mqtt3_context_init_def Let_def r_def put_ctx_def ctx_of_def ctx_zero_def ctx_live_def d1_def split: if_splits)
    have o: "orderly d2" using s2 by (simp add: sound_def)
    have free: "r \<notin> set (ll_for_free d2)" using orderly_parts(3) [OF o] c(3) by (auto simp: clients_ok_def disused_ok_def)
    define d3 where "d3 = join_listeners r s d2"
    have p: "ports_ok (ports d2)" using o by (simp add: orderly_def)
    have "sound d3 \<and> ctx_live d3 r \<and> ctx_id (ctx_of d3 r) = None \<and> ll_for_free d3 = ll_for_free d2 \<and> sock (ctx_of d3 r) = a_sock a \<and>
        left (ctx_listener (ctx_of d3 r)) (listeners d3) = listeners d \<and> contexts_by_id d3 = contexts_by_id d \<and>
        contexts_by_sock d3 = contexts_by_sock d2 \<and> (\<forall>q. ctx_live d3 q \<longleftrightarrow> ctx_live d2 q)"
    proof (rule join_listeners_cases [OF p, of r s])
      assume "join_listeners r s d2 = d2"
      then show ?thesis using s2 live c by (simp add: d3_def) (simp add: left_def)
    next
      fix i assume "i < length (listeners d2)" "join_listeners r s d2 = joined r i d2"
      then show ?thesis using joined_sound [OF s2 live c(2) free] c live left_joined [of i "listeners d"]
        by (auto simp: d3_def joined_simps) (simp_all add: joined_def upd_ctx_def put_ctx_def)
    qed
    then have d3: "sound d3" "ctx_live d3 r" "ctx_id (ctx_of d3 r) = None" "r \<notin> set (ll_for_free d3)"
      and e3: "sock (ctx_of d3 r) = a_sock a" "left (ctx_listener (ctx_of d3 r)) (listeners d3) = listeners d"
        "contexts_by_id d3 = contexts_by_id d" "contexts_by_sock d3 = contexts_by_sock d2" "\<And>q. ctx_live d3 q \<longleftrightarrow> ctx_live d q \<or> q = r"
      using free c(8) by simp_all
    have fresh: "\<not> ctx_live d r" using new u1(2) by (simp add: r_def)
    have "r \<notin> snd ` set (contexts_by_sock d)"
      using assms(1) fresh by (force simp: sound_def orderly_def consistent_def clients_ok_def socks_ok_def)
    then have refused: "untouched d (mqtt3_context_cleanup r True d3)"
      using e3 c(7) filter_absent [of r "contexts_by_sock d"] fresh cleanup_sound(2-5) [OF d3] by (auto simp: untouched_def)
    note clean = cleanup_sound(1) [OF d3]
    note tls = start_tls_sound [OF d3(1,2)] start_tls_only [of r s a d3]
    have accepted: "admitted r (a_sock a) d x" if "start_tls r s a d3 = Some x" "ctx_listener (ctx_of d3 r) = Some l"
        "\<not> (0 < ls_max_connections (listeners d3 ! l) \<and> ls_max_connections (listeners d3 ! l) < ls_client_count (listeners d3 ! l))" for x l
      using tls(2) [OF that(1)] that(2,3) fresh d3(2) e3(1) by (auto simp: admitted_def)
    consider "fd = - 1" "e = mqtt3_context_cleanup r True d3"
      | l where "ctx_listener (ctx_of d3 r) = Some l" "start_tls r s a d3 = Some e" "fd = a_sock a"
        "\<not> (0 < ls_max_connections (listeners d3 ! l) \<and> ls_max_connections (listeners d3 ! l) < ls_client_count (listeners d3 ! l))"
      using True i ro run
      by (auto simp: mqtt3_socket_accept_def Let_def d1_def [symmetric] d3_def [symmetric] split: option.splits if_splits)
    then show ?thesis
    proof cases
      case 1
      then show ?thesis using clean refused by simp
    next
      case (2 l)
      then show ?thesis using tls(1) accepted by blast
    qed
  qed
  then show "sound e" "(fd = - 1 \<and> untouched d e) \<or> (fd = a_sock a \<and> (\<exists>r. admitted r fd d e))" by simp_all
qed

lemma accept_sound: "sound d \<Longrightarrow> kernel_ok k \<Longrightarrow> 0 \<le> a_sock a \<Longrightarrow> sound (snd (mqtt3_socket_accept k s a d))"
  using accept_outcome(1) by (metis prod.collapse)

lemma accept_all_sound: "sound d \<Longrightarrow> kernel_ok k \<Longrightarrow> \<forall>a \<in> set as. 0 \<le> a_sock a \<Longrightarrow> sound (accept_all k s as d)"
proof (induction "as" arbitrary: d)
  case (Cons a as)
  have "sound (snd (mqtt3_socket_accept k s a d))" by (rule accept_sound) (use Cons.prems in auto)
  then show ?case using Cons by (cases "mqtt3_socket_accept k s a d") auto
qed simp

lemma accept_clients_sound: "sound d \<Longrightarrow> kernel_ok k \<Longrightarrow> sound (accept_clients k socks fds d)"
proof -
  assume d: "sound d" and k: "kernel_ok k"
  have "sound (fold (\<lambda>i e. if pf_revents (fds ! i) AND (POLLIN OR POLLPRI) \<noteq> 0
      then accept_all k (socks ! i) (k_arrivals k (socks ! i)) e else e) is e)" if "sound e" for "is" e
    using that accept_all_sound [OF _ k] k by (induction "is" arbitrary: e) (auto simp: kernel_ok_def)
  then show ?thesis using d by (simp add: accept_clients_def)
qed

subsection \<open>The turn keeps the broker sound\<close>

lemma polled_watched:
  assumes "watched fds c"
  shows "watched (polled k n fds) c"
  using assms by (auto simp: watched_def polled_def nth_append)

lemma serve_sound:
  assumes "sound d" and "all_watched fds d" and "kernel_ok k"
  shows "\<exists>e. serve k socks (polled k n fds) d = Some e \<and> sound e"
proof (cases "k_poll k = - 1")
  case True
  then show ?thesis
    using each_client_ends [where f = "handle_error (polled k n fds)", OF handle_error_sound assms(1)]
    by (simp add: serve_def loop_handle_errors_def)
next
  case False
  have "watched (polled k n fds) (ctx_of d q)" if "ctx_live d q" for q
    using assms(2) that polled_watched by (simp add: all_watched_def)
  then obtain e where "loop_handle_reads_writes k (polled k n fds) d = Some e" "sound e"
    using reads_writes_sound [OF assms(1)] by blast
  then show ?thesis using False accept_clients_sound assms(3) by (simp add: serve_def)
qed

lemma autosave_sound: "sound d \<Longrightarrow> sound (snd (autosave (m, d)))"
proof -
  assume s: "sound d"
  have "sound (d\<lparr>persistence_changes := 0\<rparr>)"
    by (rule calm_sound [OF s])
      (use s orderly_parts(2) [of d] in \<open>auto simp: sound_def calm_def ctx_live_def ctx_of_def intro: broker_inv_tables [of "\<lambda>s. 0" d]\<close>)
  then show ?thesis using s by (simp add: autosave_def)
qed

lemma main_turn_ok:
  assumes "sound d" and "kernel_ok k"
  obtains m' e where "main_turn k socks (m, d) = Some (m', e)" and "sound e"
proof -
  define d1 where "d1 = free_disused_contexts d"
  have s1: "sound d1" unfolding d1_def by (rule free_sound(1) [OF assms(1)])
  obtain fds d2 where w: "watch_clients k socks d1 = Some (fds, d2)" "sound d2" "all_watched fds d2"
    by (rule watch_clients_ok [OF s1, of k socks]) (auto simp: all_watched_def)
  have b: "bridges d2 = []" using w(2) by (simp add: sound_def orderly_def)
  define n where "n = max (pollfd_count m) (length socks + length (contexts_by_sock d1) + length (bridges d1))"
  obtain m3 d3 where x: "expire_clients (m\<lparr>pollfd_count := n\<rparr>, d2) = (m3, d3)" by fastforce
  have s3: "sound d3" "all_watched fds d3"
    using expire_clients_sound [OF w(2,3)] x by (metis snd_conv)+
  obtain m4 d4 where y: "check_timeouts (m3, d3) = (m4, d4)" by fastforce
  have s4: "sound d4" "all_watched fds d4" using check_timeouts_sound [OF s3] y by (metis snd_conv)+
  obtain d5 where d5: "serve k socks (polled k n fds) d4 = Some d5" "sound d5" using serve_sound [OF s4 assms(2)] by blast
  obtain m6 d6 where z: "autosave (m4, d5) = (m6, d6)" by fastforce
  have "main_turn k socks (m, d) = Some (m6, d6)"
    using w(1) b x y d5(1) z by (simp add: main_turn_def Let_def d1_def [symmetric] n_def [symmetric])
  moreover have "sound d6" using autosave_sound [OF d5(2)] z by (metis snd_conv)
  ultimately show thesis by (rule that)
qed

subsection \<open>The life of the broker\<close>

text \<open>Between two turns sockets become readable and writable and time goes by.\<close>

record weather =
  wx_read :: "ctx_ref \<Rightarrow> net_answer list"
  wx_write :: "ctx_ref \<Rightarrow> net_answer list"
  wx_now :: int
  wx_wall :: int

definition weathered :: "weather \<Rightarrow> db \<Rightarrow> db" where
  "weathered w d =
     d\<lparr>contexts := (\<lambda>r. map_option (\<lambda>c. c\<lparr>rd_answers := wx_read w r, wr_answers := wx_write w r\<rparr>) (contexts d r)),
       glob := (glob d)\<lparr>now := wx_now w, wall := wx_wall w\<rparr>\<rparr>"

text \<open>
  What a broker is given before its loop besides its configuration and its listeners: the limits of the queues,
  and the users and keys of its files with the function that makes a password's digest.
\<close>

record prepared =
  su_inflight :: int
  su_queued :: int
  su_unpwd :: "unpwd_entry list"
  su_psk :: "unpwd_entry list"
  su_digest :: "string \<Rightarrow> byte list \<Rightarrow> byte list option"

definition set_up :: "prepared \<Rightarrow> config \<Rightarrow> listener list \<Rightarrow> db" where
  "set_up su conf ls =
     (mqtt3_db_limits_set (su_inflight su) (su_queued su) (started conf ls))
       \<lparr>unpwd := su_unpwd su, psk_id := su_psk su, pw_digest := su_digest su\<rparr>"

text \<open>
  The broker from its start on: with an empty database and no access lists, plugin or bridges, but with any
  limits, users, keys and configuration, with listeners that are open, the main loop entered, any number
  of turns behind it.
\<close>

inductive running :: "prepared \<Rightarrow> config \<Rightarrow> listener list \<Rightarrow> int list \<Rightarrow> main_loop \<times> db \<Rightarrow> bool" for su conf ls socks where
  running_start: "running su conf ls socks (loop_start (set_up su conf ls), set_up su conf ls)"
| running_turn: "running su conf ls socks (m, d) \<Longrightarrow> kernel_ok k \<Longrightarrow> main_turn k socks (m, weathered w d) = Some (m', e) \<Longrightarrow>
    running su conf ls socks (m', e)"

definition opened :: "listener list \<Rightarrow> bool" where
  "opened ls \<longleftrightarrow> mounts_ok ls \<and> (\<forall>l \<in> set ls. ls_client_count l = 0) \<and> ports_ok (map ls_socks ls)"

lemma weathered_simps:
  "ctx_live (weathered w d) q = ctx_live d q" "tables (weathered w d) = tables d" "subs (weathered w d) = subs d"
  "ctx_live d q \<Longrightarrow> ctx_of (weathered w d) q = (ctx_of d q)\<lparr>rd_answers := wx_read w q, wr_answers := wx_write w q\<rparr>"
  "\<not> ctx_live d q \<Longrightarrow> ctx_of (weathered w d) q = ctx_of d q"
  by (auto simp: weathered_def ctx_live_def ctx_of_def tables_def)

lemma weathered_sound:
  assumes "sound d"
  shows "sound (weathered w d)"
proof -
  let ?e = "weathered w d"
  have b: "msgs_inv (\<lambda>s. 0) d" "linked d" "topics_ok d" using assms orderly_parts(2) by (auto simp: sound_def broker_inv_def)
  have dom: "dom (contexts ?e) = dom (contexts d)" by (auto simp: weathered_def)
  have same: "msgs (ctx_of ?e q) = msgs (ctx_of d q)" "ctx_subs (ctx_of ?e q) = ctx_subs (ctx_of d q)" for q
    by (cases "ctx_live d q"; simp add: weathered_simps)+
  have "total_refs ?e s = total_refs d s" for s
    by (simp add: total_refs_def dom queue_refs_def same weathered_simps)
  moreover have "counts_ok f ?e = counts_ok f d" for f by (rule counts_ok_cong) (simp_all add: weathered_def)
  ultimately have "store_inv (\<lambda>s. 0) ?e" using b(1) by (simp add: msgs_inv_def store_inv_def dom)
  moreover have "abandoned c' \<or> queue_ok (next_ptr (glob d)) c'" if c: "contexts ?e r = Some c'" for r c'
  proof -
    obtain c where c: "contexts d r = Some c" "c' = c\<lparr>rd_answers := wx_read w r, wr_answers := wx_write w r\<rparr>"
      using c by (auto simp: weathered_def)
    have "abandoned c \<or> queue_ok (next_ptr (glob d)) c" using b(1) c(1) by (simp add: msgs_inv_def)
    moreover have "keys c' = keys c" by (simp add: c(2) keys_def)
    ultimately show ?thesis by (simp add: abandoned_def queue_ok_def) (simp add: c(2), auto)
  qed
  ultimately have "msgs_inv (\<lambda>s. 0) ?e" by (simp add: msgs_inv_def) (simp add: weathered_def)
  moreover have "linked ?e" by (rule linked_frame [OF b(2)]) (simp_all add: same weathered_simps)
  moreover have "topics_ok ?e" using b(3) by (simp add: topics_ok_def weathered_def)
  ultimately have inv: "broker_inv (\<lambda>s. 0) ?e" by (simp add: broker_inv_def)
  have "later (ctx_of d q) (ctx_of ?e q)" for q
    by (cases "ctx_live d q") (simp_all add: weathered_simps later_def identity_def unborn_def)
  then show ?thesis by (intro calm_sound [OF assms inv]) (simp add: calm_def weathered_simps)
qed

lemma set_up_sound: "opened ls \<Longrightarrow> sound (set_up su conf ls)"
proof -
  assume ls: "opened ls"
  have s: "sound (started conf ls)" by (rule started_sound) (use ls in \<open>simp_all add: opened_def\<close>)
  show ?thesis
    by (rule calm_sound [OF s]) (use s orderly_parts(2) [of "started conf ls"] in \<open>auto simp: sound_def set_up_def mqtt3_db_limits_set_def
          calm_def tables_def ctx_live_def ctx_of_def intro: broker_inv_tables [of "\<lambda>s. 0" "started conf ls"]\<close>)
qed

lemma running_is_sound:
  assumes "running su conf ls socks (m, d)" and "opened ls"
  shows "sound d"
  using assms
proof (induction "(m, d)" arbitrary: m d rule: running.induct)
  case running_start
  then show ?case by (rule set_up_sound)
next
  case (running_turn m d k w m' e)
  have "sound (weathered w d)" using running_turn weathered_sound by simp
  then obtain m6 d6 where "main_turn k socks (m, weathered w d) = Some (m6, d6)" "sound d6"
    using main_turn_ok running_turn.hyps(3) by blast
  then show ?case using running_turn.hyps(4) by simp
qed

subsection \<open>What the loop promises\<close>

text \<open>
  C1. The main loop never hangs: from the start of the broker on (with an empty database, without access
  lists, plugin and bridges), whatever clients connect, send, and
  leave unread, and whenever it happens, each turn of \<^verbatim>\<open>mosquitto_main_loop\<close> comes to its end.\<close>

theorem main_turn_returns:
  assumes "opened ls" and "running su conf ls socks (m, d)" and "kernel_ok k"
  shows "\<exists>m' e. main_turn k socks (m, weathered w d) = Some (m', e) \<and> running su conf ls socks (m', e)"
proof -
  have "sound (weathered w d)" by (rule weathered_sound [OF running_is_sound [OF assms(2,1)]])
  then obtain m' e where t: "main_turn k socks (m, weathered w d) = Some (m', e)" using main_turn_ok assms(3) by blast
  then show ?thesis using running_turn [OF assms(2,3) t] by blast
qed

text \<open>
  C2. A broker that starts with an empty database and has no access lists, no plugin and no bridges is in order at
  every time of its life, whatever its limits for the queues, its users and keys and the rest of its configuration:
  references are counted, queues and tables agree, what subscriptions point to is there (\<^const>\<open>sound\<close>), and the
  table of identifiers finds a client exactly when it has that identifier. Nothing is said of a broker with
  access lists, whose takeover can leave the counters of a queue wrong (see \<^verbatim>\<open>Takeover\<close>), or of one
  that restored queues from a file, whose counters start at 0 (see \<^verbatim>\<open>Restore\<close>).\<close>

theorem running_broker_sound:
  assumes "opened ls" and "running su conf ls socks (m, d)"
  shows "sound d \<and> (\<forall>i r. names d i = Some r \<longleftrightarrow> ctx_live d r \<and> ctx_id (ctx_of d r) = Some i)"
proof -
  have s: "sound d" by (rule running_is_sound [OF assms(2,1)])
  have "distinct (map fst (contexts_by_id d))" "ids_ok d"
    using s by (simp_all add: sound_def orderly_def consistent_def clients_ok_def)
  then have "names d i = Some r \<longleftrightarrow> ctx_live d r \<and> ctx_id (ctx_of d r) = Some i" for i r
    by (simp add: names_def ids_ok_def)
  then show ?thesis using s by blast
qed

text \<open>
  C14. The array for \<^verbatim>\<open>poll\<close> is right: every client with an open socket has its place in it,
  behind the listening sockets and inside what was allocated, and the descriptor there is its own, so the
  \<^verbatim>\<open>assert\<close> of \<^verbatim>\<open>loop_handle_reads_writes\<close> holds.\<close>

theorem poll_array_complete:
  assumes "sound d" and "watch_clients k socks d = Some (fds, e)" and "ctx_live e r" and "0 \<le> sock (ctx_of e r)"
  shows "0 \<le> pollfd_index (ctx_of e r) \<and> nat (pollfd_index (ctx_of e r)) < length fds \<and>
    pf_fd (fds ! nat (pollfd_index (ctx_of e r))) = sock (ctx_of e r) \<and>
    length fds \<le> length socks + length (contexts_by_sock d)"
proof -
  obtain fds' e' where "watch_clients k socks d = Some (fds', e')" "\<forall>q. ctx_live e' q \<longrightarrow> watched fds' (ctx_of e' q)"
    "length fds' \<le> length socks + length (contexts_by_sock d)"
    by (rule watch_clients_ok [OF assms(1), of k socks]) blast
  then show ?thesis using assms(2-4) by (simp add: watched_def)
qed

text \<open>
  C20. A client that is silent for one and a half times its keepalive is dropped when the loop comes
  to it: its socket is closed, it is not polled, and only a lasting session keeps its identifier.\<close>

theorem silent_client_dropped:
  assumes "sound d" and "ctx_live d r" and "0 \<le> sock (ctx_of d r)" and "keepalive (ctx_of d r) \<noteq> 0"
    and "uint (keepalive (ctx_of d r)) * 3 div 2 \<le> now (glob d) - last_msg_in (ctx_of d r)"
  shows "\<exists>e. poll_client k r (fds, d) = Some (fds, e) \<and> sound e \<and> sock (ctx_of e r) < 0 \<and>
    state (ctx_of e r) = mosq_cs_disconnected \<and> r \<notin> set (by_sock e)"
proof -
  let ?d = "upd_ctx r (\<lambda>c. c\<lparr>pollfd_index := - 1\<rparr>) d"
  have s: "sound ?d" "ctx_live ?d r" using poll_index_sound [OF assms(1,2)] by simp_all
  have m: "mind_bridge k r ?d = ?d" using client_unbridged [OF s] by (simp add: mind_bridge_def)
  have g: "glob ?d = glob d" by (simp add: upd_ctx_def put_ctx_def)
  have "\<not> in_time (now (glob ?d)) (ctx_of ?d r)" using assms(4,5) client_unbridged [OF assms(1,2)] by (simp add: in_time_def g)
  then have "poll_client k r (fds, d) = Some (fds, do_disconnect r ?d)" using assms(3) m by (simp add: poll_client_def Let_def)
  moreover have "sound (do_disconnect r ?d)" by (rule drop_sound [OF s])
  ultimately show ?thesis using drop_others(2,3) [OF s] by_sock_live(1) [OF drop_sound [OF s], of r] by auto
qed

text \<open>
  C15. A connection is admitted or leaves no trace: when \<^verbatim>\<open>mqtt3_socket_accept\<close> answers -1, the
  listeners with their counts, the tables and the set of contexts are what they were; otherwise there is
  a new context with the socket, and its listener is not over its limit.\<close>

theorem connection_admitted_or_untouched:
  assumes "sound d" and "kernel_ok k" and "0 \<le> a_sock a" and "mqtt3_socket_accept k s a d = (fd, e)"
  shows "(fd = - 1 \<and> untouched d e) \<or> (fd = a_sock a \<and> (\<exists>r. admitted r fd d e))"
  by (rule accept_outcome(2) [OF assms])

text \<open>A client that lost its connection in a pass is left alone when the code still comes to it.\<close>

lemma gone_is_quiet:
  assumes "ctx_live d r" and "sock (ctx_of d r) = INVALID_SOCKET" and "state (ctx_of d r) = mosq_cs_disconnected"
    and "ssl (ctx_of d r) = None" and "nat (pollfd_index (ctx_of d r)) < length fds"
  shows "handle_read k fds r d = Some d"
proof -
  have "put_ctx r (ctx_of d r) d = d" using assms(1) by (auto simp: put_ctx_def ctx_of_def ctx_live_def fun_upd_idem)
  then have "with_ctx r packet_read_phases d = (Some MOSQ_ERR_NO_CONN, d)"
    using assms(2) by (simp add: with_ctx_def packet_read_phases_def)
  then have "read_once uuid r d = Some d" for uuid
    using assms(3) by (simp add: read_once_def mosquitto_packet_read_def do_disconnect_def)
  then have "read_all uuid r n d = Some d" for uuid n using assms(4) by (cases n) simp_all
  then show ?thesis using assms(5) by (simp add: handle_read_def Let_def)
qed

subsection \<open>A broker with one port\<close>

definition port :: listener where
  "port = \<lparr>ls_mount_point = None, ls_client_count = 0, ls_use_username_as_clientid = False, ls_ssl_ctx = False,
     ls_use_identity_as_username = False, ls_psk_hint = None, ls_max_connections = 8, ls_socks = [3]\<rparr>"

definition caller :: arrival where
  "caller = \<lparr>a_sock = 4, a_nonblock = True, a_peer = True, a_ssl = None, a_accept = TlsDone\<rparr>"

definition linux :: kernel where
  "linux = \<lparr>k_connect = (\<lambda>a. \<lparr>nc_rc = 1, nc_sock = - 1, nc_ssl = None\<rparr>), k_notconn = False, k_try = (\<lambda>a. 1), k_poll = 1,
     k_revents = (\<lambda>i. POLLIN), k_so_error = (\<lambda>s. None), k_pending = (\<lambda>r. 0), k_uuid = (\<lambda>r. ''x''),
     k_arrivals = (\<lambda>s. [caller]), k_alloc = (\<lambda>d. Suc (Max (insert 0 (dom (contexts d)))))\<rparr>"

definition quiet :: "int \<Rightarrow> weather" where
  "quiet t = \<lparr>wx_read = (\<lambda>r. []), wx_write = (\<lambda>r. []), wx_now = t, wx_wall = t\<rparr>"

lemma linux_ok: "kernel_ok linux"
proof -
  have "\<not> ctx_live d (Suc (Max (insert 0 (dom (contexts d)))))" if "finite (dom (contexts d))" for d
  proof
    assume "ctx_live d (Suc (Max (insert 0 (dom (contexts d)))))"
    then have "Suc (Max (insert 0 (dom (contexts d)))) \<in> insert 0 (dom (contexts d))" by (simp add: ctx_live_def domIff)
    then have "Suc (Max (insert 0 (dom (contexts d)))) \<le> Max (insert 0 (dom (contexts d)))"
      using that by (intro Max_ge) simp_all
    then show False by simp
  qed
  then show ?thesis by (simp add: kernel_ok_def linux_def caller_def)
qed

lemma port_opened: "opened [port]"
  by (simp add: opened_def mounts_ok_def ports_ok_def port_def)

text \<open>A broker with room for one message, queues without a limit, and one user.\<close>

definition sample_prepared :: prepared where
  "sample_prepared = \<lparr>su_inflight = 1, su_queued = 0,
     su_unpwd = [\<lparr>up_username = ''u'', up_password = Some [0x70], up_salt = []\<rparr>], su_psk = [],
     su_digest = (\<lambda>p s. None)\<rparr>"

theorem main_turn_returns_witness:
  "\<exists>m e. main_turn linux [3] (loop_start (set_up sample_prepared config_init [port]), weathered (quiet 5) (set_up sample_prepared config_init [port])) =
     Some (m, e)"
  using main_turn_returns [OF port_opened running_start linux_ok] by blast

theorem running_broker_sound_witness: "sound (set_up sample_prepared config_init [port])"
  using running_broker_sound [OF port_opened running_start] by blast

theorem connection_admitted_or_untouched_witness:
  "let (fd, e) = mqtt3_socket_accept linux 3 caller (started config_init [port])
   in (fd = - 1 \<and> untouched (started config_init [port]) e) \<or> (fd = 4 \<and> (\<exists>r. admitted r fd (started config_init [port]) e))"
  using connection_admitted_or_untouched [OF started_sound [of "[port]" config_init] linux_ok, where a = caller and s = 3] port_opened
  by (cases "mqtt3_socket_accept linux 3 caller (started config_init [port])") (simp add: caller_def opened_def)

text \<open>The client of \<^const>\<open>greeted\<close> is polled, and later it has been silent for too long.\<close>

lemma greeted_facts:
  "by_sock greeted = [7]" "ctx_of greeted 7 = ctx_zero\<lparr>sock := 4, keepalive := 60, clean_session := True,
     in_packet := mosquitto_packet_cleanup packet_zero, rd_answers := [NetData [0x10, 0x0C, 0, 4]]\<rparr>"
  "now (glob greeted) = 0" "length (contexts_by_sock greeted) = 1"
  by (simp_all add: greeted_def arriving_def mqtt3_context_init_def started_def mqtt3_db_open_def db_zero_def by_sock_def
      upd_ctx_def put_ctx_def ctx_of_def ctx_zero_def globals_init_def Let_def)

theorem poll_array_complete_witness:
  "\<exists>fds e. watch_clients linux [3] greeted = Some (fds, e) \<and> 0 \<le> pollfd_index (ctx_of e 7) \<and>
     pf_fd (fds ! nat (pollfd_index (ctx_of e 7))) = 4 \<and> length fds \<le> 2"
proof -
  have w: "watch_clients linux [3] greeted = Some ([hd (listening [3]), watch False (ctx_of greeted 7)],
      upd_ctx 7 (\<lambda>c. c\<lparr>pollfd_index := 1\<rparr>) (upd_ctx 7 (\<lambda>c. c\<lparr>pollfd_index := - 1\<rparr>) greeted))"
    by (simp add: watch_clients_def greeted_facts listening_def poll_client_def mind_bridge_def in_time_def ctx_zero_def
        mqtt3_db_message_write_def watch_def Let_def)
  let ?e = "upd_ctx 7 (\<lambda>c. c\<lparr>pollfd_index := 1\<rparr>) (upd_ctx 7 (\<lambda>c. c\<lparr>pollfd_index := - 1\<rparr>) greeted)"
  have live: "ctx_live ?e 7" and s: "sock (ctx_of ?e 7) = 4" using greeted_sound(2) by (simp_all add: greeted_facts)
  have "0 \<le> sock (ctx_of ?e 7)" unfolding s by simp
  note p = poll_array_complete [OF greeted_sound(1) w live this, unfolded s]
  show ?thesis unfolding w using p greeted_facts(4) by auto
qed

theorem silent_client_dropped_witness:
  "\<exists>e. poll_client linux 7 ([], weathered (quiet 90) greeted) = Some ([], e) \<and> sock (ctx_of e 7) < 0"
proof -
  have c: "ctx_live (weathered (quiet 90) greeted) 7" using greeted_sound(2) by (simp add: weathered_simps)
  have "ctx_of (weathered (quiet 90) greeted) 7 = (ctx_of greeted 7)\<lparr>rd_answers := [], wr_answers := []\<rparr>"
    using greeted_sound(2) by (simp add: weathered_simps quiet_def)
  then show ?thesis
    using silent_client_dropped [OF weathered_sound [OF greeted_sound(1)] c, where k = linux and fds = "[]"]
    by (auto simp: greeted_facts ctx_zero_def weathered_def quiet_def)
qed

end
