(* ===== verification/Persist.thy ===== *)
theory Persist
  imports Takeover "HOL-Library.AList" "HOL-Library.Monad_Syntax"
begin

text \<open>
  The persistent database, \<^verbatim>\<open>src/persist.c\<close>: writing the broker to a file and reading it back.

  A file is a list of bytes. The disk is a parameter: whether it lets the file be opened and renamed,
  how many bytes it takes, and when the library's buffer is written out to it. Numbers that the code writes without \<^verbatim>\<open>htons\<close> or \<^verbatim>\<open>htonl\<close> are in
  the order of the host, which is little endian with 64-bit \<^verbatim>\<open>time_t\<close>. The address of a context that
  is made while a file is read comes from \<open>alloc\<close>.
\<close>

subsection \<open>Fields of a file\<close>

abbreviation (input) DB_CHUNK_CFG :: u16 where "DB_CHUNK_CFG \<equiv> 1"
abbreviation (input) DB_CHUNK_MSG_STORE :: u16 where "DB_CHUNK_MSG_STORE \<equiv> 2"
abbreviation (input) DB_CHUNK_CLIENT_MSG :: u16 where "DB_CHUNK_CLIENT_MSG \<equiv> 3"
abbreviation (input) DB_CHUNK_RETAIN :: u16 where "DB_CHUNK_RETAIN \<equiv> 4"
abbreviation (input) DB_CHUNK_SUB :: u16 where "DB_CHUNK_SUB \<equiv> 5"
abbreviation (input) DB_CHUNK_CLIENT :: u16 where "DB_CHUNK_CLIENT \<equiv> 6"

definition magic :: "byte list" where
  "magic = [0x00, 0xB5, 0x00] @ bytes_of ''mosquitto db''"

definition be32 :: "u32 \<Rightarrow> byte list" where
  "be32 w = map (\<lambda>i. ucast (drop_bit (8 * i) w)) [3, 2, 1, 0]"

definition le64 :: "u64 \<Rightarrow> byte list" where
  "le64 w = map (\<lambda>i. ucast (drop_bit (8 * i) w)) [0, 1, 2, 3, 4, 5, 6, 7]"

definition of_le :: "byte list \<Rightarrow> 'a::len word" where
  "of_le bs = foldr (\<lambda>b w. ucast b OR push_bit 8 w) bs 0"

text \<open>The macro \<^verbatim>\<open>read_e\<close>: \<^const>\<open>None\<close> is the jump to \<open>error\<close>.\<close>

type_synonym 'a field = "byte list \<Rightarrow> ('a \<times> byte list) option"

definition read_e :: "nat \<Rightarrow> byte list field" where
  "read_e n bs = (if n \<le> length bs then Some (take n bs, drop n bs) else None)"

definition read_u8 :: "byte field" where
  "read_u8 bs = do { (b, bs) \<leftarrow> read_e 1 bs; Some (hd b, bs) }"

definition read_be16 :: "u16 field" where
  "read_be16 bs = do { (b, bs) \<leftarrow> read_e 2 bs; Some (of_le (rev b), bs) }"

definition read_be32 :: "u32 field" where
  "read_be32 bs = do { (b, bs) \<leftarrow> read_e 4 bs; Some (of_le (rev b), bs) }"

definition read_le64 :: "u64 field" where
  "read_le64 bs = do { (b, bs) \<leftarrow> read_e 8 bs; Some (of_le b, bs) }"

definition read_time :: "int field" where
  "read_time bs = do { (w, bs) \<leftarrow> read_le64 bs; Some (sint w, bs) }"

text \<open>A length and a string, which ends at its first NUL once it is in memory.\<close>

definition read_counted :: "(u16 \<times> string) field" where
  "read_counted bs =
     do { (slen, bs) \<leftarrow> read_be16 bs; (b, bs) \<leftarrow> read_e (unat slen) bs; Some ((slen, c_string b), bs) }"

text \<open>A string that may not be empty: \<^verbatim>\<open>if(!slen)\<close> is an error.\<close>

definition read_named :: "string field" where
  "read_named bs =
     do { ((slen, s), bs) \<leftarrow> read_counted bs; if slen = 0 then None else Some (s, bs) }"

subsection \<open>Chunks\<close>

text \<open>
  What one chunk of a file says. The fields of a chunk are written one by one. The length of a
  string is a 16-bit number everywhere but in a subscription, whose strings are written in full.
\<close>

datatype chunk =
    CfgChunk bool u64
  | StoreChunk u64 string u16 u16 string nat bool "byte list"
  | ClientMsgChunk string u64 u16 nat bool mosquitto_msg_direction mosquitto_msg_state bool
  | RetainChunk u64
  | SubChunk string string nat
  | ClientChunk string u16 int

definition len16 :: "string \<Rightarrow> u16" where
  "len16 s = word_of_nat (length s)"

definition counted_string :: "string \<Rightarrow> byte list list" where
  "counted_string s = [uint16_bytes (len16 s), take (unat (len16 s)) (bytes_of s)]"

definition in_full :: "string \<Rightarrow> byte list list" where
  "in_full s = [uint16_bytes (len16 s), bytes_of s]"

definition flag_byte :: "bool \<Rightarrow> byte" where
  "flag_byte b = (if b then 1 else 0)"

definition direction_code :: "mosquitto_msg_direction \<Rightarrow> nat" where
  "direction_code dir = (if dir = mosq_md_in then 0 else 1)"

fun chunk_tag :: "chunk \<Rightarrow> u16" where
  "chunk_tag (CfgChunk sh n) = DB_CHUNK_CFG"
| "chunk_tag (StoreChunk i src smid mid t q r p) = DB_CHUNK_MSG_STORE"
| "chunk_tag (ClientMsgChunk cid i mid q r dir st dup) = DB_CHUNK_CLIENT_MSG"
| "chunk_tag (RetainChunk i) = DB_CHUNK_RETAIN"
| "chunk_tag (SubChunk cid t q) = DB_CHUNK_SUB"
| "chunk_tag (ClientChunk cid m t) = DB_CHUNK_CLIENT"

fun chunk_length :: "chunk \<Rightarrow> nat" where
  "chunk_length (CfgChunk sh n) = 8 + 1 + 1"
| "chunk_length (StoreChunk i src smid mid t q r p) =
     8 + (2 + length src) + 2 + 2 + (2 + length t) + 4 + length p + 1 + 1"
| "chunk_length (ClientMsgChunk cid i mid q r dir st dup) = 8 + 2 + 1 + 1 + 1 + 1 + 1 + (2 + unat (len16 cid))"
| "chunk_length (RetainChunk i) = 8"
| "chunk_length (SubChunk cid t q) = (2 + length cid) + (2 + length t) + 1"
| "chunk_length (ClientChunk cid m t) = (2 + length cid) + 2 + 8"

definition cfg_body :: "bool \<Rightarrow> u64 \<Rightarrow> byte list list" where
  "cfg_body sh n = [[flag_byte sh], [8], le64 n]"

definition store_body :: "u64 \<Rightarrow> string \<Rightarrow> u16 \<Rightarrow> u16 \<Rightarrow> string \<Rightarrow> nat \<Rightarrow> bool \<Rightarrow> byte list \<Rightarrow> byte list list" where
  "store_body i src smid mid t q r p =
     [le64 i] @ counted_string src @ [uint16_bytes smid, uint16_bytes mid] @ counted_string t @
     [[word_of_nat q], [flag_byte r], be32 (word_of_nat (length p)), p]"

definition client_msg_body ::
    "string \<Rightarrow> u64 \<Rightarrow> u16 \<Rightarrow> nat \<Rightarrow> bool \<Rightarrow> mosquitto_msg_direction \<Rightarrow> mosquitto_msg_state \<Rightarrow> bool \<Rightarrow> byte list list" where
  "client_msg_body cid i mid q r dir st dup =
     counted_string cid @ [le64 i, uint16_bytes mid, [word_of_nat q], [flag_byte r],
       [word_of_nat (direction_code dir)], [word_of_nat (msg_state_code st)], [flag_byte dup]]"

definition retain_body :: "u64 \<Rightarrow> byte list list" where
  "retain_body i = [le64 i]"

definition sub_body :: "string \<Rightarrow> string \<Rightarrow> nat \<Rightarrow> byte list list" where
  "sub_body cid t q = in_full cid @ in_full t @ [[word_of_nat q]]"

definition client_body :: "string \<Rightarrow> u16 \<Rightarrow> int \<Rightarrow> byte list list" where
  "client_body cid m t = counted_string cid @ [uint16_bytes m, le64 (word_of_int t)]"

lemmas body_defs = cfg_body_def store_body_def client_msg_body_def retain_body_def sub_body_def client_body_def

fun chunk_body :: "chunk \<Rightarrow> byte list list" where
  "chunk_body (CfgChunk sh n) = cfg_body sh n"
| "chunk_body (StoreChunk i src smid mid t q r p) = store_body i src smid mid t q r p"
| "chunk_body (ClientMsgChunk cid i mid q r dir st dup) = client_msg_body cid i mid q r dir st dup"
| "chunk_body (RetainChunk i) = retain_body i"
| "chunk_body (SubChunk cid t q) = sub_body cid t q"
| "chunk_body (ClientChunk cid m t) = client_body cid m t"

definition chunk_fields :: "chunk \<Rightarrow> byte list list" where
  "chunk_fields ch = [uint16_bytes (chunk_tag ch), be32 (word_of_nat (chunk_length ch))] @ chunk_body ch"

subsection \<open>Writing\<close>

text \<open>
  The file being written. A stream is buffered: after \<open>n\<close> bytes were given to \<^verbatim>\<open>fwrite\<close>, \<open>out_flush n\<close> of them were
  passed on to the disk, in whatever portions the library chooses. \<open>flushed\<close> makes of any function one that says what a
  buffer can do: never more than was written, and never less than before.
\<close>

fun flushed :: "(nat \<Rightarrow> nat) \<Rightarrow> nat \<Rightarrow> nat" where
  "flushed g 0 = 0"
| "flushed g (Suc n) = max (flushed g n) (min (Suc n) (g (Suc n)))"

record outfile =
  out_bytes :: "byte list"
  out_room :: nat
  out_flush :: "nat \<Rightarrow> nat"
  out_failed :: bool
  out_fault :: bool

text \<open>
  \<^verbatim>\<open>fwrite\<close> comes up short when it has to pass on more than the disk, with room for \<open>out_room\<close> bytes, can take. Then
  the disk is full, and nothing that is written later reaches it. A string read through a null pointer sets \<open>out_fault\<close>.
\<close>

definition fwrite :: "byte list \<Rightarrow> outfile \<Rightarrow> bool \<times> outfile" where
  "fwrite bs f =
     (let written = out_bytes f @ bs
      in if bs = [] then (True, f)
         else if out_failed f then (False, f)
         else if flushed (out_flush f) (length written) \<le> out_room f then (True, f\<lparr>out_bytes := written\<rparr>)
         else (False, f\<lparr>out_bytes := take (out_room f) written, out_failed := True\<rparr>))"

text \<open>
  What is in the file after \<^verbatim>\<open>fclose\<close>, which passes on the rest of the buffer; its result is not looked at.
\<close>

definition closed_file :: "outfile \<Rightarrow> byte list" where
  "closed_file f = take (out_room f) (out_bytes f)"

text \<open>A sequence of \<^verbatim>\<open>write_e\<close>: the first that fails jumps to \<open>error\<close>, which returns 1.\<close>

fun write_fields :: "byte list list \<Rightarrow> outfile \<Rightarrow> rc \<times> outfile" where
  "write_fields [] f = (0, f)"
| "write_fields (bs # fs) f = (case fwrite bs f of (ok, f1) \<Rightarrow> if ok then write_fields fs f1 else (1, f1))"

definition write_chunk :: "chunk \<Rightarrow> outfile \<Rightarrow> rc \<times> outfile" where
  "write_chunk ch = write_fields (chunk_fields ch)"

definition null_string :: "outfile \<Rightarrow> rc \<times> outfile" where
  "null_string f = (1, f\<lparr>out_fault := True\<rparr>)"

text \<open>Write one element of a list after the other, until one fails.\<close>

fun write_list :: "('a \<Rightarrow> outfile \<Rightarrow> rc \<times> outfile) \<Rightarrow> 'a list \<Rightarrow> outfile \<Rightarrow> rc \<times> outfile" where
  "write_list w [] f = (0, f)"
| "write_list w (x # xs) f = (case w x f of (rc, f1) \<Rightarrow> if rc = 0 then write_list w xs f1 else (1, f1))"

definition is_sys :: "string \<Rightarrow> bool" where
  "is_sys t \<longleftrightarrow> take 4 t = ''$SYS''"

definition store_write :: "msg_store \<Rightarrow> outfile \<Rightarrow> rc \<times> outfile" where
  "store_write m =
     (case ms_topic m of
        None \<Rightarrow> null_string
      | Some t \<Rightarrow>
          write_chunk (StoreChunk (ms_db_id m) (ms_source_id m) (ms_source_mid m) (ms_mid m) t (ms_qos m)
            (ms_retain m \<and> \<not> is_sys t) (ms_payload m)))"

definition mqtt3_db_message_store_write :: "db \<Rightarrow> outfile \<Rightarrow> rc \<times> outfile" where
  "mqtt3_db_message_store_write d = write_list (\<lambda>(s, m). store_write m) (msg_store d)"

definition client_msg_chunk :: "db \<Rightarrow> string \<Rightarrow> client_msg \<Rightarrow> chunk" where
  "client_msg_chunk d cid m =
     ClientMsgChunk cid (ms_db_id (store_of d (cm_store m))) (cm_mid m) (cm_qos m) (cm_retain m)
       (cm_direction m) (cm_state m) (cm_dup m)"

definition mqtt3_db_client_messages_write :: "db \<Rightarrow> ctx \<Rightarrow> outfile \<Rightarrow> rc \<times> outfile" where
  "mqtt3_db_client_messages_write d c =
     write_list (\<lambda>m. case ctx_id c of None \<Rightarrow> null_string | Some cid \<Rightarrow> write_chunk (client_msg_chunk d cid m)) (msgs c)"

definition gone_since :: "db \<Rightarrow> ctx \<Rightarrow> int" where
  "gone_since d c = (if disconnect_t c \<noteq> 0 then disconnect_t c else wall (glob d))"

definition client_write :: "db \<Rightarrow> ctx \<Rightarrow> outfile \<Rightarrow> rc \<times> outfile" where
  "client_write d c f =
     (if clean_session c then (0, f)
      else case ctx_id c of
        None \<Rightarrow> null_string f
      | Some cid \<Rightarrow>
          (case write_chunk (ClientChunk cid (last_mid c) (gone_since d c)) f of
             (rc, f1) \<Rightarrow> if rc = 0 then mqtt3_db_client_messages_write d c f1 else (1, f1)))"

definition mqtt3_db_client_write :: "db \<Rightarrow> outfile \<Rightarrow> rc \<times> outfile" where
  "mqtt3_db_client_write d = write_list (\<lambda>(i, r). client_write d (ctx_of d r)) (rev (contexts_by_id d))"

text \<open>The subscriptions and the retained message of a node with the topic \<^verbatim>\<open>thistopic\<close>.\<close>

definition leaf_write :: "db \<Rightarrow> string \<Rightarrow> subleaf \<Rightarrow> outfile \<Rightarrow> rc \<times> outfile" where
  "leaf_write d this l f =
     (let c = ctx_of d (lf_context l)
      in if clean_session c then (0, f)
         else case ctx_id c of None \<Rightarrow> null_string f | Some cid \<Rightarrow> write_chunk (SubChunk cid this (lf_qos l)) f)"

definition retained_write :: "db \<Rightarrow> store_ref option \<Rightarrow> outfile \<Rightarrow> rc \<times> outfile" where
  "retained_write d ret f =
     (case ret of
        None \<Rightarrow> (0, f)
      | Some s \<Rightarrow>
          (case ms_topic (store_of d s) of
             None \<Rightarrow> null_string f
           | Some t \<Rightarrow> if is_sys t then (0, f) else write_chunk (RetainChunk (ms_db_id (store_of d s))) f))"

definition child_topic :: "string \<Rightarrow> string \<Rightarrow> string" where
  "child_topic topic t = (if topic = [] then t else topic @ ''/'' @ t)"

text \<open>What goes wrong in a node ends the writing of that node; the result of a child is not looked at.\<close>

fun db_subs_retain_write :: "db \<Rightarrow> string \<Rightarrow> subhier list \<Rightarrow> outfile \<Rightarrow> outfile" where
  "db_subs_retain_write d topic [] f = f"
| "db_subs_retain_write d topic (SubHier t ls ret ch # hs) f =
     db_subs_retain_write d topic hs
       (case write_list (leaf_write d (child_topic topic t)) ls f of
          (rc, f1) \<Rightarrow>
            if rc = 0 then
              (case retained_write d ret f1 of
                 (rc2, f2) \<Rightarrow> if rc2 = 0 then db_subs_retain_write d (child_topic topic t) ch f2 else f2)
            else f1)"

definition mqtt3_db_subs_retain_write :: "db \<Rightarrow> outfile \<Rightarrow> outfile" where
  "mqtt3_db_subs_retain_write d = db_subs_retain_write d [] (subs d)"

definition header_fields :: "byte list list" where
  "header_fields = [magic, be32 0, be32 3]"

record disk =
  dk_opens :: bool
  dk_room :: nat
  dk_flush :: "nat \<Rightarrow> nat"
  dk_renames :: bool

type_synonym files = "string \<Rightarrow> byte list option"

text \<open>
  A failure to write the stored messages leaves the file alone; the results of writing the
  clients and the subscriptions are not looked at.
\<close>

definition write_database :: "bool \<Rightarrow> db \<Rightarrow> outfile \<Rightarrow> rc \<times> outfile" where
  "write_database shutdown d f =
     (case write_fields (header_fields @ chunk_fields (CfgChunk shutdown (last_db_id d))) f of
        (rc, f1) \<Rightarrow>
          if rc = 0 then
            (case mqtt3_db_message_store_write d f1 of
               (rc2, f2) \<Rightarrow>
                 if rc2 = 0 then (0, mqtt3_db_subs_retain_write d (snd (mqtt3_db_client_write d f2)))
                 else (1, f2))
          else (1, f1))"

definition mqtt3_db_backup :: "string option \<Rightarrow> disk \<Rightarrow> bool \<Rightarrow> files \<Rightarrow> db \<Rightarrow> rc \<times> files \<times> db" where
  "mqtt3_db_backup filepath dk shutdown fs d =
     (case filepath of
        None \<Rightarrow> (MOSQ_ERR_INVAL, fs, d)
      | Some path \<Rightarrow>
          let new_name = path @ ''.new''
          in if \<not> dk_opens dk then (1, fs, d)
             else
               (case write_database shutdown d
                       \<lparr>out_bytes = [], out_room = dk_room dk, out_flush = dk_flush dk, out_failed = False, out_fault = False\<rparr> of
                  (rc, f) \<Rightarrow>
                    let fs1 = fs(new_name \<mapsto> closed_file f);
                        d1 = (if out_fault f then set_fault d else d)
                    in if rc = 0 \<and> dk_renames dk then (0, fs1(path := fs1 new_name, new_name := None), d1)
                       else (1, fs1, d1)))"
subsection \<open>Reading\<close>

text \<open>
  The state while a file is read: the table from the ids in the file to the stored messages, the
  newest first, and the broker. An entry loses its message when \<^verbatim>\<open>mqtt3_db_messages_queue\<close> frees it.
\<close>

type_synonym restoring = "(u64 \<times> store_ref option) list \<times> db"

definition db_find_or_add_context :: "(db \<Rightarrow> ctx_ref) \<Rightarrow> string \<Rightarrow> u16 \<Rightarrow> db \<Rightarrow> ctx_ref \<times> db" where
  "db_find_or_add_context alloc cid mid d =
     (let (r, d1) =
        (case find_context cid d of
           Some r \<Rightarrow> (r, d)
         | None \<Rightarrow>
             let r = alloc d;
                 e = upd_ctx r (\<lambda>c. c\<lparr>ctx_id := Some cid, clean_session := False\<rparr>)
                       (snd (mqtt3_context_init r False INVALID_SOCKET d))
             in (r, e\<lparr>contexts_by_id := (cid, r) # contexts_by_id e\<rparr>))
      in (r, if mid \<noteq> 0 then upd_ctx r (\<lambda>c. c\<lparr>last_mid := mid\<rparr>) d1 else d1))"

definition restored_msg :: "nat \<Rightarrow> store_ref \<Rightarrow> u16 \<Rightarrow> nat \<Rightarrow> bool \<Rightarrow> mosquitto_msg_direction \<Rightarrow> mosquitto_msg_state \<Rightarrow> bool \<Rightarrow> client_msg" where
  "restored_msg p s mid qos retain dir st dup =
     \<lparr>cm_ptr = p, cm_store = s, cm_timestamp = 0, cm_mid = mid, cm_qos = qos, cm_retain = retain,
      cm_direction = dir, cm_state = st, cm_dup = dup\<rparr>"

text \<open>The end of \<^verbatim>\<open>_db_client_msg_restore\<close>; \<open>True\<close> says that \<^verbatim>\<open>last_msg\<close> did not point into the queue.\<close>

definition restore_append :: "client_msg \<Rightarrow> ctx \<Rightarrow> bool \<times> ctx" where
  "restore_append m c =
     (if msgs c = [] then (False, c\<lparr>msgs := [m], last_msg := Some (cm_ptr m)\<rparr>)
      else if last_msg c = None then (True, c)
      else append_msg m c)"

definition crash :: "restoring \<Rightarrow> rc \<times> restoring" where
  "crash x = (1, fst x, set_fault (snd x))"

definition db_client_msg_restore ::
    "(db \<Rightarrow> ctx_ref) \<Rightarrow> string \<Rightarrow> u16 \<Rightarrow> nat \<Rightarrow> bool \<Rightarrow> mosquitto_msg_direction \<Rightarrow> mosquitto_msg_state \<Rightarrow> bool \<Rightarrow> u64 \<Rightarrow>
      restoring \<Rightarrow> rc \<times> restoring" where
  "db_client_msg_restore alloc cid mid qos retain dir st dup i x =
     (case x of (loads, d) \<Rightarrow>
        case fresh_ptr d of (p, d1) \<Rightarrow>
        case map_of loads i of
          None \<Rightarrow> (1, loads, d1)
        | Some None \<Rightarrow> crash (loads, d1)
        | Some (Some s) \<Rightarrow>
            (case db_find_or_add_context alloc cid 0 (hold_stored s d1) of
               (r, d2) \<Rightarrow>
                 case restore_append (restored_msg p s mid qos retain dir st dup) (ctx_of d2 r) of
                   (bad, c) \<Rightarrow>
                     let d3 = put_ctx r c d2 in (MOSQ_ERR_SUCCESS, loads, if bad then set_fault d3 else d3)))"

definition db_client_restore :: "(db \<Rightarrow> ctx_ref) \<Rightarrow> string \<Rightarrow> u16 \<Rightarrow> int \<Rightarrow> restoring \<Rightarrow> rc \<times> restoring" where
  "db_client_restore alloc cid mid t x =
     (case x of (loads, d) \<Rightarrow>
        case db_find_or_add_context alloc cid mid d of
          (r, d1) \<Rightarrow> (0, loads, upd_ctx r (\<lambda>c. c\<lparr>disconnect_t := t\<rparr>) d1))"

definition db_msg_store_restore ::
    "u64 \<Rightarrow> string option \<Rightarrow> u16 \<Rightarrow> string \<Rightarrow> nat \<Rightarrow> bool \<Rightarrow> byte list \<Rightarrow> restoring \<Rightarrow> rc \<times> restoring" where
  "db_msg_store_restore i source smid topic qos retain pl x =
     (case x of (loads, d) \<Rightarrow>
        case mqtt3_db_message_store source smid (Some topic) qos pl retain i d of
          (s, d1) \<Rightarrow> (0, (ms_db_id (store_of d1 s), Some s) # loads, d1))"

text \<open>
  \<^verbatim>\<open>mqtt3_db_messages_queue\<close> with a null \<^verbatim>\<open>source_id\<close>: the loop over the leaves of a node is not
  entered, so that only the retained message is set.
\<close>

definition retain_only :: "string \<Rightarrow> bool \<Rightarrow> store_ref \<Rightarrow> path \<Rightarrow> subleaf list \<Rightarrow> bool \<Rightarrow> db \<Rightarrow> db" where
  "retain_only topic retain s p ls set_retain d = (if retain \<and> set_retain then retain_at p topic s d else d)"

fun retain_loop :: "string list \<Rightarrow> string list \<Rightarrow> string \<Rightarrow> bool \<Rightarrow> store_ref \<Rightarrow> db \<Rightarrow> db" where
  "retain_loop [] tokens topic retain s d = d"
| "retain_loop (t # ts) tokens topic retain s d =
     retain_loop ts tokens topic retain s
       (if t = hd tokens then
          (let d1 = (if retain then snd (sub_add None 0 (t # tokens) d) else d)
           in search_tree (retain_only topic retain s) [t] tokens True
                (case node_at [t] (subs d1) of Some h \<Rightarrow> sh_children h | None \<Rightarrow> []) d1)
        else d)"

definition messages_queue_null :: "string \<Rightarrow> bool \<Rightarrow> store_ref \<Rightarrow> db \<Rightarrow> store_ref option \<times> db" where
  "messages_queue_null topic retain s d =
     (let d1 = hold_stored s d
      in msg_store_deref s (retain_loop (map sh_topic (subs d1)) (sub_topic_tokenise topic) topic retain s d1))"

definition db_retain_restore :: "u64 \<Rightarrow> restoring \<Rightarrow> rc \<times> restoring" where
  "db_retain_restore i x =
     (case x of (loads, d) \<Rightarrow>
        case map_of loads i of
          None \<Rightarrow> (MOSQ_ERR_INVAL, loads, d)
        | Some None \<Rightarrow> crash (loads, d)
        | Some (Some s) \<Rightarrow>
            (case ms_topic (store_of d s) of
               None \<Rightarrow> crash (loads, d)
             | Some t \<Rightarrow>
                 (case messages_queue_null t (ms_retain (store_of d s)) s d of
                    (s', d1) \<Rightarrow> (MOSQ_ERR_SUCCESS, AList.update i s' loads, d1))))"

definition db_restore_sub :: "(db \<Rightarrow> ctx_ref) \<Rightarrow> string \<Rightarrow> string \<Rightarrow> nat \<Rightarrow> db \<Rightarrow> rc \<times> db" where
  "db_restore_sub alloc cid sub qos d =
     (case db_find_or_add_context alloc cid 0 d of (r, d1) \<Rightarrow> mqtt3_sub_add r sub qos d1)"

definition db_sub_restore :: "(db \<Rightarrow> ctx_ref) \<Rightarrow> string \<Rightarrow> string \<Rightarrow> nat \<Rightarrow> restoring \<Rightarrow> rc \<times> restoring" where
  "db_sub_restore alloc cid sub qos x =
     (case x of (loads, d) \<Rightarrow>
        case db_restore_sub alloc cid sub qos d of (rc, d1) \<Rightarrow> (if rc \<noteq> 0 then 1 else 0, loads, d1))"
text \<open>
  One chunk after its tag and its length: the fields are read, and then the broker is changed. A
  chunk that cannot be read changes nothing; every error of a chunk ends the restoring with 1. A byte
  that is not the number of a direction or of a state has no value in the model: the C code would put
  it into the enum as it is; the model stops there with \<open>fault\<close>.
\<close>

type_synonym restored = "(rc \<times> restoring) \<times> byte list"

definition then_restore :: "'a field \<Rightarrow> ('a \<Rightarrow> restoring \<Rightarrow> rc \<times> restoring) \<Rightarrow> byte list \<Rightarrow> restoring \<Rightarrow> restored" where
  "then_restore rd act bs x = (case rd bs of None \<Rightarrow> ((1, x), []) | Some (v, bs1) \<Rightarrow> (act v x, bs1))"

definition decode_direction :: "byte \<Rightarrow> mosquitto_msg_direction option" where
  "decode_direction b = (if b = 0 then Some mosq_md_in else if b = 1 then Some mosq_md_out else None)"

definition msg_states :: "mosquitto_msg_state list" where
  "msg_states = [mosq_ms_invalid, mosq_ms_publish_qos0, mosq_ms_publish_qos1, mosq_ms_wait_for_puback, mosq_ms_publish_qos2,
     mosq_ms_wait_for_pubrec, mosq_ms_resend_pubrel, mosq_ms_wait_for_pubrel, mosq_ms_resend_pubcomp,
     mosq_ms_wait_for_pubcomp, mosq_ms_send_pubrec, mosq_ms_queued]"

definition decode_state :: "byte \<Rightarrow> mosquitto_msg_state option" where
  "decode_state b = (if unat b < length msg_states then Some (msg_states ! unat b) else None)"

definition read_cfg :: "(byte \<times> u64) field" where
  "read_cfg bs =
     do { (sh, bs) \<leftarrow> read_u8 bs; (size, bs) \<leftarrow> read_u8 bs;
          if size \<noteq> 8 then None else do { (n, bs) \<leftarrow> read_le64 bs; Some ((sh, n), bs) } }"

definition cfg_chunk_restore :: "byte list \<Rightarrow> restoring \<Rightarrow> restored" where
  "cfg_chunk_restore = then_restore read_cfg (\<lambda>(sh, n) (loads, d). (0, loads, d\<lparr>last_db_id := n\<rparr>))"

definition read_store :: "(u64 \<times> string option \<times> u16 \<times> string \<times> byte \<times> byte \<times> byte list) field" where
  "read_store bs =
     do { (i, bs) \<leftarrow> read_le64 bs;
          ((slen, src), bs) \<leftarrow> read_counted bs;
          (smid, bs) \<leftarrow> read_be16 bs;
          (mid, bs) \<leftarrow> read_be16 bs;
          (topic, bs) \<leftarrow> read_named bs;
          (qos, bs) \<leftarrow> read_u8 bs;
          (retain, bs) \<leftarrow> read_u8 bs;
          (n, bs) \<leftarrow> read_be32 bs;
          (pl, bs) \<leftarrow> read_e (unat n) bs;
          Some ((i, if slen = 0 then None else Some src, smid, topic, qos, retain, pl), bs) }"

definition db_msg_store_chunk_restore :: "byte list \<Rightarrow> restoring \<Rightarrow> restored" where
  "db_msg_store_chunk_restore =
     then_restore read_store (\<lambda>(i, src, smid, topic, qos, retain, pl).
       db_msg_store_restore i src smid topic (unat qos) (retain \<noteq> 0) pl)"

definition read_client_msg :: "(string \<times> u64 \<times> u16 \<times> byte \<times> byte \<times> byte \<times> byte \<times> byte) field" where
  "read_client_msg bs =
     do { (cid, bs) \<leftarrow> read_named bs;
          (i, bs) \<leftarrow> read_le64 bs;
          (mid, bs) \<leftarrow> read_be16 bs;
          (qos, bs) \<leftarrow> read_u8 bs;
          (retain, bs) \<leftarrow> read_u8 bs;
          (dir, bs) \<leftarrow> read_u8 bs;
          (st, bs) \<leftarrow> read_u8 bs;
          (dup, bs) \<leftarrow> read_u8 bs;
          Some ((cid, i, mid, qos, retain, dir, st, dup), bs) }"

definition db_client_msg_chunk_restore :: "(db \<Rightarrow> ctx_ref) \<Rightarrow> byte list \<Rightarrow> restoring \<Rightarrow> restored" where
  "db_client_msg_chunk_restore alloc =
     then_restore read_client_msg (\<lambda>(cid, i, mid, qos, retain, dir, st, dup) x.
       case (decode_direction dir, decode_state st) of
         (Some dir', Some st') \<Rightarrow> db_client_msg_restore alloc cid mid (unat qos) (retain \<noteq> 0) dir' st' (dup \<noteq> 0) i x
       | _ \<Rightarrow> crash x)"

definition db_retain_chunk_restore :: "byte list \<Rightarrow> restoring \<Rightarrow> restored" where
  "db_retain_chunk_restore = then_restore read_le64 db_retain_restore"

definition read_sub :: "(string \<times> string \<times> byte) field" where
  "read_sub bs =
     do { ((n, cid), bs) \<leftarrow> read_counted bs;
          ((m, topic), bs) \<leftarrow> read_counted bs;
          (qos, bs) \<leftarrow> read_u8 bs;
          Some ((cid, topic, qos), bs) }"

definition db_sub_chunk_restore :: "(db \<Rightarrow> ctx_ref) \<Rightarrow> byte list \<Rightarrow> restoring \<Rightarrow> restored" where
  "db_sub_chunk_restore alloc = then_restore read_sub (\<lambda>(cid, topic, qos). db_sub_restore alloc cid topic (unat qos))"

definition read_client :: "u32 \<Rightarrow> int \<Rightarrow> (string \<times> u16 \<times> int) field" where
  "read_client version clock bs =
     do { (cid, bs) \<leftarrow> read_named bs;
          (mid, bs) \<leftarrow> read_be16 bs;
          (t, bs) \<leftarrow> (if version = 2 then Some (clock, bs) else read_time bs);
          Some ((cid, mid, t), bs) }"

definition db_client_chunk_restore :: "(db \<Rightarrow> ctx_ref) \<Rightarrow> u32 \<Rightarrow> byte list \<Rightarrow> restoring \<Rightarrow> restored" where
  "db_client_chunk_restore alloc version bs x =
     then_restore (read_client version (wall (glob (snd x)))) (\<lambda>(cid, mid, t). db_client_restore alloc cid mid t) bs x"

subsection \<open>The whole file\<close>

text \<open>A chunk with an unknown tag is skipped with \<^verbatim>\<open>fseek\<close>, which may go beyond the end.\<close>

definition restore_chunk :: "(db \<Rightarrow> ctx_ref) \<Rightarrow> u32 \<Rightarrow> u16 \<Rightarrow> u32 \<Rightarrow> byte list \<Rightarrow> restoring \<Rightarrow> restored" where
  "restore_chunk alloc version tag len bs x =
     (if tag = DB_CHUNK_CFG then cfg_chunk_restore bs x
      else if tag = DB_CHUNK_MSG_STORE then db_msg_store_chunk_restore bs x
      else if tag = DB_CHUNK_CLIENT_MSG then db_client_msg_chunk_restore alloc bs x
      else if tag = DB_CHUNK_RETAIN then db_retain_chunk_restore bs x
      else if tag = DB_CHUNK_SUB then db_sub_chunk_restore alloc bs x
      else if tag = DB_CHUNK_CLIENT then db_client_chunk_restore alloc version bs x
      else ((0, x), drop (unat len) bs))"

text \<open>A reader only goes forward.\<close>

definition shrinks :: "'a field \<Rightarrow> bool" where
  "shrinks rd \<longleftrightarrow> (\<forall>bs v bs'. rd bs = Some (v, bs') \<longrightarrow> length bs' \<le> length bs)"

lemma shrinks_read_e [simp]: "shrinks (read_e n)"
  by (simp add: shrinks_def read_e_def)

lemma shrinks_Some [simp]: "shrinks (\<lambda>bs. Some (v, bs))"
  by (simp add: shrinks_def)

lemma shrinks_None [simp]: "shrinks (\<lambda>bs. None)"
  by (simp add: shrinks_def)

lemma shrinks_bind [intro]:
  assumes "shrinks rd" and "\<And>v. shrinks (k v)"
  shows "shrinks (\<lambda>bs. do { (v, bs') \<leftarrow> rd bs; k v bs' })"
  using assms unfolding shrinks_def by (fastforce split: Option.bind_splits)

lemma shrinks_if [intro]: "shrinks f \<Longrightarrow> shrinks g \<Longrightarrow> shrinks (\<lambda>bs. if c then f bs else g bs)"
  by (cases c) simp_all

lemma shrinks_pair [intro]: "(\<And>a b. shrinks (f a b)) \<Longrightarrow> shrinks (case_prod f v)"
  by (cases v) simp

lemma shrinks_fields [simp, intro]:
  "shrinks read_u8" "shrinks read_be16" "shrinks read_be32" "shrinks read_le64" 
  unfolding read_u8_def read_be16_def read_be32_def read_le64_def by (rule shrinks_bind; simp)+

lemma shrinks_strings [simp, intro]: "shrinks read_time" "shrinks read_counted" "shrinks read_named"
proof -
  show "shrinks read_time" unfolding read_time_def by (rule shrinks_bind) simp_all
  show c: "shrinks read_counted" unfolding read_counted_def by (intro shrinks_bind) simp_all
  show "shrinks read_named" unfolding read_named_def using c by (intro shrinks_bind) auto
qed

lemma shrinks_chunks [simp]:
  "shrinks read_cfg" "shrinks read_store" "shrinks read_client_msg" "shrinks read_sub" "shrinks (read_client v t)"
  unfolding read_cfg_def read_store_def read_client_msg_def read_sub_def read_client_def
  by (rule shrinks_bind shrinks_pair shrinks_if shrinks_fields shrinks_strings shrinks_Some shrinks_None shrinks_read_e)+

lemma then_restore_shorter: "shrinks rd \<Longrightarrow> length (snd (then_restore rd act bs x)) \<le> length bs"
  by (auto simp: then_restore_def shrinks_def split: option.splits)

lemma restore_chunk_shorter: "length (snd (restore_chunk alloc v tag len bs x)) \<le> length bs"
  by (simp add: restore_chunk_def cfg_chunk_restore_def db_msg_store_chunk_restore_def db_client_msg_chunk_restore_def
      db_retain_chunk_restore_def db_sub_chunk_restore_def db_client_chunk_restore_def then_restore_shorter)

lemma read_be16_forward: "read_be16 bs = Some (w, bs') \<Longrightarrow> length bs' < length bs"
  by (auto simp: read_be16_def read_e_def split: if_splits)

lemma restore_forward:
  assumes "read_be16 bs = Some (tag, bs1)" and "read_be32 bs1 = Some (len, bs2)"
    and "restore_chunk alloc v tag len bs2 x = (y, bs3)"
  shows "length bs3 < length bs"
proof -
  have "length bs1 < length bs" using assms(1) by (rule read_be16_forward)
  moreover have "length bs2 \<le> length bs1" using assms(2) shrinks_fields(3) unfolding shrinks_def by blast
  moreover have "length bs3 \<le> length bs2" using assms(3) restore_chunk_shorter [of alloc v tag len bs2 x] by simp
  ultimately show ?thesis by simp
qed

text \<open>
  The loop of \<^verbatim>\<open>mqtt3_db_restore\<close>. Less than the two bytes of a tag at the end are the end of the file.
\<close>

function restore_loop :: "(db \<Rightarrow> ctx_ref) \<Rightarrow> u32 \<Rightarrow> byte list \<Rightarrow> restoring \<Rightarrow> rc \<times> restoring" where
  "restore_loop alloc version bs x =
     (case read_be16 bs of
        None \<Rightarrow> (0, x)
      | Some (tag, bs1) \<Rightarrow>
          (case read_be32 bs1 of
             None \<Rightarrow> (1, x)
           | Some (len, bs2) \<Rightarrow>
               (case restore_chunk alloc version tag len bs2 x of
                  ((rc, x1), bs3) \<Rightarrow> if rc \<noteq> 0 then (1, x1) else restore_loop alloc version bs3 x1)))"
  by pat_completeness auto

termination
  by (relation "measure (\<lambda>(alloc, version, bs, x). length bs)") (auto intro: restore_forward [OF _ _ sym])

declare restore_loop.simps [simp del]

definition mqtt3_db_restore :: "(db \<Rightarrow> ctx_ref) \<Rightarrow> byte list option \<Rightarrow> db \<Rightarrow> rc \<times> db" where
  "mqtt3_db_restore alloc file d =
     (case file of
        None \<Rightarrow> (MOSQ_ERR_SUCCESS, d)
      | Some bs \<Rightarrow>
          (case read_e 15 bs of
             None \<Rightarrow> (1, d)
           | Some (header, bs1) \<Rightarrow>
               if header \<noteq> magic then (1, d)
               else
                 (case do { (crc, bs2) \<leftarrow> read_e 4 bs1; read_be32 bs2 } of
                    None \<Rightarrow> (1, d)
                  | Some (version, bs3) \<Rightarrow>
                      if 3 < version \<and> version \<noteq> 0 \<and> version \<noteq> 2 then (1, d)
                      else (case restore_loop alloc version bs3 ([], d) of (rc, loads, e) \<Rightarrow> (rc, e)))))"

text \<open>The start of the broker, \<^verbatim>\<open>mqtt3_db_open\<close> with the restoring at its end.\<close>

definition db_open_restored :: "(db \<Rightarrow> ctx_ref) \<Rightarrow> string option \<Rightarrow> files \<Rightarrow> db \<Rightarrow> rc \<times> db" where
  "db_open_restored alloc filepath fs d =
     (case mqtt3_db_open d of
        (rc, d1) \<Rightarrow>
          (case filepath of
             Some path \<Rightarrow>
               if persistence (cfg d1) then
                 (case mqtt3_db_restore alloc (fs path) d1 of (rc2, d2) \<Rightarrow> (if rc2 \<noteq> 0 then 1 else rc, d2))
               else (rc, d1)
           | None \<Rightarrow> (rc, d1)))"
subsection \<open>What is written is read back\<close>

lemma of_le_Cons: "of_le (b # bs) = ucast b OR push_bit 8 (of_le bs)"
  by (simp add: of_le_def)

lemma of_le_slices:
  fixes w :: "'a::len word"
  shows "of_le (map (\<lambda>i. ucast (drop_bit (8 * i) w)) [m..<m + k]) = take_bit (8 * k) (drop_bit (8 * m) w)"
proof (induction k arbitrary: m)
  case 0
  show ?case by (simp add: of_le_def)
next
  case (Suc k)
  have "[m..<m + Suc k] = m # [Suc m..<Suc m + k]" by (simp add: upt_conv_Cons)
  then have "of_le (map (\<lambda>i. ucast (drop_bit (8 * i) w) :: byte) [m..<m + Suc k])
    = (ucast (ucast (drop_bit (8 * m) w) :: byte) OR push_bit 8 (take_bit (8 * k) (drop_bit (8 * Suc m) w)) :: 'a word)"
    using Suc.IH [of "Suc m"] by (simp add: of_le_Cons)
  also have "\<dots> = take_bit (8 * Suc k) (drop_bit (8 * m) w)"
  proof (rule bit_word_eqI)
    fix n assume "n < LENGTH('a)"
    then show "bit (ucast (ucast (drop_bit (8 * m) w) :: byte) OR push_bit 8 (take_bit (8 * k) (drop_bit (8 * Suc m) w)) :: 'a word) n
      = bit (take_bit (8 * Suc k) (drop_bit (8 * m) w)) n"
      by (cases "n < 8") (auto simp: bit_simps algebra_simps dest: bit_imp_le_length)
  qed
  finally show ?case .
qed

lemma be32_le: "rev (be32 w) = map (\<lambda>i. ucast (drop_bit (8 * i) w)) [0..<0 + 4]"
  by (simp add: be32_def upt_rec)

lemma le64_le: "le64 w = map (\<lambda>i. ucast (drop_bit (8 * i) w)) [0..<0 + 8]"
  by (simp add: le64_def upt_rec)

lemma of_be32 [codec_simps]: "of_le (rev (be32 w)) = w"
  unfolding be32_le of_le_slices by (rule bit_word_eqI) (simp add: bit_simps)

lemma of_le64 [codec_simps]: "of_le (le64 w) = w"
  unfolding le64_le of_le_slices by (rule bit_word_eqI) (simp add: bit_simps)

lemma of_uint16_bytes [codec_simps]: "of_le (rev (uint16_bytes w)) = w"
  unfolding uint16_bytes_def of_le_def by (rule bit_word_eqI) (auto simp: bit_simps mosq_bytes_bits)

lemma field_lengths [simp]: "length (be32 w) = 4" "length (le64 v) = 8" "length (uint16_bytes u) = 2"
  by (simp_all add: be32_def le64_def uint16_bytes_def)

lemma read_e_append [simp]: "length bs = n \<Longrightarrow> read_e n (bs @ cs) = Some (bs, cs)"
  by (auto simp: read_e_def)

text \<open>The contract of one kind of field: its reader undoes its writer and leaves what follows.\<close>

locale file_field =
  fixes enc :: "'a \<Rightarrow> byte list" and rd :: "'a field" and carries :: "'a \<Rightarrow> bool"
  assumes rd_enc: "carries x \<Longrightarrow> rd (enc x @ bs) = Some (x, bs)"
begin

lemma read_on: "carries x \<Longrightarrow> Option.bind (rd (enc x @ bs)) f = f (x, bs)"
  by (simp add: rd_enc)

lemma read_last: "carries x \<Longrightarrow> rd (enc x) = Some (x, [])"
  using rd_enc [of x "[]"] by simp

lemma enc_inj: "carries x \<Longrightarrow> carries y \<Longrightarrow> enc x @ bs = enc y @ cs \<Longrightarrow> x = y \<and> bs = cs"
  by (metis rd_enc option.inject prod.inject)

end

interpretation u8_field: file_field "\<lambda>b. [b]" read_u8 "\<lambda>_. True"
  by unfold_locales (simp add: read_u8_def read_e_def)

interpretation be16_field: file_field uint16_bytes read_be16 "\<lambda>_. True"
  by unfold_locales (simp add: read_be16_def of_uint16_bytes)

interpretation be32_field: file_field be32 read_be32 "\<lambda>_. True"
  by unfold_locales (simp add: read_be32_def of_be32)

interpretation le64_field: file_field le64 read_le64 "\<lambda>_. True"
  by unfold_locales (simp add: read_le64_def of_le64)

definition time_ok :: "int \<Rightarrow> bool" where
  "time_ok t \<longleftrightarrow> - (2 ^ 63) \<le> t \<and> t < 2 ^ 63"

interpretation time_field: file_field "\<lambda>t. le64 (word_of_int t)" read_time time_ok
proof unfold_locales
  fix t bs assume "time_ok t"
  then have "sint (word_of_int t :: u64) = t" by (simp add: time_ok_def signed_of_int signed_take_bit_int_eq_self)
  then show "read_time (le64 (word_of_int t) @ bs) = Some (t, bs)"
    by (simp add: read_time_def le64_field.rd_enc)
qed

lemma len16_packable: "packable s \<Longrightarrow> unat (len16 s) = length s"
  by (simp add: len16_def packable_length)

lemma counted_packable: "packable s \<Longrightarrow> concat (counted_string s) = enc_string s"
  by (simp add: counted_string_def enc_string_def len16_packable) (simp add: len16_def)

lemma in_full_packable: "concat (in_full s) = enc_string s"
  by (simp add: in_full_def enc_string_def len16_def)

interpretation counted_field: file_field "\<lambda>(n, s). enc_string s" read_counted "\<lambda>(n, s). packable s \<and> n = len16 s"
proof unfold_locales
  fix x :: "u16 \<times> string" and bs
  assume x: "case x of (n, s) \<Rightarrow> packable s \<and> n = len16 s"
  obtain n s where v: "x = (n, s)" by (cases x)
  have "read_be16 (enc_string s @ bs) = Some (len16 s, bytes_of s @ bs)"
    by (simp add: enc_string_def be16_field.rd_enc flip: len16_def)
  moreover have "read_e (unat (len16 s)) (bytes_of s @ bs) = Some (bytes_of s, bs)"
    using x v by (simp add: len16_packable)
  ultimately show "read_counted ((case x of (n, s) \<Rightarrow> enc_string s) @ bs) = Some (x, bs)"
    using x v by (simp add: read_counted_def packable_def)
qed

lemma len16_0: "packable s \<Longrightarrow> len16 s = 0 \<longleftrightarrow> s = []"
  by (metis len16_packable length_0_conv unat_eq_zero)

interpretation named_field: file_field enc_string read_named "\<lambda>s. packable s \<and> s \<noteq> []"
proof unfold_locales
  fix s bs assume s: "packable s \<and> s \<noteq> []"
  then have "read_counted (enc_string s @ bs) = Some ((len16 s, s), bs)"
    using counted_field.rd_enc [of "(len16 s, s)" bs] by simp
  then show "read_named (enc_string s @ bs) = Some (s, bs)"
    using s by (simp add: read_named_def len16_0)
qed

lemmas read_back = u8_field.read_on be16_field.read_on be32_field.read_on le64_field.read_on
  time_field.read_on u8_field.rd_enc be16_field.rd_enc be32_field.rd_enc le64_field.rd_enc
  time_field.rd_enc
subsection \<open>The chunks of a broker\<close>

text \<open>What fits into the fields of a chunk.\<close>

fun chunk_ok :: "chunk \<Rightarrow> bool" where
  "chunk_ok (CfgChunk sh n) \<longleftrightarrow> True"
| "chunk_ok (StoreChunk i src smid mid t q r p) \<longleftrightarrow>
     packable src \<and> packable t \<and> t \<noteq> [] \<and> q < 256 \<and> length p < 2 ^ 32"
| "chunk_ok (ClientMsgChunk cid i mid q r dir st dup) \<longleftrightarrow> packable cid \<and> cid \<noteq> [] \<and> q < 256"
| "chunk_ok (RetainChunk i) \<longleftrightarrow> True"
| "chunk_ok (SubChunk cid t q) \<longleftrightarrow> packable cid \<and> packable t \<and> q < 256"
| "chunk_ok (ClientChunk cid m t) \<longleftrightarrow> packable cid \<and> cid \<noteq> [] \<and> time_ok t"

definition chunk_bytes :: "chunk \<Rightarrow> byte list" where
  "chunk_bytes ch = concat (chunk_fields ch)"

definition chunks_bytes :: "chunk list \<Rightarrow> byte list" where
  "chunks_bytes chs = concat (map chunk_bytes chs)"

lemma chunks_bytes_simps [simp]:
  "chunks_bytes [] = []" "chunks_bytes (ch # chs) = chunk_bytes ch @ chunks_bytes chs"
  "chunks_bytes (as @ bs) = chunks_bytes as @ chunks_bytes bs"
  by (simp_all add: chunks_bytes_def)

fun apply_chunk :: "(db \<Rightarrow> ctx_ref) \<Rightarrow> chunk \<Rightarrow> restoring \<Rightarrow> rc \<times> restoring" where
  "apply_chunk alloc (CfgChunk sh n) x = (0, fst x, (snd x)\<lparr>last_db_id := n\<rparr>)"
| "apply_chunk alloc (StoreChunk i src smid mid t q r p) x =
     db_msg_store_restore i (if src = [] then None else Some src) smid t q r p x"
| "apply_chunk alloc (ClientMsgChunk cid i mid q r dir st dup) x = db_client_msg_restore alloc cid mid q r dir st dup i x"
| "apply_chunk alloc (RetainChunk i) x = db_retain_restore i x"
| "apply_chunk alloc (SubChunk cid t q) x = db_sub_restore alloc cid t q x"
| "apply_chunk alloc (ClientChunk cid m t) x = db_client_restore alloc cid m t x"

fun apply_chunks :: "(db \<Rightarrow> ctx_ref) \<Rightarrow> chunk list \<Rightarrow> restoring \<Rightarrow> rc \<times> restoring" where
  "apply_chunks alloc [] x = (0, x)"
| "apply_chunks alloc (ch # chs) x =
     (case apply_chunk alloc ch x of (rc, x1) \<Rightarrow> if rc \<noteq> 0 then (1, x1) else apply_chunks alloc chs x1)"

lemma unat_small: "q < 256 \<Longrightarrow> unat (word_of_nat q :: byte) = q"
  by (simp add: unat_of_nat take_bit_nat_eq_self)

lemma unat_length: "length p < 2 ^ 32 \<Longrightarrow> unat (word_of_nat (length p) :: u32) = length p"
  by (simp add: unat_of_nat take_bit_nat_eq_self)

lemma flag_byte_nonzero [simp]: "flag_byte b = 0 \<longleftrightarrow> \<not> b"
  by (simp add: flag_byte_def)

lemma decode_direction_code [codec_simps]: "decode_direction (word_of_nat (direction_code dir)) = Some dir"
  by (cases dir) (simp_all add: decode_direction_def direction_code_def)

lemma decode_state_code [codec_simps]: "decode_state (word_of_nat (msg_state_code st)) = Some st"
  by (cases st) (simp_all add: decode_state_def msg_states_def)

lemma read_counted_back:
  "packable s \<Longrightarrow> Option.bind (read_counted (enc_string s @ bs)) f = f ((len16 s, s), bs)"
  using counted_field.read_on [of "(len16 s, s)" bs f] by simp

lemma read_named_back: "packable s \<Longrightarrow> s \<noteq> [] \<Longrightarrow> Option.bind (read_named (enc_string s @ bs)) f = f (s, bs)"
  using named_field.read_on [of s bs f] by simp

lemma read_e_back: "length bs = n \<Longrightarrow> Option.bind (read_e n (bs @ cs)) f = f (bs, cs)"
  by simp

lemma Cons_append: "b # bs = [b] @ bs"
  by simp

text \<open>Reading back each kind of chunk.\<close>

lemma read_cfg_back: "read_cfg (concat (chunk_body (CfgChunk sh n)) @ bs) = Some ((flag_byte sh, n), bs)"
  using u8_field.rd_enc [of "flag_byte sh"] u8_field.rd_enc [of 8] by (simp add: read_cfg_def cfg_body_def le64_field.rd_enc)

lemma read_store_back:
  assumes "chunk_ok (StoreChunk i src smid mid t q r p)"
  shows "read_store (concat (chunk_body (StoreChunk i src smid mid t q r p)) @ bs) =
    Some ((i, if src = [] then None else Some src, smid, t, word_of_nat q, flag_byte r, p), bs)"
proof -
  have "concat (chunk_body (StoreChunk i src smid mid t q r p)) @ bs = le64 i @ enc_string src @ uint16_bytes smid @
      uint16_bytes mid @ enc_string t @ [word_of_nat q] @ [flag_byte r] @ be32 (word_of_nat (length p)) @ p @ bs"
    using assms by (simp add: body_defs counted_packable)
  moreover have "packable src" "packable t" "t \<noteq> []" "length p < 2 ^ 32" using assms by simp_all
  ultimately show ?thesis unfolding read_store_def
    by (simp only: read_back read_named_back simp_thms read_counted_back read_e_back prod.case unat_length len16_0 bind.bind_lunit)
qed

lemma read_client_msg_back:
  assumes "chunk_ok (ClientMsgChunk cid i mid q r dir st dup)"
  shows "read_client_msg (concat (chunk_body (ClientMsgChunk cid i mid q r dir st dup)) @ bs) =
    Some ((cid, i, mid, word_of_nat q, flag_byte r, word_of_nat (direction_code dir),
      word_of_nat (msg_state_code st), flag_byte dup), bs)"
proof -
  have "concat (chunk_body (ClientMsgChunk cid i mid q r dir st dup)) @ bs = enc_string cid @ le64 i @ uint16_bytes mid @
      [word_of_nat q] @ [flag_byte r] @ [word_of_nat (direction_code dir)] @ [word_of_nat (msg_state_code st)] @
      [flag_byte dup] @ bs"
    using assms by (simp add: body_defs counted_packable)
  moreover have "packable cid" "cid \<noteq> []" using assms by simp_all
  ultimately show ?thesis unfolding read_client_msg_def by (simp only: read_back read_named_back simp_thms prod.case bind.bind_lunit)
qed

lemma read_sub_back:
  assumes "chunk_ok (SubChunk cid t q)"
  shows "read_sub (concat (chunk_body (SubChunk cid t q)) @ bs) = Some ((cid, t, word_of_nat q), bs)"
proof -
  have "concat (chunk_body (SubChunk cid t q)) @ bs = enc_string cid @ enc_string t @ [word_of_nat q] @ bs"
    by (simp add: body_defs in_full_packable)
  moreover have "packable cid" "packable t" using assms by simp_all
  ultimately show ?thesis unfolding read_sub_def by (simp only: read_back read_named_back simp_thms read_counted_back prod.case bind.bind_lunit)
qed

lemma read_client_back:
  assumes "chunk_ok (ClientChunk cid m t)"
  shows "read_client 3 clock (concat (chunk_body (ClientChunk cid m t)) @ bs) = Some ((cid, m, t), bs)"
proof -
  have "concat (chunk_body (ClientChunk cid m t)) @ bs = enc_string cid @ uint16_bytes m @ le64 (word_of_int t) @ bs"
    using assms by (simp add: body_defs counted_packable)
  moreover have "packable cid" "cid \<noteq> []" "time_ok t" "(3 :: u32) \<noteq> 2" using assms by simp_all
  ultimately show ?thesis unfolding read_client_def
    by (simp only: read_back read_named_back simp_thms prod.case bind.bind_lunit if_False)
qed

lemma restore_chunk_back:
  assumes "chunk_ok ch"
  shows "restore_chunk alloc 3 (chunk_tag ch) len (concat (chunk_body ch) @ bs) x = (apply_chunk alloc ch x, bs)"
proof (cases ch)
  case (CfgChunk sh n)
  then show ?thesis
    by (cases x) (simp add: restore_chunk_def cfg_chunk_restore_def then_restore_def read_cfg_back del: chunk_body.simps)
next
  case (StoreChunk i src smid mid t q r p)
  then show ?thesis using assms
    by (simp add: restore_chunk_def db_msg_store_chunk_restore_def then_restore_def read_store_back unat_small del: chunk_body.simps)
next
  case (ClientMsgChunk cid i mid q r dir st dup)
  then show ?thesis using assms
    by (simp add: restore_chunk_def db_client_msg_chunk_restore_def then_restore_def read_client_msg_back unat_small codec_simps
        del: chunk_body.simps)
next
  case (RetainChunk i)
  then show ?thesis
    by (simp add: restore_chunk_def db_retain_chunk_restore_def then_restore_def retain_body_def le64_field.rd_enc)
next
  case (SubChunk cid t q)
  then show ?thesis using assms
    by (simp add: restore_chunk_def db_sub_chunk_restore_def then_restore_def read_sub_back unat_small del: chunk_body.simps)
next
  case (ClientChunk cid m t)
  then show ?thesis using assms
    by (simp add: restore_chunk_def db_client_chunk_restore_def then_restore_def read_client_back del: chunk_body.simps)
qed

lemma restore_loop_back:
  "\<forall>ch \<in> set chs. chunk_ok ch \<Longrightarrow> restore_loop alloc 3 (chunks_bytes chs) x = apply_chunks alloc chs x"
proof (induction chs arbitrary: x)
  case Nil
  show ?case by (simp add: restore_loop.simps read_be16_def read_e_def)
next
  case (Cons ch chs)
  obtain rc y where a: "apply_chunk alloc ch x = (rc, y)" by (rule prod.exhaust)
  have "chunks_bytes (ch # chs) = uint16_bytes (chunk_tag ch) @ be32 (word_of_nat (chunk_length ch)) @
      concat (chunk_body ch) @ chunks_bytes chs"
    by (simp add: chunk_bytes_def chunk_fields_def)
  then show ?case
    using Cons restore_chunk_back [of ch alloc "word_of_nat (chunk_length ch)" "chunks_bytes chs" x] a
    by (subst restore_loop.simps) (simp add: be16_field.rd_enc be32_field.rd_enc)
qed

text \<open>A file with the header of the current version.\<close>

definition file_bytes :: "chunk list \<Rightarrow> byte list" where
  "file_bytes chs = concat header_fields @ chunks_bytes chs"

lemma magic_length: "length magic = 15"
  by (simp add: magic_def)

lemma restore_file:
  assumes "\<forall>ch \<in> set chs. chunk_ok ch"
  shows "mqtt3_db_restore alloc (Some (file_bytes chs)) d =
    (case apply_chunks alloc chs ([], d) of (rc, loads, e) \<Rightarrow> (rc, e))"
proof -
  have "file_bytes chs = magic @ be32 0 @ be32 3 @ chunks_bytes chs"
    by (simp add: file_bytes_def header_fields_def)
  then show ?thesis using restore_loop_back [OF assms]
    by (simp add: mqtt3_db_restore_def magic_length be32_field.rd_enc)
qed
subsection \<open>What the writers put into the file\<close>

lemma flushed_le: "flushed g n \<le> n"
  by (induction n) auto

lemma flushed_mono: "m \<le> n \<Longrightarrow> flushed g m \<le> flushed g n"
  by (induction n) (auto simp: le_Suc_eq)

lemma flushed_honest: "mono g \<Longrightarrow> (\<And>n. g n \<le> n) \<Longrightarrow> flushed g n = g n"
proof (induction n)
  case 0
  then show ?case by (metis flushed.simps(1) le_zero_eq)
next
  case (Suc n)
  then show ?case using monoD [of g n "Suc n"] Suc.prems(2) [of "Suc n"] by simp
qed

definition puts :: "byte list \<Rightarrow> outfile \<Rightarrow> outfile" where
  "puts bs f = snd (fwrite bs f)"

text \<open>Whether \<open>n\<close> more bytes can be written without a failure.\<close>

definition disk_takes :: "outfile \<Rightarrow> nat \<Rightarrow> bool" where
  "disk_takes f n \<longleftrightarrow> n = 0 \<or> \<not> out_failed f \<and> flushed (out_flush f) (length (out_bytes f) + n) \<le> out_room f"

lemma puts_Nil [simp]: "puts [] f = f"
  by (simp add: puts_def fwrite_def)

lemma disk_takes_0 [simp]: "disk_takes f 0"
  by (simp add: disk_takes_def)

lemma puts_fits: "disk_takes f (length bs) \<Longrightarrow> puts bs f = f\<lparr>out_bytes := out_bytes f @ bs\<rparr>"
  by (auto simp: puts_def fwrite_def disk_takes_def Let_def)

lemma puts_fails: "\<not> disk_takes f (length bs) \<Longrightarrow>
    puts bs f = (if out_failed f then f else f\<lparr>out_bytes := take (out_room f) (out_bytes f @ bs), out_failed := True\<rparr>)"
  by (auto simp: puts_def fwrite_def disk_takes_def Let_def)

lemma disk_takes_add: "disk_takes f (a + b) \<Longrightarrow> disk_takes f a"
  using flushed_mono [of "length (out_bytes f) + a" "length (out_bytes f) + (a + b)" "out_flush f"] by (auto simp: disk_takes_def)

lemma disk_takes_puts [simp]: "disk_takes f (length a) \<Longrightarrow> disk_takes (puts a f) n = disk_takes f (length a + n)"
  by (auto simp: puts_fits) (auto simp: disk_takes_def add.assoc)

lemma puts_full: "\<not> disk_takes f (length a) \<Longrightarrow> puts (a @ b) f = puts a f"
proof -
  assume a: "\<not> disk_takes f (length a)"
  then have ab: "\<not> disk_takes f (length (a @ b))" using disk_takes_add [of f "length a" "length b"] by auto
  show ?thesis
  proof (cases "out_failed f")
    case False
    then have "out_room f < length (out_bytes f) + length a"
      using a flushed_le [of "out_flush f" "length (out_bytes f) + length a"] by (simp add: disk_takes_def)
    then show ?thesis using puts_fails [OF a] puts_fails [OF ab] by simp
  qed (use puts_fails [OF a] puts_fails [OF ab] in simp)
qed

lemma puts_failed: "out_failed f \<Longrightarrow> puts bs f = f"
  by (simp add: puts_def fwrite_def Let_def)

lemma puts_puts [simp]: "puts b (puts a f) = puts (a @ b) f"
proof (cases "disk_takes f (length a)")
  case True
  note a = puts_fits [OF True]
  show ?thesis
  proof (cases "disk_takes f (length (a @ b))")
    case ab: True
    then have "disk_takes (puts a f) (length b)" using True by simp
    then show ?thesis using puts_fits [OF ab] a by (simp add: puts_fits)
  next
    case ab: False
    then have b: "\<not> disk_takes (puts a f) (length b)" using True by simp
    show ?thesis
    proof (cases "out_failed f")
      case True
      then show ?thesis by (simp add: puts_failed)
    next
      case False
      then show ?thesis using puts_fails [OF ab] puts_fails [OF b] a by simp
    qed
  qed
next
  case False
  then have "out_failed (puts a f)" by (simp add: puts_fails)
  then show ?thesis using puts_full [OF False] by (simp add: puts_failed)
qed

lemma fwrite_puts: "fwrite bs f = (disk_takes f (length bs), puts bs f)"
  by (auto simp: puts_def fwrite_def disk_takes_def Let_def)

lemma write_fields_puts:
  "write_fields fs f = (if disk_takes f (length (concat fs)) then 0 else 1, puts (concat fs) f)"
proof (induction fs arbitrary: f)
  case (Cons bs fs)
  then show ?case
    using disk_takes_add [of f "length bs" "length (concat fs)"]
    by (cases "disk_takes f (length bs)") (auto simp: fwrite_puts puts_full)
qed simp

text \<open>A writer puts these chunks into the file as far as there is room, and says whether there was.\<close>

definition writes :: "chunk list \<Rightarrow> (outfile \<Rightarrow> rc \<times> outfile) \<Rightarrow> bool" where
  "writes chs w \<longleftrightarrow> (\<forall>f. w f = (if disk_takes f (length (chunks_bytes chs)) then 0 else 1, puts (chunks_bytes chs) f))"

lemma writes_none [intro]: "writes [] (\<lambda>f. (0, f))"
  by (simp add: writes_def)

lemma writes_chunk [intro]: "writes [ch] (write_chunk ch)"
  by (simp add: writes_def write_chunk_def write_fields_puts chunk_bytes_def)

lemma writes_seq:
  assumes "writes as v" and "writes bs w"
  shows "writes (as @ bs) (\<lambda>f. case v f of (rc, f1) \<Rightarrow> if rc = 0 then w f1 else (1, f1))"
  using assms unfolding writes_def
  by (auto simp: puts_full fun_eq_iff dest: disk_takes_add)

lemma writes_list:
  "(\<And>x. x \<in> set xs \<Longrightarrow> writes (g x) (w x)) \<Longrightarrow> writes (concat (map g xs)) (write_list w xs)"
proof (induction xs)
  case (Cons x xs)
  then have "writes (g x @ concat (map g xs)) (\<lambda>f. case w x f of (rc, f1) \<Rightarrow> if rc = 0 then write_list w xs f1 else (1, f1))"
    by (intro writes_seq) auto
  moreover have "(\<lambda>f. case w x f of (rc, f1) \<Rightarrow> if rc = 0 then write_list w xs f1 else (1, f1)) = write_list w (x # xs)"
    by auto
  ultimately show ?case by simp
qed (auto simp: writes_def)

text \<open>The chunks of a broker, in the order of the file.\<close>

definition store_chunks :: "msg_store \<Rightarrow> chunk list" where
  "store_chunks m =
     (case ms_topic m of None \<Rightarrow> []
      | Some t \<Rightarrow> [StoreChunk (ms_db_id m) (ms_source_id m) (ms_source_mid m) (ms_mid m) t (ms_qos m)
            (ms_retain m \<and> \<not> is_sys t) (ms_payload m)])"

definition client_chunks :: "db \<Rightarrow> ctx \<Rightarrow> chunk list" where
  "client_chunks d c =
     (if clean_session c then []
      else case ctx_id c of None \<Rightarrow> []
      | Some cid \<Rightarrow> ClientChunk cid (last_mid c) (gone_since d c) # map (client_msg_chunk d cid) (msgs c))"

definition leaf_chunks :: "db \<Rightarrow> string \<Rightarrow> subleaf \<Rightarrow> chunk list" where
  "leaf_chunks d this l =
     (let c = ctx_of d (lf_context l)
      in if clean_session c then [] else case ctx_id c of None \<Rightarrow> [] | Some cid \<Rightarrow> [SubChunk cid this (lf_qos l)])"

definition retained_chunks :: "db \<Rightarrow> store_ref option \<Rightarrow> chunk list" where
  "retained_chunks d ret =
     (case ret of None \<Rightarrow> []
      | Some s \<Rightarrow>
          (case ms_topic (store_of d s) of None \<Rightarrow> []
           | Some t \<Rightarrow> if is_sys t then [] else [RetainChunk (ms_db_id (store_of d s))]))"

fun tree_chunks :: "db \<Rightarrow> string \<Rightarrow> subhier list \<Rightarrow> chunk list" where
  "tree_chunks d topic [] = []"
| "tree_chunks d topic (SubHier t ls ret ch # hs) =
     concat (map (leaf_chunks d (child_topic topic t)) ls) @ retained_chunks d ret @
     tree_chunks d (child_topic topic t) ch @ tree_chunks d topic hs"

definition all_store_chunks :: "db \<Rightarrow> chunk list" where
  "all_store_chunks d = concat (map (\<lambda>(s, m). store_chunks m) (msg_store d))"

definition all_client_chunks :: "db \<Rightarrow> chunk list" where
  "all_client_chunks d = concat (map (\<lambda>(i, r). client_chunks d (ctx_of d r)) (rev (contexts_by_id d)))"

definition saved :: "bool \<Rightarrow> db \<Rightarrow> chunk list" where
  "saved shutdown d =
     CfgChunk shutdown (last_db_id d) # all_store_chunks d @ all_client_chunks d @ tree_chunks d [] (subs d)"

text \<open>Every string that is written is there: no null pointer is read.\<close>

fun tree_named :: "db \<Rightarrow> subhier list \<Rightarrow> bool" where
  "tree_named d [] \<longleftrightarrow> True"
| "tree_named d (SubHier t ls ret ch # hs) \<longleftrightarrow>
     (\<forall>l \<in> set ls. ctx_id (ctx_of d (lf_context l)) \<noteq> None) \<and>
     (\<forall>s. ret = Some s \<longrightarrow> ms_topic (store_of d s) \<noteq> None) \<and> tree_named d ch \<and> tree_named d hs"

definition all_named :: "db \<Rightarrow> bool" where
  "all_named d \<longleftrightarrow> (\<forall>(s, m) \<in> set (msg_store d). ms_topic m \<noteq> None) \<and>
     (\<forall>(i, r) \<in> set (contexts_by_id d). ctx_id (ctx_of d r) \<noteq> None) \<and> tree_named d (subs d)"

lemma store_writes: "ms_topic m \<noteq> None \<Longrightarrow> writes (store_chunks m) (store_write m)"
  by (auto simp: store_chunks_def store_write_def)

lemma client_msgs_write:
  "ctx_id c = Some cid \<Longrightarrow> writes (map (client_msg_chunk d cid) (msgs c)) (mqtt3_db_client_messages_write d c)"
  using writes_list [of "msgs c" "\<lambda>m. [client_msg_chunk d cid m]" "\<lambda>m. write_chunk (client_msg_chunk d cid m)"]
  by (auto simp: mqtt3_db_client_messages_write_def)

lemma client_writes:
  assumes "ctx_id c \<noteq> None"
  shows "writes (client_chunks d c) (client_write d c)"
proof (cases "clean_session c")
  case True
  then have "client_write d c = (\<lambda>f. (0, f))" by (auto simp: client_write_def)
  then show ?thesis using True by (auto simp: client_chunks_def)
next
  case False
  obtain cid where i: "ctx_id c = Some cid" using assms by auto
  have "writes ([ClientChunk cid (last_mid c) (gone_since d c)] @ map (client_msg_chunk d cid) (msgs c))
    (\<lambda>f. case write_chunk (ClientChunk cid (last_mid c) (gone_since d c)) f of
       (rc, f1) \<Rightarrow> if rc = 0 then mqtt3_db_client_messages_write d c f1 else (1, f1))"
    by (intro writes_seq writes_chunk client_msgs_write i)
  moreover have "(\<lambda>f. case write_chunk (ClientChunk cid (last_mid c) (gone_since d c)) f of
       (rc, f1) \<Rightarrow> if rc = 0 then mqtt3_db_client_messages_write d c f1 else (1, f1)) = client_write d c"
    using False i by (auto simp: client_write_def)
  ultimately show ?thesis using False i by (simp add: client_chunks_def)
qed

lemma leaf_writes: "ctx_id (ctx_of d (lf_context l)) \<noteq> None \<Longrightarrow> writes (leaf_chunks d this l) (leaf_write d this l)"
  by (auto simp: leaf_chunks_def leaf_write_def Let_def writes_def write_chunk_def write_fields_puts chunk_bytes_def)

lemma retained_writes:
  "\<forall>s. ret = Some s \<longrightarrow> ms_topic (store_of d s) \<noteq> None \<Longrightarrow> writes (retained_chunks d ret) (retained_write d ret)"
  by (auto simp: retained_chunks_def retained_write_def writes_def write_chunk_def write_fields_puts chunk_bytes_def
      split: option.splits)

lemma tree_writes: "tree_named d hs \<Longrightarrow> db_subs_retain_write d topic hs f = puts (chunks_bytes (tree_chunks d topic hs)) f"
proof (induction d topic hs f rule: db_subs_retain_write.induct)
  case (2 d topic t ls ret ch hs f)
  let ?own = "child_topic topic t" and ?a = "concat (map (leaf_chunks d (child_topic topic t)) ls)"
  have ls: "writes ?a (write_list (leaf_write d ?own) ls)" using 2(3) by (intro writes_list leaf_writes) auto
  have ret: "writes (retained_chunks d ret) (retained_write d ret)" using 2(3) by (intro retained_writes) auto
  define node where "node f = (case write_list (leaf_write d ?own) ls f of
          (rc, f1) \<Rightarrow> if rc = 0 then (case retained_write d ret f1 of
                 (rc2, f2) \<Rightarrow> if rc2 = 0 then db_subs_retain_write d ?own ch f2 else f2) else f1)" for f
  have "node f = puts (chunks_bytes (?a @ retained_chunks d ret @ tree_chunks d ?own ch)) f"
  proof (cases "disk_takes f (length (chunks_bytes ?a))")
    case False
    then show ?thesis using ls by (simp add: node_def writes_def puts_full)
  next
    case True
    then have l: "write_list (leaf_write d ?own) ls f = (0, puts (chunks_bytes ?a) f)" using ls by (simp add: writes_def)
    show ?thesis
    proof (cases "disk_takes f (length (chunks_bytes (?a @ retained_chunks d ret)))")
      case False
      then show ?thesis using l ret puts_full [of f "chunks_bytes (?a @ retained_chunks d ret)"] True
        by (auto simp: node_def writes_def)
    next
      case room: True
      then show ?thesis using l ret 2(1) [OF l [symmetric]] 2(3) True
        by (auto simp: node_def writes_def)
    qed
  qed
  then show ?case using 2(2) 2(3) unfolding node_def by simp
qed simp
subsection \<open>The outcome of a backup\<close>

lemma saved_parts:
  "chunks_bytes (saved sh d) = chunk_bytes (CfgChunk sh (last_db_id d)) @ chunks_bytes (all_store_chunks d) @
     chunks_bytes (all_client_chunks d) @ chunks_bytes (tree_chunks d [] (subs d))"
  by (simp add: saved_def)

lemma write_database_puts:
  fixes sh :: bool
  assumes "all_named d"
  defines "part \<equiv> file_bytes (CfgChunk sh (last_db_id d) # all_store_chunks d)"
  shows "write_database sh d f =
    (if disk_takes f (length part) then 0 else 1, puts (file_bytes (saved sh d)) f)"
proof -
  let ?h = "concat header_fields @ chunk_bytes (CfgChunk sh (last_db_id d))"
  have head: "write_fields (header_fields @ chunk_fields (CfgChunk sh (last_db_id d))) f =
      (if disk_takes f (length ?h) then 0 else 1, puts ?h f)"
    by (simp add: write_fields_puts chunk_bytes_def)
  have stores: "writes (all_store_chunks d) (mqtt3_db_message_store_write d)"
    unfolding all_store_chunks_def mqtt3_db_message_store_write_def
    using assms(1) by (intro writes_list) (auto simp: all_named_def intro: store_writes)
  have clients: "writes (all_client_chunks d) (mqtt3_db_client_write d)"
    unfolding all_client_chunks_def mqtt3_db_client_write_def
    using assms(1) by (intro writes_list) (auto simp: all_named_def intro: client_writes)
  have tree: "mqtt3_db_subs_retain_write d g = puts (chunks_bytes (tree_chunks d [] (subs d))) g" for g
    using assms(1) by (simp add: mqtt3_db_subs_retain_write_def tree_writes all_named_def)
  have part: "part = ?h @ chunks_bytes (all_store_chunks d)" by (simp add: part_def file_bytes_def)
  have all: "file_bytes (saved sh d) = part @ chunks_bytes (all_client_chunks d) @ chunks_bytes (tree_chunks d [] (subs d))"
    by (simp add: part file_bytes_def saved_parts)
  show ?thesis
  proof (cases "disk_takes f (length ?h)")
    case False
    then have "\<not> disk_takes f (length part)" using disk_takes_add [of f "length ?h" "length (chunks_bytes (all_store_chunks d))"] by (auto simp: part add.assoc)
    then show ?thesis using head False puts_full [of f ?h]
      by (simp add: write_database_def all part del: append_assoc) (simp add: append_assoc)
  next
    case True
    then have h: "write_fields (header_fields @ chunk_fields (CfgChunk sh (last_db_id d))) f = (0, puts ?h f)"
      using head by simp
    show ?thesis
    proof (cases "disk_takes f (length part)")
      case False
      then have "mqtt3_db_message_store_write d (puts ?h f) = (1, puts part f)"
        using stores True by (auto simp: writes_def part add.assoc)
      then show ?thesis using h False puts_full [OF False] by (simp add: write_database_def all)
    next
      case room: True
      then have "mqtt3_db_message_store_write d (puts ?h f) = (0, puts part f)"
        using stores True by (auto simp: writes_def part add.assoc)
      then show ?thesis using h room clients tree by (simp add: write_database_def all writes_def)
    qed
  qed
qed

lemma closed_puts:
  assumes "\<not> out_failed f" and "out_bytes f = []"
  shows "closed_file (puts bs f) = take (out_room f) bs"
  using assms by (cases "disk_takes f (length bs)") (simp_all add: closed_file_def puts_fits puts_fails)

lemma out_fault_puts: "out_fault (puts bs f) = out_fault f"
  by (simp add: puts_def fwrite_def Let_def)


subsection \<open>Under which topic a subscription is saved\<close>

definition path_topic :: "path \<Rightarrow> string" where
  "path_topic p = foldl child_topic [] p"

definition lasting_leaf :: "db \<Rightarrow> string \<Rightarrow> nat \<Rightarrow> subleaf \<Rightarrow> bool" where
  "lasting_leaf d cid q l \<longleftrightarrow> \<not> clean_session (ctx_of d (lf_context l)) \<and>
     ctx_id (ctx_of d (lf_context l)) = Some cid \<and> q = lf_qos l"

lemma leaf_chunks_iff: "SubChunk cid t q \<in> set (leaf_chunks d this l) \<longleftrightarrow> lasting_leaf d cid q l \<and> t = this"
  by (auto simp: leaf_chunks_def lasting_leaf_def Let_def split: option.splits)

lemma retained_chunks_iff: "SubChunk cid t q \<notin> set (retained_chunks d ret)"
  by (auto simp: retained_chunks_def split: option.splits)

lemma tree_chunks_iff:
  assumes "wf_tree hs"
  shows "SubChunk cid t q \<in> set (tree_chunks d topic hs) \<longleftrightarrow>
    (\<exists>p l. l \<in> set (leaves_of (info_at p hs)) \<and> lasting_leaf d cid q l \<and> t = foldl child_topic topic p)"
  using assms
proof (induction d topic hs rule: tree_chunks.induct)
  case (1 d topic)
  show ?case by simp
next
  case (2 d topic u ls ret ch hs)
  have wf: "u \<notin> sh_topic ` set hs" "wf_tree ch" "wf_tree hs" using 2(3) by auto
  have here: "(\<exists>p l. l \<in> set (leaves_of (info_at p (SubHier u ls ret ch # hs))) \<and> R p l) \<longleftrightarrow>
      (\<exists>l \<in> set ls. R [u] l) \<or> (\<exists>p l. l \<in> set (leaves_of (info_at p ch)) \<and> R (u # p) l) \<or>
      (\<exists>p l. l \<in> set (leaves_of (info_at p hs)) \<and> R p l)" (is "?L \<longleftrightarrow> ?A \<or> ?B \<or> ?C") for R
  proof
    assume ?L
    then obtain p l where p: "l \<in> set (leaves_of (info_at p (SubHier u ls ret ch # hs)))" "R p l" by blast
    then obtain v vs where v: "p = v # vs" by (cases p) auto
    show "?A \<or> ?B \<or> ?C" using p unfolding v by (cases "v = u"; cases "vs = []") (auto simp: info_at_Cons)
  next
    assume abc: "?A \<or> ?B \<or> ?C"
    have c: "info_at p (SubHier u ls ret ch # hs) = info_at p hs" if "l \<in> set (leaves_of (info_at p hs))" for p l
      using that info_at_absent [OF wf(1)] by (cases p) (auto simp: info_at_Cons)
    have "leaves_of (info_at (u # p) (SubHier u ls ret ch # hs)) = leaves_of (info_at p ch)"
      if "l \<in> set (leaves_of (info_at p ch))" for p l
      using that by (cases p) (auto simp: info_at_Cons)
    moreover have "leaves_of (info_at [u] (SubHier u ls ret ch # hs)) = ls" by (simp add: info_at_Cons)
    ultimately show ?L using abc c by metis
  qed
  have "SubChunk cid t q \<in> set (tree_chunks d topic (SubHier u ls ret ch # hs)) \<longleftrightarrow>
      (\<exists>l \<in> set ls. lasting_leaf d cid q l \<and> t = child_topic topic u) \<or>
      SubChunk cid t q \<in> set (tree_chunks d (child_topic topic u) ch) \<or> SubChunk cid t q \<in> set (tree_chunks d topic hs)"
    by (auto simp: leaf_chunks_iff retained_chunks_iff)
  then show ?case using 2(1) [OF wf(2)] 2(2) [OF wf(3)] by (simp add: here)
qed

fun join_levels :: "string list \<Rightarrow> string" where
  "join_levels [] = []"
| "join_levels [l] = l"
| "join_levels (l # ls) = l @ ''/'' @ join_levels ls"

lemma join_levels: "join_levels (levels s) = s"
proof (induction s)
  case (Cons c s)
  then show ?case by (cases "levels s" rule: join_levels.cases) (auto split: list.splits)
qed simp

lemma foldl_child_topic: "a \<noteq> [] \<Longrightarrow> foldl child_topic a ls = (if ls = [] then a else a @ ''/'' @ join_levels ls)"
proof (induction ls arbitrary: a)
  case (Cons l ls)
  have "foldl child_topic a (l # ls) = foldl child_topic (a @ ''/'' @ l) ls"
    using Cons.prems by (simp add: child_topic_def)
  also have "\<dots> = (if ls = [] then a @ ''/'' @ l else (a @ ''/'' @ l) @ ''/'' @ join_levels ls)"
    by (rule Cons.IH) simp
  finally show ?case by (cases ls) simp_all
qed simp

lemma path_topic_levels: "path_topic (levels s) = dropWhile (\<lambda>c. c = CHR ''/'') s"
proof (induction s)
  case (Cons c s)
  show ?case
  proof (cases "c = CHR ''/''")
    case True
    then show ?thesis using Cons by (simp add: path_topic_def child_topic_def)
  next
    case False
    obtain l ls where l: "levels s = l # ls" "levels (c # s) = (c # l) # ls" by (rule levels_Cons_other [OF False])
    have "path_topic (levels (c # s)) = foldl child_topic (c # l) ls"
      unfolding l path_topic_def by (simp add: child_topic_def)
    also have "\<dots> = join_levels (levels (c # s))"
      unfolding l foldl_child_topic [of "c # l" ls, simplified] by (cases ls) simp_all
    finally show ?thesis using False by (simp only: join_levels) simp
  qed
qed (simp add: path_topic_def child_topic_def)

definition saved_filter :: "string \<Rightarrow> string" where
  "saved_filter f =
     (if take 1 f = ''$'' then hd (levels f) @ ''/'' @ f else dropWhile (\<lambda>c. c = CHR ''/'') f)"

lemma path_topic_sub_path: "path_topic (sub_path f) = saved_filter f"
proof (cases "take 1 f = ''$''")
  case True
  obtain l where l: "hd (levels f) = CHR ''$'' # l" using hd_levels_dollar [OF True] by blast
  have "path_topic (sub_path f) = foldl child_topic (hd (levels f)) (levels f)"
    using True by (simp add: path_topic_def sub_path_def tokenise_levels child_topic_def)
  also have "\<dots> = hd (levels f) @ ''/'' @ f" using l by (simp add: foldl_child_topic join_levels)
  finally show ?thesis using True by (simp add: saved_filter_def)
next
  case False
  then show ?thesis
    using path_topic_levels [of f] by (simp add: path_topic_def sub_path_def tokenise_levels child_topic_def saved_filter_def)
qed

lemma saved_filter_same: "saved_filter f = f \<longleftrightarrow> take 1 f \<noteq> ''$'' \<and> take 1 f \<noteq> ''/''"
proof -
  have "dropWhile (\<lambda>c. c = CHR ''/'') s \<noteq> CHR ''/'' # s" for s
    using length_dropWhile_le [of "\<lambda>c. c = CHR ''/''" s] by (metis length_Cons not_less_eq_eq order_refl)
  then show ?thesis by (cases f) (auto simp: saved_filter_def)
qed

text \<open>
  C39. What \<^verbatim>\<open>mqtt3_db_subs_retain_write\<close> adds to a file that takes it: the chunks of the tree, of which those of
  subscriptions are the subscriptions of the lasting sessions and no others, each with the client's id, its QoS and the
  topic that \<^verbatim>\<open>_db_subs_retain_write\<close> puts together on its way down the tree. A chunk is its number, its length,
  and the two strings, each after its length, and the QoS. For the subscription \<open>g\<close> the topic is \<open>g\<close>
  itself, but for two kinds: leading slashes are lost, and the first level of a
  \<^verbatim>\<open>$\<close>-subscription is there twice, so that after a restart the client is subscribed to something else.
\<close>

theorem subscriptions_saved:
  assumes "wf_tree (subs d)" and "tree_named d (subs d)"
  defines "chs \<equiv> tree_chunks d [] (subs d)"
  assumes "disk_takes f (length (chunks_bytes chs))"
  shows "out_bytes (mqtt3_db_subs_retain_write d f) = out_bytes f @ concat (map chunk_bytes chs) \<and>
    (SubChunk cid t q \<in> set chs \<longleftrightarrow>
      (\<exists>p l. l \<in> set (leaves_at p d) \<and> lasting_leaf d cid q l \<and> t = path_topic p)) \<and>
    chunk_bytes (SubChunk cid t q) = [0, 5] @ be32 (word_of_nat (length cid + length t + 5)) @
      uint16_bytes (word_of_nat (length cid)) @ bytes_of cid @ uint16_bytes (word_of_nat (length t)) @ bytes_of t @ [word_of_nat q] \<and>
    path_topic (sub_path g) = saved_filter g \<and>
    (saved_filter g = g \<longleftrightarrow> take 1 g \<noteq> ''$'' \<and> take 1 g \<noteq> ''/'')"
proof (intro conjI)
  show "out_bytes (mqtt3_db_subs_retain_write d f) = out_bytes f @ concat (map chunk_bytes chs)"
    using tree_writes [OF assms(2), of "[]" f] puts_fits [OF assms(4)]
    by (simp add: mqtt3_db_subs_retain_write_def chs_def chunks_bytes_def)
  show "SubChunk cid t q \<in> set chs \<longleftrightarrow> (\<exists>p l. l \<in> set (leaves_at p d) \<and> lasting_leaf d cid q l \<and> t = path_topic p)"
    using tree_chunks_iff [OF assms(1), of cid t q d "[]"] by (simp add: chs_def path_topic_def leaves_at_info)
  have five: "uint16_bytes 5 = [0, 5]" by (simp add: uint16_bytes_def mosq_msb_def mosq_lsb_def)
  have n: "2 + length cid + (2 + length t) + 1 = length cid + length t + 5" by simp
  show "chunk_bytes (SubChunk cid t q) = [0, 5] @ be32 (word_of_nat (length cid + length t + 5)) @
      uint16_bytes (word_of_nat (length cid)) @ bytes_of cid @ uint16_bytes (word_of_nat (length t)) @ bytes_of t @ [word_of_nat q]"
    unfolding chunk_bytes_def chunk_fields_def chunk_tag.simps chunk_length.simps n five
    by (simp add: sub_body_def in_full_def len16_def)
qed (rule path_topic_sub_path saved_filter_same)+

end
