(* ===== verification/Restore.thy ===== *)
theory Restore
  imports Persist Loop
begin

text \<open>
  What a restart does: the broker that \<^verbatim>\<open>mqtt3_db_restore\<close> builds from the file of
  \<^verbatim>\<open>mqtt3_db_backup\<close> has the sessions, the subscriptions and the retained messages of the old one.
  The restoring does not count the queues of the clients; the invariants of the other theories hold
  for the broker with the counters set right, which \<open>recounted\<close> does.
\<close>

subsection \<open>The counters of the queues\<close>

definition recount :: "ctx \<Rightarrow> ctx" where
  "recount c = c\<lparr>msg_count := int (length (msgs c)), msg_count12 := int (pos_qos (keys c))\<rparr>"

definition recounted :: "db \<Rightarrow> db" where
  "recounted d = d\<lparr>contexts := (\<lambda>r. map_option recount (contexts d r))\<rparr>"

lemma recount_simps [simp]:
  "msgs (recount c) = msgs c" "keys (recount c) = keys c" "last_msg (recount c) = last_msg c" "ctx_id (recount c) = ctx_id c"
  "ctx_subs (recount c) = ctx_subs c" "state (recount c) = state c" "clean_session (recount c) = clean_session c"
  "msg_count (recount c) = int (length (msgs c))" "msg_count12 (recount c) = int (pos_qos (keys c))"
  "protocol (recount c) = protocol c"
  by (simp_all add: recount_def keys_def)

lemma recount_upd [simp]:
  "recount (c\<lparr>ctx_subs := x\<rparr>) = (recount c)\<lparr>ctx_subs := x\<rparr>" "recount (c\<lparr>last_mid := m\<rparr>) = (recount c)\<lparr>last_mid := m\<rparr>"
  "recount (c\<lparr>disconnect_t := t\<rparr>) = (recount c)\<lparr>disconnect_t := t\<rparr>"
  "recount (c\<lparr>ctx_id := i, clean_session := b\<rparr>) = (recount c)\<lparr>ctx_id := i, clean_session := b\<rparr>"
  by (simp_all add: recount_def keys_def)

lemma recounted_simps [simp]:
  "glob (recounted d) = glob d" "subs (recounted d) = subs d" "msg_store (recounted d) = msg_store d"
  "contexts_by_id (recounted d) = contexts_by_id d" "cfg (recounted d) = cfg d"
  "dom (contexts (recounted d)) = dom (contexts d)" "ctx_live (recounted d) r = ctx_live d r"
  "leaves_at p (recounted d) = leaves_at p d" "store_of (recounted d) s = store_of d s"
  "store_live (recounted d) s = store_live d s" "subscription_count (recounted d) = subscription_count d"
  by (auto simp: recounted_def ctx_live_def leaves_at_def store_of_def store_live_def dom_def)

lemma recount_zero: "recount ctx_zero = ctx_zero"
  by (simp add: recount_def keys_def ctx_zero_def pos_qos_def)

lemma ctx_of_recounted [simp]: "ctx_of (recounted d) r = recount (ctx_of d r)"
  by (simp add: ctx_of_def recounted_def recount_zero split: option.splits)

lemma recounted_put: "recounted (put_ctx r c d) = put_ctx r (recount c) (recounted d)"
  by (rule db.equality) (auto simp: recounted_def put_ctx_def)

lemma recounted_upd_ctx: "(\<And>c. recount (f c) = f (recount c)) \<Longrightarrow> recounted (upd_ctx r f d) = upd_ctx r f (recounted d)"
  by (simp add: upd_ctx_def recounted_put)

lemma recounted_subs:
  "recounted (d\<lparr>subs := x\<rparr>) = (recounted d)\<lparr>subs := x\<rparr>"
  "recounted (d\<lparr>subscription_count := n\<rparr>) = (recounted d)\<lparr>subscription_count := n\<rparr>"
  by (simp_all add: recounted_def)

lemma recounted_sub_add: "mqtt3_sub_add r f q (recounted d) = (fst (mqtt3_sub_add r f q d), recounted (snd (mqtt3_sub_add r f q d)))"
proof -
  have p: "prepared f (recounted d) = recounted (prepared f d)" by (simp add: prepared_def recounted_subs)
  have "sub_add_leaf (Some r) q p (recounted e) = (fst (sub_add_leaf (Some r) q p e), recounted (snd (sub_add_leaf (Some r) q p e)))" for p e
    by (simp add: sub_add_leaf_def upd_node_def recounted_subs recounted_upd_ctx split: option.splits)
  then show ?thesis unfolding sub_add_prepared p by (simp add: case_prod_beta)
qed

text \<open>The invariant of the broker but for the counters.\<close>

definition restorable :: "db \<Rightarrow> bool" where
  "restorable d \<longleftrightarrow> broker_inv (\<lambda>s. 0) (recounted d)"

subsection \<open>Setting a retained message\<close>

definition with_contexts :: "(ctx_ref \<Rightarrow> ctx option) \<Rightarrow> db \<Rightarrow> db" where
  "with_contexts cs d = d\<lparr>contexts := cs\<rparr>"

lemma with_contexts_simps [simp]:
  "subs (with_contexts cs d) = subs d" "msg_store (with_contexts cs d) = msg_store d" "glob (with_contexts cs d) = glob d"
  "store_of (with_contexts cs d) s = store_of d s" "store_live (with_contexts cs d) s = store_live d s"
  "contexts (with_contexts cs d) = cs"
  by (simp_all add: with_contexts_def store_of_def store_live_def)

lemma recounted_with: "recounted d = with_contexts (contexts (recounted d)) d"
  by (simp add: recounted_def with_contexts_def)

lemma deref_with: "msg_store_deref s (with_contexts cs d) = (fst (msg_store_deref s d), with_contexts cs (snd (msg_store_deref s d)))"
  by (simp add: msg_store_deref_def Let_def store_of_def store_live_def)
    (simp add: with_contexts_def upd_store_def set_fault_def msg_store_remove_def)

lemma retain_at_with: "retain_at p topic s (with_contexts cs d) = with_contexts cs (retain_at p topic s d)"
proof -
  have r: "release_retained p (with_contexts cs e) = with_contexts cs (release_retained p e)" for e
    by (simp add: release_retained_def deref_with case_prod_beta split: option.splits)
      (simp add: with_contexts_def upd_node_def)
  have t: "take_retained p s (with_contexts cs e) = with_contexts cs (take_retained p s e)" for e
    by (simp add: take_retained_def) (simp add: with_contexts_def upd_node_def upd_store_def)
  have u: "(with_contexts cs e)\<lparr>persistence_changes := n\<rparr> = with_contexts cs (e\<lparr>persistence_changes := n\<rparr>)" for e n
    by (simp add: with_contexts_def)
  have "persistence_changes (with_contexts cs e) = persistence_changes e" for e by (simp add: with_contexts_def)
  then show ?thesis by (simp add: retain_at_def r t u)
qed

lemma queue_start_with: "queue_start topic b s (with_contexts cs d) = with_contexts cs (queue_start topic b s d)"
  by (simp add: queue_start_def hold_stored_def store_live_def) (simp add: with_contexts_def upd_store_def set_fault_def)
lemma retain_loop_once:
  "distinct ts \<Longrightarrow> retain_loop ts tokens topic retain s d =
     (if hd tokens \<in> set ts then
        (let d1 = (if retain then snd (sub_add None 0 (hd tokens # tokens) d) else d)
         in search_tree (retain_only topic retain s) [hd tokens] tokens True
              (case node_at [hd tokens] (subs d1) of Some h \<Rightarrow> sh_children h | None \<Rightarrow> []) d1)
      else d)"
proof (induction ts arbitrary: d)
  case (Cons t ts)
  then show ?case by (cases "t = hd tokens") (auto simp: Let_def)
qed simp

text \<open>A fold that acts on one of its elements only.\<close>

lemma fold_once:
  assumes "distinct (map fst vs)" and "(p, ls, True) \<in> set vs" and "\<And>q l b. (q, l, b) \<in> set vs \<Longrightarrow> b \<longleftrightarrow> q = p"
  shows "fold (\<lambda>(q, l, b). retain_only topic True s q l b) vs d = retain_at p topic s d"
proof -
  have none: "fold (\<lambda>(q, l, b). retain_only topic True s q l b) us e = e" if "\<forall>(q, l, b) \<in> set us. \<not> b" for us e
    using that by (induction us arbitrary: e) (auto simp: retain_only_def)
  show ?thesis using assms
  proof (induction vs arbitrary: d)
    case (Cons v vs)
    obtain q l b where v: "v = (q, l, b)" by (cases v) auto
    have rest: "\<And>q l b. (q, l, b) \<in> set vs \<Longrightarrow> b \<longleftrightarrow> q = p" using Cons.prems(3) by auto
    show ?case
    proof (cases "q = p")
      case True
      then have "b" using Cons.prems(3) v by auto
      have "\<forall>(q, l, b) \<in> set vs. \<not> b" using rest Cons.prems(1) True v by (force simp: image_iff)
      moreover have "retain_only topic True s p l b d = retain_at p topic s d" using \<open>b\<close> by (simp add: retain_only_def)
      ultimately show ?thesis using none [of vs] True by (simp add: v)
    next
      case False
      then have "\<not> b" using Cons.prems(3) v by auto
      then show ?thesis using Cons.IH [OF _ _ rest] Cons.prems(1,2) v False by (simp add: retain_only_def)
    qed
  qed simp
qed

lemma null_queue:
  assumes "wf_tree (subs d)" and "has_child (hd (sub_topic_tokenise topic)) (subs d)" and "wildcard_free topic"
  shows "messages_queue_null topic True s d =
    msg_store_deref s (retain_at (sub_path topic) topic s (queue_start topic True s d))"
proof -
  let ?tt = "sub_topic_tokenise topic" and ?d = "queue_start topic True s d"
  obtain t ts where tt: "?tt = t # ts" using tokenise_not_Nil by (cases ?tt) auto
  have free: "''#'' \<notin> set ?tt" "''+'' \<notin> set ?tt" using wildcard_free_tokens assms(3) by auto
  then have wf: "wf_tree (subs ?d)"
    using assms(1) by (auto simp: queue_start_def sub_path_def tt intro!: wf_ensure hash_last_no_hash)
  have "node_at (sub_path topic) (subs ?d) \<noteq> None" by (simp add: queue_start_def ensure_present sub_path_def)
  then obtain ls ret where node: "info_at (t # ?tt) (subs ?d) = Some (ls, ret)"
    using node_at_absent [of "sub_path topic" "subs ?d"] by (auto simp: sub_path_def tt)
  have "has_child t (subs ?d)" by (simp add: has_child_iff queue_start_def sub_path_def tt topics_ensure)
  then have "node_at [t] (subs ?d) \<noteq> None" by (simp add: node_at_child)
  then obtain h where h: "node_at [t] (subs ?d) = Some h" by auto
  let ?vs = "visits [t] ?tt True (sh_children h)"
  have vs: "(q, l, b) \<in> set ?vs \<longleftrightarrow>
      (\<exists>r ret. q = [t] @ r \<and> info_at r (sh_children h) = Some (l, ret) \<and> mqtt_match r ?tt \<and> b = (True \<and> r = ?tt))" for q l b
    by (rule visits_iff [OF wf_node_at [OF wf h] free])
  have "fold (\<lambda>(q, l, b). retain_only topic True s q l b) ?vs ?d = retain_at (sub_path topic) topic s ?d"
  proof (rule fold_once)
    show "distinct (map fst ?vs)" by (rule visits_distinct) (rule wf_node_at [OF wf h])
    have "info_at ?tt (sh_children h) = Some (ls, ret)" using node info_at_child [OF h, of ?tt] by (simp add: tt)
    moreover have "mqtt_match ?tt ?tt" using free by (induction ?tt ?tt rule: mqtt_match.induct) auto
    ultimately show "(sub_path topic, ls, True) \<in> set ?vs" unfolding vs by (auto simp: sub_path_def tt)
    show "b \<longleftrightarrow> q = sub_path topic" if "(q, l, b) \<in> set ?vs" for q l b
      using that unfolding vs by (auto simp: sub_path_def tt)
  qed
  then show ?thesis
    unfolding messages_queue_null_def Let_def
    apply (subst retain_loop_once)
    using assms(1,2) wf_tree_distinct h
    by (simp_all add: has_child_iff sub_add_None queue_start_def sub_path_def tt search_tree_fold)
qed
lemma upd_store_twice: "upd_store s f (upd_store s g d) = upd_store s (\<lambda>m. f (g m)) d"
  by (simp add: upd_store_def comp_def case_prod_beta if_distrib cong: if_cong)

lemma upd_store_same: "msg_store d = msg_store e \<Longrightarrow> msg_store (upd_store s f d) = msg_store (upd_store s f e)"
  by (simp add: upd_store_def)

definition one_more :: "msg_store \<Rightarrow> msg_store" where
  "one_more m = m\<lparr>ms_ref_count := ms_ref_count m + 1\<rparr>"

lemma restorable_counts: "restorable d \<Longrightarrow> store_live d s \<Longrightarrow> 0 \<le> ms_ref_count (store_of d s)"
proof -
  assume a: "restorable d" and live: "store_live d s"
  obtain m where m: "(s, m) \<in> set (msg_store d)" using live by (auto simp: store_live_def)
  have c: "counts_ok (\<lambda>s. int (total_refs (recounted d) s) + 0) (recounted d)"
    using a by (simp add: restorable_def broker_inv_def msgs_inv_def store_inv_def)
  then have "store_of d s = m" using m store_of_member [of "recounted d" s m] by (simp add: counts_ok_def)
  then show ?thesis using c m by (auto simp: counts_ok_def)
qed

lemma restorable_linked: "restorable d \<Longrightarrow> linked d"
  by (simp add: restorable_def broker_inv_def linked_def)

lemma restorable_tree: "restorable d \<Longrightarrow> wf_tree (subs d)"
  using restorable_linked by (simp add: linked_def)

text \<open>A first retained message for a topic.\<close>

lemma null_queue_step:
  assumes inv: "restorable d" and root: "has_child (hd (sub_topic_tokenise topic)) (subs d)" and free: "wildcard_free topic"
    and live: "store_live d s" and pl: "ms_payload (store_of d s) \<noteq> []"
    and first: "\<And>ls r. info_at (sub_path topic) (subs d) \<noteq> Some (ls, Some r)"
  obtains e where "messages_queue_null topic True s d = (Some s, e)" and "restorable e"
    and "contexts e = contexts d" and "contexts_by_id e = contexts_by_id d" and "glob e = glob d"
    and "msg_store e = msg_store (upd_store s one_more d)"
    and "subs e = update_at (sub_path topic) (set_retained (Some s)) (ensure_path (sub_path topic) (subs d))"
proof -
  let ?p = "sub_path topic"
  define q where "q = queue_start topic True s d"
  define a where "a = retain_at ?p topic s q"
  define e where "e = snd (msg_store_deref s a)"
  have q: "msg_store q = msg_store (upd_store s one_more d)" "subs q = ensure_path ?p (subs d)" "contexts q = contexts d"
    "contexts_by_id q = contexts_by_id d" "glob q = glob d"
    using live by (simp_all add: q_def queue_start_def hold_stored_def one_more_def [abs_def]) (simp add: upd_store_def)
  have "store_of q s = one_more (store_of d s)" using store_of_cong [OF q(1)] live by (simp add: store_of_upd_store)
  then have qpl: "ms_payload (store_of q s) \<noteq> []" using pl by (simp add: one_more_def)
  obtain h where h: "node_at ?p (subs q) = Some h"
    using ensure_present [of ?p "subs d"] by (auto simp: q sub_path_def)
  have "sh_retained h = None"
  proof (cases "info_at ?p (subs d)")
    case (Some x)
    then have "info_at ?p (subs q) = Some x" by (simp add: q info_at_ensure)
    then show ?thesis using h first Some by (cases x; cases "snd x") (auto simp: info_at_def)
  next
    case None
    then have "info_at ?p (subs q) = Some ([], None)" by (simp add: q info_at_ensure sub_path_def)
    then show ?thesis using h by (simp add: info_at_def)
  qed
  then have rel: "release_retained ?p f = f" if "subs f = subs q" for f
    using h that by (simp add: release_retained_def)
  have a: "msg_store a = msg_store (upd_store s one_more q)" "subs a = update_at ?p (set_retained (Some s)) (subs q)"
    "contexts a = contexts q" "contexts_by_id a = contexts_by_id q" "glob a = glob q"
    using qpl by (auto simp: a_def retain_at_def rel take_retained_def upd_store_def upd_node_def one_more_def store_of_def)
  have twice: "msg_store a = msg_store (upd_store s (\<lambda>m. one_more (one_more m)) d)"
    using a(1) upd_store_same [OF q(1), of s one_more] by (simp only: upd_store_twice)
  have "store_live a s" using store_live_cong [OF twice] live by simp
  have "store_of a s = one_more (one_more (store_of d s))" using store_of_cong [OF twice] live by (simp add: store_of_upd_store)
  then have "ms_ref_count (store_of a s) - 1 \<noteq> 0" using restorable_counts [OF inv live] by (simp add: one_more_def)
  then have "msg_store_deref s a = (Some s, upd_store s (\<lambda>m. m\<lparr>ms_ref_count := ms_ref_count m - 1\<rparr>) a)"
    using \<open>store_live a s\<close> by (simp add: msg_store_deref_def store_of_upd_store)
  then have e: "msg_store_deref s a = (Some s, e)" "e = upd_store s (\<lambda>m. m\<lparr>ms_ref_count := ms_ref_count m - 1\<rparr>) a"
    by (simp_all add: e_def)
  have es: "msg_store e = msg_store (upd_store s one_more d)"
  proof -
    have "msg_store e = msg_store (upd_store s (\<lambda>m. m\<lparr>ms_ref_count := ms_ref_count m - 1\<rparr>) (upd_store s (\<lambda>m. one_more (one_more m)) d))"
      unfolding e(2) by (rule upd_store_same [OF twice])
    moreover have "(\<lambda>m. (one_more (one_more m))\<lparr>ms_ref_count := ms_ref_count (one_more (one_more m)) - 1\<rparr>) = one_more"
      by (simp add: one_more_def fun_eq_iff)
    ultimately show ?thesis unfolding upd_store_twice by simp
  qed
  have ef: "subs e = update_at ?p (set_retained (Some s)) (ensure_path ?p (subs d))" "contexts e = contexts d"
    "contexts_by_id e = contexts_by_id d" "glob e = glob d"
    using a q by (simp_all add: e(2) upd_store_def)
  have wf: "wf_tree (subs d)" by (rule restorable_tree [OF inv])
  have "restorable e"
  proof -
    let ?C = "contexts (recounted d)"
    have inv': "msgs_inv (\<lambda>s. 0) (recounted d)" "linked (recounted d)" "topics_ok (recounted d)"
      using inv by (simp_all add: restorable_def broker_inv_def)
    have rd: "with_contexts ?C d = recounted d" by (rule recounted_with [symmetric])
    have "recounted e = with_contexts ?C e" by (simp add: recounted_def with_contexts_def ef)
    also have "\<dots> = snd (msg_store_deref s (with_contexts ?C a))" by (simp add: deref_with e(1))
    also have "with_contexts ?C a = retain_at ?p topic s (queue_start topic True s (with_contexts ?C d))"
      by (simp only: a_def q_def retain_at_with queue_start_with)
    also note rd
    finally have re: "recounted e = snd (msg_store_deref s (retain_at ?p topic s (queue_start topic True s (recounted d))))" .
    have "msgs_inv (held (\<lambda>s. 0) s) (queue_start topic True s (recounted d))"
      using queue_start_steady(1) [of "\<lambda>s. 0" "recounted d" s topic True] inv'(1) wf live free by (simp add: steady_def)
    then have "msgs_inv (held (\<lambda>s. 0) s) (retain_at ?p topic s (queue_start topic True s (recounted d)))"
      by (rule retain_at_step(1)) (use h q in \<open>auto simp: queue_start_def\<close>)
    then have "msgs_inv (\<lambda>s. 0) (recounted e)" unfolding re by (rule unhold_inv) simp
    moreover have "linked (recounted e)"
    proof -
      have "leaves_at p e = leaves_at p d" for p
        using same_shape_leaves [OF same_shape_retained, of p] by (simp add: leaves_at_info ef)
      moreover have "wf_tree (subs e)"
        using wf wildcard_free_tokens [OF free] tokenise_not_Nil [of topic]
        by (auto simp: ef sub_path_def intro!: wf_update_at wf_ensure hash_last_no_hash dest: hd_in_set)
      moreover have "ctx_of e = ctx_of d" by (simp add: ctx_of_def ef fun_eq_iff)
      ultimately show ?thesis using restorable_linked [OF inv] by (simp add: linked_def)
    qed
    moreover have "topics_ok (recounted e)"
      using inv'(3) by (auto simp: topics_ok_def es set_upd_store one_more_def split: if_splits)
    ultimately show ?thesis by (simp add: restorable_def broker_inv_def)
  qed
  moreover have "messages_queue_null topic True s d = (Some s, e)"
    using null_queue [OF wf root free] e(1) by (simp add: a_def q_def)
  ultimately show ?thesis using that [of e] ef es by blast
qed
subsection \<open>Restoring chunk by chunk\<close>

lemma apply_chunks_append:
  "apply_chunks alloc (as @ bs) x = (case apply_chunks alloc as x of (rc, y) \<Rightarrow> if rc \<noteq> 0 then (1, y) else apply_chunks alloc bs y)"
  by (induction as arbitrary: x) (auto split: prod.splits)

text \<open>A group of chunks for each element of a list: a property of what is done so far is carried along.\<close>

lemma apply_chunks_list:
  assumes "P [] x"
    and "\<And>done a rest y. xs = done @ a # rest \<Longrightarrow> P done y \<Longrightarrow> \<exists>z. apply_chunks alloc (g a) y = (0, z) \<and> P (done @ [a]) z"
  shows "\<exists>z. apply_chunks alloc (concat (map g xs)) x = (0, z) \<and> P xs z"
proof -
  have "\<exists>z. apply_chunks alloc (concat (map g us)) x = (0, z) \<and> P us z" if "xs = us @ vs" for us vs
    using that
  proof (induction us arbitrary: vs rule: rev_induct)
    case Nil
    then show ?case using assms(1) by simp
  next
    case (snoc u us)
    have "xs = us @ u # vs" using snoc.prems by simp
    then obtain y where y: "apply_chunks alloc (concat (map g us)) x = (0, y)" "P us y" using snoc.IH by blast
    then obtain z where "apply_chunks alloc (g u) y = (0, z)" "P (us @ [u]) z"
      using assms(2) [OF \<open>xs = us @ u # vs\<close>] by blast
    then show ?case using y(1) by (simp add: apply_chunks_append)
  qed
  then show ?thesis by (metis append.right_neutral)
qed

definition sane :: "db \<Rightarrow> bool" where
  "sane e \<longleftrightarrow> restorable e \<and> \<not> fault (glob e)"

text \<open>What a stored message is, without its references and what is not saved.\<close>

definition sys_topic :: "msg_store \<Rightarrow> bool" where
  "sys_topic m \<longleftrightarrow> (\<exists>t. ms_topic m = Some t \<and> is_sys t)"

definition content :: "msg_store \<Rightarrow> msg_store" where
  "content m = m\<lparr>ms_ref_count := 0, ms_dest_ids := [], ms_mid := 0, ms_retain := ms_retain m \<and> \<not> sys_topic m\<rparr>"

lemma content_one_more [simp]: "content (one_more m) = content m"
  by (simp add: content_def one_more_def sys_topic_def)

lemma content_fields:
  assumes "content m = content m'"
  shows "ms_topic m = ms_topic m'" and "ms_payload m = ms_payload m'" and "ms_db_id m = ms_db_id m'"
    and "(ms_retain m \<and> \<not> sys_topic m) = (ms_retain m' \<and> \<not> sys_topic m')"
  using assms by (cases m; cases m'; simp add: content_def)+

definition loaded :: "restoring \<Rightarrow> msg_store \<Rightarrow> bool" where
  "loaded x m \<longleftrightarrow> (\<exists>s. map_of (fst x) (ms_db_id m) = Some (Some s) \<and> store_live (snd x) s \<and>
     content (store_of (snd x) s) = content m)"

lemma loaded_keep:
  assumes "loaded (loads, d) m" and "\<And>s. store_live d s \<Longrightarrow> store_live e s \<and> content (store_of e s) = content (store_of d s)"
  shows "loaded (loads, e) m"
  using assms unfolding loaded_def by auto

lemma restorable_fresh: "restorable d \<Longrightarrow> store_live d s \<Longrightarrow> s < next_ptr (glob d)"
  by (fastforce simp: restorable_def broker_inv_def msgs_inv_def store_inv_def counts_ok_def store_live_def)

lemma store_step:
  assumes "sane e" and "ms_topic m = Some t" and "wildcard_free t" and "ms_db_id m \<noteq> 0"
  obtains e' s where "apply_chunks alloc (store_chunks m) (loads, e) = (0, (ms_db_id m, Some s) # loads, e')"
    and "sane e'" and "contexts e' = contexts e" and "subs e' = subs e" and "contexts_by_id e' = contexts_by_id e"
    and "store_live e' s" and "content (store_of e' s) = content m"
    and "\<And>q. store_live e q \<Longrightarrow> store_live e' q \<and> store_of e' q = store_of e q"
proof -
  let ?src = "if ms_source_id m = [] then None else Some (ms_source_id m)" and ?r = "ms_retain m \<and> \<not> is_sys t"
  obtain s e' where o: "mqtt3_db_message_store ?src (ms_source_mid m) (Some t) (ms_qos m) (ms_payload m) ?r (ms_db_id m) e = (s, e')"
    by (rule prod.exhaust)
  define m' where "m' = \<lparr>ms_db_id = ms_db_id m, ms_source_id = ms_source_id m, ms_dest_ids = [], ms_ref_count = 0,
      ms_topic = Some t, ms_payload = ms_payload m, ms_source_mid = ms_source_mid m, ms_mid = 0, ms_qos = ms_qos m, ms_retain = ?r\<rparr>"
  have f: "s = next_ptr (glob e)" "msg_store e' = (s, m') # msg_store e" "contexts e' = contexts e" "subs e' = subs e"
    "contexts_by_id e' = contexts_by_id e" "fault (glob e') = fault (glob e)"
    using o assms(4) by (auto simp: mqtt3_db_message_store_def fresh_ptr_def Let_def msg_store_add_def m'_def)
  have call: "mqtt3_db_message_store ?src (ms_source_mid m) (Some t) (ms_qos m) (ms_payload m) ?r (ms_db_id m) (recounted e) = (s, recounted e')"
    using o by (auto simp: mqtt3_db_message_store_def fresh_ptr_def Let_def msg_store_add_def recounted_def)
  have "restorable e'"
    unfolding restorable_def by (rule message_store_ok(1) [OF _ _ call]) (use assms(1,3) in \<open>simp_all add: sane_def restorable_def\<close>)
  moreover have "store_live e' q \<and> store_of e' q = store_of e q" if "store_live e q" for q
    using that restorable_fresh [of e q] assms(1) by (auto simp: f store_live_def store_of_def sane_def)
  moreover have "store_of e' s = m'" "store_live e' s" by (simp_all add: store_of_def store_live_def f)
  moreover have "content m' = content m"
    using assms(2) by (cases m) (simp add: m'_def content_def sys_topic_def)
  moreover have "apply_chunks alloc (store_chunks m) (loads, e) = (0, (ms_db_id m, Some s) # loads, e')"
    using assms(2) o arg_cong [OF \<open>store_of e' s = m'\<close>, of ms_db_id]
    by (simp add: store_chunks_def db_msg_store_restore_def) (simp add: m'_def)
  ultimately show ?thesis using that [of s e'] f assms(1) by (simp add: sane_def)
qed

lemma stores_restored:
  fixes ms :: "(store_ref \<times> msg_store) list"
  assumes "sane e" and "\<forall>(s, m) \<in> set ms. \<exists>t. ms_topic m = Some t \<and> wildcard_free t" and "\<forall>(s, m) \<in> set ms. ms_db_id m \<noteq> 0"
    and "distinct (map (\<lambda>(s, m). ms_db_id m) ms)"
  shows "\<exists>loads' e'. apply_chunks alloc (concat (map (\<lambda>(s, m). store_chunks m) ms)) (loads, e) = (0, loads', e') \<and>
    sane e' \<and> contexts e' = contexts e \<and> subs e' = subs e \<and> contexts_by_id e' = contexts_by_id e \<and>
    (\<forall>(s, m) \<in> set ms. loaded (loads', e') m)"
proof -
  define P where "P = (\<lambda>(dn :: (store_ref \<times> msg_store) list) (loads', e'). sane e' \<and> contexts e' = contexts e \<and> subs e' = subs e \<and>
    contexts_by_id e' = contexts_by_id e \<and> (\<forall>(s, m) \<in> set dn. loaded (loads', e') m))"
  have "\<exists>z. apply_chunks alloc (concat (map (\<lambda>(s, m). store_chunks m) ms)) (loads, e) = (0, z) \<and> P ms z"
  proof (rule apply_chunks_list)
    show "P [] (loads, e)" using assms(1) by (simp add: P_def)
    fix dn a rest y
    assume ms: "ms = dn @ a # rest" and P: "P dn y"
    obtain s0 m where a: "a = (s0, m)" by (cases a)
    obtain l f where y: "y = (l, f)" by (cases y)
    have m: "\<exists>t. ms_topic m = Some t \<and> wildcard_free t" "ms_db_id m \<noteq> 0" using assms(2,3) ms a by auto
    then obtain t where t: "ms_topic m = Some t" "wildcard_free t" by blast
    have "sane f" using P y by (simp add: P_def)
    obtain e' s where st: "apply_chunks alloc (store_chunks m) (l, f) = (0, (ms_db_id m, Some s) # l, e')"
      "sane e'" "contexts e' = contexts f" "subs e' = subs f" "contexts_by_id e' = contexts_by_id f"
      "store_live e' s" "content (store_of e' s) = content m"
      "\<And>q. store_live f q \<Longrightarrow> store_live e' q \<and> store_of e' q = store_of f q"
      by (rule store_step [OF \<open>sane f\<close> t m(2), of alloc l]) blast
    have "loaded ((ms_db_id m, Some s) # l, e') m'" if "(s', m') \<in> set dn" for s' m'
    proof -
      have "loaded (l, f) m'" using P y that by (auto simp: P_def)
      then have "loaded (l, e') m'" by (rule loaded_keep) (use st(8) in simp)
      moreover have "ms_db_id m' \<noteq> ms_db_id m" using assms(4) that by (force simp: ms a)
      ultimately show ?thesis by (simp add: loaded_def)
    qed
    moreover have "loaded ((ms_db_id m, Some s) # l, e') m" using st(6,7) by (simp add: loaded_def)
    ultimately show "\<exists>z. apply_chunks alloc (case a of (s, m) \<Rightarrow> store_chunks m) y = (0, z) \<and> P (dn @ [a]) z"
      using st P by (auto simp: a y P_def)
  qed
  then show ?thesis by (auto simp: P_def)
qed
subsection \<open>The clients and their queues\<close>

definition msg_content :: "db \<Rightarrow> client_msg \<Rightarrow>
    u16 \<times> nat \<times> bool \<times> mosquitto_msg_direction \<times> mosquitto_msg_state \<times> bool \<times> msg_store" where
  "msg_content d m = (cm_mid m, cm_qos m, cm_retain m, cm_direction m, cm_state m, cm_dup m, content (store_of d (cm_store m)))"

text \<open>The context \<open>c'\<close> of \<open>e\<close> goes on with the session of \<open>c\<close> in \<open>d\<close>.\<close>

definition session :: "db \<Rightarrow> ctx \<Rightarrow> db \<Rightarrow> ctx \<Rightarrow> bool" where
  "session d c e c' \<longleftrightarrow> ctx_id c' = ctx_id c \<and> \<not> clean_session c' \<and> last_mid c' = last_mid c \<and>
     disconnect_t c' = gone_since d c \<and> sock c' = INVALID_SOCKET \<and> msg_count c' = 0 \<and> msg_count12 c' = 0 \<and>
     map (msg_content e) (msgs c') = map (msg_content d) (msgs c)"

lemma restore_append_ok:
  assumes "queue_ok n (recount c)" and "n \<le> cm_ptr m"
  shows "restore_append m c = (False, c\<lparr>msgs := msgs c @ [m], last_msg := Some (cm_ptr m)\<rparr>)"
proof (cases "msgs c = []")
  case True
  then show ?thesis by (simp add: restore_append_def)
next
  case False
  then obtain p where p: "last_msg c = Some p" using assms(1) by (cases "keys c" rule: rev_cases) (auto simp: queue_ok_def simp flip: keys_Nil)
  have "append_msg m (recount c) = (False, (recount c)\<lparr>msgs := msgs c @ [m], last_msg := Some (cm_ptr m)\<rparr>)"
    using append_msg_ok [OF assms] by simp
  from arg_cong [OF this, of fst] arg_cong [OF this, of "msgs \<circ> snd"]
  show ?thesis using False p by (auto simp: append_msg_def restore_append_def split: if_splits)
qed

lemma client_msg_step:
  assumes "sane e" and "find_context cid e = Some r" and "ctx_live e r" and "ctx_id (ctx_of e r) = Some cid"
    and "bridge (ctx_of e r) = None" and "loaded (loads, e) (store_of d (cm_store m))"
    and "cm_direction m = mosq_md_in \<longrightarrow> cm_qos m = 2"
  obtains e' m' where "apply_chunk alloc (client_msg_chunk d cid m) (loads, e) = (0, loads, e')" and "sane e'"
    and "\<And>q. ctx_of e' q = (if q = r then (ctx_of e r)\<lparr>msgs := msgs (ctx_of e r) @ [m'], last_msg := Some (cm_ptr m')\<rparr> else ctx_of e q)"
    and "\<And>q. ctx_live e' q = ctx_live e q" and "subs e' = subs e" and "contexts_by_id e' = contexts_by_id e"
    and "\<And>q. store_live e q \<Longrightarrow> store_live e' q \<and> content (store_of e' q) = content (store_of e q)"
    and "msg_content e' m' = msg_content d m" and "store_live e' (cm_store m')"
proof -
  obtain s where s: "map_of loads (ms_db_id (store_of d (cm_store m))) = Some (Some s)" "store_live e s"
    "content (store_of e s) = content (store_of d (cm_store m))"
    using assms(6) by (auto simp: loaded_def)
  let ?p = "next_ptr (glob e)" and ?c = "ctx_of e r"
  define m' where "m' = restored_msg ?p s (cm_mid m) (cm_qos m) (cm_retain m) (cm_direction m) (cm_state m) (cm_dup m)"
  define e1 where "e1 = snd (fresh_ptr e)"
  define c' where "c' = ?c\<lparr>msgs := msgs ?c @ [m'], last_msg := Some (cm_ptr m')\<rparr>"
  define e' where "e' = put_ctx r c' (upd_store s one_more e1)"
  have m': "cm_ptr m' = ?p" "cm_store m' = s" "cm_direction m' = cm_direction m" "cm_qos m' = cm_qos m"
    by (simp_all add: m'_def restored_msg_def)
  have inv: "msgs_inv (\<lambda>s. 0) (recounted e)" "broker_inv (\<lambda>s. 0) (recounted e)" "\<not> fault (glob e)"
    using assms(1) by (simp_all add: sane_def restorable_def broker_inv_def)
  have q: "queue_ok ?p (recount ?c)"
    using msgs_inv_queue [OF inv(1), of r] assms(3,4) by simp
  have e1: "fresh_ptr e = (?p, e1)" "store_live e1 s" "ctx_of e1 = ctx_of e" "contexts_by_id e1 = contexts_by_id e"
    "subs e1 = subs e" "msg_store e1 = msg_store e" "contexts e1 = contexts e" "fault (glob e1) = fault (glob e)"
    using s(2) by (simp_all add: e1_def fresh_ptr_def store_live_def ctx_of_def fun_eq_iff)
  have hold: "hold_stored s e1 = upd_store s one_more e1"
    using e1(2) by (simp add: hold_stored_def one_more_def [abs_def])
  have look: "find_context cid (upd_store s one_more e1) = Some r"
    using assms(2) by (simp add: find_context_def upd_store_def e1(4))
  have app: "restore_append m' ?c = (False, c')"
    unfolding c'_def by (rule restore_append_ok [OF q]) (simp add: m')
  have run: "apply_chunk alloc (client_msg_chunk d cid m) (loads, e) = (0, loads, e')"
    using app by (simp add: client_msg_chunk_def db_client_msg_restore_def e1(1) s(1) hold db_find_or_add_context_def look
        e1(3) m'_def e'_def Let_def)
  have ctx: "ctx_of e' q = (if q = r then c' else ctx_of e q)" for q by (simp add: e'_def e1(3))
  have live: "ctx_live e' q = ctx_live e q" for q using assms(3) by (auto simp: e'_def ctx_live_def put_ctx_def e1(7))
  have stores: "store_live e' q \<and> content (store_of e' q) = content (store_of e q)" if "store_live e q" for q
  proof -
    have "store_of e' q = store_of (upd_store s one_more e1) q" "store_live e' q = store_live (upd_store s one_more e1) q"
      by (simp_all only: e'_def msgs_put store_of_def store_live_def)
    then show ?thesis using that store_live_cong [OF e1(6)] store_of_cong [OF e1(6)] by (simp add: store_of_upd_store)
  qed
  have "recounted e' = inserted r m' (recounted e)"
  proof -
    have r: "recount c' = check_lazy_bridge ((recount ?c)\<lparr>msgs := msgs ?c @ [m'], last_msg := Some (cm_ptr m'),
        msg_count := msg_count (recount ?c) + 1,
        msg_count12 := (if cm_qos m' > 0 then msg_count12 (recount ?c) + 1 else msg_count12 (recount ?c))\<rparr>)"
      using assms(5) pos_qos_Cons [of m' "[]"]
      by (simp add: check_lazy_bridge_def recount_def c'_def keys_def pos_qos_def)
    have "recounted (upd_store s one_more e1) = upd_store s one_more (snd (fresh_ptr (recounted e)))"
      by (simp add: recounted_def upd_store_def e1_def fresh_ptr_def)
    then show ?thesis unfolding e'_def recounted_put r
      by (simp add: inserted_def Let_def m' one_more_def [abs_def])
  qed
  then have "msgs_inv (\<lambda>s. 0) (recounted e')"
    using inserted_inv [OF inv(1), of r m'] assms(3,4,7) s(2) m' by simp
  moreover have "linked (recounted e')"
    by (rule linked_frame [of "recounted e"]) (use inv(2) ctx in \<open>simp_all add: broker_inv_def e'_def e1(5) c'_def\<close>)
  moreover have "topics_ok (recounted e')"
    using inv(2) by (auto simp: broker_inv_def topics_ok_def e'_def set_upd_store e1(6) one_more_def split: if_splits)
  ultimately have "sane e'" using inv(3) by (simp add: sane_def restorable_def broker_inv_def e'_def put_ctx_def upd_store_def e1(8))
  moreover have "msg_content e' m' = msg_content d m"
    using stores [OF s(2)] s(3) by (simp add: msg_content_def m'_def restored_msg_def)
  moreover have "subs e' = subs e" "contexts_by_id e' = contexts_by_id e"
    by (simp_all add: e'_def upd_store_def put_ctx_def e1)
  moreover have "store_live e' (cm_store m')" using stores [OF s(2)] m' by simp
  ultimately show ?thesis using that [of e' m'] run ctx live stores by (simp add: c'_def)
qed
definition alloc_ok :: "(db \<Rightarrow> ctx_ref) \<Rightarrow> bool" where
  "alloc_ok alloc \<longleftrightarrow> (\<forall>d. finite (dom (contexts d)) \<longrightarrow> \<not> ctx_live d (alloc d))"

text \<open>The context of a client when its chunk has been read.\<close>

definition new_session :: "db \<Rightarrow> ctx \<Rightarrow> db \<Rightarrow> ctx" where
  "new_session d c e =
     ctx_zero\<lparr>state := mosq_cs_new, sock := INVALID_SOCKET, last_msg_in := now (glob e), last_msg_out := now (glob e),
       keepalive := 60, clean_session := False, in_packet := mosquitto_packet_cleanup packet_zero, ctx_id := ctx_id c,
       last_mid := last_mid c, disconnect_t := gone_since d c\<rparr>"

lemma client_chunk_step:
  assumes "alloc_ok alloc" and "sane e" and "find_context cid e = None" and "ctx_id c = Some cid"
  obtains r e' where "apply_chunk alloc (ClientChunk cid (last_mid c) (gone_since d c)) (loads, e) = (0, loads, e')"
    and "sane e'" and "\<not> ctx_live e r" and "\<And>q. ctx_live e' q \<longleftrightarrow> ctx_live e q \<or> q = r"
    and "\<And>q. ctx_of e' q = (if q = r then new_session d c e else ctx_of e q)" and "subs e' = subs e"
    and "contexts_by_id e' = (cid, r) # contexts_by_id e" and "msg_store e' = msg_store e"
proof -
  define r where "r = alloc e"
  define n where "n = new_session d c e"
  define e' where "e' = (put_ctx r n e)\<lparr>contexts_by_id := (cid, r) # contexts_by_id e\<rparr>"
  have inv: "broker_inv (\<lambda>s. 0) (recounted e)" "\<not> fault (glob e)" using assms(2) by (simp_all add: sane_def restorable_def)
  have "finite (dom (contexts (recounted e)))" using inv(1) by (simp add: broker_inv_def msgs_inv_def store_inv_def)
  then have new: "\<not> ctx_live e r" using assms(1) by (simp add: alloc_ok_def r_def)
  have run: "apply_chunk alloc (ClientChunk cid (last_mid c) (gone_since d c)) (loads, e) = (0, loads, e')"
    using assms(3,4)
    by (simp add: db_client_restore_def db_find_or_add_context_def Let_def mqtt3_context_init_def r_def [symmetric] e'_def n_def
        new_session_def upd_ctx_def)
      (simp add: put_ctx_def ctx_of_def ctx_zero_def)
  have "broker_inv (\<lambda>s. 0) (put_ctx r (recount n) (recounted e))"
    by (rule new_ctx_ok [OF inv(1)]) (use new in \<open>simp_all add: n_def new_session_def ctx_zero_def keys_def pos_qos_def\<close>)
  then have "broker_inv (\<lambda>s. 0) (recounted (put_ctx r n e))" by (simp only: recounted_put)
  then have "broker_inv (\<lambda>s. 0) (recounted e')" by (rule broker_inv_tables) (simp_all add: e'_def recounted_def)
  then have "sane e'" using inv(2) by (simp add: sane_def restorable_def e'_def put_ctx_def)
  then show ?thesis using that [of e' r] run new
    by (simp add: e'_def n_def ctx_live_def ctx_of_def put_ctx_def)
qed
text \<open>What a step leaves alone, but for the context \<open>r\<close>.\<close>

definition keeps_all_but :: "ctx_ref \<Rightarrow> db \<Rightarrow> db \<Rightarrow> bool" where
  "keeps_all_but r e f \<longleftrightarrow> subs f = subs e \<and> (\<forall>q. q \<noteq> r \<longrightarrow> ctx_live f q = ctx_live e q \<and> ctx_of f q = ctx_of e q) \<and>
     (\<forall>s. store_live e s \<longrightarrow> store_live f s \<and> content (store_of f s) = content (store_of e s))"

lemma keeps_all_but_trans: "keeps_all_but r d e \<Longrightarrow> keeps_all_but r e f \<Longrightarrow> keeps_all_but r d f"
  by (simp add: keeps_all_but_def)

lemma queue_restored:
  assumes "sane e" and "find_context cid e = Some r" and "ctx_live e r" and "ctx_of e r = new_session d c g"
    and "ctx_id c = Some cid"
    and "\<forall>m \<in> set (msgs c). loaded (loads, e) (store_of d (cm_store m)) \<and> (cm_direction m = mosq_md_in \<longrightarrow> cm_qos m = 2)"
  shows "\<exists>e'. apply_chunks alloc (map (client_msg_chunk d cid) (msgs c)) (loads, e) = (0, loads, e') \<and>
    sane e' \<and> keeps_all_but r e e' \<and> contexts_by_id e' = contexts_by_id e \<and> ctx_live e' r \<and>
    (\<exists>ms p. ctx_of e' r = (new_session d c g)\<lparr>msgs := ms, last_msg := p\<rparr> \<and> map (msg_content e') ms = map (msg_content d) (msgs c) \<and>
       (\<forall>m \<in> set ms. store_live e' (cm_store m)))"
proof -
  define P where "P = (\<lambda>dn (l, f). l = loads \<and> sane f \<and> keeps_all_but r e f \<and> contexts_by_id f = contexts_by_id e \<and> ctx_live f r \<and>
    (\<exists>ms p. ctx_of f r = (new_session d c g)\<lparr>msgs := ms, last_msg := p\<rparr> \<and> map (msg_content f) ms = map (msg_content d) dn \<and>
       (\<forall>m \<in> set ms. store_live f (cm_store m))))"
  have "\<exists>z. apply_chunks alloc (concat (map (\<lambda>m. [client_msg_chunk d cid m]) (msgs c))) (loads, e) = (0, z) \<and> P (msgs c) z"
  proof (rule apply_chunks_list)
    have "\<exists>ms p. new_session d c g = (new_session d c g)\<lparr>msgs := ms, last_msg := p\<rparr> \<and> ms = []"
      by (intro exI [of _ "[]"] exI [of _ None]) (simp add: new_session_def ctx_zero_def)
    then show "P [] (loads, e)" using assms(1,3,4) by (auto simp: P_def keeps_all_but_def)
    fix dn m rest y
    assume ms: "msgs c = dn @ m # rest" and "P dn y"
    then obtain f xs p where y: "y = (loads, f)" and f: "sane f" "keeps_all_but r e f" "contexts_by_id f = contexts_by_id e" "ctx_live f r"
      "ctx_of f r = (new_session d c g)\<lparr>msgs := xs, last_msg := p\<rparr>" "map (msg_content f) xs = map (msg_content d) dn"
      "\<forall>m \<in> set xs. store_live f (cm_store m)"
      by (auto simp: P_def)
    have m: "loaded (loads, e) (store_of d (cm_store m))" "cm_direction m = mosq_md_in \<longrightarrow> cm_qos m = 2"
      using assms(6) ms by auto
    have l: "loaded (loads, f) (store_of d (cm_store m))"
      by (rule loaded_keep [OF m(1)]) (use f(2) in \<open>simp add: keeps_all_but_def\<close>)
    have ok: "find_context cid f = Some r" "ctx_id (ctx_of f r) = Some cid" "bridge (ctx_of f r) = None"
      using assms(2,5) f(3,5) by (simp_all add: find_context_def new_session_def ctx_zero_def)
    obtain e' m' where st: "apply_chunk alloc (client_msg_chunk d cid m) (loads, f) = (0, loads, e')" "sane e'"
      "\<And>q. ctx_of e' q = (if q = r then (ctx_of f r)\<lparr>msgs := msgs (ctx_of f r) @ [m'], last_msg := Some (cm_ptr m')\<rparr> else ctx_of f q)"
      "\<And>q. ctx_live e' q = ctx_live f q" "subs e' = subs f" "contexts_by_id e' = contexts_by_id f"
      "\<And>q. store_live f q \<Longrightarrow> store_live e' q \<and> content (store_of e' q) = content (store_of f q)"
      "msg_content e' m' = msg_content d m" "store_live e' (cm_store m')"
      by (rule client_msg_step [OF f(1) ok(1) f(4) ok(2,3) l m(2), of alloc]) blast
    have "keeps_all_but r f e'" using st(3,4,5,7) by (simp add: keeps_all_but_def)
    then have k: "keeps_all_but r e e'" by (rule keeps_all_but_trans [OF f(2)])
    have "ctx_of e' r = (new_session d c g)\<lparr>msgs := xs @ [m'], last_msg := Some (cm_ptr m')\<rparr>"
      by (simp add: st(3) f(5))
    moreover have "map (msg_content e') (xs @ [m']) = map (msg_content d) (dn @ [m])"
    proof -
      have "map (msg_content e') xs = map (msg_content f) xs"
        using st(7) f(7) by (simp add: msg_content_def)
      then show ?thesis using f(6) st(8) by simp
    qed
    moreover have "\<forall>x \<in> set (xs @ [m']). store_live e' (cm_store x)" using st(7,9) f(7) by auto
    ultimately have "\<exists>ms p. ctx_of e' r = (new_session d c g)\<lparr>msgs := ms, last_msg := p\<rparr> \<and>
        map (msg_content e') ms = map (msg_content d) (dn @ [m]) \<and> (\<forall>m \<in> set ms. store_live e' (cm_store m))"
      by blast
    then have "P (dn @ [m]) (loads, e')" unfolding P_def using st(2,4,6) k f(3,4) by simp
    then show "\<exists>z. apply_chunks alloc [client_msg_chunk d cid m] y = (0, z) \<and> P (dn @ [m]) z"
      using st(1) by (auto simp: y)
  qed
  moreover have "concat (map (\<lambda>m. [client_msg_chunk d cid m]) (msgs c)) = map (client_msg_chunk d cid) (msgs c)"
    by (induction "msgs c") auto
  ultimately show ?thesis by (auto simp: P_def)
qed

lemma client_restored:
  assumes "alloc_ok alloc" and "sane e" and "find_context cid e = None" and "ctx_id c = Some cid" and "\<not> clean_session c"
    and "\<forall>m \<in> set (msgs c). loaded (loads, e) (store_of d (cm_store m)) \<and> (cm_direction m = mosq_md_in \<longrightarrow> cm_qos m = 2)"
  obtains r e' where "apply_chunks alloc (client_chunks d c) (loads, e) = (0, loads, e')" and "sane e'"
    and "\<not> ctx_live e r" and "ctx_live e' r" and "keeps_all_but r e e'" and "contexts_by_id e' = (cid, r) # contexts_by_id e"
    and "session d c e' (ctx_of e' r)" and "\<forall>m \<in> set (msgs (ctx_of e' r)). store_live e' (cm_store m)"
    and "ctx_subs (ctx_of e' r) = []"
proof -
  obtain r f where f: "apply_chunk alloc (ClientChunk cid (last_mid c) (gone_since d c)) (loads, e) = (0, loads, f)"
    "sane f" "\<not> ctx_live e r" "\<And>q. ctx_live f q \<longleftrightarrow> ctx_live e q \<or> q = r"
    "\<And>q. ctx_of f q = (if q = r then new_session d c e else ctx_of e q)" "subs f = subs e"
    "contexts_by_id f = (cid, r) # contexts_by_id e" "msg_store f = msg_store e"
    by (rule client_chunk_step [OF assms(1-4), of d loads]) blast
  have kf: "keeps_all_but r e f" using f(4,5,6) store_live_cong [OF f(8)] store_of_cong [OF f(8)] by (simp add: keeps_all_but_def)
  have look: "find_context cid f = Some r" "ctx_live f r" "ctx_of f r = new_session d c e"
    by (simp_all add: find_context_def f)
  have "\<forall>m \<in> set (msgs c). loaded (loads, f) (store_of d (cm_store m)) \<and> (cm_direction m = mosq_md_in \<longrightarrow> cm_qos m = 2)"
    using assms(6) loaded_keep [of loads e _ f] kf by (simp add: keeps_all_but_def)
  from queue_restored [OF f(2) look assms(4) this, of alloc]
  obtain e' ms p where q: "apply_chunks alloc (map (client_msg_chunk d cid) (msgs c)) (loads, f) = (0, loads, e')" "sane e'"
    "keeps_all_but r f e'" "contexts_by_id e' = contexts_by_id f" "ctx_live e' r"
    "ctx_of e' r = (new_session d c e)\<lparr>msgs := ms, last_msg := p\<rparr>" "map (msg_content e') ms = map (msg_content d) (msgs c)"
    "\<forall>m \<in> set ms. store_live e' (cm_store m)"
    by blast
  have "apply_chunks alloc (client_chunks d c) (loads, e) = (0, loads, e')"
    using assms(4,5) f(1) q(1) by (simp add: client_chunks_def)
  moreover have "session d c e' (ctx_of e' r)" "ctx_subs (ctx_of e' r) = []"
    using q(6,7) by (simp_all add: session_def new_session_def ctx_zero_def)
  ultimately show ?thesis
    using that [of e' r] q(2,4,5,8) f(3,7) keeps_all_but_trans [OF kf q(3)] q(6) by simp
qed
definition registry :: "db \<Rightarrow> bool" where
  "registry e \<longleftrightarrow> (\<forall>i r. find_context i e = Some r \<longrightarrow> ctx_live e r \<and> ctx_id (ctx_of e r) = Some i)"

definition stores_kept :: "db \<Rightarrow> db \<Rightarrow> bool" where
  "stores_kept e f \<longleftrightarrow> (\<forall>s. store_live e s \<longrightarrow> store_live f s \<and> content (store_of f s) = content (store_of e s))"

definition queues_live :: "db \<Rightarrow> bool" where
  "queues_live e \<longleftrightarrow> (\<forall>q. ctx_live e q \<longrightarrow> (\<forall>m \<in> set (msgs (ctx_of e q)). store_live e (cm_store m)))"

text \<open>The sessions of the broker \<open>d\<close> in the list \<open>cs\<close> of its clients are in \<open>e\<close>, and no others.\<close>

definition lasting_client :: "db \<Rightarrow> string \<times> ctx_ref \<Rightarrow> bool" where
  "lasting_client d c \<longleftrightarrow> \<not> clean_session (ctx_of d (snd c))"

definition sessions_of :: "db \<Rightarrow> (string \<times> ctx_ref) list \<Rightarrow> db \<Rightarrow> bool" where
  "sessions_of d cs e \<longleftrightarrow>
     (\<forall>i. find_context i e \<noteq> None \<longleftrightarrow> (\<exists>r. (i, r) \<in> set cs \<and> lasting_client d (i, r))) \<and>
     (\<forall>(i, r) \<in> set cs. lasting_client d (i, r) \<longrightarrow>
        (\<exists>r'. find_context i e = Some r' \<and> session d (ctx_of d r) e (ctx_of e r')))"

lemma session_keep:
  assumes "session d c e x" and "\<forall>m \<in> set (msgs x). store_live e (cm_store m)" and "stores_kept e f"
    and "msgs x' = msgs x" and "ctx_id x' = ctx_id x" and "clean_session x' = clean_session x" and "last_mid x' = last_mid x"
    and "disconnect_t x' = disconnect_t x" and "sock x' = sock x" and "msg_count x' = msg_count x" and "msg_count12 x' = msg_count12 x"
  shows "session d c f x'"
proof -
  have "map (msg_content f) (msgs x) = map (msg_content e) (msgs x)"
    using assms(2,3) by (simp add: msg_content_def stores_kept_def)
  then show ?thesis using assms(1,4-11) by (simp only: session_def simp_thms)
qed

definition clients_restored :: "db \<Rightarrow> (string \<times> ctx_ref) list \<Rightarrow> db \<Rightarrow> db \<Rightarrow> bool" where
  "clients_restored d cs e f \<longleftrightarrow> sane f \<and> subs f = subs e \<and> stores_kept e f \<and> registry f \<and> sessions_of d cs f \<and> queues_live f \<and>
     (\<forall>q. ctx_live f q \<longrightarrow> ctx_subs (ctx_of f q) = [])"

lemma clients_step:
  assumes "alloc_ok alloc" and P: "clients_restored d dn e f" and "i \<notin> fst ` set dn" and id: "ctx_id (ctx_of d r) = Some i"
    and "\<forall>m \<in> set (msgs (ctx_of d r)). loaded (loads, e) (store_of d (cm_store m)) \<and> (cm_direction m = mosq_md_in \<longrightarrow> cm_qos m = 2)"
  shows "\<exists>f'. apply_chunks alloc (client_chunks d (ctx_of d r)) (loads, f) = (0, loads, f') \<and> clients_restored d (dn @ [(i, r)]) e f'"
proof (cases "clean_session (ctx_of d r)")
  case True
  then have "client_chunks d (ctx_of d r) = []" by (simp add: client_chunks_def)
  moreover have "sessions_of d (dn @ [(i, r)]) f"
    using P True by (auto simp: clients_restored_def sessions_of_def lasting_client_def)
  ultimately show ?thesis using P by (simp add: clients_restored_def)
next
  case False
  have f: "sane f" "subs f = subs e" "stores_kept e f" "registry f" "sessions_of d dn f" "queues_live f"
    "\<And>q. ctx_live f q \<Longrightarrow> ctx_subs (ctx_of f q) = []"
    using P by (simp_all add: clients_restored_def)
  have none: "find_context i f = None"
    using f(5) assms(3) by (force simp: sessions_of_def)
  have ld: "\<forall>m \<in> set (msgs (ctx_of d r)). loaded (loads, f) (store_of d (cm_store m)) \<and> (cm_direction m = mosq_md_in \<longrightarrow> cm_qos m = 2)"
    using assms(5) loaded_keep [of loads e _ f] f(3) by (simp add: stores_kept_def)
  obtain r' f' where n: "apply_chunks alloc (client_chunks d (ctx_of d r)) (loads, f) = (0, loads, f')" "sane f'"
    "\<not> ctx_live f r'" "ctx_live f' r'" "keeps_all_but r' f f'" "contexts_by_id f' = (i, r') # contexts_by_id f"
    "session d (ctx_of d r) f' (ctx_of f' r')" "\<forall>m \<in> set (msgs (ctx_of f' r')). store_live f' (cm_store m)"
    "ctx_subs (ctx_of f' r') = []"
    by (rule client_restored [OF assms(1) f(1) none id False ld])
  have keep: "\<And>q. q \<noteq> r' \<Longrightarrow> ctx_live f' q = ctx_live f q \<and> ctx_of f' q = ctx_of f q" "stores_kept f f'" "subs f' = subs f"
    using n(5) by (simp_all add: keeps_all_but_def stores_kept_def)
  have look: "find_context j f' = (if j = i then Some r' else find_context j f)" for j
    by (simp add: find_context_def n(6))
  have other: "q \<noteq> r'" if "find_context j f = Some q" for j q
    using f(4) n(3) that by (auto simp: registry_def)
  have "ctx_id (ctx_of f' r') = Some i" using n(7) id by (simp add: session_def)
  then have "registry f'" using f(4) n(4) keep(1) other by (auto simp: registry_def look)
  moreover have "stores_kept e f'" using f(3) keep(2) by (simp add: stores_kept_def)
  moreover have "queues_live f'"
    unfolding queues_live_def
  proof (intro allI impI)
    fix q assume "ctx_live f' q"
    then show "\<forall>m \<in> set (msgs (ctx_of f' q)). store_live f' (cm_store m)"
      using f(6) keep(1) [of q] keep(2) n(8) by (cases "q = r'") (auto simp: queues_live_def stores_kept_def)
  qed
  moreover have "\<forall>q. ctx_live f' q \<longrightarrow> ctx_subs (ctx_of f' q) = []" using f(7) keep(1) n(9) by metis
  moreover have "sessions_of d (dn @ [(i, r)]) f'"
  proof -
    have "\<exists>q. find_context j f' = Some q \<and> session d (ctx_of d p) f' (ctx_of f' q)"
      if jp: "(j, p) \<in> set dn" "lasting_client d (j, p)" for j p
    proof -
      obtain q where q: "find_context j f = Some q" "session d (ctx_of d p) f (ctx_of f q)"
        using f(5) jp by (auto simp: sessions_of_def)
      have same: "ctx_of f' q = ctx_of f q" using keep(1) other [OF q(1)] by simp
      have "\<forall>m \<in> set (msgs (ctx_of f q)). store_live f (cm_store m)"
        using f(4,6) q(1) by (auto simp: registry_def queues_live_def)
      then have "session d (ctx_of d p) f' (ctx_of f' q)"
        using session_keep [OF q(2) _ keep(2), of "ctx_of f' q"] same by simp
      moreover have "j \<noteq> i" using assms(3) jp(1) by force
      ultimately show ?thesis using q(1) by (simp add: look)
    qed
    moreover have "find_context j f' \<noteq> None \<longleftrightarrow> (\<exists>p. (j, p) \<in> set (dn @ [(i, r)]) \<and> lasting_client d (j, p))" for j
      using f(5) False by (auto simp: sessions_of_def look lasting_client_def)
    ultimately show ?thesis using n(7) by (auto simp: sessions_of_def look)
  qed
  ultimately show ?thesis using n(1,2) keep(3) f(2) by (simp add: clients_restored_def)
qed

lemma all_clients_restored:
  assumes "alloc_ok alloc" and "sane e" and "contexts_by_id e = []" and "\<And>q. \<not> ctx_live e q"
    and "distinct (map fst cs)" and "\<forall>(i, r) \<in> set cs. ctx_id (ctx_of d r) = Some i"
    and "\<forall>(i, r) \<in> set cs. \<forall>m \<in> set (msgs (ctx_of d r)). loaded (loads, e) (store_of d (cm_store m)) \<and>
       (cm_direction m = mosq_md_in \<longrightarrow> cm_qos m = 2)"
  shows "\<exists>f. apply_chunks alloc (concat (map (\<lambda>(i, r). client_chunks d (ctx_of d r)) cs)) (loads, e) = (0, loads, f) \<and>
    clients_restored d cs e f"
proof -
  define P where "P = (\<lambda>dn (l, f). l = loads \<and> clients_restored d dn e f)"
  have "\<exists>z. apply_chunks alloc (concat (map (\<lambda>(i, r). client_chunks d (ctx_of d r)) cs)) (loads, e) = (0, z) \<and> P cs z"
  proof (rule apply_chunks_list)
    show "P [] (loads, e)"
      using assms(2,3,4) by (simp add: P_def clients_restored_def sessions_of_def registry_def find_context_def stores_kept_def queues_live_def)
    fix dn a rest y
    assume cs: "cs = dn @ a # rest" and "P dn y"
    then obtain f where y: "y = (loads, f)" "clients_restored d dn e f" by (cases y) (auto simp: P_def)
    obtain i r where a: "a = (i, r)" by (cases a)
    have "i \<notin> fst ` set dn" "ctx_id (ctx_of d r) = Some i"
      "\<forall>m \<in> set (msgs (ctx_of d r)). loaded (loads, e) (store_of d (cm_store m)) \<and> (cm_direction m = mosq_md_in \<longrightarrow> cm_qos m = 2)"
      using assms(5,6,7) by (auto simp: cs a)
    from clients_step [OF assms(1) y(2) this]
    show "\<exists>z. apply_chunks alloc (case a of (i, r) \<Rightarrow> client_chunks d (ctx_of d r)) y = (0, z) \<and> P (dn @ [a]) z"
      by (auto simp: y a P_def)
  qed
  then show ?thesis by (auto simp: P_def)
qed
subsection \<open>The tree as a list of leaves and retained messages\<close>

type_synonym item = "path \<times> (subleaf + store_ref)"

fun tree_items :: "path \<Rightarrow> subhier list \<Rightarrow> item list" where
  "tree_items p [] = []"
| "tree_items p (SubHier t ls ret ch # hs) =
     map (\<lambda>l. (p @ [t], Inl l)) ls @ (case ret of None \<Rightarrow> [] | Some s \<Rightarrow> [(p @ [t], Inr s)]) @
     tree_items (p @ [t]) ch @ tree_items p hs"

definition item_chunks :: "db \<Rightarrow> item \<Rightarrow> chunk list" where
  "item_chunks d it = (case it of (p, x) \<Rightarrow>
     (case x of Inl l \<Rightarrow> leaf_chunks d (path_topic p) l | Inr s \<Rightarrow> retained_chunks d (Some s)))"

lemma path_topic_snoc: "path_topic (p @ [t]) = child_topic (path_topic p) t"
  by (simp add: path_topic_def)

lemma tree_chunks_items: "tree_chunks d (path_topic p) hs = concat (map (item_chunks d) (tree_items p hs))"
proof (induction p hs rule: tree_items.induct)
  case (2 p t ls ret ch hs)
  have "concat (map (item_chunks d) (map (\<lambda>l. (p @ [t], Inl l)) ls)) = concat (map (leaf_chunks d (path_topic (p @ [t]))) ls)"
    by (simp add: comp_def item_chunks_def)
  moreover have "concat (map (item_chunks d) (case ret of None \<Rightarrow> [] | Some s \<Rightarrow> [(p @ [t], Inr s)])) = retained_chunks d ret"
    by (cases ret) (simp_all add: item_chunks_def retained_chunks_def)
  ultimately show ?case using 2 by (simp add: path_topic_snoc)
qed simp

definition leaves_in :: "path \<Rightarrow> item list \<Rightarrow> subleaf list" where
  "leaves_in p its = concat (map (\<lambda>(q, x). case x of Inl l \<Rightarrow> if q = p then [l] else [] | Inr s \<Rightarrow> []) its)"

definition retained_in :: "path \<Rightarrow> item list \<Rightarrow> store_ref list" where
  "retained_in p its = concat (map (\<lambda>(q, x). case x of Inl l \<Rightarrow> [] | Inr s \<Rightarrow> if q = p then [s] else []) its)"

fun ret_of :: "(subleaf list \<times> store_ref option) option \<Rightarrow> store_ref option" where
  "ret_of None = None"
| "ret_of (Some x) = snd x"

lemma items_append [simp]:
  "leaves_in p (a @ b) = leaves_in p a @ leaves_in p b" "retained_in p (a @ b) = retained_in p a @ retained_in p b"
  "leaves_in p [] = []" "retained_in p [] = []"
  by (simp_all add: leaves_in_def retained_in_def)

lemma items_one [simp]:
  "leaves_in q [(p, Inl l)] = (if q = p then [l] else [])" "retained_in q [(p, Inl l)] = []"
  "leaves_in q [(p, Inr s)] = []" "retained_in q [(p, Inr s)] = (if q = p then [s] else [])"
  by (auto simp: leaves_in_def retained_in_def)

lemma items_below: "(q, x) \<in> set (tree_items p hs) \<Longrightarrow> \<exists>t r. t \<in> sh_topic ` set hs \<and> q = p @ t # r"
  by (induction p hs rule: tree_items.induct) (force split: option.splits)+

lemma none_in: "(\<And>x. (p, x) \<notin> set its) \<Longrightarrow> leaves_in p its = [] \<and> retained_in p its = []"
  by (auto simp: leaves_in_def retained_in_def split: sum.splits)

lemma items_at:
  assumes "wf_tree hs"
  shows "leaves_in (pre @ p) (tree_items pre hs) = leaves_of (info_at p hs) \<and>
    retained_in (pre @ p) (tree_items pre hs) = (case ret_of (info_at p hs) of None \<Rightarrow> [] | Some s \<Rightarrow> [s])"
  using assms
proof (induction pre hs arbitrary: p rule: tree_items.induct)
  case (2 pre t ls ret ch hs)
  have wf: "t \<notin> sh_topic ` set hs" "wf_tree ch" "wf_tree hs" using 2(3) by auto
  have here: "leaves_in q (map (\<lambda>l. (pre @ [t], Inl l)) ls) = (if q = pre @ [t] then ls else [])"
    "retained_in q (map (\<lambda>l. (pre @ [t], Inl l)) ls) = []" for q
    by (induction ls) (auto simp: leaves_in_def retained_in_def)
  have rt: "leaves_in q (case ret of None \<Rightarrow> [] | Some s \<Rightarrow> [(pre @ [t], Inr s)]) = []"
    "retained_in q (case ret of None \<Rightarrow> [] | Some s \<Rightarrow> [(pre @ [t], Inr s)]) = (if q = pre @ [t] then (case ret of None \<Rightarrow> [] | Some s \<Rightarrow> [s]) else [])" for q
    by (auto simp: leaves_in_def retained_in_def split: option.splits)
  show ?case
  proof (cases "p \<noteq> [] \<and> hd p = t")
    case False
    have "(pre @ p, x) \<notin> set (tree_items (pre @ [t]) ch)" for x
      using items_below [of "pre @ p" x "pre @ [t]" ch] False by auto
    then have "leaves_in (pre @ p) (tree_items (pre @ [t]) ch) = []" "retained_in (pre @ p) (tree_items (pre @ [t]) ch) = []"
      using none_in by blast+
    moreover have "info_at p (SubHier t ls ret ch # hs) = info_at p hs" using False by (cases p) (auto simp: info_at_Cons)
    moreover have "pre @ p \<noteq> pre @ [t]" using False by auto
    ultimately show ?thesis using 2(2) [OF wf(3), of p] by (simp add: here rt)
  next
    case True
    then obtain ts where p: "p = t # ts" by (cases p) auto
    have "(pre @ p, x) \<notin> set (tree_items pre hs)" for x
      using items_below [of "pre @ p" x pre hs] wf(1) p by auto
    then have out: "leaves_in (pre @ p) (tree_items pre hs) = []" "retained_in (pre @ p) (tree_items pre hs) = []"
      using none_in by blast+
    have ch: "leaves_in (pre @ p) (tree_items (pre @ [t]) ch) = leaves_of (info_at ts ch)"
      "retained_in (pre @ p) (tree_items (pre @ [t]) ch) = (case ret_of (info_at ts ch) of None \<Rightarrow> [] | Some s \<Rightarrow> [s])"
      using 2(1) [OF wf(2), of ts] by (simp_all add: p)
    show ?thesis using out ch by (cases "ts = []") (simp_all add: here rt p info_at_Cons)
  qed
qed simp

lemma info_at_child_node:
  "info_at (t # ts) hs \<noteq> None \<Longrightarrow> \<exists>h \<in> set hs. sh_topic h = t \<and> (ts = [] \<or> info_at ts (sh_children h) \<noteq> None)"
  by (induction hs) (auto simp: info_at_Cons split: if_splits)

lemma wf_hash_last: "wf_tree hs \<Longrightarrow> info_at p hs \<noteq> None \<Longrightarrow> hash_last p"
proof (induction p arbitrary: hs)
  case (Cons t ts)
  obtain h where h: "h \<in> set hs" "sh_topic h = t" "ts = [] \<or> info_at ts (sh_children h) \<noteq> None"
    using info_at_child_node [OF Cons.prems(2)] by blast
  have "wf_tree (sh_children h) \<and> (t = ''#'' \<longrightarrow> sh_children h = [])"
    using Cons.prems(1) h(1,2) by (induction hs) (auto simp: wf_tree_Cons)
  then show ?case using h(3) Cons.IH by auto
qed simp

lemma ret_update_subs [simp]:
  "ret_of (info_at q (update_at p (\<lambda>h. set_subs (g h) h) hs)) = ret_of (info_at q hs)"
  by (subst info_at_update_at; cases "node_at p hs") (auto simp: info_at_def)

lemma ret_ensure [simp]: "ret_of (info_at q (ensure_path p hs)) = ret_of (info_at q hs)"
  by (simp add: info_at_ensure split: option.splits)

lemma ret_with_root [simp]: "ret_of (info_at q (with_root t hs)) = ret_of (info_at q hs)"
  using info_at_absent [of t hs] by (cases q) (auto simp: with_root_def has_child_iff info_at_Cons)
subsection \<open>Subscriptions and retained messages\<close>

definition lasting_leaves :: "db \<Rightarrow> subleaf list \<Rightarrow> subleaf list" where
  "lasting_leaves d ls = filter (\<lambda>l. \<not> clean_session (ctx_of d (lf_context l))) ls"

text \<open>The leaf of the restored client.\<close>

definition new_leaf :: "db \<Rightarrow> db \<Rightarrow> subleaf \<Rightarrow> subleaf" where
  "new_leaf d e l =
     l\<lparr>lf_context :=
        (case ctx_id (ctx_of d (lf_context l)) of
           None \<Rightarrow> 0
         | Some i \<Rightarrow> (case find_context i e of None \<Rightarrow> 0 | Some r \<Rightarrow> r))\<rparr>"

definition saved_retained :: "db \<Rightarrow> store_ref list \<Rightarrow> msg_store option" where
  "saved_retained d ss =
     (case filter (\<lambda>s. \<not> sys_topic (store_of d s)) ss of [] \<Rightarrow> None | s # _ \<Rightarrow> Some (content (store_of d s)))"

definition retained_content :: "db \<Rightarrow> path \<Rightarrow> msg_store option" where
  "retained_content d p = map_option (\<lambda>s. content (store_of d s)) (ret_of (info_at p (subs d)))"

text \<open>The items \<open>its\<close> of the tree of \<open>d\<close> are in the tree of \<open>f\<close>, which began as \<open>e\<close>.\<close>

definition planted :: "db \<Rightarrow> item list \<Rightarrow> db \<Rightarrow> db \<Rightarrow> bool" where
  "planted d its e f \<longleftrightarrow> sane f \<and> contexts_by_id f = contexts_by_id e \<and> (\<forall>q. ctx_live f q = ctx_live e q) \<and>
     (\<forall>q. \<exists>x. ctx_of f q = (ctx_of e q)\<lparr>ctx_subs := x\<rparr>) \<and> stores_kept e f \<and> has_child [] (subs f) \<and>
     (\<forall>p. leaves_at p f = map (new_leaf d e) (lasting_leaves d (leaves_in p its))) \<and>
     (\<forall>p. retained_content f p = saved_retained d (retained_in p its))"

lemma sane_parts: "sane f \<Longrightarrow> broker_inv (\<lambda>s. 0) (recounted f)" "sane f \<Longrightarrow> wf_tree (subs f)" "sane f \<Longrightarrow> linked f"
  using restorable_tree restorable_linked by (auto simp: sane_def restorable_def)

lemma retained_live:
  assumes "sane f" and "ret_of (info_at p (subs f)) = Some s"
  shows "store_live f s"
proof -
  obtain h where "node_at p (subs f) = Some h" "sh_retained h = Some s"
    using assms(2) by (cases "node_at p (subs f)") (auto simp: info_at_def)
  then have "0 < tree_refs s (subs (recounted f))" using tree_refs_pos by simp
  then show ?thesis using refs_live [of "\<lambda>s. 0" "recounted f" s] sane_parts(1) [OF assms(1)] by (simp add: broker_inv_def)
qed

lemma retained_content_keep:
  assumes "sane f" and "stores_kept f g" and "ret_of (info_at p (subs g)) = ret_of (info_at p (subs f))"
  shows "retained_content g p = retained_content f p"
proof (cases "ret_of (info_at p (subs f))")
  case (Some s)
  then show ?thesis using retained_live [OF assms(1) Some] assms(2,3) by (simp add: retained_content_def stores_kept_def)
qed (simp add: retained_content_def assms(3))

lemma leaf_step:
  assumes P: "planted d dn e f" and "registry e" and i: "ctx_id (ctx_of d (lf_context l)) = Some i"
    and r: "find_context i e = Some r" and p: "sub_path (path_topic p) = p" "hash_last p"
    and new: "\<And>l'. l' \<in> set (lasting_leaves d (leaves_in p dn)) \<Longrightarrow>
       \<exists>j r'. j \<noteq> i \<and> ctx_id (ctx_of d (lf_context l')) = Some j \<and> find_context j e = Some r'"
    and "\<not> clean_session (ctx_of d (lf_context l))"
  shows "\<exists>f'. apply_chunks alloc (item_chunks d (p, Inl l)) (loads, f) = (0, loads, f') \<and> planted d (dn @ [(p, Inl l)]) e f'"
proof -
  have f: "sane f" "contexts_by_id f = contexts_by_id e" "\<And>q. ctx_live f q = ctx_live e q"
    "\<And>q. \<exists>x. ctx_of f q = (ctx_of e q)\<lparr>ctx_subs := x\<rparr>" "stores_kept e f" "has_child [] (subs f)"
    "\<And>p. leaves_at p f = map (new_leaf d e) (lasting_leaves d (leaves_in p dn))"
    "\<And>p. retained_content f p = saved_retained d (retained_in p dn)"
    using P unfolding planted_def by blast+
  have ids: "ctx_id (ctx_of f q) = ctx_id (ctx_of e q)" for q
  proof -
    obtain x where "ctx_of f q = (ctx_of e q)\<lparr>ctx_subs := x\<rparr>" using f(4) by blast
    then show ?thesis by simp
  qed
  have look: "find_context i f = Some r" using r f(2) by (simp add: find_context_def)
  have rid: "ctx_live f r" "ctx_id (ctx_of f r) = Some i" using assms(2) r f(3) by (simp_all add: registry_def ids)
  let ?t = "path_topic p"
  obtain f' where o: "mqtt3_sub_add r ?t (lf_qos l) f = (MOSQ_ERR_SUCCESS, f')"
    "subs f' = update_at (sub_path ?t) (\<lambda>h. set_subs (add_leaf (same_id f r) r (lf_qos l) (sh_subs h)) h) (subs (prepared ?t f))"
    "f' = (if is_new r ?t f
       then (upd_ctx r (\<lambda>c. c\<lparr>ctx_subs := add_slot (sub_path ?t) (ctx_subs c)\<rparr>) (f\<lparr>subs := subs f'\<rparr>))
              \<lparr>subscription_count := subscription_count f + 1\<rparr>
       else f\<lparr>subs := subs f'\<rparr>)"
    by (rule sub_add_outcome [OF rid(2)])
  define hs where "hs = subs f'"
  have f'_eq: "f' = (if is_new r ?t f
       then (upd_ctx r (\<lambda>c. c\<lparr>ctx_subs := add_slot (sub_path ?t) (ctx_subs c)\<rparr>) (f\<lparr>subs := hs\<rparr>))
              \<lparr>subscription_count := subscription_count f + 1\<rparr>
       else f\<lparr>subs := hs\<rparr>)"
    using o(3) by (simp only: hs_def)
  have fr: "glob f' = glob f" "msg_store f' = msg_store f" "contexts_by_id f' = contexts_by_id f"
    "ctx_live f' q = ctx_live f q" "\<exists>x. ctx_of f' q = (ctx_of f q)\<lparr>ctx_subs := x\<rparr>" for q
  proof -
    show "glob f' = glob f" "msg_store f' = msg_store f" "contexts_by_id f' = contexts_by_id f" "ctx_live f' q = ctx_live f q"
      using rid(1) unfolding f'_eq by (auto simp: upd_ctx_def put_ctx_def ctx_live_def)
    have "ctx_of f' q = (if q = r \<and> is_new r ?t f then (ctx_of f r)\<lparr>ctx_subs := add_slot (sub_path ?t) (ctx_subs (ctx_of f r))\<rparr> else ctx_of f q)"
      unfolding f'_eq by (simp add: ctx_of_def upd_ctx_def put_ctx_def)
    moreover have "ctx_of f q = (ctx_of f q)\<lparr>ctx_subs := ctx_subs (ctx_of f q)\<rparr>" by simp
    ultimately show "\<exists>x. ctx_of f' q = (ctx_of f q)\<lparr>ctx_subs := x\<rparr>" by metis
  qed
  have sk: "stores_kept f f'" using store_live_cong [OF fr(2)] store_of_cong [OF fr(2)] by (simp add: stores_kept_def)
  have "broker_inv (\<lambda>s. 0) (snd (mqtt3_sub_add r ?t (lf_qos l) (recounted f)))"
    using sub_add_ok [OF sane_parts(1) [OF f(1)], of r i ?t "lf_qos l"] rid p by simp
  then have s': "sane f'" using f(1) by (simp add: recounted_sub_add o(1) sane_def restorable_def fr(1))
  have nosame: "\<not> same_id f r (lf_context l')" if l': "l' \<in> set (leaves_at p f)" for l'
  proof -
    obtain k where k: "k \<in> set (lasting_leaves d (leaves_in p dn))" "l' = new_leaf d e k" using l' f(7) by auto
    obtain j r' where j: "j \<noteq> i" "ctx_id (ctx_of d (lf_context k)) = Some j" "find_context j e = Some r'" using new [OF k(1)] by blast
    then have "ctx_id (ctx_of f (lf_context l')) = Some j" using assms(2) by (simp add: k(2) new_leaf_def registry_def ids)
    then show ?thesis using rid(2) j(1) by (simp add: same_id_def)
  qed
  have leaves: "leaves_at q f' = (if q = p then leaves_at p f @ [\<lparr>lf_context = r, lf_qos = lf_qos l\<rparr>] else leaves_at q f)" for q
  proof -
    have "set_leaf_qos (same_id f r) (lf_qos l) (leaves_at p f) = None" using nosame by (simp add: set_leaf_qos_None)
    then show ?thesis using sub_add_leaves [OF rid(2), of q ?t "lf_qos l"] by (simp add: o(1) p add_leaf_def)
  qed
  have nl: "new_leaf d e l = \<lparr>lf_context = r, lf_qos = lf_qos l\<rparr>" using i r by (simp add: new_leaf_def)
  have "leaves_at q f' = map (new_leaf d e) (lasting_leaves d (leaves_in q (dn @ [(p, Inl l)])))" for q
    using assms(8) by (auto simp: leaves f(7) lasting_leaves_def nl)
  moreover have "retained_content f' q = saved_retained d (retained_in q (dn @ [(p, Inl l)]))" for q
  proof -
    have "ret_of (info_at q (subs f')) = ret_of (info_at q (subs f))" by (simp add: o(2) prepared_def)
    then show ?thesis using retained_content_keep [OF f(1) sk] f(8) by simp
  qed
  moreover have "has_child [] (subs f')"
  proof -
    have "sh_topic ` set (subs f) \<subseteq> sh_topic ` set (subs f')"
      using topics_ensure [of "hd (sub_path ?t)" "tl (sub_path ?t)"]
      by (auto simp: o(2) prepared_def sub_path_def with_root_def image_iff simp flip: set_map simp: topics_update_at)
    then show ?thesis using f(6) by (auto simp: has_child_iff)
  qed
  moreover have "\<exists>x. ctx_of f' q = (ctx_of e q)\<lparr>ctx_subs := x\<rparr>" for q
  proof -
    obtain x y where "ctx_of f' q = (ctx_of f q)\<lparr>ctx_subs := x\<rparr>" "ctx_of f q = (ctx_of e q)\<lparr>ctx_subs := y\<rparr>"
      using fr(5) f(4) by blast
    then have "ctx_of f' q = (ctx_of e q)\<lparr>ctx_subs := x\<rparr>" by simp
    then show ?thesis by blast
  qed
  moreover have "stores_kept e f'" using f(5) sk by (simp add: stores_kept_def)
  ultimately have "planted d (dn @ [(p, Inl l)]) e f'"
    using s' fr(3,4) f(2,3) by (simp add: planted_def)
  moreover have "apply_chunks alloc (item_chunks d (p, Inl l)) (loads, f) = (0, loads, f')"
    using assms(8) i o(1)
    by (simp add: item_chunks_def leaf_chunks_def Let_def db_sub_restore_def db_restore_sub_def db_find_or_add_context_def look)
  ultimately show ?thesis by blast
qed
lemma update_same: "map_of al i = Some v \<Longrightarrow> AList.update i v al = al"
  by (induction al) auto

lemma retained_step:
  assumes P: "planted d dn e f" and t: "ms_topic (store_of d s) = Some t"
    and keep: "\<not> is_sys t \<Longrightarrow> p = sub_path t \<and> take 1 t \<noteq> ''$'' \<and> ms_payload (store_of d s) \<noteq> [] \<and> ms_retain (store_of d s) \<and>
      loaded (loads, e) (store_of d s) \<and> retained_in p dn = []"
  shows "\<exists>f'. apply_chunks alloc (item_chunks d (p, Inr s)) (loads, f) = (0, loads, f') \<and> planted d (dn @ [(p, Inr s)]) e f'"
proof (cases "is_sys t")
  case True
  then have "item_chunks d (p, Inr s) = []" by (simp add: item_chunks_def retained_chunks_def t)
  moreover have "saved_retained d (retained_in q (dn @ [(p, Inr s)])) = saved_retained d (retained_in q dn)" for q
    using True by (simp add: saved_retained_def sys_topic_def t)
  then have "planted d (dn @ [(p, Inr s)]) e f" using P unfolding planted_def by simp
  ultimately show ?thesis by simp
next
  case False
  have k: "sub_path t = p" "take 1 t \<noteq> ''$''" "ms_payload (store_of d s) \<noteq> []" "ms_retain (store_of d s)"
    "loaded (loads, e) (store_of d s)" "retained_in p dn = []"
    using keep [OF False] by auto
  have f: "sane f" "contexts_by_id f = contexts_by_id e" "\<And>q. ctx_live f q = ctx_live e q"
    "\<And>q. \<exists>x. ctx_of f q = (ctx_of e q)\<lparr>ctx_subs := x\<rparr>" "stores_kept e f" "has_child [] (subs f)"
    "\<And>p. leaves_at p f = map (new_leaf d e) (lasting_leaves d (leaves_in p dn))"
    "\<And>p. retained_content f p = saved_retained d (retained_in p dn)"
    using P unfolding planted_def by blast+
  have ld: "loaded (loads, f) (store_of d s)"
    using k f(5) loaded_keep [of loads e "store_of d s" f] by (simp add: stores_kept_def)
  then obtain s' where s': "map_of loads (ms_db_id (store_of d s)) = Some (Some s')" "store_live f s'"
    "content (store_of f s') = content (store_of d s)"
    by (auto simp: loaded_def)
  note c = content_fields [OF s'(3)]
  have ft: "ms_topic (store_of f s') = Some t" using c(1) t by simp
  have fr: "ms_retain (store_of f s')" using c(1,4) k False t by (simp add: sys_topic_def)
  have fp: "ms_payload (store_of f s') \<noteq> []" using c(2) k by simp
  have "(s', store_of f s') \<in> set (msg_store f)"
    using s'(2) sane_parts(1) [OF f(1)] store_of_member [of f s']
    by (auto simp: store_live_def broker_inv_def msgs_inv_def store_inv_def counts_ok_def)
  then have free: "wildcard_free t"
    using sane_parts(1) [OF f(1)] ft by (auto simp: broker_inv_def topics_ok_def)
  have root: "has_child (hd (sub_topic_tokenise t)) (subs f)" using k f(6) by (simp add: tokenise_levels)
  have "saved_retained d (retained_in p dn) = None" by (simp add: saved_retained_def k(6))
  then have "ret_of (info_at p (subs f)) = None" using f(8) [of p] by (simp add: retained_content_def)
  then have first: "info_at (sub_path t) (subs f) \<noteq> Some (ls, Some r)" for ls r using k by auto
  obtain f' where n: "messages_queue_null t True s' f = (Some s', f')" "restorable f'" "contexts f' = contexts f"
    "contexts_by_id f' = contexts_by_id f" "glob f' = glob f" "msg_store f' = msg_store (upd_store s' one_more f)"
    "subs f' = update_at (sub_path t) (set_retained (Some s')) (ensure_path (sub_path t) (subs f))"
    by (rule null_queue_step [OF _ root free s'(2) fp first]) (use f(1) in \<open>simp_all add: sane_def\<close>)
  have sk: "stores_kept f f'"
    using store_live_cong [OF n(6)] store_of_cong [OF n(6)] by (auto simp: stores_kept_def store_of_upd_store)
  have ctxs: "ctx_of f' = ctx_of f" "ctx_live f' = ctx_live f" by (simp_all add: ctx_of_def ctx_live_def n(3) fun_eq_iff)
  have ret: "ret_of (info_at q (subs f')) = (if q = p then Some s' else ret_of (info_at q (subs f)))" for q
  proof -
    have "node_at (sub_path t) (ensure_path (sub_path t) (subs f)) \<noteq> None" by (simp add: ensure_present sub_path_def)
    then show ?thesis using k ret_ensure [of q "sub_path t" "subs f"]
      by (auto simp: n(7) info_at_update_at simp del: ret_ensure)
  qed
  have "retained_content f' q = saved_retained d (retained_in q (dn @ [(p, Inr s)]))" for q
  proof (cases "q = p")
    case True
    have "content (store_of f' s') = content (store_of d s)" using sk s'(2,3) by (simp add: stores_kept_def)
    then show ?thesis using True k False t by (simp add: retained_content_def ret saved_retained_def sys_topic_def)
  next
    case False
    then show ?thesis using retained_content_keep [OF f(1) sk, of q] f(8) ret by simp
  qed
  moreover have "leaves_at q f' = leaves_at q f" for q
    using same_shape_leaves [OF same_shape_retained, of q] by (simp add: leaves_at_info n(7))
  moreover have "has_child [] (subs f')"
  proof -
    have "sh_topic ` set (subs f') = sh_topic ` set (ensure_path (sub_path t) (subs f))"
      unfolding n(7) by (simp add: topics_update_at flip: set_map)
    then show ?thesis using f(6) topics_ensure [of "hd (sub_path t)" "tl (sub_path t)" "subs f"]
      by (simp add: has_child_iff sub_path_def)
  qed
  moreover have "stores_kept e f'" using f(5) sk by (simp add: stores_kept_def)
  ultimately have "planted d (dn @ [(p, Inr s)]) e f'"
    using f n(2,4,5) by (simp add: planted_def ctxs sane_def)
  moreover have "apply_chunks alloc (item_chunks d (p, Inr s)) (loads, f) = (0, loads, f')"
    using False by (simp add: item_chunks_def retained_chunks_def t db_retain_restore_def s'(1) ft fr n(1) update_same)
  ultimately show ?thesis by blast
qed
subsection \<open>A restart\<close>

text \<open>The broker before its file is read.\<close>

definition opened_db :: "config \<Rightarrow> db" where
  "opened_db conf = snd (mqtt3_db_open (db_zero conf))"

text \<open>
  A broker that can be saved without loss: its identifiers and the ids of its stored messages are
  unambiguous, a lasting client is registered, has no subscription that starts with a slash or a
  dollar sign, and every retained message is at the node of its topic.
\<close>

definition unambiguous :: "db \<Rightarrow> bool" where
  "unambiguous d \<longleftrightarrow> distinct (map fst (contexts_by_id d)) \<and>
     (\<forall>(i, r) \<in> set (contexts_by_id d). ctx_live d r \<and> ctx_id (ctx_of d r) = Some i) \<and>
     distinct (map (\<lambda>(s, m). ms_db_id m) (msg_store d)) \<and> (\<forall>(s, m) \<in> set (msg_store d). ms_db_id m \<noteq> 0)"

definition plain_leaf :: "db \<Rightarrow> path \<Rightarrow> subleaf \<Rightarrow> bool" where
  "plain_leaf d p l \<longleftrightarrow> clean_session (ctx_of d (lf_context l)) \<or>
     sub_path (path_topic p) = p \<and>
     (\<exists>i. ctx_id (ctx_of d (lf_context l)) = Some i \<and> find_context i d = Some (lf_context l))"

definition plain_retained :: "db \<Rightarrow> path \<Rightarrow> store_ref \<Rightarrow> bool" where
  "plain_retained d p s \<longleftrightarrow> (\<forall>t. ms_topic (store_of d s) = Some t \<and> \<not> is_sys t \<longrightarrow>
     p = sub_path t \<and> take 1 t \<noteq> ''$'' \<and> ms_payload (store_of d s) \<noteq> [] \<and> ms_retain (store_of d s))"

definition restartable :: "db \<Rightarrow> bool" where
  "restartable d \<longleftrightarrow> broker_inv (\<lambda>s. 0) d \<and> all_named d \<and> unambiguous d \<and>
     (\<forall>p. \<forall>l \<in> set (leaves_at p d). plain_leaf d p l) \<and>
     (\<forall>p s. ret_of (info_at p (subs d)) = Some s \<longrightarrow> plain_retained d p s)"

lemma queue_msg:
  assumes "broker_inv (\<lambda>s. 0) d" and "ctx_live d r" and "m \<in> set (msgs (ctx_of d r))"
  shows "store_live d (cm_store m)" and "cm_direction m = mosq_md_in \<longrightarrow> cm_qos m = 2"
  using assms queued_live incoming_qos2 by (fastforce simp: broker_inv_def)+

lemma live_member: "store_live d s \<Longrightarrow> (s, store_of d s) \<in> set (msg_store d)"
  by (cases "map_of (msg_store d) s") (auto simp: store_live_def store_of_def map_of_eq_None_iff dest: map_of_SomeD)

lemma tree_restored:
  assumes d: "restartable d" and e: "sane e" "registry e" "sessions_of d (contexts_by_id d) e" "has_child [] (subs e)"
    and empty: "\<And>p. leaves_at p e = []" "\<And>p. ret_of (info_at p (subs e)) = None"
    and ld: "\<forall>(s, m) \<in> set (msg_store d). loaded (loads, e) m"
  shows "\<exists>f. apply_chunks alloc (tree_chunks d [] (subs d)) (loads, e) = (0, loads, f) \<and> planted d (tree_items [] (subs d)) e f"
proof -
  let ?its = "tree_items [] (subs d)"
  have inv: "broker_inv (\<lambda>s. 0) d" "linked d" "wf_tree (subs d)"
    using d by (simp_all add: restartable_def broker_inv_def linked_def)
  have its: "leaves_in p ?its = leaves_at p d" "retained_in p ?its = (case ret_of (info_at p (subs d)) of None \<Rightarrow> [] | Some s \<Rightarrow> [s])" for p
    using items_at [OF inv(3), of "[]" p] by (simp_all add: leaves_at_info)
  define P where "P = (\<lambda>dn (l, f). l = loads \<and> planted d dn e f)"
  have "\<exists>z. apply_chunks alloc (concat (map (item_chunks d) ?its)) (loads, e) = (0, z) \<and> P ?its z"
  proof (rule apply_chunks_list)
    have "\<exists>x. ctx_of e q = (ctx_of e q)\<lparr>ctx_subs := x\<rparr>" for q by (rule exI [of _ "ctx_subs (ctx_of e q)"]) simp
    then show "P [] (loads, e)"
      using e empty by (simp add: P_def planted_def stores_kept_def lasting_leaves_def retained_content_def saved_retained_def)
    fix dn a rest y
    assume split: "?its = dn @ a # rest" and "P dn y"
    then obtain f where y: "y = (loads, f)" and f: "planted d dn e f" by (cases y) (auto simp: P_def)
    obtain p x where a: "a = (p, x)" by (cases a)
    have "\<exists>f'. apply_chunks alloc (item_chunks d (p, x)) (loads, f) = (0, loads, f') \<and> planted d (dn @ [(p, x)]) e f'"
    proof (cases x)
      case (Inl l)
      have "leaves_at p d = leaves_in p (dn @ [a] @ rest)" using its(1) [of p] by (simp only: split append_Cons append_Nil)
      then have at: "leaves_at p d = leaves_in p dn @ [l] @ leaves_in p rest"
        by (simp only: items_append a Inl items_one if_True simp_thms)
      have plain: "plain_leaf d q k" if "k \<in> set (leaves_at q d)" for q k using d that by (simp add: restartable_def)
      show ?thesis
      proof (cases "clean_session (ctx_of d (lf_context l))")
        case True
        then have "item_chunks d (p, x) = []" by (simp add: item_chunks_def leaf_chunks_def Inl)
        moreover have "lasting_leaves d (leaves_in q (dn @ [(p, x)])) = lasting_leaves d (leaves_in q dn)"
          "retained_in q (dn @ [(p, x)]) = retained_in q dn" for q
          using True by (simp_all add: Inl lasting_leaves_def)
        then have "planted d (dn @ [(p, x)]) e f" using f unfolding planted_def by simp
        ultimately show ?thesis by simp
      next
        case False
        have known: "\<exists>i r. ctx_id (ctx_of d (lf_context k)) = Some i \<and> find_context i d = Some (lf_context k) \<and> find_context i e = Some r"
          if k: "k \<in> set (leaves_at q d)" "\<not> clean_session (ctx_of d (lf_context k))" for q k
        proof -
          obtain i where i: "ctx_id (ctx_of d (lf_context k)) = Some i" "find_context i d = Some (lf_context k)"
            using plain [OF k(1)] k(2) by (auto simp: plain_leaf_def)
          then have "(i, lf_context k) \<in> set (contexts_by_id d)" by (simp add: find_context_def map_of_SomeD)
          then show ?thesis using e(3) i k(2) by (fastforce simp: sessions_of_def lasting_client_def)
        qed
        have l: "l \<in> set (leaves_at p d)" by (simp add: at)
        obtain i r where i: "ctx_id (ctx_of d (lf_context l)) = Some i" "find_context i d = Some (lf_context l)" "find_context i e = Some r"
          using known [OF l False] by blast
        have path: "sub_path (path_topic p) = p" using plain [OF l] False by (simp add: plain_leaf_def)
        have "info_at p (subs d) \<noteq> None" using l by (cases "info_at p (subs d)") (auto simp: leaves_at_info)
        then have hl: "hash_last p" by (rule wf_hash_last [OF inv(3)])
        have other: "\<exists>j r'. j \<noteq> i \<and> ctx_id (ctx_of d (lf_context k)) = Some j \<and> find_context j e = Some r'"
          if k: "k \<in> set (lasting_leaves d (leaves_in p dn))" for k
        proof -
          have kk: "k \<in> set (leaves_at p d)" "\<not> clean_session (ctx_of d (lf_context k))" "k \<in> set (leaves_in p dn)"
            using k by (auto simp: at lasting_leaves_def)
          obtain j r' where j: "ctx_id (ctx_of d (lf_context k)) = Some j" "find_context j d = Some (lf_context k)" "find_context j e = Some r'"
            using known [OF kk(1,2)] by blast
          have "lf_context k \<noteq> lf_context l"
            using linkedD(3) [OF inv(2), of p] imageI [OF kk(3), of lf_context] by (auto simp: at)
          then show ?thesis using i(2) j by auto
        qed
        show ?thesis unfolding Inl by (rule leaf_step [OF f e(2) i(1,3) path hl other False])
      qed
    next
      case (Inr s)
      have "s \<in> set (retained_in p ?its)" by (simp add: split a Inr) (simp add: retained_in_def)
      then have ret: "ret_of (info_at p (subs d)) = Some s" by (auto simp: its split: option.splits)
      have none: "retained_in p dn = []"
      proof -
        have "retained_in p (dn @ [a] @ rest) = [s]" using its(2) [of p] by (simp only: split append_Cons append_Nil ret) simp
        then have "retained_in p dn @ [s] @ retained_in p rest = [s]"
          by (simp only: items_append a Inr items_one if_True simp_thms)
        then show ?thesis by (simp add: append_eq_Cons_conv)
      qed
      obtain h where "node_at p (subs d) = Some h" "sh_retained h = Some s"
        using ret by (cases "node_at p (subs d)") (auto simp: info_at_def)
      then have live: "store_live d s"
        using refs_live [of "\<lambda>s. 0" d s] tree_refs_pos inv(1) by (simp add: broker_inv_def)
      then have "loaded (loads, e) (store_of d s)" using ld live_member by fastforce
      moreover obtain t where t: "ms_topic (store_of d s) = Some t"
        using d live_member [OF live] by (fastforce simp: restartable_def all_named_def)
      moreover have "plain_retained d p s" using d ret by (simp add: restartable_def)
      ultimately have "\<not> is_sys t \<Longrightarrow> p = sub_path t \<and> take 1 t \<noteq> ''$'' \<and> ms_payload (store_of d s) \<noteq> [] \<and>
          ms_retain (store_of d s) \<and> loaded (loads, e) (store_of d s) \<and> retained_in p dn = []"
        using none unfolding plain_retained_def by blast
      then show ?thesis unfolding Inr by (rule retained_step [OF f t])
    qed
    then show "\<exists>z. apply_chunks alloc (item_chunks d a) y = (0, z) \<and> P (dn @ [a]) z" by (auto simp: y a P_def)
  qed
  then show ?thesis using tree_chunks_items [of d "[]" "subs d"] by (auto simp: P_def path_topic_def)
qed
lemma opened_facts:
  "contexts (opened_db conf) = (\<lambda>r. None)" "msg_store (opened_db conf) = []" "contexts_by_id (opened_db conf) = []"
  "subs (opened_db conf) = [SubHier [] [] None [], SubHier ''$SYS'' [] None []]" "glob (opened_db conf) = globals_init"
  by (simp_all add: opened_db_def mqtt3_db_open_def db_zero_def)

lemma opened_sane: "sane ((opened_db conf)\<lparr>last_db_id := n\<rparr>)"
proof -
  have "sound (started conf [])" by (rule started_sound) (simp_all add: mounts_ok_def ports_ok_def)
  then have "broker_inv (\<lambda>s. 0) (started conf [])" by (simp add: sound_def orderly_parts)
  then have "broker_inv (\<lambda>s. 0) (recounted ((opened_db conf)\<lparr>last_db_id := n\<rparr>))"
    by (rule broker_inv_tables) (simp_all add: recounted_def opened_facts started_def flip: opened_db_def)
  then show ?thesis by (simp add: sane_def restorable_def opened_facts globals_init_def)
qed

lemma restored_from_chunks:
  assumes d: "restartable d" and alloc: "alloc_ok alloc"
  shows "\<exists>loads e f. apply_chunks alloc (saved sh d) ([], opened_db conf) = (0, loads, f) \<and>
    planted d (tree_items [] (subs d)) e f \<and> sessions_of d (contexts_by_id d) e \<and> queues_live e \<and> registry e"
proof -
  let ?e0 = "(opened_db conf)\<lparr>last_db_id := last_db_id d\<rparr>"
  have inv: "broker_inv (\<lambda>s. 0) d" "unambiguous d" "all_named d" using d by (simp_all add: restartable_def)
  have topics: "\<forall>(s, m) \<in> set (msg_store d). \<exists>t. ms_topic m = Some t \<and> wildcard_free t"
    using inv(1,3) by (fastforce simp: broker_inv_def topics_ok_def all_named_def)
  obtain loads e1 where st: "apply_chunks alloc (all_store_chunks d) ([], ?e0) = (0, loads, e1)" "sane e1"
    "contexts e1 = contexts ?e0" "subs e1 = subs ?e0" "contexts_by_id e1 = contexts_by_id ?e0"
    "\<forall>(s, m) \<in> set (msg_store d). loaded (loads, e1) m"
    using stores_restored [OF opened_sane [of "last_db_id d" conf] topics, where alloc = alloc and loads = "[]"] inv(2)
    by (auto simp: unambiguous_def all_store_chunks_def)
  let ?cs = "rev (contexts_by_id d)"
  have q: "\<forall>(i, r) \<in> set ?cs. \<forall>m \<in> set (msgs (ctx_of d r)). loaded (loads, e1) (store_of d (cm_store m)) \<and>
       (cm_direction m = mosq_md_in \<longrightarrow> cm_qos m = 2)"
  proof clarify
    fix i r m assume c: "(i, r) \<in> set ?cs" and m: "m \<in> set (msgs (ctx_of d r))"
    then have live: "ctx_live d r" using inv(2) by (auto simp: unambiguous_def)
    note qm = queue_msg [OF inv(1) live m]
    show "loaded (loads, e1) (store_of d (cm_store m)) \<and> (cm_direction m = mosq_md_in \<longrightarrow> cm_qos m = 2)"
      using st(6) live_member [OF qm(1)] qm(2) by fastforce
  qed
  have "\<exists>e. apply_chunks alloc (concat (map (\<lambda>(i, r). client_chunks d (ctx_of d r)) ?cs)) (loads, e1) = (0, loads, e) \<and>
      clients_restored d ?cs e1 e"
    by (rule all_clients_restored [OF alloc st(2) _ _ _ _ q])
      (use st(3,5) inv(2) in \<open>auto simp: ctx_live_def opened_facts unambiguous_def rev_map [symmetric]\<close>)
  then obtain e where cl: "apply_chunks alloc (all_client_chunks d) (loads, e1) = (0, loads, e)" "clients_restored d ?cs e1 e"
    by (auto simp: all_client_chunks_def)
  have e: "sane e" "registry e" "sessions_of d (contexts_by_id d) e" "queues_live e" "subs e = subs e1" "stores_kept e1 e"
    using cl(2) by (auto simp: clients_restored_def sessions_of_def)
  have sub: "subs e = [SubHier [] [] None [], SubHier ''$SYS'' [] None []]" using e(5) st(4) by (simp add: opened_facts)
  have none: "leaves_at p e = []" "ret_of (info_at p (subs e)) = None" for p
    unfolding leaves_at_info sub by (cases p; simp add: info_at_Cons)+
  have ld: "\<forall>(s, m) \<in> set (msg_store d). loaded (loads, e) m"
    using st(6) e(6) loaded_keep [of loads e1 _ e] by (fastforce simp: stores_kept_def)
  have root: "has_child [] (subs e)" by (simp add: sub has_child_def)
  obtain f where f: "apply_chunks alloc (tree_chunks d [] (subs d)) (loads, e) = (0, loads, f)" "planted d (tree_items [] (subs d)) e f"
    using tree_restored [OF d e(1-3) root none ld, of alloc] by blast
  have "apply_chunks alloc (saved sh d) ([], opened_db conf) = (0, loads, f)"
    using st(1) cl(1) f(1) by (simp add: saved_def apply_chunks_append)
  then show ?thesis using f(2) e(2,3,4) by blast
qed
lemma sys_topic_content [simp]: "sys_topic (content m) = sys_topic m"
  by (simp add: sys_topic_def content_def)

text \<open>
  C6. A restart gives everybody back what they had. If the disk has room for the file, a backup
  followed by a start of the broker succeeds. Every lasting client, and nobody else, is known again, without a
  connection, with its last message id, the time it left, and the messages of its queue in their order, each in its
  state and with the same topic and payload. The tree has the subscriptions of the lasting clients at the same
  nodes, in the same order and with the same QoS, and the same retained messages but those below \<^verbatim>\<open>$SYS\<close>.
  The broker satisfies its invariants but for one thing: the counters of the restored queues are 0.
\<close>

theorem restart_restores:
  assumes "restartable d" and "alloc_ok alloc" and "\<forall>ch \<in> set (saved sh d). chunk_ok ch"
    and "dk_opens dk" and "dk_renames dk" and "length (file_bytes (saved sh d)) \<le> dk_room dk" and "persistence conf"
  shows "\<exists>fs' e. mqtt3_db_backup (Some path) dk sh fs d = (0, fs', d) \<and>
    db_open_restored alloc (Some path) fs' (db_zero conf) = (0, e) \<and>
    sessions_of d (contexts_by_id d) e \<and>
    (\<forall>p. leaves_at p e = map (new_leaf d e) (lasting_leaves d (leaves_at p d))) \<and>
    (\<forall>p. retained_content e p = Option.bind (retained_content d p) (\<lambda>m. if sys_topic m then None else Some m)) \<and>
    broker_inv (\<lambda>s. 0) (recounted e) \<and> \<not> fault (glob e)"
proof -
  let ?file = "file_bytes (saved sh d)"
  have named: "all_named d" and wf: "wf_tree (subs d)"
    using assms(1) by (simp_all add: restartable_def broker_inv_def linked_def)
  have "length (file_bytes (CfgChunk sh (last_db_id d) # all_store_chunks d)) \<le> dk_room dk"
    using assms(6) by (simp add: file_bytes_def saved_parts)
  then have part: "flushed (dk_flush dk) (length (file_bytes (CfgChunk sh (last_db_id d) # all_store_chunks d))) \<le> dk_room dk"
    using flushed_le le_trans by blast
  have fits: "take (dk_room dk) ?file = ?file" using assms(6) by simp
  define fs' where "fs' = fs(path \<mapsto> ?file, path @ ''.new'' := None)"
  have b: "mqtt3_db_backup (Some path) dk sh fs d = (0, fs', d)"
    using assms(4,5) part
    by (auto simp: mqtt3_db_backup_def Let_def write_database_puts [OF named] disk_takes_def closed_puts out_fault_puts fits fs'_def)
  obtain loads e f where r: "apply_chunks alloc (saved sh d) ([], opened_db conf) = (0, loads, f)"
    and pl: "planted d (tree_items [] (subs d)) e f" and e: "sessions_of d (contexts_by_id d) e" "queues_live e" "registry e"
    using restored_from_chunks [OF assms(1,2)] by blast
  have "fs' path = Some ?file" by (simp add: fs'_def)
  then have o: "db_open_restored alloc (Some path) fs' (db_zero conf) = (0, f)"
    using restore_file [OF assms(3), of alloc "opened_db conf"] r assms(7)
    by (simp add: db_open_restored_def opened_db_def) (simp add: mqtt3_db_open_def db_zero_def)
  have f: "sane f" "contexts_by_id f = contexts_by_id e" "stores_kept e f"
    "\<And>q. \<exists>x. ctx_of f q = (ctx_of e q)\<lparr>ctx_subs := x\<rparr>"
    "\<And>p. leaves_at p f = map (new_leaf d e) (lasting_leaves d (leaves_in p (tree_items [] (subs d))))"
    "\<And>p. retained_content f p = saved_retained d (retained_in p (tree_items [] (subs d)))"
    using pl unfolding planted_def by blast+
  have look: "find_context i f = find_context i e" for i by (simp add: find_context_def f(2))
  have its: "leaves_in p (tree_items [] (subs d)) = leaves_at p d"
    "retained_in p (tree_items [] (subs d)) = (case ret_of (info_at p (subs d)) of None \<Rightarrow> [] | Some s \<Rightarrow> [s])" for p
    using items_at [OF wf, of "[]" p] by (simp_all add: leaves_at_info)
  have "session d c f (ctx_of f q)" if q: "find_context i e = Some q" "session d c e (ctx_of e q)" for i c q
  proof -
    obtain x where x: "ctx_of f q = (ctx_of e q)\<lparr>ctx_subs := x\<rparr>" using f(4) by blast
    have "\<forall>m \<in> set (msgs (ctx_of e q)). store_live e (cm_store m)" using e(2,3) q(1) by (auto simp: registry_def queues_live_def)
    then show ?thesis by (rule session_keep [OF q(2) _ f(3)]) (simp_all add: x)
  qed
  then have "sessions_of d (contexts_by_id d) f" using e(1) by (fastforce simp: sessions_of_def look)
  moreover have "new_leaf d f = new_leaf d e" by (auto simp: new_leaf_def look fun_eq_iff split: option.splits)
  moreover have "retained_content f p = Option.bind (retained_content d p) (\<lambda>m. if sys_topic m then None else Some m)" for p
    unfolding f(6) its by (cases "ret_of (info_at p (subs d))") (simp_all add: saved_retained_def retained_content_def)
  ultimately show ?thesis using b o f(1,5) its by (auto simp: sane_def restorable_def)
qed

text \<open>A sample broker: one client with a queued message, a subscription and a retained message.\<close>

definition saved_msg :: client_msg where
  "saved_msg = \<lparr>cm_ptr = 10, cm_store = 2, cm_timestamp = 0, cm_mid = 5, cm_qos = 1, cm_retain = False,
     cm_direction = mosq_md_out, cm_state = mosq_ms_wait_for_puback, cm_dup = False\<rparr>"

definition saved_ctx :: ctx where
  "saved_ctx = ctx_zero\<lparr>sock := 4, ctx_id := Some ''c1'', state := mosq_cs_connected, last_mid := 5, msgs := [saved_msg],
     last_msg := Some 10, msg_count := 1, msg_count12 := 1, ctx_subs := [Some [[], [], ''a'']]\<rparr>"

definition stored_as :: "u64 \<Rightarrow> bool \<Rightarrow> msg_store" where
  "stored_as i r = msg_store_zero\<lparr>ms_db_id := i, ms_ref_count := 1, ms_topic := Some ''a'', ms_payload := [7], ms_qos := 1, ms_retain := r\<rparr>"

definition saved_db :: db where
  "saved_db = (db_zero config_init)\<lparr>last_db_id := 2, contexts := [7 \<mapsto> saved_ctx], contexts_by_id := [(''c1'', 7)],
     msg_store := [(3, stored_as 2 True), (2, stored_as 1 False)], msg_store_count := 2,
     subs := [SubHier [] [] None [SubHier [] [] None [SubHier ''a'' [\<lparr>lf_context = 7, lf_qos = 1\<rparr>] (Some 3) []]],
       SubHier ''$SYS'' [] None []], glob := globals_init\<lparr>next_ptr := 12\<rparr>\<rparr>"

lemma saved_db_simps:
  "contexts saved_db = [7 \<mapsto> saved_ctx]" "ctx_of saved_db q = (if q = 7 then saved_ctx else ctx_zero)"
  "contexts_by_id saved_db = [(''c1'', 7)]" "msg_store saved_db = [(3, stored_as 2 True), (2, stored_as 1 False)]"
  "store_of saved_db 3 = stored_as 2 True" "store_of saved_db 2 = stored_as 1 False" "next_ptr (glob saved_db) = 12"
  "subs saved_db = [SubHier [] [] None [SubHier [] [] None [SubHier ''a'' [\<lparr>lf_context = 7, lf_qos = 1\<rparr>] (Some 3) []]],
     SubHier ''$SYS'' [] None []]" "last_db_id saved_db = 2"
  by (simp_all add: saved_db_def ctx_of_def store_of_def)

lemma saved_info:
  "leaves_at p saved_db = (if p = [[], [], ''a''] then [\<lparr>lf_context = 7, lf_qos = 1\<rparr>] else [])"
  "ret_of (info_at p (subs saved_db)) = (if p = [[], [], ''a''] then Some 3 else None)"
proof -
  have "info_at p (subs saved_db) = (if p = [[], [], ''a''] then Some ([\<lparr>lf_context = 7, lf_qos = 1\<rparr>], Some 3)
    else if p = [[]] \<or> p = [[], []] \<or> p = [''$SYS''] then Some ([], None) else None)"
  proof (cases p)
    case (Cons t ts)
    then show ?thesis
    proof (cases ts)
      case (Cons u us)
      then show ?thesis using \<open>p = t # ts\<close> by (cases us) (auto simp: saved_db_simps info_at_Cons)
    qed (auto simp: saved_db_simps info_at_Cons)
  qed simp
  then show "leaves_at p saved_db = (if p = [[], [], ''a''] then [\<lparr>lf_context = 7, lf_qos = 1\<rparr>] else [])"
    "ret_of (info_at p (subs saved_db)) = (if p = [[], [], ''a''] then Some 3 else None)"
    by (auto simp: leaves_at_info)
qed

lemma saved_db_inv: "broker_inv (\<lambda>s. 0) saved_db"
proof -
  have dom: "dom (contexts saved_db) = {7}" by (simp add: saved_db_simps)
  have total: "total_refs saved_db s = (if s = 2 \<or> s = 3 then 1 else 0)" for s
    unfolding total_refs_def dom by (simp add: saved_db_simps queue_refs_def saved_ctx_def saved_msg_def)
  have "counts_ok (\<lambda>s. int (total_refs saved_db s) + 0) saved_db"
    by (simp add: counts_ok_def total store_live_def saved_db_simps stored_as_def)
  moreover have "queue_ok 12 saved_ctx"
    by (simp add: queue_ok_def keys_def keys_ok_def pos_qos_def saved_ctx_def saved_msg_def msg_key_def)
  ultimately have "msgs_inv (\<lambda>s. 0) saved_db"
    using dom by (auto simp: msgs_inv_def store_inv_def saved_db_simps split: if_splits)
  moreover have "linked saved_db"
    by (auto simp: linked_def saved_info saved_db_simps(2) saved_ctx_def ctx_zero_def) (simp add: saved_db_simps)
  moreover have "topics_ok saved_db" by (simp add: topics_ok_def saved_db_simps stored_as_def wildcard_free_def)
  ultimately show ?thesis by (simp add: broker_inv_def)
qed

lemma saved_db_restartable: "restartable saved_db"
proof -
  have "all_named saved_db"
    by (simp add: all_named_def saved_db_simps stored_as_def saved_ctx_def)
  moreover have "unambiguous saved_db"
    by (simp add: unambiguous_def saved_db_simps saved_ctx_def ctx_live_def stored_as_def)
  moreover have "sub_path ''a'' = [[], [], ''a'']" by (simp add: sub_path_def tokenise_levels)
  then have "plain_leaf saved_db [[], [], ''a''] \<lparr>lf_context = 7, lf_qos = 1\<rparr>"
    "plain_retained saved_db [[], [], ''a''] 3"
    by (simp_all add: plain_leaf_def path_topic_def child_topic_def find_context_def saved_db_simps saved_ctx_def
        plain_retained_def stored_as_def)
  ultimately show ?thesis using saved_db_inv by (auto simp: restartable_def saved_info)
qed

definition next_free :: "db \<Rightarrow> ctx_ref" where
  "next_free d = Suc (Max (insert 0 (dom (contexts d))))"

lemma next_free_ok: "alloc_ok next_free"
  using linux_ok by (simp add: alloc_ok_def next_free_def kernel_ok_def linux_def)
text \<open>Everything that the file of the sample is made of.\<close>

lemmas saved_bytes = file_bytes_def header_fields_def magic_length saved_def all_store_chunks_def all_client_chunks_def saved_db_simps
  store_chunks_def client_chunks_def client_msg_chunk_def leaf_chunks_def retained_chunks_def stored_as_def saved_ctx_def
  saved_msg_def child_topic_def is_sys_def msg_store_zero_def chunk_bytes_def chunk_fields_def body_defs counted_string_def in_full_def
  len16_def ctx_zero_def

text \<open>A stream with a buffer of 4096 bytes.\<close>

definition blocks :: "nat \<Rightarrow> nat" where
  "blocks n = 4096 * (n div 4096)"

lemma blocks_flushed: "flushed blocks n = blocks n"
  by (rule flushed_honest) (auto simp: blocks_def mono_def div_le_mono)

theorem restart_restores_witness:
  "\<exists>fs' e. mqtt3_db_backup (Some ''db'') \<lparr>dk_opens = True, dk_room = 4096, dk_flush = blocks, dk_renames = True\<rparr> True (\<lambda>f. None) saved_db = (0, fs', saved_db) \<and>
     db_open_restored next_free (Some ''db'') fs' (db_zero (config_init\<lparr>persistence := True\<rparr>)) = (0, e) \<and>
     sessions_of saved_db [(''c1'', 7)] e \<and> leaves_at [[], [], ''a''] e \<noteq> [] \<and>
     retained_content e [[], [], ''a''] = Some (content (stored_as 2 True))"
proof -
  have fits: "\<forall>ch \<in> set (saved True saved_db). chunk_ok ch"
    by (simp add: saved_def all_store_chunks_def all_client_chunks_def saved_db_simps store_chunks_def client_chunks_def
        client_msg_chunk_def leaf_chunks_def retained_chunks_def stored_as_def saved_ctx_def saved_msg_def packable_def nul_free_def
        child_topic_def is_sys_def gone_since_def time_ok_def msg_store_zero_def)
      (simp add: saved_db_def ctx_zero_def globals_init_def)
  have room: "length (file_bytes (saved True saved_db)) \<le> 4096"
    by (simp add: saved_bytes)
  have "sub_path ''a'' = [[], [], ''a'']" by (simp add: sub_path_def tokenise_levels)
  have r: "retained_content saved_db [[], [], ''a''] = Some (content (stored_as 2 True))"
    unfolding retained_content_def saved_info(2) by (simp add: saved_db_simps(5))
  have nosys: "\<not> sys_topic (stored_as 2 True)" by (simp add: sys_topic_def stored_as_def is_sys_def)
  have l: "lasting_leaves saved_db (leaves_at [[], [], ''a''] saved_db) \<noteq> []"
    by (simp add: saved_info lasting_leaves_def saved_db_simps saved_ctx_def ctx_zero_def)
  show ?thesis
    using restart_restores [OF saved_db_restartable next_free_ok fits, of "\<lparr>dk_opens = True, dk_room = 4096, dk_flush = blocks, dk_renames = True\<rparr>"
        "config_init\<lparr>persistence := True\<rparr>" "''db''" "\<lambda>f. None"] room r nosys l
    by (fastforce simp: saved_db_simps(3))
qed

text \<open>The sample has a lasting subscription to \<open>a\<close>; one to \<open>/a\<close> or \<open>$SYS/a\<close> would be saved as another.\<close>

theorem subscriptions_saved_witness:
  "out_bytes (mqtt3_db_subs_retain_write saved_db
       \<lparr>out_bytes = [], out_room = 1000, out_flush = blocks, out_failed = False, out_fault = False\<rparr>) =
     concat (map chunk_bytes (tree_chunks saved_db [] (subs saved_db))) \<and>
   SubChunk ''c1'' ''a'' 1 \<in> set (tree_chunks saved_db [] (subs saved_db)) \<and>
   chunk_bytes (SubChunk ''c1'' ''a'' 1) = [0, 5, 0, 0, 0, 8, 0, 2, 0x63, 0x31, 0, 1, 0x61, 1] \<and>
   path_topic (sub_path ''/a'') = ''a'' \<and> path_topic (sub_path ''$SYS/a'') = ''$SYS/$SYS/a''"
proof -
  let ?f = "\<lparr>out_bytes = [], out_room = 1000, out_flush = blocks, out_failed = False, out_fault = False\<rparr>"
  have wf: "wf_tree (subs saved_db)" by (simp add: saved_db_simps)
  have named: "tree_named saved_db (subs saved_db)" using saved_db_restartable by (simp add: restartable_def all_named_def)
  have "length (chunks_bytes (tree_chunks saved_db [] (subs saved_db))) \<le> 1000" by (simp add: saved_bytes)
  then have room: "disk_takes ?f (length (chunks_bytes (tree_chunks saved_db [] (subs saved_db))))"
    using flushed_le [of blocks "length (chunks_bytes (tree_chunks saved_db [] (subs saved_db)))"] by (simp add: disk_takes_def)
  note s = subscriptions_saved [OF wf named room]
  have "lasting_leaf saved_db ''c1'' 1 \<lparr>lf_context = 7, lf_qos = 1\<rparr>"
    by (simp add: lasting_leaf_def saved_db_simps(2) saved_ctx_def ctx_zero_def)
  moreover have "path_topic [[], [], ''a''] = ''a''" by (simp add: path_topic_def child_topic_def)
  moreover have "\<lparr>lf_context = 7, lf_qos = 1\<rparr> \<in> set (leaves_at [[], [], ''a''] saved_db)" by (simp add: saved_info)
  ultimately have "SubChunk ''c1'' ''a'' 1 \<in> set (tree_chunks saved_db [] (subs saved_db))"
    using s [of "''c1''" "''a''" 1 "''a''"] by metis
  moreover have "chunk_bytes (SubChunk ''c1'' ''a'' 1) = [0, 5, 0, 0, 0, 8, 0, 2, 0x63, 0x31, 0, 1, 0x61, 1]"
    using s [of "''c1''" "''a''" 1 "''a''"] by (simp add: be32_def uint16_bytes_def mosq_msb_def mosq_lsb_def bytes_of_def byte_of_char_def)
  moreover have "path_topic (sub_path g) = saved_filter g" for g using s by blast
  ultimately show ?thesis using s [of "''c1''" "''a''" 1 "''a''"] by (simp add: saved_filter_def)
qed

end
