(* ===== verification/Client.thy ===== *)
theory Client
  imports SubTree
begin

text \<open>
  The message queues of the client library, \<^verbatim>\<open>lib/messages_mosq.c\<close>, \<^verbatim>\<open>lib/read_handle.c\<close> and the parts of
  \<^verbatim>\<open>lib/mosquitto.c\<close>, \<^verbatim>\<open>lib/net_mosq.c\<close>, \<^verbatim>\<open>lib/send_mosq.c\<close> and \<^verbatim>\<open>lib/read_handle_shared.c\<close> they need,
  as compiled without \<^verbatim>\<open>WITH_BROKER\<close>.

  The fields that \<^verbatim>\<open>struct mosquitto\<close> has in both programs are those of \<^typ>\<open>ctx\<close>. The client runs in one
  thread, \<^verbatim>\<open>threaded\<close> is false. A callback of the application is an entry of \<open>events\<close>; what the
  application does then, it does between two calls of the library, so that \<^verbatim>\<open>in_callback\<close> is false whenever a
  packet is queued.
\<close>

subsection \<open>State\<close>

record mosquitto_message =
  mm_mid :: u16
  mm_topic :: string
  mm_payload :: "byte list"
  mm_qos :: nat
  mm_retain :: bool

record message_all =
  ma_ptr :: nat
  ma_timestamp :: int
  ma_state :: mosquitto_msg_state
  ma_dup :: bool
  ma_msg :: mosquitto_message

datatype event =
    OnConnect byte
  | OnDisconnect rc
  | OnPublish u16
  | OnMessage mosquitto_message
  | OnSubscribe u16 "byte list"
  | OnUnsubscribe u16

record client =
  conn :: ctx
  clock :: int
  on_connect :: bool
  on_disconnect :: bool
  on_publish :: bool
  on_message :: bool
  on_subscribe :: bool
  on_unsubscribe :: bool
  events :: "event list"
  message_retry :: int
  last_retry_check :: int
  in_messages :: "message_all list"
  in_messages_last :: "nat option"
  out_messages :: "message_all list"
  out_messages_last :: "nat option"
  in_queue_len :: int
  out_queue_len :: int
  inflight_messages :: int
  max_inflight_messages :: int
  cl_next :: nat
  cl_fault :: bool

definition upd_conn :: "(ctx \<Rightarrow> ctx) \<Rightarrow> client \<Rightarrow> client" where
  "upd_conn f cl = cl\<lparr>conn := f (conn cl)\<rparr>"

text \<open>Call a callback if the application has set it.\<close>

definition tell :: "bool \<Rightarrow> event \<Rightarrow> client \<Rightarrow> client" where
  "tell is_set ev cl = (if is_set then cl\<lparr>events := events cl @ [ev]\<rparr> else cl)"

subsection \<open>Sending\<close>

definition lib_socket_close :: "client \<Rightarrow> client" where
  "lib_socket_close =
     upd_conn (\<lambda>c. c\<lparr>ssl := None, sock := (if 0 \<le> sock c then INVALID_SOCKET else sock c)\<rparr>)"

definition packet_gone :: "client \<Rightarrow> client" where
  "packet_gone cl = upd_conn (\<lambda>c. (next_out_packet c)\<lparr>last_msg_out := clock cl\<rparr>) cl"

lemma next_out_packet_fewer:
  "current_out_packet c = Some p \<Longrightarrow>
     length (wr_answers (next_out_packet c)) + length (out_packet (next_out_packet c))
       + (case current_out_packet (next_out_packet c) of None \<Rightarrow> 0 | Some _ \<Rightarrow> 1)
     < length (wr_answers c) + length (out_packet c) + (case current_out_packet c of None \<Rightarrow> 0 | Some _ \<Rightarrow> 1)"
  by (auto simp: next_out_packet_def split: list.splits)

function lib_write_loop :: "client \<Rightarrow> rc \<times> client" where
  "lib_write_loop cl =
     (case current_out_packet (conn cl) of
        None \<Rightarrow> (MOSQ_ERR_SUCCESS, cl)
      | Some p \<Rightarrow>
          if to_process p > 0 then
            (case mosquitto_net_write (take (unat (to_process p)) (drop (unat (pos p)) (payload p))) (conn cl) of
               (n, e, c1) \<Rightarrow>
                 if n > 0 then
                   lib_write_loop
                     (cl\<lparr>conn := c1\<lparr>current_out_packet :=
                           Some (p\<lparr>to_process := to_process p - word_of_int n, pos := pos p + word_of_int n\<rparr>)\<rparr>\<rparr>)
                 else if e = EAGAIN then (MOSQ_ERR_SUCCESS, cl\<lparr>conn := c1\<rparr>)
                 else if e = ECONNRESET then (MOSQ_ERR_CONN_LOST, cl\<lparr>conn := c1\<rparr>)
                 else (MOSQ_ERR_ERRNO, cl\<lparr>conn := c1\<rparr>))
          else if is_publish_qos0 p then
            lib_write_loop (packet_gone (tell (on_publish cl) (OnPublish (pkt_mid p)) cl))
          else if command p AND 0xF0 = DISCONNECT then
            (MOSQ_ERR_SUCCESS, tell (on_disconnect cl) (OnDisconnect 0) (packet_gone (lib_socket_close cl)))
          else lib_write_loop (packet_gone cl))"
  by pat_completeness auto

termination
proof (relation "measure (\<lambda>cl. length (wr_answers (conn cl)) + length (out_packet (conn cl))
    + (case current_out_packet (conn cl) of None \<Rightarrow> 0 | Some _ \<Rightarrow> 1))", goal_cases)
  case (2 cl p n r e c1)
  then show ?case using net_write_progress [of _ "conn cl" n e c1] by fastforce
next
  case (3 cl p)
  then show ?case using next_out_packet_fewer [of "conn cl" p]
    by (simp add: packet_gone_def upd_conn_def tell_def)
next
  case (4 cl p)
  then show ?case using next_out_packet_fewer [of "conn cl" p]
    by (simp add: packet_gone_def upd_conn_def)
qed simp_all

declare lib_write_loop.simps [simp del]

definition lib_packet_write :: "client \<Rightarrow> rc \<times> client" where
  "lib_packet_write cl =
     (if sock (conn cl) = INVALID_SOCKET then (MOSQ_ERR_NO_CONN, cl)
      else
        let cl1 = upd_conn first_out_packet cl
        in if state (conn cl1) = mosq_cs_connect_pending then (MOSQ_ERR_SUCCESS, cl1) else lib_write_loop cl1)"

definition lib_packet_queue :: "packet \<Rightarrow> client \<Rightarrow> rc \<times> client" where
  "lib_packet_queue p cl =
     lib_packet_write
       (upd_conn (\<lambda>c. c\<lparr>out_packet := out_packet c @ [p\<lparr>pos := 0, to_process := packet_length p\<rparr>]\<rparr>) cl)"

definition lib_abort :: "client \<Rightarrow> rc \<times> client" where
  "lib_abort cl = (MOSQ_ERR_SUCCESS, cl\<lparr>cl_fault := True\<rparr>)"

definition lib_send_command_with_mid :: "byte \<Rightarrow> u16 \<Rightarrow> bool \<Rightarrow> client \<Rightarrow> rc \<times> client" where
  "lib_send_command_with_mid cmd mid dup cl =
     (case mosquitto_packet_alloc
             (packet_zero\<lparr>command := (if dup then cmd OR 8 else cmd), remaining_length := 2\<rparr>) of
        (r, p) \<Rightarrow>
          if r \<noteq> MOSQ_ERR_SUCCESS then (r, cl)
          else lib_packet_queue (poke2 (mosq_msb mid) (mosq_lsb mid) p) cl)"

definition lib_send_simple_command :: "byte \<Rightarrow> client \<Rightarrow> rc \<times> client" where
  "lib_send_simple_command cmd cl =
     (case mosquitto_packet_alloc (packet_zero\<lparr>command := cmd, remaining_length := 0\<rparr>) of
        (r, p) \<Rightarrow> if r \<noteq> MOSQ_ERR_SUCCESS then (r, cl) else lib_packet_queue p cl)"

definition lib_send_real_publish ::
    "u16 \<Rightarrow> string \<Rightarrow> byte list \<Rightarrow> nat \<Rightarrow> bool \<Rightarrow> bool \<Rightarrow> client \<Rightarrow> rc \<times> client" where
  "lib_send_real_publish mid topic pl qos retain dup cl =
     (case mosquitto_packet_alloc (publish_packet mid topic pl qos retain dup) of
        (r, p) \<Rightarrow>
          if r \<noteq> MOSQ_ERR_SUCCESS then (r, cl)
          else (case fill_publish mid topic pl qos p of None \<Rightarrow> lib_abort cl | Some p' \<Rightarrow> lib_packet_queue p' cl))"

definition lib_send_publish ::
    "u16 \<Rightarrow> string \<Rightarrow> byte list \<Rightarrow> nat \<Rightarrow> bool \<Rightarrow> bool \<Rightarrow> client \<Rightarrow> rc \<times> client" where
  "lib_send_publish mid topic pl qos retain dup cl =
     (if sock (conn cl) = INVALID_SOCKET then (MOSQ_ERR_NO_CONN, cl)
      else lib_send_real_publish mid topic pl qos retain dup cl)"

definition lib_send_pingreq :: "client \<Rightarrow> rc \<times> client" where
  "lib_send_pingreq cl =
     (case lib_send_simple_command PINGREQ cl of
        (rc, cl1) \<Rightarrow> (rc, if rc = MOSQ_ERR_SUCCESS then upd_conn (\<lambda>c. c\<lparr>ping_t := clock cl1\<rparr>) cl1 else cl1))"

definition lib_send_pingresp :: "client \<Rightarrow> rc \<times> client" where
  "lib_send_pingresp = lib_send_simple_command PINGRESP"

definition lib_send_puback :: "u16 \<Rightarrow> client \<Rightarrow> rc \<times> client" where
  "lib_send_puback mid = lib_send_command_with_mid PUBACK mid False"

definition lib_send_pubrec :: "u16 \<Rightarrow> client \<Rightarrow> rc \<times> client" where
  "lib_send_pubrec mid = lib_send_command_with_mid PUBREC mid False"

definition lib_send_pubrel :: "u16 \<Rightarrow> client \<Rightarrow> rc \<times> client" where
  "lib_send_pubrel mid = lib_send_command_with_mid (PUBREL OR 2) mid False"

definition lib_send_pubcomp :: "u16 \<Rightarrow> client \<Rightarrow> rc \<times> client" where
  "lib_send_pubcomp mid = lib_send_command_with_mid PUBCOMP mid False"

subsection \<open>The queues\<close>

text \<open>
  Append through the pointer to the last message. True says that it was dangling; a pointer into the
  middle of the list cuts off what follows.
\<close>

definition append_last :: "message_all \<Rightarrow> message_all list \<Rightarrow> nat option \<Rightarrow> bool \<times> message_all list" where
  "append_last m xs at =
     (case at of
        None \<Rightarrow> (False, [m])
      | Some p \<Rightarrow>
          if p \<in> ma_ptr ` set xs
          then (False, takeWhile (\<lambda>x. ma_ptr x \<noteq> p) xs @ take 1 (dropWhile (\<lambda>x. ma_ptr x \<noteq> p) xs) @ [m])
          else (True, xs))"

definition window_open :: "client \<Rightarrow> bool" where
  "window_open cl \<longleftrightarrow> max_inflight_messages cl = 0 \<or> inflight_messages cl < max_inflight_messages cl"

definition mosquitto_message_queue :: "message_all \<Rightarrow> mosquitto_msg_direction \<Rightarrow> client \<Rightarrow> rc \<times> client" where
  "mosquitto_message_queue m dir cl =
     (if dir = mosq_md_out then
        (case append_last m (out_messages cl) (out_messages_last cl) of
           (bad, ms) \<Rightarrow>
             let cl1 = cl\<lparr>out_queue_len := out_queue_len cl + 1, out_messages := ms,
                          out_messages_last := Some (ma_ptr m), cl_fault := cl_fault cl \<or> bad\<rparr>
             in if 0 < mm_qos (ma_msg m) then
                  (if window_open cl1 then (0, cl1\<lparr>inflight_messages := inflight_messages cl1 + 1\<rparr>) else (1, cl1))
                else (0, cl1))
      else
        (case append_last m (in_messages cl) (in_messages_last cl) of
           (bad, ms) \<Rightarrow>
             (0, cl\<lparr>in_queue_len := in_queue_len cl + 1, in_messages := ms,
                    in_messages_last := Some (ma_ptr m), cl_fault := cl_fault cl \<or> bad\<rparr>)))"

text \<open>
  Find the first message with an id and take it out of the list: the message, the address of the one
  before it, whether it was the last, and the list without it.
\<close>

fun unlink :: "u16 \<Rightarrow> nat option \<Rightarrow> message_all list \<Rightarrow> (message_all \<times> nat option \<times> bool \<times> message_all list) option" where
  "unlink mid prev [] = None"
| "unlink mid prev (m # ms) =
     (if mm_mid (ma_msg m) = mid then Some (m, prev, ms = [], ms)
      else map_option (\<lambda>(cur, p, at_end, others). (cur, p, at_end, m # others)) (unlink mid (Some (ma_ptr m)) ms))"

definition last_after :: "nat option \<Rightarrow> bool \<Rightarrow> message_all list \<Rightarrow> nat option \<Rightarrow> nat option" where
  "last_after prev at_end others at = (if at_end then prev else if others = [] then None else at)"

definition waiting_state :: "nat \<Rightarrow> mosquitto_msg_state \<Rightarrow> mosquitto_msg_state" where
  "waiting_state qos st =
     (if qos = 1 then mosq_ms_wait_for_puback else if qos = 2 then mosq_ms_wait_for_pubrec else st)"

text \<open>A message that waits for a place in the window.\<close>

definition parked :: "message_all \<Rightarrow> bool" where
  "parked m \<longleftrightarrow> 0 < mm_qos (ma_msg m) \<and> ma_state m = mosq_ms_invalid"

definition resend :: "message_all \<Rightarrow> client \<Rightarrow> rc \<times> client" where
  "resend m =
     (let g = ma_msg m
      in lib_send_publish (mm_mid g) (mm_topic g) (mm_payload g) (mm_qos g) (mm_retain g) (ma_dup m))"

fun start_parked :: "message_all list \<Rightarrow> client \<Rightarrow> rc \<times> message_all list \<times> client" where
  "start_parked [] cl = (MOSQ_ERR_SUCCESS, [], cl)"
| "start_parked (m # ms) cl =
     (if window_open cl then
        if parked m then
          let m' = m\<lparr>ma_state := waiting_state (mm_qos (ma_msg m)) (ma_state m)\<rparr>
          in case resend m' (cl\<lparr>inflight_messages := inflight_messages cl + 1\<rparr>) of
               (rc, cl1) \<Rightarrow>
                 if rc \<noteq> 0 then (rc, m' # ms, cl1)
                 else (case start_parked ms cl1 of (rc2, ms', cl2) \<Rightarrow> (rc2, m' # ms', cl2))
        else (case start_parked ms cl of (rc2, ms', cl2) \<Rightarrow> (rc2, m # ms', cl2))
      else (MOSQ_ERR_SUCCESS, m # ms, cl))"

abbreviation (input) MOSQ_ERR_NOT_FOUND :: rc where "MOSQ_ERR_NOT_FOUND \<equiv> 6"

definition mosquitto_message_remove ::
    "u16 \<Rightarrow> mosquitto_msg_direction \<Rightarrow> client \<Rightarrow> rc \<times> message_all option \<times> client" where
  "mosquitto_message_remove mid dir cl =
     (if dir = mosq_md_out then
        (case unlink mid None (out_messages cl) of
           None \<Rightarrow> (MOSQ_ERR_NOT_FOUND, None, cl)
         | Some (cur, prev, at_end, others) \<Rightarrow>
             let cl1 = cl\<lparr>out_messages := others, out_queue_len := out_queue_len cl - 1,
                          out_messages_last := last_after prev at_end others (out_messages_last cl),
                          inflight_messages := (if 0 < mm_qos (ma_msg cur) then inflight_messages cl - 1
                                                else inflight_messages cl)\<rparr>
             in case start_parked others cl1 of (rc, ms, cl2) \<Rightarrow> (rc, Some cur, cl2\<lparr>out_messages := ms\<rparr>))
      else
        (case unlink mid None (in_messages cl) of
           None \<Rightarrow> (MOSQ_ERR_NOT_FOUND, None, cl)
         | Some (cur, prev, at_end, others) \<Rightarrow>
             (MOSQ_ERR_SUCCESS, Some cur,
              cl\<lparr>in_messages := others, in_queue_len := in_queue_len cl - 1,
                 in_messages_last := last_after prev at_end others (in_messages_last cl)\<rparr>)))"

definition mosquitto_message_delete :: "u16 \<Rightarrow> mosquitto_msg_direction \<Rightarrow> client \<Rightarrow> rc \<times> client" where
  "mosquitto_message_delete mid dir cl = (case mosquitto_message_remove mid dir cl of (rc, m, cl1) \<Rightarrow> (rc, cl1))"

definition mosquitto_message_out_update :: "u16 \<Rightarrow> mosquitto_msg_state \<Rightarrow> client \<Rightarrow> rc \<times> client" where
  "mosquitto_message_out_update mid st cl =
     (case unlink mid None (out_messages cl) of
        None \<Rightarrow> (MOSQ_ERR_NOT_FOUND, cl)
      | Some (cur, prev, at_end, others) \<Rightarrow>
          (MOSQ_ERR_SUCCESS,
           cl\<lparr>out_messages := map (\<lambda>m. if ma_ptr m = ma_ptr cur
                                         then m\<lparr>ma_state := st, ma_timestamp := clock cl\<rparr> else m) (out_messages cl)\<rparr>))"

text \<open>
  \<^verbatim>\<open>_mosquitto_messages_reconnect_reset\<close>. The first loop drops incoming messages that are not QoS 2; at
  the head of the list it then steps over the next message, through a null pointer if there is none (True).
\<close>

fun reset_in :: "nat option \<Rightarrow> int \<Rightarrow> message_all list \<Rightarrow> bool \<times> message_all list \<times> nat option \<times> int" where
  "reset_in prev n [] = (False, [], prev, n)"
| "reset_in prev n (m # ms) =
     (if mm_qos (ma_msg m) = 2 then
        (case reset_in (Some (ma_ptr m)) (n + 1) ms of
           (bad, ms', at, k) \<Rightarrow> (bad, m\<lparr>ma_timestamp := 0\<rparr> # ms', at, k))
      else
        (case prev of
           Some p \<Rightarrow> reset_in prev (n + 1) ms
         | None \<Rightarrow>
             (case ms of
                [] \<Rightarrow> (True, [], None, n + 1)
              | m2 # ms2 \<Rightarrow>
                  (case reset_in (Some (ma_ptr m2)) (n + 1) ms2 of (bad, ms', at, k) \<Rightarrow> (bad, m2 # ms', at, k)))))"

definition reset_one :: "int \<Rightarrow> int \<Rightarrow> message_all \<Rightarrow> message_all" where
  "reset_one limit inflight m =
     m\<lparr>ma_timestamp := 0,
       ma_state := (if limit = 0 \<or> inflight < limit
                    then (if mm_qos (ma_msg m) = 1 then mosq_ms_wait_for_puback else ma_state m)
                    else mosq_ms_invalid)\<rparr>"

fun reset_out :: "int \<Rightarrow> nat option \<Rightarrow> int \<Rightarrow> int \<Rightarrow> message_all list \<Rightarrow> message_all list \<times> nat option \<times> int \<times> int" where
  "reset_out limit prev n inflight [] = ([], prev, n, inflight)"
| "reset_out limit prev n inflight (m # ms) =
     (let inflight1 = (if 0 < mm_qos (ma_msg m) then inflight + 1 else inflight)
      in case reset_out limit (Some (ma_ptr m)) (n + 1) inflight1 ms of
           (ms', at, k, i) \<Rightarrow> (reset_one limit inflight1 m # ms', at, k, i))"

definition mosquitto_messages_reconnect_reset :: "client \<Rightarrow> client" where
  "mosquitto_messages_reconnect_reset cl =
     (case reset_in None 0 (in_messages cl) of
        (bad, ins, in_at, in_n) \<Rightarrow>
          case reset_out (max_inflight_messages cl) None 0 0 (out_messages cl) of
            (outs, out_at, out_n, inflight) \<Rightarrow>
              cl\<lparr>in_messages := ins, in_messages_last := in_at, in_queue_len := in_n,
                 out_messages := outs, out_messages_last := out_at, out_queue_len := out_n,
                 inflight_messages := inflight, cl_fault := cl_fault cl \<or> bad\<rparr>)"

text \<open>Send again what has waited too long; the results of sending are not looked at.\<close>

definition retry_one :: "message_all \<Rightarrow> client \<Rightarrow> message_all \<times> client" where
  "retry_one m cl =
     (let m' = m\<lparr>ma_timestamp := clock cl, ma_dup := True\<rparr>; mid = mm_mid (ma_msg m)
      in if ma_timestamp m + message_retry cl < clock cl then
           (case ma_state m of
              mosq_ms_wait_for_puback \<Rightarrow> (m', snd (resend m' cl))
            | mosq_ms_wait_for_pubrec \<Rightarrow> (m', snd (resend m' cl))
            | mosq_ms_wait_for_pubrel \<Rightarrow> (m', snd (lib_send_pubrec mid cl))
            | mosq_ms_wait_for_pubcomp \<Rightarrow> (m', snd (lib_send_pubrel mid cl))
            | _ \<Rightarrow> (m, cl))
         else (m, cl))"

fun retry_loop :: "message_all list \<Rightarrow> client \<Rightarrow> message_all list \<times> client" where
  "retry_loop [] cl = ([], cl)"
| "retry_loop (m # ms) cl =
     (case retry_one m cl of (m', cl1) \<Rightarrow> case retry_loop ms cl1 of (ms', cl2) \<Rightarrow> (m' # ms', cl2))"

definition mosquitto_message_retry_check :: "client \<Rightarrow> client" where
  "mosquitto_message_retry_check cl =
     (case retry_loop (out_messages cl) cl of
        (outs, cl1) \<Rightarrow>
          case retry_loop (in_messages cl1) (cl1\<lparr>out_messages := outs\<rparr>) of (ins, cl2) \<Rightarrow> cl2\<lparr>in_messages := ins\<rparr>)"

definition mosquitto_message_retry_set :: "u32 \<Rightarrow> client \<Rightarrow> client" where
  "mosquitto_message_retry_set n cl = cl\<lparr>message_retry := uint n\<rparr>"

text \<open>The unsigned argument goes into an \<^verbatim>\<open>int\<close>.\<close>

definition mosquitto_max_inflight_messages_set :: "u32 \<Rightarrow> client \<Rightarrow> rc \<times> client" where
  "mosquitto_max_inflight_messages_set n cl = (MOSQ_ERR_SUCCESS, cl\<lparr>max_inflight_messages := sint n\<rparr>)"

text \<open>The lengths and the pointers to the ends stay; the client is destroyed next.\<close>

definition mosquitto_message_cleanup_all :: "client \<Rightarrow> client" where
  "mosquitto_message_cleanup_all cl = cl\<lparr>in_messages := [], out_messages := []\<rparr>"

subsection \<open>Receiving\<close>

abbreviation (input) MOSQ_ERR_CONN_REFUSED :: rc where "MOSQ_ERR_CONN_REFUSED \<equiv> 5"

definition lib_read :: "(packet \<Rightarrow> (rc + 'a) \<times> packet) \<Rightarrow> client \<Rightarrow> (rc + 'a) \<times> client" where
  "lib_read rd cl =
     (case rd (in_packet (conn cl)) of (x, p) \<Rightarrow> (x, upd_conn (\<lambda>c. c\<lparr>in_packet := p\<rparr>) cl))"

definition lib_handle_pingresp :: "client \<Rightarrow> rc \<times> client" where
  "lib_handle_pingresp cl = (MOSQ_ERR_SUCCESS, upd_conn (\<lambda>c. c\<lparr>ping_t := 0\<rparr>) cl)"

definition lib_handle_pubackcomp :: "client \<Rightarrow> rc \<times> client" where
  "lib_handle_pubackcomp cl =
     (case lib_read mosquitto_read_uint16 cl of
        (Inl e, cl1) \<Rightarrow> (e, cl1)
      | (Inr mid, cl1) \<Rightarrow>
          (case mosquitto_message_delete mid mosq_md_out cl1 of
             (rc, cl2) \<Rightarrow> (MOSQ_ERR_SUCCESS, if rc = 0 then tell (on_publish cl2) (OnPublish mid) cl2 else cl2)))"

definition lib_handle_pubrec :: "client \<Rightarrow> rc \<times> client" where
  "lib_handle_pubrec cl =
     (case lib_read mosquitto_read_uint16 cl of
        (Inl e, cl1) \<Rightarrow> (e, cl1)
      | (Inr mid, cl1) \<Rightarrow>
          (case mosquitto_message_out_update mid mosq_ms_wait_for_pubcomp cl1 of
             (rc, cl2) \<Rightarrow> if rc \<noteq> 0 then (rc, cl2) else lib_send_pubrel mid cl2))"

definition lib_handle_pubrel :: "client \<Rightarrow> rc \<times> client" where
  "lib_handle_pubrel cl =
     (if protocol (conn cl) = mosq_p_mqtt311 \<and> command (in_packet (conn cl)) AND 0x0F \<noteq> 2
      then (MOSQ_ERR_PROTOCOL, cl)
      else
        case lib_read mosquitto_read_uint16 cl of
          (Inl e, cl1) \<Rightarrow> (e, cl1)
        | (Inr mid, cl1) \<Rightarrow>
            (case mosquitto_message_remove mid mosq_md_in cl1 of
               (rc, m, cl2) \<Rightarrow>
                 lib_send_pubcomp mid
                   (case m of
                      Some x \<Rightarrow> if rc = 0 then tell (on_message cl2) (OnMessage (ma_msg x)) cl2 else cl2
                    | None \<Rightarrow> cl2)))"

definition lib_handle_connack :: "client \<Rightarrow> rc \<times> client" where
  "lib_handle_connack cl =
     (case lib_read mosquitto_read_byte cl of
        (Inl e, cl1) \<Rightarrow> (e, cl1)
      | (Inr reserved, cl1) \<Rightarrow>
          (case lib_read mosquitto_read_byte cl1 of
             (Inl e, cl2) \<Rightarrow> (e, cl2)
           | (Inr result, cl2) \<Rightarrow>
               let cl3 = tell (on_connect cl2) (OnConnect result) cl2
               in if result = 0 then
                    (MOSQ_ERR_SUCCESS,
                     upd_conn (\<lambda>c. if state c \<noteq> mosq_cs_disconnecting then c\<lparr>state := mosq_cs_connected\<rparr> else c) cl3)
                  else if result \<le> 5 then (MOSQ_ERR_CONN_REFUSED, cl3)
                  else (MOSQ_ERR_PROTOCOL, cl3)))"

function granted_loop :: "packet \<Rightarrow> (rc + byte list) \<times> packet" where
  "granted_loop p =
     (if pos p < remaining_length p then
        (case mosquitto_read_byte p of
           (Inl e, p1) \<Rightarrow> (Inl e, p1)
         | (Inr b, p1) \<Rightarrow> (case granted_loop p1 of (Inl e, p2) \<Rightarrow> (Inl e, p2) | (Inr bs, p2) \<Rightarrow> (Inr (b # bs), p2)))
      else (Inr [], p))"
  by pat_completeness auto

termination
proof (relation "measure (\<lambda>p. unat (remaining_length p - pos p))", goal_cases)
  case (2 p x p1 b)
  then have "remaining_length p1 = remaining_length p" "pos p1 = pos p + 1"
    by (auto simp: mosquitto_read_byte_def split: if_splits)
  moreover have "unat (remaining_length p - (pos p + 1)) < unat (remaining_length p - pos p)"
    using 2(1) by unat_arith
  ultimately show ?case by simp
qed simp

declare granted_loop.simps [simp del]

definition lib_handle_suback :: "client \<Rightarrow> rc \<times> client" where
  "lib_handle_suback cl =
     (case lib_read mosquitto_read_uint16 cl of
        (Inl e, cl1) \<Rightarrow> (e, cl1)
      | (Inr mid, cl1) \<Rightarrow>
          (case lib_read granted_loop cl1 of
             (Inl e, cl2) \<Rightarrow> (e, cl2)
           | (Inr granted, cl2) \<Rightarrow> (MOSQ_ERR_SUCCESS, tell (on_subscribe cl2) (OnSubscribe mid granted) cl2)))"

definition lib_handle_unsuback :: "client \<Rightarrow> rc \<times> client" where
  "lib_handle_unsuback cl =
     (case lib_read mosquitto_read_uint16 cl of
        (Inl e, cl1) \<Rightarrow> (e, cl1)
      | (Inr mid, cl1) \<Rightarrow> (MOSQ_ERR_SUCCESS, tell (on_unsubscribe cl1) (OnUnsubscribe mid) cl1))"

text \<open>The fields of a PUBLISH, up to where \<^verbatim>\<open>_mosquitto_handle_publish\<close> looks at the QoS.\<close>

definition publish_fields :: "packet \<Rightarrow> (rc + bool \<times> mosquitto_message) \<times> packet" where
  "publish_fields p =
     (let header = command p; qos = unat (drop_bit 1 (header AND 0x06))
      in case mosquitto_read_string p of
           (Inl e, p1) \<Rightarrow> (Inl e, p1)
         | (Inr topic, p1) \<Rightarrow>
             if topic = [] then (Inl MOSQ_ERR_PROTOCOL, p1)
             else
               case (if 0 < qos then mosquitto_read_uint16 p1 else (Inr 0, p1)) of
                 (Inl e, p2) \<Rightarrow> (Inl e, p2)
               | (Inr mid, p2) \<Rightarrow>
                   let n = remaining_length p2 - pos p2
                   in case (if n \<noteq> 0 then mosquitto_read_bytes n p2 else (Inr [], p2)) of
                        (Inl e, p3) \<Rightarrow> (Inl e, p3)
                      | (Inr pl, p3) \<Rightarrow>
                          (Inr (bit header 3, \<lparr>mm_mid = mid, mm_topic = topic, mm_payload = pl, mm_qos = qos,
                                               mm_retain = bit header 0\<rparr>), p3))"

definition new_message :: "bool \<Rightarrow> mosquitto_msg_state \<Rightarrow> mosquitto_message \<Rightarrow> client \<Rightarrow> message_all \<times> client" where
  "new_message dup st g cl =
     (\<lparr>ma_ptr = cl_next cl, ma_timestamp = clock cl, ma_state = st, ma_dup = dup, ma_msg = g\<rparr>,
      cl\<lparr>cl_next := cl_next cl + 1\<rparr>)"

definition lib_handle_publish :: "client \<Rightarrow> rc \<times> client" where
  "lib_handle_publish cl =
     (case lib_read publish_fields cl of
        (Inl e, cl1) \<Rightarrow> (e, cl1)
      | (Inr (dup, g), cl1) \<Rightarrow>
          if mm_qos g = 0 then (MOSQ_ERR_SUCCESS, tell (on_message cl1) (OnMessage g) cl1)
          else if mm_qos g = 1 then
            (case lib_send_puback (mm_mid g) cl1 of (rc, cl2) \<Rightarrow> (rc, tell (on_message cl2) (OnMessage g) cl2))
          else if mm_qos g = 2 then
            (case lib_send_pubrec (mm_mid g) cl1 of
               (rc, cl2) \<Rightarrow>
                 case new_message dup mosq_ms_wait_for_pubrel g cl2 of
                   (m, cl3) \<Rightarrow> (rc, snd (mosquitto_message_queue m mosq_md_in cl3)))
          else (MOSQ_ERR_PROTOCOL, cl1))"

definition lib_packet_handle :: "client \<Rightarrow> rc \<times> client" where
  "lib_packet_handle cl =
     (let cmd = command (in_packet (conn cl)) AND 0xF0
      in if cmd = PINGREQ then lib_send_pingresp cl
         else if cmd = PINGRESP then lib_handle_pingresp cl
         else if cmd = PUBACK then lib_handle_pubackcomp cl
         else if cmd = PUBCOMP then lib_handle_pubackcomp cl
         else if cmd = PUBLISH then lib_handle_publish cl
         else if cmd = PUBREC then lib_handle_pubrec cl
         else if cmd = PUBREL then lib_handle_pubrel cl
         else if cmd = CONNACK then lib_handle_connack cl
         else if cmd = SUBACK then lib_handle_suback cl
         else if cmd = UNSUBACK then lib_handle_unsuback cl
         else (MOSQ_ERR_PROTOCOL, cl))"

subsection \<open>The application's side\<close>

abbreviation (input) MQTT_MAX_PAYLOAD :: int where "MQTT_MAX_PAYLOAD \<equiv> 268435455"

definition set_out_state :: "nat \<Rightarrow> mosquitto_msg_state \<Rightarrow> client \<Rightarrow> client" where
  "set_out_state p st cl =
     cl\<lparr>out_messages := map (\<lambda>m. if ma_ptr m = p then m\<lparr>ma_state := st\<rparr> else m) (out_messages cl)\<rparr>"

text \<open>The second component is what \<^verbatim>\<open>*mid\<close> is set to.\<close>

definition mosquitto_publish ::
    "string option \<Rightarrow> int \<Rightarrow> byte list \<Rightarrow> int \<Rightarrow> bool \<Rightarrow> client \<Rightarrow> rc \<times> u16 option \<times> client" where
  "mosquitto_publish topic payloadlen data qos retain cl =
     (case topic of
        None \<Rightarrow> (MOSQ_ERR_INVAL, None, cl)
      | Some t \<Rightarrow>
          if qos < 0 \<or> 2 < qos \<or> t = [] then (MOSQ_ERR_INVAL, None, cl)
          else if payloadlen < 0 \<or> MQTT_MAX_PAYLOAD < payloadlen then (MOSQ_ERR_PAYLOAD_SIZE, None, cl)
          else if mosquitto_pub_topic_check t \<noteq> MOSQ_ERR_SUCCESS then (MOSQ_ERR_INVAL, None, cl)
          else
            case mosquitto_mid_generate (conn cl) of
              (mid, c) \<Rightarrow>
                let cl1 = cl\<lparr>conn := c\<rparr>;
                    g = \<lparr>mm_mid = mid, mm_topic = t, mm_payload = take (nat payloadlen) data, mm_qos = nat qos,
                         mm_retain = retain\<rparr>
                in if qos = 0 then
                     (case lib_send_publish mid t (mm_payload g) 0 retain False cl1 of (rc, cl2) \<Rightarrow> (rc, Some mid, cl2))
                   else
                     case new_message False mosq_ms_invalid g cl1 of
                       (m, cl2) \<Rightarrow>
                         case mosquitto_message_queue m mosq_md_out cl2 of
                           (status, cl3) \<Rightarrow>
                             if status = 0 then
                               (case resend m (set_out_state (ma_ptr m) (waiting_state (nat qos) (ma_state m)) cl3) of
                                  (rc, cl4) \<Rightarrow> (rc, Some mid, cl4))
                             else (MOSQ_ERR_SUCCESS, Some mid, set_out_state (ma_ptr m) mosq_ms_invalid cl3))"

definition mosquitto_disconnect :: "client \<Rightarrow> rc \<times> client" where
  "mosquitto_disconnect cl =
     (let cl1 = upd_conn (\<lambda>c. c\<lparr>state := mosq_cs_disconnecting\<rparr>) cl
      in if sock (conn cl1) = INVALID_SOCKET then (MOSQ_ERR_NO_CONN, cl1) else lib_send_simple_command DISCONNECT cl1)"

definition close_and_tell :: "client \<Rightarrow> client" where
  "close_and_tell cl =
     (let cl1 = lib_socket_close cl; rc = (if state (conn cl1) = mosq_cs_disconnecting then MOSQ_ERR_SUCCESS else 1)
      in tell (on_disconnect cl1) (OnDisconnect rc) cl1)"

definition lib_check_keepalive :: "client \<Rightarrow> client" where
  "lib_check_keepalive cl =
     (let c = conn cl; k = uint (keepalive c)
      in if keepalive c \<noteq> 0 \<and> sock c \<noteq> INVALID_SOCKET \<and> (clock cl - last_msg_out c \<ge> k \<or> clock cl - last_msg_in c \<ge> k)
         then
           (if state c = mosq_cs_connected \<and> ping_t c = 0
            then upd_conn (\<lambda>c. c\<lparr>last_msg_in := clock cl, last_msg_out := clock cl\<rparr>) (snd (lib_send_pingreq cl))
            else close_and_tell cl)
         else cl)"

definition mosquitto_loop_misc :: "client \<Rightarrow> rc \<times> client" where
  "mosquitto_loop_misc cl =
     (if sock (conn cl) = INVALID_SOCKET then (MOSQ_ERR_NO_CONN, cl)
      else
        let cl1 = lib_check_keepalive cl;
            cl2 = (if last_retry_check cl1 + 1 < clock cl1
                   then (mosquitto_message_retry_check cl1)\<lparr>last_retry_check := clock cl1\<rparr> else cl1)
        in if ping_t (conn cl2) \<noteq> 0 \<and> clock cl2 - ping_t (conn cl2) \<ge> uint (keepalive (conn cl2))
           then (MOSQ_ERR_CONN_LOST, close_and_tell cl2)
           else (MOSQ_ERR_SUCCESS, cl2))"

definition loop_rc_handle :: "rc \<Rightarrow> client \<Rightarrow> rc \<times> client" where
  "loop_rc_handle rc cl =
     (if rc \<noteq> 0 then
        let cl1 = lib_socket_close cl; rc1 = (if state (conn cl1) = mosq_cs_disconnecting then MOSQ_ERR_SUCCESS else rc)
        in (rc1, tell (on_disconnect cl1) (OnDisconnect rc1) cl1)
      else (rc, cl))"

text \<open>\<^verbatim>\<open>_mosquitto_reconnect\<close> up to the system calls that open the socket, without a SOCKS proxy.\<close>

definition reconnect_prepare :: "client \<Rightarrow> client" where
  "reconnect_prepare cl =
     mosquitto_messages_reconnect_reset
       (upd_conn (\<lambda>c. c\<lparr>state := mosq_cs_new, last_msg_in := clock cl, last_msg_out := clock cl, ping_t := 0,
                        in_packet := mosquitto_packet_cleanup (in_packet c), current_out_packet := None, out_packet := []\<rparr>) cl)"

text \<open>\<^verbatim>\<open>mosquitto_reinitialise\<close> with an identifier.\<close>

definition client_init :: "string \<Rightarrow> bool \<Rightarrow> int \<Rightarrow> client" where
  "client_init cid clean t =
     \<lparr>conn = ctx_zero\<lparr>protocol := mosq_p_mqtt31, sock := INVALID_SOCKET, keepalive := 60, clean_session := clean,
                     ctx_id := Some cid, last_msg_in := t, last_msg_out := t, in_packet := mosquitto_packet_cleanup packet_zero\<rparr>,
      clock = t, on_connect = False, on_disconnect = False, on_publish = False, on_message = False,
      on_subscribe = False, on_unsubscribe = False, events = [], message_retry = 20, last_retry_check = 0,
      in_messages = [], in_messages_last = None, out_messages = [], out_messages_last = None,
      in_queue_len = 0, out_queue_len = 0, inflight_messages = 0, max_inflight_messages = 20,
      cl_next = 1, cl_fault = False\<rparr>"

end
