(* ===== verification/ClientInv.thy ===== *)
theory ClientInv
  imports Client
begin

text \<open>
  What the client library keeps: its two queues, the window of messages under way, and what it hands
  over to the application.
\<close>

subsection \<open>What sending leaves alone\<close>

text \<open>Everything but the connection, the callbacks and the clocks.\<close>

definition queues :: "client \<Rightarrow> message_all list \<times> nat option \<times> message_all list \<times> nat option \<times> int \<times> int \<times> int \<times> int \<times> nat \<times> bool" where
  "queues cl = (in_messages cl, in_messages_last cl, out_messages cl, out_messages_last cl, in_queue_len cl,
     out_queue_len cl, inflight_messages cl, max_inflight_messages cl, cl_next cl, cl_fault cl)"

fun message_of :: "event \<Rightarrow> mosquitto_message list" where
  "message_of (OnMessage g) = [g]"
| "message_of ev = []"

text \<open>The messages given to the application, in order.\<close>

definition passed_on :: "client \<Rightarrow> mosquitto_message list" where
  "passed_on cl = concat (map message_of (events cl))"

definition callbacks :: "client \<Rightarrow> bool list" where
  "callbacks cl = [on_connect cl, on_disconnect cl, on_publish cl, on_message cl, on_subscribe cl, on_unsubscribe cl]"

text \<open>Sending may write to the socket, close it, and tell the application of it.\<close>

definition only_sent :: "client \<Rightarrow> client \<Rightarrow> bool" where
  "only_sent cl cl' \<longleftrightarrow> queues cl' = queues cl \<and> passed_on cl' = passed_on cl \<and> clock cl' = clock cl \<and>
     callbacks cl' = callbacks cl \<and> protocol (conn cl') = protocol (conn cl) \<and>
     message_retry cl' = message_retry cl \<and> last_retry_check cl' = last_retry_check cl"

lemma only_sent_refl [simp, intro]: "only_sent cl cl"
  by (simp add: only_sent_def)

lemma only_sent_trans [trans]: "only_sent a b \<Longrightarrow> only_sent b c \<Longrightarrow> only_sent a c"
  by (simp add: only_sent_def)

lemma queues_upd [simp]: "queues (upd_conn f cl) = queues cl" "queues (tell b ev cl) = queues cl"
  "queues (cl\<lparr>conn := c\<rparr>) = queues cl" "queues (cl\<lparr>events := evs\<rparr>) = queues cl" "queues (cl\<lparr>clock := t\<rparr>) = queues cl"
  by (simp_all add: queues_def upd_conn_def tell_def)

lemma passed_on_upd [simp]: "passed_on (upd_conn f cl) = passed_on cl" "passed_on (cl\<lparr>conn := c\<rparr>) = passed_on cl"
  "passed_on (tell b ev cl) = passed_on cl @ (if b then message_of ev else [])"
  by (simp_all add: passed_on_def upd_conn_def tell_def)

lemma tell_fields [simp]: "conn (tell b ev cl) = conn cl" "clock (tell b ev cl) = clock cl" "callbacks (tell b ev cl) = callbacks cl"
  "message_retry (tell b ev cl) = message_retry cl" "last_retry_check (tell b ev cl) = last_retry_check cl"
  by (simp_all add: tell_def callbacks_def)

lemma upd_conn_fields [simp]: "conn (upd_conn f cl) = f (conn cl)" "clock (upd_conn f cl) = clock cl"
  "callbacks (upd_conn f cl) = callbacks cl" "callbacks (cl\<lparr>conn := c\<rparr>) = callbacks cl"
  "message_retry (upd_conn f cl) = message_retry cl" "last_retry_check (upd_conn f cl) = last_retry_check cl"
  by (simp_all add: upd_conn_def callbacks_def)

lemma only_sent_upd: "only_sent cl (upd_conn f cl) \<longleftrightarrow> protocol (f (conn cl)) = protocol (conn cl)"
  by (auto simp: only_sent_def)

lemma only_sent_conn: "only_sent cl (cl\<lparr>conn := c\<rparr>) \<longleftrightarrow> protocol c = protocol (conn cl)"
  by (auto simp: only_sent_def)

lemma only_sent_tell: "message_of ev = [] \<Longrightarrow> only_sent cl (tell b ev cl)"
  by (simp add: only_sent_def)

lemma next_out_packet_protocol [simp]: "protocol (next_out_packet c) = protocol c" "protocol (first_out_packet c) = protocol c"
  by (simp_all add: next_out_packet_def first_out_packet_def split: list.splits)

lemma only_sent_gone: "only_sent cl (packet_gone cl)"
  by (simp add: packet_gone_def only_sent_upd)

lemma only_sent_close: "only_sent cl (lib_socket_close cl)"
  by (simp add: lib_socket_close_def only_sent_upd)

lemma net_write_protocol: "mosquitto_net_write bs c = (n, e, c1) \<Longrightarrow> protocol c1 = protocol c"
  using net_write_spec(5) [of bs c n e c1] by (cases c; cases c1) (simp add: same_but_output_def)

lemma write_loop_only_sent: "only_sent cl (snd (lib_write_loop cl))"
proof (induction cl rule: lib_write_loop.induct)
  case (1 cl)
  show ?case
  proof (cases "current_out_packet (conn cl)")
    case None
    then show ?thesis by (simp add: lib_write_loop.simps [of cl])
  next
    case (Some p)
    show ?thesis
    proof (cases "to_process p > 0")
      case True
      obtain n e c1 where w: "mosquitto_net_write (take (unat (to_process p)) (drop (unat (pos p)) (payload p))) (conn cl) = (n, e, c1)"
        by (rule prod_cases3)
      note c1 = net_write_protocol [OF w]
      show ?thesis
      proof (cases "n > 0")
        case n: True
        let ?cl = "cl\<lparr>conn := c1\<lparr>current_out_packet :=
          Some (p\<lparr>to_process := to_process p - word_of_int n, pos := pos p + word_of_int n\<rparr>)\<rparr>\<rparr>"
        have "only_sent cl ?cl" using c1 by (simp add: only_sent_conn)
        also have "only_sent ?cl (snd (lib_write_loop ?cl))" using 1(1) [OF Some True w [symmetric] refl n] .
        finally show ?thesis using Some True n w by (simp add: lib_write_loop.simps [of cl])
      next
        case False
        then show ?thesis using Some True w c1 by (simp add: lib_write_loop.simps [of cl] only_sent_conn)
      qed
    next
      case False
      note step = only_sent_trans [OF only_sent_tell only_sent_gone] only_sent_trans [OF only_sent_gone only_sent_tell]
      show ?thesis
      proof (cases "is_publish_qos0 p")
        case q: True
        have "only_sent cl (packet_gone (tell (on_publish cl) (OnPublish (pkt_mid p)) cl))"
          by (rule step(1)) simp
        then show ?thesis using Some False q 1(2) [OF Some False q] only_sent_trans
          by (auto simp: lib_write_loop.simps [of cl])
      next
        case q: False
        show ?thesis
        proof (cases "command p AND 0xF0 = DISCONNECT")
          case True
          have "only_sent cl (tell (on_disconnect cl) (OnDisconnect 0) (packet_gone (lib_socket_close cl)))"
            by (rule only_sent_trans [OF only_sent_close]) (rule step(2), simp)
          then show ?thesis using Some False q True by (simp add: lib_write_loop.simps [of cl])
        next
          case c: False
          then show ?thesis using Some False q 1(3) [OF Some False q c] only_sent_gone only_sent_trans
            by (auto simp: lib_write_loop.simps [of cl])
        qed
      qed
    qed
  qed
qed

lemma packet_write_only_sent: "only_sent cl (snd (lib_packet_write cl))"
  using write_loop_only_sent [of "upd_conn first_out_packet cl"] only_sent_trans [of cl "upd_conn first_out_packet cl"]
  by (auto simp: lib_packet_write_def Let_def only_sent_upd)

lemma packet_queue_only_sent: "only_sent cl (snd (lib_packet_queue p cl))"
  unfolding lib_packet_queue_def by (rule only_sent_trans [OF _ packet_write_only_sent]) (simp add: only_sent_upd)

lemma commands_only_sent [simp]:
  "only_sent cl (snd (lib_send_command_with_mid cmd mid dup cl))" "only_sent cl (snd (lib_send_simple_command cmd cl))"
  "only_sent cl (snd (lib_send_puback mid cl))" "only_sent cl (snd (lib_send_pubrec mid cl))"
  "only_sent cl (snd (lib_send_pubrel mid cl))" "only_sent cl (snd (lib_send_pubcomp mid cl))"
  "only_sent cl (snd (lib_send_pingresp cl))"
proof -
  show a: "only_sent cl (snd (lib_send_command_with_mid cmd mid dup cl))" for cmd dup
    by (simp add: lib_send_command_with_mid_def packet_queue_only_sent split: prod.splits)
  show b: "only_sent cl (snd (lib_send_simple_command cmd cl))" for cmd
    by (simp add: lib_send_simple_command_def packet_queue_only_sent split: prod.splits)
  show "only_sent cl (snd (lib_send_puback mid cl))" "only_sent cl (snd (lib_send_pubrec mid cl))"
    "only_sent cl (snd (lib_send_pubrel mid cl))" "only_sent cl (snd (lib_send_pubcomp mid cl))"
    "only_sent cl (snd (lib_send_pingresp cl))"
    by (simp_all add: lib_send_puback_def lib_send_pubrec_def lib_send_pubrel_def lib_send_pubcomp_def lib_send_pingresp_def a b)
qed

lemma pingreq_only_sent: "only_sent cl (snd (lib_send_pingreq cl))"
proof -
  obtain rc cl1 where s: "lib_send_simple_command PINGREQ cl = (rc, cl1)" by (rule prod.exhaust)
  then have "only_sent cl cl1" using commands_only_sent(2) [of cl PINGREQ] by simp
  then show ?thesis using only_sent_trans [of cl cl1 "upd_conn f cl1" for f]
    by (simp add: lib_send_pingreq_def s only_sent_upd)
qed

text \<open>A message whose sizes \<^verbatim>\<open>mosquitto_publish\<close> lets through.\<close>

definition sendable :: "mosquitto_message \<Rightarrow> bool" where
  "sendable g \<longleftrightarrow> length (mm_topic g) \<le> 65535 \<and> length (mm_payload g) \<le> 268435455"

lemma publish_only_sent:
  assumes "length t \<le> 65535" and "length pl \<le> 268435455"
  shows "only_sent cl (snd (lib_send_publish mid t pl qos retain dup cl))"
proof (cases "length (publish_body mid t pl qos) < 2 ^ 28")
  case True
  then show ?thesis using assms(1)
    by (auto simp: lib_send_publish_def lib_send_real_publish_def packet_queue_only_sent
        elim: publish_fills [of t mid pl qos retain dup])
next
  case False
  let ?len = "2 + length t + length pl + (if qos > 0 then 2 else 0) :: nat"
  have "length (publish_body mid t pl qos) = ?len" by (simp add: publish_body_def enc_string_def uint16_bytes_def)
  then have big: "2 ^ 28 \<le> ?len" using False by (simp only: not_less)
  have "?len < 2 ^ 32" using assms by simp
  then have "unat (word_of_nat ?len :: u32) = ?len"
    by (simp only: unat_of_nat take_bit_nat_eq_self_iff len_bit0 len_num1 mult_1_right) simp
  then have "2 ^ 28 \<le> unat (remaining_length (publish_packet mid t pl qos retain dup))"
    using big unfolding publish_packet_def remaining_length_update by (simp only:)
  from packet_alloc_too_long [OF this] show ?thesis
    by (auto simp: lib_send_publish_def lib_send_real_publish_def split: prod.splits)
qed

lemma resend_only_sent: "sendable (ma_msg m) \<Longrightarrow> only_sent cl (snd (resend m cl))"
  by (simp add: resend_def Let_def publish_only_sent sendable_def)

subsection \<open>Linked lists with a pointer to the end\<close>

definition list_ok :: "nat \<Rightarrow> message_all list \<Rightarrow> nat option \<Rightarrow> bool" where
  "list_ok n xs at \<longleftrightarrow> distinct (map ma_ptr xs) \<and> (\<forall>m \<in> set xs. ma_ptr m < n) \<and>
     at = (if xs = [] then None else Some (ma_ptr (last xs)))"

lemma list_ok_Nil [simp]: "list_ok n [] at \<longleftrightarrow> at = None"
  by (simp add: list_ok_def)

lemma append_last_ok:
  assumes "list_ok n xs at"
  shows "append_last m xs at = (False, xs @ [m])"
proof (cases xs rule: rev_cases)
  case Nil
  then show ?thesis using assms by (simp add: append_last_def)
next
  case (snoc ys y)
  then have at: "at = Some (ma_ptr y)" and "ma_ptr y \<notin> ma_ptr ` set ys" using assms by (simp_all add: list_ok_def)
  then have "\<forall>x \<in> set ys. ma_ptr x \<noteq> ma_ptr y" by (auto simp: image_iff)
  then have "takeWhile (\<lambda>x. ma_ptr x \<noteq> ma_ptr y) xs = ys" "dropWhile (\<lambda>x. ma_ptr x \<noteq> ma_ptr y) xs = [y]"
    by (simp_all add: snoc takeWhile_append dropWhile_append)
  then show ?thesis using at by (simp add: append_last_def snoc)
qed

lemma list_ok_append: "list_ok n xs at \<Longrightarrow> ma_ptr m = n \<Longrightarrow> list_ok (n + 1) (xs @ [m]) (Some n)"
  by (fastforce simp: list_ok_def)

lemma list_ok_mono: "list_ok n xs at \<Longrightarrow> n \<le> k \<Longrightarrow> list_ok k xs at"
  by (fastforce simp: list_ok_def)

lemma list_ok_map: "map ma_ptr ys = map ma_ptr xs \<Longrightarrow> list_ok n ys at = list_ok n xs at"
proof -
  assume p: "map ma_ptr ys = map ma_ptr xs"
  then have "xs = [] \<longleftrightarrow> ys = []" by auto
  moreover have "ma_ptr (last ys) = ma_ptr (last xs)" if "xs \<noteq> []"
  proof -
    have "ys \<noteq> []" using p that by auto
    then show ?thesis using p last_map [OF that, of ma_ptr] last_map [of ys ma_ptr] by simp
  qed
  moreover have "(\<forall>m \<in> set ys. ma_ptr m < n) = (\<forall>m \<in> set xs. ma_ptr m < n)"
    using arg_cong [OF p, of "\<lambda>l. \<forall>q \<in> set l. q < n"] by simp
  ultimately show ?thesis using p by (simp add: list_ok_def)
qed

lemma unlink_None: "unlink mid prev xs = None \<longleftrightarrow> (\<forall>m \<in> set xs. mm_mid (ma_msg m) \<noteq> mid)"
  by (induction xs arbitrary: prev) auto

lemma unlink_Some:
  assumes "unlink mid prev xs = Some (cur, p, at_end, others)"
  obtains ys zs where "xs = ys @ cur # zs" and "others = ys @ zs" and "mm_mid (ma_msg cur) = mid"
    and "\<forall>y \<in> set ys. mm_mid (ma_msg y) \<noteq> mid" and "at_end = (zs = [])"
    and "p = (if ys = [] then prev else Some (ma_ptr (last ys)))"
  using assms
proof (induction xs arbitrary: prev others thesis)
  case (Cons m xs)
  show ?case
  proof (cases "mm_mid (ma_msg m) = mid")
    case True
    then show ?thesis using Cons.prems(2) by (intro Cons.prems(1) [of "[]" xs]) auto
  next
    case False
    then obtain os where u: "unlink mid (Some (ma_ptr m)) xs = Some (cur, p, at_end, os)" "others = m # os"
      using Cons.prems(2) by (auto split: if_splits)
    obtain ys zs where "xs = ys @ cur # zs" "os = ys @ zs" "mm_mid (ma_msg cur) = mid"
      "\<forall>y \<in> set ys. mm_mid (ma_msg y) \<noteq> mid" "at_end = (zs = [])" "p = (if ys = [] then Some (ma_ptr m) else Some (ma_ptr (last ys)))"
      using Cons.IH [OF _ u(1)] by blast
    then show ?thesis using False u(2) by (intro Cons.prems(1) [of "m # ys" zs]) auto
  qed
qed simp

lemma unlink_first:
  assumes "xs = ys @ cur # zs" and "mm_mid (ma_msg cur) = mid" and "\<forall>y \<in> set ys. mm_mid (ma_msg y) \<noteq> mid"
  shows "unlink mid prev xs = Some (cur, if ys = [] then prev else Some (ma_ptr (last ys)), zs = [], ys @ zs)"
  using assms by (induction ys arbitrary: xs prev) auto

lemma list_ok_unlink:
  assumes "list_ok n xs at" and "unlink mid None xs = Some (cur, p, at_end, others)"
  shows "list_ok n others (last_after p at_end others at)"
proof -
  obtain ys zs where "xs = ys @ cur # zs" "others = ys @ zs" "at_end = (zs = [])"
    "p = (if ys = [] then None else Some (ma_ptr (last ys)))"
    by (rule unlink_Some [OF assms(2)])
  then show ?thesis using assms(1) by (auto simp: list_ok_def last_after_def)
qed

subsection \<open>The window\<close>

text \<open>The messages under way: not parked, so that the broker has them or is about to get them.\<close>

definition under_way :: "message_all list \<Rightarrow> nat" where
  "under_way ms = length (filter (\<lambda>m. ma_state m \<noteq> mosq_ms_invalid) ms)"

lemma under_way_simps [simp]: "under_way [] = 0"
  "under_way (m # ms) = (if ma_state m \<noteq> mosq_ms_invalid then 1 else 0) + under_way ms"
  "under_way (xs @ ys) = under_way xs + under_way ys"
  by (simp_all add: under_way_def)

definition out_ok :: "message_all \<Rightarrow> bool" where
  "out_ok m \<longleftrightarrow> sendable (ma_msg m) \<and> mm_qos (ma_msg m) \<in> {1, 2}"

text \<open>A message as it was, or taken into the window.\<close>

definition resumed :: "message_all \<Rightarrow> message_all \<Rightarrow> bool" where
  "resumed m m' \<longleftrightarrow> m' = m \<or> parked m \<and> m' = m\<lparr>ma_state := waiting_state (mm_qos (ma_msg m)) (ma_state m)\<rparr>"

lemma resumed_refl [simp]: "resumed m m" "list_all2 resumed ms ms"
  by (simp_all add: resumed_def list_all2_refl)

lemma waiting_state_busy [simp]: "q \<in> {1, 2} \<Longrightarrow> waiting_state q st \<noteq> mosq_ms_invalid"
  by (auto simp: waiting_state_def)

lemma queues_eqD:
  assumes "queues cl' = queues cl"
  shows "in_messages cl' = in_messages cl" "in_messages_last cl' = in_messages_last cl"
    "out_messages cl' = out_messages cl" "out_messages_last cl' = out_messages_last cl" "in_queue_len cl' = in_queue_len cl"
    "out_queue_len cl' = out_queue_len cl" "inflight_messages cl' = inflight_messages cl"
    "max_inflight_messages cl' = max_inflight_messages cl" "cl_next cl' = cl_next cl" "cl_fault cl' = cl_fault cl"
  using assms by (simp_all add: queues_def)

lemma start_parked_spec:
  assumes "start_parked ms cl = (rc, ms', cl')" and "\<forall>m \<in> set ms. out_ok m"
  shows "\<exists>k. only_sent (cl\<lparr>inflight_messages := inflight_messages cl + int k\<rparr>) cl' \<and> list_all2 resumed ms ms' \<and>
    under_way ms' = under_way ms + k \<and>
    (0 < k \<longrightarrow> max_inflight_messages cl = 0 \<or> inflight_messages cl + int k \<le> max_inflight_messages cl) \<and>
    (rc = 0 \<longrightarrow> (\<exists>m \<in> set ms'. parked m) \<longrightarrow> \<not> window_open cl')"
  using assms
proof (induction ms arbitrary: cl rc ms' cl')
  case Nil
  then show ?case by (auto intro!: exI [of _ 0])
next
  case (Cons m ms)
  show ?case
  proof (cases "window_open cl")
    case False
    then show ?thesis using Cons.prems by (auto intro!: exI [of _ 0])
  next
    case room: True
    show ?thesis
    proof (cases "parked m")
      case False
      obtain ms1 where s: "start_parked ms cl = (rc, ms1, cl')" "ms' = m # ms1"
        using Cons.prems(1) room False by (auto split: prod.splits)
      obtain k where "only_sent (cl\<lparr>inflight_messages := inflight_messages cl + int k\<rparr>) cl'" "list_all2 resumed ms ms1"
        "under_way ms1 = under_way ms + k"
        "0 < k \<longrightarrow> max_inflight_messages cl = 0 \<or> inflight_messages cl + int k \<le> max_inflight_messages cl"
        "rc = 0 \<longrightarrow> (\<exists>m \<in> set ms1. parked m) \<longrightarrow> \<not> window_open cl'"
        using Cons.IH [OF s(1)] Cons.prems(2) by auto
      then show ?thesis using False s(2) by (intro exI [of _ k]) auto
    next
      case parked: True
      let ?m = "m\<lparr>ma_state := waiting_state (mm_qos (ma_msg m)) (ma_state m)\<rparr>"
      let ?cl = "cl\<lparr>inflight_messages := inflight_messages cl + 1\<rparr>"
      have m: "out_ok m" using Cons.prems(2) by simp
      have st: "resumed m ?m" "ma_state ?m \<noteq> mosq_ms_invalid" "ma_state m = mosq_ms_invalid" "\<not> parked ?m"
        using parked m by (auto simp: resumed_def parked_def out_ok_def)
      obtain rc1 cl1 where r: "resend ?m ?cl = (rc1, cl1)" by (rule prod.exhaust)
      have o: "only_sent ?cl cl1" using resend_only_sent [of ?m ?cl] m r by (simp add: out_ok_def)
      note f = queues_eqD [of cl1 ?cl, simplified]
      have q: "queues cl1 = queues ?cl" using o by (simp add: only_sent_def)
      show ?thesis
      proof (cases "rc1 = 0")
        case False
        then have "rc = rc1" "ms' = ?m # ms" "cl' = cl1" using Cons.prems(1) room parked r by auto
        then show ?thesis using o st False room
          by (intro exI [of _ 1]) (auto simp: window_open_def)
      next
        case True
        obtain ms1 where s: "start_parked ms cl1 = (rc, ms1, cl')" "ms' = ?m # ms1"
          using Cons.prems(1) room parked r True by (auto split: prod.splits)
        obtain k where k: "only_sent (cl1\<lparr>inflight_messages := inflight_messages cl1 + int k\<rparr>) cl'" "list_all2 resumed ms ms1"
          "under_way ms1 = under_way ms + k"
          "0 < k \<longrightarrow> max_inflight_messages cl1 = 0 \<or> inflight_messages cl1 + int k \<le> max_inflight_messages cl1"
          "rc = 0 \<longrightarrow> (\<exists>m \<in> set ms1. parked m) \<longrightarrow> \<not> window_open cl'"
          using Cons.IH [OF s(1)] Cons.prems(2) by auto
        have "only_sent (?cl\<lparr>inflight_messages := inflight_messages ?cl + int k\<rparr>) (cl1\<lparr>inflight_messages := inflight_messages cl1 + int k\<rparr>)"
          using o by (auto simp: only_sent_def queues_def passed_on_def callbacks_def)
        then have "only_sent (cl\<lparr>inflight_messages := inflight_messages cl + int (Suc k)\<rparr>) cl'"
          using only_sent_trans [OF _ k(1)] by (simp add: add.assoc)
        moreover have "max_inflight_messages cl = 0 \<or> inflight_messages cl + int (Suc k) \<le> max_inflight_messages cl"
          using k(4) room f(7,8) q by (cases "k = 0") (auto simp: window_open_def)
        ultimately show ?thesis using k(2,3,5) st s(2) by (intro exI [of _ "Suc k"]) auto
      qed
    qed
  qed
qed

subsection \<open>The invariants\<close>

definition in_ok :: "message_all \<Rightarrow> bool" where
  "in_ok m \<longleftrightarrow> mm_qos (ma_msg m) = 2 \<and> ma_state m = mosq_ms_wait_for_pubrel"

definition lib_ok :: "client \<Rightarrow> bool" where
  "lib_ok cl \<longleftrightarrow>
     list_ok (cl_next cl) (in_messages cl) (in_messages_last cl) \<and> list_ok (cl_next cl) (out_messages cl) (out_messages_last cl) \<and>
     (\<forall>m \<in> set (in_messages cl). in_ok m) \<and> (\<forall>m \<in> set (out_messages cl). out_ok m) \<and>
     in_queue_len cl = int (length (in_messages cl)) \<and> out_queue_len cl = int (length (out_messages cl)) \<and> \<not> cl_fault cl"

definition window_ok :: "int \<Rightarrow> client \<Rightarrow> bool" where
  "window_ok most cl \<longleftrightarrow> int (under_way (out_messages cl)) \<le> inflight_messages cl \<and> int (under_way (out_messages cl)) \<le> most \<and>
     0 < max_inflight_messages cl \<and> max_inflight_messages cl \<le> most"

text \<open>With a bound \<open>h\<close>: the broker is honest and no limit on the messages under way was above the bound.\<close>

definition good :: "int option \<Rightarrow> client \<Rightarrow> bool" where
  "good h cl \<longleftrightarrow> lib_ok cl \<and> (\<forall>most. h = Some most \<longrightarrow> window_ok most cl)"

lemma good_any: "good h cl \<Longrightarrow> good None cl"
  by (simp add: good_def)

lemma good_queues: "queues cl' = queues cl \<Longrightarrow> good h cl' = good h cl"
  using queues_eqD [of cl' cl] by (simp add: good_def lib_ok_def window_ok_def)

lemma good_sent: "only_sent cl cl' \<Longrightarrow> good h cl' = good h cl"
  by (rule good_queues) (simp add: only_sent_def)

lemma resumed_one: "resumed m m' \<Longrightarrow> ma_ptr m' = ma_ptr m \<and> ma_msg m' = ma_msg m"
  by (auto simp: resumed_def)

lemma resumed_all:
  assumes "list_all2 resumed ms ms'"
  shows "map ma_ptr ms' = map ma_ptr ms" and "map ma_msg ms' = map ma_msg ms" and "length ms' = length ms"
  using assms by (induction rule: list_all2_induct) (simp_all add: resumed_one)

lemma out_ok_messages:
  assumes "map ma_msg ms' = map ma_msg ms" and "\<forall>m \<in> set ms. out_ok m"
  shows "\<forall>m \<in> set ms'. out_ok m"
proof -
  have all: "(\<forall>m \<in> set xs. out_ok m) = (\<forall>g \<in> set (map ma_msg xs). sendable g \<and> mm_qos g \<in> {1, 2})" for xs
    by (auto simp: out_ok_def)
  show ?thesis unfolding all assms(1) using assms(2) unfolding all .
qed

lemma remove_out_good:
  assumes "good h cl" and "unlink mid None (out_messages cl) = Some (cur, p, at_end, others)"
    and "h \<noteq> None \<Longrightarrow> ma_state cur \<noteq> mosq_ms_invalid" and "mosquitto_message_remove mid mosq_md_out cl = (rc, m, cl')"
  shows "good h cl' \<and> (rc = 0 \<longrightarrow> (\<exists>m \<in> set (out_messages cl'). parked m) \<longrightarrow> \<not> window_open cl') \<and>
    passed_on cl' = passed_on cl \<and> in_messages cl' = in_messages cl"
proof -
  obtain ys zs where s: "out_messages cl = ys @ cur # zs" "others = ys @ zs"
    by (rule unlink_Some [OF assms(2)])
  let ?cl = "cl\<lparr>out_messages := others, out_queue_len := out_queue_len cl - 1,
      out_messages_last := last_after p at_end others (out_messages_last cl), inflight_messages := inflight_messages cl - 1\<rparr>"
  have ok: "lib_ok cl" and out: "\<forall>m \<in> set others. out_ok m" "out_ok cur" using assms(1) s by (auto simp: good_def lib_ok_def)
  then have q: "0 < mm_qos (ma_msg cur)" by (auto simp: out_ok_def)
  obtain ms cl2 where sp: "start_parked others ?cl = (rc, ms, cl2)" and cl': "cl' = cl2\<lparr>out_messages := ms\<rparr>"
    using assms(4) q by (auto simp: mosquitto_message_remove_def assms(2) Let_def split: prod.splits)
  obtain k where k: "only_sent (?cl\<lparr>inflight_messages := inflight_messages ?cl + int k\<rparr>) cl2" "list_all2 resumed others ms"
      "under_way ms = under_way others + k"
      "0 < k \<longrightarrow> max_inflight_messages ?cl = 0 \<or> inflight_messages ?cl + int k \<le> max_inflight_messages ?cl"
      "rc = 0 \<longrightarrow> (\<exists>m \<in> set ms. parked m) \<longrightarrow> \<not> window_open cl2"
    using start_parked_spec [OF sp out(1)] by blast
  note f = queues_eqD [of cl2 "?cl\<lparr>inflight_messages := inflight_messages ?cl + int k\<rparr>", simplified]
  have fq: "queues cl2 = queues (?cl\<lparr>inflight_messages := inflight_messages ?cl + int k\<rparr>)"
    using k(1) by (simp add: only_sent_def)
  note f = f [OF fq [simplified]]
  have "list_ok (cl_next cl) others (last_after p at_end others (out_messages_last cl))"
    by (rule list_ok_unlink [OF _ assms(2)]) (use ok in \<open>simp add: lib_ok_def\<close>)
  then have "lib_ok cl'"
    using ok resumed_all [OF k(2)] out_ok_messages [OF resumed_all(2) [OF k(2)] out(1)] list_ok_map [of ms others] s
    by (simp add: lib_ok_def cl' f)
  moreover have "window_ok most cl'" if h: "h = Some most" for most
  proof -
    have u: "under_way (out_messages cl) = under_way others + 1" using assms(3) h s by simp
    have "window_ok most cl" using assms(1) h by (simp add: good_def)
    then show ?thesis using u k(3,4) by (cases "k = 0") (auto simp: window_ok_def cl' f)
  qed
  moreover have "window_open cl' = window_open cl2" by (simp add: cl' window_open_def)
  moreover have "passed_on cl2 = passed_on cl" using k(1) by (simp add: only_sent_def passed_on_def)
  ultimately show ?thesis using k(5) f(1) by (simp add: good_def cl' passed_on_def)
qed

lemma remove_in_good:
  assumes "good h cl" and "mosquitto_message_remove mid mosq_md_in cl = (rc, m, cl')"
  shows "good h cl'"
proof (cases "unlink mid None (in_messages cl)")
  case None
  then show ?thesis using assms by (simp add: mosquitto_message_remove_def)
next
  case (Some x)
  obtain cur p at_end others where x: "x = (cur, p, at_end, others)" by (cases x)
  obtain ys zs where s: "in_messages cl = ys @ cur # zs" "others = ys @ zs"
    by (rule unlink_Some [OF Some [unfolded x]])
  have "list_ok (cl_next cl) others (last_after p at_end others (in_messages_last cl))"
    by (rule list_ok_unlink [OF _ Some [unfolded x]]) (use assms(1) in \<open>simp add: good_def lib_ok_def\<close>)
  moreover have "cl' = cl\<lparr>in_messages := others, in_queue_len := in_queue_len cl - 1,
      in_messages_last := last_after p at_end others (in_messages_last cl)\<rparr>"
    using assms(2) by (simp add: mosquitto_message_remove_def Some x)
  ultimately show ?thesis using assms(1) s by (simp add: good_def lib_ok_def window_ok_def)
qed

lemma queue_in_good:
  assumes "good h cl" and "mm_qos g = 2" and "new_message dup mosq_ms_wait_for_pubrel g cl = (m, cl1)"
  shows "good h (snd (mosquitto_message_queue m mosq_md_in cl1))"
    and "in_messages (snd (mosquitto_message_queue m mosq_md_in cl1)) = in_messages cl @ [m]"
proof -
  have m: "ma_ptr m = cl_next cl" "ma_msg m = g" "ma_state m = mosq_ms_wait_for_pubrel" "cl1 = cl\<lparr>cl_next := cl_next cl + 1\<rparr>"
    using assms(3) by (auto simp: new_message_def)
  have ok: "lib_ok cl" using assms(1) by (simp add: good_def)
  then have ins: "list_ok (cl_next cl) (in_messages cl) (in_messages_last cl)" by (simp add: lib_ok_def)
  note app = append_last_ok [OF ins, of m]
  have "list_ok (cl_next cl + 1) (in_messages cl @ [m]) (Some (cl_next cl))" by (rule list_ok_append [OF ins m(1)])
  then show "good h (snd (mosquitto_message_queue m mosq_md_in cl1))"
    using assms(1,2) ok m list_ok_mono [of "cl_next cl" "out_messages cl" "out_messages_last cl" "cl_next cl + 1"]
    by (auto simp: mosquitto_message_queue_def app good_def lib_ok_def window_ok_def in_ok_def)
  show "in_messages (snd (mosquitto_message_queue m mosq_md_in cl1)) = in_messages cl @ [m]"
    by (simp add: mosquitto_message_queue_def m(4) app)
qed

text \<open>Set the state of one message.\<close>

lemma under_way_set_last:
  assumes "distinct (map ma_ptr (xs @ [m]))" and "ma_state m = mosq_ms_invalid"
  shows "map (\<lambda>x. if ma_ptr x = ma_ptr m then x\<lparr>ma_state := st\<rparr> else x) (xs @ [m]) = xs @ [m\<lparr>ma_state := st\<rparr>]"
proof -
  have "\<forall>x \<in> set xs. ma_ptr x \<noteq> ma_ptr m" using assms(1) by (auto simp: image_iff)
  then have "map (\<lambda>x. if ma_ptr x = ma_ptr m then x\<lparr>ma_state := st\<rparr> else x) xs = xs" by (simp add: map_idI)
  then show ?thesis by simp
qed

lemma publish_good:
  assumes "good h cl"
  shows "good h (snd (snd (mosquitto_publish topic len data qos retain cl)))"
    and "passed_on (snd (snd (mosquitto_publish topic len data qos retain cl))) = passed_on cl"
    and "\<not> window_open cl \<Longrightarrow> under_way (out_messages (snd (snd (mosquitto_publish topic len data qos retain cl)))) = under_way (out_messages cl)"
proof -
  let ?r = "mosquitto_publish topic len data qos retain cl"
  have "good h (snd (snd ?r)) \<and> passed_on (snd (snd ?r)) = passed_on cl \<and>
      (\<not> window_open cl \<longrightarrow> under_way (out_messages (snd (snd ?r))) = under_way (out_messages cl))"
  proof (cases "topic = None \<or> (\<exists>t. topic = Some t \<and> (qos < 0 \<or> 2 < qos \<or> t = [] \<or> len < 0 \<or> MQTT_MAX_PAYLOAD < len \<or>
      mosquitto_pub_topic_check t \<noteq> MOSQ_ERR_SUCCESS))")
    case True
    then have "snd (snd ?r) = cl" by (auto simp: mosquitto_publish_def)
    then show ?thesis using assms by simp
  next
    case False
    then obtain t where t: "topic = Some t" "0 \<le> qos" "qos \<le> 2" "t \<noteq> []" "0 \<le> len" "len \<le> MQTT_MAX_PAYLOAD"
      "mosquitto_pub_topic_check t = MOSQ_ERR_SUCCESS" by fastforce
    obtain mid c where mid: "mosquitto_mid_generate (conn cl) = (mid, c)" by (rule prod.exhaust)
    let ?cl = "cl\<lparr>conn := c\<rparr>"
    let ?g = "\<lparr>mm_mid = mid, mm_topic = t, mm_payload = take (nat len) data, mm_qos = nat qos, mm_retain = retain\<rparr>"
    have small: "sendable ?g" using t(6,7) pub_topic_check_iff [of t] by (simp add: sendable_def min_le_iff_disj nat_le_iff)
    have g: "good h ?cl" "passed_on ?cl = passed_on cl" using assms good_queues [of ?cl cl] by simp_all
    show ?thesis
    proof (cases "qos = 0")
      case True
      have "only_sent ?cl (snd (lib_send_publish mid t (take (nat len) data) 0 retain False ?cl))"
        by (rule publish_only_sent) (use small in \<open>simp_all add: sendable_def\<close>)
      moreover have "snd (snd ?r) = snd (lib_send_publish mid t (take (nat len) data) 0 retain False ?cl)"
        using t True by (simp add: mosquitto_publish_def mid Let_def split: prod.splits)
      ultimately show ?thesis using g good_sent [of ?cl "snd (snd ?r)" h] queues_eqD(3) [of "snd (snd ?r)" ?cl] by (simp add: only_sent_def)
    next
      case False
      define m where "m = \<lparr>ma_ptr = cl_next cl, ma_timestamp = clock cl, ma_state = mosq_ms_invalid, ma_dup = False, ma_msg = ?g\<rparr>"
      let ?cl2 = "?cl\<lparr>cl_next := cl_next cl + 1\<rparr>"
      have nm: "new_message False mosq_ms_invalid ?g ?cl = (m, ?cl2)" by (simp add: new_message_def m_def)
      have m: "ma_ptr m = cl_next cl" "ma_msg m = ?g" "ma_state m = mosq_ms_invalid" by (simp_all add: m_def)
      have ok: "lib_ok cl" using assms by (simp add: good_def)
      then have outs: "list_ok (cl_next cl) (out_messages cl) (out_messages_last cl)" by (simp add: lib_ok_def)
      note app = append_last_ok [OF outs, of m]
      have new: "list_ok (cl_next cl + 1) (out_messages cl @ [m]) (Some (cl_next cl))" by (rule list_ok_append [OF outs m(1)])
      then have set_last: "map (\<lambda>x. if ma_ptr x = cl_next cl then x\<lparr>ma_state := st\<rparr> else x) (out_messages cl @ [m])
          = out_messages cl @ [m\<lparr>ma_state := st\<rparr>]" for st
        using under_way_set_last [of "out_messages cl" m st] m by (simp add: list_ok_def)
      have new2: "list_ok (cl_next cl + 1) (out_messages cl @ [m\<lparr>ma_state := st\<rparr>]) (Some (cl_next cl))" for st
        using new list_ok_map [of "out_messages cl @ [m\<lparr>ma_state := st\<rparr>]" "out_messages cl @ [m]"] by simp
      have nat: "nat qos \<in> {1, 2}" using t(2,3) False by auto
      define cl3 where "cl3 = ?cl2\<lparr>out_queue_len := out_queue_len cl + 1, out_messages := out_messages cl @ [m],
          out_messages_last := Some (cl_next cl), cl_fault := False,
          inflight_messages := inflight_messages cl + (if window_open cl then 1 else 0)\<rparr>"
      define status :: rc where "status = (if window_open cl then 0 else 1)"
      have open_: "status = 0 \<longleftrightarrow> window_open cl" by (simp add: status_def)
      have "window_open (?cl2\<lparr>out_queue_len := n, out_messages := ms, out_messages_last := at, cl_fault := b\<rparr>) = window_open cl"
        for n ms at b by (simp add: window_open_def)
      then have qu: "mosquitto_message_queue m mosq_md_out ?cl2 = (status, cl3)"
        using nat m ok t(2) False by (simp add: mosquitto_message_queue_def app Let_def status_def cl3_def lib_ok_def)
      let ?st = "if status = 0 then waiting_state (nat qos) mosq_ms_invalid else mosq_ms_invalid"
      define cl4 where "cl4 = set_out_state (cl_next cl) ?st cl3"
      have outs4: "out_messages cl4 = out_messages cl @ [m\<lparr>ma_state := ?st\<rparr>]"
        using set_last by (simp add: cl4_def set_out_state_def cl3_def)
      have "out_ok (m\<lparr>ma_state := ?st\<rparr>)" using nat small m by (simp add: out_ok_def)
      then have "lib_ok cl4"
        using ok new2 list_ok_mono [of "cl_next cl" "in_messages cl" "in_messages_last cl" "cl_next cl + 1"]
        by (auto simp: lib_ok_def outs4) (auto simp: cl4_def set_out_state_def cl3_def)
      moreover have "window_ok most cl4" if "h = Some most" for most
      proof -
        have w: "window_ok most cl" using assms that by (simp add: good_def)
        have "waiting_state (nat qos) mosq_ms_invalid \<noteq> mosq_ms_invalid" by (rule waiting_state_busy [OF nat])
        then show ?thesis using w open_ unfolding window_ok_def outs4
          by (cases "status = 0") (auto simp: window_open_def cl4_def set_out_state_def cl3_def)
      qed
      ultimately have g4: "good h cl4" by (simp add: good_def)
      have h4: "passed_on cl4 = passed_on cl" by (simp add: cl4_def set_out_state_def cl3_def passed_on_def)
      have "snd (snd ?r) = (if status = 0 then snd (resend m cl4) else cl4)"
        using t False qu m by (auto simp: mosquitto_publish_def mid Let_def nm cl4_def split: prod.splits)
      moreover have "only_sent cl4 (snd (resend m cl4))" using small m by (simp add: resend_only_sent)
      ultimately show ?thesis using g4 h4 good_sent [of cl4 "snd (resend m cl4)"] queues_eqD(3) [of "snd (resend m cl4)" cl4] outs4 open_ m(3)
        by (auto simp: only_sent_def)
    qed
  qed
  then show "good h (snd (snd ?r))" and "passed_on (snd (snd ?r)) = passed_on cl"
    and "\<not> window_open cl \<Longrightarrow> under_way (out_messages (snd (snd ?r))) = under_way (out_messages cl)" by simp_all
qed

subsection \<open>Updating, reconnecting, sending again\<close>

lemma out_update_good:
  assumes "good h cl" and "h \<noteq> None \<Longrightarrow> unlink mid None (out_messages cl) = Some (cur, p, at_end, others) \<Longrightarrow> ma_state cur \<noteq> mosq_ms_invalid"
    and "unlink mid None (out_messages cl) = Some (cur, p, at_end, others)" and "st \<noteq> mosq_ms_invalid"
  shows "good h (snd (mosquitto_message_out_update mid st cl))"
proof -
  let ?f = "\<lambda>m. if ma_ptr m = ma_ptr cur then m\<lparr>ma_state := st, ma_timestamp := clock cl\<rparr> else m"
  have e: "mosquitto_message_out_update mid st cl = (MOSQ_ERR_SUCCESS, cl\<lparr>out_messages := map ?f (out_messages cl)\<rparr>)"
    by (simp add: mosquitto_message_out_update_def assms(3))
  have ok: "lib_ok cl" using assms(1) by (simp add: good_def)
  have f: "map ma_ptr (map ?f (out_messages cl)) = map ma_ptr (out_messages cl)"
    "map ma_msg (map ?f (out_messages cl)) = map ma_msg (out_messages cl)" by simp_all
  have "lib_ok (cl\<lparr>out_messages := map ?f (out_messages cl)\<rparr>)"
    using ok list_ok_map [OF f(1)] out_ok_messages [OF f(2)] by (simp add: lib_ok_def)
  moreover have "under_way (map ?f (out_messages cl)) = under_way (out_messages cl)" if "h \<noteq> None"
  proof -
    obtain ys zs where s: "out_messages cl = ys @ cur # zs" by (rule unlink_Some [OF assms(3)])
    have "distinct (map ma_ptr (out_messages cl))" using ok by (simp add: lib_ok_def list_ok_def)
    then have "\<forall>m \<in> set ys \<union> set zs. ma_ptr m \<noteq> ma_ptr cur" using s by (auto simp: image_iff)
    then have "map ?f (out_messages cl) = ys @ ?f cur # zs" by (simp add: s map_idI)
    then show ?thesis using assms(2) [OF that assms(3)] assms(4) s by simp
  qed
  ultimately show ?thesis using assms(1) by (auto simp: e good_def window_ok_def)
qed

lemma reset_in_spec:
  "\<forall>m \<in> set ms. mm_qos (ma_msg m) = 2 \<Longrightarrow> reset_in prev n ms =
     (False, map (\<lambda>m. m\<lparr>ma_timestamp := 0\<rparr>) ms, if ms = [] then prev else Some (ma_ptr (last ms)), n + int (length ms))"
  by (induction ms arbitrary: prev n) auto

lemma reset_out_spec:
  "\<forall>m \<in> set ms. out_ok m \<Longrightarrow> reset_out limit prev n i ms =
     (map (\<lambda>(k, m). reset_one limit (i + 1 + int k) m) (enumerate 0 ms),
      if ms = [] then prev else Some (ma_ptr (last ms)), n + int (length ms), i + int (length ms))"
proof (induction ms arbitrary: prev n i)
  case (Cons m ms)
  have q: "0 < mm_qos (ma_msg m)" using Cons.prems by (auto simp: out_ok_def)
  have "map (\<lambda>(k, m). reset_one limit (i + 1 + 1 + int k) m) (enumerate 0 ms) =
      map (\<lambda>(k, m). reset_one limit (i + 1 + int k) m) (enumerate (Suc 0) ms)"
    by (rule nth_equalityI) (simp_all add: nth_enumerate_eq algebra_simps)
  then show ?case using Cons q by (auto simp: Let_def)
qed simp

text \<open>The first messages, one less than the window has places, are started; the others are parked.\<close>

lemma reset_out_split:
  assumes "0 < limit"
  shows "map (\<lambda>(k, m). reset_one limit (1 + int k) m) (enumerate 0 ms) =
    map (reset_one limit 0) (take (nat (limit - 1)) ms) @ map (reset_one limit limit) (drop (nat (limit - 1)) ms)"
proof (rule nth_equalityI)
  show "length (map (\<lambda>(k, m). reset_one limit (1 + int k) m) (enumerate 0 ms)) =
      length (map (reset_one limit 0) (take (nat (limit - 1)) ms) @ map (reset_one limit limit) (drop (nat (limit - 1)) ms))"
    by simp
next
  fix k assume "k < length (map (\<lambda>(k, m). reset_one limit (1 + int k) m) (enumerate 0 ms))"
  then have k: "k < length ms" by simp
  show "map (\<lambda>(k, m). reset_one limit (1 + int k) m) (enumerate 0 ms) ! k =
      (map (reset_one limit 0) (take (nat (limit - 1)) ms) @ map (reset_one limit limit) (drop (nat (limit - 1)) ms)) ! k"
  proof (cases "k < nat (limit - 1)")
    case True
    then show ?thesis using k assms by (simp add: nth_append nth_enumerate_eq reset_one_def)
  next
    case False
    then have "nat (limit - 1) + (k - nat (limit - 1)) = k" "\<not> k < length (take (nat (limit - 1)) ms)" by simp_all
    then show ?thesis using k assms False by (simp add: nth_append nth_enumerate_eq reset_one_def min_def)
  qed
qed

lemma reset_one_fields [simp]: "ma_ptr (reset_one limit i m) = ma_ptr m" "ma_msg (reset_one limit i m) = ma_msg m"
  by (simp_all add: reset_one_def)

lemma under_way_parked: "limit \<noteq> 0 \<Longrightarrow> limit \<le> i \<Longrightarrow> under_way (map (reset_one limit i) ms) = 0"
  by (induction ms) (simp_all add: reset_one_def)

lemma under_way_le: "under_way ms \<le> length ms"
  by (simp add: under_way_def)

lemma reset_good:
  assumes "good h cl"
  shows "good h (mosquitto_messages_reconnect_reset cl)"
    and "passed_on (mosquitto_messages_reconnect_reset cl) = passed_on cl"
proof -
  let ?l = "max_inflight_messages cl"
  let ?outs = "map (\<lambda>(k, m). reset_one ?l (1 + int k) m) (enumerate 0 (out_messages cl))"
  let ?ins = "map (\<lambda>m. m\<lparr>ma_timestamp := 0\<rparr>) (in_messages cl)"
  have ok: "lib_ok cl" using assms by (simp add: good_def)
  have "\<forall>m \<in> set (in_messages cl). mm_qos (ma_msg m) = 2" using ok by (auto simp: lib_ok_def in_ok_def)
  note ins = reset_in_spec [OF this, of None 0]
  have "\<forall>m \<in> set (out_messages cl). out_ok m" using ok by (simp add: lib_ok_def)
  note outs = reset_out_spec [OF this, of ?l None 0 0, simplified]
  have e: "mosquitto_messages_reconnect_reset cl = cl\<lparr>in_messages := ?ins,
      in_messages_last := (if in_messages cl = [] then None else Some (ma_ptr (last (in_messages cl)))),
      in_queue_len := int (length (in_messages cl)), out_messages := ?outs,
      out_messages_last := (if out_messages cl = [] then None else Some (ma_ptr (last (out_messages cl)))),
      out_queue_len := int (length (out_messages cl)), inflight_messages := int (length (out_messages cl)), cl_fault := False\<rparr>"
    using ok unfolding mosquitto_messages_reconnect_reset_def ins outs prod.case by (simp add: lib_ok_def)
  have p: "map ma_ptr ?ins = map ma_ptr (in_messages cl)" "map ma_ptr ?outs = map ma_ptr (out_messages cl)"
    "map ma_msg ?outs = map ma_msg (out_messages cl)"
    by (simp_all add: comp_def case_prod_beta) (rule nth_equalityI; simp add: nth_enumerate_eq)+
  have last_ok: "list_ok k ys (if xs = [] then None else Some (ma_ptr (last xs)))"
    if "list_ok k xs at" "map ma_ptr ys = map ma_ptr xs" for k xs ys at
    using that list_ok_map [OF that(2)] by (simp add: list_ok_def)
  have "list_ok (cl_next cl) ?ins (if in_messages cl = [] then None else Some (ma_ptr (last (in_messages cl))))"
    "list_ok (cl_next cl) ?outs (if out_messages cl = [] then None else Some (ma_ptr (last (out_messages cl))))"
    using ok last_ok [OF _ p(1)] last_ok [OF _ p(2)] unfolding lib_ok_def by blast+
  moreover have "\<forall>m \<in> set ?ins. in_ok m" using ok by (simp add: lib_ok_def in_ok_def)
  moreover have "\<forall>m \<in> set ?outs. out_ok m" by (rule out_ok_messages [OF p(3)]) (use ok in \<open>simp add: lib_ok_def\<close>)
  ultimately have "lib_ok (mosquitto_messages_reconnect_reset cl)"
    unfolding e lib_ok_def by (simp del: set_map)
  moreover have "int (under_way ?outs) \<le> ?l" if "0 < ?l"
  proof -
    have "under_way (map (reset_one ?l 0) (take (nat (?l - 1)) (out_messages cl))) \<le> nat (?l - 1)"
      using under_way_le [of "map (reset_one ?l 0) (take (nat (?l - 1)) (out_messages cl))"] by simp
    then show ?thesis using that by (simp add: reset_out_split [OF that] under_way_parked)
  qed
  moreover have "under_way ?outs \<le> length (out_messages cl)" using under_way_le [of ?outs] by simp
  moreover have "0 < ?l \<and> ?l \<le> most" if "h = Some most" for most using assms that by (simp add: good_def window_ok_def)
  ultimately show "good h (mosquitto_messages_reconnect_reset cl)"
    unfolding good_def window_ok_def e using order_trans by fastforce
  show "passed_on (mosquitto_messages_reconnect_reset cl) = passed_on cl" by (simp add: e passed_on_def)
qed

lemma retry_one_spec:
  assumes "sendable (ma_msg m) \<or> ma_state m = mosq_ms_wait_for_pubrel"
  shows "only_sent cl (snd (retry_one m cl))" and "ma_ptr (fst (retry_one m cl)) = ma_ptr m"
    and "ma_msg (fst (retry_one m cl)) = ma_msg m" and "ma_state (fst (retry_one m cl)) = ma_state m"
  using assms resend_only_sent [of "m\<lparr>ma_timestamp := clock cl, ma_dup := True\<rparr>" cl]
  by (auto simp: retry_one_def Let_def split: mosquitto_msg_state.split)

lemma retry_loop_spec:
  assumes "\<forall>m \<in> set ms. sendable (ma_msg m) \<or> ma_state m = mosq_ms_wait_for_pubrel" and "retry_loop ms cl = (ms', cl')"
  shows "only_sent cl cl' \<and> map ma_ptr ms' = map ma_ptr ms \<and> map ma_msg ms' = map ma_msg ms \<and> map ma_state ms' = map ma_state ms"
  using assms
proof (induction ms arbitrary: cl ms')
  case (Cons m ms)
  obtain m1 cl1 where r: "retry_one m cl = (m1, cl1)" by (rule prod.exhaust)
  obtain ms1 where l: "retry_loop ms cl1 = (ms1, cl')" "ms' = m1 # ms1" using Cons.prems(2) r by (auto split: prod.splits)
  have "only_sent cl1 cl' \<and> map ma_ptr ms1 = map ma_ptr ms \<and> map ma_msg ms1 = map ma_msg ms \<and> map ma_state ms1 = map ma_state ms"
    using Cons.IH [OF _ l(1)] Cons.prems(1) by simp
  then show ?case using retry_one_spec [of m cl] r Cons.prems(1) l(2) only_sent_trans by auto
qed simp

lemma under_way_states:
  assumes "map ma_state ms' = map ma_state ms"
  shows "under_way ms' = under_way ms"
proof -
  have states: "under_way xs = length (filter (\<lambda>st. st \<noteq> mosq_ms_invalid) (map ma_state xs))" for xs
    by (simp add: under_way_def filter_map comp_def)
  show ?thesis unfolding states assms ..
qed

lemma in_ok_messages:
  assumes "map ma_msg ms' = map ma_msg ms" and "map ma_state ms' = map ma_state ms" and "\<forall>m \<in> set ms. in_ok m"
  shows "\<forall>m \<in> set ms'. in_ok m"
proof -
  have all: "(\<forall>m \<in> set xs. in_ok m) = ((\<forall>g \<in> set (map ma_msg xs). mm_qos g = 2) \<and>
      (\<forall>st \<in> set (map ma_state xs). st = mosq_ms_wait_for_pubrel))" for xs
    by (auto simp: in_ok_def)
  show ?thesis unfolding all assms(1,2) using assms(3) unfolding all .
qed

lemma retry_good:
  assumes "good h cl"
  shows "good h (mosquitto_message_retry_check cl)" and "passed_on (mosquitto_message_retry_check cl) = passed_on cl"
proof -
  obtain outs cl1 where o: "retry_loop (out_messages cl) cl = (outs, cl1)" by (rule prod.exhaust)
  obtain ins cl2 where i: "retry_loop (in_messages cl1) (cl1\<lparr>out_messages := outs\<rparr>) = (ins, cl2)" by (rule prod.exhaust)
  have ok: "lib_ok cl" using assms by (simp add: good_def)
  have "\<forall>m \<in> set (out_messages cl). sendable (ma_msg m) \<or> ma_state m = mosq_ms_wait_for_pubrel"
    using ok by (auto simp: lib_ok_def out_ok_def)
  note o' = retry_loop_spec [OF this o]
  then have q1: "queues cl1 = queues cl" by (simp add: only_sent_def)
  note f1 = queues_eqD [OF q1]
  have "\<forall>m \<in> set (in_messages cl1). sendable (ma_msg m) \<or> ma_state m = mosq_ms_wait_for_pubrel"
    using ok f1 by (auto simp: lib_ok_def in_ok_def)
  note i' = retry_loop_spec [OF this i]
  then have q2: "queues cl2 = queues (cl1\<lparr>out_messages := outs\<rparr>)" by (simp add: only_sent_def)
  note f2 = queues_eqD [OF q2]
  have ins: "map ma_ptr ins = map ma_ptr (in_messages cl)" "\<forall>m \<in> set ins. in_ok m" "length ins = length (in_messages cl)"
  proof -
    show p: "map ma_ptr ins = map ma_ptr (in_messages cl)" using i' f1(1) by simp
    show "\<forall>m \<in> set ins. in_ok m"
      by (rule in_ok_messages [of _ "in_messages cl"]) (use i' f1(1) ok in \<open>simp_all add: lib_ok_def\<close>)
    show "length ins = length (in_messages cl)" using arg_cong [OF p, of length] by simp
  qed
  have outs: "map ma_ptr outs = map ma_ptr (out_messages cl)" "\<forall>m \<in> set outs. out_ok m" "length outs = length (out_messages cl)"
    "under_way outs = under_way (out_messages cl)"
  proof -
    show p: "map ma_ptr outs = map ma_ptr (out_messages cl)" using o' by simp
    show "\<forall>m \<in> set outs. out_ok m"
      by (rule out_ok_messages [of _ "out_messages cl"]) (use o' ok in \<open>simp_all add: lib_ok_def\<close>)
    show "length outs = length (out_messages cl)" using arg_cong [OF p, of length] by simp
    show "under_way outs = under_way (out_messages cl)" by (rule under_way_states) (use o' in simp)
  qed
  have e: "mosquitto_message_retry_check cl = cl2\<lparr>in_messages := ins\<rparr>"
    by (simp add: mosquitto_message_retry_check_def o i)
  show "good h (mosquitto_message_retry_check cl)"
    using assms ins outs list_ok_map [OF ins(1)] list_ok_map [OF outs(1)]
    by (auto simp: e good_def lib_ok_def window_ok_def f1 f2)
  have "passed_on cl2 = passed_on cl" using o' i' by (simp add: only_sent_def passed_on_def)
  then show "passed_on (mosquitto_message_retry_check cl) = passed_on cl" by (simp add: e passed_on_def)
qed

subsection \<open>Receiving\<close>

definition receive :: "packet \<Rightarrow> client \<Rightarrow> rc \<times> client" where
  "receive p cl = lib_packet_handle (upd_conn (\<lambda>c. c\<lparr>in_packet := p\<rparr>) cl)"

text \<open>A broker only acknowledges what it was sent: the packet does not name a parked message.\<close>

definition acks_sent :: "packet \<Rightarrow> client \<Rightarrow> bool" where
  "acks_sent p cl \<longleftrightarrow>
     (command p AND 0xF0 \<in> {PUBACK, PUBREC, PUBCOMP} \<longrightarrow>
        (case fst (mosquitto_read_uint16 p) of
           Inl e \<Rightarrow> True
         | Inr mid \<Rightarrow>
             (case unlink mid None (out_messages cl) of
                None \<Rightarrow> True | Some (cur, others) \<Rightarrow> ma_state cur \<noteq> mosq_ms_invalid)))"

lemma read_only_sent: "only_sent cl (snd (lib_read rd cl))"
  by (simp add: lib_read_def only_sent_upd split: prod.splits)

lemma good_sentD: "only_sent cl cl' \<Longrightarrow> good h cl \<Longrightarrow> good h cl'"
  by (simp add: good_sent)

lemma read_facts:
  assumes "lib_read rd cl = (x, cl1)"
  shows "x = fst (rd (in_packet (conn cl)))" and "good h cl \<Longrightarrow> good h cl1" and "passed_on cl1 = passed_on cl"
    and "out_messages cl1 = out_messages cl" and "in_messages cl1 = in_messages cl" and "on_message cl1 = on_message cl"
proof -
  have s: "only_sent cl cl1" using read_only_sent [of cl rd] assms by simp
  then show "good h cl \<Longrightarrow> good h cl1" by (rule good_sentD)
  show "passed_on cl1 = passed_on cl" using s by (simp add: only_sent_def)
qed (use assms in \<open>simp_all add: lib_read_def upd_conn_def split: prod.splits\<close>, auto)

text \<open>What decides how a packet is handled.\<close>

definition same_session :: "client \<Rightarrow> client \<Rightarrow> bool" where
  "same_session cl cl' \<longleftrightarrow> on_message cl' = on_message cl \<and> protocol (conn cl') = protocol (conn cl)"

lemma same_session_trans: "same_session a b \<Longrightarrow> same_session b c \<Longrightarrow> same_session a c"
  by (simp add: same_session_def)

lemma same_session_sent: "only_sent cl cl' \<Longrightarrow> same_session cl cl'"
  by (simp add: same_session_def only_sent_def callbacks_def)

lemma same_session_read: "lib_read rd cl = (x, cl1) \<Longrightarrow> same_session cl cl1"
  using same_session_sent [OF read_only_sent [of cl rd]] by simp

lemma tell_good: "good h (tell b ev cl) = good h cl"
  by (rule good_queues) simp

lemma delete_good:
  assumes "good h cl"
    and "h \<noteq> None \<Longrightarrow> case unlink mid None (out_messages cl) of None \<Rightarrow> True | Some (cur, others) \<Rightarrow> ma_state cur \<noteq> mosq_ms_invalid"
    and "mosquitto_message_delete mid mosq_md_out cl = (rc, cl')"
  shows "good h cl' \<and> passed_on cl' = passed_on cl \<and> in_messages cl' = in_messages cl"
proof (cases "unlink mid None (out_messages cl)")
  case None
  then show ?thesis using assms by (auto simp: mosquitto_message_delete_def mosquitto_message_remove_def)
next
  case (Some x)
  obtain cur p at_end others where x: "x = (cur, p, at_end, others)" by (cases x)
  obtain m where r: "mosquitto_message_remove mid mosq_md_out cl = (rc, m, cl')"
    using assms(3) by (auto simp: mosquitto_message_delete_def split: prod.splits)
  show ?thesis using remove_out_good [OF assms(1) Some [unfolded x] _ r] assms(2) Some x by simp
qed

lemma pubackcomp_good:
  assumes "good h cl" and "command (in_packet (conn cl)) AND 0xF0 \<in> {PUBACK, PUBCOMP}" and "h \<noteq> None \<Longrightarrow> acks_sent (in_packet (conn cl)) cl"
  shows "good h (snd (lib_handle_pubackcomp cl)) \<and> passed_on (snd (lib_handle_pubackcomp cl)) = passed_on cl"
proof -
  obtain x cl1 where r: "lib_read mosquitto_read_uint16 cl = (x, cl1)" by (rule prod.exhaust)
  note rd = read_facts [OF r]
  have g1: "good h cl1" "passed_on cl1 = passed_on cl" using rd(2,3) assms(1) by simp_all
  show ?thesis
  proof (cases x)
    case (Inl e)
    then show ?thesis using g1 by (simp add: lib_handle_pubackcomp_def r)
  next
    case (Inr mid)
    obtain rc cl2 where d: "mosquitto_message_delete mid mosq_md_out cl1 = (rc, cl2)" by (rule prod.exhaust)
    have "case unlink mid None (out_messages cl1) of None \<Rightarrow> True | Some (cur, others) \<Rightarrow> ma_state cur \<noteq> mosq_ms_invalid" if "h \<noteq> None"
      using assms(3) [OF that] assms(2) rd(1) [symmetric] rd(4) Inr by (auto simp: acks_sent_def)
    then show ?thesis using delete_good [OF g1(1) _ d] g1(2) by (simp add: lib_handle_pubackcomp_def r Inr d tell_good)
  qed
qed

lemma pubrec_good:
  assumes "good h cl" and "command (in_packet (conn cl)) AND 0xF0 = PUBREC" and "h \<noteq> None \<Longrightarrow> acks_sent (in_packet (conn cl)) cl"
  shows "good h (snd (lib_handle_pubrec cl)) \<and> passed_on (snd (lib_handle_pubrec cl)) = passed_on cl"
proof -
  obtain x cl1 where r: "lib_read mosquitto_read_uint16 cl = (x, cl1)" by (rule prod.exhaust)
  note rd = read_facts [OF r]
  have g1: "good h cl1" "passed_on cl1 = passed_on cl" using rd(2,3) assms(1) by simp_all
  show ?thesis
  proof (cases x)
    case (Inl e)
    then show ?thesis using g1 by (simp add: lib_handle_pubrec_def r)
  next
    case (Inr mid)
    show ?thesis
    proof (cases "unlink mid None (out_messages cl1)")
      case None
      then show ?thesis using g1 by (simp add: lib_handle_pubrec_def r Inr mosquitto_message_out_update_def)
    next
      case (Some y)
      obtain cur p at_end others where y: "y = (cur, p, at_end, others)" by (cases y)
      obtain cl2 where u: "mosquitto_message_out_update mid mosq_ms_wait_for_pubcomp cl1 = (MOSQ_ERR_SUCCESS, cl2)"
        and h2: "passed_on cl2 = passed_on cl1"
        by (simp add: mosquitto_message_out_update_def Some y passed_on_def)
      have "good h (snd (mosquitto_message_out_update mid mosq_ms_wait_for_pubcomp cl1))"
      proof (rule out_update_good [OF g1(1) _ Some [unfolded y]])
        show "ma_state cur \<noteq> mosq_ms_invalid" if "h \<noteq> None"
          using assms(3) [OF that] assms(2) rd(1) [symmetric] rd(4) Inr Some y by (simp add: acks_sent_def)
      qed simp
      then show ?thesis using u h2 g1(2) good_sent [OF commands_only_sent(5) [of cl2 mid], of h] commands_only_sent(5) [of cl2 mid]
        by (simp add: lib_handle_pubrec_def r Inr only_sent_def)
    qed
  qed
qed

text \<open>PUBREL hands over the first message with its id.\<close>

lemma remove_in_result:
  "mosquitto_message_remove mid mosq_md_in cl =
     (case unlink mid None (in_messages cl) of
        None \<Rightarrow> (MOSQ_ERR_NOT_FOUND, None, cl)
      | Some (cur, p, at_end, others) \<Rightarrow>
          (MOSQ_ERR_SUCCESS, Some cur, cl\<lparr>in_messages := others, in_queue_len := in_queue_len cl - 1,
             in_messages_last := last_after p at_end others (in_messages_last cl)\<rparr>))"
  by (simp add: mosquitto_message_remove_def)

lemma pubrel_result:
  assumes "good h cl" and "protocol (conn cl) = mosq_p_mqtt311 \<longrightarrow> command (in_packet (conn cl)) AND 0x0F = 2"
    and "fst (mosquitto_read_uint16 (in_packet (conn cl))) = Inr mid"
  shows "good h (snd (lib_handle_pubrel cl)) \<and> same_session cl (snd (lib_handle_pubrel cl)) \<and>
    (case unlink mid None (in_messages cl) of
       None \<Rightarrow> passed_on (snd (lib_handle_pubrel cl)) = passed_on cl \<and> in_messages (snd (lib_handle_pubrel cl)) = in_messages cl
     | Some (cur, p, at_end, others) \<Rightarrow>
         passed_on (snd (lib_handle_pubrel cl)) = passed_on cl @ (if on_message cl then [ma_msg cur] else []) \<and>
         in_messages (snd (lib_handle_pubrel cl)) = others)"
proof -
  obtain x cl1 where r: "lib_read mosquitto_read_uint16 cl = (x, cl1)" by (rule prod.exhaust)
  note rd = read_facts [OF r]
  have x: "x = Inr mid" using rd(1) assms(3) by simp
  have g1: "good h cl1" "passed_on cl1 = passed_on cl" "in_messages cl1 = in_messages cl" "on_message cl1 = on_message cl"
    using rd(2,3,5,6) assms(1) by simp_all
  obtain rc m cl2 where re: "mosquitto_message_remove mid mosq_md_in cl1 = (rc, m, cl2)" by (rule prod_cases3)
  have g2: "good h cl2" by (rule remove_in_good [OF g1(1) re])
  let ?told = "case m of Some x \<Rightarrow> if rc = 0 then tell (on_message cl2) (OnMessage (ma_msg x)) cl2 else cl2 | None \<Rightarrow> cl2"
  have e: "lib_handle_pubrel cl = lib_send_pubcomp mid ?told"
    using assms(2) by (cases "protocol (conn cl) = mosq_p_mqtt311") (simp_all add: lib_handle_pubrel_def r x re)
  note s = commands_only_sent(6) [of ?told mid]
  have "good h ?told" using g2 by (simp add: tell_good split: option.split)
  then have "good h (snd (lib_handle_pubrel cl))" using good_sent [OF s, of h] e by simp
  moreover have "same_session cl (snd (lib_handle_pubrel cl))"
  proof -
    have "same_session cl1 cl2"
      using re by (cases "unlink mid None (in_messages cl1)") (auto simp: remove_in_result same_session_def)
    moreover have "same_session cl2 ?told" by (cases m) (simp_all add: same_session_def tell_def)
    ultimately show ?thesis
      using same_session_read [OF r] same_session_sent [OF s] same_session_trans unfolding e by blast
  qed
  moreover have "passed_on (snd (lib_handle_pubrel cl)) = passed_on ?told" "in_messages (snd (lib_handle_pubrel cl)) = in_messages ?told"
    using s e queues_eqD(1) [of "snd (lib_send_pubcomp mid ?told)" ?told] by (simp_all add: only_sent_def)
  ultimately show ?thesis using re g1(2-4)
    by (auto simp: remove_in_result tell_def passed_on_def split: option.splits prod.splits if_splits)
qed

lemma pubrel_good: "good h cl \<Longrightarrow> good h (snd (lib_handle_pubrel cl))"
proof (cases "protocol (conn cl) = mosq_p_mqtt311 \<and> command (in_packet (conn cl)) AND 0x0F \<noteq> 2")
  case False
  assume g: "good h cl"
  show ?thesis
  proof (cases "fst (mosquitto_read_uint16 (in_packet (conn cl)))")
    case (Inl e)
    obtain x cl1 where r: "lib_read mosquitto_read_uint16 cl = (x, cl1)" by (rule prod.exhaust)
    show ?thesis using read_facts(1,2) [OF r] g Inl False by (auto simp: lib_handle_pubrel_def r)
  next
    case (Inr mid)
    then show ?thesis using pubrel_result [OF g _ Inr] False by blast
  qed
qed (simp add: lib_handle_pubrel_def)

lemma publish_result:
  assumes "good h cl"
  shows "good h (snd (lib_handle_publish cl))"
    and "fst (publish_fields (in_packet (conn cl))) = Inr (dup, g) \<Longrightarrow> mm_qos g = 2 \<Longrightarrow>
      passed_on (snd (lib_handle_publish cl)) = passed_on cl \<and> same_session cl (snd (lib_handle_publish cl)) \<and>
      (\<exists>m. ma_msg m = g \<and> in_messages (snd (lib_handle_publish cl)) = in_messages cl @ [m])"
proof -
  obtain x cl1 where r: "lib_read publish_fields cl = (x, cl1)" by (rule prod.exhaust)
  note rd = read_facts [OF r]
  have g1: "good h cl1" using rd(2) assms by simp
  have two: "good h (snd (lib_handle_publish cl)) \<and> passed_on (snd (lib_handle_publish cl)) = passed_on cl \<and>
      same_session cl (snd (lib_handle_publish cl)) \<and> (\<exists>m. ma_msg m = g \<and> in_messages (snd (lib_handle_publish cl)) = in_messages cl @ [m])"
    if i: "x = Inr (dup, g)" and q: "mm_qos g = 2" for dup g
  proof -
    obtain rc cl2 where s: "lib_send_pubrec (mm_mid g) cl1 = (rc, cl2)" by (rule prod.exhaust)
    then have o: "only_sent cl1 cl2" using commands_only_sent(4) [of cl1 "mm_mid g"] by simp
    have g2: "good h cl2" "passed_on cl2 = passed_on cl1" "in_messages cl2 = in_messages cl1"
      using good_sentD [OF o g1] o queues_eqD(1) [of cl2 cl1] by (simp_all add: only_sent_def)
    obtain m cl3 where n: "new_message dup mosq_ms_wait_for_pubrel g cl2 = (m, cl3)" by (rule prod.exhaust)
    then have m: "ma_msg m = g" "passed_on cl3 = passed_on cl2" by (auto simp: new_message_def passed_on_def)
    have e: "snd (lib_handle_publish cl) = snd (mosquitto_message_queue m mosq_md_in cl3)"
      by (simp add: lib_handle_publish_def r i q s n)
    have "passed_on (snd (mosquitto_message_queue m mosq_md_in cl3)) = passed_on cl3"
      by (simp add: mosquitto_message_queue_def passed_on_def split: prod.split)
    moreover have "same_session cl (snd (mosquitto_message_queue m mosq_md_in cl3))"
      using same_session_trans [OF same_session_read [OF r] same_session_sent [OF o]] n
      by (auto simp: same_session_def new_message_def mosquitto_message_queue_def split: prod.split)
    ultimately show ?thesis using queue_in_good [OF g2(1) q n] e m g2 rd(3,5) by auto
  qed
  show "good h (snd (lib_handle_publish cl))"
  proof (cases x)
    case (Inl e)
    then show ?thesis using g1 by (simp add: lib_handle_publish_def r)
  next
    case (Inr y)
    obtain dup g where y: "y = (dup, g)" by (rule prod.exhaust)
    consider "mm_qos g = 2" | "mm_qos g = 1" | "mm_qos g = 0" | "2 < mm_qos g" by linarith
    then show ?thesis
    proof cases
      case 1
      then show ?thesis using two Inr y by blast
    next
      case 2
      obtain rc cl2 where s: "lib_send_puback (mm_mid g) cl1 = (rc, cl2)" by (rule prod.exhaust)
      then have "good h cl2" using good_sentD [OF commands_only_sent(3) [of cl1 "mm_mid g"] g1] by simp
      then show ?thesis using 2 by (simp add: lib_handle_publish_def r Inr y s tell_good)
    next
      case 3
      then show ?thesis using g1 by (simp add: lib_handle_publish_def r Inr y tell_good)
    next
      case 4
      then show ?thesis using g1 by (simp add: lib_handle_publish_def r Inr y)
    qed
  qed
  show "fst (publish_fields (in_packet (conn cl))) = Inr (dup, g) \<Longrightarrow> mm_qos g = 2 \<Longrightarrow>
      passed_on (snd (lib_handle_publish cl)) = passed_on cl \<and> same_session cl (snd (lib_handle_publish cl)) \<and>
      (\<exists>m. ma_msg m = g \<and> in_messages (snd (lib_handle_publish cl)) = in_messages cl @ [m])"
    using two rd(1) by simp
qed

lemma other_handlers_good:
  assumes "good h cl"
  shows "good h (snd (lib_handle_pingresp cl))" "good h (snd (lib_handle_connack cl))" "good h (snd (lib_handle_suback cl))"
    "good h (snd (lib_handle_unsuback cl))" "good h (snd (lib_send_pingresp cl))"
proof -
  have conn: "good h (upd_conn f c) = good h c" for f c by (rule good_queues) simp
  show "good h (snd (lib_handle_pingresp cl))" using assms by (simp add: lib_handle_pingresp_def conn)
  show "good h (snd (lib_send_pingresp cl))" by (rule good_sentD [OF commands_only_sent(7) assms])
  have read: "good h (snd (lib_read rd c))" if "good h c" for rd :: "packet \<Rightarrow> (rc + 'a) \<times> packet" and c
    by (rule good_sentD [OF read_only_sent that])
  obtain x cl1 where r: "lib_read mosquitto_read_byte cl = (x, cl1)" by (rule prod.exhaust)
  have g1: "good h cl1" using read_facts(2) [OF r assms] .
  obtain y cl2 where r2: "lib_read mosquitto_read_byte cl1 = (y, cl2)" by (rule prod.exhaust)
  have "good h cl2" using read_facts(2) [OF r2 g1] .
  then show "good h (snd (lib_handle_connack cl))"
    using g1 by (simp add: lib_handle_connack_def r r2 Let_def conn tell_good split: sum.split)
  obtain x cl1 where r: "lib_read mosquitto_read_uint16 cl = (x, cl1)" by (rule prod.exhaust)
  have g1: "good h cl1" using read_facts(2) [OF r assms] .
  obtain y cl2 where r2: "lib_read granted_loop cl1 = (y, cl2)" by (rule prod.exhaust)
  have "good h cl2" using read_facts(2) [OF r2 g1] .
  then show "good h (snd (lib_handle_suback cl))" "good h (snd (lib_handle_unsuback cl))"
    using g1 by (simp_all add: lib_handle_suback_def lib_handle_unsuback_def r r2 tell_good split: sum.split)
qed

lemma receive_good:
  assumes "good h cl" and "h \<noteq> None \<Longrightarrow> acks_sent p cl"
  shows "good h (snd (receive p cl))"
proof -
  let ?cl = "upd_conn (\<lambda>c. c\<lparr>in_packet := p\<rparr>) cl"
  have g: "good h ?cl" using assms(1) good_queues [of ?cl cl] by simp
  have out: "out_messages (upd_conn f cl) = out_messages cl" for f by (simp add: upd_conn_def)
  have a: "h \<noteq> None \<Longrightarrow> acks_sent (in_packet (conn ?cl)) ?cl" using assms(2) unfolding acks_sent_def out by simp
  let ?c = "command (in_packet (conn ?cl)) AND 0xF0"
  have acks: "?c = PUBACK \<Longrightarrow> good h (snd (lib_handle_pubackcomp ?cl))" "?c = PUBCOMP \<Longrightarrow> good h (snd (lib_handle_pubackcomp ?cl))"
    "?c = PUBREC \<Longrightarrow> good h (snd (lib_handle_pubrec ?cl))"
    using pubackcomp_good [OF g _ a] pubrec_good [OF g _ a] by blast+
  show ?thesis
    unfolding receive_def lib_packet_handle_def Let_def
    using acks g publish_result(1) [OF g] pubrel_good [OF g] other_handlers_good [OF g] by (simp split: if_split del: upd_conn_fields)
qed

subsection \<open>A client that runs\<close>

text \<open>
  Every sequence of calls by an application with every behaviour of the network, from
  \<^verbatim>\<open>mosquitto_new\<close> on. With \<open>h = Some most\<close> the broker acknowledges only what it was sent, and the
  application sets only positive limits up to \<open>most\<close>; with \<open>h = None\<close> nothing is asked of either.
\<close>

definition limit_ok :: "int option \<Rightarrow> u32 \<Rightarrow> bool" where
  "limit_ok h n \<longleftrightarrow> (\<forall>most. h = Some most \<longrightarrow> 0 < sint n \<and> sint n \<le> most)"

inductive client_run :: "int option \<Rightarrow> client \<Rightarrow> bool" for h where
  run_new: "limit_ok h n \<Longrightarrow> client_run h (snd (mosquitto_max_inflight_messages_set n (client_init cid clean t)))"
| run_limit: "client_run h cl \<Longrightarrow> limit_ok h n \<Longrightarrow> client_run h (snd (mosquitto_max_inflight_messages_set n cl))"
| run_publish: "client_run h cl \<Longrightarrow> client_run h (snd (snd (mosquitto_publish topic len data qos retain cl)))"
| run_receive: "client_run h cl \<Longrightarrow> (h \<noteq> None \<Longrightarrow> acks_sent p cl) \<Longrightarrow> client_run h (snd (receive p cl))"
| run_misc: "client_run h cl \<Longrightarrow> client_run h (snd (mosquitto_loop_misc cl))"
| run_write: "client_run h cl \<Longrightarrow> client_run h (snd (lib_packet_write cl))"
| run_failed: "client_run h cl \<Longrightarrow> client_run h (snd (loop_rc_handle rc cl))"
| run_disconnect: "client_run h cl \<Longrightarrow> client_run h (snd (mosquitto_disconnect cl))"
| run_reconnect: "client_run h cl \<Longrightarrow> client_run h (upd_conn (\<lambda>c. c\<lparr>sock := s\<rparr>) (reconnect_prepare cl))"
| run_retry: "client_run h cl \<Longrightarrow> client_run h (mosquitto_message_retry_set n cl)"
| run_outside: "client_run h cl \<Longrightarrow>
    client_run h (cl\<lparr>conn := (conn cl)\<lparr>wr_answers := as, last_msg_in := t'\<rparr>, clock := t, on_connect := b1,
      on_disconnect := b2, on_publish := b3, on_message := b4, on_subscribe := b5, on_unsubscribe := b6\<rparr>)"

lemma init_good: "limit_ok h n \<Longrightarrow> good h (snd (mosquitto_max_inflight_messages_set n (client_init cid clean t)))"
  by (auto simp: good_def lib_ok_def window_ok_def client_init_def limit_ok_def mosquitto_max_inflight_messages_set_def)

lemma limit_good: "good h cl \<Longrightarrow> limit_ok h n \<Longrightarrow> good h (snd (mosquitto_max_inflight_messages_set n cl))"
  by (simp add: good_def lib_ok_def window_ok_def limit_ok_def mosquitto_max_inflight_messages_set_def)

lemma close_good: "good h (lib_socket_close cl) = good h cl"
  by (rule good_sent [OF only_sent_close])

lemma close_and_tell_good: "good h (close_and_tell cl) = good h cl"
  by (simp add: close_and_tell_def Let_def tell_good close_good)

lemma keepalive_good:
  assumes "good h cl"
  shows "good h (lib_check_keepalive cl)"
proof -
  have "good h (upd_conn f (snd (lib_send_pingreq cl)))" for f
    using good_queues [of "upd_conn f (snd (lib_send_pingreq cl))" "snd (lib_send_pingreq cl)"] good_sentD [OF pingreq_only_sent assms] by simp
  then show ?thesis using assms by (simp add: lib_check_keepalive_def Let_def close_and_tell_good)
qed

lemma loop_misc_good:
  assumes "good h cl"
  shows "good h (snd (mosquitto_loop_misc cl))"
proof -
  have "good h ((mosquitto_message_retry_check (lib_check_keepalive cl))\<lparr>last_retry_check := t\<rparr>)" for t
    using retry_good(1) [OF keepalive_good [OF assms]]
      good_queues [of "(mosquitto_message_retry_check (lib_check_keepalive cl))\<lparr>last_retry_check := t\<rparr>" "mosquitto_message_retry_check (lib_check_keepalive cl)"]
    by (simp add: queues_def)
  then show ?thesis using assms keepalive_good [OF assms]
    by (simp add: mosquitto_loop_misc_def Let_def close_and_tell_good)
qed

lemma client_run_good: "client_run h cl \<Longrightarrow> good h cl"
proof (induction rule: client_run.induct)
  case (run_receive cl p)
  then show ?case by (intro receive_good)
next
  case (run_failed cl rc)
  then show ?case by (simp add: loop_rc_handle_def Let_def tell_good close_good)
next
  case (run_disconnect cl)
  let ?cl = "upd_conn (\<lambda>c. c\<lparr>state := mosq_cs_disconnecting\<rparr>) cl"
  have "good h ?cl" using run_disconnect good_queues [of ?cl cl] by simp
  then show ?case using good_sentD [OF commands_only_sent(2)] by (simp add: mosquitto_disconnect_def Let_def)
next
  case (run_reconnect cl s)
  have "good h (upd_conn f cl)" for f using run_reconnect good_queues [of "upd_conn f cl" cl] by simp
  then have "good h (reconnect_prepare cl)" unfolding reconnect_prepare_def by (rule reset_good(1))
  then show ?case using good_queues [of "upd_conn (\<lambda>c. c\<lparr>sock := s\<rparr>) (reconnect_prepare cl)" "reconnect_prepare cl"] by simp
next
  case (run_retry cl n)
  then show ?case by (subst good_queues [of _ cl]) (simp_all add: queues_def mosquitto_message_retry_set_def)
next
  case (run_outside cl as t' t b1 b2 b3 b4 b5 b6)
  then show ?case by (subst good_queues [of _ cl]) (simp_all add: queues_def)
qed (simp_all add: init_good limit_good publish_good(1) loop_misc_good good_sentD [OF packet_write_only_sent])

end
