(* ===== verification/ClientProps.thy ===== *)
theory ClientProps
  imports ClientInv
begin

text \<open>
  What the client library promises to an application: the bound on the messages under way, the order in
  which they are sent, and how often a message is handed over.
\<close>

subsection \<open>The bound on the messages under way\<close>


text \<open>The library's way of starting a message that waits.\<close>

definition taken_up :: "message_all \<Rightarrow> message_all" where
  "taken_up m = (if parked m then m\<lparr>ma_state := waiting_state (mm_qos (ma_msg m)) (ma_state m)\<rparr> else m)"

lemma under_way_taken_up: "\<forall>m \<in> set ms. out_ok m \<Longrightarrow> under_way (map taken_up ms) = under_way ms + length (filter parked ms)"
  by (induction ms) (auto simp: taken_up_def parked_def out_ok_def waiting_state_def)

lemma taken_up_not_parked: "out_ok m \<Longrightarrow> \<not> parked (taken_up m)"
  by (auto simp: taken_up_def parked_def out_ok_def waiting_state_def)

lemma start_parked_prefix:
  assumes "start_parked ms cl = (rc, ms', cl')" and "\<forall>m \<in> set ms. out_ok m"
  shows "\<exists>n. ms' = map taken_up (take n ms) @ drop n ms \<and>
    inflight_messages cl' = inflight_messages cl + int (length (filter parked (take n ms))) \<and>
    (rc = 0 \<longrightarrow> (\<exists>m \<in> set (drop n ms). parked m) \<longrightarrow> \<not> window_open cl')"
  using assms
proof (induction ms arbitrary: cl rc ms' cl')
  case (Cons m ms)
  consider (closed) "\<not> window_open cl" | (skip) "window_open cl" "\<not> parked m" | (start) "window_open cl" "parked m" by blast
  then show ?case
  proof cases
    case closed
    then show ?thesis using Cons.prems(1) by (intro exI [of _ 0]) auto
  next
    case skip
    then obtain ms1 where s: "start_parked ms cl = (rc, ms1, cl')" "ms' = m # ms1"
      using Cons.prems(1) by (auto split: prod.splits)
    obtain n where "ms1 = map taken_up (take n ms) @ drop n ms"
        "inflight_messages cl' = inflight_messages cl + int (length (filter parked (take n ms)))"
        "rc = 0 \<longrightarrow> (\<exists>m \<in> set (drop n ms). parked m) \<longrightarrow> \<not> window_open cl'"
      using Cons.IH [OF s(1)] Cons.prems(2) by auto
    then show ?thesis using skip(2) s(2) by (intro exI [of _ "Suc n"]) (simp add: taken_up_def)
  next
    case start
    let ?cl = "cl\<lparr>inflight_messages := inflight_messages cl + 1\<rparr>"
    obtain rc1 cl1 where r: "resend (taken_up m) ?cl = (rc1, cl1)" by (rule prod.exhaust)
    have "out_ok (taken_up m)" using Cons.prems(2) by (simp add: out_ok_def taken_up_def)
    then have "queues cl1 = queues ?cl" using resend_only_sent [of "taken_up m" ?cl] r by (simp add: out_ok_def only_sent_def)
    then have i: "inflight_messages cl1 = inflight_messages cl + 1" using queues_eqD(7) [of cl1 ?cl] by simp
    show ?thesis
    proof (cases "rc1 = 0")
      case False
      then have "rc = rc1 \<and> ms' = taken_up m # ms \<and> cl' = cl1" using Cons.prems(1) start r by (auto simp: taken_up_def)
      then show ?thesis using i False start(2) by (intro exI [of _ 1]) simp
    next
      case True
      then obtain ms1 where s: "start_parked ms cl1 = (rc, ms1, cl')" "ms' = taken_up m # ms1"
        using Cons.prems(1) start r by (auto simp: taken_up_def split: prod.splits)
      obtain n where "ms1 = map taken_up (take n ms) @ drop n ms"
          "inflight_messages cl' = inflight_messages cl1 + int (length (filter parked (take n ms)))"
          "rc = 0 \<longrightarrow> (\<exists>m \<in> set (drop n ms). parked m) \<longrightarrow> \<not> window_open cl'"
        using Cons.IH [OF s(1)] Cons.prems(2) by auto
      then show ?thesis using i start(2) s(2) by (intro exI [of _ "Suc n"]) simp
    qed
  qed
qed simp


subsection \<open>After a reconnection\<close>

lemma ack_head:
  assumes "out_messages cl = m # ms" and "0 < mm_qos (ma_msg m)" and "0 < max_inflight_messages cl"
    and "max_inflight_messages cl < inflight_messages cl"
  shows "mosquitto_message_delete (mm_mid (ma_msg m)) mosq_md_out cl =
    (MOSQ_ERR_SUCCESS, cl\<lparr>out_messages := ms, out_queue_len := out_queue_len cl - 1,
       out_messages_last := last_after None (ms = []) ms (out_messages_last cl), inflight_messages := inflight_messages cl - 1\<rparr>)"
proof -
  have "start_parked ms c = (MOSQ_ERR_SUCCESS, ms, c)" if "\<not> window_open c" for c
    using that by (cases ms) simp_all
  then show ?thesis using assms
    by (simp add: mosquitto_message_delete_def mosquitto_message_remove_def window_open_def)
qed

definition acknowledge :: "message_all list \<Rightarrow> client \<Rightarrow> client" where
  "acknowledge ms cl = fold (\<lambda>m c. snd (mosquitto_message_delete (mm_mid (ma_msg m)) mosq_md_out c)) ms cl"

lemma acknowledge_stalls:
  assumes "out_messages cl = as @ bs" and "\<forall>m \<in> set as. 0 < mm_qos (ma_msg m)" and "0 < max_inflight_messages cl"
    and "inflight_messages cl = int (length (as @ bs))" and "max_inflight_messages cl \<le> int (length bs)"
    and "map ma_msg as = map ma_msg as'"
  shows "out_messages (acknowledge as' cl) = bs \<and> inflight_messages (acknowledge as' cl) = int (length bs) \<and>
    conn (acknowledge as' cl) = conn cl \<and> max_inflight_messages (acknowledge as' cl) = max_inflight_messages cl"
  using assms
proof (induction as arbitrary: cl as')
  case Nil
  then show ?case by (simp add: acknowledge_def)
next
  case (Cons m as)
  obtain m' as1 where as': "as' = m' # as1" "ma_msg m' = ma_msg m" "map ma_msg as = map ma_msg as1"
    using Cons.prems(6) by (cases as') auto
  let ?c = "cl\<lparr>out_messages := as @ bs, out_queue_len := out_queue_len cl - 1,
       out_messages_last := last_after None (as @ bs = []) (as @ bs) (out_messages_last cl),
       inflight_messages := inflight_messages cl - 1\<rparr>"
  have "mosquitto_message_delete (mm_mid (ma_msg m)) mosq_md_out cl = (MOSQ_ERR_SUCCESS, ?c)"
    by (rule ack_head) (use Cons.prems in auto)
  then have "acknowledge as' cl = acknowledge as1 ?c" by (simp add: acknowledge_def as'(1,2))
  then show ?case using Cons.IH [of ?c as1] Cons.prems as'(3) by simp
qed


subsection \<open>How often a QoS 2 message is handed over\<close>

definition receive_times :: "nat \<Rightarrow> packet \<Rightarrow> client \<Rightarrow> client" where
  "receive_times k p = ((\<lambda>c. snd (receive p c)) ^^ k)"

lemma receive_times_Suc: "receive_times (Suc k) p cl = receive_times k p (snd (receive p cl))"
  by (simp add: receive_times_def funpow_Suc_right del: funpow.simps)

lemma receive_publish_step:
  assumes "good h cl" and "command p AND 0xF0 = PUBLISH" and "fst (publish_fields p) = Inr (dup, g)" and "mm_qos g = 2"
  shows "good h (snd (receive p cl)) \<and> passed_on (snd (receive p cl)) = passed_on cl \<and> same_session cl (snd (receive p cl)) \<and>
    (\<exists>m. ma_msg m = g \<and> in_messages (snd (receive p cl)) = in_messages cl @ [m])"
proof -
  let ?cl = "upd_conn (\<lambda>c. c\<lparr>in_packet := p\<rparr>) cl"
  have g: "good h ?cl" using assms(1) good_queues [of ?cl cl] by simp
  have i: "in_messages ?cl = in_messages cl" "same_session cl ?cl" by (simp_all add: upd_conn_def same_session_def)
  have "receive p cl = lib_handle_publish ?cl" using assms(2) by (simp add: receive_def lib_packet_handle_def)
  then show ?thesis
    using publish_result(1) [OF g] publish_result(2) [OF g, of dup g] assms(3,4) i same_session_trans [OF i(2)] by simp
qed

lemma receive_pubrel_step:
  assumes "good h cl" and "command p = PUBREL OR 2" and "fst (mosquitto_read_uint16 p) = Inr mid"
  shows "good h (snd (receive p cl)) \<and> same_session cl (snd (receive p cl)) \<and>
    (case unlink mid None (in_messages cl) of
       None \<Rightarrow> passed_on (snd (receive p cl)) = passed_on cl \<and> in_messages (snd (receive p cl)) = in_messages cl
     | Some (cur, q, at_end, others) \<Rightarrow>
         passed_on (snd (receive p cl)) = passed_on cl @ (if on_message cl then [ma_msg cur] else []) \<and>
         in_messages (snd (receive p cl)) = others)"
proof -
  let ?cl = "upd_conn (\<lambda>c. c\<lparr>in_packet := p\<rparr>) cl"
  have g: "good h ?cl" using assms(1) good_queues [of ?cl cl] by simp
  have i: "in_messages ?cl = in_messages cl" "same_session cl ?cl" "on_message ?cl = on_message cl"
    by (simp_all add: upd_conn_def same_session_def)
  have c: "command p = 0x62" using assms(2) by simp
  have "receive p cl = lib_handle_pubrel ?cl" by (simp add: receive_def lib_packet_handle_def c)
  then show ?thesis
    using pubrel_result [OF g, of mid] assms(3) c i same_session_trans [OF i(2)] by (simp add: c cong: option.case_cong)
qed

lemma receive_publish_times:
  assumes "good h cl" and "command p AND 0xF0 = PUBLISH" and "fst (publish_fields p) = Inr (dup, g)" and "mm_qos g = 2"
  shows "\<exists>ms. good h (receive_times k p cl) \<and> passed_on (receive_times k p cl) = passed_on cl \<and>
    same_session cl (receive_times k p cl) \<and> map ma_msg ms = replicate k g \<and>
    in_messages (receive_times k p cl) = in_messages cl @ ms"
  using assms(1)
proof (induction k arbitrary: cl)
  case 0
  show ?case by (rule exI [of _ "[]"]) (simp add: receive_times_def 0 same_session_def)
next
  case (Suc k)
  let ?c = "snd (receive p cl)"
  obtain m where s: "good h ?c" "passed_on ?c = passed_on cl" "same_session cl ?c" "ma_msg m = g"
    "in_messages ?c = in_messages cl @ [m]"
    using receive_publish_step [OF Suc.prems assms(2-4)] by blast
  obtain ms where "good h (receive_times k p ?c)" "passed_on (receive_times k p ?c) = passed_on ?c"
    "same_session ?c (receive_times k p ?c)" "map ma_msg ms = replicate k g" "in_messages (receive_times k p ?c) = in_messages ?c @ ms"
    using Suc.IH [OF s(1)] by blast
  then show ?case using s same_session_trans [OF s(3)] by (intro exI [of _ "m # ms"]) (simp add: receive_times_Suc)
qed

lemma receive_pubrel_times:
  assumes "good h cl" and "on_message cl" and "command p = PUBREL OR 2" and "fst (mosquitto_read_uint16 p) = Inr (mm_mid g)"
    and "in_messages cl = ms @ ns" and "\<forall>m \<in> set ms. mm_mid (ma_msg m) \<noteq> mm_mid g" and "map ma_msg ns = replicate k g"
  shows "passed_on (receive_times j p cl) = passed_on cl @ replicate (min k j) g"
  using assms
proof (induction j arbitrary: cl ns k)
  case 0
  show ?case by (simp add: receive_times_def)
next
  case (Suc j)
  let ?c = "snd (receive p cl)"
  note step = receive_pubrel_step [OF Suc.prems(1,3,4)]
  show ?case
  proof (cases ns)
    case Nil
    then have k: "k = 0" using Suc.prems(7) by simp
    have "unlink (mm_mid g) None (in_messages cl) = None" using Suc.prems(5,6) Nil by (simp add: unlink_None)
    then have s: "good h ?c" "same_session cl ?c" "passed_on ?c = passed_on cl" "in_messages ?c = in_messages cl"
      using step by simp_all
    have "passed_on (receive_times j p ?c) = passed_on ?c @ replicate (min k j) g"
      by (rule Suc.IH [OF s(1)]) (use Suc.prems s in \<open>simp_all add: same_session_def\<close>)
    then show ?thesis using s k by (simp add: receive_times_Suc)
  next
    case (Cons n ns')
    then obtain k' where k: "k = Suc k'" "ma_msg n = g" "map ma_msg ns' = replicate k' g"
      using Suc.prems(7) by (cases k) auto
    have "unlink (mm_mid g) None (in_messages cl) =
        Some (n, if ms = [] then None else Some (ma_ptr (last ms)), ns' = [], ms @ ns')"
      by (rule unlink_first) (use Suc.prems(5,6) Cons k(2) in simp_all)
    then have s: "good h ?c" "same_session cl ?c" "passed_on ?c = passed_on cl @ [g]" "in_messages ?c = ms @ ns'"
      using step k(2) Suc.prems(2) by simp_all
    have "passed_on (receive_times j p ?c) = passed_on ?c @ replicate (min k' j) g"
      by (rule Suc.IH [OF s(1) _ Suc.prems(3,4) s(4) Suc.prems(6) k(3)]) (use Suc.prems(2) s(2) in \<open>simp add: same_session_def\<close>)
    then show ?thesis using s(3) k(1) by (simp add: receive_times_Suc)
  qed
qed


subsection \<open>Samples\<close>

text \<open>A client that is not connected, with places for two messages, and three messages at QoS 1.\<close>

definition sample_client :: client where
  "sample_client = snd (mosquitto_max_inflight_messages_set 2 (client_init ''c'' False 5))"

lemma sample_client_run: "h = None \<or> h = Some 2 \<Longrightarrow> client_run h sample_client"
  unfolding sample_client_def by (rule run_new) (auto simp: limit_ok_def)

definition publish_one :: "client \<Rightarrow> client" where
  "publish_one cl = snd (snd (mosquitto_publish (Some ''a'') 1 [7] 1 False cl))"

definition three_waiting :: client where
  "three_waiting = publish_one (publish_one (publish_one sample_client))"

lemma three_waiting_run: "h = None \<or> h = Some 2 \<Longrightarrow> client_run h three_waiting"
  unfolding three_waiting_def publish_one_def by (intro run_publish sample_client_run)

lemma last_mid_zero [simp]: "last_mid ctx_zero = 0"
  by (simp add: ctx_zero_def)

lemmas client_run_defs = publish_one_def sample_client_def mosquitto_max_inflight_messages_set_def client_init_def mosquitto_publish_def mosquitto_mid_generate_def
  new_message_def mosquitto_message_queue_def append_last_def window_open_def set_out_state_def waiting_state_def resend_def
  lib_send_publish_def mosquitto_pub_topic_check_def

lemma one_published: "publish_one sample_client = sample_client\<lparr>conn := (conn sample_client)\<lparr>last_mid := 1\<rparr>, cl_next := 2,
    out_messages := [\<lparr>ma_ptr = 1, ma_timestamp = 5, ma_state = mosq_ms_wait_for_puback, ma_dup = False,
      ma_msg = \<lparr>mm_mid = 1, mm_topic = ''a'', mm_payload = [7], mm_qos = 1, mm_retain = False\<rparr>\<rparr>],
    out_messages_last := Some 1, out_queue_len := 1, inflight_messages := 1\<rparr>"
  by (simp add: client_run_defs Let_def)

lemma three_waiting_out: "map (\<lambda>m. (ma_state m, mm_qos (ma_msg m))) (out_messages three_waiting) =
    [(mosq_ms_wait_for_puback, 1), (mosq_ms_wait_for_puback, 1), (mosq_ms_invalid, 1)]"
  "max_inflight_messages three_waiting = 2"
  unfolding three_waiting_def one_published by (simp_all add: client_run_defs Let_def)


text \<open>
  A client whose connection takes no bytes for now: what it sends waits in its queue, and sending succeeds.
\<close>

definition blocked :: "client \<Rightarrow> bool" where
  "blocked cl \<longleftrightarrow> sock (conn cl) \<noteq> INVALID_SOCKET \<and> state (conn cl) \<noteq> mosq_cs_connect_pending \<and> wr_answers (conn cl) = [] \<and>
     (case current_out_packet (conn cl) of None \<Rightarrow> out_packet (conn cl) = [] | Some p \<Rightarrow> 0 < to_process p)"

lemma blocked_conn: "conn cl' = conn cl \<Longrightarrow> blocked cl \<Longrightarrow> blocked cl'"
  by (simp add: blocked_def cong: option.case_cong)

lemma blocked_write_loop:
  assumes "wr_answers (conn cl) = []" and "current_out_packet (conn cl) = Some p" and "0 < to_process p"
  shows "lib_write_loop cl = (MOSQ_ERR_SUCCESS, cl)"
  using assms by (subst lib_write_loop.simps) (simp add: mosquitto_net_write_def)

lemma blocked_queue:
  assumes "blocked cl" and "0 < packet_length p"
  shows "fst (lib_packet_queue p cl) = MOSQ_ERR_SUCCESS \<and> blocked (snd (lib_packet_queue p cl))"
proof (cases "current_out_packet (conn cl)")
  case None
  then show ?thesis using assms
    by (simp add: blocked_def lib_packet_queue_def lib_packet_write_def first_out_packet_def next_out_packet_def upd_conn_def
        blocked_write_loop Let_def)
next
  case (Some q)
  then show ?thesis using assms
    by (simp add: blocked_def lib_packet_queue_def lib_packet_write_def first_out_packet_def upd_conn_def blocked_write_loop Let_def)
qed

lemma blocked_resend:
  assumes "blocked cl" and "length (mm_topic (ma_msg m)) \<le> 65535" and "length (mm_payload (ma_msg m)) < 2 ^ 27"
  shows "fst (resend m cl) = MOSQ_ERR_SUCCESS \<and> blocked (snd (resend m cl))"
proof -
  let ?g = "ma_msg m"
  let ?body = "publish_body (mm_mid ?g) (mm_topic ?g) (mm_payload ?g) (mm_qos ?g)"
  let ?p = "publish_packet (mm_mid ?g) (mm_topic ?g) (mm_payload ?g) (mm_qos ?g) (mm_retain ?g) (ma_dup m)"
  have len: "length ?body < 2 ^ 28" using assms(2,3) by (simp add: publish_body_def enc_string_def uint16_bytes_def)
  obtain q q' where q: "mosquitto_packet_alloc ?p = (MOSQ_ERR_SUCCESS, q)"
    "fill_publish (mm_mid ?g) (mm_topic ?g) (mm_payload ?g) (mm_qos ?g) q = Some q'" "appends ?body q q'"
    "unat (remaining_length ?p) = length ?body"
    using publish_fills [OF assms(2) len] by blast
  have "write_wf q" using filled_packet(1) [OF q(1)] q(4) len by simp
  moreover have "written q \<noteq> []" using filled_packet(3) [OF q(1)] q(4) len by simp
  ultimately have "0 < packet_length q" by (auto simp: write_wf_def written_def word_gt_0)
  moreover have "packet_length q' = packet_length q" using q(3) by (cases q') (auto simp: appends_def)
  moreover have "sock (conn cl) \<noteq> INVALID_SOCKET" using assms(1) by (simp add: blocked_def)
  ultimately show ?thesis using blocked_queue [OF assms(1), of q'] q(1,2)
    by (simp add: resend_def Let_def lib_send_publish_def lib_send_real_publish_def)
qed

lemma blocked_start:
  assumes "blocked cl" and "\<forall>m \<in> set ms. length (mm_topic (ma_msg m)) \<le> 65535 \<and> length (mm_payload (ma_msg m)) < 2 ^ 27"
  shows "fst (start_parked ms cl) = MOSQ_ERR_SUCCESS"
  using assms
proof (induction ms arbitrary: cl)
  case (Cons m ms)
  let ?m = "m\<lparr>ma_state := waiting_state (mm_qos (ma_msg m)) (ma_state m)\<rparr>"
  let ?cl = "cl\<lparr>inflight_messages := inflight_messages cl + 1\<rparr>"
  have "blocked ?cl" using Cons.prems(1) by (rule blocked_conn [rotated]) simp
  then have "fst (resend ?m ?cl) = 0 \<and> blocked (snd (resend ?m ?cl))"
    using blocked_resend [of ?cl ?m] Cons.prems(2) by simp
  then show ?case using Cons.IH [of "snd (resend ?m ?cl)"] Cons.IH [of cl] Cons.prems
    by (auto simp: Let_def split: prod.splits)
qed simp

text \<open>One more of the small messages, on a connection that takes no bytes.\<close>

lemma one_more:
  assumes "good None cl" and "blocked cl"
  shows "\<exists>m. out_messages (publish_one cl) = out_messages cl @ [m] \<and> mm_mid (ma_msg m) = fst (mosquitto_mid_generate (conn cl)) \<and>
    mm_qos (ma_msg m) = 1 \<and> length (mm_topic (ma_msg m)) = 1 \<and> length (mm_payload (ma_msg m)) = 1 \<and>
    ma_state m = (if window_open cl then mosq_ms_wait_for_puback else mosq_ms_invalid) \<and>
    inflight_messages (publish_one cl) = inflight_messages cl + (if window_open cl then 1 else 0) \<and>
    max_inflight_messages (publish_one cl) = max_inflight_messages cl \<and> blocked (publish_one cl)"
proof -
  obtain mid c where mid: "mosquitto_mid_generate (conn cl) = (mid, c)" by (rule prod.exhaust)
  have c: "c = (conn cl)\<lparr>last_mid := mid\<rparr>" using mid by (auto simp: mosquitto_mid_generate_def Let_def)
  let ?m = "\<lparr>ma_ptr = cl_next cl, ma_timestamp = clock cl, ma_state = mosq_ms_invalid, ma_dup = False,
    ma_msg = \<lparr>mm_mid = mid, mm_topic = ''a'', mm_payload = [7], mm_qos = Suc 0, mm_retain = False\<rparr>\<rparr>"
  have outs: "list_ok (cl_next cl) (out_messages cl) (out_messages_last cl)" using assms(1) by (simp add: good_def lib_ok_def)
  have f: "\<not> cl_fault cl" using assms(1) by (simp add: good_def lib_ok_def)
  note app = append_last_ok [OF outs, of ?m]
  have old: "map (\<lambda>x. if ma_ptr x = cl_next cl then x\<lparr>ma_state := st\<rparr> else x) (out_messages cl) = out_messages cl" for st
    using outs by (intro map_idI) (auto simp: list_ok_def)
  let ?st = "if window_open cl then mosq_ms_wait_for_puback else mosq_ms_invalid"
  let ?cl = "cl\<lparr>conn := c, cl_next := Suc (cl_next cl), out_queue_len := out_queue_len cl + 1,
    out_messages_last := Some (cl_next cl), cl_fault := False, inflight_messages := inflight_messages cl + (if window_open cl then 1 else 0),
    out_messages := out_messages cl @ [?m\<lparr>ma_state := ?st\<rparr>]\<rparr>"
  let ?q = "cl\<lparr>conn := c, cl_next := Suc (cl_next cl), out_queue_len := out_queue_len cl + 1, out_messages := out_messages cl @ [?m],
    out_messages_last := Some (cl_next cl), cl_fault := False\<rparr>"
  have w: "window_open ?q = window_open cl" by (simp add: window_open_def)
  have n: "new_message False mosq_ms_invalid (ma_msg ?m) (cl\<lparr>conn := c\<rparr>) = (?m, cl\<lparr>conn := c, cl_next := Suc (cl_next cl)\<rparr>)"
    by (simp add: new_message_def)
  have q: "mosquitto_message_queue ?m mosq_md_out (cl\<lparr>conn := c, cl_next := Suc (cl_next cl)\<rparr>) =
      (if window_open cl then 0 else 1, if window_open cl then ?q\<lparr>inflight_messages := inflight_messages cl + 1\<rparr> else ?q)"
    using w f by (simp add: mosquitto_message_queue_def app Let_def)
  have t: "mosquitto_pub_topic_check ''a'' = MOSQ_ERR_SUCCESS" by (simp add: mosquitto_pub_topic_check_def)
  have r: "publish_one cl = (if window_open cl then snd (resend ?m ?cl) else ?cl)"
    using n q unfolding publish_one_def mosquitto_publish_def by (simp add: t mid old set_out_state_def waiting_state_def split: prod.splits)
  define cl1 where "cl1 = ?cl"
  have b: "blocked cl1" unfolding cl1_def using assms(2) by (simp add: blocked_def c cong: option.case_cong)
  have "only_sent cl1 (snd (resend ?m cl1))" by (rule resend_only_sent) (simp add: sendable_def)
  then have "queues (snd (resend ?m cl1)) = queues cl1" by (simp add: only_sent_def)
  note q = queues_eqD(3,7,8) [OF this]
  have "blocked (publish_one cl)" unfolding r cl1_def [symmetric] using blocked_resend [OF b, of ?m] b by simp
  moreover have "out_messages (publish_one cl) = out_messages cl1" "inflight_messages (publish_one cl) = inflight_messages cl1"
      "max_inflight_messages (publish_one cl) = max_inflight_messages cl1"
    unfolding r cl1_def [symmetric] using q by simp_all
  then have "out_messages (publish_one cl) = out_messages cl @ [?m\<lparr>ma_state := ?st\<rparr>]"
      "inflight_messages (publish_one cl) = inflight_messages cl + (if window_open cl then 1 else 0)"
      "max_inflight_messages (publish_one cl) = max_inflight_messages cl"
    by (simp_all add: cl1_def)
  ultimately show ?thesis by (intro exI [of _ "?m\<lparr>ma_state := ?st\<rparr>"]) (simp add: mid)
qed

definition connected_sample :: client where
  "connected_sample = upd_conn (\<lambda>c. c\<lparr>sock := 3\<rparr>) (reconnect_prepare sample_client)"

lemma connected_sample: "client_run (Some 2) connected_sample" "blocked connected_sample" "out_messages connected_sample = []"
  "inflight_messages connected_sample = 0" "max_inflight_messages connected_sample = 2"
  "fst (mosquitto_mid_generate (conn connected_sample)) = 1"
proof -
  show "client_run (Some 2) connected_sample" unfolding connected_sample_def by (intro run_reconnect sample_client_run) simp
qed (simp_all add: connected_sample_def sample_client_def client_init_def mosquitto_max_inflight_messages_set_def reconnect_prepare_def
    mosquitto_messages_reconnect_reset_def upd_conn_def blocked_def mosquitto_mid_generate_def mosquitto_packet_cleanup_def ctx_zero_def Let_def)

definition three_sent :: client where
  "three_sent = publish_one (publish_one (publish_one connected_sample))"

lemma three_sent_run: "client_run (Some 2) three_sent"
  unfolding three_sent_def publish_one_def by (intro run_publish connected_sample)

lemma three_sent_out:
  obtains m1 m2 m3 where "out_messages three_sent = [m1, m2, m3]" and "mm_mid (ma_msg m1) = 1" and "inflight_messages three_sent = 2"
    and "max_inflight_messages three_sent = 2" and "blocked three_sent"
    and "ma_state m1 = mosq_ms_wait_for_puback" and "ma_state m2 = mosq_ms_wait_for_puback" and "ma_state m3 = mosq_ms_invalid"
    and "\<forall>m \<in> {m1, m2, m3}. mm_qos (ma_msg m) = 1 \<and> length (mm_topic (ma_msg m)) = 1 \<and> length (mm_payload (ma_msg m)) = 1"
proof -
  let ?c0 = connected_sample and ?c1 = "publish_one connected_sample" and ?c2 = "publish_one (publish_one connected_sample)"
  have run: "client_run (Some 2) (publish_one cl)" if "client_run (Some 2) cl" for cl
    unfolding publish_one_def using that by (rule run_publish)
  have g: "good None ?c0" "good None ?c1" "good None ?c2"
    using good_any [OF client_run_good [OF connected_sample(1)]] good_any [OF client_run_good [OF run [OF connected_sample(1)]]]
      good_any [OF client_run_good [OF run [OF run [OF connected_sample(1)]]]] by simp_all
  obtain m1 where m1: "out_messages ?c1 = [m1]" "mm_mid (ma_msg m1) = 1" "inflight_messages ?c1 = 1" "max_inflight_messages ?c1 = 2"
      "blocked ?c1" "ma_state m1 = mosq_ms_wait_for_puback" "mm_qos (ma_msg m1) = 1" "length (mm_topic (ma_msg m1)) = 1" "length (mm_payload (ma_msg m1)) = 1"
    using one_more [OF g(1) connected_sample(2)] by (auto simp: connected_sample(3-6) window_open_def)
  obtain m2 where m2: "out_messages ?c2 = [m1, m2]" "inflight_messages ?c2 = 2" "max_inflight_messages ?c2 = 2"
      "blocked ?c2" "ma_state m2 = mosq_ms_wait_for_puback" "mm_qos (ma_msg m2) = 1" "length (mm_topic (ma_msg m2)) = 1" "length (mm_payload (ma_msg m2)) = 1"
    using one_more [OF g(2) m1(5)] m1(1,3,4) by (auto simp: window_open_def)
  obtain m3 where "out_messages three_sent = [m1, m2, m3]" "inflight_messages three_sent = 2" "max_inflight_messages three_sent = 2"
      "blocked three_sent" "ma_state m3 = mosq_ms_invalid" "mm_qos (ma_msg m3) = 1" "length (mm_topic (ma_msg m3)) = 1" "length (mm_payload (ma_msg m3)) = 1"
    using one_more [OF g(3) m2(4)] m2(1-3) by (auto simp: window_open_def three_sent_def)
  then show ?thesis using that m1 m2 by auto
qed



definition sample_publish :: packet where
  "sample_publish = packet_zero\<lparr>command := 0x34, remaining_length := 6, payload := [0, 1, 0x61, 0, 9, 0x21]\<rparr>"

definition sample_pubrel :: packet where
  "sample_pubrel = packet_zero\<lparr>command := 0x62, remaining_length := 2, payload := [0, 9]\<rparr>"


end
