(* ===== verification/Spec2Isabelle.thy ===== *)
theory Spec2Isabelle
  imports Topics Packet OutQueue Reader Send Messages Security SubTree Delivery Subscriptions TreeInv Publish Broker Context Handlers Connect Takeover SendClient Bridge Wire Dispatch Loop Persist Restore Client ClientInv ClientProps
begin

text \<open>
  The broker mosquitto 1.4.5, as it is built in this repository: with \<^verbatim>\<open>WITH_BROKER\<close>, TLS, TLS-PSK,
  bridges, persistence, \<^verbatim>\<open>$SYS\<close> and UUID, without websockets and SRV records; and the message queues of
  its client library, \<^verbatim>\<open>libmosquitto\<close>. File names below are relative to \<^verbatim>\<open>src/Kocom/mosquitto\<close>.

  \<^bold>\<open>The program.\<close> A single thread runs \<^verbatim>\<open>mosquitto_main_loop\<close>. Each turn writes the queues of the
  clients, fills a poll array, polls, closes what failed, and reads from and accepts the sockets that
  are ready. A client is a \<^verbatim>\<open>struct mosquitto\<close>, its context. Bytes from its socket are put together
  into one packet (\<^verbatim>\<open>_mosquitto_packet_read\<close>), which \<^verbatim>\<open>mqtt3_packet_handle\<close> gives to the handler of
  its type. A handler changes the database: the stored messages, the queue of messages of each client,
  the tree of subscriptions with the retained messages, and the tables of contexts by identifier and
  by socket. It answers by putting packets into the outgoing queue of a context.
  The client library is compiled from the same files under \<^verbatim>\<open>lib\<close>, without \<^verbatim>\<open>WITH_BROKER\<close>, and with
  \<^verbatim>\<open>lib/mosquitto.c\<close>, \<^verbatim>\<open>lib/messages_mosq.c\<close> and \<^verbatim>\<open>lib/read_handle.c\<close> added. An application publishes through it; a
  message with a QoS is kept in a queue until the broker acknowledges it, and no more than
  \<^verbatim>\<open>max_inflight_messages\<close> of them may be under way.

  \<^bold>\<open>The state.\<close> \<open>db\<close> of \<^verbatim>\<open>Types\<close> is \<^verbatim>\<open>struct mosquitto_db\<close> with the file-level variables of the C
  files (\<open>globals\<close>). Contexts and stored messages are shared through pointers and live in heaps: a
  context under its address in \<open>contexts\<close>, a stored message in the list \<open>msg_store\<close>. A queue is the
  list of its messages with the address its \<^verbatim>\<open>last_msg\<close> holds, so that a stale pointer can be seen.
  A node of the tree is named by its path. The hash tables are association lists, the newest entry
  first. A failing \<^verbatim>\<open>assert\<close>, the use of freed memory, or the deletion from a hash table of what is
  not in it set the flag \<open>fault\<close>; the invariants show that it is not set. An integer has its width
  where the code relies on it (packet lengths, positions, message ids, traffic counters); counts of
  things in memory are unbounded.

  \<^bold>\<open>Theories.\<close>

  \<^item> \<^verbatim>\<open>Prelude\<close>: words, bytes and C strings, the return codes, shared lemmas.
  \<^item> \<^verbatim>\<open>Types\<close>: the structs and enums of \<^verbatim>\<open>lib/mosquitto_internal.h\<close> and \<^verbatim>\<open>src/mosquitto_broker.h\<close>.
  \<^item> \<^verbatim>\<open>Topics\<close>: the checks and the matcher of \<^verbatim>\<open>lib/util_mosq.c\<close>, compared with the MQTT rule.
  \<^item> \<^verbatim>\<open>Packet\<close>: allocation and the field readers and writers of \<^verbatim>\<open>lib/util_mosq.c\<close> and
    \<^verbatim>\<open>lib/net_mosq.c\<close>. The locale \<open>field_codec\<close> states that what a writer appends its reader reads
    back; it is interpreted for bytes, 16-bit numbers and strings.
  \<^item> \<^verbatim>\<open>OutQueue\<close>: \<^verbatim>\<open>_mosquitto_packet_queue\<close> and \<^verbatim>\<open>_mosquitto_packet_write\<close> of \<^verbatim>\<open>lib/net_mosq.c\<close>: bytes
    leave in order, none lost and none twice.
  \<^item> \<^verbatim>\<open>Reader\<close>, \<^verbatim>\<open>Wire\<close>: \<^verbatim>\<open>_mosquitto_packet_read\<close> up to the handler: it puts a packet together from
    any pieces, and stays inside its buffer whatever arrives.
  \<^item> \<^verbatim>\<open>Send\<close>, \<^verbatim>\<open>SendClient\<close>: \<^verbatim>\<open>lib/send_mosq.c\<close>, \<^verbatim>\<open>src/send_server.c\<close>, \<^verbatim>\<open>lib/send_client_mosq.c\<close> and
    \<^verbatim>\<open>lib/will_mosq.c\<close>: the frames that go out, and a CONNECT read back.
  \<^item> \<^verbatim>\<open>Messages\<close>: the stored messages and the queues of \<^verbatim>\<open>src/database.c\<close>. The locale \<open>ref_counted\<close> is the contract
    of the counted references; \<open>msgs_inv\<close> says that counts, counters and \<^verbatim>\<open>last_msg\<close> are right.
  \<^item> \<^verbatim>\<open>Security\<close>: \<^verbatim>\<open>src/security_default.c\<close> and the calls of a plugin in \<^verbatim>\<open>src/security.c\<close>.
  \<^item> \<^verbatim>\<open>SubTree\<close>: \<^verbatim>\<open>src/subs.c\<close> and the rest of \<^verbatim>\<open>src/database.c\<close>. \<^verbatim>\<open>Delivery\<close>: which nodes a
    publication visits. \<^verbatim>\<open>Subscriptions\<close>: the tree as a table of subscriptions, with the locale \<open>subscription_table\<close>. \<^verbatim>\<open>TreeInv\<close>: delivery
    keeps the counts. \<^verbatim>\<open>Publish\<close>: who receives a publication and what is retained.
  \<^item> \<^verbatim>\<open>Broker\<close>: the invariant \<open>broker_inv\<close> of messages and subscriptions together, and what an operation
    leaves alone (\<open>calm\<close>).
  \<^item> \<^verbatim>\<open>Context\<close>: \<^verbatim>\<open>src/context.c\<close>, closing a socket, the keepalive check, disconnecting.
  \<^item> \<^verbatim>\<open>Handlers\<close>: the handlers of \<^verbatim>\<open>src/read_handle.c\<close>, \<^verbatim>\<open>src/read_handle_server.c\<close> and
    \<^verbatim>\<open>lib/read_handle_shared.c\<close>. \<^verbatim>\<open>Connect\<close>, \<^verbatim>\<open>Takeover\<close>: the handler of CONNECT, its refusals and
    the taking over of a session.
  \<^item> \<^verbatim>\<open>Bridge\<close>: \<^verbatim>\<open>src/bridge.c\<close> and \<^verbatim>\<open>src/read_handle_client.c\<close>.
  \<^item> \<^verbatim>\<open>Dispatch\<close>: \<^verbatim>\<open>mqtt3_packet_handle\<close> and the whole of \<^verbatim>\<open>_mosquitto_packet_read\<close>. Here is \<open>sound\<close>,
    the invariant of the whole broker, and the refinement of an abstract register of names.
  \<^item> \<^verbatim>\<open>Loop\<close>: one turn of \<^verbatim>\<open>src/loop.c\<close> with \<^verbatim>\<open>mqtt3_socket_accept\<close> of \<^verbatim>\<open>src/net.c\<close>, and the broker
    that runs from its start (\<open>running\<close>).
  \<^item> \<^verbatim>\<open>Persist\<close>: \<^verbatim>\<open>src/persist.c\<close>. A file is a list of bytes and says a list of chunks. The locale
    \<open>file_field\<close> states that what \<^verbatim>\<open>fwrite\<close> puts into a file a reader takes out again; it is
    interpreted for each kind of field. \<^verbatim>\<open>Restore\<close>: a broker that is backed up and started again.
  \<^item> \<^verbatim>\<open>Client\<close>: the client library: \<^verbatim>\<open>lib/messages_mosq.c\<close>, \<^verbatim>\<open>lib/read_handle.c\<close>,
    \<^verbatim>\<open>lib/read_handle_client.c\<close>, parts of \<^verbatim>\<open>lib/mosquitto.c\<close>, and the library's variants of the handlers, of
    sending and of the outgoing queue. Its \<^verbatim>\<open>struct mosquitto\<close> is \<open>client\<close>, a context with two queues and the
    list of the callbacks made. \<^verbatim>\<open>ClientInv\<close>: the invariants of the queues, and the client that runs from
    its start (\<open>client_run\<close>). \<^verbatim>\<open>ClientProps\<close>: what an application can rely on.

  \<^bold>\<open>What is shown.\<close> For a broker that starts with an empty database, without access lists, plugin
  and bridges, every turn of the main loop returns, and every
  state it reaches is \<open>sound\<close>: each count of references is the number of references, the counters of
  a queue are its lengths, the subscriptions in the tree and the lists of the clients agree, an
  identifier names one context, a context is freed once, and a client that has not connected has
  nothing. The properties of the single components say what each operation does, on its error
  branches too, and compare it with a reference: the matching rule of MQTT, the level lists of a
  topic, the table of subscriptions, the register of names. A broker that writes its database, stops
  and starts again gives back to every lasting session its identifier, its queue and its
  subscriptions, and has the same retained messages; the counters of the restored queues are zero until
  the client connects again, and in everything else the new broker satisfies the invariant.
  In the client library the queues stay well formed in every run, and the number of messages under way
  stays within the limit; also shown is where the library does not keep what it means to: after a
  reconnection with a long queue it may stop sending, and a QoS 2 message that arrives twice before its release is
  handed over twice.

  \<^bold>\<open>Loops that may not end.\<close> Structural recursion is used where the C loop walks a list, and a measure
  where it walks a string. The loops over a queue that restart (\<open>message_write_loop\<close>,
  \<open>release_loop\<close>) and the handlers that read fields until a packet ends (\<open>subscribe_loop\<close>,
  \<open>unsubscribe_loop\<close>, \<open>suback_loop\<close>) are partial functions into \<^typ>\<open>'a option\<close>, where \<^const>\<open>None\<close> is
  not returning; that they return is proved. The loop over the chunks of a database file
  (\<open>restore_loop\<close>) is total on every list of bytes. No function has fuel.

  \<^bold>\<open>Parameters.\<close> What a socket answers is a list in the context, consumed call by call. What the kernel,
  OpenSSL and the allocator of contexts answer during a turn is the record \<open>kernel\<close>, of which
  \<open>kernel_ok\<close> asks that a new context has a fresh address and a new socket is not negative. The
  security plugin, the digest of passwords and the random part of an identifier are functions.
  Allocation succeeds. The disk says whether a file can be opened and renamed, how many bytes it
  takes, and how much of what was written so far the buffer of the stream has passed on to it; once the disk was
  full, nothing that is written later reaches it. The clocks stand still during an operation, and during a turn.

  \<^bold>\<open>Bounds of the theorems.\<close> \<open>sound\<close>, and so the theorems on the running broker, are about a broker
  without access lists, plugin and bridges; \<open>running\<close> starts from an empty database (with \<^verbatim>\<open>persistence\<close> in the
  configuration, it found no file), under any limits for the queues, with any users and keys: with access lists the handler of CONNECT
  leaves the counters of a queue wrong (\<^verbatim>\<open>Takeover\<close> shows it), and a bridge may be closed twice. The
  operations themselves are modelled with both. The theorem on a restart excludes what a file cannot
  say: it lists the conditions in \<open>restartable\<close>. In a file with numbers of messages that name no
  direction and no state, where C would store the number, the model sets \<open>fault\<close>. The client of the
  library runs in one thread, and calls the library outside its callbacks; the bound on the messages under way is for a broker that
  acknowledges only messages it was sent and an application that sets only positive limits up to that bound (the
  first argument of \<open>client_run\<close>). Two places of the C code read a variable that was not set: \<^verbatim>\<open>match\<close> of
  the topics of a bridge, when \<^verbatim>\<open>mosquitto_topic_matches_sub\<close> fails, is taken as no match (\<open>find_out_topic\<close>,
  \<open>remap_in\<close>).

  \<^bold>\<open>Not modelled.\<close> Reading \<^verbatim>\<open>mosquitto.conf\<close> (\<^verbatim>\<open>src/conf.c\<close>), whose results are the configuration and the
  listeners of the model; \<^verbatim>\<open>main\<close>, daemonising and signals (\<^verbatim>\<open>src/mosquitto.c\<close>, \<^verbatim>\<open>src/service.c\<close>), and with
  them reloading and printing the tree; the \<^verbatim>\<open>$SYS\<close> publications (\<^verbatim>\<open>src/sys_tree.c\<close>); the
  call of \<^verbatim>\<open>mqtt3_db_backup\<close> in the loop, of which a turn of the model has the counters and the clock
  only; logging;
  websockets; loading a plugin; opening listening sockets and the callbacks of OpenSSL;
  the vendored hash tables (\<^verbatim>\<open>src/uthash.h\<close>); in the client library the threads, the select
  loops, opening a connection, SOCKS, options, and subscribe and unsubscribe of its API; the command line
  programs and the tests.
\<close>

end
